(* ===== verification/Prelude.thy ===== *)
theory Prelude
  imports Main "HOL-Library.Word" "HOL-Library.Signed_Division"
begin

text \<open>
  Shared vocabulary of the development: the failures a C program can run into, the
  result type of an operation that may fail, sequencing, arrays whose bounds are
  checked, and the counted \<open>for\<close> loop with its total-correctness rule.
\<close>

section \<open>Failures and results\<close>

text \<open>
  Undefined behaviour and abnormal exits of the C code are values of \<open>c_error\<close>; an
  operation returns \<open>Inr\<close> of its result or \<open>Inl\<close> of the failure that ends it.
\<close>

datatype c_error =
    OutOfBounds        \<comment> \<open>an access outside its array or buffer\<close>
  | NullDeref          \<comment> \<open>an access through a null pointer\<close>
  | UseAfterFree       \<comment> \<open>an access to, or a second free of, a released block\<close>
  | Uninitialised      \<comment> \<open>the value of an object that was never written\<close>
  | AssertFail         \<comment> \<open>a failed \<open>assert\<close>\<close>
  | DivByZero          \<comment> \<open>a division by zero, or its result used as an integer\<close>
  | ExitCode int       \<comment> \<open>a call of \<open>exit\<close>\<close>

type_synonym 'a res = "c_error + 'a"

definition rbind :: "'a res \<Rightarrow> ('a \<Rightarrow> 'b res) \<Rightarrow> 'b res" where
  "rbind m f = (case m of Inl e \<Rightarrow> Inl e | Inr x \<Rightarrow> f x)"

definition rassert :: "bool \<Rightarrow> c_error \<Rightarrow> unit res" where
  "rassert b e = (if b then Inr () else Inl e)"

named_theorems res_iff \<open>when a sequenced operation returns, or fails\<close>

lemma rbind_simps [simp]:
  "rbind (Inl e) f = Inl e"
  "rbind (Inr x) f = f x"
  by (simp_all add: rbind_def)

lemma rbind_cong [fundef_cong]:
  "m = m' \<Longrightarrow> (\<And>x. m' = Inr x \<Longrightarrow> f x = f' x) \<Longrightarrow> rbind m f = rbind m' f'"
  by (cases m') (auto simp: rbind_def)

lemma rbind_Inr_iff [res_iff]: "rbind m f = Inr y \<longleftrightarrow> (\<exists>x. m = Inr x \<and> f x = Inr y)"
  by (cases m) auto

lemma rbind_Inl_iff [res_iff]:
  "rbind m f = Inl e \<longleftrightarrow> m = Inl e \<or> (\<exists>x. m = Inr x \<and> f x = Inl e)"
  by (cases m) auto

lemma rassert_simps [simp]:
  "rassert True e = Inr ()"
  "rassert False e = Inl e"
  by (simp_all add: rassert_def)

lemma rassert_Inr_iff [res_iff]: "rassert b e = Inr u \<longleftrightarrow> b"
  by (simp add: rassert_def)

lemma rassert_Inl_iff [res_iff]: "rassert b e = Inl e' \<longleftrightarrow> \<not> b \<and> e' = e"
  by (auto simp: rassert_def)

lemma rbind_assoc: "rbind (rbind m f) g = rbind m (\<lambda>x. rbind (f x) g)"
  by (cases m) auto

section \<open>Arrays with checked bounds\<close>

text \<open>C indices are signed; a negative index is as much out of bounds as a large one.\<close>

definition in_range :: "'a list \<Rightarrow> int \<Rightarrow> bool" where
  "in_range xs i \<longleftrightarrow> 0 \<le> i \<and> i < int (length xs)"

definition aread :: "'a list \<Rightarrow> int \<Rightarrow> 'a res" where
  "aread xs i = (if in_range xs i then Inr (xs ! nat i) else Inl OutOfBounds)"

definition awrite :: "'a list \<Rightarrow> int \<Rightarrow> 'a \<Rightarrow> 'a list res" where
  "awrite xs i x = (if in_range xs i then Inr (xs[nat i := x]) else Inl OutOfBounds)"

lemma in_range_update [simp]: "in_range (xs[j := x]) i = in_range xs i"
  by (simp add: in_range_def)

lemma in_range_nat [simp]: "in_range xs (int n) \<longleftrightarrow> n < length xs"
  by (simp add: in_range_def)

lemma aread_Inr [simp]: "in_range xs i \<Longrightarrow> aread xs i = Inr (xs ! nat i)"
  by (simp add: aread_def)

lemma awrite_Inr [simp]: "in_range xs i \<Longrightarrow> awrite xs i x = Inr (xs[nat i := x])"
  by (simp add: awrite_def)

lemma aread_Inr_iff [res_iff]: "aread xs i = Inr y \<longleftrightarrow> in_range xs i \<and> y = xs ! nat i"
  by (auto simp: aread_def)

lemma awrite_Inr_iff [res_iff]:
  "awrite xs i x = Inr ys \<longleftrightarrow> in_range xs i \<and> ys = xs[nat i := x]"
  by (auto simp: awrite_def)

section \<open>Division\<close>

text \<open>C integer division truncates toward zero; a zero divisor is undefined.\<close>

definition div_c :: "int \<Rightarrow> int \<Rightarrow> int res" where
  "div_c a b = (if b = 0 then Inl DivByZero else Inr (a sdiv b))"

definition mod_c :: "int \<Rightarrow> int \<Rightarrow> int res" where
  "mod_c a b = (if b = 0 then Inl DivByZero else Inr (a smod b))"

lemma sdiv_nonneg: "0 \<le> a \<Longrightarrow> 0 < b \<Longrightarrow> a sdiv b = a div (b::int)"
  by (cases "a = 0") (simp_all add: signed_divide_int_def)

lemma smod_nonneg: "0 \<le> a \<Longrightarrow> 0 < b \<Longrightarrow> a smod b = a mod (b::int)"
  by (cases "a = 0") (simp_all add: signed_modulo_int_def sdiv_nonneg minus_div_mult_eq_mod)

lemma mod_c_nonneg [simp]: "0 \<le> a \<Longrightarrow> 0 < b \<Longrightarrow> mod_c a b = Inr (a mod b)"
  by (simp add: mod_c_def smod_nonneg)

lemma div_c_nonneg [simp]: "0 \<le> a \<Longrightarrow> 0 < b \<Longrightarrow> div_c a b = Inr (a div b)"
  by (simp add: div_c_def sdiv_nonneg)

section \<open>Counted loops\<close>

text \<open>
  \<open>for (int i = a; i < b; i++) body\<close>: the body takes the counter and the loop state and
  may fail, which ends the loop.
\<close>

function for_range :: "int \<Rightarrow> int \<Rightarrow> (int \<Rightarrow> 's \<Rightarrow> 's res) \<Rightarrow> 's \<Rightarrow> 's res" where
  "for_range a b f s = (if a < b then rbind (f a s) (for_range (a + 1) b f) else Inr s)"
  by pat_completeness auto
termination
  by (relation "measure (\<lambda>(a, b, f, s). nat (b - a))") auto

declare for_range.simps [simp del]

lemma for_range_done [simp]: "b \<le> a \<Longrightarrow> for_range a b f s = Inr s"
  by (simp add: for_range.simps [of a b])

lemma for_range_step: "a < b \<Longrightarrow> for_range a b f s = rbind (f a s) (for_range (a + 1) b f)"
  by (simp add: for_range.simps [of a b])

text \<open>The total-correctness rule: an invariant under which the body never fails.\<close>

lemma for_range_rule:
  assumes "a \<le> b" and "P a s"
    and body: "\<And>i s. a \<le> i \<Longrightarrow> i < b \<Longrightarrow> P i s \<Longrightarrow> \<exists>t. f i s = Inr t \<and> P (i + 1) t"
  shows "\<exists>t. for_range a b f s = Inr t \<and> P b t"
  using assms
proof (induction a b f s rule: for_range.induct)
  case (1 a b f s)
  show ?case
  proof (cases "a < b")
    case True
    obtain t where t: "f a s = Inr t" "P (a + 1) t"
      using "1.prems" True by blast
    have "\<exists>u. for_range (a + 1) b f t = Inr u \<and> P b u"
      using "1.IH" [OF True] t "1.prems"(3) True by simp
    then show ?thesis
      using t True by (simp add: for_range_step)
  next
    case False
    then show ?thesis
      using "1.prems" by simp
  qed
qed

text \<open>A loop whose body fails at some counter value the invariant reaches fails there.\<close>

lemma for_range_fails:
  assumes "a \<le> k" and "k < b" and "P a s"
    and body: "\<And>i s. a \<le> i \<Longrightarrow> i < k \<Longrightarrow> P i s \<Longrightarrow> \<exists>t. f i s = Inr t \<and> P (i + 1) t"
    and fails: "\<And>s. P k s \<Longrightarrow> f k s = Inl e"
  shows "for_range a b f s = Inl e"
  using assms
proof (induction a b f s rule: for_range.induct)
  case (1 a b f s)
  have lt: "a < b" using "1.prems" by simp
  show ?case
  proof (cases "a = k")
    case True
    then show ?thesis
      using "1.prems" lt by (simp add: for_range_step)
  next
    case False
    then have ak: "a < k" using "1.prems" by simp
    obtain t where t: "f a s = Inr t" "P (a + 1) t"
      using "1.prems" ak by blast
    have "for_range (a + 1) b f t = Inl e"
      using "1.IH" [OF lt] t "1.prems" ak by simp
    then show ?thesis
      using t lt by (simp add: for_range_step)
  qed
qed

lemma for_range_cong:
  assumes "\<And>i s. a \<le> i \<Longrightarrow> i < b \<Longrightarrow> f i s = g i s"
  shows "for_range a b f s = for_range a b g s"
  using assms
proof (induction a b f s rule: for_range.induct)
  case (1 a b f s)
  show ?case
  proof (cases "a < b")
    case True
    have "for_range (a + 1) b f t = for_range (a + 1) b g t" if "f a s = Inr t" for t
      using "1.IH" [OF True that] "1.prems" by simp
    then show ?thesis
      using True "1.prems" [of a s] by (cases "g a s") (simp_all add: for_range_step)
  qed simp
qed

section \<open>Specifications of results\<close>

text \<open>
  \<open>meets t m P\<close>: the result, if there is one, satisfies \<open>P\<close>, and with \<open>t\<close> there is one.
\<close>

definition meets :: "bool \<Rightarrow> 'a res \<Rightarrow> ('a \<Rightarrow> bool) \<Rightarrow> bool" where
  "meets t m P = (case m of Inl e \<Rightarrow> \<not> t | Inr x \<Rightarrow> P x)"

named_theorems spec_intro

lemma spec_Inr [simp]: "meets t (Inr x) P = P x"
  by (simp add: meets_def)

lemma spec_InrI [spec_intro]: "P x \<Longrightarrow> meets t (Inr x) P"
  by simp

lemma spec_rbind [simp]: "meets t (rbind m f) P = meets t m (\<lambda>x. meets t (f x) P)"
  by (cases m) (simp_all add: meets_def)

lemma spec_rbindI [spec_intro]: "meets t m (\<lambda>x. meets t (f x) P) \<Longrightarrow> meets t (rbind m f) P"
  by simp

lemma spec_ifI [spec_intro]: "(b \<Longrightarrow> meets t x P) \<Longrightarrow> (\<not> b \<Longrightarrow> meets t y P) \<Longrightarrow> meets t (if b then x else y) P"
  by simp

lemma spec_splitI [spec_intro]: "(\<And>a b. z = (a, b) \<Longrightarrow> meets t (f a b) P) \<Longrightarrow> meets t (case z of (a, b) \<Rightarrow> f a b) P"
  by (cases z) simp

lemma spec_mono: "meets t m Q \<Longrightarrow> (\<And>x. Q x \<Longrightarrow> P x) \<Longrightarrow> meets t m P"
  by (cases m) (simp_all add: meets_def)

lemma spec_aread [spec_intro]: "(t \<Longrightarrow> in_range xs i) \<Longrightarrow> (\<And>x. in_range xs i \<Longrightarrow> P x) \<Longrightarrow> meets t (aread xs i) P"
  by (auto simp: meets_def aread_def)

lemma spec_total: "meets True m P \<Longrightarrow> \<exists>x. m = Inr x \<and> P x"
  by (cases m) (simp_all add: meets_def)

lemma spec_partial: "(\<And>x. m = Inr x \<Longrightarrow> P x) \<Longrightarrow> meets False m P"
  by (cases m) (simp_all add: meets_def)

lemma spec_Inr_D: "meets t m P \<Longrightarrow> m = Inr x \<Longrightarrow> P x"
  by simp

end
