(* ===== verification/CHeap.thy ===== *)
theory CHeap
  imports Prelude
begin

text \<open>
  The store for programs that keep arrays behind pointers: blocks allocated by
  \<open>malloc\<close>, released by \<open>free\<close>, read and written by index. A block that is not live, an
  index outside the block and a cell never written are distinct failures, so that
  aliasing, dangling pointers and overflows are visible. The interface the clients rely on
  is the locale \<open>cell_store\<close>; the copying loop is proved once inside it.
\<close>

section \<open>Blocks\<close>

text \<open>What a pointer to a single object refers to, where its contents do not matter.\<close>

datatype block_state = NullPtr | LiveBlock | FreedBlock

definition free_block :: "block_state \<Rightarrow> block_state res" where
  \<comment> \<open>\<open>free\<close> leaves the pointer itself as it is: it now dangles\<close>
  "free_block b = (case b of NullPtr \<Rightarrow> Inr NullPtr | LiveBlock \<Rightarrow> Inr FreedBlock
     | FreedBlock \<Rightarrow> Inl UseAfterFree)"

type_synonym ptr = nat \<comment> \<open>0 is the null pointer\<close>

record 'a heap =
  block :: "ptr \<Rightarrow> 'a option list option"   \<comment> \<open>the live blocks and their cells\<close>
  fresh :: ptr                                \<comment> \<open>every block number from here on is unused\<close>

definition empty_heap :: "'a heap" where
  "empty_heap = \<lparr>block = (\<lambda>_. None), fresh = 1\<rparr>"

definition heap_ok :: "'a heap \<Rightarrow> bool" where
  "heap_ok h \<longleftrightarrow> 0 < fresh h \<and> block h 0 = None \<and> (\<forall>p. fresh h \<le> p \<longrightarrow> block h p = None)"

text \<open>
  \<open>malloc(n * sizeof(double))\<close> on the 32-bit target: the byte count is computed modulo
  \<open>2 ^ 32\<close>, requests of up to \<open>2 ^ 26\<close> elements (the memory of the board) are granted and
  larger ones refused. The cells of a new block are indeterminate.
\<close>

definition max_cells :: int where
  "max_cells = 2 ^ 26"

definition size_cells :: "int \<Rightarrow> int" where \<comment> \<open>\<open>n * sizeof(double)\<close> as \<open>size_t\<close>, in elements\<close>
  "size_cells n = (n * 8) mod 2 ^ 32 div 8"

definition h_malloc :: "int \<Rightarrow> 'a heap \<Rightarrow> ptr \<times> 'a heap" where
  "h_malloc n h = (if size_cells n \<le> max_cells
     then (fresh h, h\<lparr>block := (block h)(fresh h := Some (replicate (nat (size_cells n)) None)), fresh := fresh h + 1\<rparr>)
     else (0, h))"

lemma size_cells_id: "0 \<le> n \<Longrightarrow> n \<le> max_cells \<Longrightarrow> size_cells n = n"
  by (simp add: size_cells_def max_cells_def)

definition h_free :: "ptr \<Rightarrow> 'a heap \<Rightarrow> 'a heap res" where
  "h_free p h = (if p = 0 then Inr h
     else case block h p of None \<Rightarrow> Inl UseAfterFree
     | Some _ \<Rightarrow> Inr (h\<lparr>block := (block h)(p := None)\<rparr>))"

definition h_read :: "'a heap \<Rightarrow> ptr \<Rightarrow> int \<Rightarrow> 'a res" where
  "h_read h p i = (if p = 0 then Inl NullDeref
     else case block h p of None \<Rightarrow> Inl UseAfterFree
     | Some xs \<Rightarrow> rbind (aread xs i) (\<lambda>c. case c of None \<Rightarrow> Inl Uninitialised | Some x \<Rightarrow> Inr x))"

definition h_write :: "'a heap \<Rightarrow> ptr \<Rightarrow> int \<Rightarrow> 'a \<Rightarrow> 'a heap res" where
  "h_write h p i x = (if p = 0 then Inl NullDeref
     else case block h p of None \<Rightarrow> Inl UseAfterFree
     | Some xs \<Rightarrow> rbind (awrite xs i (Some x)) (\<lambda>ys. Inr (h\<lparr>block := (block h)(p := Some ys)\<rparr>)))"

definition h_len :: "'a heap \<Rightarrow> ptr \<Rightarrow> int" where
  "h_len h p = (if p = 0 then 0 else case block h p of None \<Rightarrow> 0 | Some xs \<Rightarrow> int (length xs))"

definition h_live :: "'a heap \<Rightarrow> ptr \<Rightarrow> bool" where
  "h_live h p \<longleftrightarrow> p \<noteq> 0 \<and> block h p \<noteq> None"

section \<open>The interface\<close>

locale cell_store =
  fixes rd :: "'h \<Rightarrow> 'p \<Rightarrow> int \<Rightarrow> 'a res"
    and wr :: "'h \<Rightarrow> 'p \<Rightarrow> int \<Rightarrow> 'a \<Rightarrow> 'h res"
    and len :: "'h \<Rightarrow> 'p \<Rightarrow> int"
    and live :: "'h \<Rightarrow> 'p \<Rightarrow> bool"
  assumes wr_ok: "0 \<le> i \<Longrightarrow> i < len h p \<Longrightarrow> \<exists>h'. wr h p i x = Inr h'"
    and wr_oob: "live h p \<Longrightarrow> i < 0 \<or> len h p \<le> i \<Longrightarrow> wr h p i x = Inl OutOfBounds"
    and rd_wr_same: "wr h p i x = Inr h' \<Longrightarrow> rd h' p i = Inr x"
    and rd_wr_other: "wr h p i x = Inr h' \<Longrightarrow> q \<noteq> p \<or> j \<noteq> i \<Longrightarrow> rd h' q j = rd h q j"
    and len_wr: "wr h p i x = Inr h' \<Longrightarrow> len h' q = len h q"
    and live_wr: "wr h p i x = Inr h' \<Longrightarrow> live h' q = live h q"
begin

text \<open>\<open>for (i = a; i < b; i++) dst[i] = src[f(i)];\<close>\<close>

definition copy_body :: "'p \<Rightarrow> 'p \<Rightarrow> (int \<Rightarrow> int) \<Rightarrow> int \<Rightarrow> 'h \<Rightarrow> 'h res" where
  "copy_body dst src f i h = rbind (rd h src (f i)) (\<lambda>x. wr h dst i x)"

definition copied :: "'p \<Rightarrow> 'p \<Rightarrow> (int \<Rightarrow> int) \<Rightarrow> int \<Rightarrow> int \<Rightarrow> 'h \<Rightarrow> 'h \<Rightarrow> bool" where
  "copied dst src f a b h h' \<longleftrightarrow>
     (\<forall>j. rd h' dst j = (if a \<le> j \<and> j < b then rd h src (f j) else rd h dst j)) \<and>
     (\<forall>q j. q \<noteq> dst \<longrightarrow> rd h' q j = rd h q j) \<and>
     (\<forall>q. len h' q = len h q) \<and> (\<forall>q. live h' q = live h q)"

lemma copied_refl: "copied dst src f a a h h"
  by (auto simp: copied_def)

lemma copied_step:
  assumes c: "copied dst src f a i h t" and ne: "dst \<noteq> src" and ai: "a \<le> i"
    and r: "rd h src (f i) = Inr x" and i: "0 \<le> i" "i < len h dst"
  shows "\<exists>t'. copy_body dst src f i t = Inr t' \<and> copied dst src f a (i + 1) h t'"
proof -
  have rt: "rd t src (f i) = Inr x" using c ne r by (simp add: copied_def)
  have "i < len t dst" using c i by (simp add: copied_def)
  then obtain t' where w: "wr t dst i x = Inr t'" using wr_ok i(1) by blast
  have "copied dst src f a (i + 1) h t'"
    unfolding copied_def
  proof (intro conjI allI impI)
    fix j
    show "rd t' dst j = (if a \<le> j \<and> j < i + 1 then rd h src (f j) else rd h dst j)"
    proof (cases "j = i")
      case True then show ?thesis using rd_wr_same [OF w] r ai by simp
    next
      case False
      then have "rd t' dst j = rd t dst j" using rd_wr_other [OF w] by blast
      then show ?thesis using c False by (auto simp: copied_def)
    qed
  next
    fix q j assume "q \<noteq> dst"
    then show "rd t' q j = rd h q j" using rd_wr_other [OF w] c by (simp add: copied_def)
  next
    fix q show "len t' q = len h q" using len_wr [OF w] c by (simp add: copied_def)
  next
    fix q show "live t' q = live h q" using live_wr [OF w] c by (simp add: copied_def)
  qed
  then show ?thesis using rt w by (auto simp: copy_body_def)
qed

text \<open>The loop copies every element it visits and nothing else changes.\<close>

lemma copy_loop:
  assumes ne: "dst \<noteq> src" and ab: "0 \<le> a" "a \<le> b" and len: "b \<le> len h dst"
    and src: "\<And>i. a \<le> i \<Longrightarrow> i < b \<Longrightarrow> \<exists>x. rd h src (f i) = Inr x"
  shows "\<exists>h'. for_range a b (copy_body dst src f) h = Inr h' \<and> copied dst src f a b h h'"
proof (rule for_range_rule [where P = "\<lambda>i t. copied dst src f a i h t"])
  show "a \<le> b" by (rule ab(2))
  show "copied dst src f a a h h" by (rule copied_refl)
  fix i t assume i: "a \<le> i" "i < b" and c: "copied dst src f a i h t"
  obtain x where "rd h src (f i) = Inr x" using src i by blast
  then show "\<exists>u. copy_body dst src f i t = Inr u \<and> copied dst src f a (i + 1) h u"
    using copied_step [OF c ne i(1)] i ab len by force
qed

text \<open>A destination shorter than the loop is overrun.\<close>

lemma copy_loop_overrun:
  assumes ne: "dst \<noteq> src" and ab: "0 \<le> a" "a \<le> len h dst" and len: "len h dst < b"
    and live: "live h dst"
    and src: "\<And>i. a \<le> i \<Longrightarrow> i \<le> len h dst \<Longrightarrow> \<exists>x. rd h src (f i) = Inr x"
  shows "for_range a b (copy_body dst src f) h = Inl OutOfBounds"
proof (rule for_range_fails [where P = "\<lambda>i t. copied dst src f a i h t" and k = "len h dst"])
  show "a \<le> len h dst" "len h dst < b" by (rule ab(2), rule len)
  show "copied dst src f a a h h" by (rule copied_refl)
next
  fix i t assume i: "a \<le> i" "i < len h dst" and c: "copied dst src f a i h t"
  obtain x where "rd h src (f i) = Inr x" using src i by fastforce
  then show "\<exists>u. copy_body dst src f i t = Inr u \<and> copied dst src f a (i + 1) h u"
    using copied_step [OF c ne i(1)] i ab by force
next
  fix t assume c: "copied dst src f a (len h dst) h t"
  obtain x where "rd h src (f (len h dst)) = Inr x" using src ab by fastforce
  then have "rd t src (f (len h dst)) = Inr x" using c ne by (simp add: copied_def)
  moreover have "wr t dst (len h dst) x = Inl OutOfBounds"
    using c live by (intro wr_oob) (auto simp: copied_def)
  ultimately show "copy_body dst src f (len h dst) t = Inl OutOfBounds"
    by (simp add: copy_body_def)
qed

end

section \<open>The store provides the interface\<close>

lemma h_write_Inr_iff [res_iff]:
  "h_write h p i x = Inr h' \<longleftrightarrow> p \<noteq> 0 \<and>
     (\<exists>xs. block h p = Some xs \<and> in_range xs i \<and>
        h' = h\<lparr>block := (block h)(p := Some (xs[nat i := Some x]))\<rparr>)"
  by (cases "block h p") (auto simp: h_write_def res_iff)

lemma h_read_update_same:
  "p \<noteq> 0 \<Longrightarrow> h_read (h\<lparr>block := (block h)(p := Some xs)\<rparr>) p i
     = rbind (aread xs i) (\<lambda>c. case c of None \<Rightarrow> Inl Uninitialised | Some x \<Rightarrow> Inr x)"
  by (simp add: h_read_def)

lemma h_read_update_other:
  "q \<noteq> p \<Longrightarrow> h_read (h\<lparr>block := (block h)(p := b)\<rparr>) q i = h_read h q i"
  by (simp add: h_read_def)

interpretation hs: cell_store h_read h_write h_len h_live
proof unfold_locales
  fix h :: "'a heap" and p i x
  assume "0 \<le> i" "i < h_len h p"
  then show "\<exists>h'. h_write h p i x = Inr h'"
    by (auto simp: h_write_Inr_iff h_len_def in_range_def split: option.splits if_splits)
next
  fix h :: "'a heap" and p i x
  assume "h_live h p" "i < 0 \<or> h_len h p \<le> i"
  then show "h_write h p i x = Inl OutOfBounds"
    by (auto simp: h_write_def h_len_def h_live_def awrite_def in_range_def)
next
  fix h h' :: "'a heap" and p i x
  assume "h_write h p i x = Inr h'"
  then show "h_read h' p i = Inr x"
    by (auto simp: h_write_Inr_iff h_read_update_same in_range_def)
next
  fix h h' :: "'a heap" and p q :: ptr and i j :: int and x
  assume w: "h_write h p i x = Inr h'" and ne: "q \<noteq> p \<or> j \<noteq> i"
  obtain xs where xs: "p \<noteq> 0" "block h p = Some xs" "in_range xs i"
      "h' = h\<lparr>block := (block h)(p := Some (xs[nat i := Some x]))\<rparr>"
    using w by (auto simp: h_write_Inr_iff)
  show "h_read h' q j = h_read h q j"
  proof (cases "q = p")
    case False then show ?thesis by (simp add: xs(4) h_read_update_other)
  next
    case True
    then have "nat i \<noteq> nat j \<or> \<not> in_range xs j" using ne xs(3) by (auto simp: in_range_def)
    then show ?thesis using xs True by (auto simp: h_read_def aread_def)
  qed
next
  fix h h' :: "'a heap" and p q i x
  assume "h_write h p i x = Inr h'"
  then show "h_len h' q = h_len h q" by (auto simp: h_write_Inr_iff h_len_def)
next
  fix h h' :: "'a heap" and p q i x
  assume "h_write h p i x = Inr h'"
  then show "h_live h' q = h_live h q" by (auto simp: h_write_Inr_iff h_live_def split: if_splits)
qed

section \<open>Allocation and release\<close>

lemma heap_ok_fresh: "heap_ok h \<Longrightarrow> block h (fresh h) = None"
  by (simp add: heap_ok_def)

lemma heap_ok_live: "heap_ok h \<Longrightarrow> h_live h p \<Longrightarrow> p < fresh h"
  by (rule ccontr) (auto simp: heap_ok_def h_live_def)

lemma h_malloc_facts:
  assumes ok: "heap_ok h" and n: "0 \<le> n" "n \<le> max_cells" and m: "h_malloc n h = (p, h')"
  shows "heap_ok h'" "p \<noteq> 0" "p = fresh h" "h_live h' p" "h_len h' p = n"
    and "\<And>q. q \<noteq> p \<Longrightarrow> h_read h' q i = h_read h q i"
    and "\<And>q. q \<noteq> p \<Longrightarrow> h_len h' q = h_len h q"
    and "\<And>q. q \<noteq> p \<Longrightarrow> h_live h' q = h_live h q"
  using ok n m size_cells_id [OF n]
  by (auto simp: heap_ok_def h_malloc_def h_live_def h_len_def h_read_def)

lemma heap_ok_write: "h_write h p i x = Inr h' \<Longrightarrow> heap_ok h \<Longrightarrow> heap_ok h'"
  by (auto simp: h_write_Inr_iff heap_ok_def)

lemma h_free_live: "h_live h p \<Longrightarrow> h_free p h = Inr (h\<lparr>block := (block h)(p := None)\<rparr>)"
  by (auto simp: h_free_def h_live_def)

lemma h_free_facts:
  assumes "heap_ok h" "h_free p h = Inr h'" "p \<noteq> 0"
  shows "heap_ok h'" "h_read h' p i = Inl UseAfterFree"
    and "q \<noteq> p \<Longrightarrow> h_read h' q i = h_read h q i"
    and "q \<noteq> p \<Longrightarrow> h_len h' q = h_len h q"
    and "q \<noteq> p \<Longrightarrow> h_live h' q = h_live h q"
  using assms by (auto simp: h_free_def heap_ok_def h_read_def h_len_def h_live_def split: option.splits)

lemma heap_ok_copy_body:
  "hs.copy_body dst src f i h = Inr h' \<Longrightarrow> heap_ok h \<Longrightarrow> heap_ok h'"
  by (auto simp: hs.copy_body_def rbind_Inr_iff dest: heap_ok_write)

lemma heap_ok_for_range:
  assumes "for_range a b g h = Inr h'" "heap_ok h"
    and "\<And>i h h'. g i h = Inr h' \<Longrightarrow> heap_ok h \<Longrightarrow> heap_ok h'"
  shows "heap_ok h'"
  using assms
proof (induction a b g h rule: for_range.induct)
  case (1 a b g h)
  show ?case
  proof (cases "a < b")
    case True
    then obtain t where "g a h = Inr t" "for_range (a + 1) b g t = Inr h'"
      using "1.prems"(1) by (auto simp: for_range_step res_iff)
    then show ?thesis using "1.IH" [OF True] "1.prems" by blast
  next
    case False
    then show ?thesis using "1.prems" by simp
  qed
qed

text \<open>The loop body of the array copies, as the clients write it.\<close>

definition copy_cell :: "ptr \<Rightarrow> ptr \<Rightarrow> (int \<Rightarrow> int) \<Rightarrow> int \<Rightarrow> 'a heap \<Rightarrow> 'a heap res" where
  "copy_cell dst src f i h = rbind (h_read h src (f i)) (\<lambda>x. h_write h dst i x)"

lemma copy_cell_body: "copy_cell dst src f = hs.copy_body dst src f"
  by (intro ext) (simp add: copy_cell_def hs.copy_body_def)

lemma heap_ok_copy_loop:
  "for_range a b (copy_cell dst src f) h = Inr h' \<Longrightarrow> heap_ok h \<Longrightarrow> heap_ok h'"
  unfolding copy_cell_body by (erule (1) heap_ok_for_range) (rule heap_ok_copy_body)

end
