(* ===== verification/LedDisplay.thy ===== *)
theory LedDisplay
  imports Prelude CHeap
begin

text \<open>
  The two-digit LED display of the light sampler (\<open>work/as2/led_display.c\<close>,
  \<open>led_display.h\<close>). Its functions are straight-line sequences of device operations, whose
  results matter only in that a failed one ends the program; each is the list of operations
  it performs, and \<open>led_exec\<close> runs a list in an environment that decides which operations
  succeed. The pins and registers the operations set are replayed by \<open>led_apply\<close>.
\<close>

section \<open>Devices\<close>

definition REG_DIRA :: "8 word" where "REG_DIRA = 0x00"
definition REG_DIRB :: "8 word" where "REG_DIRB = 0x01"
definition REG_OUTA :: "8 word" where "REG_OUTA = 0x14"
definition REG_OUTB :: "8 word" where "REG_OUTB = 0x15"

datatype led_file = LEFT_DIRECTION | RIGHT_DIRECTION | RIGHT_VALUE | LEFT_VALUE

datatype side = DigitLeft | DigitRight

datatype led_op =
    RunCommand string
  | WriteToFile string led_file
  | OpenI2cBus int                      \<comment> \<open>open the bus and select the slave address\<close>
  | WriteI2cReg "8 word" "8 word"
  | SleepForMs int
  | MallocDigit side
  | FreeDigit side                      \<comment> \<open>\<open>free\<close>, or \<open>free_malloc\<close>: both ignore null\<close>
  | CloseI2c

record led =
  digitLeft :: block_state
  digitRight :: block_state
  trace :: "led_op list"                \<comment> \<open>the operations performed, in order\<close>

type_synonym led_env = "led_op list \<Rightarrow> led_op \<Rightarrow> bool"
  \<comment> \<open>whether an operation succeeds after the given history\<close>

text \<open>
  The failures: \<open>popen\<close> returning null is dereferenced, a file that cannot be opened, a
  slave that cannot be selected and an incomplete register write end the program with
  status 1; a second \<open>free\<close> of a block is undefined.
\<close>

definition led_step :: "led_env \<Rightarrow> led_op \<Rightarrow> led \<Rightarrow> led res" where
  "led_step env oper s =
     (let s' = s\<lparr>trace := trace s @ [oper]\<rparr> in
      case oper of
        RunCommand c \<Rightarrow> (if env (trace s) oper then Inr s' else Inl NullDeref)
      | WriteToFile v f \<Rightarrow> (if env (trace s) oper then Inr s' else Inl (ExitCode 1))
      | OpenI2cBus a \<Rightarrow> (if env (trace s) oper then Inr s' else Inl (ExitCode 1))
      | WriteI2cReg r v \<Rightarrow> (if env (trace s) oper then Inr s' else Inl (ExitCode 1))
      | SleepForMs ms \<Rightarrow> Inr s'
      | MallocDigit DigitLeft \<Rightarrow> Inr (s'\<lparr>digitLeft := LiveBlock\<rparr>)
      | MallocDigit DigitRight \<Rightarrow> Inr (s'\<lparr>digitRight := LiveBlock\<rparr>)
      | FreeDigit DigitLeft \<Rightarrow> rbind (free_block (digitLeft s)) (\<lambda>b. Inr (s'\<lparr>digitLeft := b\<rparr>))
      | FreeDigit DigitRight \<Rightarrow> rbind (free_block (digitRight s)) (\<lambda>b. Inr (s'\<lparr>digitRight := b\<rparr>))
      | CloseI2c \<Rightarrow> Inr s')"

fun led_exec :: "led_env \<Rightarrow> led_op list \<Rightarrow> led \<Rightarrow> led res" where
  "led_exec env [] s = Inr s"
| "led_exec env (oper # ops) s = rbind (led_step env oper s) (led_exec env ops)"

section \<open>Operations\<close>

definition getDigitValues :: "int \<Rightarrow> 8 word \<times> 8 word" where
  "getDigitValues num =
     (if num = 0 then (0x86, 0xa1)
      else if num = 1 then (0x02, 0x80)
      else if num = 2 then (0x0e, 0x31)
      else if num = 3 then (0x0e, 0xb0)
      else if num = 4 then (0x8a, 0x90)
      else if num = 5 then (0x8c, 0xb0)
      else if num = 6 then (0x88, 0xb1)
      else if num = 7 then (0x06, 0x80)
      else if num = 8 then (0x8e, 0xb1)
      else if num = 9 then (0x8e, 0x90)
      else (0x00, 0x00))"

definition turnOnLeft :: "8 word \<times> 8 word \<Rightarrow> led_op list" where
  "turnOnLeft digit =
     [WriteToFile ''1'' LEFT_VALUE,
      WriteI2cReg REG_OUTB (fst digit), WriteI2cReg REG_OUTA (snd digit),
      SleepForMs 1,
      WriteI2cReg REG_OUTA 0x00, WriteI2cReg REG_OUTB 0x00]"

definition turnOnRight :: "8 word \<times> 8 word \<Rightarrow> led_op list" where
  "turnOnRight digit =
     [WriteToFile ''1'' RIGHT_VALUE,
      WriteI2cReg REG_OUTB (fst digit), WriteI2cReg REG_OUTA (snd digit),
      SleepForMs 1,
      WriteI2cReg REG_OUTA 0x00, WriteI2cReg REG_OUTB 0x00]"

definition displayNum :: "int \<Rightarrow> led_op list" where
  "displayNum num =
     [MallocDigit DigitLeft, MallocDigit DigitRight,
      WriteToFile ''0'' RIGHT_VALUE, WriteToFile ''0'' LEFT_VALUE] @
     turnOnLeft (getDigitValues (num sdiv 10)) @
     [SleepForMs 1, WriteToFile ''0'' RIGHT_VALUE, WriteToFile ''0'' LEFT_VALUE] @
     turnOnRight (getDigitValues (num smod 10)) @
     [SleepForMs 1, FreeDigit DigitLeft, FreeDigit DigitRight]"

definition led_init :: "led_op list" where
  "led_init =
     [RunCommand ''config-pin P9_17 i2c'', RunCommand ''config-pin P9_18 i2c'',
      WriteToFile ''out'' LEFT_DIRECTION, WriteToFile ''out'' RIGHT_DIRECTION,
      OpenI2cBus 0x20, WriteI2cReg REG_DIRA 0x00, WriteI2cReg REG_DIRB 0x00]"

definition led_reset :: "led_op list" where
  "led_reset =
     [WriteI2cReg REG_OUTA 0x00, WriteI2cReg REG_OUTB 0x00,
      WriteToFile ''0'' RIGHT_VALUE, WriteToFile ''0'' LEFT_VALUE,
      FreeDigit DigitLeft, FreeDigit DigitRight, CloseI2c]"

text \<open>
  The thread displays one dip count per turn until \<open>running\<close> is cleared; \<open>dips\<close> lists the
  counts it reads.
\<close>

definition ledThread :: "led_env \<Rightarrow> int list \<Rightarrow> led \<Rightarrow> led res" where
  "ledThread env dips s =
     rbind (led_exec env led_init s) (\<lambda>s1.
     rbind (led_exec env (concat (map displayNum dips)) s1) (\<lambda>s2.
     led_exec env led_reset s2))"

definition led_start :: led where
  "led_start = \<lparr>digitLeft = NullPtr, digitRight = NullPtr, trace = []\<rparr>"

section \<open>What the display shows\<close>

record pins =
  leftOn :: bool
  rightOn :: bool
  outA :: "8 word"
  outB :: "8 word"

definition led_apply :: "pins \<Rightarrow> led_op \<Rightarrow> pins" where
  "led_apply d oper = (case oper of
      WriteToFile v LEFT_VALUE \<Rightarrow> d\<lparr>leftOn := (v = ''1'')\<rparr>
    | WriteToFile v RIGHT_VALUE \<Rightarrow> d\<lparr>rightOn := (v = ''1'')\<rparr>
    | WriteI2cReg r v \<Rightarrow> (if r = REG_OUTA then d\<lparr>outA := v\<rparr> else if r = REG_OUTB then d\<lparr>outB := v\<rparr> else d)
    | _ \<Rightarrow> d)"

text \<open>Every state of the pins while the operations run, the first one included.\<close>

fun pin_states :: "pins \<Rightarrow> led_op list \<Rightarrow> pins list" where
  "pin_states d [] = [d]"
| "pin_states d (oper # ops) = d # pin_states (led_apply d oper) ops"

text \<open>What is held long enough to be seen: the lit states at the sleeps.\<close>

definition is_sleep :: "led_op \<Rightarrow> bool" where
  "is_sleep oper = (case oper of SleepForMs _ \<Rightarrow> True | _ \<Rightarrow> False)"

definition lit :: "pins \<Rightarrow> bool" where
  "lit d \<longleftrightarrow> (leftOn d \<or> rightOn d) \<and> (outA d \<noteq> 0 \<or> outB d \<noteq> 0)"

fun shown :: "pins \<Rightarrow> led_op list \<Rightarrow> pins list" where
  "shown d [] = []"
| "shown d (oper # ops) = (if is_sleep oper \<and> lit d then [d] else []) @ shown (led_apply d oper) ops"

text \<open>A digit on one side: only that side enabled, the digit's segments in the registers.\<close>

definition glyph :: "side \<Rightarrow> int \<Rightarrow> pins" where
  "glyph sd num = \<lparr>leftOn = (sd = DigitLeft), rightOn = (sd = DigitRight),
     outA = snd (getDigitValues num), outB = fst (getDigitValues num)\<rparr>"

lemmas led_regs = REG_DIRA_def REG_DIRB_def REG_OUTA_def REG_OUTB_def

lemmas led_ops = displayNum_def turnOnLeft_def turnOnRight_def

definition not_both :: "pins \<Rightarrow> bool" where
  "not_both d \<longleftrightarrow> \<not> (leftOn d \<and> rightOn d)"

lemma pin_states_append:
  "pin_states d (xs @ ys) = butlast (pin_states d xs) @ pin_states (foldl led_apply d xs) ys"
proof (induction xs arbitrary: d)
  case (Cons x xs)
  have "pin_states (led_apply d x) xs \<noteq> []" by (cases xs) auto
  then show ?case using Cons by simp
qed simp

lemma displayNum_not_both:
  "not_both d \<Longrightarrow> list_all not_both (pin_states d (displayNum n)) \<and> not_both (foldl led_apply d (displayNum n))"
  by (simp add: led_ops led_regs led_apply_def not_both_def)

text \<open>
  C40. The two digits share the segment registers and are never enabled together: at every
  moment while any sequence of dip counts is displayed, at most one digit is on.
\<close>

theorem digits_never_both_on:
  assumes "\<not> (leftOn d \<and> rightOn d)" and "p \<in> set (pin_states d (concat (map displayNum dips)))"
  shows "\<not> (leftOn p \<and> rightOn p)"
proof -
  have "not_both d \<Longrightarrow> list_all not_both (pin_states d (concat (map displayNum dips)))" for d
  proof (induction dips arbitrary: d)
    case (Cons n dips)
    have "list_all not_both (butlast (pin_states d (displayNum n)))"
      using displayNum_not_both [OF Cons.prems, of n] by (auto simp: list_all_iff dest: in_set_butlastD)
    then show ?case
      using Cons.IH displayNum_not_both [OF Cons.prems, of n] by (simp add: pin_states_append)
  qed simp
  then show ?thesis using assms by (auto simp: list_all_iff not_both_def)
qed

theorem digits_never_both_on_witness:
  "foldl led_apply \<lparr>leftOn = False, rightOn = False, outA = 0, outB = 0\<rparr> (take 5 (displayNum 42))
     = \<lparr>leftOn = True, rightOn = False, outA = 0, outB = 0\<rparr> \<and>
   \<not> (leftOn \<lparr>leftOn = True, rightOn = False, outA = 0, outB = 0\<rparr> \<and>
      rightOn \<lparr>leftOn = True, rightOn = False, outA = 0, outB = 0::8 word\<rparr>)"
  using digits_never_both_on [of "\<lparr>leftOn = False, rightOn = False, outA = 0, outB = 0\<rparr>"
      "\<lparr>leftOn = True, rightOn = False, outA = 0, outB = 0\<rparr>" "[42]"]
  by (simp add: led_ops led_regs led_apply_def eval_nat_numeral)

lemma digit_cases: "0 \<le> n \<Longrightarrow> n \<le> 9 \<Longrightarrow> n \<in> {0, 1, 2, 3, 4, 5, 6, 7, 8, 9::int}"
  by simp arith

lemma getDigitValues_nonzero: "0 \<le> n \<Longrightarrow> n \<le> 9 \<Longrightarrow> fst (getDigitValues n) \<noteq> 0"
  by (drule (1) digit_cases) (auto simp: getDigitValues_def)

lemma getDigitValues_blank: "n < 0 \<or> 9 < n \<Longrightarrow> getDigitValues n = (0, 0)"
  by (auto simp: getDigitValues_def)

lemma getDigitValues_inj:
  assumes "0 \<le> m" "m \<le> 9" "0 \<le> n" "n \<le> 9" "getDigitValues m = getDigitValues n"
  shows "m = n"
  using digit_cases [OF assms(1,2)] digit_cases [OF assms(3,4)] assms(5)
  by (elim insertE emptyE) (simp_all add: getDigitValues_def)

lemma shown_displayNum:
  "shown d (displayNum n) =
     (if fst (getDigitValues (n sdiv 10)) = 0 \<and> snd (getDigitValues (n sdiv 10)) = 0 then []
      else [glyph DigitLeft (n sdiv 10)]) @
     (if fst (getDigitValues (n smod 10)) = 0 \<and> snd (getDigitValues (n smod 10)) = 0 then []
      else [glyph DigitRight (n smod 10)])"
  by (simp add: led_ops led_regs led_apply_def is_sleep_def lit_def glyph_def)

lemma tens_units: "0 \<le> n \<Longrightarrow> n sdiv 10 = n div (10::int) \<and> n smod 10 = n mod 10"
  by (cases "n = 0") (simp_all add: signed_divide_int_def signed_modulo_int_def minus_div_mult_eq_mod)

text \<open>
  The display shows the dip count: for a count from 0 to 99 exactly two lit states are held,
  first the tens digit on the left, then the units digit on the right, and two counts that look
  the same are equal.
\<close>

theorem display_shows_count:
  assumes "0 \<le> n" "n \<le> 99"
  shows "shown d (displayNum n) = [glyph DigitLeft (n div 10), glyph DigitRight (n mod 10)] \<and>
    (0 \<le> m \<and> m \<le> 99 \<and> shown d (displayNum m) = shown d (displayNum n) \<longrightarrow> m = n)"
proof -
  have two: "shown d (displayNum k) = [glyph DigitLeft (k div 10), glyph DigitRight (k mod 10)]"
    if "0 \<le> k" "k \<le> 99" for k
  proof -
    have "0 \<le> k div 10" "k div 10 \<le> 9" "0 \<le> k mod 10" "k mod 10 \<le> 9" using that by linarith+
    then show ?thesis
      using getDigitValues_nonzero [of "k div 10"] getDigitValues_nonzero [of "k mod 10"]
        tens_units [OF that(1)] by (simp add: shown_displayNum)
  qed
  have "m = n" if m: "0 \<le> m" "m \<le> 99" and eq: "shown d (displayNum m) = shown d (displayNum n)"
  proof -
    have r: "0 \<le> k div 10" "k div 10 \<le> 9" "0 \<le> k mod 10" "k mod 10 \<le> 9" if "k = m \<or> k = n" for k
      using that assms m by (auto; linarith)+
    have "getDigitValues (m div 10) = getDigitValues (n div 10)"
      "getDigitValues (m mod 10) = getDigitValues (n mod 10)"
      using eq two [OF m] two [OF assms] by (simp_all add: glyph_def prod_eq_iff)
    then have "m div 10 = n div 10" "m mod 10 = n mod 10"
      using r [of m] r [of n] by (auto intro: getDigitValues_inj)
    then show ?thesis by (metis mult_div_mod_eq)
  qed
  then show ?thesis using two [OF assms] by blast
qed

theorem display_shows_count_witness:
  "shown \<lparr>leftOn = False, rightOn = True, outA = 0, outB = 0\<rparr> (displayNum 42) =
     [\<lparr>leftOn = True, rightOn = False, outA = 0x90, outB = 0x8a\<rparr>,
      \<lparr>leftOn = False, rightOn = True, outA = 0x31, outB = 0x0e\<rparr>]"
  using display_shows_count [of 42 "\<lparr>leftOn = False, rightOn = True, outA = 0, outB = 0\<rparr>" 0]
  by (simp add: glyph_def getDigitValues_def)

lemma led_exec_append:
  "led_exec env (xs @ ys) s = rbind (led_exec env xs s) (led_exec env ys)"
  by (induction xs arbitrary: s) (auto simp: rbind_def split: sum.splits)

text \<open>
  Operations on files and registers either all succeed, or the program exits at the first one the devices refuse.
\<close>

definition device_op :: "led_op \<Rightarrow> bool" where
  "device_op oper = (case oper of WriteToFile _ _ \<Rightarrow> True | WriteI2cReg _ _ \<Rightarrow> True | SleepForMs _ \<Rightarrow> True | _ \<Rightarrow> False)"

definition refused :: "led_env \<Rightarrow> led_op list \<Rightarrow> led_op list \<Rightarrow> bool" where
  "refused env past ops \<longleftrightarrow> (\<exists>xs oper ys. ops = xs @ oper # ys \<and> \<not> env (past @ xs) oper)"

lemma refusedI: "ops = xs @ oper # ys \<Longrightarrow> \<not> env (past @ xs) oper \<Longrightarrow> refused env past ops"
  by (auto simp: refused_def)

lemma refused_Cons: "refused env (past @ [oper]) ops \<Longrightarrow> refused env past (oper # ops)"
  unfolding refused_def by (metis append.assoc append_Cons append_Nil)

lemma refused_append: "refused env past xs \<Longrightarrow> refused env past (xs @ ys)"
  unfolding refused_def by fastforce

lemma device_ops_run:
  assumes "list_all device_op ops"
  shows "led_exec env ops s = Inr (s\<lparr>trace := trace s @ ops\<rparr>) \<or> led_exec env ops s = Inl (ExitCode 1) \<and> refused env (trace s) ops"
  using assms
proof (induction ops arbitrary: s)
  case (Cons oper ops)
  have step: "led_step env oper s = Inr (s\<lparr>trace := trace s @ [oper]\<rparr>) \<or> led_step env oper s = Inl (ExitCode 1) \<and> \<not> env (trace s) oper"
    using Cons.prems by (cases oper) (auto simp: led_step_def device_op_def Let_def)
  show ?case
  proof (cases "led_step env oper s = Inr (s\<lparr>trace := trace s @ [oper]\<rparr>)")
    case True
    then show ?thesis using Cons.IH [of "s\<lparr>trace := trace s @ [oper]\<rparr>"] Cons.prems by (auto intro: refused_Cons)
  next
    case False
    then show ?thesis using step by (auto intro: refusedI [of _ "[]"])
  qed
qed simp

lemma displayNum_devices:
  "\<exists>ops. displayNum n = [MallocDigit DigitLeft, MallocDigit DigitRight] @ ops @ [FreeDigit DigitLeft, FreeDigit DigitRight] \<and> list_all device_op ops"
proof -
  let ?ops = "[WriteToFile ''0'' RIGHT_VALUE, WriteToFile ''0'' LEFT_VALUE] @ turnOnLeft (getDigitValues (n sdiv 10)) @
     [SleepForMs 1, WriteToFile ''0'' RIGHT_VALUE, WriteToFile ''0'' LEFT_VALUE] @ turnOnRight (getDigitValues (n smod 10)) @ [SleepForMs 1]"
  have "list_all device_op ?ops" by (simp add: device_op_def turnOnLeft_def turnOnRight_def)
  then show ?thesis by (intro exI [of _ ?ops]) (simp add: displayNum_def)
qed

lemma displayNum_cases:
  obtains (shown) t where "led_exec env (displayNum n) s = Inr t" "trace t = trace s @ displayNum n"
  | (exits) "led_exec env (displayNum n) s = Inl (ExitCode 1)" "refused env (trace s) (displayNum n)"
proof -
  obtain ops where ops: "displayNum n = [MallocDigit DigitLeft, MallocDigit DigitRight] @ ops @ [FreeDigit DigitLeft, FreeDigit DigitRight]"
    "list_all device_op ops" using displayNum_devices by blast
  let ?m = "[MallocDigit DigitLeft, MallocDigit DigitRight]" and ?f = "[FreeDigit DigitLeft, FreeDigit DigitRight]"
  let ?s = "s\<lparr>digitLeft := LiveBlock, trace := trace s @ ?m, digitRight := LiveBlock\<rparr>"
  have run: "led_exec env (displayNum n) s = rbind (led_exec env ops ?s) (led_exec env ?f)"
    by (simp add: ops(1) led_exec_append led_step_def Let_def)
  show thesis
  proof (cases "led_exec env ops ?s = Inr (?s\<lparr>trace := trace ?s @ ops\<rparr>)")
    case True
    then have "\<exists>t. led_exec env (displayNum n) s = Inr t \<and> trace t = trace s @ displayNum n"
      unfolding run by (simp add: ops(1) led_step_def free_block_def Let_def)
    then show thesis using shown by blast
  next
    case False
    then have e: "led_exec env ops ?s = Inl (ExitCode 1)" "refused env (trace s @ ?m) ops" using device_ops_run [OF ops(2), of env ?s] by auto
    have "refused env (trace s) (?m @ ops)" using e(2) refused_Cons [of env _ "MallocDigit DigitRight"] refused_Cons [of env _ "MallocDigit DigitLeft"] by simp
    then have "refused env (trace s) (displayNum n)" unfolding ops(1) using refused_append [of env "trace s" "?m @ ops" ?f] by simp
    then show thesis using exits e(1) unfolding run by simp
  qed
qed

text \<open>The operations that cannot fail once the devices answer, and the blocks they leave.\<close>

definition dangling :: "led \<Rightarrow> bool" where
  "dangling s \<longleftrightarrow> digitLeft s = FreedBlock \<and> digitRight s = FreedBlock"

lemma displayNum_runs:
  "\<exists>t. led_exec (\<lambda>_ _. True) (displayNum n) s = Inr t \<and> dangling t"
  by (simp add: led_ops led_step_def free_block_def Let_def dangling_def)

lemma displays_run:
  "dips \<noteq> [] \<Longrightarrow> \<exists>t. led_exec (\<lambda>_ _. True) (concat (map displayNum dips)) s = Inr t \<and> dangling t"
proof (induction dips arbitrary: s)
  case (Cons n dips)
  obtain t where t: "led_exec (\<lambda>_ _. True) (displayNum n) s = Inr t" "dangling t"
    using displayNum_runs by blast
  show ?case
  proof (cases "dips = []")
    case True
    then show ?thesis using t by (simp add: led_exec_append)
  next
    case False
    then show ?thesis using Cons.IH [OF False, of t] t(1) by (simp add: led_exec_append)
  qed
qed simp

text \<open>
  The display thread cannot end cleanly: once it has shown a number, its final
  \<open>led_reset\<close> frees the digit blocks that \<open>displayNum\<close> already freed (neither clears the
  pointers), even though every device operation succeeds; only a thread that has shown
  nothing leaves its loop and returns.
\<close>

theorem ledThread_double_free:
  "(dips \<noteq> [] \<longrightarrow> ledThread (\<lambda>_ _. True) dips led_start = Inl UseAfterFree) \<and>
   (\<exists>t. ledThread (\<lambda>_ _. True) [] led_start = Inr t)"
proof
  have init: "led_exec (\<lambda>_ _. True) led_init s = Inr (s\<lparr>trace := trace s @ led_init\<rparr>)" for s
    by (simp add: led_init_def led_step_def Let_def)
  have reset: "dangling s \<Longrightarrow> led_exec (\<lambda>_ _. True) led_reset s = Inl UseAfterFree" for s
    by (simp add: led_reset_def led_step_def free_block_def Let_def dangling_def)
  show "dips \<noteq> [] \<longrightarrow> ledThread (\<lambda>_ _. True) dips led_start = Inl UseAfterFree"
  proof
    assume "dips \<noteq> []"
    then obtain t where "led_exec (\<lambda>_ _. True) (concat (map displayNum dips))
        (led_start\<lparr>trace := trace led_start @ led_init\<rparr>) = Inr t" "dangling t"
      using displays_run by blast
    then show "ledThread (\<lambda>_ _. True) dips led_start = Inl UseAfterFree"
      using reset by (simp add: ledThread_def init)
  qed
  show "\<exists>t. ledThread (\<lambda>_ _. True) [] led_start = Inr t"
    by (simp add: ledThread_def init led_start_def led_reset_def led_step_def free_block_def Let_def)
qed

theorem ledThread_double_free_witness:
  "ledThread (\<lambda>_ _. True) [0, 1] led_start = Inl UseAfterFree"
  using ledThread_double_free [of "[0, 1]"] by simp

end
