(* ===== verification/CFloat.thy ===== *)
theory CFloat
  imports Complex_Main Prelude
begin

text \<open>
  The finite values of C's \<open>float\<close> and \<open>double\<close> are rationals, and each arithmetic
  operation is the exact operation followed by rounding to nearest, ties to even, to the
  type's precision (24 or 53 bits) with its smallest exponent (gradual underflow
  included). Infinities and signed zeros are not represented: an operation whose C result
  would be infinite is guarded where it occurs, and every value computed by the programs
  stays far below the overflow thresholds. Rounding is monotone and fixes the numbers the
  format represents; these two facts carry the numeric properties of the components.
\<close>

section \<open>The binary exponent of a positive rational\<close>

function ilog2 :: "rat \<Rightarrow> int" where
  "ilog2 x = (if x \<le> 0 then 0 else if 2 \<le> x then ilog2 (x / 2) + 1
              else if x < 1 then ilog2 (2 * x) - 1 else 0)"
  by pat_completeness auto
termination
proof (relation "measure (\<lambda>x::rat. nat \<lfloor>x\<rfloor> + 2 * nat \<lceil>1 / x\<rceil>)", goal_cases)
  case 1
  show ?case by simp
next
  case (2 x)
  have "\<lfloor>x / 2\<rfloor> < \<lfloor>x\<rfloor>" "0 \<le> \<lfloor>x / 2\<rfloor>" using 2 by linarith+
  moreover have "\<lceil>2 / x\<rceil> \<le> 1" "\<lceil>1 / x\<rceil> \<ge> 1"
    using 2 by (simp_all add: ceiling_le_iff field_simps)
  ultimately have "nat \<lfloor>x / 2\<rfloor> + 2 * nat \<lceil>2 / x\<rceil> < nat \<lfloor>x\<rfloor> + 2 * nat \<lceil>1 / x\<rceil>" by linarith
  then show ?case by simp
next
  case (3 x)
  then have pos: "0 < x" "x < 1" by auto
  show ?case
  proof (cases "2 * x < 1")
    case True
    have "1 / (2 * x) = (1 / x) / 2" "1 / x > 2" using pos True by (simp_all add: field_simps)
    then have "\<lceil>1 / (2 * x)\<rceil> < \<lceil>1 / x\<rceil>" "0 \<le> \<lceil>1 / (2 * x)\<rceil>" by linarith+
    moreover have "\<lfloor>2 * x\<rfloor> = 0" "\<lfloor>x\<rfloor> = 0" using pos True by linarith+
    ultimately have "nat \<lfloor>2 * x\<rfloor> + 2 * nat \<lceil>1 / (2 * x)\<rceil> < nat \<lfloor>x\<rfloor> + 2 * nat \<lceil>1 / x\<rceil>" by linarith
    then show ?thesis by simp
  next
    case False
    have "\<lceil>1 / (2 * x)\<rceil> = 1" "\<lceil>1 / x\<rceil> \<ge> 2"
      using pos False by (simp_all add: ceiling_eq_iff le_ceiling_iff field_simps)
    moreover have "\<lfloor>2 * x\<rfloor> = 1" "\<lfloor>x\<rfloor> = 0" using pos False by linarith+
    ultimately have "nat \<lfloor>2 * x\<rfloor> + 2 * nat \<lceil>1 / (2 * x)\<rceil> < nat \<lfloor>x\<rfloor> + 2 * nat \<lceil>1 / x\<rceil>" by linarith
    then show ?thesis by simp
  qed
qed

declare ilog2.simps [simp del]

lemma ilog2_bounds:
  "0 < x \<Longrightarrow> 2 powi (ilog2 x) \<le> x \<and> x < 2 powi (ilog2 x + 1)"
proof (induction x rule: ilog2.induct)
  case (1 x)
  consider "2 \<le> x" | "x < 1" | "1 \<le> x" "x < 2" by linarith
  then show ?case
  proof cases
    case 1
    then have "ilog2 x = ilog2 (x / 2) + 1" by (simp add: ilog2.simps [of x])
    moreover have "2 powi (ilog2 (x / 2)) \<le> x / 2 \<and> x / 2 < 2 powi (ilog2 (x / 2) + 1)"
      using "1.IH"(1) 1 by simp
    ultimately show ?thesis by (simp add: power_int_add)
  next
    case 2
    then have "ilog2 x = ilog2 (2 * x) - 1" using "1.prems" by (simp add: ilog2.simps [of x])
    moreover have "2 powi (ilog2 (2 * x)) \<le> 2 * x \<and> 2 * x < 2 powi (ilog2 (2 * x) + 1)"
      using "1.IH"(2) 2 "1.prems" by simp
    ultimately show ?thesis by (simp add: power_int_add power_int_diff)
  next
    case 3
    then show ?thesis by (simp add: ilog2.simps [of x])
  qed
qed

lemma powi2_le_iff: "(2::rat) powi a \<le> 2 powi b \<longleftrightarrow> a \<le> b"
proof
  assume "a \<le> b"
  then show "(2::rat) powi a \<le> 2 powi b" by (simp add: power_int_increasing)
next
  assume le: "(2::rat) powi a \<le> 2 powi b"
  show "a \<le> b"
  proof (rule ccontr)
    assume "\<not> a \<le> b"
    then have "(2::rat) powi b < 2 powi a" by (simp add: power_int_strict_increasing)
    with le show False by simp
  qed
qed

lemma powi2_less_iff: "(2::rat) powi a < 2 powi b \<longleftrightarrow> a < b"
  using powi2_le_iff [of b a] by linarith

lemma ilog2_mono: "0 < x \<Longrightarrow> x \<le> y \<Longrightarrow> ilog2 x \<le> ilog2 y"
proof -
  assume "0 < x" "x \<le> y"
  then have "(2::rat) powi (ilog2 x) < 2 powi (ilog2 y + 1)"
    using ilog2_bounds [of x] ilog2_bounds [of y] by linarith
  then show ?thesis using powi2_less_iff by force
qed

section \<open>Rounding to nearest, ties to even\<close>

definition rne :: "rat \<Rightarrow> int" where
  "rne x = (let f = \<lfloor>x\<rfloor>; d = x - of_int f in
     if d < 1 / 2 then f else if d > 1 / 2 then f + 1 else if even f then f else f + 1)"

lemma rne_of_int [simp]: "rne (of_int n) = n"
  by (simp add: rne_def)

lemma rne_floor: "rne x = \<lfloor>x\<rfloor> \<or> rne x = \<lfloor>x\<rfloor> + 1"
  by (simp add: rne_def Let_def)

lemma rne_mono: "x \<le> y \<Longrightarrow> rne x \<le> rne y"
proof -
  assume le: "x \<le> y"
  then have fl: "\<lfloor>x\<rfloor> \<le> \<lfloor>y\<rfloor>" by (rule floor_mono)
  show ?thesis
  proof (cases "\<lfloor>x\<rfloor> = \<lfloor>y\<rfloor>")
    case True
    then show ?thesis using le by (simp add: rne_def Let_def)
  next
    case False
    then show ?thesis using fl rne_floor [of x] rne_floor [of y] by linarith
  qed
qed

lemma rne_le_of_int: "x \<le> of_int n \<Longrightarrow> rne x \<le> n"
  using rne_mono [of x "of_int n"] by simp

lemma rne_ge_of_int: "of_int n \<le> x \<Longrightarrow> n \<le> rne x"
  using rne_mono [of "of_int n" x] by simp

lemma rne_minus: "rne (- x) = - rne x"
proof (cases "x = of_int \<lfloor>x\<rfloor>")
  case True
  then have "- x = of_int (- \<lfloor>x\<rfloor>)" by simp
  then show ?thesis using True by (metis rne_of_int)
next
  case False
  then have f: "\<lfloor>- x\<rfloor> = - \<lfloor>x\<rfloor> - 1"
    by (smt (verit) ceiling_def ceiling_altdef)
  then have d: "- x - of_int \<lfloor>- x\<rfloor> = 1 - (x - of_int \<lfloor>x\<rfloor>)" by simp
  show ?thesis
    unfolding rne_def Let_def d unfolding f by auto
qed

text \<open>\<open>rnd p emin x\<close>: the nearest number with \<open>p\<close> significant bits and exponent at least \<open>emin\<close>.\<close>

definition fexp :: "nat \<Rightarrow> int \<Rightarrow> rat \<Rightarrow> int" where
  "fexp p emin x = max (ilog2 \<bar>x\<bar> - (int p - 1)) emin"

definition rnd :: "nat \<Rightarrow> int \<Rightarrow> rat \<Rightarrow> rat" where
  "rnd p emin x = (if x = 0 then 0
     else of_int (rne (x / 2 powi fexp p emin x)) * 2 powi fexp p emin x)"

definition rn24 :: "rat \<Rightarrow> rat" where \<comment> \<open>rounding to \<open>float\<close>\<close>
  "rn24 = rnd 24 (- 149)"

definition rn53 :: "rat \<Rightarrow> rat" where \<comment> \<open>rounding to \<open>double\<close>\<close>
  "rn53 = rnd 53 (- 1074)"

lemma rnd_0 [simp]: "rnd p emin 0 = 0"
  by (simp add: rnd_def)

lemma rnd_minus: "rnd p emin (- x) = - rnd p emin x"
  by (simp add: rnd_def fexp_def rne_minus)

lemma rnd_nonneg: "0 \<le> x \<Longrightarrow> 0 \<le> rnd p emin x"
proof -
  assume "0 \<le> x"
  then have "0 \<le> rne (x / 2 powi fexp p emin x)"
    by (intro rne_ge_of_int) simp
  then show ?thesis by (simp add: rnd_def)
qed

lemma rnd_le_pow:
  assumes "0 < x" "x \<le> 2 powi k" "fexp p emin x \<le> k"
  shows "rnd p emin x \<le> 2 powi k"
proof -
  let ?e = "fexp p emin x"
  obtain n where n: "k = ?e + int n" using assms(3) by (metis zle_iff_zadd)
  have "x / 2 powi ?e \<le> of_int (2 ^ n)"
    using assms(2) by (simp add: n power_int_add field_simps)
  then have "rne (x / 2 powi ?e) \<le> 2 ^ n" by (rule rne_le_of_int)
  then have "rat_of_int (rne (x / 2 powi ?e)) \<le> 2 ^ n"
    by (metis of_int_le_iff of_int_numeral of_int_power)
  then have "of_int (rne (x / 2 powi ?e)) * 2 powi ?e \<le> (2::rat) ^ n * 2 powi ?e"
    by (rule mult_right_mono) simp
  then show ?thesis using assms(1) by (simp add: rnd_def n power_int_add mult.commute)
qed

lemma rnd_ge_pow:
  assumes "2 powi k \<le> x" "fexp p emin x \<le> k"
  shows "2 powi k \<le> rnd p emin x"
proof -
  let ?e = "fexp p emin x"
  have pos: "0 < x" using assms(1) less_le_trans [of 0 "2 powi k" x] by simp
  obtain n where n: "k = ?e + int n" using assms(2) by (metis zle_iff_zadd)
  have "of_int (2 ^ n) \<le> x / 2 powi ?e"
    using assms(1) by (simp add: n power_int_add field_simps)
  then have "2 ^ n \<le> rne (x / 2 powi ?e)" by (rule rne_ge_of_int)
  then have "(2::rat) ^ n \<le> of_int (rne (x / 2 powi ?e))"
    by (metis of_int_le_iff of_int_numeral of_int_power)
  then have "(2::rat) ^ n * 2 powi ?e \<le> of_int (rne (x / 2 powi ?e)) * 2 powi ?e"
    by (rule mult_right_mono) simp
  then show ?thesis using pos by (simp add: rnd_def n power_int_add mult.commute)
qed

lemma rnd_mono_pos:
  assumes "0 < x" "x \<le> y" "0 < p"
  shows "rnd p emin x \<le> rnd p emin y"
proof (cases "fexp p emin x = fexp p emin y")
  case True
  let ?e = "fexp p emin y"
  have "x / 2 powi ?e \<le> y / 2 powi ?e" using assms by (simp add: divide_right_mono)
  then have "rne (x / 2 powi ?e) \<le> rne (y / 2 powi ?e)" by (rule rne_mono)
  then have "of_int (rne (x / 2 powi ?e)) * (2::rat) powi ?e
      \<le> of_int (rne (y / 2 powi ?e)) * 2 powi ?e"
    by (intro mult_right_mono) auto
  then show ?thesis using assms True by (simp add: rnd_def)
next
  case False
  have il: "ilog2 x \<le> ilog2 y" using assms by (intro ilog2_mono)
  then have "fexp p emin x \<le> fexp p emin y" using assms by (simp add: fexp_def)
  then have lt: "fexp p emin x < fexp p emin y" using False by simp
  have ey: "fexp p emin y = ilog2 y - (int p - 1)" and xy: "ilog2 x < ilog2 y"
    using assms lt by (simp_all add: fexp_def max_def split: if_splits)
  have "x \<le> 2 powi (ilog2 y)"
    using ilog2_bounds [OF assms(1)] xy powi2_le_iff [of "ilog2 x + 1" "ilog2 y"] by linarith
  then have "rnd p emin x \<le> 2 powi (ilog2 y)"
    using assms lt ey by (intro rnd_le_pow) auto
  also have "\<dots> \<le> rnd p emin y"
    using assms ey ilog2_bounds [of y] by (intro rnd_ge_pow) auto
  finally show ?thesis .
qed

theorem rnd_mono: "x \<le> y \<Longrightarrow> 0 < p \<Longrightarrow> rnd p emin x \<le> rnd p emin y"
proof -
  assume le: "x \<le> y" and p: "0 < p"
  consider "0 < x" | "x \<le> 0" "0 \<le> y" | "y < 0" by linarith
  then show ?thesis
  proof cases
    case 1 then show ?thesis using le p by (rule rnd_mono_pos)
  next
    case 2
    then have "rnd p emin x \<le> 0" using rnd_nonneg [of "- x" p emin] by (simp add: rnd_minus)
    also have "0 \<le> rnd p emin y" using 2 by (intro rnd_nonneg)
    finally show ?thesis .
  next
    case 3
    then have "rnd p emin (- y) \<le> rnd p emin (- x)" using le p by (intro rnd_mono_pos) auto
    then show ?thesis by (simp add: rnd_minus)
  qed
qed

lemma rn24_mono: "x \<le> y \<Longrightarrow> rn24 x \<le> rn24 y"
  by (simp add: rn24_def rnd_mono)

lemma rn53_mono: "x \<le> y \<Longrightarrow> rn53 x \<le> rn53 y"
  by (simp add: rn53_def rnd_mono)

lemma rn24_nonneg: "0 \<le> x \<Longrightarrow> 0 \<le> rn24 x"
  by (simp add: rn24_def rnd_nonneg)

lemma rn53_nonneg: "0 \<le> x \<Longrightarrow> 0 \<le> rn53 x"
  by (simp add: rn53_def rnd_nonneg)

lemma rn_0 [simp]: "rn24 0 = 0" "rn53 0 = 0"
  by (simp_all add: rn24_def rn53_def)

text \<open>An integer of at most \<open>p\<close> bits is a number of the format.\<close>

lemma rnd_of_int:
  assumes "\<bar>n\<bar> < 2 ^ p" "0 < p" "emin \<le> 0"
  shows "rnd p emin (of_int n) = of_int n"
proof (cases "n = 0")
  case False
  let ?e = "fexp p emin (rat_of_int n)"
  have "rat_of_int \<bar>n\<bar> < rat_of_int (2 ^ p)" using assms(1) by (simp only: of_int_less_iff)
  then have "\<bar>rat_of_int n\<bar> < 2 powi (int p)" by simp
  then have "(2::rat) powi (ilog2 \<bar>rat_of_int n\<bar>) < 2 powi (int p)"
    using ilog2_bounds [of "\<bar>rat_of_int n\<bar>"] False by linarith
  then have "ilog2 \<bar>rat_of_int n\<bar> < int p" by (simp only: powi2_less_iff)
  then have "?e \<le> 0" using assms by (simp add: fexp_def)
  then obtain k where k: "?e = - int k" by (metis minus_minus nonneg_int_cases neg_0_le_iff_le)
  have "rat_of_int n / 2 powi ?e = of_int (n * 2 ^ k)"
    by (simp add: k power_int_minus field_simps)
  then have "rne (rat_of_int n / 2 powi ?e) = n * 2 ^ k" by (metis rne_of_int)
  then show ?thesis using False by (simp add: rnd_def k power_int_minus)
qed simp

text \<open>
  Evaluating a rounding: the binade of the argument is checked by comparison, and the
  nearest integer multiple of the last place by its distance.
\<close>

lemma ilog2_eqI: "2 powi k \<le> x \<Longrightarrow> x < 2 powi (k + 1) \<Longrightarrow> ilog2 x = k"
proof -
  assume a: "2 powi k \<le> x" "x < 2 powi (k + 1)"
  have "0 < (2::rat) powi k" by simp
  then have "0 < x" using a by linarith
  from ilog2_bounds [OF this] a have "(2::rat) powi k < 2 powi (ilog2 x + 1)"
      "(2::rat) powi (ilog2 x) < 2 powi (k + 1)" by linarith+
  then show ?thesis by (simp only: powi2_less_iff)
qed

lemma rne_eqI: "\<bar>x - of_int n\<bar> < 1 / 2 \<Longrightarrow> rne x = n"
proof -
  assume a: "\<bar>x - of_int n\<bar> < 1 / 2"
  then consider "\<lfloor>x\<rfloor> = n" | "\<lfloor>x\<rfloor> = n - 1" by linarith
  then show ?thesis
  proof cases
    case 1
    moreover have "x - of_int n < 1 / 2" using a by linarith
    ultimately show ?thesis by (simp add: rne_def Let_def)
  next
    case 2
    moreover have "x - of_int (n - 1) > 1 / 2" using a by linarith
    ultimately show ?thesis by (simp add: rne_def Let_def)
  qed
qed

lemma rnd_eqI:
  assumes "2 powi k \<le> x" "x < 2 powi (k + 1)" "e = max (k - (int p - 1)) emin"
    and "\<bar>x / 2 powi e - of_int n\<bar> < 1 / 2"
  shows "rnd p emin x = of_int n * 2 powi e"
proof -
  have "0 < (2::rat) powi k" by simp
  then have "0 < x" using assms by linarith
  moreover have "ilog2 x = k" using assms by (intro ilog2_eqI)
  ultimately have "fexp p emin x = e" using assms by (simp add: fexp_def)
  then show ?thesis using \<open>0 < x\<close> rne_eqI [OF assms(4)] by (simp add: rnd_def)
qed

lemma rn24_int: "\<bar>n\<bar> < 2 ^ 24 \<Longrightarrow> rn24 (of_int n) = of_int n"
  by (simp add: rn24_def rnd_of_int)

end
