(* ===== verification/CStrings.thy ===== *)
theory CStrings
  imports Prelude CFloat
begin

text \<open>
  What the programs use of the C string library: the prefix test they build from
  \<open>strncmp\<close>, decimal conversion in both directions (\<open>%d\<close> in \<open>sprintf\<close>, \<open>sscanf\<close> and
  \<open>atoi\<close>), and the fixed-point conversion \<open>%5.3f\<close>. A C string is the list of its
  characters before the terminating zero byte. Decimal conversion and its inverse are
  related by a round trip.
\<close>

section \<open>Prefixes and terminators\<close>

definition cstring :: "string \<Rightarrow> string" where
  \<comment> \<open>the string a byte buffer holds: everything before its first zero byte\<close>
  "cstring = takeWhile (\<lambda>c. c \<noteq> CHR 0x00)"

definition starts_with :: "string \<Rightarrow> string \<Rightarrow> bool" where
  \<comment> \<open>\<open>strncmp(lit, msg, strlen(lit)) == 0\<close>\<close>
  "starts_with lit msg \<longleftrightarrow> take (length lit) msg = lit"

lemma starts_with_append [simp]: "starts_with lit (lit @ rest)"
  by (simp add: starts_with_def)

lemma starts_with_iff: "starts_with lit msg \<longleftrightarrow> (\<exists>rest. msg = lit @ rest)"
  by (metis append_take_drop_id starts_with_append starts_with_def)

section \<open>Decimal output\<close>

definition digit_char :: "nat \<Rightarrow> char" where
  "digit_char d = char_of (48 + d)"

fun show_nat :: "nat \<Rightarrow> string" where
  "show_nat n = (if n < 10 then [digit_char n] else show_nat (n div 10) @ [digit_char (n mod 10)])"

declare show_nat.simps [simp del]

definition show_int :: "int \<Rightarrow> string" where \<comment> \<open>\<open>%d\<close>\<close>
  "show_int i = (if i < 0 then CHR ''-'' # show_nat (nat (- i)) else show_nat (nat i))"

section \<open>Decimal input\<close>

definition c_isspace :: "char \<Rightarrow> bool" where
  "c_isspace c \<longleftrightarrow> c \<in> {CHR '' '', CHR 0x09, CHR 0x0A, CHR 0x0B, CHR 0x0C, CHR 0x0D}"

definition c_isdigit :: "char \<Rightarrow> bool" where
  "c_isdigit c \<longleftrightarrow> 48 \<le> (of_char c :: nat) \<and> (of_char c :: nat) \<le> 57"

definition digit_val :: "char \<Rightarrow> nat" where
  "digit_val c = of_char c - 48"

fun read_digits :: "nat \<Rightarrow> string \<Rightarrow> nat" where
  "read_digits acc [] = acc"
| "read_digits acc (c # cs) = (if c_isdigit c then read_digits (10 * acc + digit_val c) cs else acc)"

text \<open>What one \<open>%d\<close> conversion meets: the end of the input, no number, or a number.\<close>

datatype scan = ScanEOF | ScanNone | ScanInt int

definition scan_unsigned :: "string \<Rightarrow> nat option" where
  "scan_unsigned cs = (case cs of [] \<Rightarrow> None | c # _ \<Rightarrow> if c_isdigit c then Some (read_digits 0 cs) else None)"

definition scan_d :: "string \<Rightarrow> scan" where
  "scan_d s = (case dropWhile c_isspace s of
      [] \<Rightarrow> ScanEOF
    | c # cs \<Rightarrow>
        if c = CHR ''-'' then (case scan_unsigned cs of None \<Rightarrow> ScanNone | Some n \<Rightarrow> ScanInt (- int n))
        else if c = CHR ''+'' then (case scan_unsigned cs of None \<Rightarrow> ScanNone | Some n \<Rightarrow> ScanInt (int n))
        else (case scan_unsigned (c # cs) of None \<Rightarrow> ScanNone | Some n \<Rightarrow> ScanInt (int n)))"

definition scan_count :: "scan \<Rightarrow> int" where
  \<comment> \<open>the return value of \<open>sscanf\<close>/\<open>fscanf\<close> with the one conversion \<open>%d\<close>\<close>
  "scan_count r = (case r of ScanEOF \<Rightarrow> - 1 | ScanNone \<Rightarrow> 0 | ScanInt _ \<Rightarrow> 1)"

definition c_atoi :: "string \<Rightarrow> int" where
  "c_atoi s = (case scan_d s of ScanInt n \<Rightarrow> n | _ \<Rightarrow> 0)"

section \<open>The round trip\<close>

lemma of_digit_char: "d < 10 \<Longrightarrow> (of_char (digit_char d) :: nat) = 48 + d"
  by (simp add: digit_char_def of_char_of)

lemma digit_char_props:
  "d < 10 \<Longrightarrow> c_isdigit (digit_char d)" "d < 10 \<Longrightarrow> digit_val (digit_char d) = d"
  by (simp_all add: c_isdigit_def digit_val_def of_digit_char)

lemma isdigit_not_special:
  "c_isdigit c \<Longrightarrow> \<not> c_isspace c" "c_isdigit c \<Longrightarrow> c \<noteq> CHR ''-''" "c_isdigit c \<Longrightarrow> c \<noteq> CHR ''+''"
  by (auto simp: c_isdigit_def c_isspace_def)

lemma show_nat_ne: "show_nat n \<noteq> []"
  by (subst show_nat.simps) simp

lemma show_nat_digits: "\<forall>c \<in> set (show_nat n). c_isdigit c"
proof (induction n rule: show_nat.induct)
  case (1 n)
  show ?case
  proof (cases "n < 10")
    case True
    then show ?thesis by (subst show_nat.simps) (simp add: digit_char_props)
  next
    case False
    then have "\<forall>c \<in> set (show_nat (n div 10)). c_isdigit c" using "1.IH" by simp
    then show ?thesis using False by (subst show_nat.simps) (auto simp: digit_char_props)
  qed
qed

lemma read_digits_append:
  "\<forall>c \<in> set xs. c_isdigit c \<Longrightarrow> read_digits acc (xs @ ys) = read_digits (read_digits acc xs) ys"
  by (induction xs arbitrary: acc) auto

definition no_digit_next :: "string \<Rightarrow> bool" where
  "no_digit_next rest \<longleftrightarrow> (case rest of [] \<Rightarrow> True | c # _ \<Rightarrow> \<not> c_isdigit c)"

lemma read_digits_show_nat: "read_digits 0 (show_nat n) = n"
proof (induction n rule: show_nat.induct)
  case (1 n)
  show ?case
  proof (cases "n < 10")
    case True
    then show ?thesis by (subst show_nat.simps) (simp add: digit_char_props)
  next
    case False
    then have "read_digits 0 (show_nat (n div 10)) = n div 10" using "1.IH" by simp
    then show ?thesis
      using False show_nat_digits [of "n div 10"]
      by (subst show_nat.simps) (simp add: read_digits_append digit_char_props)
  qed
qed

lemma read_digits_stop: "no_digit_next rest \<Longrightarrow> read_digits acc rest = acc"
  by (cases rest) (auto simp: no_digit_next_def)

lemma scan_unsigned_show_nat:
  "no_digit_next rest \<Longrightarrow> scan_unsigned (show_nat n @ rest) = Some n"
proof -
  assume stop: "no_digit_next rest"
  obtain c cs where c: "show_nat n = c # cs" using show_nat_ne [of n] by (cases "show_nat n") auto
  then have "c_isdigit c" using show_nat_digits [of n] by simp
  moreover have "read_digits 0 (show_nat n @ rest) = n"
    using stop by (simp add: read_digits_append [OF show_nat_digits] read_digits_show_nat read_digits_stop)
  ultimately show ?thesis by (simp add: scan_unsigned_def c)
qed

theorem scan_d_show_int: "no_digit_next rest \<Longrightarrow> scan_d (show_int i @ rest) = ScanInt i"
proof -
  assume stop: "no_digit_next rest"
  show ?thesis
  proof (cases "i < 0")
    case True
    moreover have "\<not> c_isspace (CHR ''-'')" by (simp add: c_isspace_def)
    ultimately show ?thesis
      by (simp add: scan_d_def show_int_def scan_unsigned_show_nat [OF stop])
  next
    case False
    obtain c cs where c: "show_nat (nat i) = c # cs"
      using show_nat_ne [of "nat i"] by (cases "show_nat (nat i)") auto
    then have d: "c_isdigit c" using show_nat_digits [of "nat i"] by simp
    have "scan_unsigned (c # cs @ rest) = Some (nat i)"
      using scan_unsigned_show_nat [OF stop, of "nat i"] by (simp add: c)
    then show ?thesis
      using False isdigit_not_special [OF d] by (simp add: scan_d_def show_int_def c)
  qed
qed

lemma show_nat_inj: "show_nat a = show_nat b \<Longrightarrow> a = b"
  by (metis read_digits_show_nat)

lemma show_int_inj: "show_int a = show_int b \<Longrightarrow> a = b"
  using scan_d_show_int [of "[]" a] scan_d_show_int [of "[]" b] by (simp add: no_digit_next_def)

section \<open>Fixed-point output\<close>

text \<open>
  \<open>%5.3f\<close>: the value rounded to thousandths (ties to even, as the C library rounds the
  exact binary value), three digits after the point, padded on the left to five
  characters.
\<close>

definition pad3 :: "nat \<Rightarrow> string" where
  "pad3 n = [digit_char (n div 100), digit_char (n div 10 mod 10), digit_char (n mod 10)]"

definition lpad :: "nat \<Rightarrow> string \<Rightarrow> string" where
  "lpad w s = replicate (w - length s) (CHR '' '') @ s"

definition fmt_5_3f :: "rat \<Rightarrow> string" where
  "fmt_5_3f x = (let m = nat (rne (\<bar>x\<bar> * 1000)) in
     lpad 5 ((if x < 0 then ''-'' else '''') @ show_nat (m div 1000) @ ''.'' @ pad3 (m mod 1000)))"

lemma length_show_nat_1: "n < 10 \<Longrightarrow> length (show_nat n) = 1"
  by (subst show_nat.simps) simp

lemma length_show_nat_mono: "m \<le> n \<Longrightarrow> length (show_nat m) \<le> length (show_nat n)"
proof (induction n arbitrary: m rule: show_nat.induct)
  case (1 n)
  show ?case
  proof (cases "m < 10")
    case True
    then show ?thesis
      using show_nat_ne [of n] by (simp add: length_show_nat_1 Suc_le_eq)
  next
    case False
    then have "length (show_nat (m div 10)) \<le> length (show_nat (n div 10))"
      using "1.prems" by (intro "1.IH") (auto simp: div_le_mono)
    then show ?thesis using False "1.prems"
      by (subst (1 2) show_nat.simps) simp
  qed
qed

text \<open>A voltage between 0 and 9.999 prints as exactly five characters.\<close>

lemma length_fmt_5_3f: "0 \<le> x \<Longrightarrow> x \<le> 9999 / 1000 \<Longrightarrow> length (fmt_5_3f x) = 5"
proof -
  assume a: "0 \<le> x" "x \<le> 9999 / 1000"
  have "rne (\<bar>x\<bar> * 1000) \<le> 9999" using a by (intro rne_le_of_int) simp
  then have "nat (rne (\<bar>x\<bar> * 1000)) div 1000 < 10" by linarith
  then show ?thesis
    using a by (simp add: fmt_5_3f_def Let_def lpad_def length_show_nat_1 pad3_def)
qed

lemma length_show_nat: "n < 10 ^ Suc k \<Longrightarrow> length (show_nat n) \<le> Suc k"
proof (induction k arbitrary: n)
  case (Suc k)
  show ?case
  proof (cases "n < 10")
    case False
    have "n div 10 < 10 ^ Suc k" using Suc.prems by (simp add: less_mult_imp_div_less)
    from Suc.IH [OF this] show ?thesis using False by (subst show_nat.simps) simp
  qed (simp add: length_show_nat_1)
qed (simp add: length_show_nat_1)

text \<open>A 64-bit number prints in at most 20 characters.\<close>

lemma length_show_int:
  assumes "\<bar>i\<bar> < 2 ^ 63"
  shows "length (show_int i) \<le> 20"
proof -
  have "nat \<bar>i\<bar> < 10 ^ Suc 18" using assms by simp
  then have "length (show_nat (nat \<bar>i\<bar>)) \<le> 19" using length_show_nat [of "nat \<bar>i\<bar>" 18] by simp
  then show ?thesis by (auto simp: show_int_def abs_if split: if_splits)
qed

end
