(* ===== verification/PeriodTimer.thy ===== *)
theory PeriodTimer
  imports Prelude CFloat
begin

text \<open>
  The period timer (\<open>work/as2/periodTimer.c\<close>, \<open>periodTimer.h\<close>; the beat-box keeps a copy
  that differs only in the name of its one event). Each event has an array of at most 4096
  timestamps and the last timestamp of the previous reporting window; \<open>Period_markEvent\<close>
  records the clock, \<open>Period_getStatisticsAndClear\<close> reports the minimum, maximum and
  average period and starts a new window. The module's mutex makes each call one atomic
  step. Timestamps are 64-bit nanosecond counts, far below overflow for any uptime, and are
  modelled as integers; the reported milliseconds are doubles.
\<close>

section \<open>Data\<close>

definition MAX_EVENT_TIMESTAMPS :: int where
  "MAX_EVENT_TIMESTAMPS = 1024 * 4"

definition PERIOD_EVENT_SAMPLE_LIGHT :: int where
  "PERIOD_EVENT_SAMPLE_LIGHT = 0"

definition NUM_PERIOD_EVENTS :: int where
  "NUM_PERIOD_EVENTS = 1"

record timestamps_t =
  timestampCount :: int
  timestampsInNs :: "int list"
  prevTimestampInNs :: int

record Period_statistics_t =
  numSamples :: int
  minPeriodInMs :: rat
  maxPeriodInMs :: rat
  avgPeriodInMs :: rat

text \<open>The module's static variables, with the one inside \<open>getTimeInNanoS\<close>.\<close>

record period =
  s_eventData :: "timestamps_t list"
  s_initialized :: bool
  lastTimeHack :: int

record timespec = \<comment> \<open>a reading of the clock\<close>
  tv_sec :: int
  tv_nsec :: int

definition program_start :: period where
  "program_start = \<lparr>s_eventData = replicate (nat NUM_PERIOD_EVENTS)
       \<lparr>timestampCount = 0, timestampsInNs = replicate (nat MAX_EVENT_TIMESTAMPS) 0, prevTimestampInNs = 0\<rparr>,
     s_initialized = False, lastTimeHack = 0\<rparr>"

section \<open>Operations\<close>

definition Period_init :: "period \<Rightarrow> period" where
  "Period_init s = s\<lparr>s_eventData := replicate (nat NUM_PERIOD_EVENTS)
       \<lparr>timestampCount = 0, timestampsInNs = replicate (nat MAX_EVENT_TIMESTAMPS) 0, prevTimestampInNs = 0\<rparr>,
     s_initialized := True\<rparr>"

definition Period_cleanup :: "period \<Rightarrow> period" where
  "Period_cleanup s = s\<lparr>s_initialized := False\<rparr>"

definition getTimeInNanoS :: "timespec \<Rightarrow> period \<Rightarrow> (int \<times> period) res" where
  "getTimeInNanoS spec s =
     (let nanoSeconds = tv_nsec spec + tv_sec spec * 1000 * 1000 * 1000 in
      rbind (rassert (nanoSeconds > 0) AssertFail) (\<lambda>_.
      rbind (rassert (nanoSeconds > lastTimeHack s) AssertFail) (\<lambda>_.
      Inr (nanoSeconds, s\<lparr>lastTimeHack := nanoSeconds\<rparr>))))"

definition Period_markEvent :: "int \<Rightarrow> timespec \<Rightarrow> period \<Rightarrow> period res" where
  "Period_markEvent whichEvent spec s =
     rbind (rassert (whichEvent \<ge> 0 \<and> whichEvent < NUM_PERIOD_EVENTS) AssertFail) (\<lambda>_.
     rbind (rassert (s_initialized s) AssertFail) (\<lambda>_.
     rbind (aread (s_eventData s) whichEvent) (\<lambda>pData.
     if timestampCount pData < MAX_EVENT_TIMESTAMPS
     then rbind (getTimeInNanoS spec s) (\<lambda>(t, s1).
          rbind (awrite (timestampsInNs pData) (timestampCount pData) t) (\<lambda>ts.
          rbind (awrite (s_eventData s1) whichEvent
                   (pData\<lparr>timestampsInNs := ts, timestampCount := timestampCount pData + 1\<rparr>)) (\<lambda>ds.
          Inr (s1\<lparr>s_eventData := ds\<rparr>))))
     else Inr s)))" \<comment> \<open>the warning is printed and the event dropped\<close>

text \<open>One turn of the loop that finds the extreme and total differences.\<close>

definition stats_body :: "timestamps_t \<Rightarrow> int \<Rightarrow> int \<times> int \<times> int \<times> int \<Rightarrow> (int \<times> int \<times> int \<times> int) res" where
  "stats_body pData i = (\<lambda>(prevInNs, sumDeltasNs, minNs, maxNs).
     rbind (aread (timestampsInNs pData) i) (\<lambda>thisTime.
       let deltaNs = thisTime - prevInNs in
       Inr (thisTime, sumDeltasNs + deltaNs,
            if i = 0 \<or> deltaNs < minNs then deltaNs else minNs,
            if i = 0 \<or> deltaNs > maxNs then deltaNs else maxNs)))"

definition ns_to_ms :: "int \<Rightarrow> rat" where
  \<comment> \<open>\<open>ns / MS_PER_NS\<close>: conversion to double, then a double division\<close>
  "ns_to_ms ns = rn53 (rn53 (of_int ns) / (1000 * 1000))"

definition updateStats :: "timestamps_t \<Rightarrow> Period_statistics_t res" where
  "updateStats pData =
     rbind (if prevTimestampInNs pData = 0 then aread (timestampsInNs pData) 0
            else Inr (prevTimestampInNs pData)) (\<lambda>prevInNs.
     rbind (for_range 0 (timestampCount pData) (stats_body pData) (prevInNs, 0, 0, 0))
       (\<lambda>(prev', sumDeltasNs, minNs, maxNs).
     let avgNs = (if timestampCount pData > 0 then sumDeltasNs sdiv timestampCount pData else 0) in
     Inr \<lparr>numSamples = timestampCount pData, minPeriodInMs = ns_to_ms minNs,
          maxPeriodInMs = ns_to_ms maxNs, avgPeriodInMs = ns_to_ms avgNs\<rparr>))"

definition Period_getStatisticsAndClear :: "int \<Rightarrow> period \<Rightarrow> (Period_statistics_t \<times> period) res" where
  "Period_getStatisticsAndClear whichEvent s =
     rbind (rassert (whichEvent \<ge> 0 \<and> whichEvent < NUM_PERIOD_EVENTS) AssertFail) (\<lambda>_.
     rbind (rassert (s_initialized s) AssertFail) (\<lambda>_.
     rbind (aread (s_eventData s) whichEvent) (\<lambda>pData.
     rbind (updateStats pData) (\<lambda>pStats.
     rbind (if timestampCount pData > 0
            then rbind (aread (timestampsInNs pData) (timestampCount pData - 1)) (\<lambda>t.
                 Inr (pData\<lparr>prevTimestampInNs := t\<rparr>))
            else Inr pData) (\<lambda>pData1.
     rbind (awrite (s_eventData s) whichEvent (pData1\<lparr>timestampCount := 0\<rparr>)) (\<lambda>ds.
     Inr (pStats, s\<lparr>s_eventData := ds\<rparr>)))))))"

section \<open>The abstract window\<close>

text \<open>The window an event has recorded, and the differences between its timestamps.\<close>

definition window :: "timestamps_t \<Rightarrow> int list" where
  "window d = take (nat (timestampCount d)) (timestampsInNs d)"

fun deltas :: "int \<Rightarrow> int list \<Rightarrow> int list" where
  "deltas prev [] = []"
| "deltas prev (t # ts) = (t - prev) # deltas t ts"

definition start_of :: "timestamps_t \<Rightarrow> int" where
  "start_of d = (if prevTimestampInNs d = 0 then hd (timestampsInNs d) else prevTimestampInNs d)"

definition data_ok :: "int \<Rightarrow> timestamps_t \<Rightarrow> bool" where
  "data_ok now d \<longleftrightarrow> 0 \<le> timestampCount d \<and> timestampCount d \<le> MAX_EVENT_TIMESTAMPS \<and>
     length (timestampsInNs d) = nat MAX_EVENT_TIMESTAMPS \<and>
     sorted_wrt (<) (window d) \<and> 0 \<le> prevTimestampInNs d \<and> prevTimestampInNs d \<le> now \<and>
     (\<forall>t \<in> set (window d). prevTimestampInNs d < t \<and> t \<le> now)"

definition period_ok :: "period \<Rightarrow> bool" where
  "period_ok s \<longleftrightarrow> length (s_eventData s) = nat NUM_PERIOD_EVENTS \<and> 0 \<le> lastTimeHack s \<and>
     (\<forall>d \<in> set (s_eventData s). data_ok (lastTimeHack s) d)"

lemmas period_consts = MAX_EVENT_TIMESTAMPS_def NUM_PERIOD_EVENTS_def PERIOD_EVENT_SAMPLE_LIGHT_def

lemma length_deltas [simp]: "length (deltas p ts) = length ts"
  by (induction ts arbitrary: p) auto

lemma deltas_append: "deltas p (xs @ ys) = deltas p xs @ deltas (last (p # xs)) ys"
  by (induction xs arbitrary: p) auto

lemma sum_deltas: "sum_list (deltas p ts) = last (p # ts) - p"
  by (induction ts arbitrary: p) auto

lemma sorted_wrt_hd_le: "sorted_wrt (<) ts \<Longrightarrow> t \<in> set ts \<Longrightarrow> hd ts \<le> (t::int)"
  by (cases ts) auto

lemma deltas_pos:
  "sorted_wrt (<) ts \<Longrightarrow> \<forall>t \<in> set ts. p < t \<Longrightarrow> \<forall>x \<in> set (deltas p ts). 0 < x"
  by (induction ts arbitrary: p) auto

lemma deltas_nonneg:
  "sorted_wrt (<) ts \<Longrightarrow> \<forall>t \<in> set ts. p \<le> t \<Longrightarrow> \<forall>x \<in> set (deltas p ts). 0 \<le> x"
proof (induction ts arbitrary: p)
  case (Cons t ts)
  then have "\<forall>x \<in> set (deltas t ts). 0 \<le> x" by (intro Cons.IH) auto
  then show ?case using Cons.prems by simp
qed simp

section \<open>The statistics loop\<close>

definition extremes :: "int list \<Rightarrow> int \<times> int" where
  "extremes ds = (if ds = [] then (0, 0) else (Min (set ds), Max (set ds)))"

lemma extremes_snoc:
  "extremes (ds @ [x]) =
     (if ds = [] \<or> x < fst (extremes ds) then x else fst (extremes ds),
      if ds = [] \<or> x > snd (extremes ds) then x else snd (extremes ds))"
proof (cases "ds = []")
  case False
  define m where "m = Min (set ds)"
  define M where "M = Max (set ds)"
  have "extremes (ds @ [x]) = (min x m, max x M)" "extremes ds = (m, M)"
    using False by (simp_all add: extremes_def m_def M_def)
  then show ?thesis using False by (simp add: min_def max_def)
qed (simp add: extremes_def)

lemma window_Suc:
  assumes "i < length xs"
  shows "deltas p (take (Suc i) xs) = deltas p (take i xs) @ [xs ! i - last (p # take i xs)]"
  using assms by (simp add: take_Suc_conv_app_nth deltas_append)

lemma stats_loop:
  assumes n: "0 \<le> n" "n \<le> int (length (timestampsInNs d))"
  shows "for_range 0 n (stats_body d) (p, 0, 0, 0) =
    Inr (last (p # take (nat n) (timestampsInNs d)),
         sum_list (deltas p (take (nat n) (timestampsInNs d))),
         fst (extremes (deltas p (take (nat n) (timestampsInNs d)))),
         snd (extremes (deltas p (take (nat n) (timestampsInNs d)))))"
proof -
  let ?xs = "timestampsInNs d"
  let ?D = "\<lambda>i. deltas p (take (nat i) ?xs)"
  let ?S = "\<lambda>i. (last (p # take (nat i) ?xs), sum_list (?D i), fst (extremes (?D i)), snd (extremes (?D i)))"
  have "\<exists>t. for_range 0 n (stats_body d) (p, 0, 0, 0) = Inr t \<and> t = ?S n"
  proof (rule for_range_rule [where P = "\<lambda>i s. s = ?S i"])
    show "(p, 0, 0, 0) = ?S 0" by (simp add: extremes_def)
  next
    fix i s assume i: "0 \<le> i" "i < n" and s: "s = ?S i"
    have lt: "nat i < length ?xs" using i n by linarith
    have D: "?D (i + 1) = ?D i @ [?xs ! nat i - last (p # take (nat i) ?xs)]"
      using window_Suc [OF lt] i by (simp add: nat_add_distrib)
    have L: "last (p # take (nat (i + 1)) ?xs) = ?xs ! nat i"
      using lt i by (simp add: nat_add_distrib take_Suc_conv_app_nth)
    have E: "(?D i = []) = (i = 0)"
      using i lt by (metis length_0_conv length_deltas length_take less_imp_le_nat min.absorb2
          nat_0_iff order_antisym_conv)
    have "in_range ?xs i" using lt i by (simp add: in_range_def)
    moreover obtain mn mx where M: "extremes (?D i) = (mn, mx)" by fastforce
    ultimately have "stats_body d i s = Inr (?S (i + 1))"
      unfolding s D L by (simp add: stats_body_def Let_def extremes_snoc E M del: last.simps)
    then show "\<exists>t. stats_body d i s = Inr t \<and> t = ?S (i + 1)" by simp
  qed (use n in auto)
  then show ?thesis by blast
qed

lemma data_ok_length: "data_ok now d \<Longrightarrow> length (timestampsInNs d) = 4096"
  by (simp add: data_ok_def period_consts)

lemma data_ok_count: "data_ok now d \<Longrightarrow> timestampCount d \<le> int (length (timestampsInNs d))"
  by (simp add: data_ok_def period_consts)

lemma updateStats_eq:
  assumes ok: "data_ok now d"
  shows "updateStats d = Inr
    (let ds = deltas (start_of d) (window d) in
     \<lparr>numSamples = timestampCount d, minPeriodInMs = ns_to_ms (fst (extremes ds)),
      maxPeriodInMs = ns_to_ms (snd (extremes ds)),
      avgPeriodInMs = ns_to_ms (sum_list ds div timestampCount d)\<rparr>)"
proof -
  have n: "0 \<le> timestampCount d" using ok by (simp add: data_ok_def)
  have ne: "timestampsInNs d \<noteq> []" using data_ok_length [OF ok] by auto
  have p: "(if prevTimestampInNs d = 0 then aread (timestampsInNs d) 0
            else Inr (prevTimestampInNs d)) = Inr (start_of d)"
    using ne by (simp add: start_of_def aread_def in_range_def hd_conv_nth)
  have nonneg: "0 \<le> sum_list (deltas (start_of d) (window d))"
  proof -
    have "\<forall>t \<in> set (window d). start_of d \<le> t"
    proof (cases "prevTimestampInNs d = 0 \<and> window d \<noteq> []")
      case True
      then have "hd (timestampsInNs d) = hd (window d)"
        by (cases "timestampsInNs d"; cases "nat (timestampCount d)") (auto simp: window_def)
      moreover have "sorted_wrt (<) (window d)" using ok by (simp add: data_ok_def)
      ultimately show ?thesis using True by (cases "window d") (auto simp: start_of_def)
    next
      case False
      then show ?thesis using ok by (auto simp: start_of_def data_ok_def)
    qed
    then have "\<forall>x \<in> set (deltas (start_of d) (window d)). 0 \<le> x"
      using ok by (intro deltas_nonneg) (auto simp: data_ok_def)
    then show ?thesis by (intro sum_list_nonneg) blast
  qed
  have "sum_list (deltas (start_of d) (window d)) sdiv timestampCount d =
        sum_list (deltas (start_of d) (window d)) div timestampCount d" if "0 < timestampCount d"
    using that nonneg by (cases "sum_list (deltas (start_of d) (window d)) = 0")
      (simp_all add: signed_divide_int_def sgn_if)
  moreover obtain mn mx where "extremes (deltas (start_of d) (window d)) = (mn, mx)" by fastforce
  ultimately show ?thesis
    using n unfolding updateStats_def p
    by (auto simp: stats_loop [OF n data_ok_count [OF ok]] window_def [symmetric] Let_def)
qed

section \<open>The operations on the abstract window\<close>

text \<open>The timestamp of the previous window and the timestamps of this one.\<close>

type_synonym pwindow = "int \<times> int list"

definition light :: "period \<Rightarrow> timestamps_t" where
  "light s = s_eventData s ! nat PERIOD_EVENT_SAMPLE_LIGHT"

definition abs_window :: "period \<Rightarrow> pwindow" where
  "abs_window s = (prevTimestampInNs (light s), window (light s))"

definition clock_ns :: "timespec \<Rightarrow> int" where
  "clock_ns spec = tv_nsec spec + 1000000000 * tv_sec spec"

definition a_mark :: "int \<Rightarrow> pwindow \<Rightarrow> pwindow" where
  "a_mark t w = (fst w, if length (snd w) < 4096 then snd w @ [t] else snd w)"

definition a_clear :: "pwindow \<Rightarrow> pwindow" where
  "a_clear w = (if snd w = [] then fst w else last (snd w), [])"

definition a_periods :: "pwindow \<Rightarrow> int list" where
  "a_periods w = deltas (if fst w = 0 \<and> snd w \<noteq> [] then hd (snd w) else fst w) (snd w)"

definition put_light :: "timestamps_t \<Rightarrow> period \<Rightarrow> period" where
  "put_light d s = s\<lparr>s_eventData := [d]\<rparr>"

lemma light_put [simp]: "light (put_light d s) = d"
  by (simp add: light_def put_light_def period_consts)

lemma put_light_fields [simp]:
  "lastTimeHack (put_light d s) = lastTimeHack s" "s_initialized (put_light d s) = s_initialized s"
  by (simp_all add: put_light_def)

lemma period_ok_data: "period_ok s \<Longrightarrow> s_eventData s = [light s]"
  by (cases "s_eventData s") (auto simp: period_ok_def light_def period_consts)

lemma period_ok_light: "period_ok s \<Longrightarrow> data_ok (lastTimeHack s) (light s) \<and> 0 \<le> lastTimeHack s"
  by (metis list.set_intros(1) period_ok_data period_ok_def)

lemma period_ok_put: "data_ok (lastTimeHack s) d \<Longrightarrow> 0 \<le> lastTimeHack s \<Longrightarrow> period_ok (put_light d s)"
  by (simp add: period_ok_def put_light_def period_consts)

lemma data_ok_mono: "data_ok a d \<Longrightarrow> a \<le> b \<Longrightarrow> data_ok b d"
  by (fastforce simp: data_ok_def)

lemma abs_window_length: "period_ok s \<Longrightarrow> length (snd (abs_window s)) = nat (timestampCount (light s))"
  using period_ok_light [of s] by (auto simp: abs_window_def window_def data_ok_def)

lemma Period_init_ok: "0 \<le> lastTimeHack s \<Longrightarrow> period_ok (Period_init s)"
  by (simp add: period_ok_def Period_init_def data_ok_def window_def period_consts)

lemma abs_window_init: "abs_window (Period_init s) = (0, [])"
  by (simp add: abs_window_def light_def Period_init_def window_def period_consts)

definition appended :: "int \<Rightarrow> timestamps_t \<Rightarrow> timestamps_t" where
  "appended t d = d\<lparr>timestampsInNs := (timestampsInNs d)[nat (timestampCount d) := t],
                    timestampCount := timestampCount d + 1\<rparr>"

lemma window_appended:
  "data_ok now d \<Longrightarrow> timestampCount d < MAX_EVENT_TIMESTAMPS \<Longrightarrow> window (appended t d) = window d @ [t]"
  by (simp add: window_def appended_def data_ok_def period_consts nat_add_distrib
      take_Suc_conv_app_nth)

lemma data_ok_appended:
  assumes "data_ok now d" "timestampCount d < MAX_EVENT_TIMESTAMPS" "now < t" "0 < t"
  shows "data_ok t (appended t d)"
proof -
  have "window (appended t d) = window d @ [t]" using assms(1,2) by (rule window_appended)
  then show ?thesis using assms
    by (force simp: data_ok_def appended_def sorted_wrt_append)
qed

lemma markEvent_eq:
  assumes ok: "period_ok s"
  shows "Period_markEvent e spec s =
    (if e \<noteq> PERIOD_EVENT_SAMPLE_LIGHT \<or> \<not> s_initialized s then Inl AssertFail
     else if timestampCount (light s) = MAX_EVENT_TIMESTAMPS then Inr s
     else if clock_ns spec \<le> 0 \<or> clock_ns spec \<le> lastTimeHack s then Inl AssertFail
     else Inr (put_light (appended (clock_ns spec) (light s)) (s\<lparr>lastTimeHack := clock_ns spec\<rparr>)))"
proof -
  have d: "s_eventData s = [light s]" using ok by (rule period_ok_data)
  have dok: "data_ok (lastTimeHack s) (light s)" using period_ok_light [OF ok] by simp
  have c: "timestampCount (light s) < MAX_EVENT_TIMESTAMPS \<longleftrightarrow> timestampCount (light s) \<noteq> MAX_EVENT_TIMESTAMPS"
    using dok by (auto simp: data_ok_def)
  have r: "timestampCount (light s) < MAX_EVENT_TIMESTAMPS \<Longrightarrow>
      in_range (timestampsInNs (light s)) (timestampCount (light s))"
    using dok data_ok_length [OF dok] by (simp add: in_range_def data_ok_def period_consts)
  have e: "e \<ge> 0 \<and> e < NUM_PERIOD_EVENTS \<longleftrightarrow> e = 0" by (auto simp: period_consts)
  have r0: "in_range [light s] 0" by (simp add: in_range_def)
  show ?thesis
    unfolding Period_markEvent_def getTimeInNanoS_def e d
    using r by (auto simp: rassert_def c r0 Let_def clock_ns_def appended_def put_light_def
        PERIOD_EVENT_SAMPLE_LIGHT_def d)
qed

definition cleared :: "timestamps_t \<Rightarrow> timestamps_t" where
  "cleared d = d\<lparr>prevTimestampInNs := (if window d = [] then prevTimestampInNs d else last (window d)),
                 timestampCount := 0\<rparr>"

lemma data_ok_cleared: "data_ok now d \<Longrightarrow> data_ok now (cleared d)"
proof -
  assume ok: "data_ok now d"
  have w: "window (cleared d) = []" by (simp add: window_def cleared_def)
  have "0 \<le> (if window d = [] then prevTimestampInNs d else last (window d)) \<and>
        (if window d = [] then prevTimestampInNs d else last (window d)) \<le> now"
    using ok last_in_set [of "window d"] by (fastforce simp: data_ok_def)
  then show ?thesis using ok unfolding data_ok_def w by (simp add: cleared_def period_consts)
qed

lemma last_window:
  assumes "data_ok now d" "0 < timestampCount d"
  shows "window d \<noteq> [] \<and> in_range (timestampsInNs d) (timestampCount d - 1) \<and>
    last (window d) = timestampsInNs d ! nat (timestampCount d - 1)"
proof -
  have n: "nat (timestampCount d) = Suc (nat (timestampCount d - 1))" using assms(2) by simp
  have "nat (timestampCount d - 1) < length (timestampsInNs d)"
    using assms by (auto simp: data_ok_def period_consts)
  then show ?thesis
    using assms(2) by (simp add: window_def n take_Suc_conv_app_nth in_range_def)
qed

definition stats_of :: "pwindow \<Rightarrow> Period_statistics_t" where
  "stats_of w = (let ds = a_periods w in
     \<lparr>numSamples = int (length (snd w)), minPeriodInMs = ns_to_ms (fst (extremes ds)),
      maxPeriodInMs = ns_to_ms (snd (extremes ds)),
      avgPeriodInMs = ns_to_ms (sum_list ds div int (length (snd w)))\<rparr>)"

lemma start_of_window:
  "data_ok now d \<Longrightarrow> deltas (start_of d) (window d) = a_periods (prevTimestampInNs d, window d)"
proof -
  assume ok: "data_ok now d"
  have "hd (timestampsInNs d) = hd (window d)" if "window d \<noteq> []"
    using that by (cases "timestampsInNs d"; cases "nat (timestampCount d)") (auto simp: window_def)
  then show ?thesis
    by (cases "window d = []") (auto simp: a_periods_def start_of_def)
qed

lemma getStatistics_eq:
  assumes ok: "period_ok s"
  shows "Period_getStatisticsAndClear e s =
    (if e \<noteq> PERIOD_EVENT_SAMPLE_LIGHT \<or> \<not> s_initialized s then Inl AssertFail
     else Inr (stats_of (abs_window s), put_light (cleared (light s)) s))"
proof -
  have d: "s_eventData s = [light s]" using ok by (rule period_ok_data)
  have dok: "data_ok (lastTimeHack s) (light s)" using period_ok_light [OF ok] by simp
  have n: "timestampCount (light s) = int (length (window (light s)))"
    using dok by (auto simp: window_def data_ok_def period_consts)
  have u: "updateStats (light s) = Inr (stats_of (abs_window s))"
    by (simp add: updateStats_eq [OF dok] stats_of_def start_of_window [OF dok] abs_window_def Let_def n)
  have e: "e \<ge> 0 \<and> e < NUM_PERIOD_EVENTS \<longleftrightarrow> e = 0" by (auto simp: period_consts)
  have w0: "0 < timestampCount (light s) \<longleftrightarrow> window (light s) \<noteq> []" using n by auto
  have r0: "in_range [light s] 0" by (simp add: in_range_def)
  show ?thesis
    unfolding Period_getStatisticsAndClear_def e d
    using last_window [OF dok] w0
    by (auto simp: rassert_def r0 u put_light_def cleared_def PERIOD_EVENT_SAMPLE_LIGHT_def)
qed

section \<open>Runs of calls\<close>

text \<open>Every caller marks events and asks for reports; a failed assertion ends the run.\<close>

datatype timer_call = Mark timespec | Report

fun timer_run :: "period \<Rightarrow> timer_call list \<Rightarrow> (Period_statistics_t list \<times> period) res" where
  "timer_run s [] = Inr ([], s)"
| "timer_run s (Mark spec # cs) =
     rbind (Period_markEvent PERIOD_EVENT_SAMPLE_LIGHT spec s) (\<lambda>s1. timer_run s1 cs)"
| "timer_run s (Report # cs) =
     rbind (Period_getStatisticsAndClear PERIOD_EVENT_SAMPLE_LIGHT s) (\<lambda>(st, s1).
     rbind (timer_run s1 cs) (\<lambda>(sts, s2). Inr (st # sts, s2)))"

lemma period_ok_appended:
  assumes ok: "period_ok s" and c: "timestampCount (light s) \<noteq> MAX_EVENT_TIMESTAMPS"
    and t: "0 < t" "lastTimeHack s < t"
  shows "period_ok (put_light (appended t (light s)) (s\<lparr>lastTimeHack := t\<rparr>))"
proof -
  have d: "data_ok (lastTimeHack s) (light s)" using period_ok_light [OF ok] by simp
  then have "timestampCount (light s) < MAX_EVENT_TIMESTAMPS" using c by (simp add: data_ok_def)
  then have "data_ok t (appended t (light s))" using d t by (intro data_ok_appended)
  then show ?thesis using t by (intro period_ok_put) simp_all
qed

lemma mark_ok: "period_ok s \<Longrightarrow> Period_markEvent e spec s = Inr s' \<Longrightarrow> period_ok s'"
  by (auto simp: markEvent_eq not_le split: if_splits intro: period_ok_appended)

lemma getStatistics_ok:
  assumes "period_ok s" "Period_getStatisticsAndClear e s = Inr (st, s')"
  shows "period_ok s' \<and> st = stats_of (abs_window s)"
  using assms period_ok_light [OF assms(1)]
  by (auto simp: getStatistics_eq split: if_splits intro!: period_ok_put data_ok_cleared)

text \<open>Reported values are ordered: minimum, average, maximum, all of them non-negative.\<close>

definition stats_ordered :: "Period_statistics_t \<Rightarrow> bool" where
  "stats_ordered st \<longleftrightarrow> 0 \<le> numSamples st \<and> numSamples st \<le> MAX_EVENT_TIMESTAMPS \<and>
     0 \<le> minPeriodInMs st \<and> minPeriodInMs st \<le> avgPeriodInMs st \<and>
     avgPeriodInMs st \<le> maxPeriodInMs st"

lemma ns_to_ms_mono: "a \<le> b \<Longrightarrow> ns_to_ms a \<le> ns_to_ms b"
  unfolding ns_to_ms_def by (intro rn53_mono divide_right_mono) auto

lemma ns_to_ms_nonneg: "0 \<le> a \<Longrightarrow> 0 \<le> ns_to_ms a"
  by (simp add: ns_to_ms_def rn53_nonneg)

lemma mean_between:
  assumes "ds \<noteq> []"
  shows "fst (extremes ds) \<le> sum_list ds div int (length ds)"
    and "sum_list ds div int (length ds) \<le> snd (extremes ds)"
proof -
  define m where "m = Min (set ds)"
  define M where "M = Max (set ds)"
  have e: "extremes ds = (m, M)" using assms by (simp add: extremes_def m_def M_def)
  have bounds: "\<And>x. x \<in> set ds \<Longrightarrow> m \<le> x \<and> x \<le> M" by (simp add: m_def M_def)
  have pos: "0 < int (length ds)" using assms by simp
  have "m * int (length ds) \<le> sum_list ds"
    using sum_list_mono [of ds "\<lambda>_. m" "\<lambda>x. x"] bounds by (simp add: sum_list_triv mult.commute)
  then have "m * int (length ds) div int (length ds) \<le> sum_list ds div int (length ds)"
    using pos by (intro zdiv_mono1) auto
  then show "fst (extremes ds) \<le> sum_list ds div int (length ds)" using pos e by simp
  have "sum_list ds \<le> M * int (length ds)"
    using sum_list_mono [of ds "\<lambda>x. x" "\<lambda>_. M"] bounds by (simp add: sum_list_triv mult.commute)
  then have "sum_list ds div int (length ds) \<le> M * int (length ds) div int (length ds)"
    using pos by (intro zdiv_mono1) auto
  then show "sum_list ds div int (length ds) \<le> snd (extremes ds)" using pos e by simp
qed

lemma a_periods_nonneg:
  assumes ok: "period_ok s"
  shows "\<forall>x \<in> set (a_periods (abs_window s)). 0 \<le> x"
proof -
  have d: "data_ok (lastTimeHack s) (light s)" using period_ok_light [OF ok] by simp
  then have w: "sorted_wrt (<) (window (light s))"
    "\<forall>t \<in> set (window (light s)). prevTimestampInNs (light s) < t" by (auto simp: data_ok_def)
  show ?thesis
    unfolding a_periods_def abs_window_def fst_conv snd_conv
    using w by (intro deltas_nonneg) (auto simp: sorted_wrt_hd_le split: if_splits)
qed

lemma stats_of_ordered:
  assumes ok: "period_ok s"
  shows "stats_ordered (stats_of (abs_window s))"
proof -
  let ?ds = "a_periods (abs_window s)"
  have len: "length ?ds = length (snd (abs_window s))" by (simp add: a_periods_def)
  have d: "data_ok (lastTimeHack s) (light s)" using period_ok_light [OF ok] by simp
  then have n: "int (length (snd (abs_window s))) \<le> MAX_EVENT_TIMESTAMPS"
    by (simp add: abs_window_length [OF ok] data_ok_def)
  show ?thesis
  proof (cases "?ds = []")
    case True
    then show ?thesis using n len
      by (simp add: stats_of_def stats_ordered_def extremes_def ns_to_ms_def)
  next
    case False
    then have "0 \<le> fst (extremes ?ds)"
      using a_periods_nonneg [OF ok] by (simp add: extremes_def)
    then show ?thesis
      using n mean_between [OF False] by (simp add: stats_of_def stats_ordered_def Let_def len
          ns_to_ms_mono ns_to_ms_nonneg)
  qed
qed

lemma timer_run_ordered:
  "timer_run s calls = Inr (sts, s') \<Longrightarrow> period_ok s \<Longrightarrow> period_ok s' \<and> (\<forall>st \<in> set sts. stats_ordered st)"
proof (induction s calls arbitrary: sts rule: timer_run.induct)
  case (2 s spec cs)
  then show ?case by (auto simp: res_iff dest: mark_ok)
next
  case (3 s cs)
  obtain st s1 sts1 where r: "Period_getStatisticsAndClear PERIOD_EVENT_SAMPLE_LIGHT s = Inr (st, s1)"
      "timer_run s1 cs = Inr (sts1, s')" "sts = st # sts1"
    using "3.prems"(1) by (auto simp: res_iff)
  have "period_ok s1" "st = stats_of (abs_window s)"
    using getStatistics_ok [OF "3.prems"(2) r(1)] by auto
  then show ?case
    using "3.IH" [OF r(1) refl r(2)] stats_of_ordered [OF "3.prems"(2)] r(3) by simp
qed simp

section \<open>Properties\<close>

lemma abs_window_appended:
  "period_ok s \<Longrightarrow> timestampCount (light s) \<noteq> MAX_EVENT_TIMESTAMPS \<Longrightarrow>
   abs_window (put_light (appended t (light s)) s') = (fst (abs_window s), snd (abs_window s) @ [t])"
  using period_ok_light [of s]
  by (auto simp: abs_window_def data_ok_def window_appended intro!: window_appended)
    (simp_all add: appended_def)

lemma full_window:
  "period_ok s \<Longrightarrow> timestampCount (light s) = MAX_EVENT_TIMESTAMPS \<longleftrightarrow> \<not> length (snd (abs_window s)) < 4096"
  using period_ok_light [of s] by (auto simp: abs_window_length data_ok_def period_consts)

lemma mark_refines:
  assumes "period_ok s" "s_initialized s" "0 < clock_ns spec" "lastTimeHack s < clock_ns spec"
  shows "\<exists>s'. Period_markEvent PERIOD_EVENT_SAMPLE_LIGHT spec s = Inr s' \<and> period_ok s' \<and>
    s_initialized s' \<and> abs_window s' = a_mark (clock_ns spec) (abs_window s) \<and>
    lastTimeHack s' = (if length (snd (abs_window s)) < 4096 then clock_ns spec else lastTimeHack s)"
  using assms period_ok_appended [OF assms(1)] full_window [OF assms(1)]
  by (cases "timestampCount (light s) = MAX_EVENT_TIMESTAMPS")
    (simp_all add: markEvent_eq a_mark_def abs_window_appended)

lemma abs_window_cleared: "abs_window (put_light (cleared (light s)) s) = a_clear (abs_window s)"
  by (simp add: abs_window_def a_clear_def cleared_def window_def)

lemma stats_refines:
  assumes "period_ok s" "s_initialized s"
  shows "\<exists>s'. Period_getStatisticsAndClear PERIOD_EVENT_SAMPLE_LIGHT s = Inr (stats_of (abs_window s), s') \<and>
    period_ok s' \<and> s_initialized s' \<and> abs_window s' = a_clear (abs_window s) \<and> lastTimeHack s' = lastTimeHack s"
  using assms period_ok_light [OF assms(1)]
  by (auto simp: getStatistics_eq abs_window_cleared intro!: period_ok_put data_ok_cleared)

lemma program_start_init:
  "period_ok (Period_init program_start)" "s_initialized (Period_init program_start)"
  "lastTimeHack (Period_init program_start) = 0"
  by (rule Period_init_ok) (simp_all add: Period_init_def program_start_def)

lemma run_marks:
  assumes "period_ok s" "s_initialized s" "sorted_wrt (<) (lastTimeHack s # map clock_ns specs)"
    and "length (snd (abs_window s)) + length specs \<le> 4096"
  shows "\<exists>s'. timer_run s (map Mark specs @ calls) = timer_run s' calls \<and> period_ok s' \<and> s_initialized s' \<and>
    abs_window s' = (fst (abs_window s), snd (abs_window s) @ map clock_ns specs) \<and>
    lastTimeHack s' = last (lastTimeHack s # map clock_ns specs)"
  using assms
proof (induction specs arbitrary: s)
  case Nil
  then show ?case by (intro exI [of _ s]) simp
next
  case (Cons spec specs)
  have pos: "0 < clock_ns spec"
    using Cons.prems(3) period_ok_light [OF Cons.prems(1)] by simp
  obtain s1 where s1: "Period_markEvent PERIOD_EVENT_SAMPLE_LIGHT spec s = Inr s1" "period_ok s1"
      "s_initialized s1" "abs_window s1 = a_mark (clock_ns spec) (abs_window s)"
      "lastTimeHack s1 = clock_ns spec"
    using mark_refines [OF Cons.prems(1,2) pos] Cons.prems(3,4) by auto
  have w: "abs_window s1 = (fst (abs_window s), snd (abs_window s) @ [clock_ns spec])"
    using s1(4) Cons.prems(4) by (simp add: a_mark_def)
  have "\<exists>s'. timer_run s1 (map Mark specs @ calls) = timer_run s' calls \<and> period_ok s' \<and> s_initialized s' \<and>
    abs_window s' = (fst (abs_window s1), snd (abs_window s1) @ map clock_ns specs) \<and>
    lastTimeHack s' = last (lastTimeHack s1 # map clock_ns specs)"
    using Cons.prems(3,4) s1(5) w by (intro Cons.IH [OF s1(2,3)]) auto
  then show ?case using s1(1,5) w by auto
qed

text \<open>
  Marking an event refines the abstract window: with the clock ahead of its last reading,
  \<open>Period_markEvent\<close> never fails, appends the timestamp while there is room for one (4096 per
  window), drops it afterwards, and keeps the module's invariant.
\<close>

theorem markEvent_refines_window:
  assumes "period_ok s" "s_initialized s" "0 < clock_ns spec" "lastTimeHack s < clock_ns spec"
  shows "\<exists>s'. Period_markEvent PERIOD_EVENT_SAMPLE_LIGHT spec s = Inr s' \<and> period_ok s' \<and>
    abs_window s' = a_mark (clock_ns spec) (abs_window s)"
  using mark_refines [OF assms] by blast

theorem markEvent_refines_window_witness:
  "\<exists>s'. Period_markEvent PERIOD_EVENT_SAMPLE_LIGHT \<lparr>tv_sec = 12, tv_nsec = 5\<rparr> (Period_init program_start)
      = Inr s' \<and> period_ok s' \<and> abs_window s' = (0, [12000000005])"
proof -
  note i = program_start_init
  show ?thesis
    using markEvent_refines_window [OF i(1,2), of "\<lparr>tv_sec = 12, tv_nsec = 5\<rparr>"]
    by (simp add: abs_window_init a_mark_def clock_ns_def i(3))
qed

text \<open>
  C37. Reports are ordered: whatever sequence of marks and reports is made after
  \<open>Period_init\<close>, as long as no assertion fails, every reported sample count lies between 0 and
  4096 and the reported doubles satisfy \<open>0 \<le> min \<le> avg \<le> max\<close>.
\<close>

theorem reports_ordered:
  assumes "timer_run (Period_init program_start) calls = Inr (sts, s')" and "st \<in> set sts"
  shows "0 \<le> numSamples st \<and> numSamples st \<le> MAX_EVENT_TIMESTAMPS \<and> 0 \<le> minPeriodInMs st \<and>
    minPeriodInMs st \<le> avgPeriodInMs st \<and> avgPeriodInMs st \<le> maxPeriodInMs st"
proof -
  show ?thesis using program_start_init(1) timer_run_ordered assms by (fastforce simp: stats_ordered_def)
qed

theorem reports_ordered_witness:
  "\<exists>st s'. timer_run (Period_init program_start)
      [Mark \<lparr>tv_sec = 12, tv_nsec = 5\<rparr>, Mark \<lparr>tv_sec = 13, tv_nsec = 5\<rparr>, Report] = Inr ([st], s') \<and>
    minPeriodInMs st \<le> avgPeriodInMs st \<and> avgPeriodInMs st \<le> maxPeriodInMs st"
proof -
  let ?ms = "[\<lparr>tv_sec = 12, tv_nsec = 5\<rparr>, \<lparr>tv_sec = 13, tv_nsec = 5\<rparr>]"
  note i = program_start_init
  obtain s1 where s1: "timer_run (Period_init program_start) (map Mark ?ms @ [Report]) = timer_run s1 [Report]"
      "period_ok s1" "s_initialized s1"
    using run_marks [OF i(1,2), of ?ms "[Report]"] by (auto simp: i(3) clock_ns_def abs_window_init)
  obtain s2 where "timer_run s1 [Report] = Inr ([stats_of (abs_window s1)], s2)"
    using stats_refines [OF s1(2,3)] by auto
  then have r: "timer_run (Period_init program_start) (map Mark ?ms @ [Report])
      = Inr ([stats_of (abs_window s1)], s2)"
    using s1(1) by simp
  then show ?thesis using reports_ordered [OF r] by auto
qed

text \<open>
  No time is lost between reports: when two reports each follow at least one and at most
  4096 marks at increasing clock readings, the second report's average is the time from the
  last mark of the first window to the last mark of the second, divided (truncating) by the
  number of marks of the second window; the gap between the windows counts as a period.
\<close>

theorem windows_are_contiguous:
  assumes ok: "period_ok s" "s_initialized s" "abs_window s = (p, [])"
    and len: "length xs \<le> 4096" "length ys \<le> 4096" and ne: "xs \<noteq> []" "ys \<noteq> []"
    and clock: "sorted_wrt (<) (lastTimeHack s # map clock_ns (xs @ ys))"
  shows "\<exists>st1 st2 s'. timer_run s (map Mark xs @ [Report] @ map Mark ys @ [Report]) = Inr ([st1, st2], s') \<and>
    numSamples st2 = int (length ys) \<and>
    avgPeriodInMs st2 = ns_to_ms ((clock_ns (last ys) - clock_ns (last xs)) div int (length ys))"
proof -
  have c1: "sorted_wrt (<) (lastTimeHack s # map clock_ns xs)"
    using clock by (simp add: sorted_wrt_append)
  have cl: "\<forall>x \<in> set xs. lastTimeHack s < clock_ns x" "sorted_wrt (<) (map clock_ns ys)"
    "\<forall>x \<in> set xs. \<forall>y \<in> set ys. clock_ns x < clock_ns y"
    using clock by (simp_all add: sorted_wrt_append)
  have l1: "length (snd (abs_window s)) + length xs \<le> 4096" using ok(3) len(1) by simp
  obtain s1 where s1: "timer_run s (map Mark xs @ [Report] @ map Mark ys @ [Report])
      = timer_run s1 ([Report] @ map Mark ys @ [Report])" "period_ok s1" "s_initialized s1"
      "abs_window s1 = (p, map clock_ns xs)" "lastTimeHack s1 = last (lastTimeHack s # map clock_ns xs)"
    using run_marks [OF ok(1,2) c1 l1, of "[Report] @ map Mark ys @ [Report]"]
    unfolding ok(3) fst_conv snd_conv append_Nil by (elim exE conjE) (rule that)
  obtain s2 where s2: "Period_getStatisticsAndClear PERIOD_EVENT_SAMPLE_LIGHT s1
        = Inr (stats_of (abs_window s1), s2)" "period_ok s2" "s_initialized s2"
      "abs_window s2 = a_clear (abs_window s1)" "lastTimeHack s2 = lastTimeHack s1"
    using stats_refines [OF s1(2,3)] by blast
  have last1: "lastTimeHack s1 = clock_ns (last xs)" using s1(5) ne by (simp add: last_map)
  have w2: "abs_window s2 = (clock_ns (last xs), [])"
    using s2(4) s1(4) ne by (simp add: a_clear_def last_map)
  have c2: "sorted_wrt (<) (lastTimeHack s2 # map clock_ns ys)"
    using cl(2,3) last_in_set [OF ne(1)] by (simp add: s2(5) last1)
  have l2: "length (snd (abs_window s2)) + length ys \<le> 4096" using w2 len(2) by simp
  obtain s3 where s3: "timer_run s2 (map Mark ys @ [Report]) = timer_run s3 [Report]" "period_ok s3"
      "s_initialized s3" "abs_window s3 = (clock_ns (last xs), map clock_ns ys)"
    using run_marks [OF s2(2,3) c2 l2, of "[Report]"]
    unfolding w2 fst_conv snd_conv append_Nil by (elim exE conjE) (rule that)
  obtain s4 where s4: "Period_getStatisticsAndClear PERIOD_EVENT_SAMPLE_LIGHT s3
        = Inr (stats_of (abs_window s3), s4)"
    using stats_refines [OF s3(2,3)] by blast
  have pos: "clock_ns (last xs) \<noteq> 0"
    using cl(1) last_in_set [OF ne(1)] period_ok_light [OF ok(1)] by (metis less_irrefl order_le_less_trans)
  have sum: "sum_list (a_periods (clock_ns (last xs), map clock_ns ys)) = clock_ns (last ys) - clock_ns (last xs)"
    using pos ne by (simp add: a_periods_def sum_deltas last_map)
  have run: "timer_run s (map Mark xs @ [Report] @ map Mark ys @ [Report])
      = Inr ([stats_of (abs_window s1), stats_of (abs_window s3)], s4)"
    using s1(1) s2(1) s3(1) s4 by simp
  have "numSamples (stats_of (abs_window s3)) = int (length ys)"
    "avgPeriodInMs (stats_of (abs_window s3)) = ns_to_ms ((clock_ns (last ys) - clock_ns (last xs)) div int (length ys))"
    by (simp_all add: stats_of_def Let_def sum s3(4) del: sum_list.Cons)
  then show ?thesis using run by blast
qed

theorem windows_are_contiguous_witness:
  "\<exists>st1 st2 s'. timer_run (Period_init program_start)
      (map Mark [\<lparr>tv_sec = 12, tv_nsec = 0\<rparr>] @ [Report] @
       map Mark [\<lparr>tv_sec = 13, tv_nsec = 0\<rparr>, \<lparr>tv_sec = 16, tv_nsec = 0\<rparr>] @ [Report]) = Inr ([st1, st2], s') \<and>
    numSamples st2 = 2 \<and> avgPeriodInMs st2 = ns_to_ms 2000000000"
  using windows_are_contiguous [OF program_start_init(1,2) abs_window_init,
      of "[\<lparr>tv_sec = 12, tv_nsec = 0\<rparr>]" "[\<lparr>tv_sec = 13, tv_nsec = 0\<rparr>, \<lparr>tv_sec = 16, tv_nsec = 0\<rparr>]"]
  by (simp add: program_start_init(3) clock_ns_def)

end
