(* ===== verification/Sampler.thy ===== *)
theory Sampler
  imports CHeap CFloat CStrings PeriodTimer
begin

text \<open>
  The light sampler (\<open>work/as2/sampler.c\<close>, \<open>sampler.h\<close>): a thread that reads the light
  sensor once a millisecond, smooths it, counts dips, keeps a history in a ring whose size
  follows a potentiometer, and prints a report every second; other threads query it. The
  history is a block of the store of \<open>CHeap\<close>, so that pointers handed out, resizing and
  releasing are visible. Counters are integers: an overflow needs weeks of running.
\<close>

section \<open>State\<close>

definition A2D_VOLTAGE_REF_V :: rat where "A2D_VOLTAGE_REF_V = rn53 (18 / 10)"
definition A2D_MAX_READING :: int where "A2D_MAX_READING = 4095"

record sampler =
  recentIndex :: int
  historyCount :: int
  dipCount :: int
  allTimeCount :: int
  currentAverage :: rat
  arraySize :: int
  running :: bool
  recent :: ptr
  pStats :: block_state
  hp :: "rat heap"
  timer :: period            \<comment> \<open>the state of the period timer\<close>

definition sampler_start :: sampler where
  "sampler_start = \<lparr>recentIndex = 0, historyCount = 0, dipCount = 0, allTimeCount = 1,
     currentAverage = 0, arraySize = 1, running = True, recent = 0, pStats = NullPtr,
     hp = empty_heap, timer = Period_init program_start\<rparr>"

text \<open>The local variables of the thread that live across its iterations.\<close>

record slocals =
  perSecCount :: int
  currentTime :: int
  lastDip :: bool
  recentDips :: int
  secondsWithDips :: int

section \<open>Inputs and arithmetic\<close>

definition getVoltageReading :: "string option \<Rightarrow> int res" where
  \<comment> \<open>the argument is what the file holds, or that it cannot be opened\<close>
  "getVoltageReading f = (case f of
      None \<Rightarrow> Inl (ExitCode (- 1))
    | Some txt \<Rightarrow>
        (let a2dReading = 0; itemsRead = scan_count (scan_d txt) in
         if itemsRead \<le> 0 then Inl (ExitCode (- 1))
         else Inr (case scan_d txt of ScanInt n \<Rightarrow> n | _ \<Rightarrow> a2dReading)))"

definition getTimeInMs :: "timespec \<Rightarrow> int" where
  "getTimeInMs spec = tv_sec spec * 1000 + tv_nsec spec sdiv 1000000"

definition voltage_of :: "int \<Rightarrow> rat" where
  "voltage_of reading = rn53 (rn53 (of_int reading / of_int A2D_MAX_READING) * A2D_VOLTAGE_REF_V)"

definition exponential_smoothing :: "rat \<Rightarrow> rat \<Rightarrow> rat \<Rightarrow> rat" where
  "exponential_smoothing curr_avg nth_sample a =
     rn53 (rn53 (a * nth_sample) + rn53 (rn53 (1 - a) * curr_avg))"

section \<open>The history\<close>

definition zero_cell :: "ptr \<Rightarrow> int \<Rightarrow> rat heap \<Rightarrow> rat heap res" where
  "zero_cell p i h = h_write h p i 0"

text \<open>
  \<open>Sampler_setHistorySize\<close>: a shrinking and a growing branch, each copying into a new
  block and releasing the old one.
\<close>

definition replace_recent :: "int \<Rightarrow> int \<Rightarrow> ptr \<Rightarrow> rat heap \<Rightarrow> sampler \<Rightarrow> sampler res" where
  \<comment> \<open>\<open>arraySize = newSize; free(recent); recent = temp;\<close>\<close>
  "replace_recent newSize ri temp h s =
     rbind (h_free (recent s) h) (\<lambda>h'.
     Inr (s\<lparr>arraySize := newSize, recentIndex := ri, recent := temp, hp := h'\<rparr>))"

definition shrink_history :: "int \<Rightarrow> sampler \<Rightarrow> sampler res" where
  "shrink_history newSize s =
     (let (temp, h) = h_malloc newSize (hp s) in
      rbind (mod_c (recentIndex s + 1) (arraySize s)) (\<lambda>next.
      rbind (h_read h (recent s) next) (\<lambda>probe.
      if probe = 0
      then rbind (for_range 0 next (copy_cell temp (recent s) (\<lambda>i. i)) h) (\<lambda>h'.
           replace_recent newSize (recentIndex s) temp h' s)
      else rbind (for_range 0 newSize
             (\<lambda>i h. rbind (mod_c (arraySize s + (recentIndex s - newSize + 2) + i) (arraySize s)) (\<lambda>j.
                copy_cell temp (recent s) (\<lambda>_. j) i h)) h) (\<lambda>h'.
           replace_recent newSize (newSize - 1) temp h' s))))"

definition grow_history :: "int \<Rightarrow> sampler \<Rightarrow> sampler res" where
  "grow_history newSize s =
     (let (temp, h) = h_malloc newSize (hp s) in
      rbind (for_range 0 (arraySize s) (copy_cell temp (recent s) (\<lambda>i. i)) h) (\<lambda>h1.
      rbind (for_range (arraySize s) newSize (zero_cell temp) h1) (\<lambda>h2.
      replace_recent newSize (recentIndex s) temp h2 s)))"

definition Sampler_setHistorySize :: "int \<Rightarrow> sampler \<Rightarrow> sampler res" where
  "Sampler_setHistorySize newSize s =
     (if newSize < arraySize s
      then shrink_history (if newSize = 0 then 1 else newSize) s
      else if newSize > arraySize s then grow_history newSize s
      else Inr s)"

definition Sampler_get_N :: "int \<Rightarrow> sampler \<Rightarrow> (ptr \<times> sampler) res" where
  "Sampler_get_N n s =
     (if n > historyCount s then Inr (0, s)
      else
        (let (N_list, h) = h_malloc n (hp s) in
         rbind (for_range 0 (size_cells n) (zero_cell N_list) h) (\<lambda>h1.
         rbind (for_range 0 n
            (\<lambda>i h. rbind (mod_c (arraySize s + (recentIndex s - n + 1) + i) (arraySize s)) (\<lambda>j.
               copy_cell N_list (recent s) (\<lambda>_. j) i h)) h1) (\<lambda>h2.
         Inr (N_list, s\<lparr>hp := h2\<rparr>)))))"

definition Sampler_getHistorySize :: "sampler \<Rightarrow> int" where
  "Sampler_getHistorySize s = arraySize s"

definition Sampler_getHistory :: "sampler \<Rightarrow> ptr \<times> int" where
  "Sampler_getHistory s = (recent s, historyCount s)"

definition Sampler_getNumSamplesInHistory :: "sampler \<Rightarrow> int" where
  "Sampler_getNumSamplesInHistory s = historyCount s"

definition Sampler_getAverageReading :: "sampler \<Rightarrow> rat" where
  "Sampler_getAverageReading s = currentAverage s"

definition Sampler_getNumSamplesTaken :: "sampler \<Rightarrow> int" where
  "Sampler_getNumSamplesTaken s = allTimeCount s"

definition Sampler_getNumDips :: "sampler \<Rightarrow> int" where
  "Sampler_getNumDips s = dipCount s"

definition free_recent :: "sampler \<Rightarrow> rat heap res" where \<comment> \<open>\<open>free_malloc(recent)\<close>\<close>
  "free_recent s = (if recent s \<noteq> 0 then h_free (recent s) (hp s) else Inr (hp s))"

definition Sampler_shutdownRoutine :: "sampler \<Rightarrow> sampler res" where
  "Sampler_shutdownRoutine s =
     rbind (free_recent s) (\<lambda>h.
     rbind (free_block (pStats s)) (\<lambda>b.
     Inr (s\<lparr>running := False, hp := h, pStats := b\<rparr>)))"

section \<open>The thread\<close>

definition sampler_init :: "string option \<Rightarrow> string option \<Rightarrow> timespec \<Rightarrow> sampler \<Rightarrow> (sampler \<times> slocals) res" where
  "sampler_init v1 v0 spec s =
     rbind (getVoltageReading v1) (\<lambda>_.
     rbind (getVoltageReading v0) (\<lambda>size.
     let n = (if size = 0 then 1 else size); (p, h) = h_malloc n (hp s) in
     if p = 0 then Inl (ExitCode 1)
     else rbind (for_range 0 n (zero_cell p) h) (\<lambda>h1.
     Inr (s\<lparr>arraySize := n, recent := p, hp := h1, pStats := LiveBlock\<rparr>,
          \<lparr>perSecCount = 0, currentTime = getTimeInMs spec, lastDip = False, recentDips = 0,
           secondsWithDips = 0\<rparr>))))"

text \<open>The dip detector: the value to store, the flag, and whether a dip was counted.\<close>

definition detect_dip :: "rat \<Rightarrow> rat \<Rightarrow> bool \<Rightarrow> rat \<times> bool \<times> bool" where
  "detect_dip voltage avg ld =
     (if \<not> ld \<and> voltage \<le> rn53 (avg - rn53 (1 / 10)) then (avg, True, True)
      else if ld \<and> voltage > rn53 (avg + rn53 (7 / 100)) then (voltage, False, False)
      else (voltage, ld, False))"

text \<open>The first half of an iteration: one sample.\<close>

definition store_sample :: "rat \<Rightarrow> sampler \<Rightarrow> sampler res" where
  "store_sample v s =
     rbind (h_write (hp s) (recent s) (recentIndex s) v) (\<lambda>h.
     rbind (mod_c (recentIndex s + 1) (arraySize s)) (\<lambda>ri.
     Inr (s\<lparr>hp := h, recentIndex := ri, allTimeCount := allTimeCount s + 1,
       historyCount := (if historyCount s < arraySize s then historyCount s + 1 else arraySize s - 1)\<rparr>)))"

definition take_sample :: "string option \<Rightarrow> timespec \<Rightarrow> sampler \<times> slocals \<Rightarrow> (sampler \<times> slocals) res" where
  "take_sample v1 spec = (\<lambda>(s, l).
     rbind (getVoltageReading v1) (\<lambda>reading.
     rbind (Period_markEvent PERIOD_EVENT_SAMPLE_LIGHT spec (timer s)) (\<lambda>tm.
     let voltage = voltage_of reading;
         avg = exponential_smoothing (currentAverage s) voltage (rn53 (1 / 1000));
         (v, flag, dip) = detect_dip voltage avg (lastDip l) in
     rbind (store_sample v (s\<lparr>timer := tm, currentAverage := avg,
                dipCount := dipCount s + (if dip then 1 else 0)\<rparr>)) (\<lambda>s'.
     Inr (s', l\<lparr>lastDip := flag, perSecCount := perSecCount l + 1\<rparr>)))))"

text \<open>\<open>for (; i < b; i += 200) printf(recent[f(i)])\<close>: what is printed and the final index.\<close>

function print_cells :: "rat heap \<Rightarrow> ptr \<Rightarrow> (int \<Rightarrow> int res) \<Rightarrow> int \<Rightarrow> int \<Rightarrow> (rat list \<times> int) res" where
  "print_cells h p f i b = (if i < b
     then rbind (f i) (\<lambda>j. rbind (h_read h p j) (\<lambda>x.
          rbind (print_cells h p f (i + 200) b) (\<lambda>(xs, e). Inr (x # xs, e))))
     else Inr ([], i))"
  by pat_completeness auto
termination
  by (relation "measure (\<lambda>(h, p, f, i, b). nat (b - i))") auto

declare print_cells.simps [simp del]

definition print_history :: "sampler \<Rightarrow> rat list res" where
  "print_history s =
     rbind (mod_c (recentIndex s + 1) (arraySize s)) (\<lambda>next.
     rbind (h_read (hp s) (recent s) next) (\<lambda>probe.
     if probe = 0
     then rbind (print_cells (hp s) (recent s) Inr 0 (recentIndex s + 1)) (\<lambda>(xs, _). Inr xs)
     else rbind (print_cells (hp s) (recent s) (\<lambda>i. mod_c i (arraySize s)) (recentIndex s + 2) (arraySize s)) (\<lambda>(xs, i).
          rbind (mod_c (arraySize s + i) (arraySize s)) (\<lambda>i'.
          rbind (print_cells (hp s) (recent s) Inr i' (recentIndex s + 1)) (\<lambda>(ys, _). Inr (xs @ ys))))))"

text \<open>The second half: the report of each second.\<close>

record report =
  samplesPerSec :: int
  potValue :: int
  historySize :: int
  averageOut :: rat
  dipsOut :: int
  statsOut :: Period_statistics_t
  printed :: "rat list"

definition decay_dips :: "sampler \<times> slocals \<Rightarrow> (sampler \<times> slocals) res" where
  "decay_dips = (\<lambda>(s, l).
     rbind (if recentDips l = dipCount s \<and> dipCount s \<noteq> 0
            then if secondsWithDips l > 0
                 then rbind (div_c (dipCount s) (secondsWithDips l)) (\<lambda>dipsPerSec.
                      Inr (s\<lparr>dipCount := dipCount s - dipsPerSec\<rparr>,
                           l\<lparr>secondsWithDips := secondsWithDips l - 1\<rparr>))
                 else Inr (s, l)
            else if recentDips l \<noteq> dipCount s \<and> dipCount s \<noteq> 0
                 then Inr (s, l\<lparr>secondsWithDips := secondsWithDips l + 1\<rparr>)
            else Inr (s, l)) (\<lambda>(s', l').
     Inr (s', l'\<lparr>recentDips := dipCount s'\<rparr>)))"

definition every_second :: "string option \<Rightarrow> timespec \<Rightarrow> sampler \<times> slocals \<Rightarrow> (report \<times> sampler \<times> slocals) res" where
  "every_second v0 endTime = (\<lambda>(s, l).
     rbind (getVoltageReading v0) (\<lambda>newSize.
     rbind (if newSize \<noteq> arraySize s then Sampler_setHistorySize newSize s else Inr s) (\<lambda>s1.
     rbind (decay_dips (s1, l)) (\<lambda>(s2, l2).
     rbind (Period_getStatisticsAndClear PERIOD_EVENT_SAMPLE_LIGHT (timer s2)) (\<lambda>(stats, tm).
     rbind (rassert (pStats s2 = LiveBlock) (if pStats s2 = NullPtr then NullDeref else UseAfterFree)) (\<lambda>_.
     rbind (print_history s2) (\<lambda>xs.
     Inr (\<lparr>samplesPerSec = perSecCount l2, potValue = arraySize s2, historySize = historyCount s2,
           averageOut = currentAverage s2, dipsOut = dipCount s2, statsOut = stats, printed = xs\<rparr>,
          s2\<lparr>timer := tm\<rparr>, l2\<lparr>perSecCount := 0, currentTime := getTimeInMs endTime\<rparr>))))))))"

text \<open>What the outside world supplies to one iteration: the files' contents and the clocks.\<close>

record siteration =
  file1 :: "string option"
  markClock :: timespec
  nowClock :: timespec
  file0 :: "string option"
  endClock :: timespec

definition sampler_iteration :: "siteration \<Rightarrow> sampler \<times> slocals \<Rightarrow> (report list \<times> sampler \<times> slocals) res" where
  "sampler_iteration it st =
     rbind (take_sample (file1 it) (markClock it) st) (\<lambda>(s, l).
     if getTimeInMs (nowClock it) \<ge> currentTime l + 1000
     then rbind (every_second (file0 it) (endClock it) (s, l)) (\<lambda>(r, st'). Inr ([r], st'))
     else Inr ([], s, l))"

fun sampler_loop :: "siteration list \<Rightarrow> sampler \<times> slocals \<Rightarrow> (report list \<times> sampler \<times> slocals) res" where
  "sampler_loop [] st = Inr ([], st)"
| "sampler_loop (it # its) st =
     (if running (fst st)
      then rbind (sampler_iteration it st) (\<lambda>(rs, st').
           rbind (sampler_loop its st') (\<lambda>(rs', st''). Inr (rs @ rs', st'')))
      else Inr ([], st))"

definition samplerThread :: "string option \<Rightarrow> string option \<Rightarrow> timespec \<Rightarrow> siteration list \<Rightarrow> sampler \<Rightarrow>
    (report list \<times> sampler \<times> slocals) res" where
  "samplerThread v1 v0 spec its s = rbind (sampler_init v1 v0 spec s) (sampler_loop its)"

section \<open>The ring\<close>

text \<open>The history in order of age: the slot written next holds the oldest value.\<close>

definition slot :: "sampler \<Rightarrow> int \<Rightarrow> rat" where
  "slot s k = (case h_read (hp s) (recent s) k of Inr x \<Rightarrow> x | Inl _ \<Rightarrow> 0)"

definition ring :: "sampler \<Rightarrow> rat list" where
  "ring s = map (\<lambda>i. slot s ((recentIndex s + int i) mod arraySize s)) [0..<nat (arraySize s)]"

definition ring_ok :: "sampler \<Rightarrow> bool" where
  "ring_ok s \<longleftrightarrow> heap_ok (hp s) \<and> h_live (hp s) (recent s) \<and> h_len (hp s) (recent s) = arraySize s \<and>
     0 < arraySize s \<and> arraySize s \<le> max_cells \<and> 0 \<le> recentIndex s \<and> recentIndex s < arraySize s \<and>
     (\<forall>k. 0 \<le> k \<and> k < arraySize s \<longrightarrow> h_read (hp s) (recent s) k = Inr (slot s k))"

lemma ring_okD:
  assumes "ring_ok s"
  shows "heap_ok (hp s)" "h_live (hp s) (recent s)" "h_len (hp s) (recent s) = arraySize s"
    "0 < arraySize s" "arraySize s \<le> max_cells" "0 \<le> recentIndex s" "recentIndex s < arraySize s"
    and "\<And>k. 0 \<le> k \<Longrightarrow> k < arraySize s \<Longrightarrow> h_read (hp s) (recent s) k = Inr (slot s k)"
  using assms by (auto simp: ring_ok_def)

lemma length_ring [simp]: "length (ring s) = nat (arraySize s)"
  by (simp add: ring_def)

lemma ring_nth: "i < nat (arraySize s) \<Longrightarrow> ring s ! i = slot s ((recentIndex s + int i) mod arraySize s)"
  by (simp add: ring_def)

lemma mod_slot: "0 < n \<Longrightarrow> 0 \<le> x mod n \<and> x mod n < (n::int)"
  by simp

text \<open>A sampler whose history fields differ from another's in the cells only.\<close>

lemma ring_okI:
  assumes "heap_ok (hp s)" "h_live (hp s) (recent s)" "h_len (hp s) (recent s) = arraySize s"
    "0 < arraySize s" "arraySize s \<le> max_cells" "0 \<le> recentIndex s" "recentIndex s < arraySize s"
    and "\<And>k. 0 \<le> k \<Longrightarrow> k < arraySize s \<Longrightarrow> \<exists>x. h_read (hp s) (recent s) k = Inr x"
  shows "ring_ok s"
  using assms by (force simp: ring_ok_def slot_def)

lemma slot_eqI: "h_read (hp s) (recent s) k = Inr x \<Longrightarrow> slot s k = x"
  by (simp add: slot_def)

definition next_count :: "int \<Rightarrow> int \<Rightarrow> int" where
  "next_count n c = (if c < n then c + 1 else n - 1)"

lemma store_sample_ring:
  assumes ok: "ring_ok s"
  shows "\<exists>s'. store_sample v s = Inr s' \<and> ring_ok s' \<and> ring s' = tl (ring s) @ [v] \<and>
    historyCount s' = next_count (arraySize s) (historyCount s) \<and>
    s' = s\<lparr>hp := hp s', recentIndex := recentIndex s', allTimeCount := allTimeCount s + 1,
           historyCount := historyCount s'\<rparr>"
proof -
  note d = ring_okD [OF ok]
  let ?n = "arraySize s" and ?r = "recentIndex s"
  obtain h where h: "h_write (hp s) (recent s) ?r v = Inr h"
    using hs.wr_ok d(3,6,7) by metis
  let ?s = "s\<lparr>hp := h, recentIndex := (?r + 1) mod ?n, allTimeCount := allTimeCount s + 1,
      historyCount := next_count ?n (historyCount s)\<rparr>"
  have run: "store_sample v s = Inr ?s"
    using d(4,6) h by (simp add: store_sample_def next_count_def)
  have rd: "h_read h (recent s) k = Inr (if k = ?r then v else slot s k)" if "0 \<le> k" "k < ?n" for k
    using hs.rd_wr_same [OF h] hs.rd_wr_other [OF h, of "recent s" k] d(8) [OF that] by auto
  have ok': "ring_ok ?s"
  proof (rule ring_okI)
    show "heap_ok (hp ?s)" using heap_ok_write [OF h d(1)] by simp
    show "h_live (hp ?s) (recent ?s)" using hs.live_wr [OF h] d(2) by simp
    show "h_len (hp ?s) (recent ?s) = arraySize ?s" using hs.len_wr [OF h] d(3) by simp
  qed (use d rd in \<open>auto simp: next_count_def\<close>)
  have sl: "slot ?s k = (if k = ?r then v else slot s k)" if "0 \<le> k" "k < ?n" for k
    using rd [OF that] by (intro slot_eqI) simp
  have "ring ?s = tl (ring s) @ [v]"
  proof (rule nth_equalityI)
    show "length (ring ?s) = length (tl (ring s) @ [v])" using d(4) by simp
  next
    fix i assume "i < length (ring ?s)"
    then have i: "i < nat ?n" by simp
    have "ring ?s ! i = slot ?s ((?r + 1 + int i) mod ?n)"
      using i by (simp add: ring_nth mod_add_left_eq)
    also have "\<dots> = (if (?r + 1 + int i) mod ?n = ?r then v else slot s ((?r + 1 + int i) mod ?n))"
      using mod_slot d(4) by (intro sl) auto
    also have "\<dots> = (tl (ring s) @ [v]) ! i"
    proof (cases "i = nat ?n - 1")
      case True
      then have "?r + 1 + int i = ?r + ?n" using d(4) by simp
      then have "(?r + 1 + int i) mod ?n = (?r + ?n) mod ?n" by (simp only:)
      then have "(?r + 1 + int i) mod ?n = ?r" using d(6,7) by simp
      then show ?thesis using True by (simp add: nth_append)
    next
      case False
      then have lt: "Suc i < nat ?n" using i by simp
      have "(?r + 1 + int i) mod ?n \<noteq> ?r"
      proof
        assume "(?r + 1 + int i) mod ?n = ?r"
        then have "(?r + 1 + int i) mod ?n = ?r mod ?n" using d(6,7) by simp
        then have "?n dvd (1 + int i)" by (simp add: mod_eq_dvd_iff)
        then show False using lt zdvd_imp_le [of ?n "1 + int i"] by simp
      qed
      moreover have "i < nat ?n - Suc 0" using lt by simp
      ultimately show ?thesis using lt by (simp add: nth_append nth_tl ring_nth add.assoc)
    qed
    finally show "ring ?s ! i = (tl (ring s) @ [v]) ! i" .
  qed
  then show ?thesis using run ok' by (intro exI [of _ ?s]) simp
qed

section \<open>The average\<close>

text \<open>The constants of the smoothing, rounded to double, and the largest value it can reach.\<close>

lemma ref_V: "A2D_VOLTAGE_REF_V = 8106479329266893 / 2 ^ 52"
  unfolding A2D_VOLTAGE_REF_V_def rn53_def
  by (subst rnd_eqI [where k = 0 and e = "-52" and n = 8106479329266893]) (simp_all add: power_int_minus)
lemma ref_V_rounded: "rn53 (8106479329266893 / 2 ^ 52) = 8106479329266893 / 2 ^ 52"
  unfolding rn53_def
  by (subst rnd_eqI [where k = 0 and e = "-52" and n = 8106479329266893]) (simp_all add: power_int_minus)
lemma alpha_V: "rn53 (1 / 1000) = 4611686018427388 / 2 ^ 62"
  unfolding rn53_def
  by (subst rnd_eqI [where k = "-10" and e = "-62" and n = 4611686018427388]) (simp_all add: power_int_minus)
lemma beta_V: "rn53 (1 - 4611686018427388 / 2 ^ 62) = 8998192055486251 / 2 ^ 53"
  unfolding rn53_def
  by (subst rnd_eqI [where k = "-1" and e = "-53" and n = 8998192055486251]) (simp_all add: power_int_minus)
lemma alpha_ref: "rn53 (4611686018427388 / 2 ^ 62 * (8106479329266893 / 2 ^ 52)) = 8301034833169299 / 2 ^ 62"
  unfolding rn53_def
  by (subst rnd_eqI [where k = "-10" and e = "-62" and n = 8301034833169299]) (simp_all add: power_int_minus)
lemma beta_ref: "rn53 (8998192055486251 / 2 ^ 53 * (8106479329266893 / 2 ^ 52)) = 8098372849937626 / 2 ^ 52"
  unfolding rn53_def
  by (subst rnd_eqI [where k = 0 and e = "-52" and n = 8098372849937626]) (simp_all add: power_int_minus)
lemma sum_ref: "rn53 (8301034833169299 / 2 ^ 62 + 8098372849937626 / 2 ^ 52) = 8106479329266893 / 2 ^ 52"
  unfolding rn53_def
  by (subst rnd_eqI [where k = 0 and e = "-52" and n = 8106479329266893]) (simp_all add: power_int_minus)

lemma voltage_of_bounds:
  assumes "0 \<le> r" "r \<le> A2D_MAX_READING"
  shows "0 \<le> voltage_of r" "voltage_of r \<le> A2D_VOLTAGE_REF_V"
proof -
  have q: "rn53 (rat_of_int r / 4095) \<le> 1"
    using rn53_mono [of "rat_of_int r / 4095" 1] rnd_of_int [of 1 53 "- 1074"] assms
    by (simp add: rn53_def A2D_MAX_READING_def)
  have q0: "0 \<le> rn53 (rat_of_int r / 4095)" using assms by (intro rn53_nonneg) simp
  show "0 \<le> voltage_of r"
    unfolding voltage_of_def A2D_MAX_READING_def ref_V using q0 by (intro rn53_nonneg) simp
  have "rn53 (rat_of_int r / 4095) * (8106479329266893 / 2 ^ 52) \<le> 8106479329266893 / 2 ^ 52"
    using q by simp
  then have "rn53 (rn53 (rat_of_int r / 4095) * (8106479329266893 / 2 ^ 52)) \<le> 8106479329266893 / 2 ^ 52"
    using rn53_mono ref_V_rounded by metis
  then show "voltage_of r \<le> A2D_VOLTAGE_REF_V"
    unfolding voltage_of_def A2D_MAX_READING_def ref_V by simp
qed

lemma smoothing_bounds:
  assumes "0 \<le> c" "c \<le> A2D_VOLTAGE_REF_V" "0 \<le> v" "v \<le> A2D_VOLTAGE_REF_V"
  shows "0 \<le> exponential_smoothing c v (rn53 (1 / 1000))"
    "exponential_smoothing c v (rn53 (1 / 1000)) \<le> A2D_VOLTAGE_REF_V"
proof -
  let ?a = "4611686018427388 / 2 ^ 62 :: rat" and ?b = "8998192055486251 / 2 ^ 53 :: rat"
  let ?R = "8106479329266893 / 2 ^ 52 :: rat"
  note R = ref_V
  have e: "exponential_smoothing c v (rn53 (1 / 1000)) = rn53 (rn53 (?a * v) + rn53 (?b * c))"
    by (simp only: exponential_smoothing_def alpha_V beta_V)
  show "0 \<le> exponential_smoothing c v (rn53 (1 / 1000))"
    unfolding e using assms by (intro rn53_nonneg add_nonneg_nonneg) auto
  have v: "rn53 (?a * v) \<le> rn53 (?a * ?R)"
    using assms(4) unfolding R by (intro rn53_mono mult_left_mono) auto
  have c: "rn53 (?b * c) \<le> rn53 (?b * ?R)"
    using assms(2) unfolding R by (intro rn53_mono mult_left_mono) auto
  have "rn53 (rn53 (?a * v) + rn53 (?b * c)) \<le> rn53 (rn53 (?a * ?R) + rn53 (?b * ?R))"
    by (rule rn53_mono [OF add_mono [OF v c]])
  then show "exponential_smoothing c v (rn53 (1 / 1000)) \<le> A2D_VOLTAGE_REF_V"
    unfolding e by (simp only: alpha_ref beta_ref sum_ref R)
qed

section \<open>A sample refines the light model\<close>

text \<open>What one sample does, without the ring, the store, the files and the clocks.\<close>

record light_model =
  mAverage :: rat
  mDark :: bool             \<comment> \<open>inside a dip\<close>
  mHistory :: "rat list"    \<comment> \<open>oldest first\<close>
  mDips :: int

definition abs_light :: "sampler \<times> slocals \<Rightarrow> light_model" where
  "abs_light st = \<lparr>mAverage = currentAverage (fst st), mDark = lastDip (snd st),
     mHistory = ring (fst st), mDips = dipCount (fst st)\<rparr>"

definition a_sample :: "int \<Rightarrow> light_model \<Rightarrow> light_model" where
  "a_sample reading m =
     (let voltage = voltage_of reading;
          avg = exponential_smoothing (mAverage m) voltage (rn53 (1 / 1000));
          (v, dark, dip) = detect_dip voltage avg (mDark m) in
      \<lparr>mAverage = avg, mDark = dark, mHistory = tl (mHistory m) @ [v],
       mDips = mDips m + (if dip then 1 else 0)\<rparr>)"

definition sampler_ok :: "int \<Rightarrow> sampler \<Rightarrow> bool" where
  "sampler_ok now s \<longleftrightarrow> ring_ok s \<and> period_ok (timer s) \<and> s_initialized (timer s) \<and>
     lastTimeHack (timer s) \<le> now \<and> 0 \<le> now \<and> pStats s = LiveBlock \<and> running s \<and>
     0 \<le> currentAverage s \<and> currentAverage s \<le> A2D_VOLTAGE_REF_V"

lemma ring_ok_cong:
  "recentIndex s' = recentIndex s \<Longrightarrow> arraySize s' = arraySize s \<Longrightarrow>
   recent s' = recent s \<Longrightarrow> hp s' = hp s \<Longrightarrow> ring_ok s' = ring_ok s \<and> ring s' = ring s"
  by (simp add: ring_ok_def ring_def slot_def)

lemma take_sample_refines:
  assumes ok: "sampler_ok now s" and f: "getVoltageReading f = Inr r" "0 \<le> r" "r \<le> A2D_MAX_READING"
    and clk: "now < clock_ns spec"
  shows "\<exists>s' l'. take_sample f spec (s, l) = Inr (s', l') \<and> sampler_ok (clock_ns spec) s' \<and>
    abs_light (s', l') = a_sample r (abs_light (s, l)) \<and> arraySize s' = arraySize s \<and>
    historyCount s' = next_count (arraySize s) (historyCount s) \<and>
    allTimeCount s' = allTimeCount s + 1 \<and> currentTime l' = currentTime l"
proof -
  have o: "ring_ok s" "period_ok (timer s)" "s_initialized (timer s)" "lastTimeHack (timer s) < clock_ns spec"
    "0 < clock_ns spec" "pStats s = LiveBlock" "running s" "0 \<le> currentAverage s"
    "currentAverage s \<le> A2D_VOLTAGE_REF_V"
    using ok clk by (auto simp: sampler_ok_def)
  obtain tm where tm: "Period_markEvent PERIOD_EVENT_SAMPLE_LIGHT spec (timer s) = Inr tm"
      "period_ok tm" "s_initialized tm" "lastTimeHack tm \<le> clock_ns spec"
    using mark_refines [OF o(2,3,5,4)] o(4) by (auto split: if_splits)
  let ?v = "voltage_of r"
  let ?avg = "exponential_smoothing (currentAverage s) ?v (rn53 (1 / 1000))"
  obtain x dark dip where dd: "detect_dip ?v ?avg (lastDip l) = (x, dark, dip)"
    by (metis surj_pair)
  let ?s = "s\<lparr>timer := tm, currentAverage := ?avg, dipCount := dipCount s + (if dip then 1 else 0)\<rparr>"
  have rk: "ring_ok ?s = ring_ok s \<and> ring ?s = ring s" by (rule ring_ok_cong) simp_all
  obtain s' where s': "store_sample x ?s = Inr s'" "ring_ok s'" "ring s' = tl (ring s) @ [x]"
      "historyCount s' = next_count (arraySize s) (historyCount s)"
      "s' = ?s\<lparr>hp := hp s', recentIndex := recentIndex s', allTimeCount := allTimeCount s + 1,
           historyCount := historyCount s'\<rparr>"
    using store_sample_ring [of ?s x] rk o(1) by auto
  have run: "take_sample f spec (s, l) = Inr (s', l\<lparr>lastDip := dark, perSecCount := perSecCount l + 1\<rparr>)"
    using f(1) tm(1) dd s'(1) by (simp add: take_sample_def Let_def)
  have fields: "timer s' = tm" "currentAverage s' = ?avg" "dipCount s' = dipCount s + (if dip then 1 else 0)"
    "arraySize s' = arraySize s" "allTimeCount s' = allTimeCount s + 1" "pStats s' = pStats s" "running s' = running s"
    by (subst s'(5); simp)+
  have "sampler_ok (clock_ns spec) s'"
    using s'(2) o tm smoothing_bounds [OF o(8,9) voltage_of_bounds [OF f(2,3)]]
    by (simp add: sampler_ok_def fields)
  moreover have "abs_light (s', l\<lparr>lastDip := dark, perSecCount := perSecCount l + 1\<rparr>) = a_sample r (abs_light (s, l))"
    using dd by (simp add: abs_light_def a_sample_def Let_def fields s'(3))
  ultimately show ?thesis using run s'(4) fields by auto
qed

section \<open>Starting, and runs of samples\<close>

definition zeroed :: "ptr \<Rightarrow> int \<Rightarrow> int \<Rightarrow> rat heap \<Rightarrow> rat heap \<Rightarrow> bool" where
  "zeroed p a b h h' \<longleftrightarrow> heap_ok h' \<and>
     (\<forall>q j. h_read h' q j = (if q = p \<and> a \<le> j \<and> j < b then Inr 0 else h_read h q j)) \<and>
     (\<forall>q. h_len h' q = h_len h q) \<and> (\<forall>q. h_live h' q = h_live h q)"

lemma zero_loop:
  assumes "heap_ok h" "0 \<le> a" "a \<le> b" "b \<le> h_len h p"
  shows "\<exists>h'. for_range a b (zero_cell p) h = Inr h' \<and> zeroed p a b h h'"
proof (rule for_range_rule [where P = "\<lambda>i t. zeroed p a i h t"])
  show "a \<le> b" "zeroed p a a h h" using assms by (auto simp: zeroed_def)
  fix i t assume i: "a \<le> i" "i < b" and z: "zeroed p a i h t"
  have "i < h_len t p" "0 \<le> i" using z i assms by (auto simp: zeroed_def)
  then obtain t' where w: "h_write t p i 0 = Inr t'" using hs.wr_ok by metis
  have "zeroed p a (i + 1) h t'"
    unfolding zeroed_def
  proof (intro conjI allI)
    show "heap_ok t'" using heap_ok_write [OF w] z by (simp add: zeroed_def)
    fix q j
    show "h_read t' q j = (if q = p \<and> a \<le> j \<and> j < i + 1 then Inr 0 else h_read h q j)"
      using hs.rd_wr_same [OF w] hs.rd_wr_other [OF w, of q j] z i by (cases "q = p \<and> j = i") (auto simp: zeroed_def)
    show "h_len t' q = h_len h q" "h_live t' q = h_live h q"
      using hs.len_wr [OF w] hs.live_wr [OF w] z by (simp_all add: zeroed_def)
  qed
  then show "\<exists>t'. zero_cell p i t = Inr t' \<and> zeroed p a (i + 1) h t'"
    using w by (auto simp: zero_cell_def)
qed

lemma ref_V_nonneg: "0 \<le> A2D_VOLTAGE_REF_V"
  unfolding ref_V by simp

lemma max_cells_val: "4095 \<le> max_cells"
  by (simp add: max_cells_def)

lemma sampler_init_ok:
  assumes v1: "getVoltageReading v1 = Inr r" and v0: "getVoltageReading v0 = Inr n"
    and n: "0 \<le> n" "n \<le> 4095"
  shows "\<exists>s l. sampler_init v1 v0 spec sampler_start = Inr (s, l) \<and> sampler_ok 0 s \<and>
    arraySize s = (if n = 0 then 1 else n) \<and> historyCount s = 0 \<and> recentIndex s = 0 \<and> allTimeCount s = 1 \<and>
    abs_light (s, l) = \<lparr>mAverage = 0, mDark = False,
      mHistory = replicate (nat (if n = 0 then 1 else n)) 0, mDips = 0\<rparr>"
proof -
  let ?n = "if n = 0 then 1 else n"
  have n1: "0 < ?n" "?n \<le> max_cells" using n max_cells_val by auto
  have ok0: "heap_ok (hp sampler_start)" by (simp add: sampler_start_def empty_heap_def heap_ok_def)
  obtain p h where m: "h_malloc ?n (hp sampler_start) = (p, h)" by fastforce
  have mf: "heap_ok h" "p \<noteq> 0" "h_live h p" "h_len h p = ?n"
    using h_malloc_facts [OF ok0 _ n1(2) m] n1(1) by auto
  obtain h1 where h1: "for_range 0 ?n (zero_cell p) h = Inr h1" "zeroed p 0 ?n h h1"
    using zero_loop [OF mf(1), of 0 ?n p] n1 mf(4) by auto
  let ?s = "sampler_start\<lparr>arraySize := ?n, recent := p, hp := h1, pStats := LiveBlock\<rparr>"
  let ?l = "\<lparr>perSecCount = 0, currentTime = getTimeInMs spec, lastDip = False, recentDips = 0, secondsWithDips = 0\<rparr>"
  have run: "sampler_init v1 v0 spec sampler_start = Inr (?s, ?l)"
    unfolding sampler_init_def v1 v0 rbind_simps Let_def m using mf(2) h1(1) by simp
  have rd: "h_read h1 p k = Inr 0" if "0 \<le> k" "k < ?n" for k
    using h1(2) that by (simp add: zeroed_def)
  have ok: "ring_ok ?s"
    by (rule ring_okI) (use h1(2) mf n1 rd in \<open>auto simp: zeroed_def sampler_start_def\<close>)
  have "slot ?s k = 0" if "0 \<le> k" "k < ?n" for k using rd [OF that] by (simp add: slot_def)
  then have "ring ?s = replicate (nat ?n) 0"
    using n1 by (intro nth_equalityI) (auto simp: ring_nth)
  then show ?thesis
    using run ok ref_V_nonneg
    by (intro exI [of _ ?s] exI [of _ ?l])
      (simp add: sampler_ok_def program_start_init abs_light_def sampler_start_def)
qed

text \<open>Samples in a row: the file's contents and the clock of each.\<close>

fun sample_run :: "(string option \<times> timespec) list \<Rightarrow> sampler \<times> slocals \<Rightarrow> (sampler \<times> slocals) res" where
  "sample_run [] st = Inr st"
| "sample_run ((f, spec) # xs) st = rbind (take_sample f spec st) (sample_run xs)"

definition readings_ok :: "(string option \<times> timespec) list \<Rightarrow> int list \<Rightarrow> bool" where
  "readings_ok xs rs \<longleftrightarrow> list_all2 (\<lambda>x r. getVoltageReading (fst x) = Inr r \<and> 0 \<le> r \<and> r \<le> A2D_MAX_READING) xs rs"

lemma sample_run_refines:
  assumes "sampler_ok now s" "readings_ok xs rs" "sorted_wrt (<) (now # map (clock_ns \<circ> snd) xs)"
  shows "\<exists>s' l' now'. sample_run xs (s, l) = Inr (s', l') \<and> sampler_ok now' s' \<and>
    abs_light (s', l') = fold a_sample rs (abs_light (s, l)) \<and> arraySize s' = arraySize s \<and>
    historyCount s' = (next_count (arraySize s) ^^ length xs) (historyCount s) \<and>
    allTimeCount s' = allTimeCount s + int (length xs)"
  using assms
proof (induction xs arbitrary: rs now s l)
  case Nil
  then show ?case by (auto simp: readings_ok_def)
next
  case (Cons x xs)
  obtain f spec where x: "x = (f, spec)" by fastforce
  obtain r rs' where rs: "rs = r # rs'" "getVoltageReading f = Inr r" "0 \<le> r" "r \<le> A2D_MAX_READING"
      "readings_ok xs rs'"
    using Cons.prems(2) x by (auto simp: readings_ok_def list_all2_Cons1)
  obtain s1 l1 where s1: "take_sample f spec (s, l) = Inr (s1, l1)" "sampler_ok (clock_ns spec) s1"
      "abs_light (s1, l1) = a_sample r (abs_light (s, l))" "arraySize s1 = arraySize s"
      "historyCount s1 = next_count (arraySize s) (historyCount s)" "allTimeCount s1 = allTimeCount s + 1"
    using take_sample_refines [OF Cons.prems(1) rs(2-4)] Cons.prems(3) x by fastforce
  have "sorted_wrt (<) (clock_ns spec # map (clock_ns \<circ> snd) xs)" using Cons.prems(3) x by (simp add: comp_def)
  from Cons.IH [OF s1(2) rs(5) this, of l1]
  show ?case using s1 by (auto simp: x rs(1) funpow_swap1)
qed

text \<open>The closed form of the count the history reports.\<close>

lemma next_count_iterate:
  assumes "1 < n" "0 \<le> n"
  shows "(next_count n ^^ k) 0 = (if int k \<le> n then int k else if even (int k - n) then n else n - 1)"
proof (induction k)
  case (Suc k)
  show ?case
  proof (cases "int k < n")
    case True then show ?thesis using Suc by (simp add: next_count_def)
  next
    case False then show ?thesis using Suc assms by (auto simp: next_count_def)
  qed
qed (use assms in simp)

definition a_start :: "nat \<Rightarrow> light_model" where
  "a_start n = \<lparr>mAverage = 0, mDark = False, mHistory = replicate n 0, mDips = 0\<rparr>"

lemma start_and_sample:
  assumes "getVoltageReading v1 = Inr r" "getVoltageReading v0 = Inr n" "0 < n" "n \<le> 4095"
    and "readings_ok xs rs" "sorted_wrt (<) (0 # map (clock_ns \<circ> snd) xs)"
  shows "\<exists>s l now. rbind (sampler_init v1 v0 spec sampler_start) (sample_run xs) = Inr (s, l) \<and>
    sampler_ok now s \<and> abs_light (s, l) = fold a_sample rs (a_start (nat n)) \<and> arraySize s = n \<and>
    historyCount s = (next_count n ^^ length xs) 0 \<and> allTimeCount s = 1 + int (length xs)"
proof -
  obtain s0 l0 where i: "sampler_init v1 v0 spec sampler_start = Inr (s0, l0)" "sampler_ok 0 s0"
      "arraySize s0 = n" "historyCount s0 = 0" "allTimeCount s0 = 1" "abs_light (s0, l0) = a_start (nat n)"
    using sampler_init_ok [OF assms(1,2) _ assms(4), of spec] assms(3) by (auto simp: a_start_def)
  from sample_run_refines [OF i(2) assms(5,6), of l0] show ?thesis using i by auto
qed

text \<open>The values stored by a run and the recoveries from darkness it sees.\<close>

fun a_stored :: "light_model \<Rightarrow> int list \<Rightarrow> rat list" where
  "a_stored m [] = []"
| "a_stored m (r # rs) = last (mHistory (a_sample r m)) # a_stored (a_sample r m) rs"

definition recovers :: "int \<Rightarrow> light_model \<Rightarrow> bool" where
  \<comment> \<open>the voltage is above the average it leads to by more than 0.07 V\<close>
  "recovers r m \<longleftrightarrow> voltage_of r > rn53 (mAverage (a_sample r m) + rn53 (7 / 100))"

fun recoveries :: "light_model \<Rightarrow> int list \<Rightarrow> int" where
  "recoveries m [] = 0"
| "recoveries m (r # rs) = (if recovers r m then 1 else 0) + recoveries (a_sample r m) rs"

lemma a_sample_history:
  "mHistory (a_sample r m) = tl (mHistory m) @ [last (mHistory (a_sample r m))]"
  by (simp add: a_sample_def Let_def split: prod.splits)

lemma fold_history:
  "mHistory m \<noteq> [] \<Longrightarrow> mHistory (fold a_sample rs m) = drop (length rs) (mHistory m @ a_stored m rs)"
proof (induction rs arbitrary: m)
  case (Cons r rs)
  let ?m = "a_sample r m"
  have h: "mHistory ?m = tl (mHistory m) @ [last (mHistory ?m)]" by (rule a_sample_history)
  then have "mHistory ?m \<noteq> []" by (metis Nil_is_append_conv not_Cons_self)
  then have "mHistory (fold a_sample rs ?m) = drop (length rs) (mHistory ?m @ a_stored ?m rs)"
    by (rule Cons.IH)
  also have "mHistory ?m @ a_stored ?m rs = tl (mHistory m) @ a_stored m (r # rs)"
    using h by (metis append.assoc append_Cons append_Nil a_stored.simps(2))
  finally show ?case using Cons.prems by (cases "mHistory m") simp_all
qed simp

lemma a_sample_dips:
  "mDips (a_sample r m) + (if mDark m then 1 else 0) \<le>
     mDips m + (if mDark (a_sample r m) then 1 else 0) + (if recovers r m then 1 else 0) \<and>
   mDips m \<le> mDips (a_sample r m)"
  by (auto simp: a_sample_def recovers_def detect_dip_def Let_def)

lemma fold_dips:
  "mDips (fold a_sample rs m) + (if mDark m then 1 else 0) \<le>
     mDips m + (if mDark (fold a_sample rs m) then 1 else 0) + recoveries m rs \<and>
   mDips m \<le> mDips (fold a_sample rs m)"
proof (induction rs arbitrary: m)
  case (Cons r rs)
  from Cons.IH [of "a_sample r m"] a_sample_dips [of r m] show ?case by simp
qed simp

text \<open>
  C1. Sampling computes what the module promises: started with the potentiometer at \<open>n\<close> and fed
  any readings from 0 to 4095 at increasing clock values, it never fails, the ring holds the
  last \<open>n\<close> of the values stored, oldest first (zeros before them), the smoothed average stays
  between 0 and the 1.8 V reference in double arithmetic, and the total counts one more than
  the samples taken.
\<close>

theorem sampling_run_correct:
  assumes "getVoltageReading v1 = Inr r" "getVoltageReading v0 = Inr n" "0 < n" "n \<le> 4095"
    and "readings_ok xs rs" "sorted_wrt (<) (0 # map (clock_ns \<circ> snd) xs)"
  shows "\<exists>s l. rbind (sampler_init v1 v0 spec sampler_start) (sample_run xs) = Inr (s, l) \<and>
    ring s = drop (length xs) (replicate (nat n) 0 @ a_stored (a_start (nat n)) rs) \<and>
    0 \<le> Sampler_getAverageReading s \<and> Sampler_getAverageReading s \<le> A2D_VOLTAGE_REF_V \<and>
    Sampler_getNumSamplesTaken s = int (length xs) + 1 \<and> Sampler_getHistorySize s = n"
proof -
  obtain s l now where s: "rbind (sampler_init v1 v0 spec sampler_start) (sample_run xs) = Inr (s, l)"
      "sampler_ok now s" "abs_light (s, l) = fold a_sample rs (a_start (nat n))" "arraySize s = n"
      "allTimeCount s = 1 + int (length xs)"
    using start_and_sample [OF assms, of spec] by blast
  have "length xs = length rs" using assms(5) by (simp add: readings_ok_def list_all2_lengthD)
  moreover have "ring s = mHistory (fold a_sample rs (a_start (nat n)))"
    using s(3) by (metis abs_light_def light_model.select_convs(3) fst_conv)
  ultimately have "ring s = drop (length xs) (replicate (nat n) 0 @ a_stored (a_start (nat n)) rs)"
    using assms(3) by (simp add: fold_history a_start_def)
  then show ?thesis
    using s by (auto simp: Sampler_getAverageReading_def Sampler_getNumSamplesTaken_def
        Sampler_getHistorySize_def sampler_ok_def)
qed

text \<open>The readings the witnesses use.\<close>

lemma reading_text: "getVoltageReading (Some (show_int i)) = Inr i"
  using scan_d_show_int [of "[]" i]
  by (simp add: getVoltageReading_def Let_def scan_count_def no_digit_next_def)

definition bright_then_dark :: "(string option \<times> timespec) list" where
  "bright_then_dark = [(Some (show_int 4095), \<lparr>tv_sec = 1, tv_nsec = 0\<rparr>),
     (Some (show_int 0), \<lparr>tv_sec = 1, tv_nsec = 1000000\<rparr>), (Some (show_int 4095), \<lparr>tv_sec = 1, tv_nsec = 2000000\<rparr>)]"

lemma bright_then_dark:
  "readings_ok bright_then_dark [4095, 0, 4095]"
  "sorted_wrt (<) (0 # map (clock_ns \<circ> snd) bright_then_dark)" "length bright_then_dark = 3"
  by (simp_all add: readings_ok_def bright_then_dark_def reading_text A2D_MAX_READING_def clock_ns_def)

theorem sampling_run_correct_witness:
  "\<exists>s l. rbind (sampler_init (Some (show_int 7)) (Some (show_int 2)) \<lparr>tv_sec = 1, tv_nsec = 0\<rparr> sampler_start)
      (sample_run bright_then_dark) = Inr (s, l) \<and>
    ring s = tl (a_stored (a_start 2) [4095, 0, 4095]) \<and> Sampler_getNumSamplesTaken s = 4"
  using sampling_run_correct [OF reading_text reading_text [of 2] _ _ bright_then_dark(1,2),
      of 7 "\<lparr>tv_sec = 1, tv_nsec = 0\<rparr>"]
  by (auto simp: bright_then_dark(3) numeral_2_eq_2)

text \<open>
  C29. The dip counter debounces: over any run of samples, from any consistent state, the count
  never falls and rises by at most one more than the number of samples that came back above
  the average by more than 0.07 V.
\<close>

theorem dips_need_recovery:
  assumes "sampler_ok now s" "readings_ok xs rs" "sorted_wrt (<) (now # map (clock_ns \<circ> snd) xs)"
  shows "\<exists>s' l'. sample_run xs (s, l) = Inr (s', l') \<and> Sampler_getNumDips s \<le> Sampler_getNumDips s' \<and>
    Sampler_getNumDips s' \<le> Sampler_getNumDips s + 1 + recoveries (abs_light (s, l)) rs"
proof -
  obtain s' l' where s': "sample_run xs (s, l) = Inr (s', l')"
      "abs_light (s', l') = fold a_sample rs (abs_light (s, l))"
    using sample_run_refines [OF assms, of l] by blast
  then have "mDips (fold a_sample rs (abs_light (s, l))) = dipCount s'" "mDips (abs_light (s, l)) = dipCount s"
    by (metis abs_light_def light_model.select_convs(4) fst_conv)+
  then show ?thesis
    using fold_dips [of rs "abs_light (s, l)"] s' by (auto simp: Sampler_getNumDips_def split: if_splits)
qed

theorem dips_need_recovery_witness:
  "\<exists>s l s' l'. sampler_init (Some (show_int 7)) (Some (show_int 2)) \<lparr>tv_sec = 1, tv_nsec = 0\<rparr> sampler_start = Inr (s, l) \<and>
    sample_run bright_then_dark (s, l) = Inr (s', l') \<and> Sampler_getNumDips s' \<le> 4"
proof -
  obtain s l where s: "sampler_init (Some (show_int 7)) (Some (show_int 2)) \<lparr>tv_sec = 1, tv_nsec = 0\<rparr> sampler_start = Inr (s, l)"
      "sampler_ok 0 s" "abs_light (s, l) = a_start 2"
    using sampler_init_ok [OF reading_text reading_text [of 2], of 7 "\<lparr>tv_sec = 1, tv_nsec = 0\<rparr>"]
    by (auto simp: a_start_def)
  have "dipCount s = 0" using s(3) by (simp add: abs_light_def a_start_def)
  moreover have "recoveries m [a, b, c] \<le> 3" for m a b c by simp
  moreover obtain s' l' where "sample_run bright_then_dark (s, l) = Inr (s', l')"
      "Sampler_getNumDips s' \<le> Sampler_getNumDips s + 1 + recoveries (abs_light (s, l)) [4095, 0, 4095]"
    using dips_need_recovery [OF s(2) bright_then_dark(1,2), of l] by blast
  ultimately have "Sampler_getNumDips s' \<le> 4 \<and> sample_run bright_then_dark (s, l) = Inr (s', l')"
    by (smt (verit) Sampler_getNumDips_def)
  then show ?thesis using s(1) by blast
qed

text \<open>
  The reported history count is not the number of valid samples: with a history of
  \<open>n > 1\<close> it counts up to \<open>n\<close> and from then on alternates between \<open>n - 1\<close> and \<open>n\<close> with every
  sample, although the ring stays full.
\<close>

theorem history_count_alternates:
  assumes "getVoltageReading v1 = Inr r" "getVoltageReading v0 = Inr n" "1 < n" "n \<le> 4095"
    and "readings_ok xs rs" "sorted_wrt (<) (0 # map (clock_ns \<circ> snd) xs)"
  shows "\<exists>s l. rbind (sampler_init v1 v0 spec sampler_start) (sample_run xs) = Inr (s, l) \<and>
    Sampler_getNumSamplesInHistory s =
      (if int (length xs) \<le> n then int (length xs) else if even (int (length xs) - n) then n else n - 1)"
proof -
  have "0 < n" using assms(3) by simp
  then show ?thesis
    using start_and_sample [OF assms(1,2) _ assms(4-6), of spec] next_count_iterate [OF assms(3), of "length xs"]
    by (auto simp: Sampler_getNumSamplesInHistory_def)
qed

theorem history_count_alternates_witness:
  "\<exists>s l. rbind (sampler_init (Some (show_int 7)) (Some (show_int 2)) \<lparr>tv_sec = 1, tv_nsec = 0\<rparr> sampler_start)
      (sample_run bright_then_dark) = Inr (s, l) \<and> Sampler_getNumSamplesInHistory s = 1"
  using history_count_alternates [OF reading_text reading_text [of 2] _ _ bright_then_dark(1,2),
      of 7 "\<lparr>tv_sec = 1, tv_nsec = 0\<rparr>"]
  by (auto simp: bright_then_dark(3))

section \<open>Changing the size of the history\<close>

definition probe_index :: "sampler \<Rightarrow> int" where
  "probe_index s = (recentIndex s + 1) mod arraySize s"

lemma probe_range: "ring_ok s \<Longrightarrow> 0 \<le> probe_index s \<and> probe_index s < arraySize s"
  using ring_okD(4) by (simp add: probe_index_def)

lemma probe_ring: "ring_ok s \<Longrightarrow> 1 < arraySize s \<Longrightarrow> slot s (probe_index s) = ring s ! 1"
  by (simp add: ring_nth probe_index_def)

text \<open>A new block beside the history: what the resizing branches start from.\<close>

lemma fresh_block:
  assumes ok: "ring_ok s" and n: "0 \<le> n" "n \<le> max_cells" and m: "h_malloc n (hp s) = (p, h)"
  shows "heap_ok h" "p \<noteq> 0" "p \<noteq> recent s" "h_live h p" "h_len h p = n" "h_live h (recent s)"
    "h_len h (recent s) = arraySize s"
    "\<And>k. 0 \<le> k \<Longrightarrow> k < arraySize s \<Longrightarrow> h_read h (recent s) k = Inr (slot s k)"
proof -
  note d = ring_okD [OF ok]
  note f = h_malloc_facts [OF d(1) n m]
  show ne: "p \<noteq> recent s" using heap_ok_live [OF d(1,2)] f(3) by simp
  then show "h_live h (recent s)" "h_len h (recent s) = arraySize s"
    "\<And>k. 0 \<le> k \<Longrightarrow> k < arraySize s \<Longrightarrow> h_read h (recent s) k = Inr (slot s k)"
    using f(6-8) d(2,3,8) by metis+
  show "heap_ok h" "p \<noteq> 0" "h_live h p" "h_len h p = n" by (rule f(1), rule f(2), rule f(4), rule f(5))
qed

text \<open>Replacing the history by a block: the old one is released, the new one read as it is.\<close>

lemma replace_recent_runs:
  assumes "heap_ok h" "h_live h (recent s)" "p \<noteq> recent s" "p \<noteq> 0"
  shows "\<exists>h'. replace_recent n ri p h s = Inr (s\<lparr>arraySize := n, recentIndex := ri, recent := p, hp := h'\<rparr>) \<and>
    heap_ok h' \<and> (\<forall>i. h_read h' (recent s) i = Inl UseAfterFree) \<and>
    (\<forall>i. h_read h' p i = h_read h p i) \<and> h_len h' p = h_len h p \<and> h_live h' p = h_live h p"
proof -
  obtain h' where h': "h_free (recent s) h = Inr h'" using h_free_live [OF assms(2)] by blast
  have nz: "recent s \<noteq> 0" using assms(2) by (simp add: h_live_def)
  have "heap_ok h'" by (rule h_free_facts(1) [OF assms(1) h' nz])
  moreover have "h_read h' (recent s) i = Inl UseAfterFree" for i
    by (rule h_free_facts(2) [OF assms(1) h' nz])
  moreover have "h_read h' p i = h_read h p i" "h_len h' p = h_len h p" "h_live h' p = h_live h p" for i
    using h_free_facts(3-5) [OF assms(1) h' nz assms(3)] by simp_all
  ultimately show ?thesis using h' by (auto simp: replace_recent_def)
qed

lemma shrink_start:
  assumes ok: "ring_ok s" and n: "0 < n" "n < arraySize s"
  obtains p h where "h_malloc n (hp s) = (p, h)" "heap_ok h" "p \<noteq> 0" "p \<noteq> recent s" "h_live h p" "h_len h p = n"
    "h_live h (recent s)" "\<And>k. 0 \<le> k \<Longrightarrow> k < arraySize s \<Longrightarrow> h_read h (recent s) k = Inr (slot s k)"
    "Sampler_setHistorySize n s =
      (if slot s (probe_index s) = 0
       then rbind (for_range 0 (probe_index s) (hs.copy_body p (recent s) (\<lambda>i. i)) h)
              (\<lambda>h'. replace_recent n (recentIndex s) p h' s)
       else rbind (for_range 0 n (hs.copy_body p (recent s)
                (\<lambda>i. (arraySize s + (recentIndex s - n + 2) + i) mod arraySize s)) h)
              (\<lambda>h'. replace_recent n (n - 1) p h' s))"
proof -
  note d = ring_okD [OF ok]
  obtain p h where m: "h_malloc n (hp s) = (p, h)" by fastforce
  have nn: "0 \<le> n" "n \<le> max_cells" using n d(5) by simp_all
  note f = fresh_block [OF ok nn m]
  have body: "for_range 0 n (\<lambda>i h. rbind (mod_c (arraySize s + (recentIndex s - n + 2) + i) (arraySize s))
        (\<lambda>j. copy_cell p (recent s) (\<lambda>_. j) i h)) h
      = for_range 0 n (hs.copy_body p (recent s) (\<lambda>i. (arraySize s + (recentIndex s - n + 2) + i) mod arraySize s)) h"
    using n d(4,6) by (intro for_range_cong) (simp add: copy_cell_def hs.copy_body_def)
  have "Sampler_setHistorySize n s = shrink_history n s"
    using n by (simp add: Sampler_setHistorySize_def)
  also have "mod_c (recentIndex s + 1) (arraySize s) = Inr (probe_index s)"
    using d(4,6) by (simp add: probe_index_def)
  then have "shrink_history n s = (if slot s (probe_index s) = 0
       then rbind (for_range 0 (probe_index s) (hs.copy_body p (recent s) (\<lambda>i. i)) h)
              (\<lambda>h'. replace_recent n (recentIndex s) p h' s)
       else rbind (for_range 0 n (hs.copy_body p (recent s)
                (\<lambda>i. (arraySize s + (recentIndex s - n + 2) + i) mod arraySize s)) h)
              (\<lambda>h'. replace_recent n (n - 1) p h' s))"
    using f(8) probe_range [OF ok] body by (simp add: shrink_history_def m copy_cell_body)
  finally show ?thesis using that [OF m f(1-6,8)] by blast
qed

text \<open>The state a successful copy leaves, and its ring.\<close>

lemma copy_replaced:
  assumes ok: "ring_ok s" and blk: "heap_ok h" "p \<noteq> 0" "p \<noteq> recent s" "h_live h p" "h_len h p = n" "h_live h (recent s)"
    and n: "0 < n" "n \<le> max_cells" "b \<le> n" "0 \<le> b" "0 \<le> ri" "ri < n"
    and src: "\<And>i. 0 \<le> i \<Longrightarrow> i < b \<Longrightarrow> h_read h (recent s) (f i) = Inr (g i)"
  shows "\<exists>s'. rbind (for_range 0 b (hs.copy_body p (recent s) f) h) (\<lambda>h'. replace_recent n ri p h' s) = Inr s' \<and>
    s' = s\<lparr>arraySize := n, recentIndex := ri, recent := p, hp := hp s'\<rparr> \<and> heap_ok (hp s') \<and>
    h_live (hp s') p \<and> h_len (hp s') p = n \<and> (\<forall>i. h_read (hp s') (recent s) i = Inl UseAfterFree) \<and>
    (\<forall>i. h_read (hp s') p i = (if 0 \<le> i \<and> i < b then Inr (g i) else h_read h p i))"
proof -
  obtain h1 where h1: "for_range 0 b (hs.copy_body p (recent s) f) h = Inr h1" "hs.copied p (recent s) f 0 b h h1"
    using hs.copy_loop [OF blk(3), of 0 b h f] src n(3,4) blk(5) by (metis order_refl)
  have ok1: "heap_ok h1" using heap_ok_copy_loop h1(1) blk(1) unfolding copy_cell_body by blast
  have live1: "h_live h1 (recent s)" using h1(2) blk(6) by (simp add: hs.copied_def)
  obtain h' where h': "replace_recent n ri p h1 s = Inr (s\<lparr>arraySize := n, recentIndex := ri, recent := p, hp := h'\<rparr>)"
      "heap_ok h'" "\<forall>i. h_read h' (recent s) i = Inl UseAfterFree" "\<forall>i. h_read h' p i = h_read h1 p i"
      "h_len h' p = h_len h1 p" "h_live h' p = h_live h1 p"
    using replace_recent_runs [OF ok1 live1 blk(3,2)] by blast
  have "h_read h' p i = (if 0 \<le> i \<and> i < b then Inr (g i) else h_read h p i)" for i
    using h'(4) h1(2) src by (simp add: hs.copied_def)
  then show ?thesis
    using h1 h' blk(4,5) by (intro exI [of _ "s\<lparr>arraySize := n, recentIndex := ri, recent := p, hp := h'\<rparr>"])
      (simp add: hs.copied_def)
qed

lemma setHistorySize_fields:
  assumes "s' = s\<lparr>arraySize := n, recentIndex := ri, recent := p, hp := hp s'\<rparr>"
  shows "arraySize s' = n" "recentIndex s' = ri" "recent s' = p" "historyCount s' = historyCount s"
    "timer s' = timer s" "pStats s' = pStats s" "running s' = running s" "currentAverage s' = currentAverage s"
    "dipCount s' = dipCount s" "allTimeCount s' = allTimeCount s"
  by (subst assms, simp)+

lemma resized_ring_ok:
  assumes "s' = s\<lparr>arraySize := n, recentIndex := ri, recent := p, hp := hp s'\<rparr>"
    and "heap_ok (hp s')" "h_live (hp s') p" "h_len (hp s') p = n" "0 < n" "n \<le> max_cells" "0 \<le> ri" "ri < n"
    and rd: "\<And>i. 0 \<le> i \<Longrightarrow> i < n \<Longrightarrow> h_read (hp s') p i = Inr (g i)"
  shows "ring_ok s'" "\<And>i. 0 \<le> i \<Longrightarrow> i < n \<Longrightarrow> slot s' i = g i"
proof -
  note f = setHistorySize_fields [OF assms(1)]
  show "ring_ok s'" by (rule ring_okI) (use assms(2-) f in auto)
  show "slot s' i = g i" if "0 \<le> i" "i < n" for i using rd [OF that] by (intro slot_eqI) (simp add: f)
qed

lemma mod_one_wrap: "n \<le> x \<Longrightarrow> x < 2 * n \<Longrightarrow> x mod n = x - (n::int)"
  by (metis minus_mod_self2 mod_pos_pos_trivial diff_ge_0_iff_ge diff_less_eq mult_2)

text \<open>A ring read at a moving place, as a list: what shrinking a full history leaves.\<close>

lemma shrunk_list:
  assumes n: "2 \<le> n" "n < N" and len: "length R = nat N" "length L = nat n"
    and at: "\<And>i. i < nat n \<Longrightarrow> L ! i = R ! nat ((N - n + 2 + (n - 1 + int i) mod n) mod N)"
  shows "L = [R ! 1] @ drop (nat (N - n + 2)) R @ [R ! 0]" (is "_ = ?R")
proof (rule nth_equalityI)
  show "length L = length ?R" using n len by simp
next
  fix i assume "i < length L"
  then have i: "i < nat n" by (simp add: len)
  have to_old: "L ! i = R ! nat m" if "(n - 1 + int i) mod n = k" "(N - n + 2 + k) mod N = m" for k m
    using at [OF i] that by (simp only:)
  consider "i = 0" | "0 < i" "i < nat n - 1" | "i = nat n - 1" "0 < i" using i n by linarith
  then show "L ! i = ?R ! i"
  proof cases
    case 1
    have "(n - 1 + int i) mod n = n - 1" using 1 n by (subst mod_pos_pos_trivial) auto
    moreover have "(N - n + 2 + (n - 1)) mod N = 1" using n by (simp add: algebra_simps)
    ultimately show ?thesis using to_old [of "n - 1" 1] 1 by simp
  next
    case 2
    have "(n - 1 + int i) mod n = int i - 1" using 2 n i by (simp add: mod_one_wrap)
    moreover have "(N - n + 2 + (int i - 1)) mod N = N - n + 1 + int i" using 2 n by simp
    moreover have "nat (N - n + 1 + int i) = nat (N - n + 2) + (i - 1)" using 2 n by linarith
    ultimately have "L ! i = drop (nat (N - n + 2)) R ! (i - 1)"
      using to_old [of "int i - 1" "N - n + 1 + int i"] 2 n len by simp
    moreover have "i - 1 < length (drop (nat (N - n + 2)) R)" "nat (N - n + 2) \<le> length R"
      using 2 n len by simp_all
    ultimately show ?thesis using 2 by (simp add: nth_append)
  next
    case 3
    have "(n - 1 + int i) mod n = int i - 1" using 3 n i by (simp add: mod_one_wrap)
    moreover have "(N - n + 2 + (int i - 1)) mod N = 0" using 3 n by simp
    ultimately have "L ! i = R ! 0" using to_old [of "int i - 1" 0] by simp
    moreover have "length (drop (nat (N - n + 2)) R) = i - 1" using 3 n len by simp
    ultimately show ?thesis using 3 by (simp add: nth_append)
  qed
qed

text \<open>
  C14. Shrinking a full history to \<open>n\<close> does not keep the \<open>n\<close> newest samples: it keeps the newest
  \<open>n - 2\<close>, puts the second oldest sample in front of them and the very oldest one at the end,
  where the newest belongs. (A history counts as full when its second oldest slot is not 0.)
\<close>

theorem shrink_full_history:
  assumes ok: "ring_ok s" and n: "2 \<le> n" "n < arraySize s" and full: "ring s ! 1 \<noteq> 0"
  shows "\<exists>s'. Sampler_setHistorySize n s = Inr s' \<and> ring_ok s' \<and> arraySize s' = n \<and>
    ring s' = [ring s ! 1] @ drop (nat (arraySize s - n + 2)) (ring s) @ [ring s ! 0]"
proof -
  note d = ring_okD [OF ok]
  let ?N = "arraySize s" and ?r = "recentIndex s"
  let ?f = "\<lambda>i. (?N + (?r - n + 2) + i) mod ?N"
  have n0: "0 < n" using n by simp
  obtain p h where b: "heap_ok h" "p \<noteq> 0" "p \<noteq> recent s" "h_live h p" "h_len h p = n" "h_live h (recent s)"
    and src: "\<And>k. 0 \<le> k \<Longrightarrow> k < ?N \<Longrightarrow> h_read h (recent s) k = Inr (slot s k)"
    and run: "Sampler_setHistorySize n s = (if slot s (probe_index s) = 0
       then rbind (for_range 0 (probe_index s) (hs.copy_body p (recent s) (\<lambda>i. i)) h)
              (\<lambda>h'. replace_recent n ?r p h' s)
       else rbind (for_range 0 n (hs.copy_body p (recent s) ?f) h) (\<lambda>h'. replace_recent n (n - 1) p h' s))"
    using shrink_start [OF ok n0 n(2)] by metis
  have nz: "slot s (probe_index s) \<noteq> 0" using full n probe_ring [OF ok] by simp
  have "0 \<le> ?f i \<and> ?f i < ?N" for i using d(4) by simp
  then have rd: "h_read h (recent s) (?f i) = Inr (slot s (?f i))" for i using src by blast
  have side: "n \<le> max_cells" "n \<le> n" "0 \<le> n" "0 \<le> n - 1" "n - 1 < n" using n d(5) by simp_all
  obtain s' where s': "rbind (for_range 0 n (hs.copy_body p (recent s) ?f) h)
        (\<lambda>h'. replace_recent n (n - 1) p h' s) = Inr s'"
      "s' = s\<lparr>arraySize := n, recentIndex := n - 1, recent := p, hp := hp s'\<rparr>" "heap_ok (hp s')"
      "h_live (hp s') p" "h_len (hp s') p = n"
      "\<And>i. h_read (hp s') p i = (if 0 \<le> i \<and> i < n then Inr (slot s (?f i)) else h_read h p i)"
    using copy_replaced [where f = ?f and g = "\<lambda>i. slot s (?f i)", OF ok b n0 side rd]
    by (elim exE conjE) (rule that, assumption+, blast)
  have rd': "h_read (hp s') p i = Inr (slot s (?f i))" if "0 \<le> i" "i < n" for i
    using s'(6) that by simp
  note g = resized_ring_ok [OF s'(2-5) n0 side(1,4,5) rd']
  note f = setHistorySize_fields [OF s'(2)]
  have old: "slot s (?f i) = ring s ! nat ((?N - n + 2 + i) mod ?N)" if "0 \<le> i" for i
  proof -
    have "?f i = (?r + (?N - n + 2 + i) mod ?N) mod ?N" by (simp add: mod_simps algebra_simps)
    then show ?thesis using d(4) by (simp add: ring_nth)
  qed
  have "ring s' ! i = ring s ! nat ((?N - n + 2 + (n - 1 + int i) mod n) mod ?N)" if i: "i < nat n" for i
    using i n0 old [of "(n - 1 + int i) mod n"] by (simp add: ring_nth f g(2))
  then have "ring s' = [ring s ! 1] @ drop (nat (?N - n + 2)) (ring s) @ [ring s ! 0]"
    using n d(4) by (intro shrunk_list) (simp_all add: f)
  then show ?thesis using s'(1) g(1) f(1) run nz by auto
qed

text \<open>A concrete history for the witnesses: its cells and the index written next.\<close>

definition demo :: "rat list \<Rightarrow> int \<Rightarrow> sampler" where
  "demo xs ri = sampler_start\<lparr>arraySize := int (length xs), recentIndex := ri, recent := 1,
     historyCount := int (length xs), pStats := LiveBlock,
     hp := \<lparr>block = (\<lambda>_. None)(1 := Some (map Some xs)), fresh = 2\<rparr>\<rparr>"

lemma demo_ok:
  assumes "0 \<le> ri" "ri < int (length xs)" "int (length xs) \<le> max_cells"
  shows "ring_ok (demo xs ri)"
  by (rule ring_okI)
    (use assms in \<open>auto simp: demo_def heap_ok_def h_live_def h_len_def h_read_def in_range_def aread_def\<close>)

lemma demo_fields: "arraySize (demo xs ri) = int (length xs)" "recentIndex (demo xs ri) = ri"
  "historyCount (demo xs ri) = int (length xs)" "pStats (demo xs ri) = LiveBlock"
  by (simp_all add: demo_def)

lemma demo_slot: "0 \<le> k \<Longrightarrow> k < int (length xs) \<Longrightarrow> slot (demo xs ri) k = xs ! nat k"
  by (simp add: slot_def demo_def h_read_def aread_def in_range_def nat_less_iff)

lemma demo_ring:
  assumes "0 \<le> ri" "ri < int (length xs)"
  shows "ring (demo xs ri) = drop (nat ri) xs @ take (nat ri) xs"
proof (rule nth_equalityI)
  show "length (ring (demo xs ri)) = length (drop (nat ri) xs @ take (nat ri) xs)"
    using assms by (simp add: demo_fields)
  fix i assume "i < length (ring (demo xs ri))"
  then have i: "i < length xs" by (simp add: demo_fields)
  have "0 < int (length xs)" using i by linarith
  note q = mod_slot [OF this, of "ri + int i"]
  have "ring (demo xs ri) ! i = xs ! nat ((ri + int i) mod int (length xs))"
    using i demo_slot [of "(ri + int i) mod int (length xs)" xs ri] q by (simp add: ring_nth demo_fields)
  also have "\<dots> = (drop (nat ri) xs @ take (nat ri) xs) ! i"
  proof (cases "ri + int i < int (length xs)")
    case True
    then have "i < length xs - nat ri" "nat (ri + int i) = nat ri + i" using assms by linarith+
    then show ?thesis using True assms by (simp add: nth_append)
  next
    case False
    then have "(ri + int i) mod int (length xs) = ri + int i - int (length xs)"
      using assms i by (simp add: mod_one_wrap)
    moreover have "\<not> i < length xs - nat ri" "nat (ri + int i - int (length xs)) = i - (length xs - nat ri)"
      using False assms i by linarith+
    moreover have "take (nat ri) xs ! (i - (length xs - nat ri)) = xs ! (i - (length xs - nat ri))"
      using False assms i by (intro nth_take) linarith
    ultimately show ?thesis by (simp only: nth_append length_drop if_False)
  qed
  finally show "ring (demo xs ri) ! i = (drop (nat ri) xs @ take (nat ri) xs) ! i" .
qed

theorem shrink_full_history_witness:
  "\<exists>s'. Sampler_setHistorySize 3 (demo [1, 2, 3, 4, 5] 2) = Inr s' \<and>
    ring (demo [1, 2, 3, 4, 5] 2) = [3, 4, 5, 1, 2] \<and> ring s' = [4, 2, 3]"
proof -
  have r: "ring (demo [1, 2, 3, 4, 5] 2) = [3, 4, 5, 1, 2]" by (simp add: demo_ring)
  have "ring_ok (demo [1, 2, 3, 4, 5] 2)" by (rule demo_ok) (simp_all add: max_cells_def)
  from shrink_full_history [OF this, of 3] show ?thesis by (simp add: demo_fields r) blast
qed

text \<open>A new block holds no values.\<close>

lemma malloc_uninit:
  "h_malloc n h = (p, h') \<Longrightarrow> p \<noteq> 0 \<Longrightarrow> 0 \<le> n \<Longrightarrow> n \<le> max_cells \<Longrightarrow> 0 \<le> i \<Longrightarrow> i < n \<Longrightarrow>
   h_read h' p i = Inl Uninitialised"
  using size_cells_id [of n]
  by (auto simp: h_malloc_def h_read_def aread_def in_range_def nat_less_iff split: if_splits)

text \<open>
  C23. Shrinking a history that is not full is never safe but for one size: with \<open>m\<close> the index
  of the probed slot (one past the slot written next), a new size below \<open>m\<close> writes past the
  new block, and after a larger one the report printed in the same iteration already reads a
  cell that was never written; only \<open>n = m\<close> leaves neither.
\<close>

theorem shrink_partial_history:
  assumes ok: "ring_ok s" and n: "0 < n" "n < arraySize s" and empty: "slot s (probe_index s) = 0"
  shows "(n < probe_index s \<longrightarrow> Sampler_setHistorySize n s = Inl OutOfBounds) \<and>
    (probe_index s \<le> n \<longrightarrow> (\<exists>s'. Sampler_setHistorySize n s = Inr s' \<and>
       (\<forall>i. 0 \<le> i \<and> i < probe_index s \<longrightarrow> slot s' i = slot s i) \<and>
       (probe_index s < n \<longrightarrow> print_history s' = Inl Uninitialised)))"
proof -
  note d = ring_okD [OF ok]
  let ?m = "probe_index s"
  have m: "0 \<le> ?m" "?m < arraySize s" using probe_range [OF ok] by simp_all
  obtain p h where ph: "h_malloc n (hp s) = (p, h)"
    and b: "heap_ok h" "p \<noteq> 0" "p \<noteq> recent s" "h_live h p" "h_len h p = n" "h_live h (recent s)"
    and src: "\<And>k. 0 \<le> k \<Longrightarrow> k < arraySize s \<Longrightarrow> h_read h (recent s) k = Inr (slot s k)"
    and run: "Sampler_setHistorySize n s = rbind (for_range 0 ?m (hs.copy_body p (recent s) (\<lambda>i. i)) h)
              (\<lambda>h'. replace_recent n (recentIndex s) p h' s)"
    using shrink_start [OF ok n] empty by metis
  have nm: "n \<le> max_cells" "0 \<le> n" using n d(5) by simp_all
  have "Sampler_setHistorySize n s = Inl OutOfBounds" if "n < ?m"
  proof -
    have "for_range 0 ?m (hs.copy_body p (recent s) (\<lambda>i. i)) h = Inl OutOfBounds"
      by (rule hs.copy_loop_overrun [OF b(3)]) (use b that n m src in auto)
    then show ?thesis by (simp add: run)
  qed
  moreover have "\<exists>s'. Sampler_setHistorySize n s = Inr s' \<and>
       (\<forall>i. 0 \<le> i \<and> i < ?m \<longrightarrow> slot s' i = slot s i) \<and>
       (?m < n \<longrightarrow> print_history s' = Inl Uninitialised)" if le: "?m \<le> n"
  proof -
    have "\<exists>h1. for_range 0 ?m (hs.copy_body p (recent s) (\<lambda>i. i)) h = Inr h1 \<and>
        hs.copied p (recent s) (\<lambda>i. i) 0 ?m h h1"
      by (rule hs.copy_loop [OF b(3)]) (use b le m src in auto)
    then obtain h1 where h1: "for_range 0 ?m (hs.copy_body p (recent s) (\<lambda>i. i)) h = Inr h1"
        "hs.copied p (recent s) (\<lambda>i. i) 0 ?m h h1" by blast
    have ok1: "heap_ok h1" using heap_ok_copy_loop h1(1) b(1) unfolding copy_cell_body by blast
    have "h_live h1 (recent s)" using h1(2) b(6) by (simp add: hs.copied_def)
    from replace_recent_runs [OF ok1 this b(3,2), of n "recentIndex s"]
    obtain h' where h': "replace_recent n (recentIndex s) p h1 s =
          Inr (s\<lparr>arraySize := n, recentIndex := recentIndex s, recent := p, hp := h'\<rparr>)"
        "\<And>i. h_read h' p i = h_read h1 p i" by blast
    let ?s = "s\<lparr>arraySize := n, recentIndex := recentIndex s, recent := p, hp := h'\<rparr>"
    have rd: "h_read h' p i = (if 0 \<le> i \<and> i < ?m then Inr (slot s i) else h_read h p i)" for i
      using h'(2) h1(2) src m by (simp add: hs.copied_def)
    have "slot ?s i = slot s i" if "0 \<le> i" "i < ?m" for i using rd [of i] that by (simp add: slot_def)
    moreover have "print_history ?s = Inl Uninitialised" if lt: "?m < n"
    proof -
      let ?q = "(recentIndex s + 1) mod n"
      have q: "0 \<le> ?q" "?q < n" using n by simp_all
      have "\<not> ?q < ?m"
      proof (cases "recentIndex s + 1 = arraySize s")
        case True then show ?thesis using q by (simp add: probe_index_def)
      next
        case False
        then have "?m = recentIndex s + 1" using d(6,7) by (simp add: probe_index_def)
        then show ?thesis using lt d(6) by simp
      qed
      then have "h_read h' p ?q = Inl Uninitialised"
        using rd [of ?q] malloc_uninit [OF ph b(2) nm(2,1) q] by simp
      then show ?thesis using d(6) n(1) by (simp add: print_history_def)
    qed
    ultimately show ?thesis using run h1(1) h'(1) by (intro exI [of _ ?s]) simp
  qed
  ultimately show ?thesis by blast
qed

theorem shrink_partial_history_witness:
  "Sampler_setHistorySize 2 (demo [1, 2, 0, 0, 0] 2) = Inl OutOfBounds \<and>
   (\<exists>s'. Sampler_setHistorySize 4 (demo [1, 2, 0, 0, 0] 2) = Inr s' \<and> print_history s' = Inl Uninitialised)"
proof -
  have ok: "ring_ok (demo [1, 2, 0, 0, 0] 2)" by (rule demo_ok) (simp_all add: max_cells_def)
  have p: "probe_index (demo [1, 2, 0, 0, 0] 2) = 3" by (simp add: probe_index_def demo_fields)
  have z: "slot (demo [1, 2, 0, 0, 0] 2) 3 = 0" by (simp add: demo_slot)
  show ?thesis
    using shrink_partial_history [OF ok, of 2] shrink_partial_history [OF ok, of 4] z by (auto simp: p demo_fields)
qed

text \<open>Growing: the copy, the zeros, and the ring that results.\<close>

lemma grow_runs:
  assumes ok: "ring_ok s" and n: "arraySize s < n" "n \<le> max_cells"
  shows "\<exists>s' p. Sampler_setHistorySize n s = Inr s' \<and> ring_ok s' \<and>
    s' = s\<lparr>arraySize := n, recentIndex := recentIndex s, recent := p, hp := hp s'\<rparr> \<and>
    (\<forall>i. h_read (hp s') (recent s) i = Inl UseAfterFree) \<and>
    (\<forall>i. 0 \<le> i \<and> i < n \<longrightarrow> slot s' i = (if i < arraySize s then slot s i else 0))"
proof -
  note d = ring_okD [OF ok]
  let ?N = "arraySize s"
  obtain p h where ph: "h_malloc n (hp s) = (p, h)" by fastforce
  have nn: "0 \<le> n" "n \<le> max_cells" using n d(4) by simp_all
  note b = fresh_block [OF ok nn ph]
  have "\<exists>h1. for_range 0 ?N (hs.copy_body p (recent s) (\<lambda>i. i)) h = Inr h1 \<and>
      hs.copied p (recent s) (\<lambda>i. i) 0 ?N h h1"
    by (rule hs.copy_loop [OF b(3)]) (use b n d(4) in auto)
  then obtain h1 where h1: "for_range 0 ?N (hs.copy_body p (recent s) (\<lambda>i. i)) h = Inr h1"
      "hs.copied p (recent s) (\<lambda>i. i) 0 ?N h h1" by blast
  have ok1: "heap_ok h1" using heap_ok_copy_loop h1(1) b(1) unfolding copy_cell_body by blast
  have l1: "n \<le> h_len h1 p" using h1(2) b(5) by (simp add: hs.copied_def)
  obtain h2 where h2: "for_range ?N n (zero_cell p) h1 = Inr h2" "zeroed p ?N n h1 h2"
    using zero_loop [OF ok1 _ _ l1, of ?N] d(4) n(1) by auto
  have ok2: "heap_ok h2" "h_live h2 (recent s)"
    using h2(2) h1(2) b(6) by (simp_all add: zeroed_def hs.copied_def)
  obtain h' where h': "replace_recent n (recentIndex s) p h2 s =
        Inr (s\<lparr>arraySize := n, recentIndex := recentIndex s, recent := p, hp := h'\<rparr>)" "heap_ok h'"
      "\<forall>i. h_read h' (recent s) i = Inl UseAfterFree" "\<forall>i. h_read h' p i = h_read h2 p i"
      "h_len h' p = h_len h2 p" "h_live h' p = h_live h2 p"
    using replace_recent_runs [OF ok2 b(3,2)] by blast
  let ?s = "s\<lparr>arraySize := n, recentIndex := recentIndex s, recent := p, hp := h'\<rparr>"
  have run: "Sampler_setHistorySize n s = Inr ?s"
    using n h1(1) h2(1) h'(1) by (simp add: Sampler_setHistorySize_def grow_history_def ph copy_cell_body)
  have rd: "h_read h' p i = Inr (if i < ?N then slot s i else 0)" if "0 \<le> i" "i < n" for i
    using that h'(4) h2(2) h1(2) b(8) by (auto simp: zeroed_def hs.copied_def)
  have "h_live h' p" "h_len h' p = n" using h' h2(2) h1(2) b(4,5) by (simp_all add: zeroed_def hs.copied_def)
  then have "ring_ok ?s" by (intro ring_okI) (use h'(2) d n rd in auto)
  moreover have "slot ?s i = (if i < ?N then slot s i else 0)" if "0 \<le> i" "i < n" for i
    using rd [OF that] by (intro slot_eqI) simp
  ultimately show ?thesis using run h'(3) by (intro exI [of _ ?s] exI [of _ p]) simp
qed

text \<open>
  C25. Growing keeps every sample but not their order in time: the zeros of the new slots come
  after the samples from the write position to the end of the old block and before the
  samples written since it wrapped, so the newest samples stay newest and older ones stay
  oldest, with a gap of zeros between them.
\<close>

theorem grow_history_ring:
  assumes ok: "ring_ok s" and n: "arraySize s < n" "n \<le> max_cells"
  shows "\<exists>s'. Sampler_setHistorySize n s = Inr s' \<and> ring_ok s' \<and> arraySize s' = n \<and>
    ring s' = take (nat (arraySize s - recentIndex s)) (ring s) @ replicate (nat (n - arraySize s)) 0 @
      drop (nat (arraySize s - recentIndex s)) (ring s)"
proof -
  note d = ring_okD [OF ok]
  let ?N = "arraySize s" and ?r = "recentIndex s"
  let ?c = "nat (?N - ?r)" and ?z = "nat (n - ?N)"
  obtain s' p where run: "Sampler_setHistorySize n s = Inr s'" "ring_ok s'"
      "s' = s\<lparr>arraySize := n, recentIndex := ?r, recent := p, hp := hp s'\<rparr>"
    and sl: "\<forall>i. 0 \<le> i \<and> i < n \<longrightarrow> slot s' i = (if i < ?N then slot s i else 0)"
    using grow_runs [OF assms] by blast
  note f = setHistorySize_fields [OF run(3)]
  have at: "ring s' ! i = (if (?r + int i) mod n < ?N then slot s ((?r + int i) mod n) else 0)"
    if "i < nat n" for i
    using that sl mod_slot [of n "?r + int i"] d(4) n(1) by (simp add: ring_nth f)
  have "ring s' = take ?c (ring s) @ replicate ?z 0 @ drop ?c (ring s)" (is "_ = ?R")
  proof (rule nth_equalityI)
    show "length (ring s') = length ?R" using n d(4,6,7) by (simp add: f)
  next
    fix i assume "i < length (ring s')"
    then have i: "i < nat n" by (simp add: f)
    consider "i < ?c" | "?c \<le> i" "i < ?c + ?z" | "?c + ?z \<le> i" by linarith
    then show "ring s' ! i = ?R ! i"
    proof cases
      case 1
      then have "?r + int i < ?N" "i < nat ?N" using d(6,7) by linarith+
      then show ?thesis using 1 at [OF i] n d(6) by (simp add: nth_append ring_nth)
    next
      case 2
      then have "?N \<le> ?r + int i" "?r + int i < n" using d(6,7) n by linarith+
      then have "ring s' ! i = 0" using at [OF i] d(6) by simp
      moreover have "length (take ?c (ring s)) = ?c" "i - ?c < ?z" using 2 d(6,7) by simp_all
      ultimately show ?thesis using 2 by (simp add: nth_append)
    next
      case 3
      let ?j = "i - ?z"
      have j: "?c \<le> ?j" "?j < nat ?N" "?r + int ?j = ?r + int i - n + ?N" using 3 d(6,7) n i by linarith+
      have "(?r + int i) mod n = ?r + int i - n" using 3 d(6,7) n i by (intro mod_one_wrap) linarith+
      moreover have "?r + int i - n < ?N" using i d(7) by linarith
      moreover have "(?r + int ?j) mod ?N = ?r + int i - n"
        using 3 d(6,7) n i by (subst j(3), subst mod_add_self2, intro mod_pos_pos_trivial) linarith+
      ultimately have "ring s' ! i = ring s ! ?j" using at [OF i] j(2) by (simp add: ring_nth)
      moreover have "\<not> i < ?c" "\<not> i - ?c < ?z" using 3 by linarith+
      then have "?R ! i = drop ?c (ring s) ! (i - ?c - ?z)"
        using d(6,7) by (simp add: nth_append)
      moreover have "drop ?c (ring s) ! (i - ?c - ?z) = ring s ! (?c + (i - ?c - ?z))"
        using d(6,7) by (intro nth_drop) simp
      moreover have "?c + (i - ?c - ?z) = ?j" using 3 by simp
      ultimately show ?thesis by simp
    qed
  qed
  then show ?thesis using run f(1) by blast
qed

theorem grow_history_ring_witness:
  "\<exists>s'. Sampler_setHistorySize 5 (demo [1, 2, 3] 1) = Inr s' \<and> ring (demo [1, 2, 3] 1) = [2, 3, 1] \<and>
    ring s' = [2, 3, 0, 0, 1]"
proof -
  have r: "ring (demo [1, 2, 3] 1) = [2, 3, 1]" by (simp add: demo_ring)
  have "ring_ok (demo [1, 2, 3] 1)" by (rule demo_ok) (simp_all add: max_cells_def)
  from grow_history_ring [OF this, of 5] show ?thesis
    by (simp add: demo_fields r max_cells_def numeral_2_eq_2) blast
qed

section \<open>Reading the history from other threads\<close>

lemma newest_list:
  assumes n: "0 < n" "n \<le> N" and len: "length R = nat N" "length L = nat n"
    and at: "\<And>i. i < nat n \<Longrightarrow> L ! i = f (R ! nat ((N - n + 1 + int i) mod N))"
  shows "L = map f (drop (nat (N - n + 1)) R @ [hd R])" (is "_ = map f ?R")
proof (rule nth_equalityI)
  show "length L = length (map f ?R)" using n len by simp
next
  fix i assume "i < length L"
  then have i: "i < nat n" by (simp add: len)
  show "L ! i = map f ?R ! i"
  proof (cases "i = nat n - 1")
    case True
    then have "(N - n + 1 + int i) mod N = 0" using n by simp
    moreover have "hd R = R ! 0" using n len by (intro hd_conv_nth) (simp flip: length_greater_0_conv)
    moreover have "length (drop (nat (N - n + 1)) R) = i" using True n len by simp
    ultimately show ?thesis using at [OF i] i by (simp add: nth_append)
  next
    case False
    then have "(N - n + 1 + int i) mod N = N - n + 1 + int i" using n i by (intro mod_pos_pos_trivial) linarith+
    moreover have "nat (N - n + 1 + int i) = nat (N - n + 1) + i" using n by linarith
    moreover have "i < length (drop (nat (N - n + 1)) R)" "nat (N - n + 1) \<le> length R"
      using False n i len by simp_all
    ultimately show ?thesis using at [OF i] by (simp add: nth_append)
  qed
qed

lemma get_N_runs:
  assumes ok: "ring_ok s" and n: "0 < n" "n \<le> historyCount s" "n \<le> arraySize s"
  shows "\<exists>p s'. Sampler_get_N n s = Inr (p, s') \<and> p \<noteq> 0 \<and> p \<noteq> recent s \<and> ring s' = ring s \<and>
    s' = s\<lparr>hp := hp s'\<rparr> \<and> ring_ok s' \<and> h_live (hp s') p \<and>
    map (h_read (hp s') p \<circ> int) [0..<nat n] = map Inr (drop (nat (arraySize s - n + 1)) (ring s) @ [hd (ring s)])"
proof -
  note d = ring_okD [OF ok]
  let ?N = "arraySize s" and ?r = "recentIndex s"
  let ?f = "\<lambda>i. (?N + (?r - n + 1) + i) mod ?N"
  obtain p h where ph: "h_malloc n (hp s) = (p, h)" by fastforce
  have nn: "0 \<le> n" "n \<le> max_cells" using n d(5) by simp_all
  note b = fresh_block [OF ok nn ph]
  obtain h1 where h1: "for_range 0 n (zero_cell p) h = Inr h1" "zeroed p 0 n h h1"
    using zero_loop [OF b(1), of 0 n p] nn b(5) by auto
  have src: "h_read h1 (recent s) (?f i) = Inr (slot s (?f i))" for i
    using h1(2) b(3,8) d(4) mod_slot by (simp add: zeroed_def)
  have "n \<le> h_len h1 p" using h1(2) b(5) by (simp add: zeroed_def)
  then have "\<exists>h2. for_range 0 n (hs.copy_body p (recent s) ?f) h1 = Inr h2 \<and> hs.copied p (recent s) ?f 0 n h1 h2"
    by (intro hs.copy_loop [OF b(3)]) (use src nn in auto)
  then obtain h2 where h2: "for_range 0 n (hs.copy_body p (recent s) ?f) h1 = Inr h2"
      "hs.copied p (recent s) ?f 0 n h1 h2" by blast
  have body: "for_range 0 n (\<lambda>i h. rbind (mod_c (?N + (?r - n + 1) + i) ?N) (\<lambda>j. copy_cell p (recent s) (\<lambda>_. j) i h)) h1
      = for_range 0 n (hs.copy_body p (recent s) ?f) h1"
    using n d(4,6) by (intro for_range_cong) (simp add: copy_cell_def hs.copy_body_def)
  have run: "Sampler_get_N n s = Inr (p, s\<lparr>hp := h2\<rparr>)"
    using n h1(1) h2(1) body by (simp add: Sampler_get_N_def ph size_cells_id [OF nn])
  have cells: "h_read h2 (recent s) k = Inr (slot s k)" if "0 \<le> k" "k < ?N" for k
    using h2(2) h1(2) b(3) b(8) [OF that] by (simp add: hs.copied_def zeroed_def)
  have same: "slot (s\<lparr>hp := h2\<rparr>) k = slot s k" if "0 \<le> k" "k < ?N" for k
    using cells [OF that] by (intro slot_eqI) simp
  have ring: "ring (s\<lparr>hp := h2\<rparr>) = ring s"
    using same mod_slot [of ?N] d(4) by (simp add: ring_def)
  have "h_read h2 p (int i) = Inr (ring s ! nat ((?N - n + 1 + int i) mod ?N))" if i: "i < nat n" for i
  proof -
    have "int i < n" using i by linarith
    then have "h_read h2 p (int i) = Inr (slot s (?f (int i)))" using h2(2) src [of "int i"] by (simp add: hs.copied_def)
    moreover have "?f (int i) = (?r + (?N - n + 1 + int i) mod ?N) mod ?N" by (simp add: mod_simps algebra_simps)
    ultimately show ?thesis using d(4) by (simp add: ring_nth)
  qed
  then have "map (h_read h2 p \<circ> int) [0..<nat n] = map Inr (drop (nat (?N - n + 1)) (ring s) @ [hd (ring s)])"
    using n d(4) by (intro newest_list) simp_all
  moreover have "heap_ok h2"
    using h2(1) h1(2) unfolding zeroed_def copy_cell_body [symmetric] by (auto intro: heap_ok_copy_loop)
  then have "ring_ok (s\<lparr>hp := h2\<rparr>)"
    using d(4-7) h2(2) h1(2) b(6,7) cells by (intro ring_okI) (simp_all add: hs.copied_def zeroed_def)
  moreover have "h_live h2 p" using h2(2) h1(2) b(4) by (simp add: hs.copied_def zeroed_def)
  ultimately show ?thesis using run b(2,3) ring by (intro exI [of _ p] exI [of _ "s\<lparr>hp := h2\<rparr>"]) simp
qed

text \<open>
  \<open>Sampler_get_N\<close> is off by one slot: asked for \<open>n\<close> values it returns the newest \<open>n - 1\<close> and
  then, as if it were the newest, the oldest slot (a zero or a stale sample), in a block of
  its own that the caller must free; the history itself is untouched.
\<close>

theorem get_N_off_by_one:
  assumes ok: "ring_ok s" and n: "0 < n" "n \<le> historyCount s" "n \<le> arraySize s"
  shows "\<exists>p s'. Sampler_get_N n s = Inr (p, s') \<and> p \<noteq> 0 \<and> p \<noteq> recent s \<and> ring s' = ring s \<and>
    map (h_read (hp s') p \<circ> int) [0..<nat n] = map Inr (drop (nat (arraySize s - n + 1)) (ring s) @ [hd (ring s)])"
  using get_N_runs [OF assms] by blast

theorem get_N_off_by_one_witness:
  "\<exists>p s'. Sampler_get_N 3 (demo [1, 2, 3, 4, 5] 2) = Inr (p, s') \<and>
     map (h_read (hp s') p \<circ> int) [0..<3] = map Inr [1, 2, 3]"
proof -
  have r: "ring (demo [1, 2, 3, 4, 5] 2) = [3, 4, 5, 1, 2]" by (simp add: demo_ring)
  have "ring_ok (demo [1, 2, 3, 4, 5] 2)" by (rule demo_ok) (simp_all add: max_cells_def)
  from get_N_off_by_one [OF this, of 3] show ?thesis
    by (simp add: demo_fields r) (elim exE conjE, intro exI conjI, assumption+)
qed

text \<open>
  \<open>Sampler_getHistory\<close> does not return a copy: the pointer it hands out is the history
  block, so freeing it as its comment asks makes the sampler's next write a use after free,
  and any change of the history size to a larger one leaves it dangling.
\<close>

theorem getHistory_is_not_a_copy:
  assumes ok: "ring_ok s"
  shows "(\<exists>h. h_free (fst (Sampler_getHistory s)) (hp s) = Inr h \<and>
      store_sample v (s\<lparr>hp := h\<rparr>) = Inl UseAfterFree) \<and>
    (arraySize s < n \<and> n \<le> max_cells \<longrightarrow> (\<exists>s'. Sampler_setHistorySize n s = Inr s' \<and>
      h_read (hp s') (fst (Sampler_getHistory s)) i = Inl UseAfterFree))"
proof -
  note d = ring_okD [OF ok]
  have "recent s \<noteq> 0" using d(2) by (simp add: h_live_def)
  then have "\<exists>h. h_free (fst (Sampler_getHistory s)) (hp s) = Inr h \<and>
      store_sample v (s\<lparr>hp := h\<rparr>) = Inl UseAfterFree"
    using h_free_live [OF d(2)] by (auto simp: Sampler_getHistory_def store_sample_def h_write_def)
  moreover have "\<exists>s'. Sampler_setHistorySize n s = Inr s' \<and> h_read (hp s') (recent s) i = Inl UseAfterFree"
    if "arraySize s < n \<and> n \<le> max_cells" using grow_runs [OF ok, of n] that by blast
  ultimately show ?thesis by (simp add: Sampler_getHistory_def)
qed

theorem getHistory_is_not_a_copy_witness:
  "\<exists>s'. Sampler_setHistorySize 4 (demo [1, 2, 3] 0) = Inr s' \<and> h_read (hp s') 1 0 = Inl UseAfterFree"
proof -
  have "ring_ok (demo [1, 2, 3] 0)" by (rule demo_ok) (simp_all add: max_cells_def)
  from getHistory_is_not_a_copy [OF this, of undefined 4 0]
  show ?thesis by (simp add: demo_fields max_cells_def Sampler_getHistory_def) (simp add: demo_def)
qed

text \<open>
  The shutdown routine runs once: the first call releases the history and the statistics
  block and stops the loop, a second one (the interrupt handler after a \<open>stop\<close> request, or
  the reverse) releases them again.
\<close>

theorem second_shutdown_double_free:
  assumes "ring_ok s" "pStats s = LiveBlock"
  shows "\<exists>s'. Sampler_shutdownRoutine s = Inr s' \<and> \<not> running s' \<and>
    sampler_loop its (s', l) = Inr ([], s', l) \<and> Sampler_shutdownRoutine s' = Inl UseAfterFree"
proof -
  note d = ring_okD [OF assms(1)]
  have nz: "recent s \<noteq> 0" using d(2) by (simp add: h_live_def)
  obtain h where h: "h_free (recent s) (hp s) = Inr h" using h_free_live [OF d(2)] by blast
  then have "block h (recent s) = None" using nz by (auto simp: h_free_def split: option.splits)
  moreover have "sampler_loop its (s\<lparr>running := False, hp := h, pStats := FreedBlock\<rparr>, l) =
      Inr ([], s\<lparr>running := False, hp := h, pStats := FreedBlock\<rparr>, l)"
    by (cases its) simp_all
  ultimately show ?thesis
    using h nz assms(2) by (simp add: Sampler_shutdownRoutine_def free_recent_def free_block_def) (simp add: h_free_def)
qed

theorem second_shutdown_double_free_witness:
  "\<exists>s'. Sampler_shutdownRoutine (demo [1, 2, 3] 0) = Inr s' \<and> Sampler_shutdownRoutine s' = Inl UseAfterFree"
proof -
  have "ring_ok (demo [1, 2, 3] 0)" by (rule demo_ok) (simp_all add: max_cells_def)
  from second_shutdown_double_free [OF this demo_fields(4)] show ?thesis by blast
qed

section \<open>The thread is safe while the history only grows\<close>

lemma print_cells_runs:
  assumes "\<And>i. a \<le> i \<Longrightarrow> i < b \<Longrightarrow> \<exists>j x. f i = Inr j \<and> h_read h p j = Inr x"
  shows "\<exists>xs e. print_cells h p f a b = Inr (xs, e) \<and> a \<le> e"
  using assms
proof (induction h p f a b rule: print_cells.induct)
  case (1 h p f a b)
  show ?case
  proof (cases "a < b")
    case True
    obtain j x where jx: "f a = Inr j" "h_read h p j = Inr x" using "1.prems" [of a] True by auto
    have "\<exists>xs e. print_cells h p f (a + 200) b = Inr (xs, e) \<and> a + 200 \<le> e"
      using "1.prems" by (intro "1.IH" [OF True jx]) auto
    then show ?thesis using jx True by (subst print_cells.simps) auto
  next
    case False
    then show ?thesis by (subst print_cells.simps) simp
  qed
qed

lemma print_history_runs:
  assumes ok: "ring_ok s"
  shows "\<exists>xs. print_history s = Inr xs"
proof -
  note d = ring_okD [OF ok]
  have ex: "\<exists>x. h_read (hp s) (recent s) k = Inr x" if "0 \<le> k" "k < arraySize s" for k
    using d(8) that by blast
  have probe: "mod_c (recentIndex s + 1) (arraySize s) = Inr (probe_index s)"
    using d(4,6) by (simp add: probe_index_def)
  have rp: "h_read (hp s) (recent s) (probe_index s) = Inr (slot s (probe_index s))"
    using d(8) probe_range [OF ok] by blast
  have upto: "\<exists>xs e. print_cells (hp s) (recent s) Inr a (recentIndex s + 1) = Inr (xs, e) \<and> a \<le> e" if "0 \<le> a" for a
    by (rule print_cells_runs) (use that d(6,7) ex in force)
  have "\<exists>xs e. print_cells (hp s) (recent s) (\<lambda>i. mod_c i (arraySize s)) (recentIndex s + 2) (arraySize s)
      = Inr (xs, e) \<and> recentIndex s + 2 \<le> e"
    by (rule print_cells_runs) (use d(4,6) ex mod_slot in force)
  then obtain xs e where e: "print_cells (hp s) (recent s) (\<lambda>i. mod_c i (arraySize s)) (recentIndex s + 2) (arraySize s)
      = Inr (xs, e)" "recentIndex s + 2 \<le> e" by blast
  have m: "mod_c (arraySize s + e) (arraySize s) = Inr (e mod arraySize s)" using d(4,6) e(2) by simp
  have "0 \<le> e mod arraySize s" using d(4) by simp
  then show ?thesis
    using upto [of 0] upto [of "e mod arraySize s"] probe rp e(1) m by (auto simp: print_history_def)
qed

lemma decay_dips_runs:
  "\<exists>d l'. decay_dips (s, l) = Inr (s\<lparr>dipCount := d\<rparr>, l')"
proof -
  have id: "s = s\<lparr>dipCount := dipCount s\<rparr>" by simp
  then show ?thesis
    unfolding decay_dips_def by (auto simp: div_c_def) (metis id)+
qed

text \<open>
  A world in which the potentiometer never turns down: readings from 0 to 4095, the clock of
  the period timer increasing, and each potentiometer reading at least the one before.
\<close>

fun steady_world :: "int \<Rightarrow> int \<Rightarrow> siteration list \<Rightarrow> bool" where
  "steady_world now sz [] = True"
| "steady_world now sz (it # its) =
     (now < clock_ns (markClock it) \<and>
      (case getVoltageReading (file1 it) of Inl _ \<Rightarrow> False | Inr r \<Rightarrow> 0 \<le> r \<and> r \<le> A2D_MAX_READING) \<and>
      (case getVoltageReading (file0 it) of Inl _ \<Rightarrow> False
       | Inr n \<Rightarrow> sz \<le> n \<and> n \<le> 4095 \<and> steady_world (clock_ns (markClock it)) n its))"

lemma every_second_runs:
  assumes ok: "sampler_ok now s" and f: "getVoltageReading f = Inr n" and n: "arraySize s \<le> n" "n \<le> 4095"
  shows "\<exists>r s' l'. every_second f spec (s, l) = Inr (r, s', l') \<and> sampler_ok now s' \<and> arraySize s' = n \<and>
    allTimeCount s' = allTimeCount s"
proof -
  have o: "ring_ok s" "period_ok (timer s)" "s_initialized (timer s)" "lastTimeHack (timer s) \<le> now" "0 \<le> now"
    "pStats s = LiveBlock" "running s" "0 \<le> currentAverage s" "currentAverage s \<le> A2D_VOLTAGE_REF_V"
    using ok by (auto simp: sampler_ok_def)
  obtain s1 where s1: "(if n \<noteq> arraySize s then Sampler_setHistorySize n s else Inr s) = Inr s1" "ring_ok s1"
      "arraySize s1 = n" "timer s1 = timer s" "pStats s1 = pStats s" "running s1 = running s"
      "currentAverage s1 = currentAverage s" "allTimeCount s1 = allTimeCount s"
  proof (cases "n = arraySize s")
    case True then show ?thesis using that o(1) by simp
  next
    case False
    then have "arraySize s < n" "n \<le> max_cells" using n max_cells_val by simp_all
    from grow_runs [OF o(1) this] obtain s1 p where g: "Sampler_setHistorySize n s = Inr s1" "ring_ok s1"
        "s1 = s\<lparr>arraySize := n, recentIndex := recentIndex s, recent := p, hp := hp s1\<rparr>" by blast
    show ?thesis using that [of s1] g(1,2) setHistorySize_fields [OF g(3)] False by simp
  qed
  obtain d l2 where l2: "decay_dips (s1, l) = Inr (s1\<lparr>dipCount := d\<rparr>, l2)" using decay_dips_runs by blast
  let ?s2 = "s1\<lparr>dipCount := d\<rparr>"
  have rk: "ring_ok ?s2" using ring_ok_cong [of ?s2 s1] s1(2) by simp
  obtain tm where tm: "Period_getStatisticsAndClear PERIOD_EVENT_SAMPLE_LIGHT (timer s) = Inr (stats_of (abs_window (timer s)), tm)"
      "period_ok tm" "s_initialized tm" "lastTimeHack tm = lastTimeHack (timer s)"
    using stats_refines [OF o(2,3)] by blast
  obtain xs where xs: "print_history ?s2 = Inr xs" using print_history_runs [OF rk] by blast
  have "ring_ok (?s2\<lparr>timer := tm\<rparr>)" using ring_ok_cong [of "?s2\<lparr>timer := tm\<rparr>" ?s2] rk by simp
  then show ?thesis
    using f s1 l2 tm xs o by (simp add: every_second_def sampler_ok_def)
qed

lemma iteration_runs:
  assumes ok: "sampler_ok now s" and clk: "now < clock_ns (markClock it)"
    and r: "getVoltageReading (file1 it) = Inr r" "0 \<le> r" "r \<le> A2D_MAX_READING"
    and n: "getVoltageReading (file0 it) = Inr n" "arraySize s \<le> n" "n \<le> 4095"
  shows "\<exists>rs s' l'. sampler_iteration it (s, l) = Inr (rs, s', l') \<and> sampler_ok (clock_ns (markClock it)) s' \<and>
    arraySize s' \<le> n \<and> allTimeCount s' = allTimeCount s + 1"
proof -
  obtain s1 l1 where s1: "take_sample (file1 it) (markClock it) (s, l) = Inr (s1, l1)"
      "sampler_ok (clock_ns (markClock it)) s1" "arraySize s1 = arraySize s" "allTimeCount s1 = allTimeCount s + 1"
    using take_sample_refines [OF ok r clk] by blast
  show ?thesis
  proof (cases "getTimeInMs (nowClock it) \<ge> currentTime l1 + 1000")
    case True
    have "arraySize s1 \<le> n" using s1(3) n(2) by simp
    then show ?thesis
      using every_second_runs [OF s1(2) n(1) _ n(3), of "endClock it" l1] s1(1,4) True
      by (auto simp: sampler_iteration_def)
  next
    case False
    then show ?thesis using s1 n(2) by (auto simp: sampler_iteration_def)
  qed
qed

lemma sampler_loop_runs:
  assumes "sampler_ok now s" "arraySize s \<le> sz" "steady_world now sz its"
  shows "\<exists>rs s' l' now'. sampler_loop its (s, l) = Inr (rs, s', l') \<and> sampler_ok now' s'"
  using assms
proof (induction its arbitrary: now sz s l)
  case (Cons it its)
  obtain r n where r: "getVoltageReading (file1 it) = Inr r" "0 \<le> r" "r \<le> A2D_MAX_READING"
    and n: "getVoltageReading (file0 it) = Inr n" "sz \<le> n" "n \<le> 4095"
    and clk: "now < clock_ns (markClock it)" and w: "steady_world (clock_ns (markClock it)) n its"
    using Cons.prems(3) by (auto split: sum.splits)
  have "arraySize s \<le> n" using Cons.prems(2) n(2) by simp
  from iteration_runs [OF Cons.prems(1) clk r n(1) this n(3), of l] obtain rs s2 l2
    where s2: "sampler_iteration it (s, l) = Inr (rs, s2, l2)" "sampler_ok (clock_ns (markClock it)) s2" "arraySize s2 \<le> n" by blast
  have run: "running s" using Cons.prems(1) by (simp add: sampler_ok_def)
  from Cons.IH [OF s2(2,3) w, of l2] show ?case using s2(1) run by auto
qed auto

text \<open>
  C8. The sampling thread is memory safe and never fails while the potentiometer does not turn
  down: from program start, through any number of samples, reports and growing resizes, no
  access leaves its block, nothing released or never written is read, no division by zero
  and no failed assertion occurs, and the thread is still running with a consistent state.
\<close>

theorem sampler_thread_safe:
  assumes "getVoltageReading v1 = Inr r" "getVoltageReading v0 = Inr n" "0 \<le> n" "n \<le> 4095"
    and "steady_world 0 (max 1 n) its"
  shows "\<exists>rs s l. samplerThread v1 v0 spec its sampler_start = Inr (rs, s, l) \<and> ring_ok s \<and> running s"
proof -
  obtain s l where i: "sampler_init v1 v0 spec sampler_start = Inr (s, l)" "sampler_ok 0 s"
      "arraySize s = (if n = 0 then 1 else n)"
    using sampler_init_ok [OF assms(1-4), of spec] by blast
  have "arraySize s \<le> max 1 n" using i(3) by simp
  from sampler_loop_runs [OF i(2) this assms(5), of l] show ?thesis
    using i(1) by (auto simp: samplerThread_def sampler_ok_def)
qed

theorem sampler_thread_safe_witness:
  "\<exists>rs s l. samplerThread (Some (show_int 7)) (Some (show_int 2)) \<lparr>tv_sec = 1, tv_nsec = 0\<rparr>
     [\<lparr>file1 = Some (show_int 100), markClock = \<lparr>tv_sec = 1, tv_nsec = 5\<rparr>, nowClock = \<lparr>tv_sec = 3, tv_nsec = 0\<rparr>,
       file0 = Some (show_int 9), endClock = \<lparr>tv_sec = 3, tv_nsec = 0\<rparr>\<rparr>,
      \<lparr>file1 = Some (show_int 4095), markClock = \<lparr>tv_sec = 3, tv_nsec = 5\<rparr>, nowClock = \<lparr>tv_sec = 3, tv_nsec = 7\<rparr>,
       file0 = Some (show_int 9), endClock = \<lparr>tv_sec = 3, tv_nsec = 9\<rparr>\<rparr>] sampler_start = Inr (rs, s, l) \<and> ring_ok s"
proof -
  note t = sampler_thread_safe [OF reading_text reading_text [of 2], of "[\<lparr>file1 = Some (show_int 100),
      markClock = \<lparr>tv_sec = 1, tv_nsec = 5\<rparr>, nowClock = \<lparr>tv_sec = 3, tv_nsec = 0\<rparr>,
      file0 = Some (show_int 9), endClock = \<lparr>tv_sec = 3, tv_nsec = 0\<rparr>\<rparr>,
      \<lparr>file1 = Some (show_int 4095), markClock = \<lparr>tv_sec = 3, tv_nsec = 5\<rparr>, nowClock = \<lparr>tv_sec = 3, tv_nsec = 7\<rparr>,
      file0 = Some (show_int 9), endClock = \<lparr>tv_sec = 3, tv_nsec = 9\<rparr>\<rparr>]" 7 "\<lparr>tv_sec = 1, tv_nsec = 0\<rparr>"]
  show ?thesis using t by (auto simp: reading_text clock_ns_def A2D_MAX_READING_def)
qed

end
