(* ===== verification/UdpListen.thy ===== *)
theory UdpListen
  imports Sampler CStrings
begin

text \<open>
  The command server of the light sampler (\<open>work/as2/udpListen.c\<close>): it receives a datagram,
  answers it from the sampler's queries and sends the reply. Replies are built in a buffer of
  1024 bytes; a write past it is a failure. The request and reply buffers are automatic
  variables of the loop body that the code expects to keep their contents from one turn to the
  next, which is how they are modelled; reading one that was never written is a failure.
  Numbers beyond the range of \<open>int\<close> in a request are outside the model.
\<close>

section \<open>State\<close>

definition MSG_MAX_LEN :: int where "MSG_MAX_LEN = 1024"

record udp =
  udpRunning :: bool
  messageTx :: "string option"     \<comment> \<open>the reply buffer, if it was ever written\<close>
  prevMsg :: "string option"
  enterPressed :: bool

definition udp_start :: udp where
  "udp_start = \<lparr>udpRunning = True, messageTx = None, prevMsg = None, enterPressed = False\<rparr>"

section \<open>The reply buffer\<close>

definition put_string :: "int \<Rightarrow> string \<Rightarrow> string res" where
  \<comment> \<open>\<open>strcpy\<close> or \<open>sprintf\<close> into a buffer of the given size\<close>
  "put_string cap s = (if int (length s) < cap then Inr s else Inl OutOfBounds)"

definition strcat_tx :: "string \<Rightarrow> string \<Rightarrow> string res" where
  "strcat_tx tx s = put_string MSG_MAX_LEN (tx @ s)"

text \<open>\<open>sendNumList\<close>: the values of one datagram, then all datagrams.\<close>

definition list_item :: "rat heap \<Rightarrow> ptr \<Rightarrow> int \<Rightarrow> string \<Rightarrow> string res" where
  "list_item h N_list i tx =
     rbind (if i smod 20 = 0 then strcat_tx tx ''\<newline>'' else Inr tx) (\<lambda>tx1.
     rbind (h_read h N_list i) (\<lambda>v.
     rbind (put_string 317 (fmt_5_3f v @ '', '')) (\<lambda>temp.
     strcat_tx tx1 temp)))"

function sendNumList :: "rat heap \<Rightarrow> ptr \<Rightarrow> int \<Rightarrow> int \<Rightarrow> string option \<Rightarrow> (string list \<times> string option) res" where
  "sendNumList h N_list n j tx = (if j < n
     then rbind (h_read h N_list j) (\<lambda>v.
          rbind (put_string 317 (fmt_5_3f v @ ''  '')) (\<lambda>temp.
          rbind (put_string MSG_MAX_LEN temp) (\<lambda>tx1.
          rbind (for_range (j + 1) (min (j + 1 + 200) n) (list_item h N_list) tx1) (\<lambda>tx2.
          rbind (strcat_tx tx2 ''\<newline>'') (\<lambda>tx3.
          rbind (sendNumList h N_list n (j + 1 + 200) (Some tx3)) (\<lambda>(out, tx4).
          Inr (tx3 # out, tx4)))))))
     else Inr ([], tx))"
  by pat_completeness auto
termination
  by (relation "measure (\<lambda>(h, p, n, j, tx). nat (n - j))") auto

declare sendNumList.simps [simp del]

section \<open>Requests\<close>

definition help_text :: string where
  "help_text =
     ''Accepted command examples:\<newline>'' @
     ''count -- display total number of samples taken.\<newline>'' @
     ''length -- display number of samples in history (both max, and current).\<newline>'' @
     ''history -- display the full sample history being saved.\<newline>'' @
     ''get N -- display the N most recent history values.\<newline>'' @
     ''dips -- display number of dips.\<newline>'' @
     ''stop -- cause the server program to end.\<newline>'' @
     ''<enter> -- repeat last command.\<newline>''"

definition reply :: "string \<Rightarrow> udp \<Rightarrow> sampler \<Rightarrow> (string list \<times> udp \<times> sampler) res" where
  \<comment> \<open>the reply written to the buffer and sent\<close>
  "reply msg u s = rbind (put_string MSG_MAX_LEN msg) (\<lambda>tx. Inr ([tx], u\<lparr>messageTx := Some tx\<rparr>, s))"

definition handleGet :: "string \<Rightarrow> udp \<Rightarrow> sampler \<Rightarrow> (string list \<times> udp \<times> sampler) res" where
  "handleGet messageRx u s =
     (if length messageRx < 4 then Inl Uninitialised \<comment> \<open>\<open>messageRx + 4\<close> is past the terminator\<close>
      else
        (let r = scan_d (drop 4 messageRx); valid = scan_count r in
         if valid \<noteq> 0
         then (case r of
             ScanInt n \<Rightarrow>
               (let maxHistory = Sampler_getNumSamplesInHistory s in
                if maxHistory < n
                then reply (''Please enter a number between 1 and '' @ show_int maxHistory @ ''\<newline>'') u s
                else rbind (Sampler_get_N n s) (\<lambda>(N_list, s1).
                     rbind (sendNumList (hp s1) N_list n 0 (messageTx u)) (\<lambda>(out, tx).
                     rbind (h_free N_list (hp s1)) (\<lambda>h.
                     Inr (out, u\<lparr>messageTx := tx\<rparr>, s1\<lparr>hp := h\<rparr>)))))
           | _ \<Rightarrow> Inl Uninitialised) \<comment> \<open>\<open>n\<close> was not assigned\<close>
         else reply ''N is not a valid number'' u s))"

definition handleRequest :: "string \<Rightarrow> udp \<Rightarrow> sampler \<Rightarrow> (string list \<times> udp \<times> sampler) res" where
  "handleRequest messageRx u s =
     (if starts_with ''help'' messageRx then reply help_text u s
      else if starts_with ''count'' messageRx
      then reply (''Number of samples taken = '' @ show_int (Sampler_getNumSamplesTaken s) @ ''\<newline>'') u s
      else if starts_with ''get'' messageRx then handleGet messageRx u s
      else if starts_with ''history'' messageRx
      then (let (hist, n) = Sampler_getHistory s in
            rbind (sendNumList (hp s) hist n 0 (messageTx u)) (\<lambda>(out, tx).
            Inr (out, u\<lparr>messageTx := tx\<rparr>, s)))
      else if starts_with ''length'' messageRx
      then reply (''History can hold '' @ show_int (Sampler_getHistorySize s) @
             '' samples.\<newline>Currently holding '' @ show_int (Sampler_getNumSamplesInHistory s) @ '' samples.\<newline>'') u s
      else if starts_with ''dips'' messageRx
      then reply (''Dips: '' @ show_int (Sampler_getNumDips s) @ ''\<newline>'') u s
      else if starts_with ''stop'' messageRx
      then rbind (Sampler_shutdownRoutine s) (\<lambda>s1.
           rbind (reply ''Server has been shut down!'' u s1) (\<lambda>(out, u1, s2).
           Inr (out, u1\<lparr>udpRunning := False\<rparr>, s2)))
      else (case messageTx u of
          None \<Rightarrow> Inl Uninitialised
        | Some tx \<Rightarrow> Inr ([tx], u, s)))" \<comment> \<open>whatever the buffer holds is sent\<close>

text \<open>One turn of the receiving loop: what \<open>recvfrom\<close> delivers is its argument.\<close>

definition udp_turn :: "string option \<Rightarrow> udp \<Rightarrow> sampler \<Rightarrow> (string list \<times> udp \<times> sampler) res" where
  "udp_turn received u s =
     (case received of
        None \<Rightarrow> Inl OutOfBounds \<comment> \<open>\<open>messageRx[-1] = 0\<close>\<close>
      | Some bytes \<Rightarrow>
          (let messageRx = cstring bytes in
           if length bytes = 1
           then (case prevMsg u of
               None \<Rightarrow> Inl Uninitialised
             | Some m \<Rightarrow> rbind (handleRequest m u s) (\<lambda>(out, u1, s1).
                 Inr (out, u1\<lparr>enterPressed := True\<rparr>, s1)))
           else handleRequest messageRx (u\<lparr>prevMsg := Some messageRx\<rparr>) s))"

text \<open>
  The loop over the datagrams received. A turn that finds \<open>enterPressed\<close> set clears it and
  goes round again without receiving.
\<close>

fun udpListenThread :: "string option list \<Rightarrow> udp \<Rightarrow> sampler \<Rightarrow> (string list \<times> udp \<times> sampler) res" where
  "udpListenThread [] u s = Inr ([], u, s)"
| "udpListenThread (r # rs) u s =
     (if udpRunning u
      then (let u0 = (if enterPressed u then u\<lparr>enterPressed := False\<rparr> else u) in
            rbind (udp_turn r u0 s) (\<lambda>(out, u1, s1).
            rbind (udpListenThread rs u1 s1) (\<lambda>(out', u2, s2). Inr (out @ out', u2, s2))))
      else Inr ([], u, s))"

section \<open>What a list reply says, and when it fits\<close>

definition newline_before :: "nat \<Rightarrow> string" where
  "newline_before i = (if i mod 20 = 0 then ''\<newline>'' else [])"

fun items_text :: "nat \<Rightarrow> rat list \<Rightarrow> string" where
  "items_text i [] = []"
| "items_text i (v # vs) = newline_before i @ fmt_5_3f v @ '', '' @ items_text (Suc i) vs"

definition list_text :: "rat list \<Rightarrow> string" where
  "list_text vs = fmt_5_3f (hd vs) @ ''  '' @ items_text 1 (tl vs) @ ''\<newline>''"

definition printable :: "rat list \<Rightarrow> bool" where
  \<comment> \<open>voltages that print in five characters\<close>
  "printable vs \<longleftrightarrow> (\<forall>v \<in> set vs. 0 \<le> v \<and> v \<le> 9999 / 1000)"

lemma items_text_snoc:
  "items_text i (vs @ [v]) = items_text i vs @ newline_before (i + length vs) @ fmt_5_3f v @ '', ''"
  by (induction vs arbitrary: i) simp_all

lemma Suc_div_20: "Suc k div 20 = k div 20 + (if Suc k mod 20 = 0 then 1 else 0)"
  by (simp add: div_Suc)

lemma length_items_text:
  "printable vs \<Longrightarrow> length (items_text 1 vs) = 7 * length vs + length vs div 20"
proof (induction vs rule: rev_induct)
  case (snoc v vs)
  then have "printable vs" "length (fmt_5_3f v) = 5"
    by (auto simp: printable_def intro: length_fmt_5_3f)
  then show ?case using snoc.IH Suc_div_20 [of "length vs"]
    by (simp add: items_text_snoc newline_before_def)
qed simp

text \<open>One turn of the inner loop, and the loop up to any point where the text still fits.\<close>

definition head_text :: "rat \<Rightarrow> string" where
  "head_text v = fmt_5_3f v @ ''  ''"

definition partial_text :: "rat list \<Rightarrow> nat \<Rightarrow> string" where
  \<comment> \<open>the text after the first value and \<open>k\<close> more\<close>
  "partial_text vs k = head_text (hd vs) @ items_text 1 (take k (tl vs))"

lemma printable_length: "printable vs \<Longrightarrow> k < length vs \<Longrightarrow> length (fmt_5_3f (vs ! k)) = 5"
  by (auto simp: printable_def intro: length_fmt_5_3f)

lemma length_partial_text:
  assumes "printable vs" "k < length vs"
  shows "length (partial_text vs k) = 7 * Suc k + k div 20"
proof -
  have ne: "vs \<noteq> []" using assms by auto
  have "length (fmt_5_3f (hd vs)) = 5" using printable_length [OF assms(1), of 0] ne by (simp add: hd_conv_nth)
  moreover have "printable (take k (tl vs))"
    using assms(1) ne by (auto simp: printable_def dest: in_set_takeD list.set_sel(2))
  ultimately show ?thesis using length_items_text assms(2) by (simp add: partial_text_def head_text_def)
qed

lemma partial_text_Suc:
  assumes "Suc k < length vs"
  shows "partial_text vs (Suc k) = partial_text vs k @ newline_before (Suc k) @ fmt_5_3f (vs ! Suc k) @ '', ''"
proof -
  obtain v ws where v: "vs = v # ws" using assms by (cases vs) auto
  then have "take (Suc k) (tl vs) = take k (tl vs) @ [vs ! Suc k]" using assms by (simp add: take_Suc_conv_app_nth)
  then show ?thesis using assms v by (simp add: partial_text_def items_text_snoc)
qed

lemma list_item_partial:
  assumes vs: "printable vs" and rd: "\<And>k. k < length vs \<Longrightarrow> h_read h p (int k) = Inr (vs ! k)"
    and k: "Suc k < length vs"
  shows "list_item h p (int (Suc k)) (partial_text vs k) =
    (if int (length (partial_text vs (Suc k))) < MSG_MAX_LEN then Inr (partial_text vs (Suc k)) else Inl OutOfBounds)"
proof -
  have f: "length (fmt_5_3f (vs ! Suc k)) = 5" by (rule printable_length [OF vs k])
  have "int (Suc k) smod 20 = int (Suc k mod 20)" by (simp add: smod_nonneg zmod_int del: of_nat_Suc)
  then have m: "int (Suc k) smod 20 = 0 \<longleftrightarrow> Suc k mod 20 = 0" by (simp only: of_nat_eq_0_iff)
  show ?thesis
    using rd [OF k] f by (simp add: list_item_def m put_string_def strcat_tx_def newline_before_def partial_text_Suc [OF k] MSG_MAX_LEN_def del: of_nat_Suc)
qed

text \<open>The inner loop from the first value to the last, or to the value that does not fit.\<close>

lemma list_loop:
  assumes vs: "printable vs" and rd: "\<And>k. k < length vs \<Longrightarrow> h_read h p (int k) = Inr (vs ! k)"
    and b: "1 \<le> b" "b \<le> int (length vs)"
  shows "b \<le> 145 \<Longrightarrow> for_range 1 b (list_item h p) (partial_text vs 0) = Inr (partial_text vs (nat b - 1))"
    "145 < b \<Longrightarrow> for_range 1 b (list_item h p) (partial_text vs 0) = Inl OutOfBounds"
proof -
  let ?P = "\<lambda>i tx. tx = partial_text vs (nat i - 1)"
  have step: "list_item h p i tx = (if i < 145 then Inr (partial_text vs (nat (i + 1) - 1)) else Inl OutOfBounds)"
    if "1 \<le> i" "i < b" "i \<le> 145" "?P i tx" for i tx
  proof -
    define k where "k = nat (i - 1)"
    then have k: "i = int (Suc k)" using that(1) by simp
    have ix: "nat i - 1 = k" "nat (i + 1) - 1 = Suc k" using k by simp_all
    have tx: "tx = partial_text vs k" using that(4) ix(1) by simp
    have kb: "Suc k < length vs" using that(2) b(2) k by simp
    have "length (partial_text vs (Suc k)) = 7 * Suc (Suc k) + Suc k div 20"
      by (rule length_partial_text [OF vs kb])
    moreover have "Suc k \<le> 145" using that(3) k by simp
    moreover have "int (7 * Suc (Suc k) + Suc k div 20) < 1024 \<longleftrightarrow> Suc k < 145" if "Suc k \<le> 145"
    proof -
      have "Suc k div 20 \<le> 7" "Suc k = 145 \<Longrightarrow> Suc k div 20 = 7" using that by (simp_all add: div_le_mono [of _ 145 20, simplified])
      then show ?thesis using that by (cases "Suc k = 145") simp_all
    qed
    ultimately show ?thesis
      using list_item_partial [OF vs rd kb] unfolding tx ix(2) by (simp add: MSG_MAX_LEN_def k)
  qed
  show "for_range 1 b (list_item h p) (partial_text vs 0) = Inr (partial_text vs (nat b - 1))" if "b \<le> 145"
  proof -
    have "\<exists>t. for_range 1 b (list_item h p) (partial_text vs 0) = Inr t \<and> ?P b t"
      by (rule for_range_rule [where P = ?P]) (use b that step in auto)
    then show ?thesis by blast
  qed
  show "for_range 1 b (list_item h p) (partial_text vs 0) = Inl OutOfBounds" if "145 < b"
    by (rule for_range_fails [where P = ?P and k = 145])
      (use that step step [of 145 "partial_text vs 144"] in auto)
qed

lemma sendNumList_text:
  assumes vs: "printable vs" "vs \<noteq> []" and rd: "\<And>k. k < length vs \<Longrightarrow> h_read h p (int k) = Inr (vs ! k)"
  shows "sendNumList h p (int (length vs)) 0 tx =
    (if length vs \<le> 145 then Inr ([list_text vs], Some (list_text vs)) else Inl OutOfBounds)"
proof -
  let ?n = "int (length vs)" and ?b = "min 201 (int (length vs))"
  have n: "0 < ?n" using vs(2) by simp
  have b: "1 \<le> ?b" "?b \<le> ?n" using n by linarith+
  have f: "length (fmt_5_3f (vs ! 0)) = 5" using printable_length [OF vs(1), of 0] vs(2) by simp
  have start: "fmt_5_3f (vs ! 0) @ ''  '' = partial_text vs 0" using vs(2) by (simp add: partial_text_def head_text_def hd_conv_nth)
  have r0: "h_read h p 0 = Inr (vs ! 0)" using rd [of 0] vs(2) by simp
  have first: "sendNumList h p ?n 0 tx = rbind (for_range 1 ?b (list_item h p) (partial_text vs 0)) (\<lambda>tx2.
          rbind (strcat_tx tx2 ''\<newline>'') (\<lambda>tx3.
          rbind (sendNumList h p ?n 201 (Some tx3)) (\<lambda>(out, tx4). Inr (tx3 # out, tx4))))"
    using n r0 f by (subst sendNumList.simps) (simp add: put_string_def MSG_MAX_LEN_def flip: start)
  show ?thesis
  proof (cases "length vs \<le> 145")
    case True
    then have bn: "?b = ?n" "?b \<le> 145" by simp_all
    have l: "length (partial_text vs (length vs - 1)) = 7 * length vs + (length vs - 1) div 20"
      using length_partial_text [OF vs(1), of "length vs - 1"] vs(2) by simp
    have whole: "partial_text vs (length vs - 1) @ ''\<newline>'' = list_text vs"
      using vs(2) by (simp add: partial_text_def list_text_def head_text_def)
    have "for_range 1 ?b (list_item h p) (partial_text vs 0) = Inr (partial_text vs (length vs - 1))"
      using list_loop(1) [OF vs(1) rd b bn(2)] bn(1) by simp
    moreover have "strcat_tx (partial_text vs (length vs - 1)) ''\<newline>'' = Inr (list_text vs)"
    proof -
      have "7 * length vs + (length vs - 1) div 20 + 1 < 1024" using True by linarith
      then have "int (length (partial_text vs (length vs - 1) @ ''\<newline>'')) < MSG_MAX_LEN"
        using l by (simp add: MSG_MAX_LEN_def)
      then show ?thesis by (simp only: strcat_tx_def put_string_def whole if_True)
    qed
    moreover have "sendNumList h p ?n 201 (Some t) = Inr ([], Some t)" for t
      using True by (subst sendNumList.simps) simp
    ultimately show ?thesis
      using True by (simp add: first)
  next
    case False
    then have "145 < ?b" by simp
    then show ?thesis using False list_loop(2) [OF vs(1) rd b] by (simp add: first)
  qed
qed

text \<open>
  C18. The \<open>history\<close> reply: with one to 145 samples counted (each from 0 to 9.999 V) the server
  sends exactly one datagram, the first \<open>historyCount\<close> cells of the block in storage order,
  and changes nothing else; from 146 samples on it writes past the 1024-byte reply buffer.
\<close>

theorem history_reply_overflows:
  assumes ok: "ring_ok s" and c: "0 < historyCount s" "historyCount s \<le> arraySize s"
    and vs: "vs = map (slot s \<circ> int) [0..<nat (historyCount s)]" "printable vs"
  shows "handleRequest (''history'' @ rest) u s =
    (if historyCount s \<le> 145 then Inr ([list_text vs], u\<lparr>messageTx := Some (list_text vs)\<rparr>, s)
     else Inl OutOfBounds)"
proof -
  have len: "int (length vs) = historyCount s" "vs \<noteq> []" using c(1) by (simp_all add: vs(1))
  have rd: "h_read (hp s) (recent s) (int k) = Inr (vs ! k)" if "k < length vs" for k
    using ring_okD(8) [OF ok, of "int k"] that c(2) len(1) by (simp add: vs(1))
  have "length vs \<le> 145 \<longleftrightarrow> historyCount s \<le> 145" using len(1) by linarith
  then show ?thesis
    using sendNumList_text [OF vs(2) len(2) rd, of "messageTx u"] len(1)
    by (simp add: handleRequest_def starts_with_def Sampler_getHistory_def)
qed

theorem history_reply_overflows_witness:
  "handleRequest ''history'' udp_start (demo [1, 2] 0) =
     Inr ([list_text [1, 2]], udp_start\<lparr>messageTx := Some (list_text [1, 2])\<rparr>, demo [1, 2] 0) \<and>
   handleRequest ''history'' udp_start (demo (replicate 200 1) 0) = Inl OutOfBounds"
proof -
  have ok: "ring_ok (demo [1, 2] 0)" "ring_ok (demo (replicate 200 1) 0)"
    by (rule demo_ok; simp add: max_cells_def)+
  have vs: "map (slot (demo [1, 2] 0) \<circ> int) [0..<2] = [1, 2]" "printable [1, 2]"
    by (simp_all add: upt_rec demo_slot printable_def)
  have ws: "map (slot (demo (replicate 200 1) 0) \<circ> int) [0..<200] = replicate 200 1" "printable (replicate 200 1)"
    by (simp_all add: demo_slot printable_def list_eq_iff_nth_eq)
  show ?thesis
    using history_reply_overflows [OF ok(1), of "[1, 2]" "[]" udp_start] vs
      history_reply_overflows [OF ok(2), of "replicate 200 1" "[]" udp_start] ws
    by (simp add: demo_fields numeral_2_eq_2)
qed

lemma show_int_text_end: "no_digit_next ''''" "no_digit_next (CHR 0x0A # cs)"
  by (simp_all add: no_digit_next_def c_isdigit_def)

lemma get_request:
  "handleRequest (''get '' @ show_int n) u s =
     (if Sampler_getNumSamplesInHistory s < n
      then reply (''Please enter a number between 1 and '' @ show_int (Sampler_getNumSamplesInHistory s) @ ''\<newline>'') u s
      else rbind (Sampler_get_N n s) (\<lambda>(N_list, s1).
           rbind (sendNumList (hp s1) N_list n 0 (messageTx u)) (\<lambda>(out, tx).
           rbind (h_free N_list (hp s1)) (\<lambda>h.
           Inr (out, u\<lparr>messageTx := tx\<rparr>, s1\<lparr>hp := h\<rparr>)))))"
  using scan_d_show_int [of "[]" n]
  by (simp add: handleRequest_def handleGet_def starts_with_def no_digit_next_def scan_count_def)

text \<open>
  The \<open>get N\<close> reply: for an \<open>N\<close> from 1 to the reported count (145 at most) the server sends
  one datagram with the newest \<open>N - 1\<close> samples and then the oldest slot, releases the block it
  was given and leaves the history as it was; for an \<open>N\<close> above the count it sends the advice
  and touches nothing.
\<close>

theorem get_reply:
  assumes ok: "ring_ok s" and n: "0 < n" "n \<le> arraySize s" "n \<le> 145" and p: "printable (ring s)"
    and vs: "vs = drop (nat (arraySize s - n + 1)) (ring s) @ [hd (ring s)]" and c: "\<bar>historyCount s\<bar> < 2 ^ 31"
  shows "\<exists>txt s'. handleRequest (''get '' @ show_int n) u s = Inr ([txt], u\<lparr>messageTx := Some txt\<rparr>, s') \<and>
    ring_ok s' \<and> ring s' = ring s \<and>
    txt = (if n \<le> historyCount s then list_text vs
           else ''Please enter a number between 1 and '' @ show_int (historyCount s) @ ''\<newline>'')"
proof (cases "n \<le> historyCount s")
  case False
  let ?txt = "''Please enter a number between 1 and '' @ show_int (historyCount s) @ ''\<newline>''"
  have "length (show_int (historyCount s)) \<le> 20" using c by (intro length_show_int) simp
  then have "reply ?txt u s = Inr ([?txt], u\<lparr>messageTx := Some ?txt\<rparr>, s)"
    by (simp add: reply_def put_string_def MSG_MAX_LEN_def)
  moreover have "handleRequest (''get '' @ show_int n) u s = reply ?txt u s"
    using False by (simp only: get_request Sampler_getNumSamplesInHistory_def not_le if_True)
  ultimately have "handleRequest (''get '' @ show_int n) u s = Inr ([?txt], u\<lparr>messageTx := Some ?txt\<rparr>, s)"
    by (rule trans [rotated])
  then show ?thesis
    using False ok by (intro exI [of _ ?txt] exI [of _ s] conjI) (simp_all only: if_False)
next
  case nc: True
  obtain q s1 where g: "Sampler_get_N n s = Inr (q, s1)" "q \<noteq> 0" "q \<noteq> recent s" "ring s1 = ring s"
      "s1 = s\<lparr>hp := hp s1\<rparr>" "ring_ok s1" "h_live (hp s1) q"
      "map (h_read (hp s1) q \<circ> int) [0..<nat n] = map Inr vs"
    using get_N_runs [OF ok n(1) nc n(2)] unfolding vs by blast
  have len: "length vs = nat n" using g(8) by (metis length_map length_upt minus_nat.diff_0)
  have "ring s \<noteq> []" using n by (simp flip: length_greater_0_conv)
  then have pv: "printable vs" using p by (auto simp: vs printable_def dest: in_set_dropD)
  have rd: "h_read (hp s1) q (int k) = Inr (vs ! k)" if "k < length vs" for k
  proof -
    have "(map (h_read (hp s1) q \<circ> int) [0..<nat n]) ! k = map Inr vs ! k" using g(8) by simp
    then show ?thesis using that len by simp
  qed
  have send: "sendNumList (hp s1) q n 0 (messageTx u) = Inr ([list_text vs], Some (list_text vs))"
    using sendNumList_text [OF pv _ rd, of "messageTx u"] len n by (cases "vs = []") simp_all
  obtain h where h: "h_free q (hp s1) = Inr h" using h_free_live [OF g(7)] by blast
  let ?s = "s1\<lparr>hp := h\<rparr>"
  have rs: "recent s1 = recent s" by (subst g(5)) simp
  note d1 = ring_okD [OF g(6)]
  have rq: "recent s1 \<noteq> q" using g(3) rs by simp
  note fr = h_free_facts [OF d1(1) h g(2)]
  have same: "h_read h (recent s1) k = h_read (hp s1) (recent s1) k" for k using fr(3) [OF rq] .
  have "ring_ok ?s" by (rule ring_okI) (use d1 fr(1) fr(4,5) [OF rq] same in auto)
  moreover have "ring ?s = ring s1" using same by (simp add: ring_def slot_def)
  moreover have "handleRequest (''get '' @ show_int n) u s = Inr ([list_text vs], u\<lparr>messageTx := Some (list_text vs)\<rparr>, ?s)"
    using get_request [of n u s] nc g(1) send h by (simp add: Sampler_getNumSamplesInHistory_def)
  ultimately show ?thesis using g(4) nc by (intro exI [of _ "list_text vs"] exI [of _ ?s]) simp
qed

theorem get_reply_witness:
  "\<exists>s'. handleRequest (''get '' @ show_int 2) udp_start (demo [1, 2, 3] 1) =
     Inr ([list_text [1, 2]], udp_start\<lparr>messageTx := Some (list_text [1, 2])\<rparr>, s') \<and>
     ring s' = [2, 3, 1]"
proof -
  have ok: "ring_ok (demo [1, 2, 3] 1)" by (rule demo_ok) (simp_all add: max_cells_def)
  have r: "ring (demo [1, 2, 3] 1) = [2, 3, 1]" by (simp add: demo_ring)
  have p: "printable (ring (demo [1, 2, 3] 1))" by (simp add: r printable_def)
  show ?thesis
    using get_reply [OF ok _ _ _ p, of 2 "[1, 2]" udp_start]
    by (simp add: demo_fields r numeral_2_eq_2) blast
qed

section \<open>The loop\<close>

lemma reply_keeps: "reply m u s = Inr (out, u', s') \<Longrightarrow> prevMsg u' = prevMsg u \<and> enterPressed u' = enterPressed u"
  by (auto simp: reply_def res_iff)

lemma handleGet_keeps:
  "handleGet m u s = Inr (out, u', s') \<Longrightarrow> prevMsg u' = prevMsg u \<and> enterPressed u' = enterPressed u"
  by (auto simp: handleGet_def Let_def res_iff dest: reply_keeps split: if_splits scan.splits)

lemma handleRequest_keeps:
  "handleRequest m u s = Inr (out, u', s') \<Longrightarrow> prevMsg u' = prevMsg u \<and> enterPressed u' = enterPressed u"
  by (auto simp: handleRequest_def Sampler_getHistory_def Let_def res_iff dest!: reply_keeps handleGet_keeps split: if_splits option.splits)

text \<open>What a client and the sampler see of a run: the datagrams, the buffer, the sampler.\<close>

definition observed :: "(string list \<times> udp \<times> sampler) res \<Rightarrow> (string list \<times> string option \<times> sampler) res" where
  "observed r = (case r of Inl e \<Rightarrow> Inl e | Inr (out, u, s) \<Rightarrow> Inr (out, messageTx u, s))"

text \<open>
  An \<open>Enter\<close> (a one-byte datagram) repeats the last request: after any other datagram \<open>m\<close>,
  receiving \<open>Enter\<close> sends what receiving \<open>m\<close> a second time sends and leaves the same sampler and
  reply buffer, failures included; as the first datagram it uses a request never received.
\<close>

theorem enter_repeats_request:
  assumes "length m \<noteq> 1" "length e = 1"
  shows "observed (udpListenThread [Some m, Some e] u s) = observed (udpListenThread [Some m, Some m] u s) \<and>
    udpListenThread [Some e] udp_start s = Inl Uninitialised"
proof
  let ?u = "u\<lparr>enterPressed := False, prevMsg := Some (cstring m)\<rparr>"
  have turn: "udp_turn (Some m) (if enterPressed u then u\<lparr>enterPressed := False\<rparr> else u) s = handleRequest (cstring m) ?u s"
    using assms(1) by (cases u) (simp add: udp_turn_def Let_def)
  show "observed (udpListenThread [Some m, Some e] u s) = observed (udpListenThread [Some m, Some m] u s)"
  proof (cases "handleRequest (cstring m) ?u s")
    case (Inl x)
    then show ?thesis using turn by (simp add: Let_def)
  next
    case (Inr r)
    obtain out u1 s1 where r: "r = (out, u1, s1)" by (cases r)
    have k: "prevMsg u1 = Some (cstring m)" "\<not> enterPressed u1"
      using handleRequest_keeps [of "cstring m" ?u s out u1 s1] Inr r by auto
    then have "u1\<lparr>prevMsg := Some (cstring m)\<rparr> = u1" by (cases u1) simp
    then have "udp_turn (Some m) u1 s1 = handleRequest (cstring m) u1 s1"
      using assms(1) by (simp add: udp_turn_def)
    moreover have "udp_turn (Some e) u1 s1 = rbind (handleRequest (cstring m) u1 s1) (\<lambda>(out, u2, s2).
        Inr (out, u2\<lparr>enterPressed := True\<rparr>, s2))"
      using assms(2) k(1) by (simp add: udp_turn_def)
    ultimately show ?thesis
      using turn Inr r k(2)
      by (cases "handleRequest (cstring m) u1 s1") (auto simp: Let_def observed_def)
  qed
  show "udpListenThread [Some e] udp_start s = Inl Uninitialised"
    using assms(2) by (simp add: udp_start_def udp_turn_def)
qed

theorem enter_repeats_request_witness:
  "\<forall>s. observed (udpListenThread [Some ''dips'', Some ''x''] udp_start s) = observed (udpListenThread [Some ''dips'', Some ''dips''] udp_start s)"
  using enter_repeats_request [of "''dips''" "''x''" udp_start] by simp

text \<open>
  A \<open>get\<close> with no number is not rejected: \<open>sscanf\<close> meets the end of the input and returns
  -1, which the code takes for success, so the value of \<open>n\<close> it goes on with was never assigned;
  only a word that is not a number gets the intended answer.
\<close>

theorem get_without_number:
  assumes "4 \<le> length m" "starts_with ''get'' m"
  shows "(scan_d (drop 4 m) = ScanEOF \<longrightarrow> handleRequest m u s = Inl Uninitialised) \<and>
    (scan_d (drop 4 m) = ScanNone \<longrightarrow>
       handleRequest m u s = Inr ([''N is not a valid number''], u\<lparr>messageTx := Some ''N is not a valid number''\<rparr>, s))"
proof -
  have "\<not> starts_with ''help'' m" "\<not> starts_with ''count'' m"
    using assms(2) by (auto simp: starts_with_iff)
  then show ?thesis
    using assms by (simp add: handleRequest_def handleGet_def scan_count_def reply_def put_string_def MSG_MAX_LEN_def)
qed

theorem get_without_number_witness:
  "\<forall>u s. handleRequest ''get \<newline>'' u s = Inl Uninitialised \<and>
   handleRequest ''get x'' u s = Inr ([''N is not a valid number''], u\<lparr>messageTx := Some ''N is not a valid number''\<rparr>, s)"
  using get_without_number [of "''get \<newline>''"] get_without_number [of "''get x''"]
  by (simp add: starts_with_def scan_d_def c_isspace_def scan_unsigned_def c_isdigit_def)

text \<open>
  The three queries can be read back: whatever follows the command word, \<open>count\<close> and \<open>dips\<close>
  send one datagram from which the sampler's number is recovered after the label, \<open>length\<close>
  sends the size first, and none of them changes the sampler.
\<close>

theorem queries_read_back:
  assumes b: "\<bar>allTimeCount s\<bar> < 2 ^ 63" "\<bar>dipCount s\<bar> < 2 ^ 31" "\<bar>arraySize s\<bar> < 2 ^ 31" "\<bar>historyCount s\<bar> < 2 ^ 31"
  shows "\<exists>a b c. handleRequest (''count'' @ rest) u s = Inr ([a], u\<lparr>messageTx := Some a\<rparr>, s) \<and>
      handleRequest (''dips'' @ rest) u s = Inr ([b], u\<lparr>messageTx := Some b\<rparr>, s) \<and>
      handleRequest (''length'' @ rest) u s = Inr ([c], u\<lparr>messageTx := Some c\<rparr>, s) \<and>
      scan_d (drop 26 a) = ScanInt (Sampler_getNumSamplesTaken s) \<and> scan_d (drop 6 b) = ScanInt (Sampler_getNumDips s) \<and>
      scan_d (drop 17 c) = ScanInt (Sampler_getHistorySize s)"
proof -
  let ?a = "''Number of samples taken = '' @ show_int (allTimeCount s) @ ''\<newline>''"
  let ?b = "''Dips: '' @ show_int (dipCount s) @ ''\<newline>''"
  let ?c = "''History can hold '' @ show_int (arraySize s) @ '' samples.\<newline>Currently holding '' @ show_int (historyCount s) @ '' samples.\<newline>''"
  have l: "length (show_int (allTimeCount s)) \<le> 20" "length (show_int (dipCount s)) \<le> 20"
    "length (show_int (arraySize s)) \<le> 20" "length (show_int (historyCount s)) \<le> 20"
    using b by (auto intro!: length_show_int)
  have stop: "no_digit_next ('' samples.\<newline>'' @ r)" for r by (simp add: no_digit_next_def c_isdigit_def)
  have "scan_d (drop 26 ?a) = ScanInt (allTimeCount s)" "scan_d (drop 6 ?b) = ScanInt (dipCount s)"
    using scan_d_show_int [OF show_int_text_end(2) [of "[]"]] by simp_all
  moreover have "scan_d (drop 17 ?c) = ScanInt (arraySize s)"
    using scan_d_show_int [OF stop, of "arraySize s"] by simp
  moreover have "handleRequest (''count'' @ rest) u s = Inr ([?a], u\<lparr>messageTx := Some ?a\<rparr>, s)"
    "handleRequest (''dips'' @ rest) u s = Inr ([?b], u\<lparr>messageTx := Some ?b\<rparr>, s)"
    "handleRequest (''length'' @ rest) u s = Inr ([?c], u\<lparr>messageTx := Some ?c\<rparr>, s)"
    using l by (simp_all add: handleRequest_def starts_with_def reply_def put_string_def MSG_MAX_LEN_def
        Sampler_getNumSamplesTaken_def Sampler_getNumDips_def Sampler_getHistorySize_def Sampler_getNumSamplesInHistory_def)
  ultimately show ?thesis
    unfolding Sampler_getNumSamplesTaken_def Sampler_getNumDips_def Sampler_getHistorySize_def by blast
qed

theorem queries_read_back_witness:
  "\<exists>a. handleRequest ''count'' udp_start (demo [1, 2] 0) = Inr ([a], udp_start\<lparr>messageTx := Some a\<rparr>, demo [1, 2] 0) \<and>
    scan_d (drop 26 a) = ScanInt 1"
  using queries_read_back [of "demo [1, 2] 0" "''''" udp_start]
  by (auto simp: demo_def sampler_start_def Sampler_getNumSamplesTaken_def)

end
