(* ===== verification/LightSystem.thy ===== *)
theory LightSystem
  imports LedDisplay UdpListen
begin

text \<open>
  The light sampler as a whole (\<open>work/as2/light_sampler.c\<close>): three threads over one sampler. The
  sampling thread runs its iterations, the server answers datagrams, the display thread shows the
  dip count; any interleaving of whole turns is a run. What the potentiometer, the clocks, the
  clients and the devices of the display do is the events' contents: \<open>Inl\<close> is the end of the whole program,
  as when a device of the display refuses an operation and \<open>led_display.c\<close> calls \<open>exit\<close>.
\<close>

section \<open>The program as a state machine\<close>

record light_system =
  smp :: sampler
  loc :: slocals
  srv :: udp
  leds :: led
  sent :: "string list"

datatype light_event =
    Iteration siteration   \<comment> \<open>one turn of \<open>samplerThread\<close>\<close>
  | Datagram string        \<comment> \<open>one turn of \<open>udpListenThread\<close>\<close>
  | Display led_env        \<comment> \<open>one turn of \<open>ledThread\<close>, on devices that may refuse\<close>

definition light_turn :: "light_event \<Rightarrow> light_system \<Rightarrow> light_system res" where
  "light_turn ev w = (case ev of
      Iteration it \<Rightarrow> rbind (sampler_iteration it (smp w, loc w)) (\<lambda>(rs, s, l). Inr (w\<lparr>smp := s, loc := l\<rparr>))
    | Datagram m \<Rightarrow>
        (let u0 = (if enterPressed (srv w) then (srv w)\<lparr>enterPressed := False\<rparr> else srv w) in
         rbind (udp_turn (Some m) u0 (smp w)) (\<lambda>(out, u, s). Inr (w\<lparr>smp := s, srv := u, sent := sent w @ out\<rparr>)))
    | Display env \<Rightarrow> rbind (led_exec env (displayNum (Sampler_getNumDips (smp w))) (leds w)) (\<lambda>d. Inr (w\<lparr>leds := d\<rparr>)))"

definition light_main_start :: "string option \<Rightarrow> string option \<Rightarrow> timespec \<Rightarrow> led_env \<Rightarrow> light_system res" where
  \<comment> \<open>the state when the three threads are running\<close>
  "light_main_start v1 v0 spec env =
     rbind (sampler_init v1 v0 spec sampler_start) (\<lambda>(s, l).
     rbind (led_exec env led_init led_start) (\<lambda>d.
     Inr \<lparr>smp = s, loc = l, srv = udp_start, leds = d, sent = []\<rparr>))"

section \<open>Clients that ask for the status\<close>

definition status_request :: "string \<Rightarrow> bool" where
  "status_request m \<longleftrightarrow> starts_with ''help'' m \<or> starts_with ''count'' m \<or> starts_with ''length'' m \<or> starts_with ''dips'' m"

definition status_text :: "string \<Rightarrow> sampler \<Rightarrow> string" where
  "status_text m s =
     (if starts_with ''help'' m then help_text
      else if starts_with ''count'' m then ''Number of samples taken = '' @ show_int (allTimeCount s) @ ''\<newline>''
      else if starts_with ''length'' m
      then ''History can hold '' @ show_int (arraySize s) @ '' samples.\<newline>Currently holding '' @ show_int (historyCount s) @ '' samples.\<newline>''
      else ''Dips: '' @ show_int (dipCount s) @ ''\<newline>'')"

definition counters_fit :: "sampler \<Rightarrow> bool" where
  "counters_fit s \<longleftrightarrow> \<bar>allTimeCount s\<bar> < 2 ^ 63 \<and> \<bar>dipCount s\<bar> < 2 ^ 31 \<and> \<bar>arraySize s\<bar> < 2 ^ 31 \<and> \<bar>historyCount s\<bar> < 2 ^ 31"

lemma status_runs:
  assumes "status_request m" "counters_fit s"
  shows "handleRequest m u s = Inr ([status_text m s], u\<lparr>messageTx := Some (status_text m s)\<rparr>, s)"
proof -
  have "length (show_int (allTimeCount s)) \<le> 20" "length (show_int (dipCount s)) \<le> 20"
    "length (show_int (arraySize s)) \<le> 20" "length (show_int (historyCount s)) \<le> 20"
    using assms(2) by (auto simp: counters_fit_def intro!: length_show_int)
  moreover have "starts_with ''length'' m \<Longrightarrow> \<not> starts_with ''get'' m \<and> \<not> starts_with ''history'' m"
    "starts_with ''dips'' m \<Longrightarrow> \<not> starts_with ''get'' m \<and> \<not> starts_with ''history'' m"
    by (auto simp: starts_with_iff)
  ultimately show ?thesis
    using assms(1) by (auto simp: status_request_def status_text_def handleRequest_def reply_def put_string_def MSG_MAX_LEN_def help_text_def
        Sampler_getNumSamplesTaken_def Sampler_getNumDips_def Sampler_getHistorySize_def Sampler_getNumSamplesInHistory_def)
qed

text \<open>
  Calm events: the potentiometer never turns down, readings and clocks are sane, clients ask for the
  status with words of more than one character, or repeat their last request, and the counters fit their
  types. Nothing is asked of the devices of the display.
\<close>

definition calm :: "int \<Rightarrow> light_system \<Rightarrow> light_event \<Rightarrow> bool" where
  "calm now w ev = (case ev of
      Iteration it \<Rightarrow> now < clock_ns (markClock it) \<and>
        (\<exists>r n. getVoltageReading (file1 it) = Inr r \<and> 0 \<le> r \<and> r \<le> A2D_MAX_READING \<and>
          getVoltageReading (file0 it) = Inr n \<and> arraySize (smp w) \<le> n \<and> n \<le> 4095)
    | Datagram m \<Rightarrow> counters_fit (smp w) \<and>
        (if length m = 1 then prevMsg (srv w) \<noteq> None else status_request (cstring m))
    | Display _ \<Rightarrow> True)"

definition time_after :: "int \<Rightarrow> light_event \<Rightarrow> int" where
  "time_after now ev = (case ev of Iteration it \<Rightarrow> clock_ns (markClock it) | _ \<Rightarrow> now)"

inductive calm_run :: "int \<Rightarrow> light_system \<Rightarrow> bool" where
  calm_start: "light_main_start v1 v0 spec env = Inr w \<Longrightarrow> getVoltageReading v1 = Inr r \<Longrightarrow> getVoltageReading v0 = Inr n \<Longrightarrow>
     0 \<le> n \<Longrightarrow> n \<le> 4095 \<Longrightarrow> calm_run 0 w"
| calm_turn: "calm_run now w \<Longrightarrow> calm now w ev \<Longrightarrow> light_turn ev w = Inr w' \<Longrightarrow> calm_run (time_after now ev) w'"

definition light_ok :: "int \<Rightarrow> light_system \<Rightarrow> bool" where
  "light_ok now w \<longleftrightarrow> sampler_ok now (smp w) \<and> (\<forall>m. prevMsg (srv w) = Some m \<longrightarrow> status_request m)"

definition turn_effect :: "light_event \<Rightarrow> light_system \<Rightarrow> light_system \<Rightarrow> bool" where
  "turn_effect ev w w' = (case ev of
      Iteration it \<Rightarrow> sent w' = sent w \<and> allTimeCount (smp w') = allTimeCount (smp w) + 1
    | Datagram m \<Rightarrow> smp w' = smp w \<and>
        sent w' = sent w @ [status_text (if length m = 1 then the (prevMsg (srv w)) else cstring m) (smp w)]
    | Display _ \<Rightarrow> smp w' = smp w \<and> sent w' = sent w \<and>
        trace (leds w') = trace (leds w) @ displayNum (dipCount (smp w)))"

definition turn_exits :: "light_event \<Rightarrow> light_system \<Rightarrow> c_error \<Rightarrow> bool" where
  \<comment> \<open>the one way to end: a device of the display refuses an operation of the turn\<close>
  "turn_exits ev w err \<longleftrightarrow> err = ExitCode 1 \<and>
     (\<exists>env. ev = Display env \<and> refused env (trace (leds w)) (displayNum (dipCount (smp w))))"

section \<open>Every turn of a calm run\<close>

lemma iteration_turn:
  assumes "light_ok now w" "calm now w (Iteration it)"
  shows "\<exists>w'. light_turn (Iteration it) w = Inr w' \<and> turn_effect (Iteration it) w w' \<and> light_ok (clock_ns (markClock it)) w'"
proof -
  obtain r n where e: "now < clock_ns (markClock it)" "getVoltageReading (file1 it) = Inr r" "0 \<le> r" "r \<le> A2D_MAX_READING"
    "getVoltageReading (file0 it) = Inr n" "arraySize (smp w) \<le> n" "n \<le> 4095" using assms(2) by (auto simp: calm_def)
  have "sampler_ok now (smp w)" using assms(1) by (simp add: light_ok_def)
  from iteration_runs [OF this e, of "loc w"] show ?thesis
    using assms(1) by (auto simp: light_turn_def turn_effect_def light_ok_def)
qed

lemma datagram_turn:
  assumes "light_ok now w" "calm now w (Datagram m)"
  shows "\<exists>w'. light_turn (Datagram m) w = Inr w' \<and> turn_effect (Datagram m) w w' \<and> light_ok now w'"
proof (cases "length m = 1")
  case True
  then obtain p where p: "prevMsg (srv w) = Some p" "status_request p" "counters_fit (smp w)"
    using assms by (auto simp: calm_def light_ok_def)
  then show ?thesis using assms(1) True
    by (auto simp: light_turn_def udp_turn_def status_runs turn_effect_def light_ok_def Let_def)
next
  case False
  then have "status_request (cstring m)" "counters_fit (smp w)" using assms(2) by (simp_all add: calm_def)
  then show ?thesis using assms(1) False
    by (auto simp: light_turn_def udp_turn_def status_runs turn_effect_def light_ok_def Let_def)
qed

lemma display_turn:
  assumes "light_ok now w"
  shows "case light_turn (Display env) w of
      Inl err \<Rightarrow> turn_exits (Display env) w err
    | Inr w' \<Rightarrow> turn_effect (Display env) w w' \<and> light_ok now w'"
  by (rule displayNum_cases [of env "dipCount (smp w)" "leds w"])
     (use assms in \<open>simp_all add: light_turn_def turn_effect_def turn_exits_def light_ok_def Sampler_getNumDips_def\<close>)

lemma calm_turn_ok:
  assumes "light_ok now w" "calm now w ev"
  shows "case light_turn ev w of
      Inl err \<Rightarrow> turn_exits ev w err
    | Inr w' \<Rightarrow> turn_effect ev w w' \<and> light_ok (time_after now ev) w'"
proof (cases ev)
  case (Iteration it)
  then show ?thesis using iteration_turn [of now w it] assms by (auto simp: time_after_def)
next
  case (Datagram m)
  then show ?thesis using datagram_turn [of now w m] assms by (auto simp: time_after_def)
next
  case (Display env)
  have now: "time_after now (Display env) = now" by (simp add: time_after_def)
  show ?thesis unfolding Display now by (rule display_turn [OF assms(1)])
qed

lemma led_init_runs: "\<exists>d. led_exec (\<lambda>_ _. True) led_init s = Inr d"
  by (simp add: led_init_def led_step_def Let_def)

lemma calm_run_ok: "calm_run now w \<Longrightarrow> light_ok now w"
proof (induction rule: calm_run.induct)
  case (calm_start v1 v0 spec env w r n)
  obtain s l where "sampler_init v1 v0 spec sampler_start = Inr (s, l)" "sampler_ok 0 s"
    using sampler_init_ok [OF calm_start(2-5), of spec] by blast
  then show ?case using calm_start(1) by (auto simp: light_main_start_def res_iff light_ok_def udp_start_def)
next
  case (calm_turn now w ev w')
  then show ?case using calm_turn_ok [of now w ev] by auto
qed


text \<open>
  The start of a run with a history of two samples, where a client asks for the dips, the display shows them, and then its devices
  refuse everything.
\<close>

lemma some_calm_run: "\<exists>w. calm_run 0 w \<and> counters_fit (smp w)"
proof -
  note rd = reading_text [of 7] reading_text [of 2]
  obtain s l where s: "sampler_init (Some (show_int 7)) (Some (show_int 2)) \<lparr>tv_sec = 1, tv_nsec = 0\<rparr> sampler_start = Inr (s, l)"
    "arraySize s = 2" "historyCount s = 0" "allTimeCount s = 1" "abs_light (s, l) = \<lparr>mAverage = 0, mDark = False, mHistory = replicate 2 0, mDips = 0\<rparr>"
    using sampler_init_ok [OF rd, of "\<lparr>tv_sec = 1, tv_nsec = 0\<rparr>"] by auto
  then have c: "counters_fit s" by (simp add: counters_fit_def abs_light_def)
  obtain d where "led_exec (\<lambda>_ _. True) led_init led_start = Inr d" using led_init_runs by blast
  then have "light_main_start (Some (show_int 7)) (Some (show_int 2)) \<lparr>tv_sec = 1, tv_nsec = 0\<rparr> (\<lambda>_ _. True) =
      Inr \<lparr>smp = s, loc = l, srv = udp_start, leds = d, sent = []\<rparr>" using s(1) by (simp add: light_main_start_def)
  from calm_start [OF this rd] c show ?thesis by (intro exI conjI) auto
qed

lemma willing_devices: "\<not> turn_exits (Display (\<lambda>_ _. True)) w err"
  by (simp add: turn_exits_def refused_def)

lemma refusing_devices: "\<exists>err. light_turn (Display (\<lambda>_ _. False)) w = Inl err"
  by (simp add: light_turn_def displayNum_def led_step_def Let_def)


end
