(* ===== verification/AudioMixer.thy ===== *)
theory AudioMixer
  imports PeriodTimer
begin

text \<open>
  The beat-box's audio mixer (\<open>work/pcmExample/audiomixer.c\<close>, \<open>audiomixer.h\<close>): thirty slots
  hold the sounds being played; the playback thread mixes the next block of every one of
  them into a buffer of 16-bit samples, saturating each sum, and frees the slots of the
  sounds that ended. Other threads queue sounds and turn the volume, tempo and mode knobs.
  Waves are referred to by number; the numbers stand for the addresses of the program's
  \<open>wavedata_t\<close> objects. The ALSA library is outside the repository: its results are arguments.
\<close>

section \<open>State\<close>

definition DEFAULT_VOLUME :: int where "DEFAULT_VOLUME = 50"
definition MAX_SOUND_BITES :: int where "MAX_SOUND_BITES = 30"
definition AUDIOMIXER_MAX_VOLUME :: int where "AUDIOMIXER_MAX_VOLUME = 100"
definition AUDIOMIXER_MAX_TEMPO :: int where "AUDIOMIXER_MAX_TEMPO = 500"
definition SAMPLE_SIZE :: int where "SAMPLE_SIZE = 2"
definition PERIOD_EVENT_FILL_BUFFER :: int where "PERIOD_EVENT_FILL_BUFFER = 0"
definition SHRT_MAX :: int where "SHRT_MAX = 32767"
definition SHRT_MIN :: int where "SHRT_MIN = - 32768"

type_synonym pcm = "16 word"

record wavedata_t =
  numSamples :: int
  pData :: "pcm list option"     \<comment> \<open>\<open>None\<close> is the null pointer\<close>

record playbackSound_t =
  pSound :: "nat option"
  location :: int

record mixer =
  soundBites :: "playbackSound_t list"
  numSoundBites :: int
  waves :: "nat \<Rightarrow> wavedata_t"
  playbackBuffer :: "pcm list option"
  stopping :: bool
  currentMode :: int
  volume :: int
  tempo :: int
  hwVolume :: int                 \<comment> \<open>what the volume control of the card was set to\<close>

definition free_slot :: playbackSound_t where
  "free_slot = \<lparr>pSound = None, location = 0\<rparr>"

definition mixer_start :: mixer where
  "mixer_start = \<lparr>soundBites = replicate (nat MAX_SOUND_BITES) free_slot, numSoundBites = 0,
     waves = (\<lambda>_. \<lparr>numSamples = 0, pData = None\<rparr>), playbackBuffer = None, stopping = False,
     currentMode = 1, volume = 0, tempo = 70, hwVolume = 0\<rparr>"

section \<open>Knobs\<close>

definition AudioMixer_getTempo :: "mixer \<Rightarrow> int" where
  "AudioMixer_getTempo m = tempo m"

definition AudioMixer_setTempo :: "int \<Rightarrow> mixer \<Rightarrow> mixer" where
  "AudioMixer_setTempo newTempo m =
     (if newTempo < 0 \<or> newTempo > AUDIOMIXER_MAX_TEMPO then m else m\<lparr>tempo := newTempo\<rparr>)"

datatype beatMode = NONE | ROCK | CUSTOM

definition mode_value :: "beatMode \<Rightarrow> int" where
  "mode_value b = (case b of NONE \<Rightarrow> 1 | ROCK \<Rightarrow> 2 | CUSTOM \<Rightarrow> 3)"

definition AudioMixer_getMode :: "mixer \<Rightarrow> int" where
  "AudioMixer_getMode m = currentMode m"

definition AudioMixer_setMode :: "beatMode \<Rightarrow> mixer \<Rightarrow> int \<times> mixer" where
  "AudioMixer_setMode newMode m = (mode_value newMode, m\<lparr>currentMode := mode_value newMode\<rparr>)"

definition AudioMixer_cycleNextMode :: "mixer \<Rightarrow> int \<times> mixer" where
  "AudioMixer_cycleNextMode m =
     (let c = (if currentMode m = 3 then 1 else currentMode m + 1) in (c, m\<lparr>currentMode := c\<rparr>))"

definition AudioMixer_getVolume :: "mixer \<Rightarrow> int" where
  "AudioMixer_getVolume m = volume m"

definition AudioMixer_setVolume :: "int \<Rightarrow> int \<Rightarrow> mixer \<Rightarrow> mixer" where
  \<comment> \<open>the first argument is the top of the card's volume range\<close>
  "AudioMixer_setVolume hw_max newVolume m =
     (if newVolume < 0 \<or> newVolume > AUDIOMIXER_MAX_VOLUME then m
      else m\<lparr>volume := newVolume, hwVolume := (newVolume * hw_max) sdiv 100\<rparr>)"

section \<open>Starting, stopping, and the wave files\<close>

definition AudioMixer_init :: "int \<Rightarrow> int \<Rightarrow> int \<Rightarrow> nat \<Rightarrow> mixer \<Rightarrow> mixer res" where
  "AudioMixer_init hw_max open_err params_err bufferSize m =
     (let m1 = (AudioMixer_setVolume hw_max DEFAULT_VOLUME m)
            \<lparr>soundBites := replicate (nat MAX_SOUND_BITES) free_slot\<rparr> in
      if open_err < 0 then Inl (ExitCode 1)
      else if params_err < 0 then Inl (ExitCode 1)
      else Inr (m1\<lparr>playbackBuffer := Some (replicate bufferSize 0)\<rparr>))"

definition AudioMixer_cleanup :: "mixer \<Rightarrow> mixer" where
  "AudioMixer_cleanup m = m\<lparr>stopping := True, playbackBuffer := None\<rparr>"

fun samples_of :: "8 word list \<Rightarrow> pcm list" where \<comment> \<open>little-endian 16-bit samples\<close>
  "samples_of (lo # hi # bs) = word_cat hi lo # samples_of bs"
| "samples_of _ = []"

text \<open>
  \<open>sizeInBytes / SAMPLE_SIZE\<close> is an unsigned division (a file shorter than its header wraps
  around), and \<open>malloc\<close> refuses a request of \<open>2 ^ 29\<close> bytes or more.
\<close>

definition AudioMixer_readWaveFileIntoMemory :: "8 word list option \<Rightarrow> nat \<Rightarrow> mixer \<Rightarrow> mixer res" where
  "AudioMixer_readWaveFileIntoMemory file w m =
     (case file of
        None \<Rightarrow> Inl (ExitCode 1)
      | Some bytes \<Rightarrow>
          (let PCM_DATA_OFFSET = 44;
               sizeInBytes = int (length bytes) - PCM_DATA_OFFSET;
               n = (sizeInBytes mod 2 ^ 32) div SAMPLE_SIZE in
           if sizeInBytes mod 2 ^ 32 \<ge> 2 ^ 29 then Inl (ExitCode 1)
           else
             (let dat = take (nat n) (samples_of (drop 44 bytes)) in
              if int (length dat) \<noteq> n then Inl (ExitCode 1)
              else Inr (m\<lparr>waves := (waves m)(w := \<lparr>numSamples = n, pData = Some dat\<rparr>)\<rparr>))))"

definition AudioMixer_freeWaveFileData :: "nat \<Rightarrow> mixer \<Rightarrow> mixer" where
  "AudioMixer_freeWaveFileData w m = m\<lparr>waves := (waves m)(w := \<lparr>numSamples = 0, pData = None\<rparr>)\<rparr>"

section \<open>Queueing a sound\<close>

fun find_free :: "playbackSound_t list \<Rightarrow> nat option" where
  "find_free [] = None"
| "find_free (b # bs) = (if pSound b = None then Some 0 else map_option Suc (find_free bs))"

definition AudioMixer_queueSound :: "nat \<Rightarrow> mixer \<Rightarrow> (int \<times> mixer) res" where
  "AudioMixer_queueSound w m =
     rbind (rassert (numSamples (waves m w) > 0) AssertFail) (\<lambda>_.
     rbind (rassert (pData (waves m w) \<noteq> None) AssertFail) (\<lambda>_.
     case find_free (soundBites m) of
       Some i \<Rightarrow> Inr (0, m\<lparr>soundBites := (soundBites m)[i := (soundBites m ! i)\<lparr>pSound := Some w\<rparr>],
                         numSoundBites := numSoundBites m + 1\<rparr>)
     | None \<Rightarrow> Inr (- 1, m)))"

section \<open>Mixing\<close>

definition clipNum :: "int \<Rightarrow> pcm" where
  "clipNum num = (if num > SHRT_MAX then word_of_int (SHRT_MAX - 1)
     else if num < SHRT_MIN then word_of_int (SHRT_MIN + 1)
     else word_of_int num)"

text \<open>The loop that adds one sound to the buffer; it returns the buffer and the new offset.\<close>

function mix_loop :: "pcm list \<Rightarrow> int \<Rightarrow> int \<Rightarrow> int \<Rightarrow> pcm list \<Rightarrow> int \<Rightarrow> (pcm list \<times> int) res" where
  "mix_loop dat n j k buff offset =
     (if j < n \<and> k < int (length buff)
      then rbind (aread buff k) (\<lambda>b.
           rbind (aread dat j) (\<lambda>d.
           rbind (awrite buff k (clipNum (sint b + sint d))) (\<lambda>buff'.
           mix_loop dat n (j + 1) (k + 1) buff' (offset + 1))))
      else Inr (buff, offset))"
  by pat_completeness auto
termination
  by (relation "measure (\<lambda>(dat, n, j, k, buff, offset). nat (n - j))") auto

declare mix_loop.simps [simp del]

text \<open>The loop over the slots.\<close>

function fill_slots :: "int \<Rightarrow> int \<Rightarrow> int \<Rightarrow> pcm list \<Rightarrow> mixer \<Rightarrow> (pcm list \<times> mixer) res" where
  "fill_slots sz i curr_size buff m =
     (if i < MAX_SOUND_BITES \<and> curr_size < sz
      then rbind (aread (soundBites m) i) (\<lambda>bite.
           case pSound bite of
             None \<Rightarrow> fill_slots sz (i + 1) curr_size buff m
           | Some w \<Rightarrow>
               (case pData (waves m w) of
                  None \<Rightarrow> fill_slots sz (i + 1) curr_size buff m
                | Some dat \<Rightarrow>
                    rbind (mix_loop dat (numSamples (waves m w)) (location bite) 0 buff (location bite)) (\<lambda>(buff', offset).
                    rbind (if offset \<ge> numSamples (waves m w)
                           then rbind (awrite (soundBites m) i free_slot) (\<lambda>bs.
                                Inr (m\<lparr>soundBites := bs, numSoundBites := numSoundBites m - 1\<rparr>))
                           else rbind (awrite (soundBites m) i (bite\<lparr>location := offset\<rparr>)) (\<lambda>bs.
                                Inr (m\<lparr>soundBites := bs\<rparr>))) (\<lambda>m'.
                    fill_slots sz (i + 1) (curr_size + SAMPLE_SIZE) buff' m'))))
      else Inr (buff, m))"
  by pat_completeness auto
termination
  by (relation "measure (\<lambda>(sz, i, c, buff, m). nat (MAX_SOUND_BITES - i))") auto

declare fill_slots.simps [simp del]

definition fillPlaybackBuffer :: "mixer \<Rightarrow> mixer res" where
  "fillPlaybackBuffer m =
     (case playbackBuffer m of
        None \<Rightarrow> Inl NullDeref
      | Some buff \<Rightarrow>
          rbind (fill_slots (int (length buff)) 0 0 (replicate (length buff) 0) m) (\<lambda>(buff', m').
          Inr (m'\<lparr>playbackBuffer := Some buff'\<rparr>)))"

text \<open>
  One turn of the playback thread: the event is marked, the block filled, the statistics
  taken when a second has passed, and the block written; the last arguments are what the
  ALSA write and, if it failed, the recovery return.
\<close>

definition playback_turn :: "timespec \<Rightarrow> bool \<Rightarrow> int \<Rightarrow> int \<Rightarrow> mixer \<times> period \<Rightarrow>
    (pcm list \<times> mixer \<times> period) res" where
  "playback_turn clock second_passed written recovered = (\<lambda>(m, t).
     rbind (Period_markEvent PERIOD_EVENT_FILL_BUFFER clock t) (\<lambda>t1.
     rbind (fillPlaybackBuffer m) (\<lambda>m1.
     rbind (if second_passed then rbind (Period_getStatisticsAndClear PERIOD_EVENT_FILL_BUFFER t1) (\<lambda>(st, t2). Inr t2)
            else Inr t1) (\<lambda>t2.
     let frames = (if written < 0 then recovered else written) in
     if frames < 0 then Inl (ExitCode 1)
     else Inr (case playbackBuffer m1 of None \<Rightarrow> [] | Some b \<Rightarrow> b, m1, t2)))))"

section \<open>The reference mixer\<close>

text \<open>A sound's remaining samples added to the start of a block.\<close>

fun mix_into :: "pcm list \<Rightarrow> pcm list \<Rightarrow> pcm list" where
  "mix_into [] bs = bs"
| "mix_into (d # ds) [] = []"
| "mix_into (d # ds) (b # bs) = clipNum (sint b + sint d) # mix_into ds bs"

definition remaining :: "mixer \<Rightarrow> playbackSound_t \<Rightarrow> pcm list" where
  "remaining m b = (case pSound b of None \<Rightarrow> []
     | Some w \<Rightarrow> (case pData (waves m w) of None \<Rightarrow> [] | Some dat \<Rightarrow> drop (nat (location b)) dat))"

definition next_slot :: "mixer \<Rightarrow> nat \<Rightarrow> playbackSound_t \<Rightarrow> playbackSound_t" where
  \<comment> \<open>a slot after a block of \<open>n\<close> samples\<close>
  "next_slot m n b = (case pSound b of None \<Rightarrow> b
     | Some w \<Rightarrow> (case pData (waves m w) of None \<Rightarrow> b
         | Some dat \<Rightarrow> if length (remaining m b) \<le> n then free_slot else b\<lparr>location := location b + int n\<rparr>))"

definition mixed_block :: "mixer \<Rightarrow> nat \<Rightarrow> pcm list" where
  "mixed_block m n = fold mix_into (map (remaining m) (soundBites m)) (replicate n 0)"

definition occupied :: "playbackSound_t list \<Rightarrow> nat" where
  "occupied bs = length (filter (\<lambda>b. pSound b \<noteq> None) bs)"

definition waves_ok :: "mixer \<Rightarrow> bool" where
  "waves_ok m \<longleftrightarrow> (\<forall>w. case pData (waves m w) of None \<Rightarrow> True | Some dat \<Rightarrow> numSamples (waves m w) = int (length dat))"

lemma waves_ok_cong: "waves m' = waves m \<Longrightarrow> waves_ok m' = waves_ok m"
  by (simp add: waves_ok_def cong: option.case_cong)

definition slots_ok :: "playbackSound_t list \<Rightarrow> bool" where
  "slots_ok bs \<longleftrightarrow> length bs = 30 \<and> (\<forall>b \<in> set bs. 0 \<le> location b \<and> (pSound b = None \<longrightarrow> b = free_slot))"

definition mixer_ok :: "mixer \<Rightarrow> bool" where
  "mixer_ok m \<longleftrightarrow> waves_ok m \<and> slots_ok (soundBites m) \<and> numSoundBites m = int (occupied (soundBites m))"

lemma length_mix_into [simp]: "length (mix_into ds bs) = length bs"
  by (induction ds bs rule: mix_into.induct) auto

lemma mix_loop_eq:
  assumes "0 \<le> j" "0 \<le> k" "k \<le> int (length buff)" "n = int (length dat)"
  shows "mix_loop dat n j k buff off =
    Inr (take (nat k) buff @ mix_into (drop (nat j) dat) (drop (nat k) buff),
         off + int (min (length dat - nat j) (length buff - nat k)))"
  using assms
proof (induction dat n j k buff off rule: mix_loop.induct)
  case (1 dat n j k buff off)
  show ?case
  proof (cases "j < n \<and> k < int (length buff)")
    case True
    then have in_r: "in_range buff k" "in_range dat j" and lt: "nat k < length buff" "nat j < length dat"
      using "1.prems" by (simp_all add: in_range_def nat_less_iff)
    let ?b = "buff[nat k := clipNum (sint (buff ! nat k) + sint (dat ! nat j))]"
    have ih: "mix_loop dat n (j + 1) (k + 1) ?b (off + 1) =
      Inr (take (nat (k + 1)) ?b @ mix_into (drop (nat (j + 1)) dat) (drop (nat (k + 1)) ?b),
           off + 1 + int (min (length dat - nat (j + 1)) (length ?b - nat (k + 1))))"
      using True "1.prems" in_r by (intro "1.IH") auto
    have k1: "nat (k + 1) = Suc (nat k)" "nat (j + 1) = Suc (nat j)" using "1.prems" by (simp_all add: nat_add_distrib)
    have parts: "drop (nat k) buff = buff ! nat k # drop (Suc (nat k)) buff"
      "drop (nat j) dat = dat ! nat j # drop (Suc (nat j)) dat"
      using lt by (simp_all add: Cons_nth_drop_Suc)
    have "take (Suc (nat k)) ?b = take (nat k) buff @ [clipNum (sint (buff ! nat k) + sint (dat ! nat j))]"
      using lt by (simp add: take_Suc_conv_app_nth)
    moreover have "int (min (length dat - nat j) (length buff - nat k)) =
        1 + int (min (length dat - Suc (nat j)) (length buff - Suc (nat k)))"
      using Suc_diff_Suc [OF lt(1)] Suc_diff_Suc [OF lt(2)] by (metis min_Suc_Suc of_nat_Suc)
    ultimately show ?thesis
      using True in_r ih k1 by (subst mix_loop.simps) (simp add: parts)
  next
    case False
    then have "nat j \<ge> length dat \<or> nat k \<ge> length buff" using "1.prems" by linarith
    moreover have "mix_into ds [] = []" for ds by (cases ds) auto
    ultimately show ?thesis using False by (subst mix_loop.simps) auto
  qed
qed

definition freed :: "mixer \<Rightarrow> nat \<Rightarrow> playbackSound_t \<Rightarrow> int" where
  "freed m n b = (if pSound b \<noteq> None \<and> pSound (next_slot m n b) = None then 1 else 0)"

lemma remaining_cong: "waves m' = waves m \<Longrightarrow> remaining m' = remaining m"
  by (rule ext) (simp add: remaining_def cong: option.case_cong)

lemma next_slot_cong: "waves m' = waves m \<Longrightarrow> next_slot m' = next_slot m"
  using remaining_cong [of m' m] by (intro ext) (simp add: next_slot_def cong: option.case_cong)

text \<open>One slot: its sound is mixed in, and the slot moves on or is freed.\<close>

lemma fill_slots_step:
  assumes sz: "60 \<le> sz" "int (length buff) = sz" and i: "0 \<le> i" "i < 30" "c \<le> 2 * i"
    and ok: "waves_ok m" "slots_ok (soundBites m)" and b: "b = soundBites m ! nat i"
  shows "\<exists>c'. c' \<le> 2 * (i + 1) \<and> fill_slots sz i c buff m = fill_slots sz (i + 1) c' (mix_into (remaining m b) buff)
    (m\<lparr>soundBites := (soundBites m)[nat i := next_slot m (nat sz) b],
       numSoundBites := numSoundBites m - freed m (nat sz) b\<rparr>)"
proof -
  have r: "in_range (soundBites m) i" using i ok(2) by (simp add: in_range_def slots_ok_def)
  have lb: "0 \<le> location b" using ok(2) i by (auto simp: b slots_ok_def)
  have guard: "i < MAX_SOUND_BITES \<and> c < sz" using i sz by (simp add: MAX_SOUND_BITES_def)
  have b': "soundBites m ! nat i = b" by (simp add: b)
  have idle: ?thesis if "remaining m b = []" "next_slot m (nat sz) b = b"
    "fill_slots sz i c buff m = fill_slots sz (i + 1) c buff m"
    using that i(3) by (intro exI [of _ c]) (auto simp: b freed_def)
  show ?thesis
  proof (cases "pSound b")
    case None
    then have "fill_slots sz i c buff m = fill_slots sz (i + 1) c buff m"
      using guard r by (subst fill_slots.simps) (simp add: b')
    then show ?thesis using None by (intro idle) (simp_all add: remaining_def next_slot_def)
  next
    case (Some w)
    show ?thesis
    proof (cases "pData (waves m w)")
      case None
      then have "fill_slots sz i c buff m = fill_slots sz (i + 1) c buff m"
        using guard r Some by (subst fill_slots.simps) (simp add: b')
      then show ?thesis using Some None by (intro idle) (simp_all add: remaining_def next_slot_def)
    next
      case dat: (Some dat)
      have n: "numSamples (waves m w) = int (length dat)"
        using ok(1) dat by (auto simp: waves_ok_def dest: spec [of _ w])
      have rem: "remaining m b = drop (nat (location b)) dat" using Some dat by (simp add: remaining_def)
      have ml: "mix_loop dat (numSamples (waves m w)) (location b) 0 buff (location b) =
          Inr (mix_into (remaining m b) buff, location b + int (min (length dat - nat (location b)) (length buff)))"
        using mix_loop_eq [OF lb, of 0 buff "numSamples (waves m w)" dat "location b"] n by (simp add: rem)
      have iff: "numSamples (waves m w) \<le> location b + int (min (length dat - nat (location b)) (length buff)) \<longleftrightarrow>
          length (remaining m b) \<le> nat sz"
        using sz lb by (simp add: rem n min_def) linarith
      have off: "location b + int (min (length dat - nat (location b)) (length buff)) = location b + int (nat sz)"
        if "\<not> length (remaining m b) \<le> nat sz" using that sz by (simp add: rem)
      have step: "fill_slots sz i c buff m = fill_slots sz (i + 1) (c + SAMPLE_SIZE) (mix_into (remaining m b) buff)
          (m\<lparr>soundBites := (soundBites m)[nat i := next_slot m (nat sz) b],
             numSoundBites := numSoundBites m - freed m (nat sz) b\<rparr>)"
      proof (cases "length (remaining m b) \<le> nat sz")
        case True
        then have "next_slot m (nat sz) b = free_slot" "freed m (nat sz) b = 1"
          using Some dat by (simp_all add: next_slot_def freed_def free_slot_def)
        then show ?thesis using guard r Some dat iff True by (subst fill_slots.simps) (simp add: b' ml)
      next
        case False
        then have ns: "next_slot m (nat sz) b = b\<lparr>location := location b + int (nat sz)\<rparr>" "freed m (nat sz) b = 0"
          using Some dat by (simp_all add: next_slot_def freed_def)
        show ?thesis using guard r Some dat iff False off [OF False] ns by (subst fill_slots.simps) (simp add: b' ml)
      qed
      show ?thesis using step i(3) by (intro exI [of _ "c + SAMPLE_SIZE"]) (simp add: SAMPLE_SIZE_def)
    qed
  qed
qed

lemma next_slot_ok: "0 \<le> location b \<Longrightarrow> (pSound b = None \<longrightarrow> b = free_slot) \<Longrightarrow>
   0 \<le> location (next_slot m n b) \<and> (pSound (next_slot m n b) = None \<longrightarrow> next_slot m n b = free_slot)"
  by (auto simp: next_slot_def free_slot_def split: option.splits)

lemma slots_ok_update: "slots_ok bs \<Longrightarrow> i < 30 \<Longrightarrow> slots_ok (bs[i := next_slot m n (bs ! i)])"
  using next_slot_ok [of "bs ! i" m n] by (auto simp: slots_ok_def dest!: set_update_subset_insert [THEN subsetD])

lemma fill_slots_eq:
  assumes "60 \<le> sz" "int (length buff) = sz" "0 \<le> i" "i \<le> 30" "c \<le> 2 * i" "waves_ok m" "slots_ok (soundBites m)"
  shows "fill_slots sz i c buff m = Inr (fold mix_into (map (remaining m) (drop (nat i) (soundBites m))) buff,
    m\<lparr>soundBites := take (nat i) (soundBites m) @ map (next_slot m (nat sz)) (drop (nat i) (soundBites m)),
      numSoundBites := numSoundBites m - sum_list (map (freed m (nat sz)) (drop (nat i) (soundBites m)))\<rparr>)"
  using assms
proof (induction "nat (30 - i)" arbitrary: i c buff m)
  case 0
  then have "i = 30" "length (soundBites m) = 30" by (simp_all add: slots_ok_def)
  then show ?case by (subst fill_slots.simps) (simp add: MAX_SOUND_BITES_def)
next
  case (Suc d)
  let ?bs = "soundBites m" and ?k = "nat i"
  have lt: "i < 30" "?k < 30" "length ?bs = 30" using Suc.hyps(2) Suc.prems by (simp_all add: slots_ok_def)
  let ?b = "?bs ! ?k"
  let ?m = "m\<lparr>soundBites := ?bs[?k := next_slot m (nat sz) ?b], numSoundBites := numSoundBites m - freed m (nat sz) ?b\<rparr>"
  obtain c' where c': "c' \<le> 2 * (i + 1)" "fill_slots sz i c buff m = fill_slots sz (i + 1) c' (mix_into (remaining m ?b) buff) ?m"
    using fill_slots_step [OF Suc.prems(1-3) lt(1) Suc.prems(5-7) refl] by blast
  have cong: "remaining ?m = remaining m" "next_slot ?m = next_slot m" "freed ?m = freed m"
    using remaining_cong [of ?m m] next_slot_cong [of ?m m] by (simp_all add: freed_def fun_eq_iff)
  have k1: "nat (i + 1) = Suc ?k" using Suc.prems(3) by (simp add: nat_add_distrib)
  have parts: "drop ?k ?bs = ?b # drop (Suc ?k) ?bs" using lt by (simp add: Cons_nth_drop_Suc)
  have "fill_slots sz (i + 1) c' (mix_into (remaining m ?b) buff) ?m =
    Inr (fold mix_into (map (remaining ?m) (drop (nat (i + 1)) (soundBites ?m))) (mix_into (remaining m ?b) buff),
    ?m\<lparr>soundBites := take (nat (i + 1)) (soundBites ?m) @ map (next_slot ?m (nat sz)) (drop (nat (i + 1)) (soundBites ?m)),
      numSoundBites := numSoundBites ?m - sum_list (map (freed ?m (nat sz)) (drop (nat (i + 1)) (soundBites ?m)))\<rparr>)"
  proof (rule Suc.hyps(1))
    show "d = nat (30 - (i + 1))" using Suc.hyps(2) by simp
    show "waves_ok ?m" using Suc.prems(6) waves_ok_cong [of ?m m] by simp
    show "slots_ok (soundBites ?m)" using slots_ok_update [OF Suc.prems(7) lt(2)] by simp
  qed (use Suc.prems lt c'(1) in simp_all)
  then show ?case
    unfolding c'(2) cong k1 parts using lt by (simp add: take_Suc_conv_app_nth)
qed

lemma occupied_next: "int (occupied (map (next_slot m n) bs)) = int (occupied bs) - sum_list (map (freed m n) bs)"
proof (induction bs)
  case (Cons b bs)
  have "pSound b = None \<Longrightarrow> next_slot m n b = b" by (simp add: next_slot_def)
  then show ?case using Cons by (auto simp: occupied_def freed_def)
qed (simp add: occupied_def)

lemma fill_runs:
  assumes ok: "mixer_ok m" and buf: "playbackBuffer m = Some buff" "60 \<le> length buff"
  shows "\<exists>m'. fillPlaybackBuffer m = Inr m' \<and> mixer_ok m' \<and> playbackBuffer m' = Some (mixed_block m (length buff)) \<and>
    soundBites m' = map (next_slot m (length buff)) (soundBites m) \<and>
    m' = m\<lparr>soundBites := soundBites m', numSoundBites := numSoundBites m', playbackBuffer := playbackBuffer m'\<rparr>"
proof -
  have o: "waves_ok m" "slots_ok (soundBites m)" using ok by (simp_all add: mixer_ok_def)
  let ?n = "length buff"
  let ?m = "m\<lparr>soundBites := map (next_slot m ?n) (soundBites m),
      numSoundBites := numSoundBites m - sum_list (map (freed m ?n) (soundBites m)),
      playbackBuffer := Some (mixed_block m ?n)\<rparr>"
  have "fill_slots (int ?n) 0 0 (replicate ?n 0) m = Inr (mixed_block m ?n,
      m\<lparr>soundBites := map (next_slot m ?n) (soundBites m),
        numSoundBites := numSoundBites m - sum_list (map (freed m ?n) (soundBites m))\<rparr>)"
    using fill_slots_eq [of "int ?n" "replicate ?n 0" 0 0 m] o buf(2) by (simp add: mixed_block_def)
  then have run: "fillPlaybackBuffer m = Inr ?m" using buf(1) by (simp add: fillPlaybackBuffer_def)
  have "slots_ok (soundBites ?m)" using o(2) next_slot_ok by (force simp: slots_ok_def)
  moreover have "waves_ok ?m" using o(1) waves_ok_cong [of ?m m] by simp
  ultimately have "mixer_ok ?m" using ok by (simp add: mixer_ok_def occupied_next)
  then show ?thesis using run by (intro exI [of _ ?m]) simp
qed

text \<open>
  The mixer as an abstract player: what is left of the sound in each of its slots. A live
  mixer has no slot that is occupied with nothing left to play.
\<close>

definition playing :: "mixer \<Rightarrow> pcm list list" where
  "playing m = map (remaining m) (soundBites m)"

definition live_sounds :: "mixer \<Rightarrow> bool" where
  "live_sounds m \<longleftrightarrow> (\<forall>b \<in> set (soundBites m). pSound b \<noteq> None \<longleftrightarrow> remaining m b \<noteq> [])"

lemma remaining_next:
  "0 \<le> location b \<Longrightarrow> pSound b = None \<or> remaining m b \<noteq> [] \<Longrightarrow>
   remaining m (next_slot m n b) = drop n (remaining m b) \<and>
   (pSound (next_slot m n b) \<noteq> None \<longleftrightarrow> n < length (remaining m b))"
  by (auto simp: remaining_def next_slot_def free_slot_def nat_add_distrib add.commute split: option.splits)

lemma live_count: "live_sounds m \<Longrightarrow> occupied (soundBites m) = length (filter (\<lambda>r. r \<noteq> []) (playing m))"
proof -
  assume "live_sounds m"
  then have "filter (\<lambda>b. pSound b \<noteq> None) (soundBites m) = filter (\<lambda>b. remaining m b \<noteq> []) (soundBites m)"
    by (intro filter_cong) (auto simp: live_sounds_def)
  then show ?thesis by (simp add: occupied_def playing_def filter_map comp_def)
qed

lemma fill_plays:
  assumes ok: "mixer_ok m" "live_sounds m" and buf: "playbackBuffer m = Some buff" "60 \<le> length buff"
  shows "\<exists>m'. fillPlaybackBuffer m = Inr m' \<and> mixer_ok m' \<and> live_sounds m' \<and>
    playbackBuffer m' = Some (fold mix_into (playing m) (replicate (length buff) 0)) \<and>
    playing m' = map (drop (length buff)) (playing m) \<and> waves m' = waves m"
proof -
  obtain m' where m': "fillPlaybackBuffer m = Inr m'" "mixer_ok m'" "playbackBuffer m' = Some (mixed_block m (length buff))"
      "soundBites m' = map (next_slot m (length buff)) (soundBites m)"
      "m' = m\<lparr>soundBites := soundBites m', numSoundBites := numSoundBites m', playbackBuffer := playbackBuffer m'\<rparr>"
    using fill_runs [OF ok(1) buf] by blast
  have same: "waves m' = waves m" by (subst m'(5)) simp
  then have rem: "remaining m' = remaining m" by (rule remaining_cong)
  have nx: "remaining m (next_slot m (length buff) b) = drop (length buff) (remaining m b) \<and>
      (pSound (next_slot m (length buff) b) \<noteq> None \<longleftrightarrow> length buff < length (remaining m b))"
    if "b \<in> set (soundBites m)" for b
    using that ok by (intro remaining_next) (auto simp: mixer_ok_def slots_ok_def live_sounds_def)
  have "live_sounds m'" using nx by (auto simp: live_sounds_def m'(4) rem)
  moreover have "playing m' = map (drop (length buff)) (playing m)" using nx by (simp add: playing_def m'(4) rem)
  ultimately show ?thesis using m' same by (auto simp: mixed_block_def playing_def)
qed

text \<open>
  What a block should hold, sample by sample and in plain integers: the sounds are added in the order of their slots, and each
  sum that leaves the range of a 16-bit sample is replaced by the value next to the limit it passed.
\<close>

definition saturated :: "int \<Rightarrow> int" where
  "saturated x = (if x < - 32768 then - 32767 else if 32767 < x then 32766 else x)"

fun mixed_sample :: "nat \<Rightarrow> pcm list list \<Rightarrow> int \<Rightarrow> int" where
  "mixed_sample i [] acc = acc"
| "mixed_sample i (r # rs) acc = mixed_sample i rs (if i < length r then saturated (acc + sint (r ! i)) else acc)"

lemma sint_clipNum: "sint (clipNum x) = saturated x"
proof -
  have "sint (word_of_int i :: pcm) = i" if "- 32768 \<le> i" "i \<le> 32767" for i
    using that signed_take_bit_int_eq_self [of 15 i] by (simp add: signed_of_int)
  then show ?thesis unfolding clipNum_def saturated_def by (simp add: SHRT_MIN_def SHRT_MAX_def)
qed

lemma nth_mix_into: "i < length bs \<Longrightarrow> mix_into r bs ! i = (if i < length r then clipNum (sint (bs ! i) + sint (r ! i)) else bs ! i)"
proof (induction r bs arbitrary: i rule: mix_into.induct)
  case (3 d ds b bs)
  then show ?case by (cases i) auto
qed simp_all

lemma length_mixed [simp]: "length (fold mix_into rs bs) = length bs"
  by (induction rs arbitrary: bs) simp_all

lemma nth_mixed: "i < length bs \<Longrightarrow> sint (fold mix_into rs bs ! i) = mixed_sample i rs (sint (bs ! i))"
  by (induction rs arbitrary: bs) (simp_all add: nth_mix_into sint_clipNum)

text \<open>
  C4. Filling the playback buffer is exact mixing: for a buffer of at least 60 samples, each output sample is the running sum, in
  slot order and saturated at every step, of the next sample of every sound that is playing (a sum above 32767 becomes 32766,
  one below -32768 becomes -32767); every sound then stands one block further, the sounds that ended have left, and the counter
  is the number of sounds still playing.
\<close>

theorem fill_is_mixing:
  assumes "mixer_ok m" "live_sounds m" "playbackBuffer m = Some buff" "60 \<le> length buff"
  shows "\<exists>m' out. fillPlaybackBuffer m = Inr m' \<and> mixer_ok m' \<and> live_sounds m' \<and>
    playbackBuffer m' = Some out \<and> map sint out = map (\<lambda>i. mixed_sample i (playing m) 0) [0..<length buff] \<and>
    playing m' = map (drop (length buff)) (playing m) \<and>
    numSoundBites m' = int (length (filter (\<lambda>r. length buff < length r) (playing m)))"
proof -
  let ?out = "fold mix_into (playing m) (replicate (length buff) 0)"
  obtain m' where m': "fillPlaybackBuffer m = Inr m'" "mixer_ok m'" "live_sounds m'" "playbackBuffer m' = Some ?out"
      "playing m' = map (drop (length buff)) (playing m)"
    using fill_plays [OF assms] by blast
  have "numSoundBites m' = int (length (filter (\<lambda>r. r \<noteq> []) (playing m')))"
    using m'(2) live_count [OF m'(3)] by (simp add: mixer_ok_def)
  then have "numSoundBites m' = int (length (filter (\<lambda>r. length buff < length r) (playing m)))"
    by (simp add: m'(5) filter_map comp_def not_le)
  moreover have "map sint ?out = map (\<lambda>i. mixed_sample i (playing m) 0) [0..<length buff]"
    by (rule nth_equalityI) (simp_all add: nth_mixed)
  ultimately show ?thesis using m' by blast
qed

text \<open>A mixer with silent slots and a buffer, for the witnesses.\<close>

definition ready :: "nat \<Rightarrow> pcm list \<Rightarrow> mixer" where
  "ready n dat = mixer_start\<lparr>playbackBuffer := Some (replicate n 0),
     waves := (\<lambda>_. \<lparr>numSamples = int (length dat), pData = Some dat\<rparr>)\<rparr>"

lemma ready_ok: "mixer_ok (ready n dat)" "live_sounds (ready n dat)" "playbackBuffer (ready n dat) = Some (replicate n 0)"
  "waves (ready n dat) w = \<lparr>numSamples = int (length dat), pData = Some dat\<rparr>"
  "soundBites (ready n dat) = replicate 30 free_slot" "numSoundBites (ready n dat) = 0" "playing (ready n dat) = replicate 30 []"
  by (simp_all add: ready_def mixer_start_def mixer_ok_def waves_ok_def slots_ok_def MAX_SOUND_BITES_def
      occupied_def live_sounds_def remaining_def free_slot_def playing_def map_replicate_const)

lemma mix_into_Nil [simp]: "mix_into ds [] = []"
  by (cases ds) auto

lemma mix_silent_pow [simp]: "(mix_into [] ^^ k) bs = bs"
  by (induction k) simp_all

text \<open>Two sounds that play at once, from different places: the sum of their first samples is too large for a sample.\<close>

definition two_sounds :: mixer where
  "two_sounds = mixer_start\<lparr>playbackBuffer := Some (replicate 60 0), numSoundBites := 2,
     soundBites := \<lparr>pSound = Some 1, location = 0\<rparr> # \<lparr>pSound = Some 2, location = 1\<rparr> # replicate 28 free_slot,
     waves := (\<lambda>w. if w = 1 then \<lparr>numSamples = 2, pData = Some [30000, 5]\<rparr>
       else if w = 2 then \<lparr>numSamples = 4, pData = Some [9, 30000, 6, - 7]\<rparr> else \<lparr>numSamples = 0, pData = None\<rparr>)\<rparr>"

lemma two_sounds_ok: "mixer_ok two_sounds" "live_sounds two_sounds" "playbackBuffer two_sounds = Some (replicate 60 0)"
  "playing two_sounds = [30000, 5] # [30000, 6, - 7] # replicate 28 []"
  by (simp_all add: two_sounds_def mixer_start_def mixer_ok_def waves_ok_def slots_ok_def occupied_def live_sounds_def remaining_def
      free_slot_def playing_def map_replicate_const)

lemma mixed_silence [simp]: "mixed_sample i (replicate n []) acc = acc"
  by (induction n) simp_all

theorem fill_is_mixing_witness:
  "\<exists>m' out. fillPlaybackBuffer two_sounds = Inr m' \<and> playbackBuffer m' = Some out \<and>
     sint (out ! 0) = 32766 \<and> sint (out ! 1) = 11 \<and> sint (out ! 2) = - 7 \<and> sint (out ! 3) = 0 \<and> numSoundBites m' = 0"
proof -
  obtain m' out where m': "fillPlaybackBuffer two_sounds = Inr m'" "playbackBuffer m' = Some out"
    "map sint out = map (\<lambda>i. mixed_sample i (playing two_sounds) 0) [0..<60]"
    "numSoundBites m' = int (length (filter (\<lambda>r. 60 < length r) (playing two_sounds)))"
    using fill_is_mixing [OF two_sounds_ok(1-3)] by auto
  have "length out = 60" using arg_cong [OF m'(3), of length] by simp
  moreover have "map sint out ! i = mixed_sample i (playing two_sounds) 0" if "i < 60" for i unfolding m'(3) using that by simp
  ultimately have out: "sint (out ! i) = mixed_sample i (playing two_sounds) 0" if "i < 60" for i using that by simp
  show ?thesis using m'(1,2,4) out [of 0] out [of 1] out [of 2] out [of 3]
    by (simp add: two_sounds_ok(4) saturated_def eval_nat_numeral)
qed

section \<open>Queueing and playing\<close>

lemma find_free_Some: "find_free bs = Some i \<Longrightarrow> i < length bs \<and> pSound (bs ! i) = None \<and> (\<forall>j < i. pSound (bs ! j) \<noteq> None)"
proof (induction bs arbitrary: i)
  case (Cons b bs)
  then show ?case by (auto simp: less_Suc_eq_0_disj split: if_splits)
qed simp

lemma find_free_None: "find_free bs = None \<longleftrightarrow> (\<forall>b \<in> set bs. pSound b \<noteq> None)"
  by (induction bs) auto

lemma occupied_update:
  "i < length bs \<Longrightarrow> pSound (bs ! i) = None \<Longrightarrow> occupied (bs[i := b\<lparr>pSound := Some w\<rparr>]) = Suc (occupied bs)"
proof (induction bs arbitrary: i)
  case (Cons c bs)
  then show ?case by (cases i) (auto simp: occupied_def)
qed simp

lemma queue_runs:
  assumes ok: "mixer_ok m" "live_sounds m" and w: "waves m w = \<lparr>numSamples = n, pData = Some dat\<rparr>" "0 < n"
  shows "\<exists>r m'. AudioMixer_queueSound w m = Inr (r, m') \<and> mixer_ok m' \<and> live_sounds m' \<and>
    m' = m\<lparr>soundBites := soundBites m', numSoundBites := numSoundBites m'\<rparr> \<and>
    (r = 0 \<and> (\<exists>i < 30. playing m ! i = [] \<and> (\<forall>j < i. playing m ! j \<noteq> []) \<and> playing m' = (playing m)[i := dat]) \<or>
     r = - 1 \<and> m' = m \<and> numSoundBites m = 30)"
proof (cases "find_free (soundBites m)")
  case None
  have l: "length (soundBites m) = 30" "numSoundBites m = int (occupied (soundBites m))"
    using ok(1) by (simp_all add: mixer_ok_def slots_ok_def)
  have "filter (\<lambda>b. pSound b \<noteq> None) (soundBites m) = soundBites m"
    using None by (intro filter_True) (simp add: find_free_None)
  then have "occupied (soundBites m) = 30" using l(1) by (simp add: occupied_def)
  then show ?thesis using None w ok l by (simp add: AudioMixer_queueSound_def)
next
  case (Some i)
  let ?bs = "soundBites m"
  have i: "i < 30" "pSound (?bs ! i) = None" "\<forall>j < i. pSound (?bs ! j) \<noteq> None" and len: "length ?bs = 30"
    using find_free_Some [OF Some] ok(1) by (auto simp: mixer_ok_def slots_ok_def)
  have bi: "?bs ! i = free_slot" using i len ok(1) by (auto simp: mixer_ok_def slots_ok_def)
  have nd: "n = int (length dat)" "dat \<noteq> []"
    using ok(1) w by (auto simp: mixer_ok_def waves_ok_def dest!: spec [of _ w])
  let ?b = "(?bs ! i)\<lparr>pSound := Some w\<rparr>"
  let ?m = "m\<lparr>soundBites := ?bs[i := ?b], numSoundBites := numSoundBites m + 1\<rparr>"
  have run: "AudioMixer_queueSound w m = Inr (0, ?m)" using Some w by (simp add: AudioMixer_queueSound_def)
  have rem: "remaining ?m = remaining m" by (rule remaining_cong) simp
  have rb: "remaining m ?b = dat" by (simp add: bi free_slot_def remaining_def w(1))
  have "slots_ok (soundBites ?m)"
    using ok(1) i(1) len bi by (auto simp: mixer_ok_def slots_ok_def free_slot_def dest!: set_update_subset_insert [THEN subsetD])
  moreover have "numSoundBites ?m = int (occupied (soundBites ?m))"
    using ok(1) occupied_update [where i = i and bs = ?bs and b = "?bs ! i" and w = w] i len by (simp add: mixer_ok_def)
  moreover have "waves_ok ?m" using ok(1) waves_ok_cong [of ?m m] by (simp add: mixer_ok_def)
  moreover have "live_sounds ?m"
    using ok(2) rb nd(2) by (auto simp: live_sounds_def rem dest!: set_update_subset_insert [THEN subsetD])
  moreover have "playing ?m = (playing m)[i := dat]" by (simp add: playing_def rem map_update rb)
  moreover have "playing m ! i = []" using i(1) len by (simp add: playing_def bi remaining_def free_slot_def)
  moreover have "\<forall>j < i. playing m ! j \<noteq> []"
    using i ok(2) len by (auto simp: playing_def live_sounds_def)
  ultimately show ?thesis using run i(1) by (intro exI [of _ 0] exI [of _ ?m]) (auto simp: mixer_ok_def)
qed

text \<open>Several blocks in a row: what they put out.\<close>

fun play_blocks :: "nat \<Rightarrow> mixer \<Rightarrow> (pcm list \<times> mixer) res" where
  "play_blocks 0 m = Inr ([], m)"
| "play_blocks (Suc k) m =
     rbind (fillPlaybackBuffer m) (\<lambda>m1.
     rbind (play_blocks k m1) (\<lambda>(out, m2).
     Inr ((case playbackBuffer m1 of None \<Rightarrow> [] | Some b \<Rightarrow> b) @ out, m2)))"

lemma clip_in_range: "SHRT_MIN \<le> n \<Longrightarrow> n \<le> SHRT_MAX \<Longrightarrow> clipNum n = word_of_int n"
  by (simp add: clipNum_def)

lemma sint_pcm_range: "SHRT_MIN \<le> sint (d :: pcm) \<and> sint d \<le> SHRT_MAX"
  using sint_range_size [of d] by (simp add: SHRT_MIN_def SHRT_MAX_def word_size)

lemma clip_sample [simp]: "clipNum (sint (d :: pcm)) = d"
  using sint_pcm_range [of d] by (simp add: clip_in_range)

lemma mix_into_silence: "mix_into ds (replicate n 0) = take n ds @ replicate (n - length ds) 0"
proof (induction ds arbitrary: n)
  case (Cons d ds)
  then show ?case by (cases n) simp_all
qed simp

lemma play_one_sound:
  assumes "mixer_ok m" "live_sounds m" "playbackBuffer m = Some buff" "length buff = n" "60 \<le> n"
    and "playing m = r # replicate 29 []" "length r \<le> k * n"
  shows "\<exists>m'. play_blocks k m = Inr (r @ replicate (k * n - length r) 0, m') \<and> mixer_ok m' \<and> live_sounds m' \<and>
    playing m' = replicate 30 []"
  using assms
proof (induction k arbitrary: m buff r)
  case 0
  then show ?case by (simp add: numeral_eq_Suc)
next
  case (Suc k)
  obtain m1 where m1: "fillPlaybackBuffer m = Inr m1" "mixer_ok m1" "live_sounds m1"
      "playbackBuffer m1 = Some (fold mix_into (playing m) (replicate n 0))" "playing m1 = map (drop n) (playing m)"
    using fill_plays [OF Suc.prems(1-3)] Suc.prems(4,5) by auto
  have blk: "fold mix_into (playing m) (replicate n 0) = take n r @ replicate (n - length r) 0"
    by (simp add: Suc.prems(6) mix_into_silence)
  have "playing m1 = drop n r # replicate 29 []" by (simp add: m1(5) Suc.prems(6))
  moreover have "length (drop n r) \<le> k * n" using Suc.prems(7) by simp
  moreover have "length (fold mix_into (playing m) (replicate n 0)) = n" by (simp add: blk min_def)
  ultimately obtain m2 where m2: "play_blocks k m1 = Inr (drop n r @ replicate (k * n - length (drop n r)) 0, m2)"
      "mixer_ok m2" "live_sounds m2" "playing m2 = replicate 30 []"
    using Suc.IH [OF m1(2,3,4) _ Suc.prems(5)] by blast
  have "take n r @ replicate (n - length r) 0 @ drop n r @ replicate (k * n - length (drop n r)) 0 =
      r @ replicate (Suc k * n - length r) (0 :: pcm)"
  proof (cases "length r \<le> n")
    case True
    then show ?thesis by (simp add: replicate_add [symmetric])
  next
    case False
    then have "k * n - (length r - n) = n + k * n - length r" by simp
    then show ?thesis using False by (simp add: append_take_drop_id flip: append_assoc)
  qed
  then show ?case using m1(1,4) m2 blk by auto
qed

text \<open>
  C10. A queued sound is played once, completely and unchanged: queued into a silent mixer, its
  samples come out one for one over the next blocks, followed by silence only, and when they
  are through its slot is free again and the counter is back at zero.
\<close>

theorem sound_plays_once:
  assumes "mixer_ok m" "live_sounds m" "playbackBuffer m = Some buff" "60 \<le> length buff"
    and silent: "playing m = replicate 30 []"
    and w: "waves m w = \<lparr>numSamples = n, pData = Some dat\<rparr>" "0 < n" and k: "length dat \<le> k * length buff"
  shows "\<exists>m1 m2. AudioMixer_queueSound w m = Inr (0, m1) \<and> numSoundBites m1 = 1 \<and>
    play_blocks k m1 = Inr (dat @ replicate (k * length buff - length dat) 0, m2) \<and>
    numSoundBites m2 = 0 \<and> soundBites m2 = replicate 30 free_slot"
proof -
  have none: "length (filter (\<lambda>r. r \<noteq> []) (playing m)) = 0" by (simp add: silent)
  obtain r m1 where q: "AudioMixer_queueSound w m = Inr (r, m1)" "mixer_ok m1" "live_sounds m1"
      "m1 = m\<lparr>soundBites := soundBites m1, numSoundBites := numSoundBites m1\<rparr>"
      "r = 0 \<and> (\<exists>i < 30. playing m ! i = [] \<and> (\<forall>j < i. playing m ! j \<noteq> []) \<and> playing m1 = (playing m)[i := dat]) \<or>
       r = - 1 \<and> m1 = m \<and> numSoundBites m = 30"
    using queue_runs [OF assms(1,2) w] by blast
  have "numSoundBites m = 0" using live_count [OF assms(2)] assms(1) none by (simp add: mixer_ok_def)
  then obtain i where i: "r = 0" "i < 30" "\<forall>j < i. playing m ! j \<noteq> []" "playing m1 = (playing m)[i := dat]"
    using q(5) by auto
  have "i = 0" using i(2,3) silent by (cases i) auto
  then have p1: "playing m1 = dat # replicate 29 []" using i(4) silent by (simp add: numeral_eq_Suc)
  have "dat \<noteq> []" using assms(1) w by (auto simp: mixer_ok_def waves_ok_def dest!: spec [of _ w])
  then have "numSoundBites m1 = 1" using q(2) live_count [OF q(3)] by (simp add: mixer_ok_def p1)
  moreover have "playbackBuffer m1 = Some buff" using assms(3) by (subst q(4)) simp
  ultimately obtain m2 where m2: "play_blocks k m1 = Inr (dat @ replicate (k * length buff - length dat) 0, m2)"
      "mixer_ok m2" "live_sounds m2" "playing m2 = replicate 30 []"
    using play_one_sound [OF q(2,3) _ refl assms(4) p1 k] by blast
  have n2: "numSoundBites m2 = 0" using live_count [OF m2(3)] m2(2) by (simp add: mixer_ok_def m2(4))
  have "soundBites m2 = replicate 30 free_slot"
  proof (rule nth_equalityI)
    show l: "length (soundBites m2) = length (replicate 30 free_slot)" using m2(2) by (simp add: mixer_ok_def slots_ok_def)
    fix i assume i: "i < length (soundBites m2)"
    then have "remaining m2 (soundBites m2 ! i) = playing m2 ! i" by (simp add: playing_def)
    then have "remaining m2 (soundBites m2 ! i) = []" using l i m2(4) by simp
    then have "pSound (soundBites m2 ! i) = None" using m2(3) i by (auto simp: live_sounds_def)
    then show "soundBites m2 ! i = replicate 30 free_slot ! i"
      using m2(2) i l by (auto simp: mixer_ok_def slots_ok_def)
  qed
  then show ?thesis using q(1) i(1) m2(1) n2 \<open>numSoundBites m1 = 1\<close> by auto
qed

theorem sound_plays_once_witness:
  "\<exists>m1 m2. AudioMixer_queueSound 4 (ready 60 [5, 6, 7]) = Inr (0, m1) \<and>
     play_blocks 1 m1 = Inr ([5, 6, 7] @ replicate 57 0, m2) \<and> numSoundBites m2 = 0"
  using sound_plays_once [OF ready_ok(1-3) _ ready_ok(7) ready_ok(4), of 60 "[5, 6, 7]" 1 4] by auto

section \<open>Saturation\<close>

text \<open>
  Saturation: within the range of a sample \<open>clipNum\<close> keeps the sum, outside it is one short
  of the limit (32766 and -32767 instead of 32767 and -32768), so the result is always within
  one of the ideal saturated sum but not monotone: 32768 becomes less than 32767.
\<close>

theorem clip_saturates:
  "sint (clipNum n) = (if n > SHRT_MAX then SHRT_MAX - 1 else if n < SHRT_MIN then SHRT_MIN + 1 else n) \<and>
   \<bar>sint (clipNum n) - max SHRT_MIN (min SHRT_MAX n)\<bar> \<le> 1 \<and>
   sint (clipNum (SHRT_MAX + 1)) < sint (clipNum SHRT_MAX)"
proof -
  have s: "sint (word_of_int i :: pcm) = i" if "SHRT_MIN \<le> i" "i \<le> SHRT_MAX" for i
    using that signed_take_bit_int_eq_self [of 15 i] by (simp add: SHRT_MIN_def SHRT_MAX_def signed_of_int)
  have v: "sint (clipNum i) = (if i > SHRT_MAX then SHRT_MAX - 1 else if i < SHRT_MIN then SHRT_MIN + 1 else i)" for i
    unfolding clipNum_def using s by (auto simp: SHRT_MIN_def SHRT_MAX_def)
  show ?thesis using v [of n] v [of "SHRT_MAX + 1"] v [of SHRT_MAX] by (auto simp: SHRT_MIN_def SHRT_MAX_def)
qed

section \<open>Knobs\<close>

text \<open>
  A value that can be set within limits, and that a setting beyond them leaves alone; the
  volume and the tempo are two such knobs. What follows for a client that turns a knob by
  steps is proved once.
\<close>

locale knob =
  fixes get :: "'s \<Rightarrow> int" and put :: "int \<Rightarrow> 's \<Rightarrow> 's" and lo hi :: int
  assumes put_in: "lo \<le> v \<Longrightarrow> v \<le> hi \<Longrightarrow> get (put v s) = v"
    and put_out: "v < lo \<or> hi < v \<Longrightarrow> put v s = s"
begin

definition inside :: "'s \<Rightarrow> bool" where
  "inside s \<longleftrightarrow> lo \<le> get s \<and> get s \<le> hi"

definition turn :: "int \<Rightarrow> 's \<Rightarrow> 's" where
  "turn d s = put (get s + d) s"

lemma put_inside: "inside s \<Longrightarrow> inside (put v s)"
  by (cases "lo \<le> v \<and> v \<le> hi") (auto simp: inside_def put_in put_out)

lemma turn_inside: "inside s \<Longrightarrow> inside (turn d s)"
  by (simp add: turn_def put_inside)

lemma get_turn: "inside s \<Longrightarrow> get (turn d s) = (if lo \<le> get s + d \<and> get s + d \<le> hi then get s + d else get s)"
  by (auto simp: turn_def put_in put_out)

text \<open>Turning down by equal steps as far as the limit allows.\<close>

lemma turns_down:
  assumes "inside s" "0 \<le> d" "lo \<le> get s - int k * d"
  shows "get ((turn (- d) ^^ k) s) = get s - int k * d \<and> inside ((turn (- d) ^^ k) s)"
  using assms
proof (induction k)
  case (Suc k)
  have "0 \<le> int k * d" using Suc.prems(2) by simp
  moreover have step: "lo \<le> get s - int k * d - d" using Suc.prems(3) by (simp add: algebra_simps)
  ultimately have ih: "get ((turn (- d) ^^ k) s) = get s - int k * d \<and> inside ((turn (- d) ^^ k) s)"
    using Suc.IH Suc.prems(1,2) by linarith
  have "get s - int k * d - d \<le> hi"
    using Suc.prems(1,2) \<open>0 \<le> int k * d\<close> unfolding inside_def by linarith
  then have "get ((turn (- d) ^^ Suc k) s) = get s - int k * d - d"
    using ih step get_turn [of "(turn (- d) ^^ k) s" "- d"] by simp
  then show ?case using ih turn_inside by (simp add: algebra_simps)
qed simp

end

interpretation tempo_knob: knob tempo AudioMixer_setTempo 0 AUDIOMIXER_MAX_TEMPO
  by unfold_locales (auto simp: AudioMixer_setTempo_def)

interpretation volume_knob: knob volume "AudioMixer_setVolume hw_max" 0 AUDIOMIXER_MAX_VOLUME for hw_max
  by unfold_locales (auto simp: AudioMixer_setVolume_def)

lemma knobs_apart [simp]:
  "volume (AudioMixer_setTempo v m) = volume m" "currentMode (AudioMixer_setTempo v m) = currentMode m"
  "tempo (AudioMixer_setVolume hw v m) = tempo m" "currentMode (AudioMixer_setVolume hw v m) = currentMode m"
  by (simp_all add: AudioMixer_setTempo_def AudioMixer_setVolume_def)

end
