(* ===== verification/Joystick.thy ===== *)
theory Joystick
  imports Prelude CStrings
begin

text \<open>
  The joystick (\<open>work/as1/joystick.c\<close>, \<open>joystick.h\<close> and the same function in
  \<open>work/pcmExample/joystickInput.c\<close>): each direction is a GPIO pin whose value file reads 0
  while it is pressed. What the files hold is an argument.
\<close>

datatype joystick = UP | DOWN | RIGHT | LEFT | CENTER

definition gpio :: "joystick \<Rightarrow> int" where
  "gpio d = (case d of UP \<Rightarrow> 26 | DOWN \<Rightarrow> 46 | RIGHT \<Rightarrow> 47 | LEFT \<Rightarrow> 65 | CENTER \<Rightarrow> 27)"

definition gpio_file :: "joystick \<Rightarrow> string" where
  "gpio_file d = ''/sys/class/gpio/gpio'' @ show_int (gpio d) @ ''/value''"

text \<open>One \<open>fgets\<close> of 1024 bytes: the first line, or nothing at the end of the file.\<close>

definition fgets_line :: "string \<Rightarrow> string option" where
  "fgets_line txt = (if txt = [] then None
     else Some (take 1023 (takeWhile (\<lambda>c. c \<noteq> CHR 0x0A) txt @ take 1 (dropWhile (\<lambda>c. c \<noteq> CHR 0x0A) txt))))"

type_synonym files = "string \<Rightarrow> string option" \<comment> \<open>what each file holds, if it can be opened\<close>

definition isDirectionPressed :: "files \<Rightarrow> joystick \<Rightarrow> bool res" where
  "isDirectionPressed fs direction =
     (case fs (gpio_file direction) of
        None \<Rightarrow> Inl (ExitCode (- 1))
      | Some txt \<Rightarrow> (case fgets_line txt of
            None \<Rightarrow> Inl Uninitialised
          | Some line \<Rightarrow> Inr (c_atoi line = 0)))"

definition randomizeDirection :: "int \<Rightarrow> joystick" where
  \<comment> \<open>the argument is what \<open>rand()\<close> returned\<close>
  "randomizeDirection r = (if r smod 2 \<noteq> 0 then UP else DOWN)"

lemma gpio_file_inj: "gpio_file a = gpio_file b \<Longrightarrow> a = b"
proof -
  assume "gpio_file a = gpio_file b"
  then have "gpio a = gpio b" by (intro show_int_inj) (simp add: gpio_file_def)
  then show ?thesis by (cases a; cases b) (simp_all add: gpio_def)
qed

text \<open>The files as the kernel writes them: \<open>0\<close> or \<open>1\<close> and a newline.\<close>

definition stick :: "(joystick \<Rightarrow> bool) \<Rightarrow> files" where
  "stick pressed f = (if f = gpio_file UP then Some (if pressed UP then ''0\<newline>'' else ''1\<newline>'')
     else if f = gpio_file DOWN then Some (if pressed DOWN then ''0\<newline>'' else ''1\<newline>'')
     else if f = gpio_file RIGHT then Some (if pressed RIGHT then ''0\<newline>'' else ''1\<newline>'')
     else if f = gpio_file LEFT then Some (if pressed LEFT then ''0\<newline>'' else ''1\<newline>'')
     else if f = gpio_file CENTER then Some (if pressed CENTER then ''0\<newline>'' else ''1\<newline>'') else None)"

lemma stick_file: "stick pressed (gpio_file d) = Some (if pressed d then ''0\<newline>'' else ''1\<newline>'')"
  using gpio_file_inj [of d] by (cases d) (auto simp: stick_def)

lemma stick_pressed [simp]: "isDirectionPressed (stick pressed) d = Inr (pressed d)"
  by (simp add: isDirectionPressed_def stick_file fgets_line_def c_atoi_def scan_d_def c_isspace_def
      scan_unsigned_def c_isdigit_def digit_val_def)

end
