(* ===== verification/BeatBox.thy ===== *)
theory BeatBox
  imports AudioMixer Joystick
begin

text \<open>
  The beat-box around the mixer: the beats of the main thread (\<open>work/pcmExample/beatbox.c\<close>), the
  joystick thread (\<open>joystickInput.c\<close>) and the command server (\<open>udpListener.c\<close>). The threads share
  the mixer; a beat queues its sounds under the mixer's lock, so each group of sounds is one
  step. Wave numbers 0 to 2 are the main program's sounds, 3 to 5 the server's own copies.
\<close>

section \<open>Beats\<close>

definition baseDrumFile :: nat where "baseDrumFile = 0"
definition hiHatFile :: nat where "hiHatFile = 1"
definition snareFile :: nat where "snareFile = 2"

text \<open>
  \<open>(60 / (float)tempo / 2) * 1000\<close> in single precision. At tempo 0 the quotient is infinite and
  the conversion of the result to the integer argument of \<open>sleepForMs\<close> is undefined.
\<close>

definition timeForHalfBeatMs :: "int \<Rightarrow> rat res" where
  "timeForHalfBeatMs t = (if t = 0 then Inl DivByZero
     else Inr (rn24 (rn24 (rn24 (60 / rn24 (of_int t)) / 2) * 1000)))"

definition float_to_ms :: "rat \<Rightarrow> int" where \<comment> \<open>the conversion truncates\<close>
  "float_to_ms x = (if x < 0 then - \<lfloor>- x\<rfloor> else \<lfloor>x\<rfloor>)"

definition sleepForMs :: "int \<Rightarrow> timespec" where \<comment> \<open>what is passed to \<open>nanosleep\<close>\<close>
  "sleepForMs delayInMs =
     (let delayNs = delayInMs * (1000 * 1000) in
      \<lparr>tv_sec = delayNs sdiv 1000000000, tv_nsec = delayNs smod 1000000000\<rparr>)"

text \<open>A beat is a list of groups: the sounds queued under one lock, then a sleep.\<close>

type_synonym beat = "(nat list \<times> rat) list"

definition rockBeat :: "rat \<Rightarrow> beat" where
  "rockBeat half = [([hiHatFile, baseDrumFile], half), ([hiHatFile], half),
     ([hiHatFile, snareFile], half), ([hiHatFile], half)]"

definition randomBeat :: "rat \<Rightarrow> beat" where
  "randomBeat half = [([baseDrumFile], half), ([hiHatFile, snareFile], half),
     ([baseDrumFile], rn24 (half / 2)), ([baseDrumFile], rn24 (half / 2)), ([hiHatFile, snareFile], half)]"

definition playBeat :: "int \<Rightarrow> rat \<Rightarrow> beat" where
  "playBeat mode half =
     (if mode = mode_value ROCK then rockBeat half
      else if mode = mode_value NONE then [([], half)]
      else randomBeat half)"

fun queue_all :: "nat list \<Rightarrow> mixer \<Rightarrow> mixer res" where
  "queue_all [] m = Inr m"
| "queue_all (w # ws) m = rbind (AudioMixer_queueSound w m) (\<lambda>(r, m1). queue_all ws m1)"

text \<open>
  A beat while the playback thread runs: during each sleep it mixes some number of blocks.
\<close>

fun run_beat :: "beat \<Rightarrow> nat list \<Rightarrow> mixer \<Rightarrow> (timespec list \<times> mixer) res" where
  "run_beat [] blocks m = Inr ([], m)"
| "run_beat ((ws, ms) # groups) blocks m =
     rbind (queue_all ws m) (\<lambda>m1.
     rbind (play_blocks (case blocks of [] \<Rightarrow> 0 | k # _ \<Rightarrow> k) m1) (\<lambda>(out, m2).
     rbind (run_beat groups (tl blocks) m2) (\<lambda>(ts, m3).
     Inr (sleepForMs (float_to_ms ms) # ts, m3))))"

definition main_turn :: "nat list \<Rightarrow> mixer \<Rightarrow> (timespec list \<times> mixer) res" where
  "main_turn blocks m =
     rbind (timeForHalfBeatMs (AudioMixer_getTempo m)) (\<lambda>half.
     run_beat (playBeat (AudioMixer_getMode m) half) blocks m)"

section \<open>The joystick thread\<close>

definition joystick_turn :: "int \<Rightarrow> files \<Rightarrow> mixer \<Rightarrow> mixer res" where
  "joystick_turn hw_max fs m =
     rbind (isDirectionPressed fs CENTER) (\<lambda>c. if c then Inr (snd (AudioMixer_cycleNextMode m)) else
     rbind (isDirectionPressed fs RIGHT) (\<lambda>r. if r then Inr (AudioMixer_setTempo (AudioMixer_getTempo m + 5) m) else
     rbind (isDirectionPressed fs LEFT) (\<lambda>l. if l then Inr (AudioMixer_setTempo (AudioMixer_getTempo m - 5) m) else
     rbind (isDirectionPressed fs UP) (\<lambda>u. if u then Inr (AudioMixer_setVolume hw_max (AudioMixer_getVolume m + 5) m) else
     rbind (isDirectionPressed fs DOWN) (\<lambda>d. if d then Inr (AudioMixer_setVolume hw_max (AudioMixer_getVolume m - 5) m) else
     Inr m)))))"

section \<open>The command server\<close>

record server =
  serving :: bool
  txBuffer :: "string option"  \<comment> \<open>the reply buffer, if it was ever written\<close>

definition server_start :: server where
  "server_start = \<lparr>serving = True, txBuffer = None\<rparr>"

definition fmt_2f :: "rat \<Rightarrow> string" where \<comment> \<open>\<open>%.2f\<close>\<close>
  "fmt_2f x = (let m = nat (rne (\<bar>x\<bar> * 100)) in
     (if x < 0 then ''-'' else '''') @ show_nat (m div 100) @ ''.'' @
     [digit_char (m div 10 mod 10), digit_char (m mod 10)])"

definition answer :: "string \<Rightarrow> server \<Rightarrow> mixer \<Rightarrow> (string list \<times> server \<times> mixer) res" where
  "answer msg sv m = (if length msg < 1024 then Inr ([msg], sv\<lparr>txBuffer := Some msg\<rparr>, m) else Inl OutOfBounds)"

definition play_own :: "nat \<Rightarrow> string \<Rightarrow> server \<Rightarrow> mixer \<Rightarrow> (string list \<times> server \<times> mixer) res" where
  "play_own w msg sv m = rbind (AudioMixer_queueSound w m) (\<lambda>(r, m1). answer msg sv m1)"

text \<open>\<open>uptime\<close> is what the up-time file holds, if it can be opened.\<close>

definition beatbox_handleRequest :: "int \<Rightarrow> rat option \<Rightarrow> string \<Rightarrow> server \<Rightarrow> mixer \<Rightarrow>
    (string list \<times> server \<times> mixer) res" where
  "beatbox_handleRequest hw_max uptime messageRx sv m =
     (if starts_with ''modeNone'' messageRx
      then answer ''Current mode: None\<newline>'' sv (snd (AudioMixer_setMode NONE m))
      else if starts_with ''modeRock'' messageRx
      then answer ''Current mode: Rock!!!\<newline>'' sv (snd (AudioMixer_setMode ROCK m))
      else if starts_with ''modeCustom'' messageRx
      then answer ''Current mode: Custom\<newline>'' sv (snd (AudioMixer_setMode CUSTOM m))
      else if starts_with ''volumeUp'' messageRx
      then (let m1 = AudioMixer_setVolume hw_max (AudioMixer_getVolume m + 5) m in
            answer (''new volume: '' @ show_int (AudioMixer_getVolume m1) @ ''\<newline>'') sv m1)
      else if starts_with ''volumeDown'' messageRx
      then (let m1 = AudioMixer_setVolume hw_max (AudioMixer_getVolume m - 5) m in
            answer (''new volume: '' @ show_int (AudioMixer_getVolume m1) @ ''\<newline>'') sv m1)
      else if starts_with ''tempoUp'' messageRx
      then (let m1 = AudioMixer_setTempo (AudioMixer_getTempo m + 5) m in
            answer (''new tempo: '' @ show_int (AudioMixer_getTempo m1) @ ''\<newline>'') sv m1)
      else if starts_with ''tempoDown'' messageRx
      then (let m1 = AudioMixer_setTempo (AudioMixer_getTempo m - 5) m in
            answer (''new tempo: '' @ show_int (AudioMixer_getTempo m1) @ ''\<newline>'') sv m1)
      else if starts_with ''getvol'' messageRx
      then answer (''current volume: '' @ show_int (AudioMixer_getVolume m) @ ''\<newline>'') sv m
      else if starts_with ''gettempo'' messageRx
      then answer (''current tempo: '' @ show_int (AudioMixer_getTempo m) @ ''\<newline>'') sv m
      else if starts_with ''getUpdates'' messageRx
      then (case uptime of
          None \<Rightarrow> Inr ([], sv, m)
        | Some up \<Rightarrow> answer (''update: '' @ show_int (AudioMixer_getTempo m) @ '' '' @ show_int (AudioMixer_getVolume m) @ '' '' @
              show_int (AudioMixer_getMode m) @ '' '' @ fmt_2f up @ ''\<newline>'') sv m)
      else if starts_with ''base'' messageRx then play_own (baseDrumFile + 3) ''playing base drum\<newline>'' sv m
      else if starts_with ''hihat'' messageRx then play_own (hiHatFile + 3) ''playing hihat\<newline>'' sv m
      else if starts_with ''snare'' messageRx then play_own (snareFile + 3) ''playing snare\<newline>'' sv m
      else if starts_with ''terminate'' messageRx
      then rbind (answer ''Server shut down. Goodbye!\<newline>'' sv
              (AudioMixer_freeWaveFileData (snareFile + 3) (AudioMixer_freeWaveFileData (hiHatFile + 3)
                (AudioMixer_freeWaveFileData (baseDrumFile + 3) (AudioMixer_cleanup m))))) (\<lambda>(out, sv1, m1).
           Inr (out, sv1\<lparr>serving := False\<rparr>, m1))
      else (case txBuffer sv of None \<Rightarrow> Inl Uninitialised | Some tx \<Rightarrow> Inr ([tx], sv, m)))"

definition server_turn :: "int \<Rightarrow> rat option \<Rightarrow> string option \<Rightarrow> server \<Rightarrow> mixer \<Rightarrow> (string list \<times> server \<times> mixer) res" where
  "server_turn hw_max uptime received sv m =
     (case received of
        None \<Rightarrow> Inl OutOfBounds \<comment> \<open>\<open>messageRx[-1] = 0\<close>\<close>
      | Some bytes \<Rightarrow> beatbox_handleRequest hw_max uptime (cstring bytes) sv m)"

section \<open>Controlling the beat\<close>

text \<open>The two control threads, one request or one poll of the joystick at a time.\<close>

datatype control =
    Request "string option" "rat option"   \<comment> \<open>a datagram and the up-time file\<close>
  | Poll files

fun control_step :: "int \<Rightarrow> control \<Rightarrow> server \<times> mixer \<Rightarrow> (string list \<times> server \<times> mixer) res" where
  "control_step hw (Request received uptime) (sv, m) = server_turn hw uptime received sv m"
| "control_step hw (Poll fs) (sv, m) = rbind (joystick_turn hw fs m) (\<lambda>m1. Inr ([], sv, m1))"

fun control_run :: "int \<Rightarrow> control list \<Rightarrow> server \<times> mixer \<Rightarrow> (string list \<times> server \<times> mixer) res" where
  "control_run hw [] st = Inr ([], st)"
| "control_run hw (c # cs) st =
     rbind (control_step hw c st) (\<lambda>(out, st1). rbind (control_run hw cs st1) (\<lambda>(out', st2). Inr (out @ out', st2)))"

definition knobs_ok :: "mixer \<Rightarrow> bool" where
  "knobs_ok m \<longleftrightarrow> 0 \<le> volume m \<and> volume m \<le> 100 \<and> 5 dvd volume m \<and> 0 \<le> tempo m \<and> tempo m \<le> 500 \<and> 5 dvd tempo m \<and>
     currentMode m \<in> {1, 2, 3}"

lemma knobs_ok_set:
  "knobs_ok m \<Longrightarrow> knobs_ok (AudioMixer_setVolume hw (volume m + 5) m)"
  "knobs_ok m \<Longrightarrow> knobs_ok (AudioMixer_setVolume hw (volume m - 5) m)"
  "knobs_ok m \<Longrightarrow> knobs_ok (AudioMixer_setTempo (tempo m + 5) m)"
  "knobs_ok m \<Longrightarrow> knobs_ok (AudioMixer_setTempo (tempo m - 5) m)"
  "knobs_ok m \<Longrightarrow> knobs_ok (snd (AudioMixer_cycleNextMode m))"
  "knobs_ok m \<Longrightarrow> knobs_ok (snd (AudioMixer_setMode b m))"
  "knobs_ok m \<Longrightarrow> knobs_ok (AudioMixer_freeWaveFileData w m)"
  "knobs_ok m \<Longrightarrow> knobs_ok (AudioMixer_cleanup m)"
  by (auto simp: knobs_ok_def AudioMixer_setVolume_def AudioMixer_setTempo_def AudioMixer_cycleNextMode_def Let_def
      AudioMixer_setMode_def mode_value_def AudioMixer_freeWaveFileData_def AudioMixer_cleanup_def
      AUDIOMIXER_MAX_VOLUME_def AUDIOMIXER_MAX_TEMPO_def split: beatMode.splits)

lemma knobs_ok_queue: "AudioMixer_queueSound w m = Inr (r, m') \<Longrightarrow> knobs_ok m \<Longrightarrow> knobs_ok m'"
  by (auto simp: AudioMixer_queueSound_def knobs_ok_def res_iff split: option.splits)

lemma answer_mixer: "answer msg sv m = Inr (out, sv', m') \<Longrightarrow> m' = m"
  by (auto simp: answer_def split: if_splits)

lemma play_own_mixer: "play_own w msg sv m = Inr (out, sv', m') \<Longrightarrow> knobs_ok m \<Longrightarrow> knobs_ok m'"
  by (auto simp: play_own_def res_iff dest!: answer_mixer intro: knobs_ok_queue)

lemmas getters = AudioMixer_getVolume_def AudioMixer_getTempo_def AudioMixer_getMode_def

lemma handleRequest_knobs:
  assumes "beatbox_handleRequest hw uptime msg sv m = Inr (out, sv', m')" "knobs_ok m"
  shows "knobs_ok m'"
  using assms(1) knobs_ok_set [OF assms(2)] assms(2)
  by (auto simp: beatbox_handleRequest_def getters Let_def res_iff knobs_ok_set dest!: answer_mixer
      dest: play_own_mixer [OF _ assms(2)] split: if_splits option.splits)

lemma joystick_knobs: "joystick_turn hw fs m = Inr m' \<Longrightarrow> knobs_ok m \<Longrightarrow> knobs_ok m'"
  by (auto simp: joystick_turn_def getters res_iff knobs_ok_set split: if_splits)

lemma control_step_knobs: "control_step hw c (sv, m) = Inr (out, sv', m') \<Longrightarrow> knobs_ok m \<Longrightarrow> knobs_ok m'"
  by (cases c) (auto simp: server_turn_def res_iff intro: handleRequest_knobs joystick_knobs split: option.splits)

text \<open>
  Whatever requests the server receives and whatever the joystick does, in any order, the
  volume stays between 0 and 100, the tempo between 0 and 500, both multiples of 5, and the
  mode one of the three.
\<close>

theorem knobs_stay_in_range:
  assumes "knobs_ok m" "control_run hw cs (sv, m) = Inr (out, sv', m')"
  shows "knobs_ok m'"
  using assms
proof (induction cs arbitrary: sv m out)
  case (Cons c cs)
  then obtain o1 sv1 m1 o2 where s: "control_step hw c (sv, m) = Inr (o1, sv1, m1)"
      "control_run hw cs (sv1, m1) = Inr (o2, sv', m')"
    by (auto simp: res_iff)
  show ?case using Cons.IH [OF control_step_knobs [OF s(1) Cons.prems(1)] s(2)] .
qed simp

theorem knobs_stay_in_range_witness:
  "\<exists>m'. control_run 100 [Poll (stick (\<lambda>d. d = UP)), Poll (stick (\<lambda>d. d = CENTER))]
      (server_start, AudioMixer_setVolume 100 DEFAULT_VOLUME mixer_start) = Inr ([], server_start, m') \<and>
    volume m' = 55 \<and> currentMode m' = 2 \<and> knobs_ok m'"
proof -
  let ?m = "AudioMixer_setVolume 100 DEFAULT_VOLUME mixer_start"
  have ok: "knobs_ok ?m"
    by (simp add: knobs_ok_def AudioMixer_setVolume_def mixer_start_def DEFAULT_VOLUME_def AUDIOMIXER_MAX_VOLUME_def)
  let ?r = "snd (AudioMixer_cycleNextMode (AudioMixer_setVolume 100 55 ?m))"
  have run: "control_run 100 [Poll (stick (\<lambda>d. d = UP)), Poll (stick (\<lambda>d. d = CENTER))] (server_start, ?m) = Inr ([], server_start, ?r)"
    by (simp add: joystick_turn_def getters AudioMixer_setVolume_def DEFAULT_VOLUME_def AUDIOMIXER_MAX_VOLUME_def)
  show ?thesis
    using knobs_stay_in_range [OF ok run] run
    by (auto simp: AudioMixer_cycleNextMode_def Let_def AudioMixer_setVolume_def mixer_start_def DEFAULT_VOLUME_def AUDIOMIXER_MAX_VOLUME_def)
qed

lemma answer_short: "length msg < 1024 \<Longrightarrow> answer msg sv m = Inr ([msg], sv\<lparr>txBuffer := Some msg\<rparr>, m)"
  by (simp add: answer_def)

lemma knob_text: "knobs_ok m \<Longrightarrow> length (show_int (volume m)) \<le> 20 \<and> length (show_int (tempo m)) \<le> 20"
  by (auto simp: knobs_ok_def intro!: length_show_int)

lemma tempo_down_request:
  assumes "knobs_ok m"
  shows "\<exists>out. control_step hw (Request (Some ''tempoDown'') up) (sv, m) =
    Inr ([out], sv\<lparr>txBuffer := Some out\<rparr>, tempo_knob.turn (- 5) m)"
proof -
  let ?m = "AudioMixer_setTempo (tempo m - 5) m"
  have "length (show_int (tempo ?m)) \<le> 20" using knob_text [OF knobs_ok_set(4) [OF assms]] by simp
  then show ?thesis
    by (simp add: server_turn_def beatbox_handleRequest_def cstring_def starts_with_def getters Let_def answer_short tempo_knob.turn_def)
qed

lemma tempo_down_requests:
  assumes "knobs_ok m"
  shows "\<exists>out sv'. control_run hw (replicate k (Request (Some ''tempoDown'') up)) (sv, m) =
    Inr (out, sv', (tempo_knob.turn (- 5) ^^ k) m)"
  using assms
proof (induction k arbitrary: sv m)
  case (Suc k)
  obtain out where out: "control_step hw (Request (Some ''tempoDown'') up) (sv, m) =
      Inr ([out], sv\<lparr>txBuffer := Some out\<rparr>, tempo_knob.turn (- 5) m)"
    using tempo_down_request [OF Suc.prems] by blast
  have "knobs_ok (tempo_knob.turn (- 5) m)" using knobs_ok_set(4) [OF Suc.prems] by (simp add: tempo_knob.turn_def)
  from Suc.IH [OF this, of "sv\<lparr>txBuffer := Some out\<rparr>"] show ?case
    using out by (auto simp: funpow_swap1)
qed simp

text \<open>
  The tempo can be turned down to a value the beat cannot play: from a tempo of \<open>5 k\<close>, \<open>k\<close>
  \<open>tempoDown\<close> requests are all accepted and leave tempo 0, at which the next turn of the main
  thread divides by it and converts the infinite result to an integer.
\<close>

theorem tempo_zero_stops_beat:
  assumes "knobs_ok m" "tempo m = 5 * int k"
  shows "\<exists>out sv' m'. control_run hw (replicate k (Request (Some ''tempoDown'') up)) (sv, m) = Inr (out, sv', m') \<and>
    AudioMixer_getTempo m' = 0 \<and> main_turn blocks m' = Inl DivByZero"
proof -
  let ?m = "(tempo_knob.turn (- 5) ^^ k) m"
  have "tempo_knob.inside m" using assms(1) unfolding tempo_knob.inside_def by (simp add: knobs_ok_def AUDIOMIXER_MAX_TEMPO_def)
  then have "tempo ?m = 0" using tempo_knob.turns_down [of m 5 k] assms(2) by simp
  then show ?thesis
    using tempo_down_requests [OF assms(1), of hw k up sv] by (auto simp: main_turn_def getters timeForHalfBeatMs_def)
qed

theorem tempo_zero_stops_beat_witness:
  "\<exists>out sv' m'. control_run 100 (replicate 14 (Request (Some ''tempoDown'') None)) (server_start, mixer_start) = Inr (out, sv', m') \<and>
    main_turn [] m' = Inl DivByZero"
proof -
  have "knobs_ok mixer_start" "tempo mixer_start = 5 * int 14" by (simp_all add: knobs_ok_def mixer_start_def)
  from tempo_zero_stops_beat [OF this, of 100 None server_start "[]"] show ?thesis by blast
qed

section \<open>The beat\<close>

lemma half_beat_500: "rn24 (rn24 (rn24 (60 / 500) / 2) * 1000) = 60"
proof -
  have a: "rn24 (60 / 500) = 16106127 / 2 ^ 27"
    unfolding rn24_def by (subst rnd_eqI [where k = "-4" and e = "-27" and n = 16106127]) (simp_all add: power_int_minus)
  have b: "rn24 (16106127 / 2 ^ 27 / 2) = 16106127 / 2 ^ 28"
    unfolding rn24_def by (subst rnd_eqI [where k = "-5" and e = "-28" and n = 16106127]) (simp_all add: power_int_minus)
  have c: "rn24 (16106127 / 2 ^ 28 * 1000) = 60"
    unfolding rn24_def by (subst rnd_eqI [where k = 5 and e = "-18" and n = 15728640]) (simp_all add: power_int_minus)
  show ?thesis unfolding a b c by simp
qed

lemma half_beat_mono:
  assumes "0 < (x::rat)" "x \<le> y"
  shows "rn24 (rn24 (rn24 (60 / y) / 2) * 1000) \<le> rn24 (rn24 (rn24 (60 / x) / 2) * 1000)"
  using assms by (intro rn24_mono mult_right_mono divide_right_mono) (auto intro: divide_left_mono)

lemma half_beat_1: "rn24 (rn24 (rn24 (60 / 1) / 2) * 1000) = 30000"
  using rn24_int [of 60] rn24_int [of 30] rn24_int [of 30000] by simp

text \<open>
  The tempo sets the pace: for every tempo from 1 to 500 the half beat is defined, the
  thread sleeps between 60 ms (at 500) and 30 s (at 1) for it, and a higher tempo never makes
  it longer, single-precision rounding included.
\<close>

theorem half_beat_bounds:
  assumes "0 < t" "t \<le> u" "u \<le> AUDIOMIXER_MAX_TEMPO"
  shows "\<exists>h k. timeForHalfBeatMs t = Inr h \<and> timeForHalfBeatMs u = Inr k \<and> k \<le> h \<and>
    60 \<le> float_to_ms k \<and> float_to_ms k \<le> float_to_ms h \<and> float_to_ms h \<le> 30000"
proof -
  let ?f = "\<lambda>i. rn24 (rn24 (rn24 (60 / rat_of_int i) / 2) * 1000)"
  have u: "u \<le> 500" using assms(3) by (simp add: AUDIOMIXER_MAX_TEMPO_def)
  have r: "rn24 (of_int t) = of_int t" "rn24 (of_int u) = of_int u" using assms u by (auto intro!: rn24_int)
  have "?f 500 \<le> ?f u" by (rule half_beat_mono) (use assms u in auto)
  moreover have "?f u \<le> ?f t" by (rule half_beat_mono) (use assms in auto)
  moreover have "?f t \<le> ?f 1" by (rule half_beat_mono) (use assms in auto)
  ultimately have o: "60 \<le> ?f u" "?f u \<le> ?f t" "?f t \<le> 30000" using half_beat_500 half_beat_1 by simp_all
  have "60 \<le> float_to_ms (?f u)" "float_to_ms (?f u) \<le> float_to_ms (?f t)" "float_to_ms (?f t) \<le> 30000"
    using o floor_mono [OF o(2)] floor_mono [OF o(3)] by (simp_all add: float_to_ms_def le_floor_iff)
  then show ?thesis using o assms r by (auto simp: timeForHalfBeatMs_def)
qed

theorem half_beat_bounds_witness:
  "\<exists>h k. timeForHalfBeatMs 70 = Inr h \<and> timeForHalfBeatMs 75 = Inr k \<and> k \<le> h \<and> 60 \<le> float_to_ms k"
  using half_beat_bounds [of 70 75] by (auto simp: AUDIOMIXER_MAX_TEMPO_def)

text \<open>The sounds the beats use are loaded.\<close>

definition loaded :: "mixer \<Rightarrow> bool" where
  "loaded m \<longleftrightarrow> (\<forall>w \<in> {baseDrumFile, hiHatFile, snareFile}. pData (waves m w) \<noteq> None \<and> 0 < numSamples (waves m w))"

definition beat_ready :: "mixer \<Rightarrow> bool" where
  "beat_ready m \<longleftrightarrow> mixer_ok m \<and> live_sounds m \<and> loaded m \<and> (\<exists>b. playbackBuffer m = Some b \<and> 60 \<le> length b)"

text \<open>
  What is heard, in terms of what is left to play in the slots: a sound that is queued takes the first slot with nothing left, or
  is lost when there is none; a block of \<open>n\<close> samples takes \<open>n\<close> samples off every sound. \<open>heard\<close> is a score: groups of sounds that are
  queued together, each followed by a sleep in which the playback thread mixes so many blocks.
\<close>

fun joins :: "'a list \<Rightarrow> 'a list list \<Rightarrow> 'a list list" where
  "joins d [] = []"
| "joins d (r # rs) = (if r = [] then d # rs else r # joins d rs)"

fun heard :: "nat \<Rightarrow> (nat \<Rightarrow> 'a list) \<Rightarrow> nat list list \<Rightarrow> nat list \<Rightarrow> 'a list list \<Rightarrow> 'a list list" where
  "heard n sound [] blocks rs = rs"
| "heard n sound (ws # groups) blocks rs =
     heard n sound groups (tl blocks) (map (drop ((if blocks = [] then 0 else hd blocks) * n)) (fold (\<lambda>w. joins (sound w)) ws rs))"

definition sound_of :: "mixer \<Rightarrow> nat \<Rightarrow> pcm list" where
  "sound_of m w = (case pData (waves m w) of None \<Rightarrow> [] | Some dat \<Rightarrow> dat)"

lemma joins_first: "i < length rs \<Longrightarrow> rs ! i = [] \<Longrightarrow> (\<forall>j < i. rs ! j \<noteq> []) \<Longrightarrow> joins d rs = rs[i := d]"
proof (induction rs arbitrary: i)
  case (Cons r rs)
  show ?case
  proof (cases i)
    case (Suc k)
    have "r \<noteq> []" "\<forall>j < k. rs ! j \<noteq> []" using Cons.prems(3) Suc by force+
    then show ?thesis using Cons.IH [of k] Cons.prems Suc by simp
  qed (use Cons.prems in simp)
qed simp

lemma joins_full: "[] \<notin> set rs \<Longrightarrow> joins d rs = rs"
  by (induction rs) auto

definition same_sounds :: "mixer \<Rightarrow> mixer \<Rightarrow> bool" where
  "same_sounds m m' \<longleftrightarrow> waves m' = waves m \<and> map_option length (playbackBuffer m') = map_option length (playbackBuffer m)"

lemma same_sounds_trans: "same_sounds m m1 \<Longrightarrow> same_sounds m1 m2 \<Longrightarrow> same_sounds m m2"
  by (simp add: same_sounds_def)

lemma same_sounds_sound: "same_sounds m m' \<Longrightarrow> sound_of m' = sound_of m"
  by (simp add: same_sounds_def sound_of_def fun_eq_iff)

lemma same_sounds_buffer: "same_sounds m m' \<Longrightarrow> playbackBuffer m = Some b \<Longrightarrow> \<exists>b'. playbackBuffer m' = Some b' \<and> length b' = length b"
  by (auto simp: same_sounds_def map_option_eq_Some)

lemma queue_ready:
  assumes "beat_ready m" "w \<in> {baseDrumFile, hiHatFile, snareFile}"
  obtains r m' where "AudioMixer_queueSound w m = Inr (r, m')" "beat_ready m'" "same_sounds m m'" "playing m' = joins (sound_of m w) (playing m)"
proof -
  have l: "pData (waves m w) \<noteq> None" "0 < numSamples (waves m w)" using assms by (auto simp: beat_ready_def loaded_def)
  obtain n dat where w: "waves m w = \<lparr>numSamples = n, pData = Some dat\<rparr>" "0 < n"
    using l by (cases "waves m w") auto
  have ok: "mixer_ok m" "live_sounds m" using assms(1) by (simp_all add: beat_ready_def)
  obtain r m' where q: "AudioMixer_queueSound w m = Inr (r, m')" "mixer_ok m'" "live_sounds m'"
      "m' = m\<lparr>soundBites := soundBites m', numSoundBites := numSoundBites m'\<rparr>"
      "r = 0 \<and> (\<exists>i < 30. playing m ! i = [] \<and> (\<forall>j < i. playing m ! j \<noteq> []) \<and> playing m' = (playing m)[i := dat]) \<or>
       r = - 1 \<and> m' = m \<and> numSoundBites m = 30"
    using queue_runs [OF ok w] by blast
  have same: "waves m' = waves m" "playbackBuffer m' = playbackBuffer m" by (subst q(4); simp)+
  have len: "length (playing m) = 30" using ok(1) by (simp add: playing_def mixer_ok_def slots_ok_def)
  have "playing m' = joins dat (playing m)"
  proof (cases "r = 0")
    case True
    then show ?thesis using q(5) joins_first [of _ "playing m" dat] len by auto
  next
    case False
    then have m: "m' = m" "numSoundBites m = 30" using q(5) by auto
    have "length (filter (\<lambda>r. r \<noteq> []) (playing m)) = length (playing m)"
      using m(2) live_count [OF ok(2)] ok(1) len by (simp add: mixer_ok_def)
    then have "[] \<notin> set (playing m)" using length_filter_less [of "[]" "playing m" "\<lambda>r. r \<noteq> []"] by auto
    then show ?thesis using m(1) by (simp add: joins_full)
  qed
  moreover have "sound_of m w = dat" using w by (simp add: sound_of_def)
  ultimately show ?thesis using that q(1-3) assms(1) same by (auto simp: beat_ready_def loaded_def same_sounds_def)
qed

lemma queue_all_ready:
  assumes "beat_ready m" "set ws \<subseteq> {baseDrumFile, hiHatFile, snareFile}"
  shows "\<exists>m'. queue_all ws m = Inr m' \<and> beat_ready m' \<and> same_sounds m m' \<and> playing m' = fold (\<lambda>w. joins (sound_of m w)) ws (playing m)"
  using assms
proof (induction ws arbitrary: m)
  case (Cons w ws)
  obtain r m1 where q: "AudioMixer_queueSound w m = Inr (r, m1)" "beat_ready m1" "same_sounds m m1" "playing m1 = joins (sound_of m w) (playing m)"
    using queue_ready [OF Cons.prems(1), of w] Cons.prems(2) by auto
  obtain m' where m': "queue_all ws m1 = Inr m'" "beat_ready m'" "same_sounds m1 m'" "playing m' = fold (\<lambda>w. joins (sound_of m1 w)) ws (playing m1)"
    using Cons.IH [OF q(2)] Cons.prems(2) by auto
  show ?case using q(1) m' same_sounds_trans [OF q(3) m'(3)] by (simp add: q(4) same_sounds_sound [OF q(3)])
qed (simp add: same_sounds_def)

lemma play_ready:
  assumes "beat_ready m" "playbackBuffer m = Some b"
  shows "\<exists>out m'. play_blocks k m = Inr (out, m') \<and> beat_ready m' \<and> same_sounds m m' \<and> playing m' = map (drop (k * length b)) (playing m)"
  using assms
proof (induction k arbitrary: m b)
  case (Suc k)
  have b: "60 \<le> length b" and ok: "mixer_ok m" "live_sounds m" using Suc.prems by (auto simp: beat_ready_def)
  obtain m1 where m1: "fillPlaybackBuffer m = Inr m1" "mixer_ok m1" "live_sounds m1"
      "playbackBuffer m1 = Some (fold mix_into (playing m) (replicate (length b) 0))" "waves m1 = waves m"
      "playing m1 = map (drop (length b)) (playing m)"
    using fill_plays [OF ok Suc.prems(2) b] by blast
  have r: "beat_ready m1" "same_sounds m m1" using Suc.prems m1 b by (auto simp: beat_ready_def loaded_def same_sounds_def)
  obtain out m' where m': "play_blocks k m1 = Inr (out, m')" "beat_ready m'" "same_sounds m1 m'"
      "playing m' = map (drop (k * length b)) (playing m1)"
    using Suc.IH [OF r(1) m1(4)] by auto
  show ?case using m1(1,4) m'(1,2) same_sounds_trans [OF r(2) m'(3)] by (auto simp: m'(4) m1(6) add.commute)
qed (simp add: same_sounds_def)

lemma run_beat_ready:
  assumes "beat_ready m" "playbackBuffer m = Some b" "\<forall>(ws, ms) \<in> set g. set ws \<subseteq> {baseDrumFile, hiHatFile, snareFile}"
  shows "\<exists>m'. run_beat g blocks m = Inr (map (\<lambda>(ws, ms). sleepForMs (float_to_ms ms)) g, m') \<and> beat_ready m' \<and>
     playing m' = heard (length b) (sound_of m) (map fst g) blocks (playing m)"
  using assms
proof (induction g arbitrary: blocks m b)
  case (Cons x g)
  obtain ws ms where x: "x = (ws, ms)" by fastforce
  have ws: "set ws \<subseteq> {baseDrumFile, hiHatFile, snareFile}" using Cons.prems(3) x by auto
  obtain m1 where m1: "queue_all ws m = Inr m1" "beat_ready m1" "same_sounds m m1" "playing m1 = fold (\<lambda>w. joins (sound_of m w)) ws (playing m)"
    using queue_all_ready [OF Cons.prems(1) ws] by blast
  obtain b1 where b1: "playbackBuffer m1 = Some b1" "length b1 = length b" using same_sounds_buffer [OF m1(3) Cons.prems(2)] by blast
  let ?k = "case blocks of [] \<Rightarrow> 0 | k # _ \<Rightarrow> k"
  obtain out m2 where m2: "play_blocks ?k m1 = Inr (out, m2)" "beat_ready m2" "same_sounds m1 m2" "playing m2 = map (drop (?k * length b)) (playing m1)"
    using play_ready [OF m1(2) b1(1)] b1(2) by metis
  obtain b2 where b2: "playbackBuffer m2 = Some b2" "length b2 = length b" using same_sounds_buffer [OF m2(3) b1(1)] b1(2) by auto
  obtain m3 where m3: "run_beat g (tl blocks) m2 = Inr (map (\<lambda>(ws, ms). sleepForMs (float_to_ms ms)) g, m3)" "beat_ready m3"
      "playing m3 = heard (length b) (sound_of m2) (map fst g) (tl blocks) (playing m2)"
    using Cons.IH [OF m2(2) b2(1), of "tl blocks"] Cons.prems(3) b2(2) by auto
  have "sound_of m2 = sound_of m" using same_sounds_sound [OF m1(3)] same_sounds_sound [OF m2(3)] by simp
  then have "playing m3 = heard (length b) (sound_of m) (ws # map fst g) blocks (playing m)"
    by (cases blocks) (simp_all add: m3(3) m2(4) m1(4))
  then show ?case using m1(1) m2(1) m3(1,2) by (simp add: x)
qed simp

text \<open>
  C33. The main thread's beat never fails while the sounds are loaded and the tempo is not 0: whatever the playback thread mixes
  during the sleeps, a turn keeps the mixer consistent, sleeps as the mode asks, and queues exactly the sounds of its mode, in their
  order: the rock beat the hi-hat at each of four half beats, with the base drum at the first and the snare at the third; the custom
  beat its own seven sounds, the third half beat being two quarters; the empty beat none. Every queued sound takes the first slot
  that is silent by then, and is dropped silently when none of the thirty is; the counter is the number of sounds still playing.
\<close>

theorem beats_never_fail:
  assumes ok: "beat_ready m" and t: "AudioMixer_getTempo m \<noteq> 0" and half: "timeForHalfBeatMs (AudioMixer_getTempo m) = Inr h"
    and buf: "playbackBuffer m = Some b"
  shows "\<exists>ts m'. main_turn blocks m = Inr (ts, m') \<and> beat_ready m' \<and>
    numSoundBites m' = int (length (filter (\<lambda>r. r \<noteq> []) (playing m'))) \<and>
    ts = map (\<lambda>x. sleepForMs (float_to_ms x))
      (if currentMode m = 2 then [h, h, h, h] else if currentMode m = 1 then [h] else [h, h, rn24 (h / 2), rn24 (h / 2), h]) \<and>
    playing m' = heard (length b) (sound_of m)
      (if currentMode m = 2 then [[hiHatFile, baseDrumFile], [hiHatFile], [hiHatFile, snareFile], [hiHatFile]]
       else if currentMode m = 1 then [[]]
       else [[baseDrumFile], [hiHatFile, snareFile], [baseDrumFile], [baseDrumFile], [hiHatFile, snareFile]]) blocks (playing m)"
proof -
  let ?g = "playBeat (AudioMixer_getMode m) h"
  have sub: "\<forall>(ws, ms) \<in> set ?g. set ws \<subseteq> {baseDrumFile, hiHatFile, snareFile}"
    by (auto simp: playBeat_def rockBeat_def randomBeat_def)
  obtain m' where m': "run_beat ?g blocks m = Inr (map (\<lambda>(ws, ms). sleepForMs (float_to_ms ms)) ?g, m')" "beat_ready m'"
     "playing m' = heard (length b) (sound_of m) (map fst ?g) blocks (playing m)" using run_beat_ready [OF ok buf sub] by blast
  have "numSoundBites m' = int (length (filter (\<lambda>r. r \<noteq> []) (playing m')))"
    using m'(2) live_count [of m'] by (simp add: beat_ready_def mixer_ok_def)
  moreover have "main_turn blocks m = Inr (map (\<lambda>(ws, ms). sleepForMs (float_to_ms ms)) ?g, m')" using half m'(1) by (simp add: main_turn_def)
  ultimately show ?thesis using m'(2,3)
    by (cases "currentMode m = 2"; cases "currentMode m = 1")
      (simp_all add: playBeat_def rockBeat_def randomBeat_def AudioMixer_getMode_def mode_value_def)
qed

text \<open>A rock beat with two samples to a sound: 60 samples are mixed after the first two groups, so their three sounds are over.\<close>

lemma rock_heard:
  "heard 60 (\<lambda>_. [x, y]) [[hiHatFile, baseDrumFile], [hiHatFile], [hiHatFile, snareFile], [hiHatFile]] [0, 1] (replicate 30 []) =
     [x, y] # [x, y] # [x, y] # replicate 27 []"
  by (simp add: numeral_eq_Suc)

theorem beats_never_fail_witness:
  "\<exists>ts m'. main_turn [0, 1] ((ready 60 [1, 2])\<lparr>currentMode := 2\<rparr>) = Inr (ts, m') \<and> length ts = 4 \<and>
     playing m' = [1, 2] # [1, 2] # [1, 2] # replicate 27 [] \<and> numSoundBites m' = 3"
proof -
  let ?m = "(ready 60 [1, 2])\<lparr>currentMode := 2\<rparr>"
  have r: "remaining ?m = remaining (ready 60 [1, 2])" by (rule remaining_cong) simp
  then have ok: "beat_ready ?m"
    using ready_ok(1,2) [of 60 "[1, 2]"] waves_ok_cong [of ?m "ready 60 [1, 2]"]
    by (simp add: beat_ready_def mixer_ok_def live_sounds_def loaded_def ready_ok(3-6))
  have t: "AudioMixer_getTempo ?m = 70" "currentMode ?m = 2" "playbackBuffer ?m = Some (replicate 60 0)"
    by (simp_all add: getters ready_def mixer_start_def)
  have s: "sound_of ?m w = [1, 2]" for w by (simp add: sound_of_def ready_ok(4))
  have p: "playing ?m = replicate 30 []" using r by (simp add: playing_def ready_ok(5) remaining_def free_slot_def map_replicate_const)
  obtain h where h: "timeForHalfBeatMs (AudioMixer_getTempo ?m) = Inr h" by (simp add: t timeForHalfBeatMs_def)
  have s': "sound_of ?m = (\<lambda>_. [1, 2])" using s by (simp add: fun_eq_iff)
  have t0: "AudioMixer_getTempo ?m \<noteq> 0" by (simp add: t(1))
  have "\<exists>ts m'. main_turn [0, 1] ?m = Inr (ts, m') \<and> beat_ready m' \<and> numSoundBites m' = int (length (filter (\<lambda>r. r \<noteq> []) (playing m'))) \<and>
    ts = map (\<lambda>x. sleepForMs (float_to_ms x)) [h, h, h, h] \<and> playing m' = [1, 2] # [1, 2] # [1, 2] # replicate 27 []"
    using beats_never_fail [OF ok t0 h t(3), of "[0, 1]"] by (simp only: t(2) p s' length_replicate if_True simp_thms rock_heard)
  then obtain ts m' where m': "main_turn [0, 1] ?m = Inr (ts, m')" "numSoundBites m' = int (length (filter (\<lambda>r. r \<noteq> []) (playing m')))"
    "ts = map (\<lambda>x. sleepForMs (float_to_ms x)) [h, h, h, h]" "playing m' = [1, 2] # [1, 2] # [1, 2] # replicate 27 []" by blast
  show ?thesis using m'(1-3) by (intro exI [of _ ts] exI [of _ m']) (simp add: m'(4))
qed

end
