(* ===== verification/MorseDriver.thy ===== *)
theory MorseDriver
  imports Prelude
begin

unbundle bit_operations_syntax

text \<open>
  The Morse code kernel driver (\<open>work/morsecode/morsedriver.c\<close>): a write flashes the letters of
  the user's buffer on an LED and queues the dots and dashes for the next read. The kernel is
  outside the repository: its queue is a parameter \<open>put\<close> of the model with the law of the
  locale \<open>kfifo\<close>; what \<open>copy_from_user\<close> can read is the mapped memory around the buffer; LED
  events and sleeps are recorded in a trace.
\<close>

section \<open>State and environment\<close>

definition FIFO_SIZE :: nat where "FIFO_SIZE = 256"
definition LED_DOT_TIME :: int where "LED_DOT_TIME = 200"
definition EFAULT :: int where "EFAULT = 14"

datatype led_event = LedFull | LedOff | Msleep int

record 'f morse =
  echo_fifo :: 'f
  events :: "led_event list"
  ppos :: int

text \<open>
  The user's memory: the mapped bytes from the buffer on, and those below it, nearest first.
\<close>

record umem =
  himem :: string
  lowmem :: string

definition copy_from_user :: "umem \<Rightarrow> int \<Rightarrow> char option" where
  "copy_from_user u i =
     (if 0 \<le> i then if nat i < length (himem u) then Some (himem u ! nat i) else None
      else if nat (- i - 1) < length (lowmem u) then Some (lowmem u ! nat (- i - 1)) else None)"

section \<open>Letters\<close>

definition morsecode_codes :: "16 word list" where
  "morsecode_codes =
     [0xB800, 0xEA80, 0xEBA0, 0xEA00, 0x8000, 0xAE80, 0xEE80, 0xAA00, 0xA000, 0xBBB8, 0xEB80, 0xBA80, 0xEE00,
      0xE800, 0xEEE0, 0xBBA0, 0xEEB8, 0xBA00, 0xA800, 0xE000, 0xAE00, 0xAB80, 0xBB80, 0xEAE0, 0xEBB8, 0xEEA0]"

definition char_code :: "char \<Rightarrow> nat" where
  "char_code = of_char"

definition charToMorse :: "char \<Rightarrow> 16 word" where
  "charToMorse c =
     (if char_code CHR ''A'' \<le> char_code c \<and> char_code c \<le> char_code CHR ''Z''
      then morsecode_codes ! (char_code c - char_code CHR ''A'')
      else if char_code CHR ''a'' \<le> char_code c \<and> char_code c \<le> char_code CHR ''z''
      then morsecode_codes ! (char_code c - char_code CHR ''a'')
      else if c = CHR '' '' then 1
      else 0)"

definition isSpace :: "char \<Rightarrow> bool" where
  "isSpace c \<longleftrightarrow> c = CHR '' '' \<or> c = CHR 0x0A \<or> c = CHR 0x0D \<or> c = CHR 0x09"

definition isAlpha :: "char \<Rightarrow> bool" where
  "isAlpha c \<longleftrightarrow> (char_code CHR ''A'' \<le> char_code c \<and> char_code c \<le> char_code CHR ''Z'') \<or>
     (char_code CHR ''a'' \<le> char_code c \<and> char_code c \<le> char_code CHR ''z'')"

section \<open>Flashing\<close>

definition led_trigger :: "led_event list \<Rightarrow> 'f morse \<Rightarrow> 'f morse" where
  "led_trigger evs s = s\<lparr>events := events s @ evs\<rparr>"

definition fifo_put :: "(char \<Rightarrow> 'f \<Rightarrow> 'f option) \<Rightarrow> char \<Rightarrow> 'f morse \<Rightarrow> 'f morse option" where
  "fifo_put put c s = map_option (\<lambda>f. s\<lparr>echo_fifo := f\<rparr>) (put c (echo_fifo s))"

text \<open>
  The loop shifts the code out at the top; it ends because the position of the lowest set bit
  moves up.
\<close>

lemma reverse_shift: "word_reverse (push_bit k (w :: 16 word)) = drop_bit k (word_reverse w)"
  by (rule bit_word_eqI) (auto simp: bit_word_reverse_iff bit_simps add.commute)

lemma reverse_0_iff: "word_reverse (w :: 16 word) = 0 \<longleftrightarrow> w = 0"
proof -
  have "word_reverse (0 :: 16 word) = 0" by (rule bit_word_eqI) (simp add: bit_word_reverse_iff)
  then show ?thesis by (metis word_rev_rev)
qed

lemma shift_out_less:
  assumes "(w :: 16 word) \<noteq> 0" "0 < k"
  shows "unat (word_reverse (push_bit k w)) < unat (word_reverse w)"
proof -
  have "0 < unat (word_reverse w)" using assms(1) reverse_0_iff [of w] by (simp add: unat_gt_0)
  moreover have "unat (word_reverse (push_bit k w)) = unat (word_reverse w) div 2 ^ k"
  proof -
    have "unat (word_reverse w) < 2 ^ 16" using unsigned_less [of "word_reverse w"] by force
    then have "unat (drop_bit k (word_reverse w)) = drop_bit k (unat (word_reverse w))"
      by (simp add: unsigned_drop_bit_eq take_bit_nat_eq_self)
    then show ?thesis by (simp only: reverse_shift drop_bit_eq_div [of k "unat (word_reverse w)"])
  qed
  moreover have "1 < (2::nat) ^ k" using assms(2) by (intro one_less_power) simp_all
  ultimately show ?thesis by simp
qed

function flash_leds :: "(char \<Rightarrow> 'f \<Rightarrow> 'f option) \<Rightarrow> 16 word \<Rightarrow> 'f morse \<Rightarrow> int \<times> 'f morse" where
  "flash_leds put morse s =
     (if morse = 0 then (0, s)
      else if morse AND 0xE000 = 0xE000
      then (let s1 = led_trigger [LedFull, Msleep (LED_DOT_TIME * 3)] s in
            case fifo_put put CHR ''-'' s1 of
              None \<Rightarrow> (- EFAULT, s1)
            | Some s2 \<Rightarrow> flash_leds put (push_bit 3 morse) s2)
      else if morse AND 0x8000 = 0x8000
      then (let s1 = led_trigger [LedFull, Msleep LED_DOT_TIME] s in
            case fifo_put put CHR ''.'' s1 of
              None \<Rightarrow> (- EFAULT, s1)
            | Some s2 \<Rightarrow> flash_leds put (push_bit 1 morse) s2)
      else flash_leds put (push_bit 1 morse) (led_trigger [LedOff, Msleep LED_DOT_TIME] s))"
  by pat_completeness auto
termination
  by (relation "measure (\<lambda>(put, morse, s). unat (word_reverse morse))") (auto intro!: shift_out_less shift_out_less [of _ 1, simplified])

declare flash_leds.simps [simp del]

section \<open>Writing\<close>

text \<open>The two loops of \<open>trim_spaces\<close>: towards higher and towards lower addresses.\<close>

function skip_up :: "umem \<Rightarrow> char \<Rightarrow> int \<Rightarrow> int option" where
  "skip_up u c curr_idx =
     (if isSpace c \<or> \<not> isAlpha c
      then (case copy_from_user u (curr_idx + 1) of
              None \<Rightarrow> None
            | Some c' \<Rightarrow> skip_up u c' (curr_idx + 1))
      else Some curr_idx)"
  by pat_completeness auto
termination
  by (relation "measure (\<lambda>(u, c, i). nat (int (length (himem u)) - i))")
    (auto simp: copy_from_user_def split: if_splits)

function skip_down :: "umem \<Rightarrow> char \<Rightarrow> int \<Rightarrow> int option" where
  "skip_down u c end_idx =
     (if isSpace c \<or> \<not> isAlpha c
      then (case copy_from_user u (end_idx - 1 - 1) of
              None \<Rightarrow> None
            | Some c' \<Rightarrow> skip_down u c' (end_idx - 1))
      else Some end_idx)"
  by pat_completeness auto
termination
  by (relation "measure (\<lambda>(u, c, e). nat (int (length (lowmem u)) + e))")
    (auto simp: copy_from_user_def split: if_splits)

declare skip_up.simps [simp del] skip_down.simps [simp del]

text \<open>The new \<open>(*curr, *end)\<close>, or nothing when a read faults, which leaves both as they were.\<close>

definition trim_spaces :: "char \<Rightarrow> umem \<Rightarrow> int \<Rightarrow> int \<Rightarrow> (int \<times> int) option" where
  "trim_spaces c u cur ende =
     (case skip_up u c cur of
        None \<Rightarrow> None
      | Some curr_idx \<Rightarrow>
          (case copy_from_user u (ende - 1) of
             None \<Rightarrow> None
           | Some c' \<Rightarrow> map_option (Pair curr_idx) (skip_down u c' ende)))"

text \<open>The inner loop of \<open>my_write\<close>: on to the next letter, noting a space.\<close>

function next_letter :: "umem \<Rightarrow> 16 word \<Rightarrow> int \<Rightarrow> bool \<Rightarrow> (16 word \<times> int \<times> bool) option" where
  "next_letter u morseValue cur spaceFlag =
     (if morseValue = 1 \<or> morseValue = 0
      then (case copy_from_user u (cur + 1) of
              None \<Rightarrow> None
            | Some c \<Rightarrow> next_letter u (charToMorse c) (cur + 1) (spaceFlag \<or> morseValue = 1))
      else Some (morseValue, cur, spaceFlag))"
  by pat_completeness auto
termination
  by (relation "measure (\<lambda>(u, m, i, f). nat (int (length (himem u)) - i))")
    (auto simp: copy_from_user_def split: if_splits)

declare next_letter.simps [simp del]

fun put_all :: "(char \<Rightarrow> 'f \<Rightarrow> 'f option) \<Rightarrow> string \<Rightarrow> 'f morse \<Rightarrow> bool \<times> 'f morse" where
  "put_all put [] s = (True, s)"
| "put_all put (c # cs) s = (case fifo_put put c s of None \<Rightarrow> (False, s) | Some s' \<Rightarrow> put_all put cs s')"

lemma next_letter_le: "next_letter u mv cur f = Some (mv', cur', f') \<Longrightarrow> cur \<le> cur'"
proof (induction u mv cur f rule: next_letter.induct)
  case (1 u mv cur f)
  show ?case
  proof (cases "mv = 1 \<or> mv = 0")
    case True
    then obtain c where c: "copy_from_user u (cur + 1) = Some c"
        "next_letter u (charToMorse c) (cur + 1) (f \<or> mv = 1) = Some (mv', cur', f')"
      using "1.prems" by (subst (asm) next_letter.simps) (auto split: option.splits)
    from "1.IH" [OF True c] show ?thesis by simp
  next
    case False
    then show ?thesis using "1.prems" by (subst (asm) next_letter.simps) auto
  qed
qed

text \<open>The loop over the characters; \<open>None\<close> is falling out of it, \<open>Some\<close> an early return.\<close>

function write_loop :: "(char \<Rightarrow> 'f \<Rightarrow> 'f option) \<Rightarrow> umem \<Rightarrow> int \<Rightarrow> int \<Rightarrow> int \<Rightarrow> bool \<Rightarrow> 'f morse \<Rightarrow> int option \<times> 'f morse" where
  "write_loop put u start ende cur spaceFlag s =
     (if cur < ende
      then (case copy_from_user u cur of
              None \<Rightarrow> (Some (- EFAULT), s)
            | Some c \<Rightarrow>
                (case next_letter u (charToMorse c) cur spaceFlag of
                   None \<Rightarrow> (Some (- EFAULT), s)
                 | Some (morseValue, cur', flag) \<Rightarrow>
                     (let (ok1, s1) = (if cur' \<noteq> start \<and> morseValue \<noteq> 1 \<and> morseValue \<noteq> 0 \<and> \<not> flag
                            then put_all put '' '' (led_trigger [LedOff, Msleep (LED_DOT_TIME * 3)] s)
                            else (True, s)) in
                      if \<not> ok1 then (Some (- EFAULT), s1)
                      else
                        (let (ok2, s2) = (if flag
                               then put_all put ''   '' (led_trigger [LedOff, Msleep (LED_DOT_TIME * 7)] s1)
                               else (True, s1)) in
                         if \<not> ok2 then (Some (- EFAULT), s2)
                         else write_loop put u start ende (cur' + 1) False (snd (flash_leds put morseValue s2))))))
      else (None, s))"
  by pat_completeness auto
termination
  by (relation "measure (\<lambda>(put, u, start, ende, cur, f, s). nat (ende - cur))")
    (auto dest!: next_letter_le)

declare write_loop.simps [simp del]

definition my_write :: "(char \<Rightarrow> 'f \<Rightarrow> 'f option) \<Rightarrow> umem \<Rightarrow> int \<Rightarrow> 'f morse \<Rightarrow> int \<times> 'f morse" where
  "my_write put u count s =
     (case copy_from_user u 0 of
        None \<Rightarrow> (- EFAULT, s)
      | Some c \<Rightarrow>
          (let (start, ende) = (case trim_spaces c u 0 count of None \<Rightarrow> (0, count) | Some p \<Rightarrow> p) in
           case write_loop put u start ende start False s of
             (Some err, s1) \<Rightarrow> (err, s1)
           | (None, s1) \<Rightarrow>
               (case fifo_put put CHR 0x0A (led_trigger [LedOff] s1) of
                  None \<Rightarrow> (- EFAULT, led_trigger [LedOff] s1)
                | Some s2 \<Rightarrow> (count, s2\<lparr>ppos := ppos s2 + count\<rparr>))))"

text \<open>
  \<open>kfifo_to_user\<close> is a parameter: the new queue, and the bytes copied unless it faulted.
\<close>

definition my_read :: "(int \<Rightarrow> 'f \<Rightarrow> 'f \<times> string option) \<Rightarrow> int \<Rightarrow> 'f morse \<Rightarrow> int \<times> string \<times> 'f morse" where
  "my_read to_user count s =
     (case to_user count (echo_fifo s) of
        (f, None) \<Rightarrow> (- EFAULT, [], s\<lparr>echo_fifo := f\<rparr>)
      | (f, Some bytes) \<Rightarrow> (int (length bytes), bytes, s\<lparr>echo_fifo := f\<rparr>))"

section \<open>The code on the LED\<close>

text \<open>The bits of a code from the top down to its lowest one.\<close>

definition code_bits :: "16 word \<Rightarrow> bool list" where
  "code_bits w = rev (dropWhile Not (map (bit w) [0..<16]))"

text \<open>The dots and dashes in a row of bits.\<close>

fun symbols :: "bool list \<Rightarrow> string" where
  "symbols (True # True # True # bs) = CHR ''-'' # symbols bs"
| "symbols (True # bs) = CHR ''.'' # symbols bs"
| "symbols (False # bs) = symbols bs"
| "symbols [] = []"

text \<open>The LED, dot time by dot time, in a trace of events.\<close>

fun lamp :: "bool \<Rightarrow> led_event list \<Rightarrow> bool list" where
  "lamp on [] = []"
| "lamp on (LedFull # evs) = lamp True evs"
| "lamp on (LedOff # evs) = lamp False evs"
| "lamp on (Msleep ms # evs) = replicate (nat (ms div LED_DOT_TIME)) on @ lamp on evs"

fun lamp_state :: "bool \<Rightarrow> led_event list \<Rightarrow> bool" where
  "lamp_state on [] = on"
| "lamp_state on (LedFull # evs) = lamp_state True evs"
| "lamp_state on (LedOff # evs) = lamp_state False evs"
| "lamp_state on (Msleep ms # evs) = lamp_state on evs"

lemma lamp_append: "lamp on (xs @ ys) = lamp on xs @ lamp (lamp_state on xs) ys"
  by (induction on xs rule: lamp.induct) simp_all

lemma top_bits:
  "w AND 0xE000 = (0xE000 :: 16 word) \<longleftrightarrow> bit w 15 \<and> bit w 14 \<and> bit w 13"
  "w AND 0x8000 = (0x8000 :: 16 word) \<longleftrightarrow> bit w 15"
proof -
  have b: "bit (0xE000 :: 16 word) n \<longleftrightarrow> n = 13 \<or> n = 14 \<or> n = 15" if "n < 16" for n
    using that by (auto simp: less_Suc_eq numeral_eq_Suc bit_Suc)
  have c: "bit (0x8000 :: 16 word) n \<longleftrightarrow> n = 15" if "n < 16" for n
    using that by (auto simp: less_Suc_eq numeral_eq_Suc bit_Suc)
  show "w AND 0xE000 = 0xE000 \<longleftrightarrow> bit w 15 \<and> bit w 14 \<and> bit w 13"
  proof
    assume a: "w AND 0xE000 = 0xE000"
    have "bit w n" if "n = 13 \<or> n = 14 \<or> n = 15" for n
      using arg_cong [OF a, of "\<lambda>x. bit x n"] b [of n] that by (auto simp: bit_and_iff)
    then show "bit w 15 \<and> bit w 14 \<and> bit w 13" by blast
  next
    assume t: "bit w 15 \<and> bit w 14 \<and> bit w 13"
    show "w AND 0xE000 = 0xE000"
    proof (rule bit_word_eqI)
      fix n assume "n < LENGTH(16)"
      then show "bit (w AND 0xE000) n = bit (0xE000 :: 16 word) n" using b [of n] t by (auto simp: bit_and_iff)
    qed
  qed
  show "w AND 0x8000 = 0x8000 \<longleftrightarrow> bit w 15"
  proof
    assume a: "w AND 0x8000 = 0x8000"
    show "bit w 15" using arg_cong [OF a, of "\<lambda>x. bit x 15"] c [of 15] by (auto simp: bit_and_iff)
  next
    assume t: "bit w 15"
    show "w AND 0x8000 = 0x8000"
    proof (rule bit_word_eqI)
      fix n assume "n < LENGTH(16)"
      then show "bit (w AND 0x8000) n = bit (0x8000 :: 16 word) n" using c [of n] t by (auto simp: bit_and_iff)
    qed
  qed
qed

lemma code_bits_push:
  assumes "k \<le> 16"
  shows "code_bits (push_bit k w) = rev (dropWhile Not (map (bit w) [0..<16 - k]))"
proof -
  have "map (bit (push_bit k w)) [0..<16] = replicate k False @ map (bit w) [0..<16 - k]"
    using assms by (intro nth_equalityI) (auto simp: nth_append bit_simps)
  moreover have "dropWhile Not (replicate k False @ xs) = dropWhile Not xs" for xs by (induction k) simp_all
  ultimately show ?thesis by (simp add: code_bits_def)
qed

lemma code_bits_split:
  assumes "k \<le> 16" "w \<noteq> 0" and top: "map (bit w) [16 - k..<16] = replicate k t" and "t \<or> (\<exists>i < 16 - k. bit w i)"
  shows "code_bits w = replicate k t @ code_bits (push_bit k w)"
proof -
  have parts: "map (bit w) [0..<16] = map (bit w) [0..<16 - k] @ replicate k t"
  proof -
    have "[0..<16] = [0..<16 - k] @ [16 - k..<16]" using upt_add_eq_append [of 0 "16 - k" k] assms(1) by simp
    then show ?thesis using top by simp
  qed
  have w: "code_bits w = rev (dropWhile Not (map (bit w) [0..<16 - k] @ replicate k t))"
    by (simp add: code_bits_def parts)
  show ?thesis
  proof (cases "\<exists>i < 16 - k. bit w i")
    case True
    then have "True \<in> set (map (bit w) [0..<16 - k])" by force
    then have "dropWhile Not (map (bit w) [0..<16 - k] @ replicate k t) = dropWhile Not (map (bit w) [0..<16 - k]) @ replicate k t"
      by (rule dropWhile_append1) simp
    then show ?thesis unfolding w code_bits_push [OF assms(1)] by simp
  next
    case False
    then have "dropWhile Not (map (bit w) [0..<16 - k]) = []" by auto
    moreover have "dropWhile Not (map (bit w) [0..<16 - k] @ replicate k t) = dropWhile Not (replicate k t)"
      using False by (intro dropWhile_append2) auto
    moreover have "dropWhile Not (replicate k True) = replicate k True" by (cases k) simp_all
    moreover have t using False assms(4) by blast
    ultimately show ?thesis unfolding w code_bits_push [OF assms(1)] by simp
  qed
qed

lemma some_bit: "(w :: 16 word) \<noteq> 0 \<Longrightarrow> \<exists>i < 16. bit w i"
proof (rule ccontr)
  assume w: "w \<noteq> 0" and none: "\<not> (\<exists>i < 16. bit w i)"
  have "w = 0" by (rule bit_word_eqI) (use none in auto)
  then show False using w by simp
qed

lemma code_bits_0 [simp]: "code_bits 0 = []"
  by (simp add: code_bits_def)

lemma upt_top: "[13..<16] = [13, 14, 15::nat]" "[15..<16] = [15::nat]"
  by (simp_all add: upt_rec)

text \<open>The three branches of the loop on the bits.\<close>

lemma code_bits_dash: "w AND 0xE000 = 0xE000 \<Longrightarrow> code_bits w = [True, True, True] @ code_bits (push_bit 3 w)"
  using code_bits_split [of 3 w True] by (cases "w = 0") (simp_all add: top_bits upt_top numeral_3_eq_3)

lemma code_bits_dot: "w AND 0x8000 = 0x8000 \<Longrightarrow> code_bits w = True # code_bits (push_bit 1 w)"
  using code_bits_split [of 1 w True] by (cases "w = 0") (simp_all add: top_bits upt_top)

lemma code_bits_gap: "w \<noteq> 0 \<Longrightarrow> w AND 0x8000 \<noteq> 0x8000 \<Longrightarrow> code_bits w = False # code_bits (push_bit 1 w)"
proof -
  assume w: "w \<noteq> 0" "w AND 0x8000 \<noteq> 0x8000"
  then have nb: "\<not> bit w 15" by (simp add: top_bits)
  obtain i where i: "i < 16" "bit w i" using some_bit [OF w(1)] by blast
  then have "i < 16 - 1" using nb by (cases "i = 15") auto
  then show ?thesis using code_bits_split [of 1 w False] w(1) nb i(2) by (auto simp: upt_top)
qed

lemma symbols_dot:
  assumes "w AND 0xE000 \<noteq> 0xE000" "w AND 0x8000 = 0x8000"
  shows "symbols (code_bits w) = CHR ''.'' # symbols (code_bits (push_bit 1 w))"
proof -
  have c: "code_bits w = True # code_bits (push_bit 1 w)" by (rule code_bits_dot [OF assms(2)])
  have nb: "\<not> (bit w 14 \<and> bit w 13)" using assms by (simp add: top_bits)
  have len: "length (code_bits w) \<le> 16" by (simp add: code_bits_def) (metis length_dropWhile_le length_map length_upt minus_nat.diff_0)
  have at: "code_bits w ! j = bit w (15 - j)" if "j < length (code_bits w)" for j
  proof -
    let ?l = "dropWhile Not (map (bit w) [0..<16])"
    have l: "?l = drop (16 - length ?l) (map (bit w) [0..<16])"
      by (metis diff_diff_cancel dropWhile_eq_drop length_drop length_map length_takeWhile_le length_upt minus_nat.diff_0)
    have j: "j < length ?l" "length ?l \<le> 16" using that len by (simp_all add: code_bits_def)
    have "rev ?l ! j = ?l ! (length ?l - Suc j)" using j by (simp add: rev_nth)
    also have "\<dots> = map (bit w) [0..<16] ! (16 - length ?l + (length ?l - Suc j))"
      using j by (subst l, subst nth_drop) auto
    also have "16 - length ?l + (length ?l - Suc j) = 15 - j" using j by simp
    finally show ?thesis using j by (simp add: code_bits_def)
  qed
  show ?thesis
  proof (cases "\<exists>bs. code_bits w = True # True # True # bs")
    case True
    then have "length (code_bits w) > 2" "code_bits w ! 1" "code_bits w ! 2" by auto
    then show ?thesis using at [of 1] at [of 2] nb by simp
  next
    case False
    then show ?thesis by (cases "code_bits w" rule: symbols.cases) (use c in auto)
  qed
qed

section \<open>The queue, and what one letter does\<close>

locale kfifo =
  fixes put :: "char \<Rightarrow> 'f \<Rightarrow> 'f option" and contents :: "'f \<Rightarrow> string" and cap :: nat
  assumes put_room: "length (contents f) < cap \<Longrightarrow> \<exists>f'. put c f = Some f' \<and> contents f' = contents f @ [c]"
    and put_full: "cap \<le> length (contents f) \<Longrightarrow> put c f = None"
begin

definition queued :: "'f morse \<Rightarrow> string" where
  "queued s = contents (echo_fifo s)"

text \<open>The state reached by adding characters and events, with room for them.\<close>

definition added :: "'f morse \<Rightarrow> string \<Rightarrow> led_event list \<Rightarrow> 'f morse \<Rightarrow> bool" where
  "added s cs evs s' \<longleftrightarrow> queued s' = queued s @ cs \<and> events s' = events s @ evs"

lemma queued_led_trigger [simp]: "queued (led_trigger evs s) = queued s" "events (led_trigger evs s) = events s @ evs"
  by (simp_all add: queued_def led_trigger_def)

lemma fifo_put_room:
  assumes "length (queued s) < cap"
  shows "\<exists>s'. fifo_put put c s = Some s' \<and> added s [c] [] s'"
  using put_room [of "echo_fifo s" c] assms by (auto simp: fifo_put_def added_def queued_def)

lemma fifo_put_full: "cap \<le> length (queued s) \<Longrightarrow> fifo_put put c s = None"
  using put_full [of "echo_fifo s" c] by (simp add: fifo_put_def queued_def)

lemma put_all_room:
  "length (queued s) + length cs \<le> cap \<Longrightarrow> \<exists>s'. put_all put cs s = (True, s') \<and> added s cs [] s'"
proof (induction cs arbitrary: s)
  case (Cons c cs)
  obtain s1 where s1: "fifo_put put c s = Some s1" "added s [c] [] s1"
    using fifo_put_room [of s c] Cons.prems by auto
  have "length (queued s1) + length cs \<le> cap" using s1(2) Cons.prems by (simp add: added_def)
  from Cons.IH [OF this] show ?case using s1 by (auto simp: added_def)
qed (simp add: added_def)

text \<open>Flashing a code shows its bits and queues its dots and dashes.\<close>

lemma flash_shows:
  assumes "length (queued s) + length (symbols (code_bits w)) \<le> cap"
  shows "\<exists>s' evs. flash_leds put w s = (0, s') \<and> added s (symbols (code_bits w)) evs s' \<and>
    (\<forall>on. lamp on evs = code_bits w)"
  using assms
proof (induction "unat (word_reverse w)" arbitrary: w s rule: less_induct)
  case less
  note ih = less.hyps [OF shift_out_less]
  consider (zero) "w = 0" | (dash) "w \<noteq> 0" "w AND 0xE000 = 0xE000"
    | (dot) "w \<noteq> 0" "w AND 0xE000 \<noteq> 0xE000" "w AND 0x8000 = 0x8000"
    | (gap) "w \<noteq> 0" "w AND 0xE000 \<noteq> 0xE000" "w AND 0x8000 \<noteq> 0x8000" by blast
  then show ?case
  proof cases
    case zero
    then show ?thesis by (intro exI [of _ s] exI [of _ "[]"]) (simp add: flash_leds.simps added_def)
  next
    case dash
    let ?s1 = "led_trigger [LedFull, Msleep (LED_DOT_TIME * 3)] s"
    have c: "code_bits w = [True, True, True] @ code_bits (push_bit 3 w)" by (rule code_bits_dash [OF dash(2)])
    have room: "length (queued ?s1) < cap" using less.prems c by simp
    obtain s2 where s2: "fifo_put put CHR ''-'' ?s1 = Some s2" "added ?s1 ''-'' [] s2"
      using fifo_put_room [OF room, of "CHR ''-''"] by auto
    have "length (queued s2) + length (symbols (code_bits (push_bit 3 w))) \<le> cap"
      using s2(2) less.prems c by (simp add: added_def)
    from ih [OF dash(1) _ this] obtain s3 evs where s3: "flash_leds put (push_bit 3 w) s2 = (0, s3)"
        "added s2 (symbols (code_bits (push_bit 3 w))) evs s3" "\<forall>on. lamp on evs = code_bits (push_bit 3 w)" by auto
    have "flash_leds put w s = (0, s3)" using dash s2(1) s3(1) by (subst flash_leds.simps) (simp add: Let_def)
    moreover have "added s (symbols (code_bits w)) ([LedFull, Msleep (LED_DOT_TIME * 3)] @ evs) s3"
      using s2(2) s3(2) c by (simp add: added_def)
    ultimately show ?thesis using s3(3) c
      by (intro exI [of _ s3] exI [of _ "[LedFull, Msleep (LED_DOT_TIME * 3)] @ evs"]) (simp add: LED_DOT_TIME_def numeral_3_eq_3)
  next
    case dot
    let ?s1 = "led_trigger [LedFull, Msleep LED_DOT_TIME] s"
    have c: "code_bits w = True # code_bits (push_bit 1 w)" by (rule code_bits_dot [OF dot(3)])
    have y: "symbols (code_bits w) = CHR ''.'' # symbols (code_bits (push_bit 1 w))" by (rule symbols_dot [OF dot(2,3)])
    have room: "length (queued ?s1) < cap" using less.prems y by simp
    obtain s2 where s2: "fifo_put put CHR ''.'' ?s1 = Some s2" "added ?s1 ''.'' [] s2"
      using fifo_put_room [OF room, of "CHR ''.''"] by auto
    have "length (queued s2) + length (symbols (code_bits (push_bit 1 w))) \<le> cap"
      using s2(2) less.prems y by (simp add: added_def)
    from ih [OF dot(1) _ this] obtain s3 evs where s3: "flash_leds put (push_bit 1 w) s2 = (0, s3)"
        "added s2 (symbols (code_bits (push_bit 1 w))) evs s3" "\<forall>on. lamp on evs = code_bits (push_bit 1 w)" by auto
    have "flash_leds put w s = (0, s3)" using dot s2(1) s3(1) by (subst flash_leds.simps) (simp add: Let_def)
    moreover have "added s (symbols (code_bits w)) ([LedFull, Msleep LED_DOT_TIME] @ evs) s3"
      using s2(2) s3(2) y by (simp add: added_def)
    ultimately show ?thesis using s3(3) c
      by (intro exI [of _ s3] exI [of _ "[LedFull, Msleep LED_DOT_TIME] @ evs"]) (simp add: LED_DOT_TIME_def)
  next
    case gap
    let ?s1 = "led_trigger [LedOff, Msleep LED_DOT_TIME] s"
    have c: "code_bits w = False # code_bits (push_bit 1 w)" by (rule code_bits_gap [OF gap(1,3)])
    have "length (queued ?s1) + length (symbols (code_bits (push_bit 1 w))) \<le> cap" using less.prems c by simp
    from ih [OF gap(1) _ this] obtain s3 evs where s3: "flash_leds put (push_bit 1 w) ?s1 = (0, s3)"
        "added ?s1 (symbols (code_bits (push_bit 1 w))) evs s3" "\<forall>on. lamp on evs = code_bits (push_bit 1 w)" by auto
    have "flash_leds put w s = (0, s3)" using gap s3(1) by (subst flash_leds.simps) simp
    moreover have "added s (symbols (code_bits w)) ([LedOff, Msleep LED_DOT_TIME] @ evs) s3"
      using s3(2) c by (simp add: added_def)
    ultimately show ?thesis using s3(3) c
      by (intro exI [of _ s3] exI [of _ "[LedOff, Msleep LED_DOT_TIME] @ evs"]) (simp add: LED_DOT_TIME_def)
  qed
qed

end

section \<open>International Morse code\<close>

definition itu_table :: "string list" where
  "itu_table = [''.-'', ''-...'', ''-.-.'', ''-..'', ''.'', ''..-.'', ''--.'', ''....'', ''..'', ''.---'', ''-.-'', ''.-..'', ''--'',
     ''-.'', ''---'', ''.--.'', ''--.-'', ''.-.'', ''...'', ''-'', ''..-'', ''...-'', ''.--'', ''-..-'', ''-.--'', ''--..'']"

definition letter_index :: "char \<Rightarrow> nat" where
  "letter_index c = (if char_code c \<le> 90 then char_code c - 65 else char_code c - 97)"

definition itu :: "char \<Rightarrow> string" where
  "itu c = itu_table ! letter_index c"

text \<open>The signal of dots and dashes: one and three dot times on, one off between them.\<close>

fun itu_bits :: "string \<Rightarrow> bool list" where
  "itu_bits [] = []"
| "itu_bits [x] = (if x = CHR ''-'' then [True, True, True] else [True])"
| "itu_bits (x # xs) = (if x = CHR ''-'' then [True, True, True] else [True]) @ False # itu_bits xs"

lemma codes_itu:
  "list_all2 (\<lambda>w t. code_bits w = itu_bits t \<and> symbols (code_bits w) = t \<and> w \<noteq> 0 \<and> w \<noteq> 1) morsecode_codes itu_table"
  by (simp add: morsecode_codes_def itu_table_def code_bits_def upt_rec)

lemma char_codes [simp]: "char_code CHR ''A'' = 65" "char_code CHR ''Z'' = 90" "char_code CHR ''a'' = 97" "char_code CHR ''z'' = 122"
  "char_code CHR '' '' = 32"
  by (simp_all add: char_code_def)

lemma letter_code:
  assumes "isAlpha c"
  shows "code_bits (charToMorse c) = itu_bits (itu c)" "symbols (code_bits (charToMorse c)) = itu c"
    "charToMorse c \<noteq> 0" "charToMorse c \<noteq> 1"
proof -
  have i: "letter_index c < length morsecode_codes" "charToMorse c = morsecode_codes ! letter_index c"
    using assms by (auto simp: isAlpha_def letter_index_def charToMorse_def morsecode_codes_def)
  note t = list_all2_nthD [OF codes_itu i(1), folded i(2) itu_def]
  show "code_bits (charToMorse c) = itu_bits (itu c)" using t by blast
  show "symbols (code_bits (charToMorse c)) = itu c" using t by blast
  show "charToMorse c \<noteq> 0" using t by blast
  show "charToMorse c \<noteq> 1" using t by blast
qed

lemma other_code:
  assumes "\<not> isAlpha c"
  shows "charToMorse c = (if c = CHR '' '' then 1 else 0)"
  using assms by (auto simp: isAlpha_def charToMorse_def)

lemma other_code_iff: "charToMorse c = 1 \<or> charToMorse c = 0 \<longleftrightarrow> \<not> isAlpha c"
  using letter_code(3,4) [of c] other_code [of c] by (cases "isAlpha c"; cases "c = CHR '' ''") simp_all

section \<open>What a text becomes\<close>

text \<open>
  The characters queued and the signal of a text: a letter's symbols, after a gap of one
  blank (three dot times) from the letter before it, or of three blanks (seven dot times)
  when a space lies between them; other characters are ignored.
\<close>

fun encode :: "bool \<Rightarrow> bool \<Rightarrow> string \<Rightarrow> string" where
  "encode first space [] = []"
| "encode first space (c # cs) = (if isAlpha c
     then (if space then ''   '' else if first then [] else '' '') @ itu c @ encode False False cs
     else encode first (space \<or> c = CHR '' '') cs)"

fun signal :: "bool \<Rightarrow> bool \<Rightarrow> string \<Rightarrow> bool list" where
  "signal first space [] = []"
| "signal first space (c # cs) = (if isAlpha c
     then (if space then replicate 7 False else if first then [] else replicate 3 False) @ itu_bits (itu c) @ signal False False cs
     else signal first (space \<or> c = CHR '' '') cs)"

definition no_letters :: "string \<Rightarrow> bool" where
  "no_letters cs \<longleftrightarrow> (\<forall>c \<in> set cs. \<not> isAlpha c)"

lemma encode_gap:
  "no_letters gap \<Longrightarrow> encode first space (gap @ cs) = encode first (space \<or> CHR '' '' \<in> set gap) cs"
  "no_letters gap \<Longrightarrow> signal first space (gap @ cs) = signal first (space \<or> CHR '' '' \<in> set gap) cs"
proof (induction gap arbitrary: space)
  case (Cons g gap)
  have e: "CHR '' '' \<in> set (g # gap) \<longleftrightarrow> g = CHR '' '' \<or> CHR '' '' \<in> set gap" by auto
  {
    case 1
    then have "\<not> isAlpha g" "no_letters gap" by (simp_all add: no_letters_def)
    then show ?case unfolding e using Cons.IH(1) [of "space \<or> g = CHR '' ''"] by (simp add: disj_assoc)
  next
    case 2
    then have "\<not> isAlpha g" "no_letters gap" by (simp_all add: no_letters_def)
    then show ?case unfolding e using Cons.IH(2) [of "space \<or> g = CHR '' ''"] by (simp add: disj_assoc)
  }
qed simp_all

text \<open>Reading the user's memory around a known part.\<close>

lemma copy_at: "himem u = before @ c # after \<Longrightarrow> copy_from_user u (int (length before)) = Some c"
  by (simp add: copy_from_user_def)

lemma copy_end: "himem u = before \<Longrightarrow> copy_from_user u (int (length before)) = None"
  by (simp add: copy_from_user_def)

lemma next_letter_finds:
  assumes "himem u = before @ gap @ c # after" "no_letters gap" "isAlpha c"
  shows "next_letter u (charToMorse (hd (gap @ [c]))) (int (length before)) f =
    Some (charToMorse c, int (length before + length gap), f \<or> CHR '' '' \<in> set gap)"
  using assms
proof (induction gap arbitrary: before f)
  case Nil
  then show ?case using letter_code(3,4) [of c] by (subst next_letter.simps) simp
next
  case (Cons g gap)
  have g: "\<not> isAlpha g" using Cons.prems(2) by (simp add: no_letters_def)
  have "copy_from_user u (int (length (before @ [g]))) = Some (hd (gap @ [c]))"
    by (rule copy_at [of u "before @ [g]" _ "tl (gap @ c # after)"]) (use Cons.prems(1) in \<open>cases gap; simp\<close>)
  moreover have "next_letter u (charToMorse (hd (gap @ [c]))) (int (length (before @ [g]))) (f \<or> g = CHR '' '') =
      Some (charToMorse c, int (length (before @ [g]) + length gap), (f \<or> g = CHR '' '') \<or> CHR '' '' \<in> set gap)"
    using Cons.prems by (intro Cons.IH) (simp_all add: no_letters_def)
  ultimately show ?case
    using other_code [OF g] other_code_iff [of g] g
    by (subst next_letter.simps) (auto simp: add.commute)
qed

lemma next_letter_faults:
  assumes "himem u = before @ g # gap" "no_letters (g # gap)"
  shows "next_letter u (charToMorse g) (int (length before)) f = None"
  using assms
proof (induction gap arbitrary: before f g)
  case Nil
  then have "copy_from_user u (int (length (before @ [g]))) = None" by (intro copy_end) simp
  then show ?case using Nil other_code_iff [of g] by (subst next_letter.simps) (simp add: no_letters_def add.commute)
next
  case (Cons h gap)
  have "copy_from_user u (int (length (before @ [g]))) = Some h" using Cons.prems(1) by (intro copy_at) simp
  moreover have "next_letter u (charToMorse h) (int (length (before @ [g]))) f' = None" for f'
    using Cons.prems by (intro Cons.IH) (simp_all add: no_letters_def)
  ultimately show ?case using Cons.prems(2) other_code_iff [of g]
    by (subst next_letter.simps) (simp add: no_letters_def add.commute)
qed

lemma skip_up_finds:
  assumes "himem u = before @ gap @ c # after" "no_letters gap" "isAlpha c"
  shows "skip_up u (hd (gap @ [c])) (int (length before)) = Some (int (length before + length gap))"
  using assms
proof (induction gap arbitrary: before)
  case Nil
  then have "\<not> isSpace c" by (auto simp: isSpace_def isAlpha_def char_code_def)
  then show ?case using Nil by (subst skip_up.simps) simp
next
  case (Cons g gap)
  have "copy_from_user u (int (length (before @ [g]))) = Some (hd (gap @ [c]))"
    by (rule copy_at [of u "before @ [g]" _ "tl (gap @ c # after)"]) (use Cons.prems(1) in \<open>cases gap; simp\<close>)
  moreover have "skip_up u (hd (gap @ [c])) (int (length (before @ [g]))) = Some (int (length (before @ [g]) + length gap))"
    using Cons.prems by (intro Cons.IH) (simp_all add: no_letters_def)
  ultimately show ?case using Cons.prems(2) by (subst skip_up.simps) (simp add: no_letters_def add.commute)
qed

lemma skip_up_faults:
  assumes "himem u = before @ g # gap" "no_letters (g # gap)"
  shows "skip_up u g (int (length before)) = None"
  using assms
proof (induction gap arbitrary: before g)
  case Nil
  then have "copy_from_user u (int (length (before @ [g]))) = None" by (intro copy_end) simp
  then show ?case using Nil by (subst skip_up.simps) (simp add: no_letters_def add.commute)
next
  case (Cons h gap)
  have "copy_from_user u (int (length (before @ [g]))) = Some h" using Cons.prems(1) by (intro copy_at) simp
  moreover have "skip_up u h (int (length (before @ [g]))) = None"
    using Cons.prems by (intro Cons.IH) (simp_all add: no_letters_def)
  ultimately show ?case using Cons.prems(2) by (subst skip_up.simps) (simp add: no_letters_def add.commute)
qed

lemma skip_down_finds:
  assumes "himem u = before @ c # gap @ after" "no_letters gap" "isAlpha c"
  shows "skip_down u (last (c # gap)) (int (length before + 1 + length gap)) = Some (int (length before + 1))"
  using assms
proof (induction gap arbitrary: after rule: rev_induct)
  case Nil
  then have "\<not> isSpace c" by (auto simp: isSpace_def isAlpha_def char_code_def)
  then show ?case using Nil by (subst skip_down.simps) simp
next
  case (snoc g gap)
  have "copy_from_user u (int (length (before @ butlast (c # gap)))) = Some (last (c # gap))"
  proof (rule copy_at [of u _ _ "g # after"])
    have "himem u = before @ (c # gap) @ g # after" using snoc.prems(1) by simp
    also have "c # gap = butlast (c # gap) @ [last (c # gap)]" by (rule append_butlast_last_id [symmetric]) simp
    finally show "himem u = (before @ butlast (c # gap)) @ last (c # gap) # g # after" by simp
  qed
  moreover have "int (length (before @ butlast (c # gap))) = int (length before + 1 + length (gap @ [g])) - 1 - 1" by simp
  ultimately have "copy_from_user u (int (length before + 1 + length (gap @ [g])) - 1 - 1) = Some (last (c # gap))" by (simp only:)
  moreover have "skip_down u (last (c # gap)) (int (length before + 1 + length gap)) = Some (int (length before + 1))"
    using snoc.prems by (intro snoc.IH [of "g # after"]) (simp_all add: no_letters_def)
  moreover have "int (length before + 1 + length gap) = int (length before + 1 + length (gap @ [g])) - 1" by simp
  moreover have "last (c # gap @ [g]) = g" "\<not> isAlpha g" using snoc.prems(2) by (simp_all add: no_letters_def)
  ultimately show ?case by (subst skip_down.simps) (simp only: simp_thms if_True option.case)
qed

lemma first_letter:
  assumes "cs \<noteq> []" "isAlpha (last cs)"
  obtains gap c rest where "cs = gap @ c # rest" "no_letters gap" "isAlpha c" "rest = [] \<or> isAlpha (last rest)"
proof -
  have "\<exists>c \<in> set cs. isAlpha c" using assms last_in_set by blast
  then obtain gap c rest where d: "cs = gap @ c # rest" "isAlpha c" "\<forall>c \<in> set gap. \<not> isAlpha c"
    by (rule split_list_first_propE)
  moreover have "rest = [] \<or> isAlpha (last rest)" using assms(2) d(1) by (cases "rest = []") simp_all
  ultimately show thesis using that [of gap c rest] by (simp add: no_letters_def)
qed

text \<open>What the gap before a letter puts in the queue and shows.\<close>

definition gap_blanks :: "bool \<Rightarrow> bool \<Rightarrow> string" where
  "gap_blanks first space = (if space then ''   '' else if first then [] else '' '')"

definition gap_lamp :: "bool \<Rightarrow> bool \<Rightarrow> bool list" where
  "gap_lamp first space = (if space then replicate 7 False else if first then [] else replicate 3 False)"

lemma encode_letter:
  assumes "no_letters gap" "isAlpha c"
  shows "encode first False (gap @ c # rest) = gap_blanks first (CHR '' '' \<in> set gap) @ itu c @ encode False False rest"
    "signal first False (gap @ c # rest) = gap_lamp first (CHR '' '' \<in> set gap) @ itu_bits (itu c) @ signal False False rest"
  using assms by (simp_all add: encode_gap gap_blanks_def gap_lamp_def)

lemma write_step:
  assumes "himem u = before @ gap @ c # after" "no_letters gap" "isAlpha c" "int (length before) < ende"
  shows "write_loop put u start ende (int (length before)) False s =
    (let cur' = int (length before + length gap); flag = CHR '' '' \<in> set gap;
         (ok1, s1) = (if cur' \<noteq> start \<and> \<not> flag
            then put_all put '' '' (led_trigger [LedOff, Msleep (LED_DOT_TIME * 3)] s) else (True, s)) in
     if \<not> ok1 then (Some (- EFAULT), s1)
     else (let (ok2, s2) = (if flag then put_all put ''   '' (led_trigger [LedOff, Msleep (LED_DOT_TIME * 7)] s1) else (True, s1)) in
       if \<not> ok2 then (Some (- EFAULT), s2)
       else write_loop put u start ende (cur' + 1) False (snd (flash_leds put (charToMorse c) s2))))"
proof -
  have "copy_from_user u (int (length before)) = Some (hd (gap @ [c]))"
    by (rule copy_at [of u _ _ "tl (gap @ c # after)"]) (use assms(1) in \<open>cases gap; simp\<close>)
  moreover note next_letter_finds [OF assms(1-3), of False]
  moreover note letter_code(3,4) [OF assms(3)]
  ultimately show ?thesis using assms(4) by (subst write_loop.simps) (simp add: Let_def)
qed

context kfifo
begin

lemma gap_put:
  assumes "length (queued s) + length (gap_blanks first flag) \<le> cap"
  shows "\<exists>s1 s2 evs. (if \<not> first \<and> \<not> flag then put_all put '' '' (led_trigger [LedOff, Msleep (LED_DOT_TIME * 3)] s) else (True, s)) = (True, s1) \<and>
    (if flag then put_all put ''   '' (led_trigger [LedOff, Msleep (LED_DOT_TIME * 7)] s1) else (True, s1)) = (True, s2) \<and>
    added s (gap_blanks first flag) evs s2 \<and> (\<forall>on. lamp on evs = gap_lamp first flag)"
proof -
  consider (space) "flag" | (none) "\<not> flag" "first" | (blank) "\<not> flag" "\<not> first" by blast
  then show ?thesis
  proof cases
    case space
    let ?evs = "[LedOff, Msleep (LED_DOT_TIME * 7)]"
    obtain s2 where "put_all put ''   '' (led_trigger ?evs s) = (True, s2)" "added (led_trigger ?evs s) ''   '' [] s2"
      using put_all_room [of "led_trigger ?evs s" "''   ''"] assms space by (auto simp: gap_blanks_def)
    then show ?thesis using space
      by (intro exI [of _ s] exI [of _ s2] exI [of _ ?evs])
        (simp add: gap_blanks_def gap_lamp_def added_def LED_DOT_TIME_def)
  next
    case none
    then show ?thesis
      by (intro exI [of _ s] exI [of _ "[]"]) (simp add: gap_blanks_def gap_lamp_def added_def)
  next
    case blank
    let ?evs = "[LedOff, Msleep (LED_DOT_TIME * 3)]"
    obtain s2 where "put_all put '' '' (led_trigger ?evs s) = (True, s2)" "added (led_trigger ?evs s) '' '' [] s2"
      using put_all_room [of "led_trigger ?evs s" "'' ''"] assms blank by (auto simp: gap_blanks_def)
    then show ?thesis using blank
      by (intro exI [of _ s2] exI [of _ ?evs])
        (simp add: gap_blanks_def gap_lamp_def added_def LED_DOT_TIME_def)
  qed
qed

end

context kfifo
begin

lemma loop_writes:
  assumes "himem u = before @ msg @ after" "msg = [] \<or> isAlpha (last msg)"
    and "start \<le> int (length before)" "start = int (length before) \<longrightarrow> msg = [] \<or> isAlpha (hd msg)"
    and "first \<longleftrightarrow> start = int (length before)"
    and "length (queued s) + length (encode first False msg) \<le> cap"
  shows "\<exists>s' evs. write_loop put u start (int (length before + length msg)) (int (length before)) False s = (None, s') \<and>
    added s (encode first False msg) evs s' \<and> (\<forall>on. lamp on evs = signal first False msg)"
  using assms
proof (induction "length msg" arbitrary: msg before first s rule: less_induct)
  case less
  show ?case
  proof (cases "msg = []")
    case True
    then show ?thesis by (intro exI [of _ s] exI [of _ "[]"]) (simp add: write_loop.simps added_def)
  next
    case False
    with less.prems(2) obtain gap c rest where msg: "msg = gap @ c # rest" "no_letters gap" "isAlpha c"
      "rest = [] \<or> isAlpha (last rest)" by (auto elim: first_letter)
    let ?flag = "CHR '' '' \<in> set gap" and ?cur = "int (length before + length gap)"
    note enc = encode_letter [OF msg(2,3), of first rest, folded msg(1)]
    have gap: "first \<Longrightarrow> gap = []"
      using less.prems(4,5) msg by (cases gap) (auto simp: no_letters_def)
    then have cur: "(?cur \<noteq> start \<and> \<not> ?flag) = (\<not> first \<and> \<not> ?flag)" using less.prems(3,5) by auto
    have ends: "int (length before) < int (length before + length msg)" using msg(1) by simp
    have hm: "himem u = before @ gap @ c # rest @ after" using less.prems(1) msg(1) by simp
    note step = write_step [of u before gap c "rest @ after" _ put start s, OF _ msg(2,3) ends]
    from gap_put [of s first ?flag] enc(1) less.prems(6) obtain s1 s2 evs where
      s1: "(if \<not> first \<and> \<not> ?flag then put_all put '' '' (led_trigger [LedOff, Msleep (LED_DOT_TIME * 3)] s) else (True, s)) = (True, s1)" and
      s2: "(if ?flag then put_all put ''   '' (led_trigger [LedOff, Msleep (LED_DOT_TIME * 7)] s1) else (True, s1)) = (True, s2)" and
      g: "added s (gap_blanks first ?flag) evs s2"
        "\<forall>on. lamp on evs = gap_lamp first ?flag"
      by auto
    have "length (queued s2) + length (symbols (code_bits (charToMorse c))) \<le> cap"
      using g(1) enc(1) less.prems(6) letter_code(2) [OF msg(3)] by (simp add: added_def)
    from flash_shows [OF this] obtain s3 evs' where s3: "flash_leds put (charToMorse c) s2 = (0, s3)"
      "added s2 (itu c) evs' s3" "\<forall>on. lamp on evs' = itu_bits (itu c)"
      by (simp only: letter_code(2) [OF msg(3)]) (simp only: letter_code(1) [OF msg(3)], blast)
    have "\<exists>s' evs. write_loop put u start (int (length (before @ gap @ [c]) + length rest)) (int (length (before @ gap @ [c]))) False s3 = (None, s') \<and>
      added s3 (encode False False rest) evs s' \<and> (\<forall>on. lamp on evs = signal False False rest)"
      using less.prems msg s3(2) g(1) enc(1) by (intro less.hyps) (auto simp: added_def)
    then obtain s4 evs'' where
      s4: "write_loop put u start (int (length (before @ gap @ [c]) + length rest)) (int (length (before @ gap @ [c]))) False s3 = (None, s4)"
        "added s3 (encode False False rest) evs'' s4" "\<forall>on. lamp on evs'' = signal False False rest" by auto
    have at: "int (length (before @ gap @ [c]) + length rest) = int (length before + length msg)"
      "int (length (before @ gap @ [c])) = ?cur + 1" using msg(1) by simp_all
    have "write_loop put u start (int (length before + length msg)) (int (length before)) False s = (None, s4)"
      by (simp only: step [OF hm] Let_def cur s1 s2 s3(1) prod.case snd_conv simp_thms if_True if_False s4(1) [unfolded at])
    moreover have "added s (encode first False msg) (evs @ evs' @ evs'') s4"
      using g(1) s3(2) s4(2) enc(1) by (simp add: added_def)
    moreover have "lamp on (evs @ evs' @ evs'') = signal first False msg" for on
      using g(2) s3(3) s4(3) enc(2) by (simp add: lamp_append)
    ultimately show ?thesis by blast
  qed
qed

end

lemma trim_message:
  assumes "himem u = pre @ msg @ post @ rest" "no_letters pre" "no_letters post"
    and "msg \<noteq> []" "isAlpha (hd msg)" "isAlpha (last msg)"
  shows "copy_from_user u 0 = Some (hd (pre @ msg))"
    "trim_spaces (hd (pre @ msg)) u 0 (int (length (pre @ msg @ post))) = Some (int (length pre), int (length pre + length msg))"
proof -
  have m: "msg = hd msg # tl msg" "msg = butlast msg @ [last msg]" using assms(4) by simp_all
  have h: "hd (pre @ msg) = hd (pre @ [hd msg])" by (cases pre) simp_all
  have u1: "himem u = [] @ pre @ hd msg # tl msg @ post @ rest" using assms(1) m(1) by (metis append_Cons append_Nil)
  have "himem u = [] @ hd (pre @ msg) # tl (pre @ msg) @ post @ rest"
    using assms(1,4) by (cases pre; cases msg) simp_all
  from copy_at [OF this] show c: "copy_from_user u 0 = Some (hd (pre @ msg))" by simp
  have up: "skip_up u (hd (pre @ msg)) 0 = Some (int (length pre))"
    using skip_up_finds [OF u1 assms(2,5)] h by simp
  let ?b = "pre @ butlast msg"
  have u2: "himem u = ?b @ last msg # post @ rest" using assms(1) m(2) by (metis append.assoc append_Cons append_Nil)
  have n: "length ?b + 1 = length pre + length msg" using assms(4) by (cases msg) simp_all
  have down: "skip_down u (last (last msg # post)) (int (length (pre @ msg @ post))) = Some (int (length pre + length msg))"
    using skip_down_finds [OF u2 assms(3,6)] n by (simp add: ac_simps)
  have "himem u = (?b @ butlast (last msg # post)) @ last (last msg # post) # rest"
  proof -
    have "himem u = ?b @ (last msg # post) @ rest" using u2 by simp
    also have "last msg # post = butlast (last msg # post) @ [last (last msg # post)]" by (rule append_butlast_last_id [symmetric]) simp
    finally show ?thesis by (simp only: append.assoc append_Cons append_Nil)
  qed
  from copy_at [OF this] have "copy_from_user u (int (length (pre @ msg @ post)) - 1) = Some (last (last msg # post))"
  proof -
    have "int (length (?b @ butlast (last msg # post))) = int (length (pre @ msg @ post)) - 1" using n assms(4) by (cases msg) auto
    then show ?thesis using copy_at [of u "?b @ butlast (last msg # post)" "last (last msg # post)" rest] u2
      \<open>himem u = (?b @ butlast (last msg # post)) @ last (last msg # post) # rest\<close> by (simp only:)
  qed
  then show "trim_spaces (hd (pre @ msg)) u 0 (int (length (pre @ msg @ post))) = Some (int (length pre), int (length pre + length msg))"
    by (simp only: trim_spaces_def up down option.case option.map)
qed

lemma lamp_state_append: "lamp_state on (xs @ ys) = lamp_state (lamp_state on xs) ys"
  by (induction on xs rule: lamp_state.induct) simp_all

context kfifo
begin

lemma write_message:
  assumes "himem u = pre @ msg @ post @ rest" "no_letters pre" "no_letters post"
    and "msg \<noteq> []" "isAlpha (hd msg)" "isAlpha (last msg)"
    and "length (queued s) + length (encode True False msg) < cap"
  shows "\<exists>s' evs. my_write put u (int (length (pre @ msg @ post))) s = (int (length (pre @ msg @ post)), s') \<and>
    added s (encode True False msg @ [CHR 0x0A]) evs s' \<and> (\<forall>on. lamp on evs = signal True False msg \<and> \<not> lamp_state on evs) "
proof -
  note trim = trim_message [OF assms(1-6)]
  obtain s1 evs where s1:
    "write_loop put u (int (length pre)) (int (length pre + length msg)) (int (length pre)) False s = (None, s1)"
    "added s (encode True False msg) evs s1" "\<forall>on. lamp on evs = signal True False msg"
    using loop_writes [of u pre msg "post @ rest" "int (length pre)" True s] assms by auto
  obtain s2 where s2: "fifo_put put CHR 0x0A (led_trigger [LedOff] s1) = Some s2" "added (led_trigger [LedOff] s1) [CHR 0x0A] [] s2"
    using fifo_put_room [of "led_trigger [LedOff] s1" "CHR 0x0A"] assms(7) s1(2) by (auto simp: added_def)
  let ?s' = "s2\<lparr>ppos := ppos s2 + int (length (pre @ msg @ post))\<rparr>"
  have "my_write put u (int (length (pre @ msg @ post))) s = (int (length (pre @ msg @ post)), ?s')"
    unfolding my_write_def by (simp only: trim option.case prod.case s1(1) s2(1) Let_def)
  moreover have "added s (encode True False msg @ [CHR 0x0A]) (evs @ [LedOff]) ?s'"
    using s1(2) s2(2) by (simp add: added_def queued_def led_trigger_def)
  ultimately show ?thesis using s1(3)
    by (intro exI [of _ ?s'] exI [of _ "evs @ [LedOff]"]) (simp add: lamp_append lamp_state_append)
qed

end

section \<open>A buffer without letters\<close>

lemma alpha_not_space: "isAlpha c \<Longrightarrow> \<not> isSpace c"
  by (auto simp: isSpace_def isAlpha_def char_code_def)

lemma skip_down_stops:
  "skip_down u c e = Some e' \<Longrightarrow> copy_from_user u (e - 1) = Some c \<Longrightarrow>
    e' \<le> e \<and> (\<exists>c'. copy_from_user u (e' - 1) = Some c' \<and> isAlpha c')"
proof (induction u c e rule: skip_down.induct)
  case (1 u c e)
  show ?case
  proof (cases "isAlpha c")
    case True
    then show ?thesis using "1.prems" alpha_not_space [OF True] by (subst (asm) skip_down.simps) auto
  next
    case False
    then obtain c' where c': "copy_from_user u (e - 1 - 1) = Some c'" "skip_down u c' (e - 1) = Some e'"
      using "1.prems"(1) by (subst (asm) skip_down.simps) (auto split: option.splits)
    from "1.IH" [OF _ c' c'(1)] False show ?thesis by auto
  qed
qed

lemma copy_mapped: "(\<exists>c. copy_from_user u j = Some c) \<longleftrightarrow> - int (length (lowmem u)) \<le> j \<and> j < int (length (himem u))"
  by (auto simp: copy_from_user_def)

lemma skip_down_none:
  "skip_down u c e = None \<Longrightarrow> copy_from_user u (e - 1) = Some c \<Longrightarrow> j < e \<Longrightarrow> copy_from_user u j = Some c' \<Longrightarrow> \<not> isAlpha c'"
proof (induction u c e rule: skip_down.induct)
  case (1 u c e)
  have na: "\<not> isAlpha c" using "1.prems"(1) alpha_not_space [of c] by (subst (asm) skip_down.simps) auto
  show ?case
  proof (cases "j = e - 1")
    case True
    then show ?thesis using "1.prems" na by simp
  next
    case False
    then have j: "j < e - 1" using "1.prems"(3) by simp
    then obtain c1 where c1: "copy_from_user u (e - 1 - 1) = Some c1"
      using "1.prems"(2,4) copy_mapped [of u "e - 1 - 1"] copy_mapped [of u "e - 1"] copy_mapped [of u j] by auto
    have "skip_down u c1 (e - 1) = None" using "1.prems"(1) na c1 by (subst (asm) skip_down.simps) simp
    from "1.IH" [OF _ c1 this c1 j "1.prems"(4)] na show ?thesis by simp
  qed
qed

lemma copy_low: "no_letters (lowmem u) \<longleftrightarrow> (\<forall>j < 0. \<forall>c. copy_from_user u j = Some c \<longrightarrow> \<not> isAlpha c)"
proof
  assume "no_letters (lowmem u)"
  then show "\<forall>j < 0. \<forall>c. copy_from_user u j = Some c \<longrightarrow> \<not> isAlpha c"
    by (auto simp: no_letters_def copy_from_user_def split: if_splits)
next
  assume a: "\<forall>j < 0. \<forall>c. copy_from_user u j = Some c \<longrightarrow> \<not> isAlpha c"
  show "no_letters (lowmem u)" unfolding no_letters_def
  proof
    fix c assume "c \<in> set (lowmem u)"
    then obtain i where "i < length (lowmem u)" "lowmem u ! i = c" by (auto simp: in_set_conv_nth)
    then have "copy_from_user u (- int i - 1) = Some c" by (simp add: copy_from_user_def)
    moreover have "- int i - 1 < 0" by simp
    ultimately show "\<not> isAlpha c" using a by blast
  qed
qed

text \<open>
  Trimming such a buffer moves its end below its start, or faults when there is no letter below.
\<close>

lemma trim_letterless:
  assumes "himem u = buf @ gap @ c # after" "no_letters buf" "no_letters gap" "isAlpha c" "buf \<noteq> []"
  shows "trim_spaces (hd buf) u 0 (int (length buf)) = (if no_letters (lowmem u) then None else
      Some (int (length (buf @ gap)), the (skip_down u (last buf) (int (length buf)))))"
    "\<not> no_letters (lowmem u) \<Longrightarrow> the (skip_down u (last buf) (int (length buf))) \<le> 0"
proof -
  have up: "skip_up u (hd buf) 0 = Some (int (length (buf @ gap)))"
    using skip_up_finds [of u "[]" "buf @ gap" c after] assms by (simp add: no_letters_def ball_Un)
  have "himem u = butlast buf @ last buf # gap @ c # after"
    using assms(1,5) by (metis append.assoc append_Cons append_Nil append_butlast_last_id)
  moreover have "int (length (butlast buf)) = int (length buf) - 1" using assms(5) by (cases buf) simp_all
  ultimately have cp: "copy_from_user u (int (length buf) - 1) = Some (last buf)" using copy_at by metis
  have inside: "\<not> isAlpha c'" if "copy_from_user u j = Some c'" "0 \<le> j" "j < int (length buf)" for j c'
    using that assms(1,2) by (auto simp: copy_from_user_def no_letters_def nth_append split: if_splits)
  have low: "no_letters (lowmem u) \<longleftrightarrow> skip_down u (last buf) (int (length buf)) = None"
  proof
    assume n: "no_letters (lowmem u)"
    show "skip_down u (last buf) (int (length buf)) = None"
    proof (rule ccontr)
      assume "skip_down u (last buf) (int (length buf)) \<noteq> None"
      then obtain e' where "skip_down u (last buf) (int (length buf)) = Some e'" by auto
      from skip_down_stops [OF this cp] obtain c' where e': "e' \<le> int (length buf)" "copy_from_user u (e' - 1) = Some c'" "isAlpha c'" by auto
      then show False using inside [of "e' - 1" c'] n unfolding copy_low by force
    qed
  next
    assume n: "skip_down u (last buf) (int (length buf)) = None"
    show "no_letters (lowmem u)" unfolding copy_low using skip_down_none [OF n cp] by (meson less_le_trans of_nat_0_le_iff)
  qed
  show "\<not> no_letters (lowmem u) \<Longrightarrow> the (skip_down u (last buf) (int (length buf))) \<le> 0"
  proof -
    assume "\<not> no_letters (lowmem u)"
    then obtain e' where e: "skip_down u (last buf) (int (length buf)) = Some e'" using low by auto
    from skip_down_stops [OF e cp] obtain c' where e': "e' \<le> int (length buf)" "copy_from_user u (e' - 1) = Some c'" "isAlpha c'" by auto
    then have "\<not> 0 \<le> e' - 1" using inside [of "e' - 1" c'] by auto
    then show ?thesis using e by simp
  qed
  show "trim_spaces (hd buf) u 0 (int (length buf)) = (if no_letters (lowmem u) then None else
      Some (int (length (buf @ gap)), the (skip_down u (last buf) (int (length buf)))))"
    using low unfolding trim_spaces_def up by (auto simp: cp)
qed

context kfifo
begin

lemma write_letterless:
  assumes "himem u = buf @ gap @ c # after" "no_letters buf" "no_letters gap" "isAlpha c" "buf \<noteq> []"
    and "length (queued s) + length (gap_blanks False (CHR '' '' \<in> set (buf @ gap)) @ itu c) < cap"
  shows "\<exists>s' evs. my_write put u (int (length buf)) s = (int (length buf), s') \<and>
    added s ((if no_letters (lowmem u) then gap_blanks False (CHR '' '' \<in> set (buf @ gap)) @ itu c else []) @ [CHR 0x0A]) evs s' \<and>
    (\<forall>on. lamp on evs = (if no_letters (lowmem u) then gap_lamp False (CHR '' '' \<in> set (buf @ gap)) @ itu_bits (itu c) else []) \<and> \<not> lamp_state on evs)"
proof -
  note trim = trim_letterless [OF assms(1-5)]
  have c0: "copy_from_user u 0 = Some (hd buf)" using assms(1,5) by (cases buf) (simp_all add: copy_from_user_def)
  have finish: "\<exists>s2. fifo_put put CHR 0x0A (led_trigger [LedOff] s1) = Some s2 \<and>
      added s (cs @ [CHR 0x0A]) (evs @ [LedOff]) (s2\<lparr>ppos := ppos s2 + int (length buf)\<rparr>)"
    if "added s cs evs s1" "length (queued s) + length cs < cap" for s1 cs evs
    using fifo_put_room [of "led_trigger [LedOff] s1" "CHR 0x0A"] that
    by (auto simp: added_def queued_def led_trigger_def)
  show ?thesis
  proof (cases "no_letters (lowmem u)")
    case False
    then have w: "write_loop put u (int (length (buf @ gap))) (the (skip_down u (last buf) (int (length buf)))) (int (length (buf @ gap))) False s = (None, s)"
      using trim(2) by (subst write_loop.simps) simp
    have "added s [] [] s" by (simp add: added_def)
    from finish [OF this] assms(6) obtain s2 where "fifo_put put CHR 0x0A (led_trigger [LedOff] s) = Some s2"
      "added s [CHR 0x0A] [LedOff] (s2\<lparr>ppos := ppos s2 + int (length buf)\<rparr>)" by auto
    then show ?thesis using False
      unfolding my_write_def c0 option.case trim(1) if_not_P [OF False] Let_def prod.case w by auto
  next
    case True
    let ?flag = "CHR '' '' \<in> set (buf @ gap)"
    have hm: "himem u = [] @ (buf @ gap) @ c # after" and ng: "no_letters (buf @ gap)"
      using assms(1-3) by (auto simp: no_letters_def)
    obtain s1 s2 evs where
      s1: "(if \<not> ?flag then put_all put '' '' (led_trigger [LedOff, Msleep (LED_DOT_TIME * 3)] s) else (True, s)) = (True, s1)" and
      s2: "(if ?flag then put_all put ''   '' (led_trigger [LedOff, Msleep (LED_DOT_TIME * 7)] s1) else (True, s1)) = (True, s2)" and
      g: "added s (gap_blanks False ?flag) evs s2" "\<forall>on. lamp on evs = gap_lamp False ?flag"
      using gap_put [of s False ?flag] assms(6) by auto
    have "length (queued s2) + length (symbols (code_bits (charToMorse c))) \<le> cap"
      using g assms(6) letter_code(2) [OF assms(4)] by (simp add: added_def)
    from flash_shows [OF this] obtain s3 evs' where raw: "flash_leds put (charToMorse c) s2 = (0, s3)"
      "added s2 (symbols (code_bits (charToMorse c))) evs' s3" "\<forall>on. lamp on evs' = code_bits (charToMorse c)" by blast
    note s3 = raw(1) raw(2) [unfolded letter_code(2) [OF assms(4)]] raw(3) [unfolded letter_code(1) [OF assms(4)]]
    have after: "write_loop put u 0 (int (length buf)) (int (length ([] :: string) + length (buf @ gap)) + 1) False s3 = (None, s3)"
      by (subst write_loop.simps) simp
    have cur: "(int (length ([] :: string) + length (buf @ gap)) \<noteq> 0 \<and> \<not> ?flag) = (\<not> ?flag)" using assms(5) by (cases buf) simp_all
    have in_buf: "int (length ([] :: string)) < int (length buf)" using assms(5) by simp
    have w: "write_loop put u 0 (int (length buf)) (int (length ([] :: string))) False s = (None, s3)"
      by (simp only: write_step [OF hm ng assms(4) in_buf] Let_def cur s1 s2 s3(1) prod.case snd_conv simp_thms if_True if_False after)
    have "added s (gap_blanks False ?flag @ itu c) (evs @ evs') s3" using g s3(2) by (simp add: added_def)
    from finish [OF this assms(6)] obtain s4 where "fifo_put put CHR 0x0A (led_trigger [LedOff] s3) = Some s4"
      "added s ((gap_blanks False ?flag @ itu c) @ [CHR 0x0A]) ((evs @ evs') @ [LedOff]) (s4\<lparr>ppos := ppos s4 + int (length buf)\<rparr>)" by auto
    moreover have "\<forall>on. lamp on ((evs @ evs') @ [LedOff]) = gap_lamp False ?flag @ itu_bits (itu c) \<and> \<not> lamp_state on ((evs @ evs') @ [LedOff])"
      using g(2) s3(3) by (simp add: lamp_append lamp_state_append)
    ultimately show ?thesis using True w
      unfolding my_write_def c0 option.case trim(1) if_P [OF True] Let_def prod.case by auto
  qed
qed

end

section \<open>The queue of the driver and its properties\<close>

text \<open>A queue that obeys the law: a list of at most \<open>cap\<close> characters.\<close>

definition list_put :: "nat \<Rightarrow> char \<Rightarrow> string \<Rightarrow> string option" where
  "list_put cap c q = (if length q < cap then Some (q @ [c]) else None)"

interpretation echo: kfifo "list_put FIFO_SIZE" "\<lambda>q. q" FIFO_SIZE
  by unfold_locales (auto simp: list_put_def)

text \<open>
  Every entry of \<open>morsecode_codes\<close> is right: for a letter of either case, \<open>charToMorse\<close> yields
  a code whose bits from the top are the International Morse signal of that letter (a dot is one
  unit on, a dash three, one unit off between them), and it is neither 0 nor 1, which the driver
  uses for other characters.
\<close>
theorem letters_are_international_morse:
  assumes "isAlpha c"
  shows "code_bits (charToMorse c) = itu_bits (itu c) \<and> symbols (code_bits (charToMorse c)) = itu c \<and>
    charToMorse c \<noteq> 0 \<and> charToMorse c \<noteq> 1"
  using letter_code [OF assms] by blast

theorem letters_are_international_morse_witness:
  "symbols (code_bits (charToMorse CHR ''q'')) = ''--.-''"
  using letters_are_international_morse [of "CHR ''q''"] by (simp add: isAlpha_def itu_def letter_index_def itu_table_def char_code_def)

text \<open>
  For every 16-bit code, in whatever state the LED is: with room in the queue, \<open>flash_leds\<close>
  ends with 0, appends exactly the code's dots and dashes to the queue, and the LED shows the
  code's bits from the top down to the lowest one, one dot time each.
\<close>
theorem flash_leds_shows_code:
  assumes "kfifo put contents FIFO_SIZE"
    and "length (contents (echo_fifo s)) + length (symbols (code_bits w)) \<le> FIFO_SIZE"
  shows "\<exists>s' evs. flash_leds put w s = (0, s') \<and>
    contents (echo_fifo s') = contents (echo_fifo s) @ symbols (code_bits w) \<and>
    events s' = events s @ evs \<and> (\<forall>on. lamp on evs = code_bits w)"
  using kfifo.flash_shows [OF assms(1), of s w] assms
  by (auto simp: kfifo.added_def [OF assms(1)] kfifo.queued_def [OF assms(1)])

definition quiet :: "string morse" where
  "quiet = \<lparr>echo_fifo = [], events = [], ppos = 0\<rparr>"

theorem flash_leds_shows_code_witness:
  "\<exists>s'. flash_leds (list_put FIFO_SIZE) 0xBBB8 quiet = (0, s') \<and> echo_fifo s' = ''.---''"
proof -
  have "code_bits 0xBBB8 = itu_bits ''.---''" by (simp add: code_bits_def upt_rec)
  then show ?thesis
    using flash_leds_shows_code [OF echo.kfifo_axioms, of quiet "0xBBB8"] by (auto simp: quiet_def FIFO_SIZE_def)
qed

text \<open>
  C12. A write of a buffer that holds a message (from its first letter to its last) between
  characters that are not letters returns the buffer's length, appends to the queue the message's
  letters in dots and dashes (one blank between letters, three where a space lies between them)
  and a newline, and shows on the LED the message's signal: three units off between letters, seven
  between words; the LED is off in the end. Needs room in the queue for all of it.
\<close>
theorem my_write_flashes_message:
  assumes "kfifo put contents FIFO_SIZE"
    and "himem u = pre @ msg @ post @ rest" "no_letters pre" "no_letters post"
    and "msg \<noteq> []" "isAlpha (hd msg)" "isAlpha (last msg)"
    and "length (contents (echo_fifo s)) + length (encode True False msg) < FIFO_SIZE"
  shows "\<exists>s' evs. my_write put u (int (length (pre @ msg @ post))) s = (int (length (pre @ msg @ post)), s') \<and>
    contents (echo_fifo s') = contents (echo_fifo s) @ encode True False msg @ [CHR 0x0A] \<and>
    events s' = events s @ evs \<and> (\<forall>on. lamp on evs = signal True False msg \<and> \<not> lamp_state on evs)"
  using kfifo.write_message [OF assms(1-7), of s] assms(8)
  by (auto simp: kfifo.added_def [OF assms(1)] kfifo.queued_def [OF assms(1)])

lemma morse_examples:
  "isAlpha CHR ''S''" "isAlpha CHR ''o''" "\<not> isAlpha CHR '' ''" "\<not> isAlpha CHR 0x0A" "\<not> isAlpha CHR ''!''"
  "itu CHR ''S'' = ''...''" "itu CHR ''o'' = ''---''"
  by (simp_all add: isAlpha_def char_code_def itu_def letter_index_def itu_table_def)

theorem my_write_flashes_message_witness:
  "\<exists>s'. my_write (list_put FIFO_SIZE) \<lparr>himem = '' Soo S!'' @ [CHR 0x0A], lowmem = []\<rparr> 8 quiet = (8, s') \<and>
    echo_fifo s' = ''... --- ---   ...'' @ [CHR 0x0A]"
proof -
  have "encode True False ''Soo S'' = ''... --- ---   ...''" by (simp add: morse_examples)
  then show ?thesis
    using my_write_flashes_message [OF echo.kfifo_axioms, of "\<lparr>himem = '' Soo S!'' @ [CHR 0x0A], lowmem = []\<rparr>" "'' ''" "''Soo S''" "CHR ''!'' # [CHR 0x0A]" "[]" quiet]
    by (auto simp: no_letters_def morse_examples quiet_def FIFO_SIZE_def)
qed

text \<open>
  C36. A write of a buffer that holds no letter leaves the buffer: with room in the queue, when the
  next letter of the user's memory beyond it is \<open>c\<close>, then \<open>trim_spaces\<close> searches for letters on
  both sides of the buffer. If none lies below, it faults, the fault is ignored, and the driver
  shows the signal of the foreign byte \<open>c\<close> on the LED, after the pause before a letter or a word, and queues its dots and dashes before
  it reports success; if one does, the LED stays dark and nothing but a newline is queued.
\<close>
theorem letterless_write_leaves_buffer:
  assumes "kfifo put contents FIFO_SIZE"
    and "himem u = buf @ gap @ c # after" "no_letters buf" "no_letters gap" "isAlpha c" "buf \<noteq> []"
    and "length (contents (echo_fifo s)) + length (gap_blanks False (CHR '' '' \<in> set (buf @ gap)) @ itu c) < FIFO_SIZE"
  shows "\<exists>s' evs. my_write put u (int (length buf)) s = (int (length buf), s') \<and>
    contents (echo_fifo s') = contents (echo_fifo s) @
      (if no_letters (lowmem u) then gap_blanks False (CHR '' '' \<in> set (buf @ gap)) @ itu c else []) @ [CHR 0x0A] \<and>
    events s' = events s @ evs \<and>
    (\<forall>on. lamp on evs = (if no_letters (lowmem u) then gap_lamp False (CHR '' '' \<in> set (buf @ gap)) @ itu_bits (itu c) else []) \<and>
      \<not> lamp_state on evs)"
proof -
  obtain s' evs where w: "my_write put u (int (length buf)) s = (int (length buf), s')"
    "kfifo.added contents s ((if no_letters (lowmem u) then gap_blanks False (CHR '' '' \<in> set (buf @ gap)) @ itu c else []) @ [CHR 0x0A]) evs s'"
    "\<forall>on. lamp on evs = (if no_letters (lowmem u) then gap_lamp False (CHR '' '' \<in> set (buf @ gap)) @ itu_bits (itu c) else []) \<and> \<not> lamp_state on evs"
    using kfifo.write_letterless [OF assms(1-6), of s] assms(7) by (auto simp: kfifo.queued_def [OF assms(1)])
  then show ?thesis by (intro exI [of _ s'] exI [of _ evs]) (simp add: kfifo.added_def [OF assms(1)] kfifo.queued_def [OF assms(1)])
qed

theorem letterless_write_leaves_buffer_witness:
  "\<exists>s'. my_write (list_put FIFO_SIZE) \<lparr>himem = [CHR 0x0A] @ ''S'', lowmem = []\<rparr> 1 quiet = (1, s') \<and>
    echo_fifo s' = '' ...'' @ [CHR 0x0A] \<and> lamp False (events s') = [False, False, False, True, False, True, False, True]"
  using letterless_write_leaves_buffer [OF echo.kfifo_axioms, of "\<lparr>himem = [CHR 0x0A] @ ''S'', lowmem = []\<rparr>" "[CHR 0x0A]" "[]" "CHR ''S''" "[]" quiet]
  by (auto simp: no_letters_def morse_examples quiet_def FIFO_SIZE_def gap_blanks_def gap_lamp_def numeral_3_eq_3)

end
