(* ===== verification/ReactionGame.thy ===== *)
theory ReactionGame
  imports Joystick CFloat PeriodTimer
begin

text \<open>
  The reaction game (\<open>work/as1/hello.c\<close> with \<open>joystick.c\<close>): rounds of a random wait, a lit LED and the
  player's answer on the joystick. The outside world is a record \<open>world\<close>: what the clock reads and
  the GPIO files hold at each access (the accesses are numbered by \<open>tick\<close>), the first random
  number after each seed, which files can be written, and what the shell returns. The waiting and the
  answering loop and the game may run forever, so they take fuel; \<open>None\<close> means still running.
\<close>

section \<open>The world and the game's state\<close>

record world =
  clockAt :: "nat \<Rightarrow> timespec"
  filesAt :: "nat \<Rightarrow> files"
  firstRand :: "int \<Rightarrow> int"
  writable :: "string \<Rightarrow> bool"
  shell :: "string \<Rightarrow> int option"   \<comment> \<open>\<open>None\<close>: no pipe\<close>

datatype journal_event =
    Say string
  | Score int int          \<comment> \<open>\<open>Your reaction time was ...; best so far ...\<close>\<close>
  | Nanosleep timespec
  | Ran string int

record game =
  tick :: nat
  devFile :: "string \<Rightarrow> string"
  journal :: "journal_event list"

type_synonym 'a run = "'a res option"

definition run_bind :: "'a run \<Rightarrow> ('a \<Rightarrow> 'b run) \<Rightarrow> 'b run" where
  "run_bind m f = (case m of None \<Rightarrow> None | Some (Inl e) \<Rightarrow> Some (Inl e) | Some (Inr x) \<Rightarrow> f x)"

lemma run_bind_simps [simp]:
  "run_bind None f = None" "run_bind (Some (Inl e)) f = Some (Inl e)" "run_bind (Some (Inr x)) f = f x"
  by (simp_all add: run_bind_def)

lemma run_bind_Inr_iff: "run_bind m f = Some (Inr y) \<longleftrightarrow> (\<exists>x. m = Some (Inr x) \<and> f x = Some (Inr y))"
  by (auto simp: run_bind_def split: option.splits sum.splits)

section \<open>Input, output and time\<close>

definition say :: "journal_event \<Rightarrow> game \<Rightarrow> game" where
  "say ev s = s\<lparr>journal := journal s @ [ev]\<rparr>"

definition game_getTimeInMs :: "world \<Rightarrow> game \<Rightarrow> int \<times> game" where
  "game_getTimeInMs e s =
     (let spec = clockAt e (tick s) in
      (tv_sec spec * 1000 + tv_nsec spec sdiv 1000000, s\<lparr>tick := Suc (tick s)\<rparr>))"

definition game_sleepForMs :: "int \<Rightarrow> game \<Rightarrow> game" where
  "game_sleepForMs delayInMs s =
     (let delayNs = delayInMs * (1000 * 1000) in
      say (Nanosleep \<lparr>tv_sec = delayNs sdiv 1000000000, tv_nsec = delayNs smod 1000000000\<rparr>)
        (s\<lparr>tick := Suc (tick s)\<rparr>))"

text \<open>\<open>srand(time(0))\<close> followed by the first \<open>rand()\<close>.\<close>

definition seeded_rand :: "world \<Rightarrow> game \<Rightarrow> int \<times> game" where
  "seeded_rand e s = (firstRand e (tv_sec (clockAt e (tick s))), s\<lparr>tick := Suc (tick s)\<rparr>)"

definition RAND_MAX :: int where "RAND_MAX = 2147483647"

definition wait_time :: "int \<Rightarrow> int" where
  "wait_time r =
     (let lower = 1 / 2; upper = 3;
          num = rn24 (rn24 (lower + 1) + rn24 (rn24 (rn24 (of_int r) / rn24 (of_int RAND_MAX)) * rn24 (upper - rn24 (lower + 1)))) in
      \<lfloor>rn24 (num * 1000)\<rfloor>)"

definition chooseWaitTime :: "world \<Rightarrow> game \<Rightarrow> int \<times> game" where
  "chooseWaitTime e s = (let (r, s1) = seeded_rand e s in (wait_time r, s1))"

definition random_direction :: "world \<Rightarrow> game \<Rightarrow> joystick \<times> game" where
  "random_direction e s = (let (r, s1) = seeded_rand e s in (randomizeDirection r, s1))"

definition poll :: "world \<Rightarrow> joystick \<Rightarrow> game \<Rightarrow> (bool \<times> game) res" where
  "poll e d s = rbind (isDirectionPressed (filesAt e (tick s)) d) (\<lambda>b. Inr (b, s\<lparr>tick := Suc (tick s)\<rparr>))"

definition poll_either :: "world \<Rightarrow> joystick \<Rightarrow> joystick \<Rightarrow> game \<Rightarrow> (bool \<times> game) res" where
  "poll_either e d1 d2 s = rbind (poll e d1 s) (\<lambda>(b, s1). if b then Inr (True, s1) else poll e d2 s1)"

section \<open>The LEDs\<close>

definition led_path :: "int \<Rightarrow> string \<Rightarrow> string" where
  "led_path lednum file = ''/sys/class/leds/beaglebone:green:usr'' @ show_int lednum @ file"

definition write_dev :: "world \<Rightarrow> string \<Rightarrow> string \<Rightarrow> game \<Rightarrow> game res" where
  "write_dev e filename text s =
     (if \<not> writable e filename then Inl (ExitCode 1)
      else if length text = 0 then Inl (ExitCode 1)
      else Inr (s\<lparr>devFile := (devFile s)(filename := text)\<rparr>))"

definition setTriggers :: "world \<Rightarrow> int \<Rightarrow> string \<Rightarrow> game \<Rightarrow> game res" where
  "setTriggers e lednum triggerMode = write_dev e (led_path lednum ''/trigger'') triggerMode"

definition changeBrightness :: "world \<Rightarrow> int \<Rightarrow> string \<Rightarrow> game \<Rightarrow> game res" where
  "changeBrightness e lednum onOff = write_dev e (led_path lednum ''/brightness'') onOff"

definition resetLEDs :: "world \<Rightarrow> game \<Rightarrow> game res" where
  "resetLEDs e s = rbind (changeBrightness e 0 ''0'' s) (changeBrightness e 3 ''0'')"

definition flashLEDs :: "world \<Rightarrow> int \<Rightarrow> int \<Rightarrow> int \<Rightarrow> game \<Rightarrow> game res" where
  "flashLEDs e timesFlashed delayOnMs delayOffMs =
     for_range 0 timesFlashed (\<lambda>j s.
       rbind (for_range 0 4 (\<lambda>i. changeBrightness e i ''1'') s) (\<lambda>s1.
       rbind (for_range 0 4 (\<lambda>i. changeBrightness e i ''0'') (game_sleepForMs delayOnMs s1)) (\<lambda>s2.
       Inr (game_sleepForMs delayOffMs s2))))"

definition game_runCommand :: "world \<Rightarrow> string \<Rightarrow> game \<Rightarrow> game res" where
  "game_runCommand e command s = (case shell e command of
     None \<Rightarrow> Inl NullDeref \<comment> \<open>\<open>feof\<close> of a null stream\<close>
   | Some exitCode \<Rightarrow> Inr (say (Ran command exitCode) s))"

fun run_commands :: "world \<Rightarrow> string list \<Rightarrow> game \<Rightarrow> game res" where
  "run_commands e [] s = Inr s"
| "run_commands e (c # cs) s = rbind (game_runCommand e c s) (run_commands e cs)"

definition game_init :: "world \<Rightarrow> game \<Rightarrow> game res" where
  "game_init e s =
     rbind (run_commands e [''config-pin p8.43 gpio'', ''config-pin p8.14 gpio'', ''config-pin p8.15 gpio'',
              ''config-pin p8.16 gpio'', ''config-pin p8.17 gpio'', ''config-pin p8.18 gpio''] s) (\<lambda>s1.
     for_range 0 4 (\<lambda>i s. rbind (setTriggers e i ''none'' s) (changeBrightness e i ''0'')) s1)"

section \<open>The game\<close>

datatype waited = Waited | TooSoon | Quit

fun wait_loop :: "nat \<Rightarrow> world \<Rightarrow> int \<Rightarrow> int \<Rightarrow> game \<Rightarrow> (waited \<times> game) run" where
  "wait_loop 0 e waitTime timeSinceStart s = None"
| "wait_loop (Suc fuel) e waitTime timeSinceStart s =
     (let (now, s1) = game_getTimeInMs e s in
      if now - timeSinceStart \<noteq> waitTime
      then run_bind (Some (poll_either e UP DOWN s1)) (\<lambda>(b, s2).
           if b then Some (Inr (TooSoon, game_sleepForMs 500 (say (Say ''Too soon!\<newline>'') s2)))
           else run_bind (Some (poll_either e RIGHT LEFT s2)) (\<lambda>(q, s3).
             if q then Some (Inr (Quit, s3)) else wait_loop fuel e waitTime timeSinceStart s3))
      else Some (Inr (Waited, s1)))"

text \<open>The answering loop: the last elapsed time, the best time and the quit flag.\<close>

fun react_loop :: "nat \<Rightarrow> world \<Rightarrow> joystick \<Rightarrow> joystick \<Rightarrow> int \<Rightarrow> int \<Rightarrow> game \<Rightarrow> (int \<times> int \<times> bool \<times> game) run" where
  "react_loop 0 e toPress notToPress timeSinceReady currentBest s = None"
| "react_loop (Suc fuel) e toPress notToPress timeSinceReady currentBest s =
     (let (now, s1) = game_getTimeInMs e s; elapsedTime = now - timeSinceReady in
      if elapsedTime < 5000
      then run_bind (Some (poll e toPress s1)) (\<lambda>(right, s2).
        if right
        then (let best = (if elapsedTime < currentBest then elapsedTime else currentBest);
                  s3 = say (Say ''Correct!\<newline>'') s2;
                  s4 = (if elapsedTime < currentBest then say (Say ''New best time!\<newline>'') s3 else s3) in
              run_bind (Some (flashLEDs e 2 50 200 (say (Score elapsedTime best) s4))) (\<lambda>s5.
              run_bind (Some (resetLEDs e s5)) (\<lambda>s6.
              Some (Inr (elapsedTime, best, False, game_sleepForMs 1000 s6)))))
        else run_bind (Some (poll e notToPress s2)) (\<lambda>(wrong, s3).
          if wrong
          then run_bind (Some (flashLEDs e 10 10 90 (say (Say ''Incorrect.\<newline>'') s3))) (\<lambda>s4.
               run_bind (Some (resetLEDs e s4)) (\<lambda>s5.
               Some (Inr (elapsedTime, currentBest, False, game_sleepForMs 1000 s5))))
          else run_bind (Some (poll_either e RIGHT LEFT s3)) (\<lambda>(q, s4).
            if q
            then run_bind (Some (resetLEDs e s4)) (\<lambda>s5. Some (Inr (elapsedTime, currentBest, True, s5)))
            else react_loop fuel e toPress notToPress timeSinceReady currentBest s4)))
      else Some (Inr (elapsedTime, currentBest, False, s1)))"

text \<open>The body of the main loop: whether it breaks, the best time and the quit flag.\<close>

definition game_round :: "nat \<Rightarrow> world \<Rightarrow> int \<Rightarrow> bool \<Rightarrow> game \<Rightarrow> (bool \<times> int \<times> bool \<times> game) run" where
  "game_round fuel e currentBest quit s =
     (let (toPress, s1) = random_direction e s;
          (waitTime, s2) = chooseWaitTime e (say (Say ''Get ready...\<newline>'') s1);
          (timeSinceStart, s3) = game_getTimeInMs e s2 in
      run_bind (wait_loop fuel e waitTime timeSinceStart s3) (\<lambda>(w, s4).
      if w = TooSoon then Some (Inr (False, currentBest, quit, s4))
      else if quit \<or> w = Quit
      then run_bind (Some (resetLEDs e s4)) (\<lambda>s5. Some (Inr (True, currentBest, True, s5)))
      else
        (let (timeSinceReady, s5) = game_getTimeInMs e s4 in
         run_bind (Some (if toPress = UP then changeBrightness e 0 ''1'' s5 else changeBrightness e 3 ''1'' s5)) (\<lambda>s6.
         let notToPress = (if toPress = UP then DOWN else UP);
             s7 = say (Say (if toPress = UP then ''Press UP now!\<newline>'' else ''Press DOWN now!\<newline>'')) s6 in
         run_bind (react_loop fuel e toPress notToPress timeSinceReady currentBest s7) (\<lambda>(elapsedTime, best, q, s8).
         if elapsedTime \<ge> 5000
         then run_bind (Some (resetLEDs e (say (Say ''no input within 5000ms, quitting!\<newline>'') s8))) (\<lambda>s9.
              Some (Inr (True, best, quit \<or> q, s9)))
         else Some (Inr (False, best, quit \<or> q, s8)))))))"

fun game_loop :: "nat \<Rightarrow> world \<Rightarrow> int \<Rightarrow> bool \<Rightarrow> game \<Rightarrow> (int \<times> bool \<times> game) run" where
  "game_loop 0 e currentBest quit s = None"
| "game_loop (Suc fuel) e currentBest quit s =
     run_bind (Some (poll_either e RIGHT LEFT s)) (\<lambda>(leave, s1).
     if leave then Some (Inr (currentBest, quit, s1))
     else run_bind (game_round fuel e currentBest quit s1) (\<lambda>(stop, best, q, s2).
       if stop then Some (Inr (best, q, s2)) else game_loop fuel e best q s2))"

definition game_main :: "nat \<Rightarrow> world \<Rightarrow> game \<Rightarrow> (int \<times> bool \<times> game) run" where
  "game_main fuel e s =
     run_bind (Some (game_init e s)) (\<lambda>s1.
     let s2 = say (Say ''(Press left or right to exit)\<newline>'')
                (say (Say ''When the LEDs light up, press the joystick in that direction!\<newline>'')
                  (say (Say ''Hello embedded world, from Vy!\<newline>'') s1));
         (notToPress, s3) = random_direction e s2;
         (elapsedTime, s4) = game_getTimeInMs e s3 in
     run_bind (game_loop fuel e 5000 False s4) (\<lambda>(best, quit, s5).
     Some (Inr (best, quit, if quit then say (Say ''User chose to quit.\<newline>'') s5 else s5))))"

section \<open>The wait\<close>

lemma rn24_dyadic:
  assumes "2 powi k \<le> x" "x < 2 powi (k + 1)" "- 126 \<le> k" "x / 2 powi (k - 23) = of_int n"
  shows "rn24 x = x"
proof -
  have "rn24 x = of_int n * 2 powi (k - 23)"
    unfolding rn24_def by (rule rnd_eqI [OF assms(1,2)]) (use assms(3,4) in simp_all)
  also have "\<dots> = x" using assms(4) by (simp add: field_simps)
  finally show ?thesis .
qed

lemma rn24_three_halves: "rn24 (3 / 2) = 3 / 2"
  by (rule rn24_dyadic [of 0 _ 12582912]) (simp_all add: power_int_def field_simps)

lemma rn24_rand_max: "rn24 (of_int RAND_MAX) = 2147483648"
proof -
  have "rn24 2147483647 = of_int 16777216 * 2 powi 7"
    unfolding rn24_def by (rule rnd_eqI [of 30]) (simp_all add: power_int_def)
  then show ?thesis by (simp add: RAND_MAX_def power_int_def)
qed

definition wait_sum :: "rat \<Rightarrow> rat" where
  "wait_sum q = rn24 (rn24 (3 / 2 + rn24 (q * (3 / 2))) * 1000)"

lemma wait_time_alt: "wait_time r = \<lfloor>wait_sum (rn24 (rn24 (of_int r) / 2147483648))\<rfloor>"
  unfolding wait_time_def wait_sum_def Let_def rn24_rand_max by (simp add: rn24_three_halves)

lemma wait_sum_mono: "p \<le> q \<Longrightarrow> wait_sum p \<le> wait_sum q"
  unfolding wait_sum_def by (intro rn24_mono mult_right_mono add_left_mono) simp_all

lemma wait_sum_ends: "wait_sum 0 = 1500" "wait_sum 1 = 3000"
  using rn24_int [of 1500] rn24_int [of 3] rn24_int [of 3000] by (simp_all add: wait_sum_def rn24_three_halves)

lemma wait_time_ends: "wait_time 0 = 1500" "wait_time RAND_MAX = 3000"
proof -
  have "rn24 (rn24 (of_int 0) / 2147483648) = 0" "rn24 (rn24 (of_int RAND_MAX) / 2147483648) = 1"
    using rn24_int [of 1] by (simp_all add: rn24_rand_max)
  then show "wait_time 0 = 1500" "wait_time RAND_MAX = 3000" by (simp_all only: wait_time_alt wait_sum_ends floor_numeral)
qed

text \<open>
  The wait before each round is from 1500 to 3000 milliseconds for every random number, both
  ends occur, and it grows with the random number, single-precision rounding included.
\<close>
theorem wait_time_bounds:
  assumes "0 \<le> r" "r \<le> r'" "r' \<le> RAND_MAX"
  shows "1500 \<le> wait_time r \<and> wait_time r \<le> wait_time r' \<and> wait_time r' \<le> 3000 \<and>
    wait_time 0 = 1500 \<and> wait_time RAND_MAX = 3000"
proof -
  let ?q = "\<lambda>r. rn24 (rn24 (of_int r) / 2147483648)"
  have q: "?q a \<le> ?q b" if "a \<le> b" for a b
    using that by (intro rn24_mono divide_right_mono) simp_all
  have mono: "wait_time a \<le> wait_time b" if "a \<le> b" for a b
    unfolding wait_time_alt by (intro floor_mono wait_sum_mono q that)
  show ?thesis using mono [of 0 r] mono [of r r'] mono [of r' RAND_MAX] assms wait_time_ends by simp
qed

theorem wait_time_bounds_witness: "1500 \<le> wait_time 12345 \<and> wait_time 12345 \<le> 3000"
  using wait_time_bounds [of 12345 12345] by (simp add: RAND_MAX_def)

definition ms_of :: "timespec \<Rightarrow> int" where
  "ms_of spec = tv_sec spec * 1000 + tv_nsec spec sdiv 1000000"

definition hands_off :: "world \<Rightarrow> bool" where
  "hands_off e \<longleftrightarrow> (\<forall>k d. isDirectionPressed (filesAt e k) d = Inr False)"

lemma poll_off: "hands_off e \<Longrightarrow> poll_either e a b s = Inr (False, s\<lparr>tick := tick s + 2\<rparr>)"
  by (simp add: hands_off_def poll_either_def poll_def)

lemma wait_loop_step:
  assumes "hands_off e"
  shows "wait_loop (Suc fuel) e waitTime t0 s =
    (if ms_of (clockAt e (tick s)) = t0 + waitTime then Some (Inr (Waited, s\<lparr>tick := Suc (tick s)\<rparr>))
     else wait_loop fuel e waitTime t0 (s\<lparr>tick := tick s + 5\<rparr>))"
  using poll_off [OF assms] by (simp add: game_getTimeInMs_def ms_of_def Let_def algebra_simps eval_nat_numeral)

text \<open>
  The wait ends only if the clock is read at its last millisecond exactly: as long as nobody
  touches the joystick, whatever the clock does, the loop ends within \<open>fuel\<close> readings if one of
  them equals the start plus the wait, and goes on otherwise. Readings that jump over that
  millisecond leave the game waiting forever.
\<close>
theorem wait_needs_exact_reading:
  assumes "hands_off e"
  shows "if \<exists>k < fuel. ms_of (clockAt e (tick s + 5 * k)) = t0 + waitTime
    then \<exists>s'. wait_loop fuel e waitTime t0 s = Some (Inr (Waited, s'))
    else wait_loop fuel e waitTime t0 s = None"
proof (induction fuel arbitrary: s)
  case (Suc fuel)
  show ?case
  proof (cases "ms_of (clockAt e (tick s)) = t0 + waitTime")
    case True
    then have "\<exists>k < Suc fuel. ms_of (clockAt e (tick s + 5 * k)) = t0 + waitTime" by (intro exI [of _ 0]) simp
    then show ?thesis using True wait_loop_step [OF assms, of fuel waitTime t0 s] by simp
  next
    case False
    have "(\<exists>k < Suc fuel. ms_of (clockAt e (tick s + 5 * k)) = t0 + waitTime) \<longleftrightarrow>
        (\<exists>k < fuel. ms_of (clockAt e (tick (s\<lparr>tick := tick s + 5\<rparr>) + 5 * k)) = t0 + waitTime)"
      using False by (simp add: Ex_less_Suc2 add.assoc)
    then show ?thesis using Suc.IH [of "s\<lparr>tick := tick s + 5\<rparr>"] False wait_loop_step [OF assms, of fuel waitTime t0 s] by simp
  qed
qed simp

definition quiet_world :: world where
  "quiet_world = \<lparr>clockAt = (\<lambda>k. \<lparr>tv_sec = int k div 500, tv_nsec = int k mod 500 * 2000000\<rparr>),
     filesAt = (\<lambda>_. stick (\<lambda>_. False)), firstRand = (\<lambda>t. t), writable = (\<lambda>_. True), shell = (\<lambda>_. Some 0)\<rparr>"

definition game_start :: game where
  "game_start = \<lparr>tick = 0, devFile = (\<lambda>_. ''''), journal = []\<rparr>"

theorem wait_needs_exact_reading_witness:
  "\<forall>fuel. wait_loop fuel quiet_world 1501 0 game_start = None"
proof
  fix fuel
  have "ms_of (clockAt quiet_world k) = 2 * int k" for k
  proof -
    have "ms_of (clockAt quiet_world k) = int k div 500 * 1000 + int k mod 500 * 2"
      by (simp add: ms_of_def quiet_world_def sdiv_nonneg)
    then show ?thesis using div_mult_mod_eq [of "int k" 500] by linarith
  qed
  moreover have odd: "2 * x \<noteq> 1501" for x :: int by presburger
  ultimately have no: "\<not> (\<exists>k < fuel. ms_of (clockAt quiet_world (tick game_start + 5 * k)) = 0 + 1501)" by (metis add_0)
  have "hands_off quiet_world" by (simp add: hands_off_def quiet_world_def)
  from wait_needs_exact_reading [OF this, of fuel game_start 0 1501] no
  show "wait_loop fuel quiet_world 1501 0 game_start = None" by (simp only: if_False)
qed

section \<open>LEDs and scores\<close>

definition led_text :: "game \<Rightarrow> int \<Rightarrow> string" where
  "led_text s i = devFile s (led_path i ''/brightness'')"

definition all_off :: "game \<Rightarrow> bool" where
  "all_off s \<longleftrightarrow> (\<forall>i. 0 \<le> i \<and> i < 4 \<longrightarrow> led_text s i = ''0'')"

definition middle_off :: "game \<Rightarrow> bool" where
  "middle_off s \<longleftrightarrow> led_text s 1 = ''0'' \<and> led_text s 2 = ''0''"

fun scores :: "journal_event list \<Rightarrow> (int \<times> int) list" where
  "scores [] = []"
| "scores (Score t b # evs) = (t, b) # scores evs"
| "scores (ev # evs) = scores evs"

text \<open>The best of 5000 and the times so far, and that every score was announced right.\<close>

definition least :: "(int \<times> int) list \<Rightarrow> int" where
  "least xs = Min (set (5000 # map fst xs))"

definition honest :: "(int \<times> int) list \<Rightarrow> bool" where
  "honest xs \<longleftrightarrow> (\<forall>i < length xs. fst (xs ! i) < 5000 \<and> snd (xs ! i) = least (take (Suc i) xs))"

lemma scores_append [simp]: "scores (xs @ ys) = scores xs @ scores ys"
  by (induction xs rule: scores.induct) simp_all

lemma least_snoc: "least (xs @ [(t, b)]) = min (least xs) t"
proof -
  have "set (5000 # map fst (xs @ [(t, b)])) = insert t (set (5000 # map fst xs))" by auto
  then have "least (xs @ [(t, b)]) = Min (insert t (set (5000 # map fst xs)))" by (simp only: least_def)
  also have "\<dots> = min t (least xs)" unfolding least_def by (rule Min_insert) simp_all
  finally show ?thesis by (simp only: min.commute)
qed

lemma honest_snoc: "honest xs \<Longrightarrow> t < 5000 \<Longrightarrow> b = min (least xs) t \<Longrightarrow> honest (xs @ [(t, b)])"
  by (auto simp: honest_def nth_append less_Suc_eq least_snoc)

lemma least_Nil [simp]: "least [] = 5000" "honest []"
  by (simp_all add: least_def honest_def)

definition told :: "game \<Rightarrow> (int \<times> int) list" where
  "told s = scores (journal s)"

lemma led_path_inj: "led_path i f = led_path j f \<longleftrightarrow> i = j"
  using show_int_inj by (auto simp: led_path_def)

text \<open>What each operation does to the LEDs and the scores.\<close>

lemma brightness_effect:
  "changeBrightness e i v s = Inr s' \<Longrightarrow> told s' = told s \<and> led_text s' = (led_text s)(i := v)"
  by (auto simp: fun_eq_iff changeBrightness_def write_dev_def told_def led_text_def led_path_inj split: if_splits)

lemma trigger_effect:
  "setTriggers e i v s = Inr s' \<Longrightarrow> told s' = told s \<and> led_text s' j = led_text s j"
proof -
  have "led_path j ''/brightness'' \<noteq> led_path i ''/trigger''"
  proof
    assume "led_path j ''/brightness'' = led_path i ''/trigger''"
    then have "last (led_path j ''/brightness'') = last (led_path i ''/trigger'')" by simp
    then show False by (simp add: led_path_def)
  qed
  then show "setTriggers e i v s = Inr s' \<Longrightarrow> told s' = told s \<and> led_text s' j = led_text s j"
    by (auto simp: setTriggers_def write_dev_def told_def led_text_def split: if_splits)
qed

lemma say_effect [simp]:
  "led_text (say ev s) = led_text s" "told (say ev s) = told s @ scores [ev]"
  by (auto simp: say_def told_def led_text_def)

lemma sleep_effect [simp]: "led_text (game_sleepForMs d s) = led_text s" "told (game_sleepForMs d s) = told s"
  by (auto simp: game_sleepForMs_def say_def told_def led_text_def Let_def)

lemma tick_effect [simp]: "led_text (s\<lparr>tick := k\<rparr>) = led_text s" "told (s\<lparr>tick := k\<rparr>) = told s"
  by (auto simp: told_def led_text_def)

definition unlit :: "game \<Rightarrow> game \<Rightarrow> bool" where \<comment> \<open>neither an LED nor the scores changed\<close>
  "unlit s s' \<longleftrightarrow> led_text s' = led_text s \<and> told s' = told s"

lemma poll_effect: "poll e d s = Inr (b, s') \<Longrightarrow> unlit s s'"
  by (auto simp: poll_def unlit_def res_iff)

lemma poll_either_effect: "poll_either e c d s = Inr (b, s') \<Longrightarrow> unlit s s'"
  by (auto simp: poll_either_def unlit_def res_iff dest!: poll_effect split: if_splits)

lemma clock_effect: "game_getTimeInMs e s = (t, s') \<Longrightarrow> unlit s s'"
  "chooseWaitTime e s = (t, s') \<Longrightarrow> unlit s s'" "random_direction e s = (d, s') \<Longrightarrow> unlit s s'"
  by (auto simp: game_getTimeInMs_def chooseWaitTime_def random_direction_def seeded_rand_def unlit_def Let_def)

lemma for_range_run:
  assumes "for_range a b f s = Inr t" "a \<le> b" "P a s"
    and "\<And>i s t. a \<le> i \<Longrightarrow> i < b \<Longrightarrow> P i s \<Longrightarrow> f i s = Inr t \<Longrightarrow> P (i + 1) t"
  shows "P b t"
  using assms
proof (induction a b f s rule: for_range.induct)
  case (1 a b f s)
  show ?case
  proof (cases "a < b")
    case True
    then obtain s1 where s1: "f a s = Inr s1" "for_range (a + 1) b f s1 = Inr t"
      using "1.prems"(1) by (auto simp: for_range_step res_iff)
    show ?thesis by (rule "1.IH" [OF True s1]) (use True "1.prems"(3,4) s1(1) in auto)
  next
    case False
    then show ?thesis using "1.prems" by simp
  qed
qed

lemma set_all_effect:
  assumes "for_range 0 4 (\<lambda>i. changeBrightness e i v) s = Inr s'"
  shows "told s' = told s \<and> (\<forall>i. 0 \<le> i \<and> i < 4 \<longrightarrow> led_text s' i = v)"
proof (rule for_range_run [OF assms, of "\<lambda>k t. told t = told s \<and> (\<forall>i. 0 \<le> i \<and> i < k \<longrightarrow> led_text t i = v)"])
  fix i s1 t
  assume "0 \<le> i" "told s1 = told s \<and> (\<forall>j. 0 \<le> j \<and> j < i \<longrightarrow> led_text s1 j = v)" "changeBrightness e i v s1 = Inr t"
  then show "told t = told s \<and> (\<forall>j. 0 \<le> j \<and> j < i + 1 \<longrightarrow> led_text t j = v)"
    using brightness_effect [of e i v s1 t] by auto
qed auto

lemma flash_effect:
  assumes "flashLEDs e n d1 d2 s = Inr s'" "0 < n"
  shows "told s' = told s \<and> all_off s'"
proof -
  have "told s' = told s \<and> (0 < n \<longrightarrow> all_off s')"
  proof (rule for_range_run [OF assms(1) [unfolded flashLEDs_def], of "\<lambda>k t. told t = told s \<and> (0 < k \<longrightarrow> all_off t)"])
    fix i :: int and s1 t
    assume i: "told s1 = told s \<and> (0 < i \<longrightarrow> all_off s1)"
      and "rbind (for_range 0 4 (\<lambda>i. changeBrightness e i ''1'') s1) (\<lambda>s1.
        rbind (for_range 0 4 (\<lambda>i. changeBrightness e i ''0'') (game_sleepForMs d1 s1)) (\<lambda>s2. Inr (game_sleepForMs d2 s2))) = Inr t"
    then obtain s2 s3 where "for_range 0 4 (\<lambda>i. changeBrightness e i ''1'') s1 = Inr s2"
        "for_range 0 4 (\<lambda>i. changeBrightness e i ''0'') (game_sleepForMs d1 s2) = Inr s3" "t = game_sleepForMs d2 s3"
      by (auto simp: res_iff)
    then show "told t = told s \<and> (0 < i + 1 \<longrightarrow> all_off t)"
      using set_all_effect [of e "''1''" s1 s2] set_all_effect [of e "''0''" "game_sleepForMs d1 s2" s3] i
      by (simp add: all_off_def)
  qed (use assms(2) in simp_all)
  then show ?thesis using assms(2) by simp
qed

lemma reset_effect:
  assumes "resetLEDs e s = Inr s'" "middle_off s"
  shows "told s' = told s \<and> all_off s'"
proof -
  obtain s1 where "changeBrightness e 0 ''0'' s = Inr s1" "changeBrightness e 3 ''0'' s1 = Inr s'"
    using assms(1) by (auto simp: resetLEDs_def res_iff)
  then have "told s' = told s" "led_text s' = (led_text s)(0 := ''0'', 3 := ''0'')"
    using brightness_effect [of e 0 "''0''" s s1] brightness_effect [of e 3 "''0''" s1 s'] by simp_all
  moreover have "i = 0 \<or> i = 1 \<or> i = 2 \<or> i = 3" if "0 \<le> i" "i < 4" for i :: int using that by presburger
  ultimately show ?thesis using assms(2) by (auto simp: all_off_def middle_off_def)
qed

lemmas unlit_effects = poll_effect poll_either_effect clock_effect

lemma unlit_trans: "unlit s s' \<Longrightarrow> unlit s' s'' \<Longrightarrow> unlit s s''"
  by (simp add: unlit_def)

lemma wait_effect: "wait_loop fuel e wt t0 s = Some (Inr (w, s')) \<Longrightarrow> unlit s s'"
proof (induction fuel arbitrary: s)
  case (Suc fuel)
  obtain now s1 where c: "game_getTimeInMs e s = (now, s1)" by force
  show ?case
  proof (cases "now - t0 = wt")
    case True
    then show ?thesis using Suc.prems c by (auto dest: clock_effect)
  next
    case False
    with Suc.prems c obtain b s2 where b: "poll_either e UP DOWN s1 = Inr (b, s2)"
      and k: "(if b then Some (Inr (TooSoon, game_sleepForMs 500 (say (Say ''Too soon!\<newline>'') s2)))
         else run_bind (Some (poll_either e RIGHT LEFT s2)) (\<lambda>(q, s3).
             if q then Some (Inr (Quit, s3)) else wait_loop fuel e wt t0 s3)) = Some (Inr (w, s'))"
      by (auto simp: run_bind_Inr_iff)
    have u: "unlit s s2" using c b by (blast intro: unlit_trans dest: unlit_effects)
    show ?thesis
    proof (cases b)
      case True
      then show ?thesis using k u by (auto simp: unlit_def)
    next
      case False
      with k obtain q s3 where q: "poll_either e RIGHT LEFT s2 = Inr (q, s3)"
        "(if q then Some (Inr (Quit, s3)) else wait_loop fuel e wt t0 s3) = Some (Inr (w, s'))"
        by (auto simp: run_bind_Inr_iff)
      then have "unlit s3 s'" using Suc.IH [of s3] by (cases q) (auto simp: unlit_def)
      then show ?thesis using u q(1) by (blast intro: unlit_trans dest: unlit_effects)
    qed
  qed
qed simp

definition fair_play :: "int \<Rightarrow> game \<Rightarrow> bool" where
  "fair_play best s \<longleftrightarrow> honest (told s) \<and> best = least (told s)"

lemma unlit_keeps: "unlit s s' \<Longrightarrow> fair_play b s' = fair_play b s" "unlit s s' \<Longrightarrow> middle_off s' = middle_off s"
  "unlit s s' \<Longrightarrow> all_off s' = all_off s"
  by (simp_all add: unlit_def fair_play_def middle_off_def all_off_def)

lemma all_middle: "all_off s \<Longrightarrow> middle_off s"
  by (simp add: all_off_def middle_off_def)

lemma after_flash:
  assumes "flashLEDs e n a b s = Inr s1" "resetLEDs e s1 = Inr s2" "0 < n"
  shows "told (game_sleepForMs d s2) = told s \<and> all_off (game_sleepForMs d s2)"
  using flash_effect [OF assms(1,3)] reset_effect [OF assms(2) all_middle] by (simp add: all_off_def)

lemma react_effect:
  assumes "react_loop fuel e p np t0 best s = Some (Inr (el, best', q, s'))" "fair_play best s" "middle_off s"
  shows "fair_play best' s' \<and> middle_off s' \<and> (el < 5000 \<longrightarrow> all_off s')"
  using assms
proof (induction fuel arbitrary: s)
  case (Suc fuel)
  obtain now s1 where c: "game_getTimeInMs e s = (now, s1)" by force
  let ?el = "now - t0"
  show ?case
  proof (cases "?el < 5000")
    case False
    then show ?thesis using Suc.prems c by (auto dest!: clock_effect(1) simp: unlit_keeps)
  next
    case el: True
    note run = Suc.prems(1) [unfolded react_loop.simps c prod.case Let_def if_P [OF el]]
    from run obtain right s2 where p: "poll e p s1 = Inr (right, s2)" by (auto simp: run_bind_Inr_iff)
    have u2: "unlit s s2" using c p by (blast intro: unlit_trans dest: unlit_effects)
    show ?thesis
    proof (cases right)
      case True
      let ?best = "if ?el < best then ?el else best"
      let ?s4 = "if ?el < best then say (Say ''New best time!\<newline>'') (say (Say ''Correct!\<newline>'') s2) else say (Say ''Correct!\<newline>'') s2"
      from run True p obtain s5 s6 where s: "flashLEDs e 2 50 200 (say (Score ?el ?best) ?s4) = Inr s5" "resetLEDs e s5 = Inr s6"
          "el = ?el" "best' = ?best" "s' = game_sleepForMs 1000 s6"
        by (auto simp: run_bind_Inr_iff)
      have "told s' = told s2 @ [(?el, ?best)]" "all_off s'"
        using after_flash [OF s(1,2), of 1000] s(5) by (auto split: if_splits)
      moreover have "fair_play best s2" using Suc.prems(2) unlit_keeps(1) [OF u2] by simp
      ultimately show ?thesis using s(4) el
        by (auto simp: fair_play_def least_snoc min_def all_middle intro!: honest_snoc)
    next
      case False
      with run p obtain wrong s3 where w: "poll e np s2 = Inr (wrong, s3)" by (auto simp: run_bind_Inr_iff)
      have u3: "unlit s s3" using u2 w by (blast intro: unlit_trans dest: unlit_effects)
      show ?thesis
      proof (cases wrong)
        case True
        with run p w False obtain s4 s5 where s: "flashLEDs e 10 10 90 (say (Say ''Incorrect.\<newline>'') s3) = Inr s4" "resetLEDs e s4 = Inr s5"
            "best' = best" "s' = game_sleepForMs 1000 s5"
          by (auto simp: run_bind_Inr_iff)
        have "told s' = told s3" "all_off s'" using after_flash [OF s(1,2), of 1000] s(4) by auto
        then show ?thesis using Suc.prems(2) u3 s(3) by (simp add: fair_play_def unlit_def all_middle)
      next
        case False
        with run p w \<open>\<not> right\<close> obtain q' s4 where q: "poll_either e RIGHT LEFT s3 = Inr (q', s4)"
          "(if q' then run_bind (Some (resetLEDs e s4)) (\<lambda>s5. Some (Inr (?el, best, True, s5)))
            else react_loop fuel e p np t0 best s4) = Some (Inr (el, best', q, s'))"
          by (auto simp: run_bind_Inr_iff)
        have u4: "unlit s s4" using u3 q(1) by (blast intro: unlit_trans dest: unlit_effects)
        show ?thesis
        proof (cases q')
          case True
          then have "resetLEDs e s4 = Inr s'" "best' = best" using q(2) by (auto simp: run_bind_Inr_iff)
          moreover from this have "told s' = told s4 \<and> all_off s'"
            using reset_effect [of e s4 s'] Suc.prems(3) unlit_keeps(2) [OF u4] by blast
          ultimately show ?thesis using Suc.prems(2) u4 by (simp add: fair_play_def unlit_def all_middle)
        next
          case False
          then show ?thesis using Suc.IH [of s4] q(2) Suc.prems(2,3) u4 by (simp add: unlit_keeps)
        qed
      qed
    qed
  qed
qed simp

lemma round_effect:
  assumes "game_round fuel e best quit s = Some (Inr (stop, best', q, s'))" "fair_play best s" "all_off s"
  shows "fair_play best' s' \<and> all_off s'"
proof -
  obtain toPress s1 where d: "random_direction e s = (toPress, s1)" by force
  obtain wt s2 where c: "chooseWaitTime e (say (Say ''Get ready...\<newline>'') s1) = (wt, s2)" by force
  obtain t0 s3 where g: "game_getTimeInMs e s2 = (t0, s3)" by force
  note run = assms(1) [unfolded game_round_def d c g prod.case Let_def]
  from run obtain w s4 where w: "wait_loop fuel e wt t0 s3 = Some (Inr (w, s4))" by (auto simp: run_bind_Inr_iff)
  have "unlit s1 (say (Say ''Get ready...\<newline>'') s1)" by (simp add: unlit_def)
  then have u: "unlit s s4" using d c g wait_effect [OF w] by (blast intro: unlit_trans dest: unlit_effects)
  then have s4: "fair_play best s4" "all_off s4" using assms(2,3) by (simp_all add: unlit_keeps)
  consider (soon) "w = TooSoon" | (quit) "w \<noteq> TooSoon" "quit \<or> w = Quit" | (react) "w \<noteq> TooSoon" "\<not> (quit \<or> w = Quit)" by blast
  then show ?thesis
  proof cases
    case soon
    then show ?thesis using run w s4 by simp
  next
    case quit
    then have "resetLEDs e s4 = Inr s'" "best' = best" using run w by (auto simp: run_bind_Inr_iff)
    then show ?thesis using reset_effect [of e s4 s'] s4 by (auto simp: fair_play_def all_middle)
  next
    case react
    obtain tr s5 where g: "game_getTimeInMs e s4 = (tr, s5)" by force
    let ?i = "if toPress = UP then 0 else 3" and ?np = "if toPress = UP then DOWN else UP"
    let ?msg = "Say (if toPress = UP then ''Press UP now!\<newline>'' else ''Press DOWN now!\<newline>'')"
    from run w react g obtain s6 el b2 q2 s8 where b: "changeBrightness e ?i ''1'' s5 = Inr s6"
      and r: "react_loop fuel e toPress ?np tr best (say ?msg s6) = Some (Inr (el, b2, q2, s8))"
      and k: "(if 5000 \<le> el then run_bind (Some (resetLEDs e (say (Say ''no input within 5000ms, quitting!\<newline>'') s8))) (\<lambda>s9. Some (Inr (True, b2, quit \<or> q2, s9)))
          else Some (Inr (False, b2, quit \<or> q2, s8))) = Some (Inr (stop, best', q, s'))"
      by (auto simp: run_bind_Inr_iff Let_def split: if_splits)
    have u5: "unlit s4 s5" using g by (rule clock_effect)
    have "told s6 = told s5 \<and> led_text s6 = (led_text s5)(?i := ''1'')" by (rule brightness_effect [OF b])
    then have "fair_play best (say ?msg s6)" "middle_off (say ?msg s6)"
      using s4 u5 by (auto simp: fair_play_def unlit_def middle_off_def all_off_def)
    from react_effect [OF r this] have s8: "fair_play b2 s8" "middle_off s8" "el < 5000 \<longrightarrow> all_off s8" by auto
    show ?thesis
    proof (cases "5000 \<le> el")
      case True
      let ?s = "say (Say ''no input within 5000ms, quitting!\<newline>'') s8"
      have "resetLEDs e ?s = Inr s'" "best' = b2" using k True by (auto simp: run_bind_Inr_iff)
      moreover have "middle_off ?s" using s8(2) by (simp add: middle_off_def)
      ultimately show ?thesis using reset_effect [of e ?s s'] s8(1) by (simp add: fair_play_def)
    next
      case False
      then show ?thesis using k s8 by simp
    qed
  qed
qed

lemma loop_effect:
  "game_loop fuel e best quit s = Some (Inr (best', q, s')) \<Longrightarrow> fair_play best s \<Longrightarrow> all_off s \<Longrightarrow> fair_play best' s' \<and> all_off s'"
proof (induction fuel arbitrary: best quit s)
  case (Suc fuel)
  from Suc.prems(1) obtain leave s1 where p: "poll_either e RIGHT LEFT s = Inr (leave, s1)" by (auto simp: run_bind_Inr_iff)
  then have s1: "fair_play best s1" "all_off s1" using Suc.prems(2,3) by (auto dest!: poll_either_effect simp: unlit_keeps)
  show ?case
  proof (cases leave)
    case True
    then show ?thesis using Suc.prems(1) p s1 by simp
  next
    case False
    with Suc.prems(1) p obtain stop b2 q2 s2 where r: "game_round fuel e best quit s1 = Some (Inr (stop, b2, q2, s2))"
      "(if stop then Some (Inr (b2, q2, s2)) else game_loop fuel e b2 q2 s2) = Some (Inr (best', q, s'))"
      by (auto simp: run_bind_Inr_iff)
    from round_effect [OF r(1) s1] show ?thesis using Suc.IH [of b2 q2 s2] r(2) by (cases stop) auto
  qed
qed simp

lemma run_commands_effect: "run_commands e cs s = Inr s' \<Longrightarrow> unlit s s'"
proof (induction cs arbitrary: s)
  case (Cons c cs)
  then obtain s1 where s1: "game_runCommand e c s = Inr s1" "run_commands e cs s1 = Inr s'" by (auto simp: res_iff)
  have "unlit s s1" using s1(1) by (auto simp: game_runCommand_def unlit_def split: option.splits)
  then show ?case using Cons.IH [OF s1(2)] by (rule unlit_trans)
qed (simp add: unlit_def)

lemma init_effect:
  assumes "game_init e s = Inr s'"
  shows "told s' = told s \<and> all_off s'"
proof -
  obtain s1 where s1: "unlit s s1" and l: "for_range 0 4 (\<lambda>i s. rbind (setTriggers e i ''none'' s) (changeBrightness e i ''0'')) s1 = Inr s'"
    using assms by (auto simp: game_init_def res_iff dest!: run_commands_effect [rotated] simp del: run_commands.simps)
  have "told s' = told s \<and> (\<forall>i. 0 \<le> i \<and> i < 4 \<longrightarrow> led_text s' i = ''0'')"
  proof (rule for_range_run [OF l, of "\<lambda>k t. told t = told s \<and> (\<forall>i. 0 \<le> i \<and> i < k \<longrightarrow> led_text t i = ''0'')"])
    fix i s2 t
    assume i: "told s2 = told s \<and> (\<forall>j. 0 \<le> j \<and> j < i \<longrightarrow> led_text s2 j = ''0'')"
      and "rbind (setTriggers e i ''none'' s2) (changeBrightness e i ''0'') = Inr t"
    then obtain s3 where "setTriggers e i ''none'' s2 = Inr s3" "changeBrightness e i ''0'' s3 = Inr t" by (auto simp: res_iff)
    then show "told t = told s \<and> (\<forall>j. 0 \<le> j \<and> j < i + 1 \<longrightarrow> led_text t j = ''0'')"
      using trigger_effect [of e i "''none''" s2 s3] brightness_effect [of e i "''0''" s3 t] i by auto
  qed (use s1 in \<open>auto simp: unlit_def\<close>)
  then show ?thesis by (simp add: all_off_def)
qed

text \<open>
  C32. When a game that started with an empty journal returns, in whatever world and by whatever way it
  ended, the four LEDs are off, and the scores were announced right: every reaction time was below
  five seconds, and the best time told with it is the smallest of 5000 and the times so far, as is
  the best time the game ends with.
\<close>
theorem game_ends_clean:
  assumes "game_main fuel e s = Some (Inr (best, quit, s'))" "journal s = []"
  shows "(\<forall>i. 0 \<le> i \<and> i < 4 \<longrightarrow> devFile s' (led_path i ''/brightness'') = ''0'') \<and>
    best = least (scores (journal s')) \<and>
    (\<forall>i < length (scores (journal s')). fst (scores (journal s') ! i) < 5000 \<and>
      snd (scores (journal s') ! i) = least (take (Suc i) (scores (journal s'))))"
proof -
  from assms(1) obtain s1 where i: "game_init e s = Inr s1" by (auto simp: game_main_def run_bind_Inr_iff)
  let ?s2 = "say (Say ''(Press left or right to exit)\<newline>'')
    (say (Say ''When the LEDs light up, press the joystick in that direction!\<newline>'') (say (Say ''Hello embedded world, from Vy!\<newline>'') s1))"
  obtain d s3 where d: "random_direction e ?s2 = (d, s3)" by force
  obtain t s4 where t: "game_getTimeInMs e s3 = (t, s4)" by force
  from assms(1) i d t obtain s5 where l: "game_loop fuel e 5000 False s4 = Some (Inr (best, quit, s5))"
    and s': "s' = (if quit then say (Say ''User chose to quit.\<newline>'') s5 else s5)"
    by (auto simp: game_main_def run_bind_Inr_iff)
  have "unlit s1 s4" using d t by (auto intro: unlit_trans dest!: clock_effect simp: unlit_def)
  moreover have "told s1 = []" "all_off s1" using init_effect [OF i] assms(2) by (simp_all add: told_def)
  ultimately have "fair_play 5000 s4" "all_off s4" by (simp_all add: fair_play_def unlit_def all_off_def)
  from loop_effect [OF l this] have "fair_play best s'" "all_off s'" using s' by (auto simp: fair_play_def all_off_def)
  then show ?thesis by (auto simp: fair_play_def all_off_def honest_def told_def led_text_def)
qed

text \<open>A game of one round: DOWN is lit and pressed after 250 ms, then LEFT leaves the game.\<close>

definition play_world :: world where
  "play_world = \<lparr>clockAt = (\<lambda>k. \<lparr>tv_sec = 0, tv_nsec = int k * 250000000\<rparr>),
     filesAt = (\<lambda>k. stick (\<lambda>d. d = DOWN \<and> k = 15 \<or> d = LEFT \<and> 22 \<le> k)), firstRand = (\<lambda>_. 0),
     writable = (\<lambda>_. True), shell = (\<lambda>_. Some 0)\<rparr>"

lemma play_world_io:
  "changeBrightness play_world i v s = (if v = [] then Inl (ExitCode 1) else Inr (s\<lparr>devFile := (devFile s)(led_path i ''/brightness'' := v)\<rparr>))"
  "setTriggers play_world i v s = (if v = [] then Inl (ExitCode 1) else Inr (s\<lparr>devFile := (devFile s)(led_path i ''/trigger'' := v)\<rparr>))"
  "poll play_world d s = Inr (d = DOWN \<and> tick s = 15 \<or> d = LEFT \<and> 22 \<le> tick s, s\<lparr>tick := Suc (tick s)\<rparr>)"
  "game_getTimeInMs play_world s = (int (tick s) * 250, s\<lparr>tick := Suc (tick s)\<rparr>)"
  "random_direction play_world s = (DOWN, s\<lparr>tick := Suc (tick s)\<rparr>)"
  "chooseWaitTime play_world s = (1500, s\<lparr>tick := Suc (tick s)\<rparr>)"
  "game_runCommand play_world c s = Inr (s\<lparr>journal := journal s @ [Ran c 0]\<rparr>)"
  by (simp_all add: changeBrightness_def setTriggers_def write_dev_def poll_def game_getTimeInMs_def random_direction_def
      chooseWaitTime_def seeded_rand_def game_runCommand_def say_def play_world_def randomizeDirection_def wait_time_ends sdiv_nonneg Let_def)

definition posn :: "nat \<Rightarrow> (int \<times> int) list \<Rightarrow> game \<Rightarrow> bool" where
  "posn k xs s \<longleftrightarrow> tick s = k \<and> scores (journal s) = xs"

lemma at_say: "posn k xs s \<Longrightarrow> posn k (xs @ scores [ev]) (say ev s)"
  by (simp add: posn_def say_def)

lemma at_sleep: "posn k xs s \<Longrightarrow> posn (Suc k) xs (game_sleepForMs d s)"
  by (simp add: posn_def say_def game_sleepForMs_def Let_def)

lemma at_set: "\<exists>s'. for_range 0 4 (\<lambda>i. changeBrightness play_world i [c]) s = Inr s' \<and> (posn k xs s \<longrightarrow> posn k xs s')"
proof -
  have "\<exists>s'. for_range 0 4 (\<lambda>i. changeBrightness play_world i [c]) s = Inr s' \<and> (posn k xs s \<longrightarrow> posn k xs s')"
    by (rule for_range_rule [of 0 4 "\<lambda>_ s'. posn k xs s \<longrightarrow> posn k xs s'"]) (simp_all add: play_world_io posn_def)
  then show ?thesis .
qed

lemma at_flash:
  assumes "posn k xs s"
  shows "\<exists>s'. flashLEDs play_world 2 d1 d2 s = Inr s' \<and> posn (k + 4) xs s'"
proof -
  have "\<exists>s'. flashLEDs play_world 2 d1 d2 s = Inr s' \<and> posn (k + 2 * nat 2) xs s'"
    unfolding flashLEDs_def
  proof (rule for_range_rule [of 0 2 "\<lambda>i s'. posn (k + 2 * nat i) xs s'"])
    fix i :: int and s :: game
    assume i: "0 \<le> i" "posn (k + 2 * nat i) xs s"
    obtain s1 where s1: "for_range 0 4 (\<lambda>i. changeBrightness play_world i ''1'') s = Inr s1" "posn (k + 2 * nat i) xs s1"
      using at_set [of "CHR ''1''" s "k + 2 * nat i" xs] i(2) by auto
    obtain s2 where s2: "for_range 0 4 (\<lambda>i. changeBrightness play_world i ''0'') (game_sleepForMs d1 s1) = Inr s2" "posn (Suc (k + 2 * nat i)) xs s2"
      using at_set [of "CHR ''0''" "game_sleepForMs d1 s1" "Suc (k + 2 * nat i)" xs] at_sleep [OF s1(2)] by auto
    have "posn (k + 2 * nat (i + 1)) xs (game_sleepForMs d2 s2)" using at_sleep [OF s2(2), of d2] i(1) by (simp add: nat_add_distrib)
    then show "\<exists>t. rbind (for_range 0 4 (\<lambda>i. changeBrightness play_world i ''1'') s) (\<lambda>s1.
        rbind (for_range 0 4 (\<lambda>i. changeBrightness play_world i ''0'') (game_sleepForMs d1 s1)) (\<lambda>s2. Inr (game_sleepForMs d2 s2))) = Inr t \<and>
        posn (k + 2 * nat (i + 1)) xs t"
      using s1(1) s2(1) by simp
  qed (use assms in simp_all)
  then show ?thesis by simp
qed

lemma at_reset: "posn k xs s \<Longrightarrow> \<exists>s'. resetLEDs play_world s = Inr s' \<and> posn k xs s'"
  by (simp add: resetLEDs_def play_world_io posn_def)

lemma at_init: "\<exists>s'. game_init play_world game_start = Inr s' \<and> posn 0 [] s'"
proof -
  obtain s where "run_commands play_world [''config-pin p8.43 gpio'', ''config-pin p8.14 gpio'', ''config-pin p8.15 gpio'',
      ''config-pin p8.16 gpio'', ''config-pin p8.17 gpio'', ''config-pin p8.18 gpio''] game_start = Inr s" "posn 0 [] s"
    by (simp add: play_world_io posn_def game_start_def)
  moreover have "\<exists>s'. for_range 0 4 (\<lambda>i s. rbind (setTriggers play_world i ''none'' s) (changeBrightness play_world i ''0'')) s = Inr s' \<and> posn 0 [] s'"
    by (rule for_range_rule [of 0 4 "\<lambda>_ s'. posn 0 [] s'"]) (use \<open>posn 0 [] s\<close> in \<open>simp_all add: play_world_io posn_def\<close>)
  ultimately show ?thesis by (simp add: game_init_def del: run_commands.simps)
qed

lemma at_poll:
  assumes "posn k xs s"
  shows "\<exists>s'. poll play_world d s = Inr (d = DOWN \<and> k = 15 \<or> d = LEFT \<and> 22 \<le> k, s') \<and> posn (Suc k) xs s'"
    "\<exists>s'. game_getTimeInMs play_world s = (int k * 250, s') \<and> posn (Suc k) xs s'"
    "\<exists>s'. random_direction play_world s = (DOWN, s') \<and> posn (Suc k) xs s'"
    "\<exists>s'. chooseWaitTime play_world s = (1500, s') \<and> posn (Suc k) xs s'"
    "\<exists>s'. changeBrightness play_world i [c] s = Inr s' \<and> posn k xs s'"
  using assms by (auto simp: play_world_io posn_def)

lemma at_poll_either:
  assumes "posn k xs s" "k < 21"
  shows "a \<noteq> DOWN \<Longrightarrow> b \<noteq> DOWN \<or> k \<noteq> 14 \<Longrightarrow> \<exists>s'. poll_either play_world a b s = Inr (False, s') \<and> posn (k + 2) xs s'"
  using assms by (auto simp: play_world_io posn_def poll_either_def)

lemma at_leave: "posn 21 xs s \<Longrightarrow> \<exists>s'. poll_either play_world RIGHT LEFT s = Inr (True, s') \<and> posn 23 xs s'"
  by (auto simp: play_world_io posn_def poll_either_def)

lemma at_wait: "posn 7 xs s \<Longrightarrow> \<exists>s'. wait_loop (Suc (Suc n)) play_world 1500 1500 s = Some (Inr (Waited, s')) \<and> posn 13 xs s'"
  by (simp add: play_world_io posn_def poll_either_def numeral_eq_Suc)

lemma at_react:
  assumes "posn 14 [] s"
  shows "\<exists>s'. react_loop (Suc n) play_world DOWN UP 3250 5000 s = Some (Inr (250, 250, False, s')) \<and> posn 21 [(250, 250)] s'"
proof -
  obtain s1 where s1: "game_getTimeInMs play_world s = (3500, s1)" "posn 15 [] s1" using at_poll(2) [OF assms] by auto
  obtain s2 where s2: "poll play_world DOWN s1 = Inr (True, s2)" "posn 16 [] s2" using at_poll(1) [OF s1(2), of DOWN] by auto
  let ?s = "say (Score 250 250) (say (Say ''New best time!\<newline>'') (say (Say ''Correct!\<newline>'') s2))"
  have "posn 16 [(250, 250)] ?s" using s2(2) by (simp add: posn_def say_def)
  from at_flash [OF this] obtain s3 where s3: "flashLEDs play_world 2 50 200 ?s = Inr s3" "posn 20 [(250, 250)] s3" by auto
  from at_reset [OF s3(2)] obtain s4 where s4: "resetLEDs play_world s3 = Inr s4" "posn 20 [(250, 250)] s4" by auto
  show ?thesis using s1(1) s2(1) s3(1) s4(1) at_sleep [OF s4(2), of 1000] by (simp add: Let_def)
qed

lemma posn_round:
  assumes "posn 4 [] s"
  shows "\<exists>s'. game_round (Suc (Suc 0)) play_world 5000 False s = Some (Inr (False, 250, False, s')) \<and> posn 21 [(250, 250)] s'"
proof -
  obtain s1 where s1: "random_direction play_world s = (DOWN, s1)" "posn 5 [] s1" using at_poll(3) [OF assms] by auto
  have "posn 5 [] (say (Say ''Get ready...\<newline>'') s1)" using at_say [OF s1(2), of "Say ''Get ready...\<newline>''"] by simp
  from at_poll(4) [OF this] obtain s2 where s2: "chooseWaitTime play_world (say (Say ''Get ready...\<newline>'') s1) = (1500, s2)" "posn 6 [] s2" by auto
  obtain s3 where s3: "game_getTimeInMs play_world s2 = (1500, s3)" "posn 7 [] s3" using at_poll(2) [OF s2(2)] by auto
  obtain s4 where s4: "wait_loop (Suc (Suc 0)) play_world 1500 1500 s3 = Some (Inr (Waited, s4))" "posn 13 [] s4" using at_wait [OF s3(2)] by blast
  obtain s5 where s5: "game_getTimeInMs play_world s4 = (3250, s5)" "posn 14 [] s5" using at_poll(2) [OF s4(2)] by auto
  obtain s6 where s6: "changeBrightness play_world 3 ''1'' s5 = Inr s6" "posn 14 [] s6" using at_poll(5) [OF s5(2)] by blast
  have "posn 14 [] (say (Say ''Press DOWN now!\<newline>'') s6)" using at_say [OF s6(2), of "Say ''Press DOWN now!\<newline>''"] by simp
  from at_react [OF this, of "Suc 0"] obtain s7 where
    "react_loop (Suc (Suc 0)) play_world DOWN UP 3250 5000 (say (Say ''Press DOWN now!\<newline>'') s6) = Some (Inr (250, 250, False, s7))"
    "posn 21 [(250, 250)] s7" by blast
  then show ?thesis unfolding game_round_def
    by (simp del: wait_loop.simps react_loop.simps add: s1(1) s2(1) s3(1) s4(1) s5(1) s6(1) Let_def)
qed

lemma play_world_game:
  "\<exists>s'. game_main (Suc (Suc (Suc 0))) play_world game_start = Some (Inr (250, False, s')) \<and> scores (journal s') = [(250, 250)]"
proof -
  obtain s1 where s1: "game_init play_world game_start = Inr s1" "posn 0 [] s1" using at_init by blast
  let ?s2 = "say (Say ''(Press left or right to exit)\<newline>'')
    (say (Say ''When the LEDs light up, press the joystick in that direction!\<newline>'') (say (Say ''Hello embedded world, from Vy!\<newline>'') s1))"
  have "posn 0 [] ?s2" using s1(2) by (simp add: posn_def say_def)
  from at_poll(3) [OF this] obtain s3 where s3: "random_direction play_world ?s2 = (DOWN, s3)" "posn 1 [] s3" by auto
  obtain s4 where s4: "game_getTimeInMs play_world s3 = (250, s4)" "posn 2 [] s4" using at_poll(2) [OF s3(2)] by (auto simp: numeral_2_eq_2)
  obtain s5 where s5: "poll_either play_world RIGHT LEFT s4 = Inr (False, s5)" "posn 4 [] s5" using at_poll_either [OF s4(2), of RIGHT LEFT] by auto
  obtain s6 where s6: "game_round (Suc (Suc 0)) play_world 5000 False s5 = Some (Inr (False, 250, False, s6))" "posn 21 [(250, 250)] s6"
    using posn_round [OF s5(2)] by blast
  obtain s7 where s7: "poll_either play_world RIGHT LEFT s6 = Inr (True, s7)" "posn 23 [(250, 250)] s7" using at_leave [OF s6(2)] by blast
  have "game_loop (Suc (Suc (Suc 0))) play_world 5000 False s4 = Some (Inr (250, False, s7))"
    by (simp add: s5(1) s6(1) s7(1) del: wait_loop.simps)
  then show ?thesis using s7(2)
    by (simp add: game_main_def s1(1) s3(1) s4(1) Let_def posn_def del: game_loop.simps)
qed

theorem game_ends_clean_witness:
  "\<exists>s'. game_main 3 play_world game_start = Some (Inr (250, False, s')) \<and> devFile s' (led_path 3 ''/brightness'') = ''0''"
proof -
  obtain s' where s': "game_main (Suc (Suc (Suc 0))) play_world game_start = Some (Inr (250, False, s'))" using play_world_game by blast
  have "journal game_start = []" by (simp add: game_start_def)
  from game_ends_clean [OF s' this] have "devFile s' (led_path 3 ''/brightness'') = ''0''" by simp
  then show ?thesis using s' by (simp add: numeral_3_eq_3)
qed

section \<open>Answers\<close>

definition writable_leds :: "world \<Rightarrow> bool" where
  "writable_leds e \<longleftrightarrow> (\<forall>i. 0 \<le> i \<and> i < 4 \<longrightarrow> writable e (led_path i ''/brightness''))"

lemma brightness_writes: "writable_leds e \<Longrightarrow> 0 \<le> i \<Longrightarrow> i < 4 \<Longrightarrow> \<exists>s'. changeBrightness e i [c] s = Inr s' \<and> journal s' = journal s"
  by (simp add: changeBrightness_def write_dev_def writable_leds_def)

lemma set_all_writes: "writable_leds e \<Longrightarrow> \<exists>s'. for_range 0 4 (\<lambda>i. changeBrightness e i [c]) s = Inr s'"
  using for_range_rule [of 0 4 "\<lambda>_ _. True" s "\<lambda>i. changeBrightness e i [c]"] brightness_writes [of e _ c] by (simp, blast)

lemma flash_writes: "writable_leds e \<Longrightarrow> 0 \<le> n \<Longrightarrow> \<exists>s'. flashLEDs e n a b s = Inr s'"
proof -
  assume w: "writable_leds e" and n: "0 \<le> n"
  have "\<exists>t. flashLEDs e n a b s = Inr t \<and> True"
    unfolding flashLEDs_def
  proof (rule for_range_rule [of 0 n "\<lambda>_ _. True"])
    fix i s
    obtain s1 where "for_range 0 4 (\<lambda>i. changeBrightness e i ''1'') s = Inr s1" using set_all_writes [OF w] by blast
    moreover obtain s2 where "for_range 0 4 (\<lambda>i. changeBrightness e i ''0'') (game_sleepForMs a s1) = Inr s2" using set_all_writes [OF w] by blast
    ultimately show "\<exists>t. rbind (for_range 0 4 (\<lambda>i. changeBrightness e i ''1'') s) (\<lambda>s1.
        rbind (for_range 0 4 (\<lambda>i. changeBrightness e i ''0'') (game_sleepForMs a s1)) (\<lambda>s2. Inr (game_sleepForMs b s2))) = Inr t \<and> True"
      by simp
  qed (use n in simp_all)
  then show ?thesis by simp
qed

lemma reset_writes: "writable_leds e \<Longrightarrow> \<exists>s'. resetLEDs e s = Inr s'"
proof -
  assume w: "writable_leds e"
  obtain s1 where "changeBrightness e 0 ''0'' s = Inr s1" using brightness_writes [OF w, of 0 "CHR ''0''" s] by auto
  moreover obtain s2 where "changeBrightness e 3 ''0'' s1 = Inr s2" using brightness_writes [OF w, of 3 "CHR ''0''" s1] by auto
  ultimately show ?thesis by (simp add: resetLEDs_def)
qed

text \<open>
  An answer is judged at the first look after the LED lights: when the player holds the right
  direction at that moment, fewer than 5 seconds after, the loop returns at once (whatever the fuel)
  with exactly one more score, the measured time and the better of it and the best so far, and the LEDs
  off; when only the opposite direction is held, it returns with the best time and the scores unchanged.
\<close>
theorem answer_is_judged:
  assumes "writable_leds e"
    and "isDirectionPressed (filesAt e (Suc (tick s))) p = Inr right"
    and "isDirectionPressed (filesAt e (Suc (Suc (tick s)))) np = Inr True"
    and "t = ms_of (clockAt e (tick s)) - t0" "t < 5000"
  shows "\<exists>s'. react_loop (Suc fuel) e p np t0 best s =
      Some (Inr (t, if right then min best t else best, False, s')) \<and> all_off s' \<and>
      scores (journal s') = scores (journal s) @ (if right then [(t, min best t)] else [])"
proof -
  let ?s1 = "s\<lparr>tick := Suc (tick s)\<rparr>" and ?s2 = "s\<lparr>tick := Suc (Suc (tick s))\<rparr>" and ?s3 = "s\<lparr>tick := Suc (Suc (Suc (tick s)))\<rparr>"
  have c: "game_getTimeInMs e s = (t + t0, ?s1)" using assms(4) by (simp add: game_getTimeInMs_def ms_of_def Let_def)
  have p1: "poll e p ?s1 = Inr (right, ?s2)" using assms(2) by (simp add: poll_def)
  show ?thesis
  proof (cases right)
    case True
    let ?m = "min best t"
    let ?s = "say (Score t ?m) (if t < best then say (Say ''New best time!\<newline>'') (say (Say ''Correct!\<newline>'') ?s2) else say (Say ''Correct!\<newline>'') ?s2)"
    obtain s4 where s4: "flashLEDs e 2 50 200 ?s = Inr s4" using flash_writes [OF assms(1), of 2] by fastforce
    obtain s5 where s5: "resetLEDs e s4 = Inr s5" using reset_writes [OF assms(1)] by blast
    have m: "(if t < best then t else best) = ?m" by (simp add: min_def)
    have "react_loop (Suc fuel) e p np t0 best s = Some (Inr (t, ?m, False, game_sleepForMs 1000 s5))"
      by (simp only: react_loop.simps c prod.case Let_def add_diff_cancel_right' if_P [OF assms(5)] p1 True run_bind_simps if_True m s4 s5)
    moreover have "told (game_sleepForMs 1000 s5) = told s @ [(t, ?m)]" "all_off (game_sleepForMs 1000 s5)"
      using after_flash [OF s4 s5, of 1000] by simp_all
    ultimately show ?thesis using True by (simp add: told_def)
  next
    case False
    let ?s = "say (Say ''Incorrect.\<newline>'') ?s3"
    have p2: "poll e np ?s2 = Inr (True, ?s3)" using assms(3) by (simp add: poll_def)
    obtain s4 where s4: "flashLEDs e 10 10 90 ?s = Inr s4" using flash_writes [OF assms(1), of 10] by fastforce
    obtain s5 where s5: "resetLEDs e s4 = Inr s5" using reset_writes [OF assms(1)] by blast
    have "react_loop (Suc fuel) e p np t0 best s = Some (Inr (t, best, False, game_sleepForMs 1000 s5))"
      using False p1 p2 assms(5) by (simp add: c s4 s5 Let_def)
    moreover have "told (game_sleepForMs 1000 s5) = told s" "all_off (game_sleepForMs 1000 s5)"
      using after_flash [OF s4 s5, of 1000] by simp_all
    ultimately show ?thesis using False by (simp add: told_def)
  qed
qed

definition holding :: "joystick \<Rightarrow> world" where
  "holding d = \<lparr>clockAt = (\<lambda>k. \<lparr>tv_sec = 0, tv_nsec = int k * 250000000\<rparr>),
     filesAt = (\<lambda>_. stick (\<lambda>d'. d' = d)), firstRand = (\<lambda>_. 0), writable = (\<lambda>_. True), shell = (\<lambda>_. Some 0)\<rparr>"

theorem answer_is_judged_witness:
  "\<exists>s'. react_loop 1 (holding DOWN) UP DOWN 0 5000 \<lparr>tick = 1, devFile = (\<lambda>_. ''0''), journal = []\<rparr> =
    Some (Inr (250, 5000, False, s')) \<and> scores (journal s') = []"
  using answer_is_judged [of "holding DOWN" "\<lparr>tick = 1, devFile = (\<lambda>_. ''0''), journal = []\<rparr>" UP False DOWN 250 0 0 5000]
  by (auto simp: holding_def writable_leds_def middle_off_def led_text_def ms_of_def sdiv_nonneg)


section \<open>The answering loop ends\<close>

lemma poll_tick: "poll e d s = Inr (b, s') \<Longrightarrow> tick s < tick s'"
  "poll_either e c d s = Inr (b, s') \<Longrightarrow> tick s < tick s'"
  by (auto simp: poll_def poll_either_def res_iff split: if_splits)

lemma run_bind_total: "(\<And>x. \<exists>r. f x = Some r) \<Longrightarrow> \<exists>r. run_bind (Some m) f = Some r"
  by (cases m) simp_all

text \<open>One turn of the loop: it is the last one, whatever the fuel, or the clock is read again later.\<close>

lemma react_turn:
  "(\<exists>r. \<forall>f. react_loop (Suc f) e p np t0 best s = Some r) \<or>
   (\<exists>s'. tick s < tick s' \<and> (\<forall>f. react_loop (Suc f) e p np t0 best s = react_loop f e p np t0 best s'))"
proof -
  obtain now s1 where c: "game_getTimeInMs e s = (now, s1)" "tick s < tick s1" by (auto simp: game_getTimeInMs_def Let_def)
  consider "\<not> now - t0 < 5000" | x where "now - t0 < 5000" "poll e p s1 = Inl x"
    | s2 where "now - t0 < 5000" "poll e p s1 = Inr (True, s2)"
    | s2 x where "now - t0 < 5000" "poll e p s1 = Inr (False, s2)" "poll e np s2 = Inl x"
    | s2 s3 where "now - t0 < 5000" "poll e p s1 = Inr (False, s2)" "poll e np s2 = Inr (True, s3)"
    | s2 s3 where "now - t0 < 5000" "poll e p s1 = Inr (False, s2)" "poll e np s2 = Inr (False, s3)"
    by (cases "now - t0 < 5000"; cases "poll e p s1"; cases "poll e np (snd (projr (poll e p s1)))") force+
  then show ?thesis
  proof cases
    case (3 s2)
    then show ?thesis using c by (simp add: Let_def run_bind_total)
  next
    case (5 s2 s3)
    then show ?thesis using c by (simp add: Let_def run_bind_total)
  next
    case (6 s2 s3)
    have "tick s < tick s3" using c(2) poll_tick(1) [OF 6(2)] poll_tick(1) [OF 6(3)] by simp
    consider x where "poll_either e RIGHT LEFT s3 = Inl x" | s4 where "poll_either e RIGHT LEFT s3 = Inr (True, s4)"
      | s4 where "poll_either e RIGHT LEFT s3 = Inr (False, s4)" by (cases "poll_either e RIGHT LEFT s3") force+
    then show ?thesis
    proof cases
      case (3 s4)
      then show ?thesis using c 6 \<open>tick s < tick s3\<close> poll_tick(2) [OF 3] by (intro disjI2 exI [of _ s4]) simp
    qed (use c 6 in \<open>simp_all add: run_bind_total\<close>)
  qed (use c in simp_all)
qed

lemma react_loop_more_fuel: "react_loop fuel e p np t0 best s = Some r \<Longrightarrow> fuel \<le> fuel' \<Longrightarrow> react_loop fuel' e p np t0 best s = Some r"
proof (induction fuel arbitrary: fuel' s)
  case (Suc fuel)
  then obtain f where f: "fuel' = Suc f" "fuel \<le> f" by (cases fuel') auto
  show ?case using react_turn [of e p np t0 best s] Suc.prems(1) Suc.IH [OF _ f(2)] unfolding f(1) by metis
qed simp

text \<open>
  The answering loop always ends: if from some reading on the clock is 5000 ms past the moment the
  LED was lit, whatever the joystick and the LEDs do, the loop returns or exits within as many turns as
  there are readings before, and more turns allowed change nothing.
\<close>

theorem answering_ends:
  assumes "\<And>k. T \<le> k \<Longrightarrow> t0 + 5000 \<le> ms_of (clockAt e k)" "T \<le> tick s + n" "n < fuel"
  shows "\<exists>r. \<forall>fuel' \<ge> fuel. react_loop fuel' e p np t0 best s = Some r"
proof -
  have "\<exists>r. react_loop (Suc n) e p np t0 best s = Some r"
    using assms(2)
  proof (induction n arbitrary: s)
    case 0
    then have "t0 + 5000 \<le> ms_of (clockAt e (tick s))" using assms(1) by simp
    then show ?case by (simp add: game_getTimeInMs_def ms_of_def Let_def)
  next
    case (Suc n)
    have go_on: "\<exists>r. react_loop (Suc n) e p np t0 best s' = Some r" if "tick s < tick s'" for s'
      using Suc.IH [of s'] Suc.prems that by simp
    show ?case using react_turn [of e p np t0 best s] go_on by metis
  qed
  then show ?thesis using react_loop_more_fuel assms(3) by (metis Suc_leI le_trans)
qed

text \<open>Nobody touches the joystick of \<open>quiet_world\<close>, whose clock goes on 2 ms with every reading.\<close>

theorem answering_ends_witness: "\<exists>r. \<forall>fuel' \<ge> 2501. react_loop fuel' quiet_world UP DOWN 0 5000 game_start = Some r"
proof (rule answering_ends [of 2500 0 quiet_world game_start 2500 2501])
  fix k :: nat
  assume "2500 \<le> k"
  have "ms_of (clockAt quiet_world k) = int k div 500 * 1000 + int k mod 500 * 2"
    by (simp add: ms_of_def quiet_world_def sdiv_nonneg)
  then show "0 + 5000 \<le> ms_of (clockAt quiet_world k)" using \<open>2500 \<le> k\<close> div_mult_mod_eq [of "int k" 500] by linarith
qed simp_all

end
