(* ===== verification/Noworky.thy ===== *)
theory Noworky
  imports CHeap Complex_Main
begin

text \<open>
  The array swapping exercise (\<open>work/as2/noworky.c\<close>). Its loop counts an unsigned 32-bit index down
  and tests it against 0, so the loop is a partial function and the index a word.
\<close>

definition NUM_ELEMENTS :: int where "NUM_ELEMENTS = 10"

definition swapContent :: "ptr \<Rightarrow> int \<Rightarrow> ptr \<Rightarrow> int \<Rightarrow> rat heap \<Rightarrow> rat heap res" where
  "swapContent d1 i d2 j h =
     rbind (h_read h d2 j) (\<lambda>tmp.
     rbind (h_read h d1 i) (\<lambda>x.
     rbind (h_write h d2 j x) (\<lambda>h1.
     h_write h1 d1 i tmp)))"

partial_function (option) trade_loop :: "ptr \<Rightarrow> ptr \<Rightarrow> 32 word \<Rightarrow> rat heap \<Rightarrow> rat heap res option" where
  "trade_loop array1 array2 i h =
     (if i \<ge> 0
      then (case swapContent array1 (uint i) array2 (uint i) h of
              Inl e \<Rightarrow> Some (Inl e)
            | Inr h1 \<Rightarrow> trade_loop array1 array2 (i - 1) h1)
      else Some (Inr h))"

definition tradeArrays :: "ptr \<Rightarrow> ptr \<Rightarrow> int \<Rightarrow> rat heap \<Rightarrow> rat heap res option" where
  "tradeArrays array1 array2 n h = trade_loop array1 array2 (word_of_int (n - 1)) h"

definition displayArrays :: "ptr \<Rightarrow> ptr \<Rightarrow> int \<Rightarrow> rat heap \<Rightarrow> (int \<times> rat \<times> rat) list res" where
  "displayArrays source target n h =
     for_range 0 (uint (word_of_int n :: 32 word)) (\<lambda>i rows.
       rbind (h_read h source i) (\<lambda>x. rbind (h_read h target i) (\<lambda>y. Inr (rows @ [(i, x, y)])))) []"

text \<open>
  The program: what it displays before and after trading, and the final heap. An allocation that
  fails is reported, and the program goes on.
\<close>

definition noworky_init :: "rat heap \<Rightarrow> (ptr \<times> ptr \<times> rat heap) res" where
  "noworky_init h0 =
     (let (source, h1) = h_malloc NUM_ELEMENTS h0; (target, h2) = h_malloc NUM_ELEMENTS h1 in
      rbind (for_range 0 NUM_ELEMENTS (\<lambda>i h. rbind (h_write h source i (of_int i * 2)) (\<lambda>h.
               h_write h target i (of_int i * 10))) h2) (\<lambda>h3.
      Inr (source, target, h3)))"

definition noworky_main :: "rat heap \<Rightarrow> ((int \<times> rat \<times> rat) list \<times> (int \<times> rat \<times> rat) list \<times> rat heap) res option" where
  "noworky_main h0 =
     (case noworky_init h0 of
        Inl e \<Rightarrow> Some (Inl e)
      | Inr (source, target, h1) \<Rightarrow>
          (case displayArrays source target NUM_ELEMENTS h1 of
             Inl e \<Rightarrow> Some (Inl e)
           | Inr before \<Rightarrow>
               (case tradeArrays source target NUM_ELEMENTS h1 of
                  None \<Rightarrow> None
                | Some (Inl e) \<Rightarrow> Some (Inl e)
                | Some (Inr h2) \<Rightarrow>
                    Some (rbind (displayArrays source target NUM_ELEMENTS h2) (\<lambda>after.
                          rbind (h_free source h2) (\<lambda>h3. rbind (h_free target h3) (\<lambda>h4.
                          Inr (before, after, h4))))))))"

section \<open>The swap and the loop\<close>

definition holds :: "rat heap \<Rightarrow> ptr \<Rightarrow> rat list \<Rightarrow> bool" where
  "holds h p xs \<longleftrightarrow> p \<noteq> 0 \<and> block h p = Some (map Some xs)"

lemma holds_read: "holds h p xs \<Longrightarrow> 0 \<le> i \<Longrightarrow> h_read h p i = (if i < int (length xs) then Inr (xs ! nat i) else Inl OutOfBounds)"
  by (simp add: holds_def h_read_def aread_def in_range_def)

lemma holds_write:
  assumes "holds h p xs" "0 \<le> i" "i < int (length xs)"
  shows "\<exists>h'. h_write h p i x = Inr h' \<and> holds h' p (xs[nat i := x]) \<and> (\<forall>q ys. q \<noteq> p \<longrightarrow> holds h q ys \<longrightarrow> holds h' q ys)"
  using assms by (auto simp: holds_def h_write_def awrite_def in_range_def map_update)

lemma swap_holds:
  assumes "holds h a xs" "holds h b ys" "a \<noteq> b" "length xs = length ys" "j < length xs"
  shows "\<exists>h'. swapContent a (int j) b (int j) h = Inr h' \<and> holds h' a (xs[j := ys ! j]) \<and> holds h' b (ys[j := xs ! j])"
proof -
  obtain h1 where h1: "h_write h b (int j) (xs ! j) = Inr h1" "holds h1 b (ys[j := xs ! j])" "holds h1 a xs"
    using holds_write [OF assms(2), of "int j" "xs ! j"] assms by auto
  obtain h2 where "h_write h1 a (int j) (ys ! j) = Inr h2" "holds h2 a (xs[j := ys ! j])" "holds h2 b (ys[j := xs ! j])"
    using holds_write [OF h1(3), of "int j" "ys ! j"] assms h1(2) by auto
  then show ?thesis using h1(1) assms by (simp add: swapContent_def holds_read)
qed

lemma trade_step:
  "trade_loop a b i h = (case swapContent a (uint i) b (uint i) h of
     Inl e \<Rightarrow> Some (Inl e) | Inr h1 \<Rightarrow> trade_loop a b (i - 1) h1)"
  by (subst trade_loop.simps) simp

lemma trade_down:
  "j < length xs \<Longrightarrow> length xs = length ys \<Longrightarrow> length xs < 2 ^ 31 \<Longrightarrow> a \<noteq> b \<Longrightarrow> holds h a xs \<Longrightarrow> holds h b ys \<Longrightarrow>
    \<exists>h'. trade_loop a b (word_of_nat j) h = trade_loop a b (- 1) h' \<and>
      holds h' a (take (Suc j) ys @ drop (Suc j) xs) \<and> holds h' b (take (Suc j) xs @ drop (Suc j) ys)"
proof (induction j arbitrary: h xs ys)
  case 0
  obtain h1 where h1: "swapContent a (int 0) b (int 0) h = Inr h1" "holds h1 a (xs[0 := ys ! 0])" "holds h1 b (ys[0 := xs ! 0])"
    using swap_holds [OF "0.prems"(5,6,4,2), of 0] "0.prems"(1) by auto
  have "xs[0 := ys ! 0] = take (Suc 0) ys @ drop (Suc 0) xs" "ys[0 := xs ! 0] = take (Suc 0) xs @ drop (Suc 0) ys"
    using "0.prems"(1,2) by (cases xs; cases ys; simp)+
  then show ?case using h1 by (intro exI [of _ h1]) (simp add: trade_step [of _ _ 0])
next
  case (Suc j)
  let ?i = "word_of_nat (Suc j) :: 32 word"
  have u: "uint ?i = int (Suc j)"
  proof -
    have "take_bit 32 (Suc j) = Suc j" using Suc.prems(1,3) by (intro take_bit_nat_eq_self) simp
    then show ?thesis by (simp only: unsigned_of_nat len_bit0 len_num1 len_of_numeral_defs) simp
  qed
  obtain h1 where h1: "swapContent a (int (Suc j)) b (int (Suc j)) h = Inr h1"
      "holds h1 a (xs[Suc j := ys ! Suc j])" "holds h1 b (ys[Suc j := xs ! Suc j])"
    using swap_holds [OF Suc.prems(5,6,4,2), of "Suc j"] Suc.prems(1) by auto
  have "trade_loop a b ?i h = trade_loop a b (word_of_nat j) h1" using h1(1) u by (subst trade_step) (simp add: u)
  moreover obtain h' where "trade_loop a b (word_of_nat j) h1 = trade_loop a b (- 1) h'"
    "holds h' a (take (Suc j) (ys[Suc j := xs ! Suc j]) @ drop (Suc j) (xs[Suc j := ys ! Suc j]))"
    "holds h' b (take (Suc j) (xs[Suc j := ys ! Suc j]) @ drop (Suc j) (ys[Suc j := xs ! Suc j]))"
    using Suc.IH [of "xs[Suc j := ys ! Suc j]" "ys[Suc j := xs ! Suc j]" h1] Suc.prems h1(2,3) by auto
  moreover have "take (Suc j) (ys[Suc j := xs ! Suc j]) @ drop (Suc j) (xs[Suc j := ys ! Suc j]) = take (Suc (Suc j)) ys @ drop (Suc (Suc j)) xs"
    if "length xs = length ys" "Suc j < length xs" for xs ys :: "rat list"
    using that by (simp add: take_Suc_conv_app_nth Cons_nth_drop_Suc [symmetric] drop_update_swap)
  ultimately show ?case using Suc.prems by metis
qed

text \<open>
  C38. \<open>tradeArrays\<close> swaps every element of two arrays of any length and then does not stop: the
  unsigned index is never below 0, it wraps around to \<open>- 1\<close>, that is \<open>2 ^ 32 - 1\<close>, and the swap there is
  outside the arrays. So each call ends in an access out of bounds, with the arrays traded.
\<close>
theorem tradeArrays_overruns:
  assumes "holds h a xs" "holds h b ys" "a \<noteq> b" "length xs = n" "length ys = n" "0 < n" "n < 2 ^ 31"
  shows "tradeArrays a b (int n) h = Some (Inl OutOfBounds) \<and>
    (\<exists>h'. tradeArrays a b (int n) h = trade_loop a b (- 1) h' \<and> holds h' a ys \<and> holds h' b xs)"
proof -
  have i: "word_of_int (int n - 1) = (word_of_nat (n - 1) :: 32 word)" using assms(6) by (cases n) simp_all
  obtain h' where h': "tradeArrays a b (int n) h = trade_loop a b (- 1) h'" "holds h' a ys" "holds h' b xs"
    using trade_down [of "n - 1" xs ys a b h] assms by (auto simp: tradeArrays_def i)
  have u: "uint (- 1 :: 32 word) = 4294967295" by (simp add: unsigned_minus_1_eq_mask mask_eq_exp_minus_1)
  have "h_read h' b 4294967295 = Inl OutOfBounds" using holds_read [OF h'(3), of 4294967295] assms(4,7) by simp
  then have "trade_loop a b (- 1) h' = Some (Inl OutOfBounds)" by (simp add: trade_step [of _ _ "- 1"] swapContent_def u)
  then show ?thesis using h' by metis
qed

definition sources :: "rat list" where "sources = map (\<lambda>i. of_int i * 2) [0..9]"
definition targets :: "rat list" where "targets = map (\<lambda>i. of_int i * 10) [0..9]"

lemma noworky_init_holds:
  "\<exists>h. noworky_init empty_heap = Inr (1, 2, h) \<and> holds h 1 sources \<and> holds h 2 targets"
  by (simp add: noworky_init_def h_malloc_def empty_heap_def size_cells_def max_cells_def NUM_ELEMENTS_def
      for_range_step h_write_def awrite_def in_range_def holds_def sources_def targets_def eval_nat_numeral upto.simps)

theorem tradeArrays_overruns_witness:
  "\<exists>h. noworky_init empty_heap = Inr (1, 2, h) \<and> tradeArrays 1 2 10 h = Some (Inl OutOfBounds) \<and>
    noworky_main empty_heap = Some (Inl OutOfBounds)"
proof -
  obtain h where h: "noworky_init empty_heap = Inr (1, 2, h)" "holds h 1 sources" "holds h 2 targets"
    using noworky_init_holds by blast
  have t: "tradeArrays 1 2 10 h = Some (Inl OutOfBounds)"
    using tradeArrays_overruns [OF h(2,3), of 10] by (simp add: sources_def targets_def)
  have "\<exists>rows. displayArrays 1 2 NUM_ELEMENTS h = Inr rows"
    unfolding displayArrays_def
    using for_range_rule [of 0 10 "\<lambda>_ _. True" "[]" "\<lambda>i rows. rbind (h_read h 1 i) (\<lambda>x. rbind (h_read h 2 i) (\<lambda>y. Inr (rows @ [(i, x, y)])))"]
      holds_read [OF h(2)] holds_read [OF h(3)] by (simp add: NUM_ELEMENTS_def sources_def targets_def)
  then have "noworky_main empty_heap = Some (Inl OutOfBounds)"
    using h(1) t by (auto simp: noworky_main_def NUM_ELEMENTS_def)
  then show ?thesis using h(1) t by blast
qed

end
