(* ===== verification/UsbDescriptor.thy ===== *)
theory UsbDescriptor
  imports Prelude
begin

unbundle bit_operations_syntax

text \<open>
  The descriptor parser of the USB library the controller programs are built with
  (\<open>work/crosscompile/libusb-1.0.26/libusb/descriptor.c\<close>, structures from \<open>libusb.h\<close>): it turns the bytes a
  device sends into linked structures. A buffer is a list of bytes; reading outside it is the error
  \<open>OutOfBounds\<close>, so \<open>Inr\<close> results are memory safe. Allocations are counted: which of them succeed is
  a function of their number, \<open>live\<close> is the number of blocks not yet released. A pointer to a block is
  an optional value. Logging is left out.
\<close>

section \<open>Codes and memory\<close>

type_synonym byte = "8 word"

definition LIBUSB_SUCCESS :: int where "LIBUSB_SUCCESS = 0"
definition LIBUSB_ERROR_IO :: int where "LIBUSB_ERROR_IO = - 1"
definition LIBUSB_ERROR_INVALID_PARAM :: int where "LIBUSB_ERROR_INVALID_PARAM = - 2"
definition LIBUSB_ERROR_NOT_FOUND :: int where "LIBUSB_ERROR_NOT_FOUND = - 5"
definition LIBUSB_ERROR_INTERRUPTED :: int where "LIBUSB_ERROR_INTERRUPTED = - 10"
definition LIBUSB_ERROR_NO_MEM :: int where "LIBUSB_ERROR_NO_MEM = - 11"

definition LIBUSB_DT_DEVICE :: byte where "LIBUSB_DT_DEVICE = 1"
definition LIBUSB_DT_CONFIG :: byte where "LIBUSB_DT_CONFIG = 2"
definition LIBUSB_DT_STRING :: byte where "LIBUSB_DT_STRING = 3"
definition LIBUSB_DT_INTERFACE :: byte where "LIBUSB_DT_INTERFACE = 4"
definition LIBUSB_DT_ENDPOINT :: byte where "LIBUSB_DT_ENDPOINT = 5"
definition LIBUSB_DT_BOS :: byte where "LIBUSB_DT_BOS = 0xf"
definition LIBUSB_DT_DEVICE_CAPABILITY :: byte where "LIBUSB_DT_DEVICE_CAPABILITY = 0x10"
definition LIBUSB_DT_SS_ENDPOINT_COMPANION :: byte where "LIBUSB_DT_SS_ENDPOINT_COMPANION = 0x30"

definition DESC_HEADER_LENGTH :: int where "DESC_HEADER_LENGTH = 2"
definition LIBUSB_DT_CONFIG_SIZE :: int where "LIBUSB_DT_CONFIG_SIZE = 9"
definition LIBUSB_DT_INTERFACE_SIZE :: int where "LIBUSB_DT_INTERFACE_SIZE = 9"
definition LIBUSB_DT_ENDPOINT_SIZE :: int where "LIBUSB_DT_ENDPOINT_SIZE = 7"
definition LIBUSB_DT_ENDPOINT_AUDIO_SIZE :: int where "LIBUSB_DT_ENDPOINT_AUDIO_SIZE = 9"
definition LIBUSB_DT_SS_ENDPOINT_COMPANION_SIZE :: int where "LIBUSB_DT_SS_ENDPOINT_COMPANION_SIZE = 6"
definition LIBUSB_DT_BOS_SIZE :: int where "LIBUSB_DT_BOS_SIZE = 5"
definition LIBUSB_DT_DEVICE_CAPABILITY_SIZE :: int where "LIBUSB_DT_DEVICE_CAPABILITY_SIZE = 3"
definition LIBUSB_BT_USB_2_0_EXTENSION_SIZE :: int where "LIBUSB_BT_USB_2_0_EXTENSION_SIZE = 7"
definition LIBUSB_BT_SS_USB_DEVICE_CAPABILITY_SIZE :: int where "LIBUSB_BT_SS_USB_DEVICE_CAPABILITY_SIZE = 10"
definition LIBUSB_BT_CONTAINER_ID_SIZE :: int where "LIBUSB_BT_CONTAINER_ID_SIZE = 20"
definition USB_MAXENDPOINTS :: int where "USB_MAXENDPOINTS = 32"
definition USB_MAXINTERFACES :: int where "USB_MAXINTERFACES = 32"

lemmas usb_consts = LIBUSB_SUCCESS_def LIBUSB_ERROR_IO_def LIBUSB_ERROR_INVALID_PARAM_def LIBUSB_ERROR_NOT_FOUND_def
  LIBUSB_ERROR_NO_MEM_def DESC_HEADER_LENGTH_def LIBUSB_DT_CONFIG_SIZE_def LIBUSB_DT_INTERFACE_SIZE_def
  LIBUSB_DT_ENDPOINT_SIZE_def LIBUSB_DT_ENDPOINT_AUDIO_SIZE_def LIBUSB_DT_SS_ENDPOINT_COMPANION_SIZE_def
  LIBUSB_DT_BOS_SIZE_def LIBUSB_DT_DEVICE_CAPABILITY_SIZE_def LIBUSB_BT_USB_2_0_EXTENSION_SIZE_def
  LIBUSB_BT_SS_USB_DEVICE_CAPABILITY_SIZE_def LIBUSB_BT_CONTAINER_ID_SIZE_def USB_MAXENDPOINTS_def USB_MAXINTERFACES_def

lemmas usb_types = LIBUSB_DT_DEVICE_def LIBUSB_DT_CONFIG_def LIBUSB_DT_STRING_def LIBUSB_DT_INTERFACE_def
  LIBUSB_DT_ENDPOINT_def LIBUSB_DT_BOS_def LIBUSB_DT_DEVICE_CAPABILITY_def LIBUSB_DT_SS_ENDPOINT_COMPANION_def

record mem =
  avail :: "nat \<Rightarrow> bool"   \<comment> \<open>whether the allocation of this number succeeds\<close>
  allocs :: nat
  live :: int

definition m_alloc :: "mem \<Rightarrow> bool \<times> mem" where \<comment> \<open>\<open>malloc\<close>, \<open>calloc\<close>\<close>
  "m_alloc m = (let ok = avail m (allocs m) in
     (ok, m\<lparr>allocs := Suc (allocs m), live := live m + (if ok then 1 else 0)\<rparr>))"

definition m_realloc :: "bool \<Rightarrow> mem \<Rightarrow> bool \<times> mem" where
  \<comment> \<open>\<open>realloc\<close> of a pointer that is null or not; a failure keeps the old block\<close>
  "m_realloc nonnull m = (let ok = avail m (allocs m) in
     (ok, m\<lparr>allocs := Suc (allocs m), live := live m + (if ok \<and> \<not> nonnull then 1 else 0)\<rparr>))"

definition m_free :: "bool \<Rightarrow> mem \<Rightarrow> mem" where \<comment> \<open>\<open>free\<close> of a pointer that is null or not\<close>
  "m_free nonnull m = m\<lparr>live := live m - (if nonnull then 1 else 0)\<rparr>"

section \<open>Fields\<close>

datatype field = Byte byte | Half "16 word" | Full "32 word" | Uuid "byte list"

definition READ_LE16 :: "byte list \<Rightarrow> int \<Rightarrow> 16 word res" where
  "READ_LE16 buf p = rbind (aread buf (p + 1)) (\<lambda>b1. rbind (aread buf p) (\<lambda>b0.
     Inr (push_bit 8 (ucast b1) OR ucast b0)))"

definition READ_LE32 :: "byte list \<Rightarrow> int \<Rightarrow> 32 word res" where
  "READ_LE32 buf p = rbind (aread buf (p + 3)) (\<lambda>b3. rbind (aread buf (p + 2)) (\<lambda>b2.
     rbind (aread buf (p + 1)) (\<lambda>b1. rbind (aread buf p) (\<lambda>b0.
     Inr (push_bit 24 (ucast b3) OR push_bit 16 (ucast b2) OR push_bit 8 (ucast b1) OR ucast b0)))))"

definition read_bytes :: "byte list \<Rightarrow> int \<Rightarrow> int \<Rightarrow> byte list res" where \<comment> \<open>\<open>memcpy\<close> from the buffer\<close>
  "read_bytes buf p n = (if 0 \<le> p \<and> p + n \<le> int (length buf) then Inr (take (nat n) (drop (nat p) buf)) else Inl OutOfBounds)"

text \<open>
  The format-driven copy: what is written at which offset of the destination structure (which is
  aligned). A \<open>d\<close> field always moves the offset on, by a whole word when it is aligned already.
\<close>

fun parse_descriptor :: "byte list \<Rightarrow> int \<Rightarrow> string \<Rightarrow> int \<Rightarrow> (int \<times> field) list res" where
  "parse_descriptor buf sp [] dp = Inr []"
| "parse_descriptor buf sp (field_type # descriptor) dp =
     (if field_type = CHR ''b''
      then rbind (aread buf sp) (\<lambda>x.
           rbind (parse_descriptor buf (sp + 1) descriptor (dp + 1)) (\<lambda>ws. Inr ((dp, Byte x) # ws)))
      else if field_type = CHR ''w''
      then (let dp1 = dp + dp mod 2 in
            rbind (READ_LE16 buf sp) (\<lambda>x.
            rbind (parse_descriptor buf (sp + 2) descriptor (dp1 + 2)) (\<lambda>ws. Inr ((dp1, Half x) # ws))))
      else if field_type = CHR ''d''
      then (let dp1 = dp + (4 - dp mod 4) in
            rbind (READ_LE32 buf sp) (\<lambda>x.
            rbind (parse_descriptor buf (sp + 4) descriptor (dp1 + 4)) (\<lambda>ws. Inr ((dp1, Full x) # ws))))
      else if field_type = CHR ''u''
      then rbind (read_bytes buf sp 16) (\<lambda>x.
           rbind (parse_descriptor buf (sp + 16) descriptor (dp + 16)) (\<lambda>ws. Inr ((dp, Uuid x) # ws)))
      else parse_descriptor buf sp descriptor dp)"

text \<open>What a structure holds at an offset after the writes, the old value where nothing was written.\<close>

definition byte_at :: "(int \<times> field) list \<Rightarrow> int \<Rightarrow> byte \<Rightarrow> byte" where
  "byte_at ws off old = (case map_of ws off of Some (Byte x) \<Rightarrow> x | _ \<Rightarrow> old)"

definition half_at :: "(int \<times> field) list \<Rightarrow> int \<Rightarrow> 16 word \<Rightarrow> 16 word" where
  "half_at ws off old = (case map_of ws off of Some (Half x) \<Rightarrow> x | _ \<Rightarrow> old)"

definition full_at :: "(int \<times> field) list \<Rightarrow> int \<Rightarrow> 32 word \<Rightarrow> 32 word" where
  "full_at ws off old = (case map_of ws off of Some (Full x) \<Rightarrow> x | _ \<Rightarrow> old)"

definition uuid_at :: "(int \<times> field) list \<Rightarrow> int \<Rightarrow> byte list \<Rightarrow> byte list" where
  "uuid_at ws off old = (case map_of ws off of Some (Uuid x) \<Rightarrow> x | _ \<Rightarrow> old)"

section \<open>Structures\<close>

record libusb_endpoint_descriptor =
  ep_bLength :: byte
  ep_bDescriptorType :: byte
  bEndpointAddress :: byte
  ep_bmAttributes :: byte
  wMaxPacketSize :: "16 word"
  bInterval :: byte
  bRefresh :: byte
  bSynchAddress :: byte
  ep_extra :: "byte list option"
  ep_extra_length :: int

record libusb_interface_descriptor =
  if_bLength :: byte
  if_bDescriptorType :: byte
  bInterfaceNumber :: byte
  bAlternateSetting :: byte
  bNumEndpoints :: byte
  bInterfaceClass :: byte
  bInterfaceSubClass :: byte
  bInterfaceProtocol :: byte
  iInterface :: byte
  endpoint :: "libusb_endpoint_descriptor list option"
  if_extra :: "byte list option"
  if_extra_length :: int

text \<open>\<open>altsetting\<close> holds the \<open>num_altsetting\<close> finished settings of the block, if there is one.\<close>

record libusb_interface =
  alt_block :: bool
  altsetting :: "libusb_interface_descriptor list"

record libusb_config_descriptor =
  cf_bLength :: byte
  cf_bDescriptorType :: byte
  wTotalLength :: "16 word"
  bNumInterfaces :: byte
  bConfigurationValue :: byte
  iConfiguration :: byte
  cf_bmAttributes :: byte
  MaxPower :: byte
  interface :: "libusb_interface list option"
  cf_extra :: "byte list option"
  cf_extra_length :: int

definition zero_endpoint :: libusb_endpoint_descriptor where
  "zero_endpoint = \<lparr>ep_bLength = 0, ep_bDescriptorType = 0, bEndpointAddress = 0, ep_bmAttributes = 0,
     wMaxPacketSize = 0, bInterval = 0, bRefresh = 0, bSynchAddress = 0, ep_extra = None, ep_extra_length = 0\<rparr>"

definition zero_interface :: libusb_interface where
  "zero_interface = \<lparr>alt_block = False, altsetting = []\<rparr>"

definition zero_config :: libusb_config_descriptor where
  "zero_config = \<lparr>cf_bLength = 0, cf_bDescriptorType = 0, wTotalLength = 0, bNumInterfaces = 0,
     bConfigurationValue = 0, iConfiguration = 0, cf_bmAttributes = 0, MaxPower = 0, interface = None,
     cf_extra = None, cf_extra_length = 0\<rparr>"

definition store_endpoint :: "(int \<times> field) list \<Rightarrow> libusb_endpoint_descriptor \<Rightarrow> libusb_endpoint_descriptor" where
  "store_endpoint ws e = e\<lparr>ep_bLength := byte_at ws 0 (ep_bLength e), ep_bDescriptorType := byte_at ws 1 (ep_bDescriptorType e),
     bEndpointAddress := byte_at ws 2 (bEndpointAddress e), ep_bmAttributes := byte_at ws 3 (ep_bmAttributes e),
     wMaxPacketSize := half_at ws 4 (wMaxPacketSize e), bInterval := byte_at ws 6 (bInterval e),
     bRefresh := byte_at ws 7 (bRefresh e), bSynchAddress := byte_at ws 8 (bSynchAddress e)\<rparr>"

definition interface_of :: "(int \<times> field) list \<Rightarrow> libusb_interface_descriptor" where
  "interface_of ws = \<lparr>if_bLength = byte_at ws 0 0, if_bDescriptorType = byte_at ws 1 0, bInterfaceNumber = byte_at ws 2 0,
     bAlternateSetting = byte_at ws 3 0, bNumEndpoints = byte_at ws 4 0, bInterfaceClass = byte_at ws 5 0,
     bInterfaceSubClass = byte_at ws 6 0, bInterfaceProtocol = byte_at ws 7 0, iInterface = byte_at ws 8 0,
     endpoint = None, if_extra = None, if_extra_length = 0\<rparr>"

definition store_config :: "(int \<times> field) list \<Rightarrow> libusb_config_descriptor \<Rightarrow> libusb_config_descriptor" where
  "store_config ws c = c\<lparr>cf_bLength := byte_at ws 0 (cf_bLength c), cf_bDescriptorType := byte_at ws 1 (cf_bDescriptorType c),
     wTotalLength := half_at ws 2 (wTotalLength c), bNumInterfaces := byte_at ws 4 (bNumInterfaces c),
     bConfigurationValue := byte_at ws 5 (bConfigurationValue c), iConfiguration := byte_at ws 6 (iConfiguration c),
     cf_bmAttributes := byte_at ws 7 (cf_bmAttributes c), MaxPower := byte_at ws 8 (MaxPower c)\<rparr>"

section \<open>Skipping class and vendor descriptors\<close>

text \<open>
  The loop shared by the three parsers: it stops at the next standard descriptor or at the end
  (\<open>SkipDone\<close>), at a descriptor longer than the rest (\<open>SkipShort\<close>) or at an impossible length; the
  numbers are the position and the size that remain.
\<close>

datatype skip = SkipInvalid | SkipShort int int | SkipDone int int

definition proper :: "byte \<Rightarrow> bool" where
  "proper t \<longleftrightarrow> t = LIBUSB_DT_ENDPOINT \<or> t = LIBUSB_DT_INTERFACE \<or> t = LIBUSB_DT_CONFIG \<or> t = LIBUSB_DT_DEVICE"

function skip_extra :: "byte list \<Rightarrow> int \<Rightarrow> int \<Rightarrow> skip res" where
  "skip_extra buf p sz =
     (if sz \<ge> DESC_HEADER_LENGTH
      then rbind (aread buf p) (\<lambda>bLength.
           if uint bLength < DESC_HEADER_LENGTH then Inr SkipInvalid
           else if uint bLength > sz then Inr (SkipShort p sz)
           else rbind (aread buf (p + 1)) (\<lambda>bDescriptorType.
             if proper bDescriptorType then Inr (SkipDone p sz)
             else skip_extra buf (p + uint bLength) (sz - uint bLength)))
      else Inr (SkipDone p sz))"
  by pat_completeness auto
termination
  by (relation "measure (\<lambda>(buf, p, sz). nat sz)") (auto simp: DESC_HEADER_LENGTH_def)

declare skip_extra.simps [simp del]

section \<open>Endpoints\<close>

definition clear_endpoint :: "libusb_endpoint_descriptor \<Rightarrow> mem \<Rightarrow> mem" where
  "clear_endpoint e m = m_free (ep_extra e \<noteq> None) m"

definition parse_endpoint :: "libusb_endpoint_descriptor \<Rightarrow> byte list \<Rightarrow> int \<Rightarrow> int \<Rightarrow> mem \<Rightarrow>
    (int \<times> libusb_endpoint_descriptor \<times> mem) res" where
  "parse_endpoint ep buf p sz m =
     (if sz < DESC_HEADER_LENGTH then Inr (LIBUSB_ERROR_IO, ep, m)
      else rbind (aread buf (p + 1)) (\<lambda>bDescriptorType.
      if bDescriptorType \<noteq> LIBUSB_DT_ENDPOINT then Inr (0, ep, m)
      else rbind (aread buf p) (\<lambda>bLength.
      if uint bLength < LIBUSB_DT_ENDPOINT_SIZE then Inr (LIBUSB_ERROR_IO, ep, m)
      else if uint bLength > sz then Inr (0, ep, m)
      else rbind (parse_descriptor buf p
               (if uint bLength \<ge> LIBUSB_DT_ENDPOINT_AUDIO_SIZE then ''bbbbwbbb'' else ''bbbbwb'') 0) (\<lambda>ws.
      let ep1 = store_endpoint ws ep; begin0 = p + uint bLength in
      rbind (skip_extra buf begin0 (sz - uint bLength)) (\<lambda>sk.
      case sk of
        SkipInvalid \<Rightarrow> Inr (LIBUSB_ERROR_IO, ep1, m)
      | SkipShort q _ \<Rightarrow> Inr (q - p, ep1, m)
      | SkipDone q _ \<Rightarrow>
          (let len = q - begin0 in
           if len \<le> 0 then Inr (q - p, ep1, m)
           else (let (ok, m1) = m_alloc m in
             if \<not> ok then Inr (LIBUSB_ERROR_NO_MEM, ep1, m1)
             else rbind (read_bytes buf begin0 len) (\<lambda>bs.
               Inr (q - p, ep1\<lparr>ep_extra := Some bs, ep_extra_length := len\<rparr>, m1)))))))))"

section \<open>Interfaces\<close>

fun clear_endpoints :: "libusb_endpoint_descriptor list \<Rightarrow> mem \<Rightarrow> mem" where
  "clear_endpoints [] m = m"
| "clear_endpoints (e # es) m = clear_endpoints es (clear_endpoint e m)"

definition clear_setting :: "libusb_interface_descriptor \<Rightarrow> mem \<Rightarrow> mem" where
  "clear_setting ifp m =
     (let m1 = m_free (if_extra ifp \<noteq> None) m;
          m2 = (case endpoint ifp of None \<Rightarrow> m1 | Some eps \<Rightarrow> clear_endpoints (take (unat (bNumEndpoints ifp)) eps) m1) in
      m_free (endpoint ifp \<noteq> None) m2)"

definition clear_interface :: "libusb_interface \<Rightarrow> mem \<Rightarrow> libusb_interface \<times> mem" where
  "clear_interface itf m =
     (let m1 = (if alt_block itf then fold clear_setting (altsetting itf) m else m) in
      (itf\<lparr>alt_block := False\<rparr>, m_free (alt_block itf) m1))"

text \<open>
  The loop over the endpoints of a setting: the result code, the new \<open>bNumEndpoints\<close>, the array,
  and the position and size that remain.
\<close>

function parse_endpoints :: "byte list \<Rightarrow> int \<Rightarrow> int \<Rightarrow> nat \<Rightarrow> nat \<Rightarrow> libusb_endpoint_descriptor list \<Rightarrow> mem \<Rightarrow>
    (int \<times> nat \<times> libusb_endpoint_descriptor list \<times> int \<times> int \<times> mem) res" where
  "parse_endpoints buf p sz i n eps m =
     (if i < n
      then rbind (parse_endpoint (eps ! i) buf p sz m) (\<lambda>(r, e, m1).
           if r < 0 then Inr (r, n, eps[i := e], p, sz, m1)
           else if r = 0 then Inr (0, i, eps[i := e], p, sz, m1)
           else parse_endpoints buf (p + r) (sz - r) (Suc i) n (eps[i := e]) m1)
      else Inr (0, n, eps, p, sz, m))"
  by pat_completeness auto
termination
  by (relation "measure (\<lambda>(buf, p, sz, i, n, eps, m). n - i)") auto

declare parse_endpoints.simps [simp del]

text \<open>
  One pass of the loop of \<open>parse_interface\<close>, one alternate setting: it fails with a code, ends
  the loop at a position, or goes on at a position with a size and the interface's number.
\<close>

datatype altstep = AltFail int | AltStop int | AltNext int int byte

definition setting_extra :: "byte list \<Rightarrow> int \<Rightarrow> int \<Rightarrow> libusb_interface_descriptor \<Rightarrow> mem \<Rightarrow>
    (bool \<times> libusb_interface_descriptor \<times> mem) res" where
  \<comment> \<open>the unknown descriptors from one position to another are copied\<close>
  "setting_extra buf begin0 q ifp m =
     (let len = q - begin0 in
      if len > 0
      then (let (ok, m1) = m_alloc m in
        if \<not> ok then Inr (False, ifp, m1)
        else rbind (read_bytes buf begin0 len) (\<lambda>bs.
          Inr (True, ifp\<lparr>if_extra := Some bs, if_extra_length := len\<rparr>, m1)))
      else Inr (True, ifp, m))"

definition setting_endpoints :: "byte list \<Rightarrow> int \<Rightarrow> int \<Rightarrow> libusb_interface_descriptor \<Rightarrow> mem \<Rightarrow>
    (int \<times> libusb_interface_descriptor \<times> int \<times> int \<times> mem) res" where
  "setting_endpoints buf p sz ifp m =
     (let n = unat (bNumEndpoints ifp) in
      if n > 0
      then (let (ok, m1) = m_alloc m in
        if \<not> ok then Inr (LIBUSB_ERROR_NO_MEM, ifp, p, sz, m1)
        else rbind (parse_endpoints buf p sz 0 n (replicate n zero_endpoint) m1) (\<lambda>(r, k, eps, p1, size1, m2).
          Inr (r, ifp\<lparr>endpoint := Some eps, bNumEndpoints := word_of_nat k\<rparr>, p1, size1, m2)))
      else Inr (0, ifp, p, sz, m))"

definition parse_setting :: "byte list \<Rightarrow> int \<Rightarrow> int \<Rightarrow> byte option \<Rightarrow> libusb_interface \<Rightarrow> mem \<Rightarrow>
    (altstep \<times> libusb_interface \<times> mem) res" where
  "parse_setting buf p sz number itf m =
     (let (ok, m1) = m_realloc (alt_block itf) m in
      if \<not> ok then Inr (AltFail LIBUSB_ERROR_NO_MEM, itf, m1)
      else let itf1 = itf\<lparr>alt_block := True\<rparr>; with = (\<lambda>ifp. itf1\<lparr>altsetting := altsetting itf @ [ifp]\<rparr>) in
      rbind (parse_descriptor buf p ''bbbbbbbbb'' 0) (\<lambda>ws.
      let ifp = interface_of ws; bLength = uint (if_bLength ifp) in
      if if_bDescriptorType ifp \<noteq> LIBUSB_DT_INTERFACE then Inr (AltStop p, itf1, m1)
      else if bLength < LIBUSB_DT_INTERFACE_SIZE then Inr (AltFail LIBUSB_ERROR_IO, itf1, m1)
      else if bLength > sz then Inr (AltStop p, itf1, m1)
      else if uint (bNumEndpoints ifp) > USB_MAXENDPOINTS then Inr (AltFail LIBUSB_ERROR_IO, itf1, m1)
      else
        (let interface_number = (case number of None \<Rightarrow> bInterfaceNumber ifp | Some k \<Rightarrow> k) in
         rbind (skip_extra buf (p + bLength) (sz - bLength)) (\<lambda>sk.
         case sk of
           SkipInvalid \<Rightarrow> Inr (AltFail LIBUSB_ERROR_IO, with ifp, m1)
         | SkipShort q _ \<Rightarrow> Inr (AltStop q, with ifp, m1)
         | SkipDone q rest \<Rightarrow>
             rbind (setting_extra buf (p + bLength) q ifp m1) (\<lambda>(ok2, ifp2, m2).
             if \<not> ok2 then Inr (AltFail LIBUSB_ERROR_NO_MEM, with ifp2, m2)
             else rbind (setting_endpoints buf q rest ifp2 m2) (\<lambda>(r, ifp3, q3, rest3, m3).
             if r < 0 then Inr (AltFail r, with ifp3, m3)
             else if rest3 < LIBUSB_DT_INTERFACE_SIZE then Inr (AltStop q3, with ifp3, m3)
             else rbind (aread buf (q3 + 1)) (\<lambda>t. if t \<noteq> LIBUSB_DT_INTERFACE then Inr (AltStop q3, with ifp3, m3)
             else rbind (aread buf (q3 + 2)) (\<lambda>k. if k \<noteq> interface_number then Inr (AltStop q3, with ifp3, m3)
             else Inr (AltNext q3 rest3 interface_number, with ifp3, m3)))))))))"

section \<open>What the pieces of the parser promise\<close>

definition inside :: "byte list \<Rightarrow> int \<Rightarrow> int \<Rightarrow> bool" where
  "inside buf p sz \<longleftrightarrow> 0 \<le> p \<and> 0 \<le> sz \<and> p + sz \<le> int (length buf)"

lemma inside_read: "inside buf p sz \<Longrightarrow> 0 \<le> i \<Longrightarrow> i < sz \<Longrightarrow> in_range buf (p + i)"
  by (simp add: inside_def in_range_def)

lemma inside_here: "inside buf p sz \<Longrightarrow> 0 < sz \<Longrightarrow> in_range buf p"
  using inside_read [of buf p sz 0] by simp

lemma inside_rest: "inside buf p sz \<Longrightarrow> 0 \<le> n \<Longrightarrow> n \<le> sz \<Longrightarrow> inside buf (p + n) (sz - n)"
  by (simp add: inside_def)

lemma byte_bounds [simp]: "0 \<le> uint (x :: byte)" "uint x < 256" "uint x \<le> 255"
  using uint_lt2p [of x] by simp_all

fun format_size :: "string \<Rightarrow> int" where
  "format_size [] = 0"
| "format_size (c # cs) = (if c = CHR ''b'' then 1 else if c = CHR ''w'' then 2 else if c = CHR ''d'' then 4
     else if c = CHR ''u'' then 16 else 0) + format_size cs"

lemma format_size_nonneg: "0 \<le> format_size cs"
  by (induction cs) simp_all

lemma spec_bytes [spec_intro]:
  "(t \<Longrightarrow> inside buf p n) \<Longrightarrow> (\<And>bs. int (length bs) = max 0 n \<Longrightarrow> P bs) \<Longrightarrow> meets t (read_bytes buf p n) P"
  by (auto simp: meets_def read_bytes_def inside_def)

lemma spec_parse: "(t \<Longrightarrow> inside buf p (format_size fmt)) \<Longrightarrow> meets t (parse_descriptor buf p fmt dp) (\<lambda>ws. True)"
proof (induction fmt arbitrary: p dp)
  case (Cons c fmt)
  note f = format_size_nonneg [of fmt]
  have i: "in_range buf (p + k)" if t "0 \<le> k" "k < format_size (c # fmt)" for k
    using inside_read [OF Cons.prems [OF that(1)]] that by simp
  have r: "meets t (parse_descriptor buf (p + k) fmt d) (\<lambda>ws. True)" if "k = format_size (c # fmt) - format_size fmt" for k d
    using Cons.prems that f by (intro Cons.IH) (simp add: inside_def split: if_splits)
  consider (b) "c = CHR ''b''" | (w) "c = CHR ''w''" | (d) "c = CHR ''d''" | (u) "c = CHR ''u''"
    | (other) "c \<noteq> CHR ''b''" "c \<noteq> CHR ''w''" "c \<noteq> CHR ''d''" "c \<noteq> CHR ''u''" by blast
  then show ?case
  proof cases
    case b
    then show ?thesis using f i [of 0] r [of 1] by (auto intro!: spec_aread)
  next
    case w
    then show ?thesis using f i [of 0] i [of 1] r [of 2] by (auto simp: Let_def READ_LE16_def intro!: spec_aread)
  next
    case d
    then show ?thesis using f i [of 0] i [of 1] i [of 2] i [of 3] r [of 4]
      by (auto simp: Let_def READ_LE32_def intro!: spec_aread)
  next
    case u
    then show ?thesis using f Cons.prems r [of 16] by (auto simp: inside_def intro!: spec_bytes)
  next
    case other
    then show ?thesis using Cons.prems Cons.IH by simp
  qed
qed simp

definition skip_post :: "int \<Rightarrow> int \<Rightarrow> skip \<Rightarrow> bool" where
  "skip_post p sz sk = (case sk of SkipInvalid \<Rightarrow> True
     | SkipShort q rest \<Rightarrow> p \<le> q \<and> q + rest = p + sz \<and> 2 \<le> rest
     | SkipDone q rest \<Rightarrow> p \<le> q \<and> q + rest = p + sz \<and> (0 \<le> sz \<longrightarrow> 0 \<le> rest))"

lemma spec_skip: "(t \<Longrightarrow> inside buf p sz) \<Longrightarrow> meets t (skip_extra buf p sz) (skip_post p sz)"
proof (induction "nat sz" arbitrary: p sz rule: less_induct)
  case less
  show ?case
  proof (cases "sz \<ge> DESC_HEADER_LENGTH")
    case False
    then show ?thesis by (subst skip_extra.simps) (simp add: skip_post_def usb_consts)
  next
    case True
    have a: "t \<Longrightarrow> in_range buf p" "t \<Longrightarrow> in_range buf (p + 1)"
      using True less.prems inside_read [of buf p sz 0] inside_read [of buf p sz 1] by (simp_all add: usb_consts)
    have rec: "meets t (skip_extra buf (p + uint l) (sz - uint l)) (skip_post p sz)"
      if "\<not> uint l < DESC_HEADER_LENGTH" "\<not> uint l > sz" for l :: byte
    proof (rule spec_mono [OF less.hyps])
      show "nat (sz - uint l) < nat sz" using that by (simp add: usb_consts)
      show "t \<Longrightarrow> inside buf (p + uint l) (sz - uint l)" using that less.prems by (auto intro: inside_rest)
      show "\<And>x. skip_post (p + uint l) (sz - uint l) x \<Longrightarrow> skip_post p sz x"
        using that by (auto simp: skip_post_def usb_consts split: skip.splits)
    qed
    show ?thesis using True a rec
      by (subst skip_extra.simps) (auto simp: skip_post_def usb_consts intro!: spec_aread)
  qed
qed

section \<open>Blocks\<close>

definition is_some :: "'a option \<Rightarrow> int" where
  "is_some x = (if x = None then 0 else 1)"

lemma is_some_simps [simp]: "is_some None = 0" "is_some (Some x) = 1" "0 \<le> is_some y"
  by (simp_all add: is_some_def)

definition eps_blocks :: "libusb_endpoint_descriptor list \<Rightarrow> int" where
  "eps_blocks eps = sum_list (map (is_some \<circ> ep_extra) eps)"

definition codes :: "int \<Rightarrow> bool" where
  "codes r \<longleftrightarrow> r = LIBUSB_ERROR_IO \<or> r = LIBUSB_ERROR_NO_MEM"

lemma codes_neg: "codes r \<Longrightarrow> r < 0"
  by (auto simp: codes_def usb_consts)

lemma m_alloc_live: "m_alloc m = (ok, m1) \<Longrightarrow> live m1 = live m + (if ok then 1 else 0)"
  by (auto simp: m_alloc_def Let_def)

lemma m_realloc_live: "m_realloc b m = (ok, m1) \<Longrightarrow> live m1 = live m + (if ok \<and> \<not> b then 1 else 0)"
  by (auto simp: m_realloc_def Let_def)

definition ep_post :: "int \<Rightarrow> mem \<Rightarrow> int \<times> libusb_endpoint_descriptor \<times> mem \<Rightarrow> bool" where
  "ep_post sz m = (\<lambda>(r, e, m'). live m' = live m + is_some (ep_extra e) \<and>
     (r \<le> 0 \<longrightarrow> ep_extra e = None) \<and> (r < 0 \<longrightarrow> codes r) \<and> (0 < r \<longrightarrow> 7 \<le> r \<and> r \<le> sz))"

lemma spec_endpoint:
  assumes "t \<Longrightarrow> inside buf p sz" "ep_extra ep = None"
  shows "meets t (parse_endpoint ep buf p sz m) (ep_post sz m)"
proof (cases "sz < DESC_HEADER_LENGTH")
  case True
  then show ?thesis using assms(2) by (simp add: parse_endpoint_def ep_post_def codes_def usb_consts)
next
  case sz: False
  have a: "t \<Longrightarrow> in_range buf p" "t \<Longrightarrow> in_range buf (p + 1)"
    using sz assms(1) inside_read [of buf p sz 0] inside_read [of buf p sz 1] by (simp_all add: usb_consts)
  have extra: "ep_extra (store_endpoint ws ep) = None" for ws using assms(2) by (simp add: store_endpoint_def)
  have fmt: "t \<Longrightarrow> inside buf p (format_size (if uint l \<ge> LIBUSB_DT_ENDPOINT_AUDIO_SIZE then ''bbbbwbbb'' else ''bbbbwb''))"
    if "\<not> uint l < LIBUSB_DT_ENDPOINT_SIZE" "\<not> uint l > sz" for l :: byte
    using assms(1) that by (simp add: inside_def usb_consts)
  have rest: "t \<Longrightarrow> inside buf (p + uint l) (sz - uint l)" if "\<not> uint l > sz" for l :: byte
    using assms(1) that by (auto intro: inside_rest)
  have copy: "t \<Longrightarrow> inside buf b n" if "p \<le> b" "0 \<le> n" "b + n \<le> p + sz" for b n
    using assms(1) that by (simp add: inside_def)
  show ?thesis unfolding parse_endpoint_def Let_def if_not_P [OF sz]
  proof (intro spec_intro a spec_mono [OF spec_parse] spec_mono [OF spec_skip] fmt rest)
    fix d l ws sk
    assume l: "\<not> uint l < LIBUSB_DT_ENDPOINT_SIZE" "\<not> sz < uint l" and sk: "skip_post (p + uint l) (sz - uint l) sk"
    show "meets t (case sk of SkipInvalid \<Rightarrow> Inr (LIBUSB_ERROR_IO, store_endpoint ws ep, m)
       | SkipShort q x \<Rightarrow> Inr (q - p, store_endpoint ws ep, m)
       | SkipDone q x \<Rightarrow> if q - (p + uint l) \<le> 0 then Inr (q - p, store_endpoint ws ep, m)
           else case m_alloc m of (ok, m1) \<Rightarrow> if \<not> ok then Inr (LIBUSB_ERROR_NO_MEM, store_endpoint ws ep, m1)
             else rbind (read_bytes buf (p + uint l) (q - (p + uint l))) (\<lambda>bs.
               Inr (q - p, (store_endpoint ws ep)\<lparr>ep_extra := Some bs, ep_extra_length := q - (p + uint l)\<rparr>, m1))) (ep_post sz m)"
      using l sk extra copy
      by (auto simp: skip_post_def ep_post_def codes_def usb_consts split: skip.splits prod.splits dest!: m_alloc_live intro!: spec_bytes)
  qed (use assms(2) in \<open>simp_all add: ep_post_def codes_def usb_consts\<close>)
qed

text \<open>Endpoint arrays: the blocks, and that none hangs off an endpoint that was not parsed.\<close>

lemma sum_list_set: "i < length xs \<Longrightarrow> sum_list (map f (xs[i := x])) = sum_list (map f xs) + f x - (f (xs ! i) :: int)"
  by (induction xs arbitrary: i) (auto split: nat.splits simp: less_Suc_eq_0_disj)

lemma sum_list_zero: "(\<And>x. x \<in> set xs \<Longrightarrow> f x = (0 :: int)) \<Longrightarrow> sum_list (map f xs) = 0"
  by (induction xs) simp_all

lemma eps_blocks_update: "i < length eps \<Longrightarrow> eps_blocks (eps[i := e]) = eps_blocks eps + is_some (ep_extra e) - is_some (ep_extra (eps ! i))"
  by (simp add: eps_blocks_def sum_list_set)

definition bare_from :: "nat \<Rightarrow> libusb_endpoint_descriptor list \<Rightarrow> bool" where
  "bare_from i eps \<longleftrightarrow> (\<forall>j. i \<le> j \<and> j < length eps \<longrightarrow> ep_extra (eps ! j) = None)"

lemma eps_blocks_take: "bare_from k eps \<Longrightarrow> eps_blocks (take k eps) = eps_blocks eps"
proof -
  assume b: "bare_from k eps"
  have "eps_blocks eps = eps_blocks (take k eps) + eps_blocks (drop k eps)"
    unfolding eps_blocks_def by (metis append_take_drop_id map_append sum_list_append)
  moreover have "eps_blocks (drop k eps) = 0"
    using b unfolding eps_blocks_def by (intro sum_list_zero) (auto simp: bare_from_def in_set_conv_nth)
  ultimately show ?thesis by simp
qed

lemma clear_endpoints_live: "live (clear_endpoints eps m) = live m - eps_blocks eps"
  by (induction eps m rule: clear_endpoints.induct)
    (auto simp: eps_blocks_def clear_endpoint_def m_free_def is_some_def)

definition eps_post :: "nat \<Rightarrow> int \<Rightarrow> int \<Rightarrow> libusb_endpoint_descriptor list \<Rightarrow> mem \<Rightarrow>
    int \<times> nat \<times> libusb_endpoint_descriptor list \<times> int \<times> int \<times> mem \<Rightarrow> bool" where
  "eps_post n p sz eps m = (\<lambda>(r, k, eps', q, rest, m').
     live m' - eps_blocks eps' = live m - eps_blocks eps \<and> length eps' = length eps \<and> k \<le> n \<and> bare_from k eps' \<and>
     (r < 0 \<longrightarrow> codes r) \<and> r \<le> 0 \<and> p \<le> q \<and> q + rest = p + sz \<and> 0 \<le> rest)"

lemma spec_endpoints:
  assumes "t \<Longrightarrow> inside buf p sz" "0 \<le> sz" "i \<le> n" "length eps = n" "bare_from i eps"
  shows "meets t (parse_endpoints buf p sz i n eps m) (eps_post n p sz eps m)"
  using assms
proof (induction "n - i" arbitrary: i p sz eps m)
  case 0
  then show ?case by (subst parse_endpoints.simps) (simp add: eps_post_def)
next
  case (Suc d)
  then have i: "i < n" by simp
  have none: "ep_extra (eps ! i) = None" using Suc.prems(4,5) i by (simp add: bare_from_def)
  show ?case
  proof (subst parse_endpoints.simps, simp only: if_P [OF i],
      intro spec_rbindI spec_splitI spec_mono [OF spec_endpoint [OF Suc.prems(1) none]], assumption)
    fix x r y e m1
    assume x: "ep_post sz m x" "x = (r, y)" "y = (e, m1)"
    have upd: "eps_blocks (eps[i := e]) = eps_blocks eps + is_some (ep_extra e)" "bare_from (Suc i) (eps[i := e])"
      "ep_extra e = None \<Longrightarrow> bare_from i (eps[i := e])"
      using eps_blocks_update [of i eps e] i none Suc.prems(4,5) by (auto simp: bare_from_def nth_list_update)
    have whole: "bare_from n (eps[i := e])" using Suc.prems(4) by (auto simp: bare_from_def)
    show "meets t (if r < 0 then Inr (r, n, eps[i := e], p, sz, m1) else if r = 0 then Inr (0, i, eps[i := e], p, sz, m1)
        else parse_endpoints buf (p + r) (sz - r) (Suc i) n (eps[i := e]) m1) (eps_post n p sz eps m)"
    proof (intro spec_ifI)
      assume "r < 0"
      then show "meets t (Inr (r, n, eps[i := e], p, sz, m1)) (eps_post n p sz eps m)"
        using x upd whole Suc.prems(2) by (simp add: ep_post_def eps_post_def)
    next
      assume "r = 0"
      then show "meets t (Inr (0, i, eps[i := e], p, sz, m1)) (eps_post n p sz eps m)"
        using x upd i Suc.prems(2) by (simp add: ep_post_def eps_post_def)
    next
      assume "\<not> r < 0" "r \<noteq> 0"
      then have r: "7 \<le> r" "r \<le> sz" "live m1 = live m + is_some (ep_extra e)" using x by (simp_all add: ep_post_def)
      have "meets t (parse_endpoints buf (p + r) (sz - r) (Suc i) n (eps[i := e]) m1) (eps_post n (p + r) (sz - r) (eps[i := e]) m1)"
        using Suc.hyps(2) Suc.prems r i upd by (intro Suc.hyps(1)) (auto intro: inside_rest)
      then show "meets t (parse_endpoints buf (p + r) (sz - r) (Suc i) n (eps[i := e]) m1) (eps_post n p sz eps m)"
        by (rule spec_mono) (use r upd in \<open>auto simp: eps_post_def\<close>)
    qed
  qed
qed

text \<open>Settings.\<close>

definition setting_blocks :: "libusb_interface_descriptor \<Rightarrow> int" where
  "setting_blocks ifp = is_some (if_extra ifp) + is_some (endpoint ifp) + (case endpoint ifp of None \<Rightarrow> 0 | Some eps \<Rightarrow> eps_blocks eps)"

definition setting_ok :: "libusb_interface_descriptor \<Rightarrow> bool" where
  "setting_ok ifp \<longleftrightarrow> uint (bNumEndpoints ifp) \<le> USB_MAXENDPOINTS \<and>
     (\<forall>eps. endpoint ifp = Some eps \<longrightarrow> unat (bNumEndpoints ifp) \<le> length eps \<and> bare_from (unat (bNumEndpoints ifp)) eps)"

lemma clear_setting_live: "setting_ok ifp \<Longrightarrow> live (clear_setting ifp m) = live m - setting_blocks ifp"
  by (auto simp: clear_setting_def setting_ok_def setting_blocks_def m_free_def is_some_def Let_def clear_endpoints_live
      eps_blocks_take split: option.splits)

definition itf_blocks :: "libusb_interface \<Rightarrow> int" where
  "itf_blocks itf = (if alt_block itf then 1 + sum_list (map setting_blocks (altsetting itf)) else 0)"

text \<open>
  \<open>libusb.h\<close> documents \<open>endpoint\<close> as an array whose length is \<open>bNumEndpoints\<close>. The parser keeps to that in all settings of an
  interface but the last one, where it may stop early: \<open>bNumEndpoints\<close> is then the device's number and \<open>endpoint\<close> null.
\<close>

definition as_documented :: "libusb_interface_descriptor \<Rightarrow> bool" where
  "as_documented ifp \<longleftrightarrow> (endpoint ifp = None \<longrightarrow> bNumEndpoints ifp = 0)"

definition itf_ok :: "libusb_interface \<Rightarrow> bool" where
  "itf_ok itf \<longleftrightarrow> (\<forall>ifp \<in> set (altsetting itf). setting_ok ifp) \<and> (\<forall>ifp \<in> set (butlast (altsetting itf)). as_documented ifp)"

definition all_documented :: "libusb_interface \<Rightarrow> bool" where
  "all_documented itf \<longleftrightarrow> (\<forall>ifp \<in> set (altsetting itf). as_documented ifp)"

lemma clear_settings_live: "\<forall>ifp \<in> set ifps. setting_ok ifp \<Longrightarrow> live (fold clear_setting ifps m) = live m - sum_list (map setting_blocks ifps)"
  by (induction ifps arbitrary: m) (auto simp: clear_setting_live)

lemma clear_interface_live:
  "itf_ok itf \<Longrightarrow> clear_interface itf m = (itf', m') \<Longrightarrow> live m' = live m - itf_blocks itf \<and> \<not> alt_block itf' \<and> altsetting itf' = altsetting itf"
  by (auto simp: clear_interface_def itf_ok_def itf_blocks_def clear_settings_live m_free_def Let_def)

definition fresh_setting :: "libusb_interface_descriptor \<Rightarrow> bool" where
  "fresh_setting ifp \<longleftrightarrow> endpoint ifp = None \<and> if_extra ifp = None \<and> uint (bNumEndpoints ifp) \<le> USB_MAXENDPOINTS"

definition extra_post :: "mem \<Rightarrow> libusb_interface_descriptor \<Rightarrow> bool \<times> libusb_interface_descriptor \<times> mem \<Rightarrow> bool" where
  "extra_post m ifp = (\<lambda>(ok, ifp', m'). live m' = live m + is_some (if_extra ifp') \<and> endpoint ifp' = None \<and>
     bNumEndpoints ifp' = bNumEndpoints ifp)"

lemma spec_setting_extra:
  assumes "t \<Longrightarrow> b \<le> q \<Longrightarrow> inside buf b (q - b)" "fresh_setting ifp"
  shows "meets t (setting_extra buf b q ifp m) (extra_post m ifp)"
  unfolding setting_extra_def Let_def
proof (intro spec_intro)
  fix ok m1 assume m1: "m_alloc m = (ok, m1)" "\<not> \<not> ok"
  fix bs :: "byte list"
  show "extra_post m ifp (True, ifp\<lparr>if_extra := Some bs, if_extra_length := q - b\<rparr>, m1)"
    using m_alloc_live [OF m1(1)] m1(2) assms(2) by (simp add: extra_post_def fresh_setting_def)
qed (use assms m_alloc_live [of m] in \<open>auto simp: extra_post_def fresh_setting_def\<close>)

definition endpoints_post :: "int \<Rightarrow> int \<Rightarrow> mem \<Rightarrow> libusb_interface_descriptor \<Rightarrow>
    int \<times> libusb_interface_descriptor \<times> int \<times> int \<times> mem \<Rightarrow> bool" where
  "endpoints_post p sz m ifp = (\<lambda>(r, ifp', q, rest, m'). setting_ok ifp' \<and>
     live m' - setting_blocks ifp' = live m - setting_blocks ifp \<and> (r < 0 \<longrightarrow> codes r) \<and>
     (0 \<le> r \<longrightarrow> as_documented ifp') \<and> p \<le> q \<and> q + rest = p + sz \<and> 0 \<le> rest)"

lemma zero_endpoints: "bare_from i (replicate n zero_endpoint)" "eps_blocks (replicate n zero_endpoint) = 0"
  by (simp_all add: bare_from_def zero_endpoint_def eps_blocks_def map_replicate_const sum_list_replicate)

lemma spec_setting_endpoints:
  assumes "t \<Longrightarrow> inside buf p sz" "0 \<le> sz" "endpoint ifp = None" "uint (bNumEndpoints ifp) \<le> USB_MAXENDPOINTS"
  shows "meets t (setting_endpoints buf p sz ifp m) (endpoints_post p sz m ifp)"
proof -
  let ?n = "unat (bNumEndpoints ifp)"
  have n: "?n \<le> 32" 
  proof -
    have "int ?n = uint (bNumEndpoints ifp)" by simp
    then show ?thesis using assms(4) unfolding USB_MAXENDPOINTS_def by linarith
  qed
  have ok: "setting_ok ifp" using assms(3,4) by (simp add: setting_ok_def)
  show ?thesis unfolding setting_endpoints_def Let_def
  proof (intro spec_ifI spec_splitI spec_rbindI spec_InrI spec_mono [OF spec_endpoints [OF assms(1,2)]])
    fix ok m1 x r y k z eps w q v rest m2
    assume m1: "m_alloc m = (ok, m1)" "\<not> \<not> ok"
      and x: "eps_post ?n p sz (replicate ?n zero_endpoint) m1 x"
        "x = (r, y)" "y = (k, z)" "z = (eps, w)" "w = (q, v)" "v = (rest, m2)"
    then have e: "eps_post ?n p sz (replicate ?n zero_endpoint) m1 (r, k, eps, q, rest, m2)" by simp
    then have le: "k \<le> 32" using n by (simp add: eps_post_def)
    then have k: "unat (word_of_nat k :: byte) = k" by (simp add: unsigned_of_nat take_bit_nat_eq_self)
    have "int (unat (word_of_nat k :: byte)) = uint (word_of_nat k :: byte)" by simp
    then have k': "uint (word_of_nat k :: byte) \<le> 32" using le k by linarith
    show "endpoints_post p sz m ifp (r, ifp\<lparr>endpoint := Some eps, bNumEndpoints := word_of_nat k\<rparr>, q, rest, m2)"
      using e k k' m_alloc_live [OF m1(1)] m1(2) assms(3) zero_endpoints(2) [of ?n]
      by (simp add: endpoints_post_def eps_post_def setting_ok_def setting_blocks_def as_documented_def USB_MAXENDPOINTS_def)
  qed (use assms ok m_alloc_live [of m] zero_endpoints in \<open>auto simp: endpoints_post_def codes_def usb_consts setting_ok_def as_documented_def unsigned_eq_0_iff\<close>)
qed

definition set_post :: "int \<Rightarrow> int \<Rightarrow> libusb_interface \<Rightarrow> mem \<Rightarrow> altstep \<times> libusb_interface \<times> mem \<Rightarrow> bool" where
  "set_post p sz itf m = (\<lambda>(st, itf', m'). itf_ok itf' \<and> (alt_block itf' \<or> altsetting itf' = []) \<and>
     live m' - itf_blocks itf' = live m - itf_blocks itf \<and>
     (case st of AltFail r \<Rightarrow> codes r
      | AltStop q \<Rightarrow> p \<le> q \<and> q \<le> p + sz \<and> alt_block itf' \<and> (q = p \<longrightarrow> altsetting itf' = altsetting itf)
      | AltNext q rest k \<Rightarrow> p + 9 \<le> q \<and> q + rest = p + sz \<and> 9 \<le> rest \<and> alt_block itf' \<and> all_documented itf'))"

lemma itf_blocks_snoc:
  "itf_blocks (itf\<lparr>alt_block := True, altsetting := altsetting itf @ [ifp]\<rparr>) = 1 + sum_list (map setting_blocks (altsetting itf)) + setting_blocks ifp"
  by (simp add: itf_blocks_def)

lemma interface_of_fresh: "uint (bNumEndpoints (interface_of ws)) \<le> USB_MAXENDPOINTS \<Longrightarrow> fresh_setting (interface_of ws)"
  by (simp add: fresh_setting_def interface_of_def)

lemma fresh_ok: "fresh_setting ifp \<Longrightarrow> setting_ok ifp \<and> setting_blocks ifp = 0"
  by (simp add: fresh_setting_def setting_ok_def setting_blocks_def)

definition is_next :: "altstep \<Rightarrow> bool" where
  "is_next st = (case st of AltNext _ _ _ \<Rightarrow> True | _ \<Rightarrow> False)"

lemma is_next_simps [simp]: "\<not> is_next (AltFail r)" "\<not> is_next (AltStop q)" "is_next (AltNext q rest k)"
  by (simp_all add: is_next_def)

text \<open>A result of one pass, from the setting it ends with.\<close>

lemma set_post_with:
  assumes "itf_ok itf" "alt_block itf \<or> altsetting itf = []" "m_realloc (alt_block itf) m = (ok, m1)" "ok"
    and "setting_ok ifp" "live m' - setting_blocks ifp = live m1" "all_documented itf" "is_next st \<longrightarrow> as_documented ifp"
    and "case st of AltFail r \<Rightarrow> codes r | AltStop q \<Rightarrow> p < q \<and> q \<le> p + sz
      | AltNext q rest k \<Rightarrow> p + 9 \<le> q \<and> q + rest = p + sz \<and> 9 \<le> rest"
  shows "set_post p sz itf m (st, itf\<lparr>alt_block := True, altsetting := altsetting itf @ [ifp]\<rparr>, m')"
  using assms m_realloc_live [OF assms(3)]
  by (auto simp: set_post_def itf_ok_def itf_blocks_snoc itf_blocks_def all_documented_def is_next_def split: altstep.splits)

lemma set_post_without:
  assumes "itf_ok itf" "alt_block itf \<or> altsetting itf = []" "m_realloc (alt_block itf) m = (ok, m1)" "ok"
    and "case st of AltFail r \<Rightarrow> codes r | AltStop q \<Rightarrow> p \<le> q \<and> q \<le> p + sz | AltNext q rest k \<Rightarrow> False"
  shows "set_post p sz itf m (st, itf\<lparr>alt_block := True\<rparr>, m1)"
  using assms m_realloc_live [OF assms(3)]
  by (auto simp: set_post_def itf_ok_def itf_blocks_def split: altstep.splits)

text \<open>
  The end of \<open>parse_setting\<close>, in the order it runs: what follows the extra bytes, the endpoints, and the look at the next
  descriptor. \<open>W ifp\<close> is the interface with the setting \<open>ifp\<close> added; \<open>keeps\<close> says that any such result is as specified.
\<close>

definition step_in :: "int \<Rightarrow> int \<Rightarrow> altstep \<Rightarrow> bool" where
  "step_in p sz st = (case st of AltFail r \<Rightarrow> codes r | AltStop q \<Rightarrow> p < q \<and> q \<le> p + sz
     | AltNext q rest k \<Rightarrow> p + 9 \<le> q \<and> q + rest = p + sz \<and> 9 \<le> rest)"

definition keeps ::
  "int \<Rightarrow> int \<Rightarrow> int \<Rightarrow> (libusb_interface_descriptor \<Rightarrow> libusb_interface) \<Rightarrow> (altstep \<times> libusb_interface \<times> mem \<Rightarrow> bool) \<Rightarrow> bool" where
  "keeps p sz L W P \<longleftrightarrow> (\<forall>st ifp m. setting_ok ifp \<longrightarrow> live m - setting_blocks ifp = L \<longrightarrow> step_in p sz st \<longrightarrow>
     (is_next st \<longrightarrow> as_documented ifp) \<longrightarrow> P (st, W ifp, m))"

lemma keepsD: "keeps p sz L W P \<Longrightarrow> setting_ok ifp \<Longrightarrow> live m - setting_blocks ifp = L \<Longrightarrow> step_in p sz st \<Longrightarrow>
    is_next st \<longrightarrow> as_documented ifp \<Longrightarrow> P (st, W ifp, m)"
  by (simp add: keeps_def)

lemma spec_next_setting:
  assumes "t \<Longrightarrow> inside buf p sz" "p + 9 \<le> q3" "q3 + rest3 = p + sz" "0 \<le> rest3"
    and P: "\<And>st. step_in p sz st \<Longrightarrow> P (st, W ifp3, m3)"
  shows "meets t (if rest3 < LIBUSB_DT_INTERFACE_SIZE then Inr (AltStop q3, W ifp3, m3)
      else rbind (aread buf (q3 + 1)) (\<lambda>ty. if ty \<noteq> LIBUSB_DT_INTERFACE then Inr (AltStop q3, W ifp3, m3)
      else rbind (aread buf (q3 + 2)) (\<lambda>k. if k \<noteq> k0 then Inr (AltStop q3, W ifp3, m3)
      else Inr (AltNext q3 rest3 k0, W ifp3, m3)))) P"
proof -
  have a: "t \<Longrightarrow> in_range buf (q3 + 1)" "t \<Longrightarrow> in_range buf (q3 + 2)" if "\<not> rest3 < LIBUSB_DT_INTERFACE_SIZE"
    using assms(1-3) that by (simp_all add: inside_def in_range_def usb_consts)
  show ?thesis
    by (intro spec_ifI spec_rbindI spec_InrI spec_aread P a) (use assms(2-4) in \<open>simp_all add: step_in_def usb_consts\<close>)
qed

lemma spec_setting_after_extra:
  assumes "t \<Longrightarrow> inside buf p sz" "p + 9 \<le> q" "q + rest = p + sz" "0 \<le> rest" "keeps p sz L W P"
    and i2: "endpoint ifp2 = None" "uint (bNumEndpoints ifp2) \<le> USB_MAXENDPOINTS" "live m2 - setting_blocks ifp2 = L"
  shows "meets t (rbind (setting_endpoints buf q rest ifp2 m2) (\<lambda>(r, ifp3, q3, rest3, m3).
      if r < 0 then Inr (AltFail r, W ifp3, m3)
      else if rest3 < LIBUSB_DT_INTERFACE_SIZE then Inr (AltStop q3, W ifp3, m3)
      else rbind (aread buf (q3 + 1)) (\<lambda>ty. if ty \<noteq> LIBUSB_DT_INTERFACE then Inr (AltStop q3, W ifp3, m3)
      else rbind (aread buf (q3 + 2)) (\<lambda>k. if k \<noteq> k0 then Inr (AltStop q3, W ifp3, m3)
      else Inr (AltNext q3 rest3 k0, W ifp3, m3))))) P"
proof -
  have f: "t \<Longrightarrow> inside buf q rest" using assms(1-4) by (simp add: inside_def)
  show ?thesis
  proof (rule spec_rbindI, rule spec_mono [OF spec_setting_endpoints [OF f assms(4) i2(1,2)]], assumption)
    fix x3 assume "endpoints_post q rest m2 ifp2 x3"
    moreover obtain r ifp3 q3 rest3 m3 where x3: "x3 = (r, ifp3, q3, rest3, m3)" by (metis prod_cases5)
    ultimately have i3: "setting_ok ifp3" "live m3 - setting_blocks ifp3 = L" "r < 0 \<longrightarrow> codes r" "p + 9 \<le> q3" "q3 + rest3 = p + sz" "0 \<le> rest3"
      "0 \<le> r \<longrightarrow> as_documented ifp3" using i2(3) assms(2,3) by (simp_all add: endpoints_post_def)
    note P = keepsD [OF assms(5) i3(1,2)]
    show "meets t (case x3 of (r, ifp3, q3, rest3, m3) \<Rightarrow>
        if r < 0 then Inr (AltFail r, W ifp3, m3) else (if rest3 < LIBUSB_DT_INTERFACE_SIZE then Inr (AltStop q3, W ifp3, m3)
      else rbind (aread buf (q3 + 1)) (\<lambda>ty. if ty \<noteq> LIBUSB_DT_INTERFACE then Inr (AltStop q3, W ifp3, m3)
      else rbind (aread buf (q3 + 2)) (\<lambda>k. if k \<noteq> k0 then Inr (AltStop q3, W ifp3, m3)
      else Inr (AltNext q3 rest3 k0, W ifp3, m3))))) P"
      unfolding x3 prod.case
    proof (rule spec_ifI)
      assume "r < 0"
      then have "P (AltFail r, W ifp3, m3)" using i3(3) by (intro P) (simp_all add: step_in_def)
      then show "meets t (Inr (AltFail r, W ifp3, m3)) P" by simp
    next
      assume "\<not> r < 0"
      then have now: "P (st, W ifp3, m3)" if "step_in p sz st" for st using i3(7) that by (intro P) auto
      show "meets t (if rest3 < LIBUSB_DT_INTERFACE_SIZE then Inr (AltStop q3, W ifp3, m3)
          else rbind (aread buf (q3 + 1)) (\<lambda>ty. if ty \<noteq> LIBUSB_DT_INTERFACE then Inr (AltStop q3, W ifp3, m3)
          else rbind (aread buf (q3 + 2)) (\<lambda>k. if k \<noteq> k0 then Inr (AltStop q3, W ifp3, m3)
          else Inr (AltNext q3 rest3 k0, W ifp3, m3)))) P"
        by (rule spec_next_setting [where W = W and P = P, OF assms(1) i3(4-6)]) (assumption, rule now)
    qed
  qed
qed

lemma spec_setting_after_skip:
  assumes "t \<Longrightarrow> inside buf p sz" "9 \<le> l" "l \<le> sz" "fresh_setting ifp" "uint (bNumEndpoints ifp) \<le> USB_MAXENDPOINTS"
    "skip_post (p + l) (sz - l) sk" "keeps p sz (live m1) W P"
  shows "meets t (case sk of SkipInvalid \<Rightarrow> Inr (AltFail LIBUSB_ERROR_IO, W ifp, m1)
    | SkipShort q x \<Rightarrow> Inr (AltStop q, W ifp, m1)
    | SkipDone q rest \<Rightarrow> rbind (setting_extra buf (p + l) q ifp m1) (\<lambda>(ok2, ifp2, m2).
        if \<not> ok2 then Inr (AltFail LIBUSB_ERROR_NO_MEM, W ifp2, m2) else (rbind (setting_endpoints buf q rest ifp2 m2) (\<lambda>(r, ifp3, q3, rest3, m3).
      if r < 0 then Inr (AltFail r, W ifp3, m3)
      else if rest3 < LIBUSB_DT_INTERFACE_SIZE then Inr (AltStop q3, W ifp3, m3)
      else rbind (aread buf (q3 + 1)) (\<lambda>ty. if ty \<noteq> LIBUSB_DT_INTERFACE then Inr (AltStop q3, W ifp3, m3)
      else rbind (aread buf (q3 + 2)) (\<lambda>k. if k \<noteq> k0 then Inr (AltStop q3, W ifp3, m3)
      else Inr (AltNext q3 rest3 k0, W ifp3, m3))))))) P"
proof -
  note now = keepsD [OF assms(7), of ifp m1]
  have codes: "codes LIBUSB_ERROR_IO" "codes LIBUSB_ERROR_NO_MEM" by (simp_all add: codes_def)
  show ?thesis
  proof (cases sk)
    case SkipInvalid
    then show ?thesis using now fresh_ok [OF assms(4)] codes by (simp add: step_in_def)
  next
    case (SkipShort q x)
    have "p + l \<le> q" "q + x = p + sz" "2 \<le> x" using SkipShort assms(6) by (simp_all add: skip_post_def)
    then have "p < q" "q \<le> p + sz" using assms(2) by linarith+
    then show ?thesis using now fresh_ok [OF assms(4)] SkipShort by (simp add: step_in_def)
  next
    case (SkipDone q rest)
    then have q: "p + l \<le> q" "q + rest = p + sz" "0 \<le> rest" "p + 9 \<le> q" using assms(2,3,6) by (auto simp: skip_post_def)
    have e: "t \<Longrightarrow> p + l \<le> q \<Longrightarrow> inside buf (p + l) (q - (p + l))" using assms(1-3) q by (simp add: inside_def)
    show ?thesis unfolding SkipDone skip.case
    proof (rule spec_rbindI, rule spec_mono [OF spec_setting_extra [OF e assms(4)]], assumption, assumption, intro spec_splitI spec_ifI spec_InrI)
      fix x2 ok2 y2 ifp2 m2 assume x2: "extra_post m1 ifp x2" "x2 = (ok2, y2)" "y2 = (ifp2, m2)"
      then have i2: "endpoint ifp2 = None" "uint (bNumEndpoints ifp2) \<le> USB_MAXENDPOINTS" "live m2 - setting_blocks ifp2 = live m1" "setting_ok ifp2"
        using assms(5) by (simp_all add: extra_post_def setting_blocks_def setting_ok_def)
      show "P (AltFail LIBUSB_ERROR_NO_MEM, W ifp2, m2)" using keepsD [OF assms(7) i2(4,3)] codes by (simp add: step_in_def)
      show "meets t (rbind (setting_endpoints buf q rest ifp2 m2) (\<lambda>(r, ifp3, q3, rest3, m3).
      if r < 0 then Inr (AltFail r, W ifp3, m3)
      else if rest3 < LIBUSB_DT_INTERFACE_SIZE then Inr (AltStop q3, W ifp3, m3)
      else rbind (aread buf (q3 + 1)) (\<lambda>ty. if ty \<noteq> LIBUSB_DT_INTERFACE then Inr (AltStop q3, W ifp3, m3)
      else rbind (aread buf (q3 + 2)) (\<lambda>k. if k \<noteq> k0 then Inr (AltStop q3, W ifp3, m3)
      else Inr (AltNext q3 rest3 k0, W ifp3, m3))))) P" using spec_setting_after_extra [OF assms(1) q(4,2,3) assms(7) i2(1-3)] by blast
    qed
  qed
qed

lemma spec_setting:
  assumes "t \<Longrightarrow> inside buf p sz" "9 \<le> sz" "itf_ok itf" "alt_block itf \<or> altsetting itf = []" "all_documented itf"
  shows "meets t (parse_setting buf p sz number itf m) (set_post p sz itf m)"
proof -
  have parse: "t \<Longrightarrow> inside buf p (format_size ''bbbbbbbbb'')" using assms(1,2) by (simp add: inside_def)
  have rest: "t \<Longrightarrow> inside buf (p + n) (sz - n)" if "\<not> n < LIBUSB_DT_INTERFACE_SIZE" "\<not> sz < n" for n
    using assms(1) that by (simp add: inside_def usb_consts)
  have codes: "codes LIBUSB_ERROR_IO" "codes LIBUSB_ERROR_NO_MEM" by (simp_all add: codes_def)
  show ?thesis unfolding parse_setting_def Let_def
  proof (intro spec_ifI spec_splitI spec_rbindI spec_InrI spec_mono [OF spec_parse [OF parse]] spec_mono [OF spec_skip [OF rest]];
      (assumption)?)
    fix ok m1 assume "m_realloc (alt_block itf) m = (ok, m1)" "\<not> ok"
    then show "set_post p sz itf m (AltFail LIBUSB_ERROR_NO_MEM, itf, m1)"
      using assms(3,4) m_realloc_live [of "alt_block itf" m ok m1] codes by (simp add: set_post_def)
  next
    fix ok m1 ws assume "m_realloc (alt_block itf) m = (ok, m1)" "\<not> \<not> ok"
    then show "set_post p sz itf m (AltStop p, itf\<lparr>alt_block := True\<rparr>, m1)"
      "set_post p sz itf m (AltStop p, itf\<lparr>alt_block := True\<rparr>, m1)"
      "set_post p sz itf m (AltFail LIBUSB_ERROR_IO, itf\<lparr>alt_block := True\<rparr>, m1)"
      "set_post p sz itf m (AltFail LIBUSB_ERROR_IO, itf\<lparr>alt_block := True\<rparr>, m1)"
      using assms codes by (auto intro!: set_post_without)
  next
    fix ok m1 ws sk
    let ?ifp = "interface_of ws" and ?l = "uint (if_bLength (interface_of ws))"
    assume m1: "m_realloc (alt_block itf) m = (ok, m1)" "\<not> \<not> ok"
      and l: "\<not> ?l < LIBUSB_DT_INTERFACE_SIZE" "\<not> sz < ?l" and n: "\<not> USB_MAXENDPOINTS < uint (bNumEndpoints ?ifp)"
      and sk: "skip_post (p + ?l) (sz - ?l) sk"
    have ok: "ok" using m1(2) by simp
    have "keeps p sz (live m1) (\<lambda>ifp. itf\<lparr>alt_block := True, altsetting := altsetting itf @ [ifp]\<rparr>) (set_post p sz itf m)"
      unfolding keeps_def step_in_def using set_post_with [OF assms(3,4) m1(1) ok _ _ assms(5)] by blast
    then show "meets t (case sk of SkipInvalid \<Rightarrow> Inr (AltFail LIBUSB_ERROR_IO, itf\<lparr>alt_block := True, altsetting := altsetting itf @ [?ifp]\<rparr>, m1)
      | SkipShort q x \<Rightarrow> Inr (AltStop q, itf\<lparr>alt_block := True, altsetting := altsetting itf @ [?ifp]\<rparr>, m1)
      | SkipDone q rest \<Rightarrow> rbind (setting_extra buf (p + ?l) q ?ifp m1) (\<lambda>(ok2, ifp2, m2).
          if \<not> ok2 then Inr (AltFail LIBUSB_ERROR_NO_MEM, itf\<lparr>alt_block := True, altsetting := altsetting itf @ [ifp2]\<rparr>, m2) else (rbind (setting_endpoints buf q rest ifp2 m2) (\<lambda>(r, ifp3, q3, rest3, m3).
      if r < 0 then Inr (AltFail r, itf\<lparr>alt_block := True, altsetting := altsetting itf @ [ifp3]\<rparr>, m3)
      else if rest3 < LIBUSB_DT_INTERFACE_SIZE then Inr (AltStop q3, itf\<lparr>alt_block := True, altsetting := altsetting itf @ [ifp3]\<rparr>, m3)
      else rbind (aread buf (q3 + 1)) (\<lambda>ty. if ty \<noteq> LIBUSB_DT_INTERFACE then Inr (AltStop q3, itf\<lparr>alt_block := True, altsetting := altsetting itf @ [ifp3]\<rparr>, m3)
      else rbind (aread buf (q3 + 2)) (\<lambda>k. if k \<noteq> (case number of None \<Rightarrow> bInterfaceNumber ?ifp | Some k \<Rightarrow> k) then Inr (AltStop q3, itf\<lparr>alt_block := True, altsetting := altsetting itf @ [ifp3]\<rparr>, m3)
      else Inr (AltNext q3 rest3 (case number of None \<Rightarrow> bInterfaceNumber ?ifp | Some k \<Rightarrow> k), itf\<lparr>alt_block := True, altsetting := altsetting itf @ [ifp3]\<rparr>, m3))))))) (set_post p sz itf m)"
      using l n sk assms(1) by (intro spec_setting_after_skip) (auto simp: usb_consts intro: interface_of_fresh)
  qed
qed

end
