(* ===== verification/UsbConfig.thy ===== *)
theory UsbConfig
  imports UsbDescriptor
begin

unbundle bit_operations_syntax

text \<open>
  Configurations in the descriptor parser of the USB library (\<open>libusb/descriptor.c\<close>, second half of the
  parser and the functions that fetch and free configurations). The backend that talks to the device is
  a parameter: for a buffer size it gives its return code and the buffer's contents afterwards.
\<close>

section \<open>Interfaces\<close>

definition next_post :: "int \<Rightarrow> int \<Rightarrow> altstep \<times> libusb_interface \<times> mem \<Rightarrow> bool" where
  "next_post p sz = (\<lambda>(st, _). case st of AltNext q rest k \<Rightarrow> p + 9 \<le> q \<and> q + rest = p + sz | _ \<Rightarrow> True)"

lemma setting_moves_on: "meets False (parse_setting buf p sz number itf m) (next_post p sz)"
  unfolding parse_setting_def Let_def
proof (intro spec_ifI spec_splitI spec_rbindI spec_InrI spec_mono [OF spec_parse] spec_mono [OF spec_skip])
  fix ok m1 ws sk
  let ?ifp = "interface_of ws" and ?l = "uint (if_bLength (interface_of ws))"
  let ?with = "\<lambda>ifp. itf\<lparr>alt_block := True, altsetting := altsetting itf @ [ifp]\<rparr>"
  let ?go = "\<lambda>(r, ifp3, q3, rest3, m3). if r < 0 then Inr (AltFail r, ?with ifp3, m3)
        else if rest3 < LIBUSB_DT_INTERFACE_SIZE then Inr (AltStop q3, ?with ifp3, m3)
        else rbind (aread buf (q3 + 1)) (\<lambda>ty. if ty \<noteq> LIBUSB_DT_INTERFACE then Inr (AltStop q3, ?with ifp3, m3)
        else rbind (aread buf (q3 + 2)) (\<lambda>k.
          if k \<noteq> (case number of None \<Rightarrow> bInterfaceNumber ?ifp | Some k \<Rightarrow> k) then Inr (AltStop q3, ?with ifp3, m3)
        else Inr (AltNext q3 rest3 (case number of None \<Rightarrow> bInterfaceNumber ?ifp | Some k \<Rightarrow> k), ?with ifp3, m3)))"
  assume l: "\<not> ?l < LIBUSB_DT_INTERFACE_SIZE" "\<not> sz < ?l" and n: "\<not> USB_MAXENDPOINTS < uint (bNumEndpoints ?ifp)"
    and sk: "skip_post (p + ?l) (sz - ?l) sk"
  have fresh: "fresh_setting ?ifp" using n by (intro interface_of_fresh) simp
  have go: "meets False (?go x) (next_post p sz)" if "endpoints_post q rest m2 ifp2 x" "p + 9 \<le> q" "q + rest = p + sz" for x q rest m2 ifp2
  proof -
    obtain r ifp3 q3 rest3 m3 where x: "x = (r, ifp3, q3, rest3, m3)" by (metis prod_cases5)
    show ?thesis unfolding x prod.case
      by (intro spec_ifI spec_rbindI spec_InrI spec_aread) (use that x in \<open>simp_all add: next_post_def endpoints_post_def\<close>)
  qed
  show "meets False (case sk of SkipInvalid \<Rightarrow> Inr (AltFail LIBUSB_ERROR_IO, ?with ?ifp, m1)
      | SkipShort q x \<Rightarrow> Inr (AltStop q, ?with ?ifp, m1)
      | SkipDone q rest \<Rightarrow> rbind (setting_extra buf (p + ?l) q ?ifp m1) (\<lambda>(ok2, ifp2, m2).
          if \<not> ok2 then Inr (AltFail LIBUSB_ERROR_NO_MEM, ?with ifp2, m2)
          else rbind (setting_endpoints buf q rest ifp2 m2) ?go)) (next_post p sz)"
  proof (cases sk)
    case (SkipDone q rest)
    then have q: "p + 9 \<le> q" "q + rest = p + sz" "0 \<le> rest" using sk l by (auto simp: skip_post_def usb_consts)
    have e: "meets False (setting_endpoints buf q rest ifp2 m2) (\<lambda>x. meets False (?go x) (next_post p sz))"
      if "extra_post m1 ?ifp (ok2, ifp2, m2)" for ok2 ifp2 m2
      by (rule spec_mono [OF spec_setting_endpoints]) (use that q n go in \<open>auto simp: extra_post_def\<close>)
    show ?thesis unfolding SkipDone skip.case
      by (rule spec_rbindI, rule spec_mono [OF spec_setting_extra [OF _ fresh]], simp,
          intro spec_splitI spec_ifI spec_InrI spec_rbindI e) (simp_all add: next_post_def)
  qed (simp_all add: next_post_def)
qed (simp_all add: next_post_def)

lemma setting_next:
  assumes "parse_setting buf p sz number itf m = Inr (AltNext q rest k, itf', m')"
  shows "p + 9 \<le> q \<and> q + rest = p + sz"
  using spec_Inr_D [OF setting_moves_on assms] by (simp_all add: next_post_def)

text \<open>
  The loop over the alternate settings: a code or the bytes parsed, the interface and the memory.
\<close>

function parse_settings :: "byte list \<Rightarrow> int \<Rightarrow> int \<Rightarrow> int \<Rightarrow> byte option \<Rightarrow> libusb_interface \<Rightarrow> mem \<Rightarrow>
    (int \<times> libusb_interface \<times> mem) res" where
  "parse_settings buf p sz parsed number itf m =
     (if sz \<ge> LIBUSB_DT_INTERFACE_SIZE
      then (case parse_setting buf p sz number itf m of
          Inl e \<Rightarrow> Inl e
        | Inr (AltFail r, itf1, m1) \<Rightarrow> (let (itf2, m2) = clear_interface itf1 m1 in Inr (r, itf2, m2))
        | Inr (AltStop q, itf1, m1) \<Rightarrow> Inr (parsed + (q - p), itf1, m1)
        | Inr (AltNext q rest k, itf1, m1) \<Rightarrow> parse_settings buf q rest (parsed + (q - p)) (Some k) itf1 m1)
      else Inr (parsed, itf, m))"
  by pat_completeness auto
termination
  by (relation "measure (\<lambda>(buf, p, sz, parsed, number, itf, m). nat sz)")
    (auto simp: usb_consts dest!: setting_next)

declare parse_settings.simps [simp del]

definition parse_interface :: "libusb_interface \<Rightarrow> byte list \<Rightarrow> int \<Rightarrow> int \<Rightarrow> mem \<Rightarrow>
    (int \<times> libusb_interface \<times> mem) res" where
  "parse_interface usb_interface buf p sz m = parse_settings buf p sz 0 None usb_interface m"

section \<open>Configurations\<close>

fun clear_interfaces :: "libusb_interface list \<Rightarrow> mem \<Rightarrow> libusb_interface list \<times> mem" where
  "clear_interfaces [] m = ([], m)"
| "clear_interfaces (itf # itfs) m =
     (let (itf1, m1) = clear_interface itf m; (itfs1, m2) = clear_interfaces itfs m1 in (itf1 # itfs1, m2))"

definition clear_configuration :: "libusb_config_descriptor \<Rightarrow> mem \<Rightarrow> mem" where
  "clear_configuration config m =
     (let m1 = (case interface config of
                  None \<Rightarrow> m
                | Some itfs \<Rightarrow> snd (clear_interfaces (take (unat (bNumInterfaces config)) itfs) m));
          m2 = m_free (interface config \<noteq> None) m1 in
      m_free (cf_extra config \<noteq> None) m2)"

definition config_extra :: "byte list \<Rightarrow> int \<Rightarrow> int \<Rightarrow> libusb_config_descriptor \<Rightarrow> mem \<Rightarrow>
    (bool \<times> libusb_config_descriptor \<times> mem) res" where
  \<comment> \<open>the unknown descriptors from one position to another are added to those before\<close>
  "config_extra buf begin0 q config m =
     (let len = q - begin0 in
      if len > 0
      then (let (ok, m1) = m_realloc (cf_extra config \<noteq> None) m in
        if \<not> ok then Inr (False, config, m1)
        else rbind (read_bytes buf begin0 len) (\<lambda>bs.
          Inr (True, config\<lparr>cf_extra := Some (take (nat (cf_extra_length config)) (case cf_extra config of None \<Rightarrow> [] | Some old \<Rightarrow> old) @ bs),
            cf_extra_length := cf_extra_length config + len\<rparr>, m1)))
      else Inr (True, config, m))"

text \<open>The loop over the interfaces: a code or the bytes left.\<close>

function parse_interfaces :: "byte list \<Rightarrow> int \<Rightarrow> int \<Rightarrow> nat \<Rightarrow> nat \<Rightarrow> libusb_interface list \<Rightarrow> libusb_config_descriptor \<Rightarrow> mem \<Rightarrow>
    (int \<times> libusb_config_descriptor \<times> mem) res" where
  "parse_interfaces buf p sz i n itfs config m =
     (if i < n
      then rbind (skip_extra buf p sz) (\<lambda>sk.
        case sk of
          SkipInvalid \<Rightarrow> Inr (LIBUSB_ERROR_IO, config, clear_configuration (config\<lparr>interface := Some itfs\<rparr>) m)
        | SkipShort q rest \<Rightarrow> Inr (rest, config\<lparr>interface := Some itfs, bNumInterfaces := word_of_nat i\<rparr>, m)
        | SkipDone q rest \<Rightarrow>
            rbind (config_extra buf p q config m) (\<lambda>(ok, config1, m1).
            if \<not> ok then Inr (LIBUSB_ERROR_NO_MEM, config1, clear_configuration (config1\<lparr>interface := Some itfs\<rparr>) m1)
            else rbind (parse_interface (itfs ! i) buf q rest m1) (\<lambda>(r, itf, m2).
              let itfs1 = itfs[i := itf] in
              if r < 0 then Inr (r, config1, clear_configuration (config1\<lparr>interface := Some itfs1\<rparr>) m2)
              else if r = 0 then Inr (rest, config1\<lparr>interface := Some itfs1, bNumInterfaces := word_of_nat i\<rparr>, m2)
              else parse_interfaces buf (q + r) (rest - r) (Suc i) n itfs1 config1 m2)))
      else Inr (sz, config\<lparr>interface := Some itfs\<rparr>, m))"
  by pat_completeness auto
termination
  by (relation "measure (\<lambda>(buf, p, sz, i, n, itfs, config, m). n - i)") auto


declare parse_interfaces.simps [simp del]

definition parse_configuration :: "libusb_config_descriptor \<Rightarrow> byte list \<Rightarrow> int \<Rightarrow> int \<Rightarrow> mem \<Rightarrow>
    (int \<times> libusb_config_descriptor \<times> mem) res" where
  "parse_configuration config0 buf p sz m =
     (if sz < LIBUSB_DT_CONFIG_SIZE then Inr (LIBUSB_ERROR_IO, config0, m)
      else rbind (parse_descriptor buf p ''bbwbbbbb'' 0) (\<lambda>ws.
      let config = store_config ws config0; n = unat (bNumInterfaces config) in
      if cf_bDescriptorType config \<noteq> LIBUSB_DT_CONFIG then Inr (LIBUSB_ERROR_IO, config, m)
      else if uint (cf_bLength config) < LIBUSB_DT_CONFIG_SIZE then Inr (LIBUSB_ERROR_IO, config, m)
      else if uint (cf_bLength config) > sz then Inr (LIBUSB_ERROR_IO, config, m)
      else if uint (bNumInterfaces config) > USB_MAXINTERFACES then Inr (LIBUSB_ERROR_IO, config, m)
      else (let (ok, m1) = m_alloc m in
        if \<not> ok then Inr (LIBUSB_ERROR_NO_MEM, config, m1)
        else parse_interfaces buf (p + uint (cf_bLength config)) (sz - uint (cf_bLength config)) 0 n
               (replicate n zero_interface) config m1)))"

definition raw_desc_to_config :: "byte list \<Rightarrow> int \<Rightarrow> mem \<Rightarrow> (int \<times> libusb_config_descriptor option \<times> mem) res" where
  "raw_desc_to_config buf sz m =
     (let (ok, m1) = m_alloc m in
      if \<not> ok then Inr (LIBUSB_ERROR_NO_MEM, None, m1)
      else rbind (parse_configuration zero_config buf 0 sz m1) (\<lambda>(r, config, m2).
        if r < 0 then Inr (r, None, m_free True m2) else Inr (LIBUSB_SUCCESS, Some config, m2)))"

section \<open>Fetching and freeing\<close>

record libusb_device_descriptor =
  dd_bLength :: byte
  dd_bDescriptorType :: byte
  bcdUSB :: "16 word"
  bDeviceClass :: byte
  bDeviceSubClass :: byte
  bDeviceProtocol :: byte
  bMaxPacketSize0 :: byte
  idVendor :: "16 word"
  idProduct :: "16 word"
  bcdDevice :: "16 word"
  iManufacturer :: byte
  iProduct :: byte
  iSerialNumber :: byte
  bNumConfigurations :: byte

text \<open>
  The backend's operations on one device: each gives its return code and the buffer's contents; the
  third, which supplies a buffer of its own, may be missing.
\<close>

type_synonym reader = "int \<Rightarrow> int \<times> byte list"

record backend =
  b_active_config :: reader
  b_config :: "byte \<Rightarrow> reader"
  b_config_by_value :: "(byte \<Rightarrow> int \<times> byte list) option"

definition get_active_config_descriptor :: "backend \<Rightarrow> reader" where
  "get_active_config_descriptor dev n =
     (let (r, buffer) = b_active_config dev n in
      if r < 0 then (r, buffer)
      else if r < LIBUSB_DT_CONFIG_SIZE then (LIBUSB_ERROR_IO, buffer)
      else (r, buffer))"

definition get_config_descriptor :: "backend \<Rightarrow> byte \<Rightarrow> reader" where
  "get_config_descriptor dev config_idx n =
     (let (r, buffer) = b_config dev config_idx n in
      if r < 0 then (r, buffer)
      else if r < LIBUSB_DT_CONFIG_SIZE then (LIBUSB_ERROR_IO, buffer)
      else (r, buffer))"

definition libusb_get_device_descriptor :: "libusb_device_descriptor \<Rightarrow> int \<times> libusb_device_descriptor" where
  "libusb_get_device_descriptor device_descriptor = (0, device_descriptor)"

text \<open>What the two fetching functions do once they have read the first nine bytes.\<close>

definition fetch_whole :: "reader \<Rightarrow> byte list \<Rightarrow> mem \<Rightarrow> (int \<times> libusb_config_descriptor option \<times> mem) res" where
  "fetch_whole get head m =
     rbind (READ_LE16 head 2) (\<lambda>config_len.
     let (ok, m1) = m_alloc m in
     if \<not> ok then Inr (LIBUSB_ERROR_NO_MEM, None, m1)
     else (let (r, buf) = get (uint config_len) in
       rbind (if r \<ge> 0 then raw_desc_to_config buf r m1 else Inr (r, None, m1)) (\<lambda>(r1, config, m2).
       Inr (r1, config, m_free True m2))))"

definition libusb_get_active_config_descriptor :: "backend \<Rightarrow> mem \<Rightarrow> (int \<times> libusb_config_descriptor option \<times> mem) res" where
  "libusb_get_active_config_descriptor dev m =
     (let (r, head) = get_active_config_descriptor dev LIBUSB_DT_CONFIG_SIZE in
      if r < 0 then Inr (r, None, m) else fetch_whole (get_active_config_descriptor dev) head m)"

definition libusb_get_config_descriptor :: "backend \<Rightarrow> libusb_device_descriptor \<Rightarrow> byte \<Rightarrow> mem \<Rightarrow>
    (int \<times> libusb_config_descriptor option \<times> mem) res" where
  "libusb_get_config_descriptor dev dd config_index m =
     (if config_index \<ge> bNumConfigurations dd then Inr (LIBUSB_ERROR_NOT_FOUND, None, m)
      else (let (r, head) = get_config_descriptor dev config_index LIBUSB_DT_CONFIG_SIZE in
        if r < 0 then Inr (r, None, m) else fetch_whole (get_config_descriptor dev config_index) head m))"

fun find_by_value :: "backend \<Rightarrow> libusb_device_descriptor \<Rightarrow> byte \<Rightarrow> byte list \<Rightarrow> mem \<Rightarrow>
    (int \<times> libusb_config_descriptor option \<times> mem) res" where \<comment> \<open>the indices left to try\<close>
  "find_by_value dev dd v [] m = Inr (LIBUSB_ERROR_NOT_FOUND, None, m)"
| "find_by_value dev dd v (idx # idxs) m =
     (let (r, head) = get_config_descriptor dev idx LIBUSB_DT_CONFIG_SIZE in
      if r < 0 then Inr (r, None, m)
      else rbind (aread head 5) (\<lambda>bConfigurationValue.
        if bConfigurationValue = v then libusb_get_config_descriptor dev dd idx m
        else find_by_value dev dd v idxs m))"

definition libusb_get_config_descriptor_by_value :: "backend \<Rightarrow> libusb_device_descriptor \<Rightarrow> byte \<Rightarrow> mem \<Rightarrow>
    (int \<times> libusb_config_descriptor option \<times> mem) res" where
  "libusb_get_config_descriptor_by_value dev dd v m =
     (case b_config_by_value dev of
        Some get \<Rightarrow> (let (r, buf) = get v in if r < 0 then Inr (r, None, m) else raw_desc_to_config buf r m)
      | None \<Rightarrow> find_by_value dev dd v (map word_of_nat [0..<unat (bNumConfigurations dd)]) m)"

definition libusb_free_config_descriptor :: "libusb_config_descriptor option \<Rightarrow> mem \<Rightarrow> mem" where
  "libusb_free_config_descriptor config m =
     (case config of None \<Rightarrow> m | Some c \<Rightarrow> m_free True (clear_configuration c m))"

section \<open>What the parser promises\<close>

definition settings_post :: "int \<Rightarrow> int \<Rightarrow> mem \<Rightarrow> libusb_interface \<Rightarrow> int \<times> libusb_interface \<times> mem \<Rightarrow> bool" where
  "settings_post parsed sz m itf = (\<lambda>(r, itf', m'). itf_ok itf' \<and> live m' - itf_blocks itf' = live m - itf_blocks itf \<and>
     (r < 0 \<longrightarrow> codes r \<and> itf_blocks itf' = 0) \<and> (0 \<le> r \<longrightarrow> parsed \<le> r \<and> r \<le> parsed + sz))"

lemma spec_settings:
  assumes "t \<Longrightarrow> inside buf p sz" "0 \<le> sz" "0 \<le> parsed" "itf_ok itf" "alt_block itf \<or> altsetting itf = []" "all_documented itf"
  shows "meets t (parse_settings buf p sz parsed number itf m) (settings_post parsed sz m itf)"
  using assms
proof (induction buf p sz parsed number itf m rule: parse_settings.induct)
  case (1 buf p sz parsed number itf m)
  show ?case
  proof (cases "sz \<ge> LIBUSB_DT_INTERFACE_SIZE")
    case False
    then show ?thesis using "1.prems" by (subst parse_settings.simps) (simp add: settings_post_def)
  next
    case True
    then have set: "meets t (parse_setting buf p sz number itf m) (set_post p sz itf m)"
      using "1.prems" by (intro spec_setting) (simp_all add: usb_consts)
    show ?thesis
    proof (cases "parse_setting buf p sz number itf m")
      case (Inl e)
      then show ?thesis using set True by (subst parse_settings.simps) (simp add: meets_def)
    next
      case (Inr x)
      obtain st itf1 m1 where x: "x = (st, itf1, m1)" by (metis prod_cases3)
      have p1: "set_post p sz itf m (st, itf1, m1)" using set Inr x by simp
      show ?thesis
      proof (cases st)
        case (AltFail r)
        obtain itf2 m2 where c: "clear_interface itf1 m1 = (itf2, m2)" by fastforce
        show ?thesis using True Inr x AltFail p1 c clear_interface_live [of itf1 m1 itf2 m2] codes_neg [of r]
          by (subst parse_settings.simps) (auto simp: settings_post_def set_post_def itf_ok_def itf_blocks_def)
      next
        case (AltStop q)
        then show ?thesis using True Inr x p1 "1.prems"
          by (subst parse_settings.simps) (auto simp: settings_post_def set_post_def)
      next
        case (AltNext q rest k)
        then have q: "p + 9 \<le> q" "q + rest = p + sz" "9 \<le> rest" "itf_ok itf1" "alt_block itf1"
          "live m1 - itf_blocks itf1 = live m - itf_blocks itf" "all_documented itf1" using p1 by (simp_all add: set_post_def)
        have "meets t (parse_settings buf q rest (parsed + (q - p)) (Some k) itf1 m1) (settings_post (parsed + (q - p)) rest m1 itf1)"
          using True Inr x AltNext q "1.prems" by (intro "1.IH") (auto simp: inside_def)
        then have "meets t (parse_settings buf q rest (parsed + (q - p)) (Some k) itf1 m1) (settings_post parsed sz m itf)"
          by (rule spec_mono) (use q "1.prems" in \<open>auto simp: settings_post_def\<close>)
        then show ?thesis using True Inr x AltNext by (subst parse_settings.simps) simp
      qed
    qed
  qed
qed


text \<open>An interface that is given back with no byte parsed holds at most the block of its settings.\<close>

definition itf_post :: "int \<Rightarrow> mem \<Rightarrow> int \<times> libusb_interface \<times> mem \<Rightarrow> bool" where
  "itf_post sz m = (\<lambda>(r, itf', m'). itf_ok itf' \<and> live m' = live m + itf_blocks itf' \<and>
     (r < 0 \<longrightarrow> codes r \<and> itf_blocks itf' = 0) \<and> r \<le> sz \<and> (r = 0 \<longrightarrow> itf_blocks itf' \<le> 1))"

lemma zero_interface_ok: "itf_ok zero_interface" "itf_blocks zero_interface = 0" "altsetting zero_interface = []" "all_documented zero_interface"
  by (simp_all add: zero_interface_def itf_ok_def itf_blocks_def all_documented_def)

lemma nothing_parsed:
  assumes "parse_settings buf p sz 0 number itf m = Inr (0, itf', m')" "altsetting itf = []" "itf_ok itf"
  shows "itf_blocks itf' \<le> 1"
proof (cases "sz \<ge> LIBUSB_DT_INTERFACE_SIZE")
  case False
  then show ?thesis using assms by (subst (asm) parse_settings.simps) (simp add: itf_blocks_def)
next
  case True
  show ?thesis
  proof (cases "parse_setting buf p sz number itf m")
    case (Inl e)
    then show ?thesis using assms True by (subst (asm) parse_settings.simps) simp
  next
    case (Inr x)
    obtain st itf1 m1 where x: "x = (st, itf1, m1)" by (metis prod_cases3)
    have p1: "set_post p sz itf m (st, itf1, m1)"
      using spec_setting [of False buf p sz itf number m] True assms Inr x by (simp add: usb_consts all_documented_def)
    show ?thesis
    proof (cases st)
      case (AltFail r)
      then show ?thesis using assms(1) True Inr x p1 codes_neg [of r]
        by (subst (asm) parse_settings.simps) (auto simp: set_post_def split: prod.splits)
    next
      case (AltStop q)
      then show ?thesis using assms True Inr x p1
        by (subst (asm) parse_settings.simps) (simp add: set_post_def itf_blocks_def)
    next
      case (AltNext q rest k)
      then have q: "p + 9 \<le> q" "9 \<le> rest" "itf_ok itf1" "alt_block itf1" "all_documented itf1" using p1 by (simp_all add: set_post_def)
      then have "meets False (parse_settings buf q rest (0 + (q - p)) (Some k) itf1 m1) (settings_post (0 + (q - p)) rest m1 itf1)"
        by (intro spec_settings) simp_all
      moreover have "parse_settings buf q rest (0 + (q - p)) (Some k) itf1 m1 = Inr (0, itf', m')"
        using assms(1) True Inr x AltNext by (subst (asm) parse_settings.simps) simp
      ultimately show ?thesis using q by (simp add: settings_post_def)
    qed
  qed
qed

lemma spec_interface:
  assumes "t \<Longrightarrow> inside buf p sz" "0 \<le> sz"
  shows "meets t (parse_interface zero_interface buf p sz m) (itf_post sz m)"
proof -
  have s: "meets t (parse_settings buf p sz 0 None zero_interface m) (settings_post 0 sz m zero_interface)"
    using assms by (intro spec_settings) (simp_all add: zero_interface_ok)
  show ?thesis unfolding parse_interface_def
  proof (cases "parse_settings buf p sz 0 None zero_interface m")
    case (Inr x)
    obtain r itf' m' where x: "x = (r, itf', m')" by (metis prod_cases3)
    have "settings_post 0 sz m zero_interface (r, itf', m')" using s Inr x by simp
    moreover have "r = 0 \<Longrightarrow> itf_blocks itf' \<le> 1"
      using nothing_parsed [of buf p sz None zero_interface m itf' m'] Inr x zero_interface_ok by simp
    ultimately show "meets t (parse_settings buf p sz 0 None zero_interface m) (itf_post sz m)"
      using Inr x zero_interface_ok assms(2) by (auto simp: settings_post_def itf_post_def)
  qed (use s in \<open>simp add: meets_def\<close>)
qed


definition config_blocks :: "libusb_config_descriptor \<Rightarrow> int" where
  \<comment> \<open>the blocks below a configuration that freeing it releases\<close>
  "config_blocks c = is_some (interface c) + is_some (cf_extra c) +
     (case interface c of None \<Rightarrow> 0 | Some itfs \<Rightarrow> sum_list (map itf_blocks (take (unat (bNumInterfaces c)) itfs)))"

definition config_ok :: "libusb_config_descriptor \<Rightarrow> bool" where
  "config_ok c \<longleftrightarrow> uint (bNumInterfaces c) \<le> USB_MAXINTERFACES \<and>
     (\<exists>itfs. interface c = Some itfs \<and> unat (bNumInterfaces c) \<le> length itfs \<and> (\<forall>itf \<in> set itfs. itf_ok itf))"

lemma clear_interfaces_live: "\<forall>itf \<in> set itfs. itf_ok itf \<Longrightarrow> live (snd (clear_interfaces itfs m)) = live m - sum_list (map itf_blocks itfs)"
proof (induction itfs arbitrary: m)
  case (Cons itf itfs)
  obtain itf1 m1 where "clear_interface itf m = (itf1, m1)" by fastforce
  then show ?case using Cons.IH [of m1] Cons.prems clear_interface_live [of itf m itf1 m1] by (auto split: prod.split)
qed simp

lemma clear_configuration_live:
  assumes "config_ok c"
  shows "live (clear_configuration c m) = live m - config_blocks c"
proof -
  obtain itfs where i: "interface c = Some itfs" "\<forall>itf \<in> set itfs. itf_ok itf" using assms by (auto simp: config_ok_def)
  then have "\<forall>itf \<in> set (take (unat (bNumInterfaces c)) itfs). itf_ok itf" by (auto dest: in_set_takeD)
  then show ?thesis using i clear_interfaces_live by (simp add: clear_configuration_def config_blocks_def m_free_def is_some_def Let_def)
qed

definition parsed_to :: "nat \<Rightarrow> nat \<Rightarrow> libusb_interface list \<Rightarrow> bool" where
  "parsed_to i n itfs \<longleftrightarrow> length itfs = n \<and> (\<forall>itf \<in> set itfs. itf_ok itf) \<and> (\<forall>j. i \<le> j \<and> j < n \<longrightarrow> itfs ! j = zero_interface)"

lemma parsed_to_update: "parsed_to i n itfs \<Longrightarrow> i < n \<Longrightarrow> itf_ok itf \<Longrightarrow>
    parsed_to (Suc i) n (itfs[i := itf]) \<and> sum_list (map itf_blocks (itfs[i := itf])) = sum_list (map itf_blocks itfs) + itf_blocks itf"
  using sum_list_set [of i itfs itf_blocks itf]
  by (auto simp: parsed_to_def zero_interface_ok nth_list_update dest!: set_update_subset_insert [THEN subsetD])

lemma parsed_to_take: "parsed_to i n itfs \<Longrightarrow> sum_list (map itf_blocks (take i itfs)) = sum_list (map itf_blocks itfs)"
proof -
  assume p: "parsed_to i n itfs"
  have "sum_list (map itf_blocks (drop i itfs)) = 0"
    using p by (intro sum_list_zero) (auto simp: parsed_to_def in_set_conv_nth zero_interface_ok)
  then show ?thesis by (metis append_take_drop_id map_append sum_list_append add.right_neutral)
qed

text \<open>\<open>lost\<close> counts the blocks that nothing releases any more.\<close>

definition config_post :: "int \<Rightarrow> int \<Rightarrow> int \<times> libusb_config_descriptor \<times> mem \<Rightarrow> bool" where
  "config_post sz l0 = (\<lambda>(r, c, m'). (r < 0 \<longrightarrow> codes r \<and> live m' = l0) \<and>
     (0 \<le> r \<longrightarrow> r \<le> sz \<and> config_ok c \<and> live m' - l0 - config_blocks c \<in> {0, 1}))"

lemma word_of_small: "n \<le> 32 \<Longrightarrow> unat (word_of_nat n :: byte) = n" "n \<le> 32 \<Longrightarrow> uint (word_of_nat n :: byte) \<le> USB_MAXINTERFACES"
proof -
  assume n: "n \<le> 32"
  then show u: "unat (word_of_nat n :: byte) = n" by (simp add: unsigned_of_nat take_bit_nat_eq_self)
  have "int (unat (word_of_nat n :: byte)) = uint (word_of_nat n :: byte)" by simp
  then show "uint (word_of_nat n :: byte) \<le> USB_MAXINTERFACES" using n u unfolding USB_MAXINTERFACES_def by linarith
qed

lemma config_blocks_with:
  assumes "parsed_to i n itfs" "n \<le> 32" "i \<le> k" "k \<le> n"
  shows "config_ok (c\<lparr>interface := Some itfs, bNumInterfaces := word_of_nat k\<rparr>)"
    and "config_blocks (c\<lparr>interface := Some itfs, bNumInterfaces := word_of_nat k\<rparr>) = 1 + is_some (cf_extra c) + sum_list (map itf_blocks itfs)"
proof -
  have "parsed_to k n itfs" using assms by (auto simp: parsed_to_def)
  then show "config_ok (c\<lparr>interface := Some itfs, bNumInterfaces := word_of_nat k\<rparr>)"
    and "config_blocks (c\<lparr>interface := Some itfs, bNumInterfaces := word_of_nat k\<rparr>) = 1 + is_some (cf_extra c) + sum_list (map itf_blocks itfs)"
    using assms parsed_to_take [of k n itfs] word_of_small [of k] by (auto simp: config_ok_def config_blocks_def parsed_to_def)
qed


definition extended :: "mem \<Rightarrow> libusb_config_descriptor \<Rightarrow> bool \<times> libusb_config_descriptor \<times> mem \<Rightarrow> bool" where
  "extended m c = (\<lambda>(ok, c', m'). live m' - is_some (cf_extra c') = live m - is_some (cf_extra c) \<and>
     bNumInterfaces c' = bNumInterfaces c)"

lemma spec_config_extra: "(t \<Longrightarrow> p \<le> q \<Longrightarrow> inside buf p (q - p)) \<Longrightarrow> meets t (config_extra buf p q c m) (extended m c)"
  unfolding config_extra_def Let_def
  by (intro spec_intro) (auto simp: extended_def is_some_def dest: m_realloc_live)

lemma config_fails:
  assumes "parsed_to i n itfs" "n \<le> 32" "i \<le> n" "bNumInterfaces c = word_of_nat n" "codes r"
    and "live m = l0 + 1 + sum_list (map itf_blocks itfs) + is_some (cf_extra c)"
  shows "config_post sz l0 (r, c', clear_configuration (c\<lparr>interface := Some itfs\<rparr>) m)"
proof -
  have c: "c\<lparr>interface := Some itfs\<rparr> = c\<lparr>interface := Some itfs, bNumInterfaces := word_of_nat n\<rparr>" using assms(4) by simp
  have "live (clear_configuration (c\<lparr>interface := Some itfs\<rparr>) m) = l0"
    using clear_configuration_live [OF config_blocks_with(1) [OF assms(1-3) order_refl, of c], of m]
      config_blocks_with(2) [OF assms(1-3) order_refl, of c] assms(6) unfolding c [symmetric] by simp
  then show ?thesis using codes_neg [OF assms(5)] assms(5) by (simp add: config_post_def)
qed

lemma config_stops:
  assumes "parsed_to i n itfs" "n \<le> 32" "i \<le> k" "k \<le> n" "0 \<le> rest" "rest \<le> sz"
    and "live m = l0 + 1 + sum_list (map itf_blocks itfs) + is_some (cf_extra c)"
  shows "config_post sz l0 (rest, c\<lparr>interface := Some itfs, bNumInterfaces := word_of_nat k\<rparr>, m)"
  using config_blocks_with [OF assms(1-4), of c] assms(5-7) by (simp add: config_post_def)

lemma itf_blocks_nonneg: "itf_ok itf \<Longrightarrow> 0 \<le> itf_blocks itf"
  by (auto simp: itf_blocks_def setting_blocks_def eps_blocks_def intro!: add_nonneg_nonneg sum_list_nonneg split: option.split)

lemma config_drops:
  \<comment> \<open>interface \<open>i\<close> is given up, with what it holds\<close>
  assumes "parsed_to i n itfs" "i < n" "n \<le> 32" "itf_ok itf" "itf_blocks itf \<in> {0, 1}" "0 \<le> rest" "rest \<le> sz"
    and "live m = l0 + 1 + sum_list (map itf_blocks itfs) + itf_blocks itf + is_some (cf_extra c)"
  shows "config_post sz l0 (rest, c\<lparr>interface := Some (itfs[i := itf]), bNumInterfaces := word_of_nat i\<rparr>, m)"
proof -
  have ok: "\<forall>x \<in> set (itfs[i := itf]). itf_ok x"
    using assms(1,4) by (auto simp: parsed_to_def dest!: set_update_subset_insert [THEN subsetD])
  then show ?thesis using assms parsed_to_take [OF assms(1)] word_of_small [of i]
    by (auto simp: config_post_def config_ok_def config_blocks_def parsed_to_def)
qed


lemma spec_interfaces:
  assumes "t \<Longrightarrow> inside buf p sz" "0 \<le> sz" "i \<le> n" "n \<le> 32" "parsed_to i n itfs" "bNumInterfaces c = word_of_nat n"
    and "live m = l0 + 1 + sum_list (map itf_blocks itfs) + is_some (cf_extra c)"
  shows "meets t (parse_interfaces buf p sz i n itfs c m) (config_post sz l0)"
  using assms
proof (induction "n - i" arbitrary: i p sz itfs c m)
  case 0
  have c: "c\<lparr>interface := Some itfs\<rparr> = c\<lparr>interface := Some itfs, bNumInterfaces := word_of_nat n\<rparr>" using 0 by simp
  have "config_post sz l0 (sz, c\<lparr>interface := Some itfs, bNumInterfaces := word_of_nat n\<rparr>, m)"
    using 0 by (intro config_stops [OF 0(6,5) 0(4) order_refl]) simp_all
  then show ?case using 0 unfolding c [symmetric] by (subst parse_interfaces.simps) simp
next
  case (Suc d)
  then have i: "i < n" by simp
  have itf: "itfs ! i = zero_interface" using Suc.prems(5) i by (simp add: parsed_to_def)
  show ?case
  proof (subst parse_interfaces.simps, simp only: if_P [OF i] Let_def itf, rule spec_rbindI, rule spec_mono [OF spec_skip [OF Suc.prems(1)]], assumption)
    fix sk assume sk: "skip_post p sz sk"
    let ?fail = "\<lambda>c' itfs' m'. clear_configuration (c'\<lparr>interface := Some itfs'\<rparr>) m'"
    let ?at = "\<lambda>c' itfs'. c'\<lparr>interface := Some itfs', bNumInterfaces := word_of_nat i\<rparr>"
    show "meets t (case sk of SkipInvalid \<Rightarrow> Inr (LIBUSB_ERROR_IO, c, ?fail c itfs m)
        | SkipShort q rest \<Rightarrow> Inr (rest, ?at c itfs, m)
        | SkipDone q rest \<Rightarrow> rbind (config_extra buf p q c m) (\<lambda>(ok, c1, m1).
            if \<not> ok then Inr (LIBUSB_ERROR_NO_MEM, c1, ?fail c1 itfs m1)
            else rbind (parse_interface zero_interface buf q rest m1) (\<lambda>(r, itf, m2).
              if r < 0 then Inr (r, c1, ?fail c1 (itfs[i := itf]) m2)
              else if r = 0 then Inr (rest, ?at c1 (itfs[i := itf]), m2)
              else parse_interfaces buf (q + r) (rest - r) (Suc i) n (itfs[i := itf]) c1 m2))) (config_post sz l0)"
    proof (cases sk)
      case SkipInvalid
      then show ?thesis using config_fails [OF Suc.prems(5,4,3,6) _ Suc.prems(7)] by (simp add: codes_def)
    next
      case (SkipShort q rest)
      then show ?thesis using config_stops [OF Suc.prems(5,4) order_refl Suc.prems(3) _ _ Suc.prems(7)] sk by (simp add: skip_post_def)
    next
      case (SkipDone q rest)
      then have q: "p \<le> q" "q + rest = p + sz" "0 \<le> rest" using sk Suc.prems(2) by (simp_all add: skip_post_def)
      have at: "t \<Longrightarrow> inside buf q rest" "t \<Longrightarrow> p \<le> q \<Longrightarrow> inside buf p (q - p)" using Suc.prems(1) q by (simp_all add: inside_def)
      have one: "meets t (rbind (parse_interface zero_interface buf q rest m1) (\<lambda>(r, itf, m2).
            if r < 0 then Inr (r, c1, ?fail c1 (itfs[i := itf]) m2)
            else if r = 0 then Inr (rest, ?at c1 (itfs[i := itf]), m2)
            else parse_interfaces buf (q + r) (rest - r) (Suc i) n (itfs[i := itf]) c1 m2)) (config_post sz l0)"
        if e: "bNumInterfaces c1 = word_of_nat n" "live m1 = l0 + 1 + sum_list (map itf_blocks itfs) + is_some (cf_extra c1)" for c1 m1
      proof (intro spec_rbindI spec_mono [OF spec_interface [OF at(1) q(3)]] spec_splitI spec_ifI spec_InrI, assumption)
        fix x2 r z itf m2 assume x2: "itf_post rest m1 x2" "x2 = (r, z)" "z = (itf, m2)"
        then have i2: "itf_ok itf" "live m2 = live m1 + itf_blocks itf" "r < 0 \<longrightarrow> codes r \<and> itf_blocks itf = 0" "r \<le> rest"
          "r = 0 \<longrightarrow> itf_blocks itf \<le> 1" by (simp_all add: itf_post_def)
        note up = parsed_to_update [OF Suc.prems(5) i i2(1)]
        show "config_post sz l0 (r, c1, ?fail c1 (itfs[i := itf]) m2)" if "r < 0"
          using up i i2 e that Suc.prems(4) by (intro config_fails [where i = "Suc i"]) simp_all
        show "config_post sz l0 (rest, ?at c1 (itfs[i := itf]), m2)" if "r = 0"
          using i i2 e that q itf_blocks_nonneg [OF i2(1)] Suc.prems(4,5) by (intro config_drops) auto
        show "meets t (parse_interfaces buf (q + r) (rest - r) (Suc i) n (itfs[i := itf]) c1 m2) (config_post sz l0)" if r: "\<not> r < 0" "r \<noteq> 0"
        proof (rule spec_mono [OF Suc.hyps(1)])
          show "t \<Longrightarrow> inside buf (q + r) (rest - r)" using at(1) r i2(4) by (auto intro: inside_rest)
          show "\<And>x. config_post (rest - r) l0 x \<Longrightarrow> config_post sz l0 x" using r q by (auto simp: config_post_def)
        qed (use Suc.hyps(2) Suc.prems(4) i i2 e up in auto)
      qed
      have extended: "bNumInterfaces c1 = word_of_nat n" "live m1 = l0 + 1 + sum_list (map itf_blocks itfs) + is_some (cf_extra c1)"
        if "extended m c (ok, c1, m1)" for ok c1 m1 using that Suc.prems(6,7) by (simp_all add: extended_def)
      show ?thesis unfolding SkipDone skip.case
        by (intro spec_rbindI spec_mono [OF spec_config_extra [OF at(2)]] spec_splitI spec_ifI spec_InrI
            config_fails [OF Suc.prems(5,4,3)] one [unfolded spec_rbind]) (auto simp: codes_def dest: extended)
    qed
  qed
qed


lemma config_post_mono: "config_post sz l0 x \<Longrightarrow> sz \<le> sz' \<Longrightarrow> config_post sz' l0 x"
  by (auto simp: config_post_def)

lemma spec_configuration:
  assumes "t \<Longrightarrow> inside buf 0 sz"
  shows "meets t (parse_configuration zero_config buf 0 sz m) (config_post sz (live m))"
proof (cases "sz < LIBUSB_DT_CONFIG_SIZE")
  case True
  then show ?thesis by (simp add: parse_configuration_def config_post_def codes_def usb_consts)
next
  case sz: False
  have fmt: "t \<Longrightarrow> inside buf 0 (format_size ''bbwbbbbb'')" using assms sz by (simp add: inside_def usb_consts)
  show ?thesis unfolding parse_configuration_def Let_def if_not_P [OF sz]
  proof (intro spec_rbindI spec_mono [OF spec_parse [OF fmt]] spec_ifI spec_splitI spec_InrI, assumption)
    fix ws ok m1
    let ?c = "store_config ws zero_config" let ?n = "unat (bNumInterfaces ?c)"
    assume l: "\<not> uint (cf_bLength ?c) < LIBUSB_DT_CONFIG_SIZE" "\<not> sz < uint (cf_bLength ?c)"
      and n: "\<not> USB_MAXINTERFACES < uint (bNumInterfaces ?c)" and ok: "m_alloc m = (ok, m1)" "\<not> \<not> ok"
    have "int ?n = uint (bNumInterfaces ?c)" by simp
    then have "?n \<le> 32" using n unfolding USB_MAXINTERFACES_def by linarith
    then show "meets t (parse_interfaces buf (0 + uint (cf_bLength ?c)) (sz - uint (cf_bLength ?c)) 0 ?n
        (replicate ?n zero_interface) ?c m1) (config_post sz (live m))"
      using assms l m_alloc_live [OF ok(1)] ok(2) inside_rest [of buf 0 sz "uint (cf_bLength ?c)"]
      by (intro spec_mono [OF spec_interfaces [where ?l0.0 = "live m"] config_post_mono])
        (auto simp: parsed_to_def zero_interface_ok store_config_def zero_config_def map_replicate_const sum_list_replicate)
  qed (auto simp: config_post_def codes_def usb_consts dest: m_alloc_live)
qed

definition whole_post :: "mem \<Rightarrow> int \<times> libusb_config_descriptor option \<times> mem \<Rightarrow> bool" where
  "whole_post m = (\<lambda>(r, config, m'). case config of None \<Rightarrow> r < 0 \<and> live m' = live m
     | Some c \<Rightarrow> r = 0 \<and> config_ok c \<and> live m' - live m - 1 - config_blocks c \<in> {0, 1})"

lemma spec_raw: "(t \<Longrightarrow> inside buf 0 sz) \<Longrightarrow> meets t (raw_desc_to_config buf sz m) (whole_post m)"
  unfolding raw_desc_to_config_def Let_def
  by (intro spec_splitI spec_ifI spec_InrI spec_rbindI spec_mono [OF spec_configuration])
    (auto simp: whole_post_def config_post_def codes_def usb_consts m_free_def dest: m_alloc_live)

definition reader_ok :: "reader \<Rightarrow> bool" where
  \<comment> \<open>the contract of a backend: at most as many bytes as asked for, into a buffer of that size\<close>
  "reader_ok get \<longleftrightarrow> (\<forall>n \<ge> 0. fst (get n) \<le> n \<and> int (length (snd (get n))) = n)"

definition backend_ok :: "backend \<Rightarrow> bool" where
  "backend_ok dev \<longleftrightarrow> reader_ok (b_active_config dev) \<and> (\<forall>i. reader_ok (b_config dev i)) \<and>
     (\<forall>get v. b_config_by_value dev = Some get \<longrightarrow> fst (get v) \<le> int (length (snd (get v))))"

lemma checked_reader:
  assumes "reader_ok get" "0 \<le> n" "(let (r, buf) = get n in if r < 0 then (r, buf) else if r < LIBUSB_DT_CONFIG_SIZE then (LIBUSB_ERROR_IO, buf) else (r, buf)) = (r1, buf1)"
  shows "int (length buf1) = n" "r1 \<le> n" "0 \<le> r1 \<Longrightarrow> inside buf1 0 r1"
  using assms by (auto simp: reader_ok_def inside_def usb_consts split: prod.splits if_splits)

lemma spec_fetch:
  assumes "t \<Longrightarrow> 4 \<le> length head" "\<And>n r1 buf1. 0 \<le> n \<Longrightarrow> get n = (r1, buf1) \<Longrightarrow> 0 \<le> r1 \<Longrightarrow> inside buf1 0 r1"
  shows "meets t (fetch_whole get head m) (whole_post m)"
  using assms(1) unfolding fetch_whole_def READ_LE16_def Let_def
  by (intro spec_rbindI spec_aread spec_InrI spec_splitI spec_ifI spec_mono [OF spec_raw])
    (auto simp: in_range_def whole_post_def m_free_def usb_consts dest: m_alloc_live intro: assms(2) split: option.splits)

text \<open>What a client of the three functions may rely on, and the effect of freeing what they return.\<close>

definition fetched :: "mem \<Rightarrow> (int \<times> libusb_config_descriptor option \<times> mem) res \<Rightarrow> bool" where
  "fetched m res = (case res of Inl e \<Rightarrow> False
     | Inr (r, None, m') \<Rightarrow> r < 0 \<and> live m' = live m
     | Inr (r, Some c, m') \<Rightarrow> r = 0 \<and> config_ok c \<and> live (libusb_free_config_descriptor (Some c) m') - live m \<in> {0, 1})"

lemma meets_fetched: "meets True res (whole_post m) \<Longrightarrow> fetched m res"
  by (auto simp: meets_def fetched_def whole_post_def libusb_free_config_descriptor_def m_free_def clear_configuration_live
      split: sum.splits option.splits)


lemma spec_active:
  assumes "reader_ok (b_active_config dev)"
  shows "meets True (libusb_get_active_config_descriptor dev m) (whole_post m)"
proof -
  note c = checked_reader [OF assms, folded get_active_config_descriptor_def]
  have h: "4 \<le> length hd9" if "get_active_config_descriptor dev LIBUSB_DT_CONFIG_SIZE = (r, hd9)" for r hd9
    using c(1) [OF _ that] by (simp add: LIBUSB_DT_CONFIG_SIZE_def)
  show ?thesis unfolding libusb_get_active_config_descriptor_def Let_def
    by (intro spec_splitI spec_ifI spec_InrI spec_fetch) (auto simp: whole_post_def intro: c(3) h)
qed

lemma spec_get_config:
  assumes "reader_ok (b_config dev i)"
  shows "meets True (libusb_get_config_descriptor dev dd i m) (whole_post m)"
proof -
  note c = checked_reader [OF assms, folded get_config_descriptor_def]
  have h: "4 \<le> length hd9" if "get_config_descriptor dev i LIBUSB_DT_CONFIG_SIZE = (r, hd9)" for r hd9
    using c(1) [OF _ that] by (simp add: LIBUSB_DT_CONFIG_SIZE_def)
  show ?thesis unfolding libusb_get_config_descriptor_def Let_def
    by (intro spec_splitI spec_ifI spec_InrI spec_fetch) (auto simp: whole_post_def LIBUSB_ERROR_NOT_FOUND_def intro: c(3) h)
qed

lemma spec_find_by_value:
  assumes "\<And>i. reader_ok (b_config dev i)"
  shows "meets True (find_by_value dev dd v idxs m) (whole_post m)"
proof (induction idxs)
  case Nil
  then show ?case by (simp add: whole_post_def usb_consts)
next
  case (Cons i idxs)
  note c = checked_reader [OF assms, of LIBUSB_DT_CONFIG_SIZE, folded get_config_descriptor_def]
  show ?case unfolding find_by_value.simps Let_def
    by (intro spec_splitI spec_ifI spec_InrI spec_rbindI spec_aread spec_get_config assms Cons.IH)
      (use c in \<open>auto simp: whole_post_def LIBUSB_DT_CONFIG_SIZE_def in_range_def\<close>)
qed

text \<open>
  C5. Whatever bytes a device sends and whichever allocations fail, the three functions that fetch a configuration read only inside
  their buffers. They return either a negative code, with no structure and every block released, or 0 and a structure with at most
  32 interfaces and 32 endpoints per setting, all inside their arrays. One thing is not as \<open>libusb.h\<close> documents it: in the last
  setting of an interface, and in no other, \<open>endpoint\<close> may be null although \<open>bNumEndpoints\<close> is not 0
  (\<open>short_extra_leaves_no_endpoints\<close> in \<open>UsbCodec\<close> gives the bytes). Freeing the structure releases every block, or all but one.
\<close>

theorem config_fetch_safe:
  assumes "backend_ok dev"
  shows "fetched m (libusb_get_active_config_descriptor dev m) \<and> fetched m (libusb_get_config_descriptor dev dd i m) \<and>
    fetched m (libusb_get_config_descriptor_by_value dev dd v m)"
proof (intro conjI meets_fetched)
  show "meets True (libusb_get_config_descriptor_by_value dev dd v m) (whole_post m)"
  proof (cases "b_config_by_value dev")
    case None
    then show ?thesis using assms by (simp add: libusb_get_config_descriptor_by_value_def spec_find_by_value backend_ok_def)
  next
    case (Some get)
    then have "fst (get v) \<le> int (length (snd (get v)))" using assms by (simp add: backend_ok_def)
    then show ?thesis unfolding libusb_get_config_descriptor_by_value_def Some option.case Let_def
      by (intro spec_splitI spec_ifI spec_InrI spec_raw) (auto simp: whole_post_def inside_def)
  qed
qed (use assms in \<open>auto simp: backend_ok_def intro: spec_active spec_get_config\<close>)

definition header1 :: "byte \<Rightarrow> byte list" where
  \<comment> \<open>the header of a configuration with one interface, of this total length\<close>
  "header1 tot = [9, 2, tot, 0, 1, 1, 0, 0x80, 50]"

definition replay :: "byte list \<Rightarrow> reader" where
  "replay bs n = (min n (int (length bs)), take (nat n) (bs @ replicate (nat n) 0))"

definition device :: "byte list \<Rightarrow> backend" where
  "device bs = \<lparr>b_active_config = replay bs, b_config = (\<lambda>i. replay bs), b_config_by_value = None\<rparr>"

lemma device_ok: "backend_ok (device bs)"
  by (auto simp: backend_ok_def reader_ok_def device_def replay_def)

definition plenty :: mem where "plenty = \<lparr>avail = (\<lambda>k. True), allocs = 0, live = 0\<rparr>"

theorem config_fetch_safe_witness:
  "fetched plenty (libusb_get_active_config_descriptor (device (header1 9)) plenty) \<and>
   fetched plenty (libusb_get_config_descriptor (device (header1 9)) undefined 0 plenty) \<and>
   fetched plenty (libusb_get_config_descriptor_by_value (device (header1 9)) undefined 1 plenty)"
  by (rule config_fetch_safe [OF device_ok])

end
