(* ===== verification/UsbCodec.thy ===== *)
theory UsbCodec
  imports UsbConfig
begin

unbundle bit_operations_syntax

text \<open>
  Inputs of the configuration parser (\<open>libusb/descriptor.c\<close>) that are known byte by byte: the
  descriptors of a configuration written out and read back, and two kinds of malformed descriptors
  that the parser accepts.
\<close>

section \<open>Known bytes\<close>

text \<open>The buffer has these bytes at this position.\<close>

definition here :: "byte list \<Rightarrow> int \<Rightarrow> byte list \<Rightarrow> bool" where
  "here buf p xs \<longleftrightarrow> 0 \<le> p \<and> (\<exists>us vs. buf = us @ xs @ vs \<and> length us = nat p)"

lemma here_start: "here (xs @ ys) 0 xs"
  by (auto simp: here_def)

lemma here_append: "here buf p (xs @ ys) \<longleftrightarrow> here buf p xs \<and> here buf (p + int (length xs)) ys"
proof (intro iffI conjI; (elim conjE)?)
  assume "here buf p (xs @ ys)"
  then obtain us vs where u: "0 \<le> p" "buf = us @ xs @ ys @ vs" "length us = nat p" by (auto simp: here_def)
  then show "here buf p xs" by (auto simp: here_def)
  have "buf = (us @ xs) @ ys @ vs" "length (us @ xs) = nat (p + int (length xs))" using u by (simp_all add: nat_add_distrib)
  then show "here buf (p + int (length xs)) ys" using u(1) unfolding here_def by (metis add_nonneg_nonneg of_nat_0_le_iff)
next
  assume a: "here buf p xs" and b: "here buf (p + int (length xs)) ys"
  obtain us vs where u: "0 \<le> p" "buf = us @ xs @ vs" "length us = nat p" using a by (auto simp: here_def)
  obtain us' vs' where v: "buf = us' @ ys @ vs'" "length us' = nat (p + int (length xs))" using b by (auto simp: here_def)
  have "length us' = length (us @ xs)" using u v by (simp add: nat_add_distrib)
  then have "us' = us @ xs" using u(2) v(1) append_eq_append_conv [of us' "us @ xs" "ys @ vs'" vs] by simp
  then show "here buf p (xs @ ys)" using u v by (auto simp: here_def)
qed

lemma here_Cons: "here buf p (x # xs) \<longleftrightarrow> aread buf p = Inr x \<and> here buf (p + 1) xs"
proof -
  have "here buf p [x] \<longleftrightarrow> aread buf p = Inr x"
  proof
    assume "here buf p [x]"
    then obtain us vs where "0 \<le> p" "buf = us @ x # vs" "length us = nat p" by (auto simp: here_def)
    then show "aread buf p = Inr x" by (auto simp: aread_def in_range_def nth_append)
  next
    assume "aread buf p = Inr x"
    then have p: "0 \<le> p" "nat p < length buf" "buf ! nat p = x" by (auto simp: aread_def in_range_def split: if_splits)
    then have "buf = take (nat p) buf @ [x] @ drop (Suc (nat p)) buf" using id_take_nth_drop [of "nat p" buf] by simp
    then show "here buf p [x]" using p unfolding here_def by (metis length_take min.absorb2 less_imp_le)
  qed
  then show ?thesis using here_append [of buf p "[x]" xs] by simp
qed

lemma here_Nil: "here buf p [] \<Longrightarrow> 0 \<le> p \<and> p \<le> int (length buf)"
  by (auto simp: here_def)

lemma here_words: "here buf p [a, b] \<Longrightarrow> READ_LE16 buf p = Inr (push_bit 8 (ucast b) OR ucast a)"
  by (simp add: here_Cons READ_LE16_def)

text \<open>The three formats of the configuration parser.\<close>

lemma parse_header:
  assumes "here buf p [b0, b1, b2, b3, b4, b5, b6, b7, b8]"
  shows "parse_descriptor buf p ''bbwbbbbb'' 0 = Inr [(0, Byte b0), (1, Byte b1), (2, Half (push_bit 8 (ucast b3) OR ucast b2)),
    (4, Byte b4), (5, Byte b5), (6, Byte b6), (7, Byte b7), (8, Byte b8)]"
  using assms by (simp add: here_Cons READ_LE16_def add.assoc)

lemma parse_setting_bytes:
  assumes "here buf p [b0, b1, b2, b3, b4, b5, b6, b7, b8]"
  shows "parse_descriptor buf p ''bbbbbbbbb'' 0 = Inr [(0, Byte b0), (1, Byte b1), (2, Byte b2), (3, Byte b3),
    (4, Byte b4), (5, Byte b5), (6, Byte b6), (7, Byte b7), (8, Byte b8)]"
  using assms by (simp add: here_Cons add.assoc)

lemma parse_endpoint_bytes:
  "here buf p [b0, b1, b2, b3, b4, b5, b6] \<Longrightarrow> parse_descriptor buf p ''bbbbwb'' 0 =
    Inr [(0, Byte b0), (1, Byte b1), (2, Byte b2), (3, Byte b3), (4, Half (push_bit 8 (ucast b5) OR ucast b4)), (6, Byte b6)]"
  "here buf p [b0, b1, b2, b3, b4, b5, b6, b7, b8] \<Longrightarrow> parse_descriptor buf p ''bbbbwbbb'' 0 =
    Inr [(0, Byte b0), (1, Byte b1), (2, Byte b2), (3, Byte b3), (4, Half (push_bit 8 (ucast b5) OR ucast b4)), (6, Byte b6),
      (7, Byte b7), (8, Byte b8)]"
  by (simp_all add: here_Cons READ_LE16_def add.assoc)

section \<open>Descriptors the parser mishandles\<close>

lemma nine_bytes: "length xs = 9 \<Longrightarrow> \<exists>b0 b1 b2 b3 b4 b5 b6 b7 b8. xs = [b0, b1, b2, b3, b4, b5, b6, b7, b8]"
  by (auto simp: numeral_eq_Suc length_Suc_conv)

definition header_config :: "byte \<Rightarrow> libusb_config_descriptor" where
  "header_config n = zero_config\<lparr>cf_bLength := 9, cf_bDescriptorType := 2, wTotalLength := ucast n, bNumInterfaces := 1,
     bConfigurationValue := 1, cf_bmAttributes := 0x80, MaxPower := 50\<rparr>"

lemma raw_header:
  assumes "\<forall>k. avail m k" "sz = 9 + int (length ys)"
  shows "raw_desc_to_config (header1 n @ ys) sz m =
    rbind (parse_interfaces (header1 n @ ys) 9 (sz - 9) 0 1 [zero_interface] (header_config n) (m\<lparr>allocs := allocs m + 2, live := live m + 2\<rparr>)) (\<lambda>(r, c, m').
      if r < 0 then Inr (r, None, m_free True m') else Inr (LIBUSB_SUCCESS, Some c, m'))"
proof -
  have "here (header1 n @ ys) 0 [9, 2, n, 0, 1, 1, 0, 0x80, 50]" using here_start [of "header1 n" ys] by (simp add: header1_def)
  note ws = parse_header [OF this]
  show ?thesis using assms
    by (simp add: raw_desc_to_config_def parse_configuration_def m_alloc_def Let_def usb_consts usb_types header_config_def ws
        store_config_def byte_at_def half_at_def zero_config_def add.commute [of 2] del: parse_descriptor.simps)
qed

text \<open>
  C31. A descriptor that is not an interface where the first interface should be makes the parser give
  back a configuration without interfaces and lose the block allocated for the settings: freeing the
  configuration leaves one block more than before.
\<close>

theorem stray_descriptor_leaks:
  assumes "9 \<le> length ys" "2 \<le> uint (ys ! 0)" "uint (ys ! 0) \<le> int (length ys)"
    and "ys ! 1 = LIBUSB_DT_ENDPOINT \<or> ys ! 1 = LIBUSB_DT_CONFIG \<or> ys ! 1 = LIBUSB_DT_DEVICE" "\<forall>k. avail m k"
  shows "\<exists>c m'. raw_desc_to_config (header1 n @ ys) (9 + int (length ys)) m = Inr (0, Some c, m') \<and>
    bNumInterfaces c = 0 \<and> live (libusb_free_config_descriptor (Some c) m') = live m + 1"
proof -
  let ?buf = "header1 n @ ys" and ?m = "m\<lparr>allocs := allocs m + 2, live := live m + 2\<rparr>"
  obtain b0 b1 b2 b3 b4 b5 b6 b7 b8 zs where ys: "ys = [b0, b1, b2, b3, b4, b5, b6, b7, b8] @ zs"
  proof -
    have "length (take 9 ys) = 9" using assms(1) by simp
    then show ?thesis using nine_bytes [of "take 9 ys"] append_take_drop_id [of 9 ys] by (metis that)
  qed
  have h: "here ?buf 9 [b0, b1, b2, b3, b4, b5, b6, b7, b8]"
    using here_start [of "header1 n @ [b0, b1, b2, b3, b4, b5, b6, b7, b8]" zs] here_append [of ?buf 0 "header1 n" "[b0, b1, b2, b3, b4, b5, b6, b7, b8]"]
    by (simp add: ys header1_def)
  have b1: "b1 \<noteq> LIBUSB_DT_INTERFACE" "proper b1" using assms(4) by (auto simp: ys usb_types proper_def)
  have skip: "skip_extra ?buf 9 (int (length ys)) = Inr (SkipDone 9 (int (length ys)))"
    using h b1(2) assms(2,3) by (subst skip_extra.simps) (simp add: here_Cons ys usb_consts)
  have itf: "parse_interface zero_interface ?buf 9 (int (length ys)) m1 =
      Inr (0, zero_interface\<lparr>alt_block := True\<rparr>, m1\<lparr>allocs := Suc (allocs m1), live := live m1 + 1\<rparr>)" if "\<forall>k. avail m1 k" for m1
    using that b1(1) assms(1)
    by (simp add: parse_interface_def parse_settings.simps parse_setting_def parse_setting_bytes [OF h] m_realloc_def Let_def
        interface_of_def byte_at_def zero_interface_def usb_consts del: parse_descriptor.simps)
  show ?thesis
    using assms(5) itf [of ?m]
    by (subst raw_header) (simp_all add: LIBUSB_SUCCESS_def parse_interfaces.simps skip config_extra_def Let_def libusb_free_config_descriptor_def
        clear_configuration_def m_free_def header_config_def zero_config_def)
qed


theorem stray_descriptor_leaks_witness:
  "\<exists>c m'. raw_desc_to_config (header1 18 @ [9, 5, 1, 2, 3, 4, 5, 6, 7]) 18 plenty = Inr (0, Some c, m') \<and>
    bNumInterfaces c = 0 \<and> live (libusb_free_config_descriptor (Some c) m') = 1"
  using stray_descriptor_leaks [of "[9, 5, 1, 2, 3, 4, 5, 6, 7]" plenty 18] by (simp add: usb_types plenty_def)

text \<open>
  A class descriptor cut short behind an interface makes the parser stop and succeed with an
  interface that claims its endpoints but has no endpoint array: the number is the device's, the
  pointer null.
\<close>

theorem short_extra_leaves_no_endpoints:
  assumes "uint k \<le> 32" "2 \<le> length ys" "int (length ys) < uint (ys ! 0)" "\<forall>j. avail m j"
  shows "\<exists>c itf ifp m'. raw_desc_to_config (header1 n @ [9, 4, num, alt, k, cls, sub, prot, i] @ ys) (18 + int (length ys)) m =
      Inr (0, Some c, m') \<and>
    bNumInterfaces c = 1 \<and> interface c = Some [itf] \<and> altsetting itf = [ifp] \<and> bNumEndpoints ifp = k \<and> endpoint ifp = None"
proof -
  let ?d = "[9, 4, num, alt, k, cls, sub, prot, i]"
  let ?buf = "header1 n @ 9 # 4 # num # alt # k # cls # sub # prot # i # ys" and ?m = "m\<lparr>allocs := allocs m + 2, live := live m + 2\<rparr>"
  have h: "here ?buf 9 ?d" "here ?buf 18 ys"
    using here_start [of "header1 n @ ?d @ ys" "[]", unfolded append_Nil2] unfolding here_append by (simp_all add: header1_def)
  obtain y0 y1 zs where ys: "ys = [y0, y1] @ zs" using assms(2) by (cases ys; cases "tl ys") auto
  have skip: "skip_extra ?buf 9 (9 + int (length ys)) = Inr (SkipDone 9 (9 + int (length ys)))"
    using h(1) by (subst skip_extra.simps) (simp add: here_Cons usb_consts usb_types proper_def)
  have skip2: "skip_extra ?buf 18 (int (length ys)) = Inr (SkipShort 18 (int (length ys)))"
    using h(2) assms(2,3) by (subst skip_extra.simps) (simp add: ys here_Cons usb_consts usb_types)
  let ?ifp = "\<lparr>if_bLength = 9, if_bDescriptorType = 4, bInterfaceNumber = num, bAlternateSetting = alt, bNumEndpoints = k,
     bInterfaceClass = cls, bInterfaceSubClass = sub, bInterfaceProtocol = prot, iInterface = i, endpoint = None,
     if_extra = None, if_extra_length = 0\<rparr>"
  have itf: "parse_interface zero_interface ?buf 9 (9 + int (length ys)) m1 =
      Inr (9, \<lparr>alt_block = True, altsetting = [?ifp]\<rparr>, m1\<lparr>allocs := Suc (allocs m1), live := live m1 + 1\<rparr>)" if "\<forall>k. avail m1 k" for m1
    using that assms(1) skip2
    by (simp add: parse_interface_def parse_settings.simps parse_setting_def parse_setting_bytes [OF h(1)] m_realloc_def Let_def
        interface_of_def byte_at_def zero_interface_def usb_consts usb_types del: parse_descriptor.simps)
  show ?thesis
    using assms(4) itf [of ?m] raw_header [of m "18 + int (length ys)" "?d @ ys" n]
    by (simp add: LIBUSB_SUCCESS_def parse_interfaces.simps skip config_extra_def Let_def header_config_def zero_config_def)
qed

theorem short_extra_leaves_no_endpoints_witness:
  "\<exists>c itf ifp m'. raw_desc_to_config (header1 20 @ [9, 4, 0, 0, 2, 3, 0, 0, 0] @ [9, 0x21]) 20 plenty = Inr (0, Some c, m') \<and>
    bNumInterfaces c = 1 \<and> interface c = Some [itf] \<and> altsetting itf = [ifp] \<and> bNumEndpoints ifp = 2 \<and> endpoint ifp = None"
  using short_extra_leaves_no_endpoints [of 2 "[9, 0x21]" plenty 20 0 0 3 0 0 0] by (simp add: plenty_def)


section \<open>Writing descriptors out\<close>

definition put_word :: "16 word \<Rightarrow> byte list" where
  "put_word w = [ucast w, ucast (drop_bit 8 w)]"

definition put_endpoint :: "libusb_endpoint_descriptor \<Rightarrow> byte list" where
  "put_endpoint e = [ep_bLength e, ep_bDescriptorType e, bEndpointAddress e, ep_bmAttributes e] @ put_word (wMaxPacketSize e) @
     [bInterval e] @ (if ep_bLength e = 9 then [bRefresh e, bSynchAddress e] else [])"

definition endpoints_of :: "libusb_interface_descriptor \<Rightarrow> libusb_endpoint_descriptor list" where
  "endpoints_of s = (case endpoint s of None \<Rightarrow> [] | Some eps \<Rightarrow> eps)"

definition put_setting :: "libusb_interface_descriptor \<Rightarrow> byte list" where
  "put_setting s = [if_bLength s, if_bDescriptorType s, bInterfaceNumber s, bAlternateSetting s, bNumEndpoints s, bInterfaceClass s,
     bInterfaceSubClass s, bInterfaceProtocol s, iInterface s] @ concat (map put_endpoint (endpoints_of s))"

definition put_interface :: "libusb_interface \<Rightarrow> byte list" where
  "put_interface itf = concat (map put_setting (altsetting itf))"

definition interfaces_of :: "libusb_config_descriptor \<Rightarrow> libusb_interface list" where
  "interfaces_of c = (case interface c of None \<Rightarrow> [] | Some itfs \<Rightarrow> itfs)"

definition put_config :: "libusb_config_descriptor \<Rightarrow> byte list" where
  "put_config c = [cf_bLength c, cf_bDescriptorType c] @ put_word (wTotalLength c) @ [bNumInterfaces c, bConfigurationValue c,
     iConfiguration c, cf_bmAttributes c, MaxPower c] @ concat (map put_interface (interfaces_of c))"

text \<open>
  Descriptors as the standard has them, without class descriptors: the lengths and types fit, the
  numbers count what is there, the settings of one interface have its number, neighbours another.
\<close>

definition endpoint_wf :: "libusb_endpoint_descriptor \<Rightarrow> bool" where
  "endpoint_wf e \<longleftrightarrow> ep_bDescriptorType e = LIBUSB_DT_ENDPOINT \<and> ep_extra e = None \<and> ep_extra_length e = 0 \<and>
     (ep_bLength e = 9 \<or> ep_bLength e = 7 \<and> bRefresh e = 0 \<and> bSynchAddress e = 0)"

definition setting_wf :: "libusb_interface_descriptor \<Rightarrow> bool" where
  "setting_wf s \<longleftrightarrow> if_bLength s = 9 \<and> if_bDescriptorType s = LIBUSB_DT_INTERFACE \<and> if_extra s = None \<and> if_extra_length s = 0 \<and>
     unat (bNumEndpoints s) = length (endpoints_of s) \<and> length (endpoints_of s) \<le> 32 \<and> endpoint s \<noteq> Some [] \<and>
     (\<forall>e \<in> set (endpoints_of s). endpoint_wf e)"

definition interface_wf :: "byte \<Rightarrow> libusb_interface \<Rightarrow> bool" where
  "interface_wf k itf \<longleftrightarrow> alt_block itf \<and> altsetting itf \<noteq> [] \<and> (\<forall>s \<in> set (altsetting itf). setting_wf s \<and> bInterfaceNumber s = k)"

fun interfaces_wf :: "byte list \<Rightarrow> libusb_interface list \<Rightarrow> bool" where
  "interfaces_wf [] [] = True"
| "interfaces_wf (k # ks) (itf # itfs) \<longleftrightarrow> interface_wf k itf \<and> (ks = [] \<or> hd ks \<noteq> k) \<and> interfaces_wf ks itfs"
| "interfaces_wf ks itfs = False"

definition config_wf :: "libusb_config_descriptor \<Rightarrow> bool" where
  "config_wf c \<longleftrightarrow> cf_bLength c = 9 \<and> cf_bDescriptorType c = LIBUSB_DT_CONFIG \<and> cf_extra c = None \<and> cf_extra_length c = 0 \<and>
     interface c \<noteq> None \<and> unat (bNumInterfaces c) = length (interfaces_of c) \<and> length (interfaces_of c) \<le> 32 \<and>
     interfaces_wf (map (bInterfaceNumber \<circ> hd \<circ> altsetting) (interfaces_of c)) (interfaces_of c)"

section \<open>Reading them back\<close>

lemma word_split: "push_bit 8 (ucast (ucast (drop_bit 8 w) :: byte)) OR ucast (ucast w :: byte) = (w :: 16 word)"
  by (rule bit_word_eqI) (auto simp: bit_simps)

definition tail_ok :: "byte list \<Rightarrow> bool" where
  "tail_ok xs \<longleftrightarrow> xs = [] \<or> (\<exists>b0 b1 zs. xs = b0 # b1 # zs \<and> 2 \<le> uint b0 \<and> uint b0 \<le> int (length xs) \<and> proper b1)"

lemma skip_stops: "here buf p xs \<Longrightarrow> tail_ok xs \<Longrightarrow> skip_extra buf p (int (length xs)) = Inr (SkipDone p (int (length xs)))"
  by (subst skip_extra.simps) (auto simp: tail_ok_def here_Cons usb_consts)

lemma length_put_endpoint: "endpoint_wf e \<Longrightarrow> int (length (put_endpoint e)) = uint (ep_bLength e)"
  by (auto simp: endpoint_wf_def put_endpoint_def put_word_def)

lemma tail_ok_endpoint: "endpoint_wf e \<Longrightarrow> tail_ok (put_endpoint e @ ys)"
  by (auto simp: endpoint_wf_def put_endpoint_def put_word_def tail_ok_def proper_def)

lemma tail_ok_endpoints: "\<forall>e \<in> set es. endpoint_wf e \<Longrightarrow> tail_ok ys \<Longrightarrow> tail_ok (concat (map put_endpoint es) @ ys)"
  by (cases es) (simp_all add: tail_ok_endpoint)

lemma parse_put_endpoint:
  assumes "endpoint_wf e" "here buf p (put_endpoint e @ ys)" "tail_ok ys"
  shows "parse_endpoint zero_endpoint buf p (int (length (put_endpoint e @ ys))) m = Inr (int (length (put_endpoint e)), e, m)"
proof -
  have h: "here buf p (put_endpoint e)" "here buf (p + uint (ep_bLength e)) ys"
    using assms(2) by (simp_all add: here_append length_put_endpoint [OF assms(1)])
  note skip = skip_stops [OF h(2) assms(3)]
  show ?thesis
  proof (cases "ep_bLength e = 9")
    case True
    have "here buf p [9, 5, bEndpointAddress e, ep_bmAttributes e, ucast (wMaxPacketSize e), ucast (drop_bit 8 (wMaxPacketSize e)), bInterval e, bRefresh e, bSynchAddress e]"
      using h(1) assms(1) True by (simp add: put_endpoint_def put_word_def endpoint_wf_def usb_types)
    note b = parse_endpoint_bytes(2) [OF this] this
    show ?thesis using assms(1) True skip b
      by (simp add: parse_endpoint_def here_Cons length_put_endpoint usb_consts usb_types word_split store_endpoint_def endpoint_wf_def
          byte_at_def half_at_def zero_endpoint_def Let_def del: parse_descriptor.simps)
  next
    case False
    have "here buf p [7, 5, bEndpointAddress e, ep_bmAttributes e, ucast (wMaxPacketSize e), ucast (drop_bit 8 (wMaxPacketSize e)), bInterval e]"
      using h(1) assms(1) False by (simp add: put_endpoint_def put_word_def endpoint_wf_def usb_types)
    note b = parse_endpoint_bytes(1) [OF this] this
    show ?thesis using assms(1) False skip b
      by (simp add: parse_endpoint_def here_Cons length_put_endpoint usb_consts usb_types word_split store_endpoint_def endpoint_wf_def
          byte_at_def half_at_def zero_endpoint_def Let_def del: parse_descriptor.simps)
  qed
qed


lemma parse_put_endpoints:
  assumes "\<forall>e \<in> set es. endpoint_wf e" "here buf p (concat (map put_endpoint es) @ ys)" "tail_ok ys"
  shows "parse_endpoints buf p (int (length (concat (map put_endpoint es) @ ys))) (length ds) (length ds + length es)
      (ds @ replicate (length es) zero_endpoint) m =
    Inr (0, length ds + length es, ds @ es, p + int (length (concat (map put_endpoint es))), int (length ys), m)"
  using assms
proof (induction es arbitrary: p ds)
  case Nil
  then show ?case by (subst parse_endpoints.simps) simp
next
  case (Cons e es)
  let ?rest = "concat (map put_endpoint es) @ ys"
  have e: "endpoint_wf e" "\<forall>e \<in> set es. endpoint_wf e" using Cons.prems(1) by simp_all
  have h: "here buf p (put_endpoint e @ ?rest)" "here buf (p + int (length (put_endpoint e))) ?rest"
    using Cons.prems(2) by (simp_all add: here_append add.assoc)
  have "0 < length (put_endpoint e)" by (simp add: put_endpoint_def)
  then show ?case
    using Cons.IH [OF e(2) h(2) Cons.prems(3), of "ds @ [e]"] parse_put_endpoint [OF e(1) h(1) tail_ok_endpoints [OF e(2) Cons.prems(3)], of m]
    by (subst parse_endpoints.simps) (simp add: nth_append add.assoc)
qed

lemma tail_ok_setting: "setting_wf s \<Longrightarrow> tail_ok (put_setting s @ ys)"
  by (auto simp: setting_wf_def put_setting_def tail_ok_def proper_def)

definition next_setting :: "byte list \<Rightarrow> byte \<Rightarrow> bool" where
  "next_setting ys k \<longleftrightarrow> 9 \<le> length ys \<and> ys ! 1 = LIBUSB_DT_INTERFACE \<and> ys ! 2 = k"

lemma here_nth: "here buf p ys \<Longrightarrow> i < length ys \<Longrightarrow> aread buf (p + int i) = Inr (ys ! i)"
  using id_take_nth_drop [of i ys] here_append [of buf p "take i ys" "[ys ! i] @ drop (Suc i) ys"]
  by (simp add: here_Cons)

lemma parse_put_setting:
  assumes "setting_wf s" "here buf p (put_setting s @ ys)" "tail_ok ys" "\<forall>j. avail m j"
    and "case number of None \<Rightarrow> True | Some k \<Rightarrow> k = bInterfaceNumber s"
  shows "\<exists>m'. (\<forall>j. avail m' j) \<and> parse_setting buf p (int (length (put_setting s @ ys))) number itf m =
    Inr (if next_setting ys (bInterfaceNumber s)
         then AltNext (p + int (length (put_setting s))) (int (length ys)) (bInterfaceNumber s)
         else AltStop (p + int (length (put_setting s))),
      itf\<lparr>alt_block := True, altsetting := altsetting itf @ [s]\<rparr>, m')"
proof -
  let ?es = "endpoints_of s" and ?head = "[9, 4, bInterfaceNumber s, bAlternateSetting s, bNumEndpoints s, bInterfaceClass s,
     bInterfaceSubClass s, bInterfaceProtocol s, iInterface s]"
  let ?eb = "concat (map put_endpoint (endpoints_of s))"
  have put: "put_setting s = ?head @ ?eb" using assms(1) by (simp add: put_setting_def setting_wf_def usb_types)
  have es: "\<forall>e \<in> set ?es. endpoint_wf e" using assms(1) by (simp add: setting_wf_def)
  have h: "here buf p ?head" "here buf (p + 9) (?eb @ ys)" "here buf (p + int (length (put_setting s))) ys"
    using assms(2) unfolding put here_append by (simp_all add: add.assoc)
  note skip = skip_stops [OF h(2) tail_ok_endpoints [OF es assms(3)]]
  let ?s0 = "s\<lparr>endpoint := None\<rparr>"
  have ifp: "interface_of [(0, Byte 9), (1, Byte 4), (2, Byte (bInterfaceNumber s)), (3, Byte (bAlternateSetting s)),
    (4, Byte (bNumEndpoints s)), (5, Byte (bInterfaceClass s)), (6, Byte (bInterfaceSubClass s)), (7, Byte (bInterfaceProtocol s)),
    (8, Byte (iInterface s))] = ?s0"
    using assms(1) by (simp add: interface_of_def byte_at_def setting_wf_def usb_types)
  have n: "uint (bNumEndpoints s) \<le> 32" "bNumEndpoints s = word_of_nat (length ?es)"
  proof -
    have "int (unat (bNumEndpoints s)) = uint (bNumEndpoints s)" by simp
    then show "uint (bNumEndpoints s) \<le> 32" using assms(1) unfolding setting_wf_def by linarith
    have u: "length ?es = unat (bNumEndpoints s)" using assms(1) by (simp add: setting_wf_def)
    show "bNumEndpoints s = word_of_nat (length ?es)" unfolding u by simp
  qed
  have setting_endpoints: "\<exists>m'. (\<forall>j. avail m' j) \<and> setting_endpoints buf (p + 9) (int (length (?eb @ ys))) ?s0 m1 =
      Inr (0, s, p + int (length (put_setting s)), int (length ys), m')" if m1: "\<forall>j. avail m1 j" for m1
  proof (cases "?es")
    case Nil
    then have "endpoint s = None" "unat (bNumEndpoints s) = 0"
      using assms(1) by (auto simp: setting_wf_def endpoints_of_def split: option.splits)
    then show ?thesis using Nil m1 by (intro exI [of _ m1]) (simp add: setting_endpoints_def put)
  next
    case (Cons e es')
    then have "endpoint s = Some ?es" "0 < unat (bNumEndpoints s)"
      using assms(1) by (auto simp: setting_wf_def endpoints_of_def split: option.splits)
    then show ?thesis using m1 parse_put_endpoints [OF es h(2) assms(3), of "[]" "snd (m_alloc m1)"] assms(1) n(2)
      by (intro exI [of _ "snd (m_alloc m1)"]) (simp add: setting_endpoints_def m_alloc_def Let_def put setting_wf_def add.assoc)
  qed
  obtain m1 where m1: "m_realloc (alt_block itf) m = (True, m1)" "\<forall>j. avail m1 j" using assms(4) by (auto simp: m_realloc_def Let_def)
  obtain m' where m': "\<forall>j. avail m' j" "setting_endpoints buf (p + 9) (int (length (?eb @ ys))) ?s0 m1 =
      Inr (0, s, p + int (length (put_setting s)), int (length ys), m')"
    using setting_endpoints [OF m1(2)] by blast
  have k: "(case number of None \<Rightarrow> bInterfaceNumber ?s0 | Some k \<Rightarrow> k) = bInterfaceNumber s" using assms(5) by (cases number) simp_all
  have r: "9 \<le> length ys \<Longrightarrow> aread buf (p + int (length (put_setting s)) + 1) = Inr (ys ! 1)"
    "9 \<le> length ys \<Longrightarrow> aread buf (p + int (length (put_setting s)) + 2) = Inr (ys ! 2)"
    using here_nth [OF h(3), of 1] here_nth [OF h(3), of 2] by simp_all
  define L where "L = int (length (put_setting s @ ys))"
  define E where "E = int (length (?eb @ ys))"
  have L: "L - 9 = E" "\<not> L < 9" unfolding L_def E_def put by simp_all
  have skipE: "skip_extra buf (p + 9) E = Inr (SkipDone (p + 9) E)" "setting_endpoints buf (p + 9) E ?s0 m1 =
      Inr (0, s, p + int (length (put_setting s)), int (length ys), m')" using skip m'(2) unfolding E_def by simp_all
  have s: "if_bDescriptorType s = LIBUSB_DT_INTERFACE" "if_bLength s = 9" "\<not> USB_MAXENDPOINTS < uint (bNumEndpoints s)"
    using assms(1) n(1) by (simp_all add: setting_wf_def USB_MAXENDPOINTS_def)
  have "parse_setting buf p L number itf m =
      Inr (if next_setting ys (bInterfaceNumber s)
         then AltNext (p + int (length (put_setting s))) (int (length ys)) (bInterfaceNumber s)
         else AltStop (p + int (length (put_setting s))),
        itf\<lparr>alt_block := True, altsetting := altsetting itf @ [s]\<rparr>, m')"
    using L
    by (simp add: parse_setting_def parse_setting_bytes [OF h(1)] ifp m1(1) Let_def s k [folded ifp] skipE setting_extra_def LIBUSB_DT_INTERFACE_SIZE_def
        r next_setting_def not_less del: parse_descriptor.simps)
  then show ?thesis using m'(1) unfolding L_def by blast
qed


lemma next_setting_put: "setting_wf s \<Longrightarrow> next_setting (put_setting s @ ys) k \<longleftrightarrow> bInterfaceNumber s = k"
  by (simp add: next_setting_def put_setting_def setting_wf_def)

lemma parse_put_settings:
  assumes "ss \<noteq> []" "\<forall>s \<in> set ss. setting_wf s \<and> bInterfaceNumber s = k" "here buf p (concat (map put_setting ss) @ ys)"
    and "tail_ok ys" "\<not> next_setting ys k" "\<forall>j. avail m j" "number = None \<or> number = Some k"
  shows "\<exists>m'. (\<forall>j. avail m' j) \<and>
    parse_settings buf p (int (length (concat (map put_setting ss) @ ys))) parsed number itf m =
    Inr (parsed + int (length (concat (map put_setting ss))), itf\<lparr>alt_block := True, altsetting := altsetting itf @ ss\<rparr>, m')"
  using assms
proof (induction ss arbitrary: p parsed number itf m)
  case (Cons s ss)
  let ?rest = "concat (map put_setting ss) @ ys"
  have s: "setting_wf s" "bInterfaceNumber s = k" "\<forall>s \<in> set ss. setting_wf s \<and> bInterfaceNumber s = k" using Cons.prems(2) by simp_all
  have h: "here buf p (put_setting s @ ?rest)" "here buf (p + int (length (put_setting s))) ?rest"
    using Cons.prems(3) by (simp_all add: here_append add.assoc)
  have tail: "tail_ok ?rest" using s(3) Cons.prems(4) by (cases ss) (simp_all add: tail_ok_setting)
  have num: "case number of None \<Rightarrow> True | Some k \<Rightarrow> k = bInterfaceNumber s" using Cons.prems(7) s(2) by auto
  obtain m' where m': "\<forall>j. avail m' j" "parse_setting buf p (int (length (put_setting s @ ?rest))) number itf m =
    Inr (if next_setting ?rest k then AltNext (p + int (length (put_setting s))) (int (length ?rest)) k
         else AltStop (p + int (length (put_setting s))), itf\<lparr>alt_block := True, altsetting := altsetting itf @ [s]\<rparr>, m')"
    using parse_put_setting [OF s(1) h(1) tail Cons.prems(6) num, of itf] s(2) by auto
  have nine: "\<not> int (length (put_setting s @ ?rest)) < LIBUSB_DT_INTERFACE_SIZE" by (simp add: put_setting_def usb_consts)
  show ?case
  proof (cases ss)
    case Nil
    then show ?thesis using m' nine Cons.prems(5) by (intro exI [of _ m']) (subst parse_settings.simps, simp)
  next
    case ss: (Cons s2 ss2)
    then have "next_setting ?rest k" using s(3) next_setting_put [of s2 "concat (map put_setting ss2) @ ys" k] by simp
    moreover obtain m2 where "\<forall>j. avail m2 j" "parse_settings buf (p + int (length (put_setting s))) (int (length ?rest))
        (parsed + int (length (put_setting s))) (Some k) (itf\<lparr>alt_block := True, altsetting := altsetting itf @ [s]\<rparr>) m' =
      Inr (parsed + int (length (put_setting s)) + int (length (concat (map put_setting ss))),
        itf\<lparr>alt_block := True, altsetting := altsetting itf @ [s] @ ss\<rparr>, m2)"
      using Cons.IH [OF _ s(3) h(2) Cons.prems(4,5) m'(1), of "Some k" "parsed + int (length (put_setting s))"
          "itf\<lparr>alt_block := True, altsetting := altsetting itf @ [s]\<rparr>"] ss by auto
    ultimately show ?thesis using m' nine by (intro exI [of _ m2]) (subst parse_settings.simps, simp add: add.assoc)
  qed
qed simp


lemma interface_wf_bytes:
  assumes "interface_wf k itf"
  shows "tail_ok (put_interface itf @ ys)" "next_setting (put_interface itf @ ys) j \<longleftrightarrow> j = k" "0 < length (put_interface itf)"
proof -
  obtain s ss where s: "altsetting itf = s # ss" "setting_wf s" "bInterfaceNumber s = k"
    using assms unfolding interface_wf_def by (cases "altsetting itf") auto
  then show "tail_ok (put_interface itf @ ys)" "next_setting (put_interface itf @ ys) j \<longleftrightarrow> j = k" "0 < length (put_interface itf)"
    by (auto simp: put_interface_def tail_ok_setting next_setting_put) (simp add: put_setting_def)
qed

lemma parse_put_interface:
  assumes "interface_wf k itf" "here buf p (put_interface itf @ ys)" "tail_ok ys" "\<not> next_setting ys k" "\<forall>j. avail m j"
  shows "\<exists>m'. (\<forall>j. avail m' j) \<and> live m' = live m + itf_blocks itf \<and>
    parse_interface zero_interface buf p (int (length (put_interface itf @ ys))) m = Inr (int (length (put_interface itf)), itf, m')"
proof -
  have "itf = \<lparr>alt_block = True, altsetting = altsetting itf\<rparr>" using assms(1) by (cases itf) (simp add: interface_wf_def)
  moreover obtain m' where m': "\<forall>j. avail m' j" "parse_interface zero_interface buf p (int (length (put_interface itf @ ys))) m =
    Inr (int (length (put_interface itf)), \<lparr>alt_block = True, altsetting = altsetting itf\<rparr>, m')"
    using assms parse_put_settings [of "altsetting itf" k buf p ys m None 0 zero_interface]
    unfolding interface_wf_def put_interface_def parse_interface_def by (auto simp: zero_interface_def)
  moreover have "itf_post (int (length (put_interface itf @ ys))) m (int (length (put_interface itf)), \<lparr>alt_block = True, altsetting = altsetting itf\<rparr>, m')"
    using spec_interface [of False buf p "int (length (put_interface itf @ ys))" m] m'(2) by simp
  ultimately show ?thesis unfolding itf_post_def by (intro exI [of _ m']) simp
qed

lemma put_interfaces_bytes:
  assumes "interfaces_wf ks itfs" "ks = [] \<or> hd ks \<noteq> k"
  shows "tail_ok (concat (map put_interface itfs))" "\<not> next_setting (concat (map put_interface itfs)) k"
proof -
  consider "itfs = []" | j js i rest where "ks = j # js" "itfs = i # rest" using assms(1) by (cases "(ks, itfs)" rule: interfaces_wf.cases) auto
  then have "tail_ok (concat (map put_interface itfs)) \<and> \<not> next_setting (concat (map put_interface itfs)) k"
  proof cases
    case 1
    then show ?thesis by (simp add: tail_ok_def next_setting_def)
  next
    case (2 j js i rest)
    then show ?thesis using assms interface_wf_bytes(1,2) [of j i "concat (map put_interface rest)"] by auto
  qed
  then show "tail_ok (concat (map put_interface itfs))" "\<not> next_setting (concat (map put_interface itfs)) k" by simp_all
qed

lemma parse_put_interfaces:
  assumes "interfaces_wf ks itfs" "here buf p (concat (map put_interface itfs))" "\<forall>j. avail m j" "cf_extra_length c = 0"
  shows "\<exists>m'. live m' = live m + sum_list (map itf_blocks itfs) \<and>
    parse_interfaces buf p (int (length (concat (map put_interface itfs)))) (length ds) (length ds + length itfs)
      (ds @ replicate (length itfs) zero_interface) c m = Inr (0, c\<lparr>interface := Some (ds @ itfs)\<rparr>, m')"
  using assms
proof (induction ks itfs arbitrary: p ds m rule: interfaces_wf.induct)
  case 1
  then show ?case by (intro exI [of _ m]) (subst parse_interfaces.simps, simp)
next
  case (2 k ks itf itfs)
  let ?rest = "concat (map put_interface itfs)"
  have w: "interface_wf k itf" "interfaces_wf ks itfs" "ks = [] \<or> hd ks \<noteq> k" using "2.prems"(1) by simp_all
  have h: "here buf p (put_interface itf @ ?rest)" "here buf (p + int (length (put_interface itf))) ?rest"
    using "2.prems"(2) by (simp_all add: here_append)
  note rest = put_interfaces_bytes [OF w(2,3)]
  obtain m1 where m1: "\<forall>j. avail m1 j" "live m1 = live m + itf_blocks itf" "parse_interface zero_interface buf p (int (length (put_interface itf @ ?rest))) m =
    Inr (int (length (put_interface itf)), itf, m1)" using parse_put_interface [OF w(1) h(1) rest "2.prems"(3)] by blast
  obtain m2 where m2: "live m2 = live m1 + sum_list (map itf_blocks itfs)" "parse_interfaces buf (p + int (length (put_interface itf))) (int (length ?rest)) (Suc (length ds))
      (length ds + length (itf # itfs)) (ds @ itf # replicate (length itfs) zero_interface) c m1 =
    Inr (0, c\<lparr>interface := Some (ds @ itf # itfs)\<rparr>, m2)"
    using "2.IH" [OF w(2) h(2) m1(1) "2.prems"(4), of "ds @ [itf]"] by auto
  have "parse_interfaces buf p (int (length (put_interface itf @ ?rest))) (length ds) (length ds + length (itf # itfs))
      (ds @ replicate (length (itf # itfs)) zero_interface) c m = Inr (0, c\<lparr>interface := Some (ds @ itf # itfs)\<rparr>, m2)"
    using m1(3) m2(2) skip_stops [OF h(1) interface_wf_bytes(1) [OF w(1)]] interface_wf_bytes(3) [OF w(1)]
    by (subst parse_interfaces.simps) (simp add: config_extra_def nth_append)
  then show ?case using m1(2) m2(1) by auto
qed simp_all

lemma length_put_config: "9 \<le> length (put_config c)"
  by (simp add: put_config_def put_word_def)

lemma raw_put_config:
  assumes "config_wf c" "\<forall>j. avail m j"
  shows "\<exists>m'. raw_desc_to_config (put_config c) (int (length (put_config c))) m = Inr (LIBUSB_SUCCESS, Some c, m') \<and>
    live (libusb_free_config_descriptor (Some c) m') = live m"
proof -
  let ?itfs = "interfaces_of c"
  let ?head = "[9, 2, ucast (wTotalLength c), ucast (drop_bit 8 (wTotalLength c)), bNumInterfaces c, bConfigurationValue c,
     iConfiguration c, cf_bmAttributes c, MaxPower c]" and ?ib = "concat (map put_interface (interfaces_of c))"
  have put: "put_config c = ?head @ ?ib" using assms(1) by (simp add: put_config_def put_word_def config_wf_def usb_types)
  have h: "here (put_config c) 0 ?head" "here (put_config c) 9 ?ib"
    using here_start [of "put_config c" "[]", unfolded append_Nil2] unfolding put here_append by simp_all
  have n: "unat (bNumInterfaces c) = length ?itfs" "uint (bNumInterfaces c) \<le> 32"
  proof -
    show "unat (bNumInterfaces c) = length ?itfs" using assms(1) by (simp add: config_wf_def)
    moreover have "int (unat (bNumInterfaces c)) = uint (bNumInterfaces c)" by simp
    ultimately show "uint (bNumInterfaces c) \<le> 32" using assms(1) unfolding config_wf_def by linarith
  qed
  let ?c0 = "c\<lparr>interface := None\<rparr>"
  have c0: "store_config [(0, Byte 9), (1, Byte 2), (2, Half (wTotalLength c)), (4, Byte (bNumInterfaces c)), (5, Byte (bConfigurationValue c)),
      (6, Byte (iConfiguration c)), (7, Byte (cf_bmAttributes c)), (8, Byte (MaxPower c))] zero_config = ?c0"
    using assms(1) by (simp add: store_config_def zero_config_def byte_at_def half_at_def config_wf_def usb_types)
  obtain m1 m2 where m1: "m_alloc m = (True, m1)" "m_alloc m1 = (True, m2)" "\<forall>j. avail m2 j"
    using assms(2) by (auto simp: m_alloc_def Let_def)
  obtain m3 where m3: "live m3 = live m2 + sum_list (map itf_blocks ?itfs)" "parse_interfaces (put_config c) 9 (int (length ?ib)) 0 (length ?itfs)
      (replicate (length ?itfs) zero_interface) ?c0 m2 = Inr (0, ?c0\<lparr>interface := Some ?itfs\<rparr>, m3)"
    using parse_put_interfaces [OF _ h(2) m1(3), of _ ?c0 "[]"] assms(1) by (auto simp: config_wf_def)
  have c: "?c0\<lparr>interface := Some ?itfs\<rparr> = c" using assms(1) by (auto simp: config_wf_def interfaces_of_def)
  define L where "L = int (length (put_config c))"
  have L: "L - 9 = int (length ?ib)" "\<not> L < 9" unfolding L_def put by simp_all
  have "cf_bLength c = 9" "cf_bDescriptorType c = 2" using assms(1) by (simp_all add: config_wf_def usb_types)
  then have "parse_configuration zero_config (put_config c) 0 L m1 = Inr (0, c, m3)"
    using n m3(2) L m1(2) unfolding parse_configuration_def Let_def parse_header [OF h(1)] word_split rbind_simps c0 c
    by (simp add: usb_consts usb_types)
  then have conf: "parse_configuration zero_config (put_config c) 0 L m1 = Inr (0, c, m3)" .
  then have raw: "raw_desc_to_config (put_config c) L m = Inr (LIBUSB_SUCCESS, Some c, m3)"
    using m1(1) by (simp add: raw_desc_to_config_def)
  have "config_post L (live m1) (0, c, m3)" using spec_configuration [of False "put_config c" L m1] conf by simp
  then have "config_ok c" by (simp add: config_post_def)
  moreover have "config_blocks c = 1 + sum_list (map itf_blocks ?itfs)"
    using assms(1) by (auto simp: config_blocks_def config_wf_def interfaces_of_def)
  ultimately have "live (libusb_free_config_descriptor (Some c) m3) = live m"
    using m3(1) m_alloc_live [OF m1(1)] m_alloc_live [OF m1(2)]
    by (simp add: libusb_free_config_descriptor_def m_free_def clear_configuration_live)
  then show ?thesis using raw unfolding L_def by blast
qed


lemma free_live_cong:
  "config_ok c \<Longrightarrow> live (libusb_free_config_descriptor (Some c) (m_free True m)) = live (libusb_free_config_descriptor (Some c) m) - 1"
  by (simp add: libusb_free_config_descriptor_def m_free_def clear_configuration_live)

text \<open>
  C3. Round trip: if a device sends a well-formed configuration (any number of interfaces up to 32,
  any settings and endpoints, audio endpoints included, total length right) and memory suffices, the
  library gives back exactly that configuration, field for field, and freeing it releases every block.
\<close>

theorem config_roundtrip:
  assumes "config_wf c" "uint (wTotalLength c) = int (length (put_config c))" "\<forall>j. avail m j"
  shows "\<exists>m'. libusb_get_active_config_descriptor (device (put_config c)) m = Inr (0, Some c, m') \<and>
    live (libusb_free_config_descriptor (Some c) m') = live m"
proof -
  let ?bs = "put_config c" and ?L = "int (length (put_config c))"
  have head: "get_active_config_descriptor (device ?bs) LIBUSB_DT_CONFIG_SIZE = (9, take 9 ?bs)"
    "get_active_config_descriptor (device ?bs) ?L = (?L, ?bs)"
    using length_put_config [of c] by (auto simp: get_active_config_descriptor_def device_def replay_def usb_consts)
  have len: "READ_LE16 (take 9 ?bs) 2 = Inr (wTotalLength c)"
    by (simp add: put_config_def put_word_def READ_LE16_def aread_def in_range_def word_split)
  obtain m1 where m1: "m_alloc m = (True, m1)" "\<forall>j. avail m1 j" using assms(3) by (auto simp: m_alloc_def Let_def)
  obtain m' where m': "raw_desc_to_config ?bs ?L m1 = Inr (LIBUSB_SUCCESS, Some c, m')"
    "live (libusb_free_config_descriptor (Some c) m') = live m1" using raw_put_config [OF assms(1) m1(2)] by blast
  have "config_ok c" using spec_raw [of False ?bs ?L m1] m'(1) by (simp add: whole_post_def)
  then have "live (libusb_free_config_descriptor (Some c) (m_free True m')) = live m"
    using m'(2) m_alloc_live [OF m1(1)] free_live_cong by simp
  moreover have "libusb_get_active_config_descriptor (device ?bs) m = Inr (0, Some c, m_free True m')"
    using head len m1(1) m'(1) assms(2)
    by (simp add: libusb_get_active_config_descriptor_def fetch_whole_def LIBUSB_SUCCESS_def)
  ultimately show ?thesis by blast
qed


text \<open>A headset: a control interface with one endpoint, an audio interface with an empty and a full setting.\<close>

definition headset_endpoint :: "byte \<Rightarrow> byte \<Rightarrow> libusb_endpoint_descriptor" where
  "headset_endpoint n a = zero_endpoint\<lparr>ep_bLength := n, ep_bDescriptorType := 5, bEndpointAddress := a, ep_bmAttributes := 3,
     wMaxPacketSize := 0x0140, bInterval := 10\<rparr>"

definition headset_setting :: "byte \<Rightarrow> byte \<Rightarrow> libusb_endpoint_descriptor list \<Rightarrow> libusb_interface_descriptor" where
  "headset_setting i alt eps = \<lparr>if_bLength = 9, if_bDescriptorType = 4, bInterfaceNumber = i, bAlternateSetting = alt,
     bNumEndpoints = word_of_nat (length eps), bInterfaceClass = 1, bInterfaceSubClass = 2, bInterfaceProtocol = 0, iInterface = 0,
     endpoint = (if eps = [] then None else Some eps), if_extra = None, if_extra_length = 0\<rparr>"

definition headset :: libusb_config_descriptor where
  "headset = zero_config\<lparr>cf_bLength := 9, cf_bDescriptorType := 2, wTotalLength := 52, bNumInterfaces := 2, bConfigurationValue := 1,
     cf_bmAttributes := 0x80, MaxPower := 50, interface := Some
       [\<lparr>alt_block = True, altsetting = [headset_setting 0 0 [headset_endpoint 7 0x81]]\<rparr>,
        \<lparr>alt_block = True, altsetting = [headset_setting 1 0 [], headset_setting 1 1 [(headset_endpoint 9 0x02)\<lparr>bSynchAddress := 0x83\<rparr>]]\<rparr>]\<rparr>"

theorem config_roundtrip_witness:
  "\<exists>m'. libusb_get_active_config_descriptor (device (put_config headset)) plenty = Inr (0, Some headset, m') \<and>
    live (libusb_free_config_descriptor (Some headset) m') = 0"
proof -
  have "config_wf headset"
    by (simp add: headset_def config_wf_def headset_setting_def headset_endpoint_def interfaces_of_def interface_wf_def setting_wf_def
        endpoints_of_def endpoint_wf_def zero_config_def zero_endpoint_def usb_types)
  moreover have "uint (wTotalLength headset) = int (length (put_config headset))"
    by (simp add: headset_def put_config_def put_word_def interfaces_of_def put_interface_def put_setting_def headset_setting_def
        endpoints_of_def put_endpoint_def headset_endpoint_def zero_config_def zero_endpoint_def)
  ultimately show ?thesis using config_roundtrip [of headset plenty] by (simp add: plenty_def)
qed

end
