(* ===== verification/UsbBos.thy ===== *)
theory UsbBos
  imports UsbCodec
begin

unbundle bit_operations_syntax

text \<open>
  The descriptors of the USB library that are fetched over the control pipe (\<open>libusb/descriptor.c\<close>, last
  part, with \<open>libusb_get_descriptor\<close> and \<open>libusb_get_string_descriptor\<close> of \<open>libusb.h\<close>): the Binary Object
  Store and its capabilities, the companion of an endpoint, and strings. A control transfer is a
  parameter: for a request it gives the return code and the buffer afterwards.
\<close>

section \<open>Requests\<close>

definition LIBUSB_ENDPOINT_IN :: byte where "LIBUSB_ENDPOINT_IN = 0x80"
definition LIBUSB_REQUEST_GET_DESCRIPTOR :: byte where "LIBUSB_REQUEST_GET_DESCRIPTOR = 6"
definition LIBUSB_BT_USB_2_0_EXTENSION :: byte where "LIBUSB_BT_USB_2_0_EXTENSION = 2"
definition LIBUSB_BT_SS_USB_DEVICE_CAPABILITY :: byte where "LIBUSB_BT_SS_USB_DEVICE_CAPABILITY = 3"
definition LIBUSB_BT_CONTAINER_ID :: byte where "LIBUSB_BT_CONTAINER_ID = 4"

record control_setup =
  bmRequestType :: byte
  bRequest :: byte
  wValue :: "16 word"
  wIndex :: "16 word"
  wLength :: "16 word"

text \<open>The buffer before the transfer is the second argument: bytes beyond those received keep their values.\<close>

type_synonym pipe = "control_setup \<Rightarrow> byte list \<Rightarrow> int \<times> byte list"

definition libusb_get_descriptor :: "pipe \<Rightarrow> byte \<Rightarrow> byte \<Rightarrow> byte list \<Rightarrow> int \<Rightarrow> int \<times> byte list" where
  "libusb_get_descriptor control_transfer desc_type desc_index dat len =
     control_transfer \<lparr>bmRequestType = LIBUSB_ENDPOINT_IN, bRequest = LIBUSB_REQUEST_GET_DESCRIPTOR,
       wValue = push_bit 8 (ucast desc_type) OR ucast desc_index, wIndex = 0, wLength = word_of_int len\<rparr> dat"

definition libusb_get_string_descriptor :: "pipe \<Rightarrow> byte \<Rightarrow> 16 word \<Rightarrow> byte list \<Rightarrow> int \<Rightarrow> int \<times> byte list" where
  "libusb_get_string_descriptor control_transfer desc_index langid dat len =
     control_transfer \<lparr>bmRequestType = LIBUSB_ENDPOINT_IN, bRequest = LIBUSB_REQUEST_GET_DESCRIPTOR,
       wValue = push_bit 8 (ucast LIBUSB_DT_STRING) OR ucast desc_index, wIndex = langid, wLength = word_of_int len\<rparr> dat"

section \<open>Endpoint companions\<close>

record libusb_ss_endpoint_companion_descriptor =
  ss_bLength :: byte
  ss_bDescriptorType :: byte
  bMaxBurst :: byte
  ss_bmAttributes :: byte
  wBytesPerInterval :: "16 word"

definition companion_of :: "(int \<times> field) list \<Rightarrow> libusb_ss_endpoint_companion_descriptor" where
  "companion_of ws = \<lparr>ss_bLength = byte_at ws 0 0, ss_bDescriptorType = byte_at ws 1 0, bMaxBurst = byte_at ws 2 0,
     ss_bmAttributes = byte_at ws 3 0, wBytesPerInterval = half_at ws 4 0\<rparr>"

function find_companion :: "byte list \<Rightarrow> int \<Rightarrow> int \<Rightarrow> mem \<Rightarrow> (int \<times> libusb_ss_endpoint_companion_descriptor option \<times> mem) res" where
  "find_companion buf p sz m =
     (if sz \<ge> DESC_HEADER_LENGTH
      then rbind (aread buf (p + 1)) (\<lambda>bDescriptorType.
           rbind (aread buf p) (\<lambda>bLength.
           if bDescriptorType \<noteq> LIBUSB_DT_SS_ENDPOINT_COMPANION
           then if uint bLength < DESC_HEADER_LENGTH then Inr (LIBUSB_ERROR_IO, None, m)
             else find_companion buf (p + uint bLength) (sz - uint bLength) m
           else if uint bLength < LIBUSB_DT_SS_ENDPOINT_COMPANION_SIZE then Inr (LIBUSB_ERROR_IO, None, m)
           else if uint bLength > sz then Inr (LIBUSB_ERROR_IO, None, m)
           else (let (ok, m1) = m_alloc m in
             if \<not> ok then Inr (LIBUSB_ERROR_NO_MEM, None, m1)
             else rbind (parse_descriptor buf p ''bbbbw'' 0) (\<lambda>ws. Inr (LIBUSB_SUCCESS, Some (companion_of ws), m1)))))
      else Inr (LIBUSB_ERROR_NOT_FOUND, None, m))"
  by pat_completeness auto
termination
  by (relation "measure (\<lambda>(buf, p, sz, m). nat sz)") (auto simp: DESC_HEADER_LENGTH_def)

declare find_companion.simps [simp del]

definition libusb_get_ss_endpoint_companion_descriptor :: "libusb_endpoint_descriptor \<Rightarrow> mem \<Rightarrow>
    (int \<times> libusb_ss_endpoint_companion_descriptor option \<times> mem) res" where
  "libusb_get_ss_endpoint_companion_descriptor ep m =
     find_companion (case ep_extra ep of None \<Rightarrow> [] | Some extra \<Rightarrow> extra) 0 (ep_extra_length ep) m"

definition libusb_free_ss_endpoint_companion_descriptor :: "libusb_ss_endpoint_companion_descriptor option \<Rightarrow> mem \<Rightarrow> mem" where
  "libusb_free_ss_endpoint_companion_descriptor ep_comp m = m_free (ep_comp \<noteq> None) m"

section \<open>The Binary Object Store\<close>

record libusb_bos_descriptor =
  bos_bLength :: byte
  bos_bDescriptorType :: byte
  bos_wTotalLength :: "16 word"
  bNumDeviceCaps :: byte
  dev_capability :: "byte list option list"

definition bos_of :: "(int \<times> field) list \<Rightarrow> nat \<Rightarrow> libusb_bos_descriptor" where
  "bos_of ws n = \<lparr>bos_bLength = byte_at ws 0 0, bos_bDescriptorType = byte_at ws 1 0, bos_wTotalLength = half_at ws 2 0,
     bNumDeviceCaps = byte_at ws 4 0, dev_capability = replicate n None\<rparr>"

fun free_caps :: "byte list option list \<Rightarrow> mem \<Rightarrow> mem" where
  "free_caps [] m = m"
| "free_caps (c # cs) m = free_caps cs (m_free (c \<noteq> None) m)"

definition libusb_free_bos_descriptor :: "libusb_bos_descriptor option \<Rightarrow> mem \<Rightarrow> mem" where
  "libusb_free_bos_descriptor bos m =
     (case bos of None \<Rightarrow> m
      | Some b \<Rightarrow> m_free True (free_caps (take (unat (bNumDeviceCaps b)) (dev_capability b)) m))"

text \<open>The loop over the capabilities: a code with the structure, which it has freed on an error.\<close>

function parse_caps :: "byte list \<Rightarrow> int \<Rightarrow> int \<Rightarrow> nat \<Rightarrow> nat \<Rightarrow> libusb_bos_descriptor \<Rightarrow> mem \<Rightarrow>
    (int \<times> libusb_bos_descriptor option \<times> mem) res" where
  "parse_caps buf p sz i n bos m =
     (let stop = Inr (LIBUSB_SUCCESS, Some (bos\<lparr>bNumDeviceCaps := word_of_nat i\<rparr>), m) in
      if i < n
      then if sz < LIBUSB_DT_DEVICE_CAPABILITY_SIZE then stop
        else rbind (aread buf (p + 1)) (\<lambda>bDescriptorType.
        if bDescriptorType \<noteq> LIBUSB_DT_DEVICE_CAPABILITY then stop
        else rbind (aread buf p) (\<lambda>bLength.
        if uint bLength < LIBUSB_DT_DEVICE_CAPABILITY_SIZE
        then Inr (LIBUSB_ERROR_IO, None, libusb_free_bos_descriptor (Some bos) m)
        else if uint bLength > sz then stop
        else (let (ok, m1) = m_alloc m in
          if \<not> ok then Inr (LIBUSB_ERROR_NO_MEM, None, libusb_free_bos_descriptor (Some bos) m1)
          else rbind (read_bytes buf p (uint bLength)) (\<lambda>bs.
            parse_caps buf (p + uint bLength) (sz - uint bLength) (Suc i) n
              (bos\<lparr>dev_capability := (dev_capability bos)[i := Some bs]\<rparr>) m1))))
      else stop)"
  by pat_completeness auto
termination
  by (relation "measure (\<lambda>(buf, p, sz, i, n, bos, m). n - i)") auto

declare parse_caps.simps [simp del]

definition parse_bos :: "byte list \<Rightarrow> int \<Rightarrow> mem \<Rightarrow> (int \<times> libusb_bos_descriptor option \<times> mem) res" where
  "parse_bos buf sz m =
     (if sz < LIBUSB_DT_BOS_SIZE then Inr (LIBUSB_ERROR_IO, None, m)
      else rbind (aread buf 1) (\<lambda>bDescriptorType.
      if bDescriptorType \<noteq> LIBUSB_DT_BOS then Inr (LIBUSB_ERROR_IO, None, m)
      else rbind (aread buf 0) (\<lambda>bLength.
      if uint bLength < LIBUSB_DT_BOS_SIZE then Inr (LIBUSB_ERROR_IO, None, m)
      else if uint bLength > sz then Inr (LIBUSB_ERROR_IO, None, m)
      else rbind (aread buf 4) (\<lambda>numDeviceCaps.
      let (ok, m1) = m_alloc m in
      if \<not> ok then Inr (LIBUSB_ERROR_NO_MEM, None, m1)
      else rbind (parse_descriptor buf 0 ''bbwb'' 0) (\<lambda>ws.
        let bos = bos_of ws (unat numDeviceCaps) in
        parse_caps buf (uint (bos_bLength bos)) (sz - uint (bos_bLength bos)) 0 (unat (bNumDeviceCaps bos)) bos m1)))))"

definition libusb_get_bos_descriptor :: "pipe \<Rightarrow> byte list \<Rightarrow> mem \<Rightarrow> (int \<times> libusb_bos_descriptor option \<times> mem) res" where
  \<comment> \<open>the second argument is what the buffer for the header held before\<close>
  "libusb_get_bos_descriptor dev_handle stack m =
     (let (r, head) = libusb_get_descriptor dev_handle LIBUSB_DT_BOS 0 stack LIBUSB_DT_BOS_SIZE in
      if r < 0 then Inr (r, None, m)
      else if r < LIBUSB_DT_BOS_SIZE then Inr (LIBUSB_ERROR_IO, None, m)
      else rbind (READ_LE16 head 2) (\<lambda>bos_len.
      let (ok, m1) = m_alloc m in
      if \<not> ok then Inr (LIBUSB_ERROR_NO_MEM, None, m1)
      else (let (r2, bos_data) = libusb_get_descriptor dev_handle LIBUSB_DT_BOS 0 (replicate (unat bos_len) 0) (uint bos_len) in
        rbind (if r2 \<ge> 0 then parse_bos bos_data r2 m1 else Inr (r2, None, m1)) (\<lambda>(r3, bos, m2).
        Inr (r3, bos, m_free True m2)))))"

section \<open>Capabilities\<close>

record libusb_usb_2_0_extension_descriptor =
  ext_bLength :: byte
  ext_bDescriptorType :: byte
  ext_bDevCapabilityType :: byte
  ext_bmAttributes :: "32 word"

record libusb_ss_usb_device_capability_descriptor =
  sc_bLength :: byte
  sc_bDescriptorType :: byte
  sc_bDevCapabilityType :: byte
  sc_bmAttributes :: byte
  wSpeedSupported :: "16 word"
  bFunctionalitySupport :: byte
  bU1DevExitLat :: byte
  bU2DevExitLat :: "16 word"

record libusb_container_id_descriptor =
  ci_bLength :: byte
  ci_bDescriptorType :: byte
  ci_bDevCapabilityType :: byte
  bReserved :: byte
  ContainerID :: "byte list"

definition extension_of :: "(int \<times> field) list \<Rightarrow> libusb_usb_2_0_extension_descriptor" where
  "extension_of ws = \<lparr>ext_bLength = byte_at ws 0 0, ext_bDescriptorType = byte_at ws 1 0,
     ext_bDevCapabilityType = byte_at ws 2 0, ext_bmAttributes = full_at ws 4 0\<rparr>"

definition ss_capability_of :: "(int \<times> field) list \<Rightarrow> libusb_ss_usb_device_capability_descriptor" where
  "ss_capability_of ws = \<lparr>sc_bLength = byte_at ws 0 0, sc_bDescriptorType = byte_at ws 1 0, sc_bDevCapabilityType = byte_at ws 2 0,
     sc_bmAttributes = byte_at ws 3 0, wSpeedSupported = half_at ws 4 0, bFunctionalitySupport = byte_at ws 6 0,
     bU1DevExitLat = byte_at ws 7 0, bU2DevExitLat = half_at ws 8 0\<rparr>"

definition container_of :: "(int \<times> field) list \<Rightarrow> libusb_container_id_descriptor" where
  "container_of ws = \<lparr>ci_bLength = byte_at ws 0 0, ci_bDescriptorType = byte_at ws 1 0, ci_bDevCapabilityType = byte_at ws 2 0,
     bReserved = byte_at ws 3 0, ContainerID = uuid_at ws 4 []\<rparr>"

definition libusb_get_usb_2_0_extension_descriptor :: "byte list \<Rightarrow> mem \<Rightarrow> (int \<times> libusb_usb_2_0_extension_descriptor option \<times> mem) res" where
  "libusb_get_usb_2_0_extension_descriptor dev_cap m =
     rbind (aread dev_cap 2) (\<lambda>bDevCapabilityType.
     if bDevCapabilityType \<noteq> LIBUSB_BT_USB_2_0_EXTENSION then Inr (LIBUSB_ERROR_INVALID_PARAM, None, m)
     else rbind (aread dev_cap 0) (\<lambda>bLength.
     if uint bLength < LIBUSB_BT_USB_2_0_EXTENSION_SIZE then Inr (LIBUSB_ERROR_IO, None, m)
     else (let (ok, m1) = m_alloc m in
       if \<not> ok then Inr (LIBUSB_ERROR_NO_MEM, None, m1)
       else rbind (parse_descriptor dev_cap 0 ''bbbd'' 0) (\<lambda>ws. Inr (LIBUSB_SUCCESS, Some (extension_of ws), m1)))))"

definition libusb_get_ss_usb_device_capability_descriptor :: "byte list \<Rightarrow> mem \<Rightarrow>
    (int \<times> libusb_ss_usb_device_capability_descriptor option \<times> mem) res" where
  "libusb_get_ss_usb_device_capability_descriptor dev_cap m =
     rbind (aread dev_cap 2) (\<lambda>bDevCapabilityType.
     if bDevCapabilityType \<noteq> LIBUSB_BT_SS_USB_DEVICE_CAPABILITY then Inr (LIBUSB_ERROR_INVALID_PARAM, None, m)
     else rbind (aread dev_cap 0) (\<lambda>bLength.
     if uint bLength < LIBUSB_BT_SS_USB_DEVICE_CAPABILITY_SIZE then Inr (LIBUSB_ERROR_IO, None, m)
     else (let (ok, m1) = m_alloc m in
       if \<not> ok then Inr (LIBUSB_ERROR_NO_MEM, None, m1)
       else rbind (parse_descriptor dev_cap 0 ''bbbbwbbw'' 0) (\<lambda>ws. Inr (LIBUSB_SUCCESS, Some (ss_capability_of ws), m1)))))"

definition libusb_get_container_id_descriptor :: "byte list \<Rightarrow> mem \<Rightarrow> (int \<times> libusb_container_id_descriptor option \<times> mem) res" where
  "libusb_get_container_id_descriptor dev_cap m =
     rbind (aread dev_cap 2) (\<lambda>bDevCapabilityType.
     if bDevCapabilityType \<noteq> LIBUSB_BT_CONTAINER_ID then Inr (LIBUSB_ERROR_INVALID_PARAM, None, m)
     else rbind (aread dev_cap 0) (\<lambda>bLength.
     if uint bLength < LIBUSB_BT_CONTAINER_ID_SIZE then Inr (LIBUSB_ERROR_IO, None, m)
     else (let (ok, m1) = m_alloc m in
       if \<not> ok then Inr (LIBUSB_ERROR_NO_MEM, None, m1)
       else rbind (parse_descriptor dev_cap 0 ''bbbbu'' 0) (\<lambda>ws. Inr (LIBUSB_SUCCESS, Some (container_of ws), m1)))))"

text \<open>Freeing any of the three.\<close>

definition libusb_free_usb_2_0_extension_descriptor :: "libusb_usb_2_0_extension_descriptor option \<Rightarrow> mem \<Rightarrow> mem" where
  "libusb_free_usb_2_0_extension_descriptor d m = m_free (d \<noteq> None) m"

definition libusb_free_ss_usb_device_capability_descriptor :: "libusb_ss_usb_device_capability_descriptor option \<Rightarrow> mem \<Rightarrow> mem" where
  "libusb_free_ss_usb_device_capability_descriptor d m = m_free (d \<noteq> None) m"

definition libusb_free_container_id_descriptor :: "libusb_container_id_descriptor option \<Rightarrow> mem \<Rightarrow> mem" where
  "libusb_free_container_id_descriptor d m = m_free (d \<noteq> None) m"

section \<open>Strings\<close>

text \<open>
  The string is converted into a buffer of the caller: the position reached and the buffer. Strings are
  read through the union of 256 bytes (255 and the padding).
\<close>

function ascii_loop :: "byte list \<Rightarrow> int \<Rightarrow> int \<Rightarrow> int \<Rightarrow> int \<Rightarrow> byte list \<Rightarrow> (int \<times> byte list) res" where
  "ascii_loop str bLength len si di dat =
     (if si < bLength \<and> \<not> di \<ge> len - 1
      then rbind (READ_LE16 str (2 + 2 * di)) (\<lambda>wdata.
           rbind (awrite dat di (if wdata < 0x80 then ucast wdata else 0x3F)) (\<lambda>dat1.
           ascii_loop str bLength len (si + 2) (di + 1) dat1))
      else Inr (di, dat))"
  by pat_completeness auto
termination
  by (relation "measure (\<lambda>(str, bLength, len, si, di, dat). nat (bLength - si))") auto

declare ascii_loop.simps [simp del]

definition libusb_get_string_descriptor_ascii :: "pipe \<Rightarrow> byte list \<Rightarrow> byte \<Rightarrow> byte list \<Rightarrow> int \<Rightarrow> (int \<times> byte list) res" where
  "libusb_get_string_descriptor_ascii dev_handle stack desc_index dat len =
     (if desc_index = 0 then Inr (LIBUSB_ERROR_INVALID_PARAM, dat)
      else (let (r, str) = libusb_get_string_descriptor dev_handle 0 0 stack 4 in
      if r < 0 then Inr (r, dat)
      else rbind (aread str 0) (\<lambda>bLength.
      if r \<noteq> 4 \<or> uint bLength < 4 then Inr (LIBUSB_ERROR_IO, dat)
      else rbind (aread str 1) (\<lambda>bDescriptorType.
      if bDescriptorType \<noteq> LIBUSB_DT_STRING then Inr (LIBUSB_ERROR_IO, dat)
      else rbind (READ_LE16 str 2) (\<lambda>langid.
      let (r2, str2) = libusb_get_string_descriptor dev_handle desc_index langid str 255 in
      if r2 < 0 then Inr (r2, dat)
      else rbind (aread str2 0) (\<lambda>bLength2.
      if r2 < DESC_HEADER_LENGTH \<or> uint bLength2 > r2 then Inr (LIBUSB_ERROR_IO, dat)
      else rbind (aread str2 1) (\<lambda>bDescriptorType2.
      if bDescriptorType2 \<noteq> LIBUSB_DT_STRING then Inr (LIBUSB_ERROR_IO, dat)
      else rbind (ascii_loop str2 (uint bLength2) len 2 0 dat) (\<lambda>(di, dat1).
      rbind (awrite dat1 di 0) (\<lambda>dat2. Inr (di, dat2))))))))))"


section \<open>What the parsers promise\<close>

definition cap_ok :: "byte list \<Rightarrow> bool" where
  "cap_ok bs \<longleftrightarrow> 3 \<le> length bs \<and> uint (bs ! 0) = int (length bs)"

definition bos_ok :: "libusb_bos_descriptor \<Rightarrow> bool" where
  "bos_ok b \<longleftrightarrow> unat (bNumDeviceCaps b) \<le> length (dev_capability b) \<and>
     (\<forall>i < unat (bNumDeviceCaps b). \<exists>bs. dev_capability b ! i = Some bs \<and> cap_ok bs)"

definition filled :: "nat \<Rightarrow> nat \<Rightarrow> byte list option list \<Rightarrow> bool" where
  "filled i n cs \<longleftrightarrow> length cs = n \<and> (\<forall>j < i. \<exists>bs. cs ! j = Some bs \<and> cap_ok bs) \<and> (\<forall>j. i \<le> j \<and> j < n \<longrightarrow> cs ! j = None)"

lemma free_caps_live: "live (free_caps cs m) = live m - sum_list (map is_some cs)"
  by (induction cs m rule: free_caps.induct) (auto simp: m_free_def is_some_def)

lemma filled_blocks: "filled i n cs \<Longrightarrow> i \<le> k \<Longrightarrow> k \<le> n \<Longrightarrow> sum_list (map is_some (take k cs)) = sum_list (map is_some cs)"
proof -
  assume f: "filled i n cs" "i \<le> k" "k \<le> n"
  have "sum_list (map is_some (drop k cs)) = 0"
    using f by (intro sum_list_zero) (auto simp: filled_def in_set_conv_nth)
  then show ?thesis by (metis append_take_drop_id map_append sum_list_append add.right_neutral)
qed

lemma filled_step: "filled i n cs \<Longrightarrow> i < n \<Longrightarrow> cap_ok bs \<Longrightarrow>
    filled (Suc i) n (cs[i := Some bs]) \<and> sum_list (map is_some (cs[i := Some bs])) = sum_list (map is_some cs) + 1"
  using sum_list_set [of i cs is_some "Some bs"] by (auto simp: filled_def nth_list_update less_Suc_eq)

lemma unat_word_small: "n \<le> 255 \<Longrightarrow> unat (word_of_nat n :: byte) = n"
  by (simp add: unsigned_of_nat take_bit_nat_eq_self)

definition bos_post :: "int \<Rightarrow> int \<times> libusb_bos_descriptor option \<times> mem \<Rightarrow> bool" where
  "bos_post l0 = (\<lambda>(r, bos, m'). case bos of None \<Rightarrow> codes r \<and> live m' = l0
     | Some b \<Rightarrow> r = LIBUSB_SUCCESS \<and> bos_ok b \<and> live (libusb_free_bos_descriptor (Some b) m') = l0)"

lemma bos_stops:
  assumes "filled i n (dev_capability bos)" "i \<le> n" "n \<le> 255" "live m = l0 + 1 + sum_list (map is_some (dev_capability bos))"
  shows "bos_post l0 (LIBUSB_SUCCESS, Some (bos\<lparr>bNumDeviceCaps := word_of_nat i\<rparr>), m)"
  using assms filled_blocks [OF assms(1) order_refl assms(2)] unat_word_small [of i]
  by (auto simp: bos_post_def bos_ok_def filled_def libusb_free_bos_descriptor_def m_free_def free_caps_live)

lemma bos_fails:
  assumes "filled i n (dev_capability bos)" "bNumDeviceCaps bos = word_of_nat n" "n \<le> 255" "codes r"
    and "live m = l0 + 1 + sum_list (map is_some (dev_capability bos))"
  shows "bos_post l0 (r, None, libusb_free_bos_descriptor (Some bos) m)"
  using assms unat_word_small [of n]
  by (simp add: bos_post_def filled_def libusb_free_bos_descriptor_def m_free_def free_caps_live)

lemma spec_read_cap:
  assumes "t \<Longrightarrow> inside buf p (uint l)" "aread buf p = Inr l" "3 \<le> uint l" "\<And>bs. cap_ok bs \<Longrightarrow> P bs"
  shows "meets t (read_bytes buf p (uint l)) P"
proof -
  obtain k where k: "uint l = int k" using nonneg_int_cases [of "uint l"] by auto
  have "cap_ok (take (nat (uint l)) (drop (nat p) buf))" if "0 \<le> p" "p + uint l \<le> int (length buf)"
    using that assms(2,3) unfolding k by (auto simp: cap_ok_def aread_def in_range_def k split: if_splits)
  then show ?thesis using assms(1,4) by (auto simp: meets_def read_bytes_def inside_def)
qed

lemma spec_read_known: "(t \<Longrightarrow> in_range xs i) \<Longrightarrow> (\<And>x. aread xs i = Inr x \<Longrightarrow> P x) \<Longrightarrow> meets t (aread xs i) P"
  by (cases "aread xs i") (auto simp: meets_def)

lemma spec_caps:
  assumes "t \<Longrightarrow> inside buf p sz" "i \<le> n" "n \<le> 255" "filled i n (dev_capability bos)" "bNumDeviceCaps bos = word_of_nat n"
    and "live m = l0 + 1 + sum_list (map is_some (dev_capability bos))"
  shows "meets t (parse_caps buf p sz i n bos m) (bos_post l0)"
  using assms
proof (induction "n - i" arbitrary: i p sz bos m)
  case 0
  then show ?case by (subst parse_caps.simps) (simp add: bos_stops)
next
  case (Suc d)
  then have i: "i < n" by simp
  note stop = bos_stops [OF Suc.prems(4,2,3,6)]
  note fail = bos_fails [OF Suc.prems(4,5,3)]
  have a: "t \<Longrightarrow> in_range buf p" "t \<Longrightarrow> in_range buf (p + 1)" if "\<not> sz < LIBUSB_DT_DEVICE_CAPABILITY_SIZE"
    using Suc.prems(1) that inside_read [of buf p sz 0] inside_read [of buf p sz 1] by (simp_all add: usb_consts)
  have rec: "meets t (case m_alloc m of (ok, m1) \<Rightarrow>
      if \<not> ok then Inr (LIBUSB_ERROR_NO_MEM, None, libusb_free_bos_descriptor (Some bos) m1)
      else rbind (read_bytes buf p (uint l)) (\<lambda>bs. parse_caps buf (p + uint l) (sz - uint l) (Suc i) n
        (bos\<lparr>dev_capability := (dev_capability bos)[i := Some bs]\<rparr>) m1)) (bos_post l0)"
    if l: "aread buf p = Inr l" "\<not> uint l < LIBUSB_DT_DEVICE_CAPABILITY_SIZE" "\<not> uint l > sz" for l
  proof (intro spec_splitI spec_ifI spec_InrI spec_rbindI spec_read_cap)
    show "t \<Longrightarrow> inside buf p (uint l)" using Suc.prems(1) l by (simp add: inside_def)
    show "aread buf p = Inr l" "3 \<le> uint l" using l by (simp_all add: usb_consts)
    fix ok m1 assume m1: "m_alloc m = (ok, m1)"
    show "bos_post l0 (LIBUSB_ERROR_NO_MEM, None, libusb_free_bos_descriptor (Some bos) m1)" if "\<not> ok"
      using that m_alloc_live [OF m1] Suc.prems(6) by (intro fail) (simp_all add: codes_def)
    show "meets t (parse_caps buf (p + uint l) (sz - uint l) (Suc i) n (bos\<lparr>dev_capability := (dev_capability bos)[i := Some bs]\<rparr>) m1)
        (bos_post l0)" if "\<not> \<not> ok" "cap_ok bs" for bs
      using that i l m_alloc_live [OF m1] Suc.hyps(2) Suc.prems filled_step [OF Suc.prems(4) i that(2)]
      by (intro Suc.hyps(1)) (auto intro: inside_rest)
  qed
  show ?case unfolding parse_caps.simps [of buf p sz i n bos m] Let_def if_P [OF i]
    by (intro spec_ifI spec_InrI spec_rbindI spec_read_known stop fail rec a) (use Suc.prems(6) in \<open>simp_all add: codes_def\<close>)
qed


lemma spec_parse_bos:
  assumes "t \<Longrightarrow> inside buf 0 sz"
  shows "meets t (parse_bos buf sz m) (bos_post (live m))"
proof (cases "sz < LIBUSB_DT_BOS_SIZE")
  case True
  then show ?thesis by (simp add: parse_bos_def bos_post_def codes_def)
next
  case sz: False
  have a: "t \<Longrightarrow> in_range buf 0" "t \<Longrightarrow> in_range buf 1" "t \<Longrightarrow> in_range buf 4" "t \<Longrightarrow> inside buf 0 (format_size ''bbwb'')"
    using assms sz by (auto simp: inside_def in_range_def usb_consts)
  show ?thesis unfolding parse_bos_def Let_def if_not_P [OF sz]
  proof (intro spec_ifI spec_InrI spec_rbindI spec_splitI spec_read_known a)
    fix l c ok m1
    assume l: "aread buf 0 = Inr l" "\<not> uint l < LIBUSB_DT_BOS_SIZE" "\<not> uint l > sz" and c: "aread buf 4 = Inr c"
      and m1: "m_alloc m = (ok, m1)" "\<not> \<not> ok"
    show "meets t (parse_descriptor buf 0 ''bbwb'' 0) (\<lambda>ws. meets t (parse_caps buf (uint (bos_bLength (bos_of ws (unat c))))
        (sz - uint (bos_bLength (bos_of ws (unat c)))) 0 (unat (bNumDeviceCaps (bos_of ws (unat c)))) (bos_of ws (unat c)) m1) (bos_post (live m)))"
    proof (cases "parse_descriptor buf 0 ''bbwb'' 0")
      case (Inl e)
      then show ?thesis using spec_parse [OF a(4), of t 0] by (simp add: meets_def)
    next
      case (Inr ws)
      then have "byte_at ws 0 0 = l" "byte_at ws 4 0 = c"
        using l(1) c by (auto simp: READ_LE16_def byte_at_def rbind_Inr_iff)
      then have "bos_bLength (bos_of ws (unat c)) = l" "bNumDeviceCaps (bos_of ws (unat c)) = c"
        "dev_capability (bos_of ws (unat c)) = replicate (unat c) None" by (simp_all add: bos_of_def)
      moreover have "unat c \<le> 255"
      proof -
        have "int (unat c) = uint c" by simp
        then show ?thesis using byte_bounds(3) [of c] by linarith
      qed
      moreover have "t \<Longrightarrow> inside buf (uint l) (sz - uint l)" using assms l by (auto simp: inside_def usb_consts)
      ultimately show ?thesis using Inr m_alloc_live [OF m1(1)] m1(2)
        by (simp, intro spec_caps) (auto simp: filled_def map_replicate_const sum_list_replicate)
    qed
  qed (use m_alloc_live [of m] in \<open>auto simp: bos_post_def codes_def\<close>)
qed

definition pipe_ok :: "pipe \<Rightarrow> bool" where
  \<comment> \<open>the contract of a control transfer: no more bytes than asked for, into the buffer given\<close>
  "pipe_ok dev \<longleftrightarrow> (\<forall>req buf. uint (wLength req) \<le> int (length buf) \<longrightarrow>
     fst (dev req buf) \<le> uint (wLength req) \<and> length (snd (dev req buf)) = length buf)"

lemma get_descriptor_ok:
  assumes "pipe_ok dev" "libusb_get_descriptor dev ty i buf n = (r, buf1)" "0 \<le> n" "n \<le> int (length buf)" "n < 65536"
  shows "r \<le> n" "length buf1 = length buf"
proof -
  have "uint (word_of_int n :: 16 word) = n" using assms(3,5) by (simp add: uint_word_of_int)
  then show "r \<le> n" "length buf1 = length buf"
    using assms(1,2,4) unfolding pipe_ok_def libusb_get_descriptor_def
    by (metis control_setup.select_convs(5) fst_conv, metis control_setup.select_convs(5) snd_conv)
qed

definition bos_fetched :: "mem \<Rightarrow> int \<times> libusb_bos_descriptor option \<times> mem \<Rightarrow> bool" where
  "bos_fetched m = (\<lambda>(r, bos, m'). case bos of None \<Rightarrow> r < 0 \<and> live m' = live m
     | Some b \<Rightarrow> r = 0 \<and> bos_ok b \<and> live (libusb_free_bos_descriptor (Some b) m') = live m)"

lemma free_bos_after: "bos_ok b \<Longrightarrow> live (libusb_free_bos_descriptor (Some b) (m_free True m)) = live (libusb_free_bos_descriptor (Some b) m) - 1"
  by (simp add: libusb_free_bos_descriptor_def m_free_def free_caps_live)

lemma bos_post_fetched:
  assumes "bos_post (live m + 1) (r, bos, m2)"
  shows "bos_fetched m (r, bos, m_free True m2)"
proof (cases bos)
  case None
  then show ?thesis using assms codes_neg [of r] by (simp add: bos_post_def bos_fetched_def m_free_def)
next
  case (Some b)
  then have "bos_ok b" "live (libusb_free_bos_descriptor (Some b) m2) = live m + 1" "r = 0"
    using assms by (simp_all add: bos_post_def LIBUSB_SUCCESS_def)
  then show ?thesis using Some free_bos_after [of b m2] by (simp add: bos_fetched_def)
qed

lemma spec_get_bos:
  assumes "pipe_ok dev" "5 \<le> length stack"
  shows "meets True (libusb_get_bos_descriptor dev stack m) (bos_fetched m)"
proof -
  have w: "uint (w :: 16 word) < 65536" for w using uint_lt2p [of w] by simp
  show ?thesis unfolding libusb_get_bos_descriptor_def Let_def READ_LE16_def
  proof (intro spec_splitI spec_ifI spec_InrI spec_rbindI spec_read_known)
    fix r hd5 assume hd: "libusb_get_descriptor dev LIBUSB_DT_BOS 0 stack LIBUSB_DT_BOS_SIZE = (r, hd5)"
    have "length hd5 = length stack" using get_descriptor_ok(2) [OF assms(1) hd] assms(2) by (simp add: usb_consts)
    then show "in_range hd5 (2 + 1)" "in_range hd5 2" using assms(2) by (simp_all add: in_range_def)
    fix x y ok m1
    let ?len = "push_bit 8 (ucast x) OR ucast y :: 16 word"
    assume m1: "m_alloc m = (ok, m1)" "\<not> \<not> ok"
    fix r2 dat assume d: "libusb_get_descriptor dev LIBUSB_DT_BOS 0 (replicate (unat ?len) 0) (uint ?len) = (r2, dat)"
    have n: "int (length (replicate (unat ?len) (0 :: byte))) = uint ?len" by simp
    have "r2 \<le> uint ?len" "int (length dat) = uint ?len"
      using get_descriptor_ok [OF assms(1) d _ _ w] n by simp_all
    then show "meets True (parse_bos dat r2 m1) (\<lambda>x. meets True (case x of (r3, bos, m2) \<Rightarrow> Inr (r3, bos, m_free True m2)) (bos_fetched m))"
      if "0 \<le> r2"
      using that m1(2) m_alloc_live [OF m1(1)]
      by (intro spec_mono [OF spec_parse_bos]) (auto simp: inside_def intro: bos_post_fetched)
  qed (use m_alloc_live [of m] in \<open>auto simp: bos_fetched_def usb_consts m_free_def\<close>)
qed

definition well_read :: "('a option \<Rightarrow> mem \<Rightarrow> mem) \<Rightarrow> mem \<Rightarrow> (int \<times> 'a option \<times> mem) res \<Rightarrow> bool" where
  "well_read free_it m res = (case res of Inl e \<Rightarrow> False | Inr (r, d, m') \<Rightarrow> (d = None \<longleftrightarrow> r < 0) \<and> live (free_it d m') = live m)"

definition readable :: "byte list \<Rightarrow> bool" where
  "readable bs \<longleftrightarrow> (\<forall>m. well_read libusb_free_usb_2_0_extension_descriptor m (libusb_get_usb_2_0_extension_descriptor bs m) \<and>
     well_read libusb_free_ss_usb_device_capability_descriptor m (libusb_get_ss_usb_device_capability_descriptor bs m) \<and>
     well_read libusb_free_container_id_descriptor m (libusb_get_container_id_descriptor bs m))"

lemma well_readI: "meets True res (\<lambda>(r, d, m'). (d = None \<longleftrightarrow> r < 0) \<and> live (free_it d m') = live m) \<Longrightarrow> well_read free_it m res"
  by (auto simp: well_read_def meets_def split: sum.splits)

lemma cap_readable:
  assumes "cap_ok bs"
  shows "readable bs"
proof -
  have a: "in_range bs 2" "in_range bs 0" using assms by (auto simp: cap_ok_def in_range_def)
  have fmt: "inside bs 0 n" if "aread bs 0 = Inr l" "\<not> uint l < n" "0 \<le> n" for l n
    using that assms by (auto simp: cap_ok_def inside_def aread_def split: if_splits)
  show ?thesis unfolding readable_def
  proof (intro allI conjI well_readI)
    fix m
    show "meets True (libusb_get_usb_2_0_extension_descriptor bs m) (\<lambda>(r, d, m'). (d = None) = (r < 0) \<and>
        live (libusb_free_usb_2_0_extension_descriptor d m') = live m)"
      unfolding libusb_get_usb_2_0_extension_descriptor_def Let_def
      by (intro spec_rbindI spec_read_known a spec_ifI spec_InrI spec_splitI spec_mono [OF spec_parse] fmt)
        (auto simp: usb_consts libusb_free_usb_2_0_extension_descriptor_def m_free_def dest: m_alloc_live)
    show "meets True (libusb_get_ss_usb_device_capability_descriptor bs m) (\<lambda>(r, d, m'). (d = None) = (r < 0) \<and>
        live (libusb_free_ss_usb_device_capability_descriptor d m') = live m)"
      unfolding libusb_get_ss_usb_device_capability_descriptor_def Let_def
      by (intro spec_rbindI spec_read_known a spec_ifI spec_InrI spec_splitI spec_mono [OF spec_parse] fmt)
        (auto simp: usb_consts libusb_free_ss_usb_device_capability_descriptor_def m_free_def dest: m_alloc_live)
    show "meets True (libusb_get_container_id_descriptor bs m) (\<lambda>(r, d, m'). (d = None) = (r < 0) \<and>
        live (libusb_free_container_id_descriptor d m') = live m)"
      unfolding libusb_get_container_id_descriptor_def Let_def
      by (intro spec_rbindI spec_read_known a spec_ifI spec_InrI spec_splitI spec_mono [OF spec_parse] fmt)
        (auto simp: usb_consts libusb_free_container_id_descriptor_def m_free_def dest: m_alloc_live)
  qed
qed


text \<open>
  C24. Whatever a device answers, fetching its Binary Object Store reads only inside the buffers and
  gives either a negative code and no block, or a store whose every counted capability is present,
  whole and safe to pass to the three functions that decode capabilities; freeing what any of them
  returns releases every block.
\<close>

theorem bos_fetch_safe:
  assumes "pipe_ok dev" "5 \<le> length stack"
  shows "case libusb_get_bos_descriptor dev stack m of Inl e \<Rightarrow> False
    | Inr (r, None, m') \<Rightarrow> r < 0 \<and> live m' = live m
    | Inr (r, Some b, m') \<Rightarrow> r = 0 \<and> live (libusb_free_bos_descriptor (Some b) m') = live m \<and>
        (\<forall>i < unat (bNumDeviceCaps b). \<exists>bs. dev_capability b ! i = Some bs \<and> cap_ok bs \<and> readable bs)"
proof -
  obtain r bos m' where x: "libusb_get_bos_descriptor dev stack m = Inr (r, bos, m')" "bos_fetched m (r, bos, m')"
    using spec_total [OF spec_get_bos [OF assms, of m]] by (metis prod_cases3)
  show ?thesis using x cap_readable by (cases bos) (auto simp: bos_fetched_def bos_ok_def)
qed

text \<open>A device with the USB 2.0 extension capability.\<close>

definition bos_bytes :: "byte list" where
  "bos_bytes = [5, 15, 12, 0, 1, 7, 16, 2, 6, 0, 0, 0]"

definition answers :: "byte list \<Rightarrow> pipe" where
  "answers bs req buf = (let n = min (unat (wLength req)) (length bs) in (int n, take (length buf) (take n bs @ drop n buf)))"

lemma answers_ok: "pipe_ok (answers bs)"
  unfolding pipe_ok_def
proof (intro allI impI)
  fix req :: control_setup and buf :: "byte list" assume "uint (wLength req) \<le> int (length buf)"
  moreover have "int (unat (wLength req)) = uint (wLength req)" by simp
  ultimately show "fst (answers bs req buf) \<le> uint (wLength req) \<and> length (snd (answers bs req buf)) = length buf"
    by (simp only: answers_def Let_def fst_conv snd_conv length_take length_append length_drop) linarith
qed

theorem bos_fetch_safe_witness:
  "case libusb_get_bos_descriptor (answers bos_bytes) [0, 0, 0, 0, 0, 0] plenty of Inl e \<Rightarrow> False
    | Inr (r, None, m') \<Rightarrow> r < 0 \<and> live m' = live plenty
    | Inr (r, Some b, m') \<Rightarrow> r = 0 \<and> live (libusb_free_bos_descriptor (Some b) m') = live plenty \<and>
        (\<forall>i < unat (bNumDeviceCaps b). \<exists>bs. dev_capability b ! i = Some bs \<and> cap_ok bs \<and> readable bs)"
  by (rule bos_fetch_safe [OF answers_ok]) simp


section \<open>Strings as text\<close>

definition ascii :: "16 word \<Rightarrow> byte" where
  "ascii w = (if w < 0x80 then ucast w else 0x3F)"

lemma ascii_loop_text:
  assumes "\<And>j. j < length ws \<Longrightarrow> READ_LE16 str (2 + 2 * int j) = Inr (ws ! j)" "int (length dat) = len"
    and "K = min (length ws) (nat (len - 1))" "k \<le> K"
  shows "ascii_loop str (2 + 2 * int (length ws)) len (2 + 2 * int k) (int k) (map ascii (take k ws) @ drop k dat) =
    Inr (int K, map ascii (take K ws) @ drop K dat)"
  using assms(4)
proof (induction "K - k" arbitrary: k)
  case 0
  then have "k = K" by simp
  then show ?case using assms(3) by (subst ascii_loop.simps) auto
next
  case (Suc d)
  then have k: "k < K" "k < length ws" "int k < len - 1" "k < length dat" using assms(2,3) by auto
  have "(map ascii (take k ws) @ drop k dat)[k := ascii (ws ! k)] = map ascii (take (Suc k) ws) @ drop (Suc k) dat"
    using k Cons_nth_drop_Suc [OF k(4)] by (simp add: list_update_append take_Suc_conv_app_nth flip: Cons_nth_drop_Suc)
  then have "awrite (map ascii (take k ws) @ drop k dat) (int k) (ascii (ws ! k)) = Inr (map ascii (take (Suc k) ws) @ drop (Suc k) dat)"
    using k by (simp add: awrite_def)
  then show ?case
    using Suc.hyps(1) [of "Suc k"] Suc.hyps(2) k assms(1) [OF k(2)]
    by (subst ascii_loop.simps) (simp add: ascii_def [symmetric] algebra_simps)
qed

definition utf16 :: "16 word list \<Rightarrow> byte list" where
  "utf16 ws = concat (map (\<lambda>w. [ucast w, ucast (drop_bit 8 w)]) ws)"

lemma utf16_nth: "j < length ws \<Longrightarrow> (utf16 ws @ zs) ! (2 * j) = ucast (ws ! j) \<and> (utf16 ws @ zs) ! (2 * j + 1) = ucast (drop_bit 8 (ws ! j))"
proof (induction ws arbitrary: j)
  case (Cons w ws)
  then show ?case by (cases j) (auto simp: utf16_def)
qed simp

lemma length_utf16: "length (utf16 ws) = 2 * length ws"
  by (induction ws) (simp_all add: utf16_def)

lemma read_utf16: "j < length ws \<Longrightarrow> READ_LE16 ([a, b] @ utf16 ws @ zs) (2 + 2 * int j) = Inr (ws ! j)"
proof -
  assume j: "j < length ws"
  have n: "nat (2 + 2 * int j) = Suc (Suc (2 * j))" "nat (2 + 2 * int j + 1) = Suc (Suc (2 * j + 1))" by simp_all
  have r: "in_range ([a, b] @ utf16 ws @ zs) (2 + 2 * int j)" "in_range ([a, b] @ utf16 ws @ zs) (2 + 2 * int j + 1)"
    using j by (simp_all add: in_range_def length_utf16)
  show ?thesis using utf16_nth [OF j, of zs] word_split unfolding READ_LE16_def aread_Inr [OF r(1)] aread_Inr [OF r(2)] n by simp
qed

text \<open>
  The text of a string: when a device answers with a language and a UTF-16 string of any length,
  the library gives its characters, a question mark for each that is not ASCII, cut to the buffer
  and ended by a zero, with their number, and the rest of the buffer unchanged. Given an empty buffer
  it writes the zero outside it.
\<close>

theorem string_ascii_text:
  assumes "libusb_get_string_descriptor dev 0 0 stack 4 = (4, [4, 3] @ utf16 [langid] @ rest)" "i \<noteq> 0"
    and "libusb_get_string_descriptor dev i langid ([4, 3] @ utf16 [langid] @ rest) 255 =
      (2 + 2 * int (length ws), [word_of_nat (2 + 2 * length ws), 3] @ utf16 ws @ zs)"
    and "length ws \<le> 126" "int (length dat) = len" "K = min (length ws) (nat (len - 1))"
  shows "libusb_get_string_descriptor_ascii dev stack i dat len =
    (if len = 0 then Inl OutOfBounds else Inr (int K, map ascii (take K ws) @ 0 # drop (Suc K) dat))"
proof -
  let ?L = "word_of_nat (2 + 2 * length ws) :: byte"
  let ?str = "[?L, 3] @ utf16 ws @ zs" and ?lang = "[4, 3] @ utf16 [langid] @ rest"
  have "unat ?L = 2 + 2 * length ws" using assms(4) by (simp only: unsigned_of_nat) (simp add: take_bit_nat_eq_self)
  moreover have "int (unat ?L) = uint ?L" by simp
  ultimately have L: "uint ?L = 2 + 2 * int (length ws)" by linarith
  have s: "aread ?str 0 = Inr ?L" "aread ?str 1 = Inr 3" "aread ?lang 0 = Inr 4" "aread ?lang 1 = Inr 3"
    by (simp_all add: aread_def in_range_def)
  have "READ_LE16 ?lang 2 = Inr langid" using read_utf16 [of 0 "[langid]" 4 3 rest] by simp
  note lang = this s(3,4) assms(1)
  have loop: "ascii_loop ?str (2 + 2 * int (length ws)) len 2 0 dat = Inr (int K, map ascii (take K ws) @ drop K dat)"
    using ascii_loop_text [of ws ?str dat len K 0] read_utf16 [of _ ws ?L 3 zs] assms(5,6) by simp
  have last: "awrite (map ascii (take K ws) @ drop K dat) (int K) 0 =
      (if len = 0 then Inl OutOfBounds else Inr (map ascii (take K ws) @ 0 # drop (Suc K) dat))"
  proof (cases "len = 0")
    case True
    then show ?thesis using assms(5,6) by (simp add: awrite_def in_range_def)
  next
    case False
    then have "K < length dat" "K \<le> length ws" using assms(5,6) by auto
    then show ?thesis using False by (simp add: awrite_def list_update_append flip: Cons_nth_drop_Suc)
  qed
  have r2: "0 \<le> 2 + 2 * int (length ws)" "\<not> 2 + 2 * int (length ws) < DESC_HEADER_LENGTH" by (simp_all add: DESC_HEADER_LENGTH_def)
  show ?thesis
    using assms(2,3) lang s(1,2) r2 L loop last
    unfolding libusb_get_string_descriptor_ascii_def Let_def
    by (simp del: append_Cons append_Nil add: LIBUSB_DT_STRING_def)
qed


definition pad_answers :: "byte list \<Rightarrow> byte list \<Rightarrow> pipe" where
  \<comment> \<open>the first answer to a request of descriptor 0, the second to any other\<close>
  "pad_answers lang str req buf = (if wValue req = 0x300 then (int (length lang), lang @ [0]) else (int (length str), str @ [0]))"

theorem string_ascii_text_witness:
  "libusb_get_string_descriptor_ascii (pad_answers [4, 3, 9, 4] [6, 3, 0x48, 0, 0x42, 0x20]) [] 1 [7, 7, 7, 7] 4 = Inr (2, [0x48, 0x3F, 0, 7])"
proof -
  let ?dev = "pad_answers [4, 3, 9, 4] [6, 3, 0x48, 0, 0x42, 0x20]"
  have 1: "libusb_get_string_descriptor ?dev 0 0 [] 4 = (4, [4, 3] @ utf16 [0x409] @ [0])"
    by (simp add: libusb_get_string_descriptor_def pad_answers_def utf16_def LIBUSB_DT_STRING_def)
  have 2: "libusb_get_string_descriptor ?dev 1 0x409 ([4, 3] @ utf16 [0x409] @ [0]) 255 =
      (2 + 2 * int (length [0x48, 0x2042 :: 16 word]), [word_of_nat (2 + 2 * length [0x48, 0x2042 :: 16 word]), 3] @ utf16 [0x48, 0x2042] @ [0])"
    by (simp add: libusb_get_string_descriptor_def pad_answers_def utf16_def LIBUSB_DT_STRING_def)
  show ?thesis using string_ascii_text [OF 1 _ 2, of "[7, 7, 7, 7]" 4 2] by (simp add: ascii_def)
qed

text \<open>Any device, any answer.\<close>

lemma get_string_ok:
  assumes "pipe_ok dev" "libusb_get_string_descriptor dev i lang buf n = (r, buf1)" "0 \<le> n" "n \<le> int (length buf)" "n < 65536"
  shows "r \<le> n" "length buf1 = length buf"
proof -
  have "uint (word_of_int n :: 16 word) = n" using assms(3,5) by (simp add: uint_word_of_int)
  then show "r \<le> n" "length buf1 = length buf"
    using assms(1,2,4) unfolding pipe_ok_def libusb_get_string_descriptor_def
    by (metis control_setup.select_convs(5) fst_conv, metis control_setup.select_convs(5) snd_conv)
qed

definition text_post :: "byte list \<Rightarrow> int \<Rightarrow> int \<times> byte list \<Rightarrow> bool" where
  "text_post dat len = (\<lambda>(r, dat'). length dat' = length dat \<and> 0 \<le> r \<and> r < len \<and> (\<forall>j. 0 \<le> j \<and> j < r \<longrightarrow> dat' ! nat j < 0x80) \<and>
     (\<forall>j. r \<le> j \<longrightarrow> dat' ! nat j = dat ! nat j))"

lemma ascii_less: "(if w < 0x80 then ucast w else 0x3F :: byte) < 0x80" for w :: "16 word"
proof (cases "w < 0x80")
  case True
  then have "uint w < 0x80" by (simp add: word_less_def)
  then have "uint (ucast w :: byte) < 0x80" by (simp add: unsigned_ucast_eq take_bit_eq_mod)
  then show ?thesis using True by (simp add: word_less_def)
qed simp

lemma spec_ascii_loop:
  assumes "length str = 256" "L \<le> 255" "int (length dat) = len" "0 \<le> di" "di < len" "si = 2 + 2 * di"
    and "\<forall>j. 0 \<le> j \<and> j < di \<longrightarrow> dat ! nat j < 0x80"
  shows "meets True (ascii_loop str L len si di dat) (text_post dat len)"
proof -
  have "meets True (ascii_loop str L len si di dat') (text_post dat len)"
    if "length dat' = length dat" "0 \<le> di" "di < len" "si = 2 + 2 * di" "\<forall>j. 0 \<le> j \<and> j < di \<longrightarrow> dat' ! nat j < 0x80"
      "\<forall>j. di \<le> j \<longrightarrow> dat' ! nat j = dat ! nat j" for dat' si di
    using that
  proof (induction "nat (len - di)" arbitrary: dat' si di rule: less_induct)
    case less
    show ?case
    proof (cases "si < L \<and> \<not> di \<ge> len - 1")
      case False
      show ?thesis unfolding ascii_loop.simps [of str L len si di dat'] if_not_P [OF False]
        using less.prems by (simp add: text_post_def)
    next
      case True
      have r: "in_range str (2 + 2 * di + 1)" "in_range str (2 + 2 * di)" "in_range dat' di"
        using True less.prems assms(1-3) by (simp_all add: in_range_def)
      have "meets True (ascii_loop str L len (si + 2) (di + 1) (dat'[nat di := if w < 0x80 then ucast w else 0x3F])) (text_post dat len)" for w :: "16 word"
        using less.prems True assms(3) ascii_less [of w]
        by (intro less.hyps) (auto simp: nth_list_update)
      then show ?thesis using True r by (subst ascii_loop.simps) (simp add: READ_LE16_def)
    qed
  qed
  then show ?thesis using assms by simp
qed

definition string_post :: "byte list \<Rightarrow> int \<Rightarrow> int \<times> byte list \<Rightarrow> bool" where
  "string_post dat len = (\<lambda>(r, dat'). length dat' = length dat \<and> (if r < 0 then dat' = dat
     else r < len \<and> dat' ! nat r = 0 \<and> (\<forall>j < nat r. dat' ! j < 0x80) \<and> (\<forall>j > nat r. dat' ! j = dat ! j)))"

text \<open>
  Whatever a device answers, reading a string into a buffer of at least one byte stays inside the
  buffers. It gives a negative code and leaves the buffer as it was, or a number less than the
  buffer's size: that many ASCII characters, a zero behind them, and the rest as it was.
\<close>

theorem string_ascii_bounds:
  assumes "pipe_ok dev" "length stack = 256" "int (length dat) = len" "1 \<le> len"
  shows "\<exists>r dat'. libusb_get_string_descriptor_ascii dev stack i dat len = Inr (r, dat') \<and> length dat' = length dat \<and>
    (if r < 0 then dat' = dat
     else r < len \<and> dat' ! nat r = 0 \<and> (\<forall>j < nat r. dat' ! j < 0x80) \<and> (\<forall>j > nat r. dat' ! j = dat ! j))"
proof -
  let ?P = "string_post dat len"
  have fin: "meets True (awrite dat1 di 0) (\<lambda>dat2. ?P (di, dat2))" if "text_post dat len (di, dat1)" for di dat1
  proof -
    have d: "length dat1 = length dat" "0 \<le> di" "di < len" "\<forall>j. 0 \<le> j \<and> j < di \<longrightarrow> dat1 ! nat j < 0x80" "\<forall>j. di \<le> j \<longrightarrow> dat1 ! nat j = dat ! nat j"
      using that by (simp_all add: text_post_def)
    have "dat1 ! j < 0x80" if "j < nat di" for j using d(2,4) that by (metis nat_int nat_less_eq_zless of_nat_0_le_iff zless_nat_eq_int_zless)
    moreover have "dat1 ! j = dat ! j" if "nat di < j" for j using d(5) that by (metis int_nat_eq nat_int of_nat_le_iff less_imp_le d(2) zle_int)
    ultimately show ?thesis using d(1-3) assms(3) by (auto simp: awrite_def in_range_def string_post_def)
  qed
  have "meets True (libusb_get_string_descriptor_ascii dev stack i dat len) ?P"
    unfolding libusb_get_string_descriptor_ascii_def Let_def READ_LE16_def
  proof (intro spec_ifI spec_InrI spec_splitI spec_rbindI spec_aread)
    fix r str assume "libusb_get_string_descriptor dev 0 0 stack 4 = (r, str)"
    then have str: "length str = 256" using get_string_ok(2) [OF assms(1)] assms(2) by fastforce
    then show "in_range str 0" "in_range str 1" "in_range str (2 + 1)" "in_range str 2" by (simp_all add: in_range_def)
    fix b0 b1 r2 str2 assume "libusb_get_string_descriptor dev i (push_bit 8 (ucast b1) OR ucast b0) str 255 = (r2, str2)"
    then have str2: "length str2 = 256" using get_string_ok(2) [OF assms(1)] str by fastforce
    then show "in_range str2 0" "in_range str2 1" by (simp_all add: in_range_def)
    fix l :: byte
    show "meets True (ascii_loop str2 (uint l) len 2 0 dat) (\<lambda>x. meets True (case x of (di, dat1) \<Rightarrow> rbind (awrite dat1 di 0) (\<lambda>dat2. Inr (di, dat2))) ?P)"
      by (rule spec_mono [OF spec_ascii_loop [OF str2 _ assms(3)]]) (use assms(4) in \<open>auto intro: fin\<close>)
  qed (auto simp: usb_consts string_post_def)
  then obtain r dat' where "libusb_get_string_descriptor_ascii dev stack i dat len = Inr (r, dat')" "string_post dat len (r, dat')"
    by (auto dest!: spec_total)
  then show ?thesis by (intro exI [of _ r] exI [of _ dat']) (simp add: string_post_def)
qed

theorem string_ascii_bounds_witness:
  "\<exists>r dat'. libusb_get_string_descriptor_ascii (answers [9, 3, 0x41]) (replicate 256 0) 1 [7, 7] 2 = Inr (r, dat') \<and> length dat' = length [7, 7 :: byte] \<and>
    (if r < 0 then dat' = [7, 7] else r < 2 \<and> dat' ! nat r = 0 \<and> (\<forall>j < nat r. dat' ! j < 0x80) \<and> (\<forall>j > nat r. dat' ! j = [7, 7] ! j))"
  by (rule string_ascii_bounds [OF answers_ok]) simp_all


section \<open>Companions in the extra bytes\<close>

definition other_descriptor :: "byte list \<Rightarrow> bool" where
  "other_descriptor d \<longleftrightarrow> 2 \<le> length d \<and> uint (d ! 0) = int (length d) \<and> d ! 1 \<noteq> LIBUSB_DT_SS_ENDPOINT_COMPANION"

lemma find_companion_skips:
  assumes "\<forall>d \<in> set ds. other_descriptor d" "here buf p (concat ds @ xs)"
  shows "find_companion buf p (int (length (concat ds @ xs))) m = find_companion buf (p + int (length (concat ds))) (int (length xs)) m"
  using assms
proof (induction ds arbitrary: p)
  case (Cons d ds)
  then obtain b0 b1 zs where d: "d = b0 # b1 # zs" "uint b0 = int (length d)" "b1 \<noteq> LIBUSB_DT_SS_ENDPOINT_COMPANION"
    by (cases d; cases "tl d") (auto simp: other_descriptor_def)
  have h: "here buf p d" "here buf (p + int (length d)) (concat ds @ xs)" using Cons.prems(2) by (simp_all add: here_append add.assoc)
  have "find_companion buf p (int (length (concat (d # ds) @ xs))) m = find_companion buf (p + int (length d)) (int (length (concat ds @ xs))) m"
    using h(1) d by (subst find_companion.simps) (simp add: here_Cons DESC_HEADER_LENGTH_def)
  also have "\<dots> = find_companion buf (p + int (length d) + int (length (concat ds))) (int (length xs)) m"
    using Cons.IH [OF _ h(2)] Cons.prems(1) by simp
  finally show ?case by (simp add: add.assoc)
qed simp

text \<open>
  In the extra bytes of an endpoint, whatever other descriptors come first, the library finds the
  first companion descriptor and decodes its fields; when there is none it says so.
\<close>

theorem companion_found:
  assumes "\<forall>d \<in> set ds. other_descriptor d" "\<forall>j. avail m j" "6 \<le> uint n" "uint n \<le> 6 + int (length rest)"
  shows "(\<exists>m'. live m' = live m + 1 \<and>
      libusb_get_ss_endpoint_companion_descriptor (ep\<lparr>ep_extra := Some (concat ds @ [n, 0x30, burst, attr] @ put_word w @ rest),
        ep_extra_length := int (length (concat ds)) + 6 + int (length rest)\<rparr>) m =
      Inr (0, Some \<lparr>ss_bLength = n, ss_bDescriptorType = 0x30, bMaxBurst = burst, ss_bmAttributes = attr, wBytesPerInterval = w\<rparr>, m')) \<and>
    libusb_get_ss_endpoint_companion_descriptor (ep\<lparr>ep_extra := Some (concat ds), ep_extra_length := int (length (concat ds))\<rparr>) m =
      Inr (LIBUSB_ERROR_NOT_FOUND, None, m)"
proof
  let ?comp = "[n, 0x30, burst, attr] @ put_word w @ rest" and ?q = "int (length (concat ds))"
  let ?buf = "concat ds @ ?comp"
  have h: "here ?buf 0 (concat ds @ ?comp)" using here_start [of ?buf "[]"] by simp
  then have c: "here ?buf ?q ?comp" unfolding here_append [of ?buf 0 "concat ds" ?comp] by simp
  obtain m' where m': "m_alloc m = (True, m')" using assms(2) by (auto simp: m_alloc_def Let_def)
  have "parse_descriptor ?buf ?q ''bbbbw'' 0 = Inr [(0, Byte n), (1, Byte 0x30), (2, Byte burst), (3, Byte attr), (4, Half w)]"
    using c by (simp add: put_word_def here_Cons READ_LE16_def add.assoc word_split)
  then have "find_companion ?buf ?q (int (length ?comp)) m =
      Inr (0, Some \<lparr>ss_bLength = n, ss_bDescriptorType = 0x30, bMaxBurst = burst, ss_bmAttributes = attr, wBytesPerInterval = w\<rparr>, m')"
    using c m' assms(3,4)
    by (subst find_companion.simps)
      (simp add: put_word_def here_Cons usb_consts usb_types companion_of_def byte_at_def half_at_def del: parse_descriptor.simps)
  then show "\<exists>m'. live m' = live m + 1 \<and>
      libusb_get_ss_endpoint_companion_descriptor (ep\<lparr>ep_extra := Some ?buf, ep_extra_length := ?q + 6 + int (length rest)\<rparr>) m =
      Inr (0, Some \<lparr>ss_bLength = n, ss_bDescriptorType = 0x30, bMaxBurst = burst, ss_bmAttributes = attr, wBytesPerInterval = w\<rparr>, m')"
    using find_companion_skips [OF assms(1) h, of m] m_alloc_live [OF m']
    by (intro exI [of _ m']) (simp add: libusb_get_ss_endpoint_companion_descriptor_def put_word_def ac_simps)
  show "libusb_get_ss_endpoint_companion_descriptor (ep\<lparr>ep_extra := Some (concat ds), ep_extra_length := int (length (concat ds))\<rparr>) m =
      Inr (LIBUSB_ERROR_NOT_FOUND, None, m)"
    using find_companion_skips [OF assms(1), of "concat ds" 0 "[]" m] here_start [of "concat ds" "[]"]
    by (simp add: libusb_get_ss_endpoint_companion_descriptor_def find_companion.simps [of _ _ 0] DESC_HEADER_LENGTH_def)
qed


theorem companion_found_witness:
  "(\<exists>m'. live m' = live plenty + 1 \<and>
      libusb_get_ss_endpoint_companion_descriptor (zero_endpoint\<lparr>ep_extra := Some (concat [[3, 0x24, 1]] @ [6, 0x30, 4, 0] @ put_word 0x400 @ []),
        ep_extra_length := int (length (concat [[3, 0x24, 1 :: byte]])) + 6 + int (length ([] :: byte list))\<rparr>) plenty =
      Inr (0, Some \<lparr>ss_bLength = 6, ss_bDescriptorType = 0x30, bMaxBurst = 4, ss_bmAttributes = 0, wBytesPerInterval = 0x400\<rparr>, m')) \<and>
    libusb_get_ss_endpoint_companion_descriptor (zero_endpoint\<lparr>ep_extra := Some (concat [[3, 0x24, 1]]),
        ep_extra_length := int (length (concat [[3, 0x24, 1 :: byte]]))\<rparr>) plenty =
      Inr (LIBUSB_ERROR_NOT_FOUND, None, plenty)"
  by (rule companion_found) (simp_all add: other_descriptor_def usb_types plenty_def)

end
