(* ===== verification/HexDecOct.thy ===== *)
theory HexDecOct
  imports Prelude
begin

unbundle bit_operations_syntax

text \<open>
  The codecs of the system library that is cross-compiled with the programs
  (\<open>work/crosscompile/systemd-main/src/basic/hexdecoct.c\<close>): octal, decimal and hexadecimal digits and
  hexadecimal text, with the white space the code allows, and what the other codecs share. A pointer
  and a length that walk over a text or over data are the list of what is left; a result buffer has
  the capacity the code computes (in 32-bit \<open>size_t\<close> arithmetic, as on the target) and writing past it
  is \<open>OutOfBounds\<close>. Whether \<open>malloc\<close> succeeds is an argument.
\<close>

section \<open>Sizes, error codes and buffers\<close>

type_synonym bytes = "8 word list"

definition SIZE_MAX :: nat where "SIZE_MAX = 4294967295"
definition INT_MAX :: int where "INT_MAX = 2147483647"
definition ENOMEM :: int where "ENOMEM = 12"
definition EINVAL :: int where "EINVAL = 22"
definition EPIPE :: int where "EPIPE = 32"
definition ENAMETOOLONG :: int where "ENAMETOOLONG = 36"

lemmas codec_consts = SIZE_MAX_def INT_MAX_def ENOMEM_def EINVAL_def EPIPE_def ENAMETOOLONG_def

definition size_t :: "nat \<Rightarrow> nat" where
  "size_t n = n mod (SIZE_MAX + 1)"

definition emit :: "nat \<Rightarrow> 'a \<Rightarrow> 'a list \<Rightarrow> 'a list res" where \<comment> \<open>\<open>*(z++) = c\<close> in a buffer of \<open>cap\<close> cells\<close>
  "emit cap c z = (if length z < cap then Inr (z @ [c]) else Inl OutOfBounds)"

fun emits :: "nat \<Rightarrow> 'a list \<Rightarrow> 'a list \<Rightarrow> 'a list res" where
  "emits cap [] z = Inr z"
| "emits cap (c # cs) z = rbind (emit cap c z) (emits cap cs)"

definition terminated :: "nat \<Rightarrow> 'a list \<Rightarrow> 'a \<Rightarrow> 'a list res" where \<comment> \<open>\<open>*z = 0\<close>: the contents before it\<close>
  "terminated cap z nul = rbind (emit cap nul z) (\<lambda>_. Inr z)"

definition text_of :: "string \<Rightarrow> nat \<Rightarrow> string res" where
  \<comment> \<open>the characters a decoder works on: \<open>l\<close> of them, or with \<open>SIZE_MAX\<close> all before the terminator\<close>
  "text_of p l =
     (if l = SIZE_MAX
      then (if CHR 0x00 \<in> set p then Inr (takeWhile (\<lambda>c. c \<noteq> CHR 0x00) p) else Inl OutOfBounds)
      else if l \<le> length p then Inr (take l p) else Inl OutOfBounds)"

definition code :: "char \<Rightarrow> int" where
  "code c = of_char c"

definition is_white :: "char \<Rightarrow> bool" where
  \<comment> \<open>\<open>strchr(WHITESPACE, c)\<close>, which also finds the terminator of the list\<close>
  "is_white c \<longleftrightarrow> c \<in> {CHR '' '', CHR 0x09, CHR 0x0A, CHR 0x0D, CHR 0x00}"

section \<open>Digits\<close>

definition octchar :: "int \<Rightarrow> char" where
  "octchar x = char_of (48 + (x AND 7))"

definition unoctchar :: "char \<Rightarrow> int" where
  "unoctchar c = (if 48 \<le> code c \<and> code c \<le> 55 then code c - 48 else - EINVAL)"

definition decchar :: "int \<Rightarrow> char" where
  "decchar x = char_of (48 + x smod 10)"

definition undecchar :: "char \<Rightarrow> int" where
  "undecchar c = (if 48 \<le> code c \<and> code c \<le> 57 then code c - 48 else - EINVAL)"

definition hexchar :: "int \<Rightarrow> char" where
  "hexchar x = ''0123456789abcdef'' ! nat (x AND 15)"

definition unhexchar :: "char \<Rightarrow> int" where
  "unhexchar c =
     (if 48 \<le> code c \<and> code c \<le> 57 then code c - 48
      else if 97 \<le> code c \<and> code c \<le> 102 then code c - 97 + 10
      else if 65 \<le> code c \<and> code c \<le> 70 then code c - 65 + 10
      else - EINVAL)"

definition base32hexchar :: "int \<Rightarrow> char" where
  "base32hexchar x = ''0123456789ABCDEFGHIJKLMNOPQRSTUV'' ! nat (x AND 31)"

definition unbase32hexchar :: "char \<Rightarrow> int" where
  "unbase32hexchar c =
     (if 48 \<le> code c \<and> code c \<le> 57 then code c - 48
      else if 65 \<le> code c \<and> code c \<le> 86 then code c - 65 + 10
      else - EINVAL)"

definition base64char :: "int \<Rightarrow> char" where
  "base64char x = ''ABCDEFGHIJKLMNOPQRSTUVWXYZabcdefghijklmnopqrstuvwxyz0123456789+/'' ! nat (x AND 63)"

definition urlsafe_base64char :: "int \<Rightarrow> char" where
  "urlsafe_base64char x = ''ABCDEFGHIJKLMNOPQRSTUVWXYZabcdefghijklmnopqrstuvwxyz0123456789-_'' ! nat (x AND 63)"

definition unbase64char :: "char \<Rightarrow> int" where
  "unbase64char c =
     (if 65 \<le> code c \<and> code c \<le> 90 then code c - 65
      else if 97 \<le> code c \<and> code c \<le> 122 then code c - 97 + 26
      else if 48 \<le> code c \<and> code c \<le> 57 then code c - 48 + 52
      else if c = CHR ''+'' then 62
      else if c = CHR ''/'' then 63
      else - EINVAL)"

section \<open>Hexadecimal text\<close>

fun hex_loop :: "nat \<Rightarrow> bytes \<Rightarrow> string \<Rightarrow> string res" where
  "hex_loop cap [] z = Inr z"
| "hex_loop cap (x # xs) z =
     rbind (emits cap [hexchar (uint (drop_bit 4 x)), hexchar (uint (x AND 15))] z) (hex_loop cap xs)"

definition hexmem :: "bool \<Rightarrow> bytes \<Rightarrow> string option res" where
  "hexmem ok p =
     (let cap = size_t (length p * 2 + 1) in
      if \<not> ok then Inr None
      else rbind (hex_loop cap p []) (\<lambda>z. rbind (terminated cap z (CHR 0x00)) (\<lambda>r. Inr (Some r))))"

definition unhex_next :: "string \<Rightarrow> int \<times> string" where
  "unhex_next cs = (case dropWhile is_white cs of
      [] \<Rightarrow> (- EPIPE, [])
    | c # rest \<Rightarrow>
        (let r = unhexchar c in
         if r < 0 then (r, c # rest) else (r, dropWhile is_white rest)))"

lemma unhex_next_shorter: "unhex_next cs = (r, rest) \<Longrightarrow> 0 \<le> r \<Longrightarrow> length rest < length cs"
  using length_dropWhile_le [of is_white cs]
  by (auto simp: unhex_next_def codec_consts Let_def split: list.splits if_splits
      intro: le_less_trans [OF length_dropWhile_le])

function unhex_loop :: "nat \<Rightarrow> string \<Rightarrow> bytes \<Rightarrow> (int \<times> bytes) res" where
  "unhex_loop cap cs z =
     (let (a, cs1) = unhex_next cs in
      if a = - EPIPE then rbind (terminated cap z 0) (\<lambda>z. Inr (0, z))
      else if a < 0 then Inr (a, [])
      else
       (let (b, cs2) = unhex_next cs1 in
        if b < 0 then Inr (b, [])
        else rbind (emit cap (push_bit 4 (word_of_int a) OR word_of_int b) z) (unhex_loop cap cs2)))"
  by pat_completeness auto
termination
proof (relation "measure (\<lambda>(cap, cs, z). length cs)", goal_cases)
  case (2 cap cs z x a cs1 xa b cs2 xb)
  have "length cs1 < length cs" using unhex_next_shorter [of cs a cs1] 2 by simp
  moreover have "length cs2 < length cs1" using unhex_next_shorter [of cs1 b cs2] 2 by simp
  ultimately show ?case by simp
qed simp

definition unhexmem_full :: "bool \<Rightarrow> string \<Rightarrow> nat \<Rightarrow> (int \<times> bytes) res" where
  "unhexmem_full ok p l = rbind (text_of p l) (\<lambda>cs.
     let buf_size = size_t (length cs + 1) div 2 + 1 in
     if \<not> ok then Inr (- ENOMEM, []) else unhex_loop buf_size cs [])"


declare unhex_loop.simps [simp del]

section \<open>Buffers that are large enough\<close>

lemma emit_ok [simp]: "length z < cap \<Longrightarrow> emit cap c z = Inr (z @ [c])"
  by (simp add: emit_def)

lemma emits_ok [simp]: "length z + length cs \<le> cap \<Longrightarrow> emits cap cs z = Inr (z @ cs)"
  by (induction cs arbitrary: z) simp_all

lemma emits_full: "cap < length z + length cs \<Longrightarrow> length z \<le> cap \<Longrightarrow> emits cap cs z = Inl OutOfBounds"
  by (induction cs arbitrary: z) (auto simp: emit_def)

lemma terminated_ok [simp]: "length z < cap \<Longrightarrow> terminated cap z c = Inr z"
  by (simp add: terminated_def)

lemma text_of_all [simp]: "length t < SIZE_MAX \<Longrightarrow> text_of t (length t) = Inr t"
  by (simp add: text_of_def)

lemma size_t_id [simp]: "n \<le> SIZE_MAX \<Longrightarrow> size_t n = n"
  by (simp add: size_t_def)

section \<open>Characters and their values\<close>

lemma code_nat: "code c = int (of_char c)"
  unfolding code_def by (rule of_nat_of_char [symmetric])

lemma code_range: "0 \<le> code c" "code c < 256"
  using nat_of_char_less_256 [of c] by (simp_all add: code_nat)

lemma code_eq_iff: "code c = code d \<longleftrightarrow> c = d"
  by (simp add: code_def)

lemma all_hex_digits: "list_all (\<lambda>n. unhexchar (hexchar n) = n) [0..15]"
  by code_simp

lemma all_chars: "(\<forall>c. P c) \<longleftrightarrow> list_all P (map (\<lambda>n. char_of (n :: nat)) [0..<256])"
  by (auto simp: list_all_iff) (metis (no_types, lifting) UNIV_I UNIV_char_of_nat atLeast0LessThan image_iff)

lemma unhexchar_hexchar: "0 \<le> n \<Longrightarrow> n < 16 \<Longrightarrow> unhexchar (hexchar n) = n"
  using all_hex_digits by (simp add: list_all_iff)


section \<open>Decoding hexadecimal text\<close>

definition hex_text :: "bytes \<Rightarrow> string" where
  "hex_text bs = concat (map (\<lambda>x. [hexchar (uint (drop_bit 4 x)), hexchar (uint (x AND 15))]) bs)"

definition lower_hex :: "char \<Rightarrow> char" where \<comment> \<open>the upper case digits are read like the lower case ones\<close>
  "lower_hex c = (if 65 \<le> code c \<and> code c \<le> 70 then char_of (code c + 32) else c)"

abbreviation inked :: "string \<Rightarrow> string" where
  "inked cs \<equiv> filter (\<lambda>c. \<not> is_white c) cs"

lemma dropWhile_white: "dropWhile is_white cs = [] \<longleftrightarrow> inked cs = []"
  by (induction cs) auto

lemma inked_dropWhile [simp]: "inked (dropWhile is_white cs) = inked cs"
  by (induction cs) auto

lemma dropWhile_white_Cons: "dropWhile is_white cs = c # rest \<Longrightarrow> inked cs = c # inked rest"
  by (induction cs) (auto split: if_splits)

lemma char_of_code: "char_of (code c) = c"
  by (simp add: code_def)

lemma hexchar_digits: "list_all (\<lambda>n. hexchar n = (if n < 10 then char_of (n + 48) else char_of (n + 87))) [0..15]"
  by code_simp

lemma hex_chars: "0 \<le> unhexchar c \<Longrightarrow> hexchar (unhexchar c) = lower_hex c"
  "unhexchar (lower_hex c) = unhexchar c"
proof -
  have h: "hexchar n = (if n < 10 then char_of (n + 48) else char_of (n + 87))" if "0 \<le> n" "n < 16" for n
    using hexchar_digits that by (simp add: list_all_iff)
  have l: "code (char_of (code c + 32)) = code c + 32" if "code c \<le> 70"
    using that code_range(1) [of c] by (simp add: code_def)
  show "0 \<le> unhexchar c \<Longrightarrow> hexchar (unhexchar c) = lower_hex c"
    by (auto simp: unhexchar_def h lower_hex_def codec_consts char_of_code add.commute split: if_splits)
  show "unhexchar (lower_hex c) = unhexchar c"
    by (auto simp: unhexchar_def lower_hex_def l)
qed

lemma unhexchar_bounds: "unhexchar c < 16" "unhexchar c < 0 \<Longrightarrow> unhexchar c = - 22"
  by (auto simp: unhexchar_def codec_consts)

lemma unhex_next_inked:
  "inked cs = [] \<Longrightarrow> unhex_next cs = (- EPIPE, [])"
  "inked cs = c # ts \<Longrightarrow> \<exists>rest. unhex_next cs = (unhexchar c, rest) \<and> (0 \<le> unhexchar c \<longrightarrow> inked rest = ts)"
proof -
  show "inked cs = [] \<Longrightarrow> unhex_next cs = (- EPIPE, [])"
    using dropWhile_white [of cs] by (simp add: unhex_next_def del: dropWhile_eq_Nil_conv)
  assume *: "inked cs = c # ts"
  then obtain rest where "dropWhile is_white cs = c # rest" "inked rest = ts"
    using dropWhile_white [of cs] dropWhile_white_Cons [of cs] by (cases "dropWhile is_white cs") auto
  then show "\<exists>rest. unhex_next cs = (unhexchar c, rest) \<and> (0 \<le> unhexchar c \<longrightarrow> inked rest = ts)"
    by (simp add: unhex_next_def Let_def)
qed

fun unhex_ref :: "string \<Rightarrow> bytes \<Rightarrow> int \<times> bytes" where
  "unhex_ref [] z = (0, z)"
| "unhex_ref [c] z = (if unhexchar c < 0 then - EINVAL else - EPIPE, [])"
| "unhex_ref (c # d # ts) z =
     (if unhexchar c < 0 \<or> unhexchar d < 0 then (- EINVAL, [])
      else unhex_ref ts (z @ [push_bit 4 (word_of_int (unhexchar c)) OR word_of_int (unhexchar d)]))"

lemma unhex_loop_ref:
  "length z + length (inked cs) div 2 < cap \<Longrightarrow> unhex_loop cap cs z = Inr (unhex_ref (inked cs) z)"
proof (induction "inked cs" z arbitrary: cs rule: unhex_ref.induct)
  case (1 z)
  then show ?case by (simp add: unhex_next_inked(1) unhex_loop.simps [of cap cs] flip: 1(1))
next
  case (2 c z)
  obtain rest where "unhex_next cs = (unhexchar c, rest)" "0 \<le> unhexchar c \<longrightarrow> inked rest = []"
    using unhex_next_inked(2) [of cs c "[]"] 2(1) by auto
  then show ?case using unhexchar_bounds [of c]
    by (auto simp: unhex_next_inked(1) codec_consts unhex_loop.simps [of cap cs] simp flip: 2(1))
next
  case (3 c d ts z)
  obtain cs1 where c1: "unhex_next cs = (unhexchar c, cs1)" "0 \<le> unhexchar c \<longrightarrow> inked cs1 = d # ts"
    using unhex_next_inked(2) [of cs c "d # ts"] 3(2) by auto
  show ?case
  proof (cases "unhexchar c < 0")
    case True
    then show ?thesis using c1 unhexchar_bounds [of c] by (simp add: codec_consts unhex_loop.simps [of cap cs] flip: 3(2))
  next
    case False
    then obtain cs2 where c2: "unhex_next cs1 = (unhexchar d, cs2)" "0 \<le> unhexchar d \<longrightarrow> inked cs2 = ts"
      using unhex_next_inked(2) [of cs1 d ts] c1 by auto
    show ?thesis
    proof (cases "unhexchar d < 0")
      case True
      then show ?thesis using c1 c2 False unhexchar_bounds [of d] by (simp add: codec_consts unhex_loop.simps [of cap cs] flip: 3(2))
    next
      case d: False
      then have "inked cs2 = ts" using c2 by simp
      moreover have "length z + length ts div 2 + 1 < cap" using 3(3) unfolding 3(2) [symmetric] by simp
      ultimately show ?thesis using 3(1) [of cs2] False d c1 c2
        by (simp add: codec_consts unhex_loop.simps [of cap cs] flip: 3(2))
    qed
  qed
qed


section \<open>Bits of digits and bytes\<close>

lemma low_bit: "bit (v :: int) n \<Longrightarrow> 0 \<le> v \<Longrightarrow> v < 2 ^ k \<Longrightarrow> n < k"
  using bit_take_bit_iff [of k v n] by (simp add: take_bit_int_eq_self)

lemmas low_bits = low_bit [of _ _ 4, simplified] low_bit [of _ _ 5, simplified] low_bit [of _ _ 6, simplified]

lemma byte_eqI: "(\<And>n. n < 8 \<Longrightarrow> bit x n = bit y n) \<Longrightarrow> x = (y :: 8 word)"
  by (rule bit_word_eqI) simp

lemma and_masks:
  "x AND 1 = take_bit 1 (x :: 8 word)" "x AND 3 = take_bit 2 x" "x AND 7 = take_bit 3 x" "x AND 15 = take_bit 4 x"
  "x AND 31 = take_bit 5 x" "x AND 63 = take_bit 6 x" "x AND 127 = take_bit 7 x"
  by (simp_all add: take_bit_eq_mask mask_eq_exp_minus_1)

lemmas byte_bits = bit_simps not_less possible_bit_word

lemma byte_eqI8:
  assumes "bit x 0 = bit y 0" "bit x 1 = bit y 1" "bit x 2 = bit y 2" "bit x 3 = bit y 3"
    "bit x 4 = bit y 4" "bit x 5 = bit y 5" "bit x 6 = bit y 6" "bit x 7 = bit y 7"
  shows "x = (y :: 8 word)"
proof (rule byte_eqI)
  fix n :: nat
  assume "n < 8"
  then have "n \<in> {0, 1, 2, 3, 4, 5, 6, 7}" by auto
  then show "bit x n = bit y n" using assms by auto
qed

lemma byte_high: "8 \<le> n \<Longrightarrow> \<not> bit (x :: 8 word) n"
  using bit_imp_le_length [of x n] by auto

lemma digit_high: "0 \<le> v \<Longrightarrow> v < 2 ^ k \<Longrightarrow> k \<le> n \<Longrightarrow> \<not> bit (v :: int) n"
  using low_bit [of v n k] by auto

lemmas bits_down = bit_or_iff bit_and_iff bit_push_bit_iff bit_drop_bit_eq bit_take_bit_iff bit_word_of_int_iff possible_bit_word o_apply

lemmas bits_at = bit_or_iff bit_and_iff bit_push_bit_iff bit_drop_bit_eq bit_take_bit_iff bit_word_of_int_iff byte_high
  possible_bit_word

lemma nibbles: "push_bit 4 (drop_bit 4 x) OR (x AND 15) = (x :: 8 word)"
  unfolding and_masks by (rule byte_eqI) (auto simp: byte_bits)

lemma nibbles_of_byte:
  assumes "0 \<le> a" "a < 16" "0 \<le> b" "b < 16"
  shows "drop_bit 4 (push_bit 4 (word_of_int a) OR word_of_int b) = (word_of_int a :: 8 word)"
    "(push_bit 4 (word_of_int a) OR word_of_int b) AND 15 = (word_of_int b :: 8 word)"
  unfolding and_masks using assms by (auto intro!: byte_eqI simp: byte_bits dest: low_bits)

lemma uint_small: "0 \<le> a \<Longrightarrow> a < 256 \<Longrightarrow> uint (word_of_int a :: 8 word) = a"
  by (simp add: uint_word_of_int_eq take_bit_int_eq_self)


section \<open>Hexadecimal text and back\<close>

lemma hex_text_simps [simp]:
  "hex_text [] = []" "hex_text (x # bs) = hexchar (uint (drop_bit 4 x)) # hexchar (uint (x AND 15)) # hex_text bs"
  by (simp_all add: hex_text_def)

lemma hex_loop_text: "length z + 2 * length p \<le> cap \<Longrightarrow> hex_loop cap p z = Inr (z @ hex_text p)"
  by (induction p arbitrary: z) simp_all

lemma length_hex_text [simp]: "length (hex_text p) = 2 * length p"
  by (induction p) simp_all

lemma hexmem_text: "2 * length p < SIZE_MAX \<Longrightarrow> hexmem True p = Inr (Some (hex_text p))"
  by (simp add: hexmem_def hex_loop_text Let_def mult.commute)

lemma nibble_values: "uint (drop_bit 4 x) < 16" "uint (x AND 15) < 16" for x :: "8 word"
proof -
  show "uint (drop_bit 4 x) < 16" using uint_range_size [of x] by (simp add: unsigned_drop_bit_eq drop_bit_eq_div [where ?'a = int] take_bit_int_eq_self word_size)
  show "uint (x AND 15) < 16" unfolding and_masks by (simp add: unsigned_take_bit_eq take_bit_eq_mod [where ?'a = int])
qed

lemma unhex_ref_text: "unhex_ref (hex_text bs) z = (0, z @ bs)"
  by (induction bs arbitrary: z) (simp_all add: unhexchar_hexchar nibble_values nibbles)

lemma hex_text_eqD: "hex_text bs = hex_text bs' \<Longrightarrow> bs = bs'"
  using unhex_ref_text by (metis append_Nil prod.inject)

lemma hex_text_pair:
  assumes "0 \<le> unhexchar c" "0 \<le> unhexchar d"
  shows "hex_text [push_bit 4 (word_of_int (unhexchar c)) OR word_of_int (unhexchar d)] = [lower_hex c, lower_hex d]"
proof -
  note b = assms(1) unhexchar_bounds(1) [of c] assms(2) unhexchar_bounds(1) [of d]
  have "uint (word_of_int (unhexchar c) :: 8 word) = unhexchar c" "uint (word_of_int (unhexchar d) :: 8 word) = unhexchar d"
    using b by (simp_all add: uint_small)
  then show ?thesis by (simp only: hex_text_simps nibbles_of_byte [OF b] hex_chars(1) [OF assms(1)] hex_chars(1) [OF assms(2)])
qed

lemma unhex_ref_lower: "unhex_ref (map lower_hex ts) z = unhex_ref ts z"
  by (induction ts z rule: unhex_ref.induct) (simp_all add: hex_chars)

lemma unhex_ref_result:
  "(\<exists>bs. unhex_ref ts z = (0, z @ bs) \<and> map lower_hex ts = hex_text bs) \<or> unhex_ref ts z \<in> {(- EINVAL, []), (- EPIPE, [])}"
proof (induction ts z rule: unhex_ref.induct)
  case (1 z)
  show ?case by simp
next
  case (3 c d ts z)
  show ?case
  proof (cases "unhexchar c < 0 \<or> unhexchar d < 0")
    case False
    let ?x = "push_bit 4 (word_of_int (unhexchar c)) OR word_of_int (unhexchar d) :: 8 word"
    have "(\<exists>bs. unhex_ref (c # d # ts) z = (0, z @ ?x # bs) \<and> map lower_hex ts = hex_text bs) \<or>
        unhex_ref ts (z @ [?x]) \<in> {(- EINVAL, []), (- EPIPE, [])}" using 3 [OF False] False by simp
    moreover have "hex_text (?x # bs) = lower_hex c # lower_hex d # hex_text bs" for bs
      using hex_text_pair [of c d] False by simp
    ultimately show ?thesis using False by (auto intro: exI [of _ "?x # bs" for bs])
  qed auto
qed auto

text \<open>
  C30. The hexadecimal decoder is exactly the inverse of the encoder: every text is decoded without
  leaving the buffers, with success just for the encodings, in either case and with any white space,
  and then to the bytes encoded; what is left over is a broken pipe or an invalid argument.
\<close>

theorem unhexmem_inverts_hexmem:
  assumes "length t < SIZE_MAX"
  shows "\<exists>r out. unhexmem_full True t (length t) = Inr (r, out) \<and> r \<in> {0, - EINVAL, - EPIPE} \<and>
    (\<forall>bs. 2 * length bs < SIZE_MAX \<longrightarrow>
       (r = 0 \<and> out = bs \<longleftrightarrow> hexmem True bs = Inr (Some (map lower_hex (inked t)))))"
proof -
  have "length (inked t) div 2 \<le> Suc (length t) div 2"
    using length_filter_le [of "\<lambda>c. \<not> is_white c" t] by (intro div_le_mono) linarith
  then have u: "unhexmem_full True t (length t) = Inr (unhex_ref (inked t) [])"
    using assms by (simp add: unhexmem_full_def unhex_loop_ref Let_def)
  have enc: "unhex_ref (inked t) [] = (0, bs)" if "map lower_hex (inked t) = hex_text bs" for bs
    using unhex_ref_lower [of "inked t" "[]"] unhex_ref_text [of bs "[]"] that by simp
  have m: "map lower_hex (inked t) = hex_text bs \<longleftrightarrow> hexmem True bs = Inr (Some (map lower_hex (inked t)))"
    if "2 * length bs < SIZE_MAX" for bs using hexmem_text [OF that] by auto
  obtain r out where ro: "unhex_ref (inked t) [] = (r, out)" by fastforce
  then have "r \<in> {0, - EINVAL, - EPIPE}" "r = 0 \<longrightarrow> map lower_hex (inked t) = hex_text out"
    using unhex_ref_result [of "inked t" "[]"] by (auto simp: codec_consts)
  then show ?thesis using u ro enc m hex_text_eqD by (metis prod.inject)
qed

theorem unhexmem_inverts_hexmem_witness:
  "unhexmem_full True ''4 a2B'' 5 = Inr (0, [0x4a, 0x2b])"
proof -
  have "hex_text [0x4a, 0x2b] = map lower_hex (inked ''4 a2B'')" by code_simp
  then have "hexmem True [0x4a, 0x2b] = Inr (Some (map lower_hex (inked ''4 a2B'')))" by (simp add: hexmem_text SIZE_MAX_def)
  then obtain r out where "unhexmem_full True ''4 a2B'' (length ''4 a2B'') = Inr (r, out)" "r = 0 \<and> out = [0x4a, 0x2b]"
    using unhexmem_inverts_hexmem [of "''4 a2B''"] by (fastforce simp: SIZE_MAX_def simp del: filter.simps)
  then show ?thesis by (simp add: eval_nat_numeral)
qed

end
