(* ===== verification/Base32.thy ===== *)
theory Base32
  imports HexDecOct
begin

unbundle bit_operations_syntax

text \<open>
  Base32hex text (\<open>work/crosscompile/systemd-main/src/basic/hexdecoct.c\<close>, \<open>base32hexmem\<close> and
  \<open>unbase32hexmem\<close>), with and without padding. Decoder and encoder are inverse to each other on all
  texts and all data the size computation of the encoder can hold.
\<close>

section \<open>The encoder\<close>

fun base32_loop :: "nat \<Rightarrow> bool \<Rightarrow> bytes \<Rightarrow> string \<Rightarrow> string res" where
  "base32_loop cap padding (x0 # x1 # x2 # x3 # x4 # xs) z =
     rbind (emits cap
       [base32hexchar (uint (drop_bit 3 x0)),
        base32hexchar (uint (push_bit 2 (x0 AND 7) OR drop_bit 6 x1)),
        base32hexchar (uint (drop_bit 1 (x1 AND 63))),
        base32hexchar (uint (push_bit 4 (x1 AND 1) OR drop_bit 4 x2)),
        base32hexchar (uint (push_bit 1 (x2 AND 15) OR drop_bit 7 x3)),
        base32hexchar (uint (drop_bit 2 (x3 AND 127))),
        base32hexchar (uint (push_bit 3 (x3 AND 3) OR drop_bit 5 x4)),
        base32hexchar (uint (x4 AND 31))] z) (base32_loop cap padding xs)"
| "base32_loop cap padding [x0, x1, x2, x3] z =
     emits cap
       ([base32hexchar (uint (drop_bit 3 x0)),
         base32hexchar (uint (push_bit 2 (x0 AND 7) OR drop_bit 6 x1)),
         base32hexchar (uint (drop_bit 1 (x1 AND 63))),
         base32hexchar (uint (push_bit 4 (x1 AND 1) OR drop_bit 4 x2)),
         base32hexchar (uint (push_bit 1 (x2 AND 15) OR drop_bit 7 x3)),
         base32hexchar (uint (drop_bit 2 (x3 AND 127))),
         base32hexchar (uint (push_bit 3 (x3 AND 3)))] @ (if padding then ''='' else [])) z"
| "base32_loop cap padding [x0, x1, x2] z =
     emits cap
       ([base32hexchar (uint (drop_bit 3 x0)),
         base32hexchar (uint (push_bit 2 (x0 AND 7) OR drop_bit 6 x1)),
         base32hexchar (uint (drop_bit 1 (x1 AND 63))),
         base32hexchar (uint (push_bit 4 (x1 AND 1) OR drop_bit 4 x2)),
         base32hexchar (uint (push_bit 1 (x2 AND 15)))] @ (if padding then ''==='' else [])) z"
| "base32_loop cap padding [x0, x1] z =
     emits cap
       ([base32hexchar (uint (drop_bit 3 x0)),
         base32hexchar (uint (push_bit 2 (x0 AND 7) OR drop_bit 6 x1)),
         base32hexchar (uint (drop_bit 1 (x1 AND 63))),
         base32hexchar (uint (push_bit 4 (x1 AND 1)))] @ (if padding then ''===='' else [])) z"
| "base32_loop cap padding [x0] z =
     emits cap
       ([base32hexchar (uint (drop_bit 3 x0)),
         base32hexchar (uint (push_bit 2 (x0 AND 7)))] @ (if padding then ''======'' else [])) z"
| "base32_loop cap padding [] z = Inr z"

definition base32_size :: "nat \<Rightarrow> bool \<Rightarrow> nat" where
  "base32_size l padding =
     (if padding then size_t (8 * (l + 4)) div 5
      else size_t (8 * l) div 5 +
        (if l mod 5 = 4 then 7 else if l mod 5 = 3 then 5 else if l mod 5 = 2 then 4 else if l mod 5 = 1 then 2 else 0))"

definition base32hexmem :: "bool \<Rightarrow> bytes \<Rightarrow> bool \<Rightarrow> string option res" where
  "base32hexmem ok p padding =
     (let len = base32_size (length p) padding in
      if \<not> ok then Inr None
      else rbind (base32_loop (len + 1) padding p []) (\<lambda>z.
           rbind (terminated (len + 1) z (CHR 0x00)) (\<lambda>z. Inr (Some z))))"

section \<open>The decoder\<close>

fun strip_padding :: "nat \<Rightarrow> string \<Rightarrow> string" where
  \<comment> \<open>the argument counts how many more may be stripped (\<open>pad < 7\<close>)\<close>
  "strip_padding 0 cs = cs"
| "strip_padding (Suc n) cs = (if cs \<noteq> [] \<and> last cs = CHR ''='' then strip_padding n (butlast cs) else cs)"

definition unbase32_size :: "nat \<Rightarrow> nat option" where
  "unbase32_size l =
     (let len = l div 8 * 5 in
      if l mod 8 = 7 then Some (len + 4) else if l mod 8 = 5 then Some (len + 3)
      else if l mod 8 = 4 then Some (len + 2) else if l mod 8 = 2 then Some (len + 1)
      else if l mod 8 = 0 then Some len else None)"

definition oct1 :: "int \<Rightarrow> int \<Rightarrow> 8 word" where \<comment> \<open>XXXXXYYY\<close>
  "oct1 a b = push_bit 3 (word_of_int a) OR drop_bit 2 (word_of_int b)"

definition oct2 :: "int \<Rightarrow> int \<Rightarrow> int \<Rightarrow> 8 word" where \<comment> \<open>YYZZZZZW\<close>
  "oct2 b c d = push_bit 6 (word_of_int b) OR push_bit 1 (word_of_int c) OR drop_bit 4 (word_of_int d)"

definition oct3 :: "int \<Rightarrow> int \<Rightarrow> 8 word" where \<comment> \<open>WWWWSSSS\<close>
  "oct3 d e = push_bit 4 (word_of_int d) OR drop_bit 1 (word_of_int e)"

definition oct4 :: "int \<Rightarrow> int \<Rightarrow> int \<Rightarrow> 8 word" where \<comment> \<open>SQQQQQVV\<close>
  "oct4 e f g = push_bit 7 (word_of_int e) OR push_bit 2 (word_of_int f) OR drop_bit 3 (word_of_int g)"

definition oct5 :: "int \<Rightarrow> int \<Rightarrow> 8 word" where \<comment> \<open>VVVRRRRR\<close>
  "oct5 g h = push_bit 5 (word_of_int g) OR word_of_int h"

abbreviation v32 :: "char \<Rightarrow> int" where "v32 \<equiv> unbase32hexchar"

definition bad32 :: "string \<Rightarrow> bool" where \<comment> \<open>some character is not a digit: all these errors are \<open>-EINVAL\<close>\<close>
  "bad32 cs \<longleftrightarrow> list_ex (\<lambda>c. v32 c < 0) cs"

fun unbase32_loop :: "nat \<Rightarrow> string \<Rightarrow> bytes \<Rightarrow> (int \<times> bytes) res" where
  "unbase32_loop cap (a # b # c # d # e # f # g # h # cs) z =
     (if bad32 [a, b, c, d, e, f, g, h] then Inr (- EINVAL, [])
      else rbind (emits cap [oct1 (v32 a) (v32 b), oct2 (v32 b) (v32 c) (v32 d), oct3 (v32 d) (v32 e),
             oct4 (v32 e) (v32 f) (v32 g), oct5 (v32 g) (v32 h)] z) (unbase32_loop cap cs))"
| "unbase32_loop cap [a, b, c, d, e, f, g] z =
     (if bad32 [a, b, c, d, e, f, g] then Inr (- EINVAL, [])
      else if v32 g AND 7 \<noteq> 0 then Inr (- EINVAL, [])
      else rbind (emits cap [oct1 (v32 a) (v32 b), oct2 (v32 b) (v32 c) (v32 d), oct3 (v32 d) (v32 e),
             oct4 (v32 e) (v32 f) (v32 g)] z) (\<lambda>z. Inr (0, z)))"
| "unbase32_loop cap [a, b, c, d, e] z =
     (if bad32 [a, b, c, d, e] then Inr (- EINVAL, [])
      else if v32 e AND 1 \<noteq> 0 then Inr (- EINVAL, [])
      else rbind (emits cap [oct1 (v32 a) (v32 b), oct2 (v32 b) (v32 c) (v32 d), oct3 (v32 d) (v32 e)] z) (\<lambda>z. Inr (0, z)))"
| "unbase32_loop cap [a, b, c, d] z =
     (if bad32 [a, b, c, d] then Inr (- EINVAL, [])
      else if v32 d AND 15 \<noteq> 0 then Inr (- EINVAL, [])
      else rbind (emits cap [oct1 (v32 a) (v32 b), oct2 (v32 b) (v32 c) (v32 d)] z) (\<lambda>z. Inr (0, z)))"
| "unbase32_loop cap [a, b] z =
     (if bad32 [a, b] then Inr (- EINVAL, [])
      else if v32 b AND 3 \<noteq> 0 then Inr (- EINVAL, [])
      else rbind (emits cap [oct1 (v32 a) (v32 b)] z) (\<lambda>z. Inr (0, z)))"
| "unbase32_loop cap [] z = Inr (0, z)"
| "unbase32_loop cap cs z = Inr (- EINVAL, [])"

definition unbase32hexmem :: "bool \<Rightarrow> string \<Rightarrow> nat \<Rightarrow> bool \<Rightarrow> (int \<times> bytes) res" where
  \<comment> \<open>the caller is given \<open>len\<close> bytes, which must have been written\<close>
  "unbase32hexmem ok p l padding = rbind (text_of p l) (\<lambda>cs.
     if padding \<and> length cs mod 8 \<noteq> 0 then Inr (- EINVAL, [])
     else
      (let cs = (if padding then strip_padding 7 cs else cs) in
       case unbase32_size (length cs) of
         None \<Rightarrow> Inr (- EINVAL, [])
       | Some len \<Rightarrow>
           if \<not> ok then Inr (- ENOMEM, [])
           else rbind (unbase32_loop (len + 1) cs []) (\<lambda>(r, z).
             if r < 0 then Inr (r, [])
             else rbind (terminated (len + 1) z 0) (\<lambda>z.
                  rbind (rassert (length z = len) Uninitialised) (\<lambda>_. Inr (0, z))))))"


section \<open>Digits\<close>

lemma base32_alphabet:
  "list_all (\<lambda>n. base32hexchar n = (if n < 10 then char_of (n + 48) else char_of (n + 55)) \<and>
     base32hexchar n \<noteq> CHR ''='' \<and> v32 (base32hexchar n) = n) [0..31]"
  by code_simp

lemma mask5: "0 \<le> n AND 31" "n AND (31 :: int) \<le> 31"
proof -
  have "n AND 31 = take_bit 5 n" by (simp add: take_bit_eq_mask mask_eq_exp_minus_1)
  then show "0 \<le> n AND 31" "n AND 31 \<le> 31" using take_bit_int_less_exp [of 5 n] by simp_all
qed

lemma base32hexchar_mask: "base32hexchar (n AND 31) = base32hexchar n"
  by (simp add: base32hexchar_def and.assoc)

lemma base32hexchar_props: "base32hexchar n \<noteq> CHR ''=''" "v32 (base32hexchar n) = n AND 31"
proof -
  have "n AND 31 \<in> set [0..31]" using mask5 [of n] by simp
  then have "base32hexchar (n AND 31) \<noteq> CHR ''='' \<and> v32 (base32hexchar (n AND 31)) = n AND 31"
    using base32_alphabet unfolding list_all_iff by blast
  then show "base32hexchar n \<noteq> CHR ''=''" "v32 (base32hexchar n) = n AND 31" unfolding base32hexchar_mask by blast+
qed

lemma v32_less: "v32 c < 32"
  by (simp add: unbase32hexchar_def codec_consts)

lemma base32hexchar_v32: "0 \<le> v32 c \<Longrightarrow> base32hexchar (v32 c) = c"
proof -
  assume v: "0 \<le> v32 c"
  then have "v32 c \<in> set [0..31]" using v32_less [of c] by simp
  then show ?thesis using base32_alphabet v unfolding list_all_iff
    by (auto simp: unbase32hexchar_def char_of_code codec_consts split: if_splits)
qed

lemma word_of_quintet: "word_of_int (uint w AND 31) = take_bit 5 (w :: 8 word)"
  by (rule byte_eqI8) (simp_all add: bit_and_iff bit_word_of_int_iff bit_take_bit_iff bit_uint_iff flip: mask_numeral)

section \<open>Five bytes and eight digits\<close>

definition quintets :: "8 word \<Rightarrow> 8 word \<Rightarrow> 8 word \<Rightarrow> 8 word \<Rightarrow> 8 word \<Rightarrow> 8 word list" where
  "quintets x0 x1 x2 x3 x4 =
     [drop_bit 3 x0, push_bit 2 (x0 AND 7) OR drop_bit 6 x1, drop_bit 1 (x1 AND 63), push_bit 4 (x1 AND 1) OR drop_bit 4 x2,
      push_bit 1 (x2 AND 15) OR drop_bit 7 x3, drop_bit 2 (x3 AND 127), push_bit 3 (x3 AND 3) OR drop_bit 5 x4, x4 AND 31]"

lemma bytes_of_quintets:
  "push_bit 3 (take_bit 5 (drop_bit 3 x0)) OR drop_bit 2 (take_bit 5 (push_bit 2 (x0 AND 7) OR drop_bit 6 x1)) = (x0 :: 8 word)"
  "push_bit 6 (take_bit 5 (push_bit 2 (x0 AND 7) OR drop_bit 6 x1)) OR push_bit 1 (take_bit 5 (drop_bit 1 (x1 AND 63))) OR
     drop_bit 4 (take_bit 5 (push_bit 4 (x1 AND 1) OR drop_bit 4 x2)) = (x1 :: 8 word)"
  "push_bit 4 (take_bit 5 (push_bit 4 (x1 AND 1) OR drop_bit 4 x2)) OR drop_bit 1 (take_bit 5 (push_bit 1 (x2 AND 15) OR drop_bit 7 x3)) = (x2 :: 8 word)"
  "push_bit 7 (take_bit 5 (push_bit 1 (x2 AND 15) OR drop_bit 7 x3)) OR push_bit 2 (take_bit 5 (drop_bit 2 (x3 AND 127))) OR
     drop_bit 3 (take_bit 5 (push_bit 3 (x3 AND 3) OR drop_bit 5 x4)) = (x3 :: 8 word)"
  "push_bit 5 (take_bit 5 (push_bit 3 (x3 AND 3) OR drop_bit 5 x4)) OR take_bit 5 (x4 AND 31) = (x4 :: 8 word)"
  unfolding and_masks by (rule byte_eqI8; simp only: bits_down; simp add: byte_high eval_nat_numeral)+

lemma quintets_of_bytes:
  assumes "0 \<le> A" "A < 32" "0 \<le> B" "B < 32" "0 \<le> C" "C < 32" "0 \<le> D" "D < 32"
    "0 \<le> E" "E < 32" "0 \<le> F" "F < 32" "0 \<le> G" "G < 32" "0 \<le> H" "H < 32"
  shows "quintets (oct1 A B) (oct2 B C D) (oct3 D E) (oct4 E F G) (oct5 G H) = map word_of_int [A, B, C, D, E, F, G, H]"
proof -
  have h: "\<not> bit A n" "\<not> bit B n" "\<not> bit C n" "\<not> bit D n" "\<not> bit E n" "\<not> bit F n" "\<not> bit G n" "\<not> bit H n" if "5 \<le> n" for n
    using assms that digit_high [of _ 5 n] by simp_all
  show ?thesis
    unfolding quintets_def and_masks oct1_def oct2_def oct3_def oct4_def oct5_def list.map
    by (intro arg_cong2 [where f = "(#)"] refl; rule byte_eqI8; simp only: bits_down; simp add: byte_high h eval_nat_numeral)
qed


section \<open>The text of some bytes\<close>

fun base32_digits :: "bytes \<Rightarrow> string" where
  "base32_digits (x0 # x1 # x2 # x3 # x4 # xs) = map (\<lambda>q. base32hexchar (uint q)) (quintets x0 x1 x2 x3 x4) @ base32_digits xs"
| "base32_digits [x0, x1, x2, x3] = map (\<lambda>q. base32hexchar (uint q)) (take 7 (quintets x0 x1 x2 x3 0))"
| "base32_digits [x0, x1, x2] = map (\<lambda>q. base32hexchar (uint q)) (take 5 (quintets x0 x1 x2 0 0))"
| "base32_digits [x0, x1] = map (\<lambda>q. base32hexchar (uint q)) (take 4 (quintets x0 x1 0 0 0))"
| "base32_digits [x0] = map (\<lambda>q. base32hexchar (uint q)) (take 2 (quintets x0 0 0 0 0))"
| "base32_digits [] = []"

definition base32_padding :: "nat \<Rightarrow> nat" where
  "base32_padding l = (8 - l mod 8) mod 8"

definition base32_text :: "bool \<Rightarrow> bytes \<Rightarrow> string" where
  "base32_text padding p = base32_digits p @ (if padding then replicate (base32_padding (length (base32_digits p))) (CHR ''='') else [])"

lemma length_base32_digits:
  "length (base32_digits p) = length p div 5 * 8 +
     (if length p mod 5 = 4 then 7 else if length p mod 5 = 3 then 5 else if length p mod 5 = 2 then 4 else if length p mod 5 = 1 then 2 else 0)"
  by (induction p rule: base32_digits.induct) (simp_all add: quintets_def div_add_self1)

lemma base32_text_group: "base32_text pad (x0 # x1 # x2 # x3 # x4 # xs) = map (\<lambda>q. base32hexchar (uint q)) (quintets x0 x1 x2 x3 x4) @ base32_text pad xs"
  by (simp add: base32_text_def base32_padding_def quintets_def)

lemma replicate_small: "replicate 3 c = [c, c, c]" "replicate 4 c = [c, c, c, c]" "replicate 6 c = [c, c, c, c, c, c]"
  by (simp_all add: eval_nat_numeral)

lemma base32_loop_eqs:
  "base32_loop cap pad (x0 # x1 # x2 # x3 # x4 # xs) z =
     rbind (emits cap (map (\<lambda>q. base32hexchar (uint q)) (quintets x0 x1 x2 x3 x4)) z) (base32_loop cap pad xs)"
  "base32_loop cap pad [x0, x1, x2, x3] z = emits cap (base32_text pad [x0, x1, x2, x3]) z"
  "base32_loop cap pad [x0, x1, x2] z = emits cap (base32_text pad [x0, x1, x2]) z"
  "base32_loop cap pad [x0, x1] z = emits cap (base32_text pad [x0, x1]) z"
  "base32_loop cap pad [x0] z = emits cap (base32_text pad [x0]) z"
  by (simp_all add: base32_text_def base32_padding_def quintets_def replicate_small del: emits.simps)

lemma base32_loop_text:
  "length z + length (base32_text pad p) \<le> cap \<Longrightarrow> base32_loop cap pad p z = Inr (z @ base32_text pad p)"
proof (induction p arbitrary: z rule: base32_digits.induct)
  case (1 x0 x1 x2 x3 x4 xs)
  then show ?case by (simp add: base32_text_group base32_loop_eqs del: base32_loop.simps)
qed (simp_all add: base32_loop_eqs base32_text_def base32_padding_def del: base32_loop.simps(2-5) base32_digits.simps(2-5))


section \<open>The buffers\<close>

lemma length_base32_text_le:
  assumes "8 * (length p + 4) \<le> SIZE_MAX"
  shows "length (base32_text pad p) \<le> base32_size (length p) pad"
proof -
  define q r where "q = length p div 5" and "r = length p mod 5"
  have l: "length p = 5 * q + r" and r: "r \<in> {0, 1, 2, 3, 4}" unfolding q_def r_def by auto
  have d: "length (base32_digits p) = q * 8 + (if r = 4 then 7 else if r = 3 then 5 else if r = 2 then 4 else if r = 1 then 2 else 0)"
    unfolding length_base32_digits q_def r_def ..
  show ?thesis
  proof (cases pad)
    case True
    have "length (base32_text True p) \<le> 8 * q + (if r = 0 then 0 else 8)"
      using r by (auto simp: base32_text_def d base32_padding_def)
    also have "\<dots> \<le> 8 * (length p + 4) div 5" using r by (auto simp: l)
    finally show ?thesis using assms True by (simp add: base32_size_def)
  next
    case False
    have "8 * q \<le> 8 * length p div 5" by (simp add: l less_eq_div_iff_mult_less_eq)
    moreover have "size_t (8 * length p) = 8 * length p" using assms by simp
    ultimately show ?thesis using False r by (simp add: base32_text_def d base32_size_def flip: r_def)
  qed
qed

lemma base32hexmem_text:
  "8 * (length p + 4) \<le> SIZE_MAX \<Longrightarrow> base32hexmem True p pad = Inr (Some (base32_text pad p))"
  using length_base32_text_le [of p pad] by (simp add: base32hexmem_def base32_loop_text Let_def)

lemma unbase32_size_group: "unbase32_size (l + 8) = map_option (\<lambda>n. n + 5) (unbase32_size l)"
  by (simp add: unbase32_size_def Let_def div_add_self2)

lemma unbase32_loop_total:
  "unbase32_size (length cs) = Some n \<Longrightarrow> length z + n \<le> cap \<Longrightarrow> \<exists>r out. unbase32_loop cap cs z = Inr (r, out)"
proof (induction cap cs z arbitrary: n rule: unbase32_loop.induct)
  case (1 cap a b c d e f g h cs z)
  have "unbase32_size (length cs + 8) = Some n" using 1(2) by (simp add: eval_nat_numeral)
  then obtain m where m: "unbase32_size (length cs) = Some m" "n = m + 5"
    unfolding unbase32_size_group by auto
  then show ?case using 1(1) [OF _ _ m(1)] 1(3) by auto
qed (auto simp: unbase32_size_def)

section \<open>Decoding\<close>

lemma quintets_values:
  "q \<in> set (quintets x0 x1 x2 x3 x4) \<Longrightarrow> \<not> v32 (base32hexchar (uint q)) < 0"
  by (simp add: base32hexchar_props mask5 not_less)

lemma uint_quintet_masks: "uint (31 :: 8 word) = 31" "uint (15 :: 8 word) = 15" "uint (7 :: 8 word) = 7" "uint (3 :: 8 word) = 3" "uint (1 :: 8 word) = 1"
  by simp_all

lemma quintet_clean:
  "uint (push_bit 3 (x AND 3)) AND 31 AND 7 = 0" "uint (push_bit 1 (x AND 15)) AND 31 AND 1 = 0"
  "uint (push_bit 4 (x AND 1)) AND 31 AND 15 = 0" "uint (push_bit 2 (x AND 7)) AND 31 AND 3 = 0" for x :: "8 word"
proof -
  have "push_bit 3 (x AND 3) AND 31 AND 7 = 0" "push_bit 1 (x AND 15) AND 31 AND 1 = 0"
    "push_bit 4 (x AND 1) AND 31 AND 15 = 0" "push_bit 2 (x AND 7) AND 31 AND 3 = 0"
    unfolding and_masks by (rule byte_eqI8; simp only: bits_down; simp)+
  then have "uint (push_bit 3 (x AND 3) AND 31 AND 7) = 0" "uint (push_bit 1 (x AND 15) AND 31 AND 1) = 0"
    "uint (push_bit 4 (x AND 1) AND 31 AND 15) = 0" "uint (push_bit 2 (x AND 7) AND 31 AND 3) = 0" by simp_all
  then show "uint (push_bit 3 (x AND 3)) AND 31 AND 7 = 0" "uint (push_bit 1 (x AND 15)) AND 31 AND 1 = 0"
    "uint (push_bit 4 (x AND 1)) AND 31 AND 15 = 0" "uint (push_bit 2 (x AND 7)) AND 31 AND 3 = 0"
    by (simp_all only: unsigned_and_eq uint_quintet_masks)
qed

lemma take_quintets:
  "take 7 (quintets x0 x1 x2 x3 0) = [drop_bit 3 x0, push_bit 2 (x0 AND 7) OR drop_bit 6 x1, drop_bit 1 (x1 AND 63),
     push_bit 4 (x1 AND 1) OR drop_bit 4 x2, push_bit 1 (x2 AND 15) OR drop_bit 7 x3, drop_bit 2 (x3 AND 127), push_bit 3 (x3 AND 3)]"
  "take 5 (quintets x0 x1 x2 0 0) = [drop_bit 3 x0, push_bit 2 (x0 AND 7) OR drop_bit 6 x1, drop_bit 1 (x1 AND 63),
     push_bit 4 (x1 AND 1) OR drop_bit 4 x2, push_bit 1 (x2 AND 15)]"
  "take 4 (quintets x0 x1 0 0 0) = [drop_bit 3 x0, push_bit 2 (x0 AND 7) OR drop_bit 6 x1, drop_bit 1 (x1 AND 63), push_bit 4 (x1 AND 1)]"
  "take 2 (quintets x0 0 0 0 0) = [drop_bit 3 x0, push_bit 2 (x0 AND 7)]"
  by (simp_all add: quintets_def)

lemmas decode_octets = bad32_def base32hexchar_props mask5 not_less oct1_def oct2_def oct3_def oct4_def oct5_def word_of_quintet

lemma unbase32_loop_digits:
  "length z + length bs \<le> cap \<Longrightarrow> unbase32_loop cap (base32_digits bs) z = Inr (0, z @ bs)"
proof (induction bs arbitrary: z rule: base32_digits.induct)
  case (1 x0 x1 x2 x3 x4 xs)
  note b = bytes_of_quintets(1) [of x0 x1] bytes_of_quintets(2) [of x0 x1 x2] bytes_of_quintets(3) [of x1 x2 x3]
    bytes_of_quintets(4) [of x2 x3 x4] bytes_of_quintets(5) [of x3 x4]
  have "unbase32_loop cap (base32_digits (x0 # x1 # x2 # x3 # x4 # xs)) z =
      rbind (emits cap [x0, x1, x2, x3, x4] z) (unbase32_loop cap (base32_digits xs))"
    using b by (simp only: base32_digits.simps quintets_def list.map append.simps unbase32_loop.simps) (simp add: decode_octets)
  then show ?case using 1 by simp
next
  case (2 x0 x1 x2 x3)
  note b = bytes_of_quintets(1) [of x0 x1] bytes_of_quintets(2) [of x0 x1 x2] bytes_of_quintets(3) [of x1 x2 x3]
    bytes_of_quintets(4) [of x2 x3 0] quintet_clean(1) [of x3]
  show ?case
    using b 2 by (simp only: base32_digits.simps take_quintets list.map append.simps unbase32_loop.simps) (simp add: decode_octets and.assoc)
next
  case (3 x0 x1 x2)
  note b = bytes_of_quintets(1) [of x0 x1] bytes_of_quintets(2) [of x0 x1 x2] bytes_of_quintets(3) [of x1 x2 0] quintet_clean(2) [of x2]
  show ?case
    using b 3 by (simp only: base32_digits.simps take_quintets list.map append.simps unbase32_loop.simps) (simp add: decode_octets and.assoc)
next
  case (4 x0 x1)
  note b = bytes_of_quintets(1) [of x0 x1] bytes_of_quintets(2) [of x0 x1 0] quintet_clean(3) [of x1]
  show ?case
    using b 4 by (simp only: base32_digits.simps take_quintets list.map append.simps unbase32_loop.simps) (simp add: decode_octets and.assoc)
next
  case (5 x0)
  note b = bytes_of_quintets(1) [of x0 0] quintet_clean(4) [of x0]
  show ?case
    using b 5 by (simp only: base32_digits.simps take_quintets list.map append.simps unbase32_loop.simps) (simp add: decode_octets and.assoc)
qed simp


lemma mask_low:
  "C AND 1 = 0 \<Longrightarrow> n < 1 \<Longrightarrow> \<not> bit (C :: int) n" "C AND 3 = 0 \<Longrightarrow> n < 2 \<Longrightarrow> \<not> bit C n"
  "C AND 7 = 0 \<Longrightarrow> n < 3 \<Longrightarrow> \<not> bit C n" "C AND 15 = 0 \<Longrightarrow> n < 4 \<Longrightarrow> \<not> bit C n"
proof -
  have "C AND 1 = take_bit 1 C" "C AND 3 = take_bit 2 C" "C AND 7 = take_bit 3 C" "C AND 15 = take_bit 4 C"
    by (simp_all add: take_bit_eq_mask mask_eq_exp_minus_1)
  then show "C AND 1 = 0 \<Longrightarrow> n < 1 \<Longrightarrow> \<not> bit C n" "C AND 3 = 0 \<Longrightarrow> n < 2 \<Longrightarrow> \<not> bit C n"
    "C AND 7 = 0 \<Longrightarrow> n < 3 \<Longrightarrow> \<not> bit C n" "C AND 15 = 0 \<Longrightarrow> n < 4 \<Longrightarrow> \<not> bit C n"
    using bit_take_bit_iff [of 1 C n] bit_take_bit_iff [of 2 C n] bit_take_bit_iff [of 3 C n] bit_take_bit_iff [of 4 C n] by auto
qed

lemma clean_tails:
  "g AND 7 = 0 \<Longrightarrow> oct5 g 0 = 0" "e AND 1 = 0 \<Longrightarrow> oct4 e 0 0 = 0" "d AND 15 = 0 \<Longrightarrow> oct3 d 0 = 0"
  "b AND 3 = 0 \<Longrightarrow> oct2 b 0 0 = 0" "oct3 0 0 = 0" "oct4 0 0 0 = 0" "oct5 0 0 = 0"
proof -
  show "oct5 g 0 = 0" if "g AND 7 = 0" unfolding oct5_def
    by (rule byte_eqI8; simp only: bits_down; simp add: mask_low(3) [OF that])
  show "oct4 e 0 0 = 0" if "e AND 1 = 0" unfolding oct4_def
    by (rule byte_eqI8; simp only: bits_down; use mask_low(1) [OF that, of 0] in simp)
  show "oct3 d 0 = 0" if "d AND 15 = 0" unfolding oct3_def
    by (rule byte_eqI8; simp only: bits_down; simp add: mask_low(4) [OF that])
  show "oct2 b 0 0 = 0" if "b AND 3 = 0" unfolding oct2_def
    by (rule byte_eqI8; simp only: bits_down; simp add: mask_low(2) [OF that])
qed (simp_all add: oct3_def oct4_def oct5_def)

lemma digits_of_octets:
  assumes "\<not> bad32 [a, b, c, d, e, f, g, h]"
  shows "map (\<lambda>q. base32hexchar (uint q)) (quintets (oct1 (v32 a) (v32 b)) (oct2 (v32 b) (v32 c) (v32 d)) (oct3 (v32 d) (v32 e))
     (oct4 (v32 e) (v32 f) (v32 g)) (oct5 (v32 g) (v32 h))) = [a, b, c, d, e, f, g, h]"
proof -
  have n: "0 \<le> v32 a" "0 \<le> v32 b" "0 \<le> v32 c" "0 \<le> v32 d" "0 \<le> v32 e" "0 \<le> v32 f" "0 \<le> v32 g" "0 \<le> v32 h"
    using assms by (simp_all add: bad32_def)
  have u: "base32hexchar (uint (word_of_int (v32 x) :: 8 word)) = x" if "0 \<le> v32 x" for x
    using that v32_less [of x] by (simp add: uint_small base32hexchar_v32)
  show ?thesis
    unfolding quintets_of_bytes [OF n(1) v32_less n(2) v32_less n(3) v32_less n(4) v32_less n(5) v32_less n(6) v32_less n(7) v32_less n(8) v32_less]
    by (simp add: u n)
qed

lemma zero_digit: "v32 (CHR ''0'') = 0" "\<not> bad32 [CHR ''0'']"
  by (simp_all add: unbase32hexchar_def code_def bad32_def)

lemma digits_of_tails:
  "\<not> bad32 [a, b, c, d, e, f, g] \<Longrightarrow> v32 g AND 7 = 0 \<Longrightarrow>
     base32_digits [oct1 (v32 a) (v32 b), oct2 (v32 b) (v32 c) (v32 d), oct3 (v32 d) (v32 e), oct4 (v32 e) (v32 f) (v32 g)] = [a, b, c, d, e, f, g]"
  "\<not> bad32 [a, b, c, d, e] \<Longrightarrow> v32 e AND 1 = 0 \<Longrightarrow>
     base32_digits [oct1 (v32 a) (v32 b), oct2 (v32 b) (v32 c) (v32 d), oct3 (v32 d) (v32 e)] = [a, b, c, d, e]"
  "\<not> bad32 [a, b, c, d] \<Longrightarrow> v32 d AND 15 = 0 \<Longrightarrow>
     base32_digits [oct1 (v32 a) (v32 b), oct2 (v32 b) (v32 c) (v32 d)] = [a, b, c, d]"
  "\<not> bad32 [a, b] \<Longrightarrow> v32 b AND 3 = 0 \<Longrightarrow> base32_digits [oct1 (v32 a) (v32 b)] = [a, b]"
proof -
  let ?o = "CHR ''0''"
  note z = clean_tails zero_digit(1)
  show "base32_digits [oct1 (v32 a) (v32 b), oct2 (v32 b) (v32 c) (v32 d), oct3 (v32 d) (v32 e), oct4 (v32 e) (v32 f) (v32 g)] = [a, b, c, d, e, f, g]"
    if "\<not> bad32 [a, b, c, d, e, f, g]" "v32 g AND 7 = 0"
    using digits_of_octets [of a b c d e f g ?o] that zero_digit(2) by (simp add: bad32_def z flip: take_map)
  show "base32_digits [oct1 (v32 a) (v32 b), oct2 (v32 b) (v32 c) (v32 d), oct3 (v32 d) (v32 e)] = [a, b, c, d, e]"
    if "\<not> bad32 [a, b, c, d, e]" "v32 e AND 1 = 0"
    using digits_of_octets [of a b c d e ?o ?o ?o] that zero_digit(2) by (simp add: bad32_def z flip: take_map)
  show "base32_digits [oct1 (v32 a) (v32 b), oct2 (v32 b) (v32 c) (v32 d)] = [a, b, c, d]"
    if "\<not> bad32 [a, b, c, d]" "v32 d AND 15 = 0"
    using digits_of_octets [of a b c d ?o ?o ?o ?o] that zero_digit(2) by (simp add: bad32_def z flip: take_map)
  show "base32_digits [oct1 (v32 a) (v32 b)] = [a, b]" if "\<not> bad32 [a, b]" "v32 b AND 3 = 0"
    using digits_of_octets [of a b ?o ?o ?o ?o ?o ?o] that zero_digit(2) by (simp add: bad32_def z flip: take_map)
qed

lemma unbase32_loop_decodes:
  "unbase32_loop cap cs z = Inr (r, out) \<Longrightarrow> r = - EINVAL \<or> r = 0 \<and> (\<exists>bs. out = z @ bs \<and> base32_digits bs = cs)"
proof (induction cap cs z rule: unbase32_loop.induct)
  case (1 cap a b c d e f g h cs z)
  show ?case
  proof (cases "bad32 [a, b, c, d, e, f, g, h]")
    case False
    let ?bs = "[oct1 (v32 a) (v32 b), oct2 (v32 b) (v32 c) (v32 d), oct3 (v32 d) (v32 e), oct4 (v32 e) (v32 f) (v32 g), oct5 (v32 g) (v32 h)]"
    obtain t where t: "emits cap ?bs z = Inr t" "unbase32_loop cap cs t = Inr (r, out)"
      using 1(2) False by (auto simp: res_iff simp del: emits.simps)
    have "t = z @ ?bs" using t(1) by (auto simp: res_iff emit_def split: if_splits)
    then show ?thesis using 1(1) [OF False] t digits_of_octets [OF False] by (fastforce simp: codec_consts)
  qed (use 1(2) in simp)
qed (auto simp: res_iff emit_def digits_of_tails simp del: base32_digits.simps(2-5) split: if_splits)


lemma base32_digits_eqD:
  assumes "base32_digits bs = base32_digits bs'"
  shows "bs = bs'"
proof -
  have "unbase32_loop (length bs + length bs') (base32_digits bs) [] = Inr (0, bs)"
    "unbase32_loop (length bs + length bs') (base32_digits bs') [] = Inr (0, bs')"
    by (simp_all add: unbase32_loop_digits)
  then show ?thesis unfolding assms by simp
qed

lemma unbase32_size_digits: "unbase32_size (length (base32_digits bs)) = Some (length bs)"
proof (induction bs rule: base32_digits.induct)
  case (1 x0 x1 x2 x3 x4 xs)
  have e: "length (base32_digits (x0 # x1 # x2 # x3 # x4 # xs)) = length (base32_digits xs) + 8" by (simp add: quintets_def)
  show ?case unfolding e unbase32_size_group 1 by simp
qed (simp_all add: unbase32_size_def quintets_def)

section \<open>Padding\<close>

lemma strip_padding_replicate:
  "k \<le> n \<Longrightarrow> cs = [] \<or> last cs \<noteq> CHR ''='' \<Longrightarrow> strip_padding n (cs @ replicate k (CHR ''='')) = cs"
proof (induction n arbitrary: k)
  case (Suc n)
  show ?case
  proof (cases k)
    case (Suc k')
    have e: "cs @ replicate k (CHR ''='') = (cs @ replicate k' (CHR ''='')) @ [CHR ''='']"
      unfolding Suc by (simp add: replicate_append_same)
    show ?thesis unfolding e using Suc.IH [of k'] Suc.prems Suc by (simp del: append_assoc)
  qed (use Suc.prems in auto)
qed simp

lemma strip_padding_split: "\<exists>k \<le> n. cs = strip_padding n cs @ replicate k (CHR ''='')"
proof (induction n cs rule: strip_padding.induct)
  case (2 n cs)
  show ?case
  proof (cases "cs \<noteq> [] \<and> last cs = CHR ''=''")
    case True
    then obtain k where "k \<le> n" "butlast cs = strip_padding n (butlast cs) @ replicate k (CHR ''='')" using 2 by blast
    moreover have "cs = butlast cs @ [CHR ''='']" using True by (metis append_butlast_last_id)
    ultimately have "Suc k \<le> Suc n" "cs = strip_padding (Suc n) cs @ replicate (Suc k) (CHR ''='')"
      using True by (simp_all add: replicate_append_same) (metis append.assoc replicate_append_same)
    then show ?thesis by blast
  qed auto
qed simp

lemma base32_digits_no_pad: "CHR ''='' \<notin> set (base32_digits bs)"
  by (induction bs rule: base32_digits.induct) (auto simp: base32hexchar_props(1) [symmetric] dest!: in_set_takeD)


lemma padding_unique: "k \<le> 7 \<Longrightarrow> (l + k) mod 8 = 0 \<Longrightarrow> k = base32_padding l"
proof -
  assume k: "k \<le> 7" "(l + k) mod 8 = 0"
  define r q where "r = l mod 8" and "q = (r + k) div 8"
  have "(r + k) mod 8 = 0" unfolding r_def using k(2) by (simp add: mod_add_left_eq)
  then have q: "r + k = 8 * q" unfolding q_def by presburger
  have "r < 8" unfolding r_def by simp
  then have "q = 0 \<or> q = 1" using q k(1) by linarith
  then show ?thesis unfolding base32_padding_def r_def [symmetric] using q k(1) by auto
qed

lemma base32_text_iff:
  "base32_text pad bs = t \<longleftrightarrow> (pad \<longrightarrow> length t mod 8 = 0) \<and> base32_digits bs = (if pad then strip_padding 7 t else t)"
proof (cases pad)
  case True
  let ?d = "base32_digits bs"
  have le: "base32_padding (length ?d) \<le> 7" by (simp add: base32_padding_def)
  have last: "?d = [] \<or> last ?d \<noteq> CHR ''=''" using base32_digits_no_pad [of bs] by (metis last_in_set)
  have m: "(length ?d + base32_padding (length ?d)) mod 8 = 0" 
  proof -
    have "length ?d mod 8 < 8" by simp
    then have "length ?d mod 8 + base32_padding (length ?d) \<in> {0, 8}" unfolding base32_padding_def by (cases "length ?d mod 8 = 0") auto
    then have "(length ?d mod 8 + base32_padding (length ?d)) mod 8 = 0" by auto
    then show ?thesis by (simp only: mod_add_left_eq)
  qed
  obtain k where k: "k \<le> 7" "t = strip_padding 7 t @ replicate k (CHR ''='')" using strip_padding_split by blast
  have "length t mod 8 = (length (strip_padding 7 t) + k) mod 8" by (subst k(2)) simp
  then show ?thesis
    using k strip_padding_replicate [OF le last] m padding_unique [OF k(1)] True
    by (auto simp: base32_text_def)
qed (simp add: base32_text_def)

lemma unbase32hexmem_result:
  assumes "length t < SIZE_MAX"
  obtains r out where "unbase32hexmem True t (length t) pad = Inr (r, out)" "r \<in> {0, - EINVAL}"
    "\<And>bs. r = 0 \<and> out = bs \<longleftrightarrow> base32_text pad bs = t"
proof -
  let ?s = "if pad then strip_padding 7 t else t"
  consider "pad \<and> length t mod 8 \<noteq> 0" | "pad \<longrightarrow> length t mod 8 = 0" "unbase32_size (length ?s) = None"
    | n where "pad \<longrightarrow> length t mod 8 = 0" "unbase32_size (length ?s) = Some n" by fastforce
  then show ?thesis
  proof cases
    case 1
    then show ?thesis using that [of "- EINVAL" "[]"] assms
      by (simp add: unbase32hexmem_def base32_text_iff codec_consts)
  next
    case 2
    have "base32_text pad bs \<noteq> t" for bs
    proof
      assume "base32_text pad bs = t"
      then have "base32_digits bs = ?s" unfolding base32_text_iff by simp
      then show False using unbase32_size_digits [of bs] 2(2) by simp
    qed
    then show ?thesis using that [of "- EINVAL" "[]"] assms 2
      by (simp add: unbase32hexmem_def codec_consts Let_def split: if_splits)
  next
    case (3 n)
    obtain r out where l: "unbase32_loop (n + 1) ?s [] = Inr (r, out)" using unbase32_loop_total [OF 3(2), of "[]" "n + 1"] by auto
    show ?thesis
    proof (cases "r = 0")
      case True
      then obtain bs where bs: "out = bs" "base32_digits bs = ?s" using unbase32_loop_decodes [OF l] by (auto simp: codec_consts)
      then have n: "n = length bs" using unbase32_size_digits [of bs] 3(2) by simp
      have "unbase32hexmem True t (length t) pad = Inr (0, bs)"
        using l bs(1) True n 3 assms by (simp add: unbase32hexmem_def Let_def split: if_splits)
      moreover have "base32_text pad cs = t \<longleftrightarrow> bs = cs" for cs
        using bs(2) 3(1) base32_digits_eqD [of bs cs] unfolding base32_text_iff by auto
      ultimately show ?thesis using that [of 0 bs] by simp
    next
      case False
      then have r: "r = - EINVAL" using unbase32_loop_decodes [OF l] by simp
      have "base32_text pad bs \<noteq> t" for bs
      proof
        assume "base32_text pad bs = t"
        then have d: "base32_digits bs = ?s" unfolding base32_text_iff by simp
        then have "n = length bs" using unbase32_size_digits [of bs] 3(2) by simp
        then show False using l unbase32_loop_digits [of "[]" bs "n + 1"] False unfolding d by simp
      qed
      then show ?thesis using that [of "- EINVAL" "[]"] l r 3 assms
        by (simp add: unbase32hexmem_def codec_consts Let_def split: if_splits)
    qed
  qed
qed


section \<open>Base32hex text and back\<close>

text \<open>
  C15. The base32hex decoder is exactly the inverse of the encoder, with and without padding: every text
  is decoded inside the buffers, and with success just for the texts the encoder makes, to the bytes they
  are made from. Anything else (other characters, other padding, bits behind the last byte) is invalid.
\<close>

theorem unbase32hexmem_inverts_base32hexmem:
  assumes "length t < SIZE_MAX"
  shows "\<exists>r out. unbase32hexmem True t (length t) padding = Inr (r, out) \<and> r \<in> {0, - EINVAL} \<and>
    (\<forall>bs. 8 * (length bs + 4) \<le> SIZE_MAX \<longrightarrow> (r = 0 \<and> out = bs \<longleftrightarrow> base32hexmem True bs padding = Inr (Some t)))"
proof -
  obtain r out where "unbase32hexmem True t (length t) padding = Inr (r, out)" "r \<in> {0, - EINVAL}"
    "\<And>bs. r = 0 \<and> out = bs \<longleftrightarrow> base32_text padding bs = t"
    by (rule unbase32hexmem_result [OF assms, of padding]) blast
  then show ?thesis by (intro exI [of _ r] exI [of _ out]) (simp add: base32hexmem_text)
qed

theorem unbase32hexmem_inverts_base32hexmem_witness:
  "unbase32hexmem True ''C5H0===='' 8 True = Inr (0, [0x61, 0x62])"
proof -
  have "base32_text True [0x61, 0x62] = ''C5H0====''" by (simp add: base32_text_def base32_padding_def quintets_def base32hexchar_def replicate_small)
  then have "base32hexmem True [0x61, 0x62] True = Inr (Some ''C5H0===='')"
    using base32hexmem_text [of "[0x61, 0x62]" True] by (simp add: SIZE_MAX_def)
  then obtain r out where "unbase32hexmem True ''C5H0===='' (length ''C5H0===='') True = Inr (r, out)" "r = 0 \<and> out = [0x61, 0x62]"
    using unbase32hexmem_inverts_base32hexmem [of "''C5H0===='' " True] by (fastforce simp: SIZE_MAX_def)
  then show ?thesis by (simp add: eval_nat_numeral)
qed

text \<open>
  The size of the encoded text is computed as \<open>8 * (l + 4) / 5\<close> in \<open>size_t\<close>, which wraps on the
  32-bit target: for \<open>2 ^ 29 - 4\<close> bytes the buffer has one byte, and the encoder writes past it.
\<close>

theorem base32hexmem_size_wraps:
  assumes "length p = 536870908"
  shows "base32hexmem True p True = Inl OutOfBounds"
proof -
  have five: "5 \<le> length p" using assms by simp
  obtain x0 x1 x2 x3 x4 xs where p: "p = x0 # x1 # x2 # x3 # x4 # xs"
    using five by (auto simp: Suc_le_length_iff eval_nat_numeral)
  have "base32_size (length p) True = 0" unfolding assms by (simp add: base32_size_def size_t_def SIZE_MAX_def)
  then show ?thesis unfolding base32hexmem_def p
    by (simp add: base32_loop_eqs emits_full quintets_def del: base32_loop.simps emits.simps)
qed

theorem base32hexmem_size_wraps_witness: "base32hexmem True (replicate 536870908 0) True = Inl OutOfBounds"
  by (rule base32hexmem_size_wraps) simp

end
