(* ===== verification/Base64.thy ===== *)
theory Base64
  imports HexDecOct
begin

unbundle bit_operations_syntax

text \<open>
  Base64 text (\<open>work/crosscompile/systemd-main/src/basic/hexdecoct.c\<close>, from \<open>maybe_line_break\<close> on): the
  encoder with its line breaks and the decoder with white space and padding (the encoder that appends
  and the hexadecimal dump are in \<open>TextLayout\<close>). The decoder is shown to be the exact inverse of the encoder.
\<close>

section \<open>The encoder\<close>

definition maybe_line_break :: "nat \<Rightarrow> nat \<Rightarrow> string \<Rightarrow> string res" where
  "maybe_line_break cap line_break z =
     (if line_break = SIZE_MAX then Inr z
      else if length z mod (line_break + 1) = line_break then emit cap (CHR ''\<newline>'') z
      else Inr z)"

fun emits_lines :: "nat \<Rightarrow> nat \<Rightarrow> string \<Rightarrow> string \<Rightarrow> string res" where
  \<comment> \<open>each character with the line break it may need\<close>
  "emits_lines cap line_break [] z = Inr z"
| "emits_lines cap line_break (c # cs) z =
     rbind (maybe_line_break cap line_break z) (\<lambda>z. rbind (emit cap c z) (emits_lines cap line_break cs))"

fun base64_loop :: "nat \<Rightarrow> nat \<Rightarrow> bytes \<Rightarrow> string \<Rightarrow> string res" where
  "base64_loop cap lb (x0 # x1 # x2 # xs) z =
     rbind (emits_lines cap lb
       [base64char (uint (drop_bit 2 x0)),
        base64char (uint (push_bit 4 (x0 AND 3) OR drop_bit 4 x1)),
        base64char (uint (push_bit 2 (x1 AND 15) OR drop_bit 6 x2)),
        base64char (uint (x2 AND 63))] z) (base64_loop cap lb xs)"
| "base64_loop cap lb [x0, x1] z =
     emits_lines cap lb
       [base64char (uint (drop_bit 2 x0)),
        base64char (uint (push_bit 4 (x0 AND 3) OR drop_bit 4 x1)),
        base64char (uint (push_bit 2 (x1 AND 15))),
        CHR ''=''] z"
| "base64_loop cap lb [x0] z =
     emits_lines cap lb
       [base64char (uint (drop_bit 2 x0)),
        base64char (uint (push_bit 4 (x0 AND 3))),
        CHR ''='', CHR ''=''] z"
| "base64_loop cap lb [] z = Inr z"

definition base64mem_full :: "bool \<Rightarrow> bytes \<Rightarrow> nat \<Rightarrow> (int \<times> string) res" where
  "base64mem_full ok p line_break = rbind (rassert (0 < line_break) AssertFail) (\<lambda>_.
     let m0 = size_t (4 * (length p + 2)) div 3 + 1;
         m = (if line_break \<noteq> SIZE_MAX then size_t (m0 + m0 div line_break) else m0) in
     if \<not> ok then Inr (- ENOMEM, [])
     else rbind (base64_loop m line_break p []) (\<lambda>z.
          rbind (terminated m z (CHR 0x00)) (\<lambda>z. Inr (int (length z), z))))"

definition base64mem :: "bool \<Rightarrow> bytes \<Rightarrow> (int \<times> string) res" where
  "base64mem ok p = base64mem_full ok p SIZE_MAX"

section \<open>The decoder\<close>

definition unbase64_next :: "string \<Rightarrow> int \<times> string" where
  "unbase64_next cs = (case dropWhile is_white cs of
      [] \<Rightarrow> (- EPIPE, [])
    | c # rest \<Rightarrow>
        (let r = (if c = CHR ''='' then INT_MAX else unbase64char c) in
         if c \<noteq> CHR ''='' \<and> r < 0 then (r, c # rest) else (r, dropWhile is_white rest)))"

lemma unbase64_next_shorter: "unbase64_next cs = (r, rest) \<Longrightarrow> 0 \<le> r \<Longrightarrow> length rest < length cs"
  using length_dropWhile_le [of is_white cs]
  by (auto simp: unbase64_next_def codec_consts Let_def split: list.splits if_splits
      intro: le_less_trans [OF length_dropWhile_le])

definition unbase64_finish :: "nat \<Rightarrow> bytes \<Rightarrow> (int \<times> bytes) res" where
  "unbase64_finish len z = rbind (terminated (len + 1) z 0) (\<lambda>z.
     rbind (rassert (length z \<le> len) AssertFail) (\<lambda>_. Inr (0, z)))"

definition octet1 :: "int \<Rightarrow> int \<Rightarrow> 8 word" where \<comment> \<open>XXXXXXYY\<close>
  "octet1 a b = push_bit 2 (word_of_int a) OR drop_bit 4 (word_of_int b)"

definition octet2 :: "int \<Rightarrow> int \<Rightarrow> 8 word" where \<comment> \<open>YYYYZZZZ\<close>
  "octet2 b c = push_bit 4 (word_of_int b) OR drop_bit 2 (word_of_int c)"

definition octet3 :: "int \<Rightarrow> int \<Rightarrow> 8 word" where \<comment> \<open>ZZWWWWWW\<close>
  "octet3 c d = push_bit 6 (word_of_int c) OR word_of_int d"

function unbase64_loop :: "nat \<Rightarrow> string \<Rightarrow> bytes \<Rightarrow> (int \<times> bytes) res" where
  "unbase64_loop len l z =
     (let (a, la) = unbase64_next l in
      if a = - EPIPE then unbase64_finish len z
      else if a < 0 then Inr (a, [])
      else if a = INT_MAX then Inr (- EINVAL, [])
      else
       (let (b, lb) = unbase64_next la in
        if b < 0 then Inr (b, [])
        else if b = INT_MAX then Inr (- EINVAL, [])
        else
         (let (c, lc) = unbase64_next lb in
          if c < 0 then Inr (c, [])
          else
           (let (d, ld) = unbase64_next lc in
            if d < 0 then Inr (d, [])
            else if c = INT_MAX
            then (if d \<noteq> INT_MAX then Inr (- EINVAL, [])
                  else if b AND 15 \<noteq> 0 then Inr (- EINVAL, [])
                  else if ld \<noteq> [] then Inr (- ENAMETOOLONG, [])
                  else rbind (emits (len + 1) [octet1 a b] z) (unbase64_finish len))
            else if d = INT_MAX
            then (if c AND 3 \<noteq> 0 then Inr (- EINVAL, [])
                  else if ld \<noteq> [] then Inr (- ENAMETOOLONG, [])
                  else rbind (emits (len + 1) [octet1 a b, octet2 b c] z) (unbase64_finish len))
            else rbind (emits (len + 1) [octet1 a b, octet2 b c, octet3 c d] z) (unbase64_loop len ld)))))"
  by pat_completeness auto
termination
proof (relation "measure (\<lambda>(len, l, z). length l)", goal_cases)
  case (2 len l z x a la xa b lb xb c lc xc d ld xd)
  have "length la < length l" using unbase64_next_shorter [of l a la] 2 by simp
  moreover have "length lb < length la" using unbase64_next_shorter [of la b lb] 2 by simp
  moreover have "length lc < length lb" using unbase64_next_shorter [of lb c lc] 2 by simp
  moreover have "length ld < length lc" using unbase64_next_shorter [of lc d ld] 2 by simp
  ultimately show ?case by simp
qed simp

declare unbase64_loop.simps [simp del]

definition data_room :: "nat \<Rightarrow> nat" where \<comment> \<open>the buffer for a text of this length\<close>
  "data_room l = l div 4 * 3 + (if l mod 4 \<noteq> 0 then l mod 4 - 1 else 0)"

definition unbase64mem_full :: "bool \<Rightarrow> string \<Rightarrow> nat \<Rightarrow> (int \<times> bytes) res" where
  "unbase64mem_full ok p l = rbind (text_of p l) (\<lambda>cs.
     let len = data_room (length cs) in
     if \<not> ok then Inr (- ENOMEM, []) else unbase64_loop len cs [])"


section \<open>The text of some bytes\<close>

fun base64_text :: "bytes \<Rightarrow> string" where
  "base64_text (x0 # x1 # x2 # xs) =
     base64char (uint (drop_bit 2 x0)) # base64char (uint (push_bit 4 (x0 AND 3) OR drop_bit 4 x1)) #
     base64char (uint (push_bit 2 (x1 AND 15) OR drop_bit 6 x2)) # base64char (uint (x2 AND 63)) # base64_text xs"
| "base64_text [x0, x1] =
     [base64char (uint (drop_bit 2 x0)), base64char (uint (push_bit 4 (x0 AND 3) OR drop_bit 4 x1)),
      base64char (uint (push_bit 2 (x1 AND 15))), CHR ''='']"
| "base64_text [x0] = [base64char (uint (drop_bit 2 x0)), base64char (uint (push_bit 4 (x0 AND 3))), CHR ''='', CHR ''='']"
| "base64_text [] = []"

text \<open>The same with line breaks, \<open>k\<close> characters after the last one.\<close>

fun wrapped :: "nat \<Rightarrow> nat \<Rightarrow> string \<Rightarrow> string" where
  "wrapped lb k [] = []"
| "wrapped lb k (c # cs) = (if k = lb then CHR ''\<newline>'' # c # wrapped lb 1 cs else c # wrapped lb (k + 1) cs)"

lemma emits_lines_append:
  "emits_lines cap lb (xs @ ys) z = rbind (emits_lines cap lb xs z) (emits_lines cap lb ys)"
proof (induction xs arbitrary: z)
  case (Cons x xs)
  then have "emits_lines cap lb (xs @ ys) = (\<lambda>z. rbind (emits_lines cap lb xs z) (emits_lines cap lb ys))" by blast
  then show ?case by (simp add: rbind_assoc)
qed simp

lemma base64_loop_text: "base64_loop cap lb p z = emits_lines cap lb (base64_text p) z"
proof (induction p arbitrary: z rule: base64_text.induct)
  case (1 x0 x1 x2 xs)
  have "base64_loop cap lb xs = emits_lines cap lb (base64_text xs)" using 1 by blast
  then show ?case
    using emits_lines_append [of cap lb "[base64char (uint (drop_bit 2 x0)), base64char (uint (push_bit 4 (x0 AND 3) OR drop_bit 4 x1)),
      base64char (uint (push_bit 2 (x1 AND 15) OR drop_bit 6 x2)), base64char (uint (x2 AND 63))]" "base64_text xs" z]
    by simp
qed simp_all

lemma length_base64_text: "length (base64_text p) = 4 * ((length p + 2) div 3)"
proof (induction p rule: base64_text.induct)
  case (1 x0 x1 x2 xs)
  have "(length (x0 # x1 # x2 # xs) + 2) div 3 = (length xs + 2) div 3 + 1"
  proof -
    have e: "length (x0 # x1 # x2 # xs) + 2 = (length xs + 2) + 3" by simp
    show ?thesis unfolding e by (rule div_add_self2) simp
  qed
  then show ?case using 1 by simp
qed simp_all

lemma emits_lines_plain:
  "length z + length cs \<le> cap \<Longrightarrow> emits_lines cap SIZE_MAX cs z = Inr (z @ cs)"
  by (induction cs arbitrary: z) (simp_all add: maybe_line_break_def)

lemma emits_lines_wrapped:
  assumes "0 < lb" "lb < SIZE_MAX" "length z + length (wrapped lb (length z mod (lb + 1)) cs) \<le> cap"
  shows "emits_lines cap lb cs z = Inr (z @ wrapped lb (length z mod (lb + 1)) cs)"
  using assms(3)
proof (induction cs arbitrary: z)
  case (Cons c cs)
  show ?case
  proof (cases "length z mod (lb + 1) = lb")
    case True
    then have m: "Suc (Suc (length z)) mod Suc lb = 1"
      using assms(1) by (simp add: mod_Suc)
    show ?thesis using Cons.prems Cons.IH [of "z @ [CHR ''\<newline>'', c]"] True m assms
      by (simp add: maybe_line_break_def)
  next
    case False
    then have m: "Suc (length z) mod Suc lb = Suc (length z mod Suc lb)" by (simp add: mod_Suc)
    show ?thesis using Cons.prems Cons.IH [of "z @ [c]"] False m assms
      by (simp add: maybe_line_break_def)
  qed
qed simp

lemma length_wrapped: "0 < lb \<Longrightarrow> k \<le> lb \<Longrightarrow> length (wrapped lb k cs) = length cs + (k + length cs - 1) div lb"
proof (induction cs arbitrary: k)
  case (Cons c cs)
  show ?case
  proof (cases "k = lb")
    case True
    have "length (wrapped lb 1 cs) = length cs + length cs div lb" using Cons.IH [of 1] Cons.prems by simp
    then show ?thesis using True Cons.prems div_add_self1 [of lb "length cs"] by simp
  next
    case False
    then show ?thesis using Cons.IH [of "k + 1"] Cons.prems by simp
  qed
qed auto

lemma inked_wrapped: "inked (wrapped lb k cs) = inked cs"
  by (induction lb k cs rule: wrapped.induct) (simp_all add: is_white_def)

lemma newline_positions:
  "0 < lb \<Longrightarrow> k \<le> lb \<Longrightarrow> CHR ''\<newline>'' \<notin> set cs \<Longrightarrow> i < length (wrapped lb k cs) \<Longrightarrow>
     wrapped lb k cs ! i = CHR ''\<newline>'' \<longleftrightarrow> (k + i) mod (lb + 1) = lb"
proof (induction lb k cs arbitrary: i rule: wrapped.induct)
  case (2 lb k c cs)
  show ?case
  proof (cases "k = lb")
    case True
    consider "i = 0" | "i = 1" | j where "i = Suc (Suc j)" by (metis One_nat_def not0_implies_Suc)
    then show ?thesis
    proof cases
      case 3
      have "(lb + Suc (Suc j)) mod (lb + 1) = (1 + j) mod (lb + 1)"
        by (metis add.commute add.left_commute mod_add_self1 plus_1_eq_Suc)
      then show ?thesis using 2(1) [OF True, of j] 2(3-) True 3 by simp
    qed (use True 2(3-) in auto)
  next
    case False
    then show ?thesis using 2(2) [OF False, of "i - 1"] 2(3-) by (cases i) auto
  qed
qed simp


definition base64_lines :: "nat \<Rightarrow> bytes \<Rightarrow> string" where \<comment> \<open>the text the encoder makes\<close>
  "base64_lines lb p = (if lb = SIZE_MAX then base64_text p else wrapped lb 0 (base64_text p))"

lemma base64_text_chars: "c \<in> set (base64_text p) \<Longrightarrow> c = CHR ''='' \<or> (\<exists>n. c = base64char n)"
  by (induction p rule: base64_text.induct) auto

lemma base64_alphabet: "list_all (\<lambda>n. \<not> is_white (base64char n) \<and> base64char n \<noteq> CHR ''='' \<and> unbase64char (base64char n) = n) [0..63]"
  by code_simp

lemma base64char_mask: "base64char (n AND 63) = base64char n"
  by (simp add: base64char_def and.assoc)

lemma mask6: "0 \<le> n AND 63" "n AND (63 :: int) \<le> 63"
proof -
  have "n AND 63 = take_bit 6 n" by (simp add: take_bit_eq_mask mask_eq_exp_minus_1)
  then show "0 \<le> n AND 63" "n AND 63 \<le> 63" using take_bit_int_less_exp [of 6 n] by simp_all
qed

lemma base64char_props:
  "\<not> is_white (base64char n)" "base64char n \<noteq> CHR ''=''" "unbase64char (base64char n) = n AND 63"
proof -
  have "n AND 63 \<in> set [0..63]" using mask6 [of n] by simp
  then have "\<not> is_white (base64char (n AND 63)) \<and> base64char (n AND 63) \<noteq> CHR ''='' \<and> unbase64char (base64char (n AND 63)) = n AND 63"
    using base64_alphabet unfolding list_all_iff by blast
  then show "\<not> is_white (base64char n)" "base64char n \<noteq> CHR ''=''" "unbase64char (base64char n) = n AND 63"
    unfolding base64char_mask by blast+
qed

lemma not_white_pad [simp]: "\<not> is_white (CHR ''='')"
  by (simp add: is_white_def)

lemma inked_base64_text [simp]: "inked (base64_text p) = base64_text p"
  by (induction p rule: base64_text.induct) (simp_all add: base64char_props)

lemma base64mem_lines:
  assumes "0 < lb" "lb \<le> SIZE_MAX" "4 * (length p + 2) \<le> SIZE_MAX"
  shows "base64mem_full True p lb = Inr (int (length (base64_lines lb p)), base64_lines lb p)" "length (base64_lines lb p) < SIZE_MAX"
proof -
  let ?n = "length (base64_text p)" and ?m = "4 * (length p + 2) div 3 + 1"
  have "4 * ((length p + 2) div 3) \<le> 4 * (length p + 2) div 3"
    using div_times_less_eq_dividend [of "length p + 2" 3] by (simp add: less_eq_div_iff_mult_less_eq)
  then have n: "?n < ?m" unfolding length_base64_text by simp
  have w: "length (wrapped lb 0 (base64_text p)) < ?m + ?m div lb" if "lb < SIZE_MAX"
  proof -
    have "(?n - 1) div lb \<le> ?m div lb" using n by (intro div_le_mono) simp
    then show ?thesis using n assms(1) by (simp add: length_wrapped)
  qed
  have "?m \<le> 1431655766" using assms(3) unfolding SIZE_MAX_def by linarith
  then have "?m + ?m div lb \<le> SIZE_MAX" using div_le_dividend [of ?m lb] unfolding SIZE_MAX_def by linarith
  then have s: "size_t (?m + ?m div lb) = ?m + ?m div lb" by (rule size_t_id)
  show "length (base64_lines lb p) < SIZE_MAX"
    using n w assms(2) \<open>?m \<le> 1431655766\<close> \<open>?m + ?m div lb \<le> SIZE_MAX\<close> by (auto simp: base64_lines_def SIZE_MAX_def)
  show "base64mem_full True p lb = Inr (int (length (base64_lines lb p)), base64_lines lb p)"
  proof (cases "lb = SIZE_MAX")
    case True
    then show ?thesis using n assms
      by (simp add: base64mem_full_def base64_loop_text emits_lines_plain base64_lines_def Let_def)
  next
    case False
    then have lb: "lb < SIZE_MAX" using assms by simp
    show ?thesis using w [OF lb] s False assms emits_lines_wrapped [of lb "[]" "base64_text p" "?m + ?m div lb"] lb
      by (simp add: base64mem_full_def base64_loop_text base64_lines_def Let_def)
  qed
qed


section \<open>What the decoder reads\<close>

definition digit64 :: "char \<Rightarrow> int" where
  "digit64 c = (if c = CHR ''='' then INT_MAX else unbase64char c)"

definition bad64 :: "char \<Rightarrow> bool" where
  "bad64 c \<longleftrightarrow> c \<noteq> CHR ''='' \<and> unbase64char c < 0"

lemma unbase64char_bounds: "unbase64char c < 64" "unbase64char c < 0 \<Longrightarrow> unbase64char c = - EINVAL" "unbase64char (CHR ''='') = - EINVAL"
  by (auto simp: unbase64char_def codec_consts code_def)

lemma digit64_facts:
  "digit64 c < 0 \<longleftrightarrow> bad64 c" "bad64 c \<Longrightarrow> digit64 c = - EINVAL" "digit64 c = INT_MAX \<longleftrightarrow> c = CHR ''=''" "digit64 c \<noteq> - EPIPE"
  "unbase64char c < 0 \<longleftrightarrow> bad64 c \<or> c = CHR ''=''"
proof -
  have 1: "unbase64char c < 64" by (rule unbase64char_bounds)
  have 2: "0 \<le> unbase64char c \<or> unbase64char c = - 22"
    using unbase64char_bounds(2) [of c] unfolding EINVAL_def by linarith
  show "digit64 c < 0 \<longleftrightarrow> bad64 c" by (auto simp: digit64_def bad64_def INT_MAX_def)
  show "bad64 c \<Longrightarrow> digit64 c = - EINVAL" using unbase64char_bounds(2) [of c] by (simp add: digit64_def bad64_def)
  show "digit64 c = INT_MAX \<longleftrightarrow> c = CHR ''=''" using 1 by (auto simp: digit64_def INT_MAX_def)
  show "digit64 c \<noteq> - EPIPE" using 2 by (auto simp: digit64_def INT_MAX_def EPIPE_def)
  show "unbase64char c < 0 \<longleftrightarrow> bad64 c \<or> c = CHR ''=''" using unbase64char_bounds(3) by (auto simp: bad64_def EINVAL_def)
qed

lemma unbase64_next_inked:
  "inked cs = [] \<Longrightarrow> unbase64_next cs = (- EPIPE, [])"
  "inked cs = c # ts \<Longrightarrow> \<exists>rest. unbase64_next cs = (digit64 c, rest) \<and> (\<not> bad64 c \<longrightarrow> inked rest = ts \<and> (rest = [] \<longleftrightarrow> ts = []))"
proof -
  show "inked cs = [] \<Longrightarrow> unbase64_next cs = (- EPIPE, [])"
    using dropWhile_white [of cs] by (simp add: unbase64_next_def del: dropWhile_eq_Nil_conv)
  assume *: "inked cs = c # ts"
  then obtain rest where r: "dropWhile is_white cs = c # rest" "inked rest = ts"
    using dropWhile_white [of cs] dropWhile_white_Cons [of cs] by (cases "dropWhile is_white cs") auto
  moreover have "dropWhile is_white rest = [] \<longleftrightarrow> ts = []" using dropWhile_white [of rest] r by simp
  ultimately show "\<exists>rest. unbase64_next cs = (digit64 c, rest) \<and> (\<not> bad64 c \<longrightarrow> inked rest = ts \<and> (rest = [] \<longleftrightarrow> ts = []))"
    by (auto simp: unbase64_next_def Let_def digit64_def bad64_def simp del: dropWhile_eq_Nil_conv)
qed

fun unbase64_ref :: "string \<Rightarrow> bytes \<Rightarrow> int \<times> bytes" where
  "unbase64_ref [] z = (0, z)"
| "unbase64_ref [a] z = (if unbase64char a < 0 then - EINVAL else - EPIPE, [])"
| "unbase64_ref [a, b] z = (if unbase64char a < 0 \<or> unbase64char b < 0 then - EINVAL else - EPIPE, [])"
| "unbase64_ref [a, b, c] z = (if unbase64char a < 0 \<or> unbase64char b < 0 \<or> bad64 c then - EINVAL else - EPIPE, [])"
| "unbase64_ref (a # b # c # d # ts) z =
     (if unbase64char a < 0 \<or> unbase64char b < 0 \<or> bad64 c \<or> bad64 d then (- EINVAL, [])
      else if c = CHR ''=''
      then (if d \<noteq> CHR ''='' \<or> unbase64char b AND 15 \<noteq> 0 then (- EINVAL, [])
            else if ts \<noteq> [] then (- ENAMETOOLONG, [])
            else (0, z @ [octet1 (unbase64char a) (unbase64char b)]))
      else if d = CHR ''=''
      then (if unbase64char c AND 3 \<noteq> 0 then (- EINVAL, [])
            else if ts \<noteq> [] then (- ENAMETOOLONG, [])
            else (0, z @ [octet1 (unbase64char a) (unbase64char b), octet2 (unbase64char b) (unbase64char c)]))
      else unbase64_ref ts (z @ [octet1 (unbase64char a) (unbase64char b), octet2 (unbase64char b) (unbase64char c),
             octet3 (unbase64char c) (unbase64char d)]))"

lemma finish_ok [simp]: "length z \<le> len \<Longrightarrow> unbase64_finish len z = Inr (0, z)"
  by (simp add: unbase64_finish_def)

lemma data_room_eq: "data_room l = l - (l + 3) div 4"
proof -
  obtain q r where "l = 4 * q + r" "r < 4" by (metis mod_less_divisor mult_div_mod_eq zero_less_numeral)
  moreover have "r \<in> {0, 1, 2, 3}" using \<open>r < 4\<close> by auto
  ultimately show ?thesis by (auto simp: data_room_def)
qed

lemma data_room_group: "data_room (l + 4) = data_room l + 3"
  unfolding data_room_eq by linarith

lemma data_room_mono: "l \<le> l' \<Longrightarrow> data_room l \<le> data_room l'"
  unfolding data_room_eq by linarith


lemma next_rest:
  assumes "inked cs = c # ts" "\<not> bad64 c"
  obtains rest where "unbase64_next cs = (digit64 c, rest)" "inked rest = ts" "rest = [] \<longleftrightarrow> ts = []"
  using unbase64_next_inked(2) [OF assms(1)] assms(2) by blast

lemma next_bad:
  assumes "inked cs = c # ts" "bad64 c"
  obtains rest where "unbase64_next cs = (- EINVAL, rest)"
  using unbase64_next_inked(2) [OF assms(1)] assms(2) digit64_facts(2) by auto

lemma digit64_plain: "\<not> bad64 c \<Longrightarrow> c \<noteq> CHR ''='' \<Longrightarrow> digit64 c = unbase64char c \<and> 0 \<le> unbase64char c \<and> unbase64char c \<noteq> INT_MAX"
  using unbase64char_bounds(1) [of c] by (auto simp: digit64_def bad64_def INT_MAX_def)

lemma digit64_pad [simp]: "digit64 (CHR ''='') = INT_MAX" "\<not> bad64 (CHR ''='')"
  by (simp_all add: digit64_def bad64_def)

text \<open>The first two characters of a group.\<close>

lemma loop_first:
  "inked l = [] \<Longrightarrow> unbase64_loop len l z = unbase64_finish len z"
  "inked l = a # ts \<Longrightarrow> unbase64char a < 0 \<Longrightarrow> unbase64_loop len l z = Inr (- EINVAL, [])"
proof -
  show "inked l = [] \<Longrightarrow> unbase64_loop len l z = unbase64_finish len z"
    by (subst unbase64_loop.simps) (simp add: unbase64_next_inked(1))
  assume i: "inked l = a # ts" "unbase64char a < 0"
  show "unbase64_loop len l z = Inr (- EINVAL, [])"
  proof (cases "bad64 a")
    case True
    then obtain rest where "unbase64_next l = (- EINVAL, rest)" using next_bad i by blast
    then show ?thesis by (subst unbase64_loop.simps) (simp add: codec_consts)
  next
    case False
    then have "a = CHR ''=''" using i digit64_facts(5) [of a] by simp
    then obtain rest where "unbase64_next l = (INT_MAX, rest)" using next_rest i by (metis digit64_pad)
    then show ?thesis by (subst unbase64_loop.simps) (simp add: codec_consts)
  qed
qed


lemma loop_second:
  assumes "inked l = a # b # ts" "0 \<le> unbase64char a" "unbase64char b < 0"
  shows "unbase64_loop len l z = Inr (- EINVAL, [])"
proof -
  have a: "\<not> bad64 a" "a \<noteq> CHR ''=''" using assms(2) digit64_facts(5) [of a] by auto
  obtain la where la: "unbase64_next l = (digit64 a, la)" "inked la = b # ts" using next_rest [OF assms(1) a(1)] by metis
  show ?thesis
  proof (cases "bad64 b")
    case True
    then obtain lb where "unbase64_next la = (- EINVAL, lb)" using next_bad la by blast
    then show ?thesis using la digit64_plain [OF a] by (subst unbase64_loop.simps) (simp add: codec_consts)
  next
    case False
    then have "b = CHR ''=''" using assms(3) digit64_facts(5) [of b] by simp
    then obtain lb where "unbase64_next la = (INT_MAX, lb)" using next_rest la by (metis digit64_pad)
    then show ?thesis using la digit64_plain [OF a] by (subst unbase64_loop.simps) (simp add: codec_consts)
  qed
qed

text \<open>After two good characters: what is read next decides.\<close>

lemma loop_pair:
  assumes "inked l = a # b # ts" "0 \<le> unbase64char a" "0 \<le> unbase64char b"
  obtains la lb where "unbase64_next l = (unbase64char a, la)" "unbase64_next la = (unbase64char b, lb)" "inked lb = ts"
    "unbase64char a \<noteq> INT_MAX" "unbase64char b \<noteq> INT_MAX"
proof -
  have a: "\<not> bad64 a" "a \<noteq> CHR ''=''" and b: "\<not> bad64 b" "b \<noteq> CHR ''=''"
    using assms(2,3) digit64_facts(5) [of a] digit64_facts(5) [of b] by auto
  obtain la where la: "unbase64_next l = (digit64 a, la)" "inked la = b # ts" using next_rest [OF assms(1) a(1)] by metis
  obtain lb where "unbase64_next la = (digit64 b, lb)" "inked lb = ts" using next_rest [OF la(2) b(1)] by metis
  then show ?thesis using la that digit64_plain [OF a] digit64_plain [OF b] by simp
qed

lemma digit64_nonneg: "\<not> bad64 c \<Longrightarrow> \<not> digit64 c < 0"
  by (simp add: digit64_facts)

lemma loop_short:
  assumes "0 \<le> unbase64char a"
  shows "inked l = [a] \<Longrightarrow> unbase64_loop len l z = Inr (- EPIPE, [])"
    "inked l = [a, b] \<Longrightarrow> 0 \<le> unbase64char b \<Longrightarrow> unbase64_loop len l z = Inr (- EPIPE, [])"
    "inked l = [a, b, c] \<Longrightarrow> 0 \<le> unbase64char b \<Longrightarrow>
       unbase64_loop len l z = Inr (if bad64 c then - EINVAL else - EPIPE, [])"
    "inked l = a # b # c # d # ts \<Longrightarrow> 0 \<le> unbase64char b \<Longrightarrow> bad64 c \<or> bad64 d \<Longrightarrow>
       unbase64_loop len l z = Inr (- EINVAL, [])"
proof -
  have a: "\<not> bad64 a" "a \<noteq> CHR ''=''" using assms digit64_facts(5) [of a] by auto
  show "unbase64_loop len l z = Inr (- EPIPE, [])" if i: "inked l = [a]"
  proof -
    obtain la where la: "unbase64_next l = (digit64 a, la)" "inked la = []" using next_rest [OF i a(1)] by metis
    then show ?thesis using digit64_plain [OF a]
      by (subst unbase64_loop.simps) (simp add: unbase64_next_inked(1) codec_consts)
  qed
  show "unbase64_loop len l z = Inr (- EPIPE, [])" if i: "inked l = [a, b]" "0 \<le> unbase64char b"
  proof -
    obtain la lb where "unbase64_next l = (unbase64char a, la)" "unbase64_next la = (unbase64char b, lb)" "inked lb = []"
      "unbase64char a \<noteq> INT_MAX" "unbase64char b \<noteq> INT_MAX" using loop_pair [OF i(1) assms i(2)] .
    then show ?thesis using assms i by (subst unbase64_loop.simps) (simp add: unbase64_next_inked(1) EPIPE_def)
  qed
  show "unbase64_loop len l z = Inr (if bad64 c then - EINVAL else - EPIPE, [])" if i: "inked l = [a, b, c]" "0 \<le> unbase64char b"
  proof -
    obtain la lb where p: "unbase64_next l = (unbase64char a, la)" "unbase64_next la = (unbase64char b, lb)" "inked lb = [c]"
      "unbase64char a \<noteq> INT_MAX" "unbase64char b \<noteq> INT_MAX" using loop_pair [OF i(1) assms i(2)] .
    show ?thesis
    proof (cases "bad64 c")
      case True
      then obtain lc where "unbase64_next lb = (- EINVAL, lc)" using next_bad p(3) by blast
      then show ?thesis using p assms i True by (subst unbase64_loop.simps) (simp add: codec_consts)
    next
      case False
      then obtain lc where "unbase64_next lb = (digit64 c, lc)" "inked lc = []" using next_rest [OF p(3)] by metis
      then show ?thesis using p assms i False digit64_nonneg [of c]
        by (subst unbase64_loop.simps) (simp add: unbase64_next_inked(1) EPIPE_def)
    qed
  qed
  show "unbase64_loop len l z = Inr (- EINVAL, [])" if i: "inked l = a # b # c # d # ts" "0 \<le> unbase64char b" "bad64 c \<or> bad64 d"
  proof -
    obtain la lb where p: "unbase64_next l = (unbase64char a, la)" "unbase64_next la = (unbase64char b, lb)" "inked lb = c # d # ts"
      "unbase64char a \<noteq> INT_MAX" "unbase64char b \<noteq> INT_MAX" using loop_pair [OF i(1) assms i(2)] .
    show ?thesis
    proof (cases "bad64 c")
      case True
      then obtain lc where "unbase64_next lb = (- EINVAL, lc)" using next_bad p(3) by blast
      then show ?thesis using p assms i True by (subst unbase64_loop.simps) (simp add: codec_consts)
    next
      case False
      then obtain lc where lc: "unbase64_next lb = (digit64 c, lc)" "inked lc = d # ts" using next_rest [OF p(3)] by metis
      then obtain ld where "unbase64_next lc = (- EINVAL, ld)" using next_bad i(3) False by blast
      then show ?thesis using p lc assms i False digit64_nonneg [of c]
        by (subst unbase64_loop.simps) (simp add: codec_consts)
    qed
  qed
qed

lemma loop_group:
  assumes "inked l = a # b # c # d # ts" "0 \<le> unbase64char a" "0 \<le> unbase64char b" "\<not> bad64 c" "\<not> bad64 d"
  obtains ld where "inked ld = ts" "unbase64_loop len l z =
     (if c = CHR ''=''
      then (if d \<noteq> CHR ''='' \<or> unbase64char b AND 15 \<noteq> 0 then Inr (- EINVAL, [])
            else if ts \<noteq> [] then Inr (- ENAMETOOLONG, [])
            else rbind (emits (len + 1) [octet1 (unbase64char a) (unbase64char b)] z) (unbase64_finish len))
      else if d = CHR ''=''
      then (if unbase64char c AND 3 \<noteq> 0 then Inr (- EINVAL, [])
            else if ts \<noteq> [] then Inr (- ENAMETOOLONG, [])
            else rbind (emits (len + 1) [octet1 (unbase64char a) (unbase64char b), octet2 (unbase64char b) (unbase64char c)] z) (unbase64_finish len))
      else rbind (emits (len + 1) [octet1 (unbase64char a) (unbase64char b), octet2 (unbase64char b) (unbase64char c),
             octet3 (unbase64char c) (unbase64char d)] z) (unbase64_loop len ld))"
proof -
  obtain la lb where p: "unbase64_next l = (unbase64char a, la)" "unbase64_next la = (unbase64char b, lb)" "inked lb = c # d # ts"
    "unbase64char a \<noteq> INT_MAX" "unbase64char b \<noteq> INT_MAX" using loop_pair [OF assms(1-3)] .
  obtain lc where lc: "unbase64_next lb = (digit64 c, lc)" "inked lc = d # ts" using next_rest [OF p(3) assms(4)] .
  obtain ld where ld: "unbase64_next lc = (digit64 d, ld)" "inked ld = ts" "ld = [] \<longleftrightarrow> ts = []" using next_rest [OF lc(2) assms(5)] .
  have v: "c \<noteq> CHR ''='' \<Longrightarrow> digit64 c = unbase64char c" "d \<noteq> CHR ''='' \<Longrightarrow> digit64 d = unbase64char d" by (simp_all add: digit64_def)
  show ?thesis
    by (rule that [OF ld(2)], subst unbase64_loop.simps)
      (use p lc ld assms(2-5) digit64_nonneg [of c] digit64_nonneg [of d] v in
        \<open>auto simp: EPIPE_def digit64_facts(3)\<close>)
qed


lemma unbase64_loop_ref:
  "length z + data_room (length (inked l)) \<le> len \<Longrightarrow> unbase64_loop len l z = Inr (unbase64_ref (inked l) z)"
proof (induction "inked l" z arbitrary: l rule: unbase64_ref.induct)
  case (1 z)
  note i = 1(1) [symmetric]
  show ?case unfolding i using loop_first(1) [OF i] 1(2) unfolding i by simp
next
  case (2 a z)
  note i = 2(1) [symmetric]
  show ?case unfolding i
    using loop_first(2) [OF i, of len z] loop_short(1) [OF _ i, of len z] by (cases "unbase64char a < 0") simp_all
next
  case (3 a b z)
  note i = 3(1) [symmetric]
  show ?case unfolding i
    using loop_first(2) [OF i, of len z] loop_second [OF i, of len z] loop_short(2) [OF _ i, of len z]
    by (cases "unbase64char a < 0"; cases "unbase64char b < 0") simp_all
next
  case (4 a b c z)
  note i = 4(1) [symmetric]
  show ?case unfolding i
    using loop_first(2) [OF i, of len z] loop_second [OF i, of len z] loop_short(3) [OF _ i, of len z]
    by (cases "unbase64char a < 0"; cases "unbase64char b < 0") simp_all
next
  case (5 a b c d ts z)
  note i = 5(2) [symmetric]
  have room: "length z + data_room (length ts) + 3 \<le> len" using 5(3) data_room_group [of "length ts"] unfolding i by (simp add: eval_nat_numeral)
  consider "unbase64char a < 0" | "0 \<le> unbase64char a" "unbase64char b < 0"
    | "0 \<le> unbase64char a" "0 \<le> unbase64char b" "bad64 c \<or> bad64 d"
    | "0 \<le> unbase64char a" "0 \<le> unbase64char b" "\<not> bad64 c" "\<not> bad64 d" by fastforce
  then show ?case
  proof cases
    case 4
    obtain ld where ld: "inked ld = ts" and g: "unbase64_loop len l z =
       (if c = CHR ''=''
        then (if d \<noteq> CHR ''='' \<or> unbase64char b AND 15 \<noteq> 0 then Inr (- EINVAL, [])
              else if ts \<noteq> [] then Inr (- ENAMETOOLONG, [])
              else rbind (emits (len + 1) [octet1 (unbase64char a) (unbase64char b)] z) (unbase64_finish len))
        else if d = CHR ''=''
        then (if unbase64char c AND 3 \<noteq> 0 then Inr (- EINVAL, [])
              else if ts \<noteq> [] then Inr (- ENAMETOOLONG, [])
              else rbind (emits (len + 1) [octet1 (unbase64char a) (unbase64char b), octet2 (unbase64char b) (unbase64char c)] z) (unbase64_finish len))
        else rbind (emits (len + 1) [octet1 (unbase64char a) (unbase64char b), octet2 (unbase64char b) (unbase64char c),
               octet3 (unbase64char c) (unbase64char d)] z) (unbase64_loop len ld))"
      using loop_group [OF i 4] .
    let ?z = "z @ [octet1 (unbase64char a) (unbase64char b), octet2 (unbase64char b) (unbase64char c), octet3 (unbase64char c) (unbase64char d)]"
    have "unbase64_loop len ld ?z = Inr (unbase64_ref ts ?z)" if "c \<noteq> CHR ''=''" "d \<noteq> CHR ''=''"
      using 5(1) [OF _ that ld [symmetric]] 4 ld room by (simp add: not_less)
    then show ?thesis using g 4 room unfolding i by (simp add: not_less del: emits.simps)
  qed (use loop_first(2) [OF i, of len z] loop_second [OF i, of len z] loop_short(4) [OF _ i, of len z] in \<open>unfold i, auto\<close>)
qed

section \<open>Bits of sextets\<close>

lemma sextets_of_bytes:
  "push_bit 2 (take_bit 6 (drop_bit 2 x0)) OR drop_bit 4 (take_bit 6 (push_bit 4 (x0 AND 3) OR drop_bit 4 x1)) = (x0 :: 8 word)"
  "push_bit 4 (take_bit 6 (push_bit 4 (x0 AND 3) OR drop_bit 4 x1)) OR drop_bit 2 (take_bit 6 (push_bit 2 (x1 AND 15) OR drop_bit 6 x2)) = (x1 :: 8 word)"
  "push_bit 6 (take_bit 6 (push_bit 2 (x1 AND 15) OR drop_bit 6 x2)) OR take_bit 6 (x2 AND 63) = (x2 :: 8 word)"
  unfolding and_masks by (rule byte_eqI8; simp add: bits_at)+

lemma bytes_of_sextets:
  assumes "0 \<le> A" "A < 64" "0 \<le> B" "B < 64" "0 \<le> C" "C < 64" "0 \<le> D" "D < 64"
  shows "drop_bit 2 (octet1 A B) = word_of_int A"
    "push_bit 4 (octet1 A B AND 3) OR drop_bit 4 (octet2 B C) = word_of_int B"
    "push_bit 2 (octet2 B C AND 15) OR drop_bit 6 (octet3 C D) = word_of_int C"
    "octet3 C D AND 63 = word_of_int D"
proof -
  have h: "\<not> bit A n" "\<not> bit B n" "\<not> bit C n" "\<not> bit D n" if "6 \<le> n" for n
    using assms that digit_high [of _ 6 n] by simp_all
  show "drop_bit 2 (octet1 A B) = word_of_int A"
    "push_bit 4 (octet1 A B AND 3) OR drop_bit 4 (octet2 B C) = word_of_int B"
    "push_bit 2 (octet2 B C AND 15) OR drop_bit 6 (octet3 C D) = word_of_int C"
    "octet3 C D AND 63 = word_of_int D"
    unfolding and_masks octet1_def octet2_def octet3_def by (rule byte_eqI8; simp add: bits_at h)+
qed


section \<open>Base64 text and back\<close>

lemma word_of_sextet: "word_of_int (uint w AND 63) = take_bit 6 (w :: 8 word)"
  by (rule byte_eqI8) (simp_all add: bit_and_iff bit_word_of_int_iff bit_take_bit_iff bit_uint_iff flip: mask_numeral)

lemma uint_numeral_byte: "uint (63 :: 8 word) = 63" "uint (15 :: 8 word) = 15" "uint (3 :: 8 word) = 3"
  by simp_all

lemma sextet_clean:
  "uint (push_bit 4 (x AND 3)) AND 63 AND 15 = 0" "uint (push_bit 2 (y AND 15)) AND 63 AND 3 = 0" for x y :: "8 word"
proof -
  have "push_bit 4 (x AND 3) AND 63 AND 15 = 0" "push_bit 2 (y AND 15) AND 63 AND 3 = 0"
    unfolding and_masks by (rule byte_eqI8; simp add: bits_at)+
  then have "uint (push_bit 4 (x AND 3) AND 63 AND 15) = 0" "uint (push_bit 2 (y AND 15) AND 63 AND 3) = 0" by simp_all
  then show "uint (push_bit 4 (x AND 3)) AND 63 AND 15 = 0" "uint (push_bit 2 (y AND 15)) AND 63 AND 3 = 0"
    by (simp_all only: unsigned_and_eq uint_numeral_byte)
qed

lemma unbase64_ref_text: "unbase64_ref (base64_text bs) z = (0, z @ bs)"
proof (induction bs arbitrary: z rule: base64_text.induct)
  case (1 x0 x1 x2 xs)
  then show ?case
    using sextets_of_bytes(1) [of x0 x1] sextets_of_bytes(2) [of x0 x1 x2] sextets_of_bytes(3) [of x1 x2]
    by (simp add: base64char_props bad64_def mask6 not_less octet1_def octet2_def octet3_def word_of_sextet)
next
  case (2 x0 x1)
  then show ?case using sextets_of_bytes(1) [of x0 x1] sextets_of_bytes(2) [of x0 x1 0] sextet_clean(2) [of x1]
    by (simp add: base64char_props bad64_def mask6 not_less octet1_def octet2_def octet3_def word_of_sextet and.assoc)
next
  case (3 x0)
  then show ?case using sextets_of_bytes(1) [of x0 0] sextet_clean(1) [of x0]
    by (simp add: base64char_props bad64_def mask6 not_less octet1_def octet2_def octet3_def word_of_sextet and.assoc)
qed simp


lemma base64_text_eqD: "base64_text bs = base64_text bs' \<Longrightarrow> bs = bs'"
  using unbase64_ref_text by (metis append_Nil prod.inject)

lemma base64_values: "list_all (\<lambda>n. base64char n = (if n < 26 then char_of (n + 65) else if n < 52 then char_of (n + 71)
   else if n < 62 then char_of (n - 4) else if n = 62 then CHR ''+'' else CHR ''/'')) [0..63]"
  by code_simp

lemma base64char_unbase64char: "0 \<le> unbase64char c \<Longrightarrow> base64char (unbase64char c) = c"
proof -
  assume v: "0 \<le> unbase64char c"
  then have "unbase64char c \<in> set [0..63]" using unbase64char_bounds(1) [of c] by simp
  then show ?thesis using base64_values v unfolding list_all_iff
    by (auto simp: unbase64char_def char_of_code codec_consts split: if_splits)
qed

lemma clean_bits:
  "C AND 3 = 0 \<Longrightarrow> n < 2 \<Longrightarrow> \<not> bit (C :: int) n" "B AND 15 = 0 \<Longrightarrow> n < 4 \<Longrightarrow> \<not> bit (B :: int) n"
proof -
  have "C AND 3 = take_bit 2 C" "B AND 15 = take_bit 4 B" by (simp_all add: take_bit_eq_mask mask_eq_exp_minus_1)
  then show "C AND 3 = 0 \<Longrightarrow> n < 2 \<Longrightarrow> \<not> bit C n" "B AND 15 = 0 \<Longrightarrow> n < 4 \<Longrightarrow> \<not> bit B n"
    using bit_take_bit_iff [of 2 C n] bit_take_bit_iff [of 4 B n] by auto
qed

lemma text_of_octets:
  assumes "0 \<le> unbase64char a" "0 \<le> unbase64char b" "0 \<le> unbase64char c" "0 \<le> unbase64char d"
  defines "A \<equiv> unbase64char a" and "B \<equiv> unbase64char b" and "C \<equiv> unbase64char c" and "D \<equiv> unbase64char d"
  shows "base64_text (octet1 A B # octet2 B C # octet3 C D # bs) = a # b # c # d # base64_text bs"
    "C AND 3 = 0 \<Longrightarrow> base64_text [octet1 A B, octet2 B C] = [a, b, c, CHR ''='']"
    "B AND 15 = 0 \<Longrightarrow> base64_text [octet1 A B] = [a, b, CHR ''='', CHR ''='']"
proof -
  have r: "0 \<le> A" "A < 64" "0 \<le> B" "B < 64" "0 \<le> C" "C < 64" "0 \<le> D" "D < 64"
    using assms unbase64char_bounds(1) by auto
  have u: "uint (word_of_int A :: 8 word) = A" "uint (word_of_int B :: 8 word) = B" "uint (word_of_int C :: 8 word) = C"
    "uint (word_of_int D :: 8 word) = D" using r by (simp_all add: uint_small)
  have e: "base64char A = a" "base64char B = b" "base64char C = c" "base64char D = d"
    using assms base64char_unbase64char by auto
  note g = bytes_of_sextets [OF r]
  have h: "\<not> bit A n" "\<not> bit B n" "\<not> bit C n" if "6 \<le> n" for n
    using r that digit_high [of _ 6 n] by simp_all
  show "base64_text (octet1 A B # octet2 B C # octet3 C D # bs) = a # b # c # d # base64_text bs"
    by (simp only: base64_text.simps g u e)
  show "base64_text [octet1 A B, octet2 B C] = [a, b, c, CHR ''='']" if z: "C AND 3 = 0"
  proof -
    have "push_bit 2 (octet2 B C AND 15) = (word_of_int C :: 8 word)"
      unfolding and_masks octet2_def by (rule byte_eqI8; simp add: bits_at h clean_bits(1) [OF z])
    then show ?thesis by (simp only: base64_text.simps g u e)
  qed
  show "base64_text [octet1 A B] = [a, b, CHR ''='', CHR ''='']" if z: "B AND 15 = 0"
  proof -
    have "push_bit 4 (octet1 A B AND 3) = (word_of_int B :: 8 word)"
      unfolding and_masks octet1_def by (rule byte_eqI8; simp add: bits_at h clean_bits(2) [OF z])
    then show ?thesis by (simp only: base64_text.simps g u e)
  qed
qed


lemma unbase64_ref_decodes: "unbase64_ref ts z = (0, out) \<Longrightarrow> \<exists>bs. out = z @ bs \<and> base64_text bs = ts"
proof (induction ts z rule: unbase64_ref.induct)
  case (5 a b c d ts z)
  show ?case
  proof (cases "unbase64char a < 0 \<or> unbase64char b < 0 \<or> bad64 c \<or> bad64 d")
    case True
    then show ?thesis using 5(2) by (simp add: codec_consts)
  next
    case False
    then have ab: "0 \<le> unbase64char a" "0 \<le> unbase64char b" by auto
    have c: "0 \<le> unbase64char c" if "c \<noteq> CHR ''=''" using False that by (simp add: bad64_def)
    have d: "0 \<le> unbase64char d" if "d \<noteq> CHR ''=''" using False that by (simp add: bad64_def)
    note e1 = text_of_octets(3) [OF ab ab] and e2 = text_of_octets(2) [OF ab c ab(1)]
    show ?thesis
    proof (cases "c = CHR ''=''")
      case True
      then show ?thesis using 5(2) False e1 by (auto simp: codec_consts split: if_splits)
    next
      case nc: False
      show ?thesis
      proof (cases "d = CHR ''=''")
        case True
        then show ?thesis using 5(2) False nc e2 [OF nc] by (auto simp: codec_consts split: if_splits)
      next
        case nd: False
        then show ?thesis using 5 False nc text_of_octets(1) [OF ab c [OF nc] d [OF nd]] by fastforce
      qed
    qed
  qed
qed (auto simp: codec_consts split: if_splits)

lemma unbase64_ref_code: "fst (unbase64_ref ts z) \<in> {0, - EINVAL, - EPIPE, - ENAMETOOLONG}"
  by (induction ts z rule: unbase64_ref.induct) auto


lemma unbase64mem_ref:
  "length t < SIZE_MAX \<Longrightarrow> unbase64mem_full True t (length t) = Inr (unbase64_ref (inked t) [])"
  using data_room_mono [OF length_filter_le [of "\<lambda>c. \<not> is_white c" t]]
  by (simp add: unbase64mem_full_def Let_def unbase64_loop_ref)

lemma inked_base64_lines: "inked (base64_lines lb p) = base64_text p"
  by (simp add: base64_lines_def inked_wrapped)

text \<open>
  C9. The base64 decoder is exactly the inverse of the encoder: every text is decoded inside the
  buffers, with success just for the encodings with any white space between the characters, and then to
  the bytes encoded. No other padding, no bits behind the last byte and no trailing text are accepted.
\<close>

theorem unbase64mem_inverts_base64mem:
  assumes "length t < SIZE_MAX"
  shows "\<exists>r out. unbase64mem_full True t (length t) = Inr (r, out) \<and> r \<in> {0, - EINVAL, - EPIPE, - ENAMETOOLONG} \<and>
    (\<forall>bs. 4 * (length bs + 2) \<le> SIZE_MAX \<longrightarrow>
       (r = 0 \<and> out = bs \<longleftrightarrow> base64mem True bs = Inr (int (length (inked t)), inked t)))"
proof -
  obtain r out where ro: "unbase64_ref (inked t) [] = (r, out)" by fastforce
  have m: "base64mem True bs = Inr (int (length (inked t)), inked t) \<longleftrightarrow> inked t = base64_text bs"
    if "4 * (length bs + 2) \<le> SIZE_MAX" for bs
    using base64mem_lines(1) [of SIZE_MAX bs] that by (auto simp: base64mem_def base64_lines_def SIZE_MAX_def)
  have "r = 0 \<and> out = bs \<longleftrightarrow> inked t = base64_text bs" for bs
  proof
    assume "r = 0 \<and> out = bs"
    then show "inked t = base64_text bs" using unbase64_ref_decodes [of "inked t" "[]" bs] ro by auto
  next
    assume "inked t = base64_text bs"
    then show "r = 0 \<and> out = bs" using unbase64_ref_text [of bs "[]"] ro by (metis append_Nil prod.inject)
  qed
  moreover have "r \<in> {0, - EINVAL, - EPIPE, - ENAMETOOLONG}" using unbase64_ref_code [of "inked t" "[]"] ro by simp
  ultimately show ?thesis using unbase64mem_ref [OF assms] ro m by metis
qed

theorem unbase64mem_inverts_base64mem_witness:
  "unbase64mem_full True ''YW I='' 5 = Inr (0, [0x61, 0x62])"
proof -
  have "base64_text [0x61, 0x62] = inked ''YW I=''" by code_simp
  then have "base64mem True [0x61, 0x62] = Inr (int (length (inked ''YW I='')), inked ''YW I='')"
    using base64mem_lines(1) [of SIZE_MAX "[0x61, 0x62]"] by (simp add: base64mem_def base64_lines_def SIZE_MAX_def)
  then obtain r out where "unbase64mem_full True ''YW I='' (length ''YW I='') = Inr (r, out)" "r = 0 \<and> out = [0x61, 0x62]"
    using unbase64mem_inverts_base64mem [of "''YW I=''"] by (fastforce simp: SIZE_MAX_def simp del: filter.simps)
  then show ?thesis by (simp add: eval_nat_numeral)
qed

text \<open>
  C28. Encoding with line breaks: for every line length the text fits the buffer computed for it, the
  newlines stand exactly where the line length says, the count returned is the length, and decoding
  the text gives the bytes back.
\<close>

theorem base64_lines_roundtrip:
  assumes "0 < lb" "lb \<le> SIZE_MAX" "4 * (length bs + 2) \<le> SIZE_MAX"
  shows "\<exists>t. base64mem_full True bs lb = Inr (int (length t), t) \<and> unbase64mem_full True t (length t) = Inr (0, bs) \<and>
    (\<forall>i < length t. t ! i = CHR ''\<newline>'' \<longleftrightarrow> i mod (lb + 1) = lb)"
proof -
  note t = base64mem_lines [OF assms]
  have "unbase64mem_full True (base64_lines lb bs) (length (base64_lines lb bs)) = Inr (0, bs)"
    using unbase64mem_ref [OF t(2)] by (simp add: inked_base64_lines unbase64_ref_text)
  moreover have "CHR ''\<newline>'' \<notin> set (base64_text bs)"
    using inked_base64_text [of bs] unfolding filter_id_conv by (auto simp: is_white_def)
  then have "base64_lines lb bs ! i = CHR ''\<newline>'' \<longleftrightarrow> i mod (lb + 1) = lb" if "i < length (base64_lines lb bs)" for i
    using that t(2) newline_positions [OF assms(1), of 0 "base64_text bs" i]
    by (auto simp: base64_lines_def split: if_splits dest: nth_mem)
  ultimately show ?thesis using t(1) by blast
qed

theorem base64_lines_roundtrip_witness:
  "\<exists>t. base64mem_full True (replicate 60 7) 76 = Inr (int (length t), t) \<and> unbase64mem_full True t (length t) = Inr (0, replicate 60 7)"
  using base64_lines_roundtrip [of 76 "replicate 60 7"] by (auto simp: SIZE_MAX_def)

end
