(* ===== verification/TextLayout.thy ===== *)
theory TextLayout
  imports Base64
begin

text \<open>
  Laid out text (\<open>work/crosscompile/systemd-main/src/basic/hexdecoct.c\<close>): \<open>base64_append\<close> puts base64 text
  behind a prefix, in indented lines of a given width, and \<open>hexdump\<close> prints bytes in rows of sixteen.
\<close>

section \<open>Appending base64 text\<close>

definition SSIZE_MAX :: nat where "SSIZE_MAX = 2147483647"

definition DIV_ROUND_UP :: "nat \<Rightarrow> nat \<Rightarrow> nat res" where
  "DIV_ROUND_UP x y = (if y = 0 then Inl DivByZero else Inr (x div y + (if x mod y \<noteq> 0 then 1 else 0)))"

definition read_text :: "string \<Rightarrow> nat \<Rightarrow> nat \<Rightarrow> string res" where \<comment> \<open>the source of \<open>mempcpy\<close>\<close>
  "read_text x off n = (if off + n \<le> length x then Inr (take n (drop off x)) else Inl OutOfBounds)"

fun append_lines :: "nat \<Rightarrow> nat \<Rightarrow> nat \<Rightarrow> string \<Rightarrow> nat \<Rightarrow> nat \<Rightarrow> char \<Rightarrow> nat \<Rightarrow> string \<Rightarrow> (nat \<times> string) res" where
  \<comment> \<open>the loop over the lines, of which the number left is the fifth argument, \<open>line\<close> the sixth\<close>
  "append_lines cap indent width x 0 line sep len z = Inr (len, z)"
| "append_lines cap indent width x (Suc n) line sep len z =
     (let act = min width len; sep1 = (if 0 < line then CHR ''\<newline>'' else sep) in
      rbind (if z \<noteq> []
             then rbind (emit cap sep1 z) (\<lambda>z. if sep1 = CHR ''\<newline>'' then emits cap (replicate indent (CHR '' '')) z else Inr z)
             else Inr z) (\<lambda>z.
      rbind (read_text x (width * line) act) (\<lambda>d.
      rbind (emits cap d z) (append_lines cap indent width x n (line + 1) sep1 (len - act)))))"

definition base64_append_width ::
  "bool \<Rightarrow> bool \<Rightarrow> string \<Rightarrow> nat \<Rightarrow> char \<Rightarrow> nat \<Rightarrow> bytes \<Rightarrow> nat \<Rightarrow> (int \<times> string) res" where
  \<comment> \<open>the return value and the new \<open>*prefix\<close>, of which \<open>plen\<close> characters are kept\<close>
  "base64_append_width ok ok_realloc prefix plen sep indent p width = rbind (base64mem ok p) (\<lambda>(len, x).
     if len < 0 then Inr (len, prefix)
     else if len = 0 then Inr (int plen, prefix)
     else rbind (DIV_ROUND_UP (nat len) width) (\<lambda>lines.
       if SSIZE_MAX - 1 - 1 \<le> plen then Inr (- ENOMEM, prefix)
       else rbind (rassert (size_t (indent + width + 1) \<noteq> 0) DivByZero) (\<lambda>_.
         if (SSIZE_MAX - plen - 1 - 1) div size_t (indent + width + 1) < lines then Inr (- ENOMEM, prefix)
         else
          (let cap = size_t (plen + 1 + 1 + size_t (indent + width + 1) * lines) in
           if \<not> ok_realloc then Inr (- ENOMEM, prefix)
           else rbind (append_lines cap indent width x lines 0 sep (nat len) (take plen prefix)) (\<lambda>(len, z).
                rbind (rassert (len = 0) AssertFail) (\<lambda>_.
                rbind (terminated cap z (CHR 0x00)) (\<lambda>z. Inr (int (length z), z))))))))"

definition base64_append :: "bool \<Rightarrow> bool \<Rightarrow> string \<Rightarrow> nat \<Rightarrow> bytes \<Rightarrow> nat \<Rightarrow> nat \<Rightarrow> (int \<times> string) res" where
  \<comment> \<open>the differences of the widths are \<open>size_t\<close> as well\<close>
  "base64_append ok ok_realloc prefix plen p indent width =
     (if width div 2 < plen \<or> width < size_t (plen + indent)
      then base64_append_width ok ok_realloc prefix plen (CHR ''\<newline>'') indent p (size_t (width + (SIZE_MAX + 1) - indent))
      else base64_append_width ok ok_realloc prefix plen (CHR '' '') (plen + 1) p (size_t (width + (SIZE_MAX + 1) - plen - 1)))"

section \<open>The hexadecimal dump\<close>

fun hex_digits :: "nat \<Rightarrow> nat \<Rightarrow> string" where \<comment> \<open>\<open>%0kx\<close>: at least \<open>k\<close> digits\<close>
  "hex_digits k n = (if n < 16 then replicate (k - 1) (CHR ''0'') @ [hexchar (int n)] else hex_digits (k - 1) (n div 16) @ [hexchar (int n)])"

declare hex_digits.simps [simp del]

definition dump_hex :: "bytes \<Rightarrow> nat \<Rightarrow> string" where \<comment> \<open>the body of the first loop\<close>
  "dump_hex b i =
     (if length b \<le> i then ''   '' else hex_digits 2 (unat (b ! i)) @ '' '') @ (if i = 7 then '' '' else [])"

definition dump_char :: "bytes \<Rightarrow> nat \<Rightarrow> char" where \<comment> \<open>the body of the second loop, \<open>isprint\<close> of the C locale\<close>
  "dump_char b i =
     (if length b \<le> i then CHR '' ''
      else if 32 \<le> unat (b ! i) \<and> unat (b ! i) < 127 then char_of (unat (b ! i)) else CHR ''.'')"

definition dump_row :: "nat \<Rightarrow> bytes \<Rightarrow> string" where
  "dump_row n b = hex_digits 4 n @ ''  '' @ concat (map (dump_hex b) [0..<16]) @ '' '' @ map (dump_char b) [0..<16] @ ''\<newline>''"

function dump_rows :: "nat \<Rightarrow> bytes \<Rightarrow> string" where
  "dump_rows n b =
     (if b = [] then []
      else dump_row n b @ (if length b < 16 then [] else dump_rows ((n + 16) mod 4294967296) (drop 16 b)))"
  by pat_completeness auto
termination by (relation "measure (\<lambda>(n, b). length b)") auto

declare dump_rows.simps [simp del]

definition hexdump :: "bytes \<Rightarrow> string" where
  "hexdump p = dump_rows 0 p"


section \<open>What is appended\<close>

fun rows :: "nat \<Rightarrow> nat \<Rightarrow> string \<Rightarrow> string list" where
  "rows w 0 xs = []"
| "rows w (Suc n) xs = take w xs # rows w n (drop w xs)"

definition indented :: "nat \<Rightarrow> string list \<Rightarrow> string" where \<comment> \<open>each row on a line of its own\<close>
  "indented indent rs = concat (map (\<lambda>r. CHR ''\<newline>'' # replicate indent (CHR '' '') @ r) rs)"

lemma take_min: "take (min w (length xs)) xs = take w xs"
  by (cases "w \<le> length xs") simp_all

lemma append_lines_rows:
  assumes "0 < line" "z \<noteq> []" "length pre = w * line" "(n - 1) * w \<le> length rest" "length z + n * (indent + w + 1) \<le> cap"
  shows "append_lines cap indent w (pre @ rest) n line sep (length rest) z =
    Inr (length rest - n * w, z @ indented indent (rows w n rest))"
  using assms
proof (induction n arbitrary: line z pre rest sep)
  case (Suc n)
  let ?z = "z @ CHR ''\<newline>'' # replicate indent (CHR '' '') @ take w rest"
  have room: "length ?z + n * (indent + w + 1) \<le> cap" using Suc.prems(5) by simp
  have step: "append_lines cap indent w (pre @ rest) (Suc n) line sep (length rest) z =
      append_lines cap indent w (pre @ rest) n (line + 1) (CHR ''\<newline>'') (length rest - min w (length rest)) ?z"
    using Suc.prems room take_min [of w rest] by (simp add: read_text_def Let_def min.commute)
  show ?case
  proof (cases "n = 0")
    case True
    show ?thesis unfolding step unfolding True by (simp add: indented_def)
  next
    case False
    then have w: "w \<le> length rest" "(n - 1) * w \<le> length (drop w rest)"
      using Suc.prems(4) by (cases n; simp)+
    have "append_lines cap indent w ((pre @ take w rest) @ drop w rest) n (line + 1) (CHR ''\<newline>'') (length (drop w rest)) ?z =
        Inr (length (drop w rest) - n * w, ?z @ indented indent (rows w n (drop w rest)))"
      by (rule Suc.IH) (use Suc.prems w room in \<open>simp_all add: min_absorb2\<close>)
    then show ?thesis unfolding step using w by (simp add: indented_def min_absorb1)
  qed
qed (simp add: indented_def)

lemma inked_rows: "length xs \<le> n * w \<Longrightarrow> inked (concat (rows w n xs)) = inked xs"
proof (induction n arbitrary: xs)
  case (Suc n)
  then have "inked (concat (rows w n (drop w xs))) = inked (drop w xs)" by simp
  then show ?case by simp (metis append_take_drop_id filter_append)
qed simp

lemma inked_indented: "inked (indented indent rs) = inked (concat rs)"
  by (induction rs) (simp_all add: indented_def is_white_def)


lemma indented_rows_Suc: "indented indent (rows w (Suc n) xs) =
    CHR ''\<newline>'' # replicate indent (CHR '' '') @ take w xs @ indented indent (rows w n (drop w xs))"
  by (simp add: indented_def)

lemma length_indented_rows: "length (indented indent (rows w n xs)) \<le> n * (indent + w + 1)"
proof (induction n arbitrary: xs)
  case (Suc n)
  have "length (indented indent (rows w n (drop w xs))) \<le> n * (indent + w + 1)" by (rule Suc.IH)
  moreover have "length (take w xs) \<le> w" by simp
  ultimately show ?case unfolding indented_rows_Suc by (simp del: length_take)
qed (simp add: indented_def)

lemma lines_bounds:
  assumes "0 < w" "0 < len"
  obtains n where "DIV_ROUND_UP len w = Inr (Suc n)" "len \<le> Suc n * w" "n * w \<le> len - 1"
proof (cases "len mod w = 0")
  case True
  then have e: "len = len div w * w" by (simp add: mod_eq_0_iff_dvd)
  then obtain n where n: "len div w = Suc n" using assms(2) by (cases "len div w") auto
  then show ?thesis using that [of n] True e assms by (simp add: DIV_ROUND_UP_def)
next
  case False
  define d m where "d = len div w" and "m = len mod w"
  have "len = d * w + m" "m < w" "0 < m" using assms False unfolding d_def m_def by simp_all
  then have "len \<le> Suc d * w" "d * w \<le> len - 1" by (simp_all add: algebra_simps)
  then have "len \<le> Suc (len div w) * w" "len div w * w \<le> len - 1" unfolding d_def by simp_all
  then show ?thesis using that [of "len div w"] False assms by (simp add: DIV_ROUND_UP_def)
qed

lemma append_first_line:
  assumes "0 < w" "x \<noteq> []" "n * w \<le> length x - 1" "length x \<le> Suc n * w" "sep = CHR ''\<newline>'' \<or> sep = CHR '' ''"
    "length z + Suc n * (indent + w + 1) \<le> cap"
  obtains t where "append_lines cap indent w x (Suc n) 0 sep (length x) z = Inr (0, t)" "inked t = inked z @ inked x"
    "length t \<le> length z + Suc n * (indent + w + 1)"
proof -
  define z1 where "z1 = z @ (if z = [] then [] else if sep = CHR ''\<newline>'' then sep # replicate indent (CHR '' '') else [sep]) @ take w x"
  have z1: "length z1 \<le> length z + (indent + w + 1)" "z1 \<noteq> []" using assms(1,2) by (auto simp: z1_def)
  have room: "length z1 + n * (indent + w + 1) \<le> cap" using z1 assms(6) by simp
  have step: "append_lines cap indent w x (Suc n) 0 sep (length x) z = append_lines cap indent w x n 1 sep (length x - min w (length x)) z1"
    using room take_min [of w x] by (auto simp: read_text_def Let_def min.commute z1_def)
  have ink1: "inked z1 = inked z @ inked (take w x)" using assms(5) by (auto simp: z1_def is_white_def)
  show ?thesis
  proof (cases n)
    case 0
    then have "take w x = x" "length x - min w (length x) = 0" using assms(4) by simp_all
    then show ?thesis using that [of z1] step ink1 z1(1) 0 by simp
  next
    case (Suc k)
    then have w: "w \<le> length x" using assms(3) by simp
    let ?t = "z1 @ indented indent (rows w n (drop w x))"
    have "append_lines cap indent w (take w x @ drop w x) n 1 sep (length (drop w x)) z1 =
        Inr (length (drop w x) - n * w, ?t)"
      by (rule append_lines_rows) (use assms w z1 room Suc in \<open>simp_all add: min_absorb1 min_absorb2\<close>)
    then have "append_lines cap indent w x (Suc n) 0 sep (length x) z = Inr (0, ?t)"
      unfolding step using w assms(4) by (simp add: min_absorb1)
    moreover have "inked ?t = inked z @ inked x"
    proof -
      have "inked (concat (rows w n (drop w x))) = inked (drop w x)" using assms(4) by (intro inked_rows) simp
      then show ?thesis using ink1 by (simp add: inked_indented) (metis append_take_drop_id filter_append)
    qed
    moreover have "length ?t \<le> length z + Suc n * (indent + w + 1)"
      using length_indented_rows [of indent w n "drop w x"] z1(1) by simp
    ultimately show ?thesis by (rule that)
  qed
qed


lemma base64_append_width_text:
  assumes "0 < w" "p \<noteq> []" "plen \<le> length prefix" "4 * (length p + 2) \<le> SIZE_MAX" "sep = CHR ''\<newline>'' \<or> sep = CHR '' ''"
    "plen + (4 * (length p + 2) div 3 + 1) * (indent + w + 1) + 2 < SSIZE_MAX"
  obtains t where "base64_append_width True True prefix plen sep indent p w = Inr (int (length t), t)"
    "inked t = inked (take plen prefix) @ base64_text p"
proof -
  let ?x = "base64_text p"
  have x: "base64mem True p = Inr (int (length ?x), ?x)"
    using base64mem_lines(1) [of SIZE_MAX p] assms(4) by (simp add: base64mem_def base64_lines_def SIZE_MAX_def)
  have x0: "?x \<noteq> []" using assms(2) by (cases p rule: base64_text.cases) simp_all
  obtain n where n: "DIV_ROUND_UP (length ?x) w = Inr (Suc n)" "length ?x \<le> Suc n * w" "n * w \<le> length ?x - 1"
    using lines_bounds [OF assms(1), of "length ?x"] x0 by auto
  have len: "length ?x < 4 * (length p + 2) div 3 + 1"
    using div_times_less_eq_dividend [of "length p + 2" 3] by (simp add: length_base64_text less_eq_div_iff_mult_less_eq less_Suc_eq_le)
  have "n \<le> n * w" using assms(1) by simp
  then have "Suc n \<le> 4 * (length p + 2) div 3 + 1" using n(3) len by linarith
  then have "Suc n * (indent + w + 1) \<le> (4 * (length p + 2) div 3 + 1) * (indent + w + 1)" by (rule mult_le_mono1)
  then have fit: "plen + Suc n * (indent + w + 1) + 2 < SSIZE_MAX" using assms(6) by linarith
  have sz: "size_t (indent + w + 1) = indent + w + 1" using fit unfolding SSIZE_MAX_def
    by (intro size_t_id) (simp add: SIZE_MAX_def)
  define cap where "cap = plen + 1 + 1 + (indent + w + 1) * Suc n"
  have cap: "size_t cap = cap" using fit unfolding cap_def SSIZE_MAX_def by (intro size_t_id) (simp add: SIZE_MAX_def algebra_simps)
  have room: "length (take plen prefix) + Suc n * (indent + w + 1) \<le> cap"
    using assms(3) mult.commute [of "Suc n" "indent + w + 1"] unfolding cap_def by (simp only: length_take min_absorb2)
  obtain t where t: "append_lines cap indent w ?x (Suc n) 0 sep (length ?x) (take plen prefix) = Inr (0, t)"
    "inked t = inked (take plen prefix) @ inked ?x" "length t \<le> length (take plen prefix) + Suc n * (indent + w + 1)"
    using append_first_line [OF assms(1) x0 n(3) n(2) assms(5) room] by blast
  have "\<not> (SSIZE_MAX - plen - 1 - 1) div (indent + w + 1) < Suc n"
    using fit by (simp add: not_less less_eq_div_iff_mult_less_eq del: mult_Suc mult_Suc_right)
  moreover have "length t < cap"
    using t(3) assms(3) mult.commute [of "Suc n" "indent + w + 1"] unfolding cap_def by (simp only: length_take min_absorb2)
  moreover have "size_t (plen + 1 + 1 + size_t (indent + w + 1) * Suc n) = cap" using cap unfolding sz cap_def .
  ultimately have "base64_append_width True True prefix plen sep indent p w = Inr (int (length t), t)"
  proof -
    have "\<not> SSIZE_MAX - 1 - 1 \<le> plen" using fit by linarith
    moreover assume "\<not> (SSIZE_MAX - plen - 1 - 1) div (indent + w + 1) < Suc n" "length t < cap"
      "size_t (plen + 1 + 1 + size_t (indent + w + 1) * Suc n) = cap"
    ultimately show ?thesis
      using x x0 n(1) t(1) sz unfolding base64_append_width_def
      by (simp add: Let_def del: append_lines.simps mult_Suc_right add_2_eq_Suc add_2_eq_Suc' One_nat_def)
  qed
  then show ?thesis using that t(2) by simp
qed


section \<open>Rows of the dump\<close>

lemma length_hex_digits: "n < 16 ^ k \<Longrightarrow> 0 < k \<Longrightarrow> length (hex_digits k n) = k"
proof (induction k n rule: hex_digits.induct)
  case (1 k n)
  show ?case
  proof (cases "n < 16")
    case False
    then obtain j where j: "k = Suc (Suc j)" using "1.prems" by (cases k; cases "k - 1") auto
    then have "n div 16 < 16 ^ (k - 1)" using "1.prems"(1) by (simp add: less_mult_imp_div_less mult.commute)
    then show ?thesis using 1(1) [OF False] j False by (subst hex_digits.simps) simp
  qed (use "1.prems" in \<open>subst hex_digits.simps, simp\<close>)
qed

lemma length_dump_row: "n < 65536 \<Longrightarrow> length (dump_row n b) = 73"
proof -
  assume "n < 65536"
  then have "length (hex_digits 4 n) = 4" by (intro length_hex_digits) simp_all
  moreover have "length (hex_digits 2 (unat x)) = 2" for x :: "8 word"
    using length_hex_digits [of "unat x" 2] unsigned_less [of x, where ?'a = nat] by simp
  then have "length (dump_hex b i) = (if i = 7 then 4 else 3)" for i by (simp add: dump_hex_def)
  then have "length (concat (map (dump_hex b) [0..<16])) = 49" by (simp add: length_concat upt_conv_Cons comp_def)
  ultimately show ?thesis by (simp add: dump_row_def)
qed

text \<open>A dump of up to 64 KiB is a table: 73 columns, one row for every sixteen bytes.\<close>

lemma length_hexdump: "length p \<le> 65536 \<Longrightarrow> length (hexdump p) = 73 * ((length p + 15) div 16)"
proof -
  have "n + length b \<le> 65536 \<Longrightarrow> length (dump_rows n b) = 73 * ((length b + 15) div 16)" for n b
  proof (induction n b rule: dump_rows.induct)
    case (1 n b)
    show ?case
    proof (cases "b = [] \<or> length b < 16")
      case True
      have one: "(length b + 15) div 16 = 1" if "b \<noteq> []" "length b < 16"
      proof -
        have e: "length b + 15 = (length b - 1) + 16" using that by (cases b) simp_all
        show ?thesis unfolding e using that by (subst div_add_self2) simp_all
      qed
      show ?thesis using True one 1(2) length_dump_row [of n b] by (subst dump_rows.simps) (cases b; auto)
    next
      case False
      then have "(length b + 15) div 16 = (length (drop 16 b) + 15) div 16 + 1"
        using div_add_self2 [of 16 "length (drop 16 b) + 15"] by simp
      then show ?thesis using 1 False length_dump_row [of n b] by (subst dump_rows.simps) auto
    qed
  qed
  then show "length p \<le> 65536 \<Longrightarrow> length (hexdump p) = 73 * ((length p + 15) div 16)" by (simp add: hexdump_def)
qed

end
