(* ===== verification/Gamepad.thy ===== *)
theory Gamepad
  imports UsbDescriptor
begin

text \<open>
  The two programs that read a game pad through the USB library (\<open>work/myApps/joystick-milestone1/xbox.c\<close>
  and \<open>work/myApps/xbox/xbox.c\<close>). What the library answers is a record \<open>pad\<close>: the result of each call and, for
  each transfer, the bytes it stores. The calls made and the lines printed are logged in order.
\<close>

section \<open>The library and the log\<close>

datatype usb_call = Init | Open | Detach | Claim | Release | Close | Exit

datatype pad_event = Call usb_call | Printed string | Complained string

record pad =
  init_result :: int
  present :: bool                                  \<comment> \<open>the device can be opened\<close>
  claim_result :: int
  transfers :: "nat \<Rightarrow> int \<times> 8 word list"      \<comment> \<open>result and bytes stored, for each transfer\<close>

type_synonym buffer = "8 word option list"          \<comment> \<open>\<open>None\<close> where nothing was stored yet\<close>

definition store_bytes :: "8 word list \<Rightarrow> buffer \<Rightarrow> buffer" where \<comment> \<open>no more than fit are transferred\<close>
  "store_bytes bs data = map Some (take (length data) bs) @ drop (length bs) data"

definition byte_is :: "buffer \<Rightarrow> nat \<Rightarrow> 8 word \<Rightarrow> bool res" where
  "byte_is data i v = rbind (aread data (int i)) (\<lambda>b. case b of None \<Rightarrow> Inl Uninitialised | Some b \<Rightarrow> Inr (b = v))"

definition both_are :: "buffer \<Rightarrow> nat \<Rightarrow> 8 word \<Rightarrow> nat \<Rightarrow> 8 word \<Rightarrow> bool res" where \<comment> \<open>\<open>data[i] == v && data[j] == w\<close>\<close>
  "both_are data i v j w = rbind (byte_is data i v) (\<lambda>b. if b then byte_is data j w else Inr False)"

section \<open>The reader of the stick\<close>

definition print_if :: "bool \<Rightarrow> string \<Rightarrow> pad_event list" where
  "print_if b line = (if b then [Printed line] else [])"

definition report_stick :: "buffer \<Rightarrow> pad_event list res" where
  "report_stick data =
     rbind (both_are data 8 0xff 9 0x7f) (\<lambda>up.
     rbind (byte_is data 7 0x80) (\<lambda>left.
     rbind (both_are data 6 0xff 7 0x7f) (\<lambda>right.
     rbind (byte_is data 9 0x80) (\<lambda>down.
     Inr (print_if up ''up'' @ print_if left ''left'' @ print_if right ''right'' @ print_if down ''down'')))))"

fun read_loop :: "nat \<Rightarrow> pad \<Rightarrow> nat \<Rightarrow> buffer \<Rightarrow> pad_event list \<Rightarrow> pad_event list res option" where \<comment> \<open>\<open>None\<close>: still running\<close>
  "read_loop 0 w k data log = None"
| "read_loop (Suc fuel) w k data log =
     (let (error, bs) = transfers w k in
      if error = LIBUSB_ERROR_INTERRUPTED then Some (Inr log)
      else if error \<noteq> 0 then Some (Inr (log @ [Complained ''libusb_interrupt_transfer() failed'']))
      else
       (let data = store_bytes bs data in
        case report_stick data of Inl err \<Rightarrow> Some (Inl err) | Inr out \<Rightarrow> read_loop fuel w (Suc k) data (log @ out)))"

definition stick_main :: "nat \<Rightarrow> pad \<Rightarrow> (int \<times> pad_event list) res option" where
  "stick_main fuel w =
     (if init_result w \<noteq> 0 then Some (Inr (1, [Call Init, Complained ''libusb_init() failed'']))
      else if \<not> present w then
        Some (Inr (1, [Call Init, Call Open, Printed ''1118, 654'', Complained ''device not found'', Call Exit]))
      else
       (let log = [Call Init, Call Open, Printed ''1118, 654'', Call Detach, Call Claim] in
        if claim_result w \<noteq> 0 then Some (Inr (1, log @ [Complained ''libusb_claim_interface() failed'', Call Close, Call Exit]))
        else
         (case read_loop fuel w 0 (replicate 20 None) (log @ [Printed ''Waiting for controller input...'']) of
            None \<Rightarrow> None
          | Some (Inl err) \<Rightarrow> Some (Inl err)
          | Some (Inr log) \<Rightarrow> Some (Inr (0, log @ [Call Release, Call Close, Call Exit])))))"

section \<open>The dump of one report\<close>

definition dump_main :: "pad \<Rightarrow> (int \<times> pad_event list) res" where
  "dump_main w =
     (if \<not> present w then Inr (1, [Call Init, Call Open, Printed ''Xbox controller not found''])
      else
       (let (result, bs) = transfers w 0; length = min 8 (size bs) in
        Inr (0, [Call Init, Call Open, Call Claim] @
          (if result = 0 \<and> length = 8 then map (\<lambda>b. Printed [char_of (uint b)]) (take 8 bs) else []) @
          [Call Release, Call Close, Call Exit])))"

section \<open>What the library asks of its caller\<close>

text \<open>
  A session of the library: initialised, then a device open, then its interface claimed; each is given back before
  the one it rests on. \<open>use c\<close> is \<open>None\<close> for a call that is not allowed.
\<close>

record session =
  ready :: bool
  handle :: bool
  claimed :: bool

definition nothing_held :: session where
  "nothing_held = \<lparr>ready = False, handle = False, claimed = False\<rparr>"

fun use :: "pad \<Rightarrow> usb_call \<Rightarrow> session \<Rightarrow> session option" where
  "use w Init s = (if ready s then None else Some (s\<lparr>ready := (init_result w = 0)\<rparr>))"
| "use w Open s = (if ready s \<and> \<not> handle s then Some (s\<lparr>handle := present w\<rparr>) else None)"
| "use w Detach s = (if handle s then Some s else None)"
| "use w Claim s = (if handle s then Some (s\<lparr>claimed := (claim_result w = 0)\<rparr>) else None)"
| "use w Release s = (if claimed s then Some (s\<lparr>claimed := False\<rparr>) else None)"
| "use w Close s = (if handle s \<and> \<not> claimed s then Some (s\<lparr>handle := False\<rparr>) else None)"
| "use w Exit s = (if ready s \<and> \<not> handle s then Some (s\<lparr>ready := False\<rparr>) else None)"

fun session_after :: "pad \<Rightarrow> pad_event list \<Rightarrow> session \<Rightarrow> session option" where
  "session_after w [] s = Some s"
| "session_after w (Call c # es) s = (case use w c s of None \<Rightarrow> None | Some s \<Rightarrow> session_after w es s)"
| "session_after w (e # es) s = session_after w es s"

lemma session_after_append:
  "session_after w (xs @ ys) s = (case session_after w xs s of None \<Rightarrow> None | Some s \<Rightarrow> session_after w ys s)"
  by (induction w xs s rule: session_after.induct) (auto split: option.splits)

lemma report_no_calls: "report_stick data = Inr out \<Longrightarrow> session_after w out s = Some s"
  by (auto simp: report_stick_def print_if_def res_iff)

lemma read_loop_log:
  "read_loop fuel w k data log = Some (Inr log') \<Longrightarrow> session_after w log' s = session_after w log s"
proof (induction fuel w k data log arbitrary: log' rule: read_loop.induct)
  case (2 fuel w k data log)
  then show ?case
    by (auto simp: session_after_append report_no_calls Let_def split: prod.splits sum.splits if_splits option.splits)
qed simp

text \<open>
  C39. Whatever the library answers, when the reader of the stick returns it has used the library as it
  asks, and given back everything: the interface is released, the device closed and the library left, each exactly when it was acquired.
\<close>

theorem stick_gives_back:
  assumes "stick_main fuel w = Some (Inr (code, log))"
  shows "session_after w log nothing_held = Some nothing_held"
proof -
  note s = nothing_held_def session_after_append
  consider "init_result w \<noteq> 0" | "init_result w = 0" "\<not> present w" | "init_result w = 0" "present w" "claim_result w \<noteq> 0"
    | "init_result w = 0" "present w" "claim_result w = 0" by blast
  then show ?thesis
  proof cases
    case 4
    let ?start = "[Call Init, Call Open, Printed ''1118, 654'', Call Detach, Call Claim, Printed ''Waiting for controller input...'']"
    obtain l where l: "read_loop fuel w 0 (replicate 20 None) ?start = Some (Inr l)" "log = l @ [Call Release, Call Close, Call Exit]"
      using assms 4 by (auto simp: stick_main_def split: option.splits sum.splits)
    have "session_after w l nothing_held = Some \<lparr>ready = True, handle = True, claimed = True\<rparr>"
      using read_loop_log [OF l(1)] 4 by (simp add: s)
    then show ?thesis using l(2) by (simp add: s)
  qed (use assms in \<open>auto simp: stick_main_def s\<close>)
qed

definition demo_pad :: pad where
  "demo_pad = \<lparr>init_result = 0, present = True, claim_result = 0,
     transfers = (\<lambda>k. if k = 0 then (0, [0, 20, 0, 0, 0, 0, 0xff, 0x7f, 0, 0x80, 0, 0, 0, 0, 0, 0, 0, 0, 0, 0]) else (- 4, []))\<rparr>"

text \<open>
  Without the game pad the dump leaves the library initialised; and it gives back an interface that it may not have.
\<close>

lemma dump_keeps_library: "\<not> present w \<Longrightarrow> init_result w = 0 \<Longrightarrow>
  \<exists>log. dump_main w = Inr (1, log) \<and> session_after w log nothing_held = Some (nothing_held\<lparr>ready := True\<rparr>)"
  by (simp add: dump_main_def nothing_held_def)

theorem stick_gives_back_witness:
  "\<exists>code log. stick_main 5 demo_pad = Some (Inr (code, log)) \<and> session_after demo_pad log nothing_held = Some nothing_held"
proof -
  have "case stick_main 5 demo_pad of Some (Inr (code, log)) \<Rightarrow> code = 0 | _ \<Rightarrow> False" by code_simp
  then obtain log where "stick_main 5 demo_pad = Some (Inr (0, log))" by (auto split: option.splits sum.splits)
  then show ?thesis using stick_gives_back [of 5 demo_pad] by blast
qed

section \<open>The stick\<close>

text \<open>The axes in a report: two bytes each, little endian, two's complement.\<close>

definition axis :: "8 word list \<Rightarrow> nat \<Rightarrow> int" where
  "axis bs i = (let u = uint (bs ! i) + 256 * uint (bs ! (i + 1)) in if u < 32768 then u else u - 65536)"

lemma little_endian_cases:
  assumes "0 \<le> l" "l < 256" "0 \<le> h" "h < 256"
  shows "(let u = l + 256 * h in if u < 32768 then u else u - 65536) = (32767 :: int) \<longleftrightarrow> l = 255 \<and> h = 127"
    "(let u = l + 256 * h in if u < 32768 then u else u - 65536) < (- 32512 :: int) \<longleftrightarrow> h = 128"
proof -
  consider "h < 127" | "h = 127" | "h = 128" | "128 < h" by linarith
  then have "l + 256 * h = 32767 \<longleftrightarrow> l = 255 \<and> h = 127" "32768 \<le> l + 256 * h \<and> l + 256 * h < 33024 \<longleftrightarrow> h = 128"
    using assms by (cases; auto)+
  moreover have "l + 256 * h < 65536" using assms by linarith
  ultimately show "(let u = l + 256 * h in if u < 32768 then u else u - 65536) = (32767 :: int) \<longleftrightarrow> l = 255 \<and> h = 127"
    "(let u = l + 256 * h in if u < 32768 then u else u - 65536) < (- 32512 :: int) \<longleftrightarrow> h = 128"
    unfolding Let_def using assms by auto
qed

lemma axis_cases:
  "axis bs i = 32767 \<longleftrightarrow> bs ! i = 0xff \<and> bs ! (i + 1) = 0x7f"
  "axis bs i < - 32512 \<longleftrightarrow> bs ! (i + 1) = 0x80"
proof -
  have b: "0 \<le> uint b" "uint b < 256" for b :: "8 word"
    using uint_bounded [of b] by simp_all
  have e: "v = w \<longleftrightarrow> uint v = uint w" for v w :: "8 word" by (simp add: word_uint_eq_iff)
  show "axis bs i = 32767 \<longleftrightarrow> bs ! i = 0xff \<and> bs ! (i + 1) = 0x7f" "axis bs i < - 32512 \<longleftrightarrow> bs ! (i + 1) = 0x80"
    unfolding axis_def little_endian_cases [OF b b] e by simp_all
qed

lemma byte_is_stored: "i < length bs \<Longrightarrow> length bs \<le> length data \<Longrightarrow> byte_is (store_bytes bs data) i v = Inr (bs ! i = v)"
  by (simp add: byte_is_def store_bytes_def aread_def in_range_def nth_append)

text \<open>
  A report that covers both axes is read as the stick: up and right at the very end of their axes
  only, left and down in the last 256 positions of theirs, in the order up, left, right, down, whatever the buffer held before.
\<close>

theorem report_shows_stick:
  assumes "10 \<le> length bs" "length bs \<le> length data"
  shows "report_stick (store_bytes bs data) = Inr (print_if (axis bs 8 = 32767) ''up'' @ print_if (axis bs 6 < - 32512) ''left'' @
    print_if (axis bs 6 = 32767) ''right'' @ print_if (axis bs 8 < - 32512) ''down'')"
proof -
  have "both_are (store_bytes bs data) i v j x = Inr (bs ! i = v \<and> bs ! j = x)" if "i < 10" "j < 10" for i v j x
    using that assms byte_is_stored [of i bs data] byte_is_stored [of j bs data] by (simp add: both_are_def)
  then show ?thesis
    using assms byte_is_stored [of 7 bs data] byte_is_stored [of 9 bs data]
    by (simp add: report_stick_def axis_cases)
qed

theorem report_shows_stick_witness:
  "report_stick (store_bytes (snd (transfers demo_pad 0)) (replicate 20 None)) =
    Inr (print_if (axis (snd (transfers demo_pad 0)) 8 = 32767) ''up'' @ print_if (axis (snd (transfers demo_pad 0)) 6 < - 32512) ''left'' @
    print_if (axis (snd (transfers demo_pad 0)) 6 = 32767) ''right'' @ print_if (axis (snd (transfers demo_pad 0)) 8 < - 32512) ''down'')"
  by (rule report_shows_stick) (simp_all add: demo_pad_def)

text \<open>The number of bytes received is never looked at: a first report that ends before byte 7 is read beyond its end.\<close>

lemma short_report_read:
  assumes "length bs \<le> 7" "bs \<noteq> []"
  shows "report_stick (store_bytes bs (replicate 20 None)) = Inl Uninitialised"
  using assms by (simp add: report_stick_def both_are_def byte_is_def store_bytes_def aread_def in_range_def nth_append)

end
