(* ===== verification/Prioq.thy ===== *)
theory Prioq
  imports Prelude "HOL-Library.Multiset"
begin

text \<open>
  The priority queue of the system library (\<open>work/crosscompile/systemd-main/src/basic/prioq.c\<close>): a binary heap in
  an array, whose entries may tell their owner at which index they are. The compare function is an
  argument of every operation, as it evaluates at that moment: the owners change what it compares and
  then reshuffle. It may fail, like the ones of \<open>sd-event.c\<close>, which assert what they rely on.
\<close>

section \<open>The queue\<close>

type_synonym 'd comparator = "'d \<Rightarrow> 'd \<Rightarrow> int res"

record 'd prioq_item =
  data :: 'd
  idx :: "nat option"   \<comment> \<open>the address of the index variable of the owner, if there is one\<close>

record 'd prioq =
  items :: "'d prioq_item list"   \<comment> \<open>the first \<open>n_items\<close> cells of the array\<close>
  n_allocated :: nat
  idx_var :: "nat \<Rightarrow> nat"        \<comment> \<open>the index variables of the owners, by address\<close>

definition PRIOQ_IDX_NULL :: nat where "PRIOQ_IDX_NULL = 4294967295"

definition ENOMEM :: int where "ENOMEM = 12"

definition n_items :: "'d prioq \<Rightarrow> nat" where
  "n_items q = length (items q)"

definition item :: "'d prioq \<Rightarrow> nat \<Rightarrow> 'd prioq_item res" where
  "item q i = aread (items q) (int i)"

definition compare_items :: "'d comparator \<Rightarrow> 'd prioq \<Rightarrow> nat \<Rightarrow> nat \<Rightarrow> int res" where
  "compare_items cmp q i j = rbind (item q i) (\<lambda>x. rbind (item q j) (\<lambda>y. cmp (data x) (data y)))"

definition set_idx :: "nat option \<Rightarrow> nat \<Rightarrow> (nat \<Rightarrow> nat) \<Rightarrow> nat \<Rightarrow> nat" where \<comment> \<open>\<open>if (idx) *idx = k\<close>\<close>
  "set_idx p k m = (case p of None \<Rightarrow> m | Some a \<Rightarrow> m(a := k))"

definition idx_is :: "nat option \<Rightarrow> nat \<Rightarrow> (nat \<Rightarrow> nat) \<Rightarrow> bool" where \<comment> \<open>\<open>!idx || *idx == k\<close>\<close>
  "idx_is p k m = (case p of None \<Rightarrow> True | Some a \<Rightarrow> m a = k)"

definition prioq_new :: "bool \<Rightarrow> (nat \<Rightarrow> nat) \<Rightarrow> 'd prioq option" where
  "prioq_new ok m = (if \<not> ok then None else Some \<lparr>items = [], n_allocated = 0, idx_var = m\<rparr>)"

definition prioq_free :: "'d prioq option \<Rightarrow> 'd prioq option" where \<comment> \<open>what the caller gets for its pointer\<close>
  "prioq_free q = None"

section \<open>Moving entries\<close>

definition swap :: "'d prioq \<Rightarrow> nat \<Rightarrow> nat \<Rightarrow> 'd prioq res" where
  "swap q j k =
     rbind (rassert (j < n_items q) AssertFail) (\<lambda>_.
     rbind (rassert (k < n_items q) AssertFail) (\<lambda>_.
     let x = items q ! j; y = items q ! k in
     rbind (rassert (idx_is (idx x) j (idx_var q)) AssertFail) (\<lambda>_.
     rbind (rassert (idx_is (idx y) k (idx_var q)) AssertFail) (\<lambda>_.
     let its = (items q)[j := y, k := x] in
     Inr (q\<lparr>items := its, idx_var := set_idx (idx (its ! k)) k (set_idx (idx (its ! j)) j (idx_var q))\<rparr>)))))"

lemma swap_length: "swap q j k = Inr q' \<Longrightarrow> n_items q' = n_items q"
  by (auto simp: swap_def n_items_def Let_def res_iff)

function shuffle_up :: "'d comparator \<Rightarrow> 'd prioq \<Rightarrow> nat \<Rightarrow> ('d prioq \<times> nat) res" where
  "shuffle_up cmp q i =
     rbind (rassert (i < n_items q) AssertFail) (\<lambda>_.
     if i = 0 then Inr (q, i)
     else
      (let k = (i - 1) div 2 in
       rbind (compare_items cmp q k i) (\<lambda>c.
       if c \<le> 0 then Inr (q, i)
       else rbind (swap q i k) (\<lambda>q. shuffle_up cmp q k))))"
  by pat_completeness auto
termination by (relation "measure (\<lambda>(cmp, q, i). i)") auto

function shuffle_down :: "'d comparator \<Rightarrow> 'd prioq \<Rightarrow> nat \<Rightarrow> ('d prioq \<times> nat) res" where
  "shuffle_down cmp q i =
     (let k = (i + 1) * 2; j = k - 1 in
      if n_items q \<le> j then Inr (q, i)
      else
       rbind (compare_items cmp q j i) (\<lambda>c1.
       let s = (if c1 < 0 then j else i) in
       rbind (if k < n_items q then compare_items cmp q k s else Inr 0) (\<lambda>c2.
       let s = (if k < n_items q \<and> c2 < 0 then k else s) in
       if s = i then Inr (q, i)
       else rbind (swap q i s) (\<lambda>q. shuffle_down cmp q s))))"
  by pat_completeness auto
termination
  by (relation "measure (\<lambda>(cmp, q, i). n_items q - i)") (auto simp: Let_def dest!: swap_length split: if_splits)

declare shuffle_up.simps [simp del] shuffle_down.simps [simp del]


section \<open>The operations\<close>

definition prioq_put :: "'d comparator \<Rightarrow> bool \<Rightarrow> 'd \<Rightarrow> nat option \<Rightarrow> 'd prioq \<Rightarrow> (int \<times> 'd prioq) res" where
  "prioq_put cmp ok d p q =
     (if n_allocated q \<le> n_items q \<and> \<not> ok then Inr (- ENOMEM, q)
      else
       (let k = n_items q;
            q1 = q\<lparr>items := items q @ [\<lparr>data = d, idx = p\<rparr>],
                   n_allocated := (if n_allocated q \<le> n_items q then max ((n_items q + 1) * 2 mod 2 ^ 32) 16 else n_allocated q),
                   idx_var := set_idx p k (idx_var q)\<rparr> in
        rbind (shuffle_up cmp q1 k) (\<lambda>(q, _). Inr (0, q))))"

definition prioq_ensure_allocated :: "bool \<Rightarrow> (nat \<Rightarrow> nat) \<Rightarrow> 'd prioq option \<Rightarrow> int \<times> 'd prioq option" where
  "prioq_ensure_allocated ok m q = (case q of Some q \<Rightarrow> (0, Some q)
     | None \<Rightarrow> (case prioq_new ok m of None \<Rightarrow> (- ENOMEM, None) | Some q \<Rightarrow> (0, Some q)))"

definition prioq_ensure_put ::
  "bool \<Rightarrow> (nat \<Rightarrow> nat) \<Rightarrow> 'd comparator \<Rightarrow> bool \<Rightarrow> 'd \<Rightarrow> nat option \<Rightarrow> 'd prioq option \<Rightarrow> (int \<times> 'd prioq option) res" where
  "prioq_ensure_put ok_new m cmp ok d p q =
     (case prioq_ensure_allocated ok_new m q of
        (r, None) \<Rightarrow> Inr (r, None)
      | (r, Some q) \<Rightarrow> if r < 0 then Inr (r, Some q)
          else rbind (prioq_put cmp ok d p q) (\<lambda>(r, q). Inr (r, Some q)))"

definition remove_item :: "'d comparator \<Rightarrow> nat \<Rightarrow> 'd prioq \<Rightarrow> 'd prioq res" where
  "remove_item cmp k q =
     rbind (rassert (k < n_items q) OutOfBounds) (\<lambda>_.
      if k + 1 = n_items q then Inr (q\<lparr>items := butlast (items q)\<rparr>)
      else
       (let l = last (items q);
            q1 = q\<lparr>items := butlast ((items q)[k := l]), idx_var := set_idx (idx l) k (idx_var q)\<rparr> in
        rbind (shuffle_down cmp q1 k) (\<lambda>(q2, k2). rbind (shuffle_up cmp q2 k2) (\<lambda>(q3, _). Inr q3))))"

fun find_data :: "'d \<Rightarrow> 'd prioq_item list \<Rightarrow> nat \<Rightarrow> nat option" where \<comment> \<open>the loop of \<open>find_item\<close>\<close>
  "find_data d [] i = None"
| "find_data d (x # xs) i = (if data x = d then Some i else find_data d xs (i + 1))"

definition find_item :: "'d \<Rightarrow> nat option \<Rightarrow> 'd prioq \<Rightarrow> nat option" where
  "find_item d p q =
     (if n_items q = 0 then None
      else case p of
        Some a \<Rightarrow>
          if idx_var q a = PRIOQ_IDX_NULL \<or> n_items q \<le> idx_var q a then None
          else if data (items q ! idx_var q a) \<noteq> d then None
          else Some (idx_var q a)
      | None \<Rightarrow> find_data d (items q) 0)"

definition prioq_remove :: "'d comparator \<Rightarrow> 'd \<Rightarrow> nat option \<Rightarrow> 'd prioq option \<Rightarrow> (int \<times> 'd prioq option) res" where
  "prioq_remove cmp d p q = (case q of None \<Rightarrow> Inr (0, None)
     | Some q \<Rightarrow> (case find_item d p q of None \<Rightarrow> Inr (0, Some q)
         | Some i \<Rightarrow> rbind (remove_item cmp i q) (\<lambda>q. Inr (1, Some q))))"

definition prioq_reshuffle :: "'d comparator \<Rightarrow> 'd \<Rightarrow> nat option \<Rightarrow> 'd prioq \<Rightarrow> 'd prioq res" where
  "prioq_reshuffle cmp d p q = (case find_item d p q of None \<Rightarrow> Inr q
     | Some k \<Rightarrow> rbind (shuffle_down cmp q k) (\<lambda>(q1, k1). rbind (shuffle_up cmp q1 k1) (\<lambda>(q2, _). Inr q2)))"

definition prioq_peek_by_index :: "'d prioq option \<Rightarrow> nat \<Rightarrow> 'd option" where
  "prioq_peek_by_index q i = (case q of None \<Rightarrow> None
     | Some q \<Rightarrow> if n_items q \<le> i then None else Some (data (items q ! i)))"

definition prioq_peek :: "'d prioq option \<Rightarrow> 'd option" where
  "prioq_peek q = prioq_peek_by_index q 0"

definition prioq_pop :: "'d comparator \<Rightarrow> 'd prioq option \<Rightarrow> ('d option \<times> 'd prioq option) res" where
  "prioq_pop cmp q = (case q of None \<Rightarrow> Inr (None, None)
     | Some q \<Rightarrow> if n_items q = 0 then Inr (None, Some q)
         else rbind (item q 0) (\<lambda>x. rbind (remove_item cmp 0 q) (\<lambda>q. Inr (Some (data x), Some q))))"

definition prioq_size :: "'d prioq option \<Rightarrow> nat" where
  "prioq_size q = (case q of None \<Rightarrow> 0 | Some q \<Rightarrow> n_items q)"

definition prioq_isempty :: "'d prioq option \<Rightarrow> bool" where
  "prioq_isempty q = (case q of None \<Rightarrow> True | Some q \<Rightarrow> n_items q = 0)"

section \<open>Heaps with a hole\<close>

abbreviation par :: "nat \<Rightarrow> nat" where "par i \<equiv> (i - 1) div 2"

text \<open>
  \<open>r i\<close> is the rank of the entry at index \<open>i\<close>. In a heap every entry is at least its parent; in one with a
  hole at \<open>i\<close> the entry at \<open>i\<close> may be smaller than its parent; in a broken one it may be any.
\<close>

definition heap_on :: "(nat \<Rightarrow> 'k :: linorder) \<Rightarrow> nat \<Rightarrow> bool" where
  "heap_on r n \<longleftrightarrow> (\<forall>j. 0 < j \<and> j < n \<longrightarrow> r (par j) \<le> r j)"

definition hole_up :: "(nat \<Rightarrow> 'k :: linorder) \<Rightarrow> nat \<Rightarrow> nat \<Rightarrow> bool" where
  "hole_up r n i \<longleftrightarrow> (\<forall>j. 0 < j \<and> j < n \<and> j \<noteq> i \<longrightarrow> r (par j) \<le> r j) \<and>
     (\<forall>j. 0 < j \<and> j < n \<and> par j = i \<and> 0 < i \<longrightarrow> r (par i) \<le> r j)"

definition broken :: "(nat \<Rightarrow> 'k :: linorder) \<Rightarrow> nat \<Rightarrow> nat \<Rightarrow> bool" where
  "broken r n i \<longleftrightarrow> (\<forall>j. 0 < j \<and> j < n \<and> j \<noteq> i \<and> par j \<noteq> i \<longrightarrow> r (par j) \<le> r j) \<and>
     (\<forall>j. 0 < j \<and> j < n \<and> par j = i \<and> 0 < i \<longrightarrow> r (par i) \<le> r j)"

lemma par_less: "0 < j \<Longrightarrow> par j < j"
  by simp

lemma heap_hole: "heap_on r n \<Longrightarrow> hole_up r n i"
  unfolding heap_on_def hole_up_def by (metis div_le_dividend le_less_trans order_trans diff_le_self)

lemma hole_filled: "hole_up r n i \<Longrightarrow> i = 0 \<or> r (par i) \<le> r i \<Longrightarrow> heap_on r n"
  unfolding heap_on_def hole_up_def by (metis less_irrefl)

lemma hole_closed: "broken r n i \<Longrightarrow> (\<And>j. 0 < j \<Longrightarrow> j < n \<Longrightarrow> par j = i \<Longrightarrow> r i \<le> r j) \<Longrightarrow> hole_up r n i"
  unfolding broken_def hole_up_def by metis

lemma hole_moves_up:
  assumes "hole_up r n i" "0 < i" "i < n" "r i \<le> r (par i)"
  shows "hole_up (r(i := r (par i), par i := r i)) n (par i)"
proof -
  let ?r = "r(i := r (par i), par i := r i)"
  have ne: "par i \<noteq> i" "par i < i" using par_less [OF assms(2)] by auto
  have le: "r (par j) \<le> r j" if "0 < j" "j < n" "j \<noteq> i" for j using assms(1) that unfolding hole_up_def by blast
  have gp: "r (par i) \<le> r j" if "0 < j" "j < n" "par j = i" for j using assms(1,2) that unfolding hole_up_def by blast
  have "?r (par j) \<le> ?r j" if j: "0 < j" "j < n" "j \<noteq> par i" for j
  proof -
    have pj: "par j \<noteq> j" using par_less [OF j(1)] by simp
    consider "j = i" | "j \<noteq> i" "par j = par i" | "j \<noteq> i" "par j = i" | "j \<noteq> i" "par j \<noteq> i" "par j \<noteq> par i" by blast
    then show ?thesis
      using le [OF j(1,2)] gp [OF j(1,2)] assms(4) j(3) ne by cases auto
  qed
  moreover have "?r (par (par i)) \<le> ?r j" if j: "0 < j" "j < n" "par j = par i" "0 < par i" for j
  proof -
    have "par (par i) < par i" using par_less [OF j(4)] .
    moreover have "r (par (par i)) \<le> r (par i)" using le [of "par i"] j(4) ne assms(3) by simp
    moreover have "j \<noteq> par i" using par_less [OF j(1)] j(3) by simp
    moreover have "j \<noteq> i \<Longrightarrow> r (par i) \<le> r j" using le [OF j(1,2)] j(3) by simp
    ultimately show ?thesis using ne by (cases "j = i") auto
  qed
  ultimately show ?thesis unfolding hole_up_def by blast
qed

lemma break_moves_down:
  assumes "broken r n i" "0 < s" "s < n" "par s = i" "r s \<le> r i" "\<And>j. 0 < j \<Longrightarrow> j < n \<Longrightarrow> par j = i \<Longrightarrow> r s \<le> r j"
  shows "broken (r(i := r s, s := r i)) n s"
proof -
  let ?r = "r(i := r s, s := r i)"
  have ne: "i < s" using par_less [OF assms(2)] assms(4) by simp
  have le: "r (par j) \<le> r j" if "0 < j" "j < n" "j \<noteq> i" "par j \<noteq> i" for j using assms(1) that unfolding broken_def by blast
  have gp: "r (par i) \<le> r j" if "0 < j" "j < n" "par j = i" "0 < i" for j using assms(1) that unfolding broken_def by blast
  have "?r (par j) \<le> ?r j" if j: "0 < j" "j < n" "j \<noteq> s" "par j \<noteq> s" for j
  proof -
    consider "j = i" | "j \<noteq> i" "par j = i" | "j \<noteq> i" "par j \<noteq> i" by blast
    then show ?thesis
    proof cases
      case 1
      then show ?thesis using gp [OF assms(2-4)] j ne par_less [OF j(1)] by auto
    qed (use le [OF j(1,2)] assms(6) [OF j(1,2)] j in auto)
  qed
  moreover have "?r (par s) \<le> ?r j" if j: "0 < j" "j < n" "par j = s" for j
    using le [OF j(1,2)] j ne par_less [OF j(1)] assms(4) by auto
  ultimately show ?thesis unfolding broken_def by blast
qed

lemma heap_root: "heap_on r n \<Longrightarrow> i < n \<Longrightarrow> r 0 \<le> r i"
proof (induction i rule: less_induct)
  case (less i)
  show ?case
  proof (cases "i = 0")
    case False
    then have "par i < i" "r (par i) \<le> r i" using par_less less.prems unfolding heap_on_def by auto
    then show ?thesis using less.IH [of "par i"] less.prems by (meson le_less_trans less_imp_le order_trans)
  qed simp
qed


section \<open>Index variables\<close>

definition idx_ok :: "'d prioq \<Rightarrow> bool" where \<comment> \<open>every owner is told where its entry is\<close>
  "idx_ok q \<longleftrightarrow> (\<forall>i < n_items q. idx_is (idx (items q ! i)) i (idx_var q))"

lemma idx_is_set: "idx_is p i (set_idx p' k m) \<longleftrightarrow> (if p = p' \<and> p \<noteq> None then i = k else idx_is p i m)"
  by (cases p; cases p') (auto simp: idx_is_def set_idx_def)

lemma idx_unique: "idx_ok q \<Longrightarrow> i < n_items q \<Longrightarrow> j < n_items q \<Longrightarrow> idx (items q ! i) = Some a \<Longrightarrow> idx (items q ! j) = Some a \<Longrightarrow> i = j"
proof -
  assume q: "idx_ok q" and i: "i < n_items q" "idx (items q ! i) = Some a" and j: "j < n_items q" "idx (items q ! j) = Some a"
  have "idx_is (Some a) i (idx_var q)" "idx_is (Some a) j (idx_var q)"
    using q i(1) j(1) unfolding idx_ok_def i(2) [symmetric] by (simp, simp add: i(2) flip: j(2))
  then show "i = j" by (simp add: idx_is_def)
qed

lemma swap_runs:
  assumes "idx_ok q" "j < n_items q" "k < n_items q" "j \<noteq> k"
  obtains q' where "swap q j k = Inr q'" "items q' = (items q)[j := items q ! k, k := items q ! j]" "idx_ok q'"
    "n_allocated q' = n_allocated q"
proof -
  let ?its = "(items q)[j := items q ! k, k := items q ! j]"
  let ?m = "set_idx (idx (?its ! k)) k (set_idx (idx (?its ! j)) j (idx_var q))"
  have len: "length (items q) = n_items q" by (simp add: n_items_def)
  have at: "?its ! j = items q ! k" "?its ! k = items q ! j" using assms(2-4) len by simp_all
  have "idx_is (idx (?its ! i)) i ?m" if i: "i < n_items q" for i
  proof -
    have jk: "idx (items q ! j) = idx (items q ! k) \<Longrightarrow> idx (items q ! j) = None"
      using idx_unique [OF assms(1-3)] assms(4) by fastforce
    have old: "idx_is (idx (items q ! i)) i (idx_var q)" using assms(1) i by (simp add: idx_ok_def)
    consider "i = j" | "i = k" | "i \<noteq> j" "i \<noteq> k" by blast
    then show ?thesis
    proof cases
      case 1
      then show ?thesis unfolding at idx_is_set using jk assms(4) by (auto simp: at idx_is_def split: option.splits)
    next
      case 2
      then show ?thesis unfolding at idx_is_set by (auto simp: at idx_is_def split: option.splits)
    next
      case 3
      then have "?its ! i = items q ! i" by simp
      moreover have "Some a \<noteq> idx (items q ! j) \<and> Some a \<noteq> idx (items q ! k)" if "idx (items q ! i) = Some a" for a
        using idx_unique [OF assms(1) i assms(2) that] idx_unique [OF assms(1) i assms(3) that] 3 by metis
      ultimately show ?thesis unfolding at idx_is_set using old by (cases "idx (items q ! i)") (simp_all add: idx_is_def)
    qed
  qed
  then have ok: "idx_ok (q\<lparr>items := ?its, idx_var := ?m\<rparr>)" by (simp add: idx_ok_def n_items_def)
  have "swap q j k = Inr (q\<lparr>items := ?its, idx_var := ?m\<rparr>)"
    using assms by (simp add: swap_def Let_def idx_ok_def rassert_def)
  then show ?thesis using that [OF _ _ ok] by simp
qed

lemma mset_swap: "j < length xs \<Longrightarrow> k < length xs \<Longrightarrow> mset (xs[j := xs ! k, k := xs ! j]) = mset xs"
  by (simp add: mset_swap)

text \<open>How the operations reach a heap with a hole or a broken one.\<close>

lemma heap_less: "heap_on r n \<Longrightarrow> m \<le> n \<Longrightarrow> (\<And>i. i < m \<Longrightarrow> r' i = r i) \<Longrightarrow> heap_on r' m"
  unfolding heap_on_def by (metis par_less order_less_le_trans less_trans)

lemma heap_append: "heap_on r n \<Longrightarrow> (\<And>i. i < n \<Longrightarrow> r' i = r i) \<Longrightarrow> hole_up r' (n + 1) n"
proof -
  assume "heap_on r n" and "\<And>i. i < n \<Longrightarrow> r' i = r i"
  then have h: "heap_on r' n" by (rule heap_less [OF _ order_refl])
  show ?thesis
    unfolding hole_up_def
  proof (intro conjI allI impI; elim conjE)
    fix j assume "0 < j" "j < n + 1" "j \<noteq> n"
    then show "r' (par j) \<le> r' j" using h unfolding heap_on_def by simp
  next
    fix j assume "0 < j" "j < n + 1" "par j = n"
    then show "r' (par n) \<le> r' j" using par_less [of j] by simp
  qed
qed

lemma heap_broken: "heap_on r n \<Longrightarrow> (\<And>i. i < n \<Longrightarrow> i \<noteq> k \<Longrightarrow> r' i = r i) \<Longrightarrow> k < n \<Longrightarrow> broken r' n k"
proof -
  assume h: "heap_on r n" and r: "\<And>i. i < n \<Longrightarrow> i \<noteq> k \<Longrightarrow> r' i = r i" and k: "k < n"
  have le: "r (par j) \<le> r j" "par j < n" if "0 < j" "j < n" for j
    using h that par_less [of j] unfolding heap_on_def by auto
  show "broken r' n k"
    unfolding broken_def
  proof (intro conjI allI impI; elim conjE)
    fix j assume "0 < j" "j < n" "j \<noteq> k" "par j \<noteq> k"
    then show "r' (par j) \<le> r' j" using le [of j] r by simp
  next
    fix j assume j: "0 < j" "j < n" "par j = k" "0 < k"
    then have "par k < k" "r (par k) \<le> r k" "r k \<le> r j" "k < j" using le [of j] le [of k] k par_less by auto
    then show "r' (par k) \<le> r' j" using r [of "par k"] r [of j] j k by auto
  qed
qed


lemma children: "0 < j \<Longrightarrow> par j = i \<Longrightarrow> j = (i + 1) * 2 - 1 \<or> j = (i + 1) * 2"
  by (cases j; cases "even (j - 1)") (auto elim!: evenE oddE)

lemma shuffle_down_step:
  assumes "(i + 1) * 2 - 1 < n_items q" "compare_items cmp q ((i + 1) * 2 - 1) i = Inr c1"
    "(if (i + 1) * 2 < n_items q then compare_items cmp q ((i + 1) * 2) (if c1 < 0 then (i + 1) * 2 - 1 else i) else Inr 0) = Inr c2"
    and s: "s = (if (i + 1) * 2 < n_items q \<and> c2 < 0 then (i + 1) * 2 else if c1 < 0 then (i + 1) * 2 - 1 else i)"
  shows "shuffle_down cmp q i = (if s = i then Inr (q, i) else rbind (swap q i s) (\<lambda>q. shuffle_down cmp q s))"
proof -
  define k j where "k = (i + 1) * 2" and "j = k - 1"
  note f = k_def [symmetric] j_def [symmetric]
  have "\<not> n_items q \<le> j" "compare_items cmp q j i = Inr c1"
    "(if k < n_items q then compare_items cmp q k (if c1 < 0 then j else i) else Inr 0) = Inr c2"
    using assms(1-3) unfolding f by simp_all
  then show ?thesis
    unfolding s f shuffle_down.simps [of cmp q i] Let_def f by simp
qed

definition fresh :: "nat option \<Rightarrow> 'd prioq \<Rightarrow> bool" where \<comment> \<open>no entry has this index variable\<close>
  "fresh p q \<longleftrightarrow> p = None \<or> (\<forall>x \<in> set (items q). idx x \<noteq> p)"

lemma idx_ok_append:
  assumes "idx_ok q" "fresh p q"
  shows "idx_ok (q\<lparr>items := items q @ [\<lparr>data = d, idx = p\<rparr>], n_allocated := a, idx_var := set_idx p (n_items q) (idx_var q)\<rparr>)"
proof -
  have "idx_is (idx (items q ! i)) i (set_idx p (n_items q) (idx_var q))" if "i < n_items q" for i
    using assms that nth_mem [of i "items q"] by (auto simp: idx_ok_def fresh_def idx_is_set n_items_def)
  then show ?thesis by (auto simp: idx_ok_def n_items_def nth_append less_Suc_eq idx_is_set idx_is_def set_idx_def split: option.splits)
qed

lemma idx_ok_butlast: "idx_ok q \<Longrightarrow> idx_ok (q\<lparr>items := butlast (items q)\<rparr>)"
  by (simp add: idx_ok_def n_items_def nth_butlast)

lemma idx_ok_replace:
  assumes "idx_ok q" "k < n_items q - 1"
  shows "idx_ok (q\<lparr>items := butlast ((items q)[k := last (items q)]), idx_var := set_idx (idx (last (items q))) k (idx_var q)\<rparr>)"
proof -
  let ?n = "n_items q"
  have len: "length (items q) = ?n" by (simp add: n_items_def)
  then have l: "last (items q) = items q ! (?n - 1)" using assms(2) by (subst last_conv_nth) auto
  have "idx_is (idx ((items q)[k := last (items q)] ! i)) i (set_idx (idx (last (items q))) k (idx_var q))" if i: "i < ?n - 1" for i
  proof (cases "i = k")
    case True
    then show ?thesis using assms(2) len by (auto simp: idx_is_def set_idx_def split: option.splits)
  next
    case False
    have "idx (items q ! i) \<noteq> idx (items q ! (?n - 1))" if "idx (items q ! i) \<noteq> None"
      using idx_unique [OF assms(1), of i "?n - 1"] i that by auto
    moreover have "idx_is (idx (items q ! i)) i (idx_var q)" using assms(1) i by (simp add: idx_ok_def)
    ultimately show ?thesis using False unfolding l by (metis idx_is_set nth_list_update_neq)
  qed
  then show ?thesis by (simp add: idx_ok_def n_items_def nth_butlast)
qed

lemma mset_butlast: "xs \<noteq> [] \<Longrightarrow> mset (butlast xs) = mset xs - {#last xs#}"
  by (induction xs rule: rev_induct) simp_all

lemma mset_replace_last: "k < length xs - 1 \<Longrightarrow> mset (butlast (xs[k := last xs])) = mset xs - {#xs ! k#}"
proof (induction xs rule: rev_induct)
  case (snoc x xs)
  then have "k < length xs" by simp
  then have "xs ! k \<in># mset xs" by simp
  then have "add_mset x (mset xs - {#xs ! k#}) = add_mset x (mset xs) - {#xs ! k#}" by simp
  then show ?case using \<open>k < length xs\<close> by (simp add: list_update_append mset_update nth_append)
qed simp

text \<open>Pop until the queue is empty; a queue of \<open>n\<close> entries needs \<open>n\<close> turns.\<close>

fun prioq_drain :: "'d comparator \<Rightarrow> nat \<Rightarrow> 'd prioq \<Rightarrow> 'd list res" where
  "prioq_drain cmp 0 q = Inr []"
| "prioq_drain cmp (Suc n) q = rbind (prioq_pop cmp (Some q)) (\<lambda>(d, q'). case (d, q') of
     (Some d, Some q') \<Rightarrow> rbind (prioq_drain cmp n q') (\<lambda>ds. Inr (d # ds)) | _ \<Rightarrow> Inr [])"

section \<open>Ordered queues\<close>

text \<open>\<open>rank\<close> is what the compare function orders by, \<open>valid\<close> where it does.\<close>

definition rank_at :: "('d \<Rightarrow> 'k) \<Rightarrow> 'd prioq \<Rightarrow> nat \<Rightarrow> 'k" where
  "rank_at rank q i = rank (data (items q ! i))"

definition sound_queue :: "('d \<Rightarrow> bool) \<Rightarrow> 'd prioq \<Rightarrow> bool" where
  "sound_queue valid q \<longleftrightarrow> idx_ok q \<and> (\<forall>x \<in> set (items q). valid (data x)) \<and> n_items q \<le> n_allocated q"

definition moved_queue :: "('d \<Rightarrow> bool) \<Rightarrow> 'd prioq \<Rightarrow> 'd prioq \<Rightarrow> bool" where \<comment> \<open>the same entries in another order\<close>
  "moved_queue valid q q' \<longleftrightarrow> sound_queue valid q' \<and> mset (items q') = mset (items q) \<and> n_allocated q' = n_allocated q"

definition ordered_queue :: "('d \<Rightarrow> 'k :: linorder) \<Rightarrow> ('d \<Rightarrow> bool) \<Rightarrow> 'd prioq \<Rightarrow> bool" where
  "ordered_queue rank valid q \<longleftrightarrow> sound_queue valid q \<and> heap_on (rank_at rank q) (n_items q)"

definition ordered_but :: "('d \<Rightarrow> 'k :: linorder) \<Rightarrow> ('d \<Rightarrow> bool) \<Rightarrow> 'd prioq \<Rightarrow> nat \<Rightarrow> bool" where \<comment> \<open>the entry at \<open>k\<close> may have changed\<close>
  "ordered_but rank valid q k \<longleftrightarrow> idx_ok q \<and> n_items q \<le> n_allocated q \<and> k < n_items q \<and>
     (\<forall>i < n_items q. i \<noteq> k \<longrightarrow> valid (data (items q ! i))) \<and>
     (\<exists>r. heap_on r (n_items q) \<and> (\<forall>i < n_items q. i \<noteq> k \<longrightarrow> rank_at rank q i = r i))"

lemma ordered_ordered_but: "ordered_queue rank valid q \<Longrightarrow> k < n_items q \<Longrightarrow> ordered_but rank valid q k"
  unfolding ordered_queue_def ordered_but_def sound_queue_def n_items_def by auto

lemma ordered_changed:
  assumes "ordered_queue rank valid q" "k < n_items q"
    "\<And>i. i < n_items q \<Longrightarrow> i \<noteq> k \<Longrightarrow> rank' (data (items q ! i)) = rank (data (items q ! i)) \<and> (valid (data (items q ! i)) \<longrightarrow> valid' (data (items q ! i)))"
  shows "ordered_but rank' valid' q k"
proof -
  have "valid (data (items q ! i))" if "i < n_items q" for i
    using assms(1) that by (auto simp: ordered_queue_def sound_queue_def n_items_def)
  then show ?thesis
    using assms by (auto simp: ordered_but_def ordered_queue_def sound_queue_def intro!: exI [of _ "rank_at rank q"])
      (simp add: rank_at_def)
qed

lemma ordered_cong:
  assumes "ordered_queue rank valid q" "\<And>x. x \<in> set (items q) \<Longrightarrow> rank' (data x) = rank (data x) \<and> (valid (data x) \<longrightarrow> valid' (data x))"
  shows "ordered_queue rank' valid' q"
proof -
  have "rank_at rank' q i = rank_at rank q i" if "i < n_items q" for i
    using assms(2) [of "items q ! i"] that by (simp add: rank_at_def n_items_def)
  moreover have "heap_on (rank_at rank q) (n_items q)" using assms(1) by (simp add: ordered_queue_def)
  ultimately have "heap_on (rank_at rank' q) (n_items q)" by (blast intro: heap_less [OF _ order_refl])
  moreover have "\<forall>x \<in> set (items q). valid' (data x)"
    using assms unfolding ordered_queue_def sound_queue_def by blast
  ultimately show ?thesis using assms(1) unfolding ordered_queue_def sound_queue_def by blast
qed

definition smallest :: "(nat \<Rightarrow> 'k :: linorder) \<Rightarrow> nat \<Rightarrow> nat \<Rightarrow> nat \<Rightarrow> bool" where \<comment> \<open>\<open>s\<close> is the smallest of \<open>i\<close> and its children\<close>
  "smallest r n i s \<longleftrightarrow> s < n \<and> (\<forall>j. 0 < j \<and> j < n \<and> par j = i \<longrightarrow> r s \<le> r j) \<and>
     (s = i \<or> 0 < s \<and> par s = i \<and> r s \<le> r i)"

section \<open>The interface to the compare function\<close>

text \<open>
  A comparison returns, and its sign agrees with the order of the ranks. It may tell apart entries of the
  same rank: where the owners leave the order open, the rank does too.
\<close>

definition signs :: "int res \<Rightarrow> 'k :: linorder \<Rightarrow> 'k \<Rightarrow> bool" where
  "signs m x y \<longleftrightarrow> (\<exists>c. m = Inr c \<and> (c \<le> 0 \<longrightarrow> x \<le> y) \<and> (0 \<le> c \<longrightarrow> y \<le> x))"

text \<open>
  What the queue needs of a compare function: on the entries it is given for, it returns, and its sign
  agrees with a total order of ranks.
\<close>

locale comparison =
  fixes cmp :: "'d comparator" and rank :: "'d \<Rightarrow> 'k :: linorder" and valid :: "'d \<Rightarrow> bool"
  assumes cmp_ranks: "valid a \<Longrightarrow> valid b \<Longrightarrow> signs (cmp a b) (rank a) (rank b)"
begin

abbreviation rk :: "'d prioq \<Rightarrow> nat \<Rightarrow> 'k" where "rk \<equiv> rank_at rank"

abbreviation sound :: "'d prioq \<Rightarrow> bool" where "sound \<equiv> sound_queue valid"

abbreviation moved :: "'d prioq \<Rightarrow> 'd prioq \<Rightarrow> bool" where "moved \<equiv> moved_queue valid"

abbreviation ordered :: "'d prioq \<Rightarrow> bool" where "ordered \<equiv> ordered_queue rank valid"

lemma moved_items: "moved q q' \<Longrightarrow> n_items q' = n_items q"
  unfolding moved_queue_def n_items_def by (metis size_mset)

lemma moved_trans: "moved q q1 \<Longrightarrow> moved q1 q2 \<Longrightarrow> moved q q2"
  by (simp add: moved_queue_def)

lemma moved_refl: "sound q \<Longrightarrow> moved q q"
  by (simp add: moved_queue_def)

lemma compare_items_ranks:
  assumes "sound q" "i < n_items q" "j < n_items q"
  obtains c where "compare_items cmp q i j = Inr c" "c \<le> 0 \<Longrightarrow> rk q i \<le> rk q j" "0 \<le> c \<Longrightarrow> rk q j \<le> rk q i"
proof -
  have "valid (data (items q ! i))" "valid (data (items q ! j))"
    using assms by (auto simp: sound_queue_def n_items_def)
  then show ?thesis
    using cmp_ranks [unfolded signs_def, of "data (items q ! i)" "data (items q ! j)"] that assms(2,3)
    by (auto simp: compare_items_def item_def rank_at_def n_items_def)
qed

lemma swap_moves:
  assumes "sound q" "j < n_items q" "k < n_items q" "j \<noteq> k"
  obtains q' where "swap q j k = Inr q'" "moved q q'" "rk q' = (rk q)(j := rk q k, k := rk q j)"
proof -
  obtain q' where q': "swap q j k = Inr q'" "items q' = (items q)[j := items q ! k, k := items q ! j]" "idx_ok q'"
    "n_allocated q' = n_allocated q" using swap_runs [of q j k] assms by (auto simp: sound_queue_def)
  have m: "mset (items q') = mset (items q)" using assms(2,3) unfolding q'(2) by (simp add: mset_swap n_items_def)
  then have "set (items q') = set (items q)" by (metis set_mset_mset)
  then have "sound q'" using q' assms(1) m by (simp add: sound_queue_def n_items_def flip: size_mset)
  moreover have "rk q' = (rk q)(j := rk q k, k := rk q j)"
    using assms(2-4) by (auto simp: fun_eq_iff rank_at_def q'(2) n_items_def nth_list_update)
  ultimately show ?thesis using that q' m by (simp add: moved_queue_def)
qed

lemma shuffle_up_orders:
  assumes "sound q" "i < n_items q" "hole_up (rk q) (n_items q) i"
  shows "\<exists>q' k. shuffle_up cmp q i = Inr (q', k) \<and> moved q q' \<and> ordered q'"
  using assms
proof (induction i arbitrary: q rule: less_induct)
  case (less i)
  show ?case
  proof (cases "i = 0")
    case True
    then have "shuffle_up cmp q i = Inr (q, i)" using less.prems(2) by (subst shuffle_up.simps) simp
    then show ?thesis using hole_filled [OF less.prems(3)] True moved_refl less.prems(1) by (simp add: ordered_queue_def)
  next
    case False
    then have i: "0 < i" "par i < i" by auto
    then have "par i < n_items q" using less.prems(2) by simp
    then obtain c where c: "compare_items cmp q (par i) i = Inr c" "c \<le> 0 \<Longrightarrow> rk q (par i) \<le> rk q i" "0 \<le> c \<Longrightarrow> rk q i \<le> rk q (par i)"
      using compare_items_ranks [OF less.prems(1) _ less.prems(2)] by blast
    show ?thesis
    proof (cases "c \<le> 0")
      case True
      have "shuffle_up cmp q i = Inr (q, i)"
        using True c(1) less.prems(2) by (subst shuffle_up.simps) (auto simp: Let_def not_less)
      then show ?thesis using hole_filled [OF less.prems(3)] c(2) True moved_refl less.prems(1) by (simp add: ordered_queue_def)
    next
      case False
      obtain q1 where q1: "swap q i (par i) = Inr q1" "moved q q1" "rk q1 = (rk q)(i := rk q (par i), par i := rk q i)"
        using swap_moves [of q i "par i"] less.prems(1,2) i by auto
      have "hole_up (rk q1) (n_items q1) (par i)"
        using hole_moves_up [OF less.prems(3) i(1) less.prems(2)] c(3) False unfolding q1(3) moved_items [OF q1(2)] by simp
      then obtain q' k where "shuffle_up cmp q1 (par i) = Inr (q', k)" "moved q1 q'" "ordered q'"
        using less.IH [OF i(2), of q1] q1(2) moved_items [OF q1(2)] i less.prems(2) by (auto simp: moved_queue_def)
      moreover have "shuffle_up cmp q i = shuffle_up cmp q1 (par i)"
        using c(1) False q1(1) i less.prems(2) by (subst shuffle_up.simps) (simp add: Let_def)
      ultimately show ?thesis using moved_trans q1(2) by metis
    qed
  qed
qed

text \<open>What the loop of \<open>shuffle_down\<close> finds.\<close>

lemma smallest_child:
  assumes "sound q" "i < n_items q" "(i + 1) * 2 - 1 < n_items q"
  obtains c1 c2 where "compare_items cmp q ((i + 1) * 2 - 1) i = Inr c1"
    "(if (i + 1) * 2 < n_items q then compare_items cmp q ((i + 1) * 2) (if c1 < 0 then (i + 1) * 2 - 1 else i) else Inr 0) = Inr c2"
    "smallest (rk q) (n_items q) i (if (i + 1) * 2 < n_items q \<and> c2 < 0 then (i + 1) * 2 else if c1 < 0 then (i + 1) * 2 - 1 else i)"
proof -
  let ?k = "(i + 1) * 2" and ?j = "(i + 1) * 2 - 1"
  obtain c1 where c1: "compare_items cmp q ?j i = Inr c1" "c1 \<le> 0 \<Longrightarrow> rk q ?j \<le> rk q i" "0 \<le> c1 \<Longrightarrow> rk q i \<le> rk q ?j"
    using compare_items_ranks [OF assms(1,3,2)] by blast
  let ?s = "if c1 < 0 then ?j else i"
  have s: "?s < n_items q" "rk q ?s \<le> rk q ?j" "?s = i \<or> 0 < ?s \<and> par ?s = i \<and> rk q ?s \<le> rk q i" "rk q ?s \<le> rk q i"
    using assms(2,3) c1(2,3) by auto
  have small: "smallest (rk q) (n_items q) i t" if "t < n_items q" "rk q t \<le> rk q ?j" "?k < n_items q \<Longrightarrow> rk q t \<le> rk q ?k"
    "t = i \<or> 0 < t \<and> par t = i \<and> rk q t \<le> rk q i" for t
    unfolding smallest_def using that children [of _ i] by metis
  show ?thesis
  proof (cases "?k < n_items q")
    case True
    obtain c2 where c2: "compare_items cmp q ?k ?s = Inr c2" "c2 \<le> 0 \<Longrightarrow> rk q ?k \<le> rk q ?s" "0 \<le> c2 \<Longrightarrow> rk q ?s \<le> rk q ?k"
      using compare_items_ranks [OF assms(1) True s(1)] by blast
    have "smallest (rk q) (n_items q) i (if c2 < 0 then ?k else ?s)"
    proof (cases "c2 < 0")
      case True
      then have "rk q ?k \<le> rk q ?s" using c2(2) by simp
      then have "rk q ?k \<le> rk q ?j" "rk q ?k \<le> rk q i" using order_trans [OF _ s(2)] order_trans [OF _ s(4)] by blast+
      then show ?thesis using small [of ?k] True \<open>?k < n_items q\<close> by simp
    next
      case False
      then show ?thesis using small [OF s(1,2) _ s(3)] c2(3) by simp
    qed
    then show ?thesis using that [OF c1(1)] c2(1) True by simp
  next
    case False
    then have "smallest (rk q) (n_items q) i ?s" using small [OF s(1,2) _ s(3)] by blast
    then show ?thesis using that [OF c1(1), of 0] False by simp
  qed
qed

lemma shuffle_down_closes:
  assumes "sound q" "i < n_items q" "broken (rk q) (n_items q) i"
  shows "\<exists>q' k. shuffle_down cmp q i = Inr (q', k) \<and> moved q q' \<and> k < n_items q \<and> hole_up (rk q') (n_items q) k"
  using assms
proof (induction "n_items q - i" arbitrary: q i rule: less_induct)
  case less
  note q = less.prems
  show ?case
  proof (cases "(i + 1) * 2 - 1 < n_items q")
    case False
    have "shuffle_down cmp q i = Inr (q, i)" using False by (subst shuffle_down.simps) (simp add: Let_def)
    moreover have "hole_up (rk q) (n_items q) i"
    proof (rule hole_closed [OF q(3)])
      fix j
      assume "0 < j" "j < n_items q" "par j = i"
      then have "(i + 1) * 2 - 1 \<le> j" "j < n_items q" using children [of j i] by auto
      then show "rk q i \<le> rk q j" using False by simp
    qed
    ultimately show ?thesis using q moved_refl by blast
  next
    case True
    obtain c1 c2 where c: "compare_items cmp q ((i + 1) * 2 - 1) i = Inr c1"
      "(if (i + 1) * 2 < n_items q then compare_items cmp q ((i + 1) * 2) (if c1 < 0 then (i + 1) * 2 - 1 else i) else Inr 0) = Inr c2"
      "smallest (rk q) (n_items q) i (if (i + 1) * 2 < n_items q \<and> c2 < 0 then (i + 1) * 2 else if c1 < 0 then (i + 1) * 2 - 1 else i)"
      using smallest_child [OF q(1,2) True] .
    define s where "s = (if (i + 1) * 2 < n_items q \<and> c2 < 0 then (i + 1) * 2 else if c1 < 0 then (i + 1) * 2 - 1 else i)"
    have s: "s < n_items q" "\<And>j. 0 < j \<Longrightarrow> j < n_items q \<Longrightarrow> par j = i \<Longrightarrow> rk q s \<le> rk q j" "s = i \<or> 0 < s \<and> par s = i \<and> rk q s \<le> rk q i"
      using c(3) unfolding s_def [symmetric] smallest_def by blast+
    note step = shuffle_down_step [OF True c(1,2) s_def]
    show ?thesis
    proof (cases "s = i")
      case True
      then show ?thesis using step hole_closed [OF q(3)] s(2) q moved_refl by auto
    next
      case False
      then have d: "0 < s" "par s = i" "rk q s \<le> rk q i" "i < s" using s(3) par_less [of s] by auto
      obtain q1 where q1: "swap q i s = Inr q1" "moved q q1" "rk q1 = (rk q)(i := rk q s, s := rk q i)"
        using swap_moves [OF q(1,2) s(1)] False by metis
      have n: "n_items q1 = n_items q" using moved_items [OF q1(2)] .
      have "broken (rk q1) (n_items q1) s"
        using break_moves_down [OF q(3) d(1) s(1) d(2,3) s(2)] unfolding q1(3) n by blast
      moreover have "n_items q1 - s < n_items q - i" "sound q1" using d(4) s(1) n q1(2) by (auto simp: moved_queue_def)
      ultimately obtain q' k where "shuffle_down cmp q1 s = Inr (q', k)" "moved q1 q'" "k < n_items q1" "hole_up (rk q') (n_items q1) k"
        using less.hyps [of q1 s] s(1) n by auto
      then show ?thesis using step False q1(1,2) n moved_trans by auto
    qed
  qed
qed

lemma reordered:
  assumes "sound q" "i < n_items q" "broken (rk q) (n_items q) i"
  obtains q1 k1 q2 k2 where "shuffle_down cmp q i = Inr (q1, k1)" "shuffle_up cmp q1 k1 = Inr (q2, k2)" "moved q q2" "ordered q2"
proof -
  obtain q1 k1 where q1: "shuffle_down cmp q i = Inr (q1, k1)" "moved q q1" "k1 < n_items q" "hole_up (rk q1) (n_items q) k1"
    using shuffle_down_closes [OF assms] by blast
  obtain q2 k2 where "shuffle_up cmp q1 k1 = Inr (q2, k2)" "moved q1 q2" "ordered q2"
    using shuffle_up_orders [of q1 k1] q1 moved_items [OF q1(2)] by (auto simp: moved_queue_def)
  then show ?thesis using that q1 moved_trans by blast
qed

text \<open>Adding an entry: the owner, if there is one, must not have an entry yet.\<close>

lemma put_orders:
  assumes "ordered q" "valid d" "fresh p q" "n_items q < 2 ^ 31 - 1" "ok \<or> n_items q < n_allocated q"
  obtains q' where "prioq_put cmp ok d p q = Inr (0, q')" "ordered q'"
    "mset (items q') = add_mset \<lparr>data = d, idx = p\<rparr> (mset (items q))"
proof -
  let ?n = "n_items q"
  define q1 where "q1 = q\<lparr>items := items q @ [\<lparr>data = d, idx = p\<rparr>],
    n_allocated := (if n_allocated q \<le> ?n then max ((?n + 1) * 2 mod 2 ^ 32) 16 else n_allocated q),
    idx_var := set_idx p ?n (idx_var q)\<rparr>"
  have n: "n_items q1 = ?n + 1" by (simp add: q1_def n_items_def)
  have q: "sound q" "heap_on (rk q) ?n" using assms(1) by (auto simp: ordered_queue_def)
  have "idx_ok q1" using q(1) assms(3) unfolding q1_def by (intro idx_ok_append) (auto simp: sound_queue_def)
  moreover have "?n + 1 \<le> n_allocated q1" using q(1) assms(4) by (simp add: q1_def sound_queue_def max_def)
  ultimately have s: "sound q1" using q(1) assms(2) n by (auto simp: sound_queue_def q1_def)
  have "rk q1 i = rk q i" if "i < ?n" for i using that by (simp add: rank_at_def q1_def nth_append n_items_def)
  then have "hole_up (rk q1) (n_items q1) ?n" unfolding n by (intro heap_append [OF q(2)]) simp
  then obtain q' k where q': "shuffle_up cmp q1 ?n = Inr (q', k)" "moved q1 q'" "ordered q'"
    using shuffle_up_orders [OF s, of ?n] n by auto
  have "prioq_put cmp ok d p q = Inr (0, q')"
    using assms(5) q'(1) by (auto simp: prioq_put_def Let_def q1_def)
  moreover have "mset (items q') = add_mset \<lparr>data = d, idx = p\<rparr> (mset (items q))"
    using q'(2) by (simp add: moved_queue_def q1_def)
  ultimately show ?thesis using that q'(3) by blast
qed

text \<open>Removing the entry at an index; its own rank need no longer be what it was.\<close>

lemma remove_orders:
  assumes "ordered_but rank valid q k"
  obtains q' where "remove_item cmp k q = Inr q'" "ordered q'" "mset (items q') = mset (items q) - {#items q ! k#}"
    "n_items q' < n_allocated q'"
proof -
  let ?n = "n_items q"
  obtain r where q: "idx_ok q" "?n \<le> n_allocated q" "k < ?n" "\<And>i. i < ?n \<Longrightarrow> i \<noteq> k \<Longrightarrow> valid (data (items q ! i))"
    "heap_on r ?n" "\<And>i. i < ?n \<Longrightarrow> i \<noteq> k \<Longrightarrow> rk q i = r i" using assms unfolding ordered_but_def by blast
  have ne: "items q \<noteq> []" using q(3) by (auto simp: n_items_def)
  show ?thesis
  proof (cases "k + 1 = ?n")
    case True
    let ?q = "q\<lparr>items := butlast (items q)\<rparr>"
    have "k = length (items q) - 1" using True by (simp add: n_items_def)
    then have k: "items q ! k = last (items q)" using ne by (simp add: last_conv_nth)
    have at: "items ?q ! i = items q ! i" if "i < ?n - 1" for i using that by (simp add: nth_butlast n_items_def)
    have "idx_ok ?q" using q(1) by (rule idx_ok_butlast)
    then have "sound ?q" using q True at by (auto simp: sound_queue_def all_set_conv_all_nth n_items_def)
    moreover have "rk ?q i = r i" if "i < ?n - 1" for i using that q(6) at True by (simp add: rank_at_def)
    then have "heap_on (rk ?q) (n_items ?q)" using q(5) by (simp add: heap_less n_items_def)
    moreover have "mset (butlast (items q)) = mset (items q) - {#items q ! k#}"
      using ne by (simp add: k mset_butlast)
    moreover have "n_items ?q < n_allocated q" using q(2,3) by (simp add: n_items_def)
    ultimately show ?thesis using that [of ?q] True q(3) by (simp add: remove_item_def ordered_queue_def)
  next
    case False
    then have kn: "k < ?n - 1" using q(3) by simp
    let ?l = "last (items q)"
    define q1 where "q1 = q\<lparr>items := butlast ((items q)[k := ?l]), idx_var := set_idx (idx ?l) k (idx_var q)\<rparr>"
    have n: "n_items q1 = ?n - 1" by (simp add: q1_def n_items_def)
    have at: "items q1 ! i = (if i = k then items q ! (?n - 1) else items q ! i)" if "i < ?n - 1" for i
      using that ne by (simp add: q1_def nth_butlast n_items_def last_conv_nth)
    have "idx_ok q1" unfolding q1_def using q(1) kn by (rule idx_ok_replace)
    moreover have "\<forall>x \<in> set (items q1). valid (data x)"
      using q(4) n at kn by (auto simp: all_set_conv_all_nth simp flip: n_items_def)
    ultimately have s: "sound q1" using q(2) n by (simp add: sound_queue_def q1_def)
    have "rk q1 i = r i" if "i < ?n - 1" "i \<noteq> k" for i
      using that q(6) at by (simp add: rank_at_def)
    then have "broken (rk q1) (n_items q1) k"
      unfolding n using kn by (intro heap_broken [OF heap_less [OF q(5)]]) auto
    then obtain q2 k2 q3 k3 where r: "shuffle_down cmp q1 k = Inr (q2, k2)" "shuffle_up cmp q2 k2 = Inr (q3, k3)" "moved q1 q3" "ordered q3"
      using reordered [OF s] kn n by (metis)
    have "n_items q3 < n_allocated q3" using moved_items [OF r(3)] r(3) n q(2,3) by (simp add: moved_queue_def q1_def)
    moreover have "remove_item cmp k q = Inr q3" using False q(3) r by (simp add: remove_item_def Let_def q1_def)
    moreover have "mset (items q1) = mset (items q) - {#items q ! k#}"
      unfolding q1_def using kn by (simp add: mset_replace_last n_items_def)
    ultimately show ?thesis using that r(3,4) by (simp add: moved_queue_def)
  qed
qed

text \<open>The first entry is one of the smallest.\<close>

lemma root_smallest:
  assumes "ordered q" "x \<in> set (items q)"
  shows "rank (data (items q ! 0)) \<le> rank (data x)"
proof -
  obtain i where "i < n_items q" "items q ! i = x" using assms(2) by (auto simp: in_set_conv_nth n_items_def)
  then show ?thesis using heap_root [of "rk q" "n_items q" i] assms(1) by (auto simp: ordered_queue_def rank_at_def)
qed

lemma pop_orders:
  assumes "ordered q" "items q \<noteq> []"
  obtains q' where "prioq_pop cmp (Some q) = Inr (Some (data (items q ! 0)), Some q')" "ordered q'"
    "mset (items q) = add_mset (items q ! 0) (mset (items q'))"
proof -
  have n: "0 < n_items q" using assms(2) by (simp add: n_items_def)
  obtain q' where q': "remove_item cmp 0 q = Inr q'" "ordered q'" "mset (items q') = mset (items q) - {#items q ! 0#}"
    using remove_orders [OF ordered_ordered_but [OF assms(1) n]] .
  have "items q ! 0 \<in># mset (items q)" using n by (simp add: n_items_def)
  then show ?thesis using that [of q'] q' n by (simp add: prioq_pop_def item_def n_items_def aread_def in_range_def)
qed

text \<open>A queue which is in order but for one entry is in order once that entry is reshuffled.\<close>

lemma reshuffle_orders:
  assumes "ordered_but rank valid q k" "find_item d p q = Some k" "valid (data (items q ! k))"
  obtains q' where "prioq_reshuffle cmp d p q = Inr q'" "ordered q'" "mset (items q') = mset (items q)"
proof -
  obtain r where q: "idx_ok q" "n_items q \<le> n_allocated q" "k < n_items q" "\<And>i. i < n_items q \<Longrightarrow> i \<noteq> k \<Longrightarrow> valid (data (items q ! i))"
    "heap_on r (n_items q)" "\<And>i. i < n_items q \<Longrightarrow> i \<noteq> k \<Longrightarrow> rk q i = r i" using assms(1) unfolding ordered_but_def by blast
  have "\<forall>x \<in> set (items q). valid (data x)"
    using q(4) assms(3) unfolding all_set_conv_all_nth n_items_def by metis
  then have "sound q" using q(1,2) by (simp add: sound_queue_def)
  then obtain q1 k1 q2 k2 where "shuffle_down cmp q k = Inr (q1, k1)" "shuffle_up cmp q1 k1 = Inr (q2, k2)" "moved q q2" "ordered q2"
    using reordered [OF _ q(3) heap_broken [OF q(5,6,3)]] by metis
  then show ?thesis using that [of q2] assms(2) by (simp add: prioq_reshuffle_def moved_queue_def)
qed

text \<open>Taking everything out: the order in which the entries come, with the number of turns as fuel.\<close>

lemma drain_sorts:
  assumes "ordered q" "n_items q \<le> n"
  shows "\<exists>ds. prioq_drain cmp n q = Inr ds \<and> sorted (map rank ds) \<and> mset ds = image_mset data (mset (items q))"
  using assms
proof (induction n arbitrary: q)
  case 0
  then show ?case by (simp add: n_items_def)
next
  case (Suc n)
  show ?case
  proof (cases "items q = []")
    case True
    then show ?thesis by (simp add: prioq_pop_def n_items_def)
  next
    case False
    obtain q' where q': "prioq_pop cmp (Some q) = Inr (Some (data (items q ! 0)), Some q')" "ordered q'"
      "mset (items q) = add_mset (items q ! 0) (mset (items q'))"
      using pop_orders [OF Suc.prems(1) False] .
    have "n_items q = n_items q' + 1" using q'(3) by (simp add: n_items_def flip: size_mset)
    then obtain ds where ds: "prioq_drain cmp n q' = Inr ds" "sorted (map rank ds)" "mset ds = image_mset data (mset (items q'))"
      using Suc.IH [OF q'(2)] Suc.prems(2) by auto
    have "rank (data (items q ! 0)) \<le> rank d" if "d \<in> set ds" for d
    proof -
      have "d \<in># image_mset data (mset (items q'))" using that ds(3) by (metis set_mset_mset)
      then obtain x where "x \<in># mset (items q')" "d = data x" by auto
      moreover have "x \<in># mset (items q)" using calculation(1) q'(3) by simp
      ultimately show ?thesis using root_smallest [OF Suc.prems(1), of x] by simp
    qed
    then show ?thesis using q'(1,3) ds by auto
  qed
qed

end

lemma find_item_data:
  assumes "find_item d p q = Some k"
  shows "k < n_items q \<and> data (items q ! k) = d"
proof (cases p)
  case None
  have "find_data d xs i = Some k \<Longrightarrow> i \<le> k \<and> k < i + length xs \<and> data (xs ! (k - i)) = d" for xs i
    by (induction d xs i rule: find_data.induct) (auto split: if_splits simp: nth_Cons')
  from this [of "items q" 0] show ?thesis using assms None by (auto simp: find_item_def n_items_def split: if_splits)
qed (use assms in \<open>auto simp: find_item_def split: if_splits\<close>)

text \<open>An owner's index variable finds its entry, whatever the order.\<close>

lemma find_item_of_owner:
  assumes "idx_ok q" "\<lparr>data = d, idx = Some a\<rparr> \<in> set (items q)" "n_items q \<le> PRIOQ_IDX_NULL"
  obtains k where "find_item d (Some a) q = Some k" "items q ! k = \<lparr>data = d, idx = Some a\<rparr>" "k < n_items q"
proof -
  obtain k where k: "k < n_items q" "items q ! k = \<lparr>data = d, idx = Some a\<rparr>"
    using assms(2) by (auto simp: in_set_conv_nth n_items_def)
  have "idx_is (idx (items q ! k)) k (idx_var q)" using assms(1) k(1) by (simp add: idx_ok_def)
  then have "idx_var q a = k" by (simp add: k(2) idx_is_def)
  then have "find_item d (Some a) q = Some k" using k assms(3) by (simp add: find_item_def)
  then show ?thesis using that k by blast
qed

section \<open>Queues of owners\<close>

text \<open>
  \<open>holds own q M\<close>: the queue holds each element of \<open>M\<close> once, with the index variable at address
  \<open>own d\<close>. An operation of the queue is then one on the set.
\<close>

definition entry :: "('d \<Rightarrow> nat) \<Rightarrow> 'd \<Rightarrow> 'd prioq_item" where
  "entry own d = \<lparr>data = d, idx = Some (own d)\<rparr>"

definition holds :: "('d \<Rightarrow> nat) \<Rightarrow> 'd prioq \<Rightarrow> 'd set \<Rightarrow> bool" where
  "holds own q M \<longleftrightarrow> finite M \<and> mset (items q) = image_mset (entry own) (mset_set M)"

lemma entry_simps [simp]: "data (entry own d) = d" "idx (entry own d) = Some (own d)" "entry own d = entry own d' \<longleftrightarrow> d = d'"
  by (auto simp: entry_def)

lemma holds_set: "holds own q M \<Longrightarrow> set (items q) = entry own ` M"
  unfolding holds_def by (metis finite_set_mset_mset_set set_image_mset set_mset_mset)

lemma holds_card: "holds own q M \<Longrightarrow> n_items q = card M"
  unfolding holds_def n_items_def by (metis size_image_mset size_mset size_mset_set)

lemma holds_same: "mset (items q') = mset (items q) \<Longrightarrow> holds own q M \<Longrightarrow> holds own q' M"
  by (simp add: holds_def)

lemma holds_insert:
  "mset (items q') = add_mset (entry own d) (mset (items q)) \<Longrightarrow> holds own q M \<Longrightarrow> d \<notin> M \<Longrightarrow> holds own q' (insert d M)"
  by (simp add: holds_def)

lemma holds_delete:
  "mset (items q') = mset (items q) - {#entry own d#} \<Longrightarrow> holds own q M \<Longrightarrow> d \<in> M \<Longrightarrow> holds own q' (M - {d})"
  by (auto simp: holds_def mset_set_Diff image_mset_Diff)

lemma holds_at: "holds own q M \<Longrightarrow> i < n_items q \<Longrightarrow> \<exists>d \<in> M. items q ! i = entry own d"
  using holds_set [of own q M] nth_mem [of i "items q"] by (auto simp: n_items_def)

lemma holds_absent: "holds own q M \<Longrightarrow> d \<notin> M \<Longrightarrow> find_item d p q = None"
  using find_item_data [of d p q] holds_at [of own q M] by (cases "find_item d p q") fastforce+

text \<open>Where an owner's entry is, and that the others have other owners.\<close>

lemma holds_find:
  assumes "holds own q M" "d \<in> M" "idx_ok q" "n_items q \<le> PRIOQ_IDX_NULL"
  obtains k where "find_item d (Some (own d)) q = Some k" "k < n_items q" "items q ! k = entry own d"
    "\<And>i. i < n_items q \<Longrightarrow> i \<noteq> k \<Longrightarrow> \<exists>d' \<in> M. d' \<noteq> d \<and> items q ! i = entry own d'"
proof -
  have "\<lparr>data = d, idx = Some (own d)\<rparr> \<in> set (items q)" using holds_set [OF assms(1)] assms(2) by (auto simp: entry_def)
  then obtain k where k: "find_item d (Some (own d)) q = Some k" "items q ! k = entry own d" "k < n_items q"
    using find_item_of_owner [OF assms(3) _ assms(4)] by (metis entry_def)
  have "\<exists>d' \<in> M. d' \<noteq> d \<and> items q ! i = entry own d'" if i: "i < n_items q" "i \<noteq> k" for i
  proof -
    obtain d' where "d' \<in> M" "items q ! i = entry own d'" using holds_at [OF assms(1) i(1)] by blast
    moreover have "d' \<noteq> d" using idx_unique [OF assms(3) i(1) k(3), of "own d"] calculation(2) k(2) i(2) by auto
    ultimately show ?thesis by blast
  qed
  then show ?thesis using that k by blast
qed

lemma holds_almost:
  assumes "ordered_queue rank0 valid0 q" "holds own q M" "d \<in> M" "n_items q \<le> PRIOQ_IDX_NULL"
    "\<And>x. x \<in> M \<Longrightarrow> x \<noteq> d \<Longrightarrow> rank x = rank0 x \<and> (valid0 x \<longrightarrow> valid x)"
  obtains k where "find_item d (Some (own d)) q = Some k" "items q ! k = entry own d" "ordered_but rank valid q k"
proof -
  have "idx_ok q" using assms(1) by (simp add: ordered_queue_def sound_queue_def)
  then obtain k where k: "find_item d (Some (own d)) q = Some k" "k < n_items q" "items q ! k = entry own d"
    "\<And>i. i < n_items q \<Longrightarrow> i \<noteq> k \<Longrightarrow> \<exists>d' \<in> M. d' \<noteq> d \<and> items q ! i = entry own d'"
    using holds_find [OF assms(2,3) _ assms(4)] by metis
  have "ordered_but rank valid q k"
    by (rule ordered_changed [OF assms(1) k(2)]) (use k(4) assms(5) in fastforce)
  then show ?thesis using that k by blast
qed

context comparison
begin

lemma put_holds:
  assumes "ordered q" "holds own q M" "d \<notin> M" "inj own" "valid d" "card M < 2 ^ 31 - 1" "ok \<or> card M < n_allocated q"
  obtains q' where "prioq_put cmp ok d (Some (own d)) q = Inr (0, q')" "ordered q'" "holds own q' (insert d M)"
proof -
  have "fresh (Some (own d)) q" using holds_set [OF assms(2)] assms(3,4) by (auto simp: fresh_def inj_eq)
  then obtain q' where "prioq_put cmp ok d (Some (own d)) q = Inr (0, q')" "ordered q'"
    "mset (items q') = add_mset (entry own d) (mset (items q))"
    using put_orders [OF assms(1,5)] assms(6,7) holds_card [OF assms(2)] unfolding entry_def by metis
  then show ?thesis using that holds_insert [OF _ assms(2,3)] by blast
qed

lemma put_cases:
  assumes "ordered q" "holds own q M" "d \<notin> M" "inj own" "valid d" "card M < 2 ^ 31 - 1"
  obtains (put) q' where "prioq_put cmp ok d (Some (own d)) q = Inr (0, q')" "ordered q'" "holds own q' (insert d M)"
  | (no_memory) "prioq_put cmp ok d (Some (own d)) q = Inr (- ENOMEM, q)" "\<not> ok" "n_allocated q \<le> card M"
proof (cases "ok \<or> card M < n_allocated q")
  case True
  then show ?thesis using put_holds [OF assms True] put by metis
next
  case False
  then show ?thesis using no_memory holds_card [OF assms(2)] by (simp add: prioq_put_def)
qed

lemma remove_absent: "holds own q M \<Longrightarrow> d \<notin> M \<Longrightarrow> prioq_remove cmp d p (Some q) = Inr (0, Some q)"
  using holds_absent [of own q M d p] by (simp add: prioq_remove_def)

lemma reshuffle_absent: "holds own q M \<Longrightarrow> d \<notin> M \<Longrightarrow> prioq_reshuffle cmp d p q = Inr q"
  using holds_absent [of own q M d p] by (simp add: prioq_reshuffle_def)

lemma remove_holds:
  assumes "ordered_queue rank0 valid0 q" "holds own q M" "d \<in> M" "card M \<le> PRIOQ_IDX_NULL"
    "\<And>x. x \<in> M \<Longrightarrow> x \<noteq> d \<Longrightarrow> rank x = rank0 x \<and> (valid0 x \<longrightarrow> valid x)"
  obtains q' where "prioq_remove cmp d (Some (own d)) (Some q) = Inr (1, Some q')" "ordered q'" "holds own q' (M - {d})"
    "card (M - {d}) < n_allocated q'"
proof -
  obtain k where k: "find_item d (Some (own d)) q = Some k" "items q ! k = entry own d" "ordered_but rank valid q k"
    using holds_almost [OF assms(1-3) _ assms(5)] assms(4) holds_card [OF assms(2)] by metis
  obtain q' where "remove_item cmp k q = Inr q'" "ordered q'" "mset (items q') = mset (items q) - {#entry own d#}" "n_items q' < n_allocated q'"
    using remove_orders [OF k(3)] unfolding k(2) .
  moreover from this have "holds own q' (M - {d})" using holds_delete [OF _ assms(2,3)] by blast
  ultimately show ?thesis using that [of q'] k(1) holds_card [of own q' "M - {d}"] by (simp add: prioq_remove_def)
qed

lemma reshuffle_holds:
  assumes "ordered_queue rank0 valid0 q" "holds own q M" "d \<in> M" "card M \<le> PRIOQ_IDX_NULL"
    "\<And>x. x \<in> M \<Longrightarrow> x \<noteq> d \<Longrightarrow> rank x = rank0 x \<and> (valid0 x \<longrightarrow> valid x)" "valid d"
  obtains q' where "prioq_reshuffle cmp d (Some (own d)) q = Inr q'" "ordered q'" "holds own q' M"
proof -
  obtain k where k: "find_item d (Some (own d)) q = Some k" "items q ! k = entry own d" "ordered_but rank valid q k"
    using holds_almost [OF assms(1-3) _ assms(5)] assms(4) holds_card [OF assms(2)] by metis
  then obtain q' where "prioq_reshuffle cmp d (Some (own d)) q = Inr q'" "ordered q'" "mset (items q') = mset (items q)"
    using reshuffle_orders [OF k(3,1)] assms(6) by auto
  then show ?thesis using that holds_same [OF _ assms(2)] by blast
qed

lemma peek_holds:
  assumes "ordered q" "holds own q M" "M \<noteq> {}"
  obtains d where "prioq_peek (Some q) = Some d" "d \<in> M" "\<And>x. x \<in> M \<Longrightarrow> rank d \<le> rank x"
proof -
  have n: "0 < n_items q" using holds_card [OF assms(2)] assms(2,3) by (simp add: holds_def card_gt_0_iff)
  then obtain d where d: "d \<in> M" "items q ! 0 = entry own d" using holds_at [OF assms(2)] by blast
  have "rank d \<le> rank x" if "x \<in> M" for x
    using root_smallest [OF assms(1), of "entry own x"] holds_set [OF assms(2)] that d(2) by simp
  moreover have "prioq_peek (Some q) = Some d" using n d(2) by (simp add: prioq_peek_def prioq_peek_by_index_def)
  ultimately show ?thesis using that d(1) by blast
qed

end

lemma peek_empty: "holds own q {} \<Longrightarrow> prioq_peek (Some q) = None"
  using holds_card [of own q "{}"] by (simp add: prioq_peek_def prioq_peek_by_index_def)

lemma put_no_memory: "n_allocated q \<le> n_items q \<Longrightarrow> prioq_put cmp False d p q = Inr (- ENOMEM, q)"
  by (simp add: prioq_put_def)

end
