(* ===== verification/RateLimit.thy ===== *)
theory RateLimit
  imports Prelude
begin

text \<open>
  Times and rate limits of the system library (\<open>work/crosscompile/systemd-main/src/basic/time-util.h\<close>,
  \<open>ratelimit.c\<close>, \<open>ratelimit.h\<close>). Times are microseconds, 64 bits wide. What the monotonic clock reads is an argument.
\<close>

section \<open>Times\<close>

type_synonym usec = "64 word"

definition USEC_INFINITY :: usec where "USEC_INFINITY = - 1"

definition USEC_PER_SEC :: usec where "USEC_PER_SEC = 1000000"

definition USEC_PER_MSEC :: usec where "USEC_PER_MSEC = 1000"

definition USEC_PER_MINUTE :: usec where "USEC_PER_MINUTE = 60 * USEC_PER_SEC"

definition usec_add :: "usec \<Rightarrow> usec \<Rightarrow> usec" where
  "usec_add a b = (if USEC_INFINITY - b < a then USEC_INFINITY else a + b)"

lemma USEC_INFINITY_max [simp]: "t \<le> USEC_INFINITY"
  by (simp add: USEC_INFINITY_def)

lemma unat_USEC_INFINITY [simp]: "unat USEC_INFINITY = 2 ^ 64 - 1"
  by (simp add: USEC_INFINITY_def unsigned_minus_1_eq_mask mask_eq_exp_minus_1)

lemma unat_usec_max: "unat (t :: usec) \<le> 2 ^ 64 - 1"
proof -
  have "unat t < 2 ^ LENGTH(64)" by (rule unsigned_less)
  then show ?thesis by simp
qed

lemma usec_add_unat: "unat (usec_add a b) = min (unat a + unat b) (2 ^ 64 - 1)"
proof -
  have "unat (USEC_INFINITY - b) = 2 ^ 64 - 1 - unat b" by (subst unat_sub) simp_all
  then have "USEC_INFINITY - b < a \<longleftrightarrow> 2 ^ 64 - 1 < unat a + unat b" using unat_usec_max [of b] by (simp add: word_less_nat_alt) linarith
  moreover have "unat (a + b) = (unat a + unat b) mod 2 ^ 64" by (simp add: unat_word_ariths)
  ultimately show ?thesis by (simp add: usec_add_def min_def)
qed

lemma usec_add_ge: "a \<le> usec_add a b"
using unat_usec_max [of a] by (simp add: word_le_nat_alt usec_add_unat)

definition usec_sub_unsigned :: "usec \<Rightarrow> usec \<Rightarrow> usec" where
  "usec_sub_unsigned t d = (if t = USEC_INFINITY then USEC_INFINITY else if t < d then 0 else t - d)"

section \<open>Rate limits\<close>

record rate_limit =
  rl_interval :: usec
  rl_burst :: "32 word"
  rl_num :: "32 word"
  rl_begin :: usec

definition ratelimit_reset :: "rate_limit \<Rightarrow> rate_limit" where
  "ratelimit_reset r = r\<lparr>rl_begin := 0, rl_num := 0\<rparr>"

definition ratelimit_configured :: "rate_limit \<Rightarrow> bool" where
  "ratelimit_configured r \<longleftrightarrow> 0 < rl_interval r \<and> 0 < rl_burst r"

definition ratelimit_below :: "usec \<Rightarrow> rate_limit \<Rightarrow> bool \<times> rate_limit" where
  "ratelimit_below ts r =
     (if \<not> ratelimit_configured r then (True, r)
      else
       (let (good, r) =
          (if rl_begin r \<le> 0 \<or> rl_interval r < usec_sub_unsigned ts (rl_begin r) then (True, r\<lparr>rl_begin := ts, rl_num := 0\<rparr>)
           else (rl_num r < rl_burst r, r)) in
        (good, r\<lparr>rl_num := rl_num r + 1\<rparr>)))"

definition ratelimit_num_dropped :: "rate_limit \<Rightarrow> 32 word" where
  "ratelimit_num_dropped r = (if rl_burst r < rl_num r then rl_num r - rl_burst r else 0)"

fun ratelimit_run :: "usec list \<Rightarrow> rate_limit \<Rightarrow> bool list \<times> rate_limit" where \<comment> \<open>calls at these times, and their answers\<close>
  "ratelimit_run [] r = ([], r)"
| "ratelimit_run (t # ts) r = (let (b, r) = ratelimit_below t r; (bs, r) = ratelimit_run ts r in (b # bs, r))"

lemma ratelimit_refusal: \<comment> \<open>what a refused call tells\<close>
  assumes "ratelimit_below ts r = (False, r')"
  shows "rl_begin r' = rl_begin r" "rl_begin r \<noteq> 0" "rl_interval r' = rl_interval r" "rl_interval r \<noteq> 0"
  using assms by (auto simp: ratelimit_below_def ratelimit_configured_def Let_def split: if_splits)

lemma ratelimit_below_keeps: "rl_interval (snd (ratelimit_below ts r)) = rl_interval r" "rl_burst (snd (ratelimit_below ts r)) = rl_burst r"
  by (auto simp: ratelimit_below_def Let_def)

text \<open>The times that lie in the window of a limit.\<close>

definition in_window :: "rate_limit \<Rightarrow> usec \<Rightarrow> bool" where
  "in_window r t \<longleftrightarrow> rl_begin r \<noteq> 0 \<and> usec_sub_unsigned t (rl_begin r) \<le> rl_interval r"

lemma below_in_window:
  "ratelimit_configured r \<Longrightarrow> in_window r t \<Longrightarrow> ratelimit_below t r = (rl_num r < rl_burst r, r\<lparr>rl_num := rl_num r + 1\<rparr>)"
  by (auto simp: ratelimit_below_def in_window_def Let_def not_less)

lemma below_new_window:
  "ratelimit_configured r \<Longrightarrow> \<not> in_window r t \<Longrightarrow> ratelimit_below t r = (True, r\<lparr>rl_begin := t, rl_num := 1\<rparr>)"
  by (auto simp: ratelimit_below_def in_window_def Let_def not_le)

lemma run_in_window:
  assumes "ratelimit_configured r" "\<forall>t \<in> set ts. in_window r t" "unat (rl_num r) + length ts < 2 ^ 32"
  shows "ratelimit_run ts r = (map (\<lambda>i. unat (rl_num r) + i < unat (rl_burst r)) [0..<length ts],
    r\<lparr>rl_num := rl_num r + of_nat (length ts)\<rparr>)"
  using assms
proof (induction ts arbitrary: r)
  case (Cons t ts)
  let ?r = "r\<lparr>rl_num := rl_num r + 1\<rparr>"
  have n: "unat (rl_num ?r) = unat (rl_num r) + 1"
    using Cons.prems(3) by (simp add: unat_word_ariths)
  have "ratelimit_configured ?r" "\<forall>t \<in> set ts. in_window ?r t"
    using Cons.prems(1,2) by (auto simp: ratelimit_configured_def in_window_def)
  then have "ratelimit_run ts ?r = (map (\<lambda>i. unat (rl_num ?r) + i < unat (rl_burst ?r)) [0..<length ts],
      ?r\<lparr>rl_num := rl_num ?r + of_nat (length ts)\<rparr>)"
    using n Cons.prems(3) by (intro Cons.IH) auto
  moreover have "[0..<length (t # ts)] = 0 # map Suc [0..<length ts]"
    by (simp add: upt_conv_Cons map_Suc_upt del: upt_Suc)
  ultimately show ?case
    using below_in_window [OF Cons.prems(1)] Cons.prems(2) n by (simp add: word_less_nat_alt add.assoc)
qed simp

lemma run_append:
  "fst (ratelimit_run (xs @ ys) q) = fst (ratelimit_run xs q) @ fst (ratelimit_run ys (snd (ratelimit_run xs q)))"
  by (induction xs arbitrary: q) (simp_all add: split_beta Let_def)

text \<open>
  C35. A rate limit admits exactly its burst in every window: of the calls that follow the one that opens a window
  and come before the window ends, in whatever order their times are, the first \<open>burst - 1\<close> are admitted as well and all others refused, as
  long as the calls are fewer than a 32-bit counter can count; the first call after the window opens a new one and is admitted.
\<close>

theorem ratelimit_admits_burst:
  assumes "ratelimit_configured r" "\<not> in_window r t" "t \<noteq> 0"
    "\<forall>t' \<in> set ts. usec_sub_unsigned t' t \<le> rl_interval r" "length ts < 2 ^ 32 - 1" "rl_interval r < usec_sub_unsigned u t"
  shows "fst (ratelimit_run (t # ts @ [u]) r) = map (\<lambda>i. i < unat (rl_burst r)) [0..<Suc (length ts)] @ [True]"
proof -
  let ?r = "r\<lparr>rl_begin := t, rl_num := 1\<rparr>"
  have c: "ratelimit_configured ?r" "\<forall>t' \<in> set ts. in_window ?r t'" "0 < unat (rl_burst r)"
    using assms(1,3,4) by (auto simp: ratelimit_configured_def in_window_def word_less_nat_alt)
  have run: "ratelimit_run ts ?r = (map (\<lambda>i. 1 + i < unat (rl_burst r)) [0..<length ts], ?r\<lparr>rl_num := 1 + of_nat (length ts)\<rparr>)"
    using run_in_window [OF c(1,2)] assms(5) by simp
  have "\<not> in_window (?r\<lparr>rl_num := n\<rparr>) u" "ratelimit_configured (?r\<lparr>rl_num := n\<rparr>)" for n
    using assms(6) c(1) by (auto simp: in_window_def ratelimit_configured_def)
  then have "fst (ratelimit_run [u] (snd (ratelimit_run ts ?r))) = [True]"
    using below_new_window run by simp
  moreover have "[0..<Suc (length ts)] = 0 # map Suc [0..<length ts]"
    by (simp add: upt_conv_Cons map_Suc_upt del: upt_Suc)
  ultimately show ?thesis
    using below_new_window [OF assms(1,2)] run c(3) by (simp add: run_append split_beta)
qed

theorem ratelimit_admits_burst_witness:
  "fst (ratelimit_run [5, 9, 7, 12, 5, 30] \<lparr>rl_interval = 10, rl_burst = 3, rl_num = 0, rl_begin = 0\<rparr>) =
    map (\<lambda>i. i < unat (3 :: 32 word)) [0..<Suc (length [9, 7, 12, 5 :: usec])] @ [True]"
  using ratelimit_admits_burst [of "\<lparr>rl_interval = 10, rl_burst = 3, rl_num = 0, rl_begin = 0\<rparr>" 5 "[9, 7, 12, 5]" 30]
  by (simp add: ratelimit_configured_def in_window_def usec_sub_unsigned_def USEC_INFINITY_def)

end
