(* ===== verification/EventTimers.thy ===== *)
theory EventTimers
  imports Prioq RateLimit "HOL-Library.Product_Lexorder"
begin

text \<open>
  The timer side of the event loop of the system library
  (\<open>work/crosscompile/systemd-main/src/libsystemd/sd-event/sd-event.c\<close>): the orders of its priority
  queues and the choice of the time it sleeps until.
\<close>

section \<open>Event sources\<close>

datatype source_type =
  SOURCE_IO | SOURCE_TIME_REALTIME | SOURCE_TIME_BOOTTIME | SOURCE_TIME_MONOTONIC | SOURCE_TIME_REALTIME_ALARM
  | SOURCE_TIME_BOOTTIME_ALARM | SOURCE_SIGNAL | SOURCE_CHILD | SOURCE_DEFER | SOURCE_POST | SOURCE_EXIT
  | SOURCE_WATCHDOG | SOURCE_INOTIFY

datatype enabled_state = SD_EVENT_OFF | SD_EVENT_ON | SD_EVENT_ONESHOT

record event_source =
  src_type :: source_type
  enabled :: enabled_state
  pending :: bool
  ratelimited :: bool
  priority :: int
  pending_iteration :: nat
  prepare_iteration :: nat
  has_prepare :: bool                \<comment> \<open>\<open>prepare != NULL\<close>\<close>
  exit_on_failure :: bool
  dispatching :: bool
  n_ref :: nat
  rate :: rate_limit
  time_next :: usec                  \<comment> \<open>the fields of one kind of source: timers,\<close>
  time_accuracy :: usec
  signal_no :: int                   \<comment> \<open>signals,\<close>
  watches_pidfd :: bool              \<comment> \<open>children (\<open>child.pidfd >= 0 && child.options == WEXITED\<close>),\<close>
  registered :: bool                 \<comment> \<open>descriptors and children\<close>

abbreviation limit_begin :: "event_source \<Rightarrow> usec" where "limit_begin s \<equiv> rl_begin (rate s)"

abbreviation limit_interval :: "event_source \<Rightarrow> usec" where "limit_interval s \<equiv> rl_interval (rate s)"

type_synonym sources = "nat \<Rightarrow> event_source" \<comment> \<open>the event sources, by address\<close>

definition event_source_is_time :: "source_type \<Rightarrow> bool" where
  "event_source_is_time t \<longleftrightarrow> t \<in> {SOURCE_TIME_REALTIME, SOURCE_TIME_BOOTTIME, SOURCE_TIME_MONOTONIC,
     SOURCE_TIME_REALTIME_ALARM, SOURCE_TIME_BOOTTIME_ALARM}"

definition event_source_can_rate_limit :: "source_type \<Rightarrow> bool" where
  "event_source_can_rate_limit t \<longleftrightarrow> t \<in> {SOURCE_IO, SOURCE_TIME_REALTIME, SOURCE_TIME_BOOTTIME, SOURCE_TIME_MONOTONIC,
     SOURCE_TIME_REALTIME_ALARM, SOURCE_TIME_BOOTTIME_ALARM, SOURCE_SIGNAL, SOURCE_DEFER, SOURCE_INOTIFY}"

abbreviation event_source_uses_time_prioq :: "source_type \<Rightarrow> bool" where
  "event_source_uses_time_prioq \<equiv> event_source_can_rate_limit"

definition event_source_is_online :: "event_source \<Rightarrow> bool" where
  "event_source_is_online s \<longleftrightarrow> enabled s \<noteq> SD_EVENT_OFF \<and> \<not> ratelimited s"

definition event_source_is_offline :: "event_source \<Rightarrow> bool" where
  "event_source_is_offline s \<longleftrightarrow> enabled s = SD_EVENT_OFF \<or> ratelimited s"

section \<open>The compare functions\<close>

definition CMP :: "'a :: linorder \<Rightarrow> 'a \<Rightarrow> int" where
  "CMP a b = (if a < b then - 1 else if b < a then 1 else 0)"

definition then_compare :: "int \<Rightarrow> int res \<Rightarrow> int res" where \<comment> \<open>\<open>if (r != 0) return r;\<close>\<close>
  "then_compare r m = (if r \<noteq> 0 then Inr r else m)"

definition pending_prioq_compare :: "sources \<Rightarrow> nat comparator" where
  "pending_prioq_compare \<sigma> a b =
     (let x = \<sigma> a; y = \<sigma> b in
      rbind (rassert (pending x) AssertFail) (\<lambda>_.
      rbind (rassert (pending y) AssertFail) (\<lambda>_.
      then_compare (CMP (enabled x = SD_EVENT_OFF) (enabled y = SD_EVENT_OFF))
     (then_compare (CMP (ratelimited x) (ratelimited y))
     (then_compare (CMP (priority x) (priority y))
      (Inr (CMP (pending_iteration x) (pending_iteration y))))))))"

definition prepare_prioq_compare :: "sources \<Rightarrow> nat comparator" where
  "prepare_prioq_compare \<sigma> a b =
     (let x = \<sigma> a; y = \<sigma> b in
      rbind (rassert (has_prepare x) AssertFail) (\<lambda>_.
      rbind (rassert (has_prepare y) AssertFail) (\<lambda>_.
      then_compare (CMP (enabled x = SD_EVENT_OFF) (enabled y = SD_EVENT_OFF))
     (then_compare (CMP (ratelimited x) (ratelimited y))
     (then_compare (CMP (prepare_iteration x) (prepare_iteration y))
      (Inr (CMP (priority x) (priority y))))))))"

definition limit_end :: "event_source \<Rightarrow> usec res" where \<comment> \<open>when the window of a rate limited source ends\<close>
  "limit_end s =
     rbind (rassert (limit_begin s \<noteq> 0) AssertFail) (\<lambda>_.
     rbind (rassert (limit_interval s \<noteq> 0) AssertFail) (\<lambda>_.
     Inr (usec_add (limit_begin s) (limit_interval s))))"

definition time_event_source_next :: "event_source \<Rightarrow> usec res" where
  "time_event_source_next s =
     (if ratelimited s then limit_end s
      else if event_source_is_time (src_type s) then Inr (time_next s)
      else Inr USEC_INFINITY)"

definition time_event_source_latest :: "event_source \<Rightarrow> usec res" where
  "time_event_source_latest s =
     (if ratelimited s then limit_end s
      else if event_source_is_time (src_type s) then Inr (usec_add (time_next s) (time_accuracy s))
      else Inr USEC_INFINITY)"

definition event_source_timer_candidate :: "event_source \<Rightarrow> bool" where
  "event_source_timer_candidate s \<longleftrightarrow> \<not> pending s \<or> ratelimited s"

definition time_prioq_compare :: "sources \<Rightarrow> (event_source \<Rightarrow> usec res) \<Rightarrow> nat comparator" where
  "time_prioq_compare \<sigma> time_func a b =
     (let x = \<sigma> a; y = \<sigma> b in
      then_compare (CMP (enabled x = SD_EVENT_OFF) (enabled y = SD_EVENT_OFF))
     (then_compare (CMP (\<not> event_source_timer_candidate x) (\<not> event_source_timer_candidate y))
      (rbind (time_func x) (\<lambda>tx. rbind (time_func y) (\<lambda>ty. Inr (CMP tx ty))))))"

definition earliest_time_prioq_compare :: "sources \<Rightarrow> nat comparator" where
  "earliest_time_prioq_compare \<sigma> = time_prioq_compare \<sigma> time_event_source_next"

definition latest_time_prioq_compare :: "sources \<Rightarrow> nat comparator" where
  "latest_time_prioq_compare \<sigma> = time_prioq_compare \<sigma> time_event_source_latest"

definition exit_prioq_compare :: "sources \<Rightarrow> nat comparator" where
  "exit_prioq_compare \<sigma> a b =
     (let x = \<sigma> a; y = \<sigma> b in
      rbind (rassert (src_type x = SOURCE_EXIT) AssertFail) (\<lambda>_.
      rbind (rassert (src_type y = SOURCE_EXIT) AssertFail) (\<lambda>_.
      then_compare (CMP (enabled x = SD_EVENT_OFF) (enabled y = SD_EVENT_OFF))
      (Inr (CMP (priority x) (priority y))))))"

section \<open>What the compare functions order by\<close>

text \<open>
  Each is a lexicographic order; each is defined where its assertions hold. The two queues of a clock keep
  the disabled sources behind the others, in no order that the event loop maintains: a disabled source that leaves its
  rate limit is not moved although its time changes.
\<close>

definition pending_rank :: "sources \<Rightarrow> nat \<Rightarrow> bool \<times> bool \<times> int \<times> nat" where
  "pending_rank \<sigma> a = (enabled (\<sigma> a) = SD_EVENT_OFF, ratelimited (\<sigma> a), priority (\<sigma> a), pending_iteration (\<sigma> a))"

definition prepare_rank :: "sources \<Rightarrow> nat \<Rightarrow> bool \<times> bool \<times> nat \<times> int" where
  "prepare_rank \<sigma> a = (enabled (\<sigma> a) = SD_EVENT_OFF, ratelimited (\<sigma> a), prepare_iteration (\<sigma> a), priority (\<sigma> a))"

definition exit_rank :: "sources \<Rightarrow> nat \<Rightarrow> bool \<times> int" where
  "exit_rank \<sigma> a = (enabled (\<sigma> a) = SD_EVENT_OFF, priority (\<sigma> a))"

definition next_time :: "event_source \<Rightarrow> usec" where
  "next_time s = (if ratelimited s then usec_add (limit_begin s) (limit_interval s)
     else if event_source_is_time (src_type s) then time_next s else USEC_INFINITY)"

definition latest_time :: "event_source \<Rightarrow> usec" where
  "latest_time s = (if ratelimited s then usec_add (limit_begin s) (limit_interval s)
     else if event_source_is_time (src_type s) then usec_add (time_next s) (time_accuracy s) else USEC_INFINITY)"

definition earliest_rank :: "sources \<Rightarrow> nat \<Rightarrow> bool \<times> bool \<times> usec" where
  "earliest_rank \<sigma> a = (if enabled (\<sigma> a) = SD_EVENT_OFF then (True, False, 0)
     else (False, \<not> event_source_timer_candidate (\<sigma> a), next_time (\<sigma> a)))"

definition latest_rank :: "sources \<Rightarrow> nat \<Rightarrow> bool \<times> bool \<times> usec" where
  "latest_rank \<sigma> a = (if enabled (\<sigma> a) = SD_EVENT_OFF then (True, False, 0)
     else (False, \<not> event_source_timer_candidate (\<sigma> a), latest_time (\<sigma> a)))"

lemma rank_cong:
  assumes "\<sigma>' x = \<sigma> x"
  shows "pending_rank \<sigma>' x = pending_rank \<sigma> x" "prepare_rank \<sigma>' x = prepare_rank \<sigma> x" "exit_rank \<sigma>' x = exit_rank \<sigma> x"
    "earliest_rank \<sigma>' x = earliest_rank \<sigma> x" "latest_rank \<sigma>' x = latest_rank \<sigma> x"
  using assms by (simp_all add: pending_rank_def prepare_rank_def exit_rank_def earliest_rank_def latest_rank_def)

definition limit_set :: "event_source \<Rightarrow> bool" where \<comment> \<open>what a rate limited source is asserted to have\<close>
  "limit_set s \<longleftrightarrow> (ratelimited s \<longrightarrow> limit_begin s \<noteq> 0 \<and> limit_interval s \<noteq> 0)"

lemma next_time_runs [simp]: "limit_set s \<Longrightarrow> time_event_source_next s = Inr (next_time s)"
  by (simp add: time_event_source_next_def next_time_def limit_end_def limit_set_def)

lemma latest_time_runs [simp]: "limit_set s \<Longrightarrow> time_event_source_latest s = Inr (latest_time s)"
  by (simp add: time_event_source_latest_def latest_time_def limit_end_def limit_set_def)

lemma next_le_latest: "next_time s \<le> latest_time s"
  by (simp add: next_time_def latest_time_def usec_add_ge)

lemma CMP_sign [simp]: "CMP a b < 0 \<longleftrightarrow> a < b" "0 < CMP a b \<longleftrightarrow> b < a" "CMP a b = 0 \<longleftrightarrow> a = b"
  by (auto simp: CMP_def)

lemma signs_CMP: "signs (Inr (CMP x y)) x y"
  by (auto simp: signs_def CMP_def)

lemma signs_then: "(a = b \<Longrightarrow> signs m x y) \<Longrightarrow> signs (then_compare (CMP a b) m) (a, x) (b, y)"
  by (cases "a = b") (auto simp: signs_def then_compare_def CMP_def less_eq_prod_def split: if_splits)

lemmas signs_intros = signs_then signs_CMP

lemma signs_enabled:
  assumes "signs (then_compare (CMP a b) m) (a, x) (b, y)"
  shows "signs (then_compare (CMP a b) m) (if a then (True, z) else (False, x)) (if b then (True, z) else (False, y))"
  using assms by (cases a; cases b) (auto simp: signs_def less_eq_prod_def)

text \<open>
  The entries of the queues are sources, each with an index variable of its own: the laws of the queue
  (\<open>Prioq\<close>) for such entries. \<open>queue_of\<close> is a queue that may not have been created yet.
\<close>

definition queue_of :: "(nat \<Rightarrow> 'k :: linorder) \<Rightarrow> (nat \<Rightarrow> bool) \<Rightarrow> nat prioq option \<Rightarrow> nat set \<Rightarrow> bool" where
  "queue_of rank valid q M \<longleftrightarrow> (case q of None \<Rightarrow> M = {} | Some p \<Rightarrow> ordered_queue rank valid p \<and> holds id p M)"

lemma queue_of_Some: "queue_of rank valid (Some p) M \<longleftrightarrow> ordered_queue rank valid p \<and> holds id p M"
  by (simp add: queue_of_def)

lemma queue_of_valid: "queue_of rank valid q M \<Longrightarrow> s \<in> M \<Longrightarrow> valid s"
  using holds_set [of id _ M] by (fastforce simp: queue_of_def ordered_queue_def sound_queue_def split: option.splits)

lemma queue_of_finite: "queue_of rank valid q M \<Longrightarrow> finite M"
  by (auto simp: queue_of_def holds_def split: option.splits)

lemma queue_of_cong:
  assumes "queue_of rank valid q M" "\<And>x. x \<in> M \<Longrightarrow> rank' x = rank x \<and> (valid x \<longrightarrow> valid' x)"
  shows "queue_of rank' valid' q M"
proof (cases q)
  case (Some p)
  then have p: "ordered_queue rank valid p" "holds id p M" using assms(1) by (simp_all add: queue_of_def)
  have "ordered_queue rank' valid' p" by (rule ordered_cong [OF p(1)]) (use holds_set [OF p(2)] assms(2) in auto)
  then show ?thesis using p(2) Some by (simp add: queue_of_def)
qed (use assms in \<open>simp add: queue_of_def\<close>)

lemma inj_id_nat: "inj (id :: nat \<Rightarrow> nat)"
  by simp

locale source_order = comparison cmp rank valid
  for cmp :: "nat comparator" and rank :: "nat \<Rightarrow> 'k :: linorder" and valid :: "nat \<Rightarrow> bool"
begin

lemma puts:
  assumes "queue_of rank valid (Some q) M" "s \<notin> M" "valid s" "card M < 2 ^ 31 - 1"
  obtains (put) q' where "prioq_put cmp ok s (Some s) q = Inr (0, q')" "queue_of rank valid (Some q') (insert s M)"
  | (no_memory) "prioq_put cmp ok s (Some s) q = Inr (- ENOMEM, q)" "\<not> ok" "n_allocated q \<le> card M"
proof -
  have q: "ordered q" "holds id q M" using assms(1) by (simp_all add: queue_of_def)
  show ?thesis
    by (rule put_cases [OF q assms(2) inj_id_nat assms(3,4), of ok]) (simp_all add: that queue_of_Some)
qed

lemma removes:
  assumes "queue_of rank0 valid0 q M" "s \<in> M" "card M \<le> PRIOQ_IDX_NULL"
    "\<And>x. x \<in> M \<Longrightarrow> x \<noteq> s \<Longrightarrow> rank x = rank0 x \<and> (valid0 x \<longrightarrow> valid x)"
  obtains q' where "prioq_remove cmp s (Some s) q = Inr (1, Some q')" "queue_of rank valid (Some q') (M - {s})"
    "card (M - {s}) < n_allocated q'"
proof -
  obtain p where p: "q = Some p" "ordered_queue rank0 valid0 p" "holds id p M"
    using assms(1,2) by (auto simp: queue_of_def split: option.splits)
  show ?thesis
    by (rule remove_holds [OF p(2,3) assms(2-4)]) (simp_all add: that p(1) queue_of_Some)
qed

lemma reshuffles:
  assumes "queue_of rank0 valid0 (Some q) M" "s \<in> M" "card M \<le> PRIOQ_IDX_NULL"
    "\<And>x. x \<in> M \<Longrightarrow> x \<noteq> s \<Longrightarrow> rank x = rank0 x \<and> (valid0 x \<longrightarrow> valid x)" "valid s"
  obtains q' where "prioq_reshuffle cmp s (Some s) q = Inr q'" "queue_of rank valid (Some q') M"
proof -
  have p: "ordered_queue rank0 valid0 q" "holds id q M" using assms(1) by (simp_all add: queue_of_def)
  show ?thesis
    by (rule reshuffle_holds [OF p assms(2-5)]) (simp_all add: that queue_of_Some)
qed

lemma peeks:
  assumes "queue_of rank valid q M"
  obtains (empty) "prioq_peek q = None" "M = {}"
  | (first) s where "prioq_peek q = Some s" "s \<in> M" "\<And>x. x \<in> M \<Longrightarrow> rank s \<le> rank x"
proof (cases "M = {}")
  case True
  then have "prioq_peek q = None"
    using assms peek_empty [of id] by (cases q) (auto simp: queue_of_def prioq_peek_def [of None] prioq_peek_by_index_def)
  then show ?thesis using empty True by blast
next
  case False
  then obtain p where p: "q = Some p" "ordered p" "holds id p M"
    using assms by (auto simp: queue_of_def split: option.splits)
  show ?thesis
    by (rule peek_holds [OF p(2,3) False]) (use first p(1) in blast)
qed

end

interpretation pendings: source_order "pending_prioq_compare \<sigma>" "pending_rank \<sigma>" "\<lambda>a. pending (\<sigma> a)" for \<sigma>
  by unfold_locales
     (simp add: pending_prioq_compare_def pending_rank_def Let_def signs_intros)

interpretation prepares: source_order "prepare_prioq_compare \<sigma>" "prepare_rank \<sigma>" "\<lambda>a. has_prepare (\<sigma> a)" for \<sigma>
  by unfold_locales
     (simp add: prepare_prioq_compare_def prepare_rank_def Let_def signs_intros)

interpretation exits: source_order "exit_prioq_compare \<sigma>" "exit_rank \<sigma>" "\<lambda>a. src_type (\<sigma> a) = SOURCE_EXIT" for \<sigma>
  by unfold_locales
     (simp add: exit_prioq_compare_def exit_rank_def Let_def signs_intros)

interpretation earliest: source_order "earliest_time_prioq_compare \<sigma>" "earliest_rank \<sigma>" "\<lambda>a. limit_set (\<sigma> a)" for \<sigma>
  by unfold_locales
     (simp add: earliest_time_prioq_compare_def time_prioq_compare_def earliest_rank_def Let_def signs_enabled signs_intros)

interpretation latest: source_order "latest_time_prioq_compare \<sigma>" "latest_rank \<sigma>" "\<lambda>a. limit_set (\<sigma> a)" for \<sigma>
  by unfold_locales
     (simp add: latest_time_prioq_compare_def time_prioq_compare_def latest_rank_def Let_def signs_enabled signs_intros)

section \<open>Choosing the time to wake up\<close>

text \<open>
  \<open>boot\<close> is what \<open>sd_id128_get_boot\<close> gives: the two halves of the boot identifier, or an error.
\<close>

type_synonym boot_id = "(usec \<times> usec) option"

definition initialize_perturb :: "boot_id \<Rightarrow> usec \<Rightarrow> usec" where
  "initialize_perturb boot perturb =
     (if perturb \<noteq> USEC_INFINITY then perturb
      else case boot of None \<Rightarrow> perturb | Some (q0, q1) \<Rightarrow> (xor q0 q1) mod USEC_PER_MINUTE)"

definition sleep_spot :: "usec \<Rightarrow> usec \<Rightarrow> usec \<Rightarrow> usec + usec" where \<comment> \<open>\<open>Inl\<close>: the time to return; \<open>Inr\<close>: the value of \<open>c\<close>\<close>
  "sleep_spot P p b =
     (let c = (b div P) * P + p in
      if b \<le> c then (if c < P then Inl b else Inr (c - P)) else Inr c)"

fun sleep_find :: "usec \<Rightarrow> usec \<Rightarrow> (usec \<times> usec) list \<Rightarrow> usec" where
  "sleep_find a b [] = b"
| "sleep_find a b ((P, p) # xs) = (case sleep_spot P p b of Inl t \<Rightarrow> t | Inr c \<Rightarrow> if a \<le> c then c else sleep_find a b xs)"

definition sleep_steps :: "usec \<Rightarrow> (usec \<times> usec) list" where
  "sleep_steps perturb = [(USEC_PER_MINUTE, perturb), (USEC_PER_SEC * 10, perturb mod (USEC_PER_SEC * 10)),
     (USEC_PER_SEC, perturb mod USEC_PER_SEC), (USEC_PER_MSEC * 250, perturb mod (USEC_PER_MSEC * 250))]"

definition sleep_between :: "boot_id \<Rightarrow> usec \<Rightarrow> usec \<Rightarrow> usec \<Rightarrow> (usec \<times> usec) res" where \<comment> \<open>the time, and the new \<open>perturb\<close>\<close>
  "sleep_between boot perturb a b =
     rbind (rassert (a \<le> b) AssertFail) (\<lambda>_.
     if a = 0 then Inr (0, perturb)
     else if a = USEC_INFINITY then Inr (USEC_INFINITY, perturb)
     else if b \<le> a + 1 then Inr (a, perturb)
     else
      (let perturb = initialize_perturb boot perturb in
       Inr (sleep_find a b (sleep_steps perturb), perturb)))"

lemma spot_sum: "unat (b div P * P + p :: usec) = (unat b div unat P * unat P + unat p) mod 2 ^ 64"
  by (simp add: unat_word_ariths unat_div_distrib mod_simps)

lemma sleep_spot_cases:
  "b div P * P + p < b \<Longrightarrow> sleep_spot P p b = Inr (b div P * P + p)"
  "b \<le> b div P * P + p \<Longrightarrow> b div P * P + p < P \<Longrightarrow> sleep_spot P p b = Inl b"
  "b \<le> b div P * P + p \<Longrightarrow> P \<le> b div P * P + p \<Longrightarrow> sleep_spot P p b = Inr (b div P * P + p - P)"
  by (auto simp: sleep_spot_def Let_def dest: leD)

lemma spot_window:
  assumes "p < P" "sleep_spot P p b = r"
  shows "r = Inl b \<or> (\<exists>c. r = Inr c \<and> c \<le> b)"
proof -
  let ?c = "(b div P) * P + p"
  consider "?c < b" | "b \<le> ?c" "?c < P" | "b \<le> ?c" "P \<le> ?c" by fastforce
  then show ?thesis
  proof cases
    case 3
    define f where "f = unat b div unat P * unat P"
    have "f \<le> unat b" by (simp add: f_def)
    moreover have "unat ?c \<le> f + unat p" unfolding spot_sum f_def by (rule mod_less_eq_dividend)
    moreover have "unat (?c - P) = unat ?c - unat P" using 3 by (simp add: unat_sub)
    moreover have "unat p < unat P" using assms(1) by (simp add: word_less_nat_alt)
    ultimately have "unat (?c - P) \<le> unat b" by linarith
    then have "?c - P \<le> b" by (simp add: word_le_nat_alt)
    then show ?thesis using sleep_spot_cases(3) [OF 3] assms(2) by blast
  qed (use sleep_spot_cases(1,2) assms(2) in \<open>auto intro: less_imp_le\<close>)
qed

lemma spot_phase:
  assumes "p < P" "P \<le> b" "unat b + unat P < 2 ^ 64"
  obtains c where "sleep_spot P p b = Inr c" "c \<le> b" "unat b \<le> unat c + unat P" "unat c mod unat P = unat p"
proof -
  let ?c = "(b div P) * P + p" and ?f = "unat b div unat P * unat P"
  have p: "unat p < unat P" using assms(1) by (simp add: word_less_nat_alt)
  have f: "?f \<le> unat b" "unat b < ?f + unat P"
    using p mod_less_divisor [of "unat P" "unat b"] div_mult_mod_eq [of "unat b" "unat P"] by linarith+
  have "?f + unat p < 2 ^ 64" using f p assms(3) by linarith
  then have c: "unat ?c = ?f + unat p" unfolding spot_sum by (rule mod_less)
  have m: "(?f + unat p) mod unat P = unat p" using p by simp
  have "unat P \<le> ?f" using assms(2) p by (simp add: word_le_nat_alt div_greater_zero_iff Suc_le_eq)
  show ?thesis
  proof (cases "b \<le> ?c")
    case True
    have P: "P \<le> ?c" unfolding word_le_nat_alt c using \<open>unat P \<le> ?f\<close> by (rule trans_le_add1)
    then have u: "unat (?c - P) = ?f + unat p - unat P" by (simp add: unat_sub c)
    have "(?f + unat p - unat P) mod unat P = unat p" using \<open>unat P \<le> ?f\<close> m
      by (metis le_add1 le_mod_geq order_trans)
    moreover have "unat b \<le> ?f + unat p" using True c by (simp add: word_le_nat_alt)
    moreover have "?f + unat p - unat P \<le> unat b" "unat b \<le> ?f + unat p - unat P + unat P"
      using f p calculation(2) \<open>unat P \<le> ?f\<close> by linarith+
    ultimately show ?thesis
      using that [OF sleep_spot_cases(3) [OF True P]] u by (simp add: word_le_nat_alt)
  next
    case False
    then show ?thesis using that [OF sleep_spot_cases(1)] c f m by simp
  qed
qed

lemma sleep_find_window:
  assumes "\<forall>(P, p) \<in> set xs. p < P" "a \<le> b"
  shows "a \<le> sleep_find a b xs \<and> sleep_find a b xs \<le> b"
  using assms
proof (induction a b xs rule: sleep_find.induct)
  case (2 a b P p xs)
  then show ?case using spot_window [of p P b "sleep_spot P p b"] by auto
qed simp

text \<open>Every step before \<open>P\<close> is a multiple of it, so a spot found there has the phase of \<open>P\<close> as well.\<close>

lemma sleep_find_phase:
  assumes "\<forall>(Q, q) \<in> set (ys @ [(P, p)]). q < Q \<and> Q \<le> b \<and> unat b + unat Q < 2 ^ 64 \<and> unat P dvd unat Q \<and> unat q mod unat P = unat p"
    and "unat a + unat P \<le> unat b"
  shows "unat (sleep_find a b (ys @ (P, p) # zs)) mod unat P = unat p"
  using assms
proof (induction ys)
  case Nil
  then obtain c where "sleep_spot P p b = Inr c" "unat b \<le> unat c + unat P" "unat c mod unat P = unat p"
    using spot_phase [of p P b] by auto
  moreover have "a \<le> c" using calculation(2) Nil(2) by (simp add: word_le_nat_alt)
  ultimately show ?case by simp
next
  case (Cons y ys)
  obtain Q q where y: "y = (Q, q)" by fastforce
  then obtain c where c: "sleep_spot Q q b = Inr c" "unat c mod unat Q = unat q"
    using spot_phase [of q Q b] Cons.prems(1) by auto
  have "unat c mod unat P = unat p" using Cons.prems(1) c(2) y by (auto simp flip: mod_mod_cancel [of "unat P" "unat Q"])
  then show ?case using c(1) y Cons by simp
qed

lemma MINUTE_unat [simp]: "unat USEC_PER_MINUTE = 60000000"
  by (simp add: USEC_PER_MINUTE_def USEC_PER_SEC_def)

definition perturb_known :: "boot_id \<Rightarrow> usec \<Rightarrow> bool" where \<comment> \<open>there is, or will be, a phase to wake up at\<close>
  "perturb_known boot perturb \<longleftrightarrow> perturb = USEC_INFINITY \<and> boot \<noteq> None \<or> perturb < USEC_PER_MINUTE"

lemma initialize_perturb_minute: "perturb_known boot perturb \<Longrightarrow> initialize_perturb boot perturb < USEC_PER_MINUTE"
proof -
  have "x mod USEC_PER_MINUTE < USEC_PER_MINUTE" for x
    by (rule word_mod_less_divisor) (simp add: word_less_nat_alt)
  moreover have "\<not> USEC_INFINITY < USEC_PER_MINUTE"
    by (simp add: USEC_INFINITY_def)
  ultimately show "perturb_known boot perturb \<Longrightarrow> ?thesis"
    by (auto simp: perturb_known_def initialize_perturb_def split: option.splits)
qed

lemma sleep_steps_small: "perturb < USEC_PER_MINUTE \<Longrightarrow> \<forall>(P, p) \<in> set (sleep_steps perturb). p < P"
  by (simp add: sleep_steps_def USEC_PER_SEC_def USEC_PER_MSEC_def word_mod_less_divisor)

lemma sleep_between_runs:
  assumes "a \<le> b" "perturb_known boot perturb"
  shows "\<exists>t p. sleep_between boot perturb a b = Inr (t, p) \<and> a \<le> t \<and> t \<le> b"
proof -
  have "a = USEC_INFINITY \<Longrightarrow> USEC_INFINITY \<le> b" using assms(1) by simp
  then show ?thesis
    using sleep_find_window [OF sleep_steps_small [OF initialize_perturb_minute [OF assms(2)]] assms(1)] assms(1)
    by (auto simp: sleep_between_def Let_def)
qed

text \<open>
  The event loop never oversleeps and never wakes up early: \<open>sleep_between\<close> gives a time in the window
  it is asked for, whatever the window (an empty one, one that never ends, one at the end of time), when the phase to wake up at is known or
  can be learnt from the boot id.
\<close>

theorem sleep_between_in_window:
  assumes "a \<le> b" "perturb_known boot perturb"
  shows "\<exists>t p. sleep_between boot perturb a b = Inr (t, p) \<and> a \<le> t \<and> t \<le> b"
  by (rule sleep_between_runs [OF assms])

theorem sleep_between_in_window_witness:
  "\<exists>t p. sleep_between (Some (5, 9)) USEC_INFINITY 70000000 190000000 = Inr (t, p) \<and> 70000000 \<le> t \<and> t \<le> 190000000"
  by (rule sleep_between_in_window) (simp_all add: perturb_known_def)

lemma sleep_steps_unat:
  "unat (USEC_PER_SEC * 10) = 10000000" "unat USEC_PER_SEC = 1000000" "unat (USEC_PER_MSEC * 250) = 250000"
  by (simp_all add: USEC_PER_SEC_def USEC_PER_MSEC_def)

lemma sleep_steps_split:
  assumes "P \<in> {USEC_PER_MINUTE, USEC_PER_SEC * 10, USEC_PER_SEC, USEC_PER_MSEC * 250}"
  obtains ys p zs where "sleep_steps perturb = ys @ (P, p) # zs" "unat p mod unat P = unat perturb mod unat P"
    "\<forall>(Q, q) \<in> set (ys @ [(P, p)]). unat P dvd unat Q \<and> unat q mod unat P = unat perturb mod unat P"
proof -
  have m: "unat (perturb mod Q) mod k = unat perturb mod k" if "k dvd unat Q" for Q k
    using that by (simp add: unat_mod_distrib mod_mod_cancel)
  let ?s = "\<lambda>n. take n (sleep_steps perturb)" and ?e = "\<lambda>n. drop (Suc n) (sleep_steps perturb)"
  note d = sleep_steps_def sleep_steps_unat m numeral_2_eq_2 numeral_3_eq_3
  consider "P = USEC_PER_MINUTE" | "P = USEC_PER_SEC * 10" | "P = USEC_PER_SEC" | "P = USEC_PER_MSEC * 250" using assms by blast
  then show ?thesis
  proof cases
    case 1
    then show ?thesis using that [of "?s 0" perturb "?e 0"] by (simp add: d)
  next
    case 2
    then show ?thesis using that [of "?s 1" "perturb mod P" "?e 1"] by (simp add: d)
  next
    case 3
    then show ?thesis using that [of "?s 2" "perturb mod P" "?e 2"] by (simp add: d)
  next
    case 4
    then show ?thesis using that [of "?s 3" "perturb mod P" "?e 3"] by (simp add: d)
  qed
qed

text \<open>
  C34. Wake-ups coalesce: when the window is at least a minute (ten seconds, a second, a quarter of a
  second) long, \<open>sleep_between\<close> picks a time that has, modulo that length, the phase which the machine
  derives from its boot identifier, so that all event loops wake up together. This needs the end of the window to be past
  the first minute of the clock, and not in its last one.
\<close>

theorem sleep_between_coalesces:
  assumes "P \<in> {USEC_PER_MINUTE, USEC_PER_SEC * 10, USEC_PER_SEC, USEC_PER_MSEC * 250}"
    and "0 < a" "unat a + unat P \<le> unat b" "USEC_PER_MINUTE \<le> b" "unat b + 60000000 < 2 ^ 64" "perturb < USEC_PER_MINUTE"
  shows "\<exists>t. sleep_between boot perturb a b = Inr (t, perturb) \<and> a \<le> t \<and> t \<le> b \<and>
    unat t mod unat P = unat perturb mod unat P"
proof -
  obtain ys p zs where s: "sleep_steps perturb = ys @ (P, p) # zs" "unat p mod unat P = unat perturb mod unat P"
    and q: "\<forall>(Q, q) \<in> set (ys @ [(P, p)]). unat P dvd unat Q \<and> unat q mod unat P = unat perturb mod unat P"
    using sleep_steps_split [OF assms(1)] .
  have small: "\<forall>(Q, q) \<in> set (sleep_steps perturb). q < Q" using sleep_steps_small [OF assms(6)] .
  have "unat Q \<le> 60000000" if "(Q, q) \<in> set (sleep_steps perturb)" for Q q
    using that by (auto simp: sleep_steps_def sleep_steps_unat)
  then have "q < Q \<and> Q \<le> b \<and> unat b + unat Q < 2 ^ 64" if "(Q, q) \<in> set (sleep_steps perturb)" for Q q
    using small that assms(4,5) by (fastforce simp: word_le_nat_alt)
  then have "\<forall>(Q, q) \<in> set (ys @ [(P, p)]). q < Q \<and> Q \<le> b \<and> unat b + unat Q < 2 ^ 64"
    unfolding s(1) by auto
  moreover have "unat p mod unat P = unat p" using small s(1) by (simp add: word_less_nat_alt)
  ultimately have "unat (sleep_find a b (sleep_steps perturb)) mod unat P = unat p"
    unfolding s(1) using q s(2) by (intro sleep_find_phase [OF _ assms(3)]) auto
  moreover have P: "250000 \<le> unat P" using assms(1) by (auto simp: sleep_steps_unat)
  then have le: "a \<le> b" "\<not> b \<le> a + 1" "a \<noteq> USEC_INFINITY"
    using assms(3,5) unfolding word_le_nat_alt by (auto simp: unat_word_ariths)
  moreover have "perturb \<noteq> USEC_INFINITY" using assms(6) by (auto simp: word_less_nat_alt)
  ultimately show ?thesis
    using sleep_find_window [OF small le(1)] assms(2) s(2) \<open>unat p mod unat P = unat p\<close>
    by (auto simp: sleep_between_def initialize_perturb_def)
qed

theorem sleep_between_coalesces_witness:
  "\<exists>t. sleep_between None 42000000 70000000 190000000 = Inr (t, 42000000) \<and> 70000000 \<le> t \<and> t \<le> 190000000 \<and>
    unat t mod unat USEC_PER_MINUTE = unat (42000000 :: usec) mod unat USEC_PER_MINUTE"
  by (rule sleep_between_coalesces) (simp_all add: USEC_PER_MINUTE_def USEC_PER_SEC_def)

text \<open>
  Without a boot identifier there is no phase: \<open>perturb\<close> stays at infinity and, while the clock is in its
  first minute, the time chosen is the last minute of the clock, long past the end of the window.
\<close>

lemma sleep_without_boot_id:
  assumes "0 < a" "a \<le> b" "a + 1 < b" "b < USEC_PER_MINUTE"
  shows "sleep_between None USEC_INFINITY a b = Inr (USEC_INFINITY - USEC_PER_MINUTE, USEC_INFINITY)"
proof -
  have b: "unat b < 60000000" using assms(4) by (simp add: word_less_nat_alt)
  then have "unat (b div USEC_PER_MINUTE) = 0" by (simp add: unat_div_distrib)
  then have f: "b div USEC_PER_MINUTE = 0" by (simp add: unat_eq_0)
  have "\<not> USEC_INFINITY < USEC_PER_MINUTE" by (simp add: USEC_INFINITY_def)
  then have spot: "sleep_spot USEC_PER_MINUTE USEC_INFINITY b = Inr (USEC_INFINITY - USEC_PER_MINUTE)"
    by (simp add: sleep_spot_def f)
  have "unat (USEC_INFINITY - USEC_PER_MINUTE) = 2 ^ 64 - 1 - 60000000" by (subst unat_sub) simp_all
  moreover have "unat a < 60000000" using assms(2) b by (simp add: word_le_nat_alt)
  ultimately have "a \<le> USEC_INFINITY - USEC_PER_MINUTE" "a \<noteq> USEC_INFINITY"
    by (auto simp: word_le_nat_alt)
  moreover have "a \<noteq> 0" "\<not> b \<le> a + 1" using assms(1,3) by auto
  ultimately show ?thesis
    using assms(2) spot by (simp add: sleep_between_def initialize_perturb_def sleep_steps_def Let_def)
qed

end
