(* ===== verification/EventLoop.thy ===== *)
theory EventLoop
  imports EventTimers
begin

text \<open>
  The timers of the event loop of the system library (\<open>sd-event.c\<close>) at work: the two queues of each clock,
  the queue of the pending sources, arming the kernel's timer, and marking the elapsed timers.
  The \<open>bool\<close> arguments named \<open>ok\<close> say whether an allocation succeeds.
\<close>

section \<open>The state\<close>

datatype clock = CLOCK_REALTIME | CLOCK_BOOTTIME | CLOCK_MONOTONIC | CLOCK_REALTIME_ALARM | CLOCK_BOOTTIME_ALARM

record clock_data =
  timer_fd :: int
  earliest_q :: "nat prioq option"   \<comment> \<open>the index variables are the \<open>earliest_index\<close> fields of the sources\<close>
  latest_q :: "nat prioq option"
  next_set :: usec                   \<comment> \<open>what the timer is set to\<close>
  needs_rearm :: bool

record signal_data =
  signal_fd :: int
  sigset :: "int set"
  current :: "nat option"

datatype loop_state = SD_EVENT_INITIAL | SD_EVENT_ARMED | SD_EVENT_PENDING | SD_EVENT_RUNNING | SD_EVENT_EXITING
  | SD_EVENT_FINISHED | SD_EVENT_PREPARING

record event_loop =
  sources :: "nat \<Rightarrow> event_source"
  attached :: "nat set"                          \<comment> \<open>the list \<open>sources\<close>\<close>
  clocks :: "clock \<Rightarrow> clock_data"
  pending_q :: "nat prioq option"
  prepare_q :: "nat prioq option"
  exit_q :: "nat prioq option"
  iteration :: nat
  state :: loop_state
  exit_requested :: bool
  exit_code :: int
  pid_changed :: bool                            \<comment> \<open>\<open>event_pid_changed\<close>\<close>
  perturb :: usec
  signal_sources :: "int \<Rightarrow> nat option"
  signals :: "int \<Rightarrow> signal_data option"         \<comment> \<open>\<open>signal_data\<close>, by priority\<close>
  online_children :: nat                         \<comment> \<open>\<open>n_online_child_sources\<close>\<close>
  need_process_child :: bool
  post_sources :: "nat set"
  inotify_of :: "nat \<Rightarrow> nat option"               \<comment> \<open>the inotify data of an inotify source\<close>
  n_pending :: "nat \<Rightarrow> nat"                       \<comment> \<open>of each inotify data\<close>

abbreviation finished :: "event_loop \<Rightarrow> bool" where "finished e \<equiv> state e = SD_EVENT_FINISHED"

definition event_get_clock :: "source_type \<Rightarrow> clock option" where
  "event_get_clock t = (case t of
     SOURCE_TIME_REALTIME \<Rightarrow> Some CLOCK_REALTIME
   | SOURCE_TIME_BOOTTIME \<Rightarrow> Some CLOCK_BOOTTIME
   | SOURCE_TIME_MONOTONIC \<Rightarrow> Some CLOCK_MONOTONIC
   | SOURCE_TIME_REALTIME_ALARM \<Rightarrow> Some CLOCK_REALTIME_ALARM
   | SOURCE_TIME_BOOTTIME_ALARM \<Rightarrow> Some CLOCK_BOOTTIME_ALARM
   | _ \<Rightarrow> None)"

definition queue :: "'d prioq option \<Rightarrow> 'd prioq res" where \<comment> \<open>\<open>assert(q)\<close>\<close>
  "queue q = (case q of None \<Rightarrow> Inl AssertFail | Some q \<Rightarrow> Inr q)"

definition with_clock :: "clock \<Rightarrow> (clock_data \<Rightarrow> clock_data) \<Rightarrow> event_loop \<Rightarrow> event_loop" where
  "with_clock c f e = e\<lparr>clocks := (clocks e)(c := f (clocks e c))\<rparr>"

definition with_source :: "nat \<Rightarrow> (event_source \<Rightarrow> event_source) \<Rightarrow> event_loop \<Rightarrow> event_loop" where
  "with_source s f e = e\<lparr>sources := (sources e)(s := f (sources e s))\<rparr>"

definition forget_index :: "nat \<Rightarrow> nat prioq \<Rightarrow> nat prioq" where
  "forget_index s q = q\<lparr>idx_var := (idx_var q)(s := PRIOQ_IDX_NULL)\<rparr>"

section \<open>The queues of a clock\<close>

definition event_source_time_prioq_put :: "bool \<Rightarrow> bool \<Rightarrow> nat \<Rightarrow> clock \<Rightarrow> event_loop \<Rightarrow> (int \<times> event_loop) res" where
  "event_source_time_prioq_put ok1 ok2 s c e =
     (let d = clocks e c; earliest_cmp = earliest_time_prioq_compare (sources e) in
      rbind (rassert (event_source_uses_time_prioq (src_type (sources e s))) AssertFail) (\<lambda>_.
      rbind (queue (earliest_q d)) (\<lambda>q. rbind (prioq_put earliest_cmp ok1 s (Some s) q) (\<lambda>(r, qe).
      if r < 0 then Inr (r, with_clock c (\<lambda>d. d\<lparr>earliest_q := Some qe\<rparr>) e)
      else
       rbind (queue (latest_q d)) (\<lambda>q. rbind (prioq_put (latest_time_prioq_compare (sources e)) ok2 s (Some s) q) (\<lambda>(r, ql).
       if r < 0 then
         rbind (prioq_remove earliest_cmp s (Some s) (Some qe)) (\<lambda>(n, qe).
         rbind (rassert (0 < n) AssertFail) (\<lambda>_.
         Inr (r, with_clock c (\<lambda>d. d\<lparr>earliest_q := map_option (forget_index s) qe, latest_q := Some ql\<rparr>) e)))
       else Inr (0, with_clock c (\<lambda>d. d\<lparr>earliest_q := Some qe, latest_q := Some ql, needs_rearm := True\<rparr>) e)))))))"

definition event_source_time_prioq_remove :: "nat \<Rightarrow> clock \<Rightarrow> event_loop \<Rightarrow> event_loop res" where
  "event_source_time_prioq_remove s c e =
     (let d = clocks e c in
      rbind (prioq_remove (earliest_time_prioq_compare (sources e)) s (Some s) (earliest_q d)) (\<lambda>(_, qe).
      rbind (prioq_remove (latest_time_prioq_compare (sources e)) s (Some s) (latest_q d)) (\<lambda>(_, ql).
      Inr (with_clock c (\<lambda>d. d\<lparr>earliest_q := map_option (forget_index s) qe,
        latest_q := map_option (forget_index s) ql, needs_rearm := True\<rparr>) e))))"

definition clock_reshuffle :: "nat \<Rightarrow> clock \<Rightarrow> event_loop \<Rightarrow> event_loop res" where \<comment> \<open>the end of \<open>event_source_time_prioq_reshuffle\<close>\<close>
  "clock_reshuffle s c e =
     (let d = clocks e c in
      rbind (queue (earliest_q d)) (\<lambda>q. rbind (prioq_reshuffle (earliest_time_prioq_compare (sources e)) s (Some s) q) (\<lambda>qe.
      rbind (queue (latest_q d)) (\<lambda>q. rbind (prioq_reshuffle (latest_time_prioq_compare (sources e)) s (Some s) q) (\<lambda>ql.
      Inr (with_clock c (\<lambda>d. d\<lparr>earliest_q := Some qe, latest_q := Some ql, needs_rearm := True\<rparr>) e))))))"

definition event_source_time_prioq_reshuffle :: "nat \<Rightarrow> event_loop \<Rightarrow> event_loop res" where
  "event_source_time_prioq_reshuffle s e =
     (let x = sources e s in
      if ratelimited x then clock_reshuffle s CLOCK_MONOTONIC e
      else if event_source_is_time (src_type x) then
        (case event_get_clock (src_type x) of None \<Rightarrow> Inl AssertFail | Some c \<Rightarrow> clock_reshuffle s c e)
      else Inr e)"

section \<open>Pending sources\<close>

definition signal_not_current :: "nat \<Rightarrow> event_loop \<Rightarrow> event_loop" where
  "signal_not_current s e =
     (let p = priority (sources e s) in
      case signals e p of None \<Rightarrow> e
      | Some d \<Rightarrow> if current d = Some s then e\<lparr>signals := (signals e)(p \<mapsto> d\<lparr>current := None\<rparr>)\<rparr> else e)"

definition inotify_count :: "bool \<Rightarrow> nat \<Rightarrow> event_loop \<Rightarrow> event_loop res" where
  "inotify_count b s e = (case inotify_of e s of None \<Rightarrow> Inl AssertFail
     | Some d \<Rightarrow>
         if b then Inr (e\<lparr>n_pending := (n_pending e)(d := n_pending e d + 1)\<rparr>)
         else rbind (rassert (0 < n_pending e d) AssertFail) (\<lambda>_. Inr (e\<lparr>n_pending := (n_pending e)(d := n_pending e d - 1)\<rparr>)))"

definition pending_put :: "bool \<Rightarrow> nat \<Rightarrow> event_loop \<Rightarrow> (int \<times> event_loop) res" where \<comment> \<open>\<open>if (b)\<close> of \<open>source_set_pending\<close>\<close>
  "pending_put ok s e =
     (let e = with_source s (\<lambda>x. x\<lparr>pending_iteration := iteration e\<rparr>) e in
      rbind (queue (pending_q e)) (\<lambda>q. rbind (prioq_put (pending_prioq_compare (sources e)) ok s (Some s) q) (\<lambda>(r, q).
      let e = e\<lparr>pending_q := Some q\<rparr> in
      if r < 0 then Inr (r, with_source s (\<lambda>x. x\<lparr>pending := False\<rparr>) e) else Inr (0, e))))"

definition pending_remove :: "nat \<Rightarrow> event_loop \<Rightarrow> (int \<times> event_loop) res" where
  "pending_remove s e =
     rbind (prioq_remove (pending_prioq_compare (sources e)) s (Some s) (pending_q e)) (\<lambda>(n, q).
     rbind (rassert (n \<noteq> 0) AssertFail) (\<lambda>_. Inr (0, e\<lparr>pending_q := q\<rparr>)))"

definition source_set_pending :: "bool \<Rightarrow> nat \<Rightarrow> bool \<Rightarrow> event_loop \<Rightarrow> (int \<times> event_loop) res" where
  "source_set_pending ok s b e =
     (let t = src_type (sources e s) in
      rbind (rassert (t \<noteq> SOURCE_EXIT) AssertFail) (\<lambda>_.
      if pending (sources e s) = b then Inr (0, e)
      else
       (let e = with_source s (\<lambda>x. x\<lparr>pending := b\<rparr>) e in
        rbind (if b then pending_put ok s e else pending_remove s e) (\<lambda>(r, e).
        if r < 0 then Inr (r, e)
        else
         rbind (if event_source_is_time t then event_source_time_prioq_reshuffle s e else Inr e) (\<lambda>e.
         let e = (if t = SOURCE_SIGNAL \<and> \<not> b then signal_not_current s e else e) in
         rbind (if t = SOURCE_INOTIFY then inotify_count b s e else Inr e) (\<lambda>e. Inr (1, e)))))))"

definition event_next_pending :: "event_loop \<Rightarrow> nat option" where
  "event_next_pending e = (case prioq_peek (pending_q e) of None \<Rightarrow> None
     | Some p \<Rightarrow> if event_source_is_offline (sources e p) then None else Some p)"

section \<open>Setting a timer\<close>

definition EINVAL :: int where "EINVAL = 22"

definition EDOM :: int where "EDOM = 33"

definition ESTALE :: int where "ESTALE = 116"

definition ECHILD :: int where "ECHILD = 10"

definition DEFAULT_ACCURACY_USEC :: usec where "DEFAULT_ACCURACY_USEC = 250 * USEC_PER_MSEC"

definition change_timer :: "(event_source \<Rightarrow> event_source) \<Rightarrow> nat \<Rightarrow> event_loop \<Rightarrow> (int \<times> event_loop) res" where
  \<comment> \<open>what setting the time and setting the accuracy do after their checks\<close>
  "change_timer f s e =
     (if \<not> event_source_is_time (src_type (sources e s)) then Inr (- EDOM, e)
      else if finished e then Inr (- ESTALE, e)
      else if pid_changed e then Inr (- ECHILD, e)
      else
       rbind (source_set_pending True s False e) (\<lambda>(r, e).
       if r < 0 then Inr (r, e)
       else rbind (event_source_time_prioq_reshuffle s (with_source s f e)) (\<lambda>e. Inr (0, e))))"

definition sd_event_source_set_time :: "nat option \<Rightarrow> usec \<Rightarrow> event_loop \<Rightarrow> (int \<times> event_loop) res" where
  "sd_event_source_set_time s t e = (case s of None \<Rightarrow> Inr (- EINVAL, e) | Some s \<Rightarrow> change_timer (\<lambda>x. x\<lparr>time_next := t\<rparr>) s e)"

definition sd_event_source_set_time_accuracy :: "nat option \<Rightarrow> usec \<Rightarrow> event_loop \<Rightarrow> (int \<times> event_loop) res" where
  "sd_event_source_set_time_accuracy s t e = (case s of None \<Rightarrow> Inr (- EINVAL, e)
     | Some s \<Rightarrow> if t = - 1 then Inr (- EINVAL, e)
         else change_timer (\<lambda>x. x\<lparr>time_accuracy := (if t = 0 then DEFAULT_ACCURACY_USEC else t)\<rparr>) s e)"

section \<open>Arming the timer\<close>

text \<open>
  \<open>settime\<close> is \<open>timerfd_settime\<close> of the kernel: the seconds and nanoseconds it is given decide the error
  number it fails with, 0 for none. \<open>time_max\<close> is \<open>TIME_T_MAX\<close> of the platform.
\<close>

definition timespec_store :: "nat \<Rightarrow> usec \<Rightarrow> int \<times> int" where
  "timespec_store time_max u =
     (if u = USEC_INFINITY \<or> time_max \<le> unat (u div USEC_PER_SEC) then (- 1, - 1)
      else (int (unat (u div USEC_PER_SEC)), int (unat (u mod USEC_PER_SEC)) * 1000))"

definition disarm_timer :: "(int \<times> int \<Rightarrow> nat) \<Rightarrow> clock \<Rightarrow> event_loop \<Rightarrow> int \<times> event_loop" where
  "disarm_timer settime c e =
     (let d = clocks e c in
      if timer_fd d < 0 then (0, e)
      else if next_set d = USEC_INFINITY then (0, e)
      else if settime (0, 0) \<noteq> 0 then (- int (settime (0, 0)), e)
      else (0, with_clock c (\<lambda>d. d\<lparr>next_set := USEC_INFINITY\<rparr>) e))"

definition set_timer :: "(int \<times> int \<Rightarrow> nat) \<Rightarrow> nat \<Rightarrow> clock \<Rightarrow> usec \<Rightarrow> event_loop \<Rightarrow> (int \<times> event_loop) res" where
  "set_timer settime time_max c t e =
     (let d = clocks e c in
      if next_set d = t then Inr (0, e)
      else
       rbind (rassert (0 \<le> timer_fd d) AssertFail) (\<lambda>_.
       let its = (if t = 0 then (0, 1) else timespec_store time_max t) in
       if settime its \<noteq> 0 then Inr (- int (settime its), e)
       else Inr (0, with_clock c (\<lambda>d. d\<lparr>next_set := t\<rparr>) e)))"

definition event_arm_timer :: "(int \<times> int \<Rightarrow> nat) \<Rightarrow> nat \<Rightarrow> boot_id \<Rightarrow> clock \<Rightarrow> event_loop \<Rightarrow> (int \<times> event_loop) res" where
  "event_arm_timer settime time_max boot c e =
     (if \<not> needs_rearm (clocks e c) then Inr (0, e)
      else
       (let e = with_clock c (\<lambda>d. d\<lparr>needs_rearm := False\<rparr>) e;
            off = (\<lambda>s. enabled (sources e s) = SD_EVENT_OFF);
            uses = (\<lambda>s. event_source_uses_time_prioq (src_type (sources e s))) in
        case prioq_peek (earliest_q (clocks e c)) of
          None \<Rightarrow> Inr (disarm_timer settime c e)
        | Some a \<Rightarrow>
           rbind (rassert (uses a) AssertFail) (\<lambda>_.
           if off a then Inr (disarm_timer settime c e)
           else
            rbind (time_event_source_next (sources e a)) (\<lambda>ta.
            if ta = USEC_INFINITY then Inr (disarm_timer settime c e)
            else
             (case prioq_peek (latest_q (clocks e c)) of
                None \<Rightarrow> Inl AssertFail
              | Some b \<Rightarrow>
                 rbind (rassert (uses b) AssertFail) (\<lambda>_.
                 rbind (rassert (\<not> off b) AssertFail) (\<lambda>_.
                 rbind (time_event_source_latest (sources e b)) (\<lambda>tb.
                 rbind (sleep_between boot (perturb e) ta tb) (\<lambda>(t, p).
                 set_timer settime time_max c t (e\<lparr>perturb := p\<rparr>))))))))))"

section \<open>Elapsed timers\<close>

text \<open>
  The loop of \<open>process_timer\<close>, with fuel: \<open>None\<close> when it has not ended. \<open>leave\<close> is
  \<open>event_source_leave_ratelimit\<close>, modelled in \<open>EventLimits\<close>; \<open>ok\<close> tells
  for each turn whether memory is there. The result is the return value and the state.
\<close>

fun process_timer ::
  "(nat \<Rightarrow> event_loop \<Rightarrow> (int \<times> event_loop) res) \<Rightarrow> (nat \<Rightarrow> bool) \<Rightarrow> nat \<Rightarrow> usec \<Rightarrow> clock \<Rightarrow> bool \<Rightarrow> event_loop \<Rightarrow>
    (int \<times> event_loop) res option" where
  "process_timer leave ok 0 n c called e = None"
| "process_timer leave ok (Suc fuel) n c called e =
     (let return = Some (Inr (if called then 1 else 0, e)) in
      case prioq_peek (earliest_q (clocks e c)) of
        None \<Rightarrow> return
      | Some s \<Rightarrow>
          let x = sources e s in
          if \<not> event_source_uses_time_prioq (src_type x) then Some (Inl AssertFail)
          else
           (case time_event_source_next x of
              Inl err \<Rightarrow> Some (Inl err)
            | Inr t \<Rightarrow>
                if n < t then return
                else if ratelimited x then
                  (case leave s e of
                     Inl err \<Rightarrow> Some (Inl err)
                   | Inr (r, e) \<Rightarrow> if r < 0 then Some (Inr (r, e)) else process_timer leave ok fuel n c (called \<or> r = 1) e)
                else if enabled x = SD_EVENT_OFF \<or> pending x then return
                else
                  (case source_set_pending (ok fuel) s True e of
                     Inl err \<Rightarrow> Some (Inl err)
                   | Inr (r, e) \<Rightarrow>
                       if r < 0 then Some (Inr (r, e))
                       else (case event_source_time_prioq_reshuffle s e of
                               Inl err \<Rightarrow> Some (Inl err)
                             | Inr e \<Rightarrow> process_timer leave ok fuel n c called e))))"

section \<open>The invariant\<close>

text \<open>
  What holds between two calls. A source belongs to the clock of its kind, or to the monotonic clock while it is
  rate limited. \<open>clock_ok \<sigma> d M\<close>: both queues of a clock hold the sources \<open>M\<close>, each in its own order, as the
  sources \<open>\<sigma>\<close> order them; likewise the queues of the pending sources, of those with a prepare callback
  and of the exit sources. Within a call the sources change before the queues do, so \<open>\<sigma>\<close> may be what they were.
\<close>

definition clock_of :: "event_source \<Rightarrow> clock option" where
  "clock_of x = (if ratelimited x then Some CLOCK_MONOTONIC else event_get_clock (src_type x))"

definition members :: "event_loop \<Rightarrow> clock \<Rightarrow> nat set" where
  "members e c = {s \<in> attached e. clock_of (sources e s) = Some c}"

definition created :: "clock_data \<Rightarrow> bool" where \<comment> \<open>\<open>setup_clock_data\<close> has succeeded\<close>
  "created d \<longleftrightarrow> earliest_q d \<noteq> None \<and> latest_q d \<noteq> None"

definition clock_ok :: "sources \<Rightarrow> clock_data \<Rightarrow> nat set \<Rightarrow> bool" where
  "clock_ok \<sigma> d M \<longleftrightarrow> queue_of (earliest_rank \<sigma>) (\<lambda>s. limit_set (\<sigma> s)) (earliest_q d) M \<and>
     queue_of (latest_rank \<sigma>) (\<lambda>s. limit_set (\<sigma> s)) (latest_q d) M \<and>
     (\<forall>s \<in> M. event_source_uses_time_prioq (src_type (\<sigma> s))) \<and> (created d \<longrightarrow> 0 \<le> timer_fd d)"

definition pending_ok :: "sources \<Rightarrow> nat set \<Rightarrow> nat prioq option \<Rightarrow> bool" where
  "pending_ok \<sigma> A q \<longleftrightarrow> q \<noteq> None \<and> queue_of (pending_rank \<sigma>) (\<lambda>s. pending (\<sigma> s)) q {s \<in> A. pending (\<sigma> s)}"

definition prepare_ok :: "sources \<Rightarrow> nat set \<Rightarrow> nat prioq option \<Rightarrow> bool" where
  "prepare_ok \<sigma> A q \<longleftrightarrow> queue_of (prepare_rank \<sigma>) (\<lambda>s. has_prepare (\<sigma> s)) q {s \<in> A. has_prepare (\<sigma> s)}"

definition exit_ok :: "sources \<Rightarrow> nat set \<Rightarrow> nat prioq option \<Rightarrow> bool" where
  "exit_ok \<sigma> A q \<longleftrightarrow> queue_of (exit_rank \<sigma>) (\<lambda>s. src_type (\<sigma> s) = SOURCE_EXIT) q {s \<in> A. src_type (\<sigma> s) = SOURCE_EXIT}"

definition queues_ok :: "event_loop \<Rightarrow> bool" where
  "queues_ok e \<longleftrightarrow> pending_ok (sources e) (attached e) (pending_q e) \<and> prepare_ok (sources e) (attached e) (prepare_q e) \<and>
     exit_ok (sources e) (attached e) (exit_q e) \<and> (\<forall>c. clock_ok (sources e) (clocks e c) (members e c))"

definition small :: "nat set \<Rightarrow> bool" where \<comment> \<open>half of what the 32 bits of an index can count\<close>
  "small M \<longleftrightarrow> finite M \<and> card M < 2 ^ 31 - 1"

text \<open>
  The counters count what they should; a source that is rate limited may be, and has a window; signal
  descriptors are open; inotify sources have their data.
\<close>

definition source_ok :: "event_loop \<Rightarrow> nat \<Rightarrow> bool" where
  "source_ok e s \<longleftrightarrow> limit_set (sources e s) \<and> (ratelimited (sources e s) \<longrightarrow> event_source_can_rate_limit (src_type (sources e s))) \<and>
     src_type (sources e s) \<noteq> SOURCE_WATCHDOG \<and> (src_type (sources e s) = SOURCE_INOTIFY \<longrightarrow> inotify_of e s \<noteq> None)"

definition inotify_pending :: "event_loop \<Rightarrow> nat \<Rightarrow> nat set" where
  "inotify_pending e d = {s \<in> attached e. src_type (sources e s) = SOURCE_INOTIFY \<and> pending (sources e s) \<and> inotify_of e s = Some d}"

definition children_online :: "event_loop \<Rightarrow> nat set" where
  "children_online e = {s \<in> attached e. src_type (sources e s) = SOURCE_CHILD \<and> event_source_is_online (sources e s)}"

definition books_ok :: "event_loop \<Rightarrow> bool" where
  "books_ok e \<longleftrightarrow> small (attached e) \<and> (\<forall>s \<in> attached e. source_ok e s) \<and> (\<forall>p d. signals e p = Some d \<longrightarrow> 0 \<le> signal_fd d) \<and>
     (\<forall>d. n_pending e d = card (inotify_pending e d)) \<and> online_children e = card (children_online e)"

definition loop_ok :: "event_loop \<Rightarrow> bool" where
  "loop_ok e \<longleftrightarrow> queues_ok e \<and> books_ok e"

lemma small_subset: "small A \<Longrightarrow> M \<subseteq> A \<Longrightarrow> small M"
  by (auto simp: small_def intro: finite_subset le_less_trans [OF card_mono])

lemma small_index: "small M \<Longrightarrow> card M \<le> PRIOQ_IDX_NULL"
  by (simp add: small_def PRIOQ_IDX_NULL_def)

lemma small_card: "small M \<Longrightarrow> card M < 2 ^ 31 - 1"
  by (simp add: small_def)

lemma loop_okD:
  assumes "loop_ok e"
  shows "queues_ok e" "books_ok e" "pending_ok (sources e) (attached e) (pending_q e)" "prepare_ok (sources e) (attached e) (prepare_q e)"
    "exit_ok (sources e) (attached e) (exit_q e)" "clock_ok (sources e) (clocks e c) (members e c)"
    "small (attached e)" "small (members e c)" "small {s \<in> attached e. pending (sources e s)}" "small {s \<in> attached e. has_prepare (sources e s)}"
    "s \<in> attached e \<Longrightarrow> source_ok e s"
    "signals e p = Some sd \<Longrightarrow> 0 \<le> signal_fd sd" "n_pending e d = card (inotify_pending e d)"
    "online_children e = card (children_online e)"
  using assms by (auto simp: loop_ok_def queues_ok_def books_ok_def members_def intro: small_subset)

lemma source_okD:
  assumes "source_ok e s"
  shows "limit_set (sources e s)" "ratelimited (sources e s) \<Longrightarrow> event_source_can_rate_limit (src_type (sources e s))"
    "src_type (sources e s) \<noteq> SOURCE_WATCHDOG" "src_type (sources e s) = SOURCE_INOTIFY \<Longrightarrow> inotify_of e s \<noteq> None"
  using assms by (auto simp: source_ok_def)

text \<open>Queues of sources that have not changed, or not in what the queue orders by.\<close>

lemma pending_ok_ranks:
  assumes "pending_ok \<sigma> A q" "\<And>x. x \<in> A \<Longrightarrow> pending (\<tau> x) = pending (\<sigma> x)"
    "\<And>x. x \<in> A \<Longrightarrow> pending (\<sigma> x) \<Longrightarrow> pending_rank \<tau> x = pending_rank \<sigma> x"
  shows "pending_ok \<tau> A q"
proof -
  have "{s \<in> A. pending (\<tau> s)} = {s \<in> A. pending (\<sigma> s)}" using assms(2) by auto
  then show ?thesis
    using assms queue_of_cong [of "pending_rank \<sigma>" "\<lambda>s. pending (\<sigma> s)" q "{s \<in> A. pending (\<sigma> s)}" "pending_rank \<tau>" "\<lambda>s. pending (\<tau> s)"]
    by (simp add: pending_ok_def)
qed

lemma prepare_ok_ranks:
  assumes "prepare_ok \<sigma> A q" "\<And>x. x \<in> A \<Longrightarrow> has_prepare (\<tau> x) = has_prepare (\<sigma> x)"
    "\<And>x. x \<in> A \<Longrightarrow> has_prepare (\<sigma> x) \<Longrightarrow> prepare_rank \<tau> x = prepare_rank \<sigma> x"
  shows "prepare_ok \<tau> A q"
proof -
  have "{s \<in> A. has_prepare (\<tau> s)} = {s \<in> A. has_prepare (\<sigma> s)}" using assms(2) by auto
  then show ?thesis
    using assms queue_of_cong [of "prepare_rank \<sigma>" "\<lambda>s. has_prepare (\<sigma> s)" q "{s \<in> A. has_prepare (\<sigma> s)}" "prepare_rank \<tau>" "\<lambda>s. has_prepare (\<tau> s)"]
    by (simp add: prepare_ok_def)
qed

lemma exit_ok_ranks:
  assumes "exit_ok \<sigma> A q" "\<And>x. x \<in> A \<Longrightarrow> src_type (\<tau> x) = src_type (\<sigma> x)"
    "\<And>x. x \<in> A \<Longrightarrow> src_type (\<sigma> x) = SOURCE_EXIT \<Longrightarrow> exit_rank \<tau> x = exit_rank \<sigma> x"
  shows "exit_ok \<tau> A q"
proof -
  have "{s \<in> A. src_type (\<tau> s) = SOURCE_EXIT} = {s \<in> A. src_type (\<sigma> s) = SOURCE_EXIT}" using assms(2) by auto
  then show ?thesis
    using assms(1,2,3) queue_of_cong [of "exit_rank \<sigma>" "\<lambda>s. src_type (\<sigma> s) = SOURCE_EXIT" q "{s \<in> A. src_type (\<sigma> s) = SOURCE_EXIT}"
        "exit_rank \<tau>" "\<lambda>s. src_type (\<tau> s) = SOURCE_EXIT"]
    by (simp add: exit_ok_def)
qed

lemma clock_ok_ranks:
  assumes "clock_ok \<sigma> d M" "earliest_q d' = earliest_q d" "latest_q d' = latest_q d" "timer_fd d' = timer_fd d"
    "\<And>s. s \<in> M \<Longrightarrow> earliest_rank \<tau> s = earliest_rank \<sigma> s \<and> latest_rank \<tau> s = latest_rank \<sigma> s \<and>
      (limit_set (\<sigma> s) \<longrightarrow> limit_set (\<tau> s)) \<and> src_type (\<tau> s) = src_type (\<sigma> s)"
  shows "clock_ok \<tau> d' M"
  using assms queue_of_cong [of "earliest_rank \<sigma>" "\<lambda>s. limit_set (\<sigma> s)" "earliest_q d" M "earliest_rank \<tau>" "\<lambda>s. limit_set (\<tau> s)"]
    queue_of_cong [of "latest_rank \<sigma>" "\<lambda>s. limit_set (\<sigma> s)" "latest_q d" M "latest_rank \<tau>" "\<lambda>s. limit_set (\<tau> s)"]
  by (simp add: clock_ok_def created_def)

lemma clock_ok_cong:
  assumes "clock_ok \<sigma> d M" "\<And>s. s \<in> M \<Longrightarrow> \<tau> s = \<sigma> s"
  shows "clock_ok \<tau> d M"
  by (rule clock_ok_ranks [OF assms(1)]) (use assms(2) rank_cong [of \<tau> _ \<sigma>] in simp_all)

lemma clock_ok_other:
  assumes "clock_ok \<sigma> d M" "s \<notin> M" "\<And>x. x \<noteq> s \<Longrightarrow> \<tau> x = \<sigma> x"
  shows "clock_ok \<tau> d M"
  by (rule clock_ok_cong [OF assms(1)]) (use assms(2,3) in metis)

lemma clock_okD:
  assumes "clock_ok \<sigma> d M"
  shows "queue_of (earliest_rank \<sigma>) (\<lambda>s. limit_set (\<sigma> s)) (earliest_q d) M" "queue_of (latest_rank \<sigma>) (\<lambda>s. limit_set (\<sigma> s)) (latest_q d) M"
    "s \<in> M \<Longrightarrow> event_source_uses_time_prioq (src_type (\<sigma> s))" "created d \<Longrightarrow> 0 \<le> timer_fd d" "s \<in> M \<Longrightarrow> limit_set (\<sigma> s)"
    "M \<noteq> {} \<Longrightarrow> created d" "finite M"
proof -
  have q: "queue_of (earliest_rank \<sigma>) (\<lambda>s. limit_set (\<sigma> s)) (earliest_q d) M" "queue_of (latest_rank \<sigma>) (\<lambda>s. limit_set (\<sigma> s)) (latest_q d) M"
    using assms by (simp_all add: clock_ok_def)
  show "s \<in> M \<Longrightarrow> limit_set (\<sigma> s)" using queue_of_valid [OF q(1)] .
  show "M \<noteq> {} \<Longrightarrow> created d" using q by (auto simp: queue_of_def created_def split: option.splits)
  show "finite M" using queue_of_finite [OF q(1)] .
qed (use assms in \<open>simp_all add: clock_ok_def\<close>)

lemma queue_of_forget:
  assumes "queue_of r v q M" "s \<notin> M"
  shows "queue_of r v (map_option (forget_index s) q) M"
proof (cases q)
  case (Some p)
  then have p: "ordered_queue r v p" "holds id p M" using assms(1) by (simp_all add: queue_of_def)
  have "idx (items p ! i) \<noteq> Some s" if "i < n_items p" for i using holds_at [OF p(2) that] assms(2) by auto
  then have "idx_ok (forget_index s p)"
    using p(1) by (auto simp: ordered_queue_def sound_queue_def idx_ok_def idx_is_def forget_index_def n_items_def split: option.splits)
  then have "ordered_queue r v (forget_index s p)"
    using p(1) by (simp add: ordered_queue_def sound_queue_def forget_index_def n_items_def rank_at_def heap_on_def)
  then show ?thesis using p(2) Some by (simp add: queue_of_def holds_def forget_index_def)
qed (use assms in \<open>simp add: queue_of_def\<close>)

lemma with_clock_simps [simp]:
  "sources (with_clock c f e) = sources e" "clocks (with_clock c f e) = (clocks e)(c := f (clocks e c))"
  "attached (with_clock c f e) = attached e" "pending_q (with_clock c f e) = pending_q e"
  "prepare_q (with_clock c f e) = prepare_q e" "exit_q (with_clock c f e) = exit_q e" "iteration (with_clock c f e) = iteration e"
  "state (with_clock c f e) = state e" "exit_requested (with_clock c f e) = exit_requested e"
  "exit_code (with_clock c f e) = exit_code e" "pid_changed (with_clock c f e) = pid_changed e"
  "perturb (with_clock c f e) = perturb e" "signal_sources (with_clock c f e) = signal_sources e"
  "signals (with_clock c f e) = signals e" "online_children (with_clock c f e) = online_children e"
  "need_process_child (with_clock c f e) = need_process_child e" "post_sources (with_clock c f e) = post_sources e" "inotify_of (with_clock c f e) = inotify_of e"
  "n_pending (with_clock c f e) = n_pending e"
  by (simp_all add: with_clock_def)

lemma with_source_simps [simp]:
  "sources (with_source s f e) = (sources e)(s := f (sources e s))" "clocks (with_source s f e) = clocks e"
  "attached (with_source s f e) = attached e" "pending_q (with_source s f e) = pending_q e"
  "prepare_q (with_source s f e) = prepare_q e" "exit_q (with_source s f e) = exit_q e"
  "iteration (with_source s f e) = iteration e" "state (with_source s f e) = state e"
  "exit_requested (with_source s f e) = exit_requested e" "exit_code (with_source s f e) = exit_code e"
  "pid_changed (with_source s f e) = pid_changed e" "perturb (with_source s f e) = perturb e"
  "signal_sources (with_source s f e) = signal_sources e" "signals (with_source s f e) = signals e"
  "online_children (with_source s f e) = online_children e" "post_sources (with_source s f e) = post_sources e"
  "need_process_child (with_source s f e) = need_process_child e" "inotify_of (with_source s f e) = inotify_of e" "n_pending (with_source s f e) = n_pending e"
  by (simp_all add: with_source_def)

lemma with_source_sources [simp]: "with_source s f e\<lparr>sources := \<tau>\<rparr> = e\<lparr>sources := \<tau>\<rparr>"
  by (simp add: with_source_def)

lemma loop_same [simp]: "e\<lparr>clocks := clocks e\<rparr> = e" "e\<lparr>pending_q := pending_q e\<rparr> = e" "e\<lparr>prepare_q := prepare_q e\<rparr> = e"
  "e\<lparr>exit_q := exit_q e\<rparr> = e" "e\<lparr>signals := signals e\<rparr> = e" "e\<lparr>online_children := online_children e\<rparr> = e"
  "e\<lparr>n_pending := n_pending e\<rparr> = e" "e\<lparr>sources := sources e\<rparr> = e"
  by (cases e, simp)+

section \<open>Joining and leaving a clock\<close>

text \<open>\<open>room d M\<close>: both queues of the clock can take one more source than \<open>M\<close> without memory.\<close>

definition room :: "clock_data \<Rightarrow> nat set \<Rightarrow> bool" where
  "room d M \<longleftrightarrow> (\<forall>q. earliest_q d = Some q \<or> latest_q d = Some q \<longrightarrow> card M < n_allocated q)"


text \<open>A source joins a clock, or memory is short and both queues hold what they did.\<close>

lemma time_prioq_put_ok:
  assumes "clock_ok (sources e) (clocks e c) M" "created (clocks e c)" "s \<notin> M" "small M" "limit_set (sources e s)"
    "event_source_uses_time_prioq (src_type (sources e s))"
  shows "\<exists>r d. event_source_time_prioq_put ok1 ok2 s c e = Inr (r, with_clock c (\<lambda>_. d) e) \<and> created d \<and>
    (r = 0 \<and> clock_ok (sources e) d (insert s M) \<or>
     r = - ENOMEM \<and> \<not> (ok1 \<and> ok2) \<and> \<not> room (clocks e c) M \<and> clock_ok (sources e) d M)"
proof -
  let ?\<sigma> = "sources e" and ?d = "clocks e c"
  obtain qe ql where some: "earliest_q ?d = Some qe" "latest_q ?d = Some ql" using assms(2) by (auto simp: created_def)
  note q = clock_okD(1,2) [OF assms(1), unfolded some]
  note def = event_source_time_prioq_put_def Let_def queue_def with_clock_def assms(6) some
  have fd: "0 \<le> timer_fd ?d" "\<forall>x \<in> insert s M. event_source_uses_time_prioq (src_type (?\<sigma> x))"
    using clock_okD(3,4) [OF assms(1)] assms(2,6) by auto
  show ?thesis
  proof (rule earliest.puts [OF q(1) assms(3,5) small_card [OF assms(4)], of ok1])
    assume no_memory: "prioq_put (earliest_time_prioq_compare ?\<sigma>) ok1 s (Some s) qe = Inr (- ENOMEM, qe)" "\<not> ok1" "n_allocated qe \<le> card M"
    have "event_source_time_prioq_put ok1 ok2 s c e = Inr (- ENOMEM, with_clock c (\<lambda>_. ?d\<lparr>earliest_q := Some qe\<rparr>) e)"
      using no_memory(1) by (simp add: def ENOMEM_def)
    moreover have "?d\<lparr>earliest_q := Some qe\<rparr> = ?d" using some(1) by simp
    ultimately show ?thesis using no_memory(2,3) assms(1,2) some by (fastforce simp: room_def)
  next
    fix qe' assume put: "prioq_put (earliest_time_prioq_compare ?\<sigma>) ok1 s (Some s) qe = Inr (0, qe')"
      "queue_of (earliest_rank ?\<sigma>) (\<lambda>s. limit_set (?\<sigma> s)) (Some qe') (insert s M)"
    show ?thesis
    proof (rule latest.puts [OF q(2) assms(3,5) small_card [OF assms(4)], of ok2])
      assume no_memory: "prioq_put (latest_time_prioq_compare ?\<sigma>) ok2 s (Some s) ql = Inr (- ENOMEM, ql)" "\<not> ok2" "n_allocated ql \<le> card M"
      have "card (insert s M) \<le> PRIOQ_IDX_NULL" using assms(3,4) by (simp add: small_def PRIOQ_IDX_NULL_def)
      then obtain qe2 where r: "prioq_remove (earliest_time_prioq_compare ?\<sigma>) s (Some s) (Some qe') = Inr (1, Some qe2)"
        "queue_of (earliest_rank ?\<sigma>) (\<lambda>s. limit_set (?\<sigma> s)) (Some qe2) (insert s M - {s})"
        using earliest.removes [OF put(2), of s ?\<sigma>] by blast
      let ?d' = "?d\<lparr>earliest_q := Some (forget_index s qe2), latest_q := Some ql\<rparr>"
      have "event_source_time_prioq_put ok1 ok2 s c e = Inr (- ENOMEM, with_clock c (\<lambda>_. ?d') e)"
        using put(1) no_memory(1) r(1) by (simp add: def ENOMEM_def)
      moreover have "clock_ok ?\<sigma> ?d' M"
        using queue_of_forget [OF r(2), of s] q(2) assms(3) fd by (simp add: clock_ok_def)
      ultimately show ?thesis using no_memory(2,3) some by (fastforce simp: room_def created_def)
    next
      fix ql' assume put': "prioq_put (latest_time_prioq_compare ?\<sigma>) ok2 s (Some s) ql = Inr (0, ql')"
        "queue_of (latest_rank ?\<sigma>) (\<lambda>s. limit_set (?\<sigma> s)) (Some ql') (insert s M)"
      let ?d' = "?d\<lparr>earliest_q := Some qe', latest_q := Some ql', needs_rearm := True\<rparr>"
      have "event_source_time_prioq_put ok1 ok2 s c e = Inr (0, with_clock c (\<lambda>_. ?d') e)"
        using put(1) put'(1) by (simp add: def)
      moreover have "clock_ok ?\<sigma> ?d' (insert s M)" using put(2) put'(2) fd by (simp add: clock_ok_def)
      ultimately show ?thesis by (auto simp: created_def)
    qed
  qed
qed

text \<open>A source leaves a clock; its fields may have changed since it joined.\<close>

lemma time_prioq_remove_ok:
  assumes "clock_ok \<sigma> (clocks e c) M" "small M" "s \<in> M" "\<And>x. x \<noteq> s \<Longrightarrow> sources e x = \<sigma> x"
  shows "\<exists>d. event_source_time_prioq_remove s c e = Inr (with_clock c (\<lambda>_. d) e) \<and> clock_ok (sources e) d (M - {s}) \<and>
    created d \<and> room d (M - {s})"
proof -
  let ?d = "clocks e c"
  note q = clock_okD [OF assms(1)]
  have keeps: "earliest_rank (sources e) x = earliest_rank \<sigma> x \<and> (limit_set (\<sigma> x) \<longrightarrow> limit_set (sources e x))"
    "latest_rank (sources e) x = latest_rank \<sigma> x \<and> (limit_set (\<sigma> x) \<longrightarrow> limit_set (sources e x))" if "x \<in> M" "x \<noteq> s" for x
    using rank_cong [of "sources e" x \<sigma>] assms(4) [OF that(2)] by simp_all
  obtain qe' where e: "prioq_remove (earliest_time_prioq_compare (sources e)) s (Some s) (earliest_q ?d) = Inr (1, Some qe')"
    "queue_of (earliest_rank (sources e)) (\<lambda>s. limit_set (sources e s)) (Some qe') (M - {s})" "card (M - {s}) < n_allocated qe'"
    by (rule earliest.removes [OF q(1) assms(3) small_index [OF assms(2)] keeps(1)])
  obtain ql' where l: "prioq_remove (latest_time_prioq_compare (sources e)) s (Some s) (latest_q ?d) = Inr (1, Some ql')"
    "queue_of (latest_rank (sources e)) (\<lambda>s. limit_set (sources e s)) (Some ql') (M - {s})" "card (M - {s}) < n_allocated ql'"
    by (rule latest.removes [OF q(2) assms(3) small_index [OF assms(2)] keeps(2)])
  let ?d' = "?d\<lparr>earliest_q := Some (forget_index s qe'), latest_q := Some (forget_index s ql'), needs_rearm := True\<rparr>"
  have "event_source_time_prioq_remove s c e = Inr (with_clock c (\<lambda>_. ?d') e)"
    using e(1) l(1) by (simp add: event_source_time_prioq_remove_def with_clock_def)
  moreover have "clock_ok (sources e) ?d' (M - {s})"
    using queue_of_forget [OF e(2), of s] queue_of_forget [OF l(2), of s] q(3,4,6) assms(3,4) by (auto simp: clock_ok_def)
  moreover have "created ?d'" "room ?d' (M - {s})" using e(3) l(3) by (auto simp: created_def room_def forget_index_def)
  ultimately show ?thesis by blast
qed

text \<open>A source that has changed is put in its place.\<close>

lemma clock_reshuffle_ok:
  assumes "clock_ok \<sigma> (clocks e c) M" "small M" "s \<in> M" "\<And>x. x \<noteq> s \<Longrightarrow> sources e x = \<sigma> x"
    "limit_set (sources e s)" "event_source_uses_time_prioq (src_type (sources e s))"
  shows "\<exists>d. clock_reshuffle s c e = Inr (with_clock c (\<lambda>_. d) e) \<and> clock_ok (sources e) d M"
proof -
  let ?d = "clocks e c"
  have "created ?d" "0 \<le> timer_fd ?d" using clock_okD(4,6) [OF assms(1)] assms(3) by blast+
  then obtain qe ql where some: "earliest_q ?d = Some qe" "latest_q ?d = Some ql" by (auto simp: created_def)
  note q = clock_okD [OF assms(1), unfolded some]
  have keeps: "earliest_rank (sources e) x = earliest_rank \<sigma> x \<and> (limit_set (\<sigma> x) \<longrightarrow> limit_set (sources e x))"
    "latest_rank (sources e) x = latest_rank \<sigma> x \<and> (limit_set (\<sigma> x) \<longrightarrow> limit_set (sources e x))" if "x \<in> M" "x \<noteq> s" for x
    using rank_cong [of "sources e" x \<sigma>] assms(4) [OF that(2)] by simp_all
  obtain qe' where e: "prioq_reshuffle (earliest_time_prioq_compare (sources e)) s (Some s) qe = Inr qe'"
    "queue_of (earliest_rank (sources e)) (\<lambda>s. limit_set (sources e s)) (Some qe') M"
    by (rule earliest.reshuffles [OF q(1) assms(3) small_index [OF assms(2)] keeps(1) assms(5)])
  obtain ql' where l: "prioq_reshuffle (latest_time_prioq_compare (sources e)) s (Some s) ql = Inr ql'"
    "queue_of (latest_rank (sources e)) (\<lambda>s. limit_set (sources e s)) (Some ql') M"
    by (rule latest.reshuffles [OF q(2) assms(3) small_index [OF assms(2)] keeps(2) assms(5)])
  let ?d' = "?d\<lparr>earliest_q := Some qe', latest_q := Some ql', needs_rearm := True\<rparr>"
  have "clock_reshuffle s c e = Inr (with_clock c (\<lambda>_. ?d') e)"
    using e(1) l(1) some by (simp add: clock_reshuffle_def with_clock_def queue_def)
  moreover have "event_source_uses_time_prioq (src_type (sources e x))" if "x \<in> M" for x
    using that q(3) assms(4,6) by (cases "x = s") auto
  then have "clock_ok (sources e) ?d' M" using e(2) l(2) \<open>0 \<le> timer_fd ?d\<close> by (simp add: clock_ok_def)
  ultimately show ?thesis by blast
qed

text \<open>
  All clocks at once: \<open>T\<close> gives the sources of each. A changed source that is in the clock it belongs to
  is put in its place there.
\<close>

lemma uses_time_prioq: "event_source_is_time t \<Longrightarrow> event_source_can_rate_limit t"
  by (auto simp: event_source_is_time_def event_source_can_rate_limit_def)

lemma time_has_clock: "event_source_is_time t \<longleftrightarrow> event_get_clock t \<noteq> None"
  by (cases t) (auto simp: event_source_is_time_def event_get_clock_def)

lemma reshuffle_by_clock:
  "event_source_time_prioq_reshuffle s e = (case clock_of (sources e s) of None \<Rightarrow> Inr e | Some c \<Rightarrow> clock_reshuffle s c e)"
  by (auto simp: event_source_time_prioq_reshuffle_def clock_of_def Let_def time_has_clock split: option.splits)

lemma time_reshuffle_ok:
  assumes "\<And>c. clock_ok \<sigma> (clocks e c) (T c)" "\<And>c. small (T c)" "\<And>c. s \<in> T c \<longleftrightarrow> clock_of (sources e s) = Some c"
    "\<And>x. x \<noteq> s \<Longrightarrow> sources e x = \<sigma> x" "limit_set (sources e s)"
    "ratelimited (sources e s) \<Longrightarrow> event_source_can_rate_limit (src_type (sources e s))"
  shows "\<exists>C. event_source_time_prioq_reshuffle s e = Inr (e\<lparr>clocks := C\<rparr>) \<and> (\<forall>c. clock_ok (sources e) (C c) (T c)) \<and>
    (\<forall>c. created (clocks e c) \<longrightarrow> created (C c))"
proof (cases "clock_of (sources e s)")
  case None
  then have "event_source_time_prioq_reshuffle s e = Inr (e\<lparr>clocks := clocks e\<rparr>)" by (simp add: reshuffle_by_clock)
  moreover have "clock_ok (sources e) (clocks e c) (T c)" for c
    by (rule clock_ok_other [OF assms(1), of s]) (simp_all add: assms(3,4) None)
  ultimately show ?thesis by blast
next
  case (Some c)
  have "event_source_uses_time_prioq (src_type (sources e s))"
    using Some assms(6) uses_time_prioq time_has_clock by (auto simp: clock_of_def split: if_splits)
  then obtain d where d: "clock_reshuffle s c e = Inr (with_clock c (\<lambda>_. d) e)" "clock_ok (sources e) d (T c)"
    using clock_reshuffle_ok [OF assms(1,2) _ assms(4,5)] assms(3) Some by blast
  have "clock_ok (sources e) (clocks e c') (T c')" if "c' \<noteq> c" for c'
    by (rule clock_ok_other [OF assms(1), of s]) (use assms(3,4) Some that in simp_all)
  then have "\<forall>c'. clock_ok (sources e) (((clocks e)(c := d)) c') (T c')" using d(2) by simp
  moreover have "created d" using clock_okD(6) [OF d(2)] assms(3) Some by blast
  ultimately show ?thesis
    using d(1) Some by (intro exI [of _ "(clocks e)(c := d)"]) (simp add: reshuffle_by_clock with_clock_def)
qed

section \<open>Becoming pending\<close>

definition marked :: "bool \<Rightarrow> nat \<Rightarrow> event_source \<Rightarrow> event_source" where \<comment> \<open>a source after \<open>source_set_pending\<close>\<close>
  "marked b k x = (if pending x = b then x else if b then x\<lparr>pending := True, pending_iteration := k\<rparr> else x\<lparr>pending := False\<rparr>)"

text \<open>What the operations on the queues leave alone.\<close>

definition same_loop :: "event_loop \<Rightarrow> event_loop \<Rightarrow> bool" where
  "same_loop e e' \<longleftrightarrow> attached e' = attached e \<and> iteration e' = iteration e \<and> state e' = state e \<and> exit_requested e' = exit_requested e \<and>
     exit_code e' = exit_code e \<and> pid_changed e' = pid_changed e \<and> perturb e' = perturb e \<and> signal_sources e' = signal_sources e \<and>
     need_process_child e' = need_process_child e \<and> post_sources e' = post_sources e \<and> inotify_of e' = inotify_of e \<and>
     (\<forall>c. created (clocks e c) \<longrightarrow> created (clocks e' c))"

lemma same_loop_refl [simp]: "same_loop e e"
  by (simp add: same_loop_def)

lemma same_loop_trans [trans]: "same_loop e e1 \<Longrightarrow> same_loop e1 e2 \<Longrightarrow> same_loop e e2"
  by (simp add: same_loop_def)

lemma same_loopD:
  assumes "same_loop e e'"
  shows "attached e' = attached e" "iteration e' = iteration e" "state e' = state e" "pid_changed e' = pid_changed e"
    "signal_sources e' = signal_sources e" "inotify_of e' = inotify_of e" "exit_requested e' = exit_requested e" "exit_code e' = exit_code e"
    "perturb e' = perturb e" "post_sources e' = post_sources e" "need_process_child e' = need_process_child e"
  using assms by (simp_all add: same_loop_def)

lemma marked_simps [simp]:
  "pending (marked b k x) = b" "src_type (marked b k x) = src_type x" "enabled (marked b k x) = enabled x" "ratelimited (marked b k x) = ratelimited x"
  "priority (marked b k x) = priority x" "has_prepare (marked b k x) = has_prepare x" "prepare_iteration (marked b k x) = prepare_iteration x"
  "rate (marked b k x) = rate x" "time_next (marked b k x) = time_next x" "time_accuracy (marked b k x) = time_accuracy x"
  by (simp_all add: marked_def)

lemma pending_put_ok:
  assumes "pending_ok \<sigma> A (pending_q e)" "small {x \<in> A. pending (\<sigma> x)}" "s \<in> A" "\<not> pending (\<sigma> s)"
    "sources e = \<sigma>(s := (\<sigma> s)\<lparr>pending := True\<rparr>)"
  shows "(\<exists>q. pending_put ok s e = Inr (0, e\<lparr>sources := \<sigma>(s := marked True (iteration e) (\<sigma> s)), pending_q := q\<rparr>) \<and>
      pending_ok (\<sigma>(s := marked True (iteration e) (\<sigma> s))) A q) \<or>
    \<not> ok \<and> pending_put ok s e = Inr (- ENOMEM, e\<lparr>sources := \<sigma>(s := (\<sigma> s)\<lparr>pending_iteration := iteration e\<rparr>)\<rparr>)"
proof -
  let ?P = "{x \<in> A. pending (\<sigma> x)}" and ?\<sigma> = "\<sigma>(s := marked True (iteration e) (\<sigma> s))"
    and ?\<tau> = "\<sigma>(s := (\<sigma> s)\<lparr>pending_iteration := iteration e\<rparr>)"
  obtain p where p: "pending_q e = Some p" "queue_of (pending_rank \<sigma>) (\<lambda>s. pending (\<sigma> s)) (Some p) ?P"
    using assms(1) by (auto simp: pending_ok_def)
  have P: "{x \<in> A. pending (?\<sigma> x)} = insert s ?P" using assms(3) by auto
  have o: "queue_of (pending_rank ?\<sigma>) (\<lambda>s. pending (?\<sigma> s)) (Some p) ?P"
    by (rule queue_of_cong [OF p(2)]) (use assms(4) in \<open>auto simp: pending_rank_def\<close>)
  have m: "s \<notin> ?P" "pending (?\<sigma> s)" using assms(4) by auto
  have e: "with_source s (\<lambda>x. x\<lparr>pending_iteration := iteration e\<rparr>) e = e\<lparr>sources := ?\<sigma>\<rparr>"
    using assms(4,5) by (simp add: with_source_def marked_def)
  have off: "with_source s (\<lambda>x. x\<lparr>pending := False\<rparr>) (e\<lparr>sources := ?\<sigma>, pending_q := Some q\<rparr>) = e\<lparr>sources := ?\<tau>, pending_q := Some q\<rparr>" for q
    using assms(4) by (cases e; cases "\<sigma> s") (simp add: with_source_def marked_def)
  have run: "pending_put ok s e = rbind (prioq_put (pending_prioq_compare ?\<sigma>) ok s (Some s) p) (\<lambda>(r, q).
      if r < 0 then Inr (r, e\<lparr>sources := ?\<tau>, pending_q := Some q\<rparr>) else Inr (0, e\<lparr>sources := ?\<sigma>, pending_q := Some q\<rparr>))"
    unfolding pending_put_def Let_def e by (simp add: queue_def p(1) off cong: if_cong)
  show ?thesis
  proof (rule pendings.puts [OF o m small_card [OF assms(2)], of ok])
    assume "prioq_put (pending_prioq_compare ?\<sigma>) ok s (Some s) p = Inr (- ENOMEM, p)" "\<not> ok"
    moreover have "e\<lparr>sources := ?\<tau>, pending_q := Some p\<rparr> = e\<lparr>sources := ?\<tau>\<rparr>" using p(1) by (cases e) simp
    ultimately show ?thesis unfolding run by (simp add: ENOMEM_def)
  next
    fix p' assume put: "prioq_put (pending_prioq_compare ?\<sigma>) ok s (Some s) p = Inr (0, p')"
      "queue_of (pending_rank ?\<sigma>) (\<lambda>s. pending (?\<sigma> s)) (Some p') (insert s ?P)"
    have "pending_put ok s e = Inr (0, e\<lparr>sources := ?\<sigma>, pending_q := Some p'\<rparr>)" "pending_ok ?\<sigma> A (Some p')"
      using put unfolding run pending_ok_def P by simp_all
    then show ?thesis by blast
  qed
qed

lemma pending_remove_ok:
  assumes "pending_ok \<sigma> A (pending_q e)" "small {x \<in> A. pending (\<sigma> x)}" "s \<in> A" "pending (\<sigma> s)" "sources e = \<sigma>(s := x)" "\<not> pending x"
  shows "\<exists>q. pending_remove s e = Inr (0, e\<lparr>pending_q := q\<rparr>) \<and> pending_ok (sources e) A q"
proof -
  let ?P = "{x \<in> A. pending (\<sigma> x)}"
  have q: "queue_of (pending_rank \<sigma>) (\<lambda>s. pending (\<sigma> s)) (pending_q e) ?P" using assms(1) by (simp add: pending_ok_def)
  have P: "{x \<in> A. pending (sources e x)} = ?P - {s}" using assms(5,6) by auto
  have "s \<in> ?P" using assms(3,4) by simp
  then show ?thesis
  proof (rule pendings.removes [OF q _ small_index [OF assms(2)], where \<sigma> = "sources e"])
    fix x assume "x \<in> ?P" "x \<noteq> s"
    then show "pending_rank (sources e) x = pending_rank \<sigma> x \<and> (pending (\<sigma> x) \<longrightarrow> pending (sources e x))"
      using assms(5) by (simp add: pending_rank_def)
  next
    fix q' assume "prioq_remove (pending_prioq_compare (sources e)) s (Some s) (pending_q e) = Inr (1, Some q')"
      "queue_of (pending_rank (sources e)) (\<lambda>s. pending (sources e s)) (Some q') (?P - {s})"
    then have "pending_remove s e = Inr (0, e\<lparr>pending_q := Some q'\<rparr>)" "pending_ok (sources e) A (Some q')"
      unfolding pending_ok_def P by (simp_all add: pending_remove_def)
    then show ?thesis by blast
  qed
qed

text \<open>The time queues: only those of timers are affected, and their source is put in its place.\<close>

lemma pending_reshuffle_ok:
  assumes "loop_ok e" "s \<in> attached e" "x = marked b k (sources e s) \<or> x = (sources e s)\<lparr>pending_iteration := k\<rparr>"
    and \<sigma>: "sources e1 = (sources e)(s := x)" and c: "clocks e1 = clocks e"
  shows "\<exists>C. (if event_source_is_time (src_type (sources e s)) then event_source_time_prioq_reshuffle s e1 else Inr e1) = Inr (e1\<lparr>clocks := C\<rparr>) \<and>
    (\<forall>c. clock_ok (sources e1) (C c) (members e c)) \<and> (\<forall>c. created (clocks e c) \<longrightarrow> created (C c))"
proof (cases "event_source_is_time (src_type (sources e s))")
  case True
  note s = source_okD [OF loop_okD(11) [OF assms(1,2)]]
  have x: "clock_of x = clock_of (sources e s)" "limit_set x" "ratelimited x \<Longrightarrow> event_source_can_rate_limit (src_type x)"
    using assms(3) s(1,2) by (auto simp: clock_of_def limit_set_def)
  have "s \<in> members e c \<longleftrightarrow> clock_of (sources e1 s) = Some c" for c using assms(2) x(1) \<sigma> by (simp add: members_def)
  then show ?thesis
    using time_reshuffle_ok [of "sources e" e1 "members e" s] loop_okD(6,8) [OF assms(1)] x(2,3) \<sigma> c True by auto
next
  case False
  have "clock_ok (sources e1) (clocks e c) (members e c)" for c
  proof (rule clock_ok_ranks [OF loop_okD(6) [OF assms(1)]])
    fix y assume "y \<in> members e c"
    then have "y = s \<Longrightarrow> ratelimited (sources e s)" using False by (auto simp: members_def clock_of_def time_has_clock split: if_splits)
    then show "earliest_rank (sources e1) y = earliest_rank (sources e) y \<and> latest_rank (sources e1) y = latest_rank (sources e) y \<and>
      (limit_set (sources e y) \<longrightarrow> limit_set (sources e1 y)) \<and> src_type (sources e1 y) = src_type (sources e y)"
      using assms(3) \<sigma> by (auto simp: earliest_rank_def latest_rank_def event_source_timer_candidate_def next_time_def latest_time_def limit_set_def)
  qed simp_all
  moreover have "e1\<lparr>clocks := clocks e\<rparr> = e1" using c by (cases e1) simp
  ultimately show ?thesis using False by (intro exI [of _ "clocks e"]) (simp add: c)
qed

lemma signal_not_current_ok:
  assumes "\<forall>p d. signals e p = Some d \<longrightarrow> 0 \<le> signal_fd d"
  obtains S where "(if P then signal_not_current s e else e) = e\<lparr>signals := S\<rparr>" "\<forall>p d. S p = Some d \<longrightarrow> 0 \<le> signal_fd d"
proof -
  define S where "S = (case signals e (priority (sources e s)) of
      Some d \<Rightarrow> if P \<and> current d = Some s then (signals e)(priority (sources e s) \<mapsto> d\<lparr>current := None\<rparr>) else signals e | None \<Rightarrow> signals e)"
  have "(if P then signal_not_current s e else e) = e\<lparr>signals := S\<rparr>"
    by (cases e) (simp add: signal_not_current_def S_def split: option.split)
  moreover have "\<forall>p d. S p = Some d \<longrightarrow> 0 \<le> signal_fd d"
    using assms by (auto simp: S_def split: option.split)
  ultimately show ?thesis using that by blast
qed

text \<open>The sources of an inotify object that are pending, when one source changes.\<close>

lemma inotify_count_ok:
  assumes "s \<in> attached e" "src_type (sources e s) = SOURCE_INOTIFY" "source_ok e s" "pending (sources e s) \<noteq> b" "finite (attached e)"
    "\<And>d. n_pending e1 d = card (inotify_pending e d)" "inotify_of e1 = inotify_of e"
  shows "\<exists>N. inotify_count b s e1 = Inr (e1\<lparr>n_pending := N\<rparr>) \<and>
    (\<forall>e' d. attached e' = attached e \<and> inotify_of e' = inotify_of e \<and> sources e' = (sources e)(s := marked b k (sources e s)) \<longrightarrow>
      N d = card (inotify_pending e' d))"
proof -
  obtain i where i: "inotify_of e s = Some i" using source_okD(4) [OF assms(3,2)] by blast
  let ?P = "inotify_pending e i"
  have fin: "finite (inotify_pending e d)" for d using assms(5) by (simp add: inotify_pending_def)
  have at: "inotify_pending e' d = (if d \<noteq> i then inotify_pending e d else if b then insert s ?P else ?P - {s})"
    if "attached e' = attached e \<and> inotify_of e' = inotify_of e \<and> sources e' = (sources e)(s := marked b k (sources e s))" for e' d
    using that assms(1,2) i by (auto simp: inotify_pending_def)
  show ?thesis
  proof (cases b)
    case True
    then have "s \<notin> ?P" using assms(4) by (simp add: inotify_pending_def)
    then have "((n_pending e1)(i := n_pending e1 i + 1)) d = card (if d \<noteq> i then inotify_pending e d else insert s ?P)" for d
      using fin assms(6) by simp
    then show ?thesis
      using True i at assms(7) by (intro exI [of _ "(n_pending e1)(i := n_pending e1 i + 1)"]) (simp add: inotify_count_def)
  next
    case False
    then have s: "s \<in> ?P" using assms(1,2,4) i by (simp add: inotify_pending_def)
    then have pos: "0 < n_pending e1 i" using fin [of i] assms(6) card_gt_0_iff by auto
    have "((n_pending e1)(i := n_pending e1 i - 1)) d = card (if d \<noteq> i then inotify_pending e d else ?P - {s})" for d
      using fin s assms(6) by simp
    then show ?thesis
      using False i at assms(7) pos by (intro exI [of _ "(n_pending e1)(i := n_pending e1 i - 1)"]) (simp add: inotify_count_def)
  qed
qed

lemma inotify_pending_same:
  assumes "attached e' = attached e" "inotify_of e' = inotify_of e" "sources e' = (sources e)(s := x)"
    "src_type x = src_type (sources e s)" "src_type x = SOURCE_INOTIFY \<Longrightarrow> pending x = pending (sources e s)"
  shows "inotify_pending e' d = inotify_pending e d"
  using assms by (auto simp: inotify_pending_def split: if_splits)

lemma inotify_part_ok:
  assumes "books_ok e" "s \<in> attached e" "pending (sources e s) \<noteq> b" "n_pending e1 = n_pending e" "inotify_of e1 = inotify_of e"
    "attached e1 = attached e" "sources e1 = (sources e)(s := marked b k (sources e s))"
  obtains N where "(if src_type (sources e s) = SOURCE_INOTIFY then inotify_count b s e1 else Inr e1) = Inr (e1\<lparr>n_pending := N\<rparr>)"
    "\<And>d. N d = card (inotify_pending (e1\<lparr>n_pending := N\<rparr>) d)"
proof (cases "src_type (sources e s) = SOURCE_INOTIFY")
  case True
  have "source_ok e s" "finite (attached e)" "\<And>d. n_pending e1 d = card (inotify_pending e d)"
    using assms(1,2,4) by (auto simp: books_ok_def small_def)
  from inotify_count_ok [OF assms(2) True this(1) assms(3) this(2,3) assms(5), of k]
  obtain N where N: "inotify_count b s e1 = Inr (e1\<lparr>n_pending := N\<rparr>)"
    "\<And>e' d. attached e' = attached e \<and> inotify_of e' = inotify_of e \<and> sources e' = (sources e)(s := marked b k (sources e s)) \<Longrightarrow>
      N d = card (inotify_pending e' d)" by metis
  have "N d = card (inotify_pending (e1\<lparr>n_pending := N\<rparr>) d)" for d by (rule N(2)) (simp add: assms(5-7))
  then show ?thesis using that N(1) True by simp
next
  case False
  have "e1\<lparr>n_pending := n_pending e\<rparr> = e1" using assms(4) by (cases e1) simp
  moreover have "inotify_pending e1 d = inotify_pending e d" for d
    by (rule inotify_pending_same [OF assms(6,5,7)]) (use False in simp_all)
  ultimately show ?thesis using that [of "n_pending e"] False assms(1) by (simp add: books_ok_def)
qed

text \<open>The books after one source has changed in nothing they count, but for what an inotify object counts.\<close>

lemma books_ok_change:
  assumes "books_ok e" "s \<in> attached e" "attached e' = attached e" "inotify_of e' = inotify_of e" "sources e' = (sources e)(s := x)"
    "src_type x = src_type (sources e s)" "has_prepare x \<Longrightarrow> has_prepare (sources e s)" "limit_set x"
    "ratelimited x \<Longrightarrow> event_source_can_rate_limit (src_type x)"
    "src_type x = SOURCE_CHILD \<Longrightarrow> event_source_is_online x = event_source_is_online (sources e s)"
    "\<forall>p d. signals e' p = Some d \<longrightarrow> 0 \<le> signal_fd d" "\<And>d. n_pending e' d = card (inotify_pending e' d)" "online_children e' = online_children e"
  shows "books_ok e'"
proof -
  have "children_online e' = children_online e" using assms(2,3,5,6,10) by (auto simp: children_online_def)
  moreover have "source_ok e' y" if "y \<in> attached e" for y
    using that assms(1,4,5,6,8,9) by (cases "y = s") (auto simp: source_ok_def books_ok_def)
  ultimately show ?thesis using assms by (auto simp: books_ok_def split: if_splits)
qed

text \<open>A source may differ from what it was only in being pending and in its time: then the other queues are in order still.\<close>

definition alike :: "event_source \<Rightarrow> event_source \<Rightarrow> bool" where
  "alike x y \<longleftrightarrow> (\<exists>b k t a. x = y\<lparr>pending := b, pending_iteration := k, time_next := t, time_accuracy := a\<rparr>)"

lemma alike_fields:
  assumes "alike x y"
  shows "src_type x = src_type y" "enabled x = enabled y" "ratelimited x = ratelimited y" "has_prepare x = has_prepare y" "rate x = rate y"
    "priority x = priority y" "prepare_iteration x = prepare_iteration y"
  using assms by (auto simp: alike_def)

lemma marked_alike: "alike (marked b k x) x" "alike (x\<lparr>pending_iteration := k\<rparr>) x"
proof -
  have "marked b k x = x\<lparr>pending := b, pending_iteration := if b \<and> \<not> pending x then k else pending_iteration x,
      time_next := time_next x, time_accuracy := time_accuracy x\<rparr>"
    by (cases x) (auto simp: marked_def)
  then show "alike (marked b k x) x" unfolding alike_def by blast
  have "x\<lparr>pending_iteration := k\<rparr> = x\<lparr>pending := pending x, pending_iteration := k, time_next := time_next x, time_accuracy := time_accuracy x\<rparr>"
    by (cases x) simp
  then show "alike (x\<lparr>pending_iteration := k\<rparr>) x" unfolding alike_def by blast
qed

lemma alike_loop_ok:
  assumes "loop_ok e" "s \<in> attached e" "sources e' = (sources e)(s := x)" "alike x (sources e s)" "same_loop e e'"
    "prepare_q e' = prepare_q e" "exit_q e' = exit_q e" "online_children e' = online_children e"
    "\<forall>p d. signals e' p = Some d \<longrightarrow> 0 \<le> signal_fd d" "\<And>d. n_pending e' d = card (inotify_pending e' d)"
    "pending_ok (sources e') (attached e) (pending_q e')" "\<And>c. clock_ok (sources e') (clocks e' c) (members e c)"
  shows "loop_ok e'"
proof -
  note l = loop_okD [OF assms(1)] and x = alike_fields [OF assms(4)] and f = same_loopD [OF assms(5)]
  note s = source_okD [OF l(11) [OF assms(2)]]
  have "books_ok e'"
    by (rule books_ok_change [OF l(2) assms(2) f(1,6) assms(3)])
      (use x s(1,2) assms(8-10) in \<open>simp_all add: limit_set_def event_source_is_online_def\<close>)
  moreover have "prepare_ok (sources e') (attached e') (prepare_q e')"
    unfolding assms(3,6) f(1) by (rule prepare_ok_ranks [OF l(4)]) (auto simp: x prepare_rank_def)
  moreover have "exit_ok (sources e') (attached e') (exit_q e')"
    unfolding assms(3,7) f(1) by (rule exit_ok_ranks [OF l(5)]) (auto simp: x exit_rank_def)
  moreover have "members e' c = members e c" for c
    using x f(1) assms(3) by (auto simp: members_def clock_of_def)
  ultimately show ?thesis using assms(11,12) f(1) by (simp add: loop_ok_def queues_ok_def)
qed

text \<open>The first part of \<open>source_set_pending\<close>, and the whole.\<close>

lemma pending_change_ok:
  assumes "loop_ok e" "pending (sources e s) \<noteq> b" "s \<in> attached e"
  defines "e1 \<equiv> with_source s (\<lambda>x. x\<lparr>pending := b\<rparr>) e" and "\<sigma> \<equiv> (sources e)(s := marked b (iteration e) (sources e s))"
  obtains q where "(if b then pending_put ok s e1 else pending_remove s e1) = Inr (0, e\<lparr>sources := \<sigma>, pending_q := q\<rparr>)" "pending_ok \<sigma> (attached e) q"
  | "b" "\<not> ok" "pending_put ok s e1 = Inr (- ENOMEM, e\<lparr>sources := (sources e)(s := (sources e s)\<lparr>pending_iteration := iteration e\<rparr>)\<rparr>)"
proof -
  note l = loop_okD [OF assms(1)]
  have q: "pending_ok (sources e) (attached e) (pending_q e1)" using l(3) by (simp add: e1_def)
  show ?thesis
  proof (cases b)
    case True
    then have p: "sources e1 = (sources e)(s := (sources e s)\<lparr>pending := True\<rparr>)" "\<not> pending (sources e s)"
      using assms(2) by (simp_all add: e1_def)
    show ?thesis
      using pending_put_ok [OF q l(9) assms(3) p(2,1), of ok] True that by (auto simp: e1_def \<sigma>_def simp del: fun_upd_apply)
  next
    case False
    then have p: "sources e1 = (sources e)(s := (sources e s)\<lparr>pending := False\<rparr>)" "pending (sources e s)"
      using assms(2) by (simp_all add: e1_def)
    have "e1\<lparr>pending_q := q\<rparr> = e\<lparr>sources := \<sigma>, pending_q := q\<rparr>" "sources e1 = \<sigma>" for q
      using False assms(2) by (simp_all add: with_source_def marked_def e1_def \<sigma>_def)
    then show ?thesis using pending_remove_ok [OF q l(9) assms(3) p(2,1)] False that(1) by auto
  qed
qed

lemma set_pending_ok:
  assumes "loop_ok e" "s \<in> attached e" "src_type (sources e s) \<noteq> SOURCE_EXIT"
  shows "\<exists>r e'. source_set_pending ok s b e = Inr (r, e') \<and> loop_ok e' \<and> same_loop e e' \<and>
    (0 \<le> r \<and> sources e' = (sources e)(s := marked b (iteration e) (sources e s)) \<or>
     b \<and> \<not> ok \<and> r = - ENOMEM \<and> sources e' = (sources e)(s := (sources e s)\<lparr>pending_iteration := iteration e\<rparr>))"
proof (cases "pending (sources e s) = b")
  case True
  then have "source_set_pending ok s b e = Inr (0, e)" using assms(3) by (simp add: source_set_pending_def)
  moreover have "(sources e)(s := marked b (iteration e) (sources e s)) = sources e" using True by (simp add: marked_def)
  ultimately show ?thesis using assms(1) by (intro exI [of _ 0] exI [of _ e]) simp
next
  case False
  let ?x = "sources e s" and ?e = "with_source s (\<lambda>x. x\<lparr>pending := b\<rparr>) e" and ?k = "iteration e"
  let ?\<sigma> = "(sources e)(s := marked b ?k ?x)"
  note l = loop_okD [OF assms(1)]
  have run: "source_set_pending ok s b e = rbind (if b then pending_put ok s ?e else pending_remove s ?e) (\<lambda>(r, e1).
      if r < 0 then Inr (r, e1) else rbind (if event_source_is_time (src_type ?x) then event_source_time_prioq_reshuffle s e1 else Inr e1) (\<lambda>e2.
      let e3 = (if src_type ?x = SOURCE_SIGNAL \<and> \<not> b then signal_not_current s e2 else e2) in
      rbind (if src_type ?x = SOURCE_INOTIFY then inotify_count b s e3 else Inr e3) (\<lambda>e4. Inr (1, e4))))"
    using False assms(3) unfolding source_set_pending_def Let_def by (simp cong: prod.case_cong if_cong)
  show ?thesis
  proof (rule pending_change_ok [OF assms(1) False assms(2), of ok])
    fix q assume ready: "(if b then pending_put ok s ?e else pending_remove s ?e) = Inr (0, e\<lparr>sources := ?\<sigma>, pending_q := q\<rparr>)" "pending_ok ?\<sigma> (attached e) q"
    let ?e1 = "e\<lparr>sources := ?\<sigma>, pending_q := q\<rparr>"
    obtain C where C: "(if event_source_is_time (src_type ?x) then event_source_time_prioq_reshuffle s ?e1 else Inr ?e1) = Inr (?e1\<lparr>clocks := C\<rparr>)"
      "\<And>c. clock_ok ?\<sigma> (C c) (members e c)" "\<forall>c. created (clocks e c) \<longrightarrow> created (C c)"
      using pending_reshuffle_ok [OF assms(1,2) disjI1 [OF refl], where b = b and k = ?k and ?e1.0 = ?e1] by auto
    let ?e2 = "?e1\<lparr>clocks := C\<rparr>"
    obtain S where S: "(if src_type ?x = SOURCE_SIGNAL \<and> \<not> b then signal_not_current s ?e2 else ?e2) = ?e2\<lparr>signals := S\<rparr>"
      "\<forall>p d. S p = Some d \<longrightarrow> 0 \<le> signal_fd d" by (rule signal_not_current_ok [of ?e2]) (use l(12) in \<open>simp, blast\<close>)
    let ?e3 = "?e2\<lparr>signals := S\<rparr>"
    obtain N where N: "(if src_type ?x = SOURCE_INOTIFY then inotify_count b s ?e3 else Inr ?e3) = Inr (?e3\<lparr>n_pending := N\<rparr>)"
      "\<And>d. N d = card (inotify_pending (?e3\<lparr>n_pending := N\<rparr>) d)"
      by (rule inotify_part_ok [OF l(2) assms(2) False, of ?e3 ?k]) simp_all
    let ?e4 = "?e3\<lparr>n_pending := N\<rparr>"
    have "source_set_pending ok s b e = Inr (1, ?e4)"
      unfolding run ready(1) by (simp only: rbind_simps prod.case C(1) S(1) Let_def N(1)) simp
    moreover have "loop_ok ?e4"
      by (rule alike_loop_ok [OF assms(1,2) _ marked_alike(1)]) (use ready(2) C(2,3) S(2) N(2) in \<open>simp_all add: same_loop_def\<close>)
    ultimately show ?thesis using C(3) by (intro exI [of _ 1] exI [of _ ?e4]) (simp add: same_loop_def)
  next
    let ?\<tau> = "(sources e)(s := ?x\<lparr>pending_iteration := ?k\<rparr>)"
    let ?e1 = "e\<lparr>sources := ?\<tau>\<rparr>"
    assume no_memory: "b" "\<not> ok" "pending_put ok s ?e = Inr (- ENOMEM, ?e1)"
    have "pending_ok ?\<tau> (attached e) (pending_q e)"
      by (rule pending_ok_ranks [OF l(3)]) (use no_memory(1) False in \<open>auto simp: pending_rank_def\<close>)
    moreover have "clock_ok ?\<tau> (clocks e c) (members e c)" for c
      by (rule clock_ok_ranks [OF l(6)])
        (simp_all add: earliest_rank_def latest_rank_def event_source_timer_candidate_def next_time_def latest_time_def limit_set_def)
    moreover have "inotify_pending ?e1 d = inotify_pending e d" for d
      by (rule inotify_pending_same [of _ _ s "?x\<lparr>pending_iteration := ?k\<rparr>"]) simp_all
    ultimately have "loop_ok ?e1"
      by (intro alike_loop_ok [OF assms(1,2) _ marked_alike(2)]) (use l(12,13) in \<open>simp_all add: same_loop_def\<close>)
    then show ?thesis
      using no_memory unfolding run by (intro exI [of _ "- ENOMEM"] exI [of _ ?e1]) (simp add: ENOMEM_def same_loop_def)
  qed
qed

section \<open>Properties\<close>

lemma change_timer_ok:
  assumes "loop_ok e" "s \<in> attached e" "event_source_is_time (src_type (sources e s))" "\<not> finished e" "\<not> pid_changed e"
    "\<And>x. \<exists>t a. f x = x\<lparr>time_next := t, time_accuracy := a\<rparr>"
  shows "\<exists>e'. change_timer f s e = Inr (0, e') \<and> loop_ok e' \<and> same_loop e e' \<and>
    sources e' = (sources e)(s := f (marked False (iteration e) (sources e s)))"
proof -
  let ?x = "marked False (iteration e) (sources e s)"
  have "src_type (sources e s) \<noteq> SOURCE_EXIT" using assms(3) by (auto simp: event_source_is_time_def)
  then obtain r e1 where p: "source_set_pending True s False e = Inr (r, e1)" "0 \<le> r" "loop_ok e1" "same_loop e e1"
    "sources e1 = (sources e)(s := ?x)" using set_pending_ok [OF assms(1,2), of True False] by auto
  note l = loop_okD [OF p(3)] and f = same_loopD [OF p(4)]
  obtain t a where fx: "f ?x = ?x\<lparr>time_next := t, time_accuracy := a\<rparr>" using assms(6) by blast
  let ?e2 = "with_source s f e1"
  have x: "sources ?e2 s = ?x\<lparr>time_next := t, time_accuracy := a\<rparr>" "clock_of (sources ?e2 s) = clock_of (sources e1 s)"
    using p(5) fx by (simp_all add: clock_of_def)
  have "s \<in> attached e1" using f(1) assms(2) by simp
  note s = source_okD [OF l(11) [OF this]]
  obtain C where C: "event_source_time_prioq_reshuffle s ?e2 = Inr (?e2\<lparr>clocks := C\<rparr>)" "\<And>c. clock_ok (sources ?e2) (C c) (members e1 c)"
    "\<forall>c. created (clocks e1 c) \<longrightarrow> created (C c)"
    using time_reshuffle_ok [of "sources e1" ?e2 "members e1" s] l(6,8) s(1,2) x f(1) assms(2) p(5) by (auto simp: members_def limit_set_def)
  have "pending_ok (sources ?e2) (attached e1) (pending_q ?e2)"
    using pending_ok_ranks [OF l(3), of "sources ?e2"] p(5) x(1) by (auto simp: pending_rank_def)
  moreover have "alike (sources ?e2 s) (sources e1 s)"
    unfolding alike_def x(1) by (intro exI [of _ False] exI [of _ "pending_iteration ?x"] exI [of _ t] exI [of _ a]) (simp add: p(5))
  moreover have "inotify_pending (?e2\<lparr>clocks := C\<rparr>) d = inotify_pending e1 d" for d
    by (rule inotify_pending_same [of _ _ s "sources ?e2 s"]) (use x(1) p(5) in simp_all)
  ultimately have "loop_ok (?e2\<lparr>clocks := C\<rparr>)"
    by (intro alike_loop_ok [OF p(3) \<open>s \<in> attached e1\<close>]) (use C(2,3) l(12,13) in \<open>simp_all add: same_loop_def\<close>)
  moreover have "change_timer f s e = Inr (0, ?e2\<lparr>clocks := C\<rparr>)"
    using assms(3-5) p(1,2) C(1) by (simp add: change_timer_def)
  moreover have "same_loop e1 (?e2\<lparr>clocks := C\<rparr>)" using C(3) by (simp add: same_loop_def)
  then have "same_loop e (?e2\<lparr>clocks := C\<rparr>)" by (rule same_loop_trans [OF p(4)])
  ultimately show ?thesis using p(5) by auto
qed

text \<open>
  Changing the time of a timer, pending or not, rate limited or not, never fails an assertion and leaves the event
  loop in order: the source is no longer pending, it has the new time, every other source is what it was, and all
  queues are again sorted and hold the sources they should.
\<close>

theorem set_time_keeps_order:
  assumes "loop_ok e" "s \<in> attached e" "event_source_is_time (src_type (sources e s))" "\<not> finished e" "\<not> pid_changed e"
  shows "\<exists>e'. sd_event_source_set_time (Some s) t e = Inr (0, e') \<and> loop_ok e' \<and>
    sources e' = (sources e)(s := (sources e s)\<lparr>pending := False, time_next := t\<rparr>)"
proof -
  have "\<exists>t' a. x\<lparr>time_next := t\<rparr> = x\<lparr>time_next := t', time_accuracy := a\<rparr>" for x :: event_source
    by (intro exI [of _ t] exI [of _ "time_accuracy x"]) simp
  moreover have "(marked False k x)\<lparr>time_next := t\<rparr> = x\<lparr>pending := False, time_next := t\<rparr>" for k x
    by (cases x) (simp add: marked_def)
  ultimately show ?thesis
    using change_timer_ok [OF assms, of "\<lambda>x. x\<lparr>time_next := t\<rparr>"] by (auto simp: sd_event_source_set_time_def)
qed

lemma set_accuracy_ok:
  assumes "loop_ok e" "s \<in> attached e" "event_source_is_time (src_type (sources e s))" "\<not> finished e" "\<not> pid_changed e" "t \<noteq> - 1"
  shows "\<exists>e'. sd_event_source_set_time_accuracy (Some s) t e = Inr (0, e') \<and> loop_ok e' \<and> same_loop e e'"
proof -
  let ?a = "if t = 0 then DEFAULT_ACCURACY_USEC else t"
  have "\<exists>t' a. x\<lparr>time_accuracy := ?a\<rparr> = x\<lparr>time_next := t', time_accuracy := a\<rparr>" for x :: event_source
    by (intro exI [of _ "time_next x"] exI [of _ ?a]) simp
  then obtain e' where "change_timer (\<lambda>x. x\<lparr>time_accuracy := ?a\<rparr>) s e = Inr (0, e')" "loop_ok e'" "same_loop e e'"
    using change_timer_ok [OF assms(1-5), of "\<lambda>x. x\<lparr>time_accuracy := ?a\<rparr>"] by blast
  then show ?thesis using assms(6) by (simp add: sd_event_source_set_time_accuracy_def)
qed

lemma earliest_rank_le:
  assumes "earliest_rank \<sigma> a \<le> earliest_rank \<sigma> x" "enabled (\<sigma> x) \<noteq> SD_EVENT_OFF" "event_source_timer_candidate (\<sigma> x)"
  shows "enabled (\<sigma> a) \<noteq> SD_EVENT_OFF" "event_source_timer_candidate (\<sigma> a)" "next_time (\<sigma> a) \<le> next_time (\<sigma> x)"
  using assms by (auto simp: earliest_rank_def less_eq_prod_def split: if_splits)

lemma latest_rank_le:
  assumes "latest_rank \<sigma> a \<le> latest_rank \<sigma> x" "enabled (\<sigma> x) \<noteq> SD_EVENT_OFF" "event_source_timer_candidate (\<sigma> x)"
  shows "enabled (\<sigma> a) \<noteq> SD_EVENT_OFF" "event_source_timer_candidate (\<sigma> a)" "latest_time (\<sigma> a) \<le> latest_time (\<sigma> x)"
  using assms by (auto simp: latest_rank_def less_eq_prod_def split: if_splits)

text \<open>The sources at the front of the two queues bound a window: it is never empty.\<close>

lemma front_window:
  assumes "earliest_rank \<sigma> a \<le> earliest_rank \<sigma> b" "latest_rank \<sigma> b \<le> latest_rank \<sigma> a" "enabled (\<sigma> a) \<noteq> SD_EVENT_OFF"
  shows "enabled (\<sigma> b) \<noteq> SD_EVENT_OFF" "next_time (\<sigma> a) \<le> latest_time (\<sigma> b)"
proof -
  show "enabled (\<sigma> b) \<noteq> SD_EVENT_OFF" using assms(2,3) by (auto simp: latest_rank_def less_eq_prod_def split: if_splits)
  moreover have "next_time (\<sigma> a) \<le> next_time (\<sigma> b)"
    using assms calculation by (auto simp: latest_rank_def earliest_rank_def less_eq_prod_def split: if_splits)
  ultimately show "next_time (\<sigma> a) \<le> latest_time (\<sigma> b)" using next_le_latest order_trans by blast
qed

text \<open>What the timer is set to satisfies every source of the clock.\<close>

definition due_in_time :: "sources \<Rightarrow> nat set \<Rightarrow> usec \<Rightarrow> bool" where
  "due_in_time \<sigma> M t \<longleftrightarrow>
     (\<forall>s \<in> M. enabled (\<sigma> s) \<noteq> SD_EVENT_OFF \<and> event_source_timer_candidate (\<sigma> s) \<longrightarrow> t \<le> latest_time (\<sigma> s)) \<and>
     (t = USEC_INFINITY \<or> (\<exists>s \<in> M. enabled (\<sigma> s) \<noteq> SD_EVENT_OFF \<and> next_time (\<sigma> s) \<le> t))"

lemma due_never:
  assumes "\<And>s. s \<in> M \<Longrightarrow> enabled (\<sigma> s) \<noteq> SD_EVENT_OFF \<Longrightarrow> event_source_timer_candidate (\<sigma> s) \<Longrightarrow> next_time (\<sigma> s) = USEC_INFINITY"
  shows "due_in_time \<sigma> M USEC_INFINITY"
proof -
  have "latest_time (\<sigma> s) = USEC_INFINITY" if "next_time (\<sigma> s) = USEC_INFINITY" for s
    using next_le_latest [of "\<sigma> s"] that by (simp add: order_antisym)
  then show ?thesis using assms by (auto simp: due_in_time_def)
qed

text \<open>A loop that differs in what the invariant does not speak of.\<close>

definition rearmed :: "event_loop \<Rightarrow> event_loop \<Rightarrow> bool" where
  "rearmed e e' \<longleftrightarrow> (\<exists>C p. e' = e\<lparr>clocks := C, perturb := p\<rparr> \<and>
     (\<forall>c. earliest_q (C c) = earliest_q (clocks e c) \<and> latest_q (C c) = latest_q (clocks e c) \<and> timer_fd (C c) = timer_fd (clocks e c)))"

lemma rearmed_ok:
  assumes "loop_ok e" "rearmed e e'"
  shows "loop_ok e'" "sources e' = sources e"
proof -
  obtain C p where e: "e' = e\<lparr>clocks := C, perturb := p\<rparr>"
    "\<And>c. earliest_q (C c) = earliest_q (clocks e c) \<and> latest_q (C c) = latest_q (clocks e c) \<and> timer_fd (C c) = timer_fd (clocks e c)"
    using assms(2) unfolding rearmed_def by blast
  have "members e' c = members e c" "inotify_pending e' d = inotify_pending e d" "children_online e' = children_online e" for c d
    by (auto simp: e(1) members_def inotify_pending_def children_online_def)
  moreover have "source_ok e' s = source_ok e s" for s by (simp add: e(1) source_ok_def)
  moreover have "clock_ok (sources e) (C c) (members e c)" for c
    by (rule clock_ok_ranks [OF loop_okD(6) [OF assms(1)]]) (simp_all add: e(2))
  ultimately show "loop_ok e'"
    using assms(1) by (simp add: loop_ok_def queues_ok_def books_ok_def e(1))
  show "sources e' = sources e" by (simp add: e(1))
qed

lemma rearmedI:
  assumes "\<And>c. earliest_q (C c) = earliest_q (clocks e c) \<and> latest_q (C c) = latest_q (clocks e c) \<and> timer_fd (C c) = timer_fd (clocks e c)"
    "e' = e\<lparr>clocks := C, perturb := p\<rparr>"
  shows "rearmed e e'"
  using assms unfolding rearmed_def by blast

lemma rearmed_intros:
  "rearmed e e" "rearmed e (with_clock c (\<lambda>d. d\<lparr>next_set := t\<rparr>) e)" "rearmed e (with_clock c (\<lambda>d. d\<lparr>needs_rearm := False\<rparr>) e)"
  "rearmed e ((with_clock c (\<lambda>d. d\<lparr>needs_rearm := False\<rparr>) e)\<lparr>perturb := p\<rparr>)"
proof -
  have p: "e'\<lparr>perturb := perturb e'\<rparr> = e'" "e'\<lparr>clocks := clocks e'\<rparr> = e'" for e' by (cases e', simp)+
  show "rearmed e e" by (rule rearmedI [of "clocks e" _ _ "perturb e"]) (simp_all add: p)
  show "rearmed e (with_clock c (\<lambda>d. d\<lparr>next_set := t\<rparr>) e)"
    by (rule rearmedI [of "(clocks e)(c := (clocks e c)\<lparr>next_set := t\<rparr>)" _ _ "perturb e"]) (simp, cases e, simp add: with_clock_def)
  show "rearmed e (with_clock c (\<lambda>d. d\<lparr>needs_rearm := False\<rparr>) e)"
    by (rule rearmedI [of "(clocks e)(c := (clocks e c)\<lparr>needs_rearm := False\<rparr>)" _ _ "perturb e"]) (simp, cases e, simp add: with_clock_def)
  show "rearmed e ((with_clock c (\<lambda>d. d\<lparr>needs_rearm := False\<rparr>) e)\<lparr>perturb := p\<rparr>)"
    by (rule rearmedI [of "(clocks e)(c := (clocks e c)\<lparr>needs_rearm := False\<rparr>)" _ _ p]) (simp_all add: with_clock_def)
qed

lemma rearmed_trans: "rearmed e e1 \<Longrightarrow> rearmed e1 e2 \<Longrightarrow> rearmed e e2"
  unfolding rearmed_def by fastforce

lemma disarm_timer_result:
  assumes "0 \<le> timer_fd (clocks e c)"
  obtains r e' where "disarm_timer settime c e = (r, e')" "rearmed e e'" "r = 0 \<longrightarrow> next_set (clocks e' c) = USEC_INFINITY"
    "r \<noteq> 0 \<longrightarrow> clocks e' = clocks e \<and> (\<exists>its. r = - int (settime its))" "needs_rearm (clocks e' c) = needs_rearm (clocks e c)"
proof -
  consider "next_set (clocks e c) = USEC_INFINITY" | "next_set (clocks e c) \<noteq> USEC_INFINITY" "settime (0, 0) = 0"
    | "next_set (clocks e c) \<noteq> USEC_INFINITY" "settime (0, 0) \<noteq> 0" by blast
  then show ?thesis
  proof cases
    case 1
    then show ?thesis using that [of 0 e] assms rearmed_intros(1) by (simp add: disarm_timer_def)
  next
    case 2
    then show ?thesis
      using that [of 0 "with_clock c (\<lambda>d. d\<lparr>next_set := USEC_INFINITY\<rparr>) e"] assms rearmed_intros(2) by (simp add: disarm_timer_def)
  next
    case 3
    have "disarm_timer settime c e = (- int (settime (0, 0)), e)" using 3 assms by (simp add: disarm_timer_def)
    then show ?thesis by (rule that [OF _ rearmed_intros(1)]) (use 3 in auto)
  qed
qed

lemma set_timer_result:
  assumes "0 \<le> timer_fd (clocks e c)"
  obtains r e' where "set_timer settime time_max c t e = Inr (r, e')" "rearmed e e'" "r = 0 \<longrightarrow> next_set (clocks e' c) = t"
    "r \<noteq> 0 \<longrightarrow> clocks e' = clocks e \<and> (\<exists>its. r = - int (settime its))" "needs_rearm (clocks e' c) = needs_rearm (clocks e c)"
proof -
  let ?its = "if t = 0 then (0, 1) else timespec_store time_max t"
  consider "next_set (clocks e c) = t" | "next_set (clocks e c) \<noteq> t" "settime ?its = 0" | "next_set (clocks e c) \<noteq> t" "settime ?its \<noteq> 0" by blast
  then show ?thesis
  proof cases
    case 1
    then show ?thesis using that [of 0 e] rearmed_intros(1) by (simp add: set_timer_def Let_def)
  next
    case 2
    then have "set_timer settime time_max c t e = Inr (0, with_clock c (\<lambda>d. d\<lparr>next_set := t\<rparr>) e)" using assms by (simp add: set_timer_def Let_def)
    then show ?thesis by (rule that [OF _ rearmed_intros(2)]) simp_all
  next
    case 3
    let ?r = "- int (settime ?its)"
    have "set_timer settime time_max c t e = Inr (?r, e)" using 3 assms by (simp add: set_timer_def Let_def)
    moreover have "\<exists>its. ?r = - int (settime its)" by blast
    ultimately show ?thesis using that [OF _ rearmed_intros(1)] 3 by simp
  qed
qed

text \<open>The time the two queues of a clock agree on, if there is one.\<close>

lemma wake_up_time:
  assumes "clock_ok \<sigma> d M" "perturb_known boot p"
  obtains (never) "due_in_time \<sigma> M USEC_INFINITY"
      "case prioq_peek (earliest_q d) of None \<Rightarrow> True | Some a \<Rightarrow> a \<in> M \<and> (enabled (\<sigma> a) = SD_EVENT_OFF \<or> next_time (\<sigma> a) = USEC_INFINITY)"
  | (due) a b t p' where "prioq_peek (earliest_q d) = Some a" "prioq_peek (latest_q d) = Some b" "a \<in> M" "b \<in> M"
      "enabled (\<sigma> a) \<noteq> SD_EVENT_OFF" "enabled (\<sigma> b) \<noteq> SD_EVENT_OFF" "next_time (\<sigma> a) \<noteq> USEC_INFINITY"
      "sleep_between boot p (next_time (\<sigma> a)) (latest_time (\<sigma> b)) = Inr (t, p')" "due_in_time \<sigma> M t"
proof (rule earliest.peeks [OF clock_okD(1) [OF assms(1)]])
  assume none: "prioq_peek (earliest_q d) = None" "M = {}"
  show thesis by (rule never) (use none in \<open>simp_all add: due_in_time_def\<close>)
next
  fix a assume a: "prioq_peek (earliest_q d) = Some a" "a \<in> M" "\<And>x. x \<in> M \<Longrightarrow> earliest_rank \<sigma> a \<le> earliest_rank \<sigma> x"
  show thesis
  proof (cases "enabled (\<sigma> a) = SD_EVENT_OFF \<or> next_time (\<sigma> a) = USEC_INFINITY")
    case True
    have "next_time (\<sigma> s) = USEC_INFINITY" if "s \<in> M" "enabled (\<sigma> s) \<noteq> SD_EVENT_OFF" "event_source_timer_candidate (\<sigma> s)" for s
      using earliest_rank_le [OF a(3) [OF that(1)] that(2,3)] True by (simp add: order_antisym)
    then have "due_in_time \<sigma> M USEC_INFINITY" by (rule due_never)
    then show thesis using never True a(1,2) by simp
  next
    case False
    then have on: "enabled (\<sigma> a) \<noteq> SD_EVENT_OFF" by blast
    obtain b where b: "prioq_peek (latest_q d) = Some b" "b \<in> M" "\<And>x. x \<in> M \<Longrightarrow> latest_rank \<sigma> b \<le> latest_rank \<sigma> x"
      by (rule latest.peeks [OF clock_okD(2) [OF assms(1)]]) (use a(2) in auto)
    note w = front_window [OF a(3) [OF b(2)] b(3) [OF a(2)] on]
    obtain t p' where t: "sleep_between boot p (next_time (\<sigma> a)) (latest_time (\<sigma> b)) = Inr (t, p')"
      "next_time (\<sigma> a) \<le> t" "t \<le> latest_time (\<sigma> b)" using sleep_between_runs [OF w(2) assms(2)] by blast
    have "t \<le> latest_time (\<sigma> s)" if "s \<in> M" "enabled (\<sigma> s) \<noteq> SD_EVENT_OFF" "event_source_timer_candidate (\<sigma> s)" for s
      using latest_rank_le(3) [OF b(3) [OF that(1)] that(2,3)] t(3) by (rule order_trans [rotated])
    then have "due_in_time \<sigma> M t" using a(2) on t(2) by (auto simp: due_in_time_def)
    then show thesis using due a(1,2) b(1,2) on w(1) False t(1) by blast
  qed
qed

text \<open>
  C22. Arming the timer of a clock never fails an assertion and leaves the event loop in order. When the phase to wake up at is known or
  can be learnt from the boot id (\<open>perturb_known\<close>, see \<open>sleep_without_boot_id\<close> for what happens otherwise) and the kernel takes the time,
  the timer is set so that no deadline is missed and no wake-up is in vain: it goes
  off no later than the latest time of any source that waits, and no earlier than the time of some enabled source,
  or is off when nothing waits. When \<open>timerfd_settime\<close> refuses the time, its error is returned and the timer stays as it was set before;
  it is not tried again until some source changes.
\<close>

theorem armed_in_time:
  assumes "loop_ok e" "created (clocks e c)" "needs_rearm (clocks e c)" "perturb_known boot (perturb e)"
  shows "\<exists>r e'. event_arm_timer settime time_max boot c e = Inr (r, e') \<and> loop_ok e' \<and> sources e' = sources e \<and>
    \<not> needs_rearm (clocks e' c) \<and>
    (if r = 0 then due_in_time (sources e) (members e c) (next_set (clocks e' c))
     else (\<exists>its. r = - int (settime its)) \<and> next_set (clocks e' c) = next_set (clocks e c))"
proof -
  let ?\<sigma> = "sources e" and ?M = "members e c" and ?e = "with_clock c (\<lambda>d. d\<lparr>needs_rearm := False\<rparr>) e"
  note l = loop_okD(6) [OF assms(1), of c]
  have fd: "0 \<le> timer_fd (clocks ?e c)" "0 \<le> timer_fd (clocks (?e\<lparr>perturb := p\<rparr>) c)" for p using clock_okD(4) [OF l assms(2)] by simp_all
  have s: "event_source_uses_time_prioq (src_type (?\<sigma> x))" "limit_set (?\<sigma> x)" if "x \<in> ?M" for x
    using clock_okD(3,5) [OF l that] .
  show ?thesis
  proof (rule wake_up_time [OF l assms(4)])
    assume never: "due_in_time ?\<sigma> ?M USEC_INFINITY" "case prioq_peek (earliest_q (clocks e c)) of None \<Rightarrow> True
      | Some a \<Rightarrow> a \<in> ?M \<and> (enabled (?\<sigma> a) = SD_EVENT_OFF \<or> next_time (?\<sigma> a) = USEC_INFINITY)"
    have "event_arm_timer settime time_max boot c e = Inr (disarm_timer settime c ?e)"
      using never(2) s assms(3) unfolding event_arm_timer_def by (auto simp: Let_def split: option.splits)
    moreover obtain r e' where "disarm_timer settime c ?e = (r, e')" "rearmed ?e e'"
      "r = 0 \<longrightarrow> next_set (clocks e' c) = USEC_INFINITY" "r \<noteq> 0 \<longrightarrow> clocks e' = clocks ?e \<and> (\<exists>its. r = - int (settime its))"
      "needs_rearm (clocks e' c) = needs_rearm (clocks ?e c)"
      by (rule disarm_timer_result [OF fd(1)])
    ultimately show ?thesis
      using never(1) rearmed_ok [OF assms(1) rearmed_trans [OF rearmed_intros(3)]] by auto
  next
    fix a b t p
    assume due: "prioq_peek (earliest_q (clocks e c)) = Some a" "prioq_peek (latest_q (clocks e c)) = Some b" "a \<in> ?M" "b \<in> ?M"
      "enabled (?\<sigma> a) \<noteq> SD_EVENT_OFF" "enabled (?\<sigma> b) \<noteq> SD_EVENT_OFF" "next_time (?\<sigma> a) \<noteq> USEC_INFINITY"
      "sleep_between boot (perturb e) (next_time (?\<sigma> a)) (latest_time (?\<sigma> b)) = Inr (t, p)" "due_in_time ?\<sigma> ?M t"
    have "event_arm_timer settime time_max boot c e = set_timer settime time_max c t (?e\<lparr>perturb := p\<rparr>)"
      using due s [OF due(3)] s [OF due(4)] assms(3) unfolding event_arm_timer_def by (simp add: Let_def)
    moreover obtain r e' where "set_timer settime time_max c t (?e\<lparr>perturb := p\<rparr>) = Inr (r, e')" "rearmed (?e\<lparr>perturb := p\<rparr>) e'"
      "r = 0 \<longrightarrow> next_set (clocks e' c) = t" "r \<noteq> 0 \<longrightarrow> clocks e' = clocks (?e\<lparr>perturb := p\<rparr>) \<and> (\<exists>its. r = - int (settime its))"
      "needs_rearm (clocks e' c) = needs_rearm (clocks (?e\<lparr>perturb := p\<rparr>) c)"
      by (rule set_timer_result [OF fd(2)])
    ultimately show ?thesis
      using due(9) rearmed_ok [OF assms(1) rearmed_trans [OF rearmed_intros(4)]] by auto
  qed
qed

text \<open>The sources \<open>process_timer\<close> is to mark, and what it makes of the sources.\<close>

definition elapsed :: "usec \<Rightarrow> nat set \<Rightarrow> sources \<Rightarrow> nat set" where
  "elapsed n M \<sigma> = {s \<in> M. enabled (\<sigma> s) \<noteq> SD_EVENT_OFF \<and> \<not> pending (\<sigma> s) \<and> time_next (\<sigma> s) \<le> n}"

definition mark_elapsed :: "usec \<Rightarrow> nat set \<Rightarrow> nat \<Rightarrow> sources \<Rightarrow> sources" where
  "mark_elapsed n M k \<sigma> s = (if s \<in> elapsed n M \<sigma> then (\<sigma> s)\<lparr>pending := True, pending_iteration := k\<rparr> else \<sigma> s)"

lemma mark_elapsed_none: "elapsed n M \<sigma> = {} \<Longrightarrow> mark_elapsed n M k \<sigma> = \<sigma>"
  by (simp add: mark_elapsed_def fun_eq_iff)

lemma mark_elapsed_one:
  assumes "s \<in> elapsed n M \<sigma>"
  shows "elapsed n M (\<sigma>(s := (\<sigma> s)\<lparr>pending := True, pending_iteration := k\<rparr>)) = elapsed n M \<sigma> - {s}"
    "mark_elapsed n M k (\<sigma>(s := (\<sigma> s)\<lparr>pending := True, pending_iteration := k\<rparr>)) = mark_elapsed n M k \<sigma>"
  using assms by (auto simp: elapsed_def mark_elapsed_def fun_eq_iff)

text \<open>Nothing has changed: a reshuffle keeps the order.\<close>

lemma loop_ok_clocks:
  assumes "loop_ok e" "\<And>c. clock_ok (sources e) (C c) (members e c)"
  shows "loop_ok (e\<lparr>clocks := C\<rparr>)"
proof -
  have "members (e\<lparr>clocks := C\<rparr>) = members e" "inotify_pending (e\<lparr>clocks := C\<rparr>) = inotify_pending e"
    "children_online (e\<lparr>clocks := C\<rparr>) = children_online e" "source_ok (e\<lparr>clocks := C\<rparr>) = source_ok e"
    by (auto simp: members_def inotify_pending_def children_online_def source_ok_def fun_eq_iff)
  then show ?thesis using assms by (simp add: loop_ok_def queues_ok_def books_ok_def)
qed

lemma reshuffle_again:
  assumes "loop_ok e" "s \<in> attached e"
  obtains C where "event_source_time_prioq_reshuffle s e = Inr (e\<lparr>clocks := C\<rparr>)" "loop_ok (e\<lparr>clocks := C\<rparr>)" "same_loop e (e\<lparr>clocks := C\<rparr>)"
proof -
  note l = loop_okD [OF assms(1)]
  note s = source_okD [OF l(11) [OF assms(2)]]
  have "s \<in> members e c \<longleftrightarrow> clock_of (sources e s) = Some c" for c using assms(2) by (simp add: members_def)
  then obtain C where "event_source_time_prioq_reshuffle s e = Inr (e\<lparr>clocks := C\<rparr>)" "\<And>c. clock_ok (sources e) (C c) (members e c)"
    "\<forall>c. created (clocks e c) \<longrightarrow> created (C c)"
    using time_reshuffle_ok [OF l(6,8), of s] s(1,2) by blast
  then show ?thesis using that loop_ok_clocks [OF assms(1)] by (simp add: same_loop_def)
qed

text \<open>One source is marked: by \<open>source_set_pending\<close> and the reshuffle after it.\<close>

definition free_timers :: "clock \<Rightarrow> event_loop \<Rightarrow> bool" where \<comment> \<open>no source of the clock is rate limited\<close>
  "free_timers c e \<longleftrightarrow> (\<forall>s \<in> members e c. \<not> ratelimited (sources e s))"

lemma free_timersD:
  assumes "free_timers c e" "s \<in> members e c"
  shows "s \<in> attached e" "\<not> ratelimited (sources e s)" "event_get_clock (src_type (sources e s)) = Some c"
    "event_source_is_time (src_type (sources e s))" "src_type (sources e s) \<noteq> SOURCE_EXIT" "next_time (sources e s) = time_next (sources e s)"
    "event_source_uses_time_prioq (src_type (sources e s))"
proof -
  show a: "s \<in> attached e" "\<not> ratelimited (sources e s)" "event_get_clock (src_type (sources e s)) = Some c"
    using assms by (auto simp: free_timers_def members_def clock_of_def)
  show t: "event_source_is_time (src_type (sources e s))" using a(3) by (simp add: time_has_clock)
  show "src_type (sources e s) \<noteq> SOURCE_EXIT" using t by (auto simp: event_source_is_time_def)
  show "next_time (sources e s) = time_next (sources e s)" using a(2) t by (simp add: next_time_def)
  show "event_source_uses_time_prioq (src_type (sources e s))" using uses_time_prioq [OF t] .
qed

lemma mark_one:
  assumes "loop_ok e" "s \<in> attached e" "src_type (sources e s) \<noteq> SOURCE_EXIT" "\<not> pending (sources e s)"
  defines "\<sigma> \<equiv> (sources e)(s := (sources e s)\<lparr>pending := True, pending_iteration := iteration e\<rparr>)"
  shows "(\<exists>r e1 e'. source_set_pending ok s True e = Inr (r, e1) \<and> 0 \<le> r \<and> event_source_time_prioq_reshuffle s e1 = Inr e' \<and>
      loop_ok e' \<and> same_loop e e' \<and> sources e' = \<sigma>) \<or>
    (\<exists>e'. source_set_pending ok s True e = Inr (- ENOMEM, e') \<and> \<not> ok \<and> loop_ok e' \<and> same_loop e e')"
proof -
  have m: "(sources e)(s := marked True (iteration e) (sources e s)) = \<sigma>" using assms(4) by (simp add: marked_def \<sigma>_def)
  from set_pending_ok [OF assms(1-3), of ok True, unfolded m] obtain r e1 where e1: "source_set_pending ok s True e = Inr (r, e1)"
    "loop_ok e1" "same_loop e e1" "0 \<le> r \<and> sources e1 = \<sigma> \<or> \<not> ok \<and> r = - ENOMEM" by blast
  obtain C where C: "event_source_time_prioq_reshuffle s e1 = Inr (e1\<lparr>clocks := C\<rparr>)" "loop_ok (e1\<lparr>clocks := C\<rparr>)" "same_loop e1 (e1\<lparr>clocks := C\<rparr>)"
    by (rule reshuffle_again [OF e1(2)]) (use same_loopD(1) [OF e1(3)] assms(2) in simp)
  have "same_loop e (e1\<lparr>clocks := C\<rparr>)" "sources (e1\<lparr>clocks := C\<rparr>) = sources e1" using same_loop_trans [OF e1(3) C(3)] by simp_all
  then show ?thesis using e1 C(1,2) by metis
qed

text \<open>The source at the front of the queue tells whether there is one to mark.\<close>

lemma front_elapsed:
  assumes "loop_ok e" "free_timers c e" "members e c \<noteq> {}"
  obtains s where "prioq_peek (earliest_q (clocks e c)) = Some s" "s \<in> members e c"
    "elapsed n (members e c) (sources e) \<noteq> {} \<longrightarrow> s \<in> elapsed n (members e c) (sources e)"
proof (rule earliest.peeks [OF clock_okD(1) [OF loop_okD(6) [OF assms(1), of c]]])
  fix s assume s: "prioq_peek (earliest_q (clocks e c)) = Some s" "s \<in> members e c"
    "\<And>x. x \<in> members e c \<Longrightarrow> earliest_rank (sources e) s \<le> earliest_rank (sources e) x"
  note f = free_timersD [OF assms(2)]
  have "s \<in> elapsed n (members e c) (sources e)" if x: "x \<in> elapsed n (members e c) (sources e)" for x
  proof -
    have x: "x \<in> members e c" "enabled (sources e x) \<noteq> SD_EVENT_OFF" "event_source_timer_candidate (sources e x)" "time_next (sources e x) \<le> n"
      using x by (auto simp: elapsed_def event_source_timer_candidate_def)
    have "enabled (sources e s) \<noteq> SD_EVENT_OFF" "event_source_timer_candidate (sources e s)" "time_next (sources e s) \<le> n"
      using earliest_rank_le [OF s(3) [OF x(1)] x(2,3)] f(6) [OF x(1)] f(6) [OF s(2)] x(4) by simp_all
    then show ?thesis using s(2) f(2) [OF s(2)] by (simp add: elapsed_def event_source_timer_candidate_def)
  qed
  then show thesis using that s(1,2) by blast
qed (use assms(3) in blast)

text \<open>A turn of the loop: it stops, or it marks one source, or memory is short.\<close>

lemma process_timer_stops:
  assumes "loop_ok e" "free_timers c e" "elapsed n (members e c) (sources e) = {}"
  shows "process_timer leave ok (Suc fuel) n c False e = Some (Inr (0, e))"
proof (cases "members e c = {}")
  case True
  have "prioq_peek (earliest_q (clocks e c)) = None"
    by (rule earliest.peeks [OF clock_okD(1) [OF loop_okD(6) [OF assms(1), of c]]]) (use True in auto)
  then show ?thesis by simp
next
  case False
  obtain s where s: "prioq_peek (earliest_q (clocks e c)) = Some s" "s \<in> members e c"
    using front_elapsed [OF assms(1,2) False] by metis
  note f = free_timersD [OF assms(2) s(2)]
  have "n < time_next (sources e s) \<or> enabled (sources e s) = SD_EVENT_OFF \<or> pending (sources e s)"
    using s(2) assms(3) by (auto simp: elapsed_def)
  then show ?thesis using s(1) f(2,4,6,7) by (auto simp: Let_def time_event_source_next_def)
qed

lemma process_timer_marks:
  assumes "loop_ok e" "free_timers c e" "elapsed n (members e c) (sources e) \<noteq> {}"
  shows "(\<exists>s e'. s \<in> elapsed n (members e c) (sources e) \<and> loop_ok e' \<and> same_loop e e' \<and>
        sources e' = (sources e)(s := (sources e s)\<lparr>pending := True, pending_iteration := iteration e\<rparr>) \<and>
        process_timer leave ok (Suc fuel) n c False e = process_timer leave ok fuel n c False e') \<or>
    (\<exists>e'. process_timer leave ok (Suc fuel) n c False e = Some (Inr (- ENOMEM, e')) \<and> loop_ok e' \<and> (\<exists>i. \<not> ok i))"
proof -
  have "members e c \<noteq> {}" using assms(3) by (auto simp: elapsed_def)
  then obtain s where s: "prioq_peek (earliest_q (clocks e c)) = Some s" "s \<in> members e c" "s \<in> elapsed n (members e c) (sources e)"
    using front_elapsed [OF assms(1,2)] assms(3) by metis
  note f = free_timersD [OF assms(2) s(2)]
  have on: "\<not> n < time_next (sources e s)" "enabled (sources e s) \<noteq> SD_EVENT_OFF" "\<not> pending (sources e s)"
    using s(3) by (auto simp: elapsed_def)
  have run: "process_timer leave ok (Suc fuel) n c False e = (case source_set_pending (ok fuel) s True e of
      Inl err \<Rightarrow> Some (Inl err)
    | Inr (r, e) \<Rightarrow> if r < 0 then Some (Inr (r, e))
        else (case event_source_time_prioq_reshuffle s e of Inl err \<Rightarrow> Some (Inl err)
              | Inr e \<Rightarrow> process_timer leave ok fuel n c False e))"
    using s(1) on f(2,4,7) by (simp add: Let_def time_event_source_next_def)
  from mark_one [OF assms(1) f(1,5) on(3), of "ok fuel"] show ?thesis
  proof (elim disjE exE conjE)
    fix r e1 e' assume "source_set_pending (ok fuel) s True e = Inr (r, e1)" "0 \<le> r" "event_source_time_prioq_reshuffle s e1 = Inr e'"
      "loop_ok e'" "same_loop e e'" "sources e' = (sources e)(s := (sources e s)\<lparr>pending := True, pending_iteration := iteration e\<rparr>)"
    then show ?thesis unfolding run using s(3) by (intro disjI1 exI [of _ s] exI [of _ e']) simp
  next
    fix e' assume "source_set_pending (ok fuel) s True e = Inr (- ENOMEM, e')" "loop_ok e'" "\<not> ok fuel"
    then show ?thesis unfolding run by (intro disjI2 exI [of _ e']) (auto simp: ENOMEM_def)
  qed
qed

text \<open>
  \<open>process_timer\<close> ends: the number of timers, plus one, is enough turns. It marks every enabled timer
  whose time has come as pending, with the iteration it became so, touches no other source, and
  keeps the event loop in order; when there is no memory for the queue of pending sources it returns that error with the event loop in order.
\<close>

theorem process_timer_marks_elapsed:
  assumes "loop_ok e" "free_timers c e" "card (members e c) < fuel"
  shows "\<exists>r e'. process_timer leave ok fuel n c False e = Some (Inr (r, e')) \<and> loop_ok e' \<and>
    (r = - ENOMEM \<and> (\<exists>i. \<not> ok i) \<or> r = 0 \<and> sources e' = mark_elapsed n (members e c) (iteration e) (sources e))"
proof -
  let ?left = "\<lambda>e. elapsed n (members e c) (sources e)"
  have fin: "finite (members e c)" "finite (?left e)" if "loop_ok e" for e
    using loop_okD(8) [OF that, of c] by (simp_all add: small_def elapsed_def)
  have "\<exists>r e'. process_timer leave ok fuel n c False e = Some (Inr (r, e')) \<and> loop_ok e' \<and>
      (r = - ENOMEM \<and> (\<exists>i. \<not> ok i) \<or> r = 0 \<and> sources e' = mark_elapsed n (members e c) (iteration e) (sources e))"
    if "loop_ok e" "free_timers c e" "card (?left e) < fuel" for e fuel
    using that
  proof (induction fuel arbitrary: e)
    case (Suc fuel)
    show ?case
    proof (cases "?left e = {}")
      case True
      then show ?thesis using process_timer_stops [OF Suc.prems(1,2)] Suc.prems(1) mark_elapsed_none by auto
    next
      case False
      from process_timer_marks [OF Suc.prems(1,2) False, of leave ok fuel] show ?thesis
      proof (elim disjE exE conjE)
        fix s e' assume s: "s \<in> ?left e" "loop_ok e'" "same_loop e e'"
          "sources e' = (sources e)(s := (sources e s)\<lparr>pending := True, pending_iteration := iteration e\<rparr>)"
          "process_timer leave ok (Suc fuel) n c False e = process_timer leave ok fuel n c False e'"
        have M: "members e' c = members e c" "free_timers c e'"
          using Suc.prems(2) s(4) same_loopD(1) [OF s(3)] by (auto simp: members_def clock_of_def free_timers_def)
        have "?left e' = ?left e - {s}" unfolding s(4) M by (rule mark_elapsed_one(1) [OF s(1)])
        then have "card (?left e') < fuel"
          using Suc.prems(3) card_Diff1_less [OF fin(2) [OF Suc.prems(1)] s(1)] by simp
        then show ?thesis
          using Suc.IH [OF s(2) M(2)] s(4,5) mark_elapsed_one(2) [OF s(1)] same_loopD(2) [OF s(3)] M(1) by metis
      qed blast
    qed
  qed simp
  moreover have "card (?left e) \<le> card (members e c)"
    using fin(1) [OF assms(1)] by (intro card_mono) (auto simp: elapsed_def)
  ultimately show ?thesis using assms by (meson le_less_trans)
qed

text \<open>
  The next source to dispatch is right: \<open>event_next_pending\<close> gives a pending source that is online and
  none of the pending sources that are online has a smaller priority value, or the same and has waited longer;
  it gives none only when every pending source is offline.
\<close>

lemma next_pending_is_first:
  assumes "loop_ok e"
  shows "case event_next_pending e of
      None \<Rightarrow> \<forall>x \<in> attached e. pending (sources e x) \<longrightarrow> event_source_is_offline (sources e x)
    | Some s \<Rightarrow> s \<in> attached e \<and> pending (sources e s) \<and> event_source_is_online (sources e s) \<and>
        (\<forall>x \<in> attached e. pending (sources e x) \<and> event_source_is_online (sources e x) \<longrightarrow>
          (priority (sources e s), pending_iteration (sources e s)) \<le> (priority (sources e x), pending_iteration (sources e x)))"
proof -
  have "queue_of (pending_rank (sources e)) (\<lambda>s. pending (sources e s)) (pending_q e) {s \<in> attached e. pending (sources e s)}"
    using loop_okD(3) [OF assms] by (simp add: pending_ok_def)
  then show ?thesis
  proof (rule pendings.peeks)
    assume "prioq_peek (pending_q e) = None" "{s \<in> attached e. pending (sources e s)} = {}"
    then show ?thesis by (auto simp: event_next_pending_def)
  next
    fix s assume s0: "prioq_peek (pending_q e) = Some s" "s \<in> {s \<in> attached e. pending (sources e s)}"
      "\<And>x. x \<in> {s \<in> attached e. pending (sources e s)} \<Longrightarrow> pending_rank (sources e) s \<le> pending_rank (sources e) x"
    then have s: "prioq_peek (pending_q e) = Some s" "pending (sources e s)" "s \<in> attached e"
      "\<And>x. x \<in> attached e \<Longrightarrow> pending (sources e x) \<Longrightarrow> pending_rank (sources e) s \<le> pending_rank (sources e) x" by simp_all
    have "event_source_is_offline (sources e s) \<Longrightarrow> x \<in> attached e \<Longrightarrow> pending (sources e x) \<Longrightarrow> event_source_is_offline (sources e x)" for x
      using s(4) [of x] by (auto simp: pending_rank_def event_source_is_offline_def less_eq_prod_def)
    moreover have "(priority (sources e s), pending_iteration (sources e s)) \<le> (priority (sources e x), pending_iteration (sources e x))"
      if "x \<in> attached e" "pending (sources e x)" "event_source_is_online (sources e x)" "\<not> event_source_is_offline (sources e s)" for x
      using s(4) [OF that(1,2)] that(3,4)
      by (auto simp: pending_rank_def event_source_is_offline_def event_source_is_online_def less_eq_prod_def)
    ultimately show ?thesis
      using s(1-3) by (auto simp: event_next_pending_def event_source_is_offline_def event_source_is_online_def)
  qed
qed

text \<open>
  Dispatching in order: emptying the queue of the pending sources takes as many turns as there are,
  never fails an assertion, gives each pending source once, and gives them sorted: enabled before disabled, free
  before rate limited, then by priority, then by the iteration they became pending.
\<close>

theorem pending_drains_sorted:
  assumes "loop_ok e" "pending_q e = Some q"
  shows "\<exists>ss. prioq_drain (pending_prioq_compare (sources e)) (n_items q) q = Inr ss \<and> distinct ss \<and> set ss = {s \<in> attached e. pending (sources e s)} \<and>
    sorted (map (pending_rank (sources e)) ss)"
proof -
  let ?\<sigma> = "sources e" and ?P = "{s \<in> attached e. pending (sources e s)}"
  have q: "pendings.ordered ?\<sigma> q" "holds id q ?P" using loop_okD(3) [OF assms(1)] assms(2) by (simp_all add: pending_ok_def queue_of_def)
  obtain ss where ss: "prioq_drain (pending_prioq_compare ?\<sigma>) (n_items q) q = Inr ss" "sorted (map (pending_rank ?\<sigma>) ss)"
    "mset ss = image_mset data (mset (items q))" using pendings.drain_sorts [OF q(1) order_refl] by blast
  have "mset ss = mset_set ?P" using ss(3) q(2) by (simp add: holds_def multiset.map_comp comp_def)
  then have "distinct ss" "set ss = ?P"
    using q(2) by (metis count_mset_set(1) count_mset_set(3) distinct_count_atmost_1 finite_set_mset_mset_set holds_def in_multiset_in_set set_mset_mset,
      metis finite_set_mset_mset_set holds_def set_mset_mset)
  then show ?thesis using ss by blast
qed

text \<open>
  A source joins both queues of a clock or neither: when memory is short for the second queue the
  source is taken out of the first again, and both queues hold what they held, in order. With room in both queues no memory is needed.
\<close>

theorem time_put_all_or_nothing:
  assumes "clock_ok (sources e) (clocks e c) M" "created (clocks e c)" "s \<notin> M" "small M" "limit_set (sources e s)"
    "event_source_uses_time_prioq (src_type (sources e s))"
  shows "\<exists>r e'. event_source_time_prioq_put ok1 ok2 s c e = Inr (r, e') \<and> sources e' = sources e \<and>
    (r = 0 \<and> clock_ok (sources e') (clocks e' c) (insert s M) \<or>
     r = - ENOMEM \<and> \<not> (ok1 \<and> ok2) \<and> \<not> room (clocks e c) M \<and> clock_ok (sources e') (clocks e' c) M)"
  using time_prioq_put_ok [OF assms, of ok1 ok2] by auto

section \<open>An event loop with two timers\<close>

text \<open>Timer 1 waits, timer 2 is pending, the other clocks are not set up; the theorems above apply to it.\<close>

definition demo_timer :: "bool \<Rightarrow> usec \<Rightarrow> event_source" where
  "demo_timer p t = \<lparr>src_type = SOURCE_TIME_MONOTONIC, enabled = SD_EVENT_ON, pending = p, ratelimited = False, priority = 0,
     pending_iteration = 0, prepare_iteration = 0, has_prepare = False, exit_on_failure = False, dispatching = False, n_ref = 1,
     rate = \<lparr>rl_interval = 0, rl_burst = 0, rl_num = 0, rl_begin = 0\<rparr>, time_next = t, time_accuracy = 60000000,
     signal_no = 0, watches_pidfd = False, registered = False\<rparr>"

definition demo_queue :: "nat list \<Rightarrow> nat prioq" where
  "demo_queue ss = \<lparr>items = map (entry id) ss, n_allocated = 16, idx_var = (\<lambda>a. if ss ! 0 = a then 0 else 1)\<rparr>"

definition demo_loop :: event_loop where
  "demo_loop = \<lparr>sources = (\<lambda>s. demo_timer (s = 2) (if s = 1 then 70000000 else 50000000)), attached = {1, 2},
     clocks = (\<lambda>c. if c = CLOCK_MONOTONIC
       then \<lparr>timer_fd = 3, earliest_q = Some (demo_queue [1, 2]), latest_q = Some (demo_queue [1, 2]), next_set = 0, needs_rearm = True\<rparr>
       else \<lparr>timer_fd = - 1, earliest_q = None, latest_q = None, next_set = USEC_INFINITY, needs_rearm = False\<rparr>),
     pending_q = Some (demo_queue [2]), prepare_q = None, exit_q = None, iteration = 7, state = SD_EVENT_INITIAL,
     exit_requested = False, exit_code = 0, pid_changed = False, perturb = USEC_INFINITY, signal_sources = (\<lambda>_. None),
     signals = (\<lambda>_. None), online_children = 0, need_process_child = False, post_sources = {}, inotify_of = (\<lambda>_. None), n_pending = (\<lambda>_. 0)\<rparr>"

lemma demo_queue_ok:
  assumes "rank 1 \<le> rank 2" "valid 1" "valid 2"
  shows "ordered_queue rank valid (demo_queue [1, 2])" "ordered_queue rank valid (demo_queue [2])"
    "holds id (demo_queue [1, 2]) {1, 2}" "holds id (demo_queue [2]) {2}"
  using assms by (auto simp: ordered_queue_def sound_queue_def idx_ok_def demo_queue_def n_items_def idx_is_def heap_on_def rank_at_def
      holds_def less_Suc_eq numeral_2_eq_2)

lemma demo_loop_fields:
  "attached demo_loop = {1, 2}" "perturb demo_loop = USEC_INFINITY" "needs_rearm (clocks demo_loop CLOCK_MONOTONIC)"
  "created (clocks demo_loop CLOCK_MONOTONIC)" "\<not> finished demo_loop" "\<not> pid_changed demo_loop"
  "sources demo_loop s = demo_timer (s = 2) (if s = 1 then 70000000 else 50000000)"
  "pending_q demo_loop = Some (demo_queue [2])"
  by (simp_all add: demo_loop_def created_def)

lemma demo_pending: "{s \<in> attached demo_loop. pending (sources demo_loop s)} = {2}" "{s \<in> attached demo_loop. has_prepare (sources demo_loop s)} = {}"
  by (auto simp: demo_loop_fields demo_timer_def)

lemma demo_members: "members demo_loop c = (if c = CLOCK_MONOTONIC then {1, 2} else {})"
  by (auto simp: members_def demo_loop_fields demo_timer_def clock_of_def event_get_clock_def)

lemma demo_clock_ok: "clock_ok (sources demo_loop) (clocks demo_loop c) (members demo_loop c)"
proof (cases "c = CLOCK_MONOTONIC")
  case True
  let ?\<sigma> = "sources demo_loop" and ?q = "demo_queue [1, 2]"
  have r: "earliest_rank ?\<sigma> 1 \<le> earliest_rank ?\<sigma> 2" "latest_rank ?\<sigma> 1 \<le> latest_rank ?\<sigma> 2"
    by (simp_all add: earliest_rank_def latest_rank_def demo_loop_fields demo_timer_def event_source_timer_candidate_def less_eq_prod_def)
  have s: "limit_set (?\<sigma> s)" "event_source_uses_time_prioq (src_type (?\<sigma> s))" for s
    by (simp_all add: limit_set_def demo_loop_fields demo_timer_def event_source_can_rate_limit_def)
  have "earliest.ordered ?\<sigma> ?q" "latest.ordered ?\<sigma> ?q" using r s by (blast intro: demo_queue_ok(1))+
  moreover have "holds id ?q {1, 2}" using demo_queue_ok(3) [of "\<lambda>_. 0 :: nat" "\<lambda>_. True"] by simp
  ultimately show ?thesis using True s by (simp add: clock_ok_def queue_of_def demo_members) (simp add: demo_loop_def)
next
  case False
  then show ?thesis by (simp add: clock_ok_def queue_of_def demo_members) (simp add: demo_loop_def created_def)
qed

lemma demo_pending_ok: "pending_ok (sources demo_loop) (attached demo_loop) (pending_q demo_loop)"
proof -
  have "pendings.ordered (sources demo_loop) (demo_queue [2])"
    by (simp add: ordered_queue_def sound_queue_def idx_ok_def demo_queue_def n_items_def idx_is_def heap_on_def)
      (simp add: demo_loop_def demo_timer_def)
  moreover have "holds id (demo_queue [2]) {2}" by (simp add: holds_def demo_queue_def)
  ultimately show ?thesis unfolding pending_ok_def demo_pending by (simp add: queue_of_def demo_loop_fields)
qed

lemma demo_loop_ok: "loop_ok demo_loop"
proof -
  have "source_ok demo_loop s" for s by (simp add: source_ok_def demo_loop_fields demo_timer_def limit_set_def)
  moreover have "inotify_pending demo_loop d = {}" "children_online demo_loop = {}" for d
    by (auto simp: inotify_pending_def children_online_def demo_loop_fields demo_timer_def)
  moreover have "{s. src_type (sources demo_loop s) = SOURCE_EXIT} = {}" by (auto simp: demo_loop_fields demo_timer_def)
  then have "prepare_ok (sources demo_loop) (attached demo_loop) (prepare_q demo_loop)" "exit_ok (sources demo_loop) (attached demo_loop) (exit_q demo_loop)"
    by (auto simp: prepare_ok_def exit_ok_def demo_pending) (simp_all add: queue_of_def demo_loop_def)
  ultimately show ?thesis
    using demo_clock_ok demo_pending_ok
    by (simp add: loop_ok_def queues_ok_def books_ok_def demo_pending) (simp add: demo_loop_def small_def)
qed

theorem set_time_keeps_order_witness:
  "\<exists>e'. sd_event_source_set_time (Some 2) 90000000 demo_loop = Inr (0, e') \<and> loop_ok e' \<and>
    sources e' = (sources demo_loop)(2 := (sources demo_loop 2)\<lparr>pending := False, time_next := 90000000\<rparr>)"
  by (rule set_time_keeps_order [OF demo_loop_ok]) (simp_all add: demo_loop_fields demo_timer_def event_source_is_time_def)

theorem armed_in_time_witness:
  "\<exists>r e'. event_arm_timer (\<lambda>_. 0) 2147483647 (Some (5, 9)) CLOCK_MONOTONIC demo_loop = Inr (r, e') \<and> loop_ok e' \<and>
    sources e' = sources demo_loop \<and> r = 0 \<and>
    due_in_time (sources demo_loop) (members demo_loop CLOCK_MONOTONIC) (next_set (clocks e' CLOCK_MONOTONIC))"
proof -
  have known: "perturb_known (Some (5, 9)) (perturb demo_loop)" by (simp add: demo_loop_fields perturb_known_def)
  show ?thesis using armed_in_time [OF demo_loop_ok demo_loop_fields(4,3) known, of "\<lambda>_. 0" 2147483647] by (auto split: if_splits)
qed

theorem process_timer_marks_elapsed_witness:
  "\<exists>r e'. process_timer (\<lambda>s e. Inr (0, e)) (\<lambda>_. True) 3 80000000 CLOCK_MONOTONIC False demo_loop = Some (Inr (r, e')) \<and> loop_ok e' \<and>
    (r = - ENOMEM \<and> (\<exists>i :: nat. \<not> True) \<or>
     r = 0 \<and> sources e' = mark_elapsed 80000000 (members demo_loop CLOCK_MONOTONIC) (iteration demo_loop) (sources demo_loop))"
  by (rule process_timer_marks_elapsed [OF demo_loop_ok]) (simp_all add: free_timers_def demo_members demo_loop_fields demo_timer_def)

theorem pending_drains_sorted_witness:
  "\<exists>ss. prioq_drain (pending_prioq_compare (sources demo_loop)) (n_items (demo_queue [2])) (demo_queue [2]) = Inr ss \<and> distinct ss \<and>
    set ss = {s \<in> attached demo_loop. pending (sources demo_loop s)} \<and> sorted (map (pending_rank (sources demo_loop)) ss)"
  by (rule pending_drains_sorted [OF demo_loop_ok]) (simp add: demo_loop_fields)

theorem time_put_all_or_nothing_witness:
  "\<exists>r e'. event_source_time_prioq_put True False 3 CLOCK_MONOTONIC demo_loop = Inr (r, e') \<and> sources e' = sources demo_loop \<and>
    (r = 0 \<and> clock_ok (sources e') (clocks e' CLOCK_MONOTONIC) (insert 3 {1, 2}) \<or>
     r = - ENOMEM \<and> \<not> (True \<and> False) \<and> \<not> room (clocks demo_loop CLOCK_MONOTONIC) {1, 2} \<and> clock_ok (sources e') (clocks e' CLOCK_MONOTONIC) {1, 2})"
  by (rule time_put_all_or_nothing)
    (use demo_clock_ok [of CLOCK_MONOTONIC] in \<open>simp_all add: demo_members demo_loop_fields small_def demo_timer_def limit_set_def event_source_can_rate_limit_def\<close>)

end
