(* ===== verification/EventSources.thy ===== *)
theory EventSources
  imports EventLoop
begin

text \<open>
  Enabling and disabling event sources of every kind, and taking them on and off line (\<open>sd-event.c\<close>). Results of the kernel and of allocations
  within a call are the fields of \<open>kernel\<close>; what does not concern the event loop's own data (signal masks,
  unregistered descriptors that are closed anyway) is left out. The enabled state of a source is one of the three
  values, as the callers' first assertion demands.
\<close>

section \<open>The kernel\<close>

datatype epoll_op = EPOLL_CTL_ADD | EPOLL_CTL_MOD

record kernel =
  epoll_ctl :: "epoll_op \<Rightarrow> nat"          \<comment> \<open>the error number, 0 for none\<close>
  new_signalfd :: "int \<Rightarrow> int set \<Rightarrow> int"  \<comment> \<open>the descriptor or a negative error\<close>
  timerfd_create :: "clock \<Rightarrow> int"        \<comment> \<open>likewise\<close>
  copy_fd :: "int \<Rightarrow> int"                 \<comment> \<open>the copy \<open>fd_move_above_stdio\<close> makes, if it can\<close>
  mem :: "nat \<Rightarrow> bool"                    \<comment> \<open>whether the allocations of the call succeed\<close>

definition EBADF :: int where "EBADF = 9"

definition SIGCHLD :: int where "SIGCHLD = 17"

definition SD_EVENT_PRIORITY_NORMAL :: int where "SD_EVENT_PRIORITY_NORMAL = 0"

definition fd_move_above_stdio :: "kernel \<Rightarrow> int \<Rightarrow> int" where
  "fd_move_above_stdio k fd = (if fd < 0 \<or> 2 < fd then fd else if copy_fd k fd < 0 then fd else copy_fd k fd)"

section \<open>Signals, descriptors and children\<close>

definition event_free_signal_data :: "int \<Rightarrow> event_loop \<Rightarrow> event_loop" where
  "event_free_signal_data p e = e\<lparr>signals := (signals e)(p := None)\<rparr>"

definition signal_priority :: "int \<Rightarrow> event_loop \<Rightarrow> int" where
  "signal_priority sig e = (case signal_sources e sig of Some s \<Rightarrow> priority (sources e s) | None \<Rightarrow> SD_EVENT_PRIORITY_NORMAL)"

definition make_signalfd :: "kernel \<Rightarrow> bool \<Rightarrow> int \<Rightarrow> int \<Rightarrow> signal_data \<Rightarrow> event_loop \<Rightarrow> int \<times> event_loop" where
  \<comment> \<open>\<open>event_make_signal_data\<close> once it has its data; \<open>added\<close> says whether they are new\<close>
  "make_signalfd k added sig p d e =
     (let ss = insert sig (sigset d);
          r = new_signalfd k (if 0 \<le> signal_fd d then signal_fd d else - 1) ss;
          fail = (\<lambda>r e. (r, if added then event_free_signal_data p e else e)) in
      if r < 0 then fail r e
      else if 0 \<le> signal_fd d then (0, e\<lparr>signals := (signals e)(p \<mapsto> d\<lparr>sigset := ss\<rparr>)\<rparr>)
      else
       (let e = e\<lparr>signals := (signals e)(p \<mapsto> d\<lparr>sigset := ss, signal_fd := fd_move_above_stdio k r\<rparr>)\<rparr> in
        if epoll_ctl k EPOLL_CTL_ADD \<noteq> 0 then fail (- int (epoll_ctl k EPOLL_CTL_ADD)) e else (0, e)))"

definition event_make_signal_data :: "kernel \<Rightarrow> int \<Rightarrow> event_loop \<Rightarrow> int \<times> event_loop" where
  "event_make_signal_data k sig e =
     (if pid_changed e then (- ECHILD, e)
      else
       (let p = signal_priority sig e in
        case signals e p of
          Some d \<Rightarrow> if sig \<in> sigset d then (0, e) else make_signalfd k False sig p d e
        | None \<Rightarrow>
            if \<not> mem k 0 \<or> \<not> mem k 1 then (- ENOMEM, e)
            else
             (let d = \<lparr>signal_fd = - EBADF, sigset = {}, current = None\<rparr> in
              make_signalfd k True sig p d (e\<lparr>signals := (signals e)(p \<mapsto> d)\<rparr>))))"

definition event_unmask_signal_data :: "int \<Rightarrow> int \<Rightarrow> event_loop \<Rightarrow> event_loop res" where
  "event_unmask_signal_data p sig e = (case signals e p of None \<Rightarrow> Inl AssertFail
     | Some d \<Rightarrow>
         if sig \<notin> sigset d then Inr e
         else
          (let d = d\<lparr>sigset := sigset d - {sig}\<rparr>; e = e\<lparr>signals := (signals e)(p \<mapsto> d)\<rparr> in
           if sigset d = {} then Inr (event_free_signal_data p e)
           else if pid_changed e then Inr e
           else rbind (rassert (0 \<le> signal_fd d) AssertFail) (\<lambda>_. Inr e)))"

definition unmask_at :: "int \<Rightarrow> int \<Rightarrow> event_loop \<Rightarrow> event_loop res" where \<comment> \<open>\<open>if (d) event_unmask_signal_data\<close>\<close>
  "unmask_at p sig e = (if signals e p = None then Inr e else event_unmask_signal_data p sig e)"

definition event_gc_signal_data :: "int \<Rightarrow> int \<Rightarrow> event_loop \<Rightarrow> event_loop res" where
  "event_gc_signal_data p sig e =
     (if sig = SIGCHLD \<and> 0 < online_children e then Inr e
      else if (case signal_sources e sig of Some s \<Rightarrow> event_source_is_online (sources e s) | None \<Rightarrow> False) then Inr e
      else
       rbind (unmask_at p sig e) (\<lambda>e.
       rbind (case signal_sources e sig of Some s \<Rightarrow> unmask_at (priority (sources e s)) sig e | None \<Rightarrow> Inr e) (\<lambda>e.
       unmask_at 0 sig e)))"

definition source_io_unregister :: "nat \<Rightarrow> event_loop \<Rightarrow> event_loop res" where
  "source_io_unregister s e = rbind (rassert (src_type (sources e s) = SOURCE_IO) AssertFail) (\<lambda>_.
     Inr (if pid_changed e \<or> \<not> registered (sources e s) then e else with_source s (\<lambda>x. x\<lparr>registered := False\<rparr>) e))"

definition source_io_register :: "kernel \<Rightarrow> nat \<Rightarrow> enabled_state \<Rightarrow> event_loop \<Rightarrow> (int \<times> event_loop) res" where
  "source_io_register k s m e =
     (let r = epoll_ctl k (if registered (sources e s) then EPOLL_CTL_MOD else EPOLL_CTL_ADD) in
      rbind (rassert (src_type (sources e s) = SOURCE_IO) AssertFail) (\<lambda>_.
      rbind (rassert (m \<noteq> SD_EVENT_OFF) AssertFail) (\<lambda>_.
      Inr (if r \<noteq> 0 then (- int r, e) else (0, with_source s (\<lambda>x. x\<lparr>registered := True\<rparr>) e)))))"

definition EVENT_SOURCE_WATCH_PIDFD :: "event_source \<Rightarrow> bool" where
  "EVENT_SOURCE_WATCH_PIDFD x \<longleftrightarrow> src_type x = SOURCE_CHILD \<and> watches_pidfd x"

definition source_child_pidfd_unregister :: "nat \<Rightarrow> event_loop \<Rightarrow> event_loop res" where
  "source_child_pidfd_unregister s e = rbind (rassert (src_type (sources e s) = SOURCE_CHILD) AssertFail) (\<lambda>_.
     Inr (if pid_changed e \<or> \<not> registered (sources e s) then e else with_source s (\<lambda>x. x\<lparr>registered := False\<rparr>) e))"

definition source_child_pidfd_register :: "kernel \<Rightarrow> nat \<Rightarrow> enabled_state \<Rightarrow> event_loop \<Rightarrow> (int \<times> event_loop) res" where
  "source_child_pidfd_register k s m e =
     (let r = epoll_ctl k (if registered (sources e s) then EPOLL_CTL_MOD else EPOLL_CTL_ADD) in
      rbind (rassert (src_type (sources e s) = SOURCE_CHILD) AssertFail) (\<lambda>_.
      rbind (rassert (m \<noteq> SD_EVENT_OFF) AssertFail) (\<lambda>_.
      Inr (if EVENT_SOURCE_WATCH_PIDFD (sources e s) \<and> r \<noteq> 0 then (- int r, e)
           else (0, with_source s (\<lambda>x. x\<lparr>registered := True\<rparr>) e)))))"

section \<open>Going offline and online\<close>

definition event_source_pp_prioq_reshuffle :: "nat \<Rightarrow> event_loop \<Rightarrow> event_loop res" where
  "event_source_pp_prioq_reshuffle s e =
     rbind (if pending (sources e s)
            then rbind (queue (pending_q e)) (\<lambda>q. rbind (prioq_reshuffle (pending_prioq_compare (sources e)) s (Some s) q) (\<lambda>q.
              Inr (e\<lparr>pending_q := Some q\<rparr>)))
            else Inr e) (\<lambda>e.
     if has_prepare (sources e s)
     then rbind (queue (prepare_q e)) (\<lambda>q. rbind (prioq_reshuffle (prepare_prioq_compare (sources e)) s (Some s) q) (\<lambda>q.
       Inr (e\<lparr>prepare_q := Some q\<rparr>)))
     else Inr e)"

definition exit_reshuffle :: "nat \<Rightarrow> event_loop \<Rightarrow> event_loop res" where
  "exit_reshuffle s e = rbind (queue (exit_q e)) (\<lambda>q. rbind (prioq_reshuffle (exit_prioq_compare (sources e)) s (Some s) q) (\<lambda>q.
     Inr (e\<lparr>exit_q := Some q\<rparr>)))"

definition child_offline :: "nat \<Rightarrow> bool \<Rightarrow> event_loop \<Rightarrow> event_loop res" where \<comment> \<open>\<open>case SOURCE_CHILD\<close> of \<open>event_source_offline\<close>\<close>
  "child_offline s was_offline e =
     rbind (if was_offline then Inr e
            else rbind (rassert (0 < online_children e) AssertFail) (\<lambda>_. Inr (e\<lparr>online_children := online_children e - 1\<rparr>))) (\<lambda>e.
     if EVENT_SOURCE_WATCH_PIDFD (sources e s) then source_child_pidfd_unregister s e
     else event_gc_signal_data (priority (sources e s)) SIGCHLD e)"

definition offline_by_type :: "nat \<Rightarrow> bool \<Rightarrow> event_loop \<Rightarrow> event_loop res" where
  "offline_by_type s was_offline e =
     (let x = sources e s in
      if src_type x = SOURCE_IO then source_io_unregister s e
      else if src_type x = SOURCE_SIGNAL then event_gc_signal_data (priority x) (signal_no x) e
      else if src_type x = SOURCE_CHILD then child_offline s was_offline e
      else if src_type x = SOURCE_EXIT then exit_reshuffle s e
      else rbind (rassert (src_type x \<noteq> SOURCE_WATCHDOG) AssertFail) (\<lambda>_. Inr e))"

definition unset_pending :: "bool \<Rightarrow> nat \<Rightarrow> event_loop \<Rightarrow> (int \<times> event_loop) res" where
  \<comment> \<open>the first step of going offline or online, if the condition holds\<close>
  "unset_pending b s e =
     (if b \<and> src_type (sources e s) \<noteq> SOURCE_DEFER \<and> src_type (sources e s) \<noteq> SOURCE_EXIT then source_set_pending True s False e else Inr (0, e))"

definition event_source_offline :: "nat \<Rightarrow> enabled_state \<Rightarrow> bool \<Rightarrow> event_loop \<Rightarrow> (int \<times> event_loop) res" where
  "event_source_offline s m lim e =
     rbind (rassert (m = SD_EVENT_OFF \<or> lim) AssertFail) (\<lambda>_.
     rbind (unset_pending (enabled (sources e s) \<noteq> SD_EVENT_OFF \<and> m = SD_EVENT_OFF) s e) (\<lambda>(r, e).
     if r < 0 then Inr (r, e)
     else
      (let was_offline = event_source_is_offline (sources e s);
           e = with_source s (\<lambda>x. x\<lparr>enabled := m, ratelimited := lim\<rparr>) e in
       rbind (offline_by_type s was_offline e) (\<lambda>e.
       rbind (event_source_time_prioq_reshuffle s e) (\<lambda>e. Inr (1, e))))))"

definition signal_online :: "kernel \<Rightarrow> int \<Rightarrow> int \<Rightarrow> event_loop \<Rightarrow> (int \<times> event_loop) res" where
  "signal_online k p sig e =
     (let (r, e) = event_make_signal_data k sig e in
      if r < 0 then rbind (event_gc_signal_data p sig e) (\<lambda>e. Inr (r, e)) else Inr (r, e))"

definition child_online :: "kernel \<Rightarrow> nat \<Rightarrow> enabled_state \<Rightarrow> bool \<Rightarrow> event_loop \<Rightarrow> (int \<times> event_loop) res" where
  "child_online k s m was_online e =
     rbind (if EVENT_SOURCE_WATCH_PIDFD (sources e s) then source_child_pidfd_register k s m e
            else signal_online k (priority (sources e s)) SIGCHLD e) (\<lambda>(r, e).
     Inr (if r < 0 then (r, e) else (0, if was_online then e else e\<lparr>online_children := online_children e + 1\<rparr>)))"

definition online_by_type :: "kernel \<Rightarrow> nat \<Rightarrow> enabled_state \<Rightarrow> bool \<Rightarrow> event_loop \<Rightarrow> (int \<times> event_loop) res" where
  "online_by_type k s m was_online e =
     (let x = sources e s in
      if src_type x = SOURCE_IO then source_io_register k s m e
      else if src_type x = SOURCE_SIGNAL then signal_online k (priority x) (signal_no x) e
      else if src_type x = SOURCE_CHILD then child_online k s m was_online e
      else rbind (rassert (src_type x \<noteq> SOURCE_WATCHDOG) AssertFail) (\<lambda>_. Inr (0, e)))"

definition event_source_online :: "kernel \<Rightarrow> nat \<Rightarrow> enabled_state \<Rightarrow> bool \<Rightarrow> event_loop \<Rightarrow> (int \<times> event_loop) res" where
  "event_source_online k s m lim e =
     rbind (rassert (m \<noteq> SD_EVENT_OFF \<or> \<not> lim) AssertFail) (\<lambda>_.
     rbind (unset_pending (enabled (sources e s) = SD_EVENT_OFF \<and> m \<noteq> SD_EVENT_OFF) s e) (\<lambda>(r, e).
     if r < 0 then Inr (r, e)
     else if m = SD_EVENT_OFF \<or> lim then Inr (0, with_source s (\<lambda>x. x\<lparr>enabled := m, ratelimited := lim\<rparr>) e)
     else
      rbind (online_by_type k s m (event_source_is_online (sources e s)) e) (\<lambda>(r, e).
      if r < 0 then Inr (r, e)
      else
       (let e = with_source s (\<lambda>x. x\<lparr>enabled := m, ratelimited := lim\<rparr>) e in
        rbind (if src_type (sources e s) = SOURCE_EXIT then exit_reshuffle s e else Inr e) (\<lambda>e.
        rbind (event_source_time_prioq_reshuffle s e) (\<lambda>e. Inr (1, e)))))))"

definition sd_event_source_set_enabled :: "kernel \<Rightarrow> nat option \<Rightarrow> enabled_state \<Rightarrow> event_loop \<Rightarrow> (int \<times> event_loop) res" where
  "sd_event_source_set_enabled k s m e = (case s of None \<Rightarrow> Inr (if m = SD_EVENT_OFF then 0 else - EINVAL, e)
     | Some s \<Rightarrow>
         if pid_changed e then Inr (- ECHILD, e)
         else if finished e then Inr (if m = SD_EVENT_OFF then 0 else - ESTALE, e)
         else if enabled (sources e s) = m then Inr (0, e)
         else if m \<noteq> SD_EVENT_OFF \<and> enabled (sources e s) \<noteq> SD_EVENT_OFF then Inr (0, with_source s (\<lambda>x. x\<lparr>enabled := m\<rparr>) e)
         else
          rbind (if m = SD_EVENT_OFF then event_source_offline s m (ratelimited (sources e s)) e
                 else event_source_online k s m (ratelimited (sources e s)) e) (\<lambda>(r, e).
          if r < 0 then Inr (r, e) else rbind (event_source_pp_prioq_reshuffle s e) (\<lambda>e. Inr (0, e))))"

section \<open>What the parts promise\<close>

definition signals_ok :: "event_loop \<Rightarrow> bool" where
  "signals_ok e \<longleftrightarrow> (\<forall>p d. signals e p = Some d \<longrightarrow> 0 \<le> signal_fd d)"

lemma move_above_valid: "0 \<le> fd \<Longrightarrow> 0 \<le> fd_move_above_stdio k fd"
  by (simp add: fd_move_above_stdio_def)

lemma make_signalfd_ok:
  assumes "\<And>q d. q \<noteq> p \<Longrightarrow> signals e q = Some d \<Longrightarrow> 0 \<le> signal_fd d" "added \<or> signals e p = Some d \<and> 0 \<le> signal_fd d"
  obtains r S where "make_signalfd k added sig p d e = (r, e\<lparr>signals := S\<rparr>)" "signals_ok (e\<lparr>signals := S\<rparr>)" "r \<le> 0"
proof (cases "new_signalfd k (if 0 \<le> signal_fd d then signal_fd d else - 1) (insert sig (sigset d)) < 0")
  case True
  let ?r = "new_signalfd k (if 0 \<le> signal_fd d then signal_fd d else - 1) (insert sig (sigset d))"
  have "make_signalfd k added sig p d e = (?r, e\<lparr>signals := if added then (signals e)(p := None) else signals e\<rparr>)"
    using True by (simp add: make_signalfd_def Let_def event_free_signal_data_def)
  moreover have "\<not> added \<Longrightarrow> signals e p = Some d'' \<Longrightarrow> 0 \<le> signal_fd d''" for d'' using assms(2) by auto
  then have "signals_ok (e\<lparr>signals := if added then (signals e)(p := None) else signals e\<rparr>)"
    using assms(1) by (fastforce simp: signals_ok_def)
  ultimately show ?thesis using that True by (metis less_imp_le)
next
  case False
  let ?r = "new_signalfd k (if 0 \<le> signal_fd d then signal_fd d else - 1) (insert sig (sigset d))"
  let ?d = "d\<lparr>sigset := insert sig (sigset d), signal_fd := fd_move_above_stdio k ?r\<rparr>"
  consider "0 \<le> signal_fd d" | "signal_fd d < 0" "epoll_ctl k EPOLL_CTL_ADD \<noteq> 0" | "signal_fd d < 0" "epoll_ctl k EPOLL_CTL_ADD = 0" by linarith
  then show ?thesis
  proof cases
    case 1
    then show ?thesis
      using False assms(1) that [of 0 "(signals e)(p \<mapsto> d\<lparr>sigset := insert sig (sigset d)\<rparr>)"]
      by (auto simp: make_signalfd_def Let_def signals_ok_def)
  next
    case 2
    then show ?thesis
      using False assms that [of "- int (epoll_ctl k EPOLL_CTL_ADD)" "(signals e)(p := None)"]
      by (auto simp: make_signalfd_def Let_def event_free_signal_data_def signals_ok_def)
  next
    case 3
    then show ?thesis
      using False assms(1) move_above_valid [of ?r k] that [of 0 "(signals e)(p \<mapsto> ?d)"]
      by (auto simp: make_signalfd_def Let_def signals_ok_def)
  qed
qed

lemma make_signal_ok:
  assumes "signals_ok e"
  obtains r S where "event_make_signal_data k sig e = (r, e\<lparr>signals := S\<rparr>)" "signals_ok (e\<lparr>signals := S\<rparr>)" "r \<le> 0"
proof -
  let ?p = "signal_priority sig e" and ?d = "\<lparr>signal_fd = - EBADF, sigset = {}, current = None\<rparr>"
  consider "pid_changed e \<or> signals e ?p = None \<and> (\<not> mem k 0 \<or> \<not> mem k 1)"
    | d where "\<not> pid_changed e" "signals e ?p = Some d" "sig \<in> sigset d"
    | d where "\<not> pid_changed e" "signals e ?p = Some d" "sig \<notin> sigset d"
    | "\<not> pid_changed e" "signals e ?p = None" "mem k 0" "mem k 1" by (cases "signals e ?p") auto
  then show ?thesis
  proof cases
    case 1
    then show ?thesis
      using assms that [of "if pid_changed e then - ECHILD else - ENOMEM" "signals e"]
      by (auto simp: event_make_signal_data_def Let_def ECHILD_def ENOMEM_def)
  next
    case (2 d)
    then show ?thesis using assms that [of 0 "signals e"] by (simp add: event_make_signal_data_def Let_def)
  next
    case (3 d)
    have fd: "\<And>q d. q \<noteq> ?p \<Longrightarrow> signals e q = Some d \<Longrightarrow> 0 \<le> signal_fd d" "False \<or> signals e ?p = Some d \<and> 0 \<le> signal_fd d"
      using assms 3(2) by (auto simp: signals_ok_def)
    obtain r S where "make_signalfd k False sig ?p d e = (r, e\<lparr>signals := S\<rparr>)" "signals_ok (e\<lparr>signals := S\<rparr>)" "r \<le> 0"
      by (rule make_signalfd_ok [OF fd])
    then show ?thesis using 3 by (intro that [of r S]) (simp_all add: event_make_signal_data_def Let_def)
  next
    case 4
    let ?e = "e\<lparr>signals := (signals e)(?p \<mapsto> ?d)\<rparr>"
    have fd: "\<And>q d. q \<noteq> ?p \<Longrightarrow> signals ?e q = Some d \<Longrightarrow> 0 \<le> signal_fd d" "True \<or> signals ?e ?p = Some ?d \<and> 0 \<le> signal_fd ?d"
      using assms by (auto simp: signals_ok_def)
    obtain r S where "make_signalfd k True sig ?p ?d ?e = (r, ?e\<lparr>signals := S\<rparr>)" "signals_ok (?e\<lparr>signals := S\<rparr>)" "r \<le> 0"
      by (rule make_signalfd_ok [OF fd])
    then show ?thesis using 4 by (intro that [of r S]) (simp_all add: event_make_signal_data_def Let_def)
  qed
qed

lemma unmask_ok:
  assumes "signals_ok e"
  obtains S where "unmask_at p sig e = Inr (e\<lparr>signals := S\<rparr>)" "signals_ok (e\<lparr>signals := S\<rparr>)"
proof (cases "signals e p")
  case None
  then show ?thesis using assms that [of "signals e"] by (simp add: unmask_at_def)
next
  case (Some d)
  then have fd: "0 \<le> signal_fd d" using assms by (simp add: signals_ok_def)
  define S where "S = (if sig \<notin> sigset d then signals e else if sigset d - {sig} = {} then (signals e)(p := None)
     else (signals e)(p \<mapsto> d\<lparr>sigset := sigset d - {sig}\<rparr>))"
  have "unmask_at p sig e = Inr (e\<lparr>signals := S\<rparr>)"
    using Some fd by (simp add: unmask_at_def event_unmask_signal_data_def Let_def S_def event_free_signal_data_def)
  moreover have "signals_ok (e\<lparr>signals := S\<rparr>)" using assms fd by (simp add: signals_ok_def S_def)
  ultimately show ?thesis using that by blast
qed

lemma gc_signal_ok:
  assumes "signals_ok e"
  obtains S where "event_gc_signal_data p sig e = Inr (e\<lparr>signals := S\<rparr>)" "signals_ok (e\<lparr>signals := S\<rparr>)"
proof (cases "sig = SIGCHLD \<and> 0 < online_children e \<or> (case signal_sources e sig of Some s \<Rightarrow> event_source_is_online (sources e s) | None \<Rightarrow> False)")
  case True
  then have "event_gc_signal_data p sig e = Inr (e\<lparr>signals := signals e\<rparr>)" by (auto simp: event_gc_signal_data_def)
  then show ?thesis using that [of "signals e"] assms by simp
next
  case False
  obtain S1 where S1: "unmask_at p sig e = Inr (e\<lparr>signals := S1\<rparr>)" "signals_ok (e\<lparr>signals := S1\<rparr>)" by (rule unmask_ok [OF assms])
  obtain S2 where S2: "(case signal_sources e sig of Some s \<Rightarrow> unmask_at (priority (sources e s)) sig (e\<lparr>signals := S1\<rparr>)
      | None \<Rightarrow> Inr (e\<lparr>signals := S1\<rparr>)) = Inr (e\<lparr>signals := S2\<rparr>)" "signals_ok (e\<lparr>signals := S2\<rparr>)"
  proof (cases "signal_sources e sig")
    case None
    then show ?thesis using that S1(2) by simp
  next
    case (Some s)
    obtain S where "unmask_at (priority (sources e s)) sig (e\<lparr>signals := S1\<rparr>) = Inr (e\<lparr>signals := S1\<rparr>\<lparr>signals := S\<rparr>)"
      "signals_ok (e\<lparr>signals := S1\<rparr>\<lparr>signals := S\<rparr>)" by (rule unmask_ok [OF S1(2)])
    then show ?thesis using that Some by simp
  qed
  obtain S3 where S3: "unmask_at 0 sig (e\<lparr>signals := S2\<rparr>) = Inr (e\<lparr>signals := S2\<rparr>\<lparr>signals := S3\<rparr>)" "signals_ok (e\<lparr>signals := S2\<rparr>\<lparr>signals := S3\<rparr>)"
    by (rule unmask_ok [OF S2(2)])
  have "event_gc_signal_data p sig e = Inr (e\<lparr>signals := S3\<rparr>)"
    using False S1(1) S2(1) S3(1) by (auto simp: event_gc_signal_data_def cong: option.case_cong)
  then show ?thesis using that S3(2) by simp
qed

text \<open>The queues of the pending sources and of those with a prepare callback, after one source has changed.\<close>

lemma pending_reorder_ok:
  assumes "pending_ok \<sigma> A q" "small A" "s \<in> A" "\<And>x. x \<noteq> s \<Longrightarrow> \<tau> x = \<sigma> x" "pending (\<tau> s) = pending (\<sigma> s)"
  obtains "\<not> pending (\<tau> s)" "pending_ok \<tau> A q"
  | p p' where "pending (\<tau> s)" "q = Some p" "prioq_reshuffle (pending_prioq_compare \<tau>) s (Some s) p = Inr p'" "pending_ok \<tau> A (Some p')"
proof (cases "pending (\<tau> s)")
  case True
  let ?P = "{x \<in> A. pending (\<sigma> x)}"
  obtain p where p: "q = Some p" "queue_of (pending_rank \<sigma>) (\<lambda>s. pending (\<sigma> s)) (Some p) ?P" using assms(1) by (auto simp: pending_ok_def)
  have P: "s \<in> ?P" "card ?P \<le> PRIOQ_IDX_NULL" "{x \<in> A. pending (\<tau> x)} = ?P"
    using True assms(2-5) small_index [OF small_subset [OF assms(2), of ?P]] by auto (metis assms(4))+
  have r: "pending_rank \<tau> x = pending_rank \<sigma> x \<and> (pending (\<sigma> x) \<longrightarrow> pending (\<tau> x))" if "x \<in> ?P" "x \<noteq> s" for x
    using rank_cong(1) [of \<tau> x \<sigma>] assms(4) [OF that(2)] by simp
  show ?thesis
    by (rule pendings.reshuffles [OF p(2) P(1,2) r True]) (use that(2) True p(1) P(3) in \<open>simp_all add: pending_ok_def\<close>)
next
  case False
  have "pending_ok \<tau> A q"
  proof (rule pending_ok_ranks [OF assms(1)])
    fix x show "pending (\<tau> x) = pending (\<sigma> x)" using assms(4,5) by (cases "x = s") auto
    show "pending_rank \<tau> x = pending_rank \<sigma> x" if "pending (\<sigma> x)"
      using that False assms(4,5) rank_cong(1) [of \<tau> x \<sigma>] by (cases "x = s") auto
  qed
  then show ?thesis using that(1) False by blast
qed

lemma prepare_reorder_ok:
  assumes "prepare_ok \<sigma> A q" "small A" "s \<in> A" "\<And>x. x \<noteq> s \<Longrightarrow> \<tau> x = \<sigma> x" "has_prepare (\<tau> s) = has_prepare (\<sigma> s)"
  obtains "\<not> has_prepare (\<tau> s)" "prepare_ok \<tau> A q"
  | p p' where "has_prepare (\<tau> s)" "q = Some p" "prioq_reshuffle (prepare_prioq_compare \<tau>) s (Some s) p = Inr p'" "prepare_ok \<tau> A (Some p')"
proof (cases "has_prepare (\<tau> s)")
  case True
  let ?P = "{x \<in> A. has_prepare (\<sigma> x)}"
  have P: "s \<in> ?P" "card ?P \<le> PRIOQ_IDX_NULL" "{x \<in> A. has_prepare (\<tau> x)} = ?P"
    using True assms(2-5) small_index [OF small_subset [OF assms(2), of ?P]] by auto (metis assms(4))+
  obtain p where p: "q = Some p" "queue_of (prepare_rank \<sigma>) (\<lambda>s. has_prepare (\<sigma> s)) (Some p) ?P"
    using assms(1) P(1) by (cases q) (auto simp: prepare_ok_def queue_of_def)
  have r: "prepare_rank \<tau> x = prepare_rank \<sigma> x \<and> (has_prepare (\<sigma> x) \<longrightarrow> has_prepare (\<tau> x))" if "x \<in> ?P" "x \<noteq> s" for x
    using rank_cong(2) [of \<tau> x \<sigma>] assms(4) [OF that(2)] by simp
  show ?thesis
    by (rule prepares.reshuffles [OF p(2) P(1,2) r True]) (use that(2) True p(1) P(3) in \<open>simp_all add: prepare_ok_def\<close>)
next
  case False
  have "prepare_ok \<tau> A q"
  proof (rule prepare_ok_ranks [OF assms(1)])
    fix x show "has_prepare (\<tau> x) = has_prepare (\<sigma> x)" using assms(4,5) by (cases "x = s") auto
    show "prepare_rank \<tau> x = prepare_rank \<sigma> x" if "has_prepare (\<sigma> x)"
      using that False assms(4,5) rank_cong(2) [of \<tau> x \<sigma>] by (cases "x = s") auto
  qed
  then show ?thesis using that(1) False by blast
qed

lemma pp_reshuffle_ok:
  assumes "pending_ok \<sigma> A (pending_q e)" "prepare_ok \<sigma> A (prepare_q e)" "small A" "s \<in> A" "\<And>x. x \<noteq> s \<Longrightarrow> sources e x = \<sigma> x"
    "pending (sources e s) = pending (\<sigma> s)" "has_prepare (sources e s) = has_prepare (\<sigma> s)"
  obtains p r where "event_source_pp_prioq_reshuffle s e = Inr (e\<lparr>pending_q := p, prepare_q := r\<rparr>)"
    "pending_ok (sources e) A p" "prepare_ok (sources e) A r"
proof -
  obtain p where p: "pending_ok (sources e) A p" "(if pending (sources e s)
      then rbind (queue (pending_q e)) (\<lambda>q. rbind (prioq_reshuffle (pending_prioq_compare (sources e)) s (Some s) q) (\<lambda>q. Inr (e\<lparr>pending_q := Some q\<rparr>)))
      else Inr e) = Inr (e\<lparr>pending_q := p\<rparr>)"
    by (rule pending_reorder_ok [OF assms(1,3,4,5,6)]) (fastforce simp: queue_def)+
  obtain r where r: "prepare_ok (sources e) A r" "(if has_prepare (sources e s)
      then rbind (queue (prepare_q e)) (\<lambda>q. rbind (prioq_reshuffle (prepare_prioq_compare (sources e)) s (Some s) q) (\<lambda>q.
        Inr (e\<lparr>pending_q := p, prepare_q := Some q\<rparr>)))
      else Inr (e\<lparr>pending_q := p\<rparr>)) = Inr (e\<lparr>pending_q := p, prepare_q := r\<rparr>)"
  proof (rule prepare_reorder_ok [OF assms(2-5,7)])
    assume "\<not> has_prepare (sources e s)" "prepare_ok (sources e) A (prepare_q e)"
    moreover have "e\<lparr>pending_q := p, prepare_q := prepare_q e\<rparr> = e\<lparr>pending_q := p\<rparr>" by (cases e) simp
    ultimately show thesis using that [of "prepare_q e"] by simp
  next
    fix q q' assume "has_prepare (sources e s)" "prepare_q e = Some q" "prepare_ok (sources e) A (Some q')"
      "prioq_reshuffle (prepare_prioq_compare (sources e)) s (Some s) q = Inr q'"
    then show thesis using that [of "Some q'"] by (simp add: queue_def)
  qed
  have "event_source_pp_prioq_reshuffle s e = Inr (e\<lparr>pending_q := p, prepare_q := r\<rparr>)"
    unfolding event_source_pp_prioq_reshuffle_def p(2) using r(2) by (simp cong: if_cong split del: if_split)
  then show ?thesis using that p(1) r(1) by blast
qed

lemma exit_reshuffle_ok:
  assumes "exit_ok \<sigma> A (exit_q e)" "small A" "s \<in> A" "\<And>x. x \<noteq> s \<Longrightarrow> sources e x = \<sigma> x" "src_type (sources e s) = src_type (\<sigma> s)"
    "src_type (sources e s) = SOURCE_EXIT"
  obtains q where "exit_reshuffle s e = Inr (e\<lparr>exit_q := q\<rparr>)" "exit_ok (sources e) A q"
proof -
  let ?P = "{x \<in> A. src_type (\<sigma> x) = SOURCE_EXIT}" and ?\<tau> = "sources e"
  have P: "s \<in> ?P" "card ?P \<le> PRIOQ_IDX_NULL" "{x \<in> A. src_type (?\<tau> x) = SOURCE_EXIT} = ?P"
    using assms(2-6) small_index [OF small_subset [OF assms(2), of ?P]] by auto (metis assms(4))+
  obtain p where p: "exit_q e = Some p" "queue_of (exit_rank \<sigma>) (\<lambda>s. src_type (\<sigma> s) = SOURCE_EXIT) (Some p) ?P"
    using assms(1) P(1) by (cases "exit_q e") (auto simp: exit_ok_def queue_of_def)
  have r: "exit_rank ?\<tau> x = exit_rank \<sigma> x \<and> (src_type (\<sigma> x) = SOURCE_EXIT \<longrightarrow> src_type (?\<tau> x) = SOURCE_EXIT)" if "x \<in> ?P" "x \<noteq> s" for x
    using rank_cong(3) [of ?\<tau> x \<sigma>] assms(4) [OF that(2)] by simp
  show ?thesis
    by (rule exits.reshuffles [OF p(2) P(1,2) r assms(6)]) (use that p(1) P(3) in \<open>simp_all add: exit_ok_def exit_reshuffle_def queue_def\<close>)
qed

lemma exit_ok_unless:
  assumes "exit_ok \<sigma> A q" "\<And>x. x \<noteq> s \<Longrightarrow> \<tau> x = \<sigma> x" "src_type (\<tau> s) = src_type (\<sigma> s)" "src_type (\<tau> s) \<noteq> SOURCE_EXIT"
  shows "exit_ok \<tau> A q"
proof (rule exit_ok_ranks [OF assms(1)])
  fix x show "src_type (\<tau> x) = src_type (\<sigma> x)" using assms(2,3) by (cases "x = s") auto
  show "exit_rank \<tau> x = exit_rank \<sigma> x" if "src_type (\<sigma> x) = SOURCE_EXIT"
    using that assms(2,3,4) rank_cong(3) [of \<tau> x \<sigma>] by (cases "x = s") auto
qed

text \<open>The end of every change of state: all but two queues are in order, and those two are put in order.\<close>

lemma finish_change_ok:
  assumes "pending_ok \<sigma> (attached e) (pending_q e)" "prepare_ok \<sigma> (attached e) (prepare_q e)" "s \<in> attached e"
    "\<And>x. x \<noteq> s \<Longrightarrow> sources e x = \<sigma> x" "pending (sources e s) = pending (\<sigma> s)" "has_prepare (sources e s) = has_prepare (\<sigma> s)"
    "exit_ok (sources e) (attached e) (exit_q e)" "\<And>c. clock_ok (sources e) (clocks e c) (members e c)" "books_ok e"
  obtains e' where "event_source_pp_prioq_reshuffle s e = Inr e'" "loop_ok e'" "same_loop e e'" "sources e' = sources e"
proof -
  have "small (attached e)" using assms(9) by (simp add: books_ok_def)
  then obtain p r where pr: "event_source_pp_prioq_reshuffle s e = Inr (e\<lparr>pending_q := p, prepare_q := r\<rparr>)"
    "pending_ok (sources e) (attached e) p" "prepare_ok (sources e) (attached e) r"
    by (rule pp_reshuffle_ok [OF assms(1,2) _ assms(3-6)])
  let ?e = "e\<lparr>pending_q := p, prepare_q := r\<rparr>"
  have "members ?e = members e" "inotify_pending ?e = inotify_pending e" "children_online ?e = children_online e" "source_ok ?e = source_ok e"
    by (auto simp: members_def inotify_pending_def children_online_def source_ok_def fun_eq_iff)
  then have "loop_ok ?e" using pr(2,3) assms(7-9) by (simp add: loop_ok_def queues_ok_def books_ok_def)
  then show ?thesis using that pr(1) by (simp add: same_loop_def)
qed

text \<open>Leaving and joining the kernel, by the type of the source.\<close>

lemma registered_same [simp]: "x\<lparr>registered := registered x\<rparr> = x"
  by (cases x) simp

lemma exit_ok_registered: "exit_ok \<sigma> A q \<Longrightarrow> exit_ok (\<sigma>(s := (\<sigma> s)\<lparr>registered := b\<rparr>)) A q"
  by (erule exit_ok_ranks) (auto simp: exit_rank_def)

text \<open>\<open>left s b X S n e\<close>: the loop after the kernel has been told.\<close>

definition left :: "nat \<Rightarrow> bool \<Rightarrow> nat prioq option \<Rightarrow> (int \<Rightarrow> signal_data option) \<Rightarrow> nat \<Rightarrow> event_loop \<Rightarrow> event_loop" where
  "left s b X S n e = e\<lparr>sources := (sources e)(s := (sources e s)\<lparr>registered := b\<rparr>), exit_q := X, signals := S, online_children := n\<rparr>"

lemma left_simps [simp]:
  "sources (left s b X S n e) = (sources e)(s := (sources e s)\<lparr>registered := b\<rparr>)" "exit_q (left s b X S n e) = X"
  "signals (left s b X S n e) = S" "online_children (left s b X S n e) = n" "attached (left s b X S n e) = attached e"
  "clocks (left s b X S n e) = clocks e" "pending_q (left s b X S n e) = pending_q e" "prepare_q (left s b X S n e) = prepare_q e"
  "same_loop e' (left s b X S n e) = same_loop e' e" "inotify_of (left s b X S n e) = inotify_of e" "n_pending (left s b X S n e) = n_pending e"
  by (simp_all add: left_def same_loop_def)

lemma left_same: "left s (registered (sources e s)) (exit_q e) (signals e) (online_children e) e = e"
  by (cases e) (simp add: left_def)

lemma left_fields:
  "left s (registered (sources e s)) (exit_q e) S (online_children e) e = e\<lparr>signals := S\<rparr>"
  "left s b (exit_q e) (signals e) (online_children e) e = with_source s (\<lambda>x. x\<lparr>registered := b\<rparr>) e"
  "left s (registered (sources e s)) X (signals e) (online_children e) e = e\<lparr>exit_q := X\<rparr>"
  "left s (registered (sources e s)) (exit_q e) S n e = e\<lparr>online_children := n, signals := S\<rparr>"
  "left s b (exit_q e) (signals e) n e = with_source s (\<lambda>x. x\<lparr>registered := b\<rparr>) (e\<lparr>online_children := n\<rparr>)"
  by (cases e, simp add: left_def with_source_def)+

lemma unregister_ok:
  obtains b where "src_type (sources e s) = SOURCE_IO \<Longrightarrow> source_io_unregister s e = Inr (with_source s (\<lambda>x. x\<lparr>registered := b\<rparr>) e)"
    "src_type (sources e s) = SOURCE_CHILD \<Longrightarrow> source_child_pidfd_unregister s e = Inr (with_source s (\<lambda>x. x\<lparr>registered := b\<rparr>) e)"
proof -
  have same: "with_source s (\<lambda>x. x\<lparr>registered := registered (sources e s)\<rparr>) e = e" by (simp add: with_source_def)
  show ?thesis
    by (rule that [of "registered (sources e s) \<and> pid_changed e"])
      (cases "registered (sources e s)"; cases "pid_changed e"; use same in \<open>simp add: source_io_unregister_def source_child_pidfd_unregister_def\<close>)+
qed

lemma offline_by_type_ok:
  assumes "signals_ok e" "exit_ok \<sigma> A (exit_q e)" "small A" "s \<in> A" "\<And>x. x \<noteq> s \<Longrightarrow> sources e x = \<sigma> x"
    "src_type (sources e s) = src_type (\<sigma> s)" "src_type (sources e s) \<noteq> SOURCE_WATCHDOG"
    "src_type (sources e s) = SOURCE_CHILD \<Longrightarrow> \<not> w \<Longrightarrow> 0 < online_children e"
  defines "n \<equiv> if src_type (sources e s) = SOURCE_CHILD \<and> \<not> w then online_children e - 1 else online_children e"
  obtains b X S where "offline_by_type s w e = Inr (left s b X S n e)" "signals_ok (e\<lparr>signals := S\<rparr>)"
    "exit_ok ((sources e)(s := (sources e s)\<lparr>registered := b\<rparr>)) A X"
proof -
  let ?t = "src_type (sources e s)" and ?b = "registered (sources e s)"
  obtain b where b: "?t = SOURCE_IO \<Longrightarrow> source_io_unregister s e = Inr (with_source s (\<lambda>x. x\<lparr>registered := b\<rparr>) e)"
    by (rule unregister_ok [of e s]) blast
  have x: "?t \<noteq> SOURCE_EXIT \<Longrightarrow> exit_ok (sources e) A (exit_q e)" by (rule exit_ok_unless [OF assms(2,5,6)])
  consider "?t = SOURCE_IO" | "?t = SOURCE_SIGNAL" | "?t = SOURCE_CHILD" | "?t = SOURCE_EXIT"
    | "?t \<notin> {SOURCE_IO, SOURCE_SIGNAL, SOURCE_CHILD, SOURCE_EXIT}" by blast
  then show ?thesis
  proof cases
    case 1
    then have "offline_by_type s w e = Inr (left s b (exit_q e) (signals e) n e)"
      using b by (simp add: offline_by_type_def n_def left_fields(2))
    then show ?thesis using that assms(1) exit_ok_registered [OF x] 1 by simp
  next
    case 2
    obtain S where "event_gc_signal_data (priority (sources e s)) (signal_no (sources e s)) e = Inr (e\<lparr>signals := S\<rparr>)" "signals_ok (e\<lparr>signals := S\<rparr>)"
      by (rule gc_signal_ok [OF assms(1)])
    then show ?thesis using that [of ?b "exit_q e" S] 2 x by (simp add: offline_by_type_def n_def left_fields(1))
  next
    case 3
    let ?e = "e\<lparr>online_children := n\<rparr>"
    have count: "(if w then Inr e else rbind (rassert (0 < online_children e) AssertFail) (\<lambda>_. Inr (e\<lparr>online_children := online_children e - 1\<rparr>))) = Inr ?e"
      using assms(8) 3 by (simp add: n_def)
    show ?thesis
    proof (cases "EVENT_SOURCE_WATCH_PIDFD (sources e s)")
      case True
      obtain b where "source_child_pidfd_unregister s ?e = Inr (with_source s (\<lambda>x. x\<lparr>registered := b\<rparr>) ?e)"
        by (rule unregister_ok [of ?e s]) (use 3 in auto)
      then have "offline_by_type s w e = Inr (left s b (exit_q e) (signals e) n e)"
        using 3 True count by (simp add: offline_by_type_def child_offline_def left_fields(5))
      then show ?thesis using that assms(1) exit_ok_registered [OF x] 3 by simp
    next
      case False
      obtain S where S: "event_gc_signal_data (priority (sources e s)) SIGCHLD ?e = Inr (?e\<lparr>signals := S\<rparr>)" "signals_ok (?e\<lparr>signals := S\<rparr>)"
        by (rule gc_signal_ok [of ?e]) (use assms(1) in \<open>simp add: signals_ok_def\<close>)
      then have "offline_by_type s w e = Inr (left s ?b (exit_q e) S n e)"
        using 3 False count by (simp add: offline_by_type_def child_offline_def left_fields(4))
      then show ?thesis using that S(2) x 3 by (simp add: signals_ok_def)
    qed
  next
    case 4
    obtain X where "exit_reshuffle s e = Inr (e\<lparr>exit_q := X\<rparr>)" "exit_ok (sources e) A X"
      by (rule exit_reshuffle_ok [OF assms(2-6) 4])
    then show ?thesis using that [of ?b X "signals e"] assms(1) 4 by (simp add: offline_by_type_def n_def left_fields(3))
  next
    case 5
    then show ?thesis using that [of ?b "exit_q e" "signals e"] assms(1,7) x by (simp add: offline_by_type_def n_def left_same)
  qed
qed

lemma register_ok:
  assumes "m \<noteq> SD_EVENT_OFF"
  obtains r b where "src_type (sources e s) = SOURCE_IO \<longrightarrow> source_io_register k s m e = Inr (r, with_source s (\<lambda>x. x\<lparr>registered := b\<rparr>) e)"
    "src_type (sources e s) = SOURCE_CHILD \<longrightarrow> source_child_pidfd_register k s m e = Inr (r, with_source s (\<lambda>x. x\<lparr>registered := b\<rparr>) e)"
    "r \<le> 0" "r < 0 \<longrightarrow> b = registered (sources e s)"
proof -
  have same: "with_source s (\<lambda>x. x\<lparr>registered := registered (sources e s)\<rparr>) e = e" by (simp add: with_source_def)
  let ?r = "epoll_ctl k (if registered (sources e s) then EPOLL_CTL_MOD else EPOLL_CTL_ADD)"
  show ?thesis
  proof (cases "?r = 0 \<or> src_type (sources e s) = SOURCE_CHILD \<and> \<not> EVENT_SOURCE_WATCH_PIDFD (sources e s)")
    case True
    then show ?thesis
      using assms by (intro that [of 0 True]) (auto simp: source_io_register_def source_child_pidfd_register_def Let_def)
  next
    case False
    then show ?thesis
      using assms same by (intro that [of "- int ?r" "registered (sources e s)"])
        (auto simp: source_io_register_def source_child_pidfd_register_def Let_def)
  qed
qed

lemma signal_online_ok:
  assumes "signals_ok e"
  obtains r S where "signal_online k p sig e = Inr (r, e\<lparr>signals := S\<rparr>)" "signals_ok (e\<lparr>signals := S\<rparr>)" "r \<le> 0"
proof -
  obtain r S where m: "event_make_signal_data k sig e = (r, e\<lparr>signals := S\<rparr>)" "signals_ok (e\<lparr>signals := S\<rparr>)" "r \<le> 0"
    by (rule make_signal_ok [OF assms])
  obtain S' where g: "event_gc_signal_data p sig (e\<lparr>signals := S\<rparr>) = Inr (e\<lparr>signals := S\<rparr>\<lparr>signals := S'\<rparr>)" "signals_ok (e\<lparr>signals := S\<rparr>\<lparr>signals := S'\<rparr>)"
    by (rule gc_signal_ok [OF m(2)])
  show ?thesis using that [of r "if r < 0 then S' else S"] m g by (simp add: signal_online_def)
qed

lemma online_by_type_ok:
  assumes "signals_ok e" "src_type (sources e s) \<noteq> SOURCE_WATCHDOG" "m \<noteq> SD_EVENT_OFF"
  obtains r b S n where "online_by_type k s m w e = Inr (r, left s b (exit_q e) S n e)" "signals_ok (e\<lparr>signals := S\<rparr>)" "r \<le> 0"
    "n = (if r = 0 \<and> src_type (sources e s) = SOURCE_CHILD \<and> \<not> w then online_children e + 1 else online_children e)"
proof -
  let ?t = "src_type (sources e s)" and ?b = "registered (sources e s)"
  obtain r b where b: "?t = SOURCE_IO \<longrightarrow> source_io_register k s m e = Inr (r, with_source s (\<lambda>x. x\<lparr>registered := b\<rparr>) e)"
    "?t = SOURCE_CHILD \<longrightarrow> source_child_pidfd_register k s m e = Inr (r, with_source s (\<lambda>x. x\<lparr>registered := b\<rparr>) e)" "r \<le> 0"
    "r < 0 \<longrightarrow> b = ?b" by (rule register_ok [OF assms(3), of e s k])
  consider "?t = SOURCE_IO" | "?t = SOURCE_SIGNAL" | "?t = SOURCE_CHILD" | "?t \<notin> {SOURCE_IO, SOURCE_SIGNAL, SOURCE_CHILD}" by blast
  then show ?thesis
  proof cases
    case 1
    then show ?thesis using that [of r b "signals e" "online_children e"] b(1,3) assms(1) by (simp add: online_by_type_def left_fields(2))
  next
    case 2
    obtain r S where "signal_online k (priority (sources e s)) (signal_no (sources e s)) e = Inr (r, e\<lparr>signals := S\<rparr>)"
      "signals_ok (e\<lparr>signals := S\<rparr>)" "r \<le> 0" by (rule signal_online_ok [OF assms(1)])
    then show ?thesis using that [of r ?b S "online_children e"] 2 by (simp add: online_by_type_def left_fields(1))
  next
    case 3
    obtain r b S where c: "(if EVENT_SOURCE_WATCH_PIDFD (sources e s) then source_child_pidfd_register k s m e
        else signal_online k (priority (sources e s)) SIGCHLD e) = Inr (r, left s b (exit_q e) S (online_children e) e)"
      "signals_ok (e\<lparr>signals := S\<rparr>)" "r \<le> 0"
    proof (cases "EVENT_SOURCE_WATCH_PIDFD (sources e s)")
      case True
      then show ?thesis using that [of r b "signals e"] b(2,3) 3 assms(1) by (simp add: left_fields(2))
    next
      case False
      obtain r S where "signal_online k (priority (sources e s)) SIGCHLD e = Inr (r, e\<lparr>signals := S\<rparr>)" "signals_ok (e\<lparr>signals := S\<rparr>)" "r \<le> 0"
        by (rule signal_online_ok [OF assms(1)])
      then show ?thesis using that [of r ?b S] False by (simp add: left_fields(1))
    qed
    let ?n = "if r = 0 \<and> \<not> w then online_children e + 1 else online_children e"
    have "left s b (exit_q e) S (online_children e) e\<lparr>online_children := n\<rparr> = left s b (exit_q e) S n e" for n
      by (simp add: left_def)
    then have "child_online k s m w e = Inr (r, left s b (exit_q e) S ?n e)"
      using c(3) unfolding child_online_def c(1) by auto
    then have "online_by_type k s m w e = Inr (r, left s b (exit_q e) S ?n e)"
      using 3 by (simp add: online_by_type_def)
    then show ?thesis by (rule that [OF _ c(2,3)]) (use 3 in auto)
  next
    case 4
    then show ?thesis using that [of 0 ?b "signals e" "online_children e"] assms(1,2) by (simp add: online_by_type_def left_same)
  qed
qed

section \<open>What the kernel watches\<close>

definition watched :: "event_loop \<Rightarrow> int \<Rightarrow> int set" where \<comment> \<open>the signals that are read at a priority\<close>
  "watched e p = (case signals e p of None \<Rightarrow> {} | Some d \<Rightarrow> sigset d)"

definition own_signals :: "event_source \<Rightarrow> int set" where
  "own_signals x = (if src_type x = SOURCE_SIGNAL then {signal_no x} else if src_type x = SOURCE_CHILD \<and> \<not> watches_pidfd x then {SIGCHLD} else {})"

definition kernel_watches :: "nat \<Rightarrow> event_loop \<Rightarrow> bool" where \<comment> \<open>a source that is enabled is heard of\<close>
  "kernel_watches s e \<longleftrightarrow> (src_type (sources e s) = SOURCE_IO \<or> EVENT_SOURCE_WATCH_PIDFD (sources e s) \<longrightarrow> registered (sources e s)) \<and>
     (\<forall>g \<in> own_signals (sources e s). g \<in> watched e (signal_priority g e))"

definition still_needed :: "int \<Rightarrow> event_loop \<Rightarrow> bool" where \<comment> \<open>a signal that some source is online for\<close>
  "still_needed g e \<longleftrightarrow> g = SIGCHLD \<and> 0 < online_children e \<or> (\<exists>y. signal_sources e g = Some y \<and> event_source_is_online (sources e y))"

definition kernel_forgets :: "nat \<Rightarrow> event_loop \<Rightarrow> bool" where \<comment> \<open>a source that is disabled is not\<close>
  "kernel_forgets s e \<longleftrightarrow> (src_type (sources e s) = SOURCE_IO \<or> EVENT_SOURCE_WATCH_PIDFD (sources e s) \<longrightarrow> \<not> registered (sources e s)) \<and>
     (\<forall>g \<in> own_signals (sources e s). g \<in> watched e (priority (sources e s)) \<longrightarrow> still_needed g e)"

definition willing :: "kernel \<Rightarrow> bool" where \<comment> \<open>nothing fails\<close>
  "willing k \<longleftrightarrow> (\<forall>oper. epoll_ctl k oper = 0) \<and> (\<forall>fd S. 0 \<le> new_signalfd k fd S) \<and> (\<forall>c. 0 \<le> timerfd_create k c) \<and> (\<forall>i. mem k i)"

lemma make_signalfd_watched:
  assumes "make_signalfd k added sig p d e = (r, e')" "added \<and> signals e p = Some d \<and> sigset d = {} \<or> \<not> added \<and> signals e p = Some d \<and> 0 \<le> signal_fd d"
  shows "r < 0 \<Longrightarrow> watched e' q = watched e q" "0 \<le> r \<Longrightarrow> watched e' q = (if q = p then insert sig (watched e q) else watched e q)" "willing k \<Longrightarrow> r = 0"
proof -
  show "r < 0 \<Longrightarrow> watched e' q = watched e q" "0 \<le> r \<Longrightarrow> watched e' q = (if q = p then insert sig (watched e q) else watched e q)"
    using assms by (auto simp: make_signalfd_def watched_def event_free_signal_data_def Let_def split: if_splits)
  assume "willing k"
  then have "\<not> new_signalfd k fd S < 0" "epoll_ctl k oper = 0" for fd S oper by (auto simp: willing_def not_less)
  then show "r = 0" using assms(1) by (auto simp: make_signalfd_def Let_def split: if_splits)
qed

lemma make_signal_watched:
  assumes "event_make_signal_data k sig e = (r, e')" "signals_ok e"
  shows "r < 0 \<Longrightarrow> watched e' q = watched e q"
    "0 \<le> r \<Longrightarrow> watched e' q = (if q = signal_priority sig e then insert sig (watched e q) else watched e q)"
    "willing k \<Longrightarrow> \<not> pid_changed e \<Longrightarrow> r = 0"
proof -
  let ?p = "signal_priority sig e" and ?d = "\<lparr>signal_fd = - EBADF, sigset = {}, current = None\<rparr>"
  let ?e = "e\<lparr>signals := (signals e)(?p \<mapsto> ?d)\<rparr>"
  have new: "watched ?e q = watched e q" if "signals e ?p = None" for q using that by (simp add: watched_def)
  have no: "0 < ECHILD" "0 < ENOMEM" by (simp_all add: ECHILD_def ENOMEM_def)
  consider "pid_changed e" | "\<not> pid_changed e" "signals e ?p = None" "\<not> mem k 0 \<or> \<not> mem k 1"
    | d where "\<not> pid_changed e" "signals e ?p = Some d" "sig \<in> sigset d"
    | d where "\<not> pid_changed e" "signals e ?p = Some d" "sig \<notin> sigset d" "make_signalfd k False sig ?p d e = (r, e')"
    | "\<not> pid_changed e" "signals e ?p = None" "make_signalfd k True sig ?p ?d ?e = (r, e')"
    using assms(1) by (auto simp: event_make_signal_data_def Let_def split: option.splits if_splits)
  then have "(r < 0 \<longrightarrow> watched e' q = watched e q) \<and>
    (0 \<le> r \<longrightarrow> watched e' q = (if q = ?p then insert sig (watched e q) else watched e q)) \<and> (willing k \<and> \<not> pid_changed e \<longrightarrow> r = 0)"
  proof cases
    case 1
    then show ?thesis using assms(1) no by (auto simp: event_make_signal_data_def)
  next
    case 2
    then show ?thesis using assms(1) no by (auto simp: event_make_signal_data_def willing_def Let_def)
  next
    case (3 d)
    then show ?thesis using assms(1) by (auto simp: event_make_signal_data_def watched_def Let_def)
  next
    case (4 d)
    have "\<not> False \<and> signals e ?p = Some d \<and> 0 \<le> signal_fd d" using 4(2) assms(2) by (simp add: signals_ok_def)
    then show ?thesis using make_signalfd_watched [OF 4(4)] by blast
  next
    case 5
    then show ?thesis using make_signalfd_watched(1,2) [OF 5(3), of q] make_signalfd_watched(3) [OF 5(3)] new [OF 5(2)] by simp
  qed
  then show "r < 0 \<Longrightarrow> watched e' q = watched e q"
    "0 \<le> r \<Longrightarrow> watched e' q = (if q = ?p then insert sig (watched e q) else watched e q)"
    "willing k \<Longrightarrow> \<not> pid_changed e \<Longrightarrow> r = 0" by blast+
qed

lemma unmask_watched:
  assumes "unmask_at q sig e = Inr e'"
  shows "watched e' p = (if p = q then watched e p - {sig} else watched e p)"
  using assms by (cases "signals e q")
    (auto simp: unmask_at_def event_unmask_signal_data_def event_free_signal_data_def watched_def Let_def rbind_def rassert_def split: if_splits)

lemma gc_watched:
  assumes "event_gc_signal_data q sig e = Inr e'"
  shows "watched e' p \<subseteq> watched e p" "watched e p - {sig} \<subseteq> watched e' p" "sig \<in> watched e' q \<Longrightarrow> still_needed sig e"
proof -
  have "watched e' p \<subseteq> watched e p \<and> watched e p - {sig} \<subseteq> watched e' p \<and> (sig \<in> watched e' q \<longrightarrow> still_needed sig e)"
  proof (cases "sig = SIGCHLD \<and> 0 < online_children e \<or>
      (case signal_sources e sig of Some s \<Rightarrow> event_source_is_online (sources e s) | None \<Rightarrow> False)")
    case True
    then have "event_gc_signal_data q sig e = Inr e" by (auto simp: event_gc_signal_data_def)
    moreover have "still_needed sig e" using True by (auto simp: still_needed_def split: option.splits)
    ultimately show ?thesis using assms by simp
  next
    case False
    then have run: "rbind (unmask_at q sig e) (\<lambda>e. rbind (case signal_sources e sig of Some s \<Rightarrow> unmask_at (priority (sources e s)) sig e | None \<Rightarrow> Inr e)
        (\<lambda>e. unmask_at 0 sig e)) = Inr e'"
      using assms by (auto simp: event_gc_signal_data_def cong: option.case_cong split: if_splits)
    then obtain e1 e2 where e1: "unmask_at q sig e = Inr e1"
      and e2: "(case signal_sources e1 sig of Some s \<Rightarrow> unmask_at (priority (sources e1 s)) sig e1 | None \<Rightarrow> Inr e1) = Inr e2"
      and e3: "unmask_at 0 sig e2 = Inr e'" by (auto simp: rbind_def split: sum.splits)
    have mid: "watched e2 p \<subseteq> watched e1 p \<and> watched e1 p - {sig} \<subseteq> watched e2 p" for p
      using e2 unmask_watched [of _ sig e1 e2 p] by (cases "signal_sources e1 sig") auto
    have "sig \<notin> watched e' q" using unmask_watched [OF e1, of q] mid [of q] unmask_watched [OF e3, of q] by (auto split: if_splits)
    then show ?thesis using mid [of p] unmask_watched [OF e1, of p] unmask_watched [OF e3, of p] by (auto split: if_splits)
  qed
  then show "watched e' p \<subseteq> watched e p" "watched e p - {sig} \<subseteq> watched e' p" "sig \<in> watched e' q \<Longrightarrow> still_needed sig e" by blast+
qed

lemma gc_fields:
  assumes "event_gc_signal_data q sig e = Inr e'"
  shows "sources e' = sources e" "signal_sources e' = signal_sources e" "online_children e' = online_children e"
proof -
  have u: "sources b = sources a \<and> signal_sources b = signal_sources a \<and> online_children b = online_children a" if "unmask_at p sig a = Inr b" for p a b
    using that by (auto simp: unmask_at_def event_unmask_signal_data_def event_free_signal_data_def Let_def rbind_def rassert_def split: if_splits option.splits)
  have "sources e' = sources e \<and> signal_sources e' = signal_sources e \<and> online_children e' = online_children e"
    using assms unfolding event_gc_signal_data_def by (auto simp: res_iff split: if_splits option.splits dest!: u)
  then show "sources e' = sources e" "signal_sources e' = signal_sources e" "online_children e' = online_children e" by simp_all
qed

text \<open>Between two states nothing has changed that the kernel was told.\<close>

definition kernel_same :: "event_loop \<Rightarrow> event_loop \<Rightarrow> bool" where
  "kernel_same e e' \<longleftrightarrow> watched e' = watched e \<and> signal_sources e' = signal_sources e \<and> pid_changed e' = pid_changed e \<and>
     online_children e' = online_children e \<and> (\<forall>y. event_source_is_online (sources e' y) = event_source_is_online (sources e y) \<and> src_type (sources e' y) = src_type (sources e y) \<and> registered (sources e' y) = registered (sources e y) \<and>
       priority (sources e' y) = priority (sources e y) \<and> signal_no (sources e' y) = signal_no (sources e y) \<and>
       watches_pidfd (sources e' y) = watches_pidfd (sources e y))"

definition others_watched :: "nat \<Rightarrow> event_loop \<Rightarrow> event_loop \<Rightarrow> bool" where
  "others_watched s e e' \<longleftrightarrow> (\<forall>p. watched e' p - own_signals (sources e s) = watched e p - own_signals (sources e s))"

lemma kernel_same_refl [simp]: "kernel_same e e"
  by (simp add: kernel_same_def)

lemma kernel_same_trans: "kernel_same e e1 \<Longrightarrow> kernel_same e1 e2 \<Longrightarrow> kernel_same e e2"
  by (simp add: kernel_same_def)

lemma kernel_same_watches:
  assumes "kernel_same e e'"
  shows "kernel_watches s e' = kernel_watches s e" "kernel_forgets s e' = kernel_forgets s e" "others_watched s e1 e' = others_watched s e1 e"
    "others_watched s e' e1 = others_watched s e e1"
proof -
  have "signal_priority g e' = signal_priority g e" for g using assms by (simp add: kernel_same_def signal_priority_def split: option.splits)
  then show "kernel_watches s e' = kernel_watches s e" using assms by (simp add: kernel_same_def kernel_watches_def own_signals_def EVENT_SOURCE_WATCH_PIDFD_def)
  have "still_needed g e' = still_needed g e" for g using assms by (simp add: kernel_same_def still_needed_def)
  then show "kernel_forgets s e' = kernel_forgets s e"
    using assms by (simp add: kernel_same_def kernel_forgets_def own_signals_def EVENT_SOURCE_WATCH_PIDFD_def)
  show "others_watched s e1 e' = others_watched s e1 e" "others_watched s e' e1 = others_watched s e e1"
    using assms by (simp_all add: kernel_same_def others_watched_def own_signals_def)
qed

lemma queue_steps_same:
  "exit_reshuffle s e = Inr e1 \<Longrightarrow> kernel_same e e1"
  "event_source_time_prioq_reshuffle s e = Inr e2 \<Longrightarrow> kernel_same e e2"
  "event_source_pp_prioq_reshuffle s e = Inr e3 \<Longrightarrow> kernel_same e e3"
  by (auto simp: exit_reshuffle_def event_source_time_prioq_reshuffle_def clock_reshuffle_def event_source_pp_prioq_reshuffle_def with_clock_def
      Let_def res_iff kernel_same_def watched_def split: if_splits option.splits)

lemma pending_steps_same:
  "pending_put ok s e = Inr (r1, e1) \<Longrightarrow> kernel_same e e1" "pending_remove s e = Inr (r2, e2) \<Longrightarrow> kernel_same e e2"
  "inotify_count b s e = Inr e3 \<Longrightarrow> kernel_same e e3" "kernel_same e (signal_not_current s e)" "kernel_same e (with_source s (\<lambda>x. x\<lparr>pending := b\<rparr>) e)"
proof -
  show "pending_put ok s e = Inr (r1, e1) \<Longrightarrow> kernel_same e e1"
    by (auto simp: pending_put_def Let_def res_iff kernel_same_def watched_def event_source_is_online_def split: if_splits)
  show "pending_remove s e = Inr (r2, e2) \<Longrightarrow> kernel_same e e2"
    by (auto simp: pending_remove_def res_iff kernel_same_def watched_def event_source_is_online_def)
  show "inotify_count b s e = Inr e3 \<Longrightarrow> kernel_same e e3"
    by (auto simp: inotify_count_def rassert_def res_iff kernel_same_def watched_def event_source_is_online_def split: option.splits if_splits)
  show "kernel_same e (signal_not_current s e)"
    by (auto simp: signal_not_current_def Let_def kernel_same_def watched_def event_source_is_online_def fun_eq_iff split: option.splits)
  show "kernel_same e (with_source s (\<lambda>x. x\<lparr>pending := b\<rparr>) e)" by (simp add: kernel_same_def watched_def event_source_is_online_def fun_eq_iff)
qed

lemma set_pending_same:
  assumes "source_set_pending ok s b e = Inr (r, e')"
  shows "kernel_same e e'"
proof (cases "pending (sources e s) = b")
  case True
  then show ?thesis using assms by (auto simp: source_set_pending_def Let_def res_iff rassert_def split: if_splits)
next
  case False
  let ?e = "with_source s (\<lambda>x. x\<lparr>pending := b\<rparr>) e" and ?t = "src_type (sources e s)"
  obtain r1 e1 where e1: "(if b then pending_put ok s ?e else pending_remove s ?e) = Inr (r1, e1)"
    and rest: "(if r1 < 0 then Inr (r1, e1)
        else rbind (if event_source_is_time ?t then event_source_time_prioq_reshuffle s e1 else Inr e1) (\<lambda>e.
         let e = (if ?t = SOURCE_SIGNAL \<and> \<not> b then signal_not_current s e else e) in
         rbind (if ?t = SOURCE_INOTIFY then inotify_count b s e else Inr e) (\<lambda>e. Inr (1, e)))) = Inr (r, e')"
    using assms False by (auto simp: source_set_pending_def Let_def res_iff rassert_def split: if_splits)
  have "kernel_same ?e e1" using e1 pending_steps_same(1,2) by (cases b) auto
  then have k1: "kernel_same e e1" using kernel_same_trans [OF pending_steps_same(5)] by blast
  show ?thesis
  proof (cases "r1 < 0")
    case True
    then show ?thesis using rest k1 by simp
  next
    case False
    then obtain e2 where e2: "(if event_source_is_time ?t then event_source_time_prioq_reshuffle s e1 else Inr e1) = Inr e2"
      and e3: "(if ?t = SOURCE_INOTIFY then inotify_count b s (if ?t = SOURCE_SIGNAL \<and> \<not> b then signal_not_current s e2 else e2)
        else Inr (if ?t = SOURCE_SIGNAL \<and> \<not> b then signal_not_current s e2 else e2)) = Inr e'"
      using rest by (simp only: if_False Let_def res_iff) auto
    let ?e2 = "if ?t = SOURCE_SIGNAL \<and> \<not> b then signal_not_current s e2 else e2"
    have "kernel_same e1 e2" using e2 queue_steps_same(2) by (auto split: if_splits)
    moreover have "kernel_same e2 ?e2" using pending_steps_same(4) by simp
    moreover have "kernel_same ?e2 e'" using e3 pending_steps_same(3) by (cases "?t = SOURCE_INOTIFY") auto
    ultimately show ?thesis using k1 kernel_same_trans by blast
  qed
qed

text \<open>
  Going online, the kernel is told of the source, or nothing changes that it was told; going offline, it is told to forget it. The
  signals of other sources are left alone.
\<close>

lemma signal_online_watched:
  assumes "signal_online k p sig e = Inr (r, e')" "signals_ok e"
  shows "watched e' q - {sig} = watched e q - {sig}" "r = 0 \<Longrightarrow> sig \<in> watched e' (signal_priority sig e)" "willing k \<Longrightarrow> \<not> pid_changed e \<Longrightarrow> r = 0"
    "sources e' = sources e" "signal_sources e' = signal_sources e" "r \<le> 0" "pid_changed e' = pid_changed e"
proof -
  obtain r0 S where m0: "event_make_signal_data k sig e = (r0, e\<lparr>signals := S\<rparr>)" "signals_ok (e\<lparr>signals := S\<rparr>)" "r0 \<le> 0"
    by (rule make_signal_ok [OF assms(2)])
  have r0: "r0 = r" using assms(1) m0(1) by (auto simp: signal_online_def res_iff split: if_splits)
  note m = m0 [unfolded r0]
  note w = make_signal_watched [OF m(1) assms(2)]
  have run: "(if r < 0 then rbind (event_gc_signal_data p sig (e\<lparr>signals := S\<rparr>)) (\<lambda>e. Inr (r, e)) else Inr (r, e\<lparr>signals := S\<rparr>)) = Inr (r, e')"
    using assms(1) m(1) by (simp add: signal_online_def)
  show "watched e' q - {sig} = watched e q - {sig}"
  proof (cases "r < 0")
    case True
    then have "event_gc_signal_data p sig (e\<lparr>signals := S\<rparr>) = Inr e'" using run by (auto simp: res_iff)
    from gc_watched(1,2) [OF this, of q] show ?thesis using w(1) [OF True, of q] by auto
  next
    case False
    then show ?thesis using run w(2) [of q] by auto
  qed
  show "r = 0 \<Longrightarrow> sig \<in> watched e' (signal_priority sig e)" using run w(2) by auto
  show "willing k \<Longrightarrow> \<not> pid_changed e \<Longrightarrow> r = 0" using w(3) .
  obtain S' where "event_gc_signal_data p sig (e\<lparr>signals := S\<rparr>) = Inr (e\<lparr>signals := S\<rparr>\<lparr>signals := S'\<rparr>)" by (rule gc_signal_ok [OF m(2)])
  then show "sources e' = sources e" "signal_sources e' = signal_sources e" "pid_changed e' = pid_changed e"
    using run by (auto split: if_splits)
  show "r \<le> 0" by (rule m(3))
qed

lemma one_of_two: "(if b then (x, u) else (y, if w then u else v)) = (r, z) \<Longrightarrow> z = u \<or> z = v"
  by (auto split: if_splits)

lemma online_by_type_watched:
  assumes "online_by_type k s m w e = Inr (r, e')" "signals_ok e" "m \<noteq> SD_EVENT_OFF"
  shows "others_watched s e e'" "r = 0 \<Longrightarrow> kernel_watches s e'" "willing k \<Longrightarrow> \<not> pid_changed e \<Longrightarrow> r = 0"
    "r < 0 \<Longrightarrow> registered (sources e' s) = registered (sources e s)"
proof -
  let ?x = "sources e s"
  have "others_watched s e e' \<and> (r = 0 \<longrightarrow> kernel_watches s e') \<and> (willing k \<and> \<not> pid_changed e \<longrightarrow> r = 0) \<and>
    (r < 0 \<longrightarrow> registered (sources e' s) = registered ?x)"
  proof (cases "src_type ?x = SOURCE_SIGNAL \<or> src_type ?x = SOURCE_CHILD \<and> \<not> watches_pidfd ?x")
    case True
    let ?sig = "if src_type ?x = SOURCE_SIGNAL then signal_no ?x else SIGCHLD"
    obtain e1 where e1: "signal_online k (priority ?x) ?sig e = Inr (r, e1)" "\<exists>n. e' = e1\<lparr>online_children := n\<rparr>"
    proof (cases "src_type ?x = SOURCE_SIGNAL")
      case True
      have n: "\<exists>n. e' = e'\<lparr>online_children := n\<rparr>" by (rule exI [of _ "online_children e'"]) (cases e', simp)
      have "signal_online k (priority ?x) (signal_no ?x) e = Inr (r, e')" using assms(1) True by (simp add: online_by_type_def Let_def)
      then show ?thesis by (intro that [OF _ n]) (simp add: True)
    next
      case False
      then have x: "src_type ?x = SOURCE_CHILD" "\<not> EVENT_SOURCE_WATCH_PIDFD ?x" using True by (auto simp: EVENT_SOURCE_WATCH_PIDFD_def)
      then have run: "child_online k s m w e = Inr (r, e')" using assms(1) by (simp add: online_by_type_def)
      then obtain r1 e1 where e1: "signal_online k (priority ?x) SIGCHLD e = Inr (r1, e1)"
        "(if r1 < 0 then (r1, e1) else (0, if w then e1 else e1\<lparr>online_children := online_children e1 + 1\<rparr>)) = (r, e')"
        using x(2) by (auto simp: child_online_def res_iff)
      have n: "\<exists>n. e1 = e1\<lparr>online_children := n\<rparr>" by (rule exI [of _ "online_children e1"]) (cases e1, simp)
      have "r1 \<le> 0" by (rule signal_online_watched(6) [OF e1(1) assms(2)])
      then have r: "r = r1" using e1(2) by (cases "r1 < 0") simp_all
      have "e' = e1 \<or> e' = e1\<lparr>online_children := online_children e1 + 1\<rparr>" by (rule one_of_two [OF e1(2)])
      then have "\<exists>n. e' = e1\<lparr>online_children := n\<rparr>" using n by (elim disjE) (simp only:, blast)
      then show ?thesis by (intro that [of e1]) (simp_all add: e1(1) r x(1))
    qed
    note g = signal_online_watched [OF e1(1) assms(2)]
    have e': "watched e' = watched e1" "sources e' = sources e" "signal_sources e' = signal_sources e"
      using e1(2) g(4,5) by (auto simp: watched_def fun_eq_iff)
    have own: "own_signals ?x = {?sig}" using True by (auto simp: own_signals_def)
    have prio: "signal_priority g e' = signal_priority g e" for g using e'(2,3) by (simp add: signal_priority_def split: option.splits)
    have "others_watched s e e'" using g(1) e'(1) by (simp add: others_watched_def own)
    moreover have "kernel_watches s e'" if "r = 0"
      using g(2) [OF that] True e' prio own by (auto simp: kernel_watches_def EVENT_SOURCE_WATCH_PIDFD_def)
    ultimately show ?thesis using g(3) e'(2) by simp
  next
    case False
    then have own: "own_signals ?x = {}" by (auto simp: own_signals_def)
    obtain r0 b where b: "src_type ?x = SOURCE_IO \<longrightarrow> source_io_register k s m e = Inr (r0, with_source s (\<lambda>x. x\<lparr>registered := b\<rparr>) e)"
      "src_type ?x = SOURCE_CHILD \<longrightarrow> source_child_pidfd_register k s m e = Inr (r0, with_source s (\<lambda>x. x\<lparr>registered := b\<rparr>) e)"
      "r0 \<le> 0" "r0 < 0 \<longrightarrow> b = registered ?x" by (rule register_ok [OF assms(3)])
    have reg: "registered (sources e1 s)" if "source_io_register k s m e = Inr (0, e1) \<or> source_child_pidfd_register k s m e = Inr (0, e1)" for e1
      using that by (auto simp: source_io_register_def source_child_pidfd_register_def Let_def res_iff rassert_def split: if_splits)
    have will: "r1 = 0" if "willing k" "source_io_register k s m e = Inr (r1, e1) \<or> source_child_pidfd_register k s m e = Inr (r1, e1)" for r1 e1
      using that by (auto simp: source_io_register_def source_child_pidfd_register_def Let_def res_iff rassert_def willing_def split: if_splits)
    consider "src_type ?x = SOURCE_IO" | "src_type ?x = SOURCE_CHILD" "watches_pidfd ?x" | "src_type ?x \<notin> {SOURCE_IO, SOURCE_SIGNAL, SOURCE_CHILD}"
      using False by blast
    then show ?thesis
    proof cases
      case 1
      then have run: "source_io_register k s m e = Inr (r, e')" using assms(1) by (simp add: online_by_type_def)
      then have e': "r = r0" "e' = with_source s (\<lambda>x. x\<lparr>registered := b\<rparr>) e" using b(1) 1 by simp_all
      have "others_watched s e e'" by (simp add: others_watched_def watched_def e'(2))
      moreover have "kernel_watches s e'" if "r = 0"
        using reg [of e'] run 1 own that e'(2) by (simp add: kernel_watches_def own_signals_def EVENT_SOURCE_WATCH_PIDFD_def)
      ultimately show ?thesis using will run b(4) e' by auto
    next
      case 2
      let ?e1 = "with_source s (\<lambda>x. x\<lparr>registered := b\<rparr>) e"
      have run1: "source_child_pidfd_register k s m e = Inr (r0, ?e1)" using b(2) 2 by simp
      have c: "(if r0 < 0 then (r0, ?e1) else (0, if w then ?e1 else ?e1\<lparr>online_children := online_children ?e1 + 1\<rparr>)) = (r, e')"
        using assms(1) 2 run1 by (simp add: online_by_type_def child_online_def EVENT_SOURCE_WATCH_PIDFD_def)
      then have "r = r0" using b(3) by (cases "r0 < 0") simp_all
      then have run: "source_child_pidfd_register k s m e = Inr (r, ?e1)" "r = r0" "e' = ?e1 \<or> e' = ?e1\<lparr>online_children := online_children ?e1 + 1\<rparr>"
        using run1 one_of_two [OF c] by blast+
      from run(3) have e': "sources e' = (sources e)(s := ?x\<lparr>registered := b\<rparr>)" "watched e' = watched e" "signal_sources e' = signal_sources e"
        by (elim disjE; simp add: watched_def fun_eq_iff)+
      have "others_watched s e e'" by (simp add: others_watched_def e'(2))
      moreover have "kernel_watches s e'" if "r = 0"
        using reg [of ?e1] run(1) 2 own that e' by (simp add: kernel_watches_def own_signals_def EVENT_SOURCE_WATCH_PIDFD_def)
      ultimately show ?thesis using will [of r ?e1] run(1,2) b(4) e' by auto
    next
      case 3
      then have "r = 0" "e' = e" using assms(1) by (auto simp: online_by_type_def Let_def res_iff)
      then show ?thesis using 3 by (simp add: others_watched_def kernel_watches_def own_signals_def EVENT_SOURCE_WATCH_PIDFD_def)
    qed
  qed
  then show "others_watched s e e'" "r = 0 \<Longrightarrow> kernel_watches s e'" "willing k \<Longrightarrow> \<not> pid_changed e \<Longrightarrow> r = 0"
    "r < 0 \<Longrightarrow> registered (sources e' s) = registered (sources e s)" by blast+
qed

lemma pidfd_unregister_watched:
  assumes "source_child_pidfd_unregister s e = Inr e'" "\<not> pid_changed e" "src_type (sources e s) = SOURCE_CHILD" "watches_pidfd (sources e s)"
  shows "\<not> registered (sources e' s)" "watched e' = watched e" "src_type (sources e' s) = SOURCE_CHILD" "watches_pidfd (sources e' s)"
  using assms by (auto simp: source_child_pidfd_unregister_def watched_def EVENT_SOURCE_WATCH_PIDFD_def split: if_splits)

lemma offline_by_type_watched:
  assumes "offline_by_type s w e = Inr e'" "\<not> pid_changed e" "src_type (sources e s) = SOURCE_CHILD \<and> \<not> w \<Longrightarrow> 0 < online_children e"
  shows "others_watched s e e'" "kernel_forgets s e'"
proof -
  let ?x = "sources e s"
  have "others_watched s e e' \<and> kernel_forgets s e'"
  proof (cases "src_type ?x = SOURCE_SIGNAL \<or> src_type ?x = SOURCE_CHILD \<and> \<not> watches_pidfd ?x")
    case True
    let ?sig = "if src_type ?x = SOURCE_SIGNAL then signal_no ?x else SIGCHLD"
    have own: "own_signals ?x = {?sig}" using True by (auto simp: own_signals_def)
    have "\<exists>n. event_gc_signal_data (priority ?x) ?sig (e\<lparr>online_children := n\<rparr>) = Inr e'"
    proof (cases "src_type ?x = SOURCE_SIGNAL")
      case True
      have "e\<lparr>online_children := online_children e\<rparr> = e" by (cases e) simp
      then show ?thesis using assms(1) True by (intro exI [of _ "online_children e"]) (simp add: offline_by_type_def Let_def)
    next
      case False
      then have x: "src_type ?x = SOURCE_CHILD" "\<not> EVENT_SOURCE_WATCH_PIDFD ?x" using True by (auto simp: EVENT_SOURCE_WATCH_PIDFD_def)
      have "e\<lparr>online_children := online_children e\<rparr> = e" by (cases e) simp
      then show ?thesis using assms(1,3) x
        by (cases w; intro exI [of _ "if w then online_children e else online_children e - 1"]) (simp_all add: offline_by_type_def child_offline_def)
    qed
    then obtain n where gc: "event_gc_signal_data (priority ?x) ?sig (e\<lparr>online_children := n\<rparr>) = Inr e'" by blast
    note g = gc_watched [OF gc]
    have w: "watched (e\<lparr>online_children := n\<rparr>) = watched e" by (simp add: watched_def fun_eq_iff)
    have e': "sources e' = sources e" "signal_sources e' = signal_sources e" "online_children e' = n"
      using gc_fields [OF gc] by simp_all
    have "still_needed ?sig (e\<lparr>online_children := n\<rparr>) = still_needed ?sig e'" using e' by (simp add: still_needed_def)
    then have "kernel_forgets s e'" using g(3) True e' own by (auto simp: kernel_forgets_def EVENT_SOURCE_WATCH_PIDFD_def)
    moreover have "watched e' p - {?sig} = watched e p - {?sig}" for p using g(1,2) [of p] w by auto
    ultimately show ?thesis by (simp add: others_watched_def own)
  next
    case False
    then have own: "own_signals ?x = {}" by (auto simp: own_signals_def)
    consider "src_type ?x = SOURCE_IO" | "src_type ?x = SOURCE_CHILD" "watches_pidfd ?x"
      | "src_type ?x \<notin> {SOURCE_IO, SOURCE_SIGNAL, SOURCE_CHILD}" using False by blast
    then show ?thesis
    proof cases
      case 1
      then have "source_io_unregister s e = Inr e'" using assms(1) by (simp add: offline_by_type_def)
      then show ?thesis using assms(2) 1
        by (auto simp: source_io_unregister_def others_watched_def kernel_forgets_def own_signals_def watched_def EVENT_SOURCE_WATCH_PIDFD_def split: if_splits)
    next
      case 2
      then have "\<exists>n. source_child_pidfd_unregister s (e\<lparr>online_children := n\<rparr>) = Inr e'"
      proof -
        have "e\<lparr>online_children := online_children e\<rparr> = e" by (cases e) simp
        then show ?thesis using assms(1,3) 2
          by (cases w; intro exI [of _ "if w then online_children e else online_children e - 1"])
            (simp_all add: offline_by_type_def child_offline_def EVENT_SOURCE_WATCH_PIDFD_def)
      qed
      then obtain n where n: "source_child_pidfd_unregister s (e\<lparr>online_children := n\<rparr>) = Inr e'" ..
      have "\<not> registered (sources e' s)" "watched e' = watched e" "src_type (sources e' s) = src_type ?x" "watches_pidfd (sources e' s) = watches_pidfd ?x"
        using pidfd_unregister_watched [OF n] assms(2) 2 by (simp_all add: watched_def fun_eq_iff)
      then show ?thesis using 2 by (simp add: others_watched_def kernel_forgets_def own_signals_def)
    next
      case 3
      then have "kernel_same e e'" using assms(1) queue_steps_same(1) by (auto simp: offline_by_type_def Let_def res_iff split: if_splits)
      moreover have "kernel_forgets s e" using 3 by (auto simp: kernel_forgets_def own_signals_def EVENT_SOURCE_WATCH_PIDFD_def)
      ultimately show ?thesis using kernel_same_watches(2,3) [of e e' s] by (simp add: others_watched_def)
    qed
  qed
  then show "others_watched s e e'" "kernel_forgets s e'" by blast+
qed

end
