(* ===== verification/EventStates.thy ===== *)
theory EventStates
  imports EventSources
begin

text \<open>
  What enabling, disabling and rate limiting (\<open>sd-event.c\<close>) do to an event loop in order: the loop stays in
  order, but for one path that forgets to put the queues of the monotonic clock in order.
\<close>

section \<open>Changing the state of a source\<close>

text \<open>
  Within a change of state the clock queues are one step ahead of the sources: \<open>loop_with T e\<close> is the
  invariant with \<open>T\<close> for the sources of each clock.
\<close>

definition loop_with :: "(clock \<Rightarrow> nat set) \<Rightarrow> event_loop \<Rightarrow> bool" where
  "loop_with T e \<longleftrightarrow> pending_ok (sources e) (attached e) (pending_q e) \<and> prepare_ok (sources e) (attached e) (prepare_q e) \<and>
     exit_ok (sources e) (attached e) (exit_q e) \<and> books_ok e \<and> (\<forall>c. clock_ok (sources e) (clocks e c) (T c))"

lemma loop_ok_with: "loop_ok e \<longleftrightarrow> loop_with (members e) e"
  by (auto simp: loop_ok_def queues_ok_def loop_with_def)

lemma loop_withD:
  assumes "loop_with T e"
  shows "pending_ok (sources e) (attached e) (pending_q e)" "prepare_ok (sources e) (attached e) (prepare_q e)"
    "exit_ok (sources e) (attached e) (exit_q e)" "books_ok e" "clock_ok (sources e) (clocks e c) (T c)" "small (attached e)"
    "s \<in> attached e \<Longrightarrow> source_ok e s" "signals_ok e" "online_children e = card (children_online e)"
  using assms by (auto simp: loop_with_def books_ok_def signals_ok_def)

text \<open>How many children are online after one source has changed.\<close>

definition children_after :: "event_source \<Rightarrow> event_source \<Rightarrow> nat \<Rightarrow> nat" where
  "children_after x y n = (if src_type x \<noteq> SOURCE_CHILD \<or> event_source_is_online y = event_source_is_online x then n
     else if event_source_is_online y then n + 1 else n - 1)"

lemma card_children_after:
  assumes "finite (attached e)" "s \<in> attached e" "attached e' = attached e" "sources e' = (sources e)(s := y)"
    "src_type y = src_type (sources e s)"
  shows "card (children_online e') = children_after (sources e s) y (card (children_online e))"
proof -
  have fin: "finite (children_online e)" using assms(1) by (simp add: children_online_def)
  let ?x = "sources e s"
  consider "src_type ?x \<noteq> SOURCE_CHILD \<or> event_source_is_online y = event_source_is_online ?x"
    | "src_type ?x = SOURCE_CHILD" "event_source_is_online y" "\<not> event_source_is_online ?x"
    | "src_type ?x = SOURCE_CHILD" "\<not> event_source_is_online y" "event_source_is_online ?x" by blast
  then show ?thesis
  proof cases
    case 1
    then have "children_online e' = children_online e" using assms(3-5) by (auto simp: children_online_def)
    then show ?thesis using 1 by (simp add: children_after_def)
  next
    case 2
    then have "children_online e' = insert s (children_online e)" "s \<notin> children_online e"
      using assms(2-5) by (auto simp: children_online_def)
    then show ?thesis using 2 fin by (simp add: children_after_def)
  next
    case 3
    then have "children_online e' = children_online e - {s}" "s \<in> children_online e"
      using assms(2-5) by (auto simp: children_online_def)
    then show ?thesis using 3 fin by (simp add: children_after_def)
  qed
qed

lemma books_ok_state:
  assumes "books_ok e" "s \<in> attached e" "attached e' = attached e" "inotify_of e' = inotify_of e" "sources e' = (sources e)(s := y)"
    "src_type y = src_type (sources e s)" "pending y = pending (sources e s)" "limit_set y"
    "ratelimited y \<Longrightarrow> event_source_can_rate_limit (src_type y)" "signals_ok e'" "n_pending e' = n_pending e"
    "online_children e' = children_after (sources e s) y (online_children e)"
  shows "books_ok e'"
proof -
  have "source_ok e' z" if "z \<in> attached e" for z
    using that assms(1,2,4-6,8,9) by (cases "z = s") (auto simp: source_ok_def books_ok_def)
  moreover have "inotify_pending e' d = inotify_pending e d" for d
    using assms(3-7) by (auto simp: inotify_pending_def)
  moreover have "finite (attached e)" using assms(1) by (simp add: books_ok_def small_def)
  note card_children_after [OF this assms(2,3,5,6)]
  ultimately show ?thesis using assms(1,3,10-12) by (simp add: books_ok_def signals_ok_def)
qed

lemma set_state_simps [simp]:
  "src_type (x\<lparr>enabled := m, ratelimited := l\<rparr>) = src_type x" "pending (x\<lparr>enabled := m, ratelimited := l\<rparr>) = pending x"
  by simp_all

lemma clock_ok_registered: "clock_ok \<sigma> d M \<Longrightarrow> clock_ok (\<sigma>(s := (\<sigma> s)\<lparr>registered := b\<rparr>)) d M"
  by (erule clock_ok_ranks)
    (simp_all add: earliest_rank_def latest_rank_def event_source_timer_candidate_def next_time_def latest_time_def limit_set_def)

lemma registered_ok:
  assumes "loop_with T e" "s \<in> attached e" "signals_ok (e\<lparr>signals := S\<rparr>)"
  shows "loop_with T (left s b (exit_q e) S (online_children e) e)"
proof -
  let ?e = "left s b (exit_q e) S (online_children e) e"
  note l = loop_withD [OF assms(1)]
  have "pending_ok (sources ?e) (attached ?e) (pending_q ?e)" by (simp, rule pending_ok_ranks [OF l(1)]) (auto simp: pending_rank_def)
  moreover have "prepare_ok (sources ?e) (attached ?e) (prepare_q ?e)" by (simp, rule prepare_ok_ranks [OF l(2)]) (auto simp: prepare_rank_def)
  moreover have "books_ok ?e"
    by (rule books_ok_state [OF l(4) assms(2), of _ "(sources e s)\<lparr>registered := b\<rparr>"])
      (use source_okD(1,2) [OF l(7) [OF assms(2)]] assms(3) in
        \<open>simp_all add: limit_set_def signals_ok_def children_after_def event_source_is_online_def\<close>)
  ultimately show ?thesis using exit_ok_registered [OF l(3)] clock_ok_registered [OF l(5)] by (simp add: loop_with_def)
qed

lemma unset_pending_ok:
  assumes "loop_ok e" "s \<in> attached e"
  obtains r e' where "unset_pending b s e = Inr (r, e')" "0 \<le> r" "loop_ok e'" "same_loop e e'"
    "sources e' = (sources e)(s := (sources e s)\<lparr>pending := pending (sources e s) \<and>
       \<not> (b \<and> src_type (sources e s) \<noteq> SOURCE_DEFER \<and> src_type (sources e s) \<noteq> SOURCE_EXIT)\<rparr>)"
proof (cases "b \<and> src_type (sources e s) \<noteq> SOURCE_DEFER \<and> src_type (sources e s) \<noteq> SOURCE_EXIT")
  case True
  then obtain r e' where r: "source_set_pending True s False e = Inr (r, e')" "0 \<le> r" "loop_ok e'" "same_loop e e'"
    "sources e' = (sources e)(s := marked False (iteration e) (sources e s))" using set_pending_ok [OF assms, of True False] by auto
  moreover have "marked False (iteration e) x = x\<lparr>pending := False\<rparr>" for x by (cases x) (simp add: marked_def)
  ultimately show ?thesis using True that by (simp add: unset_pending_def)
next
  case False
  have "x\<lparr>pending := pending x\<rparr> = x" for x :: event_source by (cases x) simp
  then show ?thesis using False that [of 0 e] assms(1) by (auto simp: unset_pending_def)
qed

lemma clock_of_state: "clock_of (x\<lparr>registered := b\<rparr>) = clock_of x"
  by (simp add: clock_of_def)

text \<open>
  The rest of a change of state, once the new state \<open>y\<close> is stored and the kernel has been told: the time queues
  are put in order, then the others.
\<close>

lemma settle_ok:
  assumes "loop_with T e" "s \<in> attached e" "e1 = left s b X S n (with_source s (\<lambda>_. y) e)" "src_type y = src_type (sources e s)"
    "pending y = pending (sources e s)" "has_prepare y = has_prepare (sources e s)" "limit_set y"
    "ratelimited y \<Longrightarrow> event_source_can_rate_limit (src_type y)" "T = members (with_source s (\<lambda>_. y) e)" "signals_ok e1"
    "n = children_after (sources e s) y (online_children e)" "exit_ok (sources e1) (attached e) X"
  obtains e2 e3 where "event_source_time_prioq_reshuffle s e1 = Inr e2" "event_source_pp_prioq_reshuffle s e2 = Inr e3" "loop_ok e3"
    "same_loop e e3" "sources e3 = (sources e)(s := y\<lparr>registered := b\<rparr>)"
proof -
  note l = loop_withD [OF assms(1)]
  let ?y = "y\<lparr>registered := b\<rparr>"
  have e1: "sources e1 = (sources e)(s := ?y)" "attached e1 = attached e" "clocks e1 = clocks e" "pending_q e1 = pending_q e"
    "prepare_q e1 = prepare_q e" "inotify_of e1 = inotify_of e" "n_pending e1 = n_pending e" "online_children e1 = n" "exit_q e1 = X"
    by (simp_all add: assms(3))
  have same: "same_loop e e1" unfolding assms(3) left_simps by (simp add: same_loop_def)
  have T: "T c = members e1 c" for c by (auto simp: assms(9) members_def e1(1,2) clock_of_state)
  have limit: "limit_set ?y" "ratelimited ?y \<Longrightarrow> event_source_can_rate_limit (src_type ?y)" using assms(7,8) by (simp_all add: limit_set_def)
  have small: "small (T c)" for c by (rule small_subset [OF l(6)]) (auto simp: assms(9) members_def)
  obtain C where C: "event_source_time_prioq_reshuffle s e1 = Inr (e1\<lparr>clocks := C\<rparr>)" "\<And>c. clock_ok (sources e1) (C c) (T c)"
    "\<forall>c. created (clocks e1 c) \<longrightarrow> created (C c)"
    using time_reshuffle_ok [of "sources e" e1 T s] l(5) small limit assms(2) e1(1-3) by (auto simp: T members_def)
  let ?e2 = "e1\<lparr>clocks := C\<rparr>"
  have books: "books_ok ?e2"
    by (rule books_ok_state [OF l(4) assms(2) _ _ _ _ _ limit])
      (use e1 assms(4,5,10,11) in \<open>simp_all add: signals_ok_def children_after_def event_source_is_online_def\<close>)
  have "members ?e2 = members e1" by (auto simp: members_def fun_eq_iff)
  then have "pending_ok (sources e) (attached ?e2) (pending_q ?e2)" "prepare_ok (sources e) (attached ?e2) (prepare_q ?e2)" "s \<in> attached ?e2"
    "\<And>x. x \<noteq> s \<Longrightarrow> sources ?e2 x = sources e x" "pending (sources ?e2 s) = pending (sources e s)"
    "has_prepare (sources ?e2 s) = has_prepare (sources e s)" "exit_ok (sources ?e2) (attached ?e2) (exit_q ?e2)"
    "\<And>c. clock_ok (sources ?e2) (clocks ?e2 c) (members ?e2 c)"
    using l(1,2) assms(2,5,6,12) C(2) T e1 by simp_all
  then obtain e3 where e3: "event_source_pp_prioq_reshuffle s ?e2 = Inr e3" "loop_ok e3" "same_loop ?e2 e3" "sources e3 = sources ?e2"
    by (rule finish_change_ok [OF _ _ _ _ _ _ _ _ books])
  have "same_loop e ?e2" using same C(3) by (simp add: same_loop_def)
  then have "same_loop e e3" by (rule same_loop_trans [OF _ e3(3)])
  then show ?thesis using that [OF C(1) e3(1,2)] e3(4) e1(1) by simp
qed

lemma offline_not_online [simp]: "event_source_is_offline x \<longleftrightarrow> \<not> event_source_is_online x"
  by (auto simp: event_source_is_offline_def event_source_is_online_def)

lemma go_offline_ok:
  assumes "loop_with T e" "s \<in> attached e" "event_source_is_offline y" "src_type y = src_type (sources e s)"
    "pending y = pending (sources e s)" "has_prepare y = has_prepare (sources e s)" "limit_set y"
    "ratelimited y \<Longrightarrow> event_source_can_rate_limit (src_type y)" "T = members (with_source s (\<lambda>_. y) e)"
  obtains e1 e2 e3 b where "offline_by_type s (event_source_is_offline (sources e s)) (with_source s (\<lambda>_. y) e) = Inr e1"
    "event_source_time_prioq_reshuffle s e1 = Inr e2" "event_source_pp_prioq_reshuffle s e2 = Inr e3" "loop_ok e3"
    "same_loop e e3" "sources e3 = (sources e)(s := y\<lparr>registered := b\<rparr>)"
proof -
  note l = loop_withD [OF assms(1)]
  let ?e = "with_source s (\<lambda>_. y) e" and ?w = "event_source_is_offline (sources e s)"
  have "0 < online_children ?e" if "src_type (sources ?e s) = SOURCE_CHILD" "\<not> ?w"
  proof -
    have "s \<in> children_online e" "finite (children_online e)"
      using that assms(2,4) l(6) by (simp_all add: children_online_def small_def)
    then show ?thesis using l(9) by (auto simp: card_gt_0_iff)
  qed
  moreover have "signals_ok ?e" "exit_ok (sources e) (attached e) (exit_q ?e)" "src_type (sources ?e s) \<noteq> SOURCE_WATCHDOG"
    using l(3,8) source_okD(3) [OF l(7) [OF assms(2)]] assms(4) by (simp_all add: signals_ok_def)
  moreover have "\<And>x. x \<noteq> s \<Longrightarrow> sources ?e x = sources e x" "src_type (sources ?e s) = src_type (sources e s)" using assms(4) by simp_all
  ultimately obtain b X S where o: "offline_by_type s ?w ?e = Inr (left s b X S (if src_type (sources ?e s) = SOURCE_CHILD \<and> \<not> ?w
      then online_children ?e - 1 else online_children ?e) ?e)" "signals_ok (?e\<lparr>signals := S\<rparr>)"
    "exit_ok ((sources ?e)(s := (sources ?e s)\<lparr>registered := b\<rparr>)) (attached e) X"
    using offline_by_type_ok [of ?e "sources e" "attached e" s ?w thesis] l(6) assms(2) by blast
  show ?thesis
  proof (rule settle_ok [OF assms(1,2) refl assms(4-9)])
    show "signals_ok (left s b X S (children_after (sources e s) y (online_children e)) ?e)" using o(2) by (simp add: signals_ok_def)
    show "exit_ok (sources (left s b X S (children_after (sources e s) y (online_children e)) ?e)) (attached e) X" using o(3) by simp
    fix e2 e3 assume "event_source_time_prioq_reshuffle s (left s b X S (children_after (sources e s) y (online_children e)) ?e) = Inr e2"
      "event_source_pp_prioq_reshuffle s e2 = Inr e3" "loop_ok e3" "same_loop e e3" "sources e3 = (sources e)(s := y\<lparr>registered := b\<rparr>)"
    moreover have "offline_by_type s ?w ?e = Inr (left s b X S (children_after (sources e s) y (online_children e)) ?e)"
      using o(1) assms(3,4) by (auto simp: children_after_def)
    ultimately show ?thesis by (intro that)
  qed simp_all
qed

lemma pending_same [simp]: "x\<lparr>pending := pending x\<rparr> = x"
  by (cases x) simp

text \<open>The first step of both, which only a loop in order has to take.\<close>

definition still_pending :: "bool \<Rightarrow> event_source \<Rightarrow> bool" where
  "still_pending b x \<longleftrightarrow> pending x \<and> \<not> (b \<and> src_type x \<noteq> SOURCE_DEFER \<and> src_type x \<noteq> SOURCE_EXIT)"

lemma unset_with_ok:
  assumes "loop_with T e" "s \<in> attached e" "b \<Longrightarrow> T = members e"
  obtains r e' where "unset_pending b s e = Inr (r, e')" "0 \<le> r" "loop_with T e'" "same_loop e e'"
    "sources e' = (sources e)(s := (sources e s)\<lparr>pending := still_pending b (sources e s)\<rparr>)" "\<not> b \<longrightarrow> e' = e"
proof (cases b)
  case True
  then have "loop_ok e" using assms(1,3) by (simp add: loop_ok_with)
  then obtain r e' where u: "unset_pending b s e = Inr (r, e')" "0 \<le> r" "loop_ok e'" "same_loop e e'"
    "sources e' = (sources e)(s := (sources e s)\<lparr>pending := still_pending b (sources e s)\<rparr>)"
    unfolding still_pending_def by (rule unset_pending_ok [OF _ assms(2)])
  have "members e' = members e" using same_loopD(1) [OF u(4)] u(5) by (auto simp: members_def clock_of_def fun_eq_iff)
  then show ?thesis using that u assms(3) [OF True] True by (simp add: loop_ok_with)
next
  case False
  then show ?thesis using that [of 0 e] assms(1) by (simp add: unset_pending_def still_pending_def)
qed

lemma event_source_offline_ok:
  assumes "loop_with T e" "s \<in> attached e" "m = SD_EVENT_OFF \<or> lim" "enabled (sources e s) \<noteq> SD_EVENT_OFF \<and> m = SD_EVENT_OFF \<Longrightarrow> T = members e"
    "T = members (with_source s (\<lambda>x. x\<lparr>enabled := m, ratelimited := lim\<rparr>) e)"
    "lim \<Longrightarrow> limit_set ((sources e s)\<lparr>ratelimited := True\<rparr>) \<and> event_source_can_rate_limit (src_type (sources e s))"
  obtains e1 e2 b where "event_source_offline s m lim e = Inr (1, e1)" "event_source_pp_prioq_reshuffle s e1 = Inr e2" "loop_ok e2" "same_loop e e2"
    "sources e2 = (sources e)(s := (sources e s)\<lparr>pending := still_pending (enabled (sources e s) \<noteq> SD_EVENT_OFF \<and> m = SD_EVENT_OFF) (sources e s),
       enabled := m, ratelimited := lim, registered := b\<rparr>)"
proof -
  let ?b = "enabled (sources e s) \<noteq> SD_EVENT_OFF \<and> m = SD_EVENT_OFF"
  let ?x = "(sources e s)\<lparr>pending := still_pending ?b (sources e s)\<rparr>"
  let ?y = "?x\<lparr>enabled := m, ratelimited := lim\<rparr>"
  obtain r e0 where u: "unset_pending ?b s e = Inr (r, e0)" "0 \<le> r" "loop_with T e0" "same_loop e e0" "sources e0 = (sources e)(s := ?x)"
    by (rule unset_with_ok [OF assms(1,2,4)])
  have s: "s \<in> attached e0" "sources e0 s = ?x" "attached e0 = attached e" using assms(2) same_loopD(1) [OF u(4)] u(5) by auto
  have off: "event_source_is_offline ?y" using assms(3) by (auto simp: event_source_is_online_def)
  have T: "T = members (with_source s (\<lambda>_. ?y) e0)" using s(3) u(5) assms(5) by (auto simp: members_def clock_of_def fun_eq_iff)
  have set: "limit_set ?y" "ratelimited ?y \<Longrightarrow> event_source_can_rate_limit (src_type ?y)" using assms(6) by (auto simp: limit_set_def)
  have same: "src_type ?y = src_type (sources e0 s)" "pending ?y = pending (sources e0 s)" "has_prepare ?y = has_prepare (sources e0 s)"
    by (simp_all add: s(2))
  obtain e1 e2 e3 b where o: "offline_by_type s (event_source_is_offline (sources e0 s)) (with_source s (\<lambda>_. ?y) e0) = Inr e1"
    "event_source_time_prioq_reshuffle s e1 = Inr e2" "event_source_pp_prioq_reshuffle s e2 = Inr e3" "loop_ok e3"
    "same_loop e0 e3" "sources e3 = (sources e0)(s := ?y\<lparr>registered := b\<rparr>)"
    by (rule go_offline_ok [OF u(3) s(1) off same set T])
  have "with_source s (\<lambda>x. x\<lparr>enabled := m, ratelimited := lim\<rparr>) e0 = with_source s (\<lambda>_. ?y) e0" using s(2) by (simp add: with_source_def)
  then have "event_source_offline s m lim e = Inr (1, e2)"
    using assms(3) u(1,2) o(1,2) by (simp add: event_source_offline_def Let_def del: offline_not_online)
  then show ?thesis using that [OF _ o(3,4) same_loop_trans [OF u(4) o(5)]] o(6) u(5) by simp
qed

text \<open>Going online can fail, when the kernel refuses or memory is short; the source is then what it was.\<close>

lemma set_registered_last: "x\<lparr>registered := b, enabled := m, ratelimited := l\<rparr> = x\<lparr>enabled := m, ratelimited := l, registered := b\<rparr>"
  by (cases x) simp

lemma go_online_ok:
  assumes "loop_with T e" "s \<in> attached e" "m \<noteq> SD_EVENT_OFF" "T = members (with_source s (\<lambda>x. x\<lparr>enabled := m, ratelimited := False\<rparr>) e)"
  obtains r e1 b where "online_by_type k s m (event_source_is_online (sources e s)) e = Inr (r, e1)" "r < 0" "loop_with T e1" "same_loop e e1"
      "sources e1 = (sources e)(s := (sources e s)\<lparr>registered := b\<rparr>)" "clocks e1 = clocks e"
  | e1 e2 e3 e4 b where "online_by_type k s m (event_source_is_online (sources e s)) e = Inr (0, e1)"
      "(let e = with_source s (\<lambda>x. x\<lparr>enabled := m, ratelimited := False\<rparr>) e1 in if src_type (sources e s) = SOURCE_EXIT then exit_reshuffle s e else Inr e) = Inr e2"
      "event_source_time_prioq_reshuffle s e2 = Inr e3" "event_source_pp_prioq_reshuffle s e3 = Inr e4" "loop_ok e4" "same_loop e e4"
      "sources e4 = (sources e)(s := (sources e s)\<lparr>enabled := m, ratelimited := False, registered := b\<rparr>)"
proof -
  note l = loop_withD [OF assms(1)]
  let ?w = "event_source_is_online (sources e s)" and ?y = "(sources e s)\<lparr>enabled := m, ratelimited := False\<rparr>"
  note s = source_okD [OF l(7) [OF assms(2)]]
  obtain r b S n where o: "online_by_type k s m ?w e = Inr (r, left s b (exit_q e) S n e)" "signals_ok (e\<lparr>signals := S\<rparr>)" "r \<le> 0"
    "n = (if r = 0 \<and> src_type (sources e s) = SOURCE_CHILD \<and> \<not> ?w then online_children e + 1 else online_children e)"
    by (rule online_by_type_ok [OF l(8) s(3) assms(3)])
  show ?thesis
  proof (cases "r = 0")
    case False
    then have n: "n = online_children e" "r < 0" using o(3,4) by auto
    have "loop_with T (left s b (exit_q e) S n e)" unfolding n(1) by (rule registered_ok [OF assms(1,2) o(2)])
    then show ?thesis using that(1) [OF o(1) n(2)] by simp
  next
    case True
    let ?e1 = "left s b (exit_q e) S n e"
    let ?e2 = "with_source s (\<lambda>x. x\<lparr>enabled := m, ratelimited := False\<rparr>) ?e1"
    have n: "n = children_after (sources e s) ?y (online_children e)"
      using True o(4) assms(3) by (simp add: children_after_def event_source_is_online_def)
    have e2: "sources ?e2 = (sources e)(s := ?y\<lparr>registered := b\<rparr>)" "exit_q ?e2 = exit_q e" by (simp_all add: set_registered_last)
    obtain X where X: "(if src_type (sources ?e2 s) = SOURCE_EXIT then exit_reshuffle s ?e2 else Inr ?e2) = Inr (?e2\<lparr>exit_q := X\<rparr>)"
      "exit_ok (sources ?e2) (attached e) X"
    proof (cases "src_type (sources ?e2 s) = SOURCE_EXIT")
      case True
      have "exit_ok (sources e) (attached e) (exit_q ?e2)" "\<And>x. x \<noteq> s \<Longrightarrow> sources ?e2 x = sources e x" "src_type (sources ?e2 s) = src_type (sources e s)"
        using l(3) by simp_all
      then obtain q where "exit_reshuffle s ?e2 = Inr (?e2\<lparr>exit_q := q\<rparr>)" "exit_ok (sources ?e2) (attached e) q"
        by (rule exit_reshuffle_ok [OF _ l(6) assms(2) _ _ True, of "sources e"])
      then show ?thesis using that [of q] True by simp
    next
      case False
      have "exit_ok (sources ?e2) (attached e) (exit_q e)" by (rule exit_ok_unless [OF l(3), of s]) (use False in simp_all)
      moreover have "?e2\<lparr>exit_q := exit_q e\<rparr> = ?e2" by (simp add: left_def with_source_def)
      ultimately show ?thesis using that [of "exit_q e"] False by simp
    qed
    have e3: "?e2\<lparr>exit_q := X\<rparr> = left s b X S n (with_source s (\<lambda>_. ?y) e)"
      by (simp add: left_def with_source_def set_registered_last)
    have T: "T = members (with_source s (\<lambda>_. ?y) e)" using assms(4) by (simp add: members_def fun_eq_iff)
    have sig: "signals_ok (?e2\<lparr>exit_q := X\<rparr>)" "exit_ok (sources (?e2\<lparr>exit_q := X\<rparr>)) (attached e) X" using o(2) X(2) by (simp_all add: signals_ok_def)
    have y: "src_type ?y = src_type (sources e s)" "pending ?y = pending (sources e s)" "has_prepare ?y = has_prepare (sources e s)" "limit_set ?y"
      "ratelimited ?y \<Longrightarrow> event_source_can_rate_limit (src_type ?y)" by (simp_all add: limit_set_def)
    obtain e3 e4 where "event_source_time_prioq_reshuffle s (?e2\<lparr>exit_q := X\<rparr>) = Inr e3" "event_source_pp_prioq_reshuffle s e3 = Inr e4" "loop_ok e4"
      "same_loop e e4" "sources e4 = (sources e)(s := ?y\<lparr>registered := b\<rparr>)"
      by (rule settle_ok [OF assms(1,2) e3 y T sig(1) n sig(2)])
    then show ?thesis using that(2) [of ?e1 "?e2\<lparr>exit_q := X\<rparr>" e3 e4 b] o(1) X(1) True by (simp add: Let_def)
  qed
qed

lemma event_source_online_ok:
  assumes "loop_with T e" "s \<in> attached e" "enabled (sources e s) = SD_EVENT_OFF \<and> m \<noteq> SD_EVENT_OFF \<Longrightarrow> T = members e"
    "m = SD_EVENT_OFF \<Longrightarrow> enabled (sources e s) = SD_EVENT_OFF" "T = members (with_source s (\<lambda>x. x\<lparr>enabled := m, ratelimited := False\<rparr>) e)"
  defines "x \<equiv> (sources e s)\<lparr>pending := still_pending (enabled (sources e s) = SD_EVENT_OFF \<and> m \<noteq> SD_EVENT_OFF) (sources e s)\<rparr>"
  obtains r e1 b where "event_source_online k s m False e = Inr (r, e1)" "r < 0" "loop_with T e1" "same_loop e e1"
      "sources e1 = (sources e)(s := x\<lparr>registered := b\<rparr>)" "enabled (sources e s) = m \<longrightarrow> clocks e1 = clocks e"
  | r e1 e2 b where "event_source_online k s m False e = Inr (r, e1)" "0 \<le> r" "event_source_pp_prioq_reshuffle s e1 = Inr e2" "loop_ok e2"
      "same_loop e e2" "sources e2 = (sources e)(s := x\<lparr>enabled := m, ratelimited := False, registered := b\<rparr>)"
proof -
  let ?b = "enabled (sources e s) = SD_EVENT_OFF \<and> m \<noteq> SD_EVENT_OFF"
  let ?f = "\<lambda>x. x\<lparr>enabled := m, ratelimited := False\<rparr>"
  obtain r0 e0 where u: "unset_pending ?b s e = Inr (r0, e0)" "0 \<le> r0" "loop_with T e0" "same_loop e e0" "sources e0 = (sources e)(s := x)" "\<not> ?b \<longrightarrow> e0 = e"
    unfolding x_def by (rule unset_with_ok [OF assms(1-3)])
  note l = loop_withD [OF u(3)]
  have s: "s \<in> attached e0" "sources e0 s = x" "attached e0 = attached e" using assms(2) same_loopD(1) [OF u(4)] u(5) by auto
  have T: "T = members (with_source s ?f e0)" using s(3) u(5) assms(5) by (auto simp: members_def clock_of_def fun_eq_iff x_def)
  show ?thesis
  proof (cases "m = SD_EVENT_OFF")
    case True
    let ?e = "with_source s ?f e0"
    have off: "enabled x = SD_EVENT_OFF" "sources ?e = (sources e0)(s := ?f x)" using assms(4) True s(2) by (simp_all add: x_def)
    have "exit_ok (sources ?e) (attached ?e) (exit_q ?e)"
      by (simp, rule exit_ok_ranks [OF l(3)]) (use off True s(2) in \<open>auto simp: exit_rank_def\<close>)
    moreover have "clock_ok (sources ?e) (clocks ?e c) (members ?e c)" for c
      by (rule clock_ok_ranks [OF l(5) [of c, unfolded T]]) (use off True s(2) in \<open>simp_all add: earliest_rank_def latest_rank_def limit_set_def\<close>)
    moreover have "books_ok ?e"
      by (rule books_ok_state [OF l(4) s(1), of _ "?f x"])
        (use off True s(2) l(8) in \<open>simp_all add: limit_set_def signals_ok_def children_after_def event_source_is_online_def\<close>)
    moreover have "pending_ok (sources e0) (attached ?e) (pending_q ?e)" "prepare_ok (sources e0) (attached ?e) (prepare_q ?e)" "s \<in> attached ?e"
      "\<And>x. x \<noteq> s \<Longrightarrow> sources ?e x = sources e0 x" "pending (sources ?e s) = pending (sources e0 s)" "has_prepare (sources ?e s) = has_prepare (sources e0 s)"
      using l(1,2) s(1) by simp_all
    ultimately obtain e2 where e2: "event_source_pp_prioq_reshuffle s ?e = Inr e2" "loop_ok e2" "same_loop ?e e2" "sources e2 = sources ?e"
      using finish_change_ok [of "sources e0" ?e s thesis] by blast
    have "event_source_online k s m False e = Inr (0, ?e)"
      using u(1,2) True by (simp add: event_source_online_def)
    moreover have "same_loop e0 ?e" by (simp add: same_loop_def)
    then have "same_loop e e2" using u(4) e2(3) by (blast intro: same_loop_trans)
    moreover have "sources e2 = (sources e)(s := (?f x)\<lparr>registered := registered x\<rparr>)" using e2(4) off(2) u(5) by simp
    ultimately show ?thesis using that(2) [of 0 ?e e2 "registered x"] e2(1,2) by simp
  next
    case False
    show ?thesis
    proof (rule go_online_ok [OF u(3) s(1) False T, of k])
      fix r e1 b assume f: "online_by_type k s m (event_source_is_online (sources e0 s)) e0 = Inr (r, e1)" "r < 0" "loop_with T e1" "same_loop e0 e1"
        "sources e1 = (sources e0)(s := (sources e0 s)\<lparr>registered := b\<rparr>)" "clocks e1 = clocks e0"
      have "event_source_online k s m False e = Inr (r, e1)"
        using u(1,2) f(1,2) False by (simp add: event_source_online_def)
      then show ?thesis using that(1) [OF _ f(2,3) same_loop_trans [OF u(4) f(4)]] f(5,6) u(5,6) by simp
    next
      fix e1 e2 e3 e4 b assume o: "online_by_type k s m (event_source_is_online (sources e0 s)) e0 = Inr (0, e1)"
        "(let e = with_source s ?f e1 in if src_type (sources e s) = SOURCE_EXIT then exit_reshuffle s e else Inr e) = Inr e2"
        "event_source_time_prioq_reshuffle s e2 = Inr e3" "event_source_pp_prioq_reshuffle s e3 = Inr e4" "loop_ok e4" "same_loop e0 e4"
        "sources e4 = (sources e0)(s := (sources e0 s)\<lparr>enabled := m, ratelimited := False, registered := b\<rparr>)"
      have "event_source_online k s m False e = Inr (1, e3)"
        using u(1,2) False o(1-3) unfolding event_source_online_def Let_def by (simp cong: if_cong prod.case_cong)
      then show ?thesis using that(2) [OF _ _ o(4,5) same_loop_trans [OF u(4) o(6)]] o(7) u(5) by simp
    qed
  qed
qed

text \<open>Between \<open>SD_EVENT_ON\<close> and \<open>SD_EVENT_ONESHOT\<close> there is nothing to put in order.\<close>

lemma stays_enabled_ok:
  assumes "loop_ok e" "s \<in> attached e" "enabled (sources e s) \<noteq> SD_EVENT_OFF" "m \<noteq> SD_EVENT_OFF"
  shows "loop_ok (with_source s (\<lambda>x. x\<lparr>enabled := m\<rparr>) e)"
proof -
  let ?e = "with_source s (\<lambda>x. x\<lparr>enabled := m\<rparr>) e"
  note l = loop_okD [OF assms(1)]
  have "pending_ok (sources ?e) (attached ?e) (pending_q ?e)" "prepare_ok (sources ?e) (attached ?e) (prepare_q ?e)"
    by (simp, rule pending_ok_ranks [OF l(3)], auto simp: pending_rank_def assms(3,4))
      (rule prepare_ok_ranks [OF l(4)], auto simp: prepare_rank_def assms(3,4))
  moreover have "exit_ok (sources ?e) (attached ?e) (exit_q ?e)"
    by (simp, rule exit_ok_ranks [OF l(5)]) (auto simp: exit_rank_def assms(3,4))
  moreover have "members ?e = members e" by (auto simp: members_def clock_of_def fun_eq_iff)
  moreover have "clock_ok (sources ?e) (clocks ?e c) (members e c)" for c
    by (rule clock_ok_ranks [OF l(6)]) (simp_all add: earliest_rank_def latest_rank_def event_source_timer_candidate_def
      next_time_def latest_time_def limit_set_def assms(3,4))
  moreover have "books_ok ?e"
    by (rule books_ok_state [OF l(2) assms(2), of _ "(sources e s)\<lparr>enabled := m\<rparr>"])
      (use source_okD(1,2) [OF l(11) [OF assms(2)]] l(12) assms(3,4) in
        \<open>auto simp: limit_set_def signals_ok_def children_after_def event_source_is_online_def\<close>)
  ultimately show ?thesis by (simp add: loop_ok_def queues_ok_def)
qed

lemma members_state_same:
  assumes "lim = ratelimited (sources e s)"
  shows "members (with_source s (\<lambda>x. x\<lparr>enabled := m, ratelimited := lim\<rparr>) e) = members e"
  using assms by (auto simp: members_def clock_of_def fun_eq_iff)

lemma set_enabled_exact:
  assumes "loop_ok e" "s \<in> attached e" "\<not> finished e" "\<not> pid_changed e"
    "m = SD_EVENT_OFF \<or> enabled (sources e s) \<noteq> SD_EVENT_OFF \<or> \<not> ratelimited (sources e s)"
  shows "\<exists>r e'. sd_event_source_set_enabled k (Some s) m e = Inr (r, e') \<and> loop_ok e' \<and> same_loop e e' \<and> (m = SD_EVENT_OFF \<longrightarrow> r = 0) \<and>
    (\<exists>b. sources e' = (sources e)(s := (sources e s)\<lparr>pending := still_pending ((m = SD_EVENT_OFF) \<noteq> (enabled (sources e s) = SD_EVENT_OFF)) (sources e s),
      enabled := if r < 0 then enabled (sources e s) else m, registered := b\<rparr>))"
proof -
  let ?x = "sources e s"
  let ?change = "\<lambda>r. rbind r (\<lambda>(r, e). if r < 0 then Inr (r, e) else rbind (event_source_pp_prioq_reshuffle s e) (\<lambda>e. Inr (0, e)))"
  have base: "loop_with (members e) e" using assms(1) by (simp add: loop_ok_with)
  have lim: "limit_set ?x" "ratelimited ?x \<Longrightarrow> event_source_can_rate_limit (src_type ?x)"
    using source_okD(1,2) [OF loop_okD(11) [OF assms(1,2)]] .
  have result: ?thesis if "sd_event_source_set_enabled k (Some s) m e = Inr (r, e')" "loop_ok e'" "same_loop e e'" "m = SD_EVENT_OFF \<longrightarrow> r = 0"
      "sources e' = (sources e)(s := ?x\<lparr>pending := p, enabled := if r < 0 then enabled ?x else m, registered := b\<rparr>)"
      "p = still_pending ((m = SD_EVENT_OFF) \<noteq> (enabled ?x = SD_EVENT_OFF)) ?x" for r e' p b
    by (rule exI [of _ r], rule exI [of _ e'], intro conjI that(1-4), rule exI [of _ b]) (use that(5,6) in simp)
  consider "enabled ?x = m" | "enabled ?x \<noteq> m" "m \<noteq> SD_EVENT_OFF" "enabled ?x \<noteq> SD_EVENT_OFF"
    | "m = SD_EVENT_OFF" "enabled ?x \<noteq> SD_EVENT_OFF" | "m \<noteq> SD_EVENT_OFF" "enabled ?x = SD_EVENT_OFF" "\<not> ratelimited ?x"
    using assms(5) by metis
  then show ?thesis
  proof cases
    case 1
    have "?x = ?x\<lparr>pending := pending ?x, enabled := m, registered := registered ?x\<rparr>" using 1 by (cases ?x) simp
    then have "sources e = (sources e)(s := ?x\<lparr>pending := pending ?x, enabled := m, registered := registered ?x\<rparr>)" by simp
    then show ?thesis
      by (intro result [of 0 e "registered ?x" "pending ?x"]) (use 1 assms(1,3,4) in \<open>simp_all add: sd_event_source_set_enabled_def still_pending_def\<close>)
  next
    case 2
    let ?e = "with_source s (\<lambda>x. x\<lparr>enabled := m\<rparr>) e"
    have "sd_event_source_set_enabled k (Some s) m e = Inr (0, ?e)" using 2 assms(3,4) by (simp add: sd_event_source_set_enabled_def)
    moreover have "sources ?e = (sources e)(s := ?x\<lparr>pending := pending ?x, enabled := m, registered := registered ?x\<rparr>)" by (cases ?x) simp
    moreover have "same_loop e ?e" by (simp add: same_loop_def)
    ultimately show ?thesis
      by (intro result [of 0 ?e "registered ?x" "pending ?x"] stays_enabled_ok [OF assms(1,2) 2(3,2)]) (use 2 in \<open>simp_all add: still_pending_def\<close>)
  next
    case 3
    have S: "limit_set (?x\<lparr>ratelimited := True\<rparr>) \<and> event_source_can_rate_limit (src_type ?x)" if "ratelimited ?x"
      using lim that by (simp add: limit_set_def)
    have C: "m = SD_EVENT_OFF \<or> ratelimited ?x" using 3 by simp
    have T: "members e = members (with_source s (\<lambda>x. x\<lparr>enabled := m, ratelimited := ratelimited ?x\<rparr>) e)"
      by (rule members_state_same [OF refl, symmetric])
    obtain e1 e2 b where o: "event_source_offline s m (ratelimited ?x) e = Inr (1, e1)" "event_source_pp_prioq_reshuffle s e1 = Inr e2"
      "loop_ok e2" "same_loop e e2"
      "sources e2 = (sources e)(s := ?x\<lparr>pending := still_pending (enabled ?x \<noteq> SD_EVENT_OFF \<and> m = SD_EVENT_OFF) ?x, enabled := m,
        ratelimited := ratelimited ?x, registered := b\<rparr>)"
      by (rule event_source_offline_ok [OF base assms(2) C refl T S])
    have "sd_event_source_set_enabled k (Some s) m e = Inr (0, e2)"
      using 3 assms(3,4) o(1,2) by (simp add: sd_event_source_set_enabled_def)
    moreover have "y\<lparr>ratelimited := ratelimited y\<rparr> = y" for y :: event_source by (cases y) simp
    then have "?x\<lparr>pending := p, enabled := m, ratelimited := ratelimited ?x, registered := b\<rparr> = ?x\<lparr>pending := p, enabled := m, registered := b\<rparr>" for p b
      by (cases ?x) simp
    ultimately show ?thesis
      by (intro result [of 0 e2 b "still_pending (enabled ?x \<noteq> SD_EVENT_OFF \<and> m = SD_EVENT_OFF) ?x"] o(3,4))
        (use o(5) 3 in \<open>simp_all add: still_pending_def\<close>)
  next
    case 4
    let ?b = "enabled ?x = SD_EVENT_OFF \<and> m \<noteq> SD_EVENT_OFF"
    have run: "sd_event_source_set_enabled k (Some s) m e = ?change (event_source_online k s m False e)"
      using 4 assms(3,4) by (simp add: sd_event_source_set_enabled_def)
    have T: "members e = members (with_source s (\<lambda>x. x\<lparr>enabled := m, ratelimited := False\<rparr>) e)"
      using 4 by (intro members_state_same [symmetric]) simp
    show ?thesis
    proof (rule event_source_online_ok [OF base assms(2) refl _ T, of k])
      fix r e1 b assume f: "event_source_online k s m False e = Inr (r, e1)" "r < 0" "loop_with (members e) e1" "same_loop e e1"
        "sources e1 = (sources e)(s := ?x\<lparr>pending := still_pending ?b ?x\<rparr>\<lparr>registered := b\<rparr>)" "enabled ?x = m \<longrightarrow> clocks e1 = clocks e"
      have "members e1 = members e" using same_loopD(1) [OF f(4)] f(5) by (auto simp: members_def clock_of_def fun_eq_iff)
      then have "loop_ok e1" using f(3) by (simp add: loop_ok_with)
      moreover have "?x\<lparr>pending := p, registered := b\<rparr> = ?x\<lparr>pending := p, enabled := SD_EVENT_OFF, registered := b\<rparr>" for p
        using 4(2) by (cases ?x) simp
      then have "sources e1 = (sources e)(s := ?x\<lparr>pending := still_pending ?b ?x, enabled := SD_EVENT_OFF, registered := b\<rparr>)"
        unfolding f(5) by metis
      ultimately show ?thesis
        by (intro result [of r e1 b "still_pending ?b ?x"] f(4)) (use run f(1,2) 4 in \<open>simp_all add: still_pending_def\<close>)
    next
      fix r e1 e2 b assume o: "event_source_online k s m False e = Inr (r, e1)" "0 \<le> r" "event_source_pp_prioq_reshuffle s e1 = Inr e2" "loop_ok e2"
        "same_loop e e2" "sources e2 = (sources e)(s := ?x\<lparr>pending := still_pending ?b ?x\<rparr>\<lparr>enabled := m, ratelimited := False, registered := b\<rparr>)"
      have "sd_event_source_set_enabled k (Some s) m e = Inr (0, e2)" using run o(1-3) by simp
      moreover have "?x\<lparr>pending := p, enabled := m, ratelimited := False, registered := b\<rparr> = ?x\<lparr>pending := p, enabled := m, registered := b\<rparr>" for p
        using 4(3) by (cases ?x) simp
      then have "sources e2 = (sources e)(s := ?x\<lparr>pending := still_pending ?b ?x, enabled := m, registered := b\<rparr>)"
        unfolding o(6) by metis
      ultimately show ?thesis
        by (intro result [of 0 e2 b "still_pending ?b ?x"] o(4,5)) (use 4 in \<open>simp_all add: still_pending_def\<close>)
    qed (use 4 in simp_all)
  qed
qed

lemma set_enabled_ok:
  assumes "loop_ok e" "s \<in> attached e" "\<not> finished e" "\<not> pid_changed e"
    "m = SD_EVENT_OFF \<or> enabled (sources e s) \<noteq> SD_EVENT_OFF \<or> \<not> ratelimited (sources e s)"
  shows "\<exists>r e'. sd_event_source_set_enabled k (Some s) m e = Inr (r, e') \<and> loop_ok e' \<and> same_loop e e' \<and> (m = SD_EVENT_OFF \<longrightarrow> r = 0) \<and>
    (\<exists>p b. sources e' = (sources e)(s := (sources e s)\<lparr>pending := p, enabled := if r < 0 then enabled (sources e s) else m, registered := b\<rparr>) \<and>
      (p \<longrightarrow> pending (sources e s)) \<and>
      (p \<and> m = SD_EVENT_OFF \<and> enabled (sources e s) \<noteq> SD_EVENT_OFF \<longrightarrow> src_type (sources e s) \<in> {SOURCE_DEFER, SOURCE_EXIT}))"
  using set_enabled_exact [OF assms] unfolding still_pending_def by blast

text \<open>What the kernel is told of the source meanwhile.\<close>

lemma kernel_watches_state [simp]: "kernel_watches s (with_source t (\<lambda>x. x\<lparr>enabled := m, ratelimited := l\<rparr>) e) = kernel_watches s e"
proof -
  have "signal_priority g (with_source t (\<lambda>x. x\<lparr>enabled := m, ratelimited := l\<rparr>) e) = signal_priority g e" for g
    by (simp add: signal_priority_def split: option.splits)
  then show ?thesis by (simp add: kernel_watches_def own_signals_def EVENT_SOURCE_WATCH_PIDFD_def watched_def)
qed

lemma others_watched_trans: "others_watched s e e1 \<Longrightarrow> others_watched s e1 e2 \<Longrightarrow> own_signals (sources e1 s) = own_signals (sources e s) \<Longrightarrow> others_watched s e e2"
  by (simp add: others_watched_def)

lemma others_watched_same: "kernel_same e e' \<Longrightarrow> others_watched s e e'"
  by (simp add: others_watched_def kernel_same_def)

lemma unset_pending_same: "unset_pending b s e = Inr (r, e') \<Longrightarrow> kernel_same e e'"
  by (auto simp: unset_pending_def set_pending_same split: if_splits)

lemma own_signals_same: "kernel_same e e' \<Longrightarrow> own_signals (sources e' s) = own_signals (sources e s)"
  by (simp add: kernel_same_def own_signals_def)

lemma offline_watched:
  assumes "loop_ok e" "s \<in> attached e" "\<not> pid_changed e" "event_source_offline s m lim e = Inr (r, e1)" "event_source_pp_prioq_reshuffle s e1 = Inr e'" "0 \<le> r"
  shows "others_watched s e e'" "kernel_forgets s e'"
proof -
  obtain r0 e0 where e0: "unset_pending (enabled (sources e s) \<noteq> SD_EVENT_OFF \<and> m = SD_EVENT_OFF) s e = Inr (r0, e0)"
    using assms(4) by (auto simp: event_source_offline_def res_iff)
  let ?w = "event_source_is_offline (sources e0 s)" and ?e = "with_source s (\<lambda>x. x\<lparr>enabled := m, ratelimited := lim\<rparr>) e0"
  obtain e2 e3 where run: "offline_by_type s ?w ?e = Inr e2" "event_source_time_prioq_reshuffle s e2 = Inr e1"
    using assms(4,6) e0 by (auto simp: event_source_offline_def Let_def res_iff rassert_def simp del: offline_not_online split: if_splits)
  note k0 = unset_pending_same [OF e0]
  have on: "0 < online_children ?e" if "src_type (sources ?e s) = SOURCE_CHILD \<and> \<not> ?w"
  proof -
    have "src_type (sources e s) = SOURCE_CHILD \<and> event_source_is_online (sources e s)" "online_children e0 = online_children e"
      using that k0 by (simp_all add: kernel_same_def)
    then have "s \<in> children_online e" "finite (children_online e)" "online_children ?e = card (children_online e)"
      using assms(2) loop_okD(7,14) [OF assms(1)] by (simp_all add: children_online_def small_def)
    then show ?thesis by (auto simp: card_gt_0_iff)
  qed
  have pid: "\<not> pid_changed ?e" using assms(3) k0 by (simp add: kernel_same_def)
  note off = offline_by_type_watched [OF run(1) pid on]
  have k: "kernel_same e2 e'" using kernel_same_trans [OF queue_steps_same(2) [OF run(2)] queue_steps_same(3) [OF assms(5)]] .
  show "kernel_forgets s e'" using off(2) kernel_same_watches(2) [OF k] by simp
  have "watched ?e = watched e" "own_signals (sources ?e s) = own_signals (sources e s)"
    using k0 by (simp_all add: kernel_same_def own_signals_def watched_def fun_eq_iff)
  then show "others_watched s e e'" using off(1) k by (simp add: others_watched_def kernel_same_def)
qed

lemma online_watched:
  assumes "loop_ok e" "s \<in> attached e" "\<not> pid_changed e" "m \<noteq> SD_EVENT_OFF" "event_source_online k s m False e = Inr (r, e1)"
    "if r < 0 then e' = e1 else event_source_pp_prioq_reshuffle s e1 = Inr e'"
  shows "others_watched s e e'" "0 \<le> r \<Longrightarrow> kernel_watches s e'" "willing k \<Longrightarrow> 0 \<le> r" "r < 0 \<Longrightarrow> registered (sources e' s) = registered (sources e s)"
proof -
  let ?b = "enabled (sources e s) = SD_EVENT_OFF \<and> m \<noteq> SD_EVENT_OFF"
  have base: "loop_with (members e) e" using assms(1) by (simp add: loop_ok_with)
  obtain r0 e0 where u: "unset_pending ?b s e = Inr (r0, e0)" "0 \<le> r0" "loop_with (members e) e0"
    by (rule unset_with_ok [OF base assms(2) refl]) blast
  note k0 = unset_pending_same [OF u(1)]
  have e0: "signals_ok e0" "\<not> pid_changed e0" "watched e0 = watched e" "registered (sources e0 s) = registered (sources e s)"
    using loop_withD(8) [OF u(3)] assms(3) k0 by (simp_all add: kernel_same_def)
  obtain r2 e2 where run: "online_by_type k s m (event_source_is_online (sources e0 s)) e0 = Inr (r2, e2)"
    using assms(4,5) u(1,2) by (auto simp: event_source_online_def rassert_def res_iff split: if_splits)
  note w = online_by_type_watched [OF run e0(1) assms(4)]
  have own: "own_signals (sources e0 s) = own_signals (sources e s)" by (rule own_signals_same [OF k0])
  then have other: "others_watched s e e2" using w(1) e0(3) by (simp add: others_watched_def)
  have "src_type (sources e0 s) \<noteq> SOURCE_WATCHDOG"
    using source_okD(3) [OF loop_okD(11) [OF assms(1,2)]] k0 by (simp add: kernel_same_def)
  then have neg: "r2 \<le> 0" using run e0(1) assms(4) by (metis online_by_type_ok Inr_inject prod.inject)
  have "others_watched s e e' \<and> (0 \<le> r \<longrightarrow> kernel_watches s e') \<and> (willing k \<longrightarrow> 0 \<le> r) \<and> (r < 0 \<longrightarrow> registered (sources e' s) = registered (sources e s))"
  proof (cases "r2 < 0")
    case True
    then have "r = r2" "e' = e2" using assms(4-6) u(1,2) run by (auto simp: event_source_online_def rassert_def split: if_splits)
    then show ?thesis using other w(3,4) True e0(2,4) by auto
  next
    case False
    let ?e = "with_source s (\<lambda>x. x\<lparr>enabled := m, ratelimited := False\<rparr>) e2"
    have r2: "r2 = 0" using False neg by simp
    obtain e3 where e3: "(if src_type (sources ?e s) = SOURCE_EXIT then exit_reshuffle s ?e else Inr ?e) = Inr e3"
      "event_source_time_prioq_reshuffle s e3 = Inr e1" "r = 1"
      using assms(4,5) u(1,2) run r2 by (auto simp: event_source_online_def Let_def rassert_def res_iff cong: if_cong)
    have "kernel_same ?e e3" using e3(1) queue_steps_same(1) by (auto split: if_splits)
    moreover have "kernel_same e3 e1" using queue_steps_same(2) [OF e3(2)] .
    moreover have "kernel_same e1 e'" using assms(6) e3(3) queue_steps_same(3) by simp
    ultimately have k: "kernel_same ?e e'" using kernel_same_trans by blast
    have "watched ?e = watched e2" by (simp add: watched_def fun_eq_iff)
    then have "others_watched s e e'" using other k by (simp add: others_watched_def kernel_same_def)
    moreover have "kernel_watches s e'" using w(2) [OF r2] kernel_same_watches(1) [OF k] by simp
    ultimately show ?thesis using e3(3) by simp
  qed
  then show "others_watched s e e'" "0 \<le> r \<Longrightarrow> kernel_watches s e'" "willing k \<Longrightarrow> 0 \<le> r" "r < 0 \<Longrightarrow> registered (sources e' s) = registered (sources e s)"
    by blast+
qed

lemma set_enabled_watched:
  assumes "loop_ok e" "s \<in> attached e" "\<not> finished e" "\<not> pid_changed e"
    "m = SD_EVENT_OFF \<or> enabled (sources e s) \<noteq> SD_EVENT_OFF \<or> \<not> ratelimited (sources e s)"
    "sd_event_source_set_enabled k (Some s) m e = Inr (r, e')"
  shows "others_watched s e e' \<and> r \<le> 0 \<and> (willing k \<longrightarrow> r = 0) \<and> (r < 0 \<longrightarrow> registered (sources e' s) = registered (sources e s)) \<and>
    (r = 0 \<and> enabled (sources e s) = SD_EVENT_OFF \<and> m \<noteq> SD_EVENT_OFF \<longrightarrow> kernel_watches s e') \<and>
    (enabled (sources e s) \<noteq> SD_EVENT_OFF \<and> m = SD_EVENT_OFF \<longrightarrow> kernel_forgets s e')"
proof -
  consider "enabled (sources e s) = m \<or> enabled (sources e s) \<noteq> SD_EVENT_OFF \<and> m \<noteq> SD_EVENT_OFF"
    | "m = SD_EVENT_OFF" "enabled (sources e s) \<noteq> SD_EVENT_OFF" | "m \<noteq> SD_EVENT_OFF" "enabled (sources e s) = SD_EVENT_OFF" "\<not> ratelimited (sources e s)"
    using assms(5) by metis
  then show ?thesis
  proof cases
    case 1
    then show ?thesis using assms(3,4,6) by (auto simp: sd_event_source_set_enabled_def others_watched_def watched_def split: if_splits)
  next
    case 2
    have "0 \<le> r \<and> r = 0" using set_enabled_ok [OF assms(1-5), of k] 2(1) assms(6) by auto
    moreover obtain r1 e1 where "event_source_offline s m (ratelimited (sources e s)) e = Inr (r1, e1)"
      "if r1 < 0 then r = r1 \<and> e' = e1 else event_source_pp_prioq_reshuffle s e1 = Inr e'"
      using 2 assms(3,4,6) by (auto simp: sd_event_source_set_enabled_def res_iff split: if_splits)
    ultimately show ?thesis using offline_watched [OF assms(1,2,4)] 2 by (auto split: if_splits)
  next
    case 3
    obtain r1 e1 where run: "event_source_online k s m False e = Inr (r1, e1)"
      "if r1 < 0 then e' = e1 else event_source_pp_prioq_reshuffle s e1 = Inr e'" "r = (if r1 < 0 then r1 else 0)"
      using 3 assms(3,4,6) by (auto simp: sd_event_source_set_enabled_def res_iff split: if_splits)
    show ?thesis using online_watched [OF assms(1,2,4) 3(1) run(1,2)] run(3) 3 by (auto split: if_splits)
  qed
qed

text \<open>
  C19. Enabling or disabling a source never fails an assertion, whatever the kind and the state of the source, but for one case: a source
  that is disabled and rate limited is not enabled here, see \<open>reenabled_limited_source_sleeps\<close> for what happens then. In a forked process
  and after the end of the loop the call only returns its code. Otherwise the event loop stays in order: every queue is sorted by the new
  states, the count of children is kept, no other source changes, and the signals of other sources are watched as before. Disabling always
  succeeds, enabling does when neither the kernel nor the memory refuses; when enabling fails, the source is as it was, but no longer pending.
  A source that was enabled is from then on watched by the kernel (its descriptor is registered, its signal is in the set of its priority), one
  that was disabled no longer (but for a signal that some other source is online for). The source is taken out of the pending ones when it goes
  from disabled to enabled or back, but for deferred and exit sources.
\<close>

theorem set_enabled_keeps_order:
  assumes "loop_ok e" "s \<in> attached e" "m = SD_EVENT_OFF \<or> enabled (sources e s) \<noteq> SD_EVENT_OFF \<or> \<not> ratelimited (sources e s)"
  shows "\<exists>r e'. sd_event_source_set_enabled k (Some s) m e = Inr (r, e') \<and> r \<le> 0 \<and>
    (if pid_changed e then r = - ECHILD \<and> e' = e
     else if finished e then r = (if m = SD_EVENT_OFF then 0 else - ESTALE) \<and> e' = e
     else loop_ok e' \<and> same_loop e e' \<and> others_watched s e e' \<and> (m = SD_EVENT_OFF \<or> willing k \<longrightarrow> r = 0) \<and>
      (\<exists>b. sources e' = (sources e)(s := (sources e s)
           \<lparr>pending := still_pending ((m = SD_EVENT_OFF) \<noteq> (enabled (sources e s) = SD_EVENT_OFF)) (sources e s),
            enabled := if r < 0 then enabled (sources e s) else m, registered := b\<rparr>) \<and> (r < 0 \<longrightarrow> b = registered (sources e s))) \<and>
      (r = 0 \<and> enabled (sources e s) = SD_EVENT_OFF \<and> m \<noteq> SD_EVENT_OFF \<longrightarrow> kernel_watches s e') \<and>
      (enabled (sources e s) \<noteq> SD_EVENT_OFF \<and> m = SD_EVENT_OFF \<longrightarrow> kernel_forgets s e'))"
proof (cases "pid_changed e \<or> finished e")
  case True
  then show ?thesis by (auto simp: sd_event_source_set_enabled_def ECHILD_def ESTALE_def)
next
  case False
  then have live: "\<not> finished e" "\<not> pid_changed e" by simp_all
  obtain r e' b where run: "sd_event_source_set_enabled k (Some s) m e = Inr (r, e')" "loop_ok e'" "same_loop e e'" "m = SD_EVENT_OFF \<longrightarrow> r = 0"
    "sources e' = (sources e)(s := (sources e s)\<lparr>pending := still_pending ((m = SD_EVENT_OFF) \<noteq> (enabled (sources e s) = SD_EVENT_OFF)) (sources e s),
       enabled := if r < 0 then enabled (sources e s) else m, registered := b\<rparr>)"
    using set_enabled_exact [OF assms(1,2) live assms(3), of k] by blast
  have b: "registered (sources e' s) = b" by (simp add: run(5))
  show ?thesis using set_enabled_watched [OF assms(1,2) live assms(3) run(1)] run live unfolding b
    by (intro exI [of _ r] exI [of _ e'] conjI) (simp_all, blast+)
qed

definition demo_kernel :: kernel where
  "demo_kernel = \<lparr>epoll_ctl = (\<lambda>_. 0), new_signalfd = (\<lambda>_ _. 5), timerfd_create = (\<lambda>_. 6), copy_fd = (\<lambda>_. - 1), mem = (\<lambda>_. True)\<rparr>"

text \<open>
  C26. A disabled source that is rate limited is enabled without telling the clock its window is timed by: the call succeeds,
  but the next arming of the monotonic clock does nothing, and when the timer is set later than the end of the window (it is off when
  the source was the only one), nothing wakes the event loop up to end the rate limit: the source sleeps on.
\<close>

theorem reenabled_limited_source_sleeps:
  assumes "loop_ok e" "s \<in> attached e" "\<not> finished e" "\<not> pid_changed e" "ratelimited (sources e s)" "enabled (sources e s) = SD_EVENT_OFF"
    "\<not> pending (sources e s)" "m \<noteq> SD_EVENT_OFF" "\<not> needs_rearm (clocks e CLOCK_MONOTONIC)"
    "latest_time (sources e s) < next_set (clocks e CLOCK_MONOTONIC)"
  shows "\<exists>e'. sd_event_source_set_enabled k (Some s) m e = Inr (0, e') \<and> enabled (sources e' s) = m \<and> ratelimited (sources e' s) \<and>
    event_arm_timer settime time_max boot CLOCK_MONOTONIC e' = Inr (0, e') \<and>
    \<not> due_in_time (sources e') (members e' CLOCK_MONOTONIC) (next_set (clocks e' CLOCK_MONOTONIC))"
proof -
  let ?e = "with_source s (\<lambda>x. x\<lparr>enabled := m, ratelimited := True\<rparr>) e"
  note l = loop_okD [OF assms(1)]
  have x: "pending (sources ?e s) = pending (sources e s)" "has_prepare (sources ?e s) = has_prepare (sources e s)" "small (attached ?e)" "s \<in> attached ?e"
    "\<And>x. x \<noteq> s \<Longrightarrow> sources ?e x = sources e x" "pending_ok (sources e) (attached ?e) (pending_q ?e)" "prepare_ok (sources e) (attached ?e) (prepare_q ?e)"
    using assms(2) l(3,4,7) by simp_all
  obtain p r where pr: "event_source_pp_prioq_reshuffle s ?e = Inr (?e\<lparr>pending_q := p, prepare_q := r\<rparr>)"
    by (rule pp_reshuffle_ok [OF x(6,7,3,4,5,1,2)])
  have "unset_pending True s e = Inr (0, e)" using assms(7) by (simp add: unset_pending_def source_set_pending_def)
  then have "event_source_online k s m True e = Inr (0, ?e)" using assms(6,8) by (simp add: event_source_online_def)
  then have run: "sd_event_source_set_enabled k (Some s) m e = Inr (0, ?e\<lparr>pending_q := p, prepare_q := r\<rparr>)"
    using assms(3-6,8) pr by (simp add: sd_event_source_set_enabled_def)
  have M: "s \<in> members (?e\<lparr>pending_q := p, prepare_q := r\<rparr>) CLOCK_MONOTONIC" using assms(2) by (simp add: members_def clock_of_def)
  have "latest_time (sources ?e s) = latest_time (sources e s)" "event_source_timer_candidate (sources ?e s)"
    using assms(5) by (simp_all add: latest_time_def event_source_timer_candidate_def)
  then have "\<not> due_in_time (sources ?e) (members (?e\<lparr>pending_q := p, prepare_q := r\<rparr>) CLOCK_MONOTONIC) (next_set (clocks e CLOCK_MONOTONIC))"
    using M assms(8,10) unfolding due_in_time_def by fastforce
  then show ?thesis
    by (intro exI [of _ "?e\<lparr>pending_q := p, prepare_q := r\<rparr>"] conjI run) (use assms(9) in \<open>simp_all add: event_arm_timer_def\<close>)
qed

text \<open>A loop with one source, on a descriptor, that is rate limited and disabled; the timer is off.\<close>

definition limited_source :: event_source where
  "limited_source = (demo_timer False 0)\<lparr>src_type := SOURCE_IO, enabled := SD_EVENT_OFF, ratelimited := True,
     rate := \<lparr>rl_interval = 10, rl_burst = 2, rl_num = 2, rl_begin = 5\<rparr>\<rparr>"

definition limited_loop :: event_loop where
  "limited_loop = demo_loop\<lparr>sources := (\<lambda>_. limited_source), attached := {1}, pending_q := Some (demo_queue []),
     clocks := (clocks demo_loop)(CLOCK_MONOTONIC := \<lparr>timer_fd = 3, earliest_q = Some (demo_queue [1]), latest_q = Some (demo_queue [1]),
       next_set = USEC_INFINITY, needs_rearm = False\<rparr>)\<rparr>"

lemma limited_fields:
  "attached limited_loop = {1}" "sources limited_loop s = limited_source" "\<not> finished limited_loop" "\<not> pid_changed limited_loop"
  "clocks limited_loop CLOCK_MONOTONIC = \<lparr>timer_fd = 3, earliest_q = Some (demo_queue [1]), latest_q = Some (demo_queue [1]),
     next_set = USEC_INFINITY, needs_rearm = False\<rparr>"
  "c \<noteq> CLOCK_MONOTONIC \<Longrightarrow> clocks limited_loop c = \<lparr>timer_fd = - 1, earliest_q = None, latest_q = None, next_set = USEC_INFINITY, needs_rearm = False\<rparr>"
  "signals limited_loop p = None" "prepare_q limited_loop = None" "exit_q limited_loop = None" "online_children limited_loop = 0"
  "n_pending limited_loop d = 0" "pending_q limited_loop = Some (demo_queue [])"
  by (simp_all add: limited_loop_def demo_loop_def)

lemma limited_source_fields:
  "src_type limited_source = SOURCE_IO" "enabled limited_source = SD_EVENT_OFF" "ratelimited limited_source" "\<not> pending limited_source"
  "\<not> has_prepare limited_source" "limit_set limited_source" "latest_time limited_source = 15"
  by (simp_all add: limited_source_def demo_timer_def limit_set_def latest_time_def usec_add_def USEC_INFINITY_def)

lemma small_queues:
  "valid 1 \<Longrightarrow> queue_of rank valid (Some (demo_queue [1])) {1}" "queue_of rank valid (Some (demo_queue [])) {}"
proof -
  have "ordered_queue rank valid (demo_queue [1])" if "valid 1"
    using that by (simp add: ordered_queue_def sound_queue_def idx_ok_def demo_queue_def n_items_def idx_is_def heap_on_def)
  then show "valid 1 \<Longrightarrow> queue_of rank valid (Some (demo_queue [1])) {1}" by (simp add: queue_of_def holds_def demo_queue_def)
  show "queue_of rank valid (Some (demo_queue [])) {}"
    by (simp add: queue_of_def holds_def ordered_queue_def sound_queue_def idx_ok_def demo_queue_def n_items_def heap_on_def)
qed

lemma limited_loop_ok: "loop_ok limited_loop"
proof -
  have m: "members limited_loop c = (if c = CLOCK_MONOTONIC then {1} else {})" for c
    by (auto simp: members_def limited_fields limited_source_fields clock_of_def)
  have "clock_ok (sources limited_loop) (clocks limited_loop c) (members limited_loop c)" for c
  proof (cases "c = CLOCK_MONOTONIC")
    case True
    then show ?thesis
      by (simp add: clock_ok_def m limited_fields small_queues [unfolded One_nat_def] limited_source_fields event_source_can_rate_limit_def)
  next
    case False
    then show ?thesis by (simp add: clock_ok_def m limited_fields queue_of_def created_def)
  qed
  moreover have "inotify_pending limited_loop d = {}" "children_online limited_loop = {}" for d
    by (auto simp: inotify_pending_def children_online_def limited_fields limited_source_fields)
  moreover have "source_ok limited_loop s" for s
    by (simp add: source_ok_def limited_fields limited_source_fields event_source_can_rate_limit_def)
  ultimately show ?thesis
    by (simp add: loop_ok_def queues_ok_def books_ok_def pending_ok_def prepare_ok_def exit_ok_def limited_fields limited_source_fields
        small_queues small_def) (simp add: queue_of_def)
qed

theorem reenabled_limited_source_sleeps_witness:
  "\<exists>e'. sd_event_source_set_enabled demo_kernel (Some 1) SD_EVENT_ON limited_loop = Inr (0, e') \<and> enabled (sources e' 1) = SD_EVENT_ON \<and>
    ratelimited (sources e' 1) \<and> event_arm_timer (\<lambda>_. 0) 2147483647 (Some (5, 9)) CLOCK_MONOTONIC e' = Inr (0, e') \<and>
    \<not> due_in_time (sources e') (members e' CLOCK_MONOTONIC) (next_set (clocks e' CLOCK_MONOTONIC))"
  by (rule reenabled_limited_source_sleeps [OF limited_loop_ok]) (simp_all add: limited_fields limited_source_fields USEC_INFINITY_def)
end
