(* ===== verification/EventRemoval.thy ===== *)
theory EventRemoval
  imports EventStates
begin

text \<open>
  Removing an event source (\<open>source_disconnect\<close> and \<open>source_free\<close> of \<open>sd-event.c\<close>). What a removed source owns outside of
  the event loop (its descriptor, its child process, its user data) is left out, and so are the watches of an inode, which only
  the inotify sources use; a child source is one that has its process.
\<close>

section \<open>The operations\<close>

definition disconnect_child :: "nat \<Rightarrow> event_loop \<Rightarrow> event_loop res" where \<comment> \<open>\<open>case SOURCE_CHILD\<close>\<close>
  "disconnect_child s e =
     rbind (if event_source_is_online (sources e s)
            then rbind (rassert (0 < online_children e) AssertFail) (\<lambda>_. Inr (e\<lparr>online_children := online_children e - 1\<rparr>))
            else Inr e) (\<lambda>e.
     if EVENT_SOURCE_WATCH_PIDFD (sources e s) then source_child_pidfd_unregister s e
     else event_gc_signal_data (priority (sources e s)) SIGCHLD e)"

definition disconnect_signal :: "nat \<Rightarrow> event_loop \<Rightarrow> event_loop res" where
  "disconnect_signal s e =
     (let x = sources e s in
      if signal_no x \<le> 0 then Inr e
      else event_gc_signal_data (priority x) (signal_no x) (e\<lparr>signal_sources := (signal_sources e)(signal_no x := None)\<rparr>))"

definition disconnect_inotify :: "nat \<Rightarrow> event_loop \<Rightarrow> event_loop res" where
  "disconnect_inotify s e = (case inotify_of e s of None \<Rightarrow> Inr e
     | Some d \<Rightarrow>
         let e = e\<lparr>inotify_of := (inotify_of e)(s := None)\<rparr> in
         if pending (sources e s)
         then rbind (rassert (0 < n_pending e d) AssertFail) (\<lambda>_. Inr (e\<lparr>n_pending := (n_pending e)(d := n_pending e d - 1)\<rparr>))
         else Inr e)"

definition disconnect_time :: "nat \<Rightarrow> event_loop \<Rightarrow> event_loop res" where
  "disconnect_time s e =
     (if ratelimited (sources e s) then Inr e
      else (case event_get_clock (src_type (sources e s)) of None \<Rightarrow> Inl AssertFail | Some c \<Rightarrow> event_source_time_prioq_remove s c e))"

definition disconnect_by_type :: "nat \<Rightarrow> event_loop \<Rightarrow> event_loop res" where
  "disconnect_by_type s e =
     (let t = src_type (sources e s) in
      if t = SOURCE_IO then source_io_unregister s e
      else if event_source_is_time t then disconnect_time s e
      else if t = SOURCE_SIGNAL then disconnect_signal s e
      else if t = SOURCE_CHILD then disconnect_child s e
      else if t = SOURCE_POST then Inr (e\<lparr>post_sources := post_sources e - {s}\<rparr>)
      else if t = SOURCE_EXIT then
        rbind (prioq_remove (exit_prioq_compare (sources e)) s (Some s) (exit_q e)) (\<lambda>(_, q). Inr (e\<lparr>exit_q := q\<rparr>))
      else if t = SOURCE_INOTIFY then disconnect_inotify s e
      else rbind (rassert (t = SOURCE_DEFER) AssertFail) (\<lambda>_. Inr e))"

definition leave_queues :: "nat \<Rightarrow> event_loop \<Rightarrow> event_loop res" where
  "leave_queues s e =
     rbind (if pending (sources e s)
            then rbind (prioq_remove (pending_prioq_compare (sources e)) s (Some s) (pending_q e)) (\<lambda>(_, q). Inr (e\<lparr>pending_q := q\<rparr>))
            else Inr e) (\<lambda>e.
     rbind (if has_prepare (sources e s)
            then rbind (prioq_remove (prepare_prioq_compare (sources e)) s (Some s) (prepare_q e)) (\<lambda>(_, q). Inr (e\<lparr>prepare_q := q\<rparr>))
            else Inr e) (\<lambda>e.
     if ratelimited (sources e s) then event_source_time_prioq_remove s CLOCK_MONOTONIC e else Inr e))"

definition source_disconnect :: "nat \<Rightarrow> event_loop \<Rightarrow> event_loop res" where
  "source_disconnect s e =
     (if s \<notin> attached e then Inr e
      else rbind (disconnect_by_type s e) (\<lambda>e. rbind (leave_queues s e) (\<lambda>e. Inr (e\<lparr>attached := attached e - {s}\<rparr>))))"

definition source_free :: "nat \<Rightarrow> event_loop \<Rightarrow> event_loop res" where
  "source_free = source_disconnect"

section \<open>Nothing is left behind\<close>

text \<open>
  After the first part, which depends on the type: what is left of the source \<open>s\<close> are its places in the queues that every
  type can be in.
\<close>

definition same_state :: "event_loop \<Rightarrow> event_loop \<Rightarrow> bool" where \<comment> \<open>what adding and removing sources leaves alone\<close>
  "same_state e e' \<longleftrightarrow> iteration e' = iteration e \<and> state e' = state e \<and> exit_requested e' = exit_requested e \<and>
     exit_code e' = exit_code e \<and> pid_changed e' = pid_changed e \<and> perturb e' = perturb e \<and> need_process_child e' = need_process_child e"

definition type_left :: "nat \<Rightarrow> event_loop \<Rightarrow> event_loop \<Rightarrow> bool" where
  "type_left s e e' \<longleftrightarrow> (\<exists>b. sources e' = (sources e)(s := (sources e s)\<lparr>registered := b\<rparr>)) \<and> attached e' = attached e \<and>
     pending_q e' = pending_q e \<and> prepare_q e' = prepare_q e \<and> signals_ok e' \<and> exit_ok (sources e') (attached e - {s}) (exit_q e') \<and>
     (\<forall>c. clock_ok (sources e') (clocks e' c) (if ratelimited (sources e s) then members e c else members e c - {s})) \<and>
     (\<forall>d. n_pending e' d = card (inotify_pending e d - {s})) \<and> online_children e' = card (children_online e - {s}) \<and>
     (\<forall>y. y \<noteq> s \<longrightarrow> inotify_of e' y = inotify_of e y) \<and> same_state e e' \<and> (\<forall>c. created (clocks e c) \<longrightarrow> created (clocks e' c)) \<and>
     post_sources e' = (if src_type (sources e s) = SOURCE_POST then post_sources e - {s} else post_sources e) \<and>
     signal_sources e' = (if src_type (sources e s) = SOURCE_SIGNAL \<and> 0 < signal_no (sources e s)
       then (signal_sources e)(signal_no (sources e s) := None) else signal_sources e)"

lemma exit_ok_without:
  assumes "exit_ok \<sigma> A q" "src_type (\<sigma> s) \<noteq> SOURCE_EXIT"
  shows "exit_ok \<sigma> (A - {s}) q"
proof -
  have "{x \<in> A - {s}. src_type (\<sigma> x) = SOURCE_EXIT} = {x \<in> A. src_type (\<sigma> x) = SOURCE_EXIT}" using assms(2) by auto
  then show ?thesis using assms(1) by (simp add: exit_ok_def)
qed

lemma no_clock_members: "clock_of (sources e s) = None \<Longrightarrow> members e c - {s} = members e c"
  by (auto simp: members_def)

lemma inotify_pending_without: "src_type (sources e s) \<noteq> SOURCE_INOTIFY \<Longrightarrow> inotify_pending e d - {s} = inotify_pending e d"
  by (auto simp: inotify_pending_def)

lemma children_without: "src_type (sources e s) \<noteq> SOURCE_CHILD \<Longrightarrow> children_online e - {s} = children_online e"
  by (auto simp: children_online_def)

lemma type_leftI:
  assumes "loop_ok e" "\<not> event_source_is_time (src_type (sources e s))" "src_type (sources e s) \<noteq> SOURCE_EXIT"
    "src_type (sources e s) \<noteq> SOURCE_INOTIFY" "signals_ok (e\<lparr>signals := S\<rparr>)" "n = card (children_online e - {s})"
    "P = (if src_type (sources e s) = SOURCE_POST then post_sources e - {s} else post_sources e)"
    "G = (if src_type (sources e s) = SOURCE_SIGNAL \<and> 0 < signal_no (sources e s)
       then (signal_sources e)(signal_no (sources e s) := None) else signal_sources e)"
  shows "type_left s e (e\<lparr>sources := (sources e)(s := (sources e s)\<lparr>registered := b\<rparr>), signals := S, signal_sources := G,
    post_sources := P, online_children := n\<rparr>)"
proof -
  let ?\<sigma> = "(sources e)(s := (sources e s)\<lparr>registered := b\<rparr>)"
  note l = loop_okD [OF assms(1)]
  have "exit_ok ?\<sigma> (attached e - {s}) (exit_q e)"
    by (rule exit_ok_without [OF exit_ok_registered [OF l(5)]]) (use assms(3) in simp)
  moreover have "clock_of (sources e s) = None" if "\<not> ratelimited (sources e s)"
    using that assms(2) time_has_clock by (auto simp: clock_of_def)
  then have "clock_ok ?\<sigma> (clocks e c) (if ratelimited (sources e s) then members e c else members e c - {s})" for c
    using clock_ok_registered [OF l(6)] no_clock_members by auto
  moreover have "n_pending e d = card (inotify_pending e d - {s})" for d using l(13) inotify_pending_without [OF assms(4)] by simp
  ultimately show ?thesis using assms(5-8) by (auto simp: type_left_def signals_ok_def same_state_def)
qed

lemma loop_signals_ok: "loop_ok e \<Longrightarrow> signals_ok e"
  by (auto simp: signals_ok_def dest: loop_okD(12))

lemma disconnect_child_ok:
  assumes "loop_ok e" "s \<in> attached e" "src_type (sources e s) = SOURCE_CHILD"
  obtains b S where "disconnect_child s e = Inr (e\<lparr>sources := (sources e)(s := (sources e s)\<lparr>registered := b\<rparr>), signals := S,
    online_children := card (children_online e - {s})\<rparr>)" "signals_ok (e\<lparr>signals := S\<rparr>)"
proof -
  note l = loop_okD [OF assms(1)]
  have fin: "finite (children_online e)" using l(7) by (simp add: children_online_def small_def)
  let ?e = "e\<lparr>online_children := card (children_online e - {s})\<rparr>"
  have count: "(if event_source_is_online (sources e s)
      then rbind (rassert (0 < online_children e) AssertFail) (\<lambda>_. Inr (e\<lparr>online_children := online_children e - 1\<rparr>)) else Inr e) = Inr ?e"
  proof (cases "event_source_is_online (sources e s)")
    case True
    then have "s \<in> children_online e" using assms(2,3) by (simp add: children_online_def)
    then have "0 < online_children e" "online_children e - 1 = card (children_online e - {s})"
      using fin l(14) by (auto simp: card_gt_0_iff)
    then show ?thesis using True by simp
  next
    case False
    then have "children_online e - {s} = children_online e" by (auto simp: children_online_def)
    then have "?e = e" using l(14) by (cases e) simp
    then show ?thesis using False by simp
  qed
  have run: "disconnect_child s e = (if EVENT_SOURCE_WATCH_PIDFD (sources e s) then source_child_pidfd_unregister s ?e
      else event_gc_signal_data (priority (sources e s)) SIGCHLD ?e)"
    unfolding disconnect_child_def count by simp
  show ?thesis
  proof (cases "EVENT_SOURCE_WATCH_PIDFD (sources e s)")
    case True
    obtain b where "source_child_pidfd_unregister s ?e = Inr (with_source s (\<lambda>x. x\<lparr>registered := b\<rparr>) ?e)"
      by (rule unregister_ok [of ?e s]) (use assms(3) in auto)
    moreover have "with_source s (\<lambda>x. x\<lparr>registered := b\<rparr>) ?e = e\<lparr>sources := (sources e)(s := (sources e s)\<lparr>registered := b\<rparr>), signals := signals e,
        online_children := card (children_online e - {s})\<rparr>" by (simp add: with_source_def)
    ultimately show ?thesis using that [of "signals e" b] run True loop_signals_ok [OF assms(1)] by simp
  next
    case False
    have "signals_ok ?e" using loop_signals_ok [OF assms(1)] by (simp add: signals_ok_def)
    then obtain S where S: "event_gc_signal_data (priority (sources e s)) SIGCHLD ?e = Inr (?e\<lparr>signals := S\<rparr>)" "signals_ok (?e\<lparr>signals := S\<rparr>)"
      by (rule gc_signal_ok)
    moreover have "?e\<lparr>signals := S\<rparr> = e\<lparr>sources := (sources e)(s := (sources e s)\<lparr>registered := registered (sources e s)\<rparr>), signals := S,
        online_children := card (children_online e - {s})\<rparr>" by simp
    ultimately show ?thesis using that [of S "registered (sources e s)"] run False by (simp add: signals_ok_def)
  qed
qed

lemma disconnect_time_ok:
  assumes "loop_ok e" "s \<in> attached e" "event_source_is_time (src_type (sources e s))"
  obtains C where "disconnect_time s e = Inr (e\<lparr>clocks := C\<rparr>)"
    "\<forall>c. clock_ok (sources e) (C c) (if ratelimited (sources e s) then members e c else members e c - {s})"
    "\<forall>c. created (clocks e c) \<longrightarrow> created (C c)"
proof (cases "ratelimited (sources e s)")
  case True
  then show ?thesis using that [of "clocks e"] loop_okD(6) [OF assms(1)] by (simp add: disconnect_time_def)
next
  case False
  note l = loop_okD [OF assms(1)]
  obtain c where c: "event_get_clock (src_type (sources e s)) = Some c" using assms(3) time_has_clock by blast
  then have s: "s \<in> members e c" "\<And>c'. c' \<noteq> c \<Longrightarrow> s \<notin> members e c'" using assms(2) False by (auto simp: members_def clock_of_def)
  obtain d where d: "event_source_time_prioq_remove s c e = Inr (with_clock c (\<lambda>_. d) e)" "clock_ok (sources e) d (members e c - {s})" "created d"
    using time_prioq_remove_ok [OF l(6,8) s(1) refl] by blast
  have "clock_ok (sources e) (((clocks e)(c := d)) c') (members e c' - {s})" for c'
    using d(2) s(2) l(6) [of c'] by (cases "c' = c") simp_all
  then show ?thesis using that [of "(clocks e)(c := d)"] d(1,3) c False by (simp add: disconnect_time_def with_clock_def)
qed

lemma disconnect_inotify_ok:
  assumes "loop_ok e" "s \<in> attached e" "src_type (sources e s) = SOURCE_INOTIFY"
  obtains I N where "disconnect_inotify s e = Inr (e\<lparr>inotify_of := I, n_pending := N\<rparr>)" "\<forall>y. y \<noteq> s \<longrightarrow> I y = inotify_of e y"
    "\<forall>d. N d = card (inotify_pending e d - {s})"
proof -
  note l = loop_okD [OF assms(1)]
  obtain d where d: "inotify_of e s = Some d" using source_okD(4) [OF l(11) [OF assms(2)] assms(3)] by auto
  have fin: "finite (inotify_pending e d')" for d' using l(7) by (simp add: inotify_pending_def small_def)
  have other: "inotify_pending e d' - {s} = inotify_pending e d'" if "d' \<noteq> d" for d' using that d by (auto simp: inotify_pending_def)
  show ?thesis
  proof (cases "pending (sources e s)")
    case True
    then have "s \<in> inotify_pending e d" using assms(2,3) d by (simp add: inotify_pending_def)
    then have n: "0 < n_pending e d" "n_pending e d - 1 = card (inotify_pending e d - {s})"
      using fin l(13) by (auto simp: card_gt_0_iff)
    then have "((n_pending e)(d := n_pending e d - 1)) d' = card (inotify_pending e d' - {s})" for d'
      using other l(13) by simp
    then show ?thesis
      using that [of "(n_pending e)(d := n_pending e d - 1)" "(inotify_of e)(s := None)"] d True n(1) by (simp add: disconnect_inotify_def)
  next
    case False
    then have "s \<notin> inotify_pending e d'" for d' by (simp add: inotify_pending_def)
    then have "n_pending e d' = card (inotify_pending e d' - {s})" for d' using l(13) [of d'] by simp
    moreover have "e\<lparr>inotify_of := I, n_pending := n_pending e\<rparr> = e\<lparr>inotify_of := I\<rparr>" for I by (cases e) simp
    ultimately show ?thesis using that [of "n_pending e" "(inotify_of e)(s := None)"] d False by (simp add: disconnect_inotify_def)
  qed
qed

lemma disconnect_exit_ok:
  assumes "loop_ok e" "s \<in> attached e" "src_type (sources e s) = SOURCE_EXIT"
  obtains n q where "prioq_remove (exit_prioq_compare (sources e)) s (Some s) (exit_q e) = Inr (n, q)" "exit_ok (sources e) (attached e - {s}) q"
proof -
  let ?P = "{x \<in> attached e. src_type (sources e x) = SOURCE_EXIT}"
  note l = loop_okD [OF assms(1)]
  have P: "queue_of (exit_rank (sources e)) (\<lambda>s. src_type (sources e s) = SOURCE_EXIT) (exit_q e) ?P" "s \<in> ?P" "card ?P \<le> PRIOQ_IDX_NULL"
    using l(5) assms(2,3) small_index [OF small_subset [OF l(7), of ?P]] by (auto simp: exit_ok_def)
  have "?P - {s} = {x \<in> attached e - {s}. src_type (sources e x) = SOURCE_EXIT}" by auto
  moreover obtain q where "prioq_remove (exit_prioq_compare (sources e)) s (Some s) (exit_q e) = Inr (1, Some q)"
    "queue_of (exit_rank (sources e)) (\<lambda>s. src_type (sources e s) = SOURCE_EXIT) (Some q) (?P - {s})"
    by (rule exits.removes [OF P, of "sources e"]) simp_all
  ultimately show ?thesis using that by (simp add: exit_ok_def)
qed

lemma registered_as_was: "e\<lparr>sources := (sources e)(s := (sources e s)\<lparr>registered := b\<rparr>), signals := signals e, signal_sources := signal_sources e,
    post_sources := post_sources e, online_children := online_children e\<rparr> = with_source s (\<lambda>x. x\<lparr>registered := b\<rparr>) e"
  by (cases e) (simp add: with_source_def)

lemma disconnect_by_type_ok:
  assumes "loop_ok e" "s \<in> attached e"
  obtains e' where "disconnect_by_type s e = Inr e'" "type_left s e e'"
proof -
  let ?t = "src_type (sources e s)"
  note l = loop_okD [OF assms(1)] and sig = loop_signals_ok [OF assms(1)]
  have x: "?t \<noteq> SOURCE_EXIT \<Longrightarrow> exit_ok (sources e) (attached e - {s}) (exit_q e)" by (rule exit_ok_without [OF l(5)])
  have n: "?t \<noteq> SOURCE_INOTIFY \<Longrightarrow> n_pending e d = card (inotify_pending e d - {s})" for d
    using l(13) inotify_pending_without by simp
  have k: "?t \<noteq> SOURCE_CHILD \<Longrightarrow> online_children e = card (children_online e - {s})" using l(14) children_without by simp
  have c: "clock_ok (sources e) (clocks e c) (if ratelimited (sources e s) then members e c else members e c - {s})"
    if "\<not> event_source_is_time ?t" for c
    using that l(6) no_clock_members time_has_clock by (auto simp: clock_of_def)
  have r: "\<exists>b. sources e = (sources e)(s := (sources e s)\<lparr>registered := b\<rparr>)" by (intro exI [of _ "registered (sources e s)"]) simp
  consider "?t = SOURCE_IO" | "event_source_is_time ?t" | "?t = SOURCE_SIGNAL" | "?t = SOURCE_CHILD" | "?t = SOURCE_POST" | "?t = SOURCE_EXIT"
    | "?t = SOURCE_INOTIFY" | "?t = SOURCE_DEFER"
    using source_okD(3) [OF l(11) [OF assms(2)]] by (cases ?t) (auto simp: event_source_is_time_def)
  then show ?thesis
  proof cases
    case 1
    obtain b where "source_io_unregister s e = Inr (with_source s (\<lambda>x. x\<lparr>registered := b\<rparr>) e)" by (rule unregister_ok [of e s]) (use 1 in auto)
    moreover have "type_left s e (with_source s (\<lambda>x. x\<lparr>registered := b\<rparr>) e)"
      unfolding registered_as_was [symmetric]
      by (rule type_leftI [OF assms(1)]) (use 1 sig k in \<open>simp_all add: event_source_is_time_def\<close>)
    ultimately show ?thesis using that 1 by (simp add: disconnect_by_type_def)
  next
    case 2
    obtain C where C: "disconnect_time s e = Inr (e\<lparr>clocks := C\<rparr>)"
      "\<forall>c. clock_ok (sources e) (C c) (if ratelimited (sources e s) then members e c else members e c - {s})"
      "\<forall>c. created (clocks e c) \<longrightarrow> created (C c)"
      by (rule disconnect_time_ok [OF assms 2])
    have "type_left s e (e\<lparr>clocks := C\<rparr>)"
      using 2 C(2,3) x n k r sig by (auto simp: type_left_def same_state_def signals_ok_def event_source_is_time_def)
    then show ?thesis using that C(1) 2 by (auto simp: disconnect_by_type_def event_source_is_time_def)
  next
    case 3
    let ?G = "if 0 < signal_no (sources e s) then (signal_sources e)(signal_no (sources e s) := None) else signal_sources e"
    have "signals_ok (e\<lparr>signal_sources := ?G\<rparr>)" using sig by (simp add: signals_ok_def)
    then obtain S where S: "event_gc_signal_data (priority (sources e s)) (signal_no (sources e s)) (e\<lparr>signal_sources := ?G\<rparr>) =
        Inr (e\<lparr>signal_sources := ?G, signals := S\<rparr>)" "signals_ok (e\<lparr>signal_sources := ?G, signals := S\<rparr>)"
      by (rule gc_signal_ok)
    define S' where "S' = (if 0 < signal_no (sources e s) then S else signals e)"
    let ?e = "e\<lparr>sources := (sources e)(s := (sources e s)\<lparr>registered := registered (sources e s)\<rparr>), signals := S', signal_sources := ?G,
      post_sources := post_sources e, online_children := online_children e\<rparr>"
    have "e\<lparr>signals := S, signal_sources := ?G\<rparr> = e\<lparr>signal_sources := ?G, signals := S\<rparr>" by (cases e) simp
    then have "disconnect_signal s e = Inr ?e"
      using S(1) by (cases "0 < signal_no (sources e s)") (simp_all add: disconnect_signal_def S'_def)
    moreover have "type_left s e ?e"
      by (rule type_leftI [OF assms(1)]) (use 3 sig S(2) k in \<open>simp_all add: event_source_is_time_def S'_def signals_ok_def\<close>)
    ultimately show ?thesis using that 3 by (simp add: disconnect_by_type_def event_source_is_time_def)
  next
    case 4
    obtain b S where d: "disconnect_child s e = Inr (e\<lparr>sources := (sources e)(s := (sources e s)\<lparr>registered := b\<rparr>), signals := S,
      online_children := card (children_online e - {s})\<rparr>)" "signals_ok (e\<lparr>signals := S\<rparr>)"
      by (rule disconnect_child_ok [OF assms 4])
    let ?e = "e\<lparr>sources := (sources e)(s := (sources e s)\<lparr>registered := b\<rparr>), signals := S, signal_sources := signal_sources e,
      post_sources := post_sources e, online_children := card (children_online e - {s})\<rparr>"
    have "type_left s e ?e" by (rule type_leftI [OF assms(1)]) (use 4 d(2) in \<open>simp_all add: event_source_is_time_def\<close>)
    then show ?thesis using that d(1) 4 by (simp add: disconnect_by_type_def event_source_is_time_def)
  next
    case 5
    let ?e = "e\<lparr>post_sources := post_sources e - {s}\<rparr>"
    have "type_left s e ?e"
      using 5 c x n k r sig by (auto simp: type_left_def same_state_def signals_ok_def event_source_is_time_def)
    then show ?thesis using that 5 by (simp add: disconnect_by_type_def event_source_is_time_def)
  next
    case 6
    obtain m q where q: "prioq_remove (exit_prioq_compare (sources e)) s (Some s) (exit_q e) = Inr (m, q)" "exit_ok (sources e) (attached e - {s}) q"
      by (rule disconnect_exit_ok [OF assms 6])
    have "type_left s e (e\<lparr>exit_q := q\<rparr>)"
      using 6 c q(2) n k r sig by (auto simp: type_left_def same_state_def signals_ok_def event_source_is_time_def)
    then show ?thesis using that q(1) 6 by (simp add: disconnect_by_type_def event_source_is_time_def)
  next
    case 7
    obtain I N where d: "disconnect_inotify s e = Inr (e\<lparr>inotify_of := I, n_pending := N\<rparr>)" "\<forall>y. y \<noteq> s \<longrightarrow> I y = inotify_of e y"
      "\<forall>d. N d = card (inotify_pending e d - {s})" by (rule disconnect_inotify_ok [OF assms 7])
    have "type_left s e (e\<lparr>inotify_of := I, n_pending := N\<rparr>)"
      using 7 c x d(2,3) k r sig by (auto simp: type_left_def same_state_def signals_ok_def event_source_is_time_def)
    then show ?thesis using that d(1) 7 by (simp add: disconnect_by_type_def event_source_is_time_def)
  next
    case 8
    have "type_left s e e" using 8 c x n k r sig by (auto simp: type_left_def same_state_def event_source_is_time_def)
    then show ?thesis using that 8 by (simp add: disconnect_by_type_def event_source_is_time_def)
  qed
qed

text \<open>The queues of the pending sources and of those with a prepare callback.\<close>

lemma pending_leave_ok:
  assumes "pending_ok \<sigma> A q" "small A" "s \<in> A" "\<And>x. x \<noteq> s \<Longrightarrow> \<tau> x = \<sigma> x" "pending (\<tau> s) = pending (\<sigma> s)"
  obtains "\<not> pending (\<tau> s)" "pending_ok \<tau> (A - {s}) q"
  | n q' where "pending (\<tau> s)" "prioq_remove (pending_prioq_compare \<tau>) s (Some s) q = Inr (n, q')" "pending_ok \<tau> (A - {s}) q'"
proof -
  let ?P = "{x \<in> A. pending (\<sigma> x)}"
  have q: "q \<noteq> None" "queue_of (pending_rank \<sigma>) (\<lambda>s. pending (\<sigma> s)) q ?P" using assms(1) by (simp_all add: pending_ok_def)
  have r: "pending_rank \<tau> x = pending_rank \<sigma> x \<and> (pending (\<sigma> x) \<longrightarrow> pending (\<tau> x))" if "x \<noteq> s" for x
    using rank_cong(1) [of \<tau> x \<sigma>] assms(4) [OF that] by simp
  have P: "{x \<in> A - {s}. pending (\<tau> x)} = ?P - {s}" using assms(4) by auto
  show ?thesis
  proof (cases "pending (\<tau> s)")
    case True
    then have s: "s \<in> ?P" using assms(3,5) by simp
    obtain q' where "prioq_remove (pending_prioq_compare \<tau>) s (Some s) q = Inr (1, Some q')"
      "queue_of (pending_rank \<tau>) (\<lambda>s. pending (\<tau> s)) (Some q') (?P - {s})"
      by (rule pendings.removes [OF q(2) s small_index [OF small_subset [OF assms(2)]] r]) auto
    then show ?thesis using that(2) [OF True] P by (simp add: pending_ok_def)
  next
    case False
    then have s: "s \<notin> ?P" using assms(5) by simp
    have "queue_of (pending_rank \<tau>) (\<lambda>s. pending (\<tau> s)) q ?P" by (rule queue_of_cong [OF q(2)], rule r) (use s in auto)
    moreover have "?P - {s} = ?P" using s by simp
    ultimately have "pending_ok \<tau> (A - {s}) q" unfolding pending_ok_def P using q(1) by simp
    then show ?thesis using that(1) False by blast
  qed
qed

lemma prepare_leave_ok:
  assumes "prepare_ok \<sigma> A q" "small A" "s \<in> A" "\<And>x. x \<noteq> s \<Longrightarrow> \<tau> x = \<sigma> x" "has_prepare (\<tau> s) = has_prepare (\<sigma> s)"
  obtains "\<not> has_prepare (\<tau> s)" "prepare_ok \<tau> (A - {s}) q"
  | n q' where "has_prepare (\<tau> s)" "prioq_remove (prepare_prioq_compare \<tau>) s (Some s) q = Inr (n, q')" "prepare_ok \<tau> (A - {s}) q'"
proof -
  let ?P = "{x \<in> A. has_prepare (\<sigma> x)}"
  have q: "queue_of (prepare_rank \<sigma>) (\<lambda>s. has_prepare (\<sigma> s)) q ?P" using assms(1) by (simp add: prepare_ok_def)
  have r: "prepare_rank \<tau> x = prepare_rank \<sigma> x \<and> (has_prepare (\<sigma> x) \<longrightarrow> has_prepare (\<tau> x))" if "x \<noteq> s" for x
    using rank_cong(2) [of \<tau> x \<sigma>] assms(4) [OF that] by simp
  have P: "{x \<in> A - {s}. has_prepare (\<tau> x)} = ?P - {s}" using assms(4) by auto
  show ?thesis
  proof (cases "has_prepare (\<tau> s)")
    case True
    then have s: "s \<in> ?P" using assms(3,5) by simp
    obtain q' where "prioq_remove (prepare_prioq_compare \<tau>) s (Some s) q = Inr (1, Some q')"
      "queue_of (prepare_rank \<tau>) (\<lambda>s. has_prepare (\<tau> s)) (Some q') (?P - {s})"
      by (rule prepares.removes [OF q s small_index [OF small_subset [OF assms(2)]] r]) auto
    then show ?thesis using that(2) [OF True] P by (simp add: prepare_ok_def)
  next
    case False
    then have s: "s \<notin> ?P" using assms(5) by simp
    have "queue_of (prepare_rank \<tau>) (\<lambda>s. has_prepare (\<tau> s)) q ?P" by (rule queue_of_cong [OF q], rule r) (use s in auto)
    moreover have "?P - {s} = ?P" using s by simp
    ultimately have "prepare_ok \<tau> (A - {s}) q" unfolding prepare_ok_def P by simp
    then show ?thesis using that(1) False by blast
  qed
qed

lemma leave_queues_ok:
  assumes "loop_ok e" "s \<in> attached e" "type_left s e e1"
  obtains p r C where "leave_queues s e1 = Inr (e1\<lparr>pending_q := p, prepare_q := r, clocks := C\<rparr>)"
    "pending_ok (sources e1) (attached e - {s}) p" "prepare_ok (sources e1) (attached e - {s}) r"
    "\<forall>c. clock_ok (sources e1) (C c) (members e c - {s})" "\<forall>c. created (clocks e1 c) \<longrightarrow> created (C c)"
proof -
  note l = loop_okD [OF assms(1)]
  obtain b where e1: "sources e1 = (sources e)(s := (sources e s)\<lparr>registered := b\<rparr>)" "pending_q e1 = pending_q e" "prepare_q e1 = prepare_q e"
    "\<And>c. clock_ok (sources e1) (clocks e1 c) (if ratelimited (sources e s) then members e c else members e c - {s})"
    using assms(3) by (auto simp: type_left_def)
  have x: "\<And>x. x \<noteq> s \<Longrightarrow> sources e1 x = sources e x" "pending (sources e1 s) = pending (sources e s)"
    "has_prepare (sources e1 s) = has_prepare (sources e s)" "ratelimited (sources e1 s) = ratelimited (sources e s)" using e1(1) by simp_all
  obtain p where p: "(if pending (sources e1 s)
      then rbind (prioq_remove (pending_prioq_compare (sources e1)) s (Some s) (pending_q e1)) (\<lambda>(_, q). Inr (e1\<lparr>pending_q := q\<rparr>))
      else Inr e1) = Inr (e1\<lparr>pending_q := p\<rparr>)" "pending_ok (sources e1) (attached e - {s}) p"
  proof (rule pending_leave_ok [OF l(3,7) assms(2) x(1,2)])
    assume "\<not> pending (sources e1 s)" "pending_ok (sources e1) (attached e - {s}) (pending_q e)"
    moreover have "e1\<lparr>pending_q := pending_q e\<rparr> = e1" using e1(2) by (cases e1) simp
    ultimately show thesis by (intro that [of "pending_q e"]) simp_all
  next
    fix n q assume "pending (sources e1 s)" "prioq_remove (pending_prioq_compare (sources e1)) s (Some s) (pending_q e) = Inr (n, q)"
      "pending_ok (sources e1) (attached e - {s}) q"
    then show thesis by (intro that [of q]) (simp_all add: e1(2))
  qed
  let ?e2 = "e1\<lparr>pending_q := p\<rparr>"
  obtain r where r: "(if has_prepare (sources ?e2 s)
      then rbind (prioq_remove (prepare_prioq_compare (sources ?e2)) s (Some s) (prepare_q ?e2)) (\<lambda>(_, q). Inr (?e2\<lparr>prepare_q := q\<rparr>))
      else Inr ?e2) = Inr (?e2\<lparr>prepare_q := r\<rparr>)" "prepare_ok (sources e1) (attached e - {s}) r"
  proof (rule prepare_leave_ok [OF l(4,7) assms(2) x(1,3)])
    assume "\<not> has_prepare (sources e1 s)" "prepare_ok (sources e1) (attached e - {s}) (prepare_q e)"
    moreover have "?e2\<lparr>prepare_q := prepare_q e\<rparr> = ?e2" using e1(3) by (cases e1) simp
    ultimately show thesis by (intro that [of "prepare_q e"]) simp_all
  next
    fix n q assume "has_prepare (sources e1 s)" "prioq_remove (prepare_prioq_compare (sources e1)) s (Some s) (prepare_q e) = Inr (n, q)"
      "prepare_ok (sources e1) (attached e - {s}) q"
    then show thesis by (intro that [of q]) (simp_all add: e1(3))
  qed
  let ?e3 = "?e2\<lparr>prepare_q := r\<rparr>"
  obtain C where C: "(if ratelimited (sources ?e3 s) then event_source_time_prioq_remove s CLOCK_MONOTONIC ?e3 else Inr ?e3) = Inr (?e3\<lparr>clocks := C\<rparr>)"
    "\<forall>c. clock_ok (sources e1) (C c) (members e c - {s})" "\<forall>c. created (clocks e1 c) \<longrightarrow> created (C c)"
  proof (cases "ratelimited (sources e s)")
    case True
    have c: "clock_ok (sources ?e3) (clocks ?e3 c) (members e c)" for c using e1(4) [of c] True by simp
    have s: "s \<in> members e CLOCK_MONOTONIC" "\<And>c. c \<noteq> CLOCK_MONOTONIC \<Longrightarrow> s \<notin> members e c"
      using True assms(2) by (auto simp: members_def clock_of_def)
    obtain d where d: "event_source_time_prioq_remove s CLOCK_MONOTONIC ?e3 = Inr (with_clock CLOCK_MONOTONIC (\<lambda>_. d) ?e3)"
      "clock_ok (sources e1) d (members e CLOCK_MONOTONIC - {s})" "created d" using time_prioq_remove_ok [OF c l(8) s(1) refl] by auto
    have "clock_ok (sources e1) (((clocks e1)(CLOCK_MONOTONIC := d)) c) (members e c - {s})" for c
      using d(2) s(2) c [of c] by (cases "c = CLOCK_MONOTONIC") simp_all
    then show ?thesis using that [of "(clocks e1)(CLOCK_MONOTONIC := d)"] d(1,3) True x(4) by (simp add: with_clock_def)
  next
    case False
    then show ?thesis using that [of "clocks e1"] e1(4) x(4) by simp
  qed
  have "leave_queues s e1 = Inr (?e3\<lparr>clocks := C\<rparr>)"
    unfolding leave_queues_def p(1) rbind_simps r(1) C(1) by simp
  then show ?thesis using that p(2) r(2) C(2,3) by simp
qed

text \<open>
  The other tables of the loop name sources of the right kind that are in it, the clocks of the timers are set up, and a source
  that cannot be rate limited has no limit.
\<close>

definition registry_ok :: "event_loop \<Rightarrow> bool" where
  "registry_ok e \<longleftrightarrow> (\<forall>s \<in> post_sources e. s \<in> attached e \<and> src_type (sources e s) = SOURCE_POST) \<and>
     (\<forall>g s. signal_sources e g = Some s \<longrightarrow> s \<in> attached e \<and> src_type (sources e s) = SOURCE_SIGNAL \<and> signal_no (sources e s) = g \<and> 0 < g) \<and>
     (\<forall>s \<in> attached e. (\<forall>c. event_get_clock (src_type (sources e s)) = Some c \<longrightarrow> created (clocks e c)) \<and>
       (event_source_can_rate_limit (src_type (sources e s)) \<or> limit_interval (sources e s) = 0))"

lemma registryD:
  assumes "registry_ok e"
  shows "s \<in> post_sources e \<Longrightarrow> s \<in> attached e" "s \<in> post_sources e \<Longrightarrow> src_type (sources e s) = SOURCE_POST"
    "signal_sources e g = Some s \<Longrightarrow> s \<in> attached e" "signal_sources e g = Some s \<Longrightarrow> src_type (sources e s) = SOURCE_SIGNAL"
    "signal_sources e g = Some s \<Longrightarrow> signal_no (sources e s) = g" "signal_sources e g = Some s \<Longrightarrow> 0 < g"
    "s \<in> attached e \<Longrightarrow> event_get_clock (src_type (sources e s)) = Some c \<Longrightarrow> created (clocks e c)"
    "s \<in> attached e \<Longrightarrow> event_source_can_rate_limit (src_type (sources e s)) \<or> limit_interval (sources e s) = 0"
  using assms by (auto simp: registry_ok_def)

lemma registry_same:
  assumes "registry_ok e" "same_loop e e'" "\<And>s. src_type (sources e' s) = src_type (sources e s)" "\<And>s. signal_no (sources e' s) = signal_no (sources e s)"
    "\<And>s. s \<in> attached e \<Longrightarrow> limit_interval (sources e' s) = limit_interval (sources e s)"
  shows "registry_ok e'"
  using assms(1,3-5) same_loopD(1,5,10) [OF assms(2)] assms(2) by (simp add: registry_ok_def same_loop_def)

text \<open>Nothing is left behind: the whole of it.\<close>

lemma disconnect_ok:
  assumes "loop_ok e" "registry_ok e" "s \<in> attached e"
  shows "\<exists>e'. source_disconnect s e = Inr e' \<and> loop_ok e' \<and> registry_ok e' \<and> attached e' = attached e - {s} \<and>
    (\<exists>b. sources e' = (sources e)(s := (sources e s)\<lparr>registered := b\<rparr>)) \<and> same_state e e' \<and> s \<notin> post_sources e' \<and> (\<forall>g. signal_sources e' g \<noteq> Some s)"
proof -
  note l = loop_okD [OF assms(1)] and reg = registryD [OF assms(2)]
  obtain e1 where e1: "disconnect_by_type s e = Inr e1" "type_left s e e1" by (rule disconnect_by_type_ok [OF assms(1,3)])
  obtain p r C where q: "leave_queues s e1 = Inr (e1\<lparr>pending_q := p, prepare_q := r, clocks := C\<rparr>)"
    "pending_ok (sources e1) (attached e - {s}) p" "prepare_ok (sources e1) (attached e - {s}) r"
    "\<forall>c. clock_ok (sources e1) (C c) (members e c - {s})" "\<forall>c. created (clocks e1 c) \<longrightarrow> created (C c)" by (rule leave_queues_ok [OF assms(1,3) e1(2)])
  let ?e = "e1\<lparr>pending_q := p, prepare_q := r, clocks := C, attached := attached e - {s}\<rparr>"
  obtain b where b: "sources e1 = (sources e)(s := (sources e s)\<lparr>registered := b\<rparr>)" using e1(2) by (auto simp: type_left_def)
  have t: "attached e1 = attached e" "signals_ok e1" "exit_ok (sources e1) (attached e - {s}) (exit_q e1)" "same_state e e1"
    "\<And>d. n_pending e1 d = card (inotify_pending e d - {s})" "online_children e1 = card (children_online e - {s})"
    "\<And>y. y \<noteq> s \<Longrightarrow> inotify_of e1 y = inotify_of e y" "\<forall>c. created (clocks e c) \<longrightarrow> created (clocks e1 c)"
    "post_sources e1 = (if src_type (sources e s) = SOURCE_POST then post_sources e - {s} else post_sources e)"
    "signal_sources e1 = (if src_type (sources e s) = SOURCE_SIGNAL \<and> 0 < signal_no (sources e s)
       then (signal_sources e)(signal_no (sources e s) := None) else signal_sources e)"
    using e1(2) unfolding type_left_def by blast+
  have run: "source_disconnect s e = Inr ?e" using assms(3) e1(1) q(1) t(1) by (simp add: source_disconnect_def)
  have "members ?e c = members e c - {s}" "inotify_pending ?e d = inotify_pending e d - {s}" "children_online ?e = children_online e - {s}" for c d
    using b t(7) by (auto simp: members_def inotify_pending_def children_online_def)
  moreover have "small (attached e - {s})" by (rule small_subset [OF l(7)]) auto
  moreover have "source_ok ?e y" if "y \<in> attached e - {s}" for y
    using that l(11) [of y] b t(7) by (simp add: source_ok_def)
  ultimately have "loop_ok ?e"
    using q(2-4) t(2,3,5,6) by (simp add: loop_ok_def queues_ok_def books_ok_def signals_ok_def)
  moreover have "s \<notin> post_sources ?e" using reg(2) [of s] t(9) by auto
  moreover have gone: "signal_sources ?e g \<noteq> Some s" for g
    using reg(4-6) [of g s] t(10) by (auto split: if_splits)
  moreover have "registry_ok ?e"
    unfolding registry_ok_def
  proof (intro conjI ballI allI impI)
    fix y assume "y \<in> post_sources ?e"
    then have "y \<in> post_sources e" "y \<noteq> s" using t(9) \<open>s \<notin> post_sources ?e\<close> by (auto split: if_splits)
    then show "y \<in> attached ?e" "src_type (sources ?e y) = SOURCE_POST" using reg(1,2) b by auto
  next
    fix g y assume y: "signal_sources ?e g = Some y"
    then have "signal_sources e g = Some y" "y \<noteq> s" using t(10) gone [of g] by (auto split: if_splits)
    then show "y \<in> attached ?e" "src_type (sources ?e y) = SOURCE_SIGNAL" "signal_no (sources ?e y) = g" "0 < g"
      using reg(3-6) b by auto
  next
    fix y c assume "y \<in> attached ?e" "event_get_clock (src_type (sources ?e y)) = Some c"
    then have "created (clocks e c)" by (intro reg(7) [of y]) (use b in auto)
    then show "created (clocks ?e c)" using q(5) t(8) by simp
  next
    fix y assume "y \<in> attached ?e"
    then show "event_source_can_rate_limit (src_type (sources ?e y)) \<or> limit_interval (sources ?e y) = 0" using reg(8) [of y] b by auto
  qed
  ultimately show ?thesis
    using run t(4) b by (intro exI [of _ ?e]) (auto simp: same_state_def)
qed

text \<open>
  What reading signals has noted is not part of it: \<open>signal_data.current\<close> stays as it was at every priority that is still watched.
\<close>

definition currents_kept :: "event_loop \<Rightarrow> event_loop \<Rightarrow> bool" where
  "currents_kept e e' \<longleftrightarrow> (\<forall>p d'. signals e' p = Some d' \<longrightarrow> (\<exists>d. signals e p = Some d \<and> current d' = current d))"

lemma currents_same [simp]: "signals e' = signals e \<Longrightarrow> currents_kept e e'"
  by (simp add: currents_kept_def)

lemma currents_trans: "currents_kept e e1 \<Longrightarrow> currents_kept e1 e2 \<Longrightarrow> currents_kept e e2"
  unfolding currents_kept_def by metis

lemma unmask_currents: "unmask_at q sig e = Inr e' \<Longrightarrow> currents_kept e e'"
  by (auto simp: unmask_at_def event_unmask_signal_data_def event_free_signal_data_def currents_kept_def Let_def rbind_def rassert_def
      split: if_splits option.splits)

lemma gc_currents:
  assumes "event_gc_signal_data q sig e = Inr e'"
  shows "currents_kept e e'"
proof (cases "sig = SIGCHLD \<and> 0 < online_children e \<or>
    (case signal_sources e sig of Some s \<Rightarrow> event_source_is_online (sources e s) | None \<Rightarrow> False)")
  case True
  then have "event_gc_signal_data q sig e = Inr e" by (auto simp: event_gc_signal_data_def)
  then show ?thesis using assms by simp
next
  case False
  then have run: "rbind (unmask_at q sig e) (\<lambda>e. rbind (case signal_sources e sig of Some s \<Rightarrow> unmask_at (priority (sources e s)) sig e | None \<Rightarrow> Inr e)
      (\<lambda>e. unmask_at 0 sig e)) = Inr e'"
    using assms by (auto simp: event_gc_signal_data_def cong: option.case_cong split: if_splits)
  then obtain e1 e2 where e1: "unmask_at q sig e = Inr e1"
    and e2: "(case signal_sources e1 sig of Some s \<Rightarrow> unmask_at (priority (sources e1 s)) sig e1 | None \<Rightarrow> Inr e1) = Inr e2"
    and e3: "unmask_at 0 sig e2 = Inr e'" by (auto simp: rbind_def split: sum.splits)
  have "currents_kept e1 e2" using e2 unmask_currents by (cases "signal_sources e1 sig") auto
  then show ?thesis using currents_trans unmask_currents [OF e1] unmask_currents [OF e3] by blast
qed

lemma time_remove_currents: "event_source_time_prioq_remove s c e = Inr e' \<Longrightarrow> signals e' = signals e \<and> inotify_of e' = inotify_of e"
  by (auto simp: event_source_time_prioq_remove_def with_clock_def Let_def res_iff split: prod.splits)

lemma leave_queues_currents: "leave_queues s e = Inr e' \<Longrightarrow> signals e' = signals e \<and> inotify_of e' = inotify_of e"
  by (auto simp: leave_queues_def res_iff split: if_splits prod.splits dest!: time_remove_currents)

lemma by_type_currents:
  assumes "disconnect_by_type s e = Inr e'"
  shows "currents_kept e e' \<and> (src_type (sources e s) = SOURCE_INOTIFY \<longrightarrow> inotify_of e' s = None)"
proof (cases "src_type (sources e s) = SOURCE_SIGNAL \<or> src_type (sources e s) = SOURCE_CHILD")
  case True
  moreover have "currents_kept e e'" if "disconnect_signal s e = Inr e'"
  proof (cases "signal_no (sources e s) \<le> 0")
    case False
    then have "event_gc_signal_data (priority (sources e s)) (signal_no (sources e s))
        (e\<lparr>signal_sources := (signal_sources e)(signal_no (sources e s) := None)\<rparr>) = Inr e'" using that by (simp add: disconnect_signal_def Let_def)
    then show ?thesis by (intro currents_trans [OF currents_same gc_currents]) simp_all
  qed (use that in \<open>simp add: disconnect_signal_def\<close>)
  moreover have "currents_kept e e'" if child: "disconnect_child s e = Inr e'"
  proof -
    let ?e1 = "if event_source_is_online (sources e s) then e\<lparr>online_children := online_children e - 1\<rparr> else e"
    have e1: "(if EVENT_SOURCE_WATCH_PIDFD (sources ?e1 s) then source_child_pidfd_unregister s ?e1
        else event_gc_signal_data (priority (sources ?e1 s)) SIGCHLD ?e1) = Inr e'"
      using child by (auto simp: disconnect_child_def res_iff rassert_def split: if_splits)
    have "currents_kept ?e1 e'"
      using e1 gc_currents by (auto simp: source_child_pidfd_unregister_def with_source_def res_iff rassert_def split: if_splits)
    then show ?thesis using currents_trans [of e ?e1 e'] by simp
  qed
  ultimately show ?thesis using assms by (auto simp: disconnect_by_type_def event_source_is_time_def Let_def)
next
  case False
  have "\<not> event_source_is_time SOURCE_INOTIFY" by (simp add: event_source_is_time_def)
  then show ?thesis using False assms
    by (auto simp: disconnect_by_type_def disconnect_time_def disconnect_inotify_def source_io_unregister_def with_source_def Let_def res_iff
        rassert_def split: if_splits option.splits prod.splits dest!: time_remove_currents)
qed

lemma disconnect_currents:
  assumes "source_disconnect s e = Inr e'" "s \<in> attached e"
  shows "currents_kept e e' \<and> (src_type (sources e s) = SOURCE_INOTIFY \<longrightarrow> inotify_of e' s = None)"
proof -
  obtain e1 e2 where "disconnect_by_type s e = Inr e1" "leave_queues s e1 = Inr e2" "signals e' = signals e2" "inotify_of e' = inotify_of e2"
    using assms by (auto simp: source_disconnect_def res_iff)
  then show ?thesis using by_type_currents [of s e e1] leave_queues_currents [of s e1 e2] currents_trans [of e e1 e'] by simp
qed

text \<open>
  C11. Removing a source, of any kind and in any state, never fails an assertion. The source is then in none of the queues, not counted
  as pending or as a child that is online, and not in the tables of the post, the signal and the inotify sources; all other sources
  are in their places as before. The one pointer that is left alone is \<open>current\<close> of a signal priority that goes on being watched: it is what it
  was, so it may still name the removed source.
\<close>

theorem disconnect_keeps_order:
  assumes "loop_ok e" "registry_ok e" "s \<in> attached e"
  shows "\<exists>e'. source_disconnect s e = Inr e' \<and> loop_ok e' \<and> registry_ok e' \<and> attached e' = attached e - {s} \<and>
    (\<exists>b. sources e' = (sources e)(s := (sources e s)\<lparr>registered := b\<rparr>)) \<and> same_state e e' \<and> s \<notin> post_sources e' \<and>
    (\<forall>g. signal_sources e' g \<noteq> Some s) \<and> (src_type (sources e s) = SOURCE_INOTIFY \<longrightarrow> inotify_of e' s = None) \<and>
    (\<forall>p d'. signals e' p = Some d' \<longrightarrow> (\<exists>d. signals e p = Some d \<and> current d' = current d))"
  using disconnect_ok [OF assms] disconnect_currents [OF _ assms(3)] unfolding currents_kept_def by blast

end
