(* ===== verification/EventLimits.thy ===== *)
theory EventLimits
  imports EventRemoval
begin

text \<open>
  Rate limits of event sources (\<open>sd-event.c\<close>): a source that is dispatched too often waits in the queues of the
  monotonic clock for the end of its window. The callback \<open>cb\<close> of a source, a function of the user, gives its return value and
  what it makes of the event loop. Within a call the allocations are numbered: 0 and 1 are those for signals,
  2 and 3 the queues of a clock, from 4 on the places in them.
\<close>

section \<open>The operations\<close>

definition event_setup_timer_fd :: "kernel \<Rightarrow> clock \<Rightarrow> event_loop \<Rightarrow> int \<times> event_loop" where
  "event_setup_timer_fd k c e =
     (let fd = timerfd_create k c; r = epoll_ctl k EPOLL_CTL_ADD in
      if 0 \<le> timer_fd (clocks e c) then (0, e)
      else if fd < 0 then (fd, e)
      else if r \<noteq> 0 then (- int r, e)
      else (0, with_clock c (\<lambda>d. d\<lparr>timer_fd := fd_move_above_stdio k fd\<rparr>) e))"

definition setup_clock_data :: "kernel \<Rightarrow> clock \<Rightarrow> event_loop \<Rightarrow> int \<times> event_loop" where
  "setup_clock_data k c e =
     (let (r, e) = (if timer_fd (clocks e c) < 0 then event_setup_timer_fd k c e else (0, e)) in
      if r < 0 then (r, e)
      else
       (let (r, q) = prioq_ensure_allocated (mem k 2) (\<lambda>_. PRIOQ_IDX_NULL) (earliest_q (clocks e c));
            e = with_clock c (\<lambda>d. d\<lparr>earliest_q := q\<rparr>) e in
        if r < 0 then (r, e)
        else
         (let (r, q) = prioq_ensure_allocated (mem k 3) (\<lambda>_. PRIOQ_IDX_NULL) (latest_q (clocks e c));
              e = with_clock c (\<lambda>d. d\<lparr>latest_q := q\<rparr>) e in
          if r < 0 then (r, e) else (0, e))))"

definition own_clock_remove :: "nat \<Rightarrow> event_loop \<Rightarrow> event_loop res" where \<comment> \<open>\<open>if (EVENT_SOURCE_IS_TIME(s->type)) event_source_time_prioq_remove\<close>\<close>
  "own_clock_remove s e =
     (if \<not> event_source_is_time (src_type (sources e s)) then Inr e
      else (case event_get_clock (src_type (sources e s)) of None \<Rightarrow> Inl AssertFail | Some c \<Rightarrow> event_source_time_prioq_remove s c e))"

definition own_clock_put :: "bool \<Rightarrow> bool \<Rightarrow> nat \<Rightarrow> event_loop \<Rightarrow> (int \<times> event_loop) res" where
  "own_clock_put ok1 ok2 s e =
     (if \<not> event_source_is_time (src_type (sources e s)) then Inr (0, e)
      else (case event_get_clock (src_type (sources e s)) of None \<Rightarrow> Inl AssertFail | Some c \<Rightarrow> event_source_time_prioq_put ok1 ok2 s c e))"

definition enter_failed :: "kernel \<Rightarrow> nat \<Rightarrow> int \<Rightarrow> event_loop \<Rightarrow> (int \<times> event_loop) res" where \<comment> \<open>\<open>fail:\<close>\<close>
  "enter_failed k s r e =
     rbind (own_clock_put (mem k 6) (mem k 7) s e) (\<lambda>(r', e). rbind (rassert (0 \<le> r') AssertFail) (\<lambda>_. Inr (r, e)))"

definition event_source_enter_ratelimited :: "kernel \<Rightarrow> nat \<Rightarrow> event_loop \<Rightarrow> (int \<times> event_loop) res" where
  "event_source_enter_ratelimited k s e =
     (if ratelimited (sources e s) then Inr (0, e)
      else
       (let (r, e) = setup_clock_data k CLOCK_MONOTONIC e in
        if r < 0 then Inr (r, e)
        else
         rbind (own_clock_remove s e) (\<lambda>e.
         rbind (event_source_time_prioq_put (mem k 4) (mem k 5) s CLOCK_MONOTONIC e) (\<lambda>(r, e).
         if r < 0 then enter_failed k s r e
         else
          rbind (event_source_offline s (enabled (sources e s)) True e) (\<lambda>(r, e).
          if r < 0 then rbind (event_source_time_prioq_remove s CLOCK_MONOTONIC e) (enter_failed k s r)
          else rbind (event_source_pp_prioq_reshuffle s e) (\<lambda>e. Inr (0, e)))))))"

definition leave_failed :: "kernel \<Rightarrow> nat \<Rightarrow> int \<Rightarrow> event_loop \<Rightarrow> (int \<times> event_loop) res" where
  "leave_failed k s r e =
     rbind (event_source_time_prioq_put (mem k 6) (mem k 7) s CLOCK_MONOTONIC e) (\<lambda>(r', e).
     rbind (rassert (0 \<le> r') AssertFail) (\<lambda>_. Inr (r, e)))"

definition leave_limit :: "kernel \<Rightarrow> nat \<Rightarrow> event_loop \<Rightarrow> (int \<times> event_loop) res" where
  \<comment> \<open>\<open>event_source_leave_ratelimit\<close> up to the callback, for a source that is rate limited\<close>
  "leave_limit k s e =
     rbind (event_source_time_prioq_remove s CLOCK_MONOTONIC e) (\<lambda>e.
     rbind (own_clock_put (mem k 4) (mem k 5) s e) (\<lambda>(r, e).
     if r < 0 then leave_failed k s r e
     else
      rbind (event_source_online k s (enabled (sources e s)) False e) (\<lambda>(r, e).
      if r < 0 then rbind (own_clock_remove s e) (leave_failed k s r)
      else rbind (event_source_pp_prioq_reshuffle s e) (\<lambda>e. Inr (0, with_source s (\<lambda>x. x\<lparr>rate := ratelimit_reset (rate x)\<rparr>) e)))))"

definition EBUSY :: int where "EBUSY = 16"

definition sd_event_exit :: "int \<Rightarrow> event_loop \<Rightarrow> int \<times> event_loop" where
  "sd_event_exit code e =
     (if finished e then (- ESTALE, e)
      else if pid_changed e then (- ECHILD, e)
      else (0, e\<lparr>exit_requested := True, exit_code := code\<rparr>))"

definition event_source_free :: "nat \<Rightarrow> event_loop \<Rightarrow> event_loop res" where
  "event_source_free s e = (if dispatching (sources e s) then source_disconnect s e else source_free s e)"

definition sd_event_source_unref :: "nat \<Rightarrow> event_loop \<Rightarrow> event_loop res" where \<comment> \<open>\<open>DEFINE_PUBLIC_TRIVIAL_REF_UNREF_FUNC\<close>\<close>
  "sd_event_source_unref s e =
     rbind (rassert (0 < n_ref (sources e s)) AssertFail) (\<lambda>_.
     let e = with_source s (\<lambda>x. x\<lparr>n_ref := n_ref x - 1\<rparr>) e in
     if 0 < n_ref (sources e s) then Inr e else event_source_free s e)"

definition after_callback :: "kernel \<Rightarrow> bool \<Rightarrow> nat \<Rightarrow> int \<Rightarrow> event_loop \<Rightarrow> event_loop res" where
  \<comment> \<open>what follows the call of a callback: \<open>r\<close> is what it returned, \<open>saved\<close> says whether the event loop is known, or looked up in the source\<close>
  "after_callback k saved s r e =
     (let e = with_source s (\<lambda>x. x\<lparr>dispatching := False\<rparr>) e;
          e = (if r < 0 \<and> exit_on_failure (sources e s) \<and> (saved \<or> s \<in> attached e) then snd (sd_event_exit r e) else e) in
      if n_ref (sources e s) = 0 then source_free s e
      else if r < 0 then
        rbind (sd_event_source_set_enabled k (Some s) SD_EVENT_OFF e) (\<lambda>(r', e). rbind (rassert (0 \<le> r') AssertFail) (\<lambda>_. Inr e))
      else Inr e)"

definition run_callback :: "(event_loop \<Rightarrow> int \<times> event_loop) \<Rightarrow> nat \<Rightarrow> event_loop \<Rightarrow> int \<times> event_loop" where
  "run_callback cb s e = cb (with_source s (\<lambda>x. x\<lparr>dispatching := True\<rparr>) e)"

definition event_source_leave_ratelimit ::
  "kernel \<Rightarrow> (event_loop \<Rightarrow> int \<times> event_loop) option \<Rightarrow> nat \<Rightarrow> event_loop \<Rightarrow> (int \<times> event_loop) res" where
  \<comment> \<open>\<open>cb\<close>: the expire callback, if there is one and it is to be run\<close>
  "event_source_leave_ratelimit k cb s e =
     (if \<not> ratelimited (sources e s) then Inr (0, e)
      else
       rbind (leave_limit k s e) (\<lambda>(r, e).
       if r < 0 then Inr (r, e)
       else
        (case cb of None \<Rightarrow> Inr (0, e)
         | Some cb \<Rightarrow> let (r, e) = run_callback cb s e in rbind (after_callback k False s r e) (\<lambda>e. Inr (1, e)))))"

definition sd_event_source_set_ratelimit :: "kernel \<Rightarrow> nat option \<Rightarrow> usec \<Rightarrow> 32 word \<Rightarrow> event_loop \<Rightarrow> (int \<times> event_loop) res" where
  "sd_event_source_set_ratelimit k s interval burst e = (case s of None \<Rightarrow> Inr (- EINVAL, e)
     | Some s \<Rightarrow>
         if \<not> event_source_can_rate_limit (src_type (sources e s)) then Inr (- EDOM, e)
         else
          rbind (event_source_leave_ratelimit k None s e) (\<lambda>(r, e).
          if r < 0 then Inr (r, e)
          else Inr (0, with_source s (\<lambda>x. x\<lparr>rate := \<lparr>rl_interval = interval, rl_burst = burst, rl_num = 0, rl_begin = 0\<rparr>\<rparr>) e)))"

section \<open>Setting up a clock\<close>

lemma new_queue_ok:
  assumes "queue_of rank valid q M"
  obtains r q' where "prioq_ensure_allocated ok m q = (r, q')" "queue_of rank valid q' M" "r = 0 \<longrightarrow> q' \<noteq> None" "r \<le> 0" "r = 0 \<or> q' = q" "q \<noteq> None \<longrightarrow> q' \<noteq> None"
proof (cases q)
  case None
  have "queue_of rank valid (Some \<lparr>items = [], n_allocated = 0, idx_var = m\<rparr>) {}"
    by (simp add: queue_of_def holds_def ordered_queue_def sound_queue_def idx_ok_def n_items_def heap_on_def)
  moreover have "M = {}" using assms None by (simp add: queue_of_def)
  ultimately show ?thesis
    using that [of "if ok then 0 else - ENOMEM" "if ok then Some \<lparr>items = [], n_allocated = 0, idx_var = m\<rparr> else None"] None assms
    by (simp add: prioq_ensure_allocated_def prioq_new_def ENOMEM_def)
next
  case (Some p)
  then show ?thesis using that [of 0 q] assms by (simp add: prioq_ensure_allocated_def)
qed

lemma setup_fd_ok:
  obtains r fd where "(if timer_fd (clocks e c) < 0 then event_setup_timer_fd k c e else (0, e)) = (r, with_clock c (\<lambda>d. d\<lparr>timer_fd := fd\<rparr>) e)"
    "r \<le> 0" "r = 0 \<longrightarrow> 0 \<le> fd" "0 \<le> timer_fd (clocks e c) \<longrightarrow> 0 \<le> fd"
proof -
  let ?fd = "timer_fd (clocks e c)" and ?r = "epoll_ctl k EPOLL_CTL_ADD" and ?n = "timerfd_create k c"
  have same: "with_clock c (\<lambda>d. d\<lparr>timer_fd := ?fd\<rparr>) e = e" by (cases e) (simp add: with_clock_def)
  consider "0 \<le> ?fd" | "?fd < 0" "?n < 0" | "?fd < 0" "0 \<le> ?n" "?r \<noteq> 0" | "?fd < 0" "0 \<le> ?n" "?r = 0" by linarith
  then show ?thesis
  proof cases
    case 1
    then show ?thesis using that [of 0 ?fd] same by simp
  next
    case 2
    then show ?thesis using that [of ?n ?fd] same by (simp add: event_setup_timer_fd_def)
  next
    case 3
    then show ?thesis using that [of "- int ?r" ?fd] same by (simp add: event_setup_timer_fd_def)
  next
    case 4
    then show ?thesis using that [of 0 "fd_move_above_stdio k ?n"] move_above_valid [of ?n k] by (simp add: event_setup_timer_fd_def)
  qed
qed

lemma setup_clock_ok:
  assumes "clock_ok (sources e) (clocks e c) M"
  obtains r d where "setup_clock_data k c e = (r, with_clock c (\<lambda>_. d) e)" "r \<le> 0" "clock_ok (sources e) d M" "r = 0 \<longrightarrow> created d"
    "created (clocks e c) \<longrightarrow> created d"
proof -
  let ?d = "clocks e c" and ?e = "earliest_rank (sources e)" and ?l = "latest_rank (sources e)" and ?v = "\<lambda>s. limit_set (sources e s)"
  have q: "queue_of ?e ?v (earliest_q ?d) M" "queue_of ?l ?v (latest_q ?d) M" "\<forall>s \<in> M. event_source_uses_time_prioq (src_type (sources e s))"
    "created ?d \<longrightarrow> 0 \<le> timer_fd ?d" using assms by (simp_all add: clock_ok_def)
  obtain r fd where f: "(if timer_fd ?d < 0 then event_setup_timer_fd k c e else (0, e)) = (r, with_clock c (\<lambda>d. d\<lparr>timer_fd := fd\<rparr>) e)"
    "r \<le> 0" "r = 0 \<longrightarrow> 0 \<le> fd" "0 \<le> timer_fd ?d \<longrightarrow> 0 \<le> fd" by (rule setup_fd_ok)
  obtain r1 q1 where q1: "prioq_ensure_allocated (mem k 2) (\<lambda>_. PRIOQ_IDX_NULL) (earliest_q ?d) = (r1, q1)" "queue_of ?e ?v q1 M"
    "r1 = 0 \<longrightarrow> q1 \<noteq> None" "r1 \<le> 0" "r1 = 0 \<or> q1 = earliest_q ?d" "earliest_q ?d \<noteq> None \<longrightarrow> q1 \<noteq> None" by (rule new_queue_ok [OF q(1)])
  obtain r2 q2 where q2: "prioq_ensure_allocated (mem k 3) (\<lambda>_. PRIOQ_IDX_NULL) (latest_q ?d) = (r2, q2)" "queue_of ?l ?v q2 M"
    "r2 = 0 \<longrightarrow> q2 \<noteq> None" "r2 \<le> 0" "r2 = 0 \<or> q2 = latest_q ?d" "latest_q ?d \<noteq> None \<longrightarrow> q2 \<noteq> None" by (rule new_queue_ok [OF q(2)])
  consider "r < 0" | "r = 0" "r1 < 0" | "r = 0" "r1 = 0" using f(2) q1(4) by linarith
  then show ?thesis
  proof cases
    case 1
    then have "setup_clock_data k c e = (r, with_clock c (\<lambda>_. ?d\<lparr>timer_fd := fd\<rparr>) e)" unfolding setup_clock_data_def f(1) by (simp add: with_clock_def)
    then show ?thesis by (rule that) (use 1 q f(4) in \<open>simp_all add: clock_ok_def created_def\<close>)
  next
    case 2
    let ?c = "?d\<lparr>timer_fd := fd, earliest_q := q1\<rparr>"
    have "setup_clock_data k c e = (r1, with_clock c (\<lambda>_. ?c) e)"
      using 2 q1(1) unfolding setup_clock_data_def f(1) by (simp add: with_clock_def)
    then show ?thesis by (rule that) (use 2 q q1 f(3) in \<open>auto simp: clock_ok_def created_def\<close>)
  next
    case 3
    let ?c = "?d\<lparr>timer_fd := fd, earliest_q := q1, latest_q := q2\<rparr>"
    have "setup_clock_data k c e = (if r2 < 0 then r2 else 0, with_clock c (\<lambda>_. ?c) e)"
      using 3 q1(1) q2(1) unfolding setup_clock_data_def f(1) by (simp add: with_clock_def)
    then show ?thesis by (rule that) (use 3 q q1 q2 f(3) in \<open>auto simp: clock_ok_def created_def split: if_splits\<close>)
  qed
qed

section \<open>The clock of a source\<close>

abbreviation own_clock :: "event_source \<Rightarrow> clock option" where
  "own_clock x \<equiv> event_get_clock (src_type x)"

lemma own_clock_remove_ok:
  assumes "\<And>c. clock_ok (sources e) (clocks e c) (T c)" "\<And>c. small (T c)" "\<And>c. own_clock (sources e s) = Some c \<Longrightarrow> s \<in> T c"
  obtains C where "own_clock_remove s e = Inr (e\<lparr>clocks := C\<rparr>)"
    "\<forall>c. clock_ok (sources e) (C c) (if own_clock (sources e s) = Some c then T c - {s} else T c)"
    "\<forall>c. own_clock (sources e s) = Some c \<longrightarrow> created (C c) \<and> room (C c) (T c - {s})" "\<forall>c. created (clocks e c) \<longrightarrow> created (C c)"
    "\<forall>c. own_clock (sources e s) \<noteq> Some c \<longrightarrow> C c = clocks e c"
proof (cases "own_clock (sources e s)")
  case None
  then show ?thesis using that [of "clocks e"] assms(1) by (simp add: own_clock_remove_def time_has_clock)
next
  case (Some c)
  obtain d where d: "event_source_time_prioq_remove s c e = Inr (with_clock c (\<lambda>_. d) e)" "clock_ok (sources e) d (T c - {s})"
    "created d" "room d (T c - {s})" using time_prioq_remove_ok [OF assms(1,2,3) refl] Some by blast
  then show ?thesis using that [of "(clocks e)(c := d)"] Some assms(1) by (simp add: own_clock_remove_def time_has_clock with_clock_def)
qed

lemma own_clock_put_ok:
  assumes "\<And>c. clock_ok (sources e) (clocks e c) (T c)" "\<And>c. small (T c)" "\<And>c. own_clock (sources e s) = Some c \<Longrightarrow> s \<notin> T c \<and> created (clocks e c)"
    "limit_set (sources e s)"
  obtains C where "own_clock_put ok1 ok2 s e = Inr (0, e\<lparr>clocks := C\<rparr>)"
      "\<forall>c. clock_ok (sources e) (C c) (if own_clock (sources e s) = Some c then insert s (T c) else T c)" "\<forall>c. created (clocks e c) \<longrightarrow> created (C c)"
      "\<forall>c. own_clock (sources e s) \<noteq> Some c \<longrightarrow> C c = clocks e c"
  | c C where "own_clock_put ok1 ok2 s e = Inr (- ENOMEM, e\<lparr>clocks := C\<rparr>)" "own_clock (sources e s) = Some c" "\<not> (ok1 \<and> ok2)"
      "\<not> room (clocks e c) (T c)" "\<forall>c. clock_ok (sources e) (C c) (T c)" "\<forall>c. created (clocks e c) \<longrightarrow> created (C c)"
      "\<forall>c'. c' \<noteq> c \<longrightarrow> C c' = clocks e c'"
proof (cases "own_clock (sources e s)")
  case None
  then show ?thesis using that(1) [of "clocks e"] assms(1) by (simp add: own_clock_put_def time_has_clock)
next
  case (Some c)
  then have "event_source_uses_time_prioq (src_type (sources e s))" using uses_time_prioq time_has_clock by auto
  with time_prioq_put_ok [OF assms(1) _ _ assms(2,4), of c ok1 ok2] obtain r d where
    d: "event_source_time_prioq_put ok1 ok2 s c e = Inr (r, with_clock c (\<lambda>_. d) e)" "created d"
    "r = 0 \<and> clock_ok (sources e) d (insert s (T c)) \<or>
     r = - ENOMEM \<and> \<not> (ok1 \<and> ok2) \<and> \<not> room (clocks e c) (T c) \<and> clock_ok (sources e) d (T c)" using assms(3) [OF Some] by blast
  have run: "own_clock_put ok1 ok2 s e = Inr (r, e\<lparr>clocks := (clocks e)(c := d)\<rparr>)"
    using Some d(1) by (simp add: own_clock_put_def time_has_clock with_clock_def)
  from d(3) show ?thesis
  proof
    assume "r = 0 \<and> clock_ok (sources e) d (insert s (T c))"
    then show ?thesis using that(1) [of "(clocks e)(c := d)"] run Some assms(1) d(2) by simp
  next
    assume "r = - ENOMEM \<and> \<not> (ok1 \<and> ok2) \<and> \<not> room (clocks e c) (T c) \<and> clock_ok (sources e) d (T c)"
    then show ?thesis using that(2) [of "(clocks e)(c := d)" c] run Some assms(1) d(2) by simp
  qed
qed

section \<open>Entering the limit\<close>

lemma loop_with_clocks:
  assumes "loop_with T e" "\<And>c. clock_ok (sources e) (C c) (T' c)"
  shows "loop_with T' (e\<lparr>clocks := C\<rparr>)"
proof -
  have "inotify_pending (e\<lparr>clocks := C\<rparr>) = inotify_pending e" "children_online (e\<lparr>clocks := C\<rparr>) = children_online e"
    "source_ok (e\<lparr>clocks := C\<rparr>) = source_ok e" by (auto simp: inotify_pending_def children_online_def source_ok_def fun_eq_iff)
  then show ?thesis using assms by (simp add: loop_with_def books_ok_def)
qed

lemma same_loop_clocks: "\<forall>c. created (clocks e c) \<longrightarrow> created (C c) \<Longrightarrow> same_loop e (e\<lparr>clocks := C\<rparr>)"
  by (simp add: same_loop_def)

lemma own_clock_members:
  assumes "s \<in> attached e" "\<not> ratelimited (sources e s)"
  shows "s \<in> members e c \<longleftrightarrow> own_clock (sources e s) = Some c"
  using assms by (simp add: members_def clock_of_def)

lemma members_limited:
  assumes "s \<in> attached e" "\<not> ratelimited (sources e s)"
  shows "members (with_source s (\<lambda>x. x\<lparr>enabled := m, ratelimited := True\<rparr>) e) =
    (\<lambda>c. if c = CLOCK_MONOTONIC then insert s (members e c) else members e c - {s})"
  using assms by (auto simp: members_def clock_of_def fun_eq_iff)

lemma enter_failed_ok:
  assumes "loop_with T e" "\<And>c. small (T c)" "limit_set (sources e s)"
    "\<And>c. own_clock (sources e s) = Some c \<Longrightarrow> s \<notin> T c \<and> created (clocks e c) \<and> room (clocks e c) (T c)"
    "\<And>c. members e c = (if own_clock (sources e s) = Some c then insert s (T c) else T c)"
  obtains C where "enter_failed k s r e = Inr (r, e\<lparr>clocks := C\<rparr>)" "loop_ok (e\<lparr>clocks := C\<rparr>)" "\<forall>c. created (clocks e c) \<longrightarrow> created (C c)"
proof -
  have clocks: "\<And>c. clock_ok (sources e) (clocks e c) (T c)" using loop_withD(5) [OF assms(1)] .
  show ?thesis
  proof (rule own_clock_put_ok [OF clocks assms(2) _ assms(3), where ?ok1.0 = "mem k 6" and ?ok2.0 = "mem k 7"])
    show "own_clock (sources e s) = Some c \<Longrightarrow> s \<notin> T c \<and> created (clocks e c)" for c using assms(4) by blast
    fix C assume put: "own_clock_put (mem k 6) (mem k 7) s e = Inr (0, e\<lparr>clocks := C\<rparr>)"
      "\<forall>c. clock_ok (sources e) (C c) (if own_clock (sources e s) = Some c then insert s (T c) else T c)" "\<forall>c. created (clocks e c) \<longrightarrow> created (C c)"
    have "loop_with (members e) (e\<lparr>clocks := C\<rparr>)" by (rule loop_with_clocks [OF assms(1)]) (simp only: assms(5) put(2))
    moreover have "members (e\<lparr>clocks := C\<rparr>) = members e" by (auto simp: members_def fun_eq_iff)
    ultimately show ?thesis using that put(1,3) by (simp add: loop_ok_with enter_failed_def)
  qed (use assms(4) in blast)
qed

lemma enter_limit_ok:
  assumes "loop_ok e" "s \<in> attached e" "\<not> ratelimited (sources e s)" "event_source_can_rate_limit (src_type (sources e s))"
    "limit_begin (sources e s) \<noteq> 0" "limit_interval (sources e s) \<noteq> 0"
  shows "\<exists>r e'. event_source_enter_ratelimited k s e = Inr (r, e') \<and> loop_ok e' \<and> same_loop e e' \<and>
    (r = 0 \<and> (\<exists>b. sources e' = (sources e)(s := (sources e s)\<lparr>ratelimited := True, registered := b\<rparr>)) \<or> r < 0 \<and> sources e' = sources e)"
proof -
  let ?M = "members e" and ?x = "sources e s" and ?m = CLOCK_MONOTONIC
  note l = loop_okD [OF assms(1)] and own = own_clock_members [OF assms(2,3)]
  have base: "loop_with ?M e" using assms(1) by (simp add: loop_ok_with)
  have small: "small (insert s (?M c))" "small (?M c - {s})" for c
    using small_subset [OF l(7), of "insert s (?M c)"] small_subset [OF l(8), of "?M c - {s}"] assms(2) by (auto simp: members_def)
  obtain r1 d1 where su: "setup_clock_data k ?m e = (r1, with_clock ?m (\<lambda>_. d1) e)" "r1 \<le> 0" "clock_ok (sources e) d1 (?M ?m)"
    "r1 = 0 \<longrightarrow> created d1" "created (clocks e ?m) \<longrightarrow> created d1" by (rule setup_clock_ok [OF l(6)])
  let ?C1 = "(clocks e)(?m := d1)"
  have e1: "with_clock ?m (\<lambda>_. d1) e = e\<lparr>clocks := ?C1\<rparr>" by (simp add: with_clock_def)
  have C1: "clock_ok (sources e) (?C1 c) (?M c)" "created (clocks e c) \<longrightarrow> created (?C1 c)" for c using su(3,5) l(6) by simp_all
  show ?thesis
  proof (cases "r1 = 0")
    case False
    have "loop_ok (e\<lparr>clocks := ?C1\<rparr>)" by (rule loop_ok_clocks [OF assms(1) C1(1)])
    moreover have "same_loop e (e\<lparr>clocks := ?C1\<rparr>)" using C1(2) by (intro same_loop_clocks) simp
    ultimately show ?thesis using False su(1,2) assms(3) e1 by (simp add: event_source_enter_ratelimited_def)
  next
    case True
    let ?T = "\<lambda>c. if own_clock ?x = Some c then ?M c - {s} else ?M c"
    have T: "?M c - {s} = ?T c" "s \<notin> ?T c" "small (?T c)" for c using own [of c] small(2) [of c] l(8) by auto
    let ?e1 = "e\<lparr>clocks := ?C1\<rparr>"
    have pre: "\<And>c. clock_ok (sources ?e1) (clocks ?e1 c) (?M c)" "\<And>c. own_clock (sources ?e1 s) = Some c \<Longrightarrow> s \<in> ?M c"
      using C1(1) own by simp_all
    obtain C2 where "own_clock_remove s ?e1 = Inr (?e1\<lparr>clocks := C2\<rparr>)"
      "\<forall>c. clock_ok (sources ?e1) (C2 c) (if own_clock (sources ?e1 s) = Some c then ?M c - {s} else ?M c)"
      "\<forall>c. own_clock (sources ?e1 s) = Some c \<longrightarrow> created (C2 c) \<and> room (C2 c) (?M c - {s})" "\<forall>c. created (clocks ?e1 c) \<longrightarrow> created (C2 c)"
      by (rule own_clock_remove_ok [OF pre(1) l(8) pre(2)])
    then have out: "own_clock_remove s ?e1 = Inr (e\<lparr>clocks := C2\<rparr>)" "\<forall>c. clock_ok (sources e) (C2 c) (?T c)"
      "\<forall>c. own_clock ?x = Some c \<longrightarrow> created (C2 c) \<and> room (C2 c) (?M c - {s})" "\<forall>c. created (?C1 c) \<longrightarrow> created (C2 c)" by simp_all
    have made: "created (C2 ?m)" using out(4) True su(4) by simp
    have lim: "limit_set ?x" "\<forall>c. created (clocks e c) \<longrightarrow> created (C2 c)" using assms(3) out(4) C1(2) by (auto simp: limit_set_def)
    let ?e2 = "e\<lparr>clocks := C2\<rparr>"
    have put: "\<exists>r d. event_source_time_prioq_put (mem k 4) (mem k 5) s ?m ?e2 = Inr (r, with_clock ?m (\<lambda>_. d) ?e2) \<and> created d \<and>
      (r = 0 \<and> clock_ok (sources e) d (insert s (?T ?m)) \<or> r = - ENOMEM \<and> \<not> (mem k 4 \<and> mem k 5) \<and> \<not> room (C2 ?m) (?T ?m) \<and> clock_ok (sources e) d (?T ?m))"
      using time_prioq_put_ok [of ?e2 ?m "?T ?m" s] out(2) made T(2,3) lim(1) assms(4) by simp
    then obtain r3 d3 where p: "event_source_time_prioq_put (mem k 4) (mem k 5) s ?m ?e2 = Inr (r3, ?e2\<lparr>clocks := C2(?m := d3)\<rparr>)" "created d3"
      "r3 = 0 \<and> clock_ok (sources e) d3 (insert s (?T ?m)) \<or> r3 = - ENOMEM \<and> \<not> room (C2 ?m) (?T ?m) \<and> clock_ok (sources e) d3 (?T ?m)"
      by (auto simp: with_clock_def)
    let ?e3 = "e\<lparr>clocks := C2(?m := d3)\<rparr>"
    have made3: "\<forall>c. created (clocks e c) \<longrightarrow> created ((C2(?m := d3)) c)" using lim(2) p(2) by simp
    show ?thesis
    proof (cases "r3 = 0")
      case True
      let ?N = "members (with_source s (\<lambda>x. x\<lparr>enabled := enabled ?x, ratelimited := True\<rparr>) ?e3)"
      have N: "?N = (\<lambda>c. if c = ?m then insert s (?T c) else ?T c)"
      proof -
        have "members ?e3 = ?M" by (simp add: members_def fun_eq_iff)
        then have "?N = (\<lambda>c. if c = ?m then insert s (?M c) else ?M c - {s})"
          using members_limited [of s ?e3 "enabled ?x"] assms(2,3) by (simp cong: if_cong)
        then show ?thesis by (simp add: T(1) [symmetric] cong: if_cong)
      qed
      have "loop_with ?N ?e3" unfolding N by (rule loop_with_clocks [OF base]) (use p(3) True out(2) in \<open>auto simp: ENOMEM_def split: if_splits\<close>)
      moreover have "s \<in> attached ?e3" "enabled ?x = SD_EVENT_OFF \<or> True"
        "enabled (sources ?e3 s) \<noteq> SD_EVENT_OFF \<and> enabled ?x = SD_EVENT_OFF \<Longrightarrow> ?N = members ?e3"
        "True \<Longrightarrow> limit_set ((sources ?e3 s)\<lparr>ratelimited := True\<rparr>) \<and> event_source_can_rate_limit (src_type (sources ?e3 s))"
        using assms(2,4-6) by (simp_all add: limit_set_def)
      ultimately obtain e4 e5 b where o: "event_source_offline s (enabled ?x) True ?e3 = Inr (1, e4)" "event_source_pp_prioq_reshuffle s e4 = Inr e5"
        "loop_ok e5" "same_loop ?e3 e5" "sources e5 = (sources ?e3)(s := (sources ?e3 s)\<lparr>pending := still_pending (enabled (sources ?e3 s) \<noteq>
          SD_EVENT_OFF \<and> enabled ?x = SD_EVENT_OFF) (sources ?e3 s), enabled := enabled ?x, ratelimited := True, registered := b\<rparr>)"
        by (rule event_source_offline_ok [OF _ _ _ _ refl])
      have "event_source_enter_ratelimited k s e = Inr (0, e5)"
        using assms(3) su(1) \<open>r1 = 0\<close> e1 out(1) p(1) True o(1,2) by (simp add: event_source_enter_ratelimited_def)
      moreover have "same_loop e e5" using same_loop_trans [OF same_loop_clocks [OF made3] o(4)] .
      moreover have "?x\<lparr>pending := still_pending False ?x, enabled := enabled ?x, ratelimited := True, registered := b\<rparr> =
        ?x\<lparr>ratelimited := True, registered := b\<rparr>" by (cases ?x) (simp add: still_pending_def)
      then have "sources e5 = (sources e)(s := ?x\<lparr>ratelimited := True, registered := b\<rparr>)" using o(5) by simp
      ultimately show ?thesis using o(3) by blast
    next
      case False
      then have f: "r3 = - ENOMEM" "\<not> room (C2 ?m) (?T ?m)" "clock_ok (sources e) d3 (?T ?m)" using p(3) by blast+
      have "loop_with ?T ?e3" by (rule loop_with_clocks [OF base]) (use f(3) out(2) in \<open>auto split: if_splits\<close>)
      moreover have "limit_set (sources ?e3 s)" using lim(1) by simp
      moreover have "s \<notin> ?T c \<and> created (clocks ?e3 c) \<and> room (clocks ?e3 c) (?T c)" if "own_clock (sources ?e3 s) = Some c" for c
        using that T(2) out(3) f(2) p(2) by auto
      moreover have "members ?e3 c = (if own_clock (sources ?e3 s) = Some c then insert s (?T c) else ?T c)" for c
        using own [of c] by (auto simp: members_def)
      ultimately obtain C where g: "enter_failed k s r3 ?e3 = Inr (r3, ?e3\<lparr>clocks := C\<rparr>)" "loop_ok (?e3\<lparr>clocks := C\<rparr>)"
        "\<forall>c. created (clocks ?e3 c) \<longrightarrow> created (C c)" using enter_failed_ok [of ?T ?e3 s k r3 thesis] T(3) by blast
      have "event_source_enter_ratelimited k s e = Inr (r3, e\<lparr>clocks := C\<rparr>)"
        using assms(3) su(1) \<open>r1 = 0\<close> e1 out(1) p(1) f(1) g(1) by (simp add: event_source_enter_ratelimited_def ENOMEM_def)
      moreover have "same_loop e (e\<lparr>clocks := C\<rparr>)" using g(3) made3 by (intro same_loop_clocks) simp
      ultimately show ?thesis using g(2) f(1) by (intro exI [of _ r3] exI [of _ "e\<lparr>clocks := C\<rparr>"]) (simp add: ENOMEM_def)
    qed
  qed
qed


section \<open>Leaving the limit\<close>

text \<open>The window and the count of a source that is not rate limited order nothing.\<close>

lemma rate_change_ok:
  assumes "loop_ok e" "s \<in> attached e" "\<not> ratelimited (sources e s)"
  shows "loop_ok (with_source s (\<lambda>x. x\<lparr>rate := r x\<rparr>) e)"
proof -
  let ?e = "with_source s (\<lambda>x. x\<lparr>rate := r x\<rparr>) e"
  note l = loop_okD [OF assms(1)]
  have "pending_ok (sources ?e) (attached ?e) (pending_q ?e)" by (simp, rule pending_ok_ranks [OF l(3)]) (auto simp: pending_rank_def)
  moreover have "prepare_ok (sources ?e) (attached ?e) (prepare_q ?e)" by (simp, rule prepare_ok_ranks [OF l(4)]) (auto simp: prepare_rank_def)
  moreover have "exit_ok (sources ?e) (attached ?e) (exit_q ?e)" by (simp, rule exit_ok_ranks [OF l(5)]) (auto simp: exit_rank_def)
  moreover have "members ?e = members e" by (auto simp: members_def clock_of_def fun_eq_iff)
  moreover have "clock_ok (sources ?e) (clocks ?e c) (members e c)" for c
    by (rule clock_ok_ranks [OF l(6)]) (use assms(3) in \<open>auto simp: earliest_rank_def latest_rank_def event_source_timer_candidate_def
      next_time_def latest_time_def limit_set_def\<close>)
  moreover have "books_ok ?e"
    by (rule books_ok_state [OF l(2) assms(2), of _ "(sources e s)\<lparr>rate := r (sources e s)\<rparr>"])
      (use assms(3) loop_signals_ok [OF assms(1)] in \<open>simp_all add: limit_set_def signals_ok_def children_after_def event_source_is_online_def\<close>)
  ultimately show ?thesis by (simp add: loop_ok_def queues_ok_def)
qed

lemma leave_failed_ok:
  assumes "loop_with T e" "\<And>c. small (T c)" "limit_set (sources e s)" "event_source_can_rate_limit (src_type (sources e s))"
    "s \<notin> T CLOCK_MONOTONIC" "created (clocks e CLOCK_MONOTONIC)" "room (clocks e CLOCK_MONOTONIC) (T CLOCK_MONOTONIC)"
    "\<And>c. members e c = (if c = CLOCK_MONOTONIC then insert s (T c) else T c)"
  obtains C where "leave_failed k s r e = Inr (r, e\<lparr>clocks := C\<rparr>)" "loop_ok (e\<lparr>clocks := C\<rparr>)" "\<forall>c. created (clocks e c) \<longrightarrow> created (C c)"
proof -
  let ?m = CLOCK_MONOTONIC
  note l = loop_withD [OF assms(1)]
  obtain d where put: "event_source_time_prioq_put (mem k 6) (mem k 7) s ?m e = Inr (0, with_clock ?m (\<lambda>_. d) e)" "created d"
    "clock_ok (sources e) d (insert s (T ?m))"
    using time_prioq_put_ok [OF l(5) assms(6,5,2,3,4), of "mem k 6" "mem k 7"] assms(7) by blast
  have e: "with_clock ?m (\<lambda>_. d) e = e\<lparr>clocks := (clocks e)(?m := d)\<rparr>" by (simp add: with_clock_def)
  have "loop_with (members e) (e\<lparr>clocks := (clocks e)(?m := d)\<rparr>)"
    by (rule loop_with_clocks [OF assms(1)]) (use put(3) l(5) assms(8) in auto)
  moreover have "members (e\<lparr>clocks := C\<rparr>) = members e" for C by (auto simp: members_def fun_eq_iff)
  ultimately show ?thesis using that [of "(clocks e)(?m := d)"] put(1,2) by (simp add: loop_ok_with leave_failed_def e)
qed

lemma members_released:
  assumes "s \<in> attached e" "ratelimited (sources e s)"
  shows "members (with_source s (\<lambda>x. x\<lparr>enabled := m, ratelimited := False\<rparr>) e) c =
      (if own_clock (sources e s) = Some c then insert s (members e c) else members e c - {s})"
    "s \<in> members e c \<longleftrightarrow> c = CLOCK_MONOTONIC"
  using assms by (auto simp: members_def clock_of_def)

lemma leave_undone_ok:
  assumes "loop_with T e" "\<And>c. T c = (if own_clock (sources e s) = Some c then insert s (members e c) else members e c - {s})"
    "small (attached e)" "s \<in> attached e" "ratelimited (sources e s)" "limit_set (sources e s)" "event_source_can_rate_limit (src_type (sources e s))"
    "created (clocks e CLOCK_MONOTONIC)"
    "own_clock (sources e s) \<noteq> Some CLOCK_MONOTONIC \<Longrightarrow> room (clocks e CLOCK_MONOTONIC) (members e CLOCK_MONOTONIC - {s})"
  obtains C where "rbind (own_clock_remove s e) (leave_failed k s r) = Inr (r, e\<lparr>clocks := C\<rparr>)" "loop_ok (e\<lparr>clocks := C\<rparr>)"
    "\<forall>c. created (clocks e c) \<longrightarrow> created (C c)"
proof -
  let ?m = CLOCK_MONOTONIC and ?T = "\<lambda>c. members e c - {s}"
  note mem = members_released(2) [OF assms(4,5)]
  have T: "small (T c)" "own_clock (sources e s) = Some c \<Longrightarrow> s \<in> T c" "(if own_clock (sources e s) = Some c then T c - {s} else T c) = ?T c"
    "small (?T c)" for c
    using small_subset [OF assms(3), of "T c"] small_subset [OF assms(3), of "?T c"] assms(2,4) by (auto simp: members_def)
  obtain C where rem: "own_clock_remove s e = Inr (e\<lparr>clocks := C\<rparr>)"
    "\<forall>c. clock_ok (sources e) (C c) (if own_clock (sources e s) = Some c then T c - {s} else T c)"
    "\<forall>c. own_clock (sources e s) = Some c \<longrightarrow> created (C c) \<and> room (C c) (T c - {s})" "\<forall>c. created (clocks e c) \<longrightarrow> created (C c)"
    "\<forall>c. own_clock (sources e s) \<noteq> Some c \<longrightarrow> C c = clocks e c"
    by (rule own_clock_remove_ok [OF loop_withD(5) [OF assms(1)] T(1,2)])
  let ?e = "e\<lparr>clocks := C\<rparr>"
  have "loop_with ?T ?e" by (rule loop_with_clocks [OF assms(1)]) (use rem(2) T(3) in simp)
  moreover have "room (C ?m) (?T ?m)"
  proof (cases "own_clock (sources e s) = Some ?m")
    case True
    then have "room (C ?m) (T ?m - {s})" using rem(3) by blast
    moreover have "T ?m - {s} = ?T ?m" using T(3) [of ?m] True by simp
    ultimately show ?thesis by simp
  next
    case False
    then show ?thesis using rem(5) assms(9) by simp
  qed
  moreover have "members ?e c = (if c = ?m then insert s (?T c) else ?T c)" for c
    using mem [of c] by (auto simp: members_def)
  ultimately obtain C' where "leave_failed k s r ?e = Inr (r, ?e\<lparr>clocks := C'\<rparr>)" "loop_ok (?e\<lparr>clocks := C'\<rparr>)"
    "\<forall>c. created (clocks ?e c) \<longrightarrow> created (C' c)"
    using leave_failed_ok [where T = ?T and e = ?e and s = s and k = k and r = r] T(4) assms(6-8) rem(4) by (auto simp del: fun_upd_apply)
  then show ?thesis using that rem(1,4) by simp
qed

lemma leave_limit_ok:
  assumes "loop_ok e" "registry_ok e" "s \<in> attached e" "ratelimited (sources e s)"
  obtains r e' b where "leave_limit k s e = Inr (r, e')" "r < 0" "loop_ok e'" "same_loop e e'" "sources e' = (sources e)(s := (sources e s)\<lparr>registered := b\<rparr>)"
  | e' b where "leave_limit k s e = Inr (0, e')" "loop_ok e'" "same_loop e e'"
      "sources e' = (sources e)(s := (sources e s)\<lparr>ratelimited := False, registered := b, rate := ratelimit_reset (rate (sources e s))\<rparr>)"
proof -
  let ?x = "sources e s" and ?m = CLOCK_MONOTONIC and ?M = "members e"
  note l = loop_okD [OF assms(1)] and s = source_okD [OF loop_okD(11) [OF assms(1,3)]]
  note mem = members_released [OF assms(3,4)]
  have base: "loop_with ?M e" using assms(1) by (simp add: loop_ok_with)
  let ?T1 = "\<lambda>c. if c = ?m then ?M c - {s} else ?M c" and ?T2 = "\<lambda>c. if own_clock ?x = Some c then insert s (?M c) else ?M c - {s}"
  have T1: "?T1 c = ?M c - {s}" "s \<notin> ?T1 c" "small (?T1 c)" "?M c = (if c = ?m then insert s (?T1 c) else ?T1 c)" for c
    using mem(2) [of c] small_subset [OF l(8) [of c], of "?M c - {s}"] l(8) [of c] by auto
  have T2: "?T2 = members (with_source s (\<lambda>x. x\<lparr>enabled := enabled ?x, ratelimited := False\<rparr>) e)" using mem(1) by (auto simp: fun_eq_iff)
  obtain d1 where out: "event_source_time_prioq_remove s ?m e = Inr (with_clock ?m (\<lambda>_. d1) e)" "clock_ok (sources e) d1 (?M ?m - {s})"
    "created d1" "room d1 (?M ?m - {s})" using time_prioq_remove_ok [OF l(6,8) _ refl, of s ?m] mem(2) by blast
  let ?C1 = "(clocks e)(?m := d1)"
  let ?e1 = "e\<lparr>clocks := ?C1\<rparr>"
  have e1: "with_clock ?m (\<lambda>_. d1) e = ?e1" by (simp add: with_clock_def)
  have C1: "clock_ok (sources ?e1) (clocks ?e1 c) (?T1 c)" "created (clocks e c) \<longrightarrow> created (?C1 c)" for c
    using out(2,3) l(6) by simp_all
  have own: "s \<notin> ?T1 c \<and> created (clocks ?e1 c)" if "own_clock (sources ?e1 s) = Some c" for c
    using registryD(7) [OF assms(2,3)] that T1(2) C1(2) by simp
  have w1: "loop_with ?T1 ?e1" by (rule loop_with_clocks [OF base]) (use C1(1) in simp)
  have lim: "limit_set (sources ?e1 s)" using s(1) by simp
  show ?thesis
  proof (rule own_clock_put_ok [OF C1(1) T1(3) own lim, where ?ok1.0 = "mem k 4" and ?ok2.0 = "mem k 5"])
    fix c C assume f: "own_clock_put (mem k 4) (mem k 5) s ?e1 = Inr (- ENOMEM, ?e1\<lparr>clocks := C\<rparr>)" "own_clock (sources ?e1 s) = Some c"
      "\<not> room (clocks ?e1 c) (?T1 c)" "\<forall>c. clock_ok (sources ?e1) (C c) (?T1 c)" "\<forall>c. created (clocks ?e1 c) \<longrightarrow> created (C c)"
      "\<forall>c'. c' \<noteq> c \<longrightarrow> C c' = clocks ?e1 c'"
    have c: "c \<noteq> ?m" using f(3) out(4) by auto
    let ?e2 = "e\<lparr>clocks := C\<rparr>"
    have "loop_with ?T1 ?e2" by (rule loop_with_clocks [OF base]) (use f(4) in simp)
    moreover have "limit_set (sources ?e2 s)" "event_source_can_rate_limit (src_type (sources ?e2 s))" "s \<notin> ?T1 ?m" "created (clocks ?e2 ?m)"
      "room (clocks ?e2 ?m) (?T1 ?m)" using s(1,2) assms(4) f(6) c out(3,4) by simp_all
    moreover have "members ?e2 c = (if c = ?m then insert s (?T1 c) else ?T1 c)" for c using T1(4) by (simp add: members_def)
    ultimately obtain C' where g: "leave_failed k s (- ENOMEM) ?e2 = Inr (- ENOMEM, ?e2\<lparr>clocks := C'\<rparr>)" "loop_ok (?e2\<lparr>clocks := C'\<rparr>)"
      "\<forall>c. created (clocks ?e2 c) \<longrightarrow> created (C' c)" by (rule leave_failed_ok [where T = ?T1 and e = ?e2, OF _ T1(3)])
    have "leave_limit k s e = Inr (- ENOMEM, e\<lparr>clocks := C'\<rparr>)"
      using out(1) e1 f(1) g(1) by (simp add: leave_limit_def ENOMEM_def)
    moreover have "same_loop e (e\<lparr>clocks := C'\<rparr>)" using g(3) f(5) C1(2) by (intro same_loop_clocks) simp
    moreover have "sources (e\<lparr>clocks := C'\<rparr>) = (sources e)(s := ?x\<lparr>registered := registered ?x\<rparr>)" "loop_ok (e\<lparr>clocks := C'\<rparr>)" "- ENOMEM < 0"
      using g(2) by (simp_all add: ENOMEM_def)
    ultimately show ?thesis using that(1) by blast
  next
    fix C assume p: "own_clock_put (mem k 4) (mem k 5) s ?e1 = Inr (0, ?e1\<lparr>clocks := C\<rparr>)"
      "\<forall>c. clock_ok (sources ?e1) (C c) (if own_clock (sources ?e1 s) = Some c then insert s (?T1 c) else ?T1 c)"
      "\<forall>c. created (clocks ?e1 c) \<longrightarrow> created (C c)" "\<forall>c. own_clock (sources ?e1 s) \<noteq> Some c \<longrightarrow> C c = clocks ?e1 c"
    let ?e2 = "e\<lparr>clocks := C\<rparr>"
    have T: "(if own_clock ?x = Some c then insert s (?T1 c) else ?T1 c) = ?T2 c" "small (?T2 c)" "own_clock ?x = Some c \<Longrightarrow> s \<in> ?T2 c"
      "(if own_clock ?x = Some c then ?T2 c - {s} else ?T2 c) = ?T1 c" for c
      using T1(1,3) [of c] small_subset [OF l(7), of "insert s (?M c)"] assms(3) by (auto simp: members_def)
    have w2: "loop_with ?T2 ?e2"
      by (rule loop_with_clocks [OF base]) (use p(2) T(1) in simp)
    have own2: "?T2 = members (with_source s (\<lambda>x. x\<lparr>enabled := enabled ?x, ratelimited := False\<rparr>) ?e2)"
      unfolding T2 by (simp add: members_def fun_eq_iff)
    have same2: "same_loop e ?e2" using p(3) C1(2) by (intro same_loop_clocks) simp
    show ?thesis
    proof (rule event_source_online_ok [OF w2, of s "enabled ?x" k])
      show "?T2 = members (with_source s (\<lambda>x. x\<lparr>enabled := enabled ?x, ratelimited := False\<rparr>) ?e2)" by (rule own2)
      let ?P = "still_pending (enabled (sources ?e2 s) = SD_EVENT_OFF \<and> enabled ?x \<noteq> SD_EVENT_OFF) (sources ?e2 s)"
      have P: "(sources ?e2 s)\<lparr>pending := ?P\<rparr> = ?x" by (simp add: still_pending_def)
      fix r e3 b assume f: "event_source_online k s (enabled ?x) False ?e2 = Inr (r, e3)" "r < 0" "loop_with ?T2 e3" "same_loop ?e2 e3"
        "sources e3 = (sources ?e2)(s := (sources ?e2 s)\<lparr>pending := ?P\<rparr>\<lparr>registered := b\<rparr>)" "enabled (sources ?e2 s) = enabled ?x \<longrightarrow> clocks e3 = clocks ?e2"
      have src: "sources e3 = (sources e)(s := ?x\<lparr>registered := b\<rparr>)" "clocks e3 = C" using f(5,6) unfolding P by simp_all
      have mem3: "members e3 c = ?M c" for c using same_loopD(1) [OF f(4)] src(1) by (auto simp: members_def clock_of_def)
      have made: "created (clocks e3 ?m)" using src(2) p(3) out(3) by simp
      have rm: "room (clocks e3 ?m) (members e3 ?m - {s})" if "own_clock (sources e3 s) \<noteq> Some ?m"
        using that p(4) src out(4) mem3 by simp
      obtain C4 where g: "rbind (own_clock_remove s e3) (leave_failed k s r) = Inr (r, e3\<lparr>clocks := C4\<rparr>)" "loop_ok (e3\<lparr>clocks := C4\<rparr>)"
        "\<forall>c. created (clocks e3 c) \<longrightarrow> created (C4 c)"
        by (rule leave_undone_ok [OF f(3) _ _ _ _ _ _ made rm])
          (use mem3 s(1,2) assms(3,4) same_loopD(1) [OF f(4)] l(7) in \<open>simp_all add: src limit_set_def\<close>)
      have run: "leave_limit k s e = Inr (r, e3\<lparr>clocks := C4\<rparr>)"
        using out(1) e1 p(1) f(1,2) g(1) by (simp add: leave_limit_def)
      have "same_loop e3 (e3\<lparr>clocks := C4\<rparr>)" using g(3) by (intro same_loop_clocks)
      then have "same_loop e (e3\<lparr>clocks := C4\<rparr>)" using same2 f(4) by (blast intro: same_loop_trans)
      moreover have "loop_ok (e3\<lparr>clocks := C4\<rparr>)" "sources (e3\<lparr>clocks := C4\<rparr>) = (sources e)(s := ?x\<lparr>registered := b\<rparr>)" using g(2) src(1) by simp_all
      ultimately show ?thesis using that(1) run f(2) by blast
    next
      let ?P = "still_pending (enabled (sources ?e2 s) = SD_EVENT_OFF \<and> enabled ?x \<noteq> SD_EVENT_OFF) (sources ?e2 s)"
      have P: "(sources ?e2 s)\<lparr>pending := ?P\<rparr> = ?x" by (simp add: still_pending_def)
      fix r e3 e4 b assume o: "event_source_online k s (enabled ?x) False ?e2 = Inr (r, e3)" "0 \<le> r" "event_source_pp_prioq_reshuffle s e3 = Inr e4"
        "loop_ok e4" "same_loop ?e2 e4"
        "sources e4 = (sources ?e2)(s := (sources ?e2 s)\<lparr>pending := ?P\<rparr>\<lparr>enabled := enabled ?x, ratelimited := False, registered := b\<rparr>)"
      let ?e5 = "with_source s (\<lambda>x. x\<lparr>rate := ratelimit_reset (rate x)\<rparr>) e4"
      have "y\<lparr>enabled := enabled y, ratelimited := l, registered := b\<rparr> = y\<lparr>ratelimited := l, registered := b\<rparr>" for y :: event_source and l b by (cases y) simp
      then have src: "sources e4 = (sources e)(s := ?x\<lparr>ratelimited := False, registered := b\<rparr>)" using o(6) unfolding P by simp
      have "loop_ok ?e5" by (rule rate_change_ok [OF o(4)]) (use same_loopD(1) [OF o(5)] src assms(3) in simp_all)
      moreover have "leave_limit k s e = Inr (0, ?e5)" using out(1) e1 p(1) o(1-3) by (simp add: leave_limit_def)
      moreover have "same_loop e4 ?e5" by (simp add: same_loop_def)
      then have "same_loop e ?e5" using same2 o(5) by (blast intro: same_loop_trans)
      moreover have "sources ?e5 = (sources e)(s := ?x\<lparr>ratelimited := False, registered := b, rate := ratelimit_reset (rate ?x)\<rparr>)" by (simp add: src)
      ultimately show ?thesis using that(2) by blast
    qed (use assms(3) in simp_all)
  qed
qed

text \<open>A source that has left its limit is watched again, and it leaves it when nothing fails.\<close>

lemma prioq_put_refused: "prioq_put cmp ok s x q = Inr (r, q') \<Longrightarrow> ok \<Longrightarrow> 0 \<le> r"
  by (auto simp: prioq_put_def res_iff Let_def split: if_splits)

lemma time_put_frame:
  assumes "event_source_time_prioq_put ok1 ok2 s c e = Inr (r, e')"
  shows "\<exists>f. e' = with_clock c f e \<and> (0 \<le> r \<longrightarrow> needs_rearm (clocks e' c)) \<and> (ok1 \<and> ok2 \<longrightarrow> 0 \<le> r)"
  using assms prioq_put_refused unfolding event_source_time_prioq_put_def
  by (auto simp: Let_def res_iff split: if_splits) (force simp: with_clock_def)+

lemma kernel_same_clock: "kernel_same e (with_clock c f e)"
  by (simp add: kernel_same_def watched_def with_clock_def fun_eq_iff)

lemma clock_steps_same:
  "event_source_time_prioq_remove s c e = Inr e1 \<Longrightarrow> kernel_same e e1"
  "own_clock_put ok1 ok2 s e = Inr (r, e2) \<Longrightarrow> kernel_same e e2 \<and> enabled (sources e2 s) = enabled (sources e s) \<and> signals e2 = signals e \<and> (ok1 \<and> ok2 \<longrightarrow> 0 \<le> r)"
proof -
  show "event_source_time_prioq_remove s c e = Inr e1 \<Longrightarrow> kernel_same e e1"
    by (auto simp: event_source_time_prioq_remove_def Let_def res_iff kernel_same_clock)
  show "own_clock_put ok1 ok2 s e = Inr (r, e2) \<Longrightarrow> kernel_same e e2 \<and> enabled (sources e2 s) = enabled (sources e s) \<and> signals e2 = signals e \<and> (ok1 \<and> ok2 \<longrightarrow> 0 \<le> r)"
    using kernel_same_clock by (auto simp: own_clock_put_def with_clock_def split: if_splits option.splits dest!: time_put_frame)
qed

lemma leave_failed_result: "leave_failed k s r e = Inr (r', e') \<Longrightarrow> r' = r"
  by (auto simp: leave_failed_def res_iff)

lemma leave_limit_watched:
  assumes "leave_limit k s e = Inr (r, e')" "loop_ok e" "\<not> pid_changed e" "s \<in> attached e"
  shows "(0 \<le> r \<and> enabled (sources e s) \<noteq> SD_EVENT_OFF \<longrightarrow> kernel_watches s e') \<and> (willing k \<longrightarrow> 0 \<le> r)"
proof -
  let ?m = "enabled (sources e s)"
  obtain e1 r1 e2 where run: "event_source_time_prioq_remove s CLOCK_MONOTONIC e = Inr e1" "own_clock_put (mem k 4) (mem k 5) s e1 = Inr (r1, e2)"
    and rest: "(if r1 < 0 then leave_failed k s r1 e2
     else
      rbind (event_source_online k s (enabled (sources e2 s)) False e2) (\<lambda>(r, e).
      if r < 0 then rbind (own_clock_remove s e) (leave_failed k s r)
      else rbind (event_source_pp_prioq_reshuffle s e) (\<lambda>e. Inr (0, with_source s (\<lambda>x. x\<lparr>rate := ratelimit_reset (rate x)\<rparr>) e)))) = Inr (r, e')"
    using assms(1) by (auto simp: leave_limit_def res_iff)
  have e1: "enabled (sources e1 s) = ?m" "signals e1 = signals e"
    using run(1) by (auto simp: event_source_time_prioq_remove_def Let_def res_iff with_clock_def)
  note put = clock_steps_same(2) [OF run(2)]
  have e2: "enabled (sources e2 s) = ?m" "signals_ok e2" "\<not> pid_changed e2"
    using put e1 loop_signals_ok [OF assms(2)] assms(3) clock_steps_same(1) [OF run(1)] by (simp_all add: signals_ok_def kernel_same_def)
  show ?thesis
  proof (cases "r1 < 0")
    case True
    then have "r = r1" using rest leave_failed_result by simp
    then show ?thesis using True put by (auto simp: willing_def)
  next
    case False
    then obtain r3 e3 where on: "event_source_online k s ?m False e2 = Inr (r3, e3)" "r3 < 0 \<longrightarrow> r = r3"
      "\<not> r3 < 0 \<longrightarrow> (\<exists>e4. event_source_pp_prioq_reshuffle s e3 = Inr e4 \<and> e' = with_source s (\<lambda>x. x\<lparr>rate := ratelimit_reset (rate x)\<rparr>) e4 \<and> r = 0)"
      using rest e2(1) by (auto simp: res_iff split: if_splits dest!: leave_failed_result)
    show ?thesis
    proof (cases "?m = SD_EVENT_OFF")
      case True
      then have "r3 = 0" using on(1) e2(1) by (auto simp: event_source_online_def unset_pending_def rassert_def)
      then show ?thesis using on(3) True by auto
    next
      case m: False
      obtain r4 e4 where ty: "online_by_type k s ?m (event_source_is_online (sources e2 s)) e2 = Inr (r4, e4)"
        using on(1) m e2(1) by (auto simp: event_source_online_def unset_pending_def rassert_def res_iff split: if_splits)
      note w = online_by_type_watched [OF ty e2(2) m]
      show ?thesis
      proof (cases "r4 < 0")
        case True
        then have "r3 = r4" using on(1) m e2(1) ty by (auto simp: event_source_online_def unset_pending_def rassert_def)
        then show ?thesis using True on(2) w(3) e2(3) by auto
      next
        case False
        let ?e = "with_source s (\<lambda>x. x\<lparr>enabled := ?m, ratelimited := False\<rparr>) e4"
        obtain e5 where e5: "(if src_type (sources ?e s) = SOURCE_EXIT then exit_reshuffle s ?e else Inr ?e) = Inr e5"
          "event_source_time_prioq_reshuffle s e5 = Inr e3" "r3 = 1"
          using on(1) m e2(1) ty False by (auto simp: event_source_online_def unset_pending_def Let_def rassert_def res_iff cong: if_cong)
        have "kernel_same e e2" using kernel_same_trans [OF clock_steps_same(1) [OF run(1)]] put by blast
        then have "src_type (sources e2 s) \<noteq> SOURCE_WATCHDOG"
          using source_okD(3) [OF loop_okD(11) [OF assms(2,4)]] by (simp add: kernel_same_def)
        then have "r4 \<le> 0" using ty e2(2) m by (metis online_by_type_ok Inr_inject prod.inject)
        then have "kernel_watches s ?e" using w(2) False by simp
        moreover have "kernel_same ?e e5" using e5(1) queue_steps_same(1) by (auto split: if_splits)
        moreover have "kernel_same e5 e3" using queue_steps_same(2) [OF e5(2)] .
        moreover obtain e6 where e6: "event_source_pp_prioq_reshuffle s e3 = Inr e6" "e' = with_source s (\<lambda>x. x\<lparr>rate := ratelimit_reset (rate x)\<rparr>) e6" "r = 0"
          using on(3) e5(3) by auto
        moreover have "kernel_same e3 e6" using queue_steps_same(3) [OF e6(1)] .
        moreover have "kernel_same e6 e'" using e6(2) by (simp add: kernel_same_def watched_def fun_eq_iff event_source_is_online_def)
        ultimately have "kernel_watches s e'" by (simp add: kernel_same_watches(1))
        then show ?thesis using e6(3) by simp
      qed
    qed
  qed
qed

section \<open>Callbacks\<close>

text \<open>
  What a callback may do: anything that leaves the event loop in order, such as the functions of the library that are shown to, with one
  exception: it must not enable a disabled source that is rate limited, which loses the order of the clock, see \<open>reenabled_limited_source_sleeps\<close>. It may let
  go of its own source, which is then taken out of the loop, but is there until the callback has returned, with no reference left.
\<close>

definition callback_ok :: "(event_loop \<Rightarrow> int \<times> event_loop) \<Rightarrow> nat \<Rightarrow> bool" where
  "callback_ok cb s \<longleftrightarrow> (\<forall>e r e'. cb e = (r, e') \<and> loop_ok e \<and> registry_ok e \<and> s \<in> attached e \<longrightarrow>
     loop_ok e' \<and> registry_ok e' \<and> pid_changed e' = pid_changed e \<and> (s \<in> attached e' \<or> n_ref (sources e' s) = 0))"

text \<open>The fields that order nothing.\<close>

lemma unranked_ok:
  assumes "loop_ok e" "s \<in> attached e" "\<And>x. \<exists>d n. f x = x\<lparr>dispatching := d, n_ref := n\<rparr>"
  shows "loop_ok (with_source s f e)"
proof -
  let ?x = "sources e s" and ?e = "with_source s f e"
  note l = loop_okD [OF assms(1)]
  obtain d n where f: "f ?x = ?x\<lparr>dispatching := d, n_ref := n\<rparr>" using assms(3) by blast
  have "pending_ok (sources ?e) (attached ?e) (pending_q ?e)" by (simp, rule pending_ok_ranks [OF l(3)]) (auto simp: pending_rank_def f)
  moreover have "prepare_ok (sources ?e) (attached ?e) (prepare_q ?e)" by (simp, rule prepare_ok_ranks [OF l(4)]) (auto simp: prepare_rank_def f)
  moreover have "exit_ok (sources ?e) (attached ?e) (exit_q ?e)" by (simp, rule exit_ok_ranks [OF l(5)]) (auto simp: exit_rank_def f)
  moreover have "members ?e = members e" by (auto simp: members_def clock_of_def fun_eq_iff f)
  moreover have "clock_ok (sources ?e) (clocks ?e c) (members e c)" for c
    by (rule clock_ok_ranks [OF l(6)]) (auto simp: earliest_rank_def latest_rank_def event_source_timer_candidate_def
      next_time_def latest_time_def limit_set_def f)
  moreover have "books_ok ?e"
    by (rule books_ok_state [OF l(2) assms(2), of _ "f ?x"])
      (use source_okD(1,2) [OF l(11) [OF assms(2)]] loop_signals_ok [OF assms(1)] in
        \<open>simp_all add: f limit_set_def signals_ok_def children_after_def event_source_is_online_def\<close>)
  ultimately show ?thesis by (simp add: loop_ok_def queues_ok_def)
qed

lemma dispatching_ok:
  assumes "loop_ok e" "registry_ok e" "s \<in> attached e"
  shows "loop_ok (with_source s (\<lambda>x. x\<lparr>dispatching := b\<rparr>) e)" "registry_ok (with_source s (\<lambda>x. x\<lparr>dispatching := b\<rparr>) e)"
proof -
  have "x\<lparr>dispatching := b\<rparr> = x\<lparr>dispatching := b, n_ref := n_ref x\<rparr>" for x :: event_source by (cases x) simp
  then show "loop_ok (with_source s (\<lambda>x. x\<lparr>dispatching := b\<rparr>) e)" by (intro unranked_ok [OF assms(1,3)]) blast
  show "registry_ok (with_source s (\<lambda>x. x\<lparr>dispatching := b\<rparr>) e)"
    by (rule registry_same [OF assms(2)]) (simp_all add: same_loop_def)
qed

lemma detached_ok:
  assumes "loop_ok e" "registry_ok e" "s \<notin> attached e"
  shows "loop_ok (with_source s f e)" "registry_ok (with_source s f e)"
proof -
  let ?e = "with_source s f e"
  note l = loop_okD [OF assms(1)]
  have same: "x \<in> attached e \<Longrightarrow> sources ?e x = sources e x" for x using assms(3) by auto
  have "pending_ok (sources ?e) (attached ?e) (pending_q ?e)"
    by (simp, rule pending_ok_ranks [OF l(3)]) (use assms(3) in \<open>auto simp: pending_rank_def\<close>)
  moreover have "prepare_ok (sources ?e) (attached ?e) (prepare_q ?e)"
    by (simp, rule prepare_ok_ranks [OF l(4)]) (use assms(3) in \<open>auto simp: prepare_rank_def\<close>)
  moreover have "exit_ok (sources ?e) (attached ?e) (exit_q ?e)"
    by (simp, rule exit_ok_ranks [OF l(5)]) (use assms(3) in \<open>auto simp: exit_rank_def\<close>)
  moreover have m: "members ?e c = members e c" "inotify_pending ?e d = inotify_pending e d" "children_online ?e = children_online e" for c d
    using assms(3) by (auto simp: members_def inotify_pending_def children_online_def)
  moreover have "clock_ok (sources ?e) (clocks ?e c) (members e c)" for c
    using clock_ok_other [OF l(6) [of c], of s "sources ?e"] assms(3) by (simp add: members_def)
  moreover have "source_ok ?e x = source_ok e x" if "x \<in> attached e" for x using same [OF that] by (simp add: source_ok_def)
  ultimately show "loop_ok ?e" using assms(1) by (simp add: loop_ok_def queues_ok_def books_ok_def)
  show "registry_ok ?e" using assms(2) same unfolding registry_ok_def by (simp del: with_source_simps(1) fun_upd_apply add: with_source_simps)
qed

lemma exit_fields_ok: "loop_ok (e\<lparr>exit_requested := b, exit_code := c\<rparr>) = loop_ok e" "registry_ok (e\<lparr>exit_requested := b, exit_code := c\<rparr>) = registry_ok e"
proof -
  let ?e = "e\<lparr>exit_requested := b, exit_code := c\<rparr>"
  have "members ?e = members e" "inotify_pending ?e = inotify_pending e" "children_online ?e = children_online e" "source_ok ?e = source_ok e"
    by (auto simp: members_def inotify_pending_def children_online_def source_ok_def fun_eq_iff)
  then show "loop_ok ?e = loop_ok e" by (simp add: loop_ok_def queues_ok_def books_ok_def)
  show "registry_ok ?e = registry_ok e" by (simp add: registry_ok_def)
qed

lemma sd_event_exit_ok:
  obtains b c where "snd (sd_event_exit r e) = e\<lparr>exit_requested := b, exit_code := c\<rparr>"
proof -
  have "e\<lparr>exit_requested := exit_requested e, exit_code := exit_code e\<rparr> = e" by (cases e) simp
  then show ?thesis using that [of "exit_code e" "exit_requested e"] that [of r True] by (cases "finished e \<or> pid_changed e") (auto simp: sd_event_exit_def)
qed

definition keeps_prepares :: "event_loop \<Rightarrow> event_loop \<Rightarrow> bool" where
  "keeps_prepares e e' \<longleftrightarrow> (\<forall>x. has_prepare (sources e' x) = has_prepare (sources e x) \<and> prepare_iteration (sources e' x) = prepare_iteration (sources e x))"

lemma disable_ok:
  assumes "loop_ok e" "registry_ok e" "s \<in> attached e" "\<not> pid_changed e"
  obtains e' where "sd_event_source_set_enabled k (Some s) SD_EVENT_OFF e = Inr (0, e')" "loop_ok e'" "registry_ok e'" "same_loop e e'"
    "keeps_prepares e e'"
proof (cases "finished e")
  case True
  then show ?thesis using that assms by (simp add: sd_event_source_set_enabled_def keeps_prepares_def)
next
  case False
  obtain e' p b where r: "sd_event_source_set_enabled k (Some s) SD_EVENT_OFF e = Inr (0, e')" "loop_ok e'" "same_loop e e'"
    "sources e' = (sources e)(s := (sources e s)\<lparr>pending := p, enabled := SD_EVENT_OFF, registered := b\<rparr>)"
    using set_enabled_ok [OF assms(1,3) False assms(4), of SD_EVENT_OFF k] by fastforce
  have "registry_ok e'" by (rule registry_same [OF assms(2) r(3)]) (simp_all add: r(4))
  moreover have "keeps_prepares e e'" by (simp add: keeps_prepares_def r(4))
  ultimately show ?thesis using that r(1-3) by blast
qed

lemma after_callback_ok:
  assumes "loop_ok e" "registry_ok e" "\<not> pid_changed e" "s \<in> attached e \<or> n_ref (sources e s) = 0"
  obtains e' where "after_callback k saved s r e = Inr e'" "loop_ok e'" "registry_ok e'" "\<not> pid_changed e'" "attached e' \<subseteq> attached e"
    "state e' = state e" "iteration e' = iteration e" "keeps_prepares e e'"
proof -
  let ?e1 = "with_source s (\<lambda>x. x\<lparr>dispatching := False\<rparr>) e"
  have e1: "loop_ok ?e1" "registry_ok ?e1" using dispatching_ok [OF assms(1,2)] detached_ok [OF assms(1,2)] by blast+
  obtain b c where x: "(if r < 0 \<and> exit_on_failure (sources ?e1 s) \<and> (saved \<or> s \<in> attached ?e1) then snd (sd_event_exit r ?e1) else ?e1) =
    ?e1\<lparr>exit_requested := b, exit_code := c\<rparr>"
  proof (cases "r < 0 \<and> exit_on_failure (sources ?e1 s) \<and> (saved \<or> s \<in> attached ?e1)")
    case True
    then show ?thesis using that sd_event_exit_ok [of r ?e1 thesis] by simp
  next
    case False
    have "?e1\<lparr>exit_requested := exit_requested ?e1, exit_code := exit_code ?e1\<rparr> = ?e1" by (cases e) (simp add: with_source_def)
    then show ?thesis using False by (intro that [of "exit_code ?e1" "exit_requested ?e1"]) (simp only: if_False)
  qed
  let ?e2 = "?e1\<lparr>exit_requested := b, exit_code := c\<rparr>"
  have e2: "loop_ok ?e2" "registry_ok ?e2" "\<not> pid_changed ?e2" "attached ?e2 = attached e" "state ?e2 = state e" "iteration ?e2 = iteration e"
    "n_ref (sources ?e2 s) = n_ref (sources e s)" "keeps_prepares e ?e2" using e1 assms(3) by (simp_all add: exit_fields_ok keeps_prepares_def)
  have run: "after_callback k saved s r e = (if n_ref (sources ?e2 s) = 0 then source_free s ?e2
      else if r < 0 then rbind (sd_event_source_set_enabled k (Some s) SD_EVENT_OFF ?e2) (\<lambda>(r', e). rbind (rassert (0 \<le> r') AssertFail) (\<lambda>_. Inr e))
      else Inr ?e2)" unfolding after_callback_def Let_def x ..
  consider "n_ref (sources e s) = 0" "s \<in> attached e" | "n_ref (sources e s) = 0" "s \<notin> attached e" | "n_ref (sources e s) \<noteq> 0" "s \<in> attached e" "r < 0"
    | "n_ref (sources e s) \<noteq> 0" "\<not> r < 0" using assms(4) by metis
  then show ?thesis
  proof cases
    case 1
    have s: "s \<in> attached ?e2" using 1(2) e2(4) by simp
    obtain e' b where d: "source_disconnect s ?e2 = Inr e'" "loop_ok e'" "registry_ok e'" "attached e' = attached ?e2 - {s}" "same_state ?e2 e'"
      "sources e' = (sources ?e2)(s := (sources ?e2 s)\<lparr>registered := b\<rparr>)"
      using disconnect_ok [OF e2(1,2) s] by blast
    have "keeps_prepares e e'" using e2(8) by (simp add: keeps_prepares_def d(6))
    then show ?thesis using that [of e'] run 1 e2(3-7) d(1-5) by (auto simp: source_free_def same_state_def)
  next
    case 2
    then show ?thesis using that [of ?e2] run e2 by (simp add: source_free_def source_disconnect_def)
  next
    case 3
    have s: "s \<in> attached ?e2" using 3(2) e2(4) by simp
    obtain e' where "sd_event_source_set_enabled k (Some s) SD_EVENT_OFF ?e2 = Inr (0, e')" "loop_ok e'" "registry_ok e'" "same_loop ?e2 e'"
      "keeps_prepares ?e2 e'" by (rule disable_ok [OF e2(1,2) s e2(3)])
    moreover have "keeps_prepares e e'" using e2(8) calculation(5) by (simp add: keeps_prepares_def)
    ultimately show ?thesis using that [of e'] run 3 e2(3-7) same_loopD [of ?e2 e'] by simp
  next
    case 4
    then show ?thesis using that [of ?e2] run e2 by simp
  qed
qed

lemma callback_okD:
  assumes "callback_ok cb s" "cb e = (r, e')" "loop_ok e" "registry_ok e" "s \<in> attached e"
  shows "loop_ok e'" "registry_ok e'" "pid_changed e' = pid_changed e" "s \<in> attached e' \<or> n_ref (sources e' s) = 0"
  using assms unfolding callback_ok_def by metis+

lemma run_callback_ok:
  assumes "loop_ok e" "registry_ok e" "s \<in> attached e" "\<not> pid_changed e" "callback_ok cb s"
  obtains r e1 e2 where "run_callback cb s e = (r, e1)" "after_callback k saved s r e1 = Inr e2" "loop_ok e2" "registry_ok e2" "\<not> pid_changed e2"
proof -
  obtain r e1 where r: "run_callback cb s e = (r, e1)" by fastforce
  let ?e = "with_source s (\<lambda>x. x\<lparr>dispatching := True\<rparr>) e"
  have cb: "cb ?e = (r, e1)" using r by (simp add: run_callback_def)
  have "s \<in> attached ?e" using assms(3) by simp
  note c = callback_okD [OF assms(5) cb dispatching_ok [OF assms(1-3)] this]
  have "\<not> pid_changed e1" using c(3) assms(4) by simp
  note e1 = c(1,2) this c(4)
  show ?thesis by (rule after_callback_ok [OF e1, of k saved r]) (rule that [OF r])
qed

section \<open>Letting go of a source\<close>

lemma unref_ok:
  assumes "loop_ok e" "registry_ok e" "s \<in> attached e" "0 < n_ref (sources e s)"
  obtains e' where "sd_event_source_unref s e = Inr e'" "loop_ok e'" "registry_ok e'" "pid_changed e' = pid_changed e"
    "n_ref (sources e' s) = n_ref (sources e s) - 1" "attached e' = (if n_ref (sources e s) = 1 then attached e - {s} else attached e)"
proof -
  let ?e = "with_source s (\<lambda>x. x\<lparr>n_ref := n_ref x - 1\<rparr>) e"
  have "x\<lparr>n_ref := n\<rparr> = x\<lparr>dispatching := dispatching x, n_ref := n\<rparr>" for x :: event_source and n by (cases x) simp
  then have e: "loop_ok ?e" by (intro unranked_ok [OF assms(1,3)]) blast
  have g: "registry_ok ?e" by (rule registry_same [OF assms(2)]) (simp_all add: same_loop_def)
  show ?thesis
  proof (cases "n_ref (sources e s) = 1")
    case True
    have "s \<in> attached ?e" using assms(3) by simp
    then obtain e' b where "source_disconnect s ?e = Inr e'" "loop_ok e'" "registry_ok e'" "attached e' = attached ?e - {s}" "same_state ?e e'"
        "sources e' = (sources ?e)(s := (sources ?e s)\<lparr>registered := b\<rparr>)"
      using disconnect_ok [OF e g, of s] by blast
    then show ?thesis using that [of e'] True
      by (simp add: sd_event_source_unref_def event_source_free_def source_free_def same_state_def Let_def)
  next
    case False
    then show ?thesis using that [of ?e] assms(4) e g by (simp add: sd_event_source_unref_def)
  qed
qed

section \<open>The calls\<close>

lemma leave_ok:
  assumes "loop_ok e" "registry_ok e" "s \<in> attached e" "\<not> pid_changed e" "\<And>f. cb = Some f \<Longrightarrow> callback_ok f s"
  obtains r e' where "event_source_leave_ratelimit k cb s e = Inr (r, e')" "loop_ok e'" "registry_ok e'" "\<not> pid_changed e'"
    "r < 0 \<longrightarrow> (\<exists>b. sources e' = (sources e)(s := (sources e s)\<lparr>registered := b\<rparr>)) \<and> ratelimited (sources e s) \<and> same_loop e e'"
    "r = 0 \<longrightarrow> same_loop e e' \<and> (if ratelimited (sources e s)
       then \<exists>b. sources e' = (sources e)(s := (sources e s)\<lparr>ratelimited := False, registered := b, rate := ratelimit_reset (rate (sources e s))\<rparr>)
       else e' = e)"
    "0 < r \<longrightarrow> cb \<noteq> None"
proof (cases "ratelimited (sources e s)")
  case False
  then show ?thesis using that [of 0 e] assms(1-4) by (simp add: event_source_leave_ratelimit_def)
next
  case True
  show ?thesis
  proof (rule leave_limit_ok [OF assms(1-3) True, of k])
    fix r e1 b assume f: "leave_limit k s e = Inr (r, e1)" "r < 0" "loop_ok e1" "same_loop e e1" "sources e1 = (sources e)(s := (sources e s)\<lparr>registered := b\<rparr>)"
    have "registry_ok e1" by (rule registry_same [OF assms(2) f(4)]) (simp_all add: f(5))
    then show ?thesis using that [of r e1] f True assms(4) same_loopD [OF f(4)] by (auto simp: event_source_leave_ratelimit_def)
  next
    fix e1 b assume f: "leave_limit k s e = Inr (0, e1)" "loop_ok e1" "same_loop e e1"
      "sources e1 = (sources e)(s := (sources e s)\<lparr>ratelimited := False, registered := b, rate := ratelimit_reset (rate (sources e s))\<rparr>)"
    have e1: "registry_ok e1" "s \<in> attached e1" "\<not> pid_changed e1"
      using assms(3,4) same_loopD [OF f(3)] by (simp_all add: registry_same [OF assms(2) f(3)] f(4) ratelimit_reset_def)
    show ?thesis
    proof (cases cb)
      case None
      then show ?thesis using that [of 0 e1] f True e1 by (auto simp: event_source_leave_ratelimit_def)
    next
      case (Some g)
      obtain r e2 e3 where "run_callback g s e1 = (r, e2)" "after_callback k False s r e2 = Inr e3" "loop_ok e3" "registry_ok e3" "\<not> pid_changed e3"
        by (rule run_callback_ok [OF f(2) e1 assms(5) [OF Some], of k False])
      then show ?thesis using that [of 1 e3] Some f(1) True by (simp add: event_source_leave_ratelimit_def)
    qed
  qed
qed

text \<open>What becomes of the source of a callback that has returned \<open>q\<close>, in the state \<open>e\<close>.\<close>

definition settled_after :: "nat \<Rightarrow> int \<Rightarrow> event_loop \<Rightarrow> event_loop \<Rightarrow> bool" where
  "settled_after s q e e' \<longleftrightarrow> (n_ref (sources e s) = 0 \<longrightarrow> s \<notin> attached e') \<and>
     (n_ref (sources e s) \<noteq> 0 \<and> 0 \<le> q \<longrightarrow> e' = with_source s (\<lambda>x. x\<lparr>dispatching := False\<rparr>) e) \<and>
     (n_ref (sources e s) \<noteq> 0 \<and> q < 0 \<and> \<not> finished e \<longrightarrow> enabled (sources e' s) = SD_EVENT_OFF)"

lemma after_callback_result:
  assumes "after_callback k saved s q e = Inr e'" "loop_ok e" "registry_ok e" "\<not> pid_changed e" "s \<in> attached e \<or> n_ref (sources e s) = 0"
  shows "settled_after s q e e'"
proof -
  let ?e1 = "with_source s (\<lambda>x. x\<lparr>dispatching := False\<rparr>) e"
  let ?e2 = "if q < 0 \<and> exit_on_failure (sources ?e1 s) \<and> (saved \<or> s \<in> attached ?e1) then snd (sd_event_exit q ?e1) else ?e1"
  have e1: "loop_ok ?e1" "registry_ok ?e1" using dispatching_ok [OF assms(2,3)] detached_ok [OF assms(2,3)] by blast+
  have e2: "loop_ok ?e2" "sources ?e2 = sources ?e1" "attached ?e2 = attached e" "pid_changed ?e2 = pid_changed e" "state ?e2 = state e"
    using e1(1) by (auto simp: sd_event_exit_def exit_fields_ok)
  have run: "(if n_ref (sources e s) = 0 then source_free s ?e2
      else if q < 0 then rbind (sd_event_source_set_enabled k (Some s) SD_EVENT_OFF ?e2) (\<lambda>(r', e). rbind (rassert (0 \<le> r') AssertFail) (\<lambda>_. Inr e))
      else Inr ?e2) = Inr e'"
    using assms(1) e2(2) by (simp add: after_callback_def Let_def)
  have "s \<notin> attached e'" if "n_ref (sources e s) = 0"
    using run that by (auto simp: source_free_def source_disconnect_def res_iff split: if_splits)
  moreover have "e' = ?e1" if "n_ref (sources e s) \<noteq> 0" "0 \<le> q" using run that by (simp split: if_splits)
  moreover have "enabled (sources e' s) = SD_EVENT_OFF" if h: "n_ref (sources e s) \<noteq> 0" "q < 0" "\<not> finished e"
  proof -
    have s: "s \<in> attached ?e2" using assms(5) h(1) e2(3) by simp
    obtain r' where "sd_event_source_set_enabled k (Some s) SD_EVENT_OFF ?e2 = Inr (r', e')" "0 \<le> r'"
      using run h(1,2) by (auto simp: res_iff rassert_def split: if_splits)
    then show ?thesis using set_enabled_ok [OF e2(1) s, of SD_EVENT_OFF k] h(3) assms(4) e2(4,5) by auto
  qed
  ultimately show ?thesis by (simp add: settled_after_def)
qed

text \<open>
  C20. A source leaves its rate limit, or it goes back under it when memory or the kernel fail, as it was and with an error returned; when nothing
  fails it leaves it. Having left it, the source is back on the clock it had and online with its old mode, watched by the kernel if it is
  enabled, with an empty window. In exactly this state its expire callback, if there is one, is run; after it a source with no reference left is gone from
  the event loop, and one whose callback failed is disabled. No assertion fails, also not the one that the source can be put back without memory, and the event loop is
  left in order. The callback may call functions of the library and may drop the source itself, as long as it leaves the loop in order (\<open>callback_ok\<close>):
  it must not enable a disabled source that is rate limited, see \<open>reenabled_limited_source_sleeps\<close>.
\<close>

theorem leave_limit_keeps_order:
  assumes "loop_ok e" "registry_ok e" "s \<in> attached e" "\<not> pid_changed e" "\<And>f. cb = Some f \<Longrightarrow> callback_ok f s"
  shows "\<exists>r e'. event_source_leave_ratelimit k cb s e = Inr (r, e') \<and> loop_ok e' \<and> registry_ok e' \<and>
    (if \<not> ratelimited (sources e s) then r = 0 \<and> e' = e
     else if r < 0 then \<not> willing k \<and> same_loop e e' \<and> (\<exists>b. sources e' = (sources e)(s := (sources e s)\<lparr>registered := b\<rparr>))
     else \<exists>e1 b. loop_ok e1 \<and> same_loop e e1 \<and> (enabled (sources e s) \<noteq> SD_EVENT_OFF \<longrightarrow> kernel_watches s e1) \<and>
       sources e1 = (sources e)(s := (sources e s)\<lparr>ratelimited := False, registered := b, rate := ratelimit_reset (rate (sources e s))\<rparr>) \<and>
       (case cb of None \<Rightarrow> r = 0 \<and> e' = e1
        | Some f \<Rightarrow> r = 1 \<and> (\<exists>q e2. f (with_source s (\<lambda>x. x\<lparr>dispatching := True\<rparr>) e1) = (q, e2) \<and> settled_after s q e2 e')))"
proof (cases "ratelimited (sources e s)")
  case False
  then show ?thesis using assms(1,2) by (simp add: event_source_leave_ratelimit_def)
next
  case True
  show ?thesis
  proof (rule leave_limit_ok [OF assms(1-3) True, of k])
    fix r e1 b assume f: "leave_limit k s e = Inr (r, e1)" "r < 0" "loop_ok e1" "same_loop e e1" "sources e1 = (sources e)(s := (sources e s)\<lparr>registered := b\<rparr>)"
    have "registry_ok e1" by (rule registry_same [OF assms(2) f(4)]) (simp_all add: f(5))
    moreover have "\<not> willing k" using leave_limit_watched [OF f(1) assms(1,4,3)] f(2) by auto
    moreover have "event_source_leave_ratelimit k cb s e = Inr (r, e1)" using f(1,2) True by (simp add: event_source_leave_ratelimit_def)
    ultimately show ?thesis using f(2-5) True by (intro exI [of _ r] exI [of _ e1]) auto
  next
    fix e1 b assume f: "leave_limit k s e = Inr (0, e1)" "loop_ok e1" "same_loop e e1"
      "sources e1 = (sources e)(s := (sources e s)\<lparr>ratelimited := False, registered := b, rate := ratelimit_reset (rate (sources e s))\<rparr>)"
    have e1: "registry_ok e1" "s \<in> attached e1" "\<not> pid_changed e1"
      using assms(3,4) same_loopD [OF f(3)] by (simp_all add: registry_same [OF assms(2) f(3)] f(4) ratelimit_reset_def)
    have w: "enabled (sources e s) \<noteq> SD_EVENT_OFF \<longrightarrow> kernel_watches s e1" using leave_limit_watched [OF f(1) assms(1,4,3)] by simp
    show ?thesis
    proof (cases cb)
      case None
      then have "event_source_leave_ratelimit k cb s e = Inr (0, e1)" using f(1) True by (simp add: event_source_leave_ratelimit_def)
      then show ?thesis using f(2-4) e1(1) w True None by (intro exI [of _ 0] exI [of _ e1]) auto
    next
      case (Some g)
      let ?d = "with_source s (\<lambda>x. x\<lparr>dispatching := True\<rparr>) e1"
      obtain q e2 e3 where cb: "run_callback g s e1 = (q, e2)" "after_callback k False s q e2 = Inr e3" "loop_ok e3" "registry_ok e3" "\<not> pid_changed e3"
        by (rule run_callback_ok [OF f(2) e1 assms(5) [OF Some], of k False])
      have g: "g ?d = (q, e2)" using cb(1) by (simp add: run_callback_def)
      have d: "s \<in> attached ?d" using e1(2) by simp
      note c = callback_okD [OF assms(5) [OF Some] g dispatching_ok [OF f(2) e1(1,2)] d]
      have "settled_after s q e2 e3" by (rule after_callback_result [OF cb(2) c(1,2) _ c(4)]) (use c(3) e1(3) in simp)
      moreover have "event_source_leave_ratelimit k cb s e = Inr (1, e3)" using Some f(1) True cb(1,2) by (simp add: event_source_leave_ratelimit_def)
      ultimately show ?thesis using f(2-4) cb(3,4) w True g unfolding Some
        by (intro exI [of _ 1] exI [of _ e3]) (simp, blast)
    qed
  qed
qed

lemma set_ratelimit_ok:
  assumes "loop_ok e" "registry_ok e" "s \<in> attached e" "\<not> pid_changed e"
  obtains r e' where "sd_event_source_set_ratelimit k (Some s) interval burst e = Inr (r, e')" "loop_ok e'" "registry_ok e'" "\<not> pid_changed e'"
proof (cases "event_source_can_rate_limit (src_type (sources e s))")
  case False
  then show ?thesis using that [of "- EDOM" e] assms by (simp add: sd_event_source_set_ratelimit_def)
next
  case True
  obtain r e1 where r: "event_source_leave_ratelimit k None s e = Inr (r, e1)" "loop_ok e1" "registry_ok e1" "\<not> pid_changed e1"
    "r = 0 \<longrightarrow> same_loop e e1 \<and> (if ratelimited (sources e s)
       then \<exists>b. sources e1 = (sources e)(s := (sources e s)\<lparr>ratelimited := False, registered := b, rate := ratelimit_reset (rate (sources e s))\<rparr>)
       else e1 = e)" "0 < r \<longrightarrow> None \<noteq> (None :: (event_loop \<Rightarrow> int \<times> event_loop) option)"
    by (rule leave_ok [OF assms, of None k]) simp
  show ?thesis
  proof (cases "r < 0")
    case True
    then show ?thesis using that [of r e1] r(1-4) \<open>event_source_can_rate_limit _\<close> by (simp add: sd_event_source_set_ratelimit_def)
  next
    case False
    then have "r = 0" using r(6) by auto
    let ?f = "\<lambda>x :: event_source. x\<lparr>rate := \<lparr>rl_interval = interval, rl_burst = burst, rl_num = 0, rl_begin = 0\<rparr>\<rparr>"
    have s: "s \<in> attached e1" "\<not> ratelimited (sources e1 s)"
      using r(5) \<open>r = 0\<close> assms(3) same_loopD(1) [of e e1] by (auto split: if_splits)
    have type: "event_source_can_rate_limit (src_type (sources e1 s))"
      using r(5) \<open>r = 0\<close> True by (auto split: if_splits)
    have "loop_ok (with_source s ?f e1)" by (rule rate_change_ok [OF r(2) s])
    moreover have "registry_ok (with_source s ?f e1)" using r(3) type unfolding registry_ok_def by simp
    ultimately show ?thesis using that [of 0 "with_source s ?f e1"] r(1,4) \<open>r = 0\<close> True by (simp add: sd_event_source_set_ratelimit_def)
  qed
qed

section \<open>On small loops\<close>

text \<open>Timer 1 of \<open>demo_loop\<close> with a limit that it has reached; the rate limited source of \<open>limited_loop\<close>, whose callback drops it.\<close>

definition busy_loop :: event_loop where
  "busy_loop = with_source 1 (\<lambda>x. x\<lparr>rate := \<lparr>rl_interval = 10, rl_burst = 2, rl_num = 2, rl_begin = 5\<rparr>\<rparr>) demo_loop"

lemma busy_loop_ok: "loop_ok busy_loop"
  unfolding busy_loop_def by (rule rate_change_ok [OF demo_loop_ok]) (simp_all add: demo_loop_fields demo_timer_def)


definition drops_itself :: "nat \<Rightarrow> event_loop \<Rightarrow> int \<times> event_loop" where
  "drops_itself s e = (case sd_event_source_unref s e of Inl _ \<Rightarrow> (0, e) | Inr e \<Rightarrow> (0, e))"

lemma drops_itself_ok: "callback_ok (drops_itself s) s"
  unfolding callback_ok_def
proof (intro allI impI)
  fix e r e' assume h: "drops_itself s e = (r, e') \<and> loop_ok e \<and> registry_ok e \<and> s \<in> attached e"
  show "loop_ok e' \<and> registry_ok e' \<and> pid_changed e' = pid_changed e \<and> (s \<in> attached e' \<or> n_ref (sources e' s) = 0)"
  proof (cases "0 < n_ref (sources e s)")
    case True
    obtain e1 where "sd_event_source_unref s e = Inr e1" "loop_ok e1" "registry_ok e1" "pid_changed e1 = pid_changed e"
      "n_ref (sources e1 s) = n_ref (sources e s) - 1" "attached e1 = (if n_ref (sources e s) = 1 then attached e - {s} else attached e)"
      by (rule unref_ok [of e s]) (use h True in simp_all)
    then show ?thesis using h by (auto simp: drops_itself_def split: if_splits)
  next
    case False
    then show ?thesis using h by (auto simp: drops_itself_def sd_event_source_unref_def)
  qed
qed

lemma limited_registry_ok: "registry_ok limited_loop"
proof -
  have "post_sources limited_loop = {}" "signal_sources limited_loop g = None" for g by (simp_all add: limited_loop_def demo_loop_def)
  then show ?thesis by (simp add: registry_ok_def limited_fields limited_source_fields event_get_clock_def event_source_can_rate_limit_def)
qed

lemma demo_registry_ok: "registry_ok demo_loop"
proof -
  have "post_sources demo_loop = {}" "signal_sources demo_loop g = None" for g by (simp_all add: demo_loop_def)
  then show ?thesis
    using demo_loop_fields(4) by (auto simp: registry_ok_def demo_loop_fields demo_timer_def event_get_clock_def event_source_can_rate_limit_def)
qed

theorem leave_limit_keeps_order_witness:
  "\<exists>e'. event_source_leave_ratelimit demo_kernel (Some (drops_itself 1)) 1 limited_loop = Inr (1, e') \<and> loop_ok e' \<and> registry_ok e' \<and>
    (\<exists>e1 q e2. loop_ok e1 \<and> \<not> ratelimited (sources e1 1) \<and> rl_num (rate (sources e1 1)) = 0 \<and>
      drops_itself 1 (with_source 1 (\<lambda>x. x\<lparr>dispatching := True\<rparr>) e1) = (q, e2) \<and> settled_after 1 q e2 e')"
proof -
  have cb: "callback_ok f 1" if "Some (drops_itself 1) = Some f" for f using that drops_itself_ok by auto
  have live: "1 \<in> attached limited_loop" "\<not> pid_changed limited_loop" "ratelimited (sources limited_loop 1)" "willing demo_kernel"
    by (simp_all add: limited_fields limited_source_fields willing_def demo_kernel_def)
  note run = leave_limit_keeps_order [where cb = "Some (drops_itself 1)" and k = demo_kernel, OF limited_loop_ok limited_registry_ok live(1,2) cb]
  then obtain e' e1 b q e2 where "event_source_leave_ratelimit demo_kernel (Some (drops_itself 1)) 1 limited_loop = Inr (1, e')" "loop_ok e'" "registry_ok e'"
    "loop_ok e1" "sources e1 = (sources limited_loop)(1 := (sources limited_loop 1)
       \<lparr>ratelimited := False, registered := b, rate := ratelimit_reset (rate (sources limited_loop 1))\<rparr>)"
    "drops_itself 1 (with_source 1 (\<lambda>x. x\<lparr>dispatching := True\<rparr>) e1) = (q, e2)" "settled_after 1 q e2 e'"
    using live(3,4) by (auto simp del: One_nat_def split: if_splits)
  then show ?thesis
    by (intro exI [of _ e'] conjI exI [of _ e1] exI [of _ q] exI [of _ e2]) (simp_all add: ratelimit_reset_def)
qed

end
