(* ===== verification/EventExpiry.thy ===== *)
theory EventExpiry
  imports EventLimits
begin

text \<open>
  \<open>process_timer\<close> of \<open>EventLoop\<close> with the rate limited sources: those whose window has ended leave their limit, and \<open>expire\<close> gives their
  expire callbacks.
\<close>

definition process_timer_limits ::
  "kernel \<Rightarrow> (nat \<Rightarrow> (event_loop \<Rightarrow> int \<times> event_loop) option) \<Rightarrow> (nat \<Rightarrow> bool) \<Rightarrow> nat \<Rightarrow> usec \<Rightarrow> clock \<Rightarrow> event_loop \<Rightarrow> (int \<times> event_loop) res option" where
  "process_timer_limits k expire ok fuel n c e = process_timer (\<lambda>s. event_source_leave_ratelimit k (expire s) s) ok fuel n c False e"

text \<open>What is left to do: every turn lets a source leave its limit or makes one pending.\<close>

definition turns_left :: "event_loop \<Rightarrow> nat" where
  "turns_left e = card {s \<in> attached e. ratelimited (sources e s)} + card {s \<in> attached e. \<not> pending (sources e s)}"

lemma attached_finite: "loop_ok e \<Longrightarrow> finite (attached e)"
  using loop_okD(7) [of e] by (simp add: small_def)

lemma turns_left_le: "loop_ok e \<Longrightarrow> turns_left e \<le> 2 * card (attached e)"
  using card_mono [OF attached_finite, of e "{s \<in> attached e. ratelimited (sources e s)}"]
    card_mono [OF attached_finite, of e "{s \<in> attached e. \<not> pending (sources e s)}"] by (auto simp: turns_left_def)

lemma turns_left_less:
  assumes "loop_ok e" "attached e' = attached e" "\<And>x. ratelimited (sources e' x) \<Longrightarrow> ratelimited (sources e x)"
    "\<And>x. pending (sources e x) \<Longrightarrow> pending (sources e' x)" "s \<in> attached e"
    "ratelimited (sources e s) \<and> \<not> ratelimited (sources e' s) \<or> \<not> pending (sources e s) \<and> pending (sources e' s)"
  shows "turns_left e' < turns_left e"
proof -
  let ?R = "\<lambda>e. {s \<in> attached e. ratelimited (sources e s)}" and ?P = "\<lambda>e. {s \<in> attached e. \<not> pending (sources e s)}"
  note fin = attached_finite [OF assms(1)]
  have sub: "?R e' \<subseteq> ?R e" "?P e' \<subseteq> ?P e" "finite (?R e)" "finite (?P e)" using assms(2-4) fin by auto
  have "?R e' \<subset> ?R e \<or> ?P e' \<subset> ?P e" using sub assms(2,5,6) by auto
  moreover have "card (?R e') \<le> card (?R e)" "card (?P e') \<le> card (?P e)" using sub by (simp_all add: card_mono)
  moreover have "?R e' \<subset> ?R e \<Longrightarrow> card (?R e') < card (?R e)" "?P e' \<subset> ?P e \<Longrightarrow> card (?P e') < card (?P e)"
    using psubset_card_mono [OF sub(3)] psubset_card_mono [OF sub(4)] by blast+
  ultimately show ?thesis unfolding turns_left_def by linarith
qed

definition none_due :: "usec \<Rightarrow> clock \<Rightarrow> event_loop \<Rightarrow> bool" where
  "none_due n c e \<longleftrightarrow> (\<forall>x \<in> members e c. enabled (sources e x) \<noteq> SD_EVENT_OFF \<and> event_source_timer_candidate (sources e x) \<longrightarrow>
     n < next_time (sources e x))"

lemma process_timer_turn:
  fixes k :: kernel
  assumes "loop_ok e" "registry_ok e" "\<not> pid_changed e" "\<And>s f. expire s = Some f \<Longrightarrow> callback_ok f s"
  defines "leave \<equiv> \<lambda>s. event_source_leave_ratelimit k (expire s) s"
  obtains (stop) "process_timer leave ok (Suc fuel) n c called e = Some (Inr (if called then 1 else 0, e))" "none_due n c e"
  | (fail) r e' where "process_timer leave ok (Suc fuel) n c called e = Some (Inr (r, e'))" "r < 0" "loop_ok e'" "registry_ok e'"
  | (turn) called' e' where "process_timer leave ok (Suc fuel) n c called e = process_timer leave ok fuel n c called' e'" "loop_ok e'" "registry_ok e'"
      "\<not> pid_changed e'" "(\<forall>s. expire s = None) \<Longrightarrow> same_loop e e' \<and> turns_left e' < turns_left e \<and> called' = called"
proof -
  let ?M = "members e c"
  have "queue_of (earliest_rank (sources e)) (\<lambda>s. limit_set (sources e s)) (earliest_q (clocks e c)) ?M"
    using clock_okD(1) [OF loop_okD(6) [OF assms(1)]] .
  then show ?thesis
  proof (cases rule: earliest.peeks)
    case empty
    then show ?thesis by (intro stop) (simp_all add: none_due_def)
  next
    case (first s)
    have s: "s \<in> attached e" "limit_set (sources e s)" "event_source_uses_time_prioq (src_type (sources e s))"
      using first(2) clock_okD(3,5) [OF loop_okD(6) [OF assms(1)]] by (auto simp: members_def)
    have due: "none_due n c e" if "enabled (sources e s) = SD_EVENT_OFF \<or> \<not> event_source_timer_candidate (sources e s) \<or> n < next_time (sources e s)"
      unfolding none_due_def
    proof (intro ballI impI)
      fix x assume "x \<in> ?M" "enabled (sources e x) \<noteq> SD_EVENT_OFF \<and> event_source_timer_candidate (sources e x)"
      then show "n < next_time (sources e x)" using earliest_rank_le [OF first(3) [of x]] that by (auto intro: less_le_trans)
    qed
    consider "n < next_time (sources e s)" | "\<not> n < next_time (sources e s)" "ratelimited (sources e s)"
      | "\<not> n < next_time (sources e s)" "\<not> ratelimited (sources e s)" "enabled (sources e s) = SD_EVENT_OFF \<or> pending (sources e s)"
      | "\<not> n < next_time (sources e s)" "\<not> ratelimited (sources e s)" "enabled (sources e s) \<noteq> SD_EVENT_OFF" "\<not> pending (sources e s)" by blast
    then show ?thesis
    proof cases
      case 1
      then show ?thesis using stop due first(1) s(2,3) by (simp add: Let_def)
    next
      case 2
      obtain r e' where r: "event_source_leave_ratelimit k (expire s) s e = Inr (r, e')" "loop_ok e'" "registry_ok e'" "\<not> pid_changed e'"
        "r = 0 \<longrightarrow> same_loop e e' \<and> (if ratelimited (sources e s)
           then \<exists>b. sources e' = (sources e)(s := (sources e s)\<lparr>ratelimited := False, registered := b, rate := ratelimit_reset (rate (sources e s))\<rparr>)
           else e' = e)" "0 < r \<longrightarrow> expire s \<noteq> None"
        by (rule leave_ok [OF assms(1,2) s(1) assms(3), of "expire s" k]) (use assms(4) in auto)
      have run: "process_timer leave ok (Suc fuel) n c called e =
          (if r < 0 then Some (Inr (r, e')) else process_timer leave ok fuel n c (called \<or> r = 1) e')"
        using 2 first(1) s(2,3) r(1) by (simp add: leave_def Let_def)
      show ?thesis
      proof (cases "r < 0")
        case True
        then show ?thesis using fail run r(2,3) by simp
      next
        case False
        have "same_loop e e' \<and> turns_left e' < turns_left e \<and> (called \<or> r = 1) = called" if "\<forall>s. expire s = None"
        proof -
          have "r = 0" using that r(6) False by simp
          then obtain b where b: "same_loop e e'"
            "sources e' = (sources e)(s := (sources e s)\<lparr>ratelimited := False, registered := b, rate := ratelimit_reset (rate (sources e s))\<rparr>)"
            using r(5) 2(2) by auto
          have "turns_left e' < turns_left e"
            by (rule turns_left_less [OF assms(1) same_loopD(1) [OF b(1)] _ _ s(1)]) (use b(2) 2(2) in \<open>auto split: if_splits\<close>)
          then show ?thesis using b(1) \<open>r = 0\<close> by simp
        qed
        then show ?thesis using turn [of "called \<or> r = 1" e'] run False r(2-4) by simp
      qed
    next
      case 3
      then show ?thesis using stop due first(1) s(2,3) by (auto simp: Let_def event_source_timer_candidate_def)
    next
      case 4
      have type: "event_source_is_time (src_type (sources e s))" "src_type (sources e s) \<noteq> SOURCE_EXIT"
        using first(2) 4(2) time_has_clock [of "src_type (sources e s)"] by (auto simp: members_def clock_of_def event_source_is_time_def)
      have run: "process_timer leave ok (Suc fuel) n c called e = (case source_set_pending (ok fuel) s True e of
          Inl err \<Rightarrow> Some (Inl err)
        | Inr (r, e) \<Rightarrow> if r < 0 then Some (Inr (r, e))
            else (case event_source_time_prioq_reshuffle s e of Inl err \<Rightarrow> Some (Inl err)
                  | Inr e \<Rightarrow> process_timer leave ok fuel n c called e))"
        using first(1) s(2,3) 4 by (simp add: Let_def)
      from mark_one [OF assms(1) s(1) type(2) 4(4), of "ok fuel"] show ?thesis
      proof (elim disjE exE conjE)
        fix r e1 e' assume m: "source_set_pending (ok fuel) s True e = Inr (r, e1)" "0 \<le> r" "event_source_time_prioq_reshuffle s e1 = Inr e'"
          "loop_ok e'" "same_loop e e'" "sources e' = (sources e)(s := (sources e s)\<lparr>pending := True, pending_iteration := iteration e\<rparr>)"
        have "turns_left e' < turns_left e"
          by (rule turns_left_less [OF assms(1) same_loopD(1) [OF m(5)] _ _ s(1)]) (use m(6) 4(4) in \<open>auto split: if_splits\<close>)
        moreover have "registry_ok e'" by (rule registry_same [OF assms(2) m(5)]) (simp_all add: m(6))
        ultimately show ?thesis using turn [of called e'] run m assms(3) same_loopD(4) [OF m(5)] by simp
      next
        fix e' assume m: "source_set_pending (ok fuel) s True e = Inr (- ENOMEM, e')" "\<not> ok fuel" "loop_ok e'" "same_loop e e'"
        have "sources e' = (sources e)(s := (sources e s)\<lparr>pending_iteration := iteration e\<rparr>)"
          using set_pending_ok [OF assms(1) s(1) type(2), of "ok fuel" True] m(1) by (auto simp: ENOMEM_def)
        then have "registry_ok e'" by (intro registry_same [OF assms(2) m(4)]) simp_all
        then show ?thesis using fail run m by (simp add: ENOMEM_def)
      qed
    qed
  qed
qed

lemma process_timer_in_order:
  fixes k :: kernel
  assumes "loop_ok e" "registry_ok e" "\<not> pid_changed e" "\<And>s f. expire s = Some f \<Longrightarrow> callback_ok f s"
  defines "leave \<equiv> \<lambda>s. event_source_leave_ratelimit k (expire s) s"
  shows "case process_timer leave ok fuel n c called e of
      None \<Rightarrow> (\<exists>s. expire s \<noteq> None) \<or> fuel \<le> turns_left e
    | Some (Inl _) \<Rightarrow> False
    | Some (Inr (r, e')) \<Rightarrow> loop_ok e' \<and> registry_ok e' \<and> (0 \<le> r \<longrightarrow> none_due n c e')"
  using assms(1-3)
proof (induction fuel arbitrary: called e)
  case (Suc fuel)
  show ?case
  proof (rule process_timer_turn [where expire = expire and ok = ok and fuel = fuel and n = n and c = c and called = called and k = k,
      OF Suc.prems assms(4), folded leave_def])
    fix called' e' assume t: "process_timer leave ok (Suc fuel) n c called e = process_timer leave ok fuel n c called' e'" "loop_ok e'" "registry_ok e'"
      "\<not> pid_changed e'" "(\<forall>s. expire s = None) \<Longrightarrow> same_loop e e' \<and> turns_left e' < turns_left e \<and> called' = called"
    have less: "(\<exists>s. expire s \<noteq> None) \<or> Suc fuel \<le> turns_left e" if "(\<exists>s. expire s \<noteq> None) \<or> fuel \<le> turns_left e'"
    proof (cases "\<forall>s. expire s = None")
      case True
      then show ?thesis using t(5) [OF True] that by simp
    next
      case False
      then show ?thesis by blast
    qed
    show ?case using Suc.IH [OF t(2-4), of called'] less unfolding t(1) by (cases "process_timer leave ok fuel n c called' e'") (simp_all only: option.case)
  qed (use Suc.prems in \<open>simp_all del: process_timer.simps\<close>)
qed simp

text \<open>
  C16. \<open>process_timer\<close> with rate limits, whatever the expire callbacks do as long as they leave the loop in order (\<open>callback_ok\<close>): it never fails an assertion and leaves the event loop in order; when it
  returns no error, no enabled source of the clock that waits for its time or for the end of its limit is due any more. Without
  expire callbacks it ends: twice the number of sources, plus one, is enough turns.
\<close>

theorem process_timer_leaves_none_due:
  assumes "loop_ok e" "registry_ok e" "\<not> pid_changed e" "\<And>s f. expire s = Some f \<Longrightarrow> callback_ok f s"
  shows "case process_timer_limits k expire ok fuel n c e of
      None \<Rightarrow> (\<exists>s. expire s \<noteq> None) \<or> fuel \<le> 2 * card (attached e)
    | Some (Inl _) \<Rightarrow> False
    | Some (Inr (r, e')) \<Rightarrow> loop_ok e' \<and> registry_ok e' \<and> (0 \<le> r \<longrightarrow> none_due n c e')"
proof -
  note turns_left_le [OF assms(1)]
  moreover have "case process_timer_limits k expire ok fuel n c e of
      None \<Rightarrow> (\<exists>s. expire s \<noteq> None) \<or> fuel \<le> turns_left e
    | Some (Inl _) \<Rightarrow> False
    | Some (Inr (r, e')) \<Rightarrow> loop_ok e' \<and> registry_ok e' \<and> (0 \<le> r \<longrightarrow> none_due n c e')"
    unfolding process_timer_limits_def by (rule process_timer_in_order [OF assms(1-3)]) (rule assms(4))
  ultimately show ?thesis by (cases "process_timer_limits k expire ok fuel n c e") auto
qed

theorem process_timer_leaves_none_due_witness:
  "case process_timer_limits demo_kernel (\<lambda>s. Some (drops_itself s)) (\<lambda>_. True) 3 20 CLOCK_MONOTONIC limited_loop of
      None \<Rightarrow> (\<exists>s :: nat. Some (drops_itself s) \<noteq> None) \<or> 3 \<le> 2 * card (attached limited_loop)
    | Some (Inl _) \<Rightarrow> False
    | Some (Inr (r, e')) \<Rightarrow> loop_ok e' \<and> registry_ok e' \<and> (0 \<le> r \<longrightarrow> none_due 20 CLOCK_MONOTONIC e')"
proof (rule process_timer_leaves_none_due [OF limited_loop_ok limited_registry_ok])
  show "callback_ok f s" if "Some (drops_itself s) = Some f" for s f using that drops_itself_ok by auto
qed (simp add: limited_fields)

end
