(* ===== verification/EventDispatch.thy ===== *)
theory EventDispatch
  imports EventLimits
begin

text \<open>
  Dispatching one event (\<open>sd-event.c\<close>). \<open>ts\<close> is the monotonic time, \<open>cbs\<close> the callbacks of the sources, \<open>order\<close> the order in which the
  post sources are gone through; \<open>ok\<close> tells for each of them whether there is memory to make it pending. The buffers of the
  inotify events, and reaping the child of a child source, are not in the state.
\<close>

section \<open>The operations\<close>

fun mark_post :: "(nat \<Rightarrow> bool) \<Rightarrow> nat list \<Rightarrow> event_loop \<Rightarrow> (int \<times> event_loop) res" where \<comment> \<open>\<open>SET_FOREACH(z, s->event->post_sources)\<close>\<close>
  "mark_post ok [] e = Inr (0, e)"
| "mark_post ok (z # zs) e =
     (if event_source_is_offline (sources e z) then mark_post ok zs e
      else rbind (source_set_pending (ok z) z True e) (\<lambda>(r, e). if r < 0 then Inr (r, e) else mark_post ok zs e))"

definition before_callback :: "kernel \<Rightarrow> (nat \<Rightarrow> bool) \<Rightarrow> nat list \<Rightarrow> nat \<Rightarrow> event_loop \<Rightarrow> (int \<times> event_loop) res" where
  "before_callback k ok order s e =
     rbind (if src_type (sources e s) \<in> {SOURCE_DEFER, SOURCE_EXIT} then Inr (0, e) else source_set_pending True s False e) (\<lambda>(r, e).
     if r < 0 then Inr (r, e)
     else
      rbind (if src_type (sources e s) = SOURCE_POST then Inr (0, e) else mark_post ok order e) (\<lambda>(r, e).
      if r < 0 then Inr (r, e)
      else if enabled (sources e s) = SD_EVENT_ONESHOT then sd_event_source_set_enabled k (Some s) SD_EVENT_OFF e
      else Inr (0, e)))"

definition source_dispatch ::
  "kernel \<Rightarrow> usec \<Rightarrow> (nat \<Rightarrow> bool) \<Rightarrow> nat list \<Rightarrow> (nat \<Rightarrow> event_loop \<Rightarrow> int \<times> event_loop) \<Rightarrow> nat \<Rightarrow> event_loop \<Rightarrow> (int \<times> event_loop) res" where
  "source_dispatch k ts ok order cbs s e =
     rbind (rassert (pending (sources e s) \<or> src_type (sources e s) = SOURCE_EXIT) AssertFail) (\<lambda>_.
     rbind (rassert (\<not> ratelimited (sources e s)) AssertFail) (\<lambda>_.
     let (below, l) = ratelimit_below ts (rate (sources e s)); e = with_source s (\<lambda>x. x\<lparr>rate := l\<rparr>) e in
     if \<not> below then rbind (event_source_enter_ratelimited k s e) (\<lambda>(r, e). Inr (if r < 0 then (r, e) else (1, e)))
     else
      rbind (before_callback k ok order s e) (\<lambda>(r, e).
      if r < 0 then Inr (r, e)
      else
       rbind (rassert (src_type (sources e s) \<noteq> SOURCE_WATCHDOG) AssertFail) (\<lambda>_.
       let (r, e) = run_callback (cbs s) s e in
       rbind (after_callback k True s r e) (\<lambda>e. Inr (1, e))))))"

definition dispatch_exit ::
  "kernel \<Rightarrow> usec \<Rightarrow> (nat \<Rightarrow> bool) \<Rightarrow> nat list \<Rightarrow> (nat \<Rightarrow> event_loop \<Rightarrow> int \<times> event_loop) \<Rightarrow> event_loop \<Rightarrow> (int \<times> event_loop) res" where
  "dispatch_exit k ts ok order cbs e = (case prioq_peek (exit_q e) of
       None \<Rightarrow> Inr (0, e\<lparr>state := SD_EVENT_FINISHED\<rparr>)
     | Some p \<Rightarrow>
         rbind (rassert (src_type (sources e p) = SOURCE_EXIT) AssertFail) (\<lambda>_.
         if event_source_is_offline (sources e p) then Inr (0, e\<lparr>state := SD_EVENT_FINISHED\<rparr>)
         else
          rbind (source_dispatch k ts ok order cbs p (e\<lparr>iteration := iteration e + 1, state := SD_EVENT_EXITING\<rparr>)) (\<lambda>(r, e).
          Inr (r, e\<lparr>state := SD_EVENT_INITIAL\<rparr>))))"

definition sd_event_dispatch ::
  "kernel \<Rightarrow> usec \<Rightarrow> (nat \<Rightarrow> bool) \<Rightarrow> nat list \<Rightarrow> (nat \<Rightarrow> event_loop \<Rightarrow> int \<times> event_loop) \<Rightarrow> event_loop \<Rightarrow> (int \<times> event_loop) res" where
  "sd_event_dispatch k ts ok order cbs e =
     (if pid_changed e then Inr (- ECHILD, e)
      else if finished e then Inr (- ESTALE, e)
      else if state e \<noteq> SD_EVENT_PENDING then Inr (- EBUSY, e)
      else if exit_requested e then dispatch_exit k ts ok order cbs e
      else
       (case event_next_pending e of
          None \<Rightarrow> Inr (1, e\<lparr>state := SD_EVENT_INITIAL\<rparr>)
        | Some p \<Rightarrow>
            rbind (source_dispatch k ts ok order cbs p (e\<lparr>state := SD_EVENT_RUNNING\<rparr>)) (\<lambda>(r, e). Inr (r, e\<lparr>state := SD_EVENT_INITIAL\<rparr>))))"

section \<open>Before the callback\<close>

lemma marked_again [simp]: "marked True k (marked True k x) = marked True k x"
  by (simp add: marked_def)

lemma marked_online [simp]: "event_source_is_online (marked b k x) = event_source_is_online x"
  by (simp add: event_source_is_online_def)

definition posted :: "nat set \<Rightarrow> event_loop \<Rightarrow> sources" where \<comment> \<open>the post sources that are online are pending\<close>
  "posted Z e x = (if x \<in> Z \<and> event_source_is_online (sources e x) then marked True (iteration e) (sources e x) else sources e x)"

lemma mark_post_ok:
  assumes "loop_ok e" "\<forall>z \<in> set zs. z \<in> attached e \<and> src_type (sources e z) = SOURCE_POST"
  obtains r e' where "mark_post ok zs e = Inr (r, e')" "loop_ok e'" "same_loop e e'" "r \<le> 0" "r = 0 \<longrightarrow> sources e' = posted (set zs) e"
    "r < 0 \<longrightarrow> (\<exists>z \<in> set zs. \<not> ok z)" "\<forall>x. \<exists>p i. sources e' x = (sources e x)\<lparr>pending := p, pending_iteration := i\<rparr>" "\<forall>x. x \<notin> set zs \<longrightarrow> sources e' x = sources e x"
proof -
  have same: "\<exists>p i. x = x\<lparr>pending := p, pending_iteration := i\<rparr>" for x :: event_source
    by (rule exI [of _ "pending x"], rule exI [of _ "pending_iteration x"]) simp
  have later: "\<exists>p i. x\<lparr>pending_iteration := j\<rparr> = x\<lparr>pending := p, pending_iteration := i\<rparr>" for x :: event_source and j
    by (rule exI [of _ "pending x"], rule exI [of _ j]) simp
  have marks: "\<exists>p i. marked True j x = x\<lparr>pending := p, pending_iteration := i\<rparr>" for x :: event_source and j
    using same [of x] by (cases "pending x") (simp_all add: marked_def, blast)
  have two: "x\<lparr>pending := p, pending_iteration := i\<rparr>\<lparr>pending := p', pending_iteration := i'\<rparr> = x\<lparr>pending := p', pending_iteration := i'\<rparr>"
    for x :: event_source and p p' i i' by (cases x) simp
  have "\<exists>r e'. mark_post ok zs e = Inr (r, e') \<and> loop_ok e' \<and> same_loop e e' \<and> r \<le> 0 \<and> (r = 0 \<longrightarrow> sources e' = posted (set zs) e) \<and>
    (r < 0 \<longrightarrow> (\<exists>z \<in> set zs. \<not> ok z)) \<and> (\<forall>x. \<exists>p i. sources e' x = (sources e x)\<lparr>pending := p, pending_iteration := i\<rparr>) \<and>
    (\<forall>x. x \<notin> set zs \<longrightarrow> sources e' x = sources e x)"
    using assms
  proof (induction zs arbitrary: e)
    case Nil
    then show ?case using same by (auto simp: posted_def fun_eq_iff)
  next
    case (Cons z zs)
    have z: "z \<in> attached e" "src_type (sources e z) = SOURCE_POST" using Cons.prems(2) by simp_all
    show ?case
    proof (cases "event_source_is_online (sources e z)")
      case False
      have "posted (set (z # zs)) e = posted (set zs) e" using False by (auto simp: posted_def fun_eq_iff)
      then show ?thesis using Cons.IH [OF Cons.prems(1)] Cons.prems(2) False by simp metis
    next
      case True
      have ne: "src_type (sources e z) \<noteq> SOURCE_EXIT" using z(2) by simp
      obtain r e1 where r: "source_set_pending (ok z) z True e = Inr (r, e1)" "loop_ok e1" "same_loop e e1"
        "0 \<le> r \<and> sources e1 = (sources e)(z := marked True (iteration e) (sources e z)) \<or>
         True \<and> \<not> ok z \<and> r = - ENOMEM \<and> sources e1 = (sources e)(z := (sources e z)\<lparr>pending_iteration := iteration e\<rparr>)"
        using set_pending_ok [OF Cons.prems(1) z(1) ne, of "ok z" True] by blast
      show ?thesis
      proof (cases "0 \<le> r")
        case True
        then have src: "sources e1 = (sources e)(z := marked True (iteration e) (sources e z))" using r(4) by (auto simp: ENOMEM_def)
        have "\<forall>y \<in> set zs. y \<in> attached e1 \<and> src_type (sources e1 y) = SOURCE_POST"
          using Cons.prems(2) same_loopD(1) [OF r(3)] src z(2) by simp
        from Cons.IH [OF r(2) this] obtain r' e2 where e2: "mark_post ok zs e1 = Inr (r', e2)" "loop_ok e2" "same_loop e1 e2" "r' \<le> 0"
          "r' = 0 \<longrightarrow> sources e2 = posted (set zs) e1" "r' < 0 \<longrightarrow> (\<exists>z \<in> set zs. \<not> ok z)"
          "\<forall>x. \<exists>p i. sources e2 x = (sources e1 x)\<lparr>pending := p, pending_iteration := i\<rparr>" "\<forall>x. x \<notin> set zs \<longrightarrow> sources e2 x = sources e1 x" by blast
        have "posted (set zs) e1 = posted (set (z # zs)) e"
          using \<open>event_source_is_online (sources e z)\<close> same_loopD(2) [OF r(3)] by (auto simp: posted_def src fun_eq_iff)
        moreover have "mark_post ok (z # zs) e = Inr (r', e2)" using True r(1) e2(1) \<open>event_source_is_online (sources e z)\<close> by simp
        moreover have "\<exists>p i. sources e1 x = (sources e x)\<lparr>pending := p, pending_iteration := i\<rparr>" for x
          using same [of "sources e x"] marks by (cases "x = z") (simp_all add: src)
        then have "\<exists>p i. sources e2 x = (sources e x)\<lparr>pending := p, pending_iteration := i\<rparr>" for x
          using e2(7) by (metis two)
        ultimately show ?thesis using e2(2-6,8) same_loop_trans [OF r(3) e2(3)] src by (intro exI [of _ r'] exI [of _ e2]) auto
      next
        case False
        then have f: "\<not> ok z" "r = - ENOMEM" "sources e1 = (sources e)(z := (sources e z)\<lparr>pending_iteration := iteration e\<rparr>)" using r(4) by auto
        have "mark_post ok (z # zs) e = Inr (r, e1)" using False r(1) True by simp
        moreover have "\<exists>p i. sources e1 x = (sources e x)\<lparr>pending := p, pending_iteration := i\<rparr>" for x
          using same [of "sources e x"] later by (cases "x = z") (simp_all add: f(3))
        ultimately show ?thesis using r(2,3) f False by (intro exI [of _ r] exI [of _ e1]) auto
      qed
    qed
  qed
  then show ?thesis using that by blast
qed

lemma before_callback_ok:
  assumes "loop_ok e" "registry_ok e" "s \<in> attached e" "\<not> pid_changed e" "\<not> finished e" "set order = post_sources e"
  obtains r e' where "before_callback k ok order s e = Inr (r, e')" "r < 0" "loop_ok e'" "registry_ok e'" "same_loop e e'" "\<exists>z. \<not> ok z"
  | e' where "before_callback k ok order s e = Inr (0, e')" "loop_ok e'" "registry_ok e'" "same_loop e e'"
      "src_type (sources e' s) = src_type (sources e s)" "enabled (sources e' s) = (if enabled (sources e s) = SD_EVENT_ONESHOT then SD_EVENT_OFF else enabled (sources e s))"
      "src_type (sources e s) \<notin> {SOURCE_DEFER, SOURCE_EXIT} \<longrightarrow> \<not> pending (sources e' s)"
      "\<forall>x. x \<noteq> s \<longrightarrow> sources e' x = posted (if src_type (sources e s) = SOURCE_POST then {} else post_sources e) e x"
proof -
  let ?x = "sources e s" and ?D = "{SOURCE_DEFER, SOURCE_EXIT}" and ?Z = "if src_type (sources e s) = SOURCE_POST then {} else post_sources e"
  obtain r1 e1 where e1: "(if src_type ?x \<in> ?D then Inr (0, e) else source_set_pending True s False e) = Inr (r1, e1)" "0 \<le> r1" "loop_ok e1" "same_loop e e1"
    "sources e1 = (if src_type ?x \<in> ?D then sources e else (sources e)(s := marked False (iteration e) ?x))"
  proof (cases "src_type ?x \<in> ?D")
    case True
    then show ?thesis using that [of 0 e] assms(1) by simp
  next
    case False
    then have "src_type ?x \<noteq> SOURCE_EXIT" by simp
    from set_pending_ok [OF assms(1,3) this, of True False] False that show ?thesis by auto
  qed
  have s1: "src_type (sources e1 x) = src_type (sources e x)" "enabled (sources e1 x) = enabled (sources e x)" "event_source_is_online (sources e1 x) = event_source_is_online (sources e x)"
    "limit_interval (sources e1 x) = limit_interval (sources e x)" "signal_no (sources e1 x) = signal_no (sources e x)" for x
    using e1(5) by (auto simp: marked_def event_source_is_online_def split: if_splits)
  have reg1: "registry_ok e1" by (rule registry_same [OF assms(2) e1(4)]) (simp_all add: s1)
  obtain r2 e2 where e2: "(if src_type (sources e1 s) = SOURCE_POST then Inr (0, e1) else mark_post ok order e1) = Inr (r2, e2)" "loop_ok e2" "same_loop e1 e2"
    "r2 \<le> 0" "r2 = 0 \<longrightarrow> sources e2 = posted ?Z e1" "r2 < 0 \<longrightarrow> (\<exists>z. \<not> ok z)"
    "\<forall>x. \<exists>p i. sources e2 x = (sources e1 x)\<lparr>pending := p, pending_iteration := i\<rparr>" "sources e2 s = sources e1 s"
  proof (cases "src_type ?x = SOURCE_POST")
    case True
    have same1: "\<exists>p i. x = x\<lparr>pending := p, pending_iteration := i\<rparr>" for x :: event_source
      by (rule exI [of _ "pending x"], rule exI [of _ "pending_iteration x"]) simp
    have same: "\<forall>x. \<exists>p i. sources e1 x = (sources e1 x)\<lparr>pending := p, pending_iteration := i\<rparr>" by (rule allI) (rule same1)
    have none: "posted {} e1 = sources e1" by (simp add: posted_def fun_eq_iff)
    show ?thesis by (rule that [of 0 e1, OF _ e1(3) _ _ _ _ same]) (use True s1 none in simp_all)
  next
    case False
    have post: "post_sources e1 = set order" using same_loopD(10) [OF e1(4)] assms(6) by simp
    have s: "s \<notin> set order" using registryD(2) [OF reg1, of s] post False s1 by auto
    have "\<forall>z \<in> set order. z \<in> attached e1 \<and> src_type (sources e1 z) = SOURCE_POST" using registryD(1,2) [OF reg1] post by simp
    then obtain r e2 where "mark_post ok order e1 = Inr (r, e2)" "loop_ok e2" "same_loop e1 e2" "r \<le> 0" "r = 0 \<longrightarrow> sources e2 = posted (set order) e1"
      "r < 0 \<longrightarrow> (\<exists>z \<in> set order. \<not> ok z)" "\<forall>x. \<exists>p i. sources e2 x = (sources e1 x)\<lparr>pending := p, pending_iteration := i\<rparr>"
      "\<forall>x. x \<notin> set order \<longrightarrow> sources e2 x = sources e1 x" by (rule mark_post_ok [OF e1(3), of order ok])
    then show ?thesis by (intro that [of r e2]) (use False s s1 assms(6) in auto)
  qed
  have s2: "src_type (sources e2 x) = src_type (sources e x)" "enabled (sources e2 x) = enabled (sources e x)"
    "limit_interval (sources e2 x) = limit_interval (sources e x)" "signal_no (sources e2 x) = signal_no (sources e x)" for x
  proof -
    obtain p i where "sources e2 x = (sources e1 x)\<lparr>pending := p, pending_iteration := i\<rparr>" using e2(7) by blast
    then show "src_type (sources e2 x) = src_type (sources e x)" "enabled (sources e2 x) = enabled (sources e x)"
      "limit_interval (sources e2 x) = limit_interval (sources e x)" "signal_no (sources e2 x) = signal_no (sources e x)" by (simp_all add: s1)
  qed
  have same: "same_loop e e2" using same_loop_trans [OF e1(4) e2(3)] .
  have reg2: "registry_ok e2" by (rule registry_same [OF assms(2) same]) (simp_all add: s2)
  have others: "\<forall>x. x \<noteq> s \<longrightarrow> sources e2 x = posted ?Z e x" if "r2 = 0"
    using e2(5) that e1(5) same_loopD(2) [OF e1(4)] by (simp add: posted_def)
  have clear: "src_type ?x \<notin> ?D \<longrightarrow> \<not> pending (sources e2 s)" using e2(8) e1(5) by simp
  let ?run = "if enabled (sources e2 s) = SD_EVENT_ONESHOT then sd_event_source_set_enabled k (Some s) SD_EVENT_OFF e2 else Inr (0, e2)"
  have run: "before_callback k ok order s e = (if r2 < 0 then Inr (r2, e2) else ?run)"
    unfolding before_callback_def e1(1) rbind_simps using e1(2) e2(1) by simp
  consider "r2 < 0" | "r2 = 0" "enabled ?x \<noteq> SD_EVENT_ONESHOT" | "r2 = 0" "enabled ?x = SD_EVENT_ONESHOT" using e2(4) by linarith
  then show ?thesis
  proof cases
    case 1
    show ?thesis by (rule that(1) [of r2 e2]) (use 1 run e2(2,6) reg2 same in auto)
  next
    case 2
    show ?thesis by (rule that(2) [of e2]) (use 2 run e2(2) reg2 same s2 clear others in simp_all)
  next
    case 3
    have e: "s \<in> attached e2" "\<not> finished e2" "\<not> pid_changed e2" using same_loopD(1,3,4) [OF same] assms(3-5) by simp_all
    from set_enabled_ok [OF e2(2) e, of SD_EVENT_OFF k] obtain e3 p b where e3: "sd_event_source_set_enabled k (Some s) SD_EVENT_OFF e2 = Inr (0, e3)"
      "loop_ok e3" "same_loop e2 e3" "sources e3 = (sources e2)(s := (sources e2 s)\<lparr>pending := p, enabled := SD_EVENT_OFF, registered := b\<rparr>)"
      "p \<longrightarrow> pending (sources e2 s)" by auto
    have "registry_ok e3" by (rule registry_same [OF reg2 e3(3)]) (simp_all add: e3(4))
    moreover have "src_type ?x \<notin> ?D \<longrightarrow> \<not> p" using e3(5) clear by blast
    ultimately show ?thesis
      by (intro that(2) [of e3]) (use 3 run e3 same_loop_trans [OF same e3(3)] s2 clear others in simp_all)
  qed
qed

section \<open>The dispatch\<close>

definition dispatchable :: "nat \<Rightarrow> nat list \<Rightarrow> event_loop \<Rightarrow> bool" where
  "dispatchable s order e \<longleftrightarrow> s \<in> attached e \<and> (pending (sources e s) \<or> src_type (sources e s) = SOURCE_EXIT) \<and> \<not> ratelimited (sources e s) \<and>
     \<not> pid_changed e \<and> \<not> finished e \<and> set order = post_sources e"

definition called_in_order :: "nat \<Rightarrow> event_loop \<Rightarrow> event_loop \<Rightarrow> bool" where
  \<comment> \<open>how the callback of \<open>s\<close> finds the loop that was \<open>e\<close>\<close>
  "called_in_order s e e' \<longleftrightarrow> loop_ok e' \<and> registry_ok e' \<and> same_loop e e' \<and>
     enabled (sources e' s) = (if enabled (sources e s) = SD_EVENT_ONESHOT then SD_EVENT_OFF else enabled (sources e s)) \<and>
     (src_type (sources e s) \<notin> {SOURCE_DEFER, SOURCE_EXIT} \<longrightarrow> \<not> pending (sources e' s)) \<and>
     (\<forall>x. x \<noteq> s \<longrightarrow> sources e' x = posted (if src_type (sources e s) = SOURCE_POST then {} else post_sources e) e x)"

lemma dispatch_cases:
  assumes "loop_ok e" "registry_ok e" "dispatchable s order e"
  obtains (limit) r e' where "\<not> fst (ratelimit_below ts (rate (sources e s)))" "source_dispatch k ts ok order cbs s e = Inr (r, e')" "loop_ok e'" "registry_ok e'"
      "same_loop e e'" "r = 1 \<and> ratelimited (sources e' s) \<or> r < 0 \<and> \<not> ratelimited (sources e' s)" "pending (sources e' s) = pending (sources e s)"
  | (memory) r e' where "fst (ratelimit_below ts (rate (sources e s)))" "source_dispatch k ts ok order cbs s e = Inr (r, e')" "r < 0" "loop_ok e'"
      "registry_ok e'" "same_loop e e'" "\<exists>z. \<not> ok z"
  | (called) e1 where "fst (ratelimit_below ts (rate (sources e s)))" "called_in_order s e e1" "s \<in> attached e1"
      "source_dispatch k ts ok order cbs s e = (let (r, e2) = run_callback (cbs s) s e1 in rbind (after_callback k True s r e2) (\<lambda>e'. Inr (1, e')))"
proof -
  let ?x = "sources e s"
  have d: "s \<in> attached e" "pending ?x \<or> src_type ?x = SOURCE_EXIT" "\<not> ratelimited ?x" "\<not> pid_changed e" "\<not> finished e" "set order = post_sources e"
    using assms(3) by (simp_all add: dispatchable_def)
  obtain below l where bl: "ratelimit_below ts (rate ?x) = (below, l)" by fastforce
  let ?e = "with_source s (\<lambda>x. x\<lparr>rate := l\<rparr>) e"
  have l: "rl_interval l = limit_interval ?x" using ratelimit_below_keeps(1) [of ts "rate ?x"] bl by simp
  have e: "loop_ok ?e" "registry_ok ?e" "same_loop e ?e"
    using rate_change_ok [OF assms(1) d(1,3), of "\<lambda>_. l"] by (simp_all add: same_loop_def registry_same [OF assms(2)] l)
  have run: "source_dispatch k ts ok order cbs s e =
     (if \<not> below then rbind (event_source_enter_ratelimited k s ?e) (\<lambda>(r, e). Inr (if r < 0 then (r, e) else (1, e)))
      else rbind (before_callback k ok order s ?e) (\<lambda>(r, e). if r < 0 then Inr (r, e) else
        rbind (rassert (src_type (sources e s) \<noteq> SOURCE_WATCHDOG) AssertFail) (\<lambda>_.
        let (r, e) = run_callback (cbs s) s e in rbind (after_callback k True s r e) (\<lambda>e. Inr (1, e)))))"
    using d(2,3) bl by (simp add: source_dispatch_def)
  show ?thesis
  proof (cases below)
    case False
    note refused = ratelimit_refusal [of ts "rate ?x" l]
    have lim: "limit_begin (sources ?e s) \<noteq> 0" "limit_interval (sources ?e s) \<noteq> 0" using refused bl False by simp_all
    have can: "event_source_can_rate_limit (src_type (sources ?e s))" using registryD(8) [OF e(2), of s] lim(2) d(1) by simp
    have at: "s \<in> attached ?e" "\<not> ratelimited (sources ?e s)" using d(1,3) by simp_all
    from enter_limit_ok [OF e(1) at can lim, of k] obtain r e' where r: "event_source_enter_ratelimited k s ?e = Inr (r, e')" "loop_ok e'" "same_loop ?e e'"
      "r = 0 \<and> (\<exists>b. sources e' = (sources ?e)(s := (sources ?e s)\<lparr>ratelimited := True, registered := b\<rparr>)) \<or> r < 0 \<and> sources e' = sources ?e" by blast
    have "registry_ok e'" by (rule registry_same [OF e(2) r(3)]) (use r(4) in auto)
    moreover have "same_loop e e'" using same_loop_trans [OF e(3) r(3)] .
    moreover have "r = 0 \<or> r < 0" "pending (sources e' s) = pending ?x" "ratelimited (sources e' s) = (r = 0)" using r(4) d(3) by auto
    ultimately show ?thesis using limit [of "if r < 0 then r else 1" e'] run r(1,2) bl False by auto
  next
    case True
    have pre: "s \<in> attached ?e" "\<not> pid_changed ?e" "\<not> finished ?e" "set order = post_sources ?e" using d by simp_all
    show ?thesis
    proof (rule before_callback_ok [OF e(1,2) pre, of k ok])
      fix r e' assume "before_callback k ok order s ?e = Inr (r, e')" "r < 0" "loop_ok e'" "registry_ok e'" "same_loop ?e e'" "\<exists>z. \<not> ok z"
      then show ?thesis using memory [of r e'] run bl True same_loop_trans [OF e(3)] by simp
    next
      fix e1 assume b: "before_callback k ok order s ?e = Inr (0, e1)" "loop_ok e1" "registry_ok e1" "same_loop ?e e1" "src_type (sources e1 s) = src_type (sources ?e s)"
        "enabled (sources e1 s) = (if enabled (sources ?e s) = SD_EVENT_ONESHOT then SD_EVENT_OFF else enabled (sources ?e s))"
        "src_type (sources ?e s) \<notin> {SOURCE_DEFER, SOURCE_EXIT} \<longrightarrow> \<not> pending (sources e1 s)"
        "\<forall>x. x \<noteq> s \<longrightarrow> sources e1 x = posted (if src_type (sources ?e s) = SOURCE_POST then {} else post_sources ?e) ?e x"
      have at: "s \<in> attached e1" using same_loopD(1) [OF b(4)] d(1) by simp
      have "called_in_order s e e1"
        using b(2,3,6-8) same_loop_trans [OF e(3) b(4)] unfolding called_in_order_def by (simp add: posted_def)
      moreover have "src_type (sources e1 s) \<noteq> SOURCE_WATCHDOG" using source_okD(3) [OF loop_okD(11) [OF b(2) at]] .
      then have "source_dispatch k ts ok order cbs s e = (let (r, e2) = run_callback (cbs s) s e1 in rbind (after_callback k True s r e2) (\<lambda>e'. Inr (1, e')))"
        using run b(1) bl True by simp
      ultimately show ?thesis using called [of e1] at bl True by simp
    qed
  qed
qed

lemma dispatch_ok:
  assumes "loop_ok e" "registry_ok e" "dispatchable s order e" "callback_ok (cbs s) s"
  obtains r e' where "source_dispatch k ts ok order cbs s e = Inr (r, e')" "loop_ok e'" "registry_ok e'" "\<not> pid_changed e'" "r = 1 \<or> r < 0"
proof -
  have pid: "\<not> pid_changed e" using assms(3) by (simp add: dispatchable_def)
  from assms(1-3) show ?thesis
  proof (cases rule: dispatch_cases [where ts = ts and k = k and ok = ok and cbs = cbs])
    case (limit r e')
    then show ?thesis using that [of r e'] pid same_loopD(4) [of e e'] by auto
  next
    case (memory r e')
    then show ?thesis using that [of r e'] pid same_loopD(4) [of e e'] by auto
  next
    case (called e1)
    then have e1: "loop_ok e1" "registry_ok e1" "s \<in> attached e1" "\<not> pid_changed e1" using pid same_loopD(4) [of e e1] by (simp_all add: called_in_order_def)
    obtain r e2 e3 where "run_callback (cbs s) s e1 = (r, e2)" "after_callback k True s r e2 = Inr e3" "loop_ok e3" "registry_ok e3" "\<not> pid_changed e3"
      by (rule run_callback_ok [OF e1 assms(4), of k True])
    then show ?thesis using that [of 1 e3] called(4) by simp
  qed
qed

text \<open>
  C7. Dispatching a source whose rate limit is not used up calls its callback once, with the event loop in order, the source no longer pending (but for defer and exit
  sources), disabled if it was to fire once, and every post source that is online pending, unless it is a post source itself; what the callback returned decides
  what follows. The callback has to leave the event loop in order (\<open>callback_ok\<close>). Only when memory is short for a post source it returns an error first. A source that has used up its limit is not called: it becomes rate limited,
  or if that fails it keeps waiting.
\<close>

theorem dispatch_calls_once:
  assumes "loop_ok e" "registry_ok e" "dispatchable s order e" "callback_ok (cbs s) s"
  shows "\<exists>r e'. source_dispatch k ts ok order cbs s e = Inr (r, e') \<and> loop_ok e' \<and> registry_ok e' \<and>
    (if fst (ratelimit_below ts (rate (sources e s)))
     then r < 0 \<and> (\<exists>z. \<not> ok z) \<or>
       r = 1 \<and> (\<exists>e1 c e2. called_in_order s e e1 \<and> run_callback (cbs s) s e1 = (c, e2) \<and> after_callback k True s c e2 = Inr e')
     else pending (sources e' s) = pending (sources e s) \<and> (r = 1 \<and> ratelimited (sources e' s) \<or> r < 0 \<and> \<not> ratelimited (sources e' s)))"
  using assms(1-3)
proof (cases rule: dispatch_cases [where ts = ts and k = k and ok = ok and cbs = cbs])
  case (called e1)
  have e1: "loop_ok e1" "registry_ok e1" "\<not> pid_changed e1"
    using called(2) assms(3) same_loopD(4) [of e e1] by (simp_all add: called_in_order_def dispatchable_def)
  obtain r e2 e3 where "run_callback (cbs s) s e1 = (r, e2)" "after_callback k True s r e2 = Inr e3" "loop_ok e3" "registry_ok e3" "\<not> pid_changed e3"
    by (rule run_callback_ok [OF e1(1,2) called(3) e1(3) assms(4), of k True])
  then show ?thesis using called(1,2,4) by (intro exI [of _ 1] exI [of _ e3]) auto
qed auto

section \<open>One turn\<close>

lemma loop_state_ok:
  "loop_ok (e\<lparr>state := t\<rparr>) = loop_ok e" "registry_ok (e\<lparr>state := t\<rparr>) = registry_ok e"
  "loop_ok (e\<lparr>iteration := n\<rparr>) = loop_ok e" "registry_ok (e\<lparr>iteration := n\<rparr>) = registry_ok e"
proof -
  have "members (e\<lparr>state := t\<rparr>) = members e" "inotify_pending (e\<lparr>state := t\<rparr>) = inotify_pending e" "children_online (e\<lparr>state := t\<rparr>) = children_online e"
    "source_ok (e\<lparr>state := t\<rparr>) = source_ok e" "members (e\<lparr>iteration := n\<rparr>) = members e" "inotify_pending (e\<lparr>iteration := n\<rparr>) = inotify_pending e"
    "children_online (e\<lparr>iteration := n\<rparr>) = children_online e" "source_ok (e\<lparr>iteration := n\<rparr>) = source_ok e"
    by (auto simp: members_def inotify_pending_def children_online_def source_ok_def fun_eq_iff)
  then show "loop_ok (e\<lparr>state := t\<rparr>) = loop_ok e" "registry_ok (e\<lparr>state := t\<rparr>) = registry_ok e"
    "loop_ok (e\<lparr>iteration := n\<rparr>) = loop_ok e" "registry_ok (e\<lparr>iteration := n\<rparr>) = registry_ok e"
    by (simp_all add: loop_ok_def queues_ok_def books_ok_def registry_ok_def)
qed

lemma next_exit:
  assumes "loop_ok e"
  obtains (none) "prioq_peek (exit_q e) = None" "\<forall>x \<in> attached e. src_type (sources e x) \<noteq> SOURCE_EXIT"
  | (first) p where "prioq_peek (exit_q e) = Some p" "p \<in> attached e" "src_type (sources e p) = SOURCE_EXIT"
      "event_source_is_offline (sources e p) \<Longrightarrow> \<forall>x \<in> attached e. src_type (sources e x) = SOURCE_EXIT \<longrightarrow> event_source_is_offline (sources e x)"
proof -
  have "queue_of (exit_rank (sources e)) (\<lambda>s. src_type (sources e s) = SOURCE_EXIT) (exit_q e) {s \<in> attached e. src_type (sources e s) = SOURCE_EXIT}"
    using loop_okD(5) [OF assms] by (simp add: exit_ok_def)
  then show ?thesis
  proof (rule exits.peeks)
    assume "prioq_peek (exit_q e) = None" "{s \<in> attached e. src_type (sources e s) = SOURCE_EXIT} = {}"
    then show ?thesis using none by blast
  next
    fix p assume p: "prioq_peek (exit_q e) = Some p" "p \<in> {s \<in> attached e. src_type (sources e s) = SOURCE_EXIT}"
      "\<And>x. x \<in> {s \<in> attached e. src_type (sources e s) = SOURCE_EXIT} \<Longrightarrow> exit_rank (sources e) p \<le> exit_rank (sources e) x"
    have free: "\<not> ratelimited (sources e x)" if "x \<in> attached e" "src_type (sources e x) = SOURCE_EXIT" for x
      using source_okD(2) [OF loop_okD(11) [OF assms that(1)]] that(2) by (auto simp: event_source_can_rate_limit_def)
    have "event_source_is_offline (sources e x)" if "event_source_is_offline (sources e p)" "x \<in> attached e" "src_type (sources e x) = SOURCE_EXIT" for x
      using p(3) [of x] that free [of p] p(2) by (auto simp: exit_rank_def event_source_is_online_def less_eq_prod_def)
    then show ?thesis using first [of p] p(1,2) by blast
  qed
qed

text \<open>
  C6. A turn of the event loop, whatever the callbacks do as long as they leave it in order (\<open>callback_ok\<close>; enabling a disabled source that is
  rate limited would not): \<open>sd_event_dispatch\<close> never fails an assertion, leaves the event loop in order
  and ready for the next turn, or finished, and that only when an exit was asked for and no exit source is left that is online.
\<close>

theorem turn_keeps_order:
  assumes "loop_ok e" "registry_ok e" "\<And>s. callback_ok (cbs s) s" "set order = post_sources e"
  shows "\<exists>r e'. sd_event_dispatch k ts ok order cbs e = Inr (r, e') \<and> loop_ok e' \<and> registry_ok e' \<and>
    (if pid_changed e \<or> state e \<noteq> SD_EVENT_PENDING then r < 0 \<and> e' = e
     else state e' = SD_EVENT_INITIAL \<or> r = 0 \<and> finished e' \<and> exit_requested e \<and>
       (\<forall>x \<in> attached e. src_type (sources e x) = SOURCE_EXIT \<longrightarrow> event_source_is_offline (sources e x)))"
proof -
  consider "pid_changed e \<or> state e \<noteq> SD_EVENT_PENDING" | "\<not> pid_changed e" "state e = SD_EVENT_PENDING" "exit_requested e"
    | "\<not> pid_changed e" "state e = SD_EVENT_PENDING" "\<not> exit_requested e" by blast
  then show ?thesis
  proof cases
    case 1
    then show ?thesis using assms(1,2) by (auto simp: sd_event_dispatch_def ECHILD_def ESTALE_def EBUSY_def)
  next
    case 2
    have run: "sd_event_dispatch k ts ok order cbs e = dispatch_exit k ts ok order cbs e" using 2 by (simp add: sd_event_dispatch_def)
    show ?thesis
    proof (cases rule: next_exit [OF assms(1), case_names none first])
      case none
      then show ?thesis using 2 run assms(1,2) by (simp add: dispatch_exit_def loop_state_ok)
    next
      case (first p)
      let ?e = "e\<lparr>iteration := iteration e + 1, state := SD_EVENT_EXITING\<rparr>"
      show ?thesis
      proof (cases "event_source_is_offline (sources e p)")
        case True
        then show ?thesis using 2 run assms(1,2) first by (simp add: dispatch_exit_def loop_state_ok)
      next
        case False
        have e: "loop_ok ?e" "registry_ok ?e" using assms(1,2) loop_state_ok by simp_all
        have "dispatchable p order ?e" using 2(1) first(2,3) False assms(4) by (simp add: dispatchable_def event_source_is_online_def)
        then obtain r e' where "source_dispatch k ts ok order cbs p ?e = Inr (r, e')" "loop_ok e'" "registry_ok e'" "\<not> pid_changed e'" "r = 1 \<or> r < 0"
          by (rule dispatch_ok [OF e _ assms(3)])
        then show ?thesis using 2 run first False by (simp add: dispatch_exit_def loop_state_ok)
      qed
    qed
  next
    case 3
    let ?e = "e\<lparr>state := SD_EVENT_RUNNING\<rparr>"
    show ?thesis
    proof (cases "event_next_pending e")
      case None
      then show ?thesis using 3 assms(1,2) by (simp add: sd_event_dispatch_def loop_state_ok)
    next
      case (Some p)
      have p: "p \<in> attached e" "pending (sources e p)" "event_source_is_online (sources e p)"
        using next_pending_is_first [OF assms(1)] Some by simp_all
      have e: "loop_ok ?e" "registry_ok ?e" using assms(1,2) loop_state_ok by simp_all
      have "dispatchable p order ?e" using 3(1) p assms(4) by (simp add: dispatchable_def event_source_is_online_def)
      then obtain r e' where "source_dispatch k ts ok order cbs p ?e = Inr (r, e')" "loop_ok e'" "registry_ok e'" "\<not> pid_changed e'" "r = 1 \<or> r < 0"
        by (rule dispatch_ok [OF e _ assms(3)])
      then show ?thesis using 3 Some by (simp add: sd_event_dispatch_def loop_state_ok)
    qed
  qed
qed

section \<open>On a small loop\<close>

text \<open>The sources of \<open>demo_loop\<close> with callbacks that drop them.\<close>

theorem dispatch_calls_once_witness:
  "\<exists>r e'. source_dispatch demo_kernel 100 (\<lambda>_. True) [] drops_itself 2 demo_loop = Inr (r, e') \<and> loop_ok e' \<and> registry_ok e' \<and>
    (if fst (ratelimit_below 100 (rate (sources demo_loop 2)))
     then r < 0 \<and> (\<exists>z :: nat. \<not> True) \<or>
       r = 1 \<and> (\<exists>e1 c e2. called_in_order 2 demo_loop e1 \<and> run_callback (drops_itself 2) 2 e1 = (c, e2) \<and>
         after_callback demo_kernel True 2 c e2 = Inr e')
     else pending (sources e' 2) = pending (sources demo_loop 2) \<and>
       (r = 1 \<and> ratelimited (sources e' 2) \<or> r < 0 \<and> \<not> ratelimited (sources e' 2)))"
proof (rule dispatch_calls_once [OF demo_loop_ok demo_registry_ok _ drops_itself_ok])
  have "post_sources demo_loop = {}" by (simp add: demo_loop_def)
  then show "dispatchable 2 [] demo_loop" by (simp add: dispatchable_def demo_loop_fields demo_timer_def)
qed

theorem turn_keeps_order_witness:
  "\<exists>r e'. sd_event_dispatch demo_kernel 100 (\<lambda>_. True) [] drops_itself (demo_loop\<lparr>state := SD_EVENT_PENDING\<rparr>) = Inr (r, e') \<and>
    loop_ok e' \<and> registry_ok e' \<and>
    (if pid_changed (demo_loop\<lparr>state := SD_EVENT_PENDING\<rparr>) \<or> state (demo_loop\<lparr>state := SD_EVENT_PENDING\<rparr>) \<noteq> SD_EVENT_PENDING
     then r < 0 \<and> e' = demo_loop\<lparr>state := SD_EVENT_PENDING\<rparr>
     else state e' = SD_EVENT_INITIAL \<or> r = 0 \<and> finished e' \<and> exit_requested (demo_loop\<lparr>state := SD_EVENT_PENDING\<rparr>) \<and>
       (\<forall>x \<in> attached (demo_loop\<lparr>state := SD_EVENT_PENDING\<rparr>). src_type (sources (demo_loop\<lparr>state := SD_EVENT_PENDING\<rparr>) x) = SOURCE_EXIT \<longrightarrow>
         event_source_is_offline (sources (demo_loop\<lparr>state := SD_EVENT_PENDING\<rparr>) x)))"
proof (rule turn_keeps_order)
  show "loop_ok (demo_loop\<lparr>state := SD_EVENT_PENDING\<rparr>)" "registry_ok (demo_loop\<lparr>state := SD_EVENT_PENDING\<rparr>)"
    using demo_loop_ok demo_registry_ok loop_state_ok by simp_all
  show "callback_ok (drops_itself s) s" for s by (rule drops_itself_ok)
qed (simp add: demo_loop_def)

end
