(* ===== verification/EventSignals.thy ===== *)
theory EventSignals
  imports EventRemoval
begin

text \<open>
  Reading the signals of one priority (\<open>process_signal\<close> of \<open>sd-event.c\<close>). What the reads of the signal descriptor give, one
  after the other, is a list; when it is over nothing is queued. \<open>ok\<close> tells whether memory is there; the result is the return
  value, the smallest priority seen and the state.
\<close>

section \<open>The operation\<close>

datatype read_result = READ_FAILS nat | READ_SHORT | READ_SIGNAL int

definition EIO :: int where "EIO = 5"

definition ERRNO_IS_TRANSIENT :: "nat \<Rightarrow> bool" where \<comment> \<open>\<open>EAGAIN\<close> or \<open>EINTR\<close>\<close>
  "ERRNO_IS_TRANSIENT n \<longleftrightarrow> n = 11 \<or> n = 4"

definition SIGNAL_VALID :: "int \<Rightarrow> bool" where \<comment> \<open>below \<open>_NSIG\<close>\<close>
  "SIGNAL_VALID g \<longleftrightarrow> 0 < g \<and> g < 65"

definition signal_arrived :: "bool \<Rightarrow> int \<Rightarrow> int \<Rightarrow> nat \<Rightarrow> event_loop \<Rightarrow> (int \<times> int \<times> event_loop) res" where
  \<comment> \<open>the end of the loop body, for a source that is not pending\<close>
  "signal_arrived ok p mp s e = (case signals e p of None \<Rightarrow> Inl AssertFail
     | Some d \<Rightarrow>
         rbind (source_set_pending ok s True (e\<lparr>signals := (signals e)(p \<mapsto> d\<lparr>current := Some s\<rparr>)\<rparr>)) (\<lambda>(r, e).
         Inr (if r < 0 then (r, mp, e)
              else if 0 < r \<and> priority (sources e s) \<le> mp then (1, priority (sources e s), e)
              else (0, mp, e))))"

fun read_signals :: "read_result list \<Rightarrow> bool \<Rightarrow> int \<Rightarrow> int \<Rightarrow> event_loop \<Rightarrow> (int \<times> int \<times> event_loop) res" where
  "read_signals [] ok p mp e = Inr (0, mp, e)"
| "read_signals (READ_FAILS n # rs) ok p mp e = Inr (if ERRNO_IS_TRANSIENT n then 0 else - int n, mp, e)"
| "read_signals (READ_SHORT # rs) ok p mp e = Inr (- EIO, mp, e)"
| "read_signals (READ_SIGNAL g # rs) ok p mp e =
     rbind (rassert (SIGNAL_VALID g) AssertFail) (\<lambda>_.
     case signal_sources e g of None \<Rightarrow> read_signals rs ok p mp e
     | Some s \<Rightarrow> if pending (sources e s) then read_signals rs ok p mp e else signal_arrived ok p mp s e)"

definition process_signal :: "bool \<Rightarrow> read_result list \<Rightarrow> bool \<Rightarrow> int \<Rightarrow> int \<Rightarrow> event_loop \<Rightarrow> (int \<times> int \<times> event_loop) res" where
  "process_signal epollin rs ok p mp e = (case signals e p of None \<Rightarrow> Inl AssertFail
     | Some d \<Rightarrow>
         if \<not> epollin then Inr (- EIO, mp, e)
         else
          (let e = (if SIGCHLD \<in> sigset d then e\<lparr>need_process_child := True\<rparr> else e) in
           if current d \<noteq> None then Inr (0, mp, e) else read_signals rs ok p mp e))"

section \<open>The loop stays in order\<close>

lemma signals_only_ok:
  assumes "loop_ok e" "signals_ok (e\<lparr>signals := S\<rparr>)"
  shows "loop_ok (e\<lparr>signals := S, need_process_child := n\<rparr>)"
proof -
  let ?e = "e\<lparr>signals := S, need_process_child := n\<rparr>"
  have "members ?e = members e" "inotify_pending ?e = inotify_pending e" "children_online ?e = children_online e" "source_ok ?e = source_ok e"
    by (auto simp: members_def inotify_pending_def children_online_def source_ok_def fun_eq_iff)
  then show ?thesis using assms by (simp add: loop_ok_def queues_ok_def books_ok_def signals_ok_def)
qed

lemma signals_loop_ok: "loop_ok e \<Longrightarrow> signals_ok (e\<lparr>signals := S\<rparr>) \<Longrightarrow> loop_ok (e\<lparr>signals := S\<rparr>)"
  using signals_only_ok [of e S "need_process_child e"] by simp

lemma need_child_ok: "loop_ok e \<Longrightarrow> loop_ok (e\<lparr>need_process_child := n\<rparr>)"
  using signals_only_ok [of e "signals e" n] loop_signals_ok [of e] by simp

lemma signal_arrived_ok:
  assumes "loop_ok e" "s \<in> attached e" "src_type (sources e s) \<noteq> SOURCE_EXIT" "signals e p = Some d"
  shows "\<exists>r mp' e'. signal_arrived ok p mp s e = Inr (r, mp', e') \<and> loop_ok e' \<and> mp' \<le> mp \<and> attached e' = attached e"
proof -
  let ?e = "e\<lparr>signals := (signals e)(p \<mapsto> d\<lparr>current := Some s\<rparr>)\<rparr>"
  have "loop_ok ?e" using loop_signals_ok [OF assms(1)] assms(4) by (intro signals_loop_ok [OF assms(1)]) (auto simp: signals_ok_def)
  then obtain r e' where r: "source_set_pending ok s True ?e = Inr (r, e')" "loop_ok e'" "same_loop ?e e'"
    using set_pending_ok [of ?e s ok True] assms(2,3) by auto
  then have "signal_arrived ok p mp s e = Inr (if r < 0 then (r, mp, e')
      else if 0 < r \<and> priority (sources e' s) \<le> mp then (1, priority (sources e' s), e') else (0, mp, e'))"
    using assms(4) by (simp add: signal_arrived_def)
  then show ?thesis using r(2) same_loopD(1) [OF r(3)] by (auto split: if_splits)
qed

lemma read_signals_ok:
  assumes "loop_ok e" "registry_ok e" "signals e p \<noteq> None" "\<And>g. READ_SIGNAL g \<in> set rs \<Longrightarrow> SIGNAL_VALID g"
  shows "\<exists>r mp' e'. read_signals rs ok p mp e = Inr (r, mp', e') \<and> loop_ok e' \<and> mp' \<le> mp \<and> attached e' = attached e"
  using assms(4)
proof (induction rs)
  case (Cons x rs)
  have IH: "\<exists>r mp' e'. read_signals rs ok p mp e = Inr (r, mp', e') \<and> loop_ok e' \<and> mp' \<le> mp \<and> attached e' = attached e"
    by (rule Cons.IH) (simp add: Cons.prems)
  obtain d where d: "signals e p = Some d" using assms(3) by blast
  show ?case
  proof (cases x)
    case (READ_SIGNAL g)
    have g: "SIGNAL_VALID g" by (rule Cons.prems) (simp add: READ_SIGNAL)
    show ?thesis
    proof (cases "signal_sources e g")
      case None
      then show ?thesis using IH g READ_SIGNAL by simp
    next
      case (Some s)
      have s: "s \<in> attached e" "src_type (sources e s) \<noteq> SOURCE_EXIT" using registryD(3,4) [OF assms(2) Some] by simp_all
      show ?thesis using IH signal_arrived_ok [OF assms(1) s d] g Some READ_SIGNAL by simp
    qed
  qed (use assms(1) in auto)
qed (use assms(1) in simp)

text \<open>
  Reading the signals of a priority, whatever the kernel returns and out of memory or not, never fails an assertion and
  leaves the event loop in order; the priority reported only gets smaller.
\<close>

theorem process_signal_keeps_order:
  assumes "loop_ok e" "registry_ok e" "signals e p \<noteq> None" "\<forall>g. READ_SIGNAL g \<in> set rs \<longrightarrow> SIGNAL_VALID g"
  shows "\<exists>r mp' e'. process_signal epollin rs ok p mp e = Inr (r, mp', e') \<and> loop_ok e' \<and> mp' \<le> mp \<and> attached e' = attached e"
proof -
  obtain d where d: "signals e p = Some d" using assms(3) by blast
  let ?e = "if SIGCHLD \<in> sigset d then e\<lparr>need_process_child := True\<rparr> else e"
  have ok: "loop_ok ?e" "registry_ok ?e" "signals ?e p \<noteq> None" "attached ?e = attached e"
    using assms(1,2) d need_child_ok by (simp_all add: registry_ok_def)
  show ?thesis
    using read_signals_ok [OF ok(1-3), of rs ok mp] ok(1,4) assms(1,4) d by (auto simp: process_signal_def)
qed

section \<open>A signal that is never read\<close>

lemma unmask_keeps_others:
  assumes "signals e p = Some d" "g \<in> sigset d" "g \<noteq> sig" "unmask_at q sig e = Inr e'"
  shows "\<exists>d'. signals e' p = Some d' \<and> current d' = current d \<and> g \<in> sigset d'"
proof (cases "q = p")
  case True
  have "\<not> sigset d \<subseteq> {sig}" using assms(2,3) by auto
  then show ?thesis
    using True assms by (cases "sig \<in> sigset d"; cases "pid_changed e"; cases "0 \<le> signal_fd d")
      (auto simp: unmask_at_def event_unmask_signal_data_def Let_def)
next
  case False
  then show ?thesis
    using assms by (cases "signals e q")
      (auto simp: unmask_at_def event_unmask_signal_data_def event_free_signal_data_def Let_def rbind_def rassert_def split: if_splits)
qed

lemma gc_keeps_others:
  assumes "signals e p = Some d" "g \<in> sigset d" "g \<noteq> sig" "event_gc_signal_data q sig e = Inr e'"
  shows "\<exists>d'. signals e' p = Some d' \<and> current d' = current d \<and> g \<in> sigset d'"
proof (cases "sig = SIGCHLD \<and> 0 < online_children e \<or>
    (case signal_sources e sig of Some s \<Rightarrow> event_source_is_online (sources e s) | None \<Rightarrow> False)")
  case True
  then have "event_gc_signal_data q sig e = Inr e" by (auto simp: event_gc_signal_data_def)
  then show ?thesis using assms by simp
next
  case False
  then have run: "rbind (unmask_at q sig e) (\<lambda>e. rbind (case signal_sources e sig of Some s \<Rightarrow> unmask_at (priority (sources e s)) sig e | None \<Rightarrow> Inr e)
      (\<lambda>e. unmask_at 0 sig e)) = Inr e'"
    using assms(4) by (auto simp: event_gc_signal_data_def cong: option.case_cong split: if_splits)
  then obtain e1 e2 where e1: "unmask_at q sig e = Inr e1"
    and e2: "(case signal_sources e1 sig of Some s \<Rightarrow> unmask_at (priority (sources e1 s)) sig e1 | None \<Rightarrow> Inr e1) = Inr e2"
    and e3: "unmask_at 0 sig e2 = Inr e'" by (auto simp: rbind_def split: sum.splits)
  obtain d1 where d1: "signals e1 p = Some d1" "current d1 = current d" "g \<in> sigset d1" using unmask_keeps_others [OF assms(1-3) e1] by blast
  obtain d2 where d2: "signals e2 p = Some d2" "current d2 = current d" "g \<in> sigset d2"
    using unmask_keeps_others [OF d1(1,3) assms(3)] d1 e2 by (cases "signal_sources e1 sig") auto
  show ?thesis using unmask_keeps_others [OF d2(1,3) assms(3) e3] d2(2) by simp
qed

text \<open>
  C27. A signal source that is removed while its signal waits to be dispatched stays the current source of its priority, for nothing clears
  the pointer: as long as another signal is watched at the same priority, no signal is read there any more, although the kernel goes on
  reporting that one is queued.
\<close>

theorem removed_signal_source_mutes_priority:
  assumes "loop_ok e" "registry_ok e" "s \<in> attached e" "src_type (sources e s) = SOURCE_SIGNAL" "signals e p = Some d" "current d = Some s"
    "g \<in> sigset d" "g \<noteq> signal_no (sources e s)"
  shows "\<exists>e'. source_disconnect s e = Inr e' \<and> loop_ok e' \<and> s \<notin> attached e' \<and>
    (\<exists>d'. signals e' p = Some d' \<and> g \<in> sigset d' \<and> current d' = Some s) \<and>
    (\<forall>rs ok mp. \<exists>e''. process_signal True rs ok p mp e' = Inr (0, mp, e'') \<and> sources e'' = sources e' \<and> signals e'' = signals e')"
proof -
  obtain e' where e': "source_disconnect s e = Inr e'" "loop_ok e'" "attached e' = attached e - {s}"
    using disconnect_ok [OF assms(1-3)] by blast
  obtain e1 where e1: "disconnect_by_type s e = Inr e1" "type_left s e e1" by (rule disconnect_by_type_ok [OF assms(1,3)])
  obtain P R C where q: "leave_queues s e1 = Inr (e1\<lparr>pending_q := P, prepare_q := R, clocks := C\<rparr>)"
    by (rule leave_queues_ok [OF assms(1,3) e1(2)])
  have "signals e' = signals e1" using e'(1) e1(1) q assms(3) by (auto simp: source_disconnect_def)
  moreover have "\<exists>d'. signals e1 p = Some d' \<and> current d' = current d \<and> g \<in> sigset d'"
  proof (cases "signal_no (sources e s) \<le> 0")
    case True
    then have "e1 = e" using e1(1) assms(4) by (simp add: disconnect_by_type_def disconnect_signal_def event_source_is_time_def)
    then show ?thesis using assms(5,7) by simp
  next
    case False
    let ?e = "e\<lparr>signal_sources := (signal_sources e)(signal_no (sources e s) := None)\<rparr>"
    have "event_gc_signal_data (priority (sources e s)) (signal_no (sources e s)) ?e = Inr e1"
      using e1(1) assms(4) False by (simp add: disconnect_by_type_def disconnect_signal_def event_source_is_time_def Let_def)
    then show ?thesis using gc_keeps_others [of ?e p d g] assms(5,7,8) by simp
  qed
  ultimately obtain d' where d': "signals e' p = Some d'" "current d' = Some s" "g \<in> sigset d'" using assms(6) by auto
  have "\<exists>e''. process_signal True rs ok p mp e' = Inr (0, mp, e'') \<and> sources e'' = sources e' \<and> signals e'' = signals e'" for rs ok mp
    using d'(1,2) by (simp add: process_signal_def)
  then show ?thesis using e' d' by auto
qed

section \<open>A loop with two signal sources\<close>

text \<open>They share the descriptor of priority 0; the first is pending.\<close>

definition signal_source :: "int \<Rightarrow> bool \<Rightarrow> event_source" where
  "signal_source g p = (demo_timer p 0)\<lparr>src_type := SOURCE_SIGNAL, signal_no := g\<rparr>"

definition signal_loop :: event_loop where
  "signal_loop = demo_loop\<lparr>sources := (\<lambda>s. if s = 1 then signal_source 10 True else signal_source 12 False),
     clocks := (\<lambda>_. \<lparr>timer_fd = - 1, earliest_q = None, latest_q = None, next_set = USEC_INFINITY, needs_rearm = False\<rparr>),
     pending_q := Some (demo_queue [1]), signal_sources := [10 \<mapsto> 1, 12 \<mapsto> 2],
     signals := [0 \<mapsto> \<lparr>signal_fd = 7, sigset = {10, 12}, current = Some 1\<rparr>]\<rparr>"

lemma signal_loop_fields:
  "attached signal_loop = {1, 2}" "sources signal_loop s = (if s = 1 then signal_source 10 True else signal_source 12 False)"
  "clocks signal_loop c = \<lparr>timer_fd = - 1, earliest_q = None, latest_q = None, next_set = USEC_INFINITY, needs_rearm = False\<rparr>"
  "pending_q signal_loop = Some (demo_queue [1])" "prepare_q signal_loop = None" "exit_q signal_loop = None"
  "signal_sources signal_loop = [10 \<mapsto> 1, 12 \<mapsto> 2]" "signals signal_loop = [0 \<mapsto> \<lparr>signal_fd = 7, sigset = {10, 12}, current = Some 1\<rparr>]"
  "online_children signal_loop = 0" "n_pending signal_loop d = 0" "post_sources signal_loop = {}"
  by (simp_all add: signal_loop_def demo_loop_def)

lemma signal_source_fields:
  "src_type (signal_source g p) = SOURCE_SIGNAL" "\<not> ratelimited (signal_source g p)" "pending (signal_source g p) = p"
  "\<not> has_prepare (signal_source g p)" "signal_no (signal_source g p) = g" "limit_set (signal_source g p)"
  by (simp_all add: signal_source_def demo_timer_def limit_set_def)

lemma signal_loop_ok: "loop_ok signal_loop"
proof -
  have "members signal_loop c = {}" for c
    by (auto simp: members_def signal_loop_fields signal_source_fields clock_of_def event_get_clock_def)
  moreover have "inotify_pending signal_loop d = {}" "children_online signal_loop = {}" for d
    by (auto simp: inotify_pending_def children_online_def signal_loop_fields signal_source_fields)
  moreover have "{s. (s = 1 \<or> s = 2) \<and> pending (sources signal_loop s)} = {1}" by (auto simp: signal_loop_fields signal_source_fields)
  moreover have "source_ok signal_loop s" for s by (simp add: source_ok_def signal_loop_fields signal_source_fields)
  moreover have "queue_of (pending_rank (sources signal_loop)) (\<lambda>s. pending (sources signal_loop s)) (Some (demo_queue [1])) {1}"
    by (rule small_queues(1)) (simp add: signal_loop_fields signal_source_fields)
  moreover have "has_prepare (sources signal_loop s) = False" "src_type (sources signal_loop s) = SOURCE_SIGNAL" for s
    by (simp_all add: signal_loop_fields signal_source_fields)
  ultimately show ?thesis
    by (simp add: loop_ok_def queues_ok_def books_ok_def pending_ok_def prepare_ok_def exit_ok_def clock_ok_def signal_loop_fields(1,3-6,8-10)
        created_def small_def split: if_splits) (simp add: queue_of_def)
qed

lemma signal_registry_ok: "registry_ok signal_loop"
  by (auto simp: registry_ok_def signal_loop_fields signal_source_fields event_get_clock_def event_source_can_rate_limit_def split: if_splits)

theorem set_enabled_keeps_order_witness:
  "\<exists>r e'. sd_event_source_set_enabled demo_kernel (Some 1) SD_EVENT_OFF signal_loop = Inr (r, e') \<and> r = 0 \<and> loop_ok e' \<and>
    same_loop signal_loop e' \<and> enabled (sources e' 1) = SD_EVENT_OFF \<and> \<not> pending (sources e' 1) \<and> kernel_forgets 1 e' \<and> 12 \<in> watched e' 0"
proof -
  have fields: "\<not> finished signal_loop" "\<not> pid_changed signal_loop" "1 \<in> attached signal_loop" "enabled (sources signal_loop 1) \<noteq> SD_EVENT_OFF"
    "src_type (sources signal_loop 1) = SOURCE_SIGNAL"
    by (simp_all add: signal_loop_def signal_source_def demo_loop_def demo_timer_def)
  have "own_signals (sources signal_loop 1) = {10}" "watched signal_loop 0 = {10, 12}"
    by (simp_all add: own_signals_def watched_def signal_loop_fields signal_source_fields)
  then have w: "12 \<in> watched e' 0" if "others_watched 1 signal_loop e'" for e'
    using that [unfolded others_watched_def, rule_format, of 0] by auto
  then show ?thesis using set_enabled_keeps_order [OF signal_loop_ok fields(3), of SD_EVENT_OFF demo_kernel] fields w by (fastforce simp: still_pending_def)
qed

theorem disconnect_keeps_order_witness:
  "\<exists>e'. source_disconnect 1 signal_loop = Inr e' \<and> loop_ok e' \<and> registry_ok e' \<and> attached e' = {2} \<and>
    (\<exists>b. sources e' = (sources signal_loop)(1 := (sources signal_loop 1)\<lparr>registered := b\<rparr>)) \<and> same_state signal_loop e' \<and> 1 \<notin> post_sources e' \<and>
    (\<forall>g. signal_sources e' g \<noteq> Some 1) \<and> (\<forall>p d'. signals e' p = Some d' \<longrightarrow> (\<exists>d. signals signal_loop p = Some d \<and> current d' = current d))"
proof -
  have "1 \<in> attached signal_loop" "attached signal_loop - {1} = {2}" by (auto simp: signal_loop_fields)
  then show ?thesis using disconnect_keeps_order [OF signal_loop_ok signal_registry_ok, of 1] by auto
qed

theorem process_signal_keeps_order_witness:
  "\<exists>r mp' e'. process_signal True [READ_SIGNAL 12, READ_FAILS 11] False 0 100 signal_loop = Inr (r, mp', e') \<and> loop_ok e' \<and> mp' \<le> 100 \<and>
    attached e' = attached signal_loop"
  by (rule process_signal_keeps_order [OF signal_loop_ok signal_registry_ok]) (simp_all add: signal_loop_fields SIGNAL_VALID_def)

theorem removed_signal_source_mutes_priority_witness:
  "\<exists>e'. source_disconnect 1 signal_loop = Inr e' \<and> loop_ok e' \<and> 1 \<notin> attached e' \<and>
    (\<exists>d'. signals e' 0 = Some d' \<and> 12 \<in> sigset d' \<and> current d' = Some 1) \<and>
    (\<forall>rs ok mp. \<exists>e''. process_signal True rs ok 0 mp e' = Inr (0, mp, e'') \<and> sources e'' = sources e' \<and> signals e'' = signals e')"
  by (rule removed_signal_source_mutes_priority [OF signal_loop_ok signal_registry_ok, of _ _ "\<lparr>signal_fd = 7, sigset = {10, 12}, current = Some 1\<rparr>"]) (simp_all add: signal_loop_fields signal_source_fields)

end
