(* ===== verification/EventAdding.thy ===== *)
theory EventAdding
  imports EventLimits EventSignals
begin

unbundle bit_operations_syntax

text \<open>
  New event sources (\<open>sd-event.c\<close>). \<open>s\<close> is the address that \<open>source_new\<close> gets. The callbacks, the user data, and what the kernel is asked to watch on
  a descriptor are not in the state. Allocation 8 of a call is the one for the source, 9 the one for a table of sources.
\<close>

section \<open>The operations\<close>

definition EOPNOTSUPP :: int where "EOPNOTSUPP = 95"

definition blank_source :: "source_type \<Rightarrow> event_source" where
  "blank_source t = \<lparr>src_type = t, enabled = SD_EVENT_OFF, pending = False, ratelimited = False, priority = 0, pending_iteration = 0,
     prepare_iteration = 0, has_prepare = False, exit_on_failure = False, dispatching = False, n_ref = 1,
     rate = \<lparr>rl_interval = 0, rl_burst = 0, rl_num = 0, rl_begin = 0\<rparr>, time_next = 0, time_accuracy = 0, signal_no = 0,
     watches_pidfd = False, registered = False\<rparr>"

definition source_new :: "nat \<Rightarrow> source_type \<Rightarrow> event_loop \<Rightarrow> event_loop" where
  "source_new s t e = e\<lparr>sources := (sources e)(s := blank_source t), attached := insert s (attached e),
     pending_q := map_option (forget_index s) (pending_q e), prepare_q := map_option (forget_index s) (prepare_q e)\<rparr>"

definition source_added :: "nat \<Rightarrow> int \<Rightarrow> event_loop \<Rightarrow> (int \<times> event_loop) res" where \<comment> \<open>the end of each call, with \<open>_cleanup_(source_freep)\<close>\<close>
  "source_added s r e = (if r < 0 then rbind (source_free s e) (\<lambda>e. Inr (r, e)) else Inr (0, e))"

definition may_add :: "event_loop \<Rightarrow> int" where \<comment> \<open>the assertions about the event loop\<close>
  "may_add e = (if finished e then - ESTALE else if pid_changed e then - ECHILD else 0)"

definition EPOLL_EVENTS :: "32 word" where \<comment> \<open>\<open>EPOLLIN|EPOLLOUT|EPOLLRDHUP|EPOLLPRI|EPOLLERR|EPOLLHUP|EPOLLET\<close>\<close>
  "EPOLL_EVENTS = 0x1 OR 0x4 OR 0x2000 OR 0x2 OR 0x8 OR 0x10 OR 0x80000000"

definition sd_event_add_io :: "kernel \<Rightarrow> nat \<Rightarrow> int \<Rightarrow> 32 word \<Rightarrow> event_loop \<Rightarrow> (int \<times> event_loop) res" where
  "sd_event_add_io k s fd events e =
     (if fd < 0 then Inr (- EBADF, e)
      else if events AND NOT EPOLL_EVENTS \<noteq> 0 then Inr (- EINVAL, e)
      else if may_add e < 0 then Inr (may_add e, e)
      else if \<not> mem k 8 then Inr (- ENOMEM, e)
      else
       (let e = with_source s (\<lambda>x. x\<lparr>enabled := SD_EVENT_ON\<rparr>) (source_new s SOURCE_IO e) in
        rbind (source_io_register k s (enabled (sources e s)) e) (\<lambda>(r, e). source_added s r e)))"

definition clock_to_event_source_type :: "clock \<Rightarrow> source_type" where
  "clock_to_event_source_type c = (case c of
     CLOCK_REALTIME \<Rightarrow> SOURCE_TIME_REALTIME
   | CLOCK_BOOTTIME \<Rightarrow> SOURCE_TIME_BOOTTIME
   | CLOCK_MONOTONIC \<Rightarrow> SOURCE_TIME_MONOTONIC
   | CLOCK_REALTIME_ALARM \<Rightarrow> SOURCE_TIME_REALTIME_ALARM
   | CLOCK_BOOTTIME_ALARM \<Rightarrow> SOURCE_TIME_BOOTTIME_ALARM)"

definition sd_event_add_time :: "kernel \<Rightarrow> nat \<Rightarrow> clock option \<Rightarrow> usec \<Rightarrow> usec \<Rightarrow> event_loop \<Rightarrow> (int \<times> event_loop) res" where
  \<comment> \<open>no clock: one that the kernel or the event loop does not support\<close>
  "sd_event_add_time k s clock t accuracy e =
     (if accuracy = - 1 then Inr (- EINVAL, e)
      else if may_add e < 0 then Inr (may_add e, e)
      else (case clock of None \<Rightarrow> Inr (- EOPNOTSUPP, e)
        | Some c \<Rightarrow>
            let (r, e) = setup_clock_data k c e in
            if r < 0 then Inr (r, e)
            else if \<not> mem k 8 then Inr (- ENOMEM, e)
            else
             (let e = with_source s (\<lambda>x. x\<lparr>time_next := t, time_accuracy := if accuracy = 0 then DEFAULT_ACCURACY_USEC else accuracy,
                    enabled := SD_EVENT_ONESHOT\<rparr>) (source_new s (clock_to_event_source_type c) e);
                  e = with_clock c (\<lambda>d. d\<lparr>earliest_q := map_option (forget_index s) (earliest_q d),
                    latest_q := map_option (forget_index s) (latest_q d)\<rparr>) e in
              rbind (event_source_time_prioq_put (mem k 4) (mem k 5) s c e) (\<lambda>(r, e). source_added s r e))))"

definition signal_refusal :: "kernel \<Rightarrow> int \<Rightarrow> nat option \<Rightarrow> int \<Rightarrow> event_loop \<Rightarrow> int" where \<comment> \<open>the start of \<open>sd_event_add_signal\<close>\<close>
  "signal_refusal k sig block blocked e =
     (if may_add e < 0 then may_add e
      else if \<not> SIGNAL_VALID sig then - EINVAL
      else if block = None \<and> blocked < 0 then blocked
      else if block = None \<and> blocked = 0 then - EBUSY
      else if \<not> mem k 9 then - ENOMEM
      else if signal_sources e sig \<noteq> None then - EBUSY
      else if \<not> mem k 8 then - ENOMEM
      else 0)"

definition sd_event_add_signal :: "kernel \<Rightarrow> nat \<Rightarrow> int \<Rightarrow> nat option \<Rightarrow> int \<Rightarrow> event_loop \<Rightarrow> (int \<times> event_loop) res" where
  \<comment> \<open>\<open>block\<close>: with \<open>SD_EVENT_SIGNAL_PROCMASK\<close>, and then what \<open>pthread_sigmask\<close> returns; \<open>blocked\<close> is what \<open>signal_is_blocked\<close> returns\<close>
  "sd_event_add_signal k s sig block blocked e =
     (if signal_refusal k sig block blocked e < 0 then Inr (signal_refusal k sig block blocked e, e)
      else
       (let e = with_source s (\<lambda>x. x\<lparr>signal_no := sig, enabled := SD_EVENT_ON\<rparr>) (source_new s SOURCE_SIGNAL e);
            e = e\<lparr>signal_sources := (signal_sources e)(sig \<mapsto> s)\<rparr> in
        case block of
          Some (Suc n) \<Rightarrow> source_added s (- int (Suc n)) e
        | _ \<Rightarrow> let (r, e) = event_make_signal_data k sig e in source_added s r e))"

definition sd_event_add_defer :: "kernel \<Rightarrow> nat \<Rightarrow> event_loop \<Rightarrow> (int \<times> event_loop) res" where
  "sd_event_add_defer k s e =
     (if may_add e < 0 then Inr (may_add e, e)
      else if \<not> mem k 8 then Inr (- ENOMEM, e)
      else rbind (source_set_pending (mem k 9) s True (with_source s (\<lambda>x. x\<lparr>enabled := SD_EVENT_ONESHOT\<rparr>) (source_new s SOURCE_DEFER e)))
        (\<lambda>(r, e). source_added s r e))"

definition sd_event_add_post :: "kernel \<Rightarrow> nat \<Rightarrow> event_loop \<Rightarrow> (int \<times> event_loop) res" where
  "sd_event_add_post k s e =
     (if may_add e < 0 then Inr (may_add e, e)
      else if \<not> mem k 8 then Inr (- ENOMEM, e)
      else
       (let e = with_source s (\<lambda>x. x\<lparr>enabled := SD_EVENT_ON\<rparr>) (source_new s SOURCE_POST e) in
        if \<not> mem k 9 then source_added s (- ENOMEM) e
        else rbind (rassert (s \<notin> post_sources e) AssertFail) (\<lambda>_. source_added s 1 (e\<lparr>post_sources := insert s (post_sources e)\<rparr>))))"

definition sd_event_add_exit :: "kernel \<Rightarrow> nat \<Rightarrow> event_loop \<Rightarrow> (int \<times> event_loop) res" where
  "sd_event_add_exit k s e =
     (if may_add e < 0 then Inr (may_add e, e)
      else
       (let (r, q) = prioq_ensure_allocated (mem k 2) (\<lambda>_. PRIOQ_IDX_NULL) (exit_q e); e = e\<lparr>exit_q := q\<rparr> in
        if r < 0 then Inr (r, e)
        else if \<not> mem k 8 then Inr (- ENOMEM, e)
        else
         (let e = with_source s (\<lambda>x. x\<lparr>enabled := SD_EVENT_ONESHOT\<rparr>) (source_new s SOURCE_EXIT e);
              e = e\<lparr>exit_q := map_option (forget_index s) (exit_q e)\<rparr> in
          rbind (queue (exit_q e)) (\<lambda>q.
          rbind (prioq_put (exit_prioq_compare (sources e)) (mem k 4) s (Some s) q) (\<lambda>(r, q). source_added s r (e\<lparr>exit_q := Some q\<rparr>))))))"

section \<open>A source that is in no queue yet\<close>

definition joined :: "nat \<Rightarrow> event_source \<Rightarrow> event_loop \<Rightarrow> event_loop" where
  "joined s x e = e\<lparr>sources := (sources e)(s := x), attached := insert s (attached e),
     pending_q := map_option (forget_index s) (pending_q e), prepare_q := map_option (forget_index s) (prepare_q e)\<rparr>"

lemma joined_new: "with_source s f (source_new s t e) = joined s (f (blank_source t)) e"
  by (simp add: source_new_def joined_def with_source_def)

lemma joined_simps [simp]:
  "sources (joined s x e) = (sources e)(s := x)" "attached (joined s x e) = insert s (attached e)" "clocks (joined s x e) = clocks e"
  "exit_q (joined s x e) = exit_q e" "signals (joined s x e) = signals e" "signal_sources (joined s x e) = signal_sources e"
  "post_sources (joined s x e) = post_sources e" "pid_changed (joined s x e) = pid_changed e" "inotify_of (joined s x e) = inotify_of e"
  "iteration (joined s x e) = iteration e" "state (joined s x e) = state e"
  by (simp_all add: joined_def)

definition fresh :: "nat \<Rightarrow> event_loop \<Rightarrow> bool" where
  "fresh s e \<longleftrightarrow> s \<notin> attached e \<and> small (insert s (attached e))"

definition newborn :: "event_source \<Rightarrow> bool" where
  "newborn x \<longleftrightarrow> \<not> pending x \<and> \<not> has_prepare x \<and> \<not> ratelimited x \<and> limit_interval x = 0 \<and> src_type x \<notin> {SOURCE_WATCHDOG, SOURCE_INOTIFY, SOURCE_CHILD}"

lemma joined_ok:
  assumes "loop_ok e" "fresh s e" "newborn x"
  shows "pending_ok (sources (joined s x e)) (attached (joined s x e)) (pending_q (joined s x e))"
    "prepare_ok (sources (joined s x e)) (attached (joined s x e)) (prepare_q (joined s x e))"
    "exit_ok (sources (joined s x e)) (attached e) (exit_q e)" "books_ok (joined s x e)"
    "clock_ok (sources (joined s x e)) (clocks e c) (members e c)"
    "members (joined s x e) c = (if event_get_clock (src_type x) = Some c then insert s (members e c) else members e c)"
proof -
  let ?e = "joined s x e"
  note l = loop_okD [OF assms(1)]
  have s: "s \<notin> attached e" "small (insert s (attached e))" using assms(2) by (simp_all add: fresh_def)
  have x: "\<not> pending x" "\<not> has_prepare x" "\<not> ratelimited x" "src_type x \<notin> {SOURCE_WATCHDOG, SOURCE_INOTIFY, SOURCE_CHILD}"
    using assms(3) by (auto simp: newborn_def)
  have sets: "{y. (y = s \<or> y \<in> attached e) \<and> pending (sources ?e y)} = {y \<in> attached e. pending (sources ?e y)}"
    "{y. (y = s \<or> y \<in> attached e) \<and> has_prepare (sources ?e y)} = {y \<in> attached e. has_prepare (sources ?e y)}"
    using x(1,2) by auto
  have "pending_ok (sources ?e) (attached e) (pending_q e)"
    by (rule pending_ok_ranks [OF l(3)]) (use s(1) in \<open>auto simp: pending_rank_def\<close>)
  then show "pending_ok (sources ?e) (attached ?e) (pending_q ?e)"
    using queue_of_forget [of "pending_rank (sources ?e)" "\<lambda>y. pending (sources ?e y)" "pending_q e" "{y \<in> attached e. pending (sources ?e y)}" s] s(1) sets(1)
    by (simp add: pending_ok_def joined_def)
  have "prepare_ok (sources ?e) (attached e) (prepare_q e)"
    by (rule prepare_ok_ranks [OF l(4)]) (use s(1) in \<open>auto simp: prepare_rank_def\<close>)
  then show "prepare_ok (sources ?e) (attached ?e) (prepare_q ?e)"
    using queue_of_forget [of "prepare_rank (sources ?e)" "\<lambda>y. has_prepare (sources ?e y)" "prepare_q e" "{y \<in> attached e. has_prepare (sources ?e y)}" s] s(1) sets(2)
    by (simp add: prepare_ok_def joined_def)
  show "exit_ok (sources ?e) (attached e) (exit_q e)" by (rule exit_ok_ranks [OF l(5)]) (use s(1) in \<open>auto simp: exit_rank_def\<close>)
  show "clock_ok (sources ?e) (clocks e c) (members e c)" by (rule clock_ok_other [OF l(6), of s]) (use s(1) in \<open>simp_all add: members_def\<close>)
  show "members ?e c = (if event_get_clock (src_type x) = Some c then insert s (members e c) else members e c)"
    using s(1) x(3) by (auto simp: members_def clock_of_def)
  have "source_ok ?e y" if "y \<in> attached ?e" for y
    using that l(11) [of y] x by (auto simp: source_ok_def limit_set_def)
  moreover have "inotify_pending ?e d = inotify_pending e d" "children_online ?e = children_online e" for d
    using s(1) x by (auto simp: inotify_pending_def children_online_def)
  moreover have "n_pending ?e = n_pending e" "online_children ?e = online_children e" by (simp_all add: joined_def)
  ultimately show "books_ok ?e" using l(2) s(2) by (simp add: books_ok_def)
qed

lemma joined_exits:
  assumes "loop_ok e" "fresh s e" "newborn x" "src_type x \<noteq> SOURCE_EXIT"
  shows "exit_ok (sources (joined s x e)) (attached (joined s x e)) (exit_q e)"
proof -
  let ?e = "joined s x e"
  have "{y \<in> attached ?e. src_type (sources ?e y) = SOURCE_EXIT} = {y \<in> attached e. src_type (sources ?e y) = SOURCE_EXIT}" using assms(4) by auto
  then show ?thesis using joined_ok(3) [OF assms(1-3)] by (simp add: exit_ok_def)
qed

lemma joined_loop_ok:
  assumes "loop_ok e" "registry_ok e" "fresh s e" "newborn x" "event_get_clock (src_type x) = None" "src_type x \<noteq> SOURCE_EXIT"
  shows "loop_ok (joined s x e)" "registry_ok (joined s x e)"
proof -
  let ?e = "joined s x e"
  note j = joined_ok [OF assms(1,3,4)]
  have s: "s \<notin> attached e" using assms(3) by (simp add: fresh_def)
  show "loop_ok ?e" using j joined_exits [OF assms(1,3,4,6)] assms(5) by (simp add: loop_ok_def queues_ok_def)
  note reg = registryD [OF assms(2)]
  have "y \<noteq> s" if "y \<in> post_sources e \<or> signal_sources e g = Some y" for y g using that reg(1,3) s by auto
  then show "registry_ok ?e"
    unfolding registry_ok_def using reg assms(4,5) by (auto simp: newborn_def)
qed

lemma registry_signal:
  assumes "registry_ok e" "s \<in> attached e" "src_type (sources e s) = SOURCE_SIGNAL" "signal_no (sources e s) = g" "0 < g"
  shows "registry_ok (e\<lparr>signal_sources := (signal_sources e)(g \<mapsto> s)\<rparr>)"
  using assms unfolding registry_ok_def by auto

lemma registry_post:
  assumes "registry_ok e" "s \<in> attached e" "src_type (sources e s) = SOURCE_POST"
  shows "registry_ok (e\<lparr>post_sources := insert s (post_sources e)\<rparr>)"
  using assms unfolding registry_ok_def by auto

lemma tables_ok: "loop_ok (e\<lparr>signal_sources := S\<rparr>) = loop_ok e" "loop_ok (e\<lparr>post_sources := P\<rparr>) = loop_ok e"
proof -
  have "members (e\<lparr>signal_sources := S\<rparr>) = members e" "inotify_pending (e\<lparr>signal_sources := S\<rparr>) = inotify_pending e"
    "children_online (e\<lparr>signal_sources := S\<rparr>) = children_online e" "source_ok (e\<lparr>signal_sources := S\<rparr>) = source_ok e"
    "members (e\<lparr>post_sources := P\<rparr>) = members e" "inotify_pending (e\<lparr>post_sources := P\<rparr>) = inotify_pending e"
    "children_online (e\<lparr>post_sources := P\<rparr>) = children_online e" "source_ok (e\<lparr>post_sources := P\<rparr>) = source_ok e"
    by (auto simp: members_def inotify_pending_def children_online_def source_ok_def fun_eq_iff)
  then show "loop_ok (e\<lparr>signal_sources := S\<rparr>) = loop_ok e" "loop_ok (e\<lparr>post_sources := P\<rparr>) = loop_ok e"
    by (simp_all add: loop_ok_def queues_ok_def books_ok_def)
qed

section \<open>Adding a source\<close>

text \<open>Whatever a call returns, the event loop is in order and has the sources that it should have.\<close>

definition all_in_order :: "nat \<Rightarrow> event_loop \<Rightarrow> (int \<times> event_loop) res \<Rightarrow> bool" where
  "all_in_order s e m \<longleftrightarrow> (\<exists>r e'. m = Inr (r, e') \<and> r \<le> 0 \<and> loop_ok e' \<and> registry_ok e' \<and> attached e' = (if r < 0 then attached e else insert s (attached e)) \<and>
     (\<forall>x. x \<noteq> s \<longrightarrow> sources e' x = sources e x) \<and> state e' = state e \<and> pid_changed e' = pid_changed e)"

lemma refused: "loop_ok e \<Longrightarrow> registry_ok e \<Longrightarrow> r < 0 \<Longrightarrow> all_in_order s e (Inr (r, e))"
  by (simp add: all_in_order_def)

lemma may_add_cases: "may_add e < 0 \<or> \<not> finished e \<and> \<not> pid_changed e \<and> \<not> may_add e < 0"
  by (simp add: may_add_def ESTALE_def ECHILD_def)

lemma source_added_ok:
  assumes "loop_ok e1" "registry_ok e1" "attached e1 = insert s (attached e)" "s \<notin> attached e" "\<And>x. x \<noteq> s \<Longrightarrow> sources e1 x = sources e x"
    "state e1 = state e" "pid_changed e1 = pid_changed e"
  shows "all_in_order s e (source_added s r e1)"
proof (cases "r < 0")
  case False
  then show ?thesis using assms by (simp add: source_added_def all_in_order_def)
next
  case True
  have at: "s \<in> attached e1" using assms(3) by simp
  from disconnect_ok [OF assms(1,2) at] obtain e' b where d: "source_disconnect s e1 = Inr e'" "loop_ok e'" "registry_ok e'" "attached e' = attached e1 - {s}"
    "sources e' = (sources e1)(s := (sources e1 s)\<lparr>registered := b\<rparr>)" "same_state e1 e'" by blast
  have "attached e' = attached e" using d(4) assms(3,4) by auto
  then show ?thesis using True d assms(5-7) by (simp add: source_added_def source_free_def all_in_order_def same_state_def)
qed

lemma registration_ok:
  assumes "loop_ok e" "s \<in> attached e"
  shows "loop_ok (with_source s (\<lambda>x. x\<lparr>registered := b\<rparr>) e)"
proof -
  have "loop_with (members e) e" "signals_ok (e\<lparr>signals := signals e\<rparr>)" using assms(1) loop_signals_ok by (simp_all add: loop_ok_with)
  then have "loop_with (members e) (with_source s (\<lambda>x. x\<lparr>registered := b\<rparr>) e)"
    using registered_ok [OF _ assms(2), of "members e" "signals e" b] by (simp only: left_fields(2))
  moreover have "members (with_source s (\<lambda>x. x\<lparr>registered := b\<rparr>) e) = members e" by (auto simp: members_def clock_of_def fun_eq_iff)
  ultimately show ?thesis by (simp add: loop_ok_with)
qed

lemma errors_positive [simp]: "0 < EBADF" "0 < EINVAL" "0 < ENOMEM" "0 < EOPNOTSUPP" "0 < EBUSY" "0 \<le> ENOMEM"
  by (simp_all add: EBADF_def EINVAL_def ENOMEM_def EOPNOTSUPP_def EBUSY_def)

lemma add_io_ok:
  assumes "loop_ok e" "registry_ok e" "fresh s e"
  shows "all_in_order s e (sd_event_add_io k s fd events e)"
proof (cases "fd < 0 \<or> events AND NOT EPOLL_EVENTS \<noteq> 0 \<or> may_add e < 0 \<or> \<not> mem k 8")
  case True
  then show ?thesis using refused [OF assms(1,2)] by (auto simp: sd_event_add_io_def)
next
  case False
  let ?x = "(blank_source SOURCE_IO)\<lparr>enabled := SD_EVENT_ON\<rparr>"
  let ?e = "joined s ?x e"
  have e: "loop_ok ?e" "registry_ok ?e"
    using joined_loop_ok [OF assms, of ?x] by (simp_all add: newborn_def blank_source_def event_get_clock_def)
  have type: "src_type (sources ?e s) = SOURCE_IO" by (simp add: blank_source_def)
  obtain r b where r: "src_type (sources ?e s) = SOURCE_IO \<longrightarrow>
      source_io_register k s SD_EVENT_ON ?e = Inr (r, with_source s (\<lambda>x. x\<lparr>registered := b\<rparr>) ?e)"
    "src_type (sources ?e s) = SOURCE_CHILD \<longrightarrow>
      source_child_pidfd_register k s SD_EVENT_ON ?e = Inr (r, with_source s (\<lambda>x. x\<lparr>registered := b\<rparr>) ?e)"
    "r \<le> 0" "r < 0 \<longrightarrow> b = registered (sources ?e s)"
    by (rule register_ok [of SD_EVENT_ON ?e s k]) simp
  let ?e1 = "with_source s (\<lambda>x. x\<lparr>registered := b\<rparr>) ?e"
  have "loop_ok ?e1" by (rule registration_ok [OF e(1)]) simp
  moreover have "registry_ok ?e1" by (rule registry_same [OF e(2)]) (simp_all add: same_loop_def)
  ultimately have "all_in_order s e (source_added s r ?e1)" using assms(3) by (intro source_added_ok) (simp_all add: fresh_def)
  then show ?thesis using False r type by (simp add: sd_event_add_io_def joined_new)
qed

lemma add_defer_ok:
  assumes "loop_ok e" "registry_ok e" "fresh s e"
  shows "all_in_order s e (sd_event_add_defer k s e)"
proof (cases "may_add e < 0 \<or> \<not> mem k 8")
  case True
  then show ?thesis using refused [OF assms(1,2)] by (auto simp: sd_event_add_defer_def)
next
  case False
  let ?x = "(blank_source SOURCE_DEFER)\<lparr>enabled := SD_EVENT_ONESHOT\<rparr>"
  let ?e = "joined s ?x e"
  have e: "loop_ok ?e" "registry_ok ?e"
    using joined_loop_ok [OF assms, of ?x] by (simp_all add: newborn_def blank_source_def event_get_clock_def)
  have at: "s \<in> attached ?e" "src_type (sources ?e s) \<noteq> SOURCE_EXIT" by (simp_all add: blank_source_def)
  from set_pending_ok [OF e(1) at, of "mem k 9" True] obtain r e1 where r: "source_set_pending (mem k 9) s True ?e = Inr (r, e1)" "loop_ok e1" "same_loop ?e e1"
    "sources e1 = (sources ?e)(s := marked True (iteration ?e) (sources ?e s)) \<or> sources e1 = (sources ?e)(s := (sources ?e s)\<lparr>pending_iteration := iteration ?e\<rparr>)"
    by blast
  have "registry_ok e1" by (rule registry_same [OF e(2) r(3)]) (use r(4) in \<open>auto simp: marked_def\<close>)
  moreover have "sources e1 x = sources e x" if "x \<noteq> s" for x using r(4) that by auto
  ultimately have "all_in_order s e (source_added s r e1)"
    using assms(3) r(2) same_loopD(1,3,4) [OF r(3)] by (intro source_added_ok) (simp_all add: fresh_def)
  then show ?thesis using False r(1) by (simp add: sd_event_add_defer_def joined_new)
qed

lemma add_post_ok:
  assumes "loop_ok e" "registry_ok e" "fresh s e"
  shows "all_in_order s e (sd_event_add_post k s e)"
proof (cases "may_add e < 0 \<or> \<not> mem k 8")
  case True
  then show ?thesis using refused [OF assms(1,2)] by (auto simp: sd_event_add_post_def)
next
  case False
  let ?x = "(blank_source SOURCE_POST)\<lparr>enabled := SD_EVENT_ON\<rparr>"
  let ?e = "joined s ?x e"
  have e: "loop_ok ?e" "registry_ok ?e"
    using joined_loop_ok [OF assms, of ?x] by (simp_all add: newborn_def blank_source_def event_get_clock_def)
  have s: "s \<notin> attached e" "s \<notin> post_sources e" using assms(3) registryD(1) [OF assms(2)] by (auto simp: fresh_def)
  let ?e1 = "?e\<lparr>post_sources := insert s (post_sources ?e)\<rparr>"
  have "loop_ok ?e1" using e(1) tables_ok by simp
  moreover have "registry_ok ?e1" by (rule registry_post [OF e(2)]) (simp_all add: blank_source_def)
  ultimately have "all_in_order s e (source_added s 1 ?e1)" "all_in_order s e (source_added s (- ENOMEM) ?e)"
    using e s(1) by (intro source_added_ok; simp)+
  then show ?thesis using False s(2) by (simp add: sd_event_add_post_def joined_new Let_def)
qed

lemma add_signal_ok:
  assumes "loop_ok e" "registry_ok e" "fresh s e"
  shows "all_in_order s e (sd_event_add_signal k s sig block blocked e)"
proof (cases "signal_refusal k sig block blocked e < 0")
  case True
  then show ?thesis using refused [OF assms(1,2)] by (simp add: sd_event_add_signal_def)
next
  case False
  let ?x = "(blank_source SOURCE_SIGNAL)\<lparr>signal_no := sig, enabled := SD_EVENT_ON\<rparr>"
  let ?e = "joined s ?x e"
  have e: "loop_ok ?e" "registry_ok ?e"
    using joined_loop_ok [OF assms, of ?x] by (simp_all add: newborn_def blank_source_def event_get_clock_def)
  let ?e1 = "?e\<lparr>signal_sources := (signal_sources e)(sig \<mapsto> s)\<rparr>"
  have "loop_ok ?e1" using e(1) tables_ok by simp
  moreover have "registry_ok (?e\<lparr>signal_sources := (signal_sources ?e)(sig \<mapsto> s)\<rparr>)"
    by (rule registry_signal [OF e(2)]) (use False in \<open>simp_all add: blank_source_def signal_refusal_def SIGNAL_VALID_def split: if_splits\<close>)
  then have "registry_ok ?e1" by simp
  moreover obtain r S where S: "event_make_signal_data k sig ?e1 = (r, ?e1\<lparr>signals := S\<rparr>)" "signals_ok (?e1\<lparr>signals := S\<rparr>)"
    by (rule make_signal_ok [OF loop_signals_ok [OF calculation(1)]])
  moreover have "loop_ok (?e1\<lparr>signals := S\<rparr>)" by (rule signals_loop_ok [OF calculation(1) S(2)])
  moreover have "registry_ok (?e1\<lparr>signals := S\<rparr>)" using \<open>registry_ok ?e1\<close> by (simp add: registry_ok_def)
  ultimately have a: "all_in_order s e (source_added s q ?e1)" "all_in_order s e (source_added s r (?e1\<lparr>signals := S\<rparr>))" for q
    using assms(3) by (intro source_added_ok; simp add: fresh_def)+
  show ?thesis
    using False a S(1) by (cases block) (auto simp: sd_event_add_signal_def joined_new Let_def split: nat.split)
qed

section \<open>Sources with a queue of their own\<close>

text \<open>The source is dropped again before it has come into its queue.\<close>

lemma never_joined_ok:
  assumes "loop_ok e" "registry_ok e" "s \<notin> attached e" "\<And>c. clock_ok (sources e) (C c) (members e c)" "exit_ok (sources e) (attached e) X"
    "\<And>c. created (clocks e c) \<Longrightarrow> created (C c)"
  shows "loop_ok ((joined s x e)\<lparr>clocks := C, exit_q := X, attached := attached e\<rparr>)"
    "registry_ok ((joined s x e)\<lparr>clocks := C, exit_q := X, attached := attached e\<rparr>)"
proof -
  note l = loop_okD [OF assms(1)]
  let ?e = "e\<lparr>pending_q := map_option (forget_index s) (pending_q e), prepare_q := map_option (forget_index s) (prepare_q e), clocks := C, exit_q := X\<rparr>"
  have "pending_ok (sources e) (attached e) (map_option (forget_index s) (pending_q e))"
    "prepare_ok (sources e) (attached e) (map_option (forget_index s) (prepare_q e))"
    using l(3,4) assms(3) by (auto simp: pending_ok_def prepare_ok_def intro: queue_of_forget)
  moreover have "members ?e = members e" "inotify_pending ?e = inotify_pending e" "children_online ?e = children_online e" "source_ok ?e = source_ok e"
    by (auto simp: members_def inotify_pending_def children_online_def source_ok_def fun_eq_iff)
  ultimately have "loop_ok ?e" using l(2) assms(4,5) by (simp add: loop_ok_def queues_ok_def books_ok_def)
  moreover have "registry_ok ?e" using assms(2,6) by (simp add: registry_ok_def)
  moreover have "(joined s x e)\<lparr>clocks := C, exit_q := X, attached := attached e\<rparr> = with_source s (\<lambda>_. x) ?e"
    by (cases e) (simp add: joined_def with_source_def)
  moreover have "s \<notin> attached ?e" using assms(3) by simp
  ultimately show "loop_ok ((joined s x e)\<lparr>clocks := C, exit_q := X, attached := attached e\<rparr>)"
    "registry_ok ((joined s x e)\<lparr>clocks := C, exit_q := X, attached := attached e\<rparr>)" using detached_ok [of ?e s "\<lambda>_. x"] by simp_all
qed

lemma leave_no_queue: "\<not> pending (sources e s) \<Longrightarrow> \<not> has_prepare (sources e s) \<Longrightarrow> \<not> ratelimited (sources e s) \<Longrightarrow> leave_queues s e = Inr e"
  by (simp add: leave_queues_def)

lemma exit_queue_ok:
  assumes "loop_ok e" "exit_ok (sources e) (attached e) X"
  shows "loop_ok (e\<lparr>exit_q := X\<rparr>)"
proof -
  have "members (e\<lparr>exit_q := X\<rparr>) = members e" "inotify_pending (e\<lparr>exit_q := X\<rparr>) = inotify_pending e"
    "children_online (e\<lparr>exit_q := X\<rparr>) = children_online e" "source_ok (e\<lparr>exit_q := X\<rparr>) = source_ok e"
    by (auto simp: members_def inotify_pending_def children_online_def source_ok_def fun_eq_iff)
  then show ?thesis using assms by (simp add: loop_ok_def queues_ok_def books_ok_def)
qed

lemma add_exit_ok:
  assumes "loop_ok e" "registry_ok e" "fresh s e"
  shows "all_in_order s e (sd_event_add_exit k s e)"
proof (cases "may_add e < 0")
  case True
  then show ?thesis using refused [OF assms(1,2)] by (simp add: sd_event_add_exit_def)
next
  case False
  let ?M = "\<lambda>e. {y \<in> attached e. src_type (sources e y) = SOURCE_EXIT}"
  have "queue_of (exit_rank (sources e)) (\<lambda>y. src_type (sources e y) = SOURCE_EXIT) (exit_q e) (?M e)"
    using loop_okD(5) [OF assms(1)] by (simp add: exit_ok_def)
  then obtain r q where q: "prioq_ensure_allocated (mem k 2) (\<lambda>_. PRIOQ_IDX_NULL) (exit_q e) = (r, q)"
    "queue_of (exit_rank (sources e)) (\<lambda>y. src_type (sources e y) = SOURCE_EXIT) q (?M e)" "r = 0 \<longrightarrow> q \<noteq> None" "r \<le> 0"
    "r = 0 \<or> q = exit_q e" "exit_q e \<noteq> None \<longrightarrow> q \<noteq> None" by (rule new_queue_ok)
  let ?e0 = "e\<lparr>exit_q := q\<rparr>"
  have e0: "loop_ok ?e0" using q(2) exit_queue_ok [OF assms(1)] by (simp add: exit_ok_def)
  have g0: "registry_ok ?e0" using assms(2) by (simp add: registry_ok_def)
  have no: "all_in_order s e (Inr (n, ?e0))" if "n < 0" for n using that e0 g0 by (simp add: all_in_order_def)
  show ?thesis
  proof (cases "r < 0 \<or> \<not> mem k 8")
    case True
    then show ?thesis using no False q(1) by (auto simp: sd_event_add_exit_def Let_def)
  next
    case ok: False
    then obtain p where p: "q = Some p" using q(3,4) by (cases q) auto
    have fresh: "fresh s ?e0" "s \<notin> attached e" "small (?M e)" using assms(3) small_subset [OF loop_okD(7) [OF assms(1)], of "?M e"] by (auto simp: fresh_def)
    let ?x = "(blank_source SOURCE_EXIT)\<lparr>enabled := SD_EVENT_ONESHOT\<rparr>"
    let ?e1 = "joined s ?x ?e0" and ?p = "forget_index s p"
    have x: "newborn ?x" "event_get_clock (src_type ?x) = None" "src_type ?x = SOURCE_EXIT" "\<not> pending ?x" "\<not> has_prepare ?x" "\<not> ratelimited ?x"
      by (simp_all add: newborn_def blank_source_def event_get_clock_def)
    note j = joined_ok [OF e0 fresh(1) x(1)]
    have same: "{y \<in> attached e. src_type (sources ?e1 y) = SOURCE_EXIT} = ?M e" "?M ?e1 = insert s (?M e)" using fresh(2) x(3) by auto
    have Q: "queue_of (exit_rank (sources ?e1)) (\<lambda>y. src_type (sources ?e1 y) = SOURCE_EXIT) (Some ?p) (?M e)"
      using j(3) same(1) queue_of_forget [of "exit_rank (sources ?e1)" "\<lambda>y. src_type (sources ?e1 y) = SOURCE_EXIT" q "?M e" s] fresh(2) p
      by (simp add: exit_ok_def)
    have run: "sd_event_add_exit k s e = rbind (prioq_put (exit_prioq_compare (sources ?e1)) (mem k 4) s (Some s) ?p)
        (\<lambda>(r, q). source_added s r (?e1\<lparr>exit_q := Some q\<rparr>))"
      using False ok q(1) p by (simp add: sd_event_add_exit_def joined_new queue_def)
    have s: "s \<notin> ?M e" "src_type (sources ?e1 s) = SOURCE_EXIT" "card (?M e) < 2 ^ 31 - 1" using fresh(2,3) x(3) by (simp_all add: small_def)
    show ?thesis
    proof (rule exits.puts [OF Q s, of "mem k 4"])
      fix q' assume put: "prioq_put (exit_prioq_compare (sources ?e1)) (mem k 4) s (Some s) ?p = Inr (0, q')"
        "queue_of (exit_rank (sources ?e1)) (\<lambda>y. src_type (sources ?e1 y) = SOURCE_EXIT) (Some q') (insert s (?M e))"
      let ?e2 = "?e1\<lparr>exit_q := Some q'\<rparr>"
      have "members ?e2 = members ?e1" "inotify_pending ?e2 = inotify_pending ?e1" "children_online ?e2 = children_online ?e1" "source_ok ?e2 = source_ok ?e1"
        by (auto simp: members_def inotify_pending_def children_online_def source_ok_def fun_eq_iff)
      moreover have "exit_ok (sources ?e1) (attached ?e1) (Some q')" using put(2) same(2) by (simp add: exit_ok_def)
      ultimately have "loop_ok ?e2" using j(1,2,4-6) x(2) by (simp add: loop_ok_def queues_ok_def books_ok_def)
      moreover have "registry_ok ?e2"
        using g0 fresh(2) x(2) registryD(1,3) [OF g0] unfolding registry_ok_def by (auto simp: blank_source_def)
      ultimately have "all_in_order s e (source_added s 0 ?e2)" using fresh(2) by (intro source_added_ok) simp_all
      then show ?thesis using run put(1) by simp
    next
      assume put: "prioq_put (exit_prioq_compare (sources ?e1)) (mem k 4) s (Some s) ?p = Inr (- ENOMEM, ?p)"
      let ?e2 = "?e1\<lparr>exit_q := Some ?p\<rparr>"
      have "holds id ?p (?M e)" using Q by (simp add: queue_of_def)
      then have "prioq_remove (exit_prioq_compare (sources ?e1)) s (Some s) (Some ?p) = Inr (0, Some ?p)" using s(1) by (rule exits.remove_absent)
      then have "disconnect_by_type s ?e2 = Inr ?e2" using x(3) by (simp add: disconnect_by_type_def event_source_is_time_def)
      then have "source_free s ?e2 = Inr (?e2\<lparr>attached := attached ?e2 - {s}\<rparr>)"
        using leave_no_queue [of ?e2 s] x(4-6) by (simp add: source_free_def source_disconnect_def)
      moreover have "?e2\<lparr>attached := attached ?e2 - {s}\<rparr> = (joined s ?x ?e0)\<lparr>clocks := clocks e, exit_q := Some ?p, attached := attached e\<rparr>"
        using fresh(2) by (simp add: joined_def)
      moreover have "exit_ok (sources ?e0) (attached ?e0) (Some ?p)"
        using queue_of_forget [OF q(2), of s] fresh(2) p by (simp add: exit_ok_def)
      then have "loop_ok ((joined s ?x ?e0)\<lparr>clocks := clocks e, exit_q := Some ?p, attached := attached ?e0\<rparr>)"
        "registry_ok ((joined s ?x ?e0)\<lparr>clocks := clocks e, exit_q := Some ?p, attached := attached ?e0\<rparr>)"
        using never_joined_ok [OF e0 g0, of s "clocks e" "Some ?p" ?x] loop_okD(6) [OF e0] fresh(2) by simp_all
      ultimately show ?thesis using run put by (simp add: source_added_def all_in_order_def)
    qed
  qed
qed

lemma clock_forget_ok:
  assumes "clock_ok \<sigma> d M" "s \<notin> M"
  shows "clock_ok \<sigma> (d\<lparr>earliest_q := map_option (forget_index s) (earliest_q d), latest_q := map_option (forget_index s) (latest_q d), needs_rearm := b\<rparr>) M"
    "clock_ok \<sigma> (d\<lparr>earliest_q := map_option (forget_index s) (earliest_q d), latest_q := map_option (forget_index s) (latest_q d)\<rparr>) M"
  using assms by (auto simp: clock_ok_def created_def intro: queue_of_forget)

lemma remove_no_member:
  assumes "clock_ok (sources e) (clocks e c) M" "s \<notin> M"
  shows "event_source_time_prioq_remove s c e = Inr (with_clock c (\<lambda>d. d\<lparr>earliest_q := map_option (forget_index s) (earliest_q d),
    latest_q := map_option (forget_index s) (latest_q d), needs_rearm := True\<rparr>) e)"
proof -
  have "prioq_remove (earliest_time_prioq_compare (sources e)) s (Some s) (earliest_q (clocks e c)) = Inr (0, earliest_q (clocks e c))"
    using clock_okD(1) [OF assms(1)] assms(2) earliest.remove_absent [of id _ M s "sources e" "Some s"]
    by (cases "earliest_q (clocks e c)") (auto simp: queue_of_def prioq_remove_def [of _ _ _ None])
  moreover have "prioq_remove (latest_time_prioq_compare (sources e)) s (Some s) (latest_q (clocks e c)) = Inr (0, latest_q (clocks e c))"
    using clock_okD(2) [OF assms(1)] assms(2) latest.remove_absent [of id _ M s "sources e" "Some s"]
    by (cases "latest_q (clocks e c)") (auto simp: queue_of_def prioq_remove_def [of _ _ _ None])
  ultimately show ?thesis by (simp add: event_source_time_prioq_remove_def with_clock_def Let_def)
qed

lemma source_type_clock: "event_get_clock (clock_to_event_source_type c) = Some c" "event_source_is_time (clock_to_event_source_type c)"
  "event_source_can_rate_limit (clock_to_event_source_type c)" "clock_to_event_source_type c \<notin> {SOURCE_WATCHDOG, SOURCE_INOTIFY, SOURCE_CHILD, SOURCE_IO, SOURCE_EXIT}"
  by (cases c; simp add: clock_to_event_source_type_def event_get_clock_def event_source_is_time_def event_source_can_rate_limit_def)+

lemma add_time_ok:
  assumes "loop_ok e" "registry_ok e" "fresh s e"
  shows "all_in_order s e (sd_event_add_time k s clock t accuracy e)"
proof (cases "accuracy = - 1 \<or> may_add e < 0 \<or> clock = None")
  case True
  then show ?thesis using refused [OF assms(1,2)] by (auto simp: sd_event_add_time_def)
next
  case False
  then obtain c where c: "clock = Some c" by auto
  let ?M = "members e"
  note l = loop_okD [OF assms(1)]
  obtain r d where su: "setup_clock_data k c e = (r, with_clock c (\<lambda>_. d) e)" "r \<le> 0" "clock_ok (sources e) d (?M c)" "r = 0 \<longrightarrow> created d"
    "created (clocks e c) \<longrightarrow> created d" by (rule setup_clock_ok [OF l(6)])
  let ?C = "(clocks e)(c := d)"
  let ?e0 = "e\<lparr>clocks := ?C\<rparr>"
  have C: "clock_ok (sources e) (?C x) (?M x)" "created (clocks e x) \<longrightarrow> created (?C x)" for x using su(3,5) l(6) by simp_all
  have e0: "loop_ok ?e0" by (rule loop_ok_clocks [OF assms(1) C(1)])
  have g0: "registry_ok ?e0" using assms(2) C(2) by (auto simp: registry_ok_def)
  have wc: "with_clock c (\<lambda>_. d) e = ?e0" by (simp add: with_clock_def)
  have no: "all_in_order s e (Inr (n, ?e0))" if "n < 0" for n using that e0 g0 by (simp add: all_in_order_def)
  show ?thesis
  proof (cases "r < 0 \<or> \<not> mem k 8")
    case True
    then show ?thesis using no False c su(1) wc by (auto simp: sd_event_add_time_def Let_def)
  next
    case ok: False
    then have made: "created d" using su(2,4) by auto
    have fresh: "fresh s ?e0" "s \<notin> attached e" "s \<notin> ?M c" "small (?M c)" for c using assms(3) l(8) by (auto simp: fresh_def members_def)
    let ?x = "(blank_source (clock_to_event_source_type c))\<lparr>time_next := t, time_accuracy := if accuracy = 0 then DEFAULT_ACCURACY_USEC else accuracy,
      enabled := SD_EVENT_ONESHOT\<rparr>"
    let ?e1 = "joined s ?x ?e0"
    let ?d = "d\<lparr>earliest_q := map_option (forget_index s) (earliest_q d), latest_q := map_option (forget_index s) (latest_q d)\<rparr>"
    let ?e2 = "?e1\<lparr>clocks := (clocks e)(c := ?d)\<rparr>"
    have x: "newborn ?x" "event_get_clock (src_type ?x) = Some c" "src_type ?x = clock_to_event_source_type c" "\<not> pending ?x" "\<not> has_prepare ?x"
      "\<not> ratelimited ?x" "limit_set ?x"
      using source_type_clock [of c] by (simp_all add: newborn_def blank_source_def limit_set_def)
    note j = joined_ok [OF e0 fresh(1) x(1)]
    have m0: "members ?e0 = ?M" by (simp add: members_def fun_eq_iff)
    have run: "sd_event_add_time k s clock t accuracy e = rbind (event_source_time_prioq_put (mem k 4) (mem k 5) s c ?e2) (\<lambda>(r, e). source_added s r e)"
      using False ok c su(1) by (simp add: sd_event_add_time_def joined_new with_clock_def Let_def)
    have clk: "clock_ok (sources ?e2) (clocks ?e2 y) (?M y)" for y
      using clock_forget_ok(2) [of "sources ?e1" d "?M c" s] j(5) [of y] fresh(3) m0 by (cases "y = c") simp_all
    have "\<exists>r d'. event_source_time_prioq_put (mem k 4) (mem k 5) s c ?e2 = Inr (r, with_clock c (\<lambda>_. d') ?e2) \<and> created d' \<and>
      (r = 0 \<and> clock_ok (sources ?e2) d' (insert s (?M c)) \<or>
       r = - ENOMEM \<and> \<not> (mem k 4 \<and> mem k 5) \<and> \<not> room (clocks ?e2 c) (?M c) \<and> clock_ok (sources ?e2) d' (?M c))"
      by (rule time_prioq_put_ok [OF clk]) (use made fresh(3,4) x(3,7) source_type_clock(3) in \<open>simp_all add: created_def\<close>)
    then obtain r' d' where put: "event_source_time_prioq_put (mem k 4) (mem k 5) s c ?e2 = Inr (r', ?e1\<lparr>clocks := (clocks e)(c := d')\<rparr>)" "created d'"
      "r' = 0 \<and> clock_ok (sources ?e1) d' (insert s (?M c)) \<or> r' = - ENOMEM \<and> clock_ok (sources ?e1) d' (?M c)"
      by (auto simp: with_clock_def)
    let ?e3 = "?e1\<lparr>clocks := (clocks e)(c := d')\<rparr>"
    have made3: "created (clocks e y) \<longrightarrow> created (((clocks e)(c := d')) y)" for y using put(2) by simp
    show ?thesis
    proof (cases "r' = 0")
      case True
      then have cd: "clock_ok (sources ?e1) d' (insert s (?M c))" using put(3) by (auto simp: ENOMEM_def)
      have type: "src_type ?x \<noteq> SOURCE_EXIT" using x(3) source_type_clock(4) [of c] by simp
      have "members ?e3 = members ?e1" "inotify_pending ?e3 = inotify_pending ?e1" "children_online ?e3 = children_online ?e1" "source_ok ?e3 = source_ok ?e1"
        by (auto simp: members_def inotify_pending_def children_online_def source_ok_def fun_eq_iff)
      moreover have "clock_ok (sources ?e1) (clocks ?e3 y) (members ?e1 y)" for y
        using cd j(5,6) [of y] x(2) m0 by (cases "y = c") simp_all
      ultimately have "loop_ok ?e3" using j(1,2,4) joined_exits [OF e0 fresh(1) x(1) type] by (simp add: loop_ok_def queues_ok_def books_ok_def)
      moreover have "registry_ok ?e3"
        using assms(2) fresh(2) made3 x(1-3) put(2) source_type_clock(3) [of c] registryD(1,3) [OF assms(2)] unfolding registry_ok_def by auto
      ultimately have "all_in_order s e (source_added s 0 ?e3)" using fresh(2) by (intro source_added_ok) simp_all
      then show ?thesis using run put(1) True by simp
    next
      case False
      then have f: "r' = - ENOMEM" "clock_ok (sources ?e1) d' (?M c)" using put(3) by auto
      let ?d' = "d'\<lparr>earliest_q := map_option (forget_index s) (earliest_q d'), latest_q := map_option (forget_index s) (latest_q d'), needs_rearm := True\<rparr>"
      let ?C' = "(clocks e)(c := ?d')"
      have "clock_ok (sources ?e3) (clocks ?e3 c) (?M c)" using f(2) by simp
      then have "event_source_time_prioq_remove s c ?e3 = Inr (?e1\<lparr>clocks := ?C'\<rparr>)"
        using remove_no_member [OF _ fresh(3) [of c], of ?e3] by (simp add: with_clock_def)
      then have "disconnect_by_type s ?e3 = Inr (?e1\<lparr>clocks := ?C'\<rparr>)"
        using x(2,3,6) source_type_clock [of c] by (simp add: disconnect_by_type_def disconnect_time_def)
      then have "source_free s ?e3 = Inr (?e1\<lparr>clocks := ?C', attached := attached ?e1 - {s}\<rparr>)"
        using leave_no_queue [of "?e1\<lparr>clocks := ?C'\<rparr>" s] x(4-6) by (simp add: source_free_def source_disconnect_def)
      moreover have "?e1\<lparr>clocks := ?C', attached := attached ?e1 - {s}\<rparr> = ?e1\<lparr>clocks := ?C', exit_q := exit_q ?e0, attached := attached ?e0\<rparr>"
        using fresh(2) by (simp add: joined_def)
      moreover have "clock_ok (sources ?e0) (?C' y) (members ?e0 y)" for y
      proof (cases "y = c")
        case True
        have "clock_ok (sources e) d' (?M c)" by (rule clock_ok_other [OF f(2) fresh(3)]) simp
        then show ?thesis using True clock_forget_ok(1) [OF _ fresh(3)] m0 by simp
      next
        case False
        then show ?thesis using l(6) m0 by simp
      qed
      moreover have "created (clocks ?e0 y) \<Longrightarrow> created (?C' y)" for y using put(2) by (auto simp: created_def)
      ultimately have "source_free s ?e3 = Inr (?e1\<lparr>clocks := ?C', exit_q := exit_q ?e0, attached := attached ?e0\<rparr>)"
        "loop_ok (?e1\<lparr>clocks := ?C', exit_q := exit_q ?e0, attached := attached ?e0\<rparr>)"
        "registry_ok (?e1\<lparr>clocks := ?C', exit_q := exit_q ?e0, attached := attached ?e0\<rparr>)"
        using never_joined_ok [OF e0 g0, of s ?C' "exit_q ?e0" ?x] fresh(2) loop_okD(5) [OF e0] by auto
      then show ?thesis using run put(1) f(1) by (simp add: source_added_def all_in_order_def)
    qed
  qed
qed

section \<open>All or nothing\<close>

text \<open>
  What a call leaves alone, whatever it returns: all that has nothing to do with sources, the clocks, the exit queue and the signals that the new source
  has no use for.
\<close>

definition alone :: "event_source \<Rightarrow> event_loop \<Rightarrow> event_loop \<Rightarrow> bool" where
  "alone x e e' \<longleftrightarrow> same_state e e' \<and> n_pending e' = n_pending e \<and> online_children e' = online_children e \<and> inotify_of e' = inotify_of e \<and>
     (src_type x \<noteq> SOURCE_EXIT \<longrightarrow> exit_q e' = exit_q e) \<and> (\<forall>c. event_get_clock (src_type x) \<noteq> Some c \<longrightarrow> clocks e' c = clocks e c) \<and>
     (\<forall>p. watched e' p - own_signals x = watched e p - own_signals x)"

text \<open>The new source \<open>x\<close> has its place in the tables, and the kernel is told of it.\<close>

definition placed :: "nat \<Rightarrow> event_source \<Rightarrow> event_loop \<Rightarrow> event_loop \<Rightarrow> bool" where
  "placed s x e e' \<longleftrightarrow> sources e' s = x \<and> post_sources e' = (if src_type x = SOURCE_POST then insert s (post_sources e) else post_sources e) \<and>
     signal_sources e' = (if src_type x = SOURCE_SIGNAL then (signal_sources e)(signal_no x \<mapsto> s) else signal_sources e) \<and> kernel_watches s e' \<and>
     (\<forall>c. event_get_clock (src_type x) = Some c \<longrightarrow> needs_rearm (clocks e' c))"

text \<open>Nothing of it is left; signals that were watched for no source may no longer be watched.\<close>

definition undone :: "event_loop \<Rightarrow> event_loop \<Rightarrow> bool" where
  "undone e e' \<longleftrightarrow> post_sources e' = post_sources e \<and> signal_sources e' = signal_sources e \<and> (\<forall>p. watched e' p \<subseteq> watched e p)"

definition settled :: "nat \<Rightarrow> event_source \<Rightarrow> bool \<Rightarrow> event_loop \<Rightarrow> int \<Rightarrow> event_loop \<Rightarrow> bool" where
  "settled s x good e r e' \<longleftrightarrow> (good \<longrightarrow> r = 0) \<and> alone x e e' \<and> (if r < 0 then undone e e' else placed s x e e')"

lemma settled_refused: "e' = e \<Longrightarrow> r < 0 \<Longrightarrow> \<not> good \<Longrightarrow> settled s x good e r e'"
  by (simp add: settled_def alone_def undone_def same_state_def)

lemma leave_newborn:
  assumes "newborn (sources e s)" "sources e' s = sources e s \<or> sources e' s = (sources e s)\<lparr>registered := b\<rparr>"
  shows "leave_queues s e' = Inr e'"
  by (rule leave_no_queue) (use assms in \<open>auto simp: newborn_def\<close>)

lemma free_newborn:
  assumes "source_free s e = Inr e'" "s \<in> attached e" "newborn (sources e s)" "signals_ok e"
  shows "alone (sources e s) e e' \<and> (\<forall>p. watched e' p \<subseteq> watched e p) \<and>
    post_sources e' = (if src_type (sources e s) = SOURCE_POST then post_sources e - {s} else post_sources e) \<and>
    signal_sources e' = (if src_type (sources e s) = SOURCE_SIGNAL \<and> 0 < signal_no (sources e s) then (signal_sources e)(signal_no (sources e s) := None)
      else signal_sources e)"
proof -
  let ?x = "sources e s"
  obtain e1 e2 where run: "disconnect_by_type s e = Inr e1" "leave_queues s e1 = Inr e2" "e' = e2\<lparr>attached := attached e2 - {s}\<rparr>"
    using assms(1,2) by (auto simp: source_free_def source_disconnect_def res_iff)
  have x: "src_type ?x \<notin> {SOURCE_WATCHDOG, SOURCE_INOTIFY, SOURCE_CHILD}" "\<not> ratelimited ?x" using assms(3) by (auto simp: newborn_def)
  have e1: "alone ?x e e1 \<and> (\<forall>p. watched e1 p \<subseteq> watched e p) \<and> (\<exists>b. sources e1 s = ?x \<or> sources e1 s = ?x\<lparr>registered := b\<rparr>) \<and>
    post_sources e1 = (if src_type ?x = SOURCE_POST then post_sources e - {s} else post_sources e) \<and>
    signal_sources e1 = (if src_type ?x = SOURCE_SIGNAL \<and> 0 < signal_no ?x then (signal_sources e)(signal_no ?x := None) else signal_sources e)"
  proof (cases "src_type ?x = SOURCE_SIGNAL \<and> 0 < signal_no ?x")
    case True
    let ?e = "e\<lparr>signal_sources := (signal_sources e)(signal_no ?x := None)\<rparr>"
    have gc: "event_gc_signal_data (priority ?x) (signal_no ?x) ?e = Inr e1"
      using run(1) True by (simp add: disconnect_by_type_def disconnect_signal_def event_source_is_time_def Let_def)
    have "signals_ok ?e" using assms(4) by (simp add: signals_ok_def)
    then obtain S where "event_gc_signal_data (priority ?x) (signal_no ?x) ?e = Inr (?e\<lparr>signals := S\<rparr>)" by (rule gc_signal_ok)
    then have S: "e1 = ?e\<lparr>signals := S\<rparr>" using gc by simp
    have "watched ?e p = watched e p" for p by (simp add: watched_def)
    then have w: "watched e1 p \<subseteq> watched e p" "watched e p - {signal_no ?x} \<subseteq> watched e1 p" for p using gc_watched(1,2) [OF gc, of p] by simp_all
    have "alone ?x e e1" unfolding alone_def using w True S by (auto simp: own_signals_def same_state_def)
    then show ?thesis using w(1) True S by simp
  next
    case False
    note defs = disconnect_by_type_def disconnect_signal_def event_source_is_time_def Let_def
    consider "src_type ?x = SOURCE_IO" | "src_type ?x = SOURCE_SIGNAL" | "src_type ?x = SOURCE_POST" | "src_type ?x = SOURCE_EXIT"
      | "src_type ?x = SOURCE_DEFER" | c where "event_source_is_time (src_type ?x)" "event_get_clock (src_type ?x) = Some c"
      using x(1) by (cases "src_type ?x") (auto simp: event_source_is_time_def event_get_clock_def)
    then show ?thesis
    proof cases
      case 1
      then have "e1 = e \<or> e1 = with_source s (\<lambda>x. x\<lparr>registered := False\<rparr>) e"
        using run(1) by (auto simp: defs source_io_unregister_def split: if_splits)
      then show ?thesis using 1 by (elim disjE) (auto simp: alone_def same_state_def watched_def)
    next
      case 2
      then have "e1 = e" using run(1) False by (simp add: defs)
      then show ?thesis using 2 False by (auto simp: alone_def same_state_def)
    next
      case 3
      then have "e1 = e\<lparr>post_sources := post_sources e - {s}\<rparr>" using run(1) by (simp add: defs)
      then show ?thesis using 3 by (simp add: alone_def same_state_def watched_def)
    next
      case 4
      then obtain q where "e1 = e\<lparr>exit_q := q\<rparr>" using run(1) by (auto simp: defs res_iff)
      then show ?thesis using 4 by (simp add: alone_def same_state_def watched_def event_get_clock_def)
    next
      case 5
      then have "e1 = e" using run(1) by (simp add: defs)
      then show ?thesis using 5 by (simp add: alone_def same_state_def)
    next
      case 6
      then have rem: "event_source_time_prioq_remove s c e = Inr e1" and t: "src_type ?x \<notin> {SOURCE_IO, SOURCE_POST, SOURCE_SIGNAL, SOURCE_EXIT}"
        using run(1) x(2) by (auto simp: disconnect_by_type_def disconnect_time_def event_source_is_time_def)
      obtain d where "e1 = with_clock c d e" using rem by (auto simp: event_source_time_prioq_remove_def Let_def res_iff)
      then show ?thesis using 6 t by (simp add: with_clock_def alone_def same_state_def watched_def)
    qed
  qed
  then obtain b where "sources e1 s = ?x \<or> sources e1 s = ?x\<lparr>registered := b\<rparr>" by blast
  then have "e2 = e1" using leave_newborn [OF assms(3)] run(2) by simp
  moreover have "watched (e1\<lparr>attached := A\<rparr>) = watched e1" for A by (simp add: watched_def fun_eq_iff)
  ultimately show ?thesis using e1 run(3) by (simp add: alone_def same_state_def)
qed

lemma settled_added:
  assumes "source_added s r e1 = Inr (r', e')" "alone x e e1" "s \<in> attached e1" "signals_ok e1" "0 \<le> r \<Longrightarrow> placed s x e e1" "good \<Longrightarrow> 0 \<le> r"
    "r < 0 \<Longrightarrow> newborn (sources e1 s) \<and> src_type (sources e1 s) = src_type x \<and> signal_no (sources e1 s) = signal_no x \<and>
      (\<forall>p. watched e1 p \<subseteq> watched e p) \<and> post_sources e1 - (if src_type x = SOURCE_POST then {s} else {}) = post_sources e \<and>
      (if src_type x = SOURCE_SIGNAL then 0 < signal_no x \<and> (signal_sources e1)(signal_no x := None) = signal_sources e else signal_sources e1 = signal_sources e)"
  shows "settled s x good e r' e'"
proof (cases "r < 0")
  case False
  then show ?thesis using assms(1,2,5) by (simp add: source_added_def settled_def)
next
  case True
  note u = assms(7) [OF True]
  have f: "source_free s e1 = Inr e'" "r' = r" using assms(1) True by (auto simp: source_added_def res_iff)
  have nb: "newborn (sources e1 s)" using u by blast
  have "own_signals (sources e1 s) = own_signals x" using u nb by (auto simp: own_signals_def newborn_def)
  moreover note fr = free_newborn [OF f(1) assms(3) nb assms(4)]
  have "watched e' p \<subseteq> watched e p" for p using fr u by (meson order_trans)
  ultimately have "alone x e1 e'" "undone e e'" using fr u by (auto simp: alone_def undone_def split: if_splits)
  then have "alone x e e'" using assms(2) by (simp add: alone_def same_state_def)
  then show ?thesis using \<open>undone e e'\<close> True f(2) assms(6) by (auto simp: settled_def)
qed

lemma joined_watched [simp]: "watched (joined s x e) = watched e"
  by (simp add: watched_def fun_eq_iff)

lemma joined_alone [simp]: "alone y e (joined s x e)"
  unfolding alone_def by (simp add: same_state_def) (simp add: joined_def)

lemma joined_signals_ok [simp]: "signals_ok (joined s x e) = signals_ok e"
  by (simp add: signals_ok_def)

lemma alone_trans: "alone x e e1 \<Longrightarrow> alone x e1 e2 \<Longrightarrow> alone x e e2"
  by (simp add: alone_def same_state_def)

lemma newborn_blank [simp]: "newborn (blank_source t) = (t \<notin> {SOURCE_WATCHDOG, SOURCE_INOTIFY, SOURCE_CHILD})"
  by (simp add: newborn_def blank_source_def)

definition prepared :: "kernel \<Rightarrow> event_loop \<Rightarrow> bool" where \<comment> \<open>no call can be refused\<close>
  "prepared k e \<longleftrightarrow> willing k \<and> \<not> finished e \<and> \<not> pid_changed e"

definition io_source :: event_source where
  "io_source = (blank_source SOURCE_IO)\<lparr>enabled := SD_EVENT_ON, registered := True\<rparr>"

lemma io_settled:
  assumes "sd_event_add_io k s fd events e = Inr (r, e')" "signals_ok e"
  shows "settled s io_source (prepared k e \<and> 0 \<le> fd \<and> events AND NOT EPOLL_EVENTS = 0) e r e'"
proof (cases "fd < 0 \<or> events AND NOT EPOLL_EVENTS \<noteq> 0 \<or> may_add e < 0 \<or> \<not> mem k 8")
  case True
  then have "e' = e" "r < 0" using assms(1) by (auto simp: sd_event_add_io_def split: if_splits)
  moreover have "\<not> (prepared k e \<and> 0 \<le> fd \<and> events AND NOT EPOLL_EVENTS = 0)" using True
    by (auto simp: prepared_def willing_def may_add_def)
  ultimately show ?thesis by (rule settled_refused)
next
  case False
  let ?x = "(blank_source SOURCE_IO)\<lparr>enabled := SD_EVENT_ON\<rparr>" and ?n = "epoll_ctl k EPOLL_CTL_ADD"
  let ?e = "joined s ?x e"
  let ?e1 = "with_source s (\<lambda>x. x\<lparr>registered := True\<rparr>) ?e"
  have x: "src_type (sources ?e s) = SOURCE_IO" "\<not> registered (sources ?e s)" "newborn (sources ?e s)" "signal_no (sources ?e s) = signal_no io_source"
    "src_type io_source = SOURCE_IO" by (simp_all add: blank_source_def newborn_def io_source_def)
  have run: "source_added s (if ?n \<noteq> 0 then - int ?n else 0) (if ?n \<noteq> 0 then ?e else ?e1) = Inr (r, e')"
    using assms(1) False x(1,2) by (simp add: sd_event_add_io_def joined_new source_io_register_def rassert_def Let_def split: if_splits)
  have "alone io_source e (if ?n \<noteq> 0 then ?e else ?e1)"
    using joined_alone [of io_source e s ?x] by (auto simp: alone_def same_state_def watched_def)
  moreover have "placed s io_source e ?e1"
    by (simp add: placed_def io_source_def blank_source_def kernel_watches_def own_signals_def EVENT_SOURCE_WATCH_PIDFD_def event_get_clock_def)
  ultimately show ?thesis
    by (intro settled_added [OF run]) (use x assms(2) in \<open>auto simp: prepared_def willing_def signals_ok_def split: if_splits\<close>)
qed

definition defer_source :: "event_loop \<Rightarrow> event_source" where
  "defer_source e = (blank_source SOURCE_DEFER)\<lparr>enabled := SD_EVENT_ONESHOT, pending := True, pending_iteration := iteration e\<rparr>"

lemma pending_put_rest:
  assumes "pending_put ok s e = Inr (r, e')"
  shows "n_pending e' = n_pending e \<and> online_children e' = online_children e \<and> exit_q e' = exit_q e \<and> clocks e' = clocks e \<and> watched e' = watched e"
  using assms by (auto simp: pending_put_def Let_def res_iff watched_def fun_eq_iff split: if_splits)

lemma set_pending_defer:
  assumes "source_set_pending ok s True e = Inr (r, e')" "src_type (sources e s) = SOURCE_DEFER" "\<not> pending (sources e s)"
  shows "n_pending e' = n_pending e \<and> online_children e' = online_children e \<and> exit_q e' = exit_q e \<and> clocks e' = clocks e \<and> watched e' = watched e"
proof -
  let ?e = "with_source s (\<lambda>x. x\<lparr>pending := True\<rparr>) e"
  have "source_set_pending ok s True e = rbind (pending_put ok s ?e) (\<lambda>(r, e). if r < 0 then Inr (r, e) else Inr (1, e))"
    using assms(2,3) by (simp add: source_set_pending_def rassert_def event_source_is_time_def Let_def cong: if_cong)
  then have "rbind (pending_put ok s ?e) (\<lambda>(r, e). if r < 0 then Inr (r, e) else Inr (1, e)) = Inr (r, e')" using assms(1) by simp
  then obtain rp where "pending_put ok s ?e = Inr (rp, e')" by (auto simp: res_iff split: if_splits)
  then show ?thesis using pending_put_rest by (fastforce simp: watched_def fun_eq_iff)
qed

lemma defer_settled:
  assumes "sd_event_add_defer k s e = Inr (r, e')" "loop_ok e" "registry_ok e" "fresh s e"
  shows "settled s (defer_source e) (prepared k e) e r e'"
proof (cases "may_add e < 0 \<or> \<not> mem k 8")
  case True
  then have "e' = e" "r < 0" using assms(1) by (auto simp: sd_event_add_defer_def split: if_splits)
  then show ?thesis using True by (intro settled_refused) (auto simp: prepared_def willing_def may_add_def)
next
  case False
  let ?x = "(blank_source SOURCE_DEFER)\<lparr>enabled := SD_EVENT_ONESHOT\<rparr>" and ?y = "defer_source e"
  let ?e = "joined s ?x e"
  have e: "loop_ok ?e" using joined_loop_ok [OF assms(2-4), of ?x] by (simp add: newborn_def blank_source_def event_get_clock_def)
  have x: "src_type ?x = SOURCE_DEFER" "src_type ?y = SOURCE_DEFER" "signal_no ?y = 0" "signal_no ?x = 0" "newborn ?x" "\<not> pending ?x"
    by (simp_all add: defer_source_def blank_source_def newborn_def)
  obtain r0 e1 where put: "source_set_pending (mem k 9) s True ?e = Inr (r0, e1)" "source_added s r0 e1 = Inr (r, e')"
    using assms(1) False by (auto simp: sd_event_add_defer_def joined_new res_iff split: if_splits)
  have at: "s \<in> attached ?e" "src_type (sources ?e s) \<noteq> SOURCE_EXIT" using x(1) by simp_all
  have ok: "loop_ok e1" "same_loop ?e e1" and src: "0 \<le> r0 \<and> sources e1 = (sources ?e)(s := marked True (iteration ?e) (sources ?e s)) \<or>
      \<not> mem k 9 \<and> r0 = - ENOMEM \<and> sources e1 = (sources ?e)(s := (sources ?e s)\<lparr>pending_iteration := iteration ?e\<rparr>)"
    using set_pending_ok [OF e at, of "mem k 9" True] put(1) by auto
  have rest: "n_pending e1 = n_pending ?e \<and> online_children e1 = online_children ?e \<and> exit_q e1 = exit_q ?e \<and> clocks e1 = clocks ?e \<and> watched e1 = watched ?e"
    by (rule set_pending_defer [OF put(1)]) (use x(1,6) in simp_all)
  have "alone ?y ?e e1" using rest ok(2) by (simp add: alone_def same_state_def same_loop_def)
  then have al: "alone ?y e e1" by (rule alone_trans [OF joined_alone])
  have "signals_ok e1" by (rule loop_signals_ok [OF ok(1)])
  moreover have "placed s ?y e e1" if "0 \<le> r0"
  proof -
    have "marked True (iteration e) ?x = ?y" by (simp add: marked_def defer_source_def blank_source_def)
    then have "sources e1 s = ?y" using src that by (auto simp: ENOMEM_def)
    then show ?thesis using x(2) same_loopD(5,10) [OF ok(2)]
      by (simp add: placed_def kernel_watches_def own_signals_def EVENT_SOURCE_WATCH_PIDFD_def event_get_clock_def)
  qed
  moreover have "newborn (sources e1 s) \<and> src_type (sources e1 s) = SOURCE_DEFER \<and> signal_no (sources e1 s) = 0" if "r0 < 0"
    using src that x(1,4,5) by (auto simp: newborn_def)
  moreover have "mem k 9" if "prepared k e" using that by (simp add: prepared_def willing_def)
  moreover have "s \<in> attached e1" using same_loopD(1) [OF ok(2)] by simp
  ultimately show ?thesis
    by (intro settled_added [OF put(2) al]) (use src x(2,3) rest same_loopD(5,10) [OF ok(2)] in auto)
qed

definition post_source :: event_source where
  "post_source = (blank_source SOURCE_POST)\<lparr>enabled := SD_EVENT_ON\<rparr>"

lemma post_settled:
  assumes "sd_event_add_post k s e = Inr (r, e')" "signals_ok e" "s \<notin> post_sources e"
  shows "settled s post_source (prepared k e) e r e'"
proof (cases "may_add e < 0 \<or> \<not> mem k 8")
  case True
  then have "e' = e" "r < 0" using assms(1) by (auto simp: sd_event_add_post_def split: if_splits)
  then show ?thesis using True by (intro settled_refused) (auto simp: prepared_def willing_def may_add_def)
next
  case False
  let ?e = "joined s post_source e"
  let ?e1 = "if mem k 9 then ?e\<lparr>post_sources := insert s (post_sources ?e)\<rparr> else ?e"
  have x: "src_type post_source = SOURCE_POST" "newborn post_source" by (simp_all add: post_source_def blank_source_def newborn_def)
  have run: "source_added s (if mem k 9 then 1 else - ENOMEM) ?e1 = Inr (r, e')"
    using assms(1,3) False by (simp add: sd_event_add_post_def joined_new post_source_def rassert_def Let_def split: if_splits)
  have "alone post_source e ?e1" using joined_alone [of post_source e s post_source] by (simp add: alone_def same_state_def watched_def)
  moreover have "placed s post_source e (?e\<lparr>post_sources := insert s (post_sources ?e)\<rparr>)"
    using x by (simp add: placed_def kernel_watches_def own_signals_def EVENT_SOURCE_WATCH_PIDFD_def event_get_clock_def)
  ultimately show ?thesis
    by (intro settled_added [OF run]) (use x assms(2,3) in \<open>auto simp: prepared_def willing_def signals_ok_def ENOMEM_def split: if_splits\<close>)
qed

definition signal_source_of :: "int \<Rightarrow> event_source" where
  "signal_source_of g = (blank_source SOURCE_SIGNAL)\<lparr>signal_no := g, enabled := SD_EVENT_ON\<rparr>"

lemma signal_settled:
  assumes "sd_event_add_signal k s g block blocked e = Inr (r, e')" "signals_ok e"
  shows "settled s (signal_source_of g) (prepared k e \<and> SIGNAL_VALID g \<and> (block = Some 0 \<or> block = None \<and> 0 < blocked) \<and> signal_sources e g = None) e r e'"
proof (cases "signal_refusal k g block blocked e < 0")
  case True
  then have "e' = e" "r < 0" using assms(1) by (auto simp: sd_event_add_signal_def)
  then show ?thesis using True by (intro settled_refused) (auto simp: signal_refusal_def prepared_def willing_def may_add_def split: if_splits)
next
  case False
  let ?x = "signal_source_of g"
  let ?e = "(joined s ?x e)\<lparr>signal_sources := (signal_sources e)(g \<mapsto> s)\<rparr>"
  have g: "signal_sources e g = None" "0 < g" "\<not> pid_changed e"
    using False by (auto simp: signal_refusal_def SIGNAL_VALID_def may_add_def ECHILD_def ESTALE_def split: if_splits)
  have x: "src_type ?x = SOURCE_SIGNAL" "signal_no ?x = g" "newborn ?x" "own_signals ?x = {g}"
    by (simp_all add: signal_source_of_def blank_source_def newborn_def own_signals_def)
  have e: "signals_ok ?e" "watched ?e = watched e" using assms(2) by (simp_all add: signals_ok_def watched_def fun_eq_iff)
  obtain r0 S where S: "event_make_signal_data k g ?e = (r0, ?e\<lparr>signals := S\<rparr>)" "signals_ok (?e\<lparr>signals := S\<rparr>)" "r0 \<le> 0"
    by (rule make_signal_ok [OF e(1)])
  note w = make_signal_watched [OF S(1) e(1)]
  have undo: "(signal_sources ?e)(g := None) = signal_sources e" using g(1) by (simp add: fun_upd_idem)
  show ?thesis
  proof (cases "\<exists>n. block = Some (Suc n)")
    case True
    then obtain n where n: "block = Some (Suc n)" by blast
    have run: "source_added s (- int (Suc n)) ?e = Inr (r, e')"
      using assms(1) False n by (simp add: sd_event_add_signal_def joined_new signal_source_of_def Let_def)
    have "alone ?x e ?e" using joined_alone [of ?x e s ?x] e(2) by (simp add: alone_def same_state_def)
    then show ?thesis by (intro settled_added [OF run]) (use x e g undo n in auto)
  next
    case no: False
    let ?e1 = "?e\<lparr>signals := S\<rparr>"
    have run: "source_added s r0 ?e1 = Inr (r, e')"
      using assms(1) False no S(1) by (auto simp: sd_event_add_signal_def joined_new signal_source_of_def Let_def split: option.splits nat.splits)
    have "alone ?x e ?e" using joined_alone [of ?x e s ?x] e(2) by (simp add: alone_def same_state_def)
    moreover have "alone ?x ?e ?e1" using w(1,2) S(3) x(4) by (cases "r0 < 0") (auto simp: alone_def same_state_def)
    ultimately have al: "alone ?x e ?e1" by (rule alone_trans)
    have "signal_priority g ?e1 = signal_priority g ?e" by (simp add: signal_priority_def)
    then have "kernel_watches s ?e1" if "0 \<le> r0" using w(2) that x by (simp add: kernel_watches_def EVENT_SOURCE_WATCH_PIDFD_def)
    then have "placed s ?x e ?e1" if "0 \<le> r0" using that x by (simp add: placed_def event_get_clock_def)
    moreover have "0 \<le> r0" if "prepared k e" using that w(3) g(3) by (simp add: prepared_def)
    ultimately show ?thesis by (intro settled_added [OF run al]) (use x e g undo S w(1) in auto)
  qed
qed

definition exit_source :: event_source where
  "exit_source = (blank_source SOURCE_EXIT)\<lparr>enabled := SD_EVENT_ONESHOT\<rparr>"

lemma settled_exit_queue: "q' = e\<lparr>exit_q := q\<rparr> \<Longrightarrow> r < 0 \<Longrightarrow> \<not> good \<Longrightarrow> settled s exit_source good e r q'"
  by (simp add: settled_def alone_def undone_def same_state_def watched_def exit_source_def blank_source_def)

lemma exit_settled:
  assumes "sd_event_add_exit k s e = Inr (r, e')" "signals_ok e"
  shows "settled s exit_source (prepared k e) e r e'"
proof (cases "may_add e < 0")
  case True
  then have "e' = e" "r < 0" using assms(1) by (auto simp: sd_event_add_exit_def)
  then show ?thesis using True by (intro settled_refused) (auto simp: prepared_def willing_def may_add_def)
next
  case False
  obtain r0 q where q: "prioq_ensure_allocated (mem k 2) (\<lambda>_. PRIOQ_IDX_NULL) (exit_q e) = (r0, q)" by fastforce
  have q0: "mem k 2 \<Longrightarrow> 0 \<le> r0" using q by (auto simp: prioq_ensure_allocated_def prioq_new_def split: option.splits)
  show ?thesis
  proof (cases "r0 < 0 \<or> \<not> mem k 8")
    case True
    then have "e' = e\<lparr>exit_q := q\<rparr>" "r < 0" using assms(1) False q by (auto simp: sd_event_add_exit_def Let_def split: if_splits)
    then show ?thesis using True q0 by (intro settled_exit_queue) (auto simp: prepared_def willing_def)
  next
    case ok: False
    obtain r1 q1 q2 where put: "prioq_put (exit_prioq_compare ((sources e)(s := exit_source))) (mem k 4) s (Some s) q1 = Inr (r1, q2)"
      and run: "source_added s r1 ((joined s exit_source e)\<lparr>exit_q := Some q2\<rparr>) = Inr (r, e')"
    proof -
      let ?e = "(joined s exit_source (e\<lparr>exit_q := q\<rparr>))\<lparr>exit_q := map_option (forget_index s) q\<rparr>"
      have "rbind (queue (exit_q ?e)) (\<lambda>q. rbind (prioq_put (exit_prioq_compare (sources ?e)) (mem k 4) s (Some s) q)
          (\<lambda>(r, q). source_added s r (?e\<lparr>exit_q := Some q\<rparr>))) = Inr (r, e')"
        using assms(1) False ok q by (simp add: sd_event_add_exit_def joined_new exit_source_def Let_def)
      then obtain q1 r1 q2 where "prioq_put (exit_prioq_compare (sources ?e)) (mem k 4) s (Some s) q1 = Inr (r1, q2)"
        "source_added s r1 (?e\<lparr>exit_q := Some q2\<rparr>) = Inr (r, e')" by (auto simp: res_iff)
      then show ?thesis by (intro that) (simp_all add: joined_def)
    qed
    let ?e1 = "(joined s exit_source e)\<lparr>exit_q := Some q2\<rparr>"
    have x: "src_type exit_source = SOURCE_EXIT" "newborn exit_source" by (simp_all add: exit_source_def blank_source_def newborn_def)
    have al: "alone exit_source e ?e1" using joined_alone [of exit_source e s exit_source] x(1) by (simp add: alone_def same_state_def watched_def)
    have "placed s exit_source e ?e1"
      using x by (simp add: placed_def kernel_watches_def own_signals_def EVENT_SOURCE_WATCH_PIDFD_def event_get_clock_def)
    moreover have "0 \<le> r1" if "prepared k e" using prioq_put_refused [OF put] that by (simp add: prepared_def willing_def)
    moreover have "watched ?e1 = watched e" "signals_ok ?e1" using assms(2) by (simp_all add: watched_def signals_ok_def fun_eq_iff)
    ultimately show ?thesis by (intro settled_added [OF run al]) (use x in auto)
  qed
qed

lemma setup_clock_willing:
  assumes "setup_clock_data k c e = (r, e')" "willing k"
  shows "0 \<le> r"
proof -
  have "\<not> timerfd_create k c < 0" "epoll_ctl k oper = 0" "mem k i" for oper i using assms(2) by (auto simp: willing_def not_less)
  then show ?thesis
    using assms(1) by (auto simp: setup_clock_data_def event_setup_timer_fd_def prioq_ensure_allocated_def prioq_new_def Let_def split: if_splits option.splits)
qed

definition time_source :: "clock \<Rightarrow> usec \<Rightarrow> usec \<Rightarrow> event_source" where
  "time_source c t accuracy = (blank_source (clock_to_event_source_type c))\<lparr>time_next := t,
     time_accuracy := if accuracy = 0 then DEFAULT_ACCURACY_USEC else accuracy, enabled := SD_EVENT_ONESHOT\<rparr>"

lemma settled_clock:
  assumes "e' = with_clock c f e" "r < 0" "\<not> good" "event_get_clock (src_type x) = Some c"
  shows "settled s x good e r e'"
proof -
  have "src_type x \<noteq> SOURCE_EXIT" using assms(4) by (auto simp: event_get_clock_def)
  then show ?thesis using assms by (simp add: settled_def alone_def undone_def same_state_def watched_def with_clock_def)
qed

lemma time_settled:
  assumes "sd_event_add_time k s (Some c) t accuracy e = Inr (r, e')" "loop_ok e"
  shows "settled s (time_source c t accuracy) (prepared k e \<and> accuracy \<noteq> - 1) e r e'"
proof (cases "accuracy = - 1 \<or> may_add e < 0")
  case True
  then have "e' = e" "r < 0" using assms(1) by (auto simp: sd_event_add_time_def split: if_splits)
  then show ?thesis using True by (intro settled_refused) (auto simp: prepared_def willing_def may_add_def)
next
  case False
  let ?x = "time_source c t accuracy"
  have x: "event_get_clock (src_type ?x) = Some c" "src_type ?x \<notin> {SOURCE_WATCHDOG, SOURCE_INOTIFY, SOURCE_CHILD, SOURCE_IO, SOURCE_EXIT, SOURCE_POST, SOURCE_SIGNAL}"
    "newborn ?x" by (cases c; simp add: time_source_def clock_to_event_source_type_def blank_source_def event_get_clock_def newborn_def)+
  obtain r0 d where su: "setup_clock_data k c e = (r0, with_clock c (\<lambda>_. d) e)" by (rule setup_clock_ok [OF loop_okD(6) [OF assms(2)]])
  show ?thesis
  proof (cases "r0 < 0 \<or> \<not> mem k 8")
    case True
    then have "e' = with_clock c (\<lambda>_. d) e" "r < 0" using assms(1) False su by (auto simp: sd_event_add_time_def Let_def split: if_splits)
    then show ?thesis using True setup_clock_willing [OF su] x(1) by (intro settled_clock) (auto simp: prepared_def willing_def)
  next
    case ok: False
    obtain g r1 e1 where put: "event_source_time_prioq_put (mem k 4) (mem k 5) s c (with_clock c g (joined s ?x e)) = Inr (r1, e1)"
      and run: "source_added s r1 e1 = Inr (r, e')"
    proof -
      let ?g = "\<lambda>d. d\<lparr>earliest_q := map_option (forget_index s) (earliest_q d), latest_q := map_option (forget_index s) (latest_q d)\<rparr>"
      have "with_clock c ?g (joined s ?x (with_clock c (\<lambda>_. d) e)) = with_clock c (\<lambda>_. ?g d) (joined s ?x e)"
        by (simp add: with_clock_def joined_def)
      then have "rbind (event_source_time_prioq_put (mem k 4) (mem k 5) s c (with_clock c (\<lambda>_. ?g d) (joined s ?x e))) (\<lambda>(r, e). source_added s r e) = Inr (r, e')"
        using assms(1) False ok su by (simp add: sd_event_add_time_def joined_new time_source_def Let_def)
      then show ?thesis using that by (auto simp: res_iff)
    qed
    obtain f where f: "e1 = with_clock c f (with_clock c g (joined s ?x e))" "0 \<le> r1 \<longrightarrow> needs_rearm (clocks e1 c)" "mem k 4 \<and> mem k 5 \<longrightarrow> 0 \<le> r1"
      using time_put_frame [OF put] by blast
    have w: "watched e1 = watched e" "sources e1 s = ?x" "post_sources e1 = post_sources e" "signal_sources e1 = signal_sources e" "s \<in> attached e1"
      "signals_ok e1 = signals_ok e"
      by (simp_all add: f(1) with_clock_def watched_def signals_ok_def fun_eq_iff)
    have al: "alone ?x e e1" using joined_alone [of ?x e s ?x] x(1,2) f(1) by (simp add: alone_def same_state_def with_clock_def watched_def)
    have "placed s ?x e e1" if "0 \<le> r1"
      using x(1,2) w f(2) that by (simp add: placed_def kernel_watches_def own_signals_def EVENT_SOURCE_WATCH_PIDFD_def)
    moreover have "0 \<le> r1" if "prepared k e" using f(3) that by (simp add: prepared_def willing_def)
    ultimately show ?thesis by (intro settled_added [OF run al]) (use x w loop_signals_ok [OF assms(2)] in auto)
  qed
qed

definition added :: "nat \<Rightarrow> event_source \<Rightarrow> bool \<Rightarrow> event_loop \<Rightarrow> (int \<times> event_loop) res \<Rightarrow> bool" where
  "added s x good e m \<longleftrightarrow> all_in_order s e m \<and> (\<exists>r e'. m = Inr (r, e') \<and> settled s x good e r e')"

lemma addedI: "all_in_order s e m \<Longrightarrow> (\<And>r e'. m = Inr (r, e') \<Longrightarrow> settled s x good e r e') \<Longrightarrow> added s x good e m"
  unfolding added_def all_in_order_def by blast

text \<open>
  C13. Adding an event source, of any of the six kinds, is all or nothing, whatever allocation or call of the kernel fails: no assertion fails, also
  none in the clean-up of a source that is in no queue yet, and the event loop is left in order. When the call succeeds, the source is in the event loop
  with its settings, in the table of its kind, and the kernel watches its descriptor or its signal, or its clock is to be armed anew. When an error is
  returned, the source is nowhere. All other sources and tables, the iteration, the exit code and the counts are as they were either way, as are the
  signals of others. What a failed call may leave behind is the set-up of the clock (its descriptor and empty queues) or of the exit queue, room in the
  queues, and a signal no longer watched that no source was there for. With valid arguments, before the end of the loop and in
  the process that made it, the call succeeds when neither the kernel nor the memory refuses.
\<close>

theorem adding_all_or_nothing:
  assumes "loop_ok e" "registry_ok e" "fresh s e"
  shows "added s io_source (prepared k e \<and> 0 \<le> fd \<and> events AND NOT EPOLL_EVENTS = 0) e (sd_event_add_io k s fd events e) \<and>
    added s (time_source c t accuracy) (prepared k e \<and> accuracy \<noteq> - 1) e (sd_event_add_time k s (Some c) t accuracy e) \<and>
    (\<exists>r. r < 0 \<and> sd_event_add_time k s None t accuracy e = Inr (r, e)) \<and>
    added s (signal_source_of sig) (prepared k e \<and> SIGNAL_VALID sig \<and> (block = Some 0 \<or> block = None \<and> 0 < blocked) \<and> signal_sources e sig = None) e
      (sd_event_add_signal k s sig block blocked e) \<and>
    added s (defer_source e) (prepared k e) e (sd_event_add_defer k s e) \<and> added s post_source (prepared k e) e (sd_event_add_post k s e) \<and>
    added s exit_source (prepared k e) e (sd_event_add_exit k s e)"
proof -
  note sig = loop_signals_ok [OF assms(1)]
  have "s \<notin> post_sources e" using assms(3) registryD(1) [OF assms(2)] by (auto simp: fresh_def)
  moreover have "\<exists>r. r < 0 \<and> sd_event_add_time k s None t accuracy e = Inr (r, e)" by (simp add: sd_event_add_time_def)
  ultimately show ?thesis
    by (intro conjI addedI add_io_ok [OF assms] add_time_ok [OF assms] add_signal_ok [OF assms] add_defer_ok [OF assms] add_post_ok [OF assms]
      add_exit_ok [OF assms] io_settled [OF _ sig] time_settled [OF _ assms(1)] signal_settled [OF _ sig] defer_settled [OF _ assms]
      post_settled [OF _ sig] exit_settled [OF _ sig])
qed

theorem adding_all_or_nothing_witness:
  "added 3 io_source True limited_loop (sd_event_add_io demo_kernel 3 5 1 limited_loop) \<and>
    added 3 (time_source CLOCK_REALTIME 1000 0) True limited_loop (sd_event_add_time demo_kernel 3 (Some CLOCK_REALTIME) 1000 0 limited_loop) \<and>
    added 3 (signal_source_of 10) True limited_loop (sd_event_add_signal demo_kernel 3 10 (Some 0) 0 limited_loop) \<and>
    added 3 (defer_source limited_loop) True limited_loop (sd_event_add_defer demo_kernel 3 limited_loop) \<and>
    added 3 post_source True limited_loop (sd_event_add_post demo_kernel 3 limited_loop) \<and>
    added 3 exit_source True limited_loop (sd_event_add_exit demo_kernel 3 limited_loop)"
proof -
  have fresh: "fresh 3 limited_loop" by (simp add: fresh_def limited_fields small_def)
  have "prepared demo_kernel limited_loop = True" "SIGNAL_VALID 10 = True" "(1 :: 32 word) AND NOT EPOLL_EVENTS = 0" "signal_sources limited_loop 10 = None"
    by (simp_all add: prepared_def willing_def demo_kernel_def limited_fields SIGNAL_VALID_def EPOLL_EVENTS_def) (simp add: limited_loop_def demo_loop_def)
  then show ?thesis
    using adding_all_or_nothing [OF limited_loop_ok limited_registry_ok fresh, of demo_kernel 5 1 CLOCK_REALTIME 1000 0 10 "Some 0" 0] by simp
qed

end
