(* ===== verification/EventPrepare.thy ===== *)
theory EventPrepare
  imports EventLimits
begin

text \<open>
  The prepare callbacks (\<open>sd-event.c\<close>): setting one, and running them before the event loop waits. Which function is called is not in the state, only
  whether there is one. The loop of \<open>event_prepare\<close> takes fuel; \<open>None\<close> when it has not ended.
\<close>

section \<open>The operations\<close>

definition sd_event_source_set_prepare :: "kernel \<Rightarrow> nat option \<Rightarrow> bool \<Rightarrow> event_loop \<Rightarrow> (int \<times> event_loop) res" where
  "sd_event_source_set_prepare k s b e = (case s of None \<Rightarrow> Inr (- EINVAL, e)
     | Some s \<Rightarrow>
         if src_type (sources e s) = SOURCE_EXIT then Inr (- EDOM, e)
         else if finished e then Inr (- ESTALE, e)
         else if pid_changed e then Inr (- ECHILD, e)
         else if has_prepare (sources e s) = b then Inr (0, e)
         else
          (let (r, q) = prioq_ensure_allocated (mem k 2) (\<lambda>_. PRIOQ_IDX_NULL) (prepare_q e); e = e\<lparr>prepare_q := q\<rparr> in
           if r < 0 then Inr (r, e)
           else
            (let e = with_source s (\<lambda>x. x\<lparr>has_prepare := b\<rparr>) e in
             if b then rbind (queue (prepare_q e)) (\<lambda>q. rbind (prioq_put (prepare_prioq_compare (sources e)) (mem k 4) s (Some s) q)
               (\<lambda>(r, q). Inr (if r < 0 then r else 0, e\<lparr>prepare_q := Some q\<rparr>)))
             else rbind (prioq_remove (prepare_prioq_compare (sources e)) s (Some s) (prepare_q e)) (\<lambda>(_, q). Inr (0, e\<lparr>prepare_q := q\<rparr>)))))"

definition prepare_source :: "kernel \<Rightarrow> (nat \<Rightarrow> event_loop \<Rightarrow> int \<times> event_loop) \<Rightarrow> nat \<Rightarrow> event_loop \<Rightarrow> event_loop res" where
  \<comment> \<open>one turn of \<open>event_prepare\<close>\<close>
  "prepare_source k cbs s e =
     (let e = with_source s (\<lambda>x. x\<lparr>prepare_iteration := iteration e\<rparr>) e in
      rbind (queue (prepare_q e)) (\<lambda>q. rbind (prioq_reshuffle (prepare_prioq_compare (sources e)) s (Some s) q) (\<lambda>q.
      let e = e\<lparr>prepare_q := Some q\<rparr> in
      rbind (rassert (has_prepare (sources e s)) AssertFail) (\<lambda>_.
      let (r, e) = run_callback (cbs s) s e in after_callback k True s r e))))"

fun event_prepare :: "kernel \<Rightarrow> (nat \<Rightarrow> event_loop \<Rightarrow> int \<times> event_loop) \<Rightarrow> nat \<Rightarrow> event_loop \<Rightarrow> (int \<times> event_loop) res option" where
  "event_prepare k cbs 0 e = None"
| "event_prepare k cbs (Suc fuel) e = (case prioq_peek (prepare_q e) of
       None \<Rightarrow> Some (Inr (0, e))
     | Some s \<Rightarrow>
         if prepare_iteration (sources e s) = iteration e \<or> event_source_is_offline (sources e s) then Some (Inr (0, e))
         else (case prepare_source k cbs s e of Inl err \<Rightarrow> Some (Inl err) | Inr e \<Rightarrow> event_prepare k cbs fuel e))"

section \<open>Preparing\<close>

lemma prepare_change_ok:
  assumes "loop_ok e" "s \<in> attached e" "\<And>x. f x = x\<lparr>has_prepare := has_prepare (f x), prepare_iteration := prepare_iteration (f x)\<rparr>"
    "prepare_ok (sources (with_source s f e)) (attached e) q"
  shows "loop_ok ((with_source s f e)\<lparr>prepare_q := q\<rparr>)"
proof -
  let ?x = "sources e s" and ?e = "(with_source s f e)\<lparr>prepare_q := q\<rparr>"
  note l = loop_okD [OF assms(1)]
  obtain p i where f: "f ?x = ?x\<lparr>has_prepare := p, prepare_iteration := i\<rparr>" using assms(3) by blast
  have "pending_ok (sources ?e) (attached ?e) (pending_q ?e)" by (simp, rule pending_ok_ranks [OF l(3)]) (auto simp: pending_rank_def f)
  moreover have "prepare_ok (sources ?e) (attached ?e) (prepare_q ?e)" using assms(4) by simp
  moreover have "exit_ok (sources ?e) (attached ?e) (exit_q ?e)" by (simp, rule exit_ok_ranks [OF l(5)]) (auto simp: exit_rank_def f)
  moreover have "members ?e = members e" by (auto simp: members_def clock_of_def fun_eq_iff f)
  moreover have "clock_ok (sources ?e) (clocks ?e c) (members e c)" for c
    by (simp, rule clock_ok_ranks [OF l(6)]) (auto simp: earliest_rank_def latest_rank_def event_source_timer_candidate_def
      next_time_def latest_time_def limit_set_def f)
  moreover have "books_ok ?e"
    by (rule books_ok_state [OF l(2) assms(2), of _ "f ?x"])
      (use source_okD(1,2) [OF l(11) [OF assms(2)]] loop_signals_ok [OF assms(1)] in
        \<open>simp_all add: f limit_set_def signals_ok_def children_after_def event_source_is_online_def\<close>)
  ultimately show ?thesis by (simp add: loop_ok_def queues_ok_def)
qed

definition unprepared :: "event_loop \<Rightarrow> nat set" where
  "unprepared e = {x \<in> attached e. has_prepare (sources e x) \<and> prepare_iteration (sources e x) \<noteq> iteration e}"

definition quiet :: "(event_loop \<Rightarrow> int \<times> event_loop) \<Rightarrow> bool" where \<comment> \<open>a callback that gives no source, old or new, a prepare callback\<close>
  "quiet cb \<longleftrightarrow> (\<forall>e r e'. cb e = (r, e') \<longrightarrow> unprepared e' \<subseteq> unprepared e)"

lemma prepare_source_ok:
  assumes "loop_ok e" "registry_ok e" "\<not> pid_changed e" "s \<in> attached e" "has_prepare (sources e s)" "callback_ok (cbs s) s"
  obtains e' where "prepare_source k cbs s e = Inr e'" "loop_ok e'" "registry_ok e'" "\<not> pid_changed e'"
    "quiet (cbs s) \<longrightarrow> unprepared e' \<subseteq> unprepared e - {s}"
proof -
  let ?f = "\<lambda>x. x\<lparr>prepare_iteration := iteration e\<rparr>" and ?e1 = "with_source s (\<lambda>x. x\<lparr>prepare_iteration := iteration e\<rparr>) e"
  note l = loop_okD [OF assms(1)]
  obtain q q' where q: "prepare_q e = Some q" "prioq_reshuffle (prepare_prioq_compare (sources ?e1)) s (Some s) q = Inr q'"
    "prepare_ok (sources ?e1) (attached e) (Some q')"
    by (rule prepare_reorder_ok [OF l(4,7) assms(4), of "sources ?e1"]) (use assms(5) in auto)
  let ?e2 = "?e1\<lparr>prepare_q := Some q'\<rparr>"
  have e2: "loop_ok ?e2" by (rule prepare_change_ok [OF assms(1,4) _ q(3)]) simp
  have g2: "registry_ok ?e2" by (rule registry_same [OF assms(2)]) (simp_all add: same_loop_def)
  have s2: "s \<in> attached ?e2" "\<not> pid_changed ?e2" using assms(3,4) by simp_all
  obtain r e3 where r: "run_callback (cbs s) s ?e2 = (r, e3)" by fastforce
  let ?e2' = "with_source s (\<lambda>x. x\<lparr>dispatching := True\<rparr>) ?e2"
  have cb: "cbs s ?e2' = (r, e3)" using r by (simp add: run_callback_def)
  have s2': "s \<in> attached ?e2'" using assms(4) by simp
  note c = callback_okD [OF assms(6) cb dispatching_ok [OF e2 g2 s2(1)] s2']
  have pid: "\<not> pid_changed e3" using c(3) assms(3) by simp
  obtain e4 where e4: "after_callback k True s r e3 = Inr e4" "loop_ok e4" "registry_ok e4" "\<not> pid_changed e4" "attached e4 \<subseteq> attached e3"
    "state e4 = state e3" "iteration e4 = iteration e3" "keeps_prepares e3 e4" by (rule after_callback_ok [OF c(1,2) pid c(4), of k True r])
  have "prepare_source k cbs s e = Inr e4" using q(1,2) assms(5) r e4(1) by (simp add: prepare_source_def queue_def)
  moreover have "unprepared e4 \<subseteq> unprepared e - {s}" if "quiet (cbs s)"
  proof -
    have "unprepared e4 \<subseteq> unprepared e3" using e4(5,7,8) by (auto simp: unprepared_def keeps_prepares_def)
    also have "\<dots> \<subseteq> unprepared ?e2'" using that cb by (auto simp: quiet_def)
    also have "\<dots> \<subseteq> unprepared e - {s}" by (auto simp: unprepared_def split: if_splits)
    finally show ?thesis .
  qed
  ultimately show ?thesis using that e4(2-4) by blast
qed

lemma next_prepare:
  assumes "loop_ok e"
  obtains (none) "prioq_peek (prepare_q e) = None" "\<forall>x \<in> attached e. \<not> has_prepare (sources e x)"
  | (first) s where "prioq_peek (prepare_q e) = Some s" "s \<in> attached e" "has_prepare (sources e s)"
      "\<And>x. x \<in> attached e \<Longrightarrow> has_prepare (sources e x) \<Longrightarrow> prepare_rank (sources e) s \<le> prepare_rank (sources e) x"
proof -
  have "queue_of (prepare_rank (sources e)) (\<lambda>s. has_prepare (sources e s)) (prepare_q e) {s \<in> attached e. has_prepare (sources e s)}"
    using loop_okD(4) [OF assms] by (simp add: prepare_ok_def)
  then show ?thesis by (rule prepares.peeks) (use none first in auto)
qed

definition prepared :: "event_loop \<Rightarrow> bool" where
  "prepared e \<longleftrightarrow> (\<forall>x \<in> attached e. has_prepare (sources e x) \<and> event_source_is_online (sources e x) \<longrightarrow> iteration e \<le> prepare_iteration (sources e x))"

lemma event_prepare_in_order:
  assumes "loop_ok e" "registry_ok e" "\<not> pid_changed e" "\<And>s. callback_ok (cbs s) s"
  shows "case event_prepare k cbs fuel e of
      None \<Rightarrow> (\<exists>s. \<not> quiet (cbs s)) \<or> fuel \<le> card (unprepared e)
    | Some (Inl _) \<Rightarrow> False
    | Some (Inr (r, e')) \<Rightarrow> r = 0 \<and> loop_ok e' \<and> registry_ok e' \<and> prepared e'"
  using assms(1-3)
proof (induction fuel arbitrary: e)
  case (Suc fuel)
  show ?case
  proof (cases rule: next_prepare [OF Suc.prems(1), case_names none first])
    case none
    then show ?thesis using Suc.prems by (simp add: prepared_def)
  next
    case (first s)
    show ?thesis
    proof (cases "prepare_iteration (sources e s) = iteration e \<or> event_source_is_offline (sources e s)")
      case True
      have "iteration e \<le> prepare_iteration (sources e x)"
        if "x \<in> attached e" "has_prepare (sources e x)" "event_source_is_online (sources e x)" for x
        using first(4) [OF that(1,2)] that(3) True by (auto simp: prepare_rank_def event_source_is_online_def less_eq_prod_def)
      then show ?thesis using first(1) True Suc.prems by (simp add: prepared_def)
    next
      case False
      obtain e' where e': "prepare_source k cbs s e = Inr e'" "loop_ok e'" "registry_ok e'" "\<not> pid_changed e'"
        "quiet (cbs s) \<longrightarrow> unprepared e' \<subseteq> unprepared e - {s}" by (rule prepare_source_ok [where k = k and cbs = cbs, OF Suc.prems first(2,3) assms(4)])
      have run: "event_prepare k cbs (Suc fuel) e = event_prepare k cbs fuel e'" using first(1) False e'(1) by simp
      have s: "s \<in> unprepared e" "finite (unprepared e)"
        using first(2,3) False loop_okD(7) [OF Suc.prems(1)] by (auto simp: unprepared_def small_def)
      have "(\<exists>s. \<not> quiet (cbs s)) \<or> Suc fuel \<le> card (unprepared e)" if "(\<exists>s. \<not> quiet (cbs s)) \<or> fuel \<le> card (unprepared e')"
      proof (cases "\<exists>s. \<not> quiet (cbs s)")
        case False
        then have "card (unprepared e') \<le> card (unprepared e - {s})" using e'(5) s(2) by (intro card_mono) auto
        also have "\<dots> < card (unprepared e)" using s by (intro psubset_card_mono) auto
        finally show ?thesis using that False by auto
      qed simp
      then show ?thesis using Suc.IH [OF e'(2-4)] unfolding run by (cases "event_prepare k cbs fuel e'") (simp_all only: option.case)
    qed
  qed
qed simp


section \<open>A prepare callback that is never run\<close>

lemma set_prepare_ok:
  assumes "loop_ok e" "registry_ok e" "s \<in> attached e" "b \<longrightarrow> mem k 4"
  obtains r e' where "sd_event_source_set_prepare k (Some s) b e = Inr (r, e')" "loop_ok e'" "registry_ok e'" "pid_changed e' = pid_changed e"
proof (cases "src_type (sources e s) = SOURCE_EXIT \<or> finished e \<or> pid_changed e \<or> has_prepare (sources e s) = b")
  case True
  then have "\<exists>r. sd_event_source_set_prepare k (Some s) b e = Inr (r, e)" by (auto simp: sd_event_source_set_prepare_def)
  then show ?thesis using that assms(1,2) by blast
next
  case False
  note l = loop_okD [OF assms(1)]
  let ?M = "{x \<in> attached e. has_prepare (sources e x)}"
  have "queue_of (prepare_rank (sources e)) (\<lambda>x. has_prepare (sources e x)) (prepare_q e) ?M" using l(4) by (simp add: prepare_ok_def)
  then obtain r q where q: "prioq_ensure_allocated (mem k 2) (\<lambda>_. PRIOQ_IDX_NULL) (prepare_q e) = (r, q)"
    "queue_of (prepare_rank (sources e)) (\<lambda>x. has_prepare (sources e x)) q ?M" "r = 0 \<longrightarrow> q \<noteq> None" "r \<le> 0" "r = 0 \<or> q = prepare_q e"
    "prepare_q e \<noteq> None \<longrightarrow> q \<noteq> None" by (rule new_queue_ok)
  show ?thesis
  proof (cases "r < 0")
    case True
    then have "e\<lparr>prepare_q := q\<rparr> = e" using q(5) by simp
    then show ?thesis using that [of r e] True False q(1) assms(1,2) by (simp add: sd_event_source_set_prepare_def Let_def)
  next
    case ok: False
    then obtain p where p: "q = Some p" using q(3,4) by auto
    let ?e1 = "with_source s (\<lambda>x. x\<lparr>has_prepare := b\<rparr>) e"
    have fin: "small ?M" "small (?M - {s})" using small_subset [OF l(7)] by (auto intro: small_subset)
    have g1: "registry_ok (?e1\<lparr>prepare_q := q'\<rparr>)" for q' by (rule registry_same [OF assms(2)]) (simp_all add: same_loop_def)
    have l1: "loop_ok (?e1\<lparr>prepare_q := q'\<rparr>)" if "prepare_ok (sources ?e1) (attached e) q'" for q'
      by (rule prepare_change_ok [OF assms(1,3) _ that]) simp
    have rank: "prepare_rank (sources ?e1) x = prepare_rank (sources e) x" for x by (simp add: prepare_rank_def)
    show ?thesis
    proof (cases b)
      case True
      then have s: "s \<notin> ?M" "{x \<in> attached e. has_prepare (sources ?e1 x)} = insert s ?M" using False assms(3) by auto
      have Q: "queue_of (prepare_rank (sources ?e1)) (\<lambda>x. has_prepare (sources ?e1 x)) (Some p) ?M"
        by (rule queue_of_cong [OF q(2) [unfolded p]]) (use rank True in auto)
      have v: "has_prepare (sources ?e1 s)" "card ?M < 2 ^ 31 - 1" using True fin(1) by (simp_all add: small_def)
      obtain q' where put: "prioq_put (prepare_prioq_compare (sources ?e1)) (mem k 4) s (Some s) p = Inr (0, q')"
        "queue_of (prepare_rank (sources ?e1)) (\<lambda>x. has_prepare (sources ?e1 x)) (Some q') (insert s ?M)"
      proof (rule prepares.puts [OF Q s(1) v, of "mem k 4"])
        assume "\<not> mem k 4"
        then show thesis using assms(4) True by simp
      qed
      have "sd_event_source_set_prepare k (Some s) b e = Inr (0, ?e1\<lparr>prepare_q := Some q'\<rparr>)"
        using False ok q(1) p True put(1) by (simp add: sd_event_source_set_prepare_def with_source_def queue_def)
      then show ?thesis using that l1 [of "Some q'"] g1 put(2) s(2) by (simp add: prepare_ok_def)
    next
      case off: False
      then have s: "s \<in> ?M" "{x \<in> attached e. has_prepare (sources ?e1 x)} = ?M - {s}" using False assms(3) by auto
      have cong: "x \<in> ?M \<Longrightarrow> x \<noteq> s \<Longrightarrow> prepare_rank (sources ?e1) x = prepare_rank (sources e) x \<and>
          (has_prepare (sources e x) \<longrightarrow> has_prepare (sources ?e1 x))" for x using rank by simp
      obtain q' where out: "prioq_remove (prepare_prioq_compare (sources ?e1)) s (Some s) q = Inr (1, Some q')"
        "queue_of (prepare_rank (sources ?e1)) (\<lambda>x. has_prepare (sources ?e1 x)) (Some q') (?M - {s})" "card (?M - {s}) < n_allocated q'"
        by (rule prepares.removes [OF q(2) s(1) small_index [OF fin(1)] cong])
      have "sd_event_source_set_prepare k (Some s) b e = Inr (0, ?e1\<lparr>prepare_q := Some q'\<rparr>)"
        using False ok q(1) off out(1) by (simp add: sd_event_source_set_prepare_def with_source_def)
      then show ?thesis using that l1 [of "Some q'"] g1 out(2) s(2) by (simp add: prepare_ok_def)
    qed
  qed
qed

text \<open>
  When there is no memory for its place in the queue, the prepare callback of a source is set all the same: the error is returned, the event loop is no longer in order,
  and setting the callback again, with memory, reports success and does nothing, so it is not in the queue that \<open>event_prepare\<close> takes the sources from.
\<close>

theorem prepare_lost_without_memory:
  assumes "loop_ok e" "s \<in> attached e" "src_type (sources e s) \<noteq> SOURCE_EXIT" "\<not> finished e" "\<not> pid_changed e" "\<not> has_prepare (sources e s)"
    "mem k 2" "\<not> mem k 4" "\<And>q. prepare_q e = Some q \<Longrightarrow> n_allocated q \<le> n_items q"
  shows "\<exists>e'. sd_event_source_set_prepare k (Some s) True e = Inr (- ENOMEM, e') \<and> has_prepare (sources e' s) \<and> \<not> loop_ok e' \<and>
    (\<forall>k'. sd_event_source_set_prepare k' (Some s) True e' = Inr (0, e')) \<and>
    queue_of (prepare_rank (sources e')) (\<lambda>x. has_prepare (sources e' x)) (prepare_q e') {x \<in> attached e' - {s}. has_prepare (sources e' x)}"
proof -
  let ?M = "{x \<in> attached e. has_prepare (sources e x)}"
  have Q: "queue_of (prepare_rank (sources e)) (\<lambda>x. has_prepare (sources e x)) (prepare_q e) ?M" using loop_okD(4) [OF assms(1)] by (simp add: prepare_ok_def)
  obtain r q where q: "prioq_ensure_allocated (mem k 2) (\<lambda>_. PRIOQ_IDX_NULL) (prepare_q e) = (r, q)"
    "queue_of (prepare_rank (sources e)) (\<lambda>x. has_prepare (sources e x)) q ?M" "r = 0 \<longrightarrow> q \<noteq> None" "r \<le> 0" "r = 0 \<or> q = prepare_q e"
    "prepare_q e \<noteq> None \<longrightarrow> q \<noteq> None" by (rule new_queue_ok [OF Q])
  have "\<exists>p. q = Some p \<and> r = 0 \<and> n_allocated p \<le> n_items p"
  proof (cases "prepare_q e")
    case None
    then show ?thesis using q(1) assms(7) by (auto simp: prioq_ensure_allocated_def prioq_new_def)
  next
    case (Some p)
    then show ?thesis using q(1) assms(9) [OF Some] by (intro exI [of _ p]) (simp add: prioq_ensure_allocated_def)
  qed
  then obtain p where p: "q = Some p" "r = 0" "n_allocated p \<le> n_items p" by blast
  let ?e = "(with_source s (\<lambda>x. x\<lparr>has_prepare := True\<rparr>) e)\<lparr>prepare_q := q\<rparr>"
  have full: "prioq_put cmp False s (Some s) p = Inr (- ENOMEM, p)" for cmp using p(3) by (simp add: prioq_put_def)
  have sets: "{x \<in> attached ?e - {s}. has_prepare (sources ?e x)} = ?M" "s \<notin> ?M" "s \<in> {x \<in> attached ?e. has_prepare (sources ?e x)}"
    using assms(2,6) by auto
  have queue: "queue_of (prepare_rank (sources ?e)) (\<lambda>x. has_prepare (sources ?e x)) (prepare_q ?e) ?M"
    using queue_of_cong [OF q(2), of "prepare_rank (sources ?e)" "\<lambda>x. has_prepare (sources ?e x)"] by (simp add: prepare_rank_def)
  have "\<not> loop_ok ?e"
  proof
    assume "loop_ok ?e"
    then have "prepare_ok (sources ?e) (attached ?e) (prepare_q ?e)" by (rule loop_okD(4))
    then have h1: "holds id p {x \<in> attached ?e. has_prepare (sources ?e x)}" using p(1) by (simp add: prepare_ok_def queue_of_def)
    have h2: "holds id p ?M" using queue p(1) by (simp add: queue_of_def)
    have eq: "entry id ` {x \<in> attached ?e. has_prepare (sources ?e x)} = entry id ` ?M" by (rule trans [OF sym [OF holds_set [OF h1]] holds_set [OF h2]])
    have "inj (entry id :: nat \<Rightarrow> nat prioq_item)" by (rule injI) (simp add: entry_def)
    then have "{x \<in> attached ?e. has_prepare (sources ?e x)} = ?M" by (rule iffD1 [OF inj_image_eq_iff eq])
    then show False using sets(2,3) by (simp only:)
  qed
  moreover have "sd_event_source_set_prepare k (Some s) True e = Inr (- ENOMEM, ?e)"
    using assms(3-6,8) q(1) p full by (simp add: sd_event_source_set_prepare_def with_source_def queue_def ENOMEM_def)
  moreover have "sd_event_source_set_prepare k' (Some s) True ?e = Inr (0, ?e)" for k' using assms(3-5) by (simp add: sd_event_source_set_prepare_def)
  ultimately show ?thesis using queue sets(1) by (intro exI [of _ ?e]) simp
qed

section \<open>On small loops\<close>

text \<open>In \<open>demo_loop\<close> no source has a prepare callback; source 1 gets one, first with memory and then without.\<close>

theorem prepare_lost_without_memory_witness:
  "\<exists>e'. sd_event_source_set_prepare (demo_kernel\<lparr>mem := (\<lambda>i. i \<noteq> 4)\<rparr>) (Some 1) True demo_loop = Inr (- ENOMEM, e') \<and> has_prepare (sources e' 1) \<and>
    \<not> loop_ok e' \<and> (\<forall>k'. sd_event_source_set_prepare k' (Some 1) True e' = Inr (0, e')) \<and>
    queue_of (prepare_rank (sources e')) (\<lambda>x. has_prepare (sources e' x)) (prepare_q e') {x \<in> attached e' - {1}. has_prepare (sources e' x)}"
proof (rule prepare_lost_without_memory [OF demo_loop_ok])
  show "n_allocated q \<le> n_items q" if "prepare_q demo_loop = Some q" for q using that by (simp add: demo_loop_def)
qed (simp_all add: demo_loop_fields demo_timer_def)


end
