(* ===== verification/Spec2Isabelle.thy ===== *)
theory Spec2Isabelle
  imports LightSystem BeatBox MorseDriver ReactionGame Noworky UsbBos Base32 TextLayout Gamepad
    EventExpiry EventDispatch EventAdding EventPrepare
begin

text \<open>
  Verification of the C programs of a BeagleBone course project (\<open>work/\<close>) and of the self-contained parts
  of the two libraries whose sources are kept beside them (\<open>work/crosscompile/\<close>).

  \<^bold>\<open>The program.\<close> The project consists of separate programs for one small board:
  a light sampler (\<open>as2/\<close>: a sampling thread, a UDP server that answers questions about the
  samples, and a thread that drives a two-digit display), a beat-box (\<open>pcmExample/\<close>: a thread that mixes
  sounds into an ALSA device, a main thread that queues the sounds of a beat, a joystick thread and a UDP
  server that turn the same knobs), a reaction game (\<open>as1/\<close>), a kernel driver that flashes
  Morse code (\<open>morsecode/\<close>), an array exercise (\<open>as2/noworky.c\<close>), and two readers of a game pad
  (\<open>myApps/\<close>) on top of the USB library. The USB library's part that computes on the bytes of a
  device is \<open>libusb/descriptor.c\<close>. Of the system library the text codecs (\<open>basic/hexdecoct.c\<close>), the
  priority queue (\<open>basic/prioq.c\<close>), rate limits (\<open>basic/ratelimit.c\<close>) and the event loop
  (\<open>libsystemd/sd-event/sd-event.c\<close>) are modelled.

  \<^bold>\<open>Conventions.\<close> A C function is a HOL function of the same name from the state it can see (a record
  with the fields of its structures or static variables) to \<open>cerror + result\<close>: \<open>Inl\<close> is undefined
  behaviour or a failed assertion (an index out of bounds, a dead pointer, an uninitialised read, a division by
  zero), so a theorem that a call is \<open>Inr\<close> is a theorem of memory safety. An error code the program returns is
  a value. Integers whose wrap-around the code can reach are words of their width; others are integers or
  naturals, as the theory concerned says. What comes from outside (files, clocks, the network, device
  results, success of an allocation) is an argument, a list of events, or the field of an environment.

  \<^bold>\<open>Shared theories.\<close>
  \<^item> \<open>Prelude\<close>: failures, results and their sequencing, arrays with checked bounds, counted loops with their
    total-correctness rules.
  \<^item> \<open>CFloat\<close>: \<open>float\<close> and \<open>double\<close> as rationals with rounding to nearest even after every operation;
    rounding is monotone and fixes representable numbers.
  \<^item> \<open>CHeap\<close>: blocks behind pointers; the locale \<open>cell_store\<close> is the interface of the clients, and is
    interpreted on the store itself.
  \<^item> \<open>CStrings\<close>: decimal conversion and its inverse, prefixes, \<open>%5.3f\<close>.

  \<^bold>\<open>Light sampler.\<close>
  \<^item> \<open>PeriodTimer\<close> (\<open>periodTimer.c\<close>): marks and reports of time-stamped events. Its operations refine an
    abstract window of timestamps, and all reports of any run of calls are in order.
  \<^item> \<open>Sampler\<close> (\<open>sampler.c\<close>): the whole module on the explicit store. Runs of samples refine a light model
    (ring, average, total, dips). Changing the size is followed through every case: growing and shrinking a
    full ring are functions on the list of samples, shrinking one that is not full overruns the new block or
    leaves unwritten cells. With growing sizes only the whole thread is safe.
  \<^item> \<open>UdpListen\<close> (\<open>udpListen.c\<close>): the commands and the 1024-byte reply buffer; the history reply fits up to
    145 samples and overruns the buffer from 146 on.
  \<^item> \<open>LedDisplay\<close> (\<open>led_display.c\<close>): every function is a list of device operations, replayed on a model of the
    pins; the two digits are never on together.
  \<^item> \<open>LightSystem\<close> (\<open>light_sampler.c\<close>): any interleaving of whole turns of the three threads. The display's devices may
    refuse any operation: then that turn ends the program, as the code does, and no other turn fails.

  \<^bold>\<open>Beat-box.\<close>
  \<^item> \<open>AudioMixer\<close> (\<open>audiomixer.c\<close>): the thirty slots and the mixing loop, which computes the saturated sum of
    the sounds (equivalence with sums over the integers); a queued sound is played once, completely. The locale
    \<open>knob\<close> is the contract of the settings and is interpreted for tempo and volume.
  \<^item> \<open>BeatBox\<close> (\<open>beatbox.c\<close>, \<open>joystickInput.c\<close>, \<open>udpListener.c\<close>): beats and the two sources of commands;
    knobs stay in range in any interleaving, and a beat does not fail.

  \<^bold>\<open>The other programs.\<close>
  \<^item> \<open>Joystick\<close> and \<open>ReactionGame\<close> (\<open>as1/joystick.c\<close>, \<open>as1/hello.c\<close>): a world gives what clock, pins and
    random numbers read at each access. The loops may wait forever; with fuel, \<open>None\<close> is "still running". Fuel
    above the number of readings before the clock reaches 5000 is enough for the answering loop
    (\<open>answering_ends\<close>).
  \<^item> \<open>MorseDriver\<close> (\<open>morsedriver.c\<close>): the kernel queue is a parameter with the law of the locale \<open>kfifo\<close>,
    interpreted on a bounded queue; LED events and sleeps are a trace, compared with the Morse code of the text.
  \<^item> \<open>Noworky\<close> (\<open>noworky.c\<close>): a loop over a 32-bit index as a partial function; it leaves the arrays.
  \<^item> \<open>Gamepad\<close> (both \<open>xbox.c\<close>): whatever the USB library answers, it is used in the order it demands.

  \<^bold>\<open>USB library\<close> (\<open>libusb/descriptor.c\<close>, in the order of the file).
  \<^item> \<open>UsbDescriptor\<close>: endpoints and interfaces; \<open>UsbConfig\<close>: configurations and fetching them; \<open>UsbBos\<close>: the
    Binary Object Store, companions and strings. A buffer is a list of bytes and allocations are numbered, each of
    which may fail. For every device and allocation pattern the functions are memory safe, return a code or a
    structure, and release what they should. A structure is as \<open>libusb.h\<close> documents it, but for the last setting of an interface, which can have no
    endpoint array although it counts endpoints (\<open>short_extra_leaves_no_endpoints\<close>); \<open>UsbCodec\<close> has the round trip through written-out
    descriptors and two inputs that the parser accepts but mishandles.

  \<^bold>\<open>System library.\<close>
  \<^item> \<open>HexDecOct\<close>, \<open>Base32\<close>, \<open>Base64\<close>, \<open>TextLayout\<close> (\<open>hexdecoct.c\<close>): encoders and decoders in buffers of the
    size the code computes in a 32-bit \<open>size_t\<close>; decoders are exact inverses of encoders, bounds included, for
    data whose encoding the size can hold.
  \<^item> \<open>Prioq\<close> (\<open>prioq.c\<close>): the heap in an array whose entries tell their owner where they are. The locale
    \<open>comparison\<close> states what a compare function owes the queue; put, remove, reshuffle, peek and draining are
    proved in it. The entries are assumed to be fewer than \<open>2 ^ 31\<close>, so that the index of a child does not wrap.
  \<^item> \<open>RateLimit\<close> (\<open>ratelimit.c\<close>): a window and a 32-bit counter; the first calls of a window are admitted, as many as the burst.

  \<^bold>\<open>Event loop\<close> (\<open>sd-event.c\<close>). The state is one record \<open>event_loop\<close>: the sources by address, the queues of the pending, the prepare and
  the exit sources, two queues for each of five clocks, the signal descriptors by priority, and counters. What the kernel and the allocator answer within
  a call is an argument. The invariants are \<open>loop_ok\<close> (every queue holds exactly the sources it should, in order; the counters count what they should) and
  \<open>registry_ok\<close> (the other tables name sources that are there). Each operation is shown to keep them and to fail no assertion, whatever fails outside.
  \<^item> \<open>EventTimers\<close>: the compare functions of the five kinds of queues, each an interpretation of
    \<open>comparison\<close>, and \<open>sleep_between\<close>, which coalesces wake-ups and, when the boot id can be read, stays in its window
    (otherwise it need not, \<open>sleep_without_boot_id\<close>).
  \<^item> \<open>EventLoop\<close>: the state, the two queues of each clock, the pending sources, setting and arming a timer, marking what has elapsed.
  \<^item> \<open>EventSources\<close>, \<open>EventStates\<close>: enabling, disabling, on and off line, for every kind of source, and what the kernel watches then
    (\<open>kernel_watches\<close>, \<open>kernel_forgets\<close>, \<open>others_watched\<close>); one path forgets to put the clock in order
    (\<open>reenabled_limited_source_sleeps\<close>) and is excluded elsewhere.
  \<^item> \<open>EventRemoval\<close>: taking a source out. \<open>EventSignals\<close>: reading the signals of a priority, and how a removed source stops it.
  \<^item> \<open>EventLimits\<close>: entering and leaving the rate limited state, callbacks and what follows them. A callback is any function that
    satisfies \<open>callback_ok\<close>: it leaves the loop in order, and its own source is there afterwards or has no reference left. So a callback that enables a
    disabled rate limited source is not covered by the theorems on turns, expiry and preparation.
  \<^item> \<open>EventExpiry\<close>: \<open>process_timer\<close> with rate limited sources. The loop takes fuel; without expire callbacks twice the number of sources, plus one,
    is enough, because every turn lets a source leave its limit or makes one pending.
  \<^item> \<open>EventDispatch\<close>: dispatching a source, the exit sources, and one turn of the loop.
  \<^item> \<open>EventAdding\<close>: new sources of six kinds, all or nothing: what a source that was added has, and what a failed call leaves behind.
  \<^item> \<open>EventPrepare\<close>: the prepare callbacks. The loop takes fuel; one more than the sources to prepare is enough when the callbacks set no prepare callback.

  \<^bold>\<open>Not modelled.\<close> The kernel, ALSA, sockets, threads and their scheduling inside a critical section (a call
  under a mutex is one step), module registration and the set-up of pins. Of the USB library the device lists,
  transfers and back ends, which are threads, locks and \<open>ioctl\<close> calls. Of the event loop waiting in
  \<open>epoll\<close>, the watchdog, creating child and inotify sources and reading their events, and the references to the loop itself; of the system library the rest
  of that source tree, which no program here is linked with. \<open>as2/as2/\<close> is a second copy of the sampler,
  \<open>myApps/\<close> has demonstrations of a few fixed calls, the \<open>.mod.c\<close> files are generated, and the web front ends are in
  JavaScript.
\<close>

end
